(* ===== verification/Prelude.thy ===== *)
theory Prelude
  imports Main "HOL-Library.Word" "HOL-Library.Monad_Syntax" "HOL-Library.Multiset"
    "HOL-Library.Product_Lexorder"
begin

unbundle bit_operations_syntax

text \<open>
  Shared vocabulary of the development: the machine types of the C sources, the loop
  combinator that stands for every C loop whose termination is not syntactic, and the
  generic facts about lists and words that the component theories use.

  \<^item> \<open>u8\<close>, \<open>u16\<close>, \<open>u32\<close>, \<open>u64\<close> are the fixed-width unsigned types; C's wrap-around is the
    wrap-around of HOL words.
  \<^item> \<open>size_t\<close> values are natural numbers together with the constant \<open>SIZE_MAX\<close> (LP64:
    $2^{64}-1$); every place where the source guards a \<open>size_t\<close> computation against
    overflow carries that guard.
  \<^item> \<open>c_loop body s\<close> iterates \<open>body\<close>: \<open>Inl s'\<close> continues with \<open>s'\<close>, \<open>Inr r\<close> leaves the
    loop with \<open>r\<close>, and a loop that never leaves has the value \<open>None\<close>.
\<close>

type_synonym u8 = "8 word"
type_synonym u16 = "16 word"
type_synonym u32 = "32 word"
type_synonym u64 = "64 word"
type_synonym bytes = "u8 list"

named_theorems pf_defs \<open>definitions of the pathfinding operations\<close>
named_theorems wire_defs \<open>definitions of the packet reader and writer operations\<close>
named_theorems wire_simps \<open>rewrite rules of the packet codecs\<close>

definition SIZE_MAX :: nat where
  "SIZE_MAX = 2 ^ 64 - 1"

text \<open>The C string in a buffer: the bytes before the first NUL.\<close>

definition c_string :: "bytes \<Rightarrow> bytes" where
  "c_string bs = takeWhile (\<lambda>b. b \<noteq> 0) bs"

definition UINT64_MAX :: u64 where
  "UINT64_MAX = - 1"

lemma SIZE_MAX_pos [simp]: "0 < SIZE_MAX"
  by (simp add: SIZE_MAX_def)

lemma unat_le_SIZE_MAX [simp]: "unat (w :: u64) \<le> SIZE_MAX"
  using unsigned_less [of w, where ?'a = nat] by (simp add: SIZE_MAX_def)

lemma le_UINT64_MAX [simp]: "w \<le> UINT64_MAX"
  by (simp add: UINT64_MAX_def)


section \<open>Loops\<close>

partial_function (option) c_loop :: "('s \<Rightarrow> ('s + 'r) option) \<Rightarrow> 's \<Rightarrow> 'r option" where
  "c_loop body s =
     Option.bind (body s) (\<lambda>x. case x of Inl s' \<Rightarrow> c_loop body s' | Inr r \<Rightarrow> Some r)"

declare c_loop.simps [code]

lemma c_loop_continue: "body s = Some (Inl s') \<Longrightarrow> c_loop body s = c_loop body s'"
  by (simp add: c_loop.simps [of body s])

lemma c_loop_leave: "body s = Some (Inr r) \<Longrightarrow> c_loop body s = Some r"
  by (simp add: c_loop.simps [of body s])

text \<open>
  Total correctness: an invariant that the body keeps, a well-founded relation that every
  continued iteration decreases, and the result each way out establishes.
\<close>

lemma c_loop_total:
  assumes wf: "wf R" and inv: "I s"
    and body: "\<And>s. I s \<Longrightarrow> \<exists>x. body s = Some x \<and>
      (case x of Inl s' \<Rightarrow> I s' \<and> (s', s) \<in> R | Inr r \<Rightarrow> Q r)"
  shows "\<exists>r. c_loop body s = Some r \<and> Q r"
  using wf inv
proof (induction s rule: wf_induct_rule)
  case (less s)
  obtain x where x: "body s = Some x"
    and c: "case x of Inl s' \<Rightarrow> I s' \<and> (s', s) \<in> R | Inr r \<Rightarrow> Q r"
    using body [OF less.prems] by blast
  show ?case
  proof (cases x)
    case (Inl s')
    with x c less.IH show ?thesis by (simp add: c_loop_continue)
  next
    case (Inr r)
    with x c show ?thesis by (simp add: c_loop_leave)
  qed
qed

text \<open>
  Divergence: a set of states from which the body always continues inside the set never
  leaves the loop.
\<close>

lemma c_loop_diverges:
  assumes inv: "I s" and body: "\<And>s. I s \<Longrightarrow> \<exists>s'. body s = Some (Inl s') \<and> I s'"
  shows "c_loop body s = None"
proof (rule ccontr)
  assume "c_loop body s \<noteq> None"
  then obtain r where ret: "c_loop body s = Some r" by blast
  have "body = body \<longrightarrow> \<not> I s"
  proof (rule c_loop.raw_induct [where P = "\<lambda>b s r. b = body \<longrightarrow> \<not> I s", OF _ ret], rule impI, rule notI)
    fix f :: "('a \<Rightarrow> ('a + 'b) option) \<Rightarrow> 'a \<Rightarrow> 'b option" and b s r
    assume IH: "\<And>b s r. f b s = Some r \<Longrightarrow> b = body \<longrightarrow> \<not> I s"
      and eq: "Option.bind (b s) (\<lambda>x. case x of Inl s' \<Rightarrow> f b s' | Inr r \<Rightarrow> Some r) = Some r"
      and b: "b = body" and "I s"
    from \<open>I s\<close> obtain s' where "body s = Some (Inl s')" "I s'" using body by blast
    with eq b have "f b s' = Some r" by simp
    with IH b \<open>I s'\<close> show False by blast
  qed
  with inv show False by simp
qed


section \<open>Lists and words\<close>

lemma length_filter_update:
  assumes "i < length xs"
  shows "length (filter P (xs[i := v])) + (if P (xs ! i) then 1 else 0) =
    length (filter P xs) + (if P v then 1 else 0)"
  using assms
proof (induction xs arbitrary: i)
  case Nil
  then show ?case by simp
next
  case (Cons x xs)
  then show ?case by (cases i) auto
qed

lemma filter_short_ex_not:
  assumes "length (filter P xs) < length xs"
  shows "\<exists>i < length xs. \<not> P (xs ! i)"
  using assms by (metis filter_True in_set_conv_nth less_irrefl)

lemma find_append:
  "find P (xs @ ys) = (case find P xs of None \<Rightarrow> find P ys | Some x \<Rightarrow> Some x)"
  by (induction xs) auto

lemma nat_and_mask: "(x :: nat) AND (2 ^ k - 1) = x mod 2 ^ k"
proof -
  have "x AND (2 ^ k - 1) = x AND mask k" by (simp add: mask_eq_exp_minus_1)
  also have "\<dots> = x mod 2 ^ k" by (simp add: take_bit_eq_mask [symmetric] take_bit_eq_mod)
  finally show ?thesis .
qed

lemma unat_UINT64_MAX_minus: "unat (UINT64_MAX - x) = 2 ^ 64 - 1 - unat x"
proof -
  have "unat (UINT64_MAX - x) = unat UINT64_MAX - unat x"
    by (rule unat_sub) simp
  then show ?thesis
    by (simp add: UINT64_MAX_def unsigned_minus_1_eq_mask mask_eq_exp_minus_1)
qed

text \<open>The overflow guard of the C sources, \<open>UINT64_MAX - x < y\<close>, is exact.\<close>

lemma unat_add_guarded:
  assumes "\<not> UINT64_MAX - x < y"
  shows "unat (x + y) = unat x + unat y"
proof -
  have "unat y \<le> 2 ^ 64 - 1 - unat x"
    using assms by (simp add: word_less_nat_alt unat_UINT64_MAX_minus not_less)
  moreover have "unat x < 2 ^ 64" using unsigned_less [of x, where ?'a = nat] by simp
  ultimately have "unat x + unat y < 2 ^ LENGTH(64)" by simp
  then show ?thesis by (simp only: unat_add_lem)
qed

end
