(* ===== verification/Pf_Context.thy ===== *)
theory Pf_Context
  imports Prelude
begin

unbundle bit_operations_syntax

text \<open>
  The search context of \<open>src/pathfinding/pathfinding.c\<close>: the public and private data types,
  the growable arrays and the open-addressing hash index from state identifiers to nodes.

  Conventions. An array of the context is a list holding its first \<open>count\<close> entries, so
  \<open>node_count\<close> is \<open>length (nodes c)\<close> and \<open>heap_count\<close> is \<open>length (heap c)\<close>; the capacities are
  separate fields. The sentinel \<open>PF_NONE\<close> is \<open>None\<close>. The allocator is a parameter \<open>al\<close>:
  \<open>al n bytes\<close> tells whether the \<open>n\<close>-th allocation request of the context succeeds, so every
  pattern of out-of-memory failures is covered; \<open>alloc_calls\<close> counts the requests. The
  adapter's cancellation callback is indexed by its call number in the same way
  (\<open>cancel_calls\<close>). An operation of option type returns \<open>None\<close> when the C code would not
  return or would call through a null pointer.

  Theory \<open>Pf_Hash\<close> proves that the hash index answers exactly the linear search through the
  node array (\<open>pf_find_node_eq\<close>), whatever was inserted and rehashed before.
\<close>


section \<open>Data\<close>

text \<open>\<open>atrinik_pf_transition\<close>, \<open>atrinik_pf_step\<close> and the enumerations of the public header.\<close>

record pf_transition =
  trans_state :: u64
  trans_cost :: u64
  trans_data :: u64

record pf_step =
  step_state :: u64
  step_data :: u64

datatype pf_algorithm =
    ATRINIK_PF_ASTAR
  | ATRINIK_PF_DIJKSTRA
  | ATRINIK_PF_BREADTH_FIRST
  | ATRINIK_PF_GREEDY_BEST_FIRST
  | PF_ALGORITHM_OUT_OF_RANGE int

datatype pf_status =
    ATRINIK_PF_FOUND
  | ATRINIK_PF_NO_PATH
  | ATRINIK_PF_LIMIT_REACHED
  | ATRINIK_PF_CANCELLED
  | ATRINIK_PF_PARTIAL
  | ATRINIK_PF_COMPLETE
  | ATRINIK_PF_INVALID_INPUT
  | ATRINIK_PF_ADAPTER_ERROR
  | ATRINIK_PF_OUT_OF_MEMORY
  | ATRINIK_PF_COST_OVERFLOW

datatype pf_termination =
    TERMINATION_GOAL
  | TERMINATION_EXHAUSTED
  | TERMINATION_LIMIT
  | TERMINATION_CANCELLED
  | TERMINATION_INVALID_INPUT
  | TERMINATION_ADAPTER_ERROR
  | TERMINATION_OUT_OF_MEMORY
  | TERMINATION_COST_OVERFLOW

record pf_metrics =
  expanded :: nat
  generated :: nat
  examined_transitions :: nat
  peak_frontier :: nat
  total_cost :: u64

record pf_result =
  res_status :: pf_status
  res_termination :: pf_termination
  res_steps :: "pf_step list"
  res_metrics :: pf_metrics

record pf_reachability_result =
  reach_status :: pf_status
  reach_termination :: pf_termination
  reach_states :: "u64 list"
  reach_metrics :: pf_metrics

text \<open>
  The adapter contract. \<open>neighbors\<close> gives the transitions the callback emits for a state, in
  order (\<open>None\<close> for a null transition pointer), and the value it returns.
\<close>

record pf_adapter =
  neighbors :: "(u64 \<Rightarrow> pf_transition option list \<times> bool) option"
  goal :: "(u64 \<Rightarrow> bool) option"
  heuristic_fn :: "(u64 \<Rightarrow> u64) option"
  partial_rank_fn :: "(u64 \<Rightarrow> u64) option"
  cancelled :: "(nat \<Rightarrow> bool) option"

record pf_options =
  algorithm :: pf_algorithm
  max_expanded :: nat
  max_generated :: nat
  max_transitions :: nat
  max_frontier :: nat
  return_partial :: bool

text \<open>The private \<open>pf_node\<close> and \<open>struct atrinik_pf_context\<close>.\<close>

record pf_node =
  node_state :: u64
  node_cost :: u64
  node_heuristic :: u64
  node_priority :: u64
  node_data :: u64
  node_parent :: "nat option"
  node_heap_index :: "nat option"
  node_sequence :: nat
  node_closed :: bool

record pf_context =
  nodes :: "pf_node list"
  node_capacity :: nat
  hash :: "nat list"
  hash_capacity :: nat
  heap :: "nat list"
  heap_capacity :: nat
  path :: "pf_step list"
  path_capacity :: nat
  reachable :: "u64 list"
  reachable_capacity :: nat
  adapter :: "pf_adapter option"
  options :: pf_options
  metrics :: pf_metrics
  stop_status :: pf_status
  stop_termination :: pf_termination
  stopped :: bool
  reachability :: bool
  active_node :: "nat option"
  partial_node :: "nat option"
  partial_rank :: u64
  alloc_calls :: nat
  cancel_calls :: nat

type_synonym pf_alloc = "nat \<Rightarrow> nat \<Rightarrow> bool"

definition PF_INITIAL_CAPACITY :: nat where
  "PF_INITIAL_CAPACITY = 32"

text \<open>LP64 sizes of the element types of the context's arrays.\<close>

definition sizeof_size_t :: nat where "sizeof_size_t = 8"
definition sizeof_pf_node :: nat where "sizeof_pf_node = 72"
definition sizeof_pf_step :: nat where "sizeof_pf_step = 16"
definition sizeof_state_id :: nat where "sizeof_state_id = 8"


section \<open>Growable arrays\<close>

definition pf_multiply_size :: "nat \<Rightarrow> nat \<Rightarrow> nat option" where
  "pf_multiply_size left right =
     (if left \<noteq> 0 \<and> right > SIZE_MAX div left then None else Some (left * right))"

definition pf_grow_next :: "nat \<Rightarrow> nat \<Rightarrow> nat option" where
  "pf_grow_next minimum = c_loop (\<lambda>n. Some
     (if n < minimum
      then (if n > SIZE_MAX div 2 then Inr minimum else Inl (n * 2))
      else Inr n))"

text \<open>Success flag, capacity afterwards and allocation clock.\<close>

definition pf_grow_array ::
    "pf_alloc \<Rightarrow> nat \<Rightarrow> nat \<Rightarrow> nat \<Rightarrow> nat \<Rightarrow> (bool \<times> nat \<times> nat) option" where
  "pf_grow_array al element_size capacity minimum calls = do {
     n \<leftarrow> pf_grow_next minimum (if capacity = 0 then PF_INITIAL_CAPACITY else capacity);
     (case pf_multiply_size n element_size of
        None \<Rightarrow> Some (False, capacity, calls)
      | Some bytes \<Rightarrow>
          if al calls bytes then Some (True, n, Suc calls)
          else Some (False, capacity, Suc calls))
   }"


section \<open>Hash index\<close>

definition pf_hash_state :: "u64 \<Rightarrow> u64" where
  "pf_hash_state s =
     (let v = s XOR drop_bit 30 s;
          v = v * 0xbf58476d1ce4e5b9;
          v = v XOR drop_bit 27 v;
          v = v * 0x94d049bb133111eb
      in v XOR drop_bit 31 v)"

definition pf_hash_slot :: "pf_context \<Rightarrow> u64 \<Rightarrow> nat option" where
  "pf_hash_slot c s = c_loop (\<lambda>slot. Some
     (if hash c ! slot \<noteq> 0 \<and> node_state (nodes c ! (hash c ! slot - 1)) \<noteq> s
      then Inl ((slot + 1) AND (hash_capacity c - 1))
      else Inr slot))
     (unat (pf_hash_state s AND of_nat (hash_capacity c - 1)))"

text \<open>\<open>context->hash[pf_hash_slot(context, context->nodes[i].state)] = i + 1U\<close>\<close>

definition pf_hash_enter :: "nat \<Rightarrow> pf_context \<Rightarrow> pf_context option" where
  "pf_hash_enter i c = do {
     slot \<leftarrow> pf_hash_slot c (node_state (nodes c ! i));
     Some (c\<lparr>hash := (hash c)[slot := i + 1]\<rparr>)
   }"

primrec pf_hash_enter_all :: "nat list \<Rightarrow> pf_context \<Rightarrow> pf_context option" where
  "pf_hash_enter_all [] c = Some c"
| "pf_hash_enter_all (i # is) c = Option.bind (pf_hash_enter i c) (pf_hash_enter_all is)"

definition pf_rebuild_hash :: "pf_alloc \<Rightarrow> pf_context \<Rightarrow> nat \<Rightarrow> (bool \<times> pf_context) option" where
  "pf_rebuild_hash al c capacity =
     (if capacity < 2 \<or> capacity AND (capacity - 1) \<noteq> 0 then Some (False, c)
      else case pf_multiply_size capacity sizeof_size_t of
        None \<Rightarrow> Some (False, c)
      | Some bytes \<Rightarrow>
          if \<not> al (alloc_calls c) bytes
          then Some (False, c\<lparr>alloc_calls := Suc (alloc_calls c)\<rparr>)
          else do {
            c' \<leftarrow> pf_hash_enter_all [0..<length (nodes c)]
              (c\<lparr>alloc_calls := Suc (alloc_calls c),
                 hash := replicate capacity 0, hash_capacity := capacity\<rparr>);
            Some (True, c')
          })"

definition pf_prepare_hash :: "pf_alloc \<Rightarrow> pf_context \<Rightarrow> (bool \<times> pf_context) option" where
  "pf_prepare_hash al c =
     (if hash_capacity c = 0 then pf_rebuild_hash al c 64
      else if length (nodes c) + 1 \<le> hash_capacity c div 2 then Some (True, c)
      else if hash_capacity c > SIZE_MAX div 2 then Some (False, c)
      else pf_rebuild_hash al c (hash_capacity c * 2))"

definition pf_find_node :: "pf_context \<Rightarrow> u64 \<Rightarrow> nat option option" where
  "pf_find_node c s =
     (if hash_capacity c = 0 then Some None
      else do {
        slot \<leftarrow> pf_hash_slot c s;
        Some (if hash c ! slot = 0 then None else Some (hash c ! slot - 1))
      })"

text \<open>The growth condition of \<open>pf_add_node\<close>: the array is grown only when it is full.\<close>

definition pf_reserve_node :: "pf_alloc \<Rightarrow> pf_context \<Rightarrow> (bool \<times> pf_context) option" where
  "pf_reserve_node al c =
     (if length (nodes c) = node_capacity c
      then do {
        (ok, cap, calls) \<leftarrow> pf_grow_array al sizeof_pf_node (node_capacity c)
          (length (nodes c) + 1) (alloc_calls c);
        Some (ok, c\<lparr>node_capacity := cap, alloc_calls := calls\<rparr>)
      }
      else Some (True, c))"

text \<open>The result carries \<open>*index\<close> on success.\<close>

definition pf_add_node ::
    "pf_alloc \<Rightarrow> pf_context \<Rightarrow> pf_node \<Rightarrow> (nat option \<times> pf_context) option" where
  "pf_add_node al c n = do {
     (ok, c) \<leftarrow> pf_prepare_hash al c;
     if \<not> ok then Some (None, c)
     else do {
       (ok, c) \<leftarrow> pf_reserve_node al c;
       if \<not> ok then Some (None, c)
       else do {
         let index = length (nodes c);
         c \<leftarrow> pf_hash_enter index (c\<lparr>nodes := nodes c @ [n]\<rparr>);
         Some (Some index, c)
       }
     }
   }"

lemmas [pf_defs] = pf_hash_enter_def pf_rebuild_hash_def pf_prepare_hash_def pf_find_node_def
  pf_add_node_def pf_grow_array_def


section \<open>Correctness of the growth routine\<close>

lemma pf_grow_next_total:
  assumes "0 < n"
  shows "\<exists>m. pf_grow_next minimum n = Some m \<and> minimum \<le> m"
  unfolding pf_grow_next_def
proof (rule c_loop_total [where R = "measure (\<lambda>n. minimum - n)" and I = "\<lambda>n. 0 < n"])
  show "0 < n" by (rule assms)
qed auto

text \<open>
  A successful growth leaves room for \<open>minimum\<close> entries, and a failed one leaves the
  capacity alone.
\<close>

lemma pf_grow_array_total:
  "\<exists>ok cap calls'. pf_grow_array al sz capacity minimum calls = Some (ok, cap, calls') \<and>
     (if ok then minimum \<le> cap else cap = capacity)"
proof -
  have "0 < (if capacity = 0 then PF_INITIAL_CAPACITY else capacity)"
    by (simp add: PF_INITIAL_CAPACITY_def)
  from pf_grow_next_total [OF this] obtain n where
    "pf_grow_next minimum (if capacity = 0 then PF_INITIAL_CAPACITY else capacity) = Some n"
    "minimum \<le> n" by blast
  then show ?thesis
    by (auto simp: pf_grow_array_def split: option.splits if_splits)
qed

end
