(* ===== verification/Pf_Hash.thy ===== *)
theory Pf_Hash
  imports Pf_Context
begin

unbundle bit_operations_syntax

text \<open>
  Correctness of the open-addressing index: \<open>pf_hash_slot\<close> terminates while the table has a
  free slot, \<open>pf_find_node\<close> agrees with the linear search \<open>pf_node_index\<close> through the node
  array, and \<open>pf_add_node\<close> keeps the index in step with the array through every rehash.
  \<open>pf_hash_inv n c\<close> says that exactly the first \<open>n\<close> nodes have been entered.
\<close>

section \<open>Reference lookup and the probe sequence\<close>

definition pf_node_index :: "pf_node list \<Rightarrow> u64 \<Rightarrow> nat option" where
  "pf_node_index ns s = find (\<lambda>i. node_state (ns ! i) = s) [0..<length ns]"

definition pf_states :: "pf_node list \<Rightarrow> u64 list" where
  "pf_states ns = map node_state ns"

definition pf_probe :: "pf_context \<Rightarrow> u64 \<Rightarrow> nat \<Rightarrow> nat" where
  "pf_probe c s j = (unat (pf_hash_state s) + j) mod hash_capacity c"

definition pf_probe_stops :: "pf_context \<Rightarrow> u64 \<Rightarrow> nat \<Rightarrow> bool" where
  "pf_probe_stops c s j \<longleftrightarrow> hash c ! pf_probe c s j = 0 \<or>
     node_state (nodes c ! (hash c ! pf_probe c s j - 1)) = s"

definition pf_hash_hit :: "pf_context \<Rightarrow> nat \<Rightarrow> bool" where
  "pf_hash_hit c i \<longleftrightarrow> (\<exists>j. hash c ! pf_probe c (node_state (nodes c ! i)) j = i + 1 \<and>
     (\<forall>j'<j. \<not> pf_probe_stops c (node_state (nodes c ! i)) j'))"

definition pf_capacity_ok :: "nat \<Rightarrow> bool" where
  "pf_capacity_ok cap \<longleftrightarrow> (\<exists>k. 0 < k \<and> k < 64 \<and> cap = 2 ^ k)"

definition pf_hash_inv :: "nat \<Rightarrow> pf_context \<Rightarrow> bool" where
  "pf_hash_inv n c \<longleftrightarrow> pf_capacity_ok (hash_capacity c) \<and> length (hash c) = hash_capacity c \<and>
     n \<le> length (nodes c) \<and> (\<forall>e\<in>set (hash c). e \<le> n) \<and>
     length (filter (\<lambda>e. e \<noteq> 0) (hash c)) \<le> n \<and> (\<forall>i<n. pf_hash_hit c i)"

lemma pf_node_index_None: "pf_node_index ns s = None \<longleftrightarrow> s \<notin> set (pf_states ns)"
proof -
  have "pf_node_index ns s = None \<longleftrightarrow> (\<forall>i<length ns. pf_states ns ! i \<noteq> s)"
    by (auto simp: pf_node_index_def pf_states_def find_None_iff)
  then show ?thesis by (metis in_set_conv_nth length_map pf_states_def)
qed

lemma pf_node_index_Some:
  assumes "distinct (pf_states ns)"
  shows "pf_node_index ns s = Some i \<longleftrightarrow> i < length ns \<and> node_state (ns ! i) = s"
proof
  assume "pf_node_index ns s = Some i"
  then show "i < length ns \<and> node_state (ns ! i) = s"
    by (auto simp: pf_node_index_def find_Some_iff)
next
  assume i: "i < length ns \<and> node_state (ns ! i) = s"
  then have "s \<in> set (pf_states ns)" by (auto simp: pf_states_def)
  then obtain j where j: "pf_node_index ns s = Some j"
    using pf_node_index_None by blast
  then have "j < length ns" "node_state (ns ! j) = s"
    by (auto simp: pf_node_index_def find_Some_iff)
  with i assms have "j = i"
    by (simp add: pf_states_def distinct_conv_nth) (metis)
  with j show "pf_node_index ns s = Some i" by simp
qed

lemma pf_node_index_append:
  assumes "s \<notin> set (pf_states ns)"
  shows "pf_node_index (ns @ [n]) s = (if node_state n = s then Some (length ns) else None)"
proof -
  have "find (\<lambda>i. node_state ((ns @ [n]) ! i) = s) [0..<length ns] = None"
    using assms by (auto simp: find_None_iff nth_append pf_states_def)
  then show ?thesis by (simp add: pf_node_index_def find_append)
qed

lemma length_pf_states [simp]: "length (pf_states ns) = length ns"
  by (simp add: pf_states_def)

lemma pf_states_nth: "i < length ns \<Longrightarrow> node_state (ns ! i) = pf_states ns ! i"
  by (simp add: pf_states_def)

lemma pf_probe_hash [simp]: "pf_probe (c\<lparr>hash := h\<rparr>) s i = pf_probe c s i"
  by (simp add: pf_probe_def)

lemma capacity_ok_pos [simp]: "pf_capacity_ok cap \<Longrightarrow> 0 < cap"
  by (auto simp: pf_capacity_ok_def)

lemma pf_probe_lt: "pf_capacity_ok (hash_capacity c) \<Longrightarrow> pf_probe c s j < hash_capacity c"
  by (simp add: pf_probe_def)

lemma pf_probe_start:
  assumes "pf_capacity_ok (hash_capacity c)"
  shows "unat (pf_hash_state s AND of_nat (hash_capacity c - 1)) = pf_probe c s 0"
proof -
  obtain k where k: "k < 64" "hash_capacity c = 2 ^ k"
    using assms by (auto simp: pf_capacity_ok_def)
  have "(of_nat (2 ^ k - 1) :: u64) = mask k"
    by (simp add: mask_eq_exp_minus_1 of_nat_diff)
  then have "unat (pf_hash_state s AND of_nat (hash_capacity c - 1)) =
      unat (take_bit k (pf_hash_state s))"
    by (simp only: k take_bit_eq_mask)
  also have "\<dots> = take_bit k (unat (pf_hash_state s))" by (rule unsigned_take_bit_eq)
  finally show ?thesis by (simp only: k pf_probe_def take_bit_eq_mod add_0_right)
qed

lemma pf_probe_next:
  assumes "pf_capacity_ok (hash_capacity c)"
  shows "(pf_probe c s j + 1) AND (hash_capacity c - 1) = pf_probe c s (Suc j)"
proof -
  obtain k where k: "hash_capacity c = 2 ^ k"
    using assms by (auto simp: pf_capacity_ok_def)
  show ?thesis
    unfolding k nat_and_mask pf_probe_def by (simp add: mod_Suc_eq)
qed

text \<open>The probe sequence visits every slot.\<close>

lemma pf_probe_surj:
  assumes cap: "pf_capacity_ok (hash_capacity c)" and "t < hash_capacity c"
  shows "\<exists>j. pf_probe c s j = t"
proof -
  let ?h = "unat (pf_hash_state s)" and ?m = "hash_capacity c"
  have "pf_probe c s (t + (?m - ?h mod ?m)) = (?h mod ?m + (t + (?m - ?h mod ?m))) mod ?m"
    by (simp add: pf_probe_def mod_simps)
  also have "?h mod ?m + (t + (?m - ?h mod ?m)) = t + ?m"
    using mod_less_divisor [OF capacity_ok_pos [OF cap], of ?h] by simp
  also have "(t + ?m) mod ?m = t" using assms(2) by simp
  finally show ?thesis by blast
qed

lemma pf_hash_slot_stops:
  assumes cap: "pf_capacity_ok (hash_capacity c)"
    and go: "\<And>i. i < j \<Longrightarrow> \<not> pf_probe_stops c s i" and stop: "pf_probe_stops c s j"
  shows "pf_hash_slot c s = Some (pf_probe c s j)"
proof -
  let ?body = "\<lambda>slot. Some
     (if hash c ! slot \<noteq> 0 \<and> node_state (nodes c ! (hash c ! slot - 1)) \<noteq> s
      then Inl ((slot + 1) AND (hash_capacity c - 1)) else Inr slot)"
  have run: "i \<le> j \<Longrightarrow> c_loop ?body (pf_probe c s 0) = c_loop ?body (pf_probe c s i)" for i
  proof (induction i)
    case 0
    show ?case ..
  next
    case (Suc i)
    then have "\<not> pf_probe_stops c s i" using go by simp
    then have "?body (pf_probe c s i) = Some (Inl (pf_probe c s (Suc i)))"
      using pf_probe_next [OF cap, of s i] by (simp add: pf_probe_stops_def)
    with Suc show ?case using c_loop_continue [of ?body] by simp
  qed
  have "?body (pf_probe c s j) = Some (Inr (pf_probe c s j))"
    using stop by (auto simp: pf_probe_stops_def)
  from c_loop_leave [of ?body, OF this] run [of j] show ?thesis
    unfolding pf_hash_slot_def pf_probe_start [OF cap] by simp
qed

lemma pf_probe_stops_ex:
  assumes inv: "pf_hash_inv n c" and room: "n < hash_capacity c"
  obtains j where "pf_probe_stops c s j" and "\<And>i. i < j \<Longrightarrow> \<not> pf_probe_stops c s i"
proof -
  have cap: "pf_capacity_ok (hash_capacity c)" and len: "length (hash c) = hash_capacity c"
    and few: "length (filter (\<lambda>e. e \<noteq> 0) (hash c)) \<le> n"
    using inv by (auto simp: pf_hash_inv_def)
  obtain t where "t < hash_capacity c" "hash c ! t = 0"
    using filter_short_ex_not [of "\<lambda>e. e \<noteq> 0" "hash c"] few room len by auto
  with pf_probe_surj [OF cap] obtain j where "pf_probe_stops c s j"
    by (metis pf_probe_stops_def)
  then have "pf_probe_stops c s (LEAST j. pf_probe_stops c s j)" by (rule LeastI)
  then show ?thesis using that not_less_Least by blast
qed


section \<open>Entering nodes\<close>

definition pf_same_nodes :: "pf_context \<Rightarrow> pf_context \<Rightarrow> bool" where
  "pf_same_nodes c c' \<longleftrightarrow> (\<exists>h cap calls. c' = c\<lparr>hash := h, hash_capacity := cap, alloc_calls := calls\<rparr>)"

lemma pf_same_nodes_refl: "pf_same_nodes c c"
  unfolding pf_same_nodes_def
  by (rule exI [of _ "hash c"], rule exI [of _ "hash_capacity c"], rule exI [of _ "alloc_calls c"]) simp

text \<open>
  Entering node \<open>n\<close>, whose state is not among the first \<open>n\<close>, extends the invariant by one:
  the slot found is free, so no earlier node's probe path is disturbed.
\<close>

lemma pf_hash_enter_inv:
  assumes inv: "pf_hash_inv n c" and n: "n < length (nodes c)" and room: "n < hash_capacity c"
    and fresh: "\<And>i. i < n \<Longrightarrow> node_state (nodes c ! i) \<noteq> node_state (nodes c ! n)"
  shows "\<exists>slot. pf_hash_enter n c = Some (c\<lparr>hash := (hash c)[slot := n + 1]\<rparr>) \<and>
    pf_hash_inv (Suc n) (c\<lparr>hash := (hash c)[slot := n + 1]\<rparr>)"
proof -
  let ?s = "node_state (nodes c ! n)"
  have cap: "pf_capacity_ok (hash_capacity c)" and len: "length (hash c) = hash_capacity c"
    and ents: "\<forall>e\<in>set (hash c). e \<le> n" and hits: "\<forall>i<n. pf_hash_hit c i"
    and few: "length (filter (\<lambda>e. e \<noteq> 0) (hash c)) \<le> n"
    using inv by (auto simp: pf_hash_inv_def)
  obtain j where stop: "pf_probe_stops c ?s j" and go: "\<And>i. i < j \<Longrightarrow> \<not> pf_probe_stops c ?s i"
    by (rule pf_probe_stops_ex [OF inv room, where s = ?s]) blast
  let ?t = "pf_probe c ?s j"
  let ?c = "c\<lparr>hash := (hash c)[?t := n + 1]\<rparr>"
  have t: "?t < length (hash c)" using pf_probe_lt [OF cap] len by simp
  have free: "hash c ! ?t = 0"
  proof (rule ccontr)
    assume nz: "hash c ! ?t \<noteq> 0"
    with ents t have "hash c ! ?t - 1 < n"
      by (metis One_nat_def Suc_pred le_simps(3) neq0_conv nth_mem)
    with fresh nz stop show False by (auto simp: pf_probe_stops_def)
  qed
  have keep: "hash ?c ! u = hash c ! u" if "hash c ! u \<noteq> 0" for u
    using that free by (cases "u = ?t") auto
  have stops: "\<not> pf_probe_stops ?c s i" if "\<not> pf_probe_stops c s i" for s i
    using that keep [of "pf_probe c s i"] by (auto simp: pf_probe_stops_def)
  have "pf_hash_hit ?c i" if "i < Suc n" for i
  proof (cases "i = n")
    case True
    have "hash ?c ! pf_probe ?c ?s j = n + 1" using t by simp
    with True stops [OF go] show ?thesis by (auto simp: pf_hash_hit_def)
  next
    case False
    with that hits have "pf_hash_hit c i" by simp
    then obtain j' where "hash c ! pf_probe c (node_state (nodes c ! i)) j' = i + 1"
      "\<forall>k<j'. \<not> pf_probe_stops c (node_state (nodes c ! i)) k"
      by (auto simp: pf_hash_hit_def)
    with keep stops show ?thesis
      unfolding pf_hash_hit_def by (auto intro!: exI [of _ j'])
  qed
  moreover have "length (filter (\<lambda>e. e \<noteq> 0) (hash ?c)) \<le> Suc n"
    using length_filter_update [OF t, of "\<lambda>e. e \<noteq> 0" "n + 1"] few free by simp
  moreover have "\<forall>e\<in>set (hash ?c). e \<le> Suc n"
    using ents set_update_subset_insert [of "hash c" ?t "n + 1"] by fastforce
  ultimately have "pf_hash_inv (Suc n) ?c"
    using cap len n by (simp add: pf_hash_inv_def)
  moreover have "pf_hash_enter n c = Some ?c"
    by (simp add: pf_hash_enter_def pf_hash_slot_stops [OF cap go stop])
  ultimately show ?thesis by blast
qed

text \<open>Appending a node that is not entered yet keeps the index of the nodes before it.\<close>

lemma pf_hash_inv_append:
  assumes inv: "pf_hash_inv m c" and m: "m = length (nodes c)"
  shows "pf_hash_inv m (c\<lparr>nodes := nodes c @ [n]\<rparr>)"
proof -
  let ?c = "c\<lparr>nodes := nodes c @ [n]\<rparr>"
  have probe: "pf_probe ?c s j = pf_probe c s j" for s j by (simp add: pf_probe_def)
  have entry: "hash c ! pf_probe c s j \<le> m" for s j
    using inv pf_probe_lt [of c s j] by (simp add: pf_hash_inv_def)
  have stops: "\<not> pf_probe_stops ?c s j" if "\<not> pf_probe_stops c s j" for s j
    using that entry [of s j] m
    by (cases "hash c ! pf_probe c s j") (auto simp: pf_probe_stops_def probe nth_append)
  have "pf_hash_hit ?c i" if i: "i < m" for i
  proof -
    have "pf_hash_hit c i" using inv i by (simp add: pf_hash_inv_def)
    then obtain j where "hash c ! pf_probe c (node_state (nodes c ! i)) j = i + 1"
      "\<forall>k<j. \<not> pf_probe_stops c (node_state (nodes c ! i)) k"
      by (auto simp: pf_hash_hit_def)
    with stops i m show ?thesis
      unfolding pf_hash_hit_def by (auto intro!: exI [of _ j] simp: probe nth_append)
  qed
  with inv show ?thesis by (simp add: pf_hash_inv_def)
qed

lemma distinct_states_nth:
  assumes "distinct (pf_states ns)" "i < n" "n < length ns"
  shows "node_state (ns ! i) \<noteq> node_state (ns ! n)"
  using assms nth_eq_iff_index_eq [of "pf_states ns" i n] by (simp add: pf_states_def)

lemma pf_hash_enter_all_inv:
  assumes "pf_hash_inv m c" "distinct (pf_states (nodes c))" "length (nodes c) \<le> hash_capacity c"
    "m \<le> length (nodes c)"
  shows "\<exists>h. pf_hash_enter_all [m..<length (nodes c)] c = Some (c\<lparr>hash := h\<rparr>) \<and>
    pf_hash_inv (length (nodes c)) (c\<lparr>hash := h\<rparr>)"
  using assms
proof (induction "length (nodes c) - m" arbitrary: m c)
  case 0
  then show ?case by (auto intro!: exI [of _ "hash c"])
next
  case (Suc d)
  then have m: "m < length (nodes c)" by simp
  obtain slot where enter: "pf_hash_enter m c = Some (c\<lparr>hash := (hash c)[slot := m + 1]\<rparr>)"
    and inv: "pf_hash_inv (Suc m) (c\<lparr>hash := (hash c)[slot := m + 1]\<rparr>)"
    using pf_hash_enter_inv [OF Suc.prems(1) m] Suc.prems(2,3) m
      distinct_states_nth [OF Suc.prems(2) _ m] by auto
  have "\<exists>h. pf_hash_enter_all [Suc m..<length (nodes (c\<lparr>hash := (hash c)[slot := m + 1]\<rparr>))]
      (c\<lparr>hash := (hash c)[slot := m + 1]\<rparr>) =
        Some (c\<lparr>hash := (hash c)[slot := m + 1]\<rparr>\<lparr>hash := h\<rparr>) \<and>
      pf_hash_inv (length (nodes (c\<lparr>hash := (hash c)[slot := m + 1]\<rparr>)))
        (c\<lparr>hash := (hash c)[slot := m + 1]\<rparr>\<lparr>hash := h\<rparr>)"
    by (rule Suc.hyps(1)) (use Suc.hyps(2) Suc.prems m inv in simp_all)
  then show ?case
    using enter by (simp add: upt_conv_Cons [OF m])
qed


section \<open>The index and the node array\<close>

text \<open>
  The state every operation of the context keeps: state identifiers are unique, and either
  no table has been allocated yet (and there are no nodes) or the table holds every node
  and is at most half full.
\<close>

definition pf_index_wf :: "pf_context \<Rightarrow> bool" where
  "pf_index_wf c \<longleftrightarrow> distinct (pf_states (nodes c)) \<and>
     (if hash_capacity c = 0 then nodes c = [] \<and> hash c = []
      else pf_hash_inv (length (nodes c)) c \<and> 2 * length (nodes c) \<le> hash_capacity c)"

text \<open>\<open>pf_find_node\<close> terminates and finds exactly what a scan of the node array finds.\<close>

lemma pf_find_node_eq:
  assumes wf: "pf_index_wf c"
  shows "pf_find_node c s = Some (pf_node_index (nodes c) s)"
proof (cases "hash_capacity c = 0")
  case True
  with wf show ?thesis
    by (simp add: pf_find_node_def pf_index_wf_def pf_node_index_def)
next
  case False
  with wf have dist: "distinct (pf_states (nodes c))"
    and inv: "pf_hash_inv (length (nodes c)) c" and half: "2 * length (nodes c) \<le> hash_capacity c"
    by (auto simp: pf_index_wf_def)
  then have cap: "pf_capacity_ok (hash_capacity c)" and len: "length (hash c) = hash_capacity c"
    and ents: "\<forall>e\<in>set (hash c). e \<le> length (nodes c)"
    and hits: "\<forall>i<length (nodes c). pf_hash_hit c i"
    by (auto simp: pf_hash_inv_def)
  have room: "length (nodes c) < hash_capacity c"
    using half False by simp
  obtain j where stop: "pf_probe_stops c s j" and go: "\<And>i. i < j \<Longrightarrow> \<not> pf_probe_stops c s i"
    by (rule pf_probe_stops_ex [OF inv room, where s = s]) blast
  let ?e = "hash c ! pf_probe c s j"
  have find: "pf_find_node c s = Some (if ?e = 0 then None else Some (?e - 1))"
    using False by (simp add: pf_find_node_def pf_hash_slot_stops [OF cap go stop])
  have at: "?e = i + 1" if i: "i < length (nodes c)" "node_state (nodes c ! i) = s" for i
  proof -
    obtain j' where j': "hash c ! pf_probe c s j' = i + 1" "\<forall>k<j'. \<not> pf_probe_stops c s k"
      using hits i by (auto simp: pf_hash_hit_def)
    with i(2) have "pf_probe_stops c s j'" by (simp add: pf_probe_stops_def)
    with go stop j'(2) have "j' = j" by (metis linorder_neqE_nat)
    with j'(1) show ?thesis by simp
  qed
  show ?thesis
  proof (cases "?e = 0")
    case True
    with at have "\<forall>i<length (nodes c). node_state (nodes c ! i) \<noteq> s" by fastforce
    then have "pf_node_index (nodes c) s = None"
      by (auto simp: pf_node_index_def find_None_iff)
    with find True show ?thesis by simp
  next
    case nz: False
    have "?e \<in> set (hash c)" using pf_probe_lt [OF cap] len by simp
    with ents nz have "?e - 1 < length (nodes c)" by fastforce
    moreover have "node_state (nodes c ! (?e - 1)) = s"
      using stop nz by (simp add: pf_probe_stops_def)
    ultimately have "pf_node_index (nodes c) s = Some (?e - 1)"
      using pf_node_index_Some [OF dist] by blast
    with find nz show ?thesis by simp
  qed
qed

text \<open>
  The invariant reads the table and the states of the nodes only, so an operation that
  leaves both alone (a heap operation, a cost update) keeps it.
\<close>

lemma pf_index_wf_frame:
  assumes wf: "pf_index_wf c" and st: "pf_states (nodes c') = pf_states (nodes c)"
    and same: "hash c' = hash c" "hash_capacity c' = hash_capacity c"
  shows "pf_index_wf c'"
proof (cases "hash_capacity c = 0")
  case True
  with assms show ?thesis
    by (auto simp: pf_index_wf_def pf_states_def)
next
  case False
  have len: "length (nodes c') = length (nodes c)"
    using st by (metis length_pf_states)
  have inv: "pf_hash_inv (length (nodes c)) c" using wf False by (simp add: pf_index_wf_def)
  have state: "node_state (nodes c' ! i) = node_state (nodes c ! i)" if "i < length (nodes c)" for i
    using that st len by (simp add: pf_states_nth)
  have probe: "pf_probe c' s j = pf_probe c s j" for s j
    using same by (simp add: pf_probe_def)
  have entry: "hash c ! pf_probe c s j \<le> length (nodes c)" for s j
    using inv pf_probe_lt [of c s j] by (simp add: pf_hash_inv_def)
  have stops: "\<not> pf_probe_stops c' s j" if "\<not> pf_probe_stops c s j" for s j
    using that state [of "hash c ! pf_probe c s j - 1"] entry [of s j]
    by (cases "hash c ! pf_probe c s j") (auto simp: pf_probe_stops_def probe same)
  have "pf_hash_hit c' i" if "i < length (nodes c)" for i
    using that inv stops unfolding pf_hash_inv_def pf_hash_hit_def
    by (auto simp: state probe same) metis
  with inv len same have "pf_hash_inv (length (nodes c')) c'"
    by (simp add: pf_hash_inv_def)
  with wf False len same st show ?thesis by (simp add: pf_index_wf_def)
qed

text \<open>
  \<open>pf_prepare_hash\<close> always returns; when it reports success there is room for one more
  node, and in either case the node array and everything else but the table and the
  allocation clock is as before.
\<close>

lemma pf_empty_hash_inv:
  assumes "pf_capacity_ok cap"
  shows "pf_hash_inv 0 (c\<lparr>hash := replicate cap 0, hash_capacity := cap\<rparr>)"
  using assms by (auto simp: pf_hash_inv_def filter_replicate)

lemma pf_rebuild_hash_total:
  assumes wf: "pf_index_wf c" and cap: "2 \<le> capacity" "length (nodes c) \<le> capacity"
    and pow: "\<exists>k. capacity = 2 ^ k" and half: "2 * length (nodes c) \<le> capacity"
  shows "\<exists>ok c'. pf_rebuild_hash al c capacity = Some (ok, c') \<and> pf_same_nodes c c' \<and>
    pf_index_wf c' \<and> (ok \<longrightarrow> hash_capacity c' = capacity)"
proof -
  obtain k where k: "capacity = 2 ^ k" using pow by blast
  have mask0: "capacity AND (capacity - Suc 0) = 0"
    using nat_and_mask [of capacity k] by (simp add: k)
  show ?thesis
  proof (cases "pf_multiply_size capacity sizeof_size_t")
    case None
    with cap mask0 wf pf_same_nodes_refl show ?thesis by (auto simp: pf_rebuild_hash_def)
  next
    case (Some bytes)
    show ?thesis
    proof (cases "al (alloc_calls c) bytes")
      case False
      have "pf_same_nodes c (c\<lparr>alloc_calls := Suc (alloc_calls c)\<rparr>)"
        unfolding pf_same_nodes_def
        by (rule exI [of _ "hash c"], rule exI [of _ "hash_capacity c"]) auto
      moreover have "pf_index_wf (c\<lparr>alloc_calls := Suc (alloc_calls c)\<rparr>)"
        by (rule pf_index_wf_frame [OF wf]) simp_all
      ultimately show ?thesis using False Some cap mask0 by (auto simp: pf_rebuild_hash_def)
    next
      case True
      let ?c = "c\<lparr>alloc_calls := Suc (alloc_calls c), hash := replicate capacity 0,
        hash_capacity := capacity\<rparr>"
      have "8 \<le> SIZE_MAX div capacity"
        using Some cap by (simp add: pf_multiply_size_def sizeof_size_t_def split: if_splits)
      then have "8 * capacity \<le> SIZE_MAX"
        using cap(1) by (simp add: less_eq_div_iff_mult_less_eq)
      then have "(2::nat) ^ k < 2 ^ 64" by (simp add: k SIZE_MAX_def)
      then have "k < 64" by (rule power_less_imp_less_exp [rotated]) simp
      moreover have "0 < k" using cap(1) k by (cases k) auto
      ultimately have ok: "pf_capacity_ok capacity" using k by (auto simp: pf_capacity_ok_def)
      have "distinct (pf_states (nodes ?c))" using wf by (simp add: pf_index_wf_def)
      then obtain h where "pf_hash_enter_all [0..<length (nodes ?c)] ?c = Some (?c\<lparr>hash := h\<rparr>)"
        "pf_hash_inv (length (nodes ?c)) (?c\<lparr>hash := h\<rparr>)"
        using pf_hash_enter_all_inv [of 0 ?c] pf_empty_hash_inv [OF ok] cap(2) by auto
      moreover have "pf_same_nodes c (?c\<lparr>hash := h\<rparr>)"
        unfolding pf_same_nodes_def
        by (rule exI [of _ h], rule exI [of _ capacity], rule exI [of _ "Suc (alloc_calls c)"]) simp
      ultimately show ?thesis
        using True Some cap mask0 wf half by (auto simp: pf_rebuild_hash_def pf_index_wf_def)
    qed
  qed
qed


lemma pf_prepare_hash_total:
  assumes wf: "pf_index_wf c"
  shows "\<exists>ok c'. pf_prepare_hash al c = Some (ok, c') \<and> pf_same_nodes c c' \<and> pf_index_wf c' \<and>
    (ok \<longrightarrow> 2 * (length (nodes c) + 1) \<le> hash_capacity c')"
proof -
  let ?room = "length (nodes c) + 1 \<le> hash_capacity c div 2"
  let ?huge = "hash_capacity c > SIZE_MAX div 2"
  consider (none) "hash_capacity c = 0" | (room) "hash_capacity c \<noteq> 0" ?room
    | (huge) "hash_capacity c \<noteq> 0" "\<not> ?room" ?huge | (full) "hash_capacity c \<noteq> 0" "\<not> ?room" "\<not> ?huge"
    by blast
  then show ?thesis
  proof cases
    case none
    then have "nodes c = []" using wf by (simp add: pf_index_wf_def)
    have "\<exists>k. (64::nat) = 2 ^ k" by (rule exI [of _ 6]) simp
    from pf_rebuild_hash_total [OF wf _ _ this, of al] \<open>nodes c = []\<close>
    obtain ok c' where "pf_rebuild_hash al c 64 = Some (ok, c')" "pf_same_nodes c c'"
      "pf_index_wf c'" "ok \<longrightarrow> hash_capacity c' = 64" by auto
    with \<open>nodes c = []\<close> none show ?thesis
      unfolding pf_prepare_hash_def by (intro exI [of _ ok] exI [of _ c']) simp
  next
    case room
    then show ?thesis
      unfolding pf_prepare_hash_def
      by (intro exI [of _ True] exI [of _ c]) (use wf pf_same_nodes_refl [of c] in simp)
  next
    case huge
    then show ?thesis
      unfolding pf_prepare_hash_def
      by (intro exI [of _ False] exI [of _ c]) (use wf pf_same_nodes_refl [of c] in simp)
  next
    case full
    have half: "2 * length (nodes c) \<le> hash_capacity c"
      and cap: "pf_capacity_ok (hash_capacity c)"
      using wf full(1) by (auto simp: pf_index_wf_def pf_hash_inv_def)
    then obtain k where k: "hash_capacity c * 2 = 2 ^ Suc k" "0 < k"
      by (auto simp: pf_capacity_ok_def)
    have "2 \<le> hash_capacity c" using k by (cases k) auto
    have pow: "\<exists>k. hash_capacity c * 2 = 2 ^ k" using k(1) by blast
    have "2 \<le> hash_capacity c * 2" "length (nodes c) \<le> hash_capacity c * 2"
      "2 * length (nodes c) \<le> hash_capacity c * 2"
      using \<open>2 \<le> hash_capacity c\<close> half by simp_all
    from pf_rebuild_hash_total [OF wf this(1,2) pow this(3), of al]
    obtain ok c' where "pf_rebuild_hash al c (hash_capacity c * 2) = Some (ok, c')"
      "pf_same_nodes c c'" "pf_index_wf c'" "ok \<longrightarrow> hash_capacity c' = hash_capacity c * 2" by blast
    with full half \<open>2 \<le> hash_capacity c\<close> show ?thesis
      unfolding pf_prepare_hash_def by (intro exI [of _ ok] exI [of _ c']) simp
  qed
qed

text \<open>
  \<open>pf_add_node\<close> on a new state always returns: on success the node is appended and indexed,
  on an allocation failure the node array is as before.
\<close>

definition pf_grown :: "pf_context \<Rightarrow> pf_context \<Rightarrow> bool" where
  "pf_grown c c' \<longleftrightarrow> (\<exists>ns ncap h hcap calls. c' = c\<lparr>nodes := ns, node_capacity := ncap,
     hash := h, hash_capacity := hcap, alloc_calls := calls\<rparr>)"

lemma pf_grownI: "pf_grown c (c\<lparr>nodes := ns, node_capacity := ncap, hash := h,
    hash_capacity := hcap, alloc_calls := calls\<rparr>)"
  unfolding pf_grown_def by blast

lemma pf_grown_refl: "pf_grown c c"
  using pf_grownI [where c = c and ns = "nodes c" and ncap = "node_capacity c" and h = "hash c" and
    hcap = "hash_capacity c" and calls = "alloc_calls c"] by simp

lemma pf_grown_trans: "pf_grown c c' \<Longrightarrow> pf_grown c' c'' \<Longrightarrow> pf_grown c c''"
  using pf_grownI by (auto simp: pf_grown_def)

lemma pf_same_nodes_grown: "pf_same_nodes c c' \<Longrightarrow> pf_grown c c'"
  using pf_grownI [where c = c and ns = "nodes c" and ncap = "node_capacity c"] by (auto simp: pf_same_nodes_def)

lemma pf_same_nodes_fields:
  "pf_same_nodes c c' \<Longrightarrow> nodes c' = nodes c \<and> node_capacity c' = node_capacity c"
  by (auto simp: pf_same_nodes_def)

lemma pf_reserve_node_total:
  assumes "length (nodes c) \<le> node_capacity c"
  shows "\<exists>ok cap calls. pf_reserve_node al c = Some (ok, c\<lparr>node_capacity := cap, alloc_calls := calls\<rparr>) \<and>
    length (nodes c) \<le> cap \<and> (ok \<longrightarrow> length (nodes c) < cap)"
proof (cases "length (nodes c) = node_capacity c")
  case True
  obtain ok cap calls where "pf_grow_array al sizeof_pf_node (node_capacity c)
      (length (nodes c) + 1) (alloc_calls c) = Some (ok, cap, calls)"
    "if ok then length (nodes c) + 1 \<le> cap else cap = node_capacity c"
    using pf_grow_array_total by metis
  with True show ?thesis
    by (rule_tac exI [of _ ok], rule_tac exI [of _ cap], rule_tac exI [of _ calls])
      (auto simp: pf_reserve_node_def split: if_splits)
next
  case False
  with assms show ?thesis
    by (rule_tac exI [of _ True], rule_tac exI [of _ "node_capacity c"],
        rule_tac exI [of _ "alloc_calls c"]) (simp add: pf_reserve_node_def)
qed

text \<open>The last stage of \<open>pf_add_node\<close>: append and enter.\<close>

lemma pf_append_enter:
  assumes wf: "pf_index_wf c" and new: "node_state n \<notin> set (pf_states (nodes c))"
    and fits: "2 * (length (nodes c) + 1) \<le> hash_capacity c"
  shows "\<exists>c'. pf_hash_enter (length (nodes c)) (c\<lparr>nodes := nodes c @ [n]\<rparr>) = Some c' \<and>
    pf_grown c c' \<and> pf_index_wf c' \<and> nodes c' = nodes c @ [n] \<and> node_capacity c' = node_capacity c"
proof -
  let ?a = "c\<lparr>nodes := nodes c @ [n]\<rparr>" and ?n = "length (nodes c)"
  have inv: "pf_hash_inv ?n ?a"
    by (rule pf_hash_inv_append) (use wf fits in \<open>simp_all add: pf_index_wf_def split: if_splits\<close>)
  have fresh: "node_state (nodes ?a ! i) \<noteq> node_state (nodes ?a ! ?n)" if "i < ?n" for i
    using new that by (simp add: nth_append) (metis length_pf_states nth_mem pf_states_nth)
  have lt: "?n < length (nodes ?a)" "?n < hash_capacity ?a" using fits by auto
  obtain slot where enter: "pf_hash_enter ?n ?a = Some (?a\<lparr>hash := (hash ?a)[slot := ?n + 1]\<rparr>)"
    and inv': "pf_hash_inv (Suc ?n) (?a\<lparr>hash := (hash ?a)[slot := ?n + 1]\<rparr>)"
    using pf_hash_enter_inv [OF inv lt fresh] by blast
  let ?c' = "?a\<lparr>hash := (hash ?a)[slot := ?n + 1]\<rparr>"
  have "pf_grown c ?c'"
    using pf_grownI [where c = c and ns = "nodes c @ [n]" and ncap = "node_capacity c" and
      hcap = "hash_capacity c" and calls = "alloc_calls c"]
    by simp
  moreover have "pf_index_wf ?c'"
    using inv' wf new fits by (simp add: pf_index_wf_def pf_states_def)
  ultimately show ?thesis using enter by (intro exI [of _ ?c']) simp
qed

lemma pf_add_node_total:
  assumes wf: "pf_index_wf c" and new: "node_state n \<notin> set (pf_states (nodes c))"
    and room: "length (nodes c) \<le> node_capacity c"
  shows "\<exists>r c'. pf_add_node al c n = Some (r, c') \<and> pf_grown c c' \<and> pf_index_wf c' \<and>
    length (nodes c') \<le> node_capacity c' \<and>
    (r = None \<and> nodes c' = nodes c \<or> r = Some (length (nodes c)) \<and> nodes c' = nodes c @ [n])"
proof -
  obtain ok p where prep: "pf_prepare_hash al c = Some (ok, p)" and same: "pf_same_nodes c p"
    and wfp: "pf_index_wf p" and fits: "ok \<longrightarrow> 2 * (length (nodes c) + 1) \<le> hash_capacity p"
    using pf_prepare_hash_total [OF wf, of al] by blast
  note p = pf_same_nodes_fields [OF same]
  show ?thesis
  proof (cases ok)
    case False
    then have "pf_add_node al c n = Some (None, p)" by (simp add: pf_add_node_def prep)
    with wfp room p pf_same_nodes_grown [OF same] show ?thesis by auto
  next
    case True
    obtain ok2 cap calls where res: "pf_reserve_node al p =
        Some (ok2, p\<lparr>node_capacity := cap, alloc_calls := calls\<rparr>)"
      and cap: "length (nodes p) \<le> cap" "ok2 \<longrightarrow> length (nodes p) < cap"
      using pf_reserve_node_total [of p al] room p by auto
    let ?g = "p\<lparr>node_capacity := cap, alloc_calls := calls\<rparr>"
    have wfg: "pf_index_wf ?g" by (rule pf_index_wf_frame [OF wfp]) simp_all
    have "pf_grown p ?g"
      using pf_grownI [where c = p and ns = "nodes p" and ncap = cap and h = "hash p" and
        hcap = "hash_capacity p" and calls = calls] by simp
    then have grown: "pf_grown c ?g"
      using pf_same_nodes_grown [OF same] pf_grown_trans by blast
    show ?thesis
    proof (cases ok2)
      case False
      then have "pf_add_node al c n = Some (None, ?g)"
        using True by (simp add: pf_add_node_def prep res)
      with wfg cap p grown show ?thesis by auto
    next
      case ok2: True
      obtain c' where enter: "pf_hash_enter (length (nodes ?g)) (?g\<lparr>nodes := nodes ?g @ [n]\<rparr>) = Some c'"
        and c': "pf_grown ?g c'" "pf_index_wf c'" "nodes c' = nodes ?g @ [n]"
          "node_capacity c' = node_capacity ?g"
        using pf_append_enter [OF wfg, of n] new fits True p by auto
      have "pf_add_node al c n = Some (Some (length (nodes c)), c')"
        using True ok2 enter p by (simp add: pf_add_node_def prep res)
      with c' cap ok2 p pf_grown_trans [OF grown c'(1)] show ?thesis by auto
    qed
  qed
qed

end
