(* ===== verification/Pf_Heap.thy ===== *)
theory Pf_Heap
  imports Pf_Hash
begin

text \<open>
  The frontier of \<open>src/pathfinding/pathfinding.c\<close>: a binary heap of node indices in which
  every node records its own heap position, so that a cheaper route found later can be
  sifted up in place. The order is \<open>pf_node_before\<close>: priority, then heuristic, then
  insertion sequence.

  The interface \<open>frontier\<close> states what the search relies on (the popped node is a minimum,
  nothing is lost, positions stay coherent); its interpretation \<open>pf_frontier\<close> discharges
  the laws for the sift-up and sift-down of the code.
\<close>

section \<open>Operations\<close>

definition pf_node_before :: "pf_context \<Rightarrow> nat \<Rightarrow> nat \<Rightarrow> bool" where
  "pf_node_before c left right =
     (let lhs = nodes c ! left; rhs = nodes c ! right
      in if node_priority lhs \<noteq> node_priority rhs then node_priority lhs < node_priority rhs
         else if node_heuristic lhs \<noteq> node_heuristic rhs
         then node_heuristic lhs < node_heuristic rhs
         else node_sequence lhs < node_sequence rhs)"

definition pf_set_heap_index :: "nat \<Rightarrow> nat option \<Rightarrow> pf_context \<Rightarrow> pf_context" where
  "pf_set_heap_index i p c = c\<lparr>nodes := (nodes c)[i := (nodes c ! i)\<lparr>node_heap_index := p\<rparr>]\<rparr>"

definition pf_heap_swap :: "pf_context \<Rightarrow> nat \<Rightarrow> nat \<Rightarrow> pf_context" where
  "pf_heap_swap c left right =
     (let temporary = heap c ! left;
          c = c\<lparr>heap := (heap c)[left := heap c ! right]\<rparr>;
          c = c\<lparr>heap := (heap c)[right := temporary]\<rparr>;
          c = pf_set_heap_index (heap c ! left) (Some left) c
      in pf_set_heap_index (heap c ! right) (Some right) c)"

lemma length_heap_swap [simp]: "length (heap (pf_heap_swap c l r)) = length (heap c)"
  by (simp add: pf_heap_swap_def pf_set_heap_index_def Let_def)

function pf_heap_up :: "pf_context \<Rightarrow> nat \<Rightarrow> pf_context" where
  "pf_heap_up c position =
     (if position = 0 then c
      else let parent = (position - 1) div 2
        in if \<not> pf_node_before c (heap c ! position) (heap c ! parent) then c
           else pf_heap_up (pf_heap_swap c position parent) parent)"
  by pat_completeness auto
termination
  by (relation "measure snd") auto

text \<open>The child that the loop body of \<open>pf_heap_down\<close> selects, or the position itself.\<close>

definition pf_heap_best :: "pf_context \<Rightarrow> nat \<Rightarrow> nat" where
  "pf_heap_best c position =
     (let left = position * 2 + 1;
          best = position;
          best = (if left < length (heap c) \<and> pf_node_before c (heap c ! left) (heap c ! best)
                  then left else best);
          best = (if left + 1 < length (heap c) \<and>
                     pf_node_before c (heap c ! (left + 1)) (heap c ! best)
                  then left + 1 else best)
      in best)"

lemma pf_heap_best_bounds:
  "pf_heap_best c position \<noteq> position \<Longrightarrow>
     position < pf_heap_best c position \<and> pf_heap_best c position < length (heap c)"
  by (auto simp: pf_heap_best_def Let_def split: if_splits)

function pf_heap_down :: "pf_context \<Rightarrow> nat \<Rightarrow> pf_context" where
  "pf_heap_down c position =
     (let best = pf_heap_best c position
      in if best = position then c
         else pf_heap_down (pf_heap_swap c position best) best)"
  by pat_completeness auto
termination
  by (relation "measure (\<lambda>(c, position). length (heap c) - position)")
    (use pf_heap_best_bounds in fastforce)+

declare pf_heap_up.simps [simp del] pf_heap_down.simps [simp del]

definition pf_reserve_heap :: "pf_alloc \<Rightarrow> pf_context \<Rightarrow> (bool \<times> pf_context) option" where
  "pf_reserve_heap al c =
     (if length (heap c) = heap_capacity c
      then do {
        (ok, cap, calls) \<leftarrow> pf_grow_array al sizeof_size_t (heap_capacity c)
          (length (heap c) + 1) (alloc_calls c);
        Some (ok, c\<lparr>heap_capacity := cap, alloc_calls := calls\<rparr>)
      }
      else Some (True, c))"

definition pf_heap_push :: "pf_alloc \<Rightarrow> pf_context \<Rightarrow> nat \<Rightarrow> (bool \<times> pf_context) option" where
  "pf_heap_push al c node = do {
     (ok, c) \<leftarrow> pf_reserve_heap al c;
     if \<not> ok then Some (False, c)
     else do {
       let position = length (heap c);
       let c = pf_set_heap_index node (Some position) (c\<lparr>heap := heap c @ [node]\<rparr>);
       let c = pf_heap_up c position;
       let c = (if length (heap c) > peak_frontier (metrics c)
         then c\<lparr>metrics := (metrics c)\<lparr>peak_frontier := length (heap c)\<rparr>\<rparr> else c);
       Some (True, c)
     }
   }"

definition pf_heap_pop :: "pf_context \<Rightarrow> nat \<times> pf_context" where
  "pf_heap_pop c =
     (let node = heap c ! 0;
          moved = last (heap c);
          c = pf_set_heap_index node None (c\<lparr>heap := butlast (heap c)\<rparr>)
      in if heap c = [] then (node, c)
         else let c = c\<lparr>heap := (heap c)[0 := moved]\<rparr>;
                  c = pf_set_heap_index (heap c ! 0) (Some 0) c
              in (node, pf_heap_down c 0))"


section \<open>Order and invariants\<close>

definition pf_key :: "pf_node \<Rightarrow> u64 \<times> u64 \<times> nat" where
  "pf_key n = (node_priority n, node_heuristic n, node_sequence n)"

definition pf_heap_key :: "pf_context \<Rightarrow> nat \<Rightarrow> u64 \<times> u64 \<times> nat" where
  "pf_heap_key c p = pf_key (nodes c ! (heap c ! p))"

lemma pf_node_before_key: "pf_node_before c l r \<longleftrightarrow> pf_key (nodes c ! l) < pf_key (nodes c ! r)"
  by (auto simp: pf_node_before_def pf_key_def Let_def less_prod_def)

text \<open>Heap positions and the positions recorded in the nodes agree.\<close>

definition pf_heap_coherent :: "pf_context \<Rightarrow> bool" where
  "pf_heap_coherent c \<longleftrightarrow> (\<forall>i\<in>set (heap c). i < length (nodes c)) \<and>
     (\<forall>i<length (nodes c). \<forall>p.
        node_heap_index (nodes c ! i) = Some p \<longleftrightarrow> p < length (heap c) \<and> heap c ! p = i)"

definition pf_heap_ordered :: "pf_context \<Rightarrow> bool" where
  "pf_heap_ordered c \<longleftrightarrow>
     (\<forall>p<length (heap c). 0 < p \<longrightarrow> pf_heap_key c ((p - 1) div 2) \<le> pf_heap_key c p)"

definition pf_heap_wf :: "pf_context \<Rightarrow> bool" where
  "pf_heap_wf c \<longleftrightarrow> pf_heap_coherent c \<and> pf_heap_ordered c"

text \<open>
  What a heap operation may change: the heap array and the recorded positions. Every other
  field of every node, and of the context, is the same.
\<close>

definition pf_strip :: "pf_node \<Rightarrow> pf_node" where
  "pf_strip n = n\<lparr>node_heap_index := None\<rparr>"

definition pf_reindexed :: "pf_context \<Rightarrow> pf_context \<Rightarrow> bool" where
  "pf_reindexed c c' \<longleftrightarrow> (\<exists>h ns. c' = c\<lparr>heap := h, nodes := ns\<rparr>) \<and>
     map pf_strip (nodes c') = map pf_strip (nodes c)"

lemma pf_reindexedI:
  "map pf_strip ns = map pf_strip (nodes c) \<Longrightarrow> pf_reindexed c (c\<lparr>heap := h, nodes := ns\<rparr>)"
  by (auto simp: pf_reindexed_def)

lemma pf_reindexed_refl: "pf_reindexed c c"
  using pf_reindexedI [of "nodes c" c "heap c"] by simp

lemma pf_reindexed_trans:
  assumes "pf_reindexed c c'" and "pf_reindexed c' c''"
  shows "pf_reindexed c c''"
proof -
  obtain h ns where "c' = c\<lparr>heap := h, nodes := ns\<rparr>" "map pf_strip (nodes c') = map pf_strip (nodes c)"
    using assms(1) by (auto simp: pf_reindexed_def)
  moreover obtain h' ns' where "c'' = c'\<lparr>heap := h', nodes := ns'\<rparr>"
    "map pf_strip (nodes c'') = map pf_strip (nodes c')"
    using assms(2) by (auto simp: pf_reindexed_def)
  ultimately show ?thesis using pf_reindexedI [of ns' c h'] by simp
qed

lemma pf_reindexed_node:
  assumes "pf_reindexed c c'" and "i < length (nodes c)"
  shows "pf_strip (nodes c' ! i) = pf_strip (nodes c ! i)"
proof -
  have eq: "map pf_strip (nodes c') = map pf_strip (nodes c)"
    using assms(1) by (simp add: pf_reindexed_def)
  have "length (nodes c') = length (nodes c)"
    using arg_cong [OF eq, of length] by simp
  then show ?thesis
    using arg_cong [OF eq, of "\<lambda>xs. xs ! i"] assms(2) by simp
qed

lemma pf_reindexed_length: "pf_reindexed c c' \<Longrightarrow> length (nodes c') = length (nodes c)"
  unfolding pf_reindexed_def using map_eq_imp_length_eq by blast

lemma pf_strip_eqD:
  assumes "pf_strip m = pf_strip n"
  shows "node_state m = node_state n \<and> node_cost m = node_cost n \<and>
    node_heuristic m = node_heuristic n \<and> node_priority m = node_priority n \<and>
    node_data m = node_data n \<and> node_parent m = node_parent n \<and>
    node_sequence m = node_sequence n \<and> node_closed m = node_closed n \<and> pf_key m = pf_key n"
  using assms by (cases m; cases n) (simp add: pf_strip_def pf_key_def)

lemma map_strip_update:
  "i < length ns \<Longrightarrow> map pf_strip (ns[i := (ns ! i)\<lparr>node_heap_index := p\<rparr>]) = map pf_strip ns"
  by (simp add: map_update list_update_same_conv pf_strip_def)

lemma pf_set_heap_index_reindexed:
  "i < length (nodes c) \<Longrightarrow> pf_reindexed c (pf_set_heap_index i p c)"
  using pf_reindexedI [OF map_strip_update, of i c p "heap c"]
  by (simp add: pf_set_heap_index_def)


section \<open>Swapping\<close>

lemma pf_heap_swap_heap:
  "heap (pf_heap_swap c l r) = (heap c)[l := heap c ! r, r := heap c ! l]"
  by (simp add: pf_heap_swap_def pf_set_heap_index_def Let_def)

lemma pf_heap_swap_mset:
  "l < length (heap c) \<Longrightarrow> r < length (heap c) \<Longrightarrow> mset (heap (pf_heap_swap c l r)) = mset (heap c)"
  by (simp add: pf_heap_swap_heap mset_swap)

lemma pf_heap_swap_alt:
  "pf_heap_swap c l r =
     (let h = (heap c)[l := heap c ! r, r := heap c ! l]
      in pf_set_heap_index (h ! r) (Some r) (pf_set_heap_index (h ! l) (Some l) (c\<lparr>heap := h\<rparr>)))"
  by (simp add: pf_heap_swap_def pf_set_heap_index_def Let_def)

lemma pf_set_heap_index_fields [simp]:
  "heap (pf_set_heap_index i p c) = heap c"
  "length (nodes (pf_set_heap_index i p c)) = length (nodes c)"
  by (simp_all add: pf_set_heap_index_def)

lemma pf_heap_swap_reindexed:
  assumes "pf_heap_coherent c" "l < length (heap c)" "r < length (heap c)"
  shows "pf_reindexed c (pf_heap_swap c l r)"
proof -
  let ?h = "(heap c)[l := heap c ! r, r := heap c ! l]"
  have "set ?h = set (heap c)"
    using assms(2,3) by (metis mset_swap set_mset_mset)
  then have range: "?h ! p < length (nodes c)" if "p < length (heap c)" for p
    using assms that unfolding pf_heap_coherent_def by (metis length_list_update nth_mem)
  let ?c = "c\<lparr>heap := ?h\<rparr>"
  have "pf_reindexed c ?c" using pf_reindexedI [of "nodes c" c ?h] by simp
  moreover have l: "?h ! l < length (nodes ?c)" using range [OF assms(2)] by simp
  note pf_set_heap_index_reindexed [OF l, of "Some l"]
  moreover have r: "?h ! r < length (nodes (pf_set_heap_index (?h ! l) (Some l) ?c))"
    using range [OF assms(3)] by simp
  note pf_set_heap_index_reindexed [OF r, of "Some r"]
  ultimately show ?thesis
    unfolding pf_heap_swap_alt Let_def using pf_reindexed_trans by blast
qed

lemma pf_heap_swap_key:
  assumes "pf_heap_coherent c" "l < length (heap c)" "r < length (heap c)" "p < length (heap c)"
  shows "pf_heap_key (pf_heap_swap c l r) p =
    pf_heap_key c (if p = l then r else if p = r then l else p)"
proof -
  let ?q = "if p = l then r else if p = r then l else p"
  have q: "heap (pf_heap_swap c l r) ! p = heap c ! ?q"
    using assms by (auto simp: pf_heap_swap_heap nth_list_update)
  have "?q < length (heap c)" using assms by auto
  then have "heap c ! ?q < length (nodes c)"
    using assms(1) nth_mem unfolding pf_heap_coherent_def by blast
  from pf_strip_eqD [OF pf_reindexed_node [OF pf_heap_swap_reindexed [OF assms(1-3)] this]]
  show ?thesis by (simp only: pf_heap_key_def q)
qed

lemma pf_heap_swap_coherent:
  assumes coh: "pf_heap_coherent c" and l: "l < length (heap c)" and r: "r < length (heap c)"
  shows "pf_heap_coherent (pf_heap_swap c l r)"
proof -
  let ?c' = "pf_heap_swap c l r" and ?n = "length (nodes c)"
  have range: "heap c ! p < ?n" if "p < length (heap c)" for p
    using coh that nth_mem unfolding pf_heap_coherent_def by blast
  have len: "length (nodes ?c') = ?n"
    by (rule pf_reindexed_length [OF pf_heap_swap_reindexed [OF assms]])
  have inj: "heap c ! p = heap c ! q \<longleftrightarrow> p = q" if "p < length (heap c)" "q < length (heap c)" for p q
    using coh that range unfolding pf_heap_coherent_def by (metis option.inject)
  have idx: "node_heap_index (nodes ?c' ! i) =
      (if i = heap c ! l then Some r else if i = heap c ! r then Some l
       else node_heap_index (nodes c ! i))" if "i < ?n" for i
    using that range [OF l] range [OF r] inj [OF l r] l r
    by (auto simp: pf_heap_swap_def pf_set_heap_index_def Let_def nth_list_update)
  have "node_heap_index (nodes ?c' ! i) = Some p \<longleftrightarrow> p < length (heap c) \<and> heap ?c' ! p = i"
    if i: "i < ?n" for i p
  proof -
    have old: "node_heap_index (nodes c ! i) = Some q \<longleftrightarrow> q < length (heap c) \<and> heap c ! q = i" for q
      using coh i unfolding pf_heap_coherent_def by blast
    show ?thesis
      unfolding idx [OF i] pf_heap_swap_heap
      using old l r inj by (auto simp: nth_list_update split: if_splits)
  qed
  moreover have "set (heap ?c') = set (heap c)"
    by (metis pf_heap_swap_mset [OF l r] set_mset_mset)
  ultimately show ?thesis
    using coh len unfolding pf_heap_coherent_def by simp
qed


section \<open>Sifting\<close>

text \<open>
  The heap order with one position excused, over an abstract key function: sifting up
  excuses the edge above \<open>pos\<close>, sifting down the edges below it.
\<close>

definition parent_of :: "nat \<Rightarrow> nat" where
  "parent_of p = (p - 1) div 2"

definition hole_up :: "(nat \<Rightarrow> 'k :: linorder) \<Rightarrow> nat \<Rightarrow> nat \<Rightarrow> bool" where
  "hole_up K n pos \<longleftrightarrow> (\<forall>p<n. 0 < p \<and> p \<noteq> pos \<longrightarrow> K (parent_of p) \<le> K p) \<and>
     (0 < pos \<longrightarrow> (\<forall>p<n. 0 < p \<and> parent_of p = pos \<longrightarrow> K (parent_of pos) \<le> K p))"

definition hole_down :: "(nat \<Rightarrow> 'k :: linorder) \<Rightarrow> nat \<Rightarrow> nat \<Rightarrow> bool" where
  "hole_down K n pos \<longleftrightarrow> (\<forall>p<n. 0 < p \<and> parent_of p \<noteq> pos \<longrightarrow> K (parent_of p) \<le> K p) \<and>
     (0 < pos \<longrightarrow> (\<forall>p<n. 0 < p \<and> parent_of p = pos \<longrightarrow> K (parent_of pos) \<le> K p))"

definition swapped :: "(nat \<Rightarrow> 'k) \<Rightarrow> nat \<Rightarrow> nat \<Rightarrow> nat \<Rightarrow> 'k" where
  "swapped K l r q = K (if q = l then r else if q = r then l else q)"

lemma parent_of_less: "0 < p \<Longrightarrow> parent_of p < p"
  by (simp add: parent_of_def)

lemma hole_up_step:
  assumes "hole_up K n pos" "0 < pos" "pos < n" "K pos < K (parent_of pos)"
  shows "hole_up (swapped K pos (parent_of pos)) n (parent_of pos)"
  unfolding hole_up_def
proof (intro conjI allI impI; elim conjE)
  let ?par = "parent_of pos"
  have par: "?par < pos" using assms(2) by (rule parent_of_less)
  fix p assume p: "p < n" "0 < p" "p \<noteq> ?par"
  have lt: "parent_of p < p" using p(2) by (rule parent_of_less)
  show "swapped K pos ?par (parent_of p) \<le> swapped K pos ?par p"
  proof (cases "p = pos")
    case True
    with assms(4) par show ?thesis by (simp add: swapped_def)
  next
    case False
    with assms(1) p have le: "K (parent_of p) \<le> K p" by (simp add: hole_up_def)
    moreover have "K ?par \<le> K p" if "parent_of p = pos"
      using assms(1,2) p that by (simp add: hole_up_def)
    ultimately show ?thesis using False p lt par assms(4) by (auto simp: swapped_def)
  qed
next
  let ?par = "parent_of pos"
  have par: "?par < pos" using assms(2) by (rule parent_of_less)
  fix p assume p: "0 < ?par" "p < n" "0 < p" "parent_of p = ?par"
  have up: "parent_of ?par < ?par" using p(1) by (rule parent_of_less)
  have "?par < n" using par assms(3) by simp
  with assms(1) p par have top: "K (parent_of ?par) \<le> K ?par" by (simp add: hole_up_def)
  have "p \<noteq> ?par" using parent_of_less [OF p(3)] p(4) by simp
  moreover have "K ?par \<le> K p" if "p \<noteq> pos"
    using assms(1) p that by (auto simp: hole_up_def)
  ultimately show "swapped K pos ?par (parent_of ?par) \<le> swapped K pos ?par p"
    using top up par by (auto simp: swapped_def)
qed

lemma hole_up_stop:
  assumes "hole_up K n pos" "0 < pos \<Longrightarrow> K (parent_of pos) \<le> K pos" "p < n" "0 < p"
  shows "K (parent_of p) \<le> K p"
  using assms by (cases "p = pos") (auto simp: hole_up_def)

lemma hole_down_step:
  assumes hole: "hole_down K n pos" and best: "parent_of b = pos" "0 < b" "b < n" "K b \<le> K pos"
    and least: "\<And>p. p < n \<Longrightarrow> 0 < p \<Longrightarrow> parent_of p = pos \<Longrightarrow> K b \<le> K p"
  shows "hole_down (swapped K pos b) n b"
  unfolding hole_down_def
proof (intro conjI allI impI; elim conjE)
  have lt: "pos < b" using parent_of_less [OF best(2)] best(1) by simp
  fix p assume p: "p < n" "0 < p" "parent_of p \<noteq> b"
  have plt: "parent_of p < p" using p(2) by (rule parent_of_less)
  consider "parent_of p = pos" | "parent_of p \<noteq> pos" "p = pos" | "parent_of p \<noteq> pos" "p \<noteq> pos"
    by blast
  then show "swapped K pos b (parent_of p) \<le> swapped K pos b p"
  proof cases
    case 1
    then show ?thesis using least [OF p(1,2)] best(4) plt by (simp add: swapped_def)
  next
    case 2
    then have "K (parent_of pos) \<le> K b" using hole p best by (simp add: hole_down_def)
    with 2 p lt show ?thesis by (simp add: swapped_def)
  next
    case 3
    then have "K (parent_of p) \<le> K p" using hole p by (simp add: hole_down_def)
    with 3 p best(1) show ?thesis by (auto simp: swapped_def)
  qed
next
  have lt: "pos < b" using parent_of_less [OF best(2)] best(1) by simp
  fix p assume p: "0 < b" "p < n" "0 < p" "parent_of p = b"
  have "b < p" using parent_of_less [OF p(3)] p(4) by simp
  moreover have "K b \<le> K p" using hole p lt by (auto simp: hole_down_def)
  ultimately show "swapped K pos b (parent_of b) \<le> swapped K pos b p"
    using lt best(1) by (simp add: swapped_def)
qed

lemma hole_down_stop:
  assumes "hole_down K n pos" "\<And>p. p < n \<Longrightarrow> 0 < p \<Longrightarrow> parent_of p = pos \<Longrightarrow> K pos \<le> K p"
    "p < n" "0 < p"
  shows "K (parent_of p) \<le> K p"
  using assms by (cases "parent_of p = pos") (auto simp: hole_down_def)

text \<open>Both conditions read the keys of positions below \<open>n\<close> only.\<close>

lemma hole_up_cong:
  assumes "\<And>q. q < n \<Longrightarrow> K' q = K q" "pos < n" "hole_up K n pos"
  shows "hole_up K' n pos"
proof -
  have "parent_of p < n" if "p < n" for p using that by (auto simp: parent_of_def)
  with assms show ?thesis by (simp add: hole_up_def)
qed

lemma hole_down_cong:
  assumes "\<And>q. q < n \<Longrightarrow> K' q = K q" "pos < n" "hole_down K n pos"
  shows "hole_down K' n pos"
proof -
  have "parent_of p < n" if "p < n" for p using that by (auto simp: parent_of_def)
  with assms show ?thesis by (simp add: hole_down_def)
qed

text \<open>The outcome common to both sifts: a permutation of the heap, coherent again.\<close>

definition pf_resifted :: "pf_context \<Rightarrow> pf_context \<Rightarrow> bool" where
  "pf_resifted c c' \<longleftrightarrow>
     pf_reindexed c c' \<and> pf_heap_coherent c' \<and> mset (heap c') = mset (heap c)"

lemma pf_resifted_refl: "pf_heap_coherent c \<Longrightarrow> pf_resifted c c"
  by (simp add: pf_resifted_def pf_reindexed_refl)

lemma pf_resifted_trans: "pf_resifted c c' \<Longrightarrow> pf_resifted c' c'' \<Longrightarrow> pf_resifted c c''"
  unfolding pf_resifted_def using pf_reindexed_trans by metis

lemma pf_heap_swap_resifted:
  "pf_heap_coherent c \<Longrightarrow> l < length (heap c) \<Longrightarrow> r < length (heap c) \<Longrightarrow>
     pf_resifted c (pf_heap_swap c l r)"
  unfolding pf_resifted_def
  by (intro conjI pf_heap_swap_reindexed pf_heap_swap_coherent pf_heap_swap_mset)

lemma pf_heap_swap_swapped:
  "pf_heap_coherent c \<Longrightarrow> l < length (heap c) \<Longrightarrow> r < length (heap c) \<Longrightarrow> q < length (heap c) \<Longrightarrow>
     pf_heap_key (pf_heap_swap c l r) q = swapped (pf_heap_key c) l r q"
  by (simp add: pf_heap_swap_key swapped_def)

lemma pf_heap_ordered_parent:
  "pf_heap_ordered c \<longleftrightarrow>
     (\<forall>p<length (heap c). 0 < p \<longrightarrow> pf_heap_key c (parent_of p) \<le> pf_heap_key c p)"
  by (simp add: pf_heap_ordered_def parent_of_def)

lemma pf_heap_up_wf:
  assumes "pf_heap_coherent c" "position < length (heap c)"
    "hole_up (pf_heap_key c) (length (heap c)) position"
  shows "pf_resifted c (pf_heap_up c position) \<and> pf_heap_ordered (pf_heap_up c position)"
  using assms
proof (induction c position rule: pf_heap_up.induct)
  case (1 c position)
  let ?par = "parent_of position"
  have before: "pf_node_before c (heap c ! position) (heap c ! ?par) \<longleftrightarrow>
      pf_heap_key c position < pf_heap_key c ?par"
    by (simp add: pf_node_before_key pf_heap_key_def)
  show ?case
  proof (cases "position = 0 \<or> \<not> pf_heap_key c position < pf_heap_key c ?par")
    case True
    then have "pf_heap_up c position = c"
      using before by (auto simp: pf_heap_up.simps [of c position] parent_of_def)
    moreover have "pf_heap_ordered c"
      unfolding pf_heap_ordered_parent
      using hole_up_stop [OF 1(4)] True by (meson gr_implies_not0 leI)
    ultimately show ?thesis using pf_resifted_refl [OF 1(2)] by simp
  next
    case False
    let ?c = "pf_heap_swap c position ?par"
    have par: "?par < length (heap c)"
      using 1(3) False parent_of_less [of position] by simp
    have step: "pf_heap_up c position = pf_heap_up ?c ?par"
      using False before by (simp add: pf_heap_up.simps [of c position] parent_of_def Let_def)
    note sw = pf_heap_swap_resifted [OF 1(2,3) par]
    have "hole_up (pf_heap_key ?c) (length (heap c)) ?par"
      by (rule hole_up_cong [OF pf_heap_swap_swapped [OF 1(2,3) par] par])
        (use hole_up_step [OF 1(4) _ 1(3)] False in auto)
    with 1(1) [of ?par] False before par sw
    have "pf_resifted ?c (pf_heap_up ?c ?par) \<and> pf_heap_ordered (pf_heap_up ?c ?par)"
      by (simp add: pf_resifted_def parent_of_def)
    with step pf_resifted_trans [OF sw] show ?thesis by simp
  qed
qed

lemma pf_heap_best_least:
  assumes "position < length (heap c)"
  shows "pf_heap_key c (pf_heap_best c position) \<le> pf_heap_key c position"
    and "pf_heap_best c position \<noteq> position \<Longrightarrow>
      parent_of (pf_heap_best c position) = position \<and> 0 < pf_heap_best c position"
    and "p < length (heap c) \<Longrightarrow> 0 < p \<Longrightarrow> parent_of p = position \<Longrightarrow>
      pf_heap_key c (pf_heap_best c position) \<le> pf_heap_key c p"
proof -
  have before: "pf_node_before c (heap c ! l) (heap c ! r) \<longleftrightarrow> pf_heap_key c l < pf_heap_key c r" for l r
    by (simp add: pf_node_before_key pf_heap_key_def)
  show "pf_heap_key c (pf_heap_best c position) \<le> pf_heap_key c position"
    by (auto simp: pf_heap_best_def Let_def before)
  show "parent_of (pf_heap_best c position) = position \<and> 0 < pf_heap_best c position"
    if "pf_heap_best c position \<noteq> position"
    using that by (auto simp: pf_heap_best_def Let_def parent_of_def split: if_splits)
  assume p: "p < length (heap c)" "0 < p" "parent_of p = position"
  then have "p = position * 2 + 1 \<or> p = position * 2 + 1 + 1"
    unfolding parent_of_def by presburger
  with p(1) show "pf_heap_key c (pf_heap_best c position) \<le> pf_heap_key c p"
    by (auto simp: pf_heap_best_def Let_def before not_less)
qed

lemma pf_heap_down_wf:
  assumes "pf_heap_coherent c" "position < length (heap c)"
    "hole_down (pf_heap_key c) (length (heap c)) position"
  shows "pf_resifted c (pf_heap_down c position) \<and> pf_heap_ordered (pf_heap_down c position)"
  using assms
proof (induction c position rule: pf_heap_down.induct)
  case (1 c position)
  let ?b = "pf_heap_best c position"
  note best = pf_heap_best_least [OF 1(3)]
  show ?case
  proof (cases "?b = position")
    case True
    then have "pf_heap_down c position = c" by (simp add: pf_heap_down.simps [of c position])
    moreover have "pf_heap_ordered c"
      unfolding pf_heap_ordered_parent
    proof (intro allI impI)
      fix p assume "p < length (heap c)" "0 < p"
      then show "pf_heap_key c (parent_of p) \<le> pf_heap_key c p"
        by (rule hole_down_stop [OF 1(4), rotated]) (use best(3) True in simp)
    qed
    ultimately show ?thesis using pf_resifted_refl [OF 1(2)] by simp
  next
    case False
    let ?c = "pf_heap_swap c position ?b"
    have b: "?b < length (heap c)" using pf_heap_best_bounds [OF False] by simp
    have step: "pf_heap_down c position = pf_heap_down ?c ?b"
      using False by (simp add: pf_heap_down.simps [of c position] Let_def)
    note sw = pf_heap_swap_resifted [OF 1(2,3) b]
    have "hole_down (pf_heap_key ?c) (length (heap c)) ?b"
      by (rule hole_down_cong [OF pf_heap_swap_swapped [OF 1(2,3) b] b])
        (assumption, rule hole_down_step [OF 1(4) _ _ b best(1) best(3)],
          use best(2) [OF False] in simp_all)
    with 1(1) [of ?b] False b sw
    have "pf_resifted ?c (pf_heap_down ?c ?b) \<and> pf_heap_ordered (pf_heap_down ?c ?b)"
      by (simp add: pf_resifted_def)
    with step pf_resifted_trans [OF sw] show ?thesis by simp
  qed
qed

text \<open>The root of an ordered heap is a least element.\<close>

lemma pf_heap_root_least:
  assumes "pf_heap_ordered c" "p < length (heap c)"
  shows "pf_heap_key c 0 \<le> pf_heap_key c p"
  using assms(2)
proof (induction p rule: less_induct)
  case (less p)
  show ?case
  proof (cases "p = 0")
    case False
    then have "parent_of p < p" using parent_of_less by simp
    with less have "pf_heap_key c 0 \<le> pf_heap_key c (parent_of p)" by simp
    also have "\<dots> \<le> pf_heap_key c p"
      using assms(1) less.prems False by (simp add: pf_heap_ordered_parent)
    finally show ?thesis .
  qed simp
qed


section \<open>Frame of the context operations\<close>

text \<open>
  Adding nodes and working on the frontier touch the arrays, their capacities, the hash
  table, the allocation clock and the frontier peak; every other field is as before.
\<close>

definition pf_frame :: "pf_context \<Rightarrow> pf_context \<Rightarrow> bool" where
  "pf_frame c c' \<longleftrightarrow> (\<exists>ns ncap h hcap hp hpcap calls pk.
     c' = c\<lparr>nodes := ns, node_capacity := ncap, hash := h, hash_capacity := hcap, heap := hp,
       heap_capacity := hpcap, alloc_calls := calls,
       metrics := (metrics c)\<lparr>peak_frontier := pk\<rparr>\<rparr>)"

lemma pf_frameI: "pf_frame c (c\<lparr>nodes := ns, node_capacity := ncap, hash := h,
    hash_capacity := hcap, heap := hp, heap_capacity := hpcap, alloc_calls := calls,
    metrics := (metrics c)\<lparr>peak_frontier := pk\<rparr>\<rparr>)"
  unfolding pf_frame_def by blast

lemma pf_frame_refl: "pf_frame c c"
  using pf_frameI [where c = c and ns = "nodes c" and ncap = "node_capacity c" and h = "hash c" and
    hcap = "hash_capacity c" and hp = "heap c" and hpcap = "heap_capacity c" and
    calls = "alloc_calls c" and pk = "peak_frontier (metrics c)"] by simp

lemma pf_frame_trans: "pf_frame c c' \<Longrightarrow> pf_frame c' c'' \<Longrightarrow> pf_frame c c''"
  using pf_frameI by (auto simp: pf_frame_def)

lemma pf_reindexed_frame:
  assumes "pf_reindexed c c'"
  shows "pf_frame c c'"
proof -
  obtain h ns where "c' = c\<lparr>heap := h, nodes := ns\<rparr>" using assms by (auto simp: pf_reindexed_def)
  also have "\<dots> = c\<lparr>nodes := ns, heap := h\<rparr>" by simp
  finally show ?thesis
    using pf_frameI [where c = c and ns = ns and ncap = "node_capacity c" and h = "hash c" and
      hcap = "hash_capacity c" and hp = h and hpcap = "heap_capacity c" and
      calls = "alloc_calls c" and pk = "peak_frontier (metrics c)"] by simp
qed

lemma pf_grown_frame: "pf_grown c c' \<Longrightarrow> pf_frame c c'"
  using pf_frameI [where c = c and hp = "heap c" and hpcap = "heap_capacity c" and
    pk = "peak_frontier (metrics c)"]
  by (auto simp: pf_grown_def)

lemma pf_frame_fields:
  assumes "pf_frame c c'"
  shows "path c' = path c \<and> path_capacity c' = path_capacity c \<and> reachable c' = reachable c \<and>
    reachable_capacity c' = reachable_capacity c \<and> adapter c' = adapter c \<and>
    options c' = options c \<and> stop_status c' = stop_status c \<and>
    stop_termination c' = stop_termination c \<and> stopped c' = stopped c \<and>
    reachability c' = reachability c \<and> active_node c' = active_node c \<and>
    partial_node c' = partial_node c \<and> partial_rank c' = partial_rank c \<and>
    cancel_calls c' = cancel_calls c \<and> expanded (metrics c') = expanded (metrics c) \<and>
    generated (metrics c') = generated (metrics c) \<and>
    examined_transitions (metrics c') = examined_transitions (metrics c) \<and>
    total_cost (metrics c') = total_cost (metrics c)"
  using assms by (auto simp: pf_frame_def)


section \<open>Push\<close>

lemma pf_heap_key_strip:
  assumes "map pf_strip (nodes c') = map pf_strip (nodes c)" "heap c' ! p = heap c ! p"
    "heap c ! p < length (nodes c)"
  shows "pf_heap_key c' p = pf_heap_key c p"
proof -
  have "length (nodes c') = length (nodes c)" using assms(1) map_eq_imp_length_eq by blast
  then have "pf_strip (nodes c' ! (heap c ! p)) = pf_strip (nodes c ! (heap c ! p))"
    using arg_cong [OF assms(1), of "\<lambda>xs. xs ! (heap c ! p)"] assms(3) by simp
  from pf_strip_eqD [OF this] show ?thesis by (simp only: pf_heap_key_def assms(2))
qed

lemma pf_coherent_range:
  "pf_heap_coherent c \<Longrightarrow> p < length (heap c) \<Longrightarrow> heap c ! p < length (nodes c)"
  using nth_mem unfolding pf_heap_coherent_def by blast

lemma pf_coherent_distinct:
  assumes "pf_heap_coherent c" shows "distinct (heap c)"
  unfolding distinct_conv_nth
  using assms pf_coherent_range [OF assms] unfolding pf_heap_coherent_def by (metis option.inject)

lemma pf_coherent_index:
  "pf_heap_coherent c \<Longrightarrow> i < length (nodes c) \<Longrightarrow>
     node_heap_index (nodes c ! i) = None \<longleftrightarrow> i \<notin> set (heap c)"
  unfolding pf_heap_coherent_def by (metis in_set_conv_nth not_Some_eq)

text \<open>The heap after the new entry is stored at the end and before it is sifted up.\<close>

lemma pf_heap_append_coherent:
  assumes coh: "pf_heap_coherent c" and node: "node < length (nodes c)" "node \<notin> set (heap c)"
  shows "pf_heap_coherent (pf_set_heap_index node (Some (length (heap c))) (c\<lparr>heap := heap c @ [node]\<rparr>))"
    (is "pf_heap_coherent ?c'")
  unfolding pf_heap_coherent_def
proof (intro conjI allI impI ballI)
  fix i assume "i \<in> set (heap ?c')"
  then show "i < length (nodes ?c')" using coh node by (auto simp: pf_heap_coherent_def)
next
  fix i p assume "i < length (nodes ?c')"
  then have i: "i < length (nodes c)" by simp
  have "node_heap_index (nodes c ! i) = Some p \<longleftrightarrow> p < length (heap c) \<and> heap c ! p = i"
    using coh i by (simp add: pf_heap_coherent_def)
  moreover have "heap c ! p \<noteq> node" if "p < length (heap c)" using node that nth_mem by blast
  ultimately show "(node_heap_index (nodes ?c' ! i) = Some p) = (p < length (heap ?c') \<and> heap ?c' ! p = i)"
    using i node(1) by (auto simp: pf_set_heap_index_def nth_list_update nth_append less_Suc_eq)
qed

lemma pf_heap_append_hole:
  assumes wf: "pf_heap_wf c" and node: "node < length (nodes c)"
  defines "c' \<equiv> pf_set_heap_index node (Some (length (heap c))) (c\<lparr>heap := heap c @ [node]\<rparr>)"
  shows "hole_up (pf_heap_key c') (length (heap c')) (length (heap c))"
proof -
  have "map pf_strip (nodes c') = map pf_strip (nodes c)"
    unfolding c'_def pf_set_heap_index_def using node by (simp add: map_strip_update)
  then have key: "pf_heap_key c' p = pf_heap_key c p" if "p < length (heap c)" for p
    by (rule pf_heap_key_strip)
      (use that wf in \<open>simp_all add: c'_def nth_append pf_heap_wf_def pf_coherent_range\<close>)
  have "pf_heap_key c' (parent_of p) \<le> pf_heap_key c' p" if p: "p < length (heap c)" "0 < p" for p
  proof -
    have "parent_of p < length (heap c)" using p parent_of_less [OF p(2)] by simp
    then show ?thesis using wf p by (simp add: key pf_heap_wf_def pf_heap_ordered_parent)
  qed
  moreover have "length (heap c') = Suc (length (heap c))" by (simp add: c'_def)
  moreover have "parent_of p \<noteq> length (heap c)" if "p \<le> length (heap c)" "0 < p" for p
    using parent_of_less [OF that(2)] that(1) by simp
  ultimately show ?thesis by (auto simp: hole_up_def less_Suc_eq)
qed

lemma pf_reserve_heap_total:
  assumes "length (heap c) \<le> heap_capacity c"
  shows "\<exists>ok cap calls. pf_reserve_heap al c = Some (ok, c\<lparr>heap_capacity := cap, alloc_calls := calls\<rparr>) \<and>
    length (heap c) \<le> cap \<and> (ok \<longrightarrow> length (heap c) < cap)"
proof (cases "length (heap c) = heap_capacity c")
  case True
  obtain ok cap calls where "pf_grow_array al sizeof_size_t (heap_capacity c)
      (length (heap c) + 1) (alloc_calls c) = Some (ok, cap, calls)"
    "if ok then length (heap c) + 1 \<le> cap else cap = heap_capacity c"
    using pf_grow_array_total by metis
  with True show ?thesis
    by (rule_tac exI [of _ ok], rule_tac exI [of _ cap], rule_tac exI [of _ calls])
      (auto simp: pf_reserve_heap_def split: if_splits)
next
  case False
  with assms show ?thesis
    by (rule_tac exI [of _ True], rule_tac exI [of _ "heap_capacity c"],
        rule_tac exI [of _ "alloc_calls c"]) (simp add: pf_reserve_heap_def)
qed

text \<open>
  A push changes no node but its recorded positions (\<open>pf_moved\<close>) and leaves the hash index
  and the node array's capacity alone.
\<close>

definition pf_moved :: "pf_context \<Rightarrow> pf_context \<Rightarrow> bool" where
  "pf_moved c c' \<longleftrightarrow> pf_frame c c' \<and> map pf_strip (nodes c') = map pf_strip (nodes c) \<and>
     hash c' = hash c \<and> hash_capacity c' = hash_capacity c \<and> node_capacity c' = node_capacity c"

lemma pf_moved_refl: "pf_moved c c"
  by (simp add: pf_moved_def pf_frame_refl)

lemma pf_moved_trans: "pf_moved c c' \<Longrightarrow> pf_moved c' c'' \<Longrightarrow> pf_moved c c''"
  unfolding pf_moved_def using pf_frame_trans by metis

lemma pf_reindexed_moved: "pf_reindexed c c' \<Longrightarrow> pf_moved c c'"
  unfolding pf_moved_def using pf_reindexed_frame by (auto simp: pf_reindexed_def)

lemma pf_moved_length: "pf_moved c c' \<Longrightarrow> length (nodes c') = length (nodes c)"
  unfolding pf_moved_def using map_eq_imp_length_eq by blast

lemma pf_strip_state: "map node_state (map pf_strip ns) = map node_state ns"
  by (simp add: pf_strip_def)

lemma pf_moved_index_wf: "pf_moved c c' \<Longrightarrow> pf_index_wf c \<Longrightarrow> pf_index_wf c'"
  by (rule pf_index_wf_frame)
    (simp_all add: pf_moved_def pf_states_def pf_strip_state [symmetric, of "nodes c"]
      pf_strip_state [symmetric, of "nodes c'"] del: map_map)

lemma pf_heap_capacity_moved: "pf_moved c (c\<lparr>heap_capacity := cap, alloc_calls := calls\<rparr>)"
  using pf_frameI [where c = c and ns = "nodes c" and ncap = "node_capacity c" and h = "hash c" and
    hcap = "hash_capacity c" and hp = "heap c" and hpcap = cap and
    calls = calls and pk = "peak_frontier (metrics c)"] by (simp add: pf_moved_def)

lemma pf_peak_moved: "pf_moved c (c\<lparr>metrics := (metrics c)\<lparr>peak_frontier := pk\<rparr>\<rparr>)"
  using pf_frameI [where c = c and ns = "nodes c" and ncap = "node_capacity c" and h = "hash c" and
    hcap = "hash_capacity c" and hp = "heap c" and hpcap = "heap_capacity c" and
    calls = "alloc_calls c" and pk = pk] by (simp add: pf_moved_def)

lemma pf_heap_wf_cong:
  "nodes c' = nodes c \<Longrightarrow> heap c' = heap c \<Longrightarrow> pf_heap_wf c' = pf_heap_wf c"
  by (simp add: pf_heap_wf_def pf_heap_coherent_def pf_heap_ordered_def pf_heap_key_def)

lemma pf_heap_append_up:
  assumes wf: "pf_heap_wf c" and node: "node < length (nodes c)" "node \<notin> set (heap c)"
  defines "c' \<equiv> pf_heap_up (pf_set_heap_index node (Some (length (heap c)))
    (c\<lparr>heap := heap c @ [node]\<rparr>)) (length (heap c))"
  shows "pf_reindexed c c' \<and> pf_heap_wf c' \<and> mset (heap c') = add_mset node (mset (heap c))"
proof -
  let ?h = "c\<lparr>heap := heap c @ [node]\<rparr>"
  let ?a = "pf_set_heap_index node (Some (length (heap c))) ?h"
  have "pf_resifted ?a c' \<and> pf_heap_ordered c'"
    unfolding c'_def
    by (rule pf_heap_up_wf [OF pf_heap_append_coherent _ pf_heap_append_hole])
      (use wf node in \<open>simp_all add: pf_heap_wf_def\<close>)
  moreover have "pf_reindexed c ?h" using pf_reindexedI [of "nodes c" c "heap c @ [node]"] by simp
  moreover have "pf_reindexed ?h ?a" using pf_set_heap_index_reindexed [of node ?h] node by simp
  moreover have "mset (heap ?a) = add_mset node (mset (heap c))" by simp
  ultimately show ?thesis
    unfolding pf_resifted_def pf_heap_wf_def using pf_reindexed_trans by metis
qed

lemma pf_heap_push_total:
  assumes wf: "pf_heap_wf c" and cap: "length (heap c) \<le> heap_capacity c"
    and node: "node < length (nodes c)" "node \<notin> set (heap c)"
  shows "\<exists>ok c'. pf_heap_push al c node = Some (ok, c') \<and> pf_moved c c' \<and> pf_heap_wf c' \<and>
    length (heap c') \<le> heap_capacity c' \<and>
    mset (heap c') = (if ok then add_mset node (mset (heap c)) else mset (heap c))"
proof -
  obtain ok hcap calls where res: "pf_reserve_heap al c =
      Some (ok, c\<lparr>heap_capacity := hcap, alloc_calls := calls\<rparr>)"
    and hcap: "length (heap c) \<le> hcap" "ok \<longrightarrow> length (heap c) < hcap"
    using pf_reserve_heap_total [OF cap] by blast
  let ?r = "c\<lparr>heap_capacity := hcap, alloc_calls := calls\<rparr>"
  have wfr: "pf_heap_wf ?r" using wf pf_heap_wf_cong [of ?r c] by simp
  have mv: "pf_moved c ?r" by (rule pf_heap_capacity_moved)
  show ?thesis
  proof (cases ok)
    case False
    then have "pf_heap_push al c node = Some (False, ?r)" by (simp add: pf_heap_push_def res)
    with mv wfr hcap show ?thesis by (intro exI [of _ False] exI [of _ ?r]) simp
  next
    case True
    define u where "u = pf_heap_up (pf_set_heap_index node (Some (length (heap ?r)))
      (?r\<lparr>heap := heap ?r @ [node]\<rparr>)) (length (heap ?r))"
    have u: "pf_reindexed ?r u" "pf_heap_wf u" "mset (heap u) = add_mset node (mset (heap c))"
      using pf_heap_append_up [OF wfr] node unfolding u_def by auto
    let ?m = "u\<lparr>metrics := (metrics u)\<lparr>peak_frontier := length (heap u)\<rparr>\<rparr>"
    let ?c' = "if length (heap u) > peak_frontier (metrics u) then ?m else u"
    have "pf_heap_push al c node = Some (True, ?c')"
      using True by (simp add: pf_heap_push_def res u_def Let_def)
    moreover have "pf_moved u ?c'" using pf_peak_moved [of u] pf_moved_refl [of u] by auto
    moreover have "pf_heap_wf ?c'" using u(2) pf_heap_wf_cong [of ?m u] by auto
    moreover have "heap_capacity u = hcap" using u(1) by (auto simp: pf_reindexed_def)
    moreover have "length (heap u) = Suc (length (heap c))"
      using arg_cong [OF u(3), of size] by simp
    ultimately show ?thesis
      using True hcap u(3) pf_moved_trans [OF pf_moved_trans [OF mv pf_reindexed_moved [OF u(1)]]]
      by (intro exI [of _ True] exI [of _ ?c']) auto
  qed
qed


section \<open>Pop\<close>

text \<open>
  The intermediate state of \<open>pf_heap_pop\<close> when entries remain: the last entry has been moved
  to the root.
\<close>

definition pf_heap_take :: "pf_context \<Rightarrow> pf_context" where
  "pf_heap_take c = pf_set_heap_index (last (heap c)) (Some 0)
     (pf_set_heap_index (heap c ! 0) None (c\<lparr>heap := (butlast (heap c))[0 := last (heap c)]\<rparr>))"

lemma pf_heap_pop_alt:
  assumes "Suc 0 < length (heap c)"
  shows "pf_heap_pop c = (heap c ! 0, pf_heap_down (pf_heap_take c) 0)"
proof -
  have "butlast (heap c) \<noteq> []" using assms by (cases "heap c") auto
  then show ?thesis
    using assms by (simp add: pf_heap_pop_def pf_heap_take_def pf_set_heap_index_def Let_def)
qed

lemma heap_take_list:
  assumes "xs = x # ys" "ys \<noteq> []"
  shows "mset ((butlast xs)[0 := last xs]) = mset xs - {#x#}"
    and "length ((butlast xs)[0 := last xs]) = length xs - 1"
    and "p < length xs - 1 \<Longrightarrow> (butlast xs)[0 := last xs] ! p = (if p = 0 then last xs else xs ! p)"
proof -
  have "mset ys = add_mset (last ys) (mset (butlast ys))"
    using assms(2) by (metis append_butlast_last_id mset_append union_mset_add_mset_right
      mset.simps(1) mset.simps(2) add.right_neutral)
  then show "mset ((butlast xs)[0 := last xs]) = mset xs - {#x#}" using assms by simp
  show "length ((butlast xs)[0 := last xs]) = length xs - 1" by simp
  show "(butlast xs)[0 := last xs] ! p = (if p = 0 then last xs else xs ! p)" if "p < length xs - 1"
    using that by (simp add: nth_list_update nth_butlast)
qed

lemma pf_heap_take_wf:
  assumes wf: "pf_heap_wf c" and len: "Suc 0 < length (heap c)"
  shows "pf_reindexed c (pf_heap_take c)" "pf_heap_coherent (pf_heap_take c)"
    "hole_down (pf_heap_key (pf_heap_take c)) (length (heap (pf_heap_take c))) 0"
    "mset (heap (pf_heap_take c)) = mset (heap c) - {#heap c ! 0#}"
proof -
  let ?t = "pf_heap_take c" and ?n = "length (nodes c)" and ?l = "length (heap c)"
  obtain x ys where xs: "heap c = x # ys" "ys \<noteq> []" using len by (cases "heap c") auto
  note lst = heap_take_list [OF xs]
  have coh: "pf_heap_coherent c" using wf by (simp add: pf_heap_wf_def)
  have heap_t: "heap ?t = (butlast (heap c))[0 := last (heap c)]" by (simp add: pf_heap_take_def)
  have last: "last (heap c) = heap c ! (?l - 1)" using xs by (simp add: last_conv_nth)
  have r: "heap c ! 0 < ?n" "last (heap c) < ?n"
    using pf_coherent_range [OF coh, of 0] pf_coherent_range [OF coh, of "?l - 1"] xs last by simp_all
  have inj: "heap c ! p = heap c ! q \<longleftrightarrow> p = q" if "p < ?l" "q < ?l" for p q
    using nth_eq_iff_index_eq [OF pf_coherent_distinct [OF coh] that] .
  let ?h = "c\<lparr>heap := (butlast (heap c))[0 := last (heap c)]\<rparr>"
  have "pf_reindexed c ?h" using pf_reindexedI [of "nodes c" c "(butlast (heap c))[0 := last (heap c)]"] by simp
  moreover have "pf_reindexed ?h (pf_set_heap_index (heap c ! 0) None ?h)"
    by (rule pf_set_heap_index_reindexed) (use r in simp)
  moreover have "pf_reindexed (pf_set_heap_index (heap c ! 0) None ?h) ?t"
    unfolding pf_heap_take_def by (rule pf_set_heap_index_reindexed) (use r in simp)
  ultimately show re: "pf_reindexed c ?t" using pf_reindexed_trans by blast
  show ms: "mset (heap ?t) = mset (heap c) - {#heap c ! 0#}" using lst(1) heap_t xs by simp
  have len_t: "length (heap ?t) = ?l - 1" using lst(2) heap_t by simp
  have nth_t: "heap ?t ! p = (if p = 0 then heap c ! (?l - 1) else heap c ! p)" if "p < ?l - 1" for p
    using lst(3) [OF that] heap_t last by simp
  have "node_heap_index (nodes ?t ! i) = Some p \<longleftrightarrow> p < length (heap ?t) \<and> heap ?t ! p = i"
    if i: "i < ?n" for i p
  proof -
    have old: "node_heap_index (nodes c ! i) = Some p \<longleftrightarrow> p < ?l \<and> heap c ! p = i"
      using coh i by (simp add: pf_heap_coherent_def)
    have new: "node_heap_index (nodes ?t ! i) = (if i = last (heap c) then Some 0
        else if i = heap c ! 0 then None else node_heap_index (nodes c ! i))"
      using r i by (auto simp: pf_heap_take_def pf_set_heap_index_def nth_list_update)
    have at: "heap c ! q = last (heap c) \<longleftrightarrow> q = ?l - 1" if "q < ?l" for q
      using inj [OF that, of "?l - 1"] len last by simp
    have at0: "heap c ! q = heap c ! 0 \<longleftrightarrow> q = 0" if "q < ?l" for q
      using inj [OF that, of 0] xs(2) by (simp add: xs(1))
    show ?thesis
      using old new at [of p] at0 [of p] at [of 0] nth_t [of p] len_t len last
      by (cases "p < ?l - 1"; cases "p = 0") (auto split: if_splits)
  qed
  moreover have "i < ?n" if "i \<in> set (heap ?t)" for i
  proof -
    have "i \<in># mset (heap c)" using that ms by (metis in_diffD set_mset_mset)
    then show ?thesis using coh by (simp add: pf_heap_coherent_def)
  qed
  ultimately show "pf_heap_coherent ?t"
    using pf_reindexed_length [OF re] by (auto simp: pf_heap_coherent_def)
  have key: "pf_heap_key ?t p = pf_heap_key c p" if "p < ?l - 1" "p \<noteq> 0" for p
    by (rule pf_heap_key_strip)
      (use re that nth_t in \<open>simp_all add: pf_reindexed_def pf_coherent_range [OF coh]\<close>)
  show "hole_down (pf_heap_key ?t) (length (heap ?t)) 0"
    unfolding hole_down_def
  proof (intro conjI allI impI; elim conjE)
    fix p assume p: "p < length (heap ?t)" "0 < p" "parent_of p \<noteq> 0"
    with parent_of_less [OF p(2)] key [of p] key [of "parent_of p"] len_t wf
    show "pf_heap_key ?t (parent_of p) \<le> pf_heap_key ?t p"
      by (simp add: pf_heap_wf_def pf_heap_ordered_parent)
  qed simp
qed

text \<open>
  \<open>pf_heap_pop\<close> on a non-empty frontier returns a least element and leaves the others.
\<close>

lemma pf_heap_pop_single:
  assumes wf: "pf_heap_wf c" and one: "heap c = [i]"
  shows "pf_heap_pop c = (i, pf_set_heap_index i None (c\<lparr>heap := []\<rparr>)) \<and>
    pf_reindexed c (pf_set_heap_index i None (c\<lparr>heap := []\<rparr>)) \<and>
    pf_heap_wf (pf_set_heap_index i None (c\<lparr>heap := []\<rparr>))"
proof -
  let ?c = "c\<lparr>heap := []\<rparr>"
  have i: "i < length (nodes c)" using wf one by (simp add: pf_heap_wf_def pf_heap_coherent_def)
  have "pf_reindexed c ?c" using pf_reindexedI [of "nodes c" c "[]"] by simp
  moreover have "pf_reindexed ?c (pf_set_heap_index i None ?c)"
    by (rule pf_set_heap_index_reindexed) (use i in simp)
  ultimately have "pf_reindexed c (pf_set_heap_index i None ?c)" by (rule pf_reindexed_trans)
  moreover have "pf_heap_wf (pf_set_heap_index i None ?c)"
  proof -
    have "node_heap_index (nodes c ! j) = None" if "j < length (nodes c)" "j \<noteq> i" for j
      using pf_coherent_index [of c j] wf one that by (simp add: pf_heap_wf_def)
    with i show ?thesis
      by (auto simp: pf_heap_wf_def pf_heap_coherent_def pf_heap_ordered_def pf_set_heap_index_def
        nth_list_update)
  qed
  ultimately show ?thesis by (simp add: pf_heap_pop_def one pf_set_heap_index_def Let_def)
qed

lemma pf_heap_pop_wf:
  assumes wf: "pf_heap_wf c" and ne: "heap c \<noteq> []"
  obtains i c' where "pf_heap_pop c = (i, c')" "pf_reindexed c c'" "pf_heap_wf c'"
    "mset (heap c) = add_mset i (mset (heap c'))"
    "\<And>j. j \<in> set (heap c) \<Longrightarrow> pf_key (nodes c ! i) \<le> pf_key (nodes c ! j)"
proof -
  have least: "pf_key (nodes c ! (heap c ! 0)) \<le> pf_key (nodes c ! j)" if j: "j \<in> set (heap c)" for j
  proof -
    obtain p where "p < length (heap c)" "heap c ! p = j" using j by (auto simp: in_set_conv_nth)
    with pf_heap_root_least [of c p] wf show ?thesis by (auto simp: pf_heap_wf_def pf_heap_key_def)
  qed
  show ?thesis
  proof (cases "Suc 0 < length (heap c)")
    case True
    let ?t = "pf_heap_take c"
    note t = pf_heap_take_wf [OF wf True]
    have ms: "mset (heap c) = add_mset (heap c ! 0) (mset (heap ?t))" using t(4) ne by simp
    have "length (heap c) = Suc (length (heap ?t))"
      using arg_cong [OF ms, of size] unfolding size_mset size_add_mset .
    with True have "0 < length (heap ?t)" by (simp del: length_greater_0_conv)
    from pf_heap_down_wf [OF t(2) this t(3)]
    have d: "pf_reindexed ?t (pf_heap_down ?t 0)" "pf_heap_wf (pf_heap_down ?t 0)"
      "mset (heap (pf_heap_down ?t 0)) = mset (heap ?t)"
      by (simp_all add: pf_resifted_def pf_heap_wf_def)
    show ?thesis
      by (rule that [OF pf_heap_pop_alt [OF True] pf_reindexed_trans [OF t(1) d(1)] d(2)])
        (use ms d(3) least in simp_all)
  next
    case False
    with ne obtain i where i: "heap c = [i]" by (cases "heap c") auto
    note pop = pf_heap_pop_single [OF wf i]
    show ?thesis
      by (rule that [OF conjunct1 [OF pop] conjunct1 [OF conjunct2 [OF pop]] conjunct2 [OF conjunct2 [OF pop]]])
        (use i in simp_all)
  qed
qed


section \<open>Cheaper keys\<close>

text \<open>
  Replacing a queued node by one with a smaller key and sifting up at its recorded position
  restores the order: the step \<open>pf_heap_up(context, node->heap_index)\<close> of the search.
\<close>

lemma pf_rekey_coherent:
  assumes "pf_heap_coherent c" "i < length (nodes c)" "node_heap_index n = node_heap_index (nodes c ! i)"
  shows "pf_heap_coherent (c\<lparr>nodes := (nodes c)[i := n]\<rparr>)"
  using assms by (auto simp: pf_heap_coherent_def nth_list_update)

lemma pf_rekey_hole:
  assumes wf: "pf_heap_wf c" and p: "p < length (heap c)" "heap c ! p = i"
    and le: "pf_key n \<le> pf_key (nodes c ! i)"
  shows "hole_up (pf_heap_key (c\<lparr>nodes := (nodes c)[i := n]\<rparr>)) (length (heap c)) p"
proof -
  let ?c' = "c\<lparr>nodes := (nodes c)[i := n]\<rparr>"
  have coh: "pf_heap_coherent c" using wf by (simp add: pf_heap_wf_def)
  have i: "i < length (nodes c)" using pf_coherent_range [OF coh p(1)] p(2) by simp
  have eq: "heap c ! q = i \<longleftrightarrow> q = p" if "q < length (heap c)" for q
    using nth_eq_iff_index_eq [OF pf_coherent_distinct [OF coh] that p(1)] p(2) by simp
  have key: "pf_heap_key ?c' q = (if q = p then pf_key n else pf_heap_key c q)" if "q < length (heap c)" for q
    using eq [OF that] i by (auto simp: pf_heap_key_def nth_list_update)
  have par: "parent_of q < length (heap c)" if "q < length (heap c)" for q
    using that by (auto simp: parent_of_def)
  have ord: "pf_heap_key c (parent_of q) \<le> pf_heap_key c q" if "q < length (heap c)" "0 < q" for q
    using wf that by (simp add: pf_heap_wf_def pf_heap_ordered_parent)
  have le': "pf_key n \<le> pf_heap_key c p" using le p(2) by (simp add: pf_heap_key_def)
  show ?thesis
    unfolding hole_up_def
  proof (intro conjI allI impI; elim conjE)
    fix q assume q: "q < length (heap c)" "0 < q" "q \<noteq> p"
    then show "pf_heap_key ?c' (parent_of q) \<le> pf_heap_key ?c' q"
      using ord [OF q(1,2)] key [OF q(1)] key [OF par [OF q(1)]] le' by auto
  next
    fix q assume q: "0 < p" "q < length (heap c)" "0 < q" "parent_of q = p"
    have "q \<noteq> p" "parent_of p \<noteq> p" using parent_of_less [OF q(3)] parent_of_less [OF q(1)] q(4) by auto
    then show "pf_heap_key ?c' (parent_of p) \<le> pf_heap_key ?c' q"
      using ord [OF q(2,3)] ord [OF p(1) q(1)] key [OF q(2)] key [OF par [OF p(1)]] q(4) by auto
  qed
qed

lemma pf_heap_rekey:
  assumes wf: "pf_heap_wf c" and p: "node_heap_index (nodes c ! i) = Some p" and i: "i < length (nodes c)"
    and n: "node_heap_index n = Some p" and le: "pf_key n \<le> pf_key (nodes c ! i)"
  shows "pf_resifted (c\<lparr>nodes := (nodes c)[i := n]\<rparr>) (pf_heap_up (c\<lparr>nodes := (nodes c)[i := n]\<rparr>) p) \<and>
    pf_heap_wf (pf_heap_up (c\<lparr>nodes := (nodes c)[i := n]\<rparr>) p)"
proof -
  let ?c' = "c\<lparr>nodes := (nodes c)[i := n]\<rparr>"
  have coh: "pf_heap_coherent c" using wf by (simp add: pf_heap_wf_def)
  then have at: "p < length (heap c)" "heap c ! p = i" using p i by (simp_all add: pf_heap_coherent_def)
  have "pf_resifted ?c' (pf_heap_up ?c' p) \<and> pf_heap_ordered (pf_heap_up ?c' p)"
    by (rule pf_heap_up_wf) (use pf_rekey_coherent [OF coh i] n p at pf_rekey_hole [OF wf at le] in simp_all)
  then show ?thesis by (simp add: pf_heap_wf_def pf_resifted_def)
qed


section \<open>The frontier interface\<close>

text \<open>
  What a best-first search needs of its frontier. \<open>drain\<close> pops a given number of times; the
  lemma of the interface says that draining the whole frontier lists its elements in key
  order.
\<close>

primrec drain :: "('c \<Rightarrow> 'e \<times> 'c) \<Rightarrow> nat \<Rightarrow> 'c \<Rightarrow> 'e list" where
  "drain pop 0 c = []"
| "drain pop (Suc n) c = fst (pop c) # drain pop n (snd (pop c))"

locale frontier =
  fixes invar :: "'c \<Rightarrow> bool" and elems :: "'c \<Rightarrow> 'e multiset"
    and key :: "'c \<Rightarrow> 'e \<Rightarrow> 'k :: linorder" and pop :: "'c \<Rightarrow> 'e \<times> 'c"
  assumes pop_invar: "invar c \<Longrightarrow> elems c \<noteq> {#} \<Longrightarrow> invar (snd (pop c))"
    and pop_elems: "invar c \<Longrightarrow> elems c \<noteq> {#} \<Longrightarrow> elems c = add_mset (fst (pop c)) (elems (snd (pop c)))"
    and pop_least: "invar c \<Longrightarrow> e \<in># elems c \<Longrightarrow> key c (fst (pop c)) \<le> key c e"
    and pop_key: "invar c \<Longrightarrow> e \<in># elems c \<Longrightarrow> key (snd (pop c)) e = key c e"
begin

lemma drain_elems: "invar c \<Longrightarrow> n = size (elems c) \<Longrightarrow> mset (drain pop n c) = elems c"
proof (induction n arbitrary: c)
  case (Suc n)
  then have ne: "elems c \<noteq> {#}" by auto
  note el = pop_elems [OF Suc.prems(1) ne]
  then have "n = size (elems (snd (pop c)))" using Suc.prems(2) by (metis Suc_inject size_add_mset)
  with Suc.IH [OF pop_invar [OF Suc.prems(1) ne]] el show ?case by simp
qed simp

lemma drain_sorted: "invar c \<Longrightarrow> n = size (elems c) \<Longrightarrow> sorted (map (key c) (drain pop n c))"
proof (induction n arbitrary: c)
  case (Suc n)
  let ?d = "snd (pop c)"
  have ne: "elems c \<noteq> {#}" using Suc.prems by auto
  note el = pop_elems [OF Suc.prems(1) ne] and inv = pop_invar [OF Suc.prems(1) ne]
  have n: "n = size (elems ?d)" using Suc.prems(2) el by (metis Suc_inject size_add_mset)
  have mem: "e \<in># elems c" if "e \<in> set (drain pop n ?d)" for e
    using that drain_elems [OF inv n] el by (metis add_mset_remove_trivial in_diffD set_mset_mset)
  then have "map (key c) (drain pop n ?d) = map (key ?d) (drain pop n ?d)"
    using pop_key [OF Suc.prems(1)] by simp
  then have "sorted (map (key c) (drain pop n ?d))" using Suc.IH [OF inv n] by metis
  with mem pop_least [OF Suc.prems(1)] show ?case by simp
qed simp

end

definition pf_frontier_key :: "pf_context \<Rightarrow> nat \<Rightarrow> u64 \<times> u64 \<times> nat" where
  "pf_frontier_key c i = pf_key (nodes c ! i)"

lemma pf_reindexed_key:
  "pf_reindexed c c' \<Longrightarrow> i < length (nodes c) \<Longrightarrow> pf_key (nodes c' ! i) = pf_key (nodes c ! i)"
  using pf_strip_eqD pf_reindexed_node by blast

interpretation pf_frontier: frontier pf_heap_wf "\<lambda>c. mset (heap c)" pf_frontier_key pf_heap_pop
proof
  fix c :: pf_context and e :: nat
  assume wf: "pf_heap_wf c"
  show "pf_heap_wf (snd (pf_heap_pop c))" if "mset (heap c) \<noteq> {#}"
    by (rule pf_heap_pop_wf [OF wf]) (use that in simp_all)
  show "mset (heap c) = add_mset (fst (pf_heap_pop c)) (mset (heap (snd (pf_heap_pop c))))"
    if "mset (heap c) \<noteq> {#}"
    by (rule pf_heap_pop_wf [OF wf]) (use that in simp_all)
  assume e: "e \<in># mset (heap c)"
  then have ne: "heap c \<noteq> []" and lt: "e < length (nodes c)"
    using wf by (auto simp: pf_heap_wf_def pf_heap_coherent_def)
  obtain i c' where pop: "pf_heap_pop c = (i, c')" "pf_reindexed c c'"
    "\<And>j. j \<in> set (heap c) \<Longrightarrow> pf_key (nodes c ! i) \<le> pf_key (nodes c ! j)"
    by (rule pf_heap_pop_wf [OF wf ne]) blast
  show "pf_frontier_key c (fst (pf_heap_pop c)) \<le> pf_frontier_key c e"
    using pop(1,3) e by (simp add: pf_frontier_key_def)
  show "pf_frontier_key (snd (pf_heap_pop c)) e = pf_frontier_key c e"
    using pop(1) pf_reindexed_key [OF pop(2) lt] by (simp add: pf_frontier_key_def)
qed

end
