(* ===== verification/Pf_Search.thy ===== *)
theory Pf_Search
  imports Pf_Heap
begin

text \<open>
  The search operations of \<open>src/pathfinding/pathfinding.c\<close>: the transition callback, path
  reconstruction, the best-first search \<open>atrinik_pf_search\<close> and the flood fill
  \<open>atrinik_pf_reachable\<close>.

  The adapter enumerates the transitions of a state by calling \<open>pf_emit_transition\<close> for each
  of them; \<open>pf_enumerate\<close> performs these calls in order. A call made after the callback has
  returned false finds \<open>stopped\<close> set and changes nothing, so an adapter that stops calling
  at that point and one that does not are the same.
\<close>

section \<open>Control state\<close>

definition pf_stop :: "pf_status \<Rightarrow> pf_termination \<Rightarrow> pf_context \<Rightarrow> pf_context" where
  "pf_stop status termination c =
     c\<lparr>stopped := True, stop_status := status, stop_termination := termination\<rparr>"

definition pf_zero_metrics :: pf_metrics where
  "pf_zero_metrics = \<lparr>expanded = 0, generated = 0, examined_transitions = 0, peak_frontier = 0,
     total_cost = 0\<rparr>"

definition pf_reset :: "pf_adapter option \<Rightarrow> pf_options \<Rightarrow> pf_context \<Rightarrow> pf_context" where
  "pf_reset ad opts c =
     c\<lparr>nodes := [], heap := [], adapter := ad, options := opts, metrics := pf_zero_metrics,
       hash := replicate (length (hash c)) 0,
       stop_status := ATRINIK_PF_INVALID_INPUT, stop_termination := TERMINATION_INVALID_INPUT,
       stopped := False, reachability := False, active_node := None, partial_node := None,
       partial_rank := UINT64_MAX\<rparr>"

definition pf_priority :: "pf_algorithm \<Rightarrow> u64 \<Rightarrow> u64 \<Rightarrow> u64" where
  "pf_priority alg cost h =
     (if alg = ATRINIK_PF_GREEDY_BEST_FIRST then h
      else if alg = ATRINIK_PF_ASTAR \<and> UINT64_MAX - cost < h then UINT64_MAX
      else if alg = ATRINIK_PF_ASTAR then cost + h else cost)"

definition pf_consider_partial :: "pf_context \<Rightarrow> nat \<Rightarrow> pf_context option" where
  "pf_consider_partial c node =
     (if \<not> return_partial (options c) then Some c
      else do {
        ad \<leftarrow> adapter c;
        rank_fn \<leftarrow> partial_rank_fn ad;
        let candidate = nodes c ! node;
        let rank = rank_fn (node_state candidate);
        (case partial_node c of
           None \<Rightarrow> Some (c\<lparr>partial_node := Some node, partial_rank := rank\<rparr>)
         | Some p \<Rightarrow>
             let current = nodes c ! p
             in if rank < partial_rank c \<or>
                  (rank = partial_rank c \<and> node_cost candidate < node_cost current) \<or>
                  (rank = partial_rank c \<and> node_cost candidate = node_cost current \<and>
                   node_sequence candidate < node_sequence current)
                then Some (c\<lparr>partial_node := Some node, partial_rank := rank\<rparr>)
                else Some c)
      })"

definition pf_frontier_available :: "pf_context \<Rightarrow> bool" where
  "pf_frontier_available c \<longleftrightarrow>
     max_frontier (options c) = 0 \<or> length (heap c) < max_frontier (options c)"

text \<open>A call of the adapter's optional cancellation predicate.\<close>

definition pf_call_cancelled :: "pf_context \<Rightarrow> (bool \<times> pf_context) option" where
  "pf_call_cancelled c = do {
     ad \<leftarrow> adapter c;
     (case cancelled ad of
        None \<Rightarrow> Some (False, c)
      | Some f \<Rightarrow> Some (f (cancel_calls c), c\<lparr>cancel_calls := Suc (cancel_calls c)\<rparr>))
   }"

definition pf_uses_heuristic :: "pf_algorithm \<Rightarrow> bool" where
  "pf_uses_heuristic alg \<longleftrightarrow> alg = ATRINIK_PF_ASTAR \<or> alg = ATRINIK_PF_GREEDY_BEST_FIRST"

definition pf_call_heuristic :: "pf_adapter \<Rightarrow> pf_algorithm \<Rightarrow> u64 \<Rightarrow> u64 option" where
  "pf_call_heuristic ad alg s =
     (if pf_uses_heuristic alg then do { h \<leftarrow> heuristic_fn ad; Some (h s) } else Some 0)"


section \<open>The transition callback\<close>

definition pf_limit :: "pf_context \<Rightarrow> (bool \<times> pf_context) option" where
  "pf_limit c = Some (False, pf_stop ATRINIK_PF_LIMIT_REACHED TERMINATION_LIMIT c)"

definition pf_out_of_memory :: "pf_context \<Rightarrow> (bool \<times> pf_context) option" where
  "pf_out_of_memory c = Some (False, pf_stop ATRINIK_PF_OUT_OF_MEMORY TERMINATION_OUT_OF_MEMORY c)"

definition pf_count_generated :: "pf_context \<Rightarrow> pf_context" where
  "pf_count_generated c = c\<lparr>metrics := (metrics c)\<lparr>generated := Suc (generated (metrics c))\<rparr>\<rparr>"

definition pf_generated_full :: "pf_context \<Rightarrow> bool" where
  "pf_generated_full c \<longleftrightarrow>
     max_generated (options c) \<noteq> 0 \<and> generated (metrics c) \<ge> max_generated (options c)"

text \<open>The branch of a reachability search.\<close>

definition pf_emit_reachable ::
    "pf_alloc \<Rightarrow> pf_transition \<Rightarrow> pf_context \<Rightarrow> (bool \<times> pf_context) option" where
  "pf_emit_reachable al t c = do {
     found \<leftarrow> pf_find_node c (trans_state t);
     if found \<noteq> None then Some (True, c)
     else if pf_generated_full c then pf_limit c
     else if max_frontier (options c) \<noteq> 0 \<and>
       length (nodes c) - expanded (metrics c) \<ge> max_frontier (options c) then pf_limit c
     else do {
       let candidate = \<lparr>node_state = trans_state t, node_cost = 0, node_heuristic = 0,
         node_priority = 0, node_data = trans_data t, node_parent = active_node c,
         node_heap_index = None, node_sequence = length (nodes c), node_closed = False\<rparr>;
       (r, c) \<leftarrow> pf_add_node al c candidate;
       if r = None then pf_out_of_memory c
       else do {
         let c = pf_count_generated c;
         let frontier = length (nodes c) - expanded (metrics c);
         let c = (if frontier > peak_frontier (metrics c)
           then c\<lparr>metrics := (metrics c)\<lparr>peak_frontier := frontier\<rparr>\<rparr> else c);
         Some (True, c)
       }
     }
   }"

text \<open>A state seen for the first time.\<close>

definition pf_emit_new ::
    "pf_alloc \<Rightarrow> pf_transition \<Rightarrow> u64 \<Rightarrow> pf_context \<Rightarrow> (bool \<times> pf_context) option" where
  "pf_emit_new al t tentative_cost c =
     (if pf_generated_full c then pf_limit c
      else if \<not> pf_frontier_available c then pf_limit c
      else do {
        ad \<leftarrow> adapter c;
        h \<leftarrow> pf_call_heuristic ad (algorithm (options c)) (trans_state t);
        let candidate = \<lparr>node_state = trans_state t, node_cost = tentative_cost,
          node_heuristic = h,
          node_priority = pf_priority (algorithm (options c)) tentative_cost h,
          node_data = trans_data t, node_parent = active_node c, node_heap_index = None,
          node_sequence = length (nodes c), node_closed = False\<rparr>;
        (r, c) \<leftarrow> pf_add_node al c candidate;
        (case r of
           None \<Rightarrow> pf_out_of_memory c
         | Some index \<Rightarrow> do {
             c \<leftarrow> pf_consider_partial (pf_count_generated c) index;
             (ok, c) \<leftarrow> pf_heap_push al c index;
             if ok then Some (True, c) else pf_out_of_memory c
           })
      })"

text \<open>The cheaper cost, the priority, the data and the parent of a node that is reached again.\<close>

definition pf_improved :: "pf_context \<Rightarrow> pf_transition \<Rightarrow> u64 \<Rightarrow> pf_node \<Rightarrow> pf_node" where
  "pf_improved c t tentative_cost n =
     n\<lparr>node_cost := tentative_cost,
       node_priority := pf_priority (algorithm (options c)) tentative_cost (node_heuristic n),
       node_data := trans_data t, node_parent := active_node c\<rparr>"

definition pf_set_closed :: "nat \<Rightarrow> bool \<Rightarrow> pf_context \<Rightarrow> pf_context" where
  "pf_set_closed i b c = c\<lparr>nodes := (nodes c)[i := (nodes c ! i)\<lparr>node_closed := b\<rparr>]\<rparr>"

text \<open>A cheaper route to a known state: reopen the node, or sift it up in the frontier.\<close>

definition pf_emit_improve ::
    "pf_alloc \<Rightarrow> pf_transition \<Rightarrow> u64 \<Rightarrow> nat \<Rightarrow> pf_context \<Rightarrow> (bool \<times> pf_context) option" where
  "pf_emit_improve al t tentative_cost index c =
     (if node_closed (nodes c ! index) \<and> \<not> pf_frontier_available c then pf_limit c
      else do {
        let c = c\<lparr>nodes := (nodes c)[index := pf_improved c t tentative_cost (nodes c ! index)]\<rparr>;
        c \<leftarrow> pf_consider_partial c index;
        if node_closed (nodes c ! index)
        then do {
          let c = pf_set_closed index False c;
          (ok, c) \<leftarrow> pf_heap_push al c index;
          if ok then Some (True, c) else pf_out_of_memory c
        }
        else do {
          position \<leftarrow> node_heap_index (nodes c ! index);
          Some (True, pf_heap_up c position)
        }
      })"

definition pf_step_cost :: "pf_algorithm \<Rightarrow> pf_transition \<Rightarrow> u64" where
  "pf_step_cost alg t = (if alg = ATRINIK_PF_BREADTH_FIRST then 1 else trans_cost t)"

text \<open>The branch of a path search.\<close>

definition pf_emit_search ::
    "pf_alloc \<Rightarrow> pf_transition \<Rightarrow> pf_context \<Rightarrow> (bool \<times> pf_context) option" where
  "pf_emit_search al t c = do {
     parent_index \<leftarrow> active_node c;
     let step_cost = pf_step_cost (algorithm (options c)) t;
     let parent_cost = node_cost (nodes c ! parent_index);
     if UINT64_MAX - parent_cost < step_cost
     then Some (False, pf_stop ATRINIK_PF_COST_OVERFLOW TERMINATION_COST_OVERFLOW c)
     else do {
       let tentative_cost = parent_cost + step_cost;
       found \<leftarrow> pf_find_node c (trans_state t);
       (case found of
          None \<Rightarrow> pf_emit_new al t tentative_cost c
        | Some index \<Rightarrow>
            if tentative_cost \<ge> node_cost (nodes c ! index) then Some (True, c)
            else pf_emit_improve al t tentative_cost index c)
     }
   }"

definition pf_count_transition :: "pf_context \<Rightarrow> pf_context" where
  "pf_count_transition c =
     c\<lparr>metrics := (metrics c)\<lparr>examined_transitions := Suc (examined_transitions (metrics c))\<rparr>\<rparr>"

definition pf_emit_transition ::
    "pf_alloc \<Rightarrow> pf_transition option \<Rightarrow> pf_context \<Rightarrow> (bool \<times> pf_context) option" where
  "pf_emit_transition al transition c =
     (if stopped c then Some (False, c)
      else case transition of
        None \<Rightarrow> Some (False, pf_stop ATRINIK_PF_ADAPTER_ERROR TERMINATION_ADAPTER_ERROR c)
      | Some t \<Rightarrow> do {
          (cancel, c) \<leftarrow> pf_call_cancelled c;
          if cancel
          then Some (False, pf_stop ATRINIK_PF_CANCELLED TERMINATION_CANCELLED c)
          else if max_transitions (options c) \<noteq> 0 \<and>
            examined_transitions (metrics c) \<ge> max_transitions (options c)
          then pf_limit c
          else do {
            let c = pf_count_transition c;
            if reachability c then pf_emit_reachable al t c else pf_emit_search al t c
          }
        })"

text \<open>\<open>adapter->neighbors(adapter->context, state, pf_emit_transition, context)\<close>\<close>

primrec pf_emit_all :: "pf_alloc \<Rightarrow> pf_transition option list \<Rightarrow> pf_context \<Rightarrow> pf_context option" where
  "pf_emit_all al [] c = Some c"
| "pf_emit_all al (t # ts) c = do { (_, c) \<leftarrow> pf_emit_transition al t c; pf_emit_all al ts c }"

definition pf_enumerate :: "pf_alloc \<Rightarrow> u64 \<Rightarrow> pf_context \<Rightarrow> (bool \<times> pf_context) option" where
  "pf_enumerate al s c = do {
     ad \<leftarrow> adapter c;
     nb \<leftarrow> neighbors ad;
     c \<leftarrow> pf_emit_all al (fst (nb s)) c;
     Some (snd (nb s), c)
   }"


section \<open>Results\<close>

definition pf_count_path :: "pf_context \<Rightarrow> nat \<Rightarrow> nat option" where
  "pf_count_path c node = c_loop (\<lambda>(steps_count, current). Some
     (case current of
        None \<Rightarrow> Inr steps_count
      | Some i \<Rightarrow> Inl (steps_count + 1, node_parent (nodes c ! i)))) (0, Some node)"

text \<open>The second loop writes the steps from the last one down; \<open>acc\<close> is the part written.\<close>

primrec pf_fill_path :: "pf_context \<Rightarrow> nat \<Rightarrow> nat option \<Rightarrow> pf_step list \<Rightarrow> pf_step list option" where
  "pf_fill_path c 0 current acc = Some acc"
| "pf_fill_path c (Suc i) current acc = do {
     n \<leftarrow> current;
     pf_fill_path c i (node_parent (nodes c ! n))
       (\<lparr>step_state = node_state (nodes c ! n), step_data = node_data (nodes c ! n)\<rparr> # acc)
   }"

definition pf_reserve_path :: "pf_alloc \<Rightarrow> nat \<Rightarrow> pf_context \<Rightarrow> (bool \<times> pf_context) option" where
  "pf_reserve_path al steps_count c =
     (if steps_count > path_capacity c
      then do {
        (ok, cap, calls) \<leftarrow> pf_grow_array al sizeof_pf_step (path_capacity c) steps_count (alloc_calls c);
        Some (ok, c\<lparr>path_capacity := cap, alloc_calls := calls\<rparr>)
      }
      else Some (True, c))"

definition pf_build_path ::
    "pf_alloc \<Rightarrow> pf_context \<Rightarrow> nat \<Rightarrow> pf_result \<Rightarrow> (bool \<times> pf_context \<times> pf_result) option" where
  "pf_build_path al c node result = do {
     steps_count \<leftarrow> pf_count_path c node;
     (ok, c) \<leftarrow> pf_reserve_path al steps_count c;
     if \<not> ok then Some (False, c, result)
     else do {
       steps \<leftarrow> pf_fill_path c steps_count (Some node) [];
       let steps = steps[0 := (steps ! 0)\<lparr>step_data := 0\<rparr>];
       Some (True, c\<lparr>path := steps\<rparr>,
         result\<lparr>res_steps := steps,
           res_metrics := (res_metrics result)\<lparr>total_cost := node_cost (nodes c ! node)\<rparr>\<rparr>)
     }
   }"

definition atrinik_pf_options_init :: pf_options where
  "atrinik_pf_options_init = \<lparr>algorithm = ATRINIK_PF_ASTAR, max_expanded = 0, max_generated = 0,
     max_transitions = 0, max_frontier = 0, return_partial = False\<rparr>"

definition atrinik_pf_context_create :: "bool \<Rightarrow> pf_context option" where
  "atrinik_pf_context_create allocated =
     (if allocated
      then Some \<lparr>nodes = [], node_capacity = 0, hash = [], hash_capacity = 0, heap = [],
        heap_capacity = 0, path = [], path_capacity = 0, reachable = [], reachable_capacity = 0,
        adapter = None, options = atrinik_pf_options_init, metrics = pf_zero_metrics,
        stop_status = ATRINIK_PF_FOUND, stop_termination = TERMINATION_GOAL, stopped = False,
        reachability = False, active_node = Some 0, partial_node = Some 0, partial_rank = 0,
        alloc_calls = 0, cancel_calls = 0\<rparr>
      else None)"

definition pf_empty_result :: "pf_status \<Rightarrow> pf_termination \<Rightarrow> pf_result" where
  "pf_empty_result status termination = \<lparr>res_status = status, res_termination = termination,
     res_steps = [], res_metrics = pf_zero_metrics\<rparr>"

definition pf_valid_algorithm :: "pf_algorithm \<Rightarrow> bool" where
  "pf_valid_algorithm alg \<longleftrightarrow> (case alg of PF_ALGORITHM_OUT_OF_RANGE _ \<Rightarrow> False | _ \<Rightarrow> True)"

text \<open>A path to \<open>node\<close>, or the out-of-memory result.\<close>

definition pf_finish_path ::
    "pf_alloc \<Rightarrow> pf_context \<Rightarrow> nat \<Rightarrow> pf_result \<Rightarrow> (pf_result \<times> pf_context) option" where
  "pf_finish_path al c node result = do {
     (ok, c, result) \<leftarrow> pf_build_path al c node result;
     Some (if ok then (result, c)
       else ((pf_empty_result ATRINIK_PF_OUT_OF_MEMORY TERMINATION_OUT_OF_MEMORY)
         \<lparr>res_metrics := metrics c\<rparr>, c))
   }"

definition pf_finish_search ::
    "pf_alloc \<Rightarrow> pf_context \<Rightarrow> pf_status \<Rightarrow> pf_termination \<Rightarrow> nat option \<Rightarrow>
       (pf_result \<times> pf_context) option" where
  "pf_finish_search al c status termination node =
     (let result = (pf_empty_result status termination)\<lparr>res_metrics := metrics c\<rparr>
      in case node of
           Some n \<Rightarrow> pf_finish_path al c n result
         | None \<Rightarrow>
             (case partial_node c of
                Some p \<Rightarrow>
                  if return_partial (options c) \<and>
                    (termination = TERMINATION_EXHAUSTED \<or> termination = TERMINATION_LIMIT \<or>
                     termination = TERMINATION_CANCELLED)
                  then pf_finish_path al c p (result\<lparr>res_status := ATRINIK_PF_PARTIAL\<rparr>)
                  else Some (result, c)
              | None \<Rightarrow> Some (result, c)))"


section \<open>Path search\<close>

definition pf_invalid_search :: "pf_adapter option \<Rightarrow> pf_options \<Rightarrow> bool" where
  "pf_invalid_search ad opts \<longleftrightarrow>
     (case ad of None \<Rightarrow> True
      | Some a \<Rightarrow> neighbors a = None \<or> goal a = None \<or> \<not> pf_valid_algorithm (algorithm opts) \<or>
          (pf_uses_heuristic (algorithm opts) \<and> heuristic_fn a = None) \<or>
          (return_partial opts \<and> partial_rank_fn a = None))"

definition pf_count_expanded :: "pf_context \<Rightarrow> pf_context" where
  "pf_count_expanded c = c\<lparr>metrics := (metrics c)\<lparr>expanded := Suc (expanded (metrics c))\<rparr>\<rparr>"

text \<open>
  Expansion of node \<open>i\<close>: enumerate its transitions with \<open>i\<close> active; an adapter that reports
  failure stops the search unless the callback already did.
\<close>

definition pf_expand :: "pf_alloc \<Rightarrow> nat \<Rightarrow> pf_context \<Rightarrow> pf_context option" where
  "pf_expand al i c = do {
     let c = pf_count_expanded c;
     let c = c\<lparr>active_node := Some i\<rparr>;
     (enumerated, c) \<leftarrow> pf_enumerate al (node_state (nodes c ! i)) c;
     let c = c\<lparr>active_node := None\<rparr>;
     Some (if \<not> enumerated \<and> \<not> stopped c
       then pf_stop ATRINIK_PF_ADAPTER_ERROR TERMINATION_ADAPTER_ERROR c else c)
   }"

definition pf_search_finish ::
    "pf_alloc \<Rightarrow> pf_context \<Rightarrow> pf_status \<Rightarrow> pf_termination \<Rightarrow> nat option \<Rightarrow>
       (pf_context + pf_result \<times> pf_context) option" where
  "pf_search_finish al c status termination node =
     map_option Inr (pf_finish_search al c status termination node)"

text \<open>One iteration of \<open>while (context->heap_count != 0U)\<close> and what follows the loop.\<close>

definition pf_search_step ::
    "pf_alloc \<Rightarrow> (u64 \<Rightarrow> bool) \<Rightarrow> pf_context \<Rightarrow> (pf_context + pf_result \<times> pf_context) option" where
  "pf_search_step al is_goal c =
     (if heap c = []
      then pf_search_finish al c ATRINIK_PF_NO_PATH TERMINATION_EXHAUSTED None
      else do {
        (cancel, c) \<leftarrow> pf_call_cancelled c;
        if cancel then pf_search_finish al c ATRINIK_PF_CANCELLED TERMINATION_CANCELLED None
        else do {
          let (node, c) = pf_heap_pop c;
          if is_goal (node_state (nodes c ! node))
          then do {
            let c = c\<lparr>metrics := (metrics c)\<lparr>total_cost := node_cost (nodes c ! node)\<rparr>\<rparr>;
            pf_search_finish al c ATRINIK_PF_FOUND TERMINATION_GOAL (Some node)
          }
          else if max_expanded (options c) \<noteq> 0 \<and> expanded (metrics c) \<ge> max_expanded (options c)
          then pf_search_finish al c ATRINIK_PF_LIMIT_REACHED TERMINATION_LIMIT None
          else do {
            c \<leftarrow> pf_expand al node (pf_set_closed node True c);
            if stopped c
            then pf_search_finish al c (stop_status c) (stop_termination c) None
            else Some (Inl c)
          }
        }
      })"

definition pf_start_node :: "pf_algorithm \<Rightarrow> u64 \<Rightarrow> u64 \<Rightarrow> pf_node" where
  "pf_start_node alg start h =
     \<lparr>node_state = start, node_cost = 0, node_heuristic = h, node_priority = pf_priority alg 0 h,
       node_data = 0, node_parent = None, node_heap_index = None, node_sequence = 0,
       node_closed = False\<rparr>"

text \<open>\<open>pf_add_node\<close> and \<open>pf_heap_push\<close> of the start node.\<close>

definition pf_search_begin ::
    "pf_alloc \<Rightarrow> pf_adapter \<Rightarrow> u64 \<Rightarrow> pf_options \<Rightarrow> pf_context \<Rightarrow> (bool \<times> pf_context) option" where
  "pf_search_begin al a start opts c = do {
     h \<leftarrow> pf_call_heuristic a (algorithm opts) start;
     (r, c) \<leftarrow> pf_add_node al c (pf_start_node (algorithm opts) start h);
     (case r of
        None \<Rightarrow> Some (False, c)
      | Some start_index \<Rightarrow> do {
          (ok, c) \<leftarrow> pf_heap_push al c start_index;
          if \<not> ok then Some (False, c)
          else do {
            let c = c\<lparr>metrics := (metrics c)\<lparr>generated := 1\<rparr>\<rparr>;
            c \<leftarrow> pf_consider_partial c start_index;
            Some (True, c)
          }
        })
   }"

definition atrinik_pf_search ::
    "pf_alloc \<Rightarrow> pf_context option \<Rightarrow> pf_adapter option \<Rightarrow> u64 \<Rightarrow> pf_options option \<Rightarrow>
       (pf_result \<times> pf_context option) option" where
  "atrinik_pf_search al ctx ad start opts =
     (case ctx of
        None \<Rightarrow> Some (pf_empty_result ATRINIK_PF_INVALID_INPUT TERMINATION_INVALID_INPUT, None)
      | Some c \<Rightarrow> do {
          let opts = (case opts of None \<Rightarrow> atrinik_pf_options_init | Some opts \<Rightarrow> opts);
          let c = pf_reset ad opts c;
          if pf_invalid_search ad opts
          then Some (pf_empty_result ATRINIK_PF_INVALID_INPUT TERMINATION_INVALID_INPUT, Some c)
          else do {
            a \<leftarrow> ad;
            is_goal \<leftarrow> goal a;
            (ok, c) \<leftarrow> pf_search_begin al a start opts c;
            (result, c) \<leftarrow>
              (if \<not> ok
               then pf_finish_search al c ATRINIK_PF_OUT_OF_MEMORY TERMINATION_OUT_OF_MEMORY None
               else c_loop (pf_search_step al is_goal) c);
            Some (result, Some c)
          }
        })"


section \<open>Reachability\<close>

text \<open>One iteration over \<open>cursor\<close>; \<open>Inr\<close> is a \<open>break\<close> or the end of the loop.\<close>

definition pf_reachable_step ::
    "pf_alloc \<Rightarrow> nat \<times> pf_context \<Rightarrow> (nat \<times> pf_context + pf_context) option" where
  "pf_reachable_step al = (\<lambda>(cursor, c).
     if \<not> cursor < length (nodes c) then Some (Inr c)
     else do {
       (cancel, c) \<leftarrow> pf_call_cancelled c;
       if cancel then Some (Inr (pf_stop ATRINIK_PF_CANCELLED TERMINATION_CANCELLED c))
       else if max_expanded (options c) \<noteq> 0 \<and> expanded (metrics c) \<ge> max_expanded (options c)
       then Some (Inr (pf_stop ATRINIK_PF_LIMIT_REACHED TERMINATION_LIMIT c))
       else do {
         c \<leftarrow> pf_expand al cursor c;
         Some (if stopped c then Inr c else Inl (cursor + 1, c))
       }
     })"

definition pf_reserve_reachable :: "pf_alloc \<Rightarrow> pf_context \<Rightarrow> (bool \<times> pf_context) option" where
  "pf_reserve_reachable al c =
     (if length (nodes c) \<le> reachable_capacity c then Some (True, c)
      else do {
        (ok, cap, calls) \<leftarrow> pf_grow_array al sizeof_state_id (reachable_capacity c)
          (length (nodes c)) (alloc_calls c);
        Some (ok, c\<lparr>reachable_capacity := cap, alloc_calls := calls\<rparr>)
      })"

definition pf_reachable_result :: "pf_context \<Rightarrow> u64 list \<Rightarrow> pf_reachability_result" where
  "pf_reachable_result c states =
     \<lparr>reach_status = (if stopped c then stop_status c else ATRINIK_PF_COMPLETE),
       reach_termination = (if stopped c then stop_termination c else TERMINATION_EXHAUSTED),
       reach_states = states, reach_metrics = metrics c\<rparr>"

definition pf_reachable_finish ::
    "pf_alloc \<Rightarrow> pf_context \<Rightarrow> (pf_reachability_result \<times> pf_context) option" where
  "pf_reachable_finish al c = do {
     (ok, c) \<leftarrow> pf_reserve_reachable al c;
     if \<not> ok
     then do {
       let c = pf_stop ATRINIK_PF_OUT_OF_MEMORY TERMINATION_OUT_OF_MEMORY c;
       Some (pf_reachable_result c [], c)
     }
     else do {
       let c = c\<lparr>reachable := map node_state (nodes c)\<rparr>;
       Some (pf_reachable_result c (reachable c), c)
     }
   }"

definition pf_reach_failed :: "pf_status \<Rightarrow> pf_termination \<Rightarrow> pf_reachability_result" where
  "pf_reach_failed status termination =
     \<lparr>reach_status = status, reach_termination = termination, reach_states = [],
       reach_metrics = pf_zero_metrics\<rparr>"

definition atrinik_pf_reachable ::
    "pf_alloc \<Rightarrow> pf_context option \<Rightarrow> pf_adapter option \<Rightarrow> u64 \<Rightarrow> pf_options option \<Rightarrow>
       (pf_reachability_result \<times> pf_context option) option" where
  "atrinik_pf_reachable al ctx ad start opts =
     (case ctx of
        None \<Rightarrow> Some (pf_reach_failed ATRINIK_PF_INVALID_INPUT TERMINATION_INVALID_INPUT, None)
      | Some c \<Rightarrow> do {
          let opts = (case opts of None \<Rightarrow> atrinik_pf_options_init | Some opts \<Rightarrow> opts);
          let c = (pf_reset ad opts c)\<lparr>reachability := True\<rparr>;
          if (case ad of None \<Rightarrow> True | Some a \<Rightarrow> neighbors a = None)
          then Some (pf_reach_failed ATRINIK_PF_INVALID_INPUT TERMINATION_INVALID_INPUT, Some c)
          else do {
            (r, c) \<leftarrow> pf_add_node al c ((pf_start_node ATRINIK_PF_DIJKSTRA start 0)\<lparr>node_priority := 0\<rparr>);
            if r = None
            then Some (pf_reach_failed ATRINIK_PF_OUT_OF_MEMORY TERMINATION_OUT_OF_MEMORY, Some c)
            else do {
              let c = c\<lparr>metrics := (metrics c)\<lparr>generated := 1, peak_frontier := 1\<rparr>\<rparr>;
              c \<leftarrow> c_loop (pf_reachable_step al) (0, c);
              (result, c) \<leftarrow> pf_reachable_finish al c;
              Some (result, Some c)
            }
          }
        })"


section \<open>Status names\<close>

definition pf_status_names :: "string list" where
  "pf_status_names = [''found'', ''no path'', ''limit reached'', ''cancelled'', ''partial'',
     ''complete'', ''invalid input'', ''adapter error'', ''out of memory'', ''cost overflow'']"

text \<open>The argument is the integer value of the enumeration, which C does not check.\<close>

definition atrinik_pf_status_string :: "int \<Rightarrow> string" where
  "atrinik_pf_status_string status =
     (if nat (status mod 2 ^ 64) \<ge> length pf_status_names then ''unknown''
      else pf_status_names ! nat (status mod 2 ^ 64))"

end
