(* ===== verification/Pf_Graph.thy ===== *)
theory Pf_Graph
  imports Pf_Search
begin

text \<open>
  The graph that an adapter describes and the facts about the node array that make the
  search correct, stated without the heap: routes and their costs, the tree of parent
  links, consistent scores, and relaxed transitions. Each predicate ignores the recorded
  heap positions (lemmas \<open>*_strip\<close>), so that heap operations keep it.
\<close>

section \<open>Routes\<close>

type_synonym pf_neighbors = "u64 \<Rightarrow> pf_transition option list \<times> bool"

text \<open>A route is a list of transitions the adapter emits, each from the state the last reached.\<close>

primrec pf_route :: "pf_neighbors \<Rightarrow> u64 \<Rightarrow> pf_transition list \<Rightarrow> bool" where
  "pf_route nb s [] \<longleftrightarrow> True"
| "pf_route nb s (t # ts) \<longleftrightarrow> Some t \<in> set (fst (nb s)) \<and> pf_route nb (trans_state t) ts"

primrec pf_route_end :: "u64 \<Rightarrow> pf_transition list \<Rightarrow> u64" where
  "pf_route_end s [] = s"
| "pf_route_end s (t # ts) = pf_route_end (trans_state t) ts"

definition pf_route_cost :: "pf_algorithm \<Rightarrow> pf_transition list \<Rightarrow> nat" where
  "pf_route_cost alg ts = sum_list (map (\<lambda>t. unat (pf_step_cost alg t)) ts)"

definition pf_route_steps :: "u64 \<Rightarrow> pf_transition list \<Rightarrow> pf_step list" where
  "pf_route_steps s ts = \<lparr>step_state = s, step_data = 0\<rparr> #
     map (\<lambda>t. \<lparr>step_state = trans_state t, step_data = trans_data t\<rparr>) ts"

lemma pf_route_append:
  "pf_route nb s (ts @ us) \<longleftrightarrow> pf_route nb s ts \<and> pf_route nb (pf_route_end s ts) us"
  by (induction ts arbitrary: s) auto

lemma pf_route_end_append [simp]: "pf_route_end s (ts @ us) = pf_route_end (pf_route_end s ts) us"
  by (induction ts arbitrary: s) auto

lemma pf_route_cost_simps [simp]:
  "pf_route_cost alg [] = 0"
  "pf_route_cost alg (t # ts) = unat (pf_step_cost alg t) + pf_route_cost alg ts"
  "pf_route_cost alg (ts @ us) = pf_route_cost alg ts + pf_route_cost alg us"
  by (simp_all add: pf_route_cost_def)


section \<open>The tree of parent links\<close>

definition pf_parents :: "pf_node list \<Rightarrow> (nat \<times> nat) set" where
  "pf_parents ns = {(p, i). i < length ns \<and> node_parent (ns ! i) = Some p}"

definition pf_linked :: "pf_neighbors \<Rightarrow> pf_algorithm \<Rightarrow> pf_node list \<Rightarrow> nat \<Rightarrow> nat \<Rightarrow> bool" where
  "pf_linked nb alg ns p i \<longleftrightarrow> p < length ns \<and>
     (\<exists>t. Some t \<in> set (fst (nb (node_state (ns ! p)))) \<and> trans_state t = node_state (ns ! i) \<and>
        trans_data t = node_data (ns ! i) \<and>
        unat (node_cost (ns ! p)) + unat (pf_step_cost alg t) \<le> unat (node_cost (ns ! i)))"

definition pf_tree :: "pf_neighbors \<Rightarrow> pf_algorithm \<Rightarrow> u64 \<Rightarrow> pf_node list \<Rightarrow> bool" where
  "pf_tree nb alg start ns \<longleftrightarrow> ns \<noteq> [] \<and> node_state (ns ! 0) = start \<and> node_cost (ns ! 0) = 0 \<and>
     node_parent (ns ! 0) = None \<and> wf (pf_parents ns) \<and>
     (\<forall>i<length ns. i \<noteq> 0 \<longrightarrow> (\<exists>p. node_parent (ns ! i) = Some p \<and> pf_linked nb alg ns p i))"

lemma pf_strip_fields [simp]:
  "node_state (pf_strip n) = node_state n" "node_cost (pf_strip n) = node_cost n"
  "node_heuristic (pf_strip n) = node_heuristic n" "node_priority (pf_strip n) = node_priority n"
  "node_data (pf_strip n) = node_data n" "node_parent (pf_strip n) = node_parent n"
  "node_closed (pf_strip n) = node_closed n" "node_sequence (pf_strip n) = node_sequence n"
  by (simp_all add: pf_strip_def)

lemma pf_parents_strip: "pf_parents (map pf_strip ns) = pf_parents ns"
  by (auto simp: pf_parents_def)

lemma pf_linked_strip:
  "i < length ns \<Longrightarrow> pf_linked nb alg (map pf_strip ns) p i = pf_linked nb alg ns p i"
  by (auto simp: pf_linked_def)

lemma pf_tree_strip: "pf_tree nb alg start (map pf_strip ns) = pf_tree nb alg start ns"
  by (cases "ns = []") (auto simp: pf_tree_def pf_parents_strip pf_linked_strip)

lemma pf_tree_cost_mono:
  assumes tree: "pf_tree nb alg start ns" and anc: "(p, i) \<in> (pf_parents ns)\<^sup>*"
  shows "node_cost (ns ! p) \<le> node_cost (ns ! i)"
  using anc
proof (induction rule: rtrancl_induct)
  case (step j k)
  then have "k < length ns" "node_parent (ns ! k) = Some j" by (auto simp: pf_parents_def)
  with tree have "pf_linked nb alg ns j k" by (cases "k = 0") (auto simp: pf_tree_def)
  then have "node_cost (ns ! j) \<le> node_cost (ns ! k)"
    by (auto simp: pf_linked_def word_le_nat_alt)
  with step.IH show ?case by simp
qed simp

lemma pf_tree_append:
  assumes tree: "pf_tree nb alg start ns" and a: "a < length ns" "node_parent n = Some a"
    and t: "Some t \<in> set (fst (nb (node_state (ns ! a))))" "trans_state t = node_state n"
      "trans_data t = node_data n"
      "unat (node_cost (ns ! a)) + unat (pf_step_cost alg t) \<le> unat (node_cost n)"
  shows "pf_tree nb alg start (ns @ [n])"
proof -
  have pars: "pf_parents (ns @ [n]) = insert (a, length ns) (pf_parents ns)"
    using a by (auto simp: pf_parents_def nth_append less_Suc_eq)
  have "length ns \<noteq> a" "(length ns, a) \<notin> (pf_parents ns)\<^sup>*"
  proof -
    show "length ns \<noteq> a" using a by simp
    show "(length ns, a) \<notin> (pf_parents ns)\<^sup>*"
    proof
      assume "(length ns, a) \<in> (pf_parents ns)\<^sup>*"
      then show False
      proof (cases rule: converse_rtranclE)
        case (step y)
        then have "y < length ns" "node_parent (ns ! y) = Some (length ns)"
          by (auto simp: pf_parents_def)
        with tree show False by (cases "y = 0") (auto simp: pf_tree_def pf_linked_def)
      qed (use a in simp)
    qed
  qed
  with tree have "wf (pf_parents (ns @ [n]))" unfolding pars wf_insert by (simp add: pf_tree_def)
  moreover have "pf_linked nb alg (ns @ [n]) a (length ns)"
    using a t by (auto simp: pf_linked_def nth_append)
  moreover have "pf_linked nb alg (ns @ [n]) p i" if "pf_linked nb alg ns p i" "i < length ns" for p i
    using that by (auto simp: pf_linked_def nth_append)
  ultimately show ?thesis
    using tree a by (auto simp: pf_tree_def nth_append less_Suc_eq)
qed

text \<open>A strictly cheaper route through \<open>a\<close> cannot pass through the node it improves.\<close>

lemma pf_tree_improve:
  assumes tree: "pf_tree nb alg start ns" and a: "a < length ns" "node_parent n = Some a"
    and i: "i < length ns" "node_state n = node_state (ns ! i)" "node_cost n < node_cost (ns ! i)"
    and t: "Some t \<in> set (fst (nb (node_state (ns ! a))))" "trans_state t = node_state n"
      "trans_data t = node_data n"
      "unat (node_cost (ns ! a)) + unat (pf_step_cost alg t) \<le> unat (node_cost n)"
  shows "pf_tree nb alg start (ns[i := n])"
proof -
  have i0: "i \<noteq> 0" using tree i(3) by (intro notI) (simp add: pf_tree_def)
  have lt: "node_cost (ns ! a) < node_cost (ns ! i)"
    using t(4) i(3) by (simp add: word_less_nat_alt)
  then have ia: "i \<noteq> a" by auto
  have "(i, a) \<notin> (pf_parents ns)\<^sup>*"
    using pf_tree_cost_mono [OF tree] lt by (auto simp: not_le [symmetric])
  with tree have "wf (insert (a, i) (pf_parents ns))" by (simp add: wf_insert pf_tree_def)
  moreover have "pf_parents (ns[i := n]) \<subseteq> insert (a, i) (pf_parents ns)"
    using a i(1) by (auto simp: pf_parents_def nth_list_update split: if_splits)
  ultimately have wf: "wf (pf_parents (ns[i := n]))" by (rule wf_subset)
  have "pf_linked nb alg (ns[i := n]) a i"
    using a t i ia by (auto simp: pf_linked_def)
  moreover have "pf_linked nb alg (ns[i := n]) p k" if l: "pf_linked nb alg ns p k" and k: "k \<noteq> i" for p k
  proof (cases "p = i")
    case True
    with l i have "\<exists>t. Some t \<in> set (fst (nb (node_state n))) \<and> trans_state t = node_state (ns ! k) \<and>
        trans_data t = node_data (ns ! k) \<and>
        unat (node_cost (ns ! i)) + unat (pf_step_cost alg t) \<le> unat (node_cost (ns ! k))"
      by (simp add: pf_linked_def)
    moreover have "unat (node_cost n) \<le> unat (node_cost (ns ! i))"
      using i(3) by (simp add: word_less_nat_alt)
    ultimately show ?thesis
      using True k i(1) by (fastforce simp: pf_linked_def)
  next
    case False
    with l k show ?thesis by (simp add: pf_linked_def)
  qed
  ultimately show ?thesis
    using tree i0 i wf a by (auto simp: pf_tree_def nth_list_update)
qed


section \<open>Paths from the tree\<close>

text \<open>
  Following the parent links from a node gives, after finitely many steps, the route from
  the start: \<open>pf_count_path\<close> ends, and \<open>pf_fill_path\<close> collects the steps of a route whose
  cost is at most the node's cost.
\<close>

definition pf_count_body :: "pf_context \<Rightarrow> nat \<times> nat option \<Rightarrow> (nat \<times> nat option + nat) option" where
  "pf_count_body c = (\<lambda>(steps_count, current). Some
     (case current of
        None \<Rightarrow> Inr steps_count
      | Some i \<Rightarrow> Inl (steps_count + 1, node_parent (nodes c ! i))))"

lemma pf_tree_path:
  assumes tree: "pf_tree nb alg start (nodes c)" and i: "i < length (nodes c)"
  shows "\<exists>ts. pf_route nb start ts \<and> pf_route_end start ts = node_state (nodes c ! i) \<and>
    pf_route_cost alg ts \<le> unat (node_cost (nodes c ! i)) \<and>
    (\<forall>k. c_loop (pf_count_body c) (k, Some i) = Some (k + Suc (length ts))) \<and>
    (\<forall>acc. pf_fill_path c (Suc (length ts)) (Some i) acc =
       Some (\<lparr>step_state = start, step_data = node_data (nodes c ! 0)\<rparr> #
         map (\<lambda>t. \<lparr>step_state = trans_state t, step_data = trans_data t\<rparr>) ts @ acc))"
proof -
  have "wf (pf_parents (nodes c))" using tree by (simp add: pf_tree_def)
  then show ?thesis using i
  proof (induction i rule: wf_induct_rule)
    case (less i)
    have next_body: "c_loop (pf_count_body c) (k, Some i) =
        c_loop (pf_count_body c) (k + 1, node_parent (nodes c ! i))" for k
      by (rule c_loop_continue) (simp add: pf_count_body_def)
    show ?case
    proof (cases "i = 0")
      case True
      have "c_loop (pf_count_body c) (k, None) = Some k" for k
        by (rule c_loop_leave) (simp add: pf_count_body_def)
      with True tree next_body show ?thesis by (intro exI [of _ "[]"]) (auto simp: pf_tree_def)
    next
      case False
      with tree less.prems obtain p where p: "node_parent (nodes c ! i) = Some p"
        and link: "pf_linked nb alg (nodes c) p i" by (auto simp: pf_tree_def)
      obtain t where t: "Some t \<in> set (fst (nb (node_state (nodes c ! p))))"
        "trans_state t = node_state (nodes c ! i)" "trans_data t = node_data (nodes c ! i)"
        "unat (node_cost (nodes c ! p)) + unat (pf_step_cost alg t) \<le> unat (node_cost (nodes c ! i))"
        using link by (auto simp: pf_linked_def)
      have "(p, i) \<in> pf_parents (nodes c)" "p < length (nodes c)"
        using p less.prems link by (auto simp: pf_parents_def pf_linked_def)
      from less.IH [OF this] obtain ts where ts: "pf_route nb start ts"
        "pf_route_end start ts = node_state (nodes c ! p)"
        "pf_route_cost alg ts \<le> unat (node_cost (nodes c ! p))"
        "\<And>k. c_loop (pf_count_body c) (k, Some p) = Some (k + Suc (length ts))"
        "\<And>acc. pf_fill_path c (Suc (length ts)) (Some p) acc =
           Some (\<lparr>step_state = start, step_data = node_data (nodes c ! 0)\<rparr> #
             map (\<lambda>t. \<lparr>step_state = trans_state t, step_data = trans_data t\<rparr>) ts @ acc)"
        by blast
      have "pf_fill_path c (Suc (length (ts @ [t]))) (Some i) acc =
          pf_fill_path c (Suc (length ts)) (Some p)
            (\<lparr>step_state = trans_state t, step_data = trans_data t\<rparr> # acc)" for acc
        using p t by simp
      with ts t p next_body show ?thesis
        by (intro exI [of _ "ts @ [t]"]) (simp add: pf_route_append del: pf_fill_path.simps)
    qed
  qed
qed


section \<open>Scores, progress and relaxation\<close>

definition pf_scored :: "pf_adapter \<Rightarrow> pf_algorithm \<Rightarrow> pf_node list \<Rightarrow> bool" where
  "pf_scored ad alg ns \<longleftrightarrow> (\<forall>n\<in>set ns.
     pf_call_heuristic ad alg (node_state n) = Some (node_heuristic n) \<and>
     node_priority n = pf_priority alg (node_cost n) (node_heuristic n))"

lemma pf_scored_strip: "pf_scored ad alg (map pf_strip ns) = pf_scored ad alg ns"
  by (simp add: pf_scored_def)

text \<open>
  What one callback may do to the node array: states stay, costs only fall, a node that is
  closed afterwards was closed before with the same cost, and new nodes are open.
\<close>

definition pf_progress :: "pf_node list \<Rightarrow> pf_node list \<Rightarrow> bool" where
  "pf_progress ns ns' \<longleftrightarrow> length ns \<le> length ns' \<and>
     (\<forall>i<length ns. node_state (ns' ! i) = node_state (ns ! i) \<and>
        unat (node_cost (ns' ! i)) \<le> unat (node_cost (ns ! i)) \<and>
        (node_closed (ns' ! i) \<longrightarrow> node_closed (ns ! i) \<and> node_cost (ns' ! i) = node_cost (ns ! i))) \<and>
     (\<forall>i<length ns'. length ns \<le> i \<longrightarrow> \<not> node_closed (ns' ! i))"

lemma pf_progress_strip: "pf_progress ns (map pf_strip ns') = pf_progress ns ns'"
  by (auto simp: pf_progress_def)

lemma pf_progress_refl: "pf_progress ns ns"
  by (simp add: pf_progress_def)

lemma pf_progressD:
  assumes "pf_progress ns ns'"
  shows "length ns \<le> length ns'"
    and "i < length ns \<Longrightarrow> node_state (ns' ! i) = node_state (ns ! i)"
    and "i < length ns \<Longrightarrow> unat (node_cost (ns' ! i)) \<le> unat (node_cost (ns ! i))"
    and "i < length ns' \<Longrightarrow> node_closed (ns' ! i) \<Longrightarrow>
      i < length ns \<and> node_closed (ns ! i) \<and> node_cost (ns' ! i) = node_cost (ns ! i)"
  using assms by (auto simp: pf_progress_def not_le [symmetric])

lemma pf_progress_trans:
  assumes "pf_progress ns ns'" "pf_progress ns' ns''"
  shows "pf_progress ns ns''"
proof -
  note p = pf_progressD [OF assms(1)] and q = pf_progressD [OF assms(2)]
  have "node_closed (ns ! i) \<and> node_cost (ns'' ! i) = node_cost (ns ! i) \<and> i < length ns"
    if "i < length ns''" "node_closed (ns'' ! i)" for i
    using q(4) [OF that] p(4) [of i] by auto
  moreover have "i < length ns''" "node_state (ns'' ! i) = node_state (ns ! i)"
    "unat (node_cost (ns'' ! i)) \<le> unat (node_cost (ns ! i))" if "i < length ns" for i
    using p(1) p(2,3) [of i] q(1) q(2,3) [of i] that by simp_all
  moreover have "length ns \<le> length ns''" using p(1) q(1) by simp
  ultimately show ?thesis
    unfolding pf_progress_def by (simp add: not_less [symmetric]) blast
qed

definition pf_relaxes :: "pf_algorithm \<Rightarrow> pf_node list \<Rightarrow> nat \<Rightarrow> pf_transition \<Rightarrow> bool" where
  "pf_relaxes alg ns i t \<longleftrightarrow> (\<exists>j<length ns. node_state (ns ! j) = trans_state t \<and>
     unat (node_cost (ns ! j)) \<le> unat (node_cost (ns ! i)) + unat (pf_step_cost alg t))"

definition pf_relaxed :: "pf_neighbors \<Rightarrow> pf_algorithm \<Rightarrow> pf_node list \<Rightarrow> nat \<Rightarrow> bool" where
  "pf_relaxed nb alg ns i \<longleftrightarrow>
     (\<forall>t. Some t \<in> set (fst (nb (node_state (ns ! i)))) \<longrightarrow> pf_relaxes alg ns i t)"

lemma pf_relaxes_progress:
  assumes "pf_relaxes alg ns i t" "pf_progress ns ns'" "i < length ns"
    "node_cost (ns' ! i) = node_cost (ns ! i)"
  shows "pf_relaxes alg ns' i t"
proof -
  obtain j where "j < length ns" "node_state (ns ! j) = trans_state t"
    "unat (node_cost (ns ! j)) \<le> unat (node_cost (ns ! i)) + unat (pf_step_cost alg t)"
    using assms(1) by (auto simp: pf_relaxes_def)
  with assms(2,4) show ?thesis
    unfolding pf_relaxes_def pf_progress_def by (intro exI [of _ j]) fastforce
qed

lemma pf_relaxed_progress:
  assumes rel: "\<And>i. i < length ns \<Longrightarrow> node_closed (ns ! i) \<Longrightarrow> i \<noteq> a \<Longrightarrow> pf_relaxed nb alg ns i"
    and prog: "pf_progress ns ns'" and i: "i < length ns'" "node_closed (ns' ! i)" "i \<noteq> a"
  shows "pf_relaxed nb alg ns' i"
proof -
  have lt: "i < length ns" and "node_closed (ns ! i)" "node_cost (ns' ! i) = node_cost (ns ! i)"
    using pf_progressD(4) [OF prog i(1,2)] by auto
  moreover have "node_state (ns' ! i) = node_state (ns ! i)" by (rule pf_progressD(2) [OF prog lt])
  ultimately have "node_closed (ns ! i)" "node_cost (ns' ! i) = node_cost (ns ! i)"
    "node_state (ns' ! i) = node_state (ns ! i)" by simp_all
  with rel [OF lt] i(3) pf_relaxes_progress [OF _ prog lt] show ?thesis
    by (simp add: pf_relaxed_def)
qed

text \<open>
  The variant of the search loop: the number of states not seen yet counts more than all
  costs together, so a new node decreases it, and so does a lower cost.
\<close>

definition pf_potential :: "pf_node list \<Rightarrow> nat" where
  "pf_potential ns = (2 ^ 64 - length ns) * 2 ^ 64 + sum_list (map (\<lambda>n. unat (node_cost n)) ns)"

lemma pf_potential_strip: "pf_potential (map pf_strip ns) = pf_potential ns"
  by (simp add: pf_potential_def comp_def)

lemma distinct_states_bound:
  assumes "distinct (pf_states ns)"
  shows "length ns \<le> 2 ^ 64"
proof -
  have "length ns = card (set (pf_states ns))" using distinct_card [OF assms] by simp
  also have "\<dots> \<le> card (UNIV :: u64 set)" by (rule card_mono) simp_all
  finally show ?thesis by (simp add: card_word)
qed

lemma pf_potential_append:
  assumes "distinct (pf_states (ns @ [n]))"
  shows "pf_potential (ns @ [n]) < pf_potential ns"
proof -
  have "length ns < 2 ^ 64" using distinct_states_bound [OF assms] by simp
  then have "(2 ^ 64 - length ns) * 2 ^ 64 = (2 ^ 64 - Suc (length ns)) * 2 ^ 64 + (2::nat) ^ 64"
    by (metis Suc_diff_Suc mult_Suc add.commute)
  moreover have "unat (node_cost n) < 2 ^ 64"
    using unsigned_less [of "node_cost n", where ?'a = nat] by simp
  ultimately show ?thesis by (simp add: pf_potential_def)
qed

lemma pf_potential_improve:
  assumes "i < length ns" "node_cost n < node_cost (ns ! i)"
  shows "pf_potential (ns[i := n]) < pf_potential ns"
proof -
  let ?f = "\<lambda>n. unat (node_cost n)"
  have "sum_list (map ?f (ns[i := n])) + ?f (ns ! i) = sum_list (map ?f ns) + ?f n"
    using assms(1)
  proof (induction ns arbitrary: i)
    case (Cons x xs)
    then show ?case by (cases i) auto
  qed simp
  then show ?thesis using assms(2) by (simp add: pf_potential_def word_less_nat_alt)
qed

end
