(* ===== verification/Pf_Emit.thy ===== *)
theory Pf_Emit
  imports Pf_Graph
begin

text \<open>
  One call of the transition callback keeps the search invariant, relaxes the emitted
  transition, and makes progress. \<open>pf_core\<close> is what holds at every moment, also after a
  stop; \<open>pf_live\<close> is what holds while the search goes on.
\<close>

section \<open>Invariants\<close>

definition pf_arrays :: "pf_context \<Rightarrow> bool" where
  "pf_arrays c \<longleftrightarrow> pf_index_wf c \<and> length (nodes c) \<le> node_capacity c \<and>
     pf_heap_wf c \<and> length (heap c) \<le> heap_capacity c"

definition pf_within :: "nat \<Rightarrow> nat \<Rightarrow> bool" where
  "pf_within n limit \<longleftrightarrow> limit = 0 \<or> n \<le> limit"

definition pf_budget :: "pf_context \<Rightarrow> bool" where
  "pf_budget c \<longleftrightarrow> pf_within (expanded (metrics c)) (max_expanded (options c)) \<and>
     pf_within (generated (metrics c)) (max_generated (options c)) \<and>
     pf_within (examined_transitions (metrics c)) (max_transitions (options c)) \<and>
     pf_within (length (heap c)) (max_frontier (options c)) \<and>
     pf_within (peak_frontier (metrics c)) (max_frontier (options c)) \<and>
     length (nodes c) = generated (metrics c)"

definition pf_good_nodes :: "pf_adapter \<Rightarrow> pf_options \<Rightarrow> u64 \<Rightarrow> pf_node list \<Rightarrow> bool" where
  "pf_good_nodes ad opts start ns \<longleftrightarrow>
     (\<exists>nb. neighbors ad = Some nb \<and> pf_tree nb (algorithm opts) start ns) \<and>
     pf_scored ad (algorithm opts) ns"

definition pf_control :: "pf_adapter \<Rightarrow> pf_options \<Rightarrow> pf_context \<Rightarrow> bool" where
  "pf_control ad opts c \<longleftrightarrow> adapter c = Some ad \<and> options c = opts \<and> \<not> reachability c \<and>
     (\<forall>p. partial_node c = Some p \<longrightarrow> p < length (nodes c))"

definition pf_core :: "pf_adapter \<Rightarrow> pf_options \<Rightarrow> u64 \<Rightarrow> pf_context \<Rightarrow> bool" where
  "pf_core ad opts start c \<longleftrightarrow> pf_arrays c \<and> pf_control ad opts c \<and>
     pf_good_nodes ad opts start (nodes c) \<and> pf_budget c"

definition pf_live :: "(u64 \<Rightarrow> bool) \<Rightarrow> pf_context \<Rightarrow> bool" where
  "pf_live is_goal c \<longleftrightarrow> (\<forall>i<length (nodes c).
     (node_closed (nodes c ! i) \<longleftrightarrow> i \<notin> set (heap c)) \<and>
     (node_closed (nodes c ! i) \<longrightarrow> \<not> is_goal (node_state (nodes c ! i))))"

definition pf_settled :: "pf_neighbors \<Rightarrow> pf_algorithm \<Rightarrow> pf_node list \<Rightarrow> nat option \<Rightarrow> bool" where
  "pf_settled nb alg ns a \<longleftrightarrow>
     (\<forall>i<length ns. node_closed (ns ! i) \<and> a \<noteq> Some i \<longrightarrow> pf_relaxed nb alg ns i)"

lemma pf_good_nodes_strip:
  assumes "map pf_strip ns' = map pf_strip ns"
  shows "pf_good_nodes ad opts start ns' = pf_good_nodes ad opts start ns"
  unfolding pf_good_nodes_def
  using assms pf_tree_strip [of _ _ start ns] pf_tree_strip [of _ _ start ns']
    pf_scored_strip [of ad _ ns] pf_scored_strip [of ad _ ns'] by metis

lemma pf_potential_cong:
  "map pf_strip ns' = map pf_strip ns \<Longrightarrow> pf_potential ns' = pf_potential ns"
  using pf_potential_strip by metis

lemma pf_progress_cong:
  "map pf_strip ns'' = map pf_strip ns' \<Longrightarrow> pf_progress ns ns'' = pf_progress ns ns'"
  using pf_progress_strip by metis

lemma pf_arrays_cong:
  assumes "pf_arrays c" "nodes c' = nodes c" "node_capacity c' = node_capacity c" "hash c' = hash c"
    "hash_capacity c' = hash_capacity c" "heap c' = heap c" "heap_capacity c' = heap_capacity c"
  shows "pf_arrays c'"
  using assms pf_heap_wf_cong [of c' c] pf_index_wf_frame [of c c'] by (simp add: pf_arrays_def)

lemma pf_core_cong:
  assumes "pf_core ad opts start c" "nodes c' = nodes c" "node_capacity c' = node_capacity c"
    "hash c' = hash c" "hash_capacity c' = hash_capacity c" "heap c' = heap c"
    "heap_capacity c' = heap_capacity c" "adapter c' = adapter c" "options c' = options c"
    "reachability c' = reachability c" "partial_node c' = partial_node c" "pf_budget c'"
  shows "pf_core ad opts start c'"
  using assms pf_arrays_cong [of c c'] by (simp add: pf_core_def pf_control_def)

lemma pf_stop_fields [simp]:
  "nodes (pf_stop s t c) = nodes c" "heap (pf_stop s t c) = heap c"
  "active_node (pf_stop s t c) = active_node c" "stopped (pf_stop s t c)"
  "metrics (pf_stop s t c) = metrics c" "options (pf_stop s t c) = options c"
  "stop_status (pf_stop s t c) = s" "stop_termination (pf_stop s t c) = t"
  by (simp_all add: pf_stop_def)

lemma pf_budget_cong:
  "metrics c' = metrics c \<Longrightarrow> options c' = options c \<Longrightarrow> length (nodes c') = length (nodes c) \<Longrightarrow>
     length (heap c') = length (heap c) \<Longrightarrow> pf_budget c' = pf_budget c"
  by (simp add: pf_budget_def)

lemma pf_core_budget: "pf_core ad opts start c \<Longrightarrow> pf_budget c"
  by (simp add: pf_core_def)

lemma pf_core_stop [simp]:
  assumes "pf_core ad opts start c"
  shows "pf_core ad opts start (pf_stop s t c)"
proof (rule pf_core_cong [OF assms])
  show "pf_budget (pf_stop s t c)"
    using pf_core_budget [OF assms] pf_budget_cong [of "pf_stop s t c" c] by simp
qed (simp_all add: pf_stop_def)

lemma pf_within_less: "pf_within n limit \<Longrightarrow> \<not> (limit \<noteq> 0 \<and> limit \<le> n) \<Longrightarrow> pf_within (Suc n) limit"
  by (auto simp: pf_within_def)

text \<open>A ready adapter has every callback the chosen options need.\<close>

definition pf_ready :: "pf_adapter \<Rightarrow> pf_options \<Rightarrow> bool" where
  "pf_ready ad opts \<longleftrightarrow> \<not> pf_invalid_search (Some ad) opts"

lemma pf_ready_calls:
  assumes "pf_ready ad opts"
  shows "\<exists>nb. neighbors ad = Some nb" "\<exists>g. goal ad = Some g"
    "\<exists>h. pf_call_heuristic ad (algorithm opts) s = Some h"
    "return_partial opts \<Longrightarrow> \<exists>r. partial_rank_fn ad = Some r"
  using assms by (auto simp: pf_ready_def pf_invalid_search_def pf_call_heuristic_def)


section \<open>Operations on the arrays\<close>

lemma pf_add_node_arrays:
  assumes arr: "pf_arrays c" and new: "node_state n \<notin> set (pf_states (nodes c))"
    and none: "node_heap_index n = None"
  obtains r c' where "pf_add_node al c n = Some (r, c')" "pf_frame c c'" "pf_arrays c'"
    "heap c' = heap c" "metrics c' = metrics c"
    "r = None \<and> nodes c' = nodes c \<or> r = Some (length (nodes c)) \<and> nodes c' = nodes c @ [n]"
proof -
  obtain r c' where add: "pf_add_node al c n = Some (r, c')" "pf_grown c c'" "pf_index_wf c'"
    "length (nodes c') \<le> node_capacity c'"
    and cases: "r = None \<and> nodes c' = nodes c \<or> r = Some (length (nodes c)) \<and> nodes c' = nodes c @ [n]"
    using pf_add_node_total [of c n al] arr new unfolding pf_arrays_def by blast
  have same: "heap c' = heap c" "metrics c' = metrics c" "heap_capacity c' = heap_capacity c"
    using add(2) by (auto simp: pf_grown_def)
  have "pf_heap_wf c'"
  proof -
    have range: "\<forall>i\<in>set (heap c). i < length (nodes c)"
      using arr by (simp add: pf_arrays_def pf_heap_wf_def pf_heap_coherent_def)
    have "pf_heap_wf c" using arr by (simp add: pf_arrays_def)
    with cases same range none show ?thesis
      unfolding pf_heap_wf_def pf_heap_coherent_def pf_heap_ordered_def pf_heap_key_def
      by (auto simp: nth_append less_Suc_eq)
  qed
  with arr add same have "pf_arrays c'" by (simp add: pf_arrays_def)
  from that [OF add(1) pf_grown_frame [OF add(2)] this same(1,2) cases] show ?thesis .
qed

lemma metrics_heap_swap [simp]: "metrics (pf_heap_swap c l r) = metrics c"
  by (simp add: pf_heap_swap_def pf_set_heap_index_def Let_def)

lemma metrics_heap_up [simp]: "metrics (pf_heap_up c p) = metrics c"
proof (induction c p rule: pf_heap_up.induct)
  case (1 c p)
  then show ?case by (simp add: pf_heap_up.simps [of c p] Let_def)
qed

lemma pf_heap_push_peak:
  assumes "pf_heap_push al c node = Some (ok, c')"
  shows "peak_frontier (metrics c') = peak_frontier (metrics c) \<or>
    peak_frontier (metrics c') = length (heap c')"
proof -
  obtain ok' r where r: "pf_reserve_heap al c = Some (ok', r)"
    using assms by (auto simp: pf_heap_push_def split: Option.bind_splits)
  then have "metrics r = metrics c"
    by (auto simp: pf_reserve_heap_def split: Option.bind_splits if_splits)
  with assms r show ?thesis
    by (auto simp: pf_heap_push_def pf_set_heap_index_def Let_def split: if_splits)
qed

lemma pf_heap_push_arrays:
  assumes arr: "pf_arrays c" and node: "node < length (nodes c)" "node \<notin> set (heap c)"
  obtains ok c' where "pf_heap_push al c node = Some (ok, c')" "pf_frame c c'" "pf_arrays c'"
    "map pf_strip (nodes c') = map pf_strip (nodes c)"
    "mset (heap c') = (if ok then add_mset node (mset (heap c)) else mset (heap c))"
    "peak_frontier (metrics c') = peak_frontier (metrics c) \<or>
       peak_frontier (metrics c') = length (heap c')"
proof -
  obtain ok c' where push: "pf_heap_push al c node = Some (ok, c')" "pf_moved c c'" "pf_heap_wf c'"
    "length (heap c') \<le> heap_capacity c'"
    "mset (heap c') = (if ok then add_mset node (mset (heap c)) else mset (heap c))"
    using pf_heap_push_total [of c node al] arr node unfolding pf_arrays_def by blast
  have "pf_arrays c'"
    using arr push pf_moved_index_wf [OF push(2)] pf_moved_length [OF push(2)]
    by (simp add: pf_arrays_def pf_moved_def)
  with push(2) show ?thesis
    by (intro that [OF push(1) _ _ _ push(5) pf_heap_push_peak [OF push(1)]]) (simp_all add: pf_moved_def)
qed

lemma pf_consider_partial_total:
  assumes "adapter c = Some ad" "options c = opts" "pf_ready ad opts"
  obtains p r where "pf_consider_partial c node = Some (c\<lparr>partial_node := p, partial_rank := r\<rparr>)"
    "p = partial_node c \<or> p = Some node"
proof -
  have same: "c = c\<lparr>partial_node := partial_node c, partial_rank := partial_rank c\<rparr>" by simp
  show ?thesis
  proof (cases "return_partial opts")
    case False
    with assms(2) same show ?thesis
      by (intro that [where p = "partial_node c" and r = "partial_rank c"])
        (simp_all add: pf_consider_partial_def)
  next
    case True
    then obtain f where f: "partial_rank_fn ad = Some f" using pf_ready_calls(4) [OF assms(3)] by blast
    let ?r = "f (node_state (nodes c ! node))"
    have "pf_consider_partial c node = Some (c\<lparr>partial_node := Some node, partial_rank := ?r\<rparr>) \<or>
        pf_consider_partial c node = Some (c\<lparr>partial_node := partial_node c, partial_rank := partial_rank c\<rparr>)"
      using assms True f by (auto simp: pf_consider_partial_def Let_def split: option.splits)
    with that show ?thesis by blast
  qed
qed

text \<open>Updating a node that is not queued, without touching its state or recorded position.\<close>

lemma pf_update_unqueued_arrays:
  assumes arr: "pf_arrays c" and i: "i < length (nodes c)" "i \<notin> set (heap c)"
    and n: "node_state n = node_state (nodes c ! i)" "node_heap_index n = node_heap_index (nodes c ! i)"
  shows "pf_arrays (c\<lparr>nodes := (nodes c)[i := n]\<rparr>)"
proof -
  let ?c = "c\<lparr>nodes := (nodes c)[i := n]\<rparr>"
  have wf: "pf_heap_wf c" using arr by (simp add: pf_arrays_def)
  have "pf_states ((nodes c)[i := n]) = pf_states (nodes c)"
    using n(1) i(1) by (simp add: pf_states_def map_update list_update_same_conv)
  then have "pf_index_wf ?c" using arr by (rule_tac pf_index_wf_frame [of c]) (simp_all add: pf_arrays_def)
  moreover have "pf_heap_coherent ?c"
    using wf pf_rekey_coherent [of c i n] i n by (simp add: pf_heap_wf_def)
  moreover have "pf_heap_key ?c p = pf_heap_key c p" if "p < length (heap c)" for p
  proof -
    have "heap c ! p \<noteq> i" using that i(2) nth_mem by blast
    then show ?thesis by (simp add: pf_heap_key_def)
  qed
  then have "pf_heap_ordered ?c"
    using wf by (auto simp: pf_heap_wf_def pf_heap_ordered_def)
  ultimately show ?thesis using arr by (simp add: pf_arrays_def pf_heap_wf_def)
qed

lemma pf_priority_mono:
  assumes "cost' \<le> cost"
  shows "pf_priority alg cost' h \<le> pf_priority alg cost h"
proof -
  have sat: "UINT64_MAX - cost < h" if "UINT64_MAX - cost' < h"
    using that assms by (simp add: word_less_nat_alt word_le_nat_alt unat_UINT64_MAX_minus)
  have "cost' + h \<le> cost + h" if "\<not> UINT64_MAX - cost < h"
  proof -
    have "\<not> UINT64_MAX - cost' < h"
      using that assms by (simp add: word_less_nat_alt word_le_nat_alt unat_UINT64_MAX_minus)
    then show ?thesis using that assms by (simp add: word_le_nat_alt unat_add_guarded)
  qed
  with sat assms show ?thesis by (auto simp: pf_priority_def)
qed


section \<open>Operations on the search state\<close>

lemma pf_core_partial:
  assumes "pf_core ad opts start c" "p = partial_node c \<or> p = Some node" "node < length (nodes c)"
  shows "pf_core ad opts start (c\<lparr>partial_node := p, partial_rank := r\<rparr>)"
proof -
  let ?c = "c\<lparr>partial_node := p, partial_rank := r\<rparr>"
  have "pf_arrays ?c" using assms(1) pf_arrays_cong [of c ?c] by (simp add: pf_core_def)
  moreover have "pf_budget ?c" using pf_core_budget [OF assms(1)] pf_budget_cong [of ?c c] by simp
  ultimately show ?thesis using assms by (auto simp: pf_core_def pf_control_def)
qed

lemma pf_core_push:
  assumes core: "pf_core ad opts start c" and node: "node < length (nodes c)" "node \<notin> set (heap c)"
    and avail: "pf_frontier_available c"
  obtains ok c' where "pf_heap_push al c node = Some (ok, c')" "pf_core ad opts start c'" "pf_frame c c'"
    "map pf_strip (nodes c') = map pf_strip (nodes c)"
    "mset (heap c') = (if ok then add_mset node (mset (heap c)) else mset (heap c))"
proof -
  have arr: "pf_arrays c" using core by (simp add: pf_core_def)
  obtain ok c' where push: "pf_heap_push al c node = Some (ok, c')" "pf_frame c c'" "pf_arrays c'"
    and strip: "map pf_strip (nodes c') = map pf_strip (nodes c)"
    and ms: "mset (heap c') = (if ok then add_mset node (mset (heap c)) else mset (heap c))"
    and peak: "peak_frontier (metrics c') = peak_frontier (metrics c) \<or>
       peak_frontier (metrics c') = length (heap c')"
    by (rule pf_heap_push_arrays [OF arr node])
  have len: "length (nodes c') = length (nodes c)" using strip map_eq_imp_length_eq by blast
  have "length (heap c') \<le> Suc (length (heap c))"
    using arg_cong [OF ms, of size] by (simp split: if_splits)
  then have "pf_within (length (heap c')) (max_frontier (options c))"
    using avail pf_core_budget [OF core]
    by (auto simp: pf_within_def pf_frontier_available_def)
  with peak pf_core_budget [OF core] pf_frame_fields [OF push(2)] len have "pf_budget c'"
    by (auto simp: pf_budget_def)
  moreover have "pf_control ad opts c'"
    using core pf_frame_fields [OF push(2)] len by (simp add: pf_core_def pf_control_def)
  ultimately have "pf_core ad opts start c'"
    using core push(3) pf_good_nodes_strip [OF strip] by (simp add: pf_core_def)
  from that [OF push(1) this push(2) strip ms] show ?thesis .
qed

lemma pf_live_strip:
  assumes "map pf_strip (nodes c') = map pf_strip ns" "set (heap c') = H"
    and live: "\<And>i. i < length ns \<Longrightarrow> (node_closed (ns ! i) \<longleftrightarrow> i \<notin> H) \<and>
      (node_closed (ns ! i) \<longrightarrow> \<not> is_goal (node_state (ns ! i)))"
  shows "pf_live is_goal c'"
proof -
  have len: "length (nodes c') = length ns" using assms(1) map_eq_imp_length_eq by blast
  have "pf_strip (nodes c' ! i) = pf_strip (ns ! i)" if "i < length ns" for i
    using arg_cong [OF assms(1), of "\<lambda>xs. xs ! i"] that len by simp
  with len live assms(2) show ?thesis
    unfolding pf_live_def by (metis pf_strip_fields(1) pf_strip_fields(7))
qed

lemma pf_relaxes_strip:
  assumes "map pf_strip ns' = map pf_strip ns" "i < length ns"
  shows "pf_relaxes alg ns' i t = pf_relaxes alg ns i t"
proof -
  have "pf_relaxes alg (map pf_strip ns) i t = pf_relaxes alg ns i t" if "i < length ns" for ns
    using that by (auto simp: pf_relaxes_def)
  with assms show ?thesis by (metis map_eq_imp_length_eq)
qed

text \<open>Every way the callback stops the search.\<close>

definition pf_stop_coded :: "pf_context \<Rightarrow> bool" where
  "pf_stop_coded c \<longleftrightarrow> (stop_status c, stop_termination c) \<in>
     {(ATRINIK_PF_LIMIT_REACHED, TERMINATION_LIMIT), (ATRINIK_PF_CANCELLED, TERMINATION_CANCELLED),
      (ATRINIK_PF_ADAPTER_ERROR, TERMINATION_ADAPTER_ERROR),
      (ATRINIK_PF_OUT_OF_MEMORY, TERMINATION_OUT_OF_MEMORY),
      (ATRINIK_PF_COST_OVERFLOW, TERMINATION_COST_OVERFLOW)}"

definition pf_no_growth :: "pf_context \<Rightarrow> pf_context \<Rightarrow> bool" where
  "pf_no_growth c c' \<longleftrightarrow> pf_potential (nodes c') < pf_potential (nodes c) \<or>
     pf_potential (nodes c') = pf_potential (nodes c) \<and> length (heap c') = length (heap c)"

definition pf_emitted :: "pf_adapter \<Rightarrow> pf_options \<Rightarrow> u64 \<Rightarrow> (u64 \<Rightarrow> bool) \<Rightarrow> nat \<Rightarrow>
    pf_transition option \<Rightarrow> pf_context \<Rightarrow> pf_context \<Rightarrow> bool" where
  "pf_emitted ad opts start is_goal a t c c' \<longleftrightarrow>
     pf_core ad opts start c' \<and> active_node c' = Some a \<and> pf_no_growth c c' \<and>
     (if stopped c' then pf_stop_coded c'
      else pf_live is_goal c' \<and> pf_progress (nodes c) (nodes c') \<and> node_closed (nodes c' ! a) \<and>
        (\<exists>u. t = Some u \<and> pf_relaxes (algorithm opts) (nodes c') a u))"

definition pf_emitting :: "pf_adapter \<Rightarrow> pf_options \<Rightarrow> u64 \<Rightarrow> (u64 \<Rightarrow> bool) \<Rightarrow> nat \<Rightarrow> pf_context \<Rightarrow> bool" where
  "pf_emitting ad opts start is_goal a c \<longleftrightarrow> pf_ready ad opts \<and> pf_core ad opts start c \<and>
     pf_live is_goal c \<and> \<not> stopped c \<and> active_node c = Some a \<and> a < length (nodes c) \<and>
     node_closed (nodes c ! a)"

lemma pf_emitted_limit:
  "pf_core ad opts start c' \<Longrightarrow> active_node c' = Some a \<Longrightarrow> pf_no_growth c c' \<Longrightarrow>
     \<exists>c''. pf_limit c' = Some (\<not> stopped c'', c'') \<and> pf_emitted ad opts start is_goal a t c c''"
  by (simp add: pf_limit_def pf_emitted_def pf_no_growth_def pf_stop_coded_def)

lemma pf_emitted_out_of_memory:
  "pf_core ad opts start c' \<Longrightarrow> active_node c' = Some a \<Longrightarrow> pf_no_growth c c' \<Longrightarrow>
     \<exists>c''. pf_out_of_memory c' = Some (\<not> stopped c'', c'') \<and> pf_emitted ad opts start is_goal a t c c''"
  by (simp add: pf_out_of_memory_def pf_emitted_def pf_no_growth_def pf_stop_coded_def)

lemma pf_no_growth_refl: "pf_no_growth c c"
  by (simp add: pf_no_growth_def)

lemma pf_no_growth_less: "pf_potential (nodes c') < pf_potential (nodes c) \<Longrightarrow> pf_no_growth c c'"
  by (simp add: pf_no_growth_def)


text \<open>
  The last step of two branches of the callback: queue node \<open>i\<close>, or report the failed
  allocation. The node array has already been updated.
\<close>

lemma pf_push_emitted:
  assumes core: "pf_core ad opts start c2" and act: "active_node c2 = Some a" "a < length (nodes c2)"
    and run: "\<not> stopped c2" and i: "i < length (nodes c2)" "i \<notin> set (heap c2)"
    and avail: "pf_frontier_available c2"
    and pot: "pf_potential (nodes c2) < pf_potential (nodes c)"
    and live: "\<And>j. j < length (nodes c2) \<Longrightarrow>
      (node_closed (nodes c2 ! j) \<longleftrightarrow> j \<notin> insert i (set (heap c2))) \<and>
      (node_closed (nodes c2 ! j) \<longrightarrow> \<not> is_goal (node_state (nodes c2 ! j)))"
    and prog: "pf_progress (nodes c) (nodes c2)" and closed: "node_closed (nodes c2 ! a)"
    and rel: "pf_relaxes (algorithm opts) (nodes c2) a t"
  shows "\<exists>c'. Option.bind (pf_heap_push al c2 i)
      (\<lambda>(ok, c). if ok then Some (True, c) else pf_out_of_memory c) = Some (\<not> stopped c', c') \<and>
    pf_emitted ad opts start is_goal a (Some t) c c'"
proof -
  obtain ok c3 where push: "pf_heap_push al c2 i = Some (ok, c3)" "pf_core ad opts start c3" "pf_frame c2 c3"
    and strip: "map pf_strip (nodes c3) = map pf_strip (nodes c2)"
    and ms: "mset (heap c3) = (if ok then add_mset i (mset (heap c2)) else mset (heap c2))"
    by (rule pf_core_push [OF core i avail])
  note f3 = pf_frame_fields [OF push(3)]
  have pot3: "pf_no_growth c c3"
    using pot pf_potential_cong [OF strip] by (simp add: pf_no_growth_def)
  show ?thesis
  proof (cases ok)
    case False
    with pf_emitted_out_of_memory [OF push(2) _ pot3] f3 act push(1) show ?thesis by simp
  next
    case True
    have len: "length (nodes c3) = length (nodes c2)" using map_eq_imp_length_eq [OF strip] .
    have "mset (heap c3) = add_mset i (mset (heap c2))" using ms True by simp
    from arg_cong [OF this, of set_mset] have "set (heap c3) = insert i (set (heap c2))" by simp
    then have "pf_live is_goal c3" by (rule pf_live_strip [OF strip _ live])
    moreover have "pf_progress (nodes c) (nodes c3)" using prog pf_progress_cong [OF strip] by simp
    moreover have "pf_strip (nodes c3 ! a) = pf_strip (nodes c2 ! a)"
      using arg_cong [OF strip, of "\<lambda>xs. xs ! a"] act(2) len by simp
    then have "node_closed (nodes c3 ! a)" using closed by (metis pf_strip_fields(7))
    moreover have "pf_relaxes (algorithm opts) (nodes c3) a t"
      using pf_relaxes_strip [OF strip act(2)] rel by simp
    ultimately show ?thesis
      using True push(1,2) f3 act run pot3 by (simp add: pf_emitted_def)
  qed
qed


section \<open>A state seen for the first time\<close>

definition pf_new_node :: "pf_adapter \<Rightarrow> pf_options \<Rightarrow> pf_context \<Rightarrow> pf_transition \<Rightarrow> u64 \<Rightarrow> u64 \<Rightarrow> pf_node" where
  "pf_new_node ad opts c t tc h = \<lparr>node_state = trans_state t, node_cost = tc, node_heuristic = h,
     node_priority = pf_priority (algorithm opts) tc h, node_data = trans_data t,
     node_parent = active_node c, node_heap_index = None, node_sequence = length (nodes c),
     node_closed = False\<rparr>"

lemma pf_good_nodes_new:
  assumes good: "pf_good_nodes ad opts start (nodes c)" and nb: "neighbors ad = Some nb"
    and a: "active_node c = Some a" "a < length (nodes c)"
    and t: "Some t \<in> set (fst (nb (node_state (nodes c ! a))))"
    and tc: "unat tc = unat (node_cost (nodes c ! a)) + unat (pf_step_cost (algorithm opts) t)"
    and h: "pf_call_heuristic ad (algorithm opts) (trans_state t) = Some h"
  shows "pf_good_nodes ad opts start (nodes c @ [pf_new_node ad opts c t tc h])"
proof -
  have "pf_tree nb (algorithm opts) start (nodes c @ [pf_new_node ad opts c t tc h])"
    by (rule pf_tree_append [of _ _ _ _ a _ t])
      (use good nb a t tc in \<open>auto simp: pf_good_nodes_def pf_new_node_def\<close>)
  then show ?thesis using good nb h by (simp add: pf_good_nodes_def pf_scored_def pf_new_node_def)
qed

text \<open>The context after a new node has been added and counted.\<close>

lemma pf_core_added:
  assumes core: "pf_core ad opts start c" and frame: "pf_frame c c'" and arr: "pf_arrays c'"
    and same: "heap c' = heap c" "metrics c' = metrics c" and ns: "nodes c' = nodes c @ [n]"
    and good: "pf_good_nodes ad opts start (nodes c @ [n])" and full: "\<not> pf_generated_full c"
  shows "pf_core ad opts start (pf_count_generated c')"
proof -
  have "pf_within (Suc (generated (metrics c))) (max_generated (options c))"
    using pf_within_less pf_core_budget [OF core] full
    by (auto simp: pf_budget_def pf_generated_full_def)
  then have "pf_budget (pf_count_generated c')"
    using pf_core_budget [OF core] same ns pf_frame_fields [OF frame]
    by (simp add: pf_budget_def pf_count_generated_def)
  moreover have "pf_arrays (pf_count_generated c')"
    by (rule pf_arrays_cong [OF arr]) (simp_all add: pf_count_generated_def)
  ultimately show ?thesis
    using core good ns pf_frame_fields [OF frame]
    by (auto simp: pf_core_def pf_control_def pf_count_generated_def less_Suc_eq)
qed

lemma pf_emit_new_emitted:
  assumes em: "pf_emitting ad opts start is_goal a c" and nb: "neighbors ad = Some nb"
    and t: "Some t \<in> set (fst (nb (node_state (nodes c ! a))))"
    and tc: "unat tc = unat (node_cost (nodes c ! a)) + unat (pf_step_cost (algorithm opts) t)"
    and new: "trans_state t \<notin> set (pf_states (nodes c))"
  shows "\<exists>c'. pf_emit_new al t tc c = Some (\<not> stopped c', c') \<and>
    pf_emitted ad opts start is_goal a (Some t) c c'"
proof -
  have core: "pf_core ad opts start c" and act: "active_node c = Some a" "a < length (nodes c)"
    and ready: "pf_ready ad opts" and live: "pf_live is_goal c" and run: "\<not> stopped c"
    and closed: "node_closed (nodes c ! a)"
    using em by (simp_all add: pf_emitting_def)
  have ctl: "adapter c = Some ad" "options c = opts" "pf_arrays c" "pf_good_nodes ad opts start (nodes c)"
    using core by (simp_all add: pf_core_def pf_control_def)
  show ?thesis
  proof (cases "pf_generated_full c \<or> \<not> pf_frontier_available c")
    case True
    then have "pf_emit_new al t tc c = pf_limit c" by (auto simp: pf_emit_new_def)
    with pf_emitted_limit [OF core act(1) pf_no_growth_refl] show ?thesis by simp
  next
    case ok: False
    obtain h where h: "pf_call_heuristic ad (algorithm opts) (trans_state t) = Some h"
      using pf_ready_calls(3) [OF ready] by blast
    let ?n = "pf_new_node ad opts c t tc h" and ?i = "length (nodes c)"
    obtain r c1 where add: "pf_add_node al c ?n = Some (r, c1)" "pf_frame c c1" "pf_arrays c1"
      "heap c1 = heap c" "metrics c1 = metrics c"
      and r: "r = None \<and> nodes c1 = nodes c \<or> r = Some ?i \<and> nodes c1 = nodes c @ [?n]"
      by (rule pf_add_node_arrays [OF ctl(3), of ?n]) (use new in \<open>simp_all add: pf_new_node_def\<close>)
    note f1 = pf_frame_fields [OF add(2)]
    have unfold: "pf_emit_new al t tc c = (case r of None \<Rightarrow> pf_out_of_memory c1
         | Some index \<Rightarrow> do {
             c \<leftarrow> pf_consider_partial (pf_count_generated c1) index;
             (ok, c) \<leftarrow> pf_heap_push al c index;
             if ok then Some (True, c) else pf_out_of_memory c
           })"
      using ok ctl h add(1) by (simp add: pf_emit_new_def pf_new_node_def)
    show ?thesis
    proof (cases r)
      case None
      with r have ns: "nodes c1 = nodes c" by simp
      have "pf_core ad opts start c1"
        using core add ns f1 pf_budget_cong [of c1 c] by (simp add: pf_core_def pf_control_def)
      moreover have "pf_no_growth c c1" using ns add by (simp add: pf_no_growth_def)
      ultimately show ?thesis
        using pf_emitted_out_of_memory f1 act None by (simp add: unfold)
    next
      case (Some i)
      with r have ns: "nodes c1 = nodes c @ [?n]" "i = ?i" by simp_all
      let ?c1 = "pf_count_generated c1"
      have good: "pf_good_nodes ad opts start (nodes c @ [?n])"
        by (rule pf_good_nodes_new [OF ctl(4) nb act t tc h])
      have core1: "pf_core ad opts start ?c1"
        by (rule pf_core_added [OF core add(2-5) ns(1) good]) (use ok in simp)
      have c1: "adapter ?c1 = Some ad" "options ?c1 = opts" "heap ?c1 = heap c" "nodes ?c1 = nodes c @ [?n]"
        "active_node ?c1 = Some a" "\<not> stopped ?c1"
        using f1 ctl ns add act run by (simp_all add: pf_count_generated_def)
      obtain p rk where part: "pf_consider_partial ?c1 ?i = Some (?c1\<lparr>partial_node := p, partial_rank := rk\<rparr>)"
        "p = partial_node ?c1 \<or> p = Some ?i"
        by (rule pf_consider_partial_total [OF c1(1,2) ready])
      let ?c2 = "?c1\<lparr>partial_node := p, partial_rank := rk\<rparr>"
      have core2: "pf_core ad opts start ?c2"
        by (rule pf_core_partial [OF core1 part(2)]) (simp add: c1)
      have range: "?i \<notin> set (heap c)"
        using ctl(3) by (auto simp: pf_arrays_def pf_heap_wf_def pf_heap_coherent_def)
      have avail: "pf_frontier_available ?c2"
        using ok c1 ctl by (simp add: pf_frontier_available_def)
      have "pf_index_wf ?c2" using core2 by (simp add: pf_core_def pf_arrays_def)
      then have "distinct (pf_states (nodes c @ [?n]))" using c1(4) by (simp add: pf_index_wf_def)
      then have pot: "pf_potential (nodes ?c2) < pf_potential (nodes c)"
        using pf_potential_append c1(4) by simp
      have rel: "pf_relaxes (algorithm opts) (nodes ?c2) a t"
        unfolding pf_relaxes_def using tc act(2) c1(4)
        by (intro exI [of _ ?i]) (simp add: nth_append pf_new_node_def)
      have "\<exists>c'. Option.bind (pf_heap_push al ?c2 ?i)
          (\<lambda>(ok, c). if ok then Some (True, c) else pf_out_of_memory c) = Some (\<not> stopped c', c') \<and>
        pf_emitted ad opts start is_goal a (Some t) c c'"
        by (rule pf_push_emitted [OF core2 _ _ _ _ _ avail pot _ _ _ rel])
          (use c1 range act live closed in \<open>auto simp: pf_live_def pf_progress_def nth_append less_Suc_eq
            pf_new_node_def\<close>)
      then show ?thesis using Some ns part by (simp add: unfold)
    qed
  qed
qed


section \<open>A cheaper route to a known state\<close>

lemma pf_good_nodes_improve:
  assumes good: "pf_good_nodes ad opts start (nodes c)" and nb: "neighbors ad = Some nb"
    and a: "active_node c = Some a" "a < length (nodes c)" and opts: "options c = opts"
    and t: "Some t \<in> set (fst (nb (node_state (nodes c ! a))))"
    and tc: "unat tc = unat (node_cost (nodes c ! a)) + unat (pf_step_cost (algorithm opts) t)"
    and i: "i < length (nodes c)" "node_state (nodes c ! i) = trans_state t" "tc < node_cost (nodes c ! i)"
  shows "pf_good_nodes ad opts start
    ((nodes c)[i := (pf_improved c t tc (nodes c ! i))\<lparr>node_closed := b\<rparr>])" (is "pf_good_nodes _ _ _ (_[i := ?n])")
proof -
  have "pf_tree nb (algorithm opts) start ((nodes c)[i := ?n])"
    by (rule pf_tree_improve [of _ _ _ _ a _ _ t])
      (use good nb a t tc i in \<open>auto simp: pf_good_nodes_def pf_improved_def\<close>)
  moreover have "pf_scored ad (algorithm opts) ((nodes c)[i := ?n])"
    unfolding pf_scored_def
  proof
    fix n assume "n \<in> set ((nodes c)[i := ?n])"
    then consider "n = ?n" | "n \<in> set (nodes c)" using set_update_subset_insert by fast
    then show "pf_call_heuristic ad (algorithm opts) (node_state n) = Some (node_heuristic n) \<and>
        node_priority n = pf_priority (algorithm opts) (node_cost n) (node_heuristic n)"
      using good i(1) opts by cases (auto simp: pf_good_nodes_def pf_scored_def pf_improved_def)
  qed
  ultimately show ?thesis using nb by (simp add: pf_good_nodes_def)
qed

lemma pf_core_update:
  assumes "pf_core ad opts start c" "pf_arrays (c\<lparr>nodes := (nodes c)[i := n]\<rparr>)"
    "pf_good_nodes ad opts start ((nodes c)[i := n])"
  shows "pf_core ad opts start (c\<lparr>nodes := (nodes c)[i := n]\<rparr>)"
  using assms pf_budget_cong [of "c\<lparr>nodes := (nodes c)[i := n]\<rparr>" c]
  by (simp add: pf_core_def pf_control_def)

text \<open>The other branch: the improved node is queued already and is sifted up.\<close>

lemma pf_core_resift:
  assumes core: "pf_core ad opts start c" and i: "i < length (nodes c)" "node_state n = node_state (nodes c ! i)"
    and good: "pf_good_nodes ad opts start ((nodes c)[i := n])"
    and re: "pf_reindexed (c\<lparr>nodes := (nodes c)[i := n]\<rparr>) c'" and wf: "pf_heap_wf c'"
    and len: "length (heap c') = length (heap c)"
  shows "pf_core ad opts start c'"
proof -
  let ?c = "c\<lparr>nodes := (nodes c)[i := n]\<rparr>"
  note mv = pf_reindexed_moved [OF re] and f = pf_frame_fields [OF pf_reindexed_frame [OF re]]
  have arr: "pf_arrays c" using core by (simp add: pf_core_def)
  have "pf_states ((nodes c)[i := n]) = pf_states (nodes c)"
    using i by (simp add: pf_states_def map_update list_update_same_conv)
  then have "pf_index_wf ?c" using arr by (rule_tac pf_index_wf_frame [of c]) (simp_all add: pf_arrays_def)
  then have "pf_index_wf c'" by (rule pf_moved_index_wf [OF mv])
  moreover have "metrics c' = metrics c" "heap_capacity c' = heap_capacity c" "node_capacity c' = node_capacity c"
    "map pf_strip (nodes c') = map pf_strip ((nodes c)[i := n])"
    using re by (auto simp: pf_reindexed_def)
  ultimately show ?thesis
    using core wf len f pf_moved_length [OF mv] pf_budget_cong [of c' c] good
      pf_good_nodes_strip [of "nodes c'" "(nodes c)[i := n]"]
    by (simp add: pf_core_def pf_control_def pf_arrays_def)
qed

lemma pf_resift_emitted:
  assumes core: "pf_core ad opts start c'" and re: "pf_reindexed c2 c'"
    and ms: "mset (heap c') = mset (heap c2)"
    and act: "active_node c2 = Some a" "a < length (nodes c2)" and run: "\<not> stopped c2"
    and pot: "pf_potential (nodes c2) < pf_potential (nodes c)" and live: "pf_live is_goal c2"
    and prog: "pf_progress (nodes c) (nodes c2)" and closed: "node_closed (nodes c2 ! a)"
    and rel: "pf_relaxes (algorithm opts) (nodes c2) a t"
  shows "\<not> stopped c' \<and> pf_emitted ad opts start is_goal a (Some t) c c'"
proof -
  have strip: "map pf_strip (nodes c') = map pf_strip (nodes c2)" using re by (simp add: pf_reindexed_def)
  note f = pf_frame_fields [OF pf_reindexed_frame [OF re]]
  have "set (heap c') = set (heap c2)" using ms by (metis set_mset_mset)
  then have "pf_live is_goal c'"
    by (rule pf_live_strip [OF strip]) (use live in \<open>simp add: pf_live_def\<close>)
  moreover have "pf_no_growth c c'" using pot pf_potential_cong [OF strip] by (simp add: pf_no_growth_def)
  moreover have "pf_progress (nodes c) (nodes c')" using prog pf_progress_cong [OF strip] by simp
  moreover have "node_closed (nodes c' ! a)"
    using pf_strip_eqD [OF pf_reindexed_node [OF re act(2)]] closed by simp
  moreover have "pf_relaxes (algorithm opts) (nodes c') a t"
    using pf_relaxes_strip [OF strip act(2)] rel by simp
  ultimately show ?thesis using core f act run by (simp add: pf_emitted_def)
qed

text \<open>What an improvement does to the node array, whether the node is reopened or was open.\<close>

lemma pf_improved_progress:
  assumes i: "i < length ns" "node_state n = node_state (ns ! i)" "node_cost n < node_cost (ns ! i)"
    "\<not> node_closed n" and a: "a < length ns" "a \<noteq> i"
    and rel: "unat (node_cost n) = unat (node_cost (ns ! a)) + unat (pf_step_cost alg t)"
    and t: "node_state n = trans_state t"
  shows "pf_progress ns (ns[i := n])" "pf_relaxes alg (ns[i := n]) a t"
proof -
  show "pf_progress ns (ns[i := n])"
    using i by (auto simp: pf_progress_def nth_list_update word_less_nat_alt)
  show "pf_relaxes alg (ns[i := n]) a t"
    unfolding pf_relaxes_def using i(1) a rel t by (intro exI [of _ i]) simp
qed

lemma pf_emit_improve_emitted:
  assumes em: "pf_emitting ad opts start is_goal a c" and nb: "neighbors ad = Some nb"
    and t: "Some t \<in> set (fst (nb (node_state (nodes c ! a))))"
    and tc: "unat tc = unat (node_cost (nodes c ! a)) + unat (pf_step_cost (algorithm opts) t)"
    and i: "i < length (nodes c)" "node_state (nodes c ! i) = trans_state t" "tc < node_cost (nodes c ! i)"
  shows "\<exists>c'. pf_emit_improve al t tc i c = Some (\<not> stopped c', c') \<and>
    pf_emitted ad opts start is_goal a (Some t) c c'"
proof -
  have core: "pf_core ad opts start c" and act: "active_node c = Some a" "a < length (nodes c)"
    and ready: "pf_ready ad opts" and live: "pf_live is_goal c" and run: "\<not> stopped c"
    and closed: "node_closed (nodes c ! a)"
    using em by (simp_all add: pf_emitting_def)
  have ctl: "adapter c = Some ad" "options c = opts" "pf_arrays c" "pf_good_nodes ad opts start (nodes c)"
    using core by (simp_all add: pf_core_def pf_control_def)
  have ia: "a \<noteq> i" using tc i(3) by (auto simp: word_less_nat_alt)
  let ?m = "pf_improved c t tc (nodes c ! i)"
  let ?n = "?m\<lparr>node_closed := False\<rparr>" and ?c1 = "c\<lparr>nodes := (nodes c)[i := ?m]\<rparr>"
  have pot: "pf_potential ((nodes c)[i := ?n]) < pf_potential (nodes c)"
    by (rule pf_potential_improve) (use i in \<open>simp_all add: pf_improved_def\<close>)
  have good: "pf_good_nodes ad opts start ((nodes c)[i := ?n])"
    by (rule pf_good_nodes_improve [OF ctl(4) nb act ctl(2) t tc i])
  have prog: "pf_progress (nodes c) ((nodes c)[i := ?n])"
    and rel: "pf_relaxes (algorithm opts) ((nodes c)[i := ?n]) a t"
    using pf_improved_progress [of i "nodes c" ?n a _ t] i act(2) ia tc by (simp_all add: pf_improved_def)
  obtain p rk where part: "pf_consider_partial ?c1 i = Some (?c1\<lparr>partial_node := p, partial_rank := rk\<rparr>)"
    "p = partial_node ?c1 \<or> p = Some i"
    by (rule pf_consider_partial_total [OF _ _ ready, of ?c1 i]) (simp_all add: ctl)
  let ?cp = "c\<lparr>partial_node := p, partial_rank := rk\<rparr>"
  have corep: "pf_core ad opts start ?cp"
    by (rule pf_core_partial [OF core]) (use part(2) i(1) in simp_all)
  have arrp: "pf_arrays ?cp" using corep by (simp add: pf_core_def)
  let ?c2 = "?cp\<lparr>nodes := (nodes ?cp)[i := ?n]\<rparr>"
  show ?thesis
  proof (cases "node_closed (nodes c ! i)")
    case True
    show ?thesis
    proof (cases "pf_frontier_available c")
      case False
      then have "pf_emit_improve al t tc i c = pf_limit c" using True by (simp add: pf_emit_improve_def)
      with pf_emitted_limit [OF core act(1) pf_no_growth_refl] show ?thesis by simp
    next
      case avail: True
      have out: "i \<notin> set (heap c)" using live True i(1) by (simp add: pf_live_def)
      have "pf_arrays ?c2"
        by (rule pf_update_unqueued_arrays [OF arrp]) (use i out in \<open>simp_all add: pf_improved_def\<close>)
      then have core2: "pf_core ad opts start ?c2" by (rule pf_core_update [OF corep]) (use good in simp)
      have "pf_emit_improve al t tc i c = Option.bind (pf_heap_push al ?c2 i)
          (\<lambda>(ok, c). if ok then Some (True, c) else pf_out_of_memory c)"
        using True avail part(1) i(1)
        by (simp add: pf_emit_improve_def pf_set_closed_def pf_improved_def)
      moreover have "\<exists>c'. Option.bind (pf_heap_push al ?c2 i)
          (\<lambda>(ok, c). if ok then Some (True, c) else pf_out_of_memory c) = Some (\<not> stopped c', c') \<and>
        pf_emitted ad opts start is_goal a (Some t) c c'"
        by (rule pf_push_emitted [OF core2])
          (use act run i out avail pot prog rel closed ia live in
            \<open>auto simp: pf_frontier_available_def pf_live_def nth_list_update\<close>)
      ultimately show ?thesis by simp
    qed
  next
    case open_node: False
    then have queued: "i \<in> set (heap c)" using live i(1) by (simp add: pf_live_def)
    have wf: "pf_heap_wf ?cp" using arrp by (simp add: pf_arrays_def)
    obtain q where q: "node_heap_index (nodes c ! i) = Some q"
      using queued pf_coherent_index [of c i] ctl(3) i(1) by (auto simp: pf_arrays_def pf_heap_wf_def)
    have mn: "?m = ?n" using open_node by (cases "nodes c ! i") (simp add: pf_improved_def)
    have key: "pf_key ?n \<le> pf_key (nodes c ! i)"
    proof -
      have "node_priority (nodes c ! i) =
          pf_priority (algorithm opts) (node_cost (nodes c ! i)) (node_heuristic (nodes c ! i))"
        using ctl(4) i(1) by (simp add: pf_good_nodes_def pf_scored_def)
      then have "node_priority ?n \<le> node_priority (nodes c ! i)"
        using pf_priority_mono i(3) ctl(2) by (simp add: pf_improved_def)
      then show ?thesis by (auto simp: pf_key_def pf_improved_def less_eq_prod_def)
    qed
    let ?c3 = "pf_heap_up ?c2 q"
    have up: "pf_resifted ?c2 ?c3 \<and> pf_heap_wf ?c3"
      by (rule pf_heap_rekey [OF wf]) (use q i key in \<open>simp_all add: pf_improved_def\<close>)
    have re: "pf_reindexed ?c2 ?c3" and ms: "mset (heap ?c3) = mset (heap ?c2)"
      using up by (simp_all add: pf_resifted_def)
    have "pf_core ad opts start ?c3"
      by (rule pf_core_resift [OF corep _ _ _ re])
        (use i good up mset_eq_length [OF ms] in \<open>simp_all add: pf_improved_def\<close>)
    then have "\<not> stopped ?c3 \<and> pf_emitted ad opts start is_goal a (Some t) c ?c3"
      by (rule pf_resift_emitted [OF _ re ms])
        (use act run pot prog rel closed ia live queued i in \<open>auto simp: pf_live_def nth_list_update\<close>)
    moreover have eq: "?c1\<lparr>partial_node := p, partial_rank := rk\<rparr> = ?c2"
      unfolding mn [symmetric] by simp
    have "node_closed (nodes ?c2 ! i) = False" "node_heap_index (nodes ?c2 ! i) = Some q"
      using i(1) q by (simp_all add: pf_improved_def)
    then have "pf_emit_improve al t tc i c = Some (True, ?c3)"
      unfolding pf_emit_improve_def Let_def part(1) eq bind.bind_lunit using open_node by simp
    ultimately show ?thesis by (intro exI [of _ ?c3]) simp
  qed
qed


section \<open>The whole callback\<close>

lemma pf_emitted_same:
  assumes "pf_core ad opts start c" "pf_live is_goal c" "\<not> stopped c" "active_node c = Some a"
    "node_closed (nodes c ! a)" "pf_relaxes (algorithm opts) (nodes c) a t"
  shows "pf_emitted ad opts start is_goal a (Some t) c c"
  using assms by (simp add: pf_emitted_def pf_no_growth_refl pf_progress_refl)

lemma pf_emit_search_emitted:
  assumes em: "pf_emitting ad opts start is_goal a c" and nb: "neighbors ad = Some nb"
    and t: "Some t \<in> set (fst (nb (node_state (nodes c ! a))))"
  shows "\<exists>c'. pf_emit_search al t c = Some (\<not> stopped c', c') \<and>
    pf_emitted ad opts start is_goal a (Some t) c c'"
proof -
  have core: "pf_core ad opts start c" and act: "active_node c = Some a" "a < length (nodes c)"
    and rest: "pf_live is_goal c" "\<not> stopped c" "node_closed (nodes c ! a)"
    using em by (simp_all add: pf_emitting_def)
  have opts: "options c = opts" and wf: "pf_index_wf c"
    using core by (simp_all add: pf_core_def pf_control_def pf_arrays_def)
  let ?pc = "node_cost (nodes c ! a)" and ?sc = "pf_step_cost (algorithm opts) t"
  show ?thesis
  proof (cases "UINT64_MAX - ?pc < ?sc")
    case True
    let ?c = "pf_stop ATRINIK_PF_COST_OVERFLOW TERMINATION_COST_OVERFLOW c"
    have "pf_emit_search al t c = Some (False, ?c)" using True act opts by (simp add: pf_emit_search_def)
    moreover have "pf_emitted ad opts start is_goal a (Some t) c ?c"
      using core act by (simp add: pf_emitted_def pf_no_growth_def pf_stop_coded_def)
    ultimately show ?thesis by (intro exI [of _ ?c]) simp
  next
    case False
    then have tc: "unat (?pc + ?sc) = unat ?pc + unat ?sc" by (rule unat_add_guarded)
    have step: "pf_emit_search al t c = (case pf_node_index (nodes c) (trans_state t) of
        None \<Rightarrow> pf_emit_new al t (?pc + ?sc) c
      | Some index \<Rightarrow> if ?pc + ?sc \<ge> node_cost (nodes c ! index) then Some (True, c)
          else pf_emit_improve al t (?pc + ?sc) index c)"
      using False act opts pf_find_node_eq [OF wf] by (simp add: pf_emit_search_def Let_def)
    show ?thesis
    proof (cases "pf_node_index (nodes c) (trans_state t)")
      case None
      with pf_emit_new_emitted [OF em nb t tc] step show ?thesis by (simp add: pf_node_index_None)
    next
      case (Some i)
      then have i: "i < length (nodes c)" "node_state (nodes c ! i) = trans_state t"
        using pf_node_index_Some wf by (auto simp: pf_index_wf_def)
      show ?thesis
      proof (cases "?pc + ?sc \<ge> node_cost (nodes c ! i)")
        case True
        then have "pf_relaxes (algorithm opts) (nodes c) a t"
          unfolding pf_relaxes_def using i tc by (intro exI [of _ i]) (simp add: word_le_nat_alt)
        with pf_emitted_same [OF core rest(1,2) act(1) rest(3)] step Some True rest(2)
        show ?thesis by (intro exI [of _ c]) simp
      next
        case False
        with pf_emit_improve_emitted [OF em nb t tc i] step Some show ?thesis by simp
      qed
    qed
  qed
qed

lemma pf_emitted_cong:
  assumes "pf_emitted ad opts start is_goal a t c1 c'" "nodes c1 = nodes c" "heap c1 = heap c"
  shows "pf_emitted ad opts start is_goal a t c c'"
  using assms by (auto simp: pf_emitted_def pf_no_growth_def)

lemma pf_call_cancelled_total:
  assumes "adapter c = Some ad"
  obtains b k where "pf_call_cancelled c = Some (b, c\<lparr>cancel_calls := k\<rparr>)"
proof (cases "cancelled ad")
  case None
  with assms show ?thesis by (intro that [of False "cancel_calls c"]) (simp add: pf_call_cancelled_def)
next
  case (Some f)
  with assms show ?thesis by (intro that) (simp add: pf_call_cancelled_def)
qed

lemma pf_core_cancel_calls:
  assumes "pf_core ad opts start c"
  shows "pf_core ad opts start (c\<lparr>cancel_calls := k\<rparr>)"
  by (rule pf_core_cong [OF assms]) (use pf_core_budget [OF assms] in \<open>simp_all add: pf_budget_def\<close>)

lemma pf_core_count_transition:
  assumes core: "pf_core ad opts start c"
    and lim: "\<not> (max_transitions (options c) \<noteq> 0 \<and> examined_transitions (metrics c) \<ge> max_transitions (options c))"
  shows "pf_core ad opts start (pf_count_transition c)"
proof (rule pf_core_cong [OF core])
  show "pf_budget (pf_count_transition c)"
    using pf_core_budget [OF core] pf_within_less [OF _ lim]
    by (simp add: pf_budget_def pf_count_transition_def)
qed (simp_all add: pf_count_transition_def)

lemma pf_emit_transition_emitted:
  assumes em: "pf_emitting ad opts start is_goal a c" and nb: "neighbors ad = Some nb"
    and t: "t \<in> set (fst (nb (node_state (nodes c ! a))))"
  shows "\<exists>c'. pf_emit_transition al t c = Some (\<not> stopped c', c') \<and>
    pf_emitted ad opts start is_goal a t c c'"
proof -
  have core: "pf_core ad opts start c" and act: "active_node c = Some a" "a < length (nodes c)"
    and rest: "pf_live is_goal c" "\<not> stopped c" "node_closed (nodes c ! a)" "pf_ready ad opts"
    using em by (simp_all add: pf_emitting_def)
  show ?thesis
  proof (cases t)
    case None
    let ?c = "pf_stop ATRINIK_PF_ADAPTER_ERROR TERMINATION_ADAPTER_ERROR c"
    have "pf_emitted ad opts start is_goal a t c ?c"
      using core act by (simp add: pf_emitted_def pf_no_growth_def pf_stop_coded_def)
    with None rest show ?thesis by (intro exI [of _ ?c]) (simp add: pf_emit_transition_def)
  next
    case (Some u)
    have ad: "adapter c = Some ad" "\<not> reachability c" using core by (simp_all add: pf_core_def pf_control_def)
    obtain b k where call: "pf_call_cancelled c = Some (b, c\<lparr>cancel_calls := k\<rparr>)"
      by (rule pf_call_cancelled_total [OF ad(1)])
    let ?c1 = "c\<lparr>cancel_calls := k\<rparr>"
    let ?lim = "max_transitions (options ?c1) \<noteq> 0 \<and>
      examined_transitions (metrics ?c1) \<ge> max_transitions (options ?c1)"
    have core1: "pf_core ad opts start ?c1" by (rule pf_core_cancel_calls [OF core])
    consider b | "\<not> b" ?lim | "\<not> b" "\<not> ?lim" by blast
    then show ?thesis
    proof cases
      case 1
      let ?c = "pf_stop ATRINIK_PF_CANCELLED TERMINATION_CANCELLED ?c1"
      have "pf_emitted ad opts start is_goal a t c ?c"
        using core1 act by (simp add: pf_emitted_def pf_no_growth_def pf_stop_coded_def)
      with 1 Some rest call show ?thesis by (intro exI [of _ ?c]) (simp add: pf_emit_transition_def)
    next
      case 2
      have "pf_no_growth c ?c1" by (simp add: pf_no_growth_def)
      with pf_emitted_limit [OF core1, of a c] 2 Some rest call act show ?thesis
        by (simp add: pf_emit_transition_def)
    next
      case 3
      let ?c2 = "pf_count_transition ?c1"
      have "pf_emitting ad opts start is_goal a ?c2"
        unfolding pf_emitting_def using rest act pf_core_count_transition [OF core1 3(2)]
        by (simp add: pf_count_transition_def pf_live_def)
      from pf_emit_search_emitted [OF this nb, of u al] t Some
      obtain c' where "pf_emit_search al u ?c2 = Some (\<not> stopped c', c')"
        and "pf_emitted ad opts start is_goal a (Some u) ?c2 c'"
        by (auto simp: pf_count_transition_def)
      moreover from this(2) have "pf_emitted ad opts start is_goal a (Some u) c c'"
        by (rule pf_emitted_cong) (simp_all add: pf_count_transition_def)
      moreover have "\<not> reachability ?c2" using ad by (simp add: pf_count_transition_def)
      ultimately show ?thesis
        using 3 Some rest call by (intro exI [of _ c']) (auto simp: pf_emit_transition_def)
    qed
  qed
qed

end
