(* ===== verification/Pf_Correct.thy ===== *)
theory Pf_Correct
  imports Pf_Emit
begin

text \<open>
  Correctness of \<open>atrinik_pf_search\<close>: it returns for every adapter, allocator and budget, a
  found path is a route of the adapter's graph, it is a cheapest one when the strategy
  promises it, and the absence of a path is reported only when there is none.
\<close>

section \<open>Expanding a node\<close>

lemma pf_emit_all_stopped: "stopped c \<Longrightarrow> pf_emit_all al ts c = Some c"
  by (induction ts) (simp_all add: pf_emit_transition_def)

definition pf_enumerated :: "pf_adapter \<Rightarrow> pf_options \<Rightarrow> u64 \<Rightarrow> (u64 \<Rightarrow> bool) \<Rightarrow> nat \<Rightarrow>
    pf_transition option list \<Rightarrow> pf_context \<Rightarrow> pf_context \<Rightarrow> bool" where
  "pf_enumerated ad opts start is_goal a ts c c' \<longleftrightarrow>
     pf_core ad opts start c' \<and> active_node c' = Some a \<and> pf_no_growth c c' \<and>
     (if stopped c' then pf_stop_coded c'
      else pf_live is_goal c' \<and> pf_progress (nodes c) (nodes c') \<and> node_closed (nodes c' ! a) \<and>
        (\<forall>t\<in>set ts. \<exists>u. t = Some u \<and> pf_relaxes (algorithm opts) (nodes c') a u))"

lemma pf_no_growth_trans: "pf_no_growth c c' \<Longrightarrow> pf_no_growth c' c'' \<Longrightarrow> pf_no_growth c c''"
  by (auto simp: pf_no_growth_def)

lemma pf_emit_all_enumerated:
  assumes "pf_emitting ad opts start is_goal a c" "neighbors ad = Some nb"
    "set ts \<subseteq> set (fst (nb (node_state (nodes c ! a))))"
  shows "\<exists>c'. pf_emit_all al ts c = Some c' \<and> pf_enumerated ad opts start is_goal a ts c c'"
  using assms
proof (induction ts arbitrary: c)
  case Nil
  then show ?case by (simp add: pf_enumerated_def pf_emitting_def pf_no_growth_refl pf_progress_refl)
next
  case (Cons t ts)
  obtain c1 where emit: "pf_emit_transition al t c = Some (\<not> stopped c1, c1)"
    and em1: "pf_emitted ad opts start is_goal a t c c1"
    using pf_emit_transition_emitted [OF Cons.prems(1,2), of t al] Cons.prems(3) by auto
  have a: "a < length (nodes c)" using Cons.prems(1) by (simp add: pf_emitting_def)
  show ?case
  proof (cases "stopped c1")
    case True
    with emit em1 pf_emit_all_stopped [OF True] show ?thesis
      by (intro exI [of _ c1]) (simp add: pf_enumerated_def pf_emitted_def)
  next
    case False
    then have p1: "pf_progress (nodes c) (nodes c1)" and closed1: "node_closed (nodes c1 ! a)"
      using em1 by (simp_all add: pf_emitted_def)
    have a1: "a < length (nodes c1)" using pf_progressD(1) [OF p1] a by simp
    then have "pf_emitting ad opts start is_goal a c1"
      using em1 False Cons.prems(1) by (simp add: pf_emitted_def pf_emitting_def)
    from Cons.IH [OF this Cons.prems(2)] Cons.prems(3) pf_progressD(2) [OF p1 a]
    obtain c' where all: "pf_emit_all al ts c1 = Some c'"
      and en: "pf_enumerated ad opts start is_goal a ts c1 c'" by auto
    have growth: "pf_no_growth c c'"
      using em1 en pf_no_growth_trans by (auto simp: pf_emitted_def pf_enumerated_def)
    show ?thesis
    proof (cases "stopped c'")
      case True
      with emit all en growth show ?thesis by (simp add: pf_enumerated_def)
    next
      case run: False
      then have p2: "pf_progress (nodes c1) (nodes c')" and closed2: "node_closed (nodes c' ! a)"
        using en by (simp_all add: pf_enumerated_def)
      have "a < length (nodes c')" using pf_progressD(1) [OF p2] a1 by simp
      then have cost: "node_cost (nodes c' ! a) = node_cost (nodes c1 ! a)"
        using pf_progressD(4) [OF p2 _ closed2] by simp
      obtain u where "t = Some u" "pf_relaxes (algorithm opts) (nodes c1) a u"
        using em1 False by (auto simp: pf_emitted_def)
      then have "\<exists>u. t = Some u \<and> pf_relaxes (algorithm opts) (nodes c') a u"
        using pf_relaxes_progress [OF _ p2 a1 cost] by blast
      with emit all en growth run pf_progress_trans [OF p1 p2] show ?thesis
        by (simp add: pf_enumerated_def)
    qed
  qed
qed

text \<open>The state of the loop of \<open>atrinik_pf_search\<close> at its head.\<close>

definition pf_searching :: "pf_adapter \<Rightarrow> pf_options \<Rightarrow> u64 \<Rightarrow> (u64 \<Rightarrow> bool) \<Rightarrow> pf_neighbors \<Rightarrow>
    pf_context \<Rightarrow> bool" where
  "pf_searching ad opts start is_goal nb c \<longleftrightarrow> pf_ready ad opts \<and> neighbors ad = Some nb \<and>
     goal ad = Some is_goal \<and> pf_core ad opts start c \<and> pf_live is_goal c \<and> \<not> stopped c \<and>
     pf_settled nb (algorithm opts) (nodes c) None"

lemma pf_core_count_expanded:
  assumes core: "pf_core ad opts start c"
    and lim: "\<not> (max_expanded (options c) \<noteq> 0 \<and> expanded (metrics c) \<ge> max_expanded (options c))"
  shows "pf_core ad opts start (pf_count_expanded c)"
proof (rule pf_core_cong [OF core])
  show "pf_budget (pf_count_expanded c)"
    using pf_core_budget [OF core] pf_within_less [OF _ lim]
    by (simp add: pf_budget_def pf_count_expanded_def)
qed (simp_all add: pf_count_expanded_def)

lemma pf_core_active: 
  assumes "pf_core ad opts start c"
  shows "pf_core ad opts start (c\<lparr>active_node := x\<rparr>)"
  by (rule pf_core_cong [OF assms])
    (use pf_core_budget [OF assms] pf_budget_cong [of "c\<lparr>active_node := x\<rparr>" c] in simp_all)

text \<open>
  Expanding a closed node whose transitions are not relaxed yet: afterwards either the
  search is stopped with a reason, or every closed node is relaxed again.
\<close>

lemma pf_expand_total:
  assumes ready: "pf_ready ad opts" and nb: "neighbors ad = Some nb" and core: "pf_core ad opts start c"
    and live: "pf_live is_goal c" and run: "\<not> stopped c"
    and i: "i < length (nodes c)" "node_closed (nodes c ! i)"
    and settled: "pf_settled nb (algorithm opts) (nodes c) (Some i)"
    and lim: "\<not> (max_expanded (options c) \<noteq> 0 \<and> expanded (metrics c) \<ge> max_expanded (options c))"
  shows "\<exists>c'. pf_expand al i c = Some c' \<and> pf_core ad opts start c' \<and> pf_no_growth c c' \<and>
    (if stopped c' then pf_stop_coded c'
     else pf_live is_goal c' \<and> pf_settled nb (algorithm opts) (nodes c') None)"
proof -
  let ?c1 = "pf_count_expanded c\<lparr>active_node := Some i\<rparr>"
  let ?s = "node_state (nodes c ! i)"
  have same: "nodes ?c1 = nodes c" "heap ?c1 = heap c" "adapter ?c1 = adapter c"
    by (simp_all add: pf_count_expanded_def)
  have "pf_emitting ad opts start is_goal i ?c1"
    using ready i live run pf_core_active [OF pf_core_count_expanded [OF core lim]]
    by (simp add: pf_emitting_def pf_count_expanded_def pf_live_def)
  from pf_emit_all_enumerated [OF this nb, of "fst (nb ?s)" al]
  obtain c2 where all: "pf_emit_all al (fst (nb ?s)) ?c1 = Some c2"
    and en: "pf_enumerated ad opts start is_goal i (fst (nb ?s)) ?c1 c2" by (auto simp: same)
  let ?c3 = "c2\<lparr>active_node := None\<rparr>"
  let ?c4 = "if \<not> snd (nb ?s) \<and> \<not> stopped ?c3
    then pf_stop ATRINIK_PF_ADAPTER_ERROR TERMINATION_ADAPTER_ERROR ?c3 else ?c3"
  have "adapter c = Some ad" using core by (simp add: pf_core_def pf_control_def)
  then have "pf_enumerate al ?s ?c1 = Some (snd (nb ?s), c2)"
    using all nb by (simp add: pf_enumerate_def same)
  then have exp: "pf_expand al i c = Some ?c4" by (simp add: pf_expand_def pf_count_expanded_def)
  have core3: "pf_core ad opts start ?c3" using en pf_core_active by (simp add: pf_enumerated_def)
  have growth: "pf_no_growth c ?c4" using en same by (simp add: pf_enumerated_def pf_no_growth_def)
  show ?thesis
  proof (cases "stopped c2")
    case True
    with exp core3 growth en show ?thesis
      by (intro exI [of _ ?c4]) (simp add: pf_enumerated_def pf_stop_coded_def)
  next
    case False
    show ?thesis
    proof (cases "snd (nb ?s)")
      case False
      with exp core3 growth \<open>\<not> stopped c2\<close> show ?thesis
        by (intro exI [of _ ?c4]) (simp add: pf_stop_coded_def)
    next
      case True
      have prog: "pf_progress (nodes c) (nodes c2)" and closed: "node_closed (nodes c2 ! i)"
        and live2: "pf_live is_goal c2"
        and rel: "\<forall>t\<in>set (fst (nb ?s)). \<exists>u. t = Some u \<and> pf_relaxes (algorithm opts) (nodes c2) i u"
        using en False same by (simp_all add: pf_enumerated_def)
      have "pf_relaxed nb (algorithm opts) (nodes c2) i"
        unfolding pf_relaxed_def using rel pf_progressD(2) [OF prog i(1)] by fastforce
      moreover have "pf_relaxed nb (algorithm opts) (nodes c2) j"
        if "j < length (nodes c2)" "node_closed (nodes c2 ! j)" "j \<noteq> i" for j
        by (rule pf_relaxed_progress [OF _ prog that]) (use settled in \<open>auto simp: pf_settled_def\<close>)
      ultimately have "pf_settled nb (algorithm opts) (nodes c2) None"
        unfolding pf_settled_def by blast
      with exp core3 growth True False live2 show ?thesis
        by (intro exI [of _ ?c4]) (simp add: pf_live_def)
    qed
  qed
qed


section \<open>Results\<close>

text \<open>A reported path: the steps of a route from the start, not dearer than the reported cost.\<close>

definition pf_reports :: "pf_neighbors \<Rightarrow> pf_algorithm \<Rightarrow> u64 \<Rightarrow> u64 \<Rightarrow> pf_result \<Rightarrow> bool" where
  "pf_reports nb alg start target r \<longleftrightarrow> (\<exists>ts. res_steps r = pf_route_steps start ts \<and>
     pf_route nb start ts \<and> pf_route_end start ts = target \<and>
     pf_route_cost alg ts \<le> unat (total_cost (res_metrics r)))"

text \<open>The context that a search leaves behind can be used for the next one.\<close>

definition pf_reusable :: "pf_context \<Rightarrow> bool" where
  "pf_reusable c \<longleftrightarrow> length (hash c) = hash_capacity c \<and>
     (hash_capacity c = 0 \<or> pf_capacity_ok (hash_capacity c))"

lemma pf_index_wf_reusable: "pf_index_wf c \<Longrightarrow> pf_reusable c"
  by (auto simp: pf_index_wf_def pf_reusable_def pf_hash_inv_def split: if_splits)

lemma pf_core_reusable: "pf_core ad opts start c \<Longrightarrow> pf_reusable c"
  by (simp add: pf_core_def pf_arrays_def pf_index_wf_reusable)

lemma pf_reserve_path_total:
  "\<exists>ok cap calls. pf_reserve_path al n c = Some (ok, c\<lparr>path_capacity := cap, alloc_calls := calls\<rparr>)"
proof (cases "n > path_capacity c")
  case True
  obtain ok cap calls where
    "pf_grow_array al sizeof_pf_step (path_capacity c) n (alloc_calls c) = Some (ok, cap, calls)"
    using pf_grow_array_total by blast
  with True show ?thesis
    by (rule_tac exI [of _ ok], rule_tac exI [of _ cap], rule_tac exI [of _ calls])
      (simp add: pf_reserve_path_def)
next
  case False
  then show ?thesis
    by (intro exI [of _ True], rule_tac exI [of _ "path_capacity c"], rule_tac exI [of _ "alloc_calls c"])
      (simp add: pf_reserve_path_def)
qed

definition pf_oom_result :: "pf_metrics \<Rightarrow> pf_result" where
  "pf_oom_result m = (pf_empty_result ATRINIK_PF_OUT_OF_MEMORY TERMINATION_OUT_OF_MEMORY)\<lparr>res_metrics := m\<rparr>"

lemma pf_count_path_body: "pf_count_path c i = c_loop (pf_count_body c) (0, Some i)"
  by (simp add: pf_count_path_def pf_count_body_def)

lemma pf_fill_path_nodes:
  "nodes c' = nodes c \<Longrightarrow> pf_fill_path c' k cur acc = pf_fill_path c k cur acc"
  by (induction k arbitrary: cur acc) (auto split: Option.bind_splits)

lemma pf_finish_path_total:
  assumes core: "pf_core ad opts start c" and nb: "neighbors ad = Some nb" and i: "i < length (nodes c)"
  shows "\<exists>r c'. pf_finish_path al c i result = Some (r, c') \<and> pf_reusable c' \<and>
    (r = pf_oom_result (metrics c) \<or>
     res_status r = res_status result \<and> res_termination r = res_termination result \<and>
     res_metrics r = (res_metrics result)\<lparr>total_cost := node_cost (nodes c ! i)\<rparr> \<and>
     pf_reports nb (algorithm opts) start (node_state (nodes c ! i)) r)"
proof -
  have tree: "pf_tree nb (algorithm opts) start (nodes c)"
    using core nb by (auto simp: pf_core_def pf_good_nodes_def)
  obtain ts where ts: "pf_route nb start ts" "pf_route_end start ts = node_state (nodes c ! i)"
    "pf_route_cost (algorithm opts) ts \<le> unat (node_cost (nodes c ! i))"
    and cnt: "pf_count_path c i = Some (Suc (length ts))"
    and fill: "pf_fill_path c (Suc (length ts)) (Some i) [] =
       Some (\<lparr>step_state = start, step_data = node_data (nodes c ! 0)\<rparr> #
         map (\<lambda>t. \<lparr>step_state = trans_state t, step_data = trans_data t\<rparr>) ts)"
    using pf_tree_path [OF tree i] unfolding pf_count_path_body
    by (metis (no_types, lifting) add_0 append_Nil2)
  obtain ok cap calls where res: "pf_reserve_path al (Suc (length ts)) c =
      Some (ok, c\<lparr>path_capacity := cap, alloc_calls := calls\<rparr>)"
    using pf_reserve_path_total by blast
  let ?c1 = "c\<lparr>path_capacity := cap, alloc_calls := calls\<rparr>"
  let ?r = "result\<lparr>res_steps := pf_route_steps start ts,
    res_metrics := (res_metrics result)\<lparr>total_cost := node_cost (nodes c ! i)\<rparr>\<rparr>"
  have reuse: "pf_reusable ?c1" "pf_reusable (?c1\<lparr>path := p\<rparr>)" for p
    using pf_core_reusable [OF core] by (simp_all add: pf_reusable_def)
  have fill1: "pf_fill_path ?c1 (Suc (length ts)) (Some i) [] =
      pf_fill_path c (Suc (length ts)) (Some i) []"
    by (rule pf_fill_path_nodes) simp
  show ?thesis
  proof (cases ok)
    case False
    then have "pf_finish_path al c i result = Some (pf_oom_result (metrics ?c1), ?c1)"
      using cnt res by (simp add: pf_finish_path_def pf_build_path_def pf_oom_result_def)
    with reuse show ?thesis by simp
  next
    case True
    then have "pf_finish_path al c i result = Some (?r, ?c1\<lparr>path := pf_route_steps start ts\<rparr>)"
      using cnt res fill unfolding fill1 [symmetric]
      by (simp add: pf_finish_path_def pf_build_path_def pf_route_steps_def Let_def del: pf_fill_path.simps)
    moreover have "pf_reports nb (algorithm opts) start (node_state (nodes c ! i)) ?r"
      using ts by (auto simp: pf_reports_def)
    ultimately show ?thesis using reuse(2) by simp
  qed
qed


section \<open>Optimality\<close>

text \<open>
  While the search is running, every route from a known node to a goal passes through the
  frontier, at a node whose cost is at most the cost of the route up to it.
\<close>

lemma pf_route_meets_frontier:
  assumes live: "pf_live is_goal c" and settled: "pf_settled nb alg (nodes c) None"
    and i: "i < length (nodes c)" "unat (node_cost (nodes c ! i)) \<le> k"
    and route: "pf_route nb (node_state (nodes c ! i)) ts"
      "is_goal (pf_route_end (node_state (nodes c ! i)) ts)"
  shows "\<exists>us vs j. ts = us @ vs \<and> j \<in> set (heap c) \<and> j < length (nodes c) \<and>
    node_state (nodes c ! j) = pf_route_end (node_state (nodes c ! i)) us \<and>
    unat (node_cost (nodes c ! j)) \<le> k + pf_route_cost alg us"
  using i route
proof (induction ts arbitrary: i k)
  case Nil
  with live have "i \<in> set (heap c)" by (auto simp: pf_live_def)
  with Nil show ?case by auto
next
  case (Cons t ts)
  show ?case
  proof (cases "i \<in> set (heap c)")
    case True
    with Cons.prems show ?thesis
      by (rule_tac exI [of _ "[]"], rule_tac exI [of _ "t # ts"], rule_tac exI [of _ i]) simp
  next
    case False
    with live Cons.prems(1) have "node_closed (nodes c ! i)" by (simp add: pf_live_def)
    with settled Cons.prems have "pf_relaxes alg (nodes c) i t"
      by (auto simp: pf_settled_def pf_relaxed_def)
    then obtain j where j: "j < length (nodes c)" "node_state (nodes c ! j) = trans_state t"
      "unat (node_cost (nodes c ! j)) \<le> unat (node_cost (nodes c ! i)) + unat (pf_step_cost alg t)"
      by (auto simp: pf_relaxes_def)
    then have "unat (node_cost (nodes c ! j)) \<le> k + unat (pf_step_cost alg t)"
      using Cons.prems(2) by simp
    from Cons.IH [OF j(1) this] Cons.prems j(2)
    obtain us vs l where "ts = us @ vs" "l \<in> set (heap c)" "l < length (nodes c)"
      "node_state (nodes c ! l) = pf_route_end (trans_state t) us"
      "unat (node_cost (nodes c ! l)) \<le> k + unat (pf_step_cost alg t) + pf_route_cost alg us" by auto
    then show ?thesis
      by (rule_tac exI [of _ "t # us"], rule_tac exI [of _ vs], rule_tac exI [of _ l]) simp
  qed
qed

text \<open>
  The strategies that promise a cheapest path: Dijkstra's, breadth-first over unit costs,
  and A* with a heuristic that never exceeds the cost of a route to a goal.
\<close>

definition pf_admissible :: "pf_adapter \<Rightarrow> pf_algorithm \<Rightarrow> bool" where
  "pf_admissible ad alg \<longleftrightarrow> alg = ATRINIK_PF_DIJKSTRA \<or> alg = ATRINIK_PF_BREADTH_FIRST \<or>
     (alg = ATRINIK_PF_ASTAR \<and> (\<forall>nb is_goal h s ts. neighbors ad = Some nb \<and> goal ad = Some is_goal \<and>
        heuristic_fn ad = Some h \<and> pf_route nb s ts \<and> is_goal (pf_route_end s ts) \<longrightarrow>
        unat (h s) \<le> pf_route_cost alg ts))"

lemma pf_priority_bounds:
  assumes "alg = ATRINIK_PF_DIJKSTRA \<or> alg = ATRINIK_PF_BREADTH_FIRST \<or> alg = ATRINIK_PF_ASTAR"
  shows "unat cost \<le> unat (pf_priority alg cost h)"
    and "unat (pf_priority alg cost h) \<le> unat cost + (if alg = ATRINIK_PF_ASTAR then unat h else 0)"
proof -
  have sat: "unat UINT64_MAX \<le> unat cost + unat h" if "UINT64_MAX - cost < h"
    using that unat_UINT64_MAX_minus [of cost] unat_UINT64_MAX_minus [of 0] by (simp add: word_less_nat_alt)
  have "unat cost \<le> unat UINT64_MAX" unfolding word_le_nat_alt [symmetric] by simp
  then show "unat cost \<le> unat (pf_priority alg cost h)"
    using assms by (auto simp: pf_priority_def unat_add_guarded)
  show "unat (pf_priority alg cost h) \<le> unat cost + (if alg = ATRINIK_PF_ASTAR then unat h else 0)"
    using assms sat by (auto simp: pf_priority_def unat_add_guarded)
qed

lemma pf_least_optimal:
  assumes s: "pf_searching ad opts start is_goal nb c" and adm: "pf_admissible ad (algorithm opts)"
    and i: "i < length (nodes c)" "\<And>j. j \<in> set (heap c) \<Longrightarrow> pf_key (nodes c ! i) \<le> pf_key (nodes c ! j)"
    and route: "pf_route nb start ts" "is_goal (pf_route_end start ts)"
  shows "unat (node_cost (nodes c ! i)) \<le> pf_route_cost (algorithm opts) ts"
proof -
  let ?alg = "algorithm opts"
  have live: "pf_live is_goal c" and settled: "pf_settled nb ?alg (nodes c) None"
    and nb: "neighbors ad = Some nb" and g: "goal ad = Some is_goal"
    and good: "pf_good_nodes ad opts start (nodes c)"
    using s by (simp_all add: pf_searching_def pf_core_def)
  then have root: "0 < length (nodes c)" "node_state (nodes c ! 0) = start" "node_cost (nodes c ! 0) = 0"
    by (auto simp: pf_good_nodes_def pf_tree_def)
  obtain us vs j where split: "ts = us @ vs" and j: "j \<in> set (heap c)" "j < length (nodes c)"
    "node_state (nodes c ! j) = pf_route_end start us"
    "unat (node_cost (nodes c ! j)) \<le> pf_route_cost ?alg us"
    using pf_route_meets_frontier [OF live settled root(1), of 0 ts] root route by auto
  have kind: "?alg = ATRINIK_PF_DIJKSTRA \<or> ?alg = ATRINIK_PF_BREADTH_FIRST \<or> ?alg = ATRINIK_PF_ASTAR"
    using adm by (auto simp: pf_admissible_def)
  have prio: "node_priority (nodes c ! k) = pf_priority ?alg (node_cost (nodes c ! k)) (node_heuristic (nodes c ! k))"
    "pf_call_heuristic ad ?alg (node_state (nodes c ! k)) = Some (node_heuristic (nodes c ! k))"
    if "k < length (nodes c)" for k
    using good that by (simp_all add: pf_good_nodes_def pf_scored_def)
  have h: "unat (node_heuristic (nodes c ! j)) \<le> pf_route_cost ?alg vs" if astar: "?alg = ATRINIK_PF_ASTAR"
  proof -
    obtain f where "heuristic_fn ad = Some f" "node_heuristic (nodes c ! j) = f (node_state (nodes c ! j))"
      using prio(2) [OF j(2)] astar
      by (auto simp: pf_call_heuristic_def pf_uses_heuristic_def split: Option.bind_splits)
    moreover have "pf_route nb (pf_route_end start us) vs" "is_goal (pf_route_end (pf_route_end start us) vs)"
      using route split by (simp_all add: pf_route_append)
    ultimately show ?thesis using adm astar nb g j(3) by (auto simp: pf_admissible_def)
  qed
  have "unat (node_cost (nodes c ! i)) \<le> unat (node_priority (nodes c ! i))"
    using pf_priority_bounds(1) [OF kind] prio(1) [OF i(1)] by simp
  also have "\<dots> \<le> unat (node_priority (nodes c ! j))"
    using i(2) [OF j(1)] by (auto simp: pf_key_def less_eq_prod_def word_le_nat_alt word_less_nat_alt)
  also have "\<dots> \<le> unat (node_cost (nodes c ! j)) +
      (if ?alg = ATRINIK_PF_ASTAR then unat (node_heuristic (nodes c ! j)) else 0)"
    using pf_priority_bounds(2) [OF kind] prio(1) [OF j(2)] by simp
  also have "\<dots> \<le> pf_route_cost ?alg ts" using j(4) h split by auto
  finally show ?thesis .
qed

text \<open>An empty frontier means that no goal can be reached.\<close>

lemma pf_exhausted_no_route:
  assumes s: "pf_searching ad opts start is_goal nb c" and empty: "heap c = []"
    and route: "pf_route nb start ts"
  shows "\<not> is_goal (pf_route_end start ts)"
proof
  assume g: "is_goal (pf_route_end start ts)"
  have live: "pf_live is_goal c" and settled: "pf_settled nb (algorithm opts) (nodes c) None"
    and "0 < length (nodes c)" "node_state (nodes c ! 0) = start"
    using s by (auto simp: pf_searching_def pf_core_def pf_good_nodes_def pf_tree_def)
  with pf_route_meets_frontier [OF live settled, of 0 "unat (node_cost (nodes c ! 0))" ts] route g empty
  show False by auto
qed


section \<open>The search loop\<close>

definition pf_metrics_within :: "pf_options \<Rightarrow> pf_metrics \<Rightarrow> bool" where
  "pf_metrics_within opts m \<longleftrightarrow> pf_within (expanded m) (max_expanded opts) \<and>
     pf_within (generated m) (max_generated opts) \<and>
     pf_within (examined_transitions m) (max_transitions opts) \<and>
     pf_within (peak_frontier m) (max_frontier opts)"

definition pf_unreachable :: "pf_neighbors \<Rightarrow> (u64 \<Rightarrow> bool) \<Rightarrow> u64 \<Rightarrow> bool" where
  "pf_unreachable nb is_goal start \<longleftrightarrow> (\<forall>ts. pf_route nb start ts \<longrightarrow> \<not> is_goal (pf_route_end start ts))"

definition pf_cheapest :: "pf_neighbors \<Rightarrow> (u64 \<Rightarrow> bool) \<Rightarrow> pf_algorithm \<Rightarrow> u64 \<Rightarrow> nat \<Rightarrow> bool" where
  "pf_cheapest nb is_goal alg start k \<longleftrightarrow>
     (\<forall>ts. pf_route nb start ts \<and> is_goal (pf_route_end start ts) \<longrightarrow> k \<le> pf_route_cost alg ts)"

text \<open>What each status of a search result means.\<close>

definition pf_search_ok :: "pf_adapter \<Rightarrow> pf_options \<Rightarrow> u64 \<Rightarrow> (u64 \<Rightarrow> bool) \<Rightarrow> pf_neighbors \<Rightarrow> pf_result \<Rightarrow> bool" where
  "pf_search_ok ad opts start is_goal nb r \<longleftrightarrow> pf_metrics_within opts (res_metrics r) \<and>
     (case res_status r of
        ATRINIK_PF_FOUND \<Rightarrow> res_termination r = TERMINATION_GOAL \<and>
          (\<exists>target. is_goal target \<and> pf_reports nb (algorithm opts) start target r) \<and>
          (pf_admissible ad (algorithm opts) \<longrightarrow>
             pf_cheapest nb is_goal (algorithm opts) start (unat (total_cost (res_metrics r))))
      | ATRINIK_PF_NO_PATH \<Rightarrow> res_termination r = TERMINATION_EXHAUSTED \<and> res_steps r = [] \<and>
          pf_unreachable nb is_goal start
      | ATRINIK_PF_PARTIAL \<Rightarrow> return_partial opts \<and>
          (res_termination r = TERMINATION_LIMIT \<or> res_termination r = TERMINATION_CANCELLED \<or>
           res_termination r = TERMINATION_EXHAUSTED \<and> pf_unreachable nb is_goal start) \<and>
          (\<exists>target. pf_reports nb (algorithm opts) start target r)
      | ATRINIK_PF_LIMIT_REACHED \<Rightarrow> res_termination r = TERMINATION_LIMIT \<and> res_steps r = []
      | ATRINIK_PF_CANCELLED \<Rightarrow> res_termination r = TERMINATION_CANCELLED \<and> res_steps r = []
      | ATRINIK_PF_ADAPTER_ERROR \<Rightarrow> res_termination r = TERMINATION_ADAPTER_ERROR \<and> res_steps r = []
      | ATRINIK_PF_OUT_OF_MEMORY \<Rightarrow> res_termination r = TERMINATION_OUT_OF_MEMORY \<and> res_steps r = []
      | ATRINIK_PF_COST_OVERFLOW \<Rightarrow> res_termination r = TERMINATION_COST_OVERFLOW \<and> res_steps r = []
      | _ \<Rightarrow> False)"

lemma pf_core_metrics: "pf_core ad opts start c \<Longrightarrow> pf_metrics_within opts (metrics c)"
  by (auto simp: pf_core_def pf_control_def pf_budget_def pf_metrics_within_def)

lemma pf_oom_ok:
  "pf_core ad opts start c \<Longrightarrow> pf_search_ok ad opts start is_goal nb (pf_oom_result (metrics c))"
  by (simp add: pf_search_ok_def pf_oom_result_def pf_empty_result_def pf_core_metrics)

text \<open>Leaving without a path: the plain status, or a partial path where the options ask for one.\<close>

lemma pf_finish_none_ok:
  assumes core: "pf_core ad opts start c" and nb: "neighbors ad = Some nb"
    and plain: "pf_search_ok ad opts start is_goal nb
      ((pf_empty_result status termination)\<lparr>res_metrics := metrics c\<rparr>)"
    and ex: "termination = TERMINATION_EXHAUSTED \<Longrightarrow> pf_unreachable nb is_goal start"
  shows "\<exists>r c'. pf_finish_search al c status termination None = Some (r, c') \<and>
    pf_reusable c' \<and> pf_search_ok ad opts start is_goal nb r"
proof -
  let ?r0 = "(pf_empty_result status termination)\<lparr>res_metrics := metrics c\<rparr>"
  let ?part = "termination = TERMINATION_EXHAUSTED \<or> termination = TERMINATION_LIMIT \<or>
    termination = TERMINATION_CANCELLED"
  have opts: "options c = opts" using core by (simp add: pf_core_def pf_control_def)
  show ?thesis
  proof (cases "\<exists>p. partial_node c = Some p \<and> return_partial opts \<and> ?part")
    case False
    then have "pf_finish_search al c status termination None = Some (?r0, c)"
      using opts by (auto simp: pf_finish_search_def Let_def split: option.splits)
    with plain pf_core_reusable [OF core] show ?thesis by blast
  next
    case True
    then obtain p where p: "partial_node c = Some p" "return_partial opts" ?part by blast
    have "p < length (nodes c)" using core p(1) by (simp add: pf_core_def pf_control_def)
    from pf_finish_path_total [OF core nb this, of al "?r0\<lparr>res_status := ATRINIK_PF_PARTIAL\<rparr>"]
    obtain r c' where fin: "pf_finish_path al c p (?r0\<lparr>res_status := ATRINIK_PF_PARTIAL\<rparr>) = Some (r, c')"
      and re: "pf_reusable c'" and r: "r = pf_oom_result (metrics c) \<or>
        res_status r = ATRINIK_PF_PARTIAL \<and> res_termination r = termination \<and>
        res_metrics r = (metrics c)\<lparr>total_cost := node_cost (nodes c ! p)\<rparr> \<and>
        pf_reports nb (algorithm opts) start (node_state (nodes c ! p)) r"
      by (auto simp: pf_empty_result_def)
    have "pf_search_ok ad opts start is_goal nb r"
      using r
    proof (elim disjE conjE)
      assume "r = pf_oom_result (metrics c)"
      then show ?thesis by (simp add: pf_oom_ok [OF core])
    next
      assume "res_status r = ATRINIK_PF_PARTIAL" "res_termination r = termination"
        "res_metrics r = (metrics c)\<lparr>total_cost := node_cost (nodes c ! p)\<rparr>"
        "pf_reports nb (algorithm opts) start (node_state (nodes c ! p)) r"
      with p ex pf_core_metrics [OF core] show ?thesis
        by (auto simp: pf_search_ok_def pf_metrics_within_def)
    qed
    with fin re p opts show ?thesis by (simp add: pf_finish_search_def)
  qed
qed

lemma pf_stop_coded_ok:
  assumes "pf_core ad opts start c" "pf_stop_coded c"
  shows "pf_search_ok ad opts start is_goal nb
      ((pf_empty_result (stop_status c) (stop_termination c))\<lparr>res_metrics := metrics c\<rparr>) \<and>
    stop_termination c \<noteq> TERMINATION_EXHAUSTED"
  using assms pf_core_metrics [OF assms(1)]
  by (auto simp: pf_search_ok_def pf_stop_coded_def pf_empty_result_def)

definition pf_finishes :: "pf_adapter \<Rightarrow> pf_options \<Rightarrow> u64 \<Rightarrow> (u64 \<Rightarrow> bool) \<Rightarrow> pf_neighbors \<Rightarrow>
    (pf_context + pf_result \<times> pf_context) option \<Rightarrow> bool" where
  "pf_finishes ad opts start is_goal nb x \<longleftrightarrow>
     (\<exists>r c'. x = Some (Inr (r, c')) \<and> pf_reusable c' \<and> pf_search_ok ad opts start is_goal nb r)"

lemma pf_search_finish_none:
  assumes "pf_core ad opts start c" "neighbors ad = Some nb"
    "pf_search_ok ad opts start is_goal nb ((pf_empty_result status termination)\<lparr>res_metrics := metrics c\<rparr>)"
    "termination = TERMINATION_EXHAUSTED \<Longrightarrow> pf_unreachable nb is_goal start"
  shows "pf_finishes ad opts start is_goal nb (pf_search_finish al c status termination None)"
  using pf_finish_none_ok [OF assms, of al] by (auto simp: pf_finishes_def pf_search_finish_def)

text \<open>Popping and closing the popped node.\<close>

lemma pf_core_pop:
  assumes core: "pf_core ad opts start c" and re: "pf_reindexed c c'" and wf: "pf_heap_wf c'"
    and ms: "mset (heap c) = add_mset i (mset (heap c'))"
  shows "pf_core ad opts start c'"
proof -
  note mv = pf_reindexed_moved [OF re] and f = pf_frame_fields [OF pf_reindexed_frame [OF re]]
  have len: "length (heap c) = Suc (length (heap c'))"
    using arg_cong [OF ms, of size] unfolding size_mset size_add_mset .
  have same: "metrics c' = metrics c" "heap_capacity c' = heap_capacity c" "node_capacity c' = node_capacity c"
    "map pf_strip (nodes c') = map pf_strip (nodes c)"
    using re by (auto simp: pf_reindexed_def)
  have "pf_budget c'"
    using pf_core_budget [OF core] same(1) f pf_moved_length [OF mv] len
    by (auto simp: pf_budget_def pf_within_def)
  with core wf f same pf_moved_length [OF mv] pf_moved_index_wf [OF mv] len
    pf_good_nodes_strip [of "nodes c'" "nodes c"]
  show ?thesis by (simp add: pf_core_def pf_control_def pf_arrays_def)
qed

lemma closed_update_fields:
  assumes "i < length ns"
  shows "node_state (ns[i := (ns ! i)\<lparr>node_closed := b\<rparr>] ! j) = node_state (ns ! j)"
    "node_cost (ns[i := (ns ! i)\<lparr>node_closed := b\<rparr>] ! j) = node_cost (ns ! j)"
    "node_data (ns[i := (ns ! i)\<lparr>node_closed := b\<rparr>] ! j) = node_data (ns ! j)"
    "node_parent (ns[i := (ns ! i)\<lparr>node_closed := b\<rparr>] ! j) = node_parent (ns ! j)"
    "length (ns[i := (ns ! i)\<lparr>node_closed := b\<rparr>]) = length ns"
    "j \<noteq> i \<Longrightarrow> node_closed (ns[i := (ns ! i)\<lparr>node_closed := b\<rparr>] ! j) = node_closed (ns ! j)"
    "node_closed (ns[i := (ns ! i)\<lparr>node_closed := b\<rparr>] ! i) = b"
  using assms by (auto simp: nth_list_update)

lemma pf_good_nodes_closed:
  assumes "pf_good_nodes ad opts start ns" "i < length ns"
  shows "pf_good_nodes ad opts start (ns[i := (ns ! i)\<lparr>node_closed := b\<rparr>])" (is "pf_good_nodes _ _ _ ?ns")
proof -
  note f = closed_update_fields [OF assms(2)]
  have "ns[i := x] \<noteq> [] \<longleftrightarrow> ns \<noteq> []" for x by simp
  then have "pf_tree nb alg start ?ns = pf_tree nb alg start ns" for nb alg
    unfolding pf_tree_def pf_parents_def pf_linked_def f by simp
  moreover have "pf_scored ad (algorithm opts) ?ns"
    unfolding pf_scored_def
  proof
    fix n assume "n \<in> set ?ns"
    then consider "n = (ns ! i)\<lparr>node_closed := b\<rparr>" | "n \<in> set ns" using set_update_subset_insert by fast
    then show "pf_call_heuristic ad (algorithm opts) (node_state n) = Some (node_heuristic n) \<and>
        node_priority n = pf_priority (algorithm opts) (node_cost n) (node_heuristic n)"
      using assms by cases (auto simp: pf_good_nodes_def pf_scored_def)
  qed
  ultimately show ?thesis using assms by (auto simp: pf_good_nodes_def)
qed

lemma pf_close_popped:
  assumes core: "pf_core ad opts start c" and i: "i < length (nodes c)" "i \<notin> set (heap c)"
    and g: "\<not> is_goal (node_state (nodes c ! i))"
    and live: "\<And>j. j < length (nodes c) \<Longrightarrow> (node_closed (nodes c ! j) \<longleftrightarrow> j \<notin> insert i (set (heap c))) \<and>
      (node_closed (nodes c ! j) \<longrightarrow> \<not> is_goal (node_state (nodes c ! j)))"
    and settled: "pf_settled nb (algorithm opts) (nodes c) None"
  shows "pf_core ad opts start (pf_set_closed i True c)" "pf_live is_goal (pf_set_closed i True c)"
    "pf_settled nb (algorithm opts) (nodes (pf_set_closed i True c)) (Some i)"
proof -
  let ?n = "(nodes c ! i)\<lparr>node_closed := True\<rparr>"
  note f = closed_update_fields [OF i(1), where b = True]
  have arr: "pf_arrays c" using core by (simp add: pf_core_def)
  show "pf_core ad opts start (pf_set_closed i True c)"
    unfolding pf_set_closed_def
    by (rule pf_core_update [OF core pf_update_unqueued_arrays [OF arr i]])
      (use core i in \<open>simp_all add: pf_good_nodes_closed pf_core_def\<close>)
  show "pf_live is_goal (pf_set_closed i True c)"
    using live g i by (auto simp: pf_live_def pf_set_closed_def nth_list_update)
  have "pf_relaxed nb (algorithm opts) ((nodes c)[i := ?n]) j = pf_relaxed nb (algorithm opts) (nodes c) j" for j
    unfolding pf_relaxed_def pf_relaxes_def f by simp
  then show "pf_settled nb (algorithm opts) (nodes (pf_set_closed i True c)) (Some i)"
    using settled f(6) by (auto simp: pf_settled_def pf_set_closed_def)
qed

lemma pf_searching_cancel_calls:
  "pf_searching ad opts start is_goal nb c \<Longrightarrow> pf_searching ad opts start is_goal nb (c\<lparr>cancel_calls := k\<rparr>)"
  using pf_core_cancel_calls by (auto simp: pf_searching_def pf_live_def)


definition pf_search_order :: "(pf_context \<times> pf_context) set" where
  "pf_search_order = inv_image (less_than <*lex*> less_than)
     (\<lambda>c. (pf_potential (nodes c), length (heap c)))"

lemma wf_pf_search_order: "wf pf_search_order"
  by (auto simp: pf_search_order_def)

definition pf_step_ok :: "pf_adapter \<Rightarrow> pf_options \<Rightarrow> u64 \<Rightarrow> (u64 \<Rightarrow> bool) \<Rightarrow> pf_neighbors \<Rightarrow> pf_context \<Rightarrow>
    (pf_context + pf_result \<times> pf_context) option \<Rightarrow> bool" where
  "pf_step_ok ad opts start is_goal nb c x \<longleftrightarrow> pf_finishes ad opts start is_goal nb x \<or>
     (\<exists>c'. x = Some (Inl c') \<and> pf_searching ad opts start is_goal nb c' \<and> (c', c) \<in> pf_search_order)"

text \<open>The popped node is a goal.\<close>

lemma pf_found_ok:
  assumes s: "pf_searching ad opts start is_goal nb c"
    and pop: "pf_reindexed c c'" "pf_heap_wf c'" "mset (heap c) = add_mset i (mset (heap c'))"
      "\<And>j. j \<in> set (heap c) \<Longrightarrow> pf_key (nodes c ! i) \<le> pf_key (nodes c ! j)"
    and i: "i < length (nodes c)" and g: "is_goal (node_state (nodes c' ! i))"
  shows "pf_finishes ad opts start is_goal nb (pf_search_finish al
    (c'\<lparr>metrics := (metrics c')\<lparr>total_cost := node_cost (nodes c' ! i)\<rparr>\<rparr>)
    ATRINIK_PF_FOUND TERMINATION_GOAL (Some i))"
proof -
  let ?c = "c'\<lparr>metrics := (metrics c')\<lparr>total_cost := node_cost (nodes c' ! i)\<rparr>\<rparr>"
  let ?r0 = "(pf_empty_result ATRINIK_PF_FOUND TERMINATION_GOAL)\<lparr>res_metrics := metrics ?c\<rparr>"
  have core: "pf_core ad opts start c" and nb: "neighbors ad = Some nb"
    using s by (simp_all add: pf_searching_def)
  have core': "pf_core ad opts start c'" by (rule pf_core_pop [OF core pop(1-3)])
  have corec: "pf_core ad opts start ?c"
    by (rule pf_core_cong [OF core']) (use pf_core_budget [OF core'] in \<open>simp_all add: pf_budget_def\<close>)
  have cost: "node_cost (nodes c' ! i) = node_cost (nodes c ! i)"
    using pf_strip_eqD [OF pf_reindexed_node [OF pop(1) i]] by simp
  have lt: "i < length (nodes ?c)" using i pf_reindexed_length [OF pop(1)] by simp
  from pf_finish_path_total [OF corec nb lt, of al ?r0]
  obtain r cc where fin: "pf_finish_path al ?c i ?r0 = Some (r, cc)" and re: "pf_reusable cc"
    and r: "r = pf_oom_result (metrics ?c) \<or>
      res_status r = ATRINIK_PF_FOUND \<and> res_termination r = TERMINATION_GOAL \<and>
      res_metrics r = (metrics ?c)\<lparr>total_cost := node_cost (nodes c ! i)\<rparr> \<and>
      pf_reports nb (algorithm opts) start (node_state (nodes c' ! i)) r"
    by (auto simp: pf_empty_result_def cost)
  have "pf_search_ok ad opts start is_goal nb r"
    using r
  proof (elim disjE conjE)
    assume "r = pf_oom_result (metrics ?c)"
    then show ?thesis using pf_oom_ok [OF corec] by blast
  next
    assume "res_status r = ATRINIK_PF_FOUND" "res_termination r = TERMINATION_GOAL"
      "res_metrics r = (metrics ?c)\<lparr>total_cost := node_cost (nodes c ! i)\<rparr>"
      "pf_reports nb (algorithm opts) start (node_state (nodes c' ! i)) r"
    with g pf_core_metrics [OF corec] pf_least_optimal [OF s _ i pop(4)] show ?thesis
      by (auto simp: pf_search_ok_def pf_metrics_within_def pf_cheapest_def)
  qed
  with fin re show ?thesis
    by (simp add: pf_finishes_def pf_search_finish_def pf_finish_search_def)
qed

text \<open>The popped node is expanded.\<close>

lemma pf_popped_expand_ok:
  assumes s: "pf_searching ad opts start is_goal nb c"
    and pop: "pf_reindexed c c'" "pf_heap_wf c'" "mset (heap c) = add_mset i (mset (heap c'))"
    and i: "i < length (nodes c)" and g: "\<not> is_goal (node_state (nodes c' ! i))"
    and lim: "\<not> (max_expanded (options c') \<noteq> 0 \<and> expanded (metrics c') \<ge> max_expanded (options c'))"
  shows "pf_step_ok ad opts start is_goal nb c (do {
      c \<leftarrow> pf_expand al i (pf_set_closed i True c');
      if stopped c then pf_search_finish al c (stop_status c) (stop_termination c) None
      else Some (Inl c) })"
proof -
  have core: "pf_core ad opts start c" and nb: "neighbors ad = Some nb" and ready: "pf_ready ad opts"
    and gf: "goal ad = Some is_goal" and live: "pf_live is_goal c" and run: "\<not> stopped c"
    and settled: "pf_settled nb (algorithm opts) (nodes c) None"
    using s by (simp_all add: pf_searching_def)
  have core': "pf_core ad opts start c'" by (rule pf_core_pop [OF core pop])
  have len: "length (nodes c') = length (nodes c)" by (rule pf_reindexed_length [OF pop(1)])
  have same: "pf_strip (nodes c' ! j) = pf_strip (nodes c ! j)" if "j < length (nodes c)" for j
    by (rule pf_reindexed_node [OF pop(1) that])
  note field = pf_strip_eqD [OF same]
  have run': "\<not> stopped c'" using run pf_frame_fields [OF pf_reindexed_frame [OF pop(1)]] by simp
  have "distinct (heap c)"
    using core by (simp add: pf_core_def pf_arrays_def pf_heap_wf_def pf_coherent_distinct)
  then have out: "i \<notin> set (heap c')"
    using pop(3) by (metis distinct.simps(2) mset.simps(2) mset_eq_imp_distinct_iff)
  have heap: "set (heap c) = insert i (set (heap c'))"
    using arg_cong [OF pop(3), of set_mset] by simp
  have settled': "pf_settled nb (algorithm opts) (nodes c') None"
  proof -
    have "pf_progress (nodes c) (nodes c')"
      using pop(1) pf_progress_cong [of "nodes c'" "nodes c"] pf_progress_refl
      by (simp add: pf_reindexed_def)
    then show ?thesis
      using settled pf_relaxed_progress [of "nodes c" "length (nodes c')" nb "algorithm opts" "nodes c'"]
      by (auto simp: pf_settled_def)
  qed
  have live': "(node_closed (nodes c' ! j) \<longleftrightarrow> j \<notin> insert i (set (heap c'))) \<and>
      (node_closed (nodes c' ! j) \<longrightarrow> \<not> is_goal (node_state (nodes c' ! j)))" if "j < length (nodes c')" for j
    using live field [of j] that len heap by (simp add: pf_live_def)
  let ?c2 = "pf_set_closed i True c'"
  have i': "i < length (nodes c')" using i len by simp
  note cl = pf_close_popped [OF core' i' out g live' settled']
  have "\<exists>c3. pf_expand al i ?c2 = Some c3 \<and> pf_core ad opts start c3 \<and> pf_no_growth ?c2 c3 \<and>
    (if stopped c3 then pf_stop_coded c3
     else pf_live is_goal c3 \<and> pf_settled nb (algorithm opts) (nodes c3) None)"
    by (rule pf_expand_total [OF ready nb cl(1,2) _ _ _ cl(3)])
      (use run' i' lim in \<open>auto simp: pf_set_closed_def\<close>)
  then obtain c3 where exp: "pf_expand al i ?c2 = Some c3" "pf_core ad opts start c3" "pf_no_growth ?c2 c3"
    and c3: "if stopped c3 then pf_stop_coded c3
     else pf_live is_goal c3 \<and> pf_settled nb (algorithm opts) (nodes c3) None" by blast
  show ?thesis
  proof (cases "stopped c3")
    case True
    have "pf_finishes ad opts start is_goal nb
        (pf_search_finish al c3 (stop_status c3) (stop_termination c3) None)"
      by (rule pf_search_finish_none [OF exp(2) nb]) (use pf_stop_coded_ok [OF exp(2)] c3 True in auto)
    with exp(1) True show ?thesis by (simp add: pf_step_ok_def)
  next
    case False
    have "pf_potential (nodes ?c2) = pf_potential (nodes c')"
    proof -
      have "map (\<lambda>n. unat (node_cost n)) (nodes ?c2) = map (\<lambda>n. unat (node_cost n)) (nodes c')"
        using i' by (simp add: pf_set_closed_def map_update list_update_same_conv)
      then show ?thesis by (simp add: pf_potential_def pf_set_closed_def)
    qed
    also have "\<dots> = pf_potential (nodes c)"
      by (rule pf_potential_cong) (use pop(1) in \<open>simp add: pf_reindexed_def\<close>)
    finally have pot: "pf_potential (nodes ?c2) = pf_potential (nodes c)" .
    have "length (heap c) = Suc (length (heap ?c2))"
      using arg_cong [OF pop(3), of size] by (simp add: pf_set_closed_def)
    then have "(c3, c) \<in> pf_search_order"
      using exp(3) pot by (auto simp: pf_search_order_def pf_no_growth_def)
    with exp False c3 ready nb gf show ?thesis by (simp add: pf_step_ok_def pf_searching_def)
  qed
qed

lemma pf_search_step_ok:
  assumes s: "pf_searching ad opts start is_goal nb c"
  shows "pf_step_ok ad opts start is_goal nb c (pf_search_step al is_goal c)"
proof -
  have core: "pf_core ad opts start c" and nb: "neighbors ad = Some nb"
    using s by (simp_all add: pf_searching_def)
  have ad: "adapter c = Some ad" using core by (simp add: pf_core_def pf_control_def)
  show ?thesis
  proof (cases "heap c = []")
    case True
    have un: "pf_unreachable nb is_goal start"
      using pf_exhausted_no_route [OF s True] by (simp add: pf_unreachable_def)
    have "pf_finishes ad opts start is_goal nb
        (pf_search_finish al c ATRINIK_PF_NO_PATH TERMINATION_EXHAUSTED None)"
      by (rule pf_search_finish_none [OF core nb _ un])
        (simp add: pf_search_ok_def pf_empty_result_def pf_core_metrics [OF core] un)
    with True show ?thesis by (simp add: pf_step_ok_def pf_search_step_def)
  next
    case False
    obtain b k where call: "pf_call_cancelled c = Some (b, c\<lparr>cancel_calls := k\<rparr>)"
      by (rule pf_call_cancelled_total [OF ad])
    let ?c1 = "c\<lparr>cancel_calls := k\<rparr>"
    have s1: "pf_searching ad opts start is_goal nb ?c1" by (rule pf_searching_cancel_calls [OF s])
    then have core1: "pf_core ad opts start ?c1" by (simp add: pf_searching_def)
    show ?thesis
    proof (cases b)
      case True
      have "pf_finishes ad opts start is_goal nb
          (pf_search_finish al ?c1 ATRINIK_PF_CANCELLED TERMINATION_CANCELLED None)"
        by (rule pf_search_finish_none [OF core1 nb])
          (simp_all add: pf_search_ok_def pf_empty_result_def pf_core_metrics [OF core1, simplified])
      with True False call show ?thesis by (simp add: pf_step_ok_def pf_search_step_def)
    next
      case nc: False
      have wf1: "pf_heap_wf ?c1" using core1 by (simp add: pf_core_def pf_arrays_def)
      obtain i c2 where pop: "pf_heap_pop ?c1 = (i, c2)" "pf_reindexed ?c1 c2" "pf_heap_wf c2"
        "mset (heap ?c1) = add_mset i (mset (heap c2))"
        "\<And>j. j \<in> set (heap ?c1) \<Longrightarrow> pf_key (nodes ?c1 ! i) \<le> pf_key (nodes ?c1 ! j)"
        by (rule pf_heap_pop_wf [OF wf1]) (use False in simp_all)
      have "i \<in># mset (heap ?c1)" using pop(4) by simp
      then have i: "i < length (nodes ?c1)"
        using wf1 by (simp add: pf_heap_wf_def pf_heap_coherent_def)
      have core2: "pf_core ad opts start c2" by (rule pf_core_pop [OF core1 pop(2-4)])
      let ?lim = "max_expanded (options c2) \<noteq> 0 \<and> expanded (metrics c2) \<ge> max_expanded (options c2)"
      have order: "(x, ?c1) \<in> pf_search_order \<longleftrightarrow> (x, c) \<in> pf_search_order" for x
        by (simp add: pf_search_order_def)
      have step: "pf_search_step al is_goal c =
        (if is_goal (node_state (nodes c2 ! i))
         then pf_search_finish al (c2\<lparr>metrics := (metrics c2)\<lparr>total_cost := node_cost (nodes c2 ! i)\<rparr>\<rparr>)
           ATRINIK_PF_FOUND TERMINATION_GOAL (Some i)
         else if ?lim then pf_search_finish al c2 ATRINIK_PF_LIMIT_REACHED TERMINATION_LIMIT None
         else do {
            c \<leftarrow> pf_expand al i (pf_set_closed i True c2);
            if stopped c then pf_search_finish al c (stop_status c) (stop_termination c) None
            else Some (Inl c) })"
        using False nc call pop(1) by (simp add: pf_search_step_def Let_def)
      consider "is_goal (node_state (nodes c2 ! i))" | "\<not> is_goal (node_state (nodes c2 ! i))" ?lim
        | "\<not> is_goal (node_state (nodes c2 ! i))" "\<not> ?lim" by blast
      then show ?thesis
      proof cases
        case 1
        with pf_found_ok [OF s1 pop(2-5) i 1] step show ?thesis by (simp add: pf_step_ok_def)
      next
        case 2
        have "pf_finishes ad opts start is_goal nb
            (pf_search_finish al c2 ATRINIK_PF_LIMIT_REACHED TERMINATION_LIMIT None)"
          by (rule pf_search_finish_none [OF core2 nb])
            (simp_all add: pf_search_ok_def pf_empty_result_def pf_core_metrics [OF core2])
        moreover have "pf_search_step al is_goal c =
            pf_search_finish al c2 ATRINIK_PF_LIMIT_REACHED TERMINATION_LIMIT None"
          using step 2 by simp
        ultimately show ?thesis by (simp add: pf_step_ok_def)
      next
        case 3
        then have "pf_search_step al is_goal c = do {
            c \<leftarrow> pf_expand al i (pf_set_closed i True c2);
            if stopped c then pf_search_finish al c (stop_status c) (stop_termination c) None
            else Some (Inl c) }"
          unfolding step by auto
        with pf_popped_expand_ok [OF s1 pop(2-4) i 3, of al]
        show ?thesis unfolding pf_step_ok_def order by metis
      qed
    qed
  qed
qed


section \<open>A whole search\<close>

lemma pf_search_loop_total:
  assumes "pf_searching ad opts start is_goal nb c"
  shows "\<exists>r c'. c_loop (pf_search_step al is_goal) c = Some (r, c') \<and> pf_reusable c' \<and>
    pf_search_ok ad opts start is_goal nb r"
proof -
  have "\<exists>x. c_loop (pf_search_step al is_goal) c = Some x \<and>
      (pf_reusable (snd x) \<and> pf_search_ok ad opts start is_goal nb (fst x))"
  proof (rule c_loop_total [where I = "pf_searching ad opts start is_goal nb", OF wf_pf_search_order assms])
    fix c assume "pf_searching ad opts start is_goal nb c"
    from pf_search_step_ok [OF this, of al]
    show "\<exists>x. pf_search_step al is_goal c = Some x \<and>
        (case x of Inl c' \<Rightarrow> pf_searching ad opts start is_goal nb c' \<and> (c', c) \<in> pf_search_order
         | Inr r \<Rightarrow> pf_reusable (snd r) \<and> pf_search_ok ad opts start is_goal nb (fst r))"
      by (auto simp: pf_step_ok_def pf_finishes_def)
  qed
  then show ?thesis by auto
qed

lemma pf_reset_arrays:
  assumes "pf_reusable c"
  shows "pf_arrays (pf_reset ad opts c)"
proof -
  have "pf_index_wf (pf_reset ad opts c)"
    using assms by (auto simp: pf_index_wf_def pf_reset_def pf_states_def pf_reusable_def pf_hash_inv_def
      filter_replicate)
  moreover have "pf_heap_wf (pf_reset ad opts c)"
    by (simp add: pf_heap_wf_def pf_heap_coherent_def pf_heap_ordered_def pf_reset_def)
  ultimately show ?thesis by (simp add: pf_arrays_def pf_reset_def)
qed

text \<open>The core invariant for a context whose only node is the start.\<close>

lemma pf_start_good:
  assumes "pf_call_heuristic ad (algorithm opts) start = Some h" "neighbors ad = Some nb"
  shows "pf_good_nodes ad opts start [pf_start_node (algorithm opts) start h]"
proof -
  have "pf_parents [pf_start_node (algorithm opts) start h] = {}"
    by (auto simp: pf_parents_def pf_start_node_def)
  then show ?thesis
    using assms by (auto simp: pf_good_nodes_def pf_tree_def pf_scored_def pf_start_node_def)
qed

lemma pf_start_searching:
  assumes ready: "pf_ready ad opts" and nb: "neighbors ad = Some nb" and g: "goal ad = Some is_goal"
    and arr: "pf_arrays c" and good: "pf_good_nodes ad opts start [n]"
    and strip: "map pf_strip (nodes c) = map pf_strip [n]" and open_node: "\<not> node_closed n"
    and heap: "mset (heap c) = {#0#}" and ctl: "adapter c = Some ad" "options c = opts"
      "\<not> reachability c" "\<not> stopped c" "partial_node c = None \<or> partial_node c = Some 0"
    and met: "expanded (metrics c) = 0" "examined_transitions (metrics c) = 0"
      "generated (metrics c) = 1" "peak_frontier (metrics c) \<le> 1"
  shows "pf_searching ad opts start is_goal nb c"
proof -
  have len: "length (nodes c) = 1" using map_eq_imp_length_eq [OF strip] by simp
  have "length (heap c) = 1" using arg_cong [OF heap, of size] by simp
  then have "pf_budget c" using ctl(2) met len by (auto simp: pf_budget_def pf_within_def)
  then have "pf_core ad opts start c"
    using arr good pf_good_nodes_strip [OF strip] ctl len by (auto simp: pf_core_def pf_control_def)
  moreover have "set (heap c) = {0}" using arg_cong [OF heap, of set_mset] by simp
  then have "pf_live is_goal c"
    by (rule pf_live_strip [OF strip]) (use open_node in simp)
  moreover have "\<not> node_closed (nodes c ! 0)"
    using arg_cong [OF strip, of "\<lambda>xs. xs ! 0"] len open_node by (metis length_map nth_Cons_0 nth_map
      pf_strip_fields(7) list.simps(9) zero_less_one)
  then have "pf_settled nb (algorithm opts) (nodes c) None" using len by (simp add: pf_settled_def)
  ultimately show ?thesis using ready nb g ctl by (simp add: pf_searching_def)
qed

lemma pf_search_begin_total:
  assumes ready: "pf_ready ad opts" and nb: "neighbors ad = Some nb" and g: "goal ad = Some is_goal"
    and re: "pf_reusable c"
  shows "\<exists>ok c'. pf_search_begin al ad start opts (pf_reset (Some ad) opts c) = Some (ok, c') \<and>
    (if ok then pf_searching ad opts start is_goal nb c'
     else pf_reusable c' \<and> partial_node c' = None \<and> pf_metrics_within opts (metrics c'))"
proof -
  let ?c0 = "pf_reset (Some ad) opts c"
  obtain h where h: "pf_call_heuristic ad (algorithm opts) start = Some h"
    using pf_ready_calls(3) [OF ready] by blast
  let ?n = "pf_start_node (algorithm opts) start h"
  have c0: "nodes ?c0 = []" "heap ?c0 = []" "metrics ?c0 = pf_zero_metrics" "adapter ?c0 = Some ad"
    "options ?c0 = opts" "\<not> reachability ?c0" "\<not> stopped ?c0" "partial_node ?c0 = None"
    by (simp_all add: pf_reset_def)
  obtain r c1 where add: "pf_add_node al ?c0 ?n = Some (r, c1)" "pf_frame ?c0 c1" "pf_arrays c1"
    "heap c1 = heap ?c0" "metrics c1 = metrics ?c0"
    and r: "r = None \<and> nodes c1 = nodes ?c0 \<or> r = Some (length (nodes ?c0)) \<and> nodes c1 = nodes ?c0 @ [?n]"
  proof (rule pf_add_node_arrays [OF pf_reset_arrays [OF re, of "Some ad" opts], of ?n al])
    show "node_state ?n \<notin> set (pf_states (nodes ?c0))" by (simp add: c0 pf_states_def)
    show "node_heap_index ?n = None" by (simp add: pf_start_node_def)
  qed
  note f1 = pf_frame_fields [OF add(2)]
  have zero: "pf_metrics_within opts pf_zero_metrics"
    by (simp add: pf_metrics_within_def pf_within_def pf_zero_metrics_def)
  show ?thesis
  proof (cases r)
    case None
    then have "pf_search_begin al ad start opts ?c0 = Some (False, c1)"
      using h add(1) by (simp add: pf_search_begin_def)
    moreover have "pf_reusable c1" using add(3) by (simp add: pf_arrays_def pf_index_wf_reusable)
    ultimately show ?thesis using add c0 f1 zero by (intro exI [of _ False] exI [of _ c1]) simp
  next
    case (Some i)
    with r c0 have i: "i = 0" "nodes c1 = [?n]" by auto
    obtain ok c2 where push: "pf_heap_push al c1 0 = Some (ok, c2)" "pf_frame c1 c2" "pf_arrays c2"
      "map pf_strip (nodes c2) = map pf_strip (nodes c1)"
      "mset (heap c2) = (if ok then add_mset 0 (mset (heap c1)) else mset (heap c1))"
      and peak: "peak_frontier (metrics c2) = peak_frontier (metrics c1) \<or>
        peak_frontier (metrics c2) = length (heap c2)"
      by (rule pf_heap_push_arrays [OF add(3), of 0]) (use i add(4) c0 in simp_all)
    note f2 = pf_frame_fields [OF push(2)]
    show ?thesis
    proof (cases ok)
      case False
      then have "length (heap c2) = 0" using arg_cong [OF push(5), of size] add(4) c0 by simp
      with peak add(5) c0 f2 have "pf_metrics_within opts (metrics c2)"
        by (auto simp: pf_metrics_within_def pf_within_def pf_zero_metrics_def)
      moreover have "pf_search_begin al ad start opts ?c0 = Some (False, c2)"
        using h add(1) Some i push(1) False by (simp add: pf_search_begin_def)
      moreover have "pf_reusable c2" using push(3) by (simp add: pf_arrays_def pf_index_wf_reusable)
      ultimately show ?thesis using f1 f2 c0 by (intro exI [of _ False] exI [of _ c2]) simp
    next
      case True
      let ?c3 = "c2\<lparr>metrics := (metrics c2)\<lparr>generated := 1\<rparr>\<rparr>"
      have ctl: "adapter ?c3 = Some ad" "options ?c3 = opts" using f1 f2 c0 by simp_all
      obtain p rk where part: "pf_consider_partial ?c3 0 = Some (?c3\<lparr>partial_node := p, partial_rank := rk\<rparr>)"
        "p = partial_node ?c3 \<or> p = Some 0"
        by (rule pf_consider_partial_total [OF ctl ready])
      let ?c4 = "?c3\<lparr>partial_node := p, partial_rank := rk\<rparr>"
      have arr: "pf_arrays ?c4" by (rule pf_arrays_cong [OF push(3)]) simp_all
      have hp: "mset (heap ?c4) = {#0#}" using push(5) True add(4) c0 by simp
      have "length (heap c2) = 1" using arg_cong [OF hp, of size] by simp
      then have "pf_searching ad opts start is_goal nb ?c4"
        using f1 f2 c0 part(2) peak add(5) push(4) i
        by (intro pf_start_searching [OF ready nb g arr pf_start_good [OF h nb] _ _ hp])
          (auto simp: pf_zero_metrics_def pf_start_node_def)
      moreover have "pf_search_begin al ad start opts ?c0 = Some (True, ?c4)"
        using h add(1) Some i push(1) True part(1) by (simp add: pf_search_begin_def)
      ultimately show ?thesis by (intro exI [of _ True] exI [of _ ?c4]) simp
    qed
  qed
qed

definition pf_opts :: "pf_options option \<Rightarrow> pf_options" where
  "pf_opts opts = (case opts of None \<Rightarrow> atrinik_pf_options_init | Some opts \<Rightarrow> opts)"

lemma pf_search_total:
  assumes ready: "pf_ready ad (pf_opts opts)" and nb: "neighbors ad = Some nb" and g: "goal ad = Some is_goal"
    and re: "pf_reusable c"
  shows "\<exists>r c'. atrinik_pf_search al (Some c) (Some ad) start opts = Some (r, Some c') \<and> pf_reusable c' \<and>
    pf_search_ok ad (pf_opts opts) start is_goal nb r"
proof -
  let ?o = "pf_opts opts" and ?c0 = "pf_reset (Some ad) (pf_opts opts) c"
  obtain ok c1 where started: "pf_search_begin al ad start ?o ?c0 = Some (ok, c1)"
    and c1: "if ok then pf_searching ad ?o start is_goal nb c1
     else pf_reusable c1 \<and> partial_node c1 = None \<and> pf_metrics_within ?o (metrics c1)"
    using pf_search_begin_total [OF ready nb g re] by blast
  have valid: "\<not> pf_invalid_search (Some ad) ?o" using ready by (simp add: pf_ready_def)
  have run: "atrinik_pf_search al (Some c) (Some ad) start opts = do {
      (result, c) \<leftarrow> (if \<not> ok then pf_finish_search al c1 ATRINIK_PF_OUT_OF_MEMORY TERMINATION_OUT_OF_MEMORY None
        else c_loop (pf_search_step al is_goal) c1);
      Some (result, Some c) }"
    using valid started g unfolding pf_opts_def by (simp add: atrinik_pf_search_def Let_def)
  show ?thesis
  proof (cases ok)
    case True
    with c1 pf_search_loop_total [of ad ?o start is_goal nb c1 al] run show ?thesis by auto
  next
    case False
    with c1 have "pf_finish_search al c1 ATRINIK_PF_OUT_OF_MEMORY TERMINATION_OUT_OF_MEMORY None =
        Some (pf_oom_result (metrics c1), c1)"
      by (simp add: pf_finish_search_def pf_oom_result_def)
    moreover have "pf_search_ok ad ?o start is_goal nb (pf_oom_result (metrics c1))"
      using c1 False by (simp add: pf_search_ok_def pf_oom_result_def pf_empty_result_def)
    ultimately show ?thesis using run False c1 by simp
  qed
qed

end
