(* ===== verification/Pf_Reach.thy ===== *)
theory Pf_Reach
  imports Pf_Correct
begin

text \<open>
  Correctness of the flood fill \<open>atrinik_pf_reachable\<close>: it always returns, it lists only
  states that can be reached from the start, each once, and when it reports completion it
  lists all of them.
\<close>

definition pf_can_reach :: "pf_neighbors \<Rightarrow> u64 \<Rightarrow> u64 \<Rightarrow> bool" where
  "pf_can_reach nb s s' \<longleftrightarrow> (\<exists>ts. pf_route nb s ts \<and> pf_route_end s ts = s')"

lemma pf_can_reach_refl: "pf_can_reach nb s s"
  unfolding pf_can_reach_def by (intro exI [of _ "[]"]) simp

lemma pf_can_reach_step:
  assumes "pf_can_reach nb s s'" "Some t \<in> set (fst (nb s'))"
  shows "pf_can_reach nb s (trans_state t)"
proof -
  obtain ts where "pf_route nb s ts" "pf_route_end s ts = s'" using assms(1) by (auto simp: pf_can_reach_def)
  with assms(2) show ?thesis
    unfolding pf_can_reach_def by (intro exI [of _ "ts @ [t]"]) (simp add: pf_route_append)
qed

section \<open>Invariant of the flood fill\<close>

definition pf_flood_budget :: "pf_context \<Rightarrow> bool" where
  "pf_flood_budget c \<longleftrightarrow> pf_metrics_within (options c) (metrics c) \<and>
     length (nodes c) = generated (metrics c)"

definition pf_flooding :: "pf_adapter \<Rightarrow> pf_options \<Rightarrow> u64 \<Rightarrow> pf_neighbors \<Rightarrow> pf_context \<Rightarrow> bool" where
  "pf_flooding ad opts start nb c \<longleftrightarrow> pf_index_wf c \<and> length (nodes c) \<le> node_capacity c \<and>
     adapter c = Some ad \<and> options c = opts \<and> reachability c \<and> neighbors ad = Some nb \<and>
     start \<in> set (pf_states (nodes c)) \<and>
     (\<forall>s\<in>set (pf_states (nodes c)). pf_can_reach nb start s) \<and> pf_flood_budget c"

text \<open>One callback: the new state, if any, is appended.\<close>

definition pf_flooded :: "pf_adapter \<Rightarrow> pf_options \<Rightarrow> u64 \<Rightarrow> pf_neighbors \<Rightarrow> pf_transition option list \<Rightarrow>
    pf_context \<Rightarrow> pf_context \<Rightarrow> bool" where
  "pf_flooded ad opts start nb ts c c' \<longleftrightarrow> pf_flooding ad opts start nb c' \<and>
     (\<exists>ext. pf_states (nodes c') = pf_states (nodes c) @ ext) \<and>
     expanded (metrics c') = expanded (metrics c) \<and>
     (if stopped c' then pf_stop_coded c'
      else \<forall>t\<in>set ts. \<exists>u. t = Some u \<and> trans_state u \<in> set (pf_states (nodes c')))"

lemma pf_flooding_cong:
  assumes "pf_flooding ad opts start nb c" "nodes c' = nodes c" "node_capacity c' = node_capacity c"
    "hash c' = hash c" "hash_capacity c' = hash_capacity c" "adapter c' = adapter c"
    "options c' = options c" "reachability c' = reachability c" "pf_flood_budget c'"
  shows "pf_flooding ad opts start nb c'"
proof -
  have "pf_index_wf c'"
    by (rule pf_index_wf_frame [of c]) (use assms in \<open>simp_all add: pf_flooding_def\<close>)
  with assms show ?thesis by (simp add: pf_flooding_def)
qed

lemma pf_flooded_stop:
  assumes fl: "pf_flooding ad opts start nb c" and st: "pf_states (nodes c) = pf_states (nodes c0)"
    and ex: "expanded (metrics c) = expanded (metrics c0)" and "pf_stop_coded (pf_stop s t c)"
  shows "pf_flooded ad opts start nb ts c0 (pf_stop s t c)"
proof -
  have "pf_flooding ad opts start nb (pf_stop s t c)"
    by (rule pf_flooding_cong [OF fl]) (use fl in \<open>auto simp: pf_stop_def pf_flooding_def pf_flood_budget_def\<close>)
  with assms show ?thesis by (simp add: pf_flooded_def)
qed

lemma pf_emit_reachable_flooded:
  assumes fl: "pf_flooding ad opts start nb c" and run: "\<not> stopped c"
    and t: "Some t \<in> set (fst (nb s))" "pf_can_reach nb start s"
  shows "\<exists>c'. pf_emit_reachable al t c = Some (\<not> stopped c', c') \<and>
    pf_flooded ad opts start nb [Some t] c c'"
proof -
  have wf: "pf_index_wf c" and opts: "options c = opts" and cap: "length (nodes c) \<le> node_capacity c"
    using fl by (simp_all add: pf_flooding_def)
  let ?lim = "pf_stop ATRINIK_PF_LIMIT_REACHED TERMINATION_LIMIT c"
  have lim: "pf_flooded ad opts start nb [Some t] c ?lim"
    by (rule pf_flooded_stop [OF fl]) (simp_all add: pf_stop_coded_def)
  let ?full = "pf_generated_full c \<or>
    max_frontier (options c) \<noteq> 0 \<and> length (nodes c) - expanded (metrics c) \<ge> max_frontier (options c)"
  consider (known) "trans_state t \<in> set (pf_states (nodes c))"
    | (full) "trans_state t \<notin> set (pf_states (nodes c))" ?full
    | (new) "trans_state t \<notin> set (pf_states (nodes c))" "\<not> ?full" by blast
  then show ?thesis
  proof cases
    case known
    then have "pf_node_index (nodes c) (trans_state t) \<noteq> None" by (simp add: pf_node_index_None)
    then have "pf_emit_reachable al t c = Some (True, c)"
      by (simp add: pf_emit_reachable_def pf_find_node_eq [OF wf])
    with known fl run show ?thesis by (intro exI [of _ c]) (simp add: pf_flooded_def)
  next
    case full
    then have "pf_node_index (nodes c) (trans_state t) = None" by (simp add: pf_node_index_None)
    then have "pf_emit_reachable al t c = pf_limit c"
      using full(2) by (auto simp: pf_emit_reachable_def pf_find_node_eq [OF wf])
    with lim show ?thesis by (intro exI [of _ ?lim]) (simp add: pf_limit_def)
  next
    case new
    then have none: "pf_node_index (nodes c) (trans_state t) = None" by (simp add: pf_node_index_None)
    let ?n = "\<lparr>node_state = trans_state t, node_cost = 0, node_heuristic = 0,
         node_priority = 0, node_data = trans_data t, node_parent = active_node c,
         node_heap_index = None, node_sequence = length (nodes c), node_closed = False\<rparr>"
    obtain r c1 where add: "pf_add_node al c ?n = Some (r, c1)" "pf_grown c c1" "pf_index_wf c1"
      "length (nodes c1) \<le> node_capacity c1"
      and r: "r = None \<and> nodes c1 = nodes c \<or> r = Some (length (nodes c)) \<and> nodes c1 = nodes c @ [?n]"
      using pf_add_node_total [OF wf _ cap, of ?n al] new(1) by auto
    note f = pf_frame_fields [OF pf_grown_frame [OF add(2)]]
    have met: "metrics c1 = metrics c" using add(2) by (auto simp: pf_grown_def)
    show ?thesis
    proof (cases r)
      case None
      with r have ns: "nodes c1 = nodes c" by simp
      have "pf_flooding ad opts start nb c1"
        using fl add ns f met by (auto simp: pf_flooding_def pf_flood_budget_def)
      then have "pf_flooded ad opts start nb [Some t] c (pf_stop ATRINIK_PF_OUT_OF_MEMORY TERMINATION_OUT_OF_MEMORY c1)"
        by (rule pf_flooded_stop) (simp_all add: ns met pf_stop_coded_def)
      moreover have "pf_emit_reachable al t c = pf_out_of_memory c1"
        using none new(2) add(1) None by (auto simp: pf_emit_reachable_def pf_find_node_eq [OF wf])
      ultimately show ?thesis
        by (intro exI [of _ "pf_stop ATRINIK_PF_OUT_OF_MEMORY TERMINATION_OUT_OF_MEMORY c1"])
          (simp add: pf_out_of_memory_def)
    next
      case (Some i)
      with r have ns: "nodes c1 = nodes c @ [?n]" by simp
      let ?g = "pf_count_generated c1"
      let ?fr = "length (nodes ?g) - expanded (metrics ?g)"
      let ?c' = "if ?fr > peak_frontier (metrics ?g)
        then ?g\<lparr>metrics := (metrics ?g)\<lparr>peak_frontier := ?fr\<rparr>\<rparr> else ?g"
      have emit: "pf_emit_reachable al t c = Some (True, ?c')"
        using none new(2) add(1) Some by (auto simp: pf_emit_reachable_def pf_find_node_eq [OF wf] Let_def)
      have "pf_flood_budget c" using fl by (simp add: pf_flooding_def)
      moreover have "pf_within (Suc (generated (metrics c))) (max_generated (options c))"
        using new(2) \<open>pf_flood_budget c\<close> by (auto simp: pf_flood_budget_def pf_metrics_within_def
          pf_within_def pf_generated_full_def)
      moreover have "pf_within ?fr (max_frontier (options c))"
        using new(2) by (auto simp: pf_within_def ns met pf_count_generated_def)
      ultimately have budget: "pf_flood_budget ?c'"
        using f by (auto simp: pf_flood_budget_def pf_metrics_within_def ns met pf_count_generated_def)
      have "pf_index_wf ?c'"
        by (rule pf_index_wf_frame [OF add(3)]) (auto simp: pf_count_generated_def)
      moreover have states: "pf_states (nodes ?c') = pf_states (nodes c) @ [trans_state t]"
        by (simp add: ns pf_states_def pf_count_generated_def)
      moreover have "pf_can_reach nb start (trans_state t)" by (rule pf_can_reach_step [OF t(2,1)])
      ultimately have "pf_flooding ad opts start nb ?c'"
        using fl add(4) f budget by (auto simp: pf_flooding_def pf_count_generated_def)
      moreover have "\<not> stopped ?c'" "expanded (metrics ?c') = expanded (metrics c)"
        using f run met by (auto simp: pf_count_generated_def)
      ultimately show ?thesis
        using states by (intro exI [of _ ?c']) (auto simp: emit pf_flooded_def)
    qed
  qed
qed

lemma pf_emit_transition_flooded:
  assumes fl: "pf_flooding ad opts start nb c" and run: "\<not> stopped c"
    and t: "t \<in> set (fst (nb s))" "pf_can_reach nb start s"
  shows "\<exists>c'. pf_emit_transition al t c = Some (\<not> stopped c', c') \<and>
    pf_flooded ad opts start nb [t] c c'"
proof (cases t)
  case None
  let ?c = "pf_stop ATRINIK_PF_ADAPTER_ERROR TERMINATION_ADAPTER_ERROR c"
  have "pf_flooded ad opts start nb [t] c ?c"
    by (rule pf_flooded_stop [OF fl]) (simp_all add: pf_stop_coded_def)
  with None run show ?thesis by (intro exI [of _ ?c]) (simp add: pf_emit_transition_def)
next
  case (Some u)
  have ad: "adapter c = Some ad" "reachability c" using fl by (simp_all add: pf_flooding_def)
  obtain b k where call: "pf_call_cancelled c = Some (b, c\<lparr>cancel_calls := k\<rparr>)"
    by (rule pf_call_cancelled_total [OF ad(1)])
  let ?c1 = "c\<lparr>cancel_calls := k\<rparr>"
  let ?lim = "max_transitions (options ?c1) \<noteq> 0 \<and>
    examined_transitions (metrics ?c1) \<ge> max_transitions (options ?c1)"
  have fl1: "pf_flooding ad opts start nb ?c1"
    by (rule pf_flooding_cong [OF fl]) (use fl in \<open>auto simp: pf_flooding_def pf_flood_budget_def\<close>)
  consider b | "\<not> b" ?lim | "\<not> b" "\<not> ?lim" by blast
  then show ?thesis
  proof cases
    case 1
    let ?c = "pf_stop ATRINIK_PF_CANCELLED TERMINATION_CANCELLED ?c1"
    have "pf_flooded ad opts start nb [t] c ?c"
      by (rule pf_flooded_stop [OF fl1]) (simp_all add: pf_stop_coded_def)
    with 1 Some run call show ?thesis by (intro exI [of _ ?c]) (simp add: pf_emit_transition_def)
  next
    case 2
    let ?c = "pf_stop ATRINIK_PF_LIMIT_REACHED TERMINATION_LIMIT ?c1"
    have "pf_flooded ad opts start nb [t] c ?c"
      by (rule pf_flooded_stop [OF fl1]) (simp_all add: pf_stop_coded_def)
    with 2 Some run call show ?thesis
      by (intro exI [of _ ?c]) (simp add: pf_emit_transition_def pf_limit_def)
  next
    case 3
    let ?c2 = "pf_count_transition ?c1"
    have "pf_within (Suc (examined_transitions (metrics c))) (max_transitions (options c))"
      using 3(2) by (auto simp: pf_within_def)
    then have "pf_flood_budget ?c2"
      using fl by (auto simp: pf_flooding_def pf_flood_budget_def pf_metrics_within_def pf_count_transition_def)
    then have fl2: "pf_flooding ad opts start nb ?c2"
      by (rule pf_flooding_cong [OF fl1, rotated -1]) (simp_all add: pf_count_transition_def)
    have run2: "\<not> stopped ?c2" "reachability ?c2" using run ad by (simp_all add: pf_count_transition_def)
    obtain c' where em: "pf_emit_reachable al u ?c2 = Some (\<not> stopped c', c')"
      and fd: "pf_flooded ad opts start nb [Some u] ?c2 c'"
      using pf_emit_reachable_flooded [OF fl2 run2(1), of u s al] t Some by blast
    have "pf_flooded ad opts start nb [Some u] c c'"
      using fd by (auto simp: pf_flooded_def pf_count_transition_def)
    with em 3 Some run run2 call show ?thesis
      by (intro exI [of _ c']) (auto simp: pf_emit_transition_def)
  qed
qed

lemma pf_flooded_trans:
  assumes "pf_flooded ad opts start nb ts c c'" "\<not> stopped c'" "pf_flooded ad opts start nb us c' c''"
  shows "pf_flooded ad opts start nb (ts @ us) c c''"
proof -
  obtain e e' where ext: "pf_states (nodes c') = pf_states (nodes c) @ e"
    "pf_states (nodes c'') = pf_states (nodes c') @ e'"
    using assms(1,3) by (auto simp: pf_flooded_def)
  have "\<forall>t\<in>set ts. \<exists>u. t = Some u \<and> trans_state u \<in> set (pf_states (nodes c''))"
    using assms(1,2) ext(2) by (auto simp: pf_flooded_def)
  with assms ext show ?thesis by (auto simp: pf_flooded_def)
qed

lemma pf_emit_all_flooded:
  assumes "pf_flooding ad opts start nb c" "\<not> stopped c" "set ts \<subseteq> set (fst (nb s))"
    "pf_can_reach nb start s"
  shows "\<exists>c'. pf_emit_all al ts c = Some c' \<and> pf_flooded ad opts start nb ts c c'"
  using assms
proof (induction ts arbitrary: c)
  case Nil
  then show ?case by (simp add: pf_flooded_def)
next
  case (Cons t ts)
  obtain c1 where emit: "pf_emit_transition al t c = Some (\<not> stopped c1, c1)"
    and fl1: "pf_flooded ad opts start nb [t] c c1"
    using pf_emit_transition_flooded [OF Cons.prems(1,2), of t s al] Cons.prems(3,4) by auto
  show ?case
  proof (cases "stopped c1")
    case True
    with emit fl1 pf_emit_all_stopped [OF True] show ?thesis
      by (intro exI [of _ c1]) (simp add: pf_flooded_def)
  next
    case False
    have "pf_flooding ad opts start nb c1" using fl1 by (simp add: pf_flooded_def)
    from Cons.IH [OF this False] Cons.prems(3,4)
    obtain c' where "pf_emit_all al ts c1 = Some c'" "pf_flooded ad opts start nb ts c1 c'" by auto
    with emit pf_flooded_trans [OF fl1 False] show ?thesis by (intro exI [of _ c']) simp
  qed
qed


section \<open>The flood loop\<close>

definition pf_flood_done :: "pf_neighbors \<Rightarrow> nat \<Rightarrow> u64 list \<Rightarrow> bool" where
  "pf_flood_done nb cursor ss \<longleftrightarrow> cursor \<le> length ss \<and>
     (\<forall>i<cursor. \<forall>t. Some t \<in> set (fst (nb (ss ! i))) \<longrightarrow> trans_state t \<in> set ss)"

lemma pf_flood_expand:
  assumes fl: "pf_flooding ad opts start nb c" and run: "\<not> stopped c"
    and cur: "cursor < length (nodes c)"
    and don: "pf_flood_done nb cursor (pf_states (nodes c))"
    and lim: "\<not> (max_expanded (options c) \<noteq> 0 \<and> expanded (metrics c) \<ge> max_expanded (options c))"
  shows "\<exists>c'. pf_expand al cursor c = Some c' \<and> pf_flooding ad opts start nb c' \<and>
    (if stopped c' then pf_stop_coded c'
     else pf_flood_done nb (cursor + 1) (pf_states (nodes c')))"
proof -
  let ?c1 = "pf_count_expanded c\<lparr>active_node := Some cursor\<rparr>"
  let ?s = "node_state (nodes c ! cursor)"
  have s: "?s = pf_states (nodes c) ! cursor" using cur by (rule pf_states_nth)
  have "pf_within (Suc (expanded (metrics c))) (max_expanded (options c))"
    using lim by (auto simp: pf_within_def)
  then have "pf_flood_budget ?c1"
    using fl by (auto simp: pf_flooding_def pf_flood_budget_def pf_metrics_within_def pf_count_expanded_def)
  then have fl1: "pf_flooding ad opts start nb ?c1"
    by (rule pf_flooding_cong [OF fl, rotated -1]) (simp_all add: pf_count_expanded_def)
  have reach: "pf_can_reach nb start ?s" using fl cur s by (simp add: pf_flooding_def)
  have "\<not> stopped ?c1" using run by (simp add: pf_count_expanded_def)
  from pf_emit_all_flooded [OF fl1 this subset_refl reach, of al]
  obtain c2 where all: "pf_emit_all al (fst (nb ?s)) ?c1 = Some c2"
    and fd: "pf_flooded ad opts start nb (fst (nb ?s)) ?c1 c2" by blast
  let ?c3 = "c2\<lparr>active_node := None\<rparr>"
  let ?c4 = "if \<not> snd (nb ?s) \<and> \<not> stopped ?c3
    then pf_stop ATRINIK_PF_ADAPTER_ERROR TERMINATION_ADAPTER_ERROR ?c3 else ?c3"
  have "adapter c = Some ad" "neighbors ad = Some nb" using fl by (simp_all add: pf_flooding_def)
  then have "pf_enumerate al ?s ?c1 = Some (snd (nb ?s), c2)"
    using all by (simp add: pf_enumerate_def pf_count_expanded_def)
  then have exp: "pf_expand al cursor c = Some ?c4" by (simp add: pf_expand_def pf_count_expanded_def)
  have fl2: "pf_flooding ad opts start nb c2" using fd by (simp add: pf_flooded_def)
  have fl4: "pf_flooding ad opts start nb ?c4"
    by (rule pf_flooding_cong [OF fl2])
      (use fl2 in \<open>auto simp: pf_stop_def pf_flooding_def pf_flood_budget_def\<close>)
  show ?thesis
  proof (cases "stopped ?c4")
    case True
    then have "pf_stop_coded ?c4" using fd by (auto simp: pf_flooded_def pf_stop_coded_def split: if_splits)
    with exp fl4 True show ?thesis by (intro exI [of _ ?c4]) simp
  next
    case False
    then have c4: "?c4 = ?c3" "\<not> stopped c2" by (auto split: if_splits)
    obtain e where e: "pf_states (nodes c2) = pf_states (nodes c) @ e"
      using fd by (auto simp: pf_flooded_def pf_count_expanded_def)
    have "pf_flood_done nb (cursor + 1) (pf_states (nodes c2))"
      unfolding pf_flood_done_def
    proof (intro conjI allI impI)
      show "cursor + 1 \<le> length (pf_states (nodes c2))" using cur e by simp
      fix i t assume i: "i < cursor + 1" and t: "Some t \<in> set (fst (nb (pf_states (nodes c2) ! i)))"
      have at: "pf_states (nodes c2) ! i = pf_states (nodes c) ! i" using e i cur by (simp add: nth_append)
      show "trans_state t \<in> set (pf_states (nodes c2))"
      proof (cases "i = cursor")
        case True
        then show ?thesis using t at s fd c4 by (auto simp: pf_flooded_def)
      next
        case False
        with i have "i < cursor" by simp
        then show ?thesis using t at e don by (auto simp: pf_flood_done_def)
      qed
    qed
    with exp fl4 False c4 show ?thesis by (intro exI [of _ ?c4]) simp
  qed
qed

definition pf_flood_inv :: "pf_adapter \<Rightarrow> pf_options \<Rightarrow> u64 \<Rightarrow> pf_neighbors \<Rightarrow> nat \<times> pf_context \<Rightarrow> bool" where
  "pf_flood_inv ad opts start nb = (\<lambda>(cursor, c). pf_flooding ad opts start nb c \<and> \<not> stopped c \<and>
     pf_flood_done nb cursor (pf_states (nodes c)))"

definition pf_flood_end :: "pf_adapter \<Rightarrow> pf_options \<Rightarrow> u64 \<Rightarrow> pf_neighbors \<Rightarrow> pf_context \<Rightarrow> bool" where
  "pf_flood_end ad opts start nb c \<longleftrightarrow> pf_flooding ad opts start nb c \<and>
     (if stopped c then pf_stop_coded c
      else pf_flood_done nb (length (nodes c)) (pf_states (nodes c)))"

lemma pf_flooding_stop:
  assumes "pf_flooding ad opts start nb c"
  shows "pf_flooding ad opts start nb (pf_stop s t c)"
  by (rule pf_flooding_cong [OF assms])
    (use assms in \<open>auto simp: pf_stop_def pf_flooding_def pf_flood_budget_def\<close>)

lemma pf_reachable_loop_total:
  assumes "pf_flood_inv ad opts start nb (0, c)"
  shows "\<exists>c'. c_loop (pf_reachable_step al) (0, c) = Some c' \<and> pf_flood_end ad opts start nb c'"
proof (rule c_loop_total [where R = "measure (\<lambda>(cursor, c). 2 ^ 64 - cursor)" and
    I = "pf_flood_inv ad opts start nb", OF _ assms])
  fix sc assume inv: "pf_flood_inv ad opts start nb sc"
  obtain cursor c where sc: "sc = (cursor, c)" by (cases sc)
  have fl: "pf_flooding ad opts start nb c" and run: "\<not> stopped c"
    and don: "pf_flood_done nb cursor (pf_states (nodes c))"
    using inv sc by (simp_all add: pf_flood_inv_def)
  let ?Q = "\<lambda>x. case x of Inl s' \<Rightarrow> pf_flood_inv ad opts start nb s' \<and>
      (s', sc) \<in> measure (\<lambda>(cursor, c). 2 ^ 64 - cursor) | Inr c' \<Rightarrow> pf_flood_end ad opts start nb c'"
  show "\<exists>x. pf_reachable_step al sc = Some x \<and> ?Q x"
  proof (cases "cursor < length (nodes c)")
    case False
    then have "cursor = length (nodes c)" using don by (simp add: pf_flood_done_def)
    with fl run don sc show ?thesis by (simp add: pf_reachable_step_def pf_flood_end_def)
  next
    case cur: True
    have "adapter c = Some ad" using fl by (simp add: pf_flooding_def)
    then obtain b k where call: "pf_call_cancelled c = Some (b, c\<lparr>cancel_calls := k\<rparr>)"
      by (rule pf_call_cancelled_total)
    let ?c1 = "c\<lparr>cancel_calls := k\<rparr>"
    have fl1: "pf_flooding ad opts start nb ?c1"
      by (rule pf_flooding_cong [OF fl]) (use fl in \<open>auto simp: pf_flooding_def pf_flood_budget_def\<close>)
    let ?lim = "max_expanded (options ?c1) \<noteq> 0 \<and> expanded (metrics ?c1) \<ge> max_expanded (options ?c1)"
    consider b | "\<not> b" ?lim | "\<not> b" "\<not> ?lim" by blast
    then show ?thesis
    proof cases
      case 1
      have "pf_flood_end ad opts start nb (pf_stop ATRINIK_PF_CANCELLED TERMINATION_CANCELLED ?c1)"
        using pf_flooding_stop [OF fl1] by (simp add: pf_flood_end_def pf_stop_coded_def)
      with 1 call cur sc show ?thesis by (simp add: pf_reachable_step_def)
    next
      case 2
      have "pf_flood_end ad opts start nb (pf_stop ATRINIK_PF_LIMIT_REACHED TERMINATION_LIMIT ?c1)"
        using pf_flooding_stop [OF fl1] by (simp add: pf_flood_end_def pf_stop_coded_def)
      with 2 call cur sc show ?thesis by (simp add: pf_reachable_step_def)
    next
      case 3
      have "\<exists>c'. pf_expand al cursor ?c1 = Some c' \<and> pf_flooding ad opts start nb c' \<and>
        (if stopped c' then pf_stop_coded c' else pf_flood_done nb (cursor + 1) (pf_states (nodes c')))"
        by (rule pf_flood_expand [OF fl1]) (use run cur don 3 in simp_all)
      then obtain c' where c': "pf_expand al cursor ?c1 = Some c'" "pf_flooding ad opts start nb c'"
        "if stopped c' then pf_stop_coded c' else pf_flood_done nb (cursor + 1) (pf_states (nodes c'))"
        by blast
      have "distinct (pf_states (nodes c))" using fl by (simp add: pf_flooding_def pf_index_wf_def)
      then have "cursor < 2 ^ 64" using distinct_states_bound cur by fastforce
      moreover have "pf_reachable_step al sc =
          Some (if stopped c' then Inr c' else Inl (cursor + 1, c'))"
        using 3 call cur sc c'(1) by (auto simp: pf_reachable_step_def)
      ultimately show ?thesis
        using c'(2,3) sc by (cases "stopped c'") (auto simp: pf_flood_end_def pf_flood_inv_def)
    qed
  qed
qed simp

text \<open>A state list closed under transitions from the start contains everything reachable.\<close>

lemma pf_flood_done_complete:
  assumes don: "pf_flood_done nb (length ss) ss" and s: "s \<in> set ss" and route: "pf_route nb s ts"
  shows "pf_route_end s ts \<in> set ss"
  using s route
proof (induction ts arbitrary: s)
  case (Cons t ts)
  obtain i where "i < length ss" "ss ! i = s" using Cons.prems(1) by (auto simp: in_set_conv_nth)
  with don Cons.prems(2) have "trans_state t \<in> set ss" by (auto simp: pf_flood_done_def)
  with Cons show ?case by simp
qed simp


section \<open>A whole flood fill\<close>

definition pf_reach_ok :: "pf_options \<Rightarrow> u64 \<Rightarrow> pf_neighbors \<Rightarrow> pf_reachability_result \<Rightarrow> bool" where
  "pf_reach_ok opts start nb r \<longleftrightarrow> pf_metrics_within opts (reach_metrics r) \<and>
     distinct (reach_states r) \<and> (\<forall>s\<in>set (reach_states r). pf_can_reach nb start s) \<and>
     (case reach_status r of
        ATRINIK_PF_COMPLETE \<Rightarrow> reach_termination r = TERMINATION_EXHAUSTED \<and>
          set (reach_states r) = {s. pf_can_reach nb start s}
      | ATRINIK_PF_LIMIT_REACHED \<Rightarrow> reach_termination r = TERMINATION_LIMIT
      | ATRINIK_PF_CANCELLED \<Rightarrow> reach_termination r = TERMINATION_CANCELLED
      | ATRINIK_PF_ADAPTER_ERROR \<Rightarrow> reach_termination r = TERMINATION_ADAPTER_ERROR
      | ATRINIK_PF_OUT_OF_MEMORY \<Rightarrow> reach_termination r = TERMINATION_OUT_OF_MEMORY
      | ATRINIK_PF_COST_OVERFLOW \<Rightarrow> reach_termination r = TERMINATION_COST_OVERFLOW
      | _ \<Rightarrow> False)"

lemma pf_reserve_reachable_total:
  obtains ok cap calls where
    "pf_reserve_reachable al c = Some (ok, c\<lparr>reachable_capacity := cap, alloc_calls := calls\<rparr>)"
proof (cases "length (nodes c) \<le> reachable_capacity c")
  case True
  then show ?thesis
    by (intro that [where ok = True and cap = "reachable_capacity c" and calls = "alloc_calls c"])
      (simp add: pf_reserve_reachable_def)
next
  case False
  obtain ok cap calls where "pf_grow_array al sizeof_state_id (reachable_capacity c) (length (nodes c))
      (alloc_calls c) = Some (ok, cap, calls)"
    using pf_grow_array_total by blast
  with False show ?thesis
    by (intro that [where ok = ok and cap = cap and calls = calls]) (simp add: pf_reserve_reachable_def)
qed

lemma pf_reachable_finish_total:
  assumes fin: "pf_flood_end ad opts start nb c"
  shows "\<exists>r c'. pf_reachable_finish al c = Some (r, c') \<and> pf_reusable c' \<and> pf_reach_ok opts start nb r"
proof -
  have fl: "pf_flooding ad opts start nb c" using fin by (simp add: pf_flood_end_def)
  have re: "pf_reusable c" using fl by (simp add: pf_flooding_def pf_index_wf_reusable)
  have met: "pf_metrics_within opts (metrics c)" using fl by (auto simp: pf_flooding_def pf_flood_budget_def)
  obtain ok cap calls where res: "pf_reserve_reachable al c =
      Some (ok, c\<lparr>reachable_capacity := cap, alloc_calls := calls\<rparr>)"
    by (rule pf_reserve_reachable_total)
  let ?c1 = "c\<lparr>reachable_capacity := cap, alloc_calls := calls\<rparr>"
  show ?thesis
  proof (cases ok)
    case False
    let ?c = "pf_stop ATRINIK_PF_OUT_OF_MEMORY TERMINATION_OUT_OF_MEMORY ?c1"
    have "pf_reachable_finish al c = Some (pf_reachable_result ?c [], ?c)"
      using False res by (simp add: pf_reachable_finish_def Let_def)
    moreover have "pf_reusable ?c" using re by (simp add: pf_reusable_def pf_stop_def)
    ultimately show ?thesis using met by (simp add: pf_reach_ok_def pf_reachable_result_def)
  next
    case True
    let ?c = "?c1\<lparr>reachable := map node_state (nodes c)\<rparr>"
    let ?ss = "pf_states (nodes c)"
    have run: "pf_reachable_finish al c = Some (pf_reachable_result ?c ?ss, ?c)"
      using True res by (simp add: pf_reachable_finish_def pf_states_def Let_def)
    have ss: "distinct ?ss" "start \<in> set ?ss" "\<forall>s\<in>set ?ss. pf_can_reach nb start s"
      using fl by (simp_all add: pf_flooding_def pf_index_wf_def)
    have "pf_reach_ok opts start nb (pf_reachable_result ?c ?ss)"
    proof (cases "stopped c")
      case True
      then have "pf_stop_coded c" using fin by (simp add: pf_flood_end_def)
      then show ?thesis using True ss met
        unfolding pf_stop_coded_def pf_reach_ok_def pf_reachable_result_def by (elim insertE) simp_all
    next
      case False
      then have "pf_flood_done nb (length ?ss) ?ss" using fin by (simp add: pf_flood_end_def)
      from pf_flood_done_complete [OF this ss(2)] ss(3)
      have "set ?ss = {s. pf_can_reach nb start s}" by (auto simp: pf_can_reach_def)
      then show ?thesis using False ss(1) met by (simp add: pf_reach_ok_def pf_reachable_result_def)
    qed
    moreover have "pf_reusable ?c" using re by (simp add: pf_reusable_def)
    ultimately show ?thesis using run by blast
  qed
qed

lemma pf_reach_total:
  assumes nb: "neighbors ad = Some nb" and re: "pf_reusable c"
  shows "\<exists>r c'. atrinik_pf_reachable al (Some c) (Some ad) start opts = Some (r, Some c') \<and> pf_reusable c' \<and>
    pf_reach_ok (pf_opts opts) start nb r"
proof -
  let ?o = "pf_opts opts"
  let ?c0 = "(pf_reset (Some ad) ?o c)\<lparr>reachability := True\<rparr>"
  let ?n = "(pf_start_node ATRINIK_PF_DIJKSTRA start 0)\<lparr>node_priority := 0\<rparr>"
  have arr: "pf_arrays ?c0" by (rule pf_arrays_cong [OF pf_reset_arrays [OF re, of "Some ad" ?o]]) simp_all
  obtain r c1 where add: "pf_add_node al ?c0 ?n = Some (r, c1)" "pf_frame ?c0 c1" "pf_arrays c1"
    "heap c1 = heap ?c0" "metrics c1 = metrics ?c0"
    and r: "r = None \<and> nodes c1 = nodes ?c0 \<or> r = Some (length (nodes ?c0)) \<and> nodes c1 = nodes ?c0 @ [?n]"
  proof (rule pf_add_node_arrays [OF arr, of ?n al])
    show "node_state ?n \<notin> set (pf_states (nodes ?c0))" by (simp add: pf_reset_def pf_states_def)
    show "node_heap_index ?n = None" by (simp add: pf_start_node_def)
  qed
  note f = pf_frame_fields [OF add(2)]
  let ?c2 = "c1\<lparr>metrics := (metrics c1)\<lparr>generated := 1, peak_frontier := 1\<rparr>\<rparr>"
  have run: "atrinik_pf_reachable al (Some c) (Some ad) start opts =
    (if r = None then Some (pf_reach_failed ATRINIK_PF_OUT_OF_MEMORY TERMINATION_OUT_OF_MEMORY, Some c1)
     else do {
       c \<leftarrow> c_loop (pf_reachable_step al) (0, ?c2);
       (result, c) \<leftarrow> pf_reachable_finish al c;
       Some (result, Some c) })"
    using nb add(1) unfolding pf_opts_def by (simp add: atrinik_pf_reachable_def Let_def)
  show ?thesis
  proof (cases r)
    case None
    have "pf_reusable c1" using add(3) by (simp add: pf_arrays_def pf_index_wf_reusable)
    with None run show ?thesis
      by (simp add: pf_reach_ok_def pf_reach_failed_def pf_metrics_within_def pf_within_def pf_zero_metrics_def)
  next
    case (Some i)
    with r have ns: "nodes c1 = [?n]" by (simp add: pf_reset_def)
    have "pf_index_wf ?c2"
      by (rule pf_index_wf_frame [of c1]) (use add(3) in \<open>simp_all add: pf_arrays_def\<close>)
    moreover have "pf_states (nodes ?c2) = [start]" by (simp add: ns pf_states_def pf_start_node_def)
    moreover have "pf_flood_budget ?c2"
      using add(5) ns by (auto simp: pf_flood_budget_def pf_metrics_within_def pf_within_def pf_reset_def
        pf_zero_metrics_def)
    ultimately have "pf_flood_inv ad ?o start nb (0, ?c2)"
      using f add(3) nb by (auto simp: pf_flood_inv_def pf_flooding_def pf_reset_def pf_arrays_def
        pf_can_reach_refl pf_flood_done_def)
    from pf_reachable_loop_total [OF this, of al]
    obtain c3 where "c_loop (pf_reachable_step al) (0, ?c2) = Some c3" "pf_flood_end ad ?o start nb c3" by blast
    with pf_reachable_finish_total [of ad ?o start nb c3 al] run Some show ?thesis by auto
  qed
qed


section \<open>Sessions\<close>

text \<open>
  A context may be used for any sequence of operations. The contexts that occur in this way
  are the reachable states of the pathfinding library.
\<close>

inductive pf_session :: "pf_context \<Rightarrow> bool" where
  created: "atrinik_pf_context_create True = Some c \<Longrightarrow> pf_session c"
| searched: "pf_session c \<Longrightarrow>
    atrinik_pf_search al (Some c) ad start opts = Some (r, Some c') \<Longrightarrow> pf_session c'"
| flooded: "pf_session c \<Longrightarrow>
    atrinik_pf_reachable al (Some c) ad start opts = Some (r', Some c') \<Longrightarrow> pf_session c'"

lemma pf_reset_reusable: "pf_reusable c \<Longrightarrow> pf_reusable (pf_reset ad opts c)"
  by (simp add: pf_reusable_def pf_reset_def)

lemma pf_search_invalid:
  assumes "pf_invalid_search ad (pf_opts opts)"
  shows "atrinik_pf_search al (Some c) ad start opts =
    Some (pf_empty_result ATRINIK_PF_INVALID_INPUT TERMINATION_INVALID_INPUT,
      Some (pf_reset ad (pf_opts opts) c))"
  using assms unfolding pf_opts_def by (simp add: atrinik_pf_search_def Let_def)

lemma pf_search_reusable:
  assumes "pf_reusable c" "atrinik_pf_search al (Some c) ad start opts = Some (r, Some c')"
  shows "pf_reusable c'"
proof (cases "pf_invalid_search ad (pf_opts opts)")
  case True
  with assms pf_search_invalid [OF True] pf_reset_reusable show ?thesis by auto
next
  case False
  then obtain a where a: "ad = Some a" by (auto simp: pf_invalid_search_def split: option.splits)
  with False have ready: "pf_ready a (pf_opts opts)" by (simp add: pf_ready_def)
  obtain nb g where "neighbors a = Some nb" "goal a = Some g"
    using pf_ready_calls [OF ready] by blast
  from pf_search_total [OF ready this assms(1), of al start] assms(2) a show ?thesis by auto
qed

lemma pf_reach_reusable:
  assumes "pf_reusable c" "atrinik_pf_reachable al (Some c) ad start opts = Some (r, Some c')"
  shows "pf_reusable c'"
proof (cases "\<exists>a nb. ad = Some a \<and> neighbors a = Some nb")
  case True
  then obtain a nb where a: "ad = Some a" and nb: "neighbors a = Some nb" by blast
  from pf_reach_total [OF nb assms(1), of al start opts] assms(2) a show ?thesis by auto
next
  case False
  then have "c' = (pf_reset ad (pf_opts opts) c)\<lparr>reachability := True\<rparr>"
    using assms(2) unfolding pf_opts_def
    by (cases ad) (auto simp: atrinik_pf_reachable_def Let_def split: if_splits)
  with pf_reset_reusable [OF assms(1), of ad "pf_opts opts"] show ?thesis by (simp add: pf_reusable_def)
qed

lemma pf_session_reusable: "pf_session c \<Longrightarrow> pf_reusable c"
proof (induction rule: pf_session.induct)
  case (created c)
  then show ?case by (auto simp: atrinik_pf_context_create_def pf_reusable_def)
qed (blast intro: pf_search_reusable pf_reach_reusable)+

end
