(* ===== verification/Pathfinding.thy ===== *)
theory Pathfinding
  imports Pf_Reach "HOL-Library.Code_Target_Nat"
begin

text \<open>
  The theorems about the pathfinding library, over contexts of any session, and the small
  graph on which their hypotheses are exercised.
\<close>

section \<open>A small graph\<close>

text \<open>Two routes lead from state 1 to state 2: a direct one and a cheaper one through 3.\<close>

definition demo_transition :: "u64 \<Rightarrow> u64 \<Rightarrow> u64 \<Rightarrow> pf_transition option" where
  "demo_transition s k d = Some \<lparr>trans_state = s, trans_cost = k, trans_data = d\<rparr>"

definition demo_neighbors :: pf_neighbors where
  "demo_neighbors s =
     (if s = 1 then ([demo_transition 2 5 7, demo_transition 3 1 8], True)
      else if s = 3 then ([demo_transition 2 2 9], True) else ([], True))"

definition demo_adapter :: "u64 \<Rightarrow> pf_adapter" where
  "demo_adapter target = \<lparr>neighbors = Some demo_neighbors, goal = Some (\<lambda>s. s = target),
     heuristic_fn = None, partial_rank_fn = Some (\<lambda>s. s), cancelled = None\<rparr>"

definition demo_options :: pf_options where
  "demo_options = atrinik_pf_options_init\<lparr>algorithm := ATRINIK_PF_DIJKSTRA\<rparr>"

definition demo_context :: pf_context where
  "demo_context = the (atrinik_pf_context_create True)"

definition demo_metrics :: pf_metrics where
  "demo_metrics = \<lparr>expanded = 2, generated = 3, examined_transitions = 3, peak_frontier = 2, total_cost = 3\<rparr>"

definition demo_steps :: "pf_step list" where
  "demo_steps = [\<lparr>step_state = 1, step_data = 0\<rparr>, \<lparr>step_state = 3, step_data = 8\<rparr>,
     \<lparr>step_state = 2, step_data = 9\<rparr>]"

lemma demo_session: "pf_session demo_context"
  by (rule pf_session.created) (simp add: demo_context_def atrinik_pf_context_create_def)

text \<open>The runs of the search and of the flood fill on this graph, evaluated.\<close>

definition demo_run :: "u64 \<Rightarrow> pf_options \<Rightarrow> u64 \<Rightarrow> (pf_result \<times> pf_context option) option" where
  "demo_run target opts start =
     atrinik_pf_search (\<lambda>_ _. True) (Some demo_context) (Some (demo_adapter target)) start (Some opts)"

lemma demo_found:
  "map_option fst (demo_run 2 demo_options 1) =
   Some \<lparr>res_status = ATRINIK_PF_FOUND, res_termination = TERMINATION_GOAL, res_steps = demo_steps,
     res_metrics = demo_metrics\<rparr>"
  by code_simp

lemma demo_no_path:
  "map_option fst (demo_run 9 demo_options 3) =
   Some \<lparr>res_status = ATRINIK_PF_NO_PATH, res_termination = TERMINATION_EXHAUSTED, res_steps = [],
     res_metrics = \<lparr>expanded = 2, generated = 2, examined_transitions = 1, peak_frontier = 1, total_cost = 0\<rparr>\<rparr>"
  by code_simp

lemma demo_partial:
  "map_option fst (demo_run 9 (demo_options\<lparr>return_partial := True, max_expanded := 1\<rparr>) 3) =
   Some \<lparr>res_status = ATRINIK_PF_PARTIAL, res_termination = TERMINATION_LIMIT,
     res_steps = [\<lparr>step_state = 3, step_data = 0\<rparr>, \<lparr>step_state = 2, step_data = 9\<rparr>],
     res_metrics = \<lparr>expanded = 1, generated = 2, examined_transitions = 1, peak_frontier = 1, total_cost = 2\<rparr>\<rparr>"
  by code_simp

lemma demo_flood:
  "map_option fst (atrinik_pf_reachable (\<lambda>_ _. True) (Some demo_context) (Some (demo_adapter 2)) 3 None) =
   Some \<lparr>reach_status = ATRINIK_PF_COMPLETE, reach_termination = TERMINATION_EXHAUSTED,
     reach_states = [3, 2],
     reach_metrics = \<lparr>expanded = 2, generated = 2, examined_transitions = 1, peak_frontier = 1, total_cost = 0\<rparr>\<rparr>"
  by code_simp


section \<open>Shared steps\<close>

lemma pf_search_result_ok:
  assumes sess: "pf_session c" and run: "atrinik_pf_search al (Some c) (Some ad) start opts = Some (r, c')"
    and ad: "neighbors ad = Some nb" "goal ad = Some is_goal"
    and valid: "res_status r \<noteq> ATRINIK_PF_INVALID_INPUT"
  shows "pf_search_ok ad (pf_opts opts) start is_goal nb r"
proof -
  have "pf_ready ad (pf_opts opts)"
    using run valid pf_search_invalid [of "Some ad" opts al c start]
    by (auto simp: pf_ready_def pf_empty_result_def)
  from pf_search_total [OF this ad pf_session_reusable [OF sess], of al start] run show ?thesis by auto
qed

lemma pf_reach_result_ok:
  assumes "pf_session c" "atrinik_pf_reachable al (Some c) (Some ad) start opts = Some (r, c')"
    "neighbors ad = Some nb"
  shows "pf_reach_ok (pf_opts opts) start nb r"
  using pf_reach_total [OF assms(3) pf_session_reusable [OF assms(1)], of al start opts] assms(2) by auto

lemma map_option_fstD: "map_option fst x = Some r \<Longrightarrow> \<exists>c. x = Some (r, c)"
  by auto


section \<open>Termination\<close>

text \<open>
  C2. On a context of any session, for every adapter (missing callbacks included), every
  graph the adapter enumerates, every budget and every pattern of failing allocations,
  \<open>atrinik_pf_search\<close> returns a result and a context. Costs may be zero and heuristics
  inconsistent; nodes may be reopened arbitrarily often.
\<close>

theorem search_terminates:
  assumes "pf_session c"
  shows "\<exists>r c'. atrinik_pf_search al (Some c) ad start opts = Some (r, Some c') \<and> pf_session c'"
proof -
  have "\<exists>r c'. atrinik_pf_search al (Some c) ad start opts = Some (r, Some c')"
  proof (cases "pf_invalid_search ad (pf_opts opts)")
    case True
    then show ?thesis by (simp add: pf_search_invalid)
  next
    case False
    then obtain a where a: "ad = Some a" by (auto simp: pf_invalid_search_def split: option.splits)
    with False have ready: "pf_ready a (pf_opts opts)" by (simp add: pf_ready_def)
    obtain nb g where "neighbors a = Some nb" "goal a = Some g"
      using pf_ready_calls [OF ready] by blast
    from pf_search_total [OF ready this pf_session_reusable [OF assms], of al start] a show ?thesis by blast
  qed
  then show ?thesis using pf_session.searched [OF assms] by blast
qed

theorem search_terminates_witness:
  "\<exists>r c'. atrinik_pf_search (\<lambda>_ _. False) (Some demo_context) None 7 None = Some (r, Some c') \<and> pf_session c'"
  by (rule search_terminates [OF demo_session])

text \<open>
  The flood fill \<open>atrinik_pf_reachable\<close> likewise returns for every adapter, budget and
  allocator.
\<close>

theorem reachable_terminates:
  assumes "pf_session c"
  shows "\<exists>r c'. atrinik_pf_reachable al (Some c) ad start opts = Some (r, Some c') \<and> pf_session c'"
proof -
  have "\<exists>r c'. atrinik_pf_reachable al (Some c) ad start opts = Some (r, Some c')"
  proof (cases "\<exists>a nb. ad = Some a \<and> neighbors a = Some nb")
    case True
    then show ?thesis using pf_reach_total [OF _ pf_session_reusable [OF assms]] by blast
  next
    case False
    then show ?thesis by (cases ad) (auto simp: atrinik_pf_reachable_def Let_def)
  qed
  then show ?thesis using pf_session.flooded [OF assms] by blast
qed

theorem reachable_terminates_witness:
  "\<exists>r c'. atrinik_pf_reachable (\<lambda>n _. n < 2) (Some demo_context) (Some (demo_adapter 2)) 1 None =
     Some (r, Some c') \<and> pf_session c'"
  by (rule reachable_terminates [OF demo_session])


section \<open>Found paths\<close>

text \<open>
  C3. When the search reports \<open>ATRINIK_PF_FOUND\<close>, whatever the algorithm, the steps are those
  of a route of the adapter's graph from the start to a state the goal predicate accepts:
  each step is a transition the adapter emitted for the state before it, with its data, the
  first step carries data 0, and the route costs at most the reported total.
\<close>

theorem search_found_route:
  assumes "pf_session c" "atrinik_pf_search al (Some c) (Some ad) start opts = Some (r, c')"
    "neighbors ad = Some nb" "goal ad = Some is_goal" "res_status r = ATRINIK_PF_FOUND"
  shows "\<exists>ts. res_steps r = pf_route_steps start ts \<and> pf_route nb start ts \<and>
    is_goal (pf_route_end start ts) \<and>
    pf_route_cost (algorithm (pf_opts opts)) ts \<le> unat (total_cost (res_metrics r))"
  using pf_search_result_ok [OF assms(1-4)] assms(5) by (auto simp: pf_search_ok_def pf_reports_def)

theorem search_found_route_witness:
  "\<exists>r c' ts. demo_run 2 demo_options 1 = Some (r, c') \<and> res_steps r = demo_steps \<and>
     demo_steps = pf_route_steps 1 ts \<and> pf_route demo_neighbors 1 ts \<and> pf_route_end 1 ts = 2"
proof -
  obtain c' where run: "demo_run 2 demo_options 1 = Some (\<lparr>res_status = ATRINIK_PF_FOUND,
      res_termination = TERMINATION_GOAL, res_steps = demo_steps, res_metrics = demo_metrics\<rparr>, c')"
    using map_option_fstD [OF demo_found] by blast
  from search_found_route [OF demo_session this [unfolded demo_run_def], of demo_neighbors "\<lambda>s. s = 2"] run
  show ?thesis by (auto simp: demo_adapter_def)
qed

text \<open>
  C1. With a strategy that promises it (Dijkstra, breadth-first, or A* with an admissible
  heuristic), a found path is a cheapest one: its cost is exactly the reported total, and no
  route from the start to a goal state is cheaper. Saturated priorities do not break this.
\<close>

theorem search_found_optimal:
  assumes "pf_session c" "atrinik_pf_search al (Some c) (Some ad) start opts = Some (r, c')"
    "neighbors ad = Some nb" "goal ad = Some is_goal" "res_status r = ATRINIK_PF_FOUND"
    "pf_admissible ad (algorithm (pf_opts opts))"
  shows "\<exists>ts. res_steps r = pf_route_steps start ts \<and> pf_route nb start ts \<and>
    is_goal (pf_route_end start ts) \<and>
    pf_route_cost (algorithm (pf_opts opts)) ts = unat (total_cost (res_metrics r)) \<and>
    (\<forall>us. pf_route nb start us \<and> is_goal (pf_route_end start us) \<longrightarrow>
       pf_route_cost (algorithm (pf_opts opts)) ts \<le> pf_route_cost (algorithm (pf_opts opts)) us)"
proof -
  have "pf_search_ok ad (pf_opts opts) start is_goal nb r"
    using pf_search_result_ok [OF assms(1-4)] assms(5) by simp
  then obtain ts where "res_steps r = pf_route_steps start ts" "pf_route nb start ts"
    "is_goal (pf_route_end start ts)"
    "pf_route_cost (algorithm (pf_opts opts)) ts \<le> unat (total_cost (res_metrics r))"
    and "pf_cheapest nb is_goal (algorithm (pf_opts opts)) start (unat (total_cost (res_metrics r)))"
    using assms(5,6) by (auto simp: pf_search_ok_def pf_reports_def)
  then show ?thesis unfolding pf_cheapest_def by (intro exI [of _ ts]) (auto intro: le_trans)
qed

theorem search_found_optimal_witness:
  "\<exists>r c'. demo_run 2 demo_options 1 = Some (r, c') \<and> total_cost (res_metrics r) = 3 \<and>
     \<not> (\<exists>us. pf_route demo_neighbors 1 us \<and> pf_route_end 1 us = 2 \<and>
        pf_route_cost ATRINIK_PF_DIJKSTRA us < 3)"
proof -
  obtain c' where run: "demo_run 2 demo_options 1 = Some (\<lparr>res_status = ATRINIK_PF_FOUND,
      res_termination = TERMINATION_GOAL, res_steps = demo_steps, res_metrics = demo_metrics\<rparr>, c')"
    using map_option_fstD [OF demo_found] by blast
  have "algorithm (pf_opts (Some demo_options)) = ATRINIK_PF_DIJKSTRA"
    by (simp add: pf_opts_def demo_options_def)
  with search_found_optimal [OF demo_session run [unfolded demo_run_def], of demo_neighbors "\<lambda>s. s = 2"] run
  show ?thesis by (auto simp: demo_adapter_def pf_admissible_def demo_metrics_def)
qed

text \<open>
  C4. \<open>ATRINIK_PF_NO_PATH\<close> is reported only when no route from the start ends in a goal state,
  whatever the algorithm and heuristic, and then with no steps.
\<close>

theorem search_no_path:
  assumes "pf_session c" "atrinik_pf_search al (Some c) (Some ad) start opts = Some (r, c')"
    "neighbors ad = Some nb" "goal ad = Some is_goal" "res_status r = ATRINIK_PF_NO_PATH"
  shows "res_steps r = [] \<and> (\<forall>ts. pf_route nb start ts \<longrightarrow> \<not> is_goal (pf_route_end start ts))"
  using pf_search_result_ok [OF assms(1-4)] assms(5) by (auto simp: pf_search_ok_def pf_unreachable_def)

theorem search_no_path_witness:
  "\<not> (\<exists>ts. pf_route demo_neighbors 3 ts \<and> pf_route_end 3 ts = 9)"
proof -
  obtain c' where run: "demo_run 9 demo_options 3 = Some (\<lparr>res_status = ATRINIK_PF_NO_PATH,
      res_termination = TERMINATION_EXHAUSTED, res_steps = [], res_metrics =
        \<lparr>expanded = 2, generated = 2, examined_transitions = 1, peak_frontier = 1, total_cost = 0\<rparr>\<rparr>, c')"
    using map_option_fstD [OF demo_no_path] by blast
  from search_no_path [OF demo_session this [unfolded demo_run_def], of demo_neighbors "\<lambda>s. s = 9"]
  show ?thesis by (simp add: demo_adapter_def)
qed

text \<open>
  A partial result appears only when the options ask for one and the search was stopped
  by a budget, by cancellation or by exhaustion; its steps are a route from the start. If
  the search was exhausted, no goal state is reachable.
\<close>

theorem search_partial_route:
  assumes "pf_session c" "atrinik_pf_search al (Some c) (Some ad) start opts = Some (r, c')"
    "neighbors ad = Some nb" "goal ad = Some is_goal" "res_status r = ATRINIK_PF_PARTIAL"
  shows "return_partial (pf_opts opts) \<and>
    res_termination r \<in> {TERMINATION_EXHAUSTED, TERMINATION_LIMIT, TERMINATION_CANCELLED} \<and>
    (res_termination r = TERMINATION_EXHAUSTED \<longrightarrow>
       (\<forall>ts. pf_route nb start ts \<longrightarrow> \<not> is_goal (pf_route_end start ts))) \<and>
    (\<exists>ts. res_steps r = pf_route_steps start ts \<and> pf_route nb start ts)"
  using pf_search_result_ok [OF assms(1-4)] assms(5)
  by (auto simp: pf_search_ok_def pf_unreachable_def pf_reports_def)

theorem search_partial_route_witness:
  "\<exists>ts. [\<lparr>step_state = 3, step_data = 0\<rparr>, \<lparr>step_state = 2, step_data = 9\<rparr>] = pf_route_steps 3 ts \<and>
     pf_route demo_neighbors 3 ts"
proof -
  obtain c' where run: "demo_run 9 (demo_options\<lparr>return_partial := True, max_expanded := 1\<rparr>) 3 =
    Some (\<lparr>res_status = ATRINIK_PF_PARTIAL, res_termination = TERMINATION_LIMIT,
     res_steps = [\<lparr>step_state = 3, step_data = 0\<rparr>, \<lparr>step_state = 2, step_data = 9\<rparr>],
     res_metrics = \<lparr>expanded = 1, generated = 2, examined_transitions = 1, peak_frontier = 1, total_cost = 2\<rparr>\<rparr>, c')"
    using map_option_fstD [OF demo_partial] by blast
  from search_partial_route [OF demo_session this [unfolded demo_run_def], of demo_neighbors "\<lambda>s. s = 9"]
  show ?thesis by (simp add: demo_adapter_def)
qed

text \<open>
  Every search respects its budgets: a non-zero limit bounds the expanded and generated
  states, the examined transitions and the largest frontier that the result reports. An
  error status carries the matching termination reason and no steps.
\<close>

theorem search_budgets:
  assumes "pf_session c" "atrinik_pf_search al (Some c) (Some ad) start opts = Some (r, c')"
    "neighbors ad = Some nb" "goal ad = Some is_goal" "res_status r \<noteq> ATRINIK_PF_INVALID_INPUT"
  shows "(max_expanded (pf_opts opts) \<noteq> 0 \<longrightarrow> expanded (res_metrics r) \<le> max_expanded (pf_opts opts)) \<and>
    (max_generated (pf_opts opts) \<noteq> 0 \<longrightarrow> generated (res_metrics r) \<le> max_generated (pf_opts opts)) \<and>
    (max_transitions (pf_opts opts) \<noteq> 0 \<longrightarrow>
       examined_transitions (res_metrics r) \<le> max_transitions (pf_opts opts)) \<and>
    (max_frontier (pf_opts opts) \<noteq> 0 \<longrightarrow> peak_frontier (res_metrics r) \<le> max_frontier (pf_opts opts)) \<and>
    (res_status r \<notin> {ATRINIK_PF_FOUND, ATRINIK_PF_PARTIAL} \<longrightarrow> res_steps r = []) \<and>
    (res_status r = ATRINIK_PF_COST_OVERFLOW \<longrightarrow> res_termination r = TERMINATION_COST_OVERFLOW) \<and>
    (res_status r = ATRINIK_PF_OUT_OF_MEMORY \<longrightarrow> res_termination r = TERMINATION_OUT_OF_MEMORY) \<and>
    (res_status r = ATRINIK_PF_LIMIT_REACHED \<longrightarrow> res_termination r = TERMINATION_LIMIT)"
proof -
  have ok: "pf_search_ok ad (pf_opts opts) start is_goal nb r" by (rule pf_search_result_ok [OF assms])
  then have "pf_metrics_within (pf_opts opts) (res_metrics r)" by (simp add: pf_search_ok_def)
  moreover have "res_status r \<notin> {ATRINIK_PF_FOUND, ATRINIK_PF_PARTIAL} \<longrightarrow> res_steps r = []"
    using ok assms(5) by (cases "res_status r") (auto simp: pf_search_ok_def)
  ultimately show ?thesis
    using ok by (auto simp: pf_metrics_within_def pf_within_def pf_search_ok_def)
qed

theorem search_budgets_witness:
  "\<exists>r c'. demo_run 9 (demo_options\<lparr>return_partial := True, max_expanded := 1\<rparr>) 3 = Some (r, c') \<and>
     expanded (res_metrics r) \<le> 1"
proof -
  let ?o = "demo_options\<lparr>return_partial := True, max_expanded := 1\<rparr>"
  obtain r c' where run: "demo_run 9 ?o 3 = Some (r, c')" "res_status r = ATRINIK_PF_PARTIAL"
    using map_option_fstD [OF demo_partial] by auto
  have "max_expanded (pf_opts (Some ?o)) = 1" by (simp add: pf_opts_def)
  with search_budgets [OF demo_session run(1) [unfolded demo_run_def], of demo_neighbors "\<lambda>s. s = 9"] run
  show ?thesis by (auto simp: demo_adapter_def)
qed

text \<open>
  C5. \<open>atrinik_pf_reachable\<close> lists each state at most once and only states reachable from the
  start; with status \<open>ATRINIK_PF_COMPLETE\<close> it lists exactly the reachable states.
\<close>

theorem reachable_exact:
  assumes "pf_session c" "atrinik_pf_reachable al (Some c) (Some ad) start opts = Some (r, c')"
    "neighbors ad = Some nb"
  shows "distinct (reach_states r) \<and>
    (\<forall>s\<in>set (reach_states r). \<exists>ts. pf_route nb start ts \<and> pf_route_end start ts = s) \<and>
    (reach_status r = ATRINIK_PF_COMPLETE \<longrightarrow>
       (\<forall>ts. pf_route nb start ts \<longrightarrow> pf_route_end start ts \<in> set (reach_states r)))"
  using pf_reach_result_ok [OF assms] by (auto simp: pf_reach_ok_def pf_can_reach_def)

theorem reachable_exact_witness:
  "{s. \<exists>ts. pf_route demo_neighbors 3 ts \<and> pf_route_end 3 ts = s} = {3, 2}"
proof -
  obtain c' where run: "atrinik_pf_reachable (\<lambda>_ _. True) (Some demo_context) (Some (demo_adapter 2)) 3 None =
    Some (\<lparr>reach_status = ATRINIK_PF_COMPLETE, reach_termination = TERMINATION_EXHAUSTED,
     reach_states = [3, 2],
     reach_metrics = \<lparr>expanded = 2, generated = 2, examined_transitions = 1, peak_frontier = 1, total_cost = 0\<rparr>\<rparr>, c')"
    using map_option_fstD [OF demo_flood] by blast
  from reachable_exact [OF demo_session this, of demo_neighbors] show ?thesis
    by (auto simp: demo_adapter_def)
qed

text \<open>
  Invalid input is exactly what the source rejects: a null context, a null adapter, a
  missing neighbour, goal, required heuristic or required rank callback, or an algorithm
  outside the enumeration; and no other input yields that status.
\<close>

theorem search_invalid_iff:
  assumes "pf_session c" "atrinik_pf_search al (Some c) ad start opts = Some (r, c')"
  shows "res_status r = ATRINIK_PF_INVALID_INPUT \<longleftrightarrow>
    (case ad of None \<Rightarrow> True
     | Some a \<Rightarrow> neighbors a = None \<or> goal a = None \<or>
         (\<exists>n. algorithm (pf_opts opts) = PF_ALGORITHM_OUT_OF_RANGE n) \<or>
         (algorithm (pf_opts opts) \<in> {ATRINIK_PF_ASTAR, ATRINIK_PF_GREEDY_BEST_FIRST} \<and> heuristic_fn a = None) \<or>
         (return_partial (pf_opts opts) \<and> partial_rank_fn a = None))"
proof -
  have "pf_invalid_search ad (pf_opts opts) \<longleftrightarrow> (case ad of None \<Rightarrow> True
     | Some a \<Rightarrow> neighbors a = None \<or> goal a = None \<or>
         (\<exists>n. algorithm (pf_opts opts) = PF_ALGORITHM_OUT_OF_RANGE n) \<or>
         (algorithm (pf_opts opts) \<in> {ATRINIK_PF_ASTAR, ATRINIK_PF_GREEDY_BEST_FIRST} \<and> heuristic_fn a = None) \<or>
         (return_partial (pf_opts opts) \<and> partial_rank_fn a = None))"
    by (cases ad; cases "algorithm (pf_opts opts)")
      (auto simp: pf_invalid_search_def pf_valid_algorithm_def pf_uses_heuristic_def)
  moreover have "res_status r = ATRINIK_PF_INVALID_INPUT \<longleftrightarrow> pf_invalid_search ad (pf_opts opts)"
  proof (cases "pf_invalid_search ad (pf_opts opts)")
    case True
    with assms(2) show ?thesis by (simp add: pf_search_invalid pf_empty_result_def) auto
  next
    case False
    then obtain a where a: "ad = Some a" by (auto simp: pf_invalid_search_def split: option.splits)
    with False have ready: "pf_ready a (pf_opts opts)" by (simp add: pf_ready_def)
    obtain nb g where "neighbors a = Some nb" "goal a = Some g"
      using pf_ready_calls [OF ready] by blast
    from pf_search_total [OF ready this pf_session_reusable [OF assms(1)], of al start] assms(2) a False
    show ?thesis by (auto simp: pf_search_ok_def)
  qed
  ultimately show ?thesis by simp
qed

theorem search_invalid_iff_witness:
  "\<exists>r c'. atrinik_pf_search (\<lambda>_ _. True) (Some demo_context) (Some (demo_adapter 2)) 1 None = Some (r, c') \<and>
     res_status r = ATRINIK_PF_INVALID_INPUT"
proof -
  have "pf_invalid_search (Some (demo_adapter 2)) (pf_opts None)"
    by (simp add: pf_invalid_search_def pf_opts_def atrinik_pf_options_init_def demo_adapter_def
      pf_uses_heuristic_def)
  from pf_search_invalid [OF this, of "\<lambda>_ _. True" demo_context 1]
  obtain r c' where run: "atrinik_pf_search (\<lambda>_ _. True) (Some demo_context) (Some (demo_adapter 2)) 1 None =
    Some (r, c')" by blast
  from search_invalid_iff [OF demo_session run] run show ?thesis
    by (auto simp: demo_adapter_def pf_opts_def atrinik_pf_options_init_def)
qed


section \<open>The index and the frontier\<close>

text \<open>
  The hash index is a map from states to nodes: after \<open>pf_add_node\<close> has added a node for
  a new state (rehashing if it had to), looking that state up finds the new node, and every
  other lookup finds what it found before. A failed addition changes no lookup.
\<close>

theorem add_node_find_node:
  assumes "pf_index_wf c" "length (nodes c) \<le> node_capacity c"
    "node_state n \<notin> set (pf_states (nodes c))"
  shows "\<exists>r c'. pf_add_node al c n = Some (r, c') \<and> pf_index_wf c' \<and>
    pf_find_node c' (node_state n) = Some (if r = None then None else Some (length (nodes c))) \<and>
    (\<forall>s. s \<noteq> node_state n \<longrightarrow> pf_find_node c' s = pf_find_node c s)"
proof -
  obtain r c' where add: "pf_add_node al c n = Some (r, c')" "pf_index_wf c'"
    and cases: "r = None \<and> nodes c' = nodes c \<or> r = Some (length (nodes c)) \<and> nodes c' = nodes c @ [n]"
    using pf_add_node_total [OF assms(1,3,2), of al] by blast
  have old: "pf_node_index (nodes c @ [n]) s = pf_node_index (nodes c) s" if "s \<noteq> node_state n" for s
  proof (cases "s \<in> set (pf_states (nodes c))")
    case False
    then have "pf_node_index (nodes c) s = None" by (simp add: pf_node_index_None)
    with False that show ?thesis by (simp add: pf_node_index_append)
  next
    case True
    then obtain i where i: "pf_node_index (nodes c) s = Some i" using pf_node_index_None by fastforce
    have d: "distinct (pf_states (nodes c))" using assms(1) by (simp add: pf_index_wf_def)
    then have "distinct (pf_states (nodes c @ [n]))" using assms(3) by (simp add: pf_states_def)
    from pf_node_index_Some [OF this, of s i] pf_node_index_Some [OF d, of s i] i
    show ?thesis by (simp add: nth_append)
  qed
  have "pf_find_node c' (node_state n) = Some (if r = None then None else Some (length (nodes c)))"
    using cases pf_node_index_append [OF assms(3), of n] pf_node_index_None [of "nodes c" "node_state n"]
      assms(3) by (auto simp: pf_find_node_eq [OF add(2)])
  moreover have "pf_find_node c' s = pf_find_node c s" if "s \<noteq> node_state n" for s
    using cases old [OF that] by (auto simp: pf_find_node_eq [OF add(2)] pf_find_node_eq [OF assms(1)])
  ultimately show ?thesis using add by blast
qed

theorem add_node_find_node_witness:
  "\<exists>r c'. pf_add_node (\<lambda>_ _. True) demo_context (pf_start_node ATRINIK_PF_DIJKSTRA 5 0) = Some (r, c') \<and>
     pf_find_node c' 6 = pf_find_node demo_context 6"
proof -
  let ?n = "pf_start_node ATRINIK_PF_DIJKSTRA 5 0"
  have "pf_index_wf demo_context" "length (nodes demo_context) \<le> node_capacity demo_context"
    "node_state ?n \<notin> set (pf_states (nodes demo_context))"
    by (simp_all add: demo_context_def atrinik_pf_context_create_def pf_index_wf_def pf_states_def)
  from add_node_find_node [OF this, of "\<lambda>_ _. True"] show ?thesis by (auto simp: pf_start_node_def)
qed

text \<open>
  The frontier is a priority queue: popping it until it is empty yields exactly the
  queued nodes, in the order of priority, then heuristic, then insertion sequence.
\<close>

theorem frontier_pops_in_order:
  assumes "pf_heap_wf c"
  shows "mset (drain pf_heap_pop (length (heap c)) c) = mset (heap c) \<and>
    sorted (map (\<lambda>i. (node_priority (nodes c ! i), node_heuristic (nodes c ! i), node_sequence (nodes c ! i)))
      (drain pf_heap_pop (length (heap c)) c))"
  using pf_frontier.drain_elems [OF assms, of "length (heap c)"]
    pf_frontier.drain_sorted [OF assms, of "length (heap c)"]
  by (simp add: pf_frontier_key_def [abs_def] pf_key_def)

definition demo_queue :: pf_context where
  "demo_queue = demo_context\<lparr>nodes :=
     [(pf_start_node ATRINIK_PF_DIJKSTRA 5 0)\<lparr>node_priority := 8, node_heap_index := Some 1\<rparr>,
      (pf_start_node ATRINIK_PF_DIJKSTRA 6 0)\<lparr>node_priority := 4, node_heap_index := Some 0\<rparr>],
     heap := [1, 0]\<rparr>"

theorem frontier_pops_in_order_witness:
  "heap demo_queue = [1, 0] \<and> pf_heap_wf demo_queue \<and>
     mset (drain pf_heap_pop (length (heap demo_queue)) demo_queue) = mset (heap demo_queue)"
proof -
  have wf: "pf_heap_wf demo_queue"
    by (auto simp: pf_heap_wf_def pf_heap_coherent_def pf_heap_ordered_def pf_heap_key_def pf_key_def
      demo_queue_def less_Suc_eq nth_Cons' pf_start_node_def split: if_splits)
  have "heap demo_queue = [1, 0]" by (simp add: demo_queue_def)
  with wf conjunct1 [OF frontier_pops_in_order [OF wf]] show ?thesis by blast
qed

end
