(* ===== verification/Packet.thy ===== *)
theory Packet
  imports Prelude
begin

unbundle bit_operations_syntax

text \<open>
  The packet writer and reader of \<open>src/packet.c\<close>: bounded construction of a payload with a
  sticky error, and a bounded cursor over untrusted bytes with a sticky error, an optional
  mirrored position and the stack of dispatch scopes.

  Conventions. A packet's data is the list of its first \<open>len\<close> bytes; \<open>size\<close> is the allocated
  capacity, and the data pointer is null exactly when the capacity is 0. A readable buffer is
  an address with its contents, so that the pointer comparisons of \<open>packet_reader_init_at\<close>
  are comparisons of addresses. The thread-local list of scopes is the list \<open>io_scopes\<close>, the
  outermost first; a reader refers to a scope by its index. The debug string buffer of
  debug builds is not modelled.
\<close>

section \<open>Data\<close>

definition PACKET_PAYLOAD_MAX :: nat where
  "PACKET_PAYLOAD_MAX = 65534"

datatype packet_error =
    PACKET_ERROR_NONE
  | PACKET_ERROR_TRUNCATED
  | PACKET_ERROR_INVALID_ENCODING
  | PACKET_ERROR_LIMIT_EXCEEDED
  | PACKET_ERROR_UNSUPPORTED
  | PACKET_ERROR_TRAILING_DATA
  | PACKET_ERROR_SIZE_OVERFLOW
  | PACKET_ERROR_ALLOCATION

type_synonym pk_buf = "nat \<times> bytes"

record packet_view =
  view_data :: "pk_buf option"
  view_len :: nat

record packet_reader =
  rd_data :: "pk_buf option"
  rd_len :: nat
  rd_pos :: nat
  rd_error :: packet_error
  rd_position :: "nat option"
  rd_scope :: "nat option"

record packet_reader_scope =
  sc_data :: "pk_buf option"
  sc_len :: nat
  sc_pos :: nat
  sc_error :: packet_error
  sc_initialized :: bool

text \<open>A reader together with the thread's stack of scopes.\<close>

record packet_io =
  io_reader :: packet_reader
  io_scopes :: "packet_reader_scope list"

record packet_struct =
  pkt_data :: bytes
  pkt_size :: nat
  pkt_expand :: nat
  pkt_pos :: nat
  pkt_limit :: nat
  pkt_error :: packet_error
  pkt_ndelay :: u8
  pkt_type :: u8

definition pkt_len :: "packet_struct \<Rightarrow> nat" where
  "pkt_len p = length (pkt_data p)"


section \<open>Writer\<close>

text \<open>\<open>mempool_get\<close> hands out zeroed memory; \<open>xmalloc\<close> does not return on failure.\<close>

definition packet_new :: "u8 \<Rightarrow> nat \<Rightarrow> nat \<Rightarrow> packet_struct" where
  "packet_new type sz expand =
     \<lparr>pkt_data = [], pkt_size = sz, pkt_expand = expand, pkt_pos = 0,
       pkt_limit = PACKET_PAYLOAD_MAX, pkt_error = PACKET_ERROR_NONE, pkt_ndelay = 0,
       pkt_type = type\<rparr>"

definition packet_enable_ndelay :: "packet_struct \<Rightarrow> packet_struct" where
  "packet_enable_ndelay p = p\<lparr>pkt_ndelay := 1\<rparr>"

definition packet_ensure :: "nat \<Rightarrow> packet_struct \<Rightarrow> bool \<times> packet_struct" where
  "packet_ensure sz p =
     (if pkt_error p \<noteq> PACKET_ERROR_NONE then (False, p)
      else if pkt_len p > pkt_limit p \<or> sz > pkt_limit p - pkt_len p
      then (False, p\<lparr>pkt_error := PACKET_ERROR_LIMIT_EXCEEDED\<rparr>)
      else if pkt_len p \<le> pkt_size p \<and> sz \<le> pkt_size p - pkt_len p then (True, p)
      else let growth = max (pkt_expand p) sz;
               growth = (if pkt_size p > pkt_limit p \<or> growth > pkt_limit p - pkt_size p
                         then pkt_limit p - min (pkt_size p) (pkt_limit p) else growth)
           in if growth < sz \<or> pkt_size p > SIZE_MAX - growth
              then (False, p\<lparr>pkt_error := PACKET_ERROR_SIZE_OVERFLOW\<rparr>)
              else (True, p\<lparr>pkt_size := pkt_size p + growth\<rparr>))"

text \<open>Every write reserves its bytes and then stores them, or stores nothing.\<close>

definition packet_store :: "bytes \<Rightarrow> packet_struct \<Rightarrow> packet_struct" where
  "packet_store bs p =
     (let (ok, p) = packet_ensure (length bs) p
      in if ok then p\<lparr>pkt_data := pkt_data p @ bs\<rparr> else p)"

definition packet_writer_error :: "packet_struct \<Rightarrow> packet_error" where
  "packet_writer_error p = pkt_error p"

definition packet_writer_set_limit :: "nat \<Rightarrow> packet_struct \<Rightarrow> packet_struct" where
  "packet_writer_set_limit limit p =
     (if pkt_len p > limit then p\<lparr>pkt_error := PACKET_ERROR_LIMIT_EXCEEDED\<rparr>
      else p\<lparr>pkt_limit := limit\<rparr>)"

definition packet_writer_finish :: "packet_struct \<Rightarrow> bool" where
  "packet_writer_finish p \<longleftrightarrow> pkt_error p = PACKET_ERROR_NONE"

definition packet_writer_write_uint8 :: "u8 \<Rightarrow> packet_struct \<Rightarrow> packet_struct" where
  "packet_writer_write_uint8 d = packet_store [d]"

definition packet_writer_write_int8 :: "u8 \<Rightarrow> packet_struct \<Rightarrow> packet_struct" where
  "packet_writer_write_int8 d = packet_store [d]"

text \<open>\<open>(data >> k) & 0xff\<close>, and the same for a signed value, whose shift is arithmetic.\<close>

definition byte_at :: "nat \<Rightarrow> 'a :: len word \<Rightarrow> u8" where
  "byte_at k d = ucast (drop_bit k d AND 0xff)"

definition sbyte_at :: "nat \<Rightarrow> 'a :: len word \<Rightarrow> u8" where
  "sbyte_at k d = ucast (signed_drop_bit k d AND 0xff)"

definition packet_writer_write_uint16 :: "u16 \<Rightarrow> packet_struct \<Rightarrow> packet_struct" where
  "packet_writer_write_uint16 d = packet_store [byte_at 8 d, byte_at 0 d]"

definition packet_writer_write_int16 :: "u16 \<Rightarrow> packet_struct \<Rightarrow> packet_struct" where
  "packet_writer_write_int16 d = packet_store [sbyte_at 8 d, sbyte_at 0 d]"

definition packet_writer_write_uint32 :: "u32 \<Rightarrow> packet_struct \<Rightarrow> packet_struct" where
  "packet_writer_write_uint32 d =
     packet_store [byte_at 24 d, byte_at 16 d, byte_at 8 d, byte_at 0 d]"

definition packet_writer_write_int32 :: "u32 \<Rightarrow> packet_struct \<Rightarrow> packet_struct" where
  "packet_writer_write_int32 d =
     packet_store [sbyte_at 24 d, sbyte_at 16 d, sbyte_at 8 d, sbyte_at 0 d]"

definition packet_writer_write_uint64 :: "u64 \<Rightarrow> packet_struct \<Rightarrow> packet_struct" where
  "packet_writer_write_uint64 d =
     packet_store [byte_at 56 d, byte_at 48 d, byte_at 40 d, byte_at 32 d,
       byte_at 24 d, byte_at 16 d, byte_at 8 d, byte_at 0 d]"

definition packet_writer_write_int64 :: "u64 \<Rightarrow> packet_struct \<Rightarrow> packet_struct" where
  "packet_writer_write_int64 d =
     packet_store [sbyte_at 56 d, sbyte_at 48 d, sbyte_at 40 d, sbyte_at 32 d,
       sbyte_at 24 d, sbyte_at 16 d, sbyte_at 8 d, sbyte_at 0 d]"

text \<open>Floating-point values are written as the bits of their representation.\<close>

definition packet_writer_write_float :: "u32 \<Rightarrow> packet_struct \<Rightarrow> packet_struct" where
  "packet_writer_write_float bits = packet_writer_write_uint32 bits"

definition packet_writer_write_double :: "u64 \<Rightarrow> packet_struct \<Rightarrow> packet_struct" where
  "packet_writer_write_double bits = packet_writer_write_uint64 bits"

text \<open>A null data pointer trips the soft assertion, which returns.\<close>

definition packet_writer_write_bytes :: "bytes option \<Rightarrow> packet_struct \<Rightarrow> packet_struct" where
  "packet_writer_write_bytes data p =
     (case data of None \<Rightarrow> p | Some bs \<Rightarrow> if bs = [] then p else packet_store bs p)"

definition packet_writer_write_string_n :: "bytes option \<Rightarrow> packet_struct \<Rightarrow> packet_struct" where
  "packet_writer_write_string_n data p =
     (case data of None \<Rightarrow> p | Some bs \<Rightarrow> if bs = [] then p else packet_store bs p)"

text \<open>A C string is the bytes before its first NUL.\<close>

definition packet_writer_write_string :: "bytes option \<Rightarrow> packet_struct \<Rightarrow> packet_struct" where
  "packet_writer_write_string data p = packet_writer_write_string_n (map_option c_string data) p"

definition packet_writer_write_cstring_n :: "bytes option \<Rightarrow> packet_struct \<Rightarrow> packet_struct" where
  "packet_writer_write_cstring_n data p =
     (case data of None \<Rightarrow> p
      | Some bs \<Rightarrow>
          if length bs = SIZE_MAX then p\<lparr>pkt_error := PACKET_ERROR_SIZE_OVERFLOW\<rparr>
          else packet_store (bs @ [0]) p)"

definition packet_writer_write_cstring :: "bytes option \<Rightarrow> packet_struct \<Rightarrow> packet_struct" where
  "packet_writer_write_cstring data p = packet_writer_write_cstring_n (map_option c_string data) p"

definition packet_writer_write_packet :: "packet_struct \<Rightarrow> packet_struct \<Rightarrow> packet_struct" where
  "packet_writer_write_packet src p =
     (if pkt_size src \<noteq> 0 then packet_writer_write_bytes (Some (pkt_data src)) p else p)"

definition packet_dup :: "packet_struct \<Rightarrow> packet_struct" where
  "packet_dup p =
     (let cp = packet_new (pkt_type p) (pkt_size p) (pkt_expand p);
          cp = cp\<lparr>pkt_ndelay := pkt_ndelay p\<rparr>;
          cp = cp\<lparr>pkt_limit := pkt_limit p\<rparr>;
          cp = cp\<lparr>pkt_error := pkt_error p\<rparr>
      in if pkt_size p \<noteq> 0 then packet_writer_write_bytes (Some (pkt_data p)) cp else cp)"

definition packet_delete :: "nat \<Rightarrow> nat \<Rightarrow> packet_struct \<Rightarrow> packet_struct" where
  "packet_delete pos len p =
     (if pos > pkt_len p \<or> len > pkt_len p - pos then p
      else let trailing = pkt_len p - pos - len;
               moved = (if trailing \<noteq> 0
                 then take pos (pkt_data p) @ take trailing (drop (pos + len) (pkt_data p)) @
                   drop (pos + trailing) (pkt_data p)
                 else pkt_data p)
           in p\<lparr>pkt_data := take (pkt_len p - len) moved\<rparr>)"

definition packet_writer_mark :: "packet_struct \<Rightarrow> nat" where
  "packet_writer_mark p = pkt_len p"

text \<open>The assertion \<open>mark->pos <= writer->len\<close> is the \<open>None\<close> case.\<close>

definition packet_writer_rollback :: "nat \<Rightarrow> packet_struct \<Rightarrow> packet_struct option" where
  "packet_writer_rollback mark p =
     (if mark \<le> pkt_len p then Some (p\<lparr>pkt_data := take mark (pkt_data p)\<rparr>) else None)"

text \<open>
  \<open>packet_compress\<close> with a compression function as parameter (\<open>compress2\<close> of zlib) and the
  build's size threshold; with no threshold the body is compiled out.
\<close>

definition packet_compress :: "(bytes \<Rightarrow> bytes) \<Rightarrow> nat option \<Rightarrow> u8 \<Rightarrow> packet_struct \<Rightarrow> packet_struct" where
  "packet_compress deflate threshold cmd p =
     (case threshold of None \<Rightarrow> p
      | Some n \<Rightarrow>
          if pkt_len p \<le> n then p
          else let l = (of_nat (pkt_len p) :: u64);
                   dest = [pkt_type p, byte_at 24 l, byte_at 16 l, byte_at 8 l, byte_at 0 l] @ deflate (pkt_data p)
               in if length (deflate (pkt_data p)) \<ge> pkt_len p then p
                  else p\<lparr>pkt_data := dest, pkt_size := length dest, pkt_type := cmd\<rparr>)"

lemmas packet_writer_defs =
  packet_writer_write_uint8_def packet_writer_write_int8_def packet_writer_write_uint16_def
  packet_writer_write_int16_def packet_writer_write_uint32_def packet_writer_write_int32_def
  packet_writer_write_uint64_def packet_writer_write_int64_def packet_writer_write_float_def
  packet_writer_write_double_def


section \<open>Reader\<close>

text \<open>Updating the scope a reader refers to.\<close>

definition io_update_scope :: "(packet_reader_scope \<Rightarrow> packet_reader_scope) \<Rightarrow> packet_io \<Rightarrow> packet_io" where
  "io_update_scope f io =
     (case rd_scope (io_reader io) of None \<Rightarrow> io
      | Some i \<Rightarrow> io\<lparr>io_scopes := (io_scopes io)[i := f (io_scopes io ! i)]\<rparr>)"

definition io_update_reader :: "(packet_reader \<Rightarrow> packet_reader) \<Rightarrow> packet_io \<Rightarrow> packet_io" where
  "io_update_reader f io = io\<lparr>io_reader := f (io_reader io)\<rparr>"

definition packet_reader_fail :: "packet_error \<Rightarrow> packet_io \<Rightarrow> packet_io" where
  "packet_reader_fail err io =
     (let io = (if rd_error (io_reader io) = PACKET_ERROR_NONE
                then io_update_reader (\<lambda>r. r\<lparr>rd_error := err\<rparr>) io else io)
      in io_update_scope (\<lambda>s. if sc_error s = PACKET_ERROR_NONE then s\<lparr>sc_error := err\<rparr> else s) io)"

definition packet_reader_set_error :: "packet_error \<Rightarrow> packet_io \<Rightarrow> packet_io" where
  "packet_reader_set_error = packet_reader_fail"

definition buf_addr :: "pk_buf option \<Rightarrow> nat option" where
  "buf_addr b = map_option fst b"

text \<open>
  The scope a new reader attaches to: the innermost one, unless it already belongs to other
  data. The result is the scope index.
\<close>

definition packet_scope_for :: "pk_buf option \<Rightarrow> nat \<Rightarrow> packet_reader_scope list \<Rightarrow> nat option" where
  "packet_scope_for data len scopes =
     (if scopes = [] then None
      else let s = last scopes
        in if sc_initialized s \<and> (buf_addr (sc_data s) \<noteq> buf_addr data \<or> sc_len s \<noteq> len) then None
           else Some (length scopes - 1))"

definition packet_reader_init_at ::
    "pk_buf option \<Rightarrow> nat \<Rightarrow> nat \<Rightarrow> packet_reader_scope list \<Rightarrow> packet_io" where
  "packet_reader_init_at data len pos scopes =
     (let r = \<lparr>rd_data = data, rd_len = len, rd_pos = pos, rd_error = PACKET_ERROR_NONE,
            rd_position = None, rd_scope = packet_scope_for data len scopes\<rparr>;
          io = \<lparr>io_reader = r, io_scopes = scopes\<rparr>;
          io = io_update_scope (\<lambda>s. if \<not> sc_initialized s
            then s\<lparr>sc_data := data, sc_len := len, sc_pos := pos, sc_initialized := True\<rparr> else s) io
      in if (data = None \<and> len \<noteq> 0) \<or> pos > len
         then packet_reader_fail PACKET_ERROR_INVALID_ENCODING
           (io_update_reader (\<lambda>r. r\<lparr>rd_pos := 0\<rparr>) io)
         else io)"

definition packet_reader_init :: "pk_buf option \<Rightarrow> nat \<Rightarrow> packet_reader_scope list \<Rightarrow> packet_io" where
  "packet_reader_init data len scopes = packet_reader_init_at data len 0 scopes"

definition packet_reader_init_cursor ::
    "pk_buf option \<Rightarrow> nat \<Rightarrow> nat \<Rightarrow> packet_reader_scope list \<Rightarrow> packet_io" where
  "packet_reader_init_cursor data len position scopes =
     io_update_reader (\<lambda>r. r\<lparr>rd_position := Some position\<rparr>)
       (packet_reader_init_at data len position scopes)"

definition packet_reader_remaining :: "packet_io \<Rightarrow> nat" where
  "packet_reader_remaining io =
     (let r = io_reader io in if rd_pos r \<le> rd_len r then rd_len r - rd_pos r else 0)"

definition packet_reader_error :: "packet_io \<Rightarrow> packet_error" where
  "packet_reader_error io = rd_error (io_reader io)"

definition packet_error_names :: "string list" where
  "packet_error_names = [''none'', ''truncated input'', ''invalid encoding'', ''limit exceeded'',
     ''unsupported value'', ''trailing data'', ''size overflow'', ''allocation failure'']"

definition packet_error_string :: "int \<Rightarrow> string" where
  "packet_error_string err =
     (if nat (err mod 2 ^ 64) \<ge> length packet_error_names then ''unknown packet error''
      else packet_error_names ! nat (err mod 2 ^ 64))"

definition packet_reader_finish :: "packet_io \<Rightarrow> bool \<times> packet_io" where
  "packet_reader_finish io =
     (let r = io_reader io;
          io = (if rd_error r = PACKET_ERROR_NONE \<and> rd_pos r \<noteq> rd_len r
                then packet_reader_fail PACKET_ERROR_TRAILING_DATA io else io)
      in (rd_error (io_reader io) = PACKET_ERROR_NONE, io))"

definition packet_reader_scope_begin :: "packet_reader_scope list \<Rightarrow> packet_reader_scope list" where
  "packet_reader_scope_begin scopes =
     scopes @ [\<lparr>sc_data = None, sc_len = 0, sc_pos = 0, sc_error = PACKET_ERROR_NONE,
       sc_initialized = False\<rparr>]"

text \<open>The finished scope is the innermost one; its error is handed to the scope around it.\<close>

definition packet_reader_scope_finish ::
    "packet_reader_scope list \<Rightarrow> (packet_error \<times> packet_reader_scope list) option" where
  "packet_reader_scope_finish scopes =
     (if scopes = [] then None
      else let s = last scopes;
               err = (if sc_error s = PACKET_ERROR_NONE \<and> sc_pos s \<noteq> sc_len s
                      then PACKET_ERROR_TRAILING_DATA else sc_error s);
               outer = butlast scopes
           in Some (err,
                if outer \<noteq> [] \<and> err \<noteq> PACKET_ERROR_NONE \<and> sc_error (last outer) = PACKET_ERROR_NONE
                then butlast outer @ [(last outer)\<lparr>sc_error := err\<rparr>] else outer))"

text \<open>Advancing the cursor, the scope's high-water mark and the mirrored position.\<close>

definition io_advance :: "nat \<Rightarrow> packet_io \<Rightarrow> packet_io" where
  "io_advance n io =
     (let io = io_update_reader (\<lambda>r. r\<lparr>rd_pos := rd_pos r + n\<rparr>) io;
          pos = rd_pos (io_reader io);
          io = io_update_scope (\<lambda>s. s\<lparr>sc_pos := max (sc_pos s) pos\<rparr>) io
      in io_update_reader (\<lambda>r. r\<lparr>rd_position := map_option (\<lambda>_. pos) (rd_position r)\<rparr>) io)"

definition buf_at :: "nat \<Rightarrow> pk_buf option \<Rightarrow> pk_buf option" where
  "buf_at pos b = map_option (\<lambda>(a, bs). (a + pos, drop pos bs)) b"

text \<open>The result is the pointer to the bytes taken.\<close>

definition packet_reader_take :: "nat \<Rightarrow> packet_io \<Rightarrow> pk_buf option \<times> packet_io" where
  "packet_reader_take len io =
     (if rd_error (io_reader io) \<noteq> PACKET_ERROR_NONE then (None, io)
      else if len > packet_reader_remaining io
      then (None, packet_reader_fail PACKET_ERROR_TRUNCATED io)
      else if len = 0 then (rd_data (io_reader io), io)
      else (buf_at (rd_pos (io_reader io)) (rd_data (io_reader io)), io_advance len io))"

definition packet_reader_skip :: "nat \<Rightarrow> packet_io \<Rightarrow> bool \<times> packet_io" where
  "packet_reader_skip len io =
     (if len = 0 \<and> rd_error (io_reader io) = PACKET_ERROR_NONE then (True, io)
      else let (data, io) = packet_reader_take len io in (data \<noteq> None, io))"

definition empty_view :: packet_view where
  "empty_view = \<lparr>view_data = None, view_len = 0\<rparr>"

definition packet_reader_read_view :: "nat \<Rightarrow> packet_io \<Rightarrow> packet_view \<times> packet_io" where
  "packet_reader_read_view len io =
     (let (data, io) = packet_reader_take len io
      in (if data = None then empty_view else \<lparr>view_data = data, view_len = len\<rparr>, io))"

definition buf_bytes :: "pk_buf option \<Rightarrow> bytes" where
  "buf_bytes b = (case b of None \<Rightarrow> [] | Some (a, bs) \<Rightarrow> bs)"

definition view_bytes :: "packet_view \<Rightarrow> bytes" where
  "view_bytes v = take (view_len v) (buf_bytes (view_data v))"

text \<open>\<open>memchr(p, '\<backslash>0', n)\<close>: the offset of the first NUL among the first \<open>n\<close> bytes.\<close>

definition nul_offset :: "nat \<Rightarrow> bytes \<Rightarrow> nat option" where
  "nul_offset n bs = find (\<lambda>i. bs ! i = 0) [0..<min n (length bs)]"

definition packet_reader_read_string_view :: "nat \<Rightarrow> packet_io \<Rightarrow> packet_view \<times> packet_io" where
  "packet_reader_read_string_view max_len io =
     (if rd_error (io_reader io) \<noteq> PACKET_ERROR_NONE then (empty_view, io)
      else let remaining = packet_reader_remaining io
        in if remaining = 0 then (empty_view, packet_reader_fail PACKET_ERROR_TRUNCATED io)
           else let search_len = min remaining (max_len + (if max_len \<noteq> SIZE_MAX then 1 else 0));
                    here = buf_at (rd_pos (io_reader io)) (rd_data (io_reader io))
             in case nul_offset search_len (buf_bytes here) of
                  None \<Rightarrow> (empty_view, packet_reader_fail
                    (if remaining > max_len then PACKET_ERROR_LIMIT_EXCEEDED
                     else PACKET_ERROR_TRUNCATED) io)
                | Some len \<Rightarrow>
                    if len > max_len
                    then (empty_view, packet_reader_fail PACKET_ERROR_LIMIT_EXCEEDED io)
                    else (\<lparr>view_data = here, view_len = len\<rparr>, io_advance (len + 1) io))"

text \<open>The result carries the C string stored in \<open>dest\<close>, or \<open>None\<close> for \<open>false\<close>.\<close>

definition packet_reader_read_string_bounded ::
    "nat \<Rightarrow> nat \<Rightarrow> packet_io \<Rightarrow> bytes option \<times> packet_io" where
  "packet_reader_read_string_bounded dest_size max_len io =
     (let (view, io) = packet_reader_read_string_view max_len io
      in if rd_error (io_reader io) \<noteq> PACKET_ERROR_NONE then (None, io)
         else if view_len view \<ge> dest_size
         then (None, packet_reader_fail PACKET_ERROR_LIMIT_EXCEEDED io)
         else (Some (view_bytes view), io))"

definition packet_reader_read_string :: "nat \<Rightarrow> packet_io \<Rightarrow> bytes option \<times> packet_io" where
  "packet_reader_read_string dest_size io =
     packet_reader_read_string_bounded dest_size (dest_size - 1) io"

text \<open>The string buffer is the list of its characters; the result is the buffer afterwards.\<close>

definition packet_reader_read_stringbuffer_bounded ::
    "bytes \<Rightarrow> nat \<Rightarrow> packet_io \<Rightarrow> bool \<times> bytes \<times> packet_io" where
  "packet_reader_read_stringbuffer_bounded sb max_len io =
     (let (view, io) = packet_reader_read_string_view max_len io
      in if rd_error (io_reader io) \<noteq> PACKET_ERROR_NONE then (False, sb, io)
         else (True, sb @ view_bytes view, io))"

definition packet_reader_read_stringbuffer :: "bytes \<Rightarrow> packet_io \<Rightarrow> bool \<times> bytes \<times> packet_io" where
  "packet_reader_read_stringbuffer sb io =
     packet_reader_read_stringbuffer_bounded sb PACKET_PAYLOAD_MAX io"

definition packet_reader_read_uint8 :: "packet_io \<Rightarrow> u8 \<times> packet_io" where
  "packet_reader_read_uint8 io =
     (let (data, io) = packet_reader_take 1 io
      in (if data = None then 0 else buf_bytes data ! 0, io))"

definition packet_reader_read_int8 :: "packet_io \<Rightarrow> u8 \<times> packet_io" where
  "packet_reader_read_int8 io = packet_reader_read_uint8 io"

definition packet_reader_read_uint16 :: "packet_io \<Rightarrow> u16 \<times> packet_io" where
  "packet_reader_read_uint16 io =
     (let (data, io) = packet_reader_take 2 io; b = buf_bytes data
      in (if data = None then 0 else push_bit 8 (ucast (b ! 0)) OR ucast (b ! 1), io))"

definition packet_reader_read_int16 :: "packet_io \<Rightarrow> u16 \<times> packet_io" where
  "packet_reader_read_int16 io = packet_reader_read_uint16 io"

definition packet_reader_read_uint32 :: "packet_io \<Rightarrow> u32 \<times> packet_io" where
  "packet_reader_read_uint32 io =
     (let (data, io) = packet_reader_take 4 io; b = buf_bytes data
      in (if data = None then 0
          else push_bit 24 (ucast (b ! 0)) OR push_bit 16 (ucast (b ! 1)) OR
            push_bit 8 (ucast (b ! 2)) OR ucast (b ! 3), io))"

definition packet_reader_read_int32 :: "packet_io \<Rightarrow> u32 \<times> packet_io" where
  "packet_reader_read_int32 io = packet_reader_read_uint32 io"

definition packet_reader_read_uint64 :: "packet_io \<Rightarrow> u64 \<times> packet_io" where
  "packet_reader_read_uint64 io =
     (let (data, io) = packet_reader_take 8 io; b = buf_bytes data
      in (if data = None then 0
          else push_bit 56 (ucast (b ! 0)) OR push_bit 48 (ucast (b ! 1)) OR
            push_bit 40 (ucast (b ! 2)) OR push_bit 32 (ucast (b ! 3)) OR
            push_bit 24 (ucast (b ! 4)) OR push_bit 16 (ucast (b ! 5)) OR
            push_bit 8 (ucast (b ! 6)) OR ucast (b ! 7), io))"

definition packet_reader_read_int64 :: "packet_io \<Rightarrow> u64 \<times> packet_io" where
  "packet_reader_read_int64 io = packet_reader_read_uint64 io"

definition packet_reader_read_float :: "packet_io \<Rightarrow> u32 \<times> packet_io" where
  "packet_reader_read_float io = packet_reader_read_uint32 io"

definition packet_reader_read_double :: "packet_io \<Rightarrow> u64 \<times> packet_io" where
  "packet_reader_read_double io = packet_reader_read_uint64 io"

text \<open>The result carries \<open>*count\<close>, or \<open>None\<close> for \<open>false\<close>.\<close>

definition packet_reader_check_count :: "u32 \<Rightarrow> nat \<Rightarrow> packet_io \<Rightarrow> nat option \<times> packet_io" where
  "packet_reader_check_count value maximum io =
     (if rd_error (io_reader io) \<noteq> PACKET_ERROR_NONE then (None, io)
      else if unat value > maximum then (None, packet_reader_fail PACKET_ERROR_LIMIT_EXCEEDED io)
      else (Some (unat value), io))"

definition packet_reader_read_count8 :: "nat \<Rightarrow> packet_io \<Rightarrow> nat option \<times> packet_io" where
  "packet_reader_read_count8 maximum io =
     (let (v, io) = packet_reader_read_uint8 io in packet_reader_check_count (ucast v) maximum io)"

definition packet_reader_read_count16 :: "nat \<Rightarrow> packet_io \<Rightarrow> nat option \<times> packet_io" where
  "packet_reader_read_count16 maximum io =
     (let (v, io) = packet_reader_read_uint16 io in packet_reader_check_count (ucast v) maximum io)"

definition packet_reader_read_count32 :: "nat \<Rightarrow> packet_io \<Rightarrow> nat option \<times> packet_io" where
  "packet_reader_read_count32 maximum io =
     (let (v, io) = packet_reader_read_uint32 io in packet_reader_check_count v maximum io)"

end
