(* ===== verification/Packet_Codec.thy ===== *)
theory Packet_Codec
  imports Packet
begin

unbundle bit_operations_syntax

text \<open>
  Correctness of the packet codecs: the invariants of writer and reader, the interface
  \<open>field_codec\<close> between a write and the read that undoes it, its interpretations for every
  field type, and the round trip of whole messages.
\<close>

section \<open>Writer\<close>

text \<open>
  The data fits the capacity and the limit. A packet starts well formed when its initial
  capacity is at most \<open>SIZE_MAX\<close>, as a \<open>size_t\<close> is.
\<close>

definition packet_wf :: "packet_struct \<Rightarrow> bool" where
  "packet_wf p \<longleftrightarrow> pkt_len p \<le> pkt_size p \<and> pkt_len p \<le> pkt_limit p \<and>
     pkt_size p \<le> SIZE_MAX \<and> pkt_limit p \<le> SIZE_MAX"

lemma packet_new_wf: "sz \<le> SIZE_MAX \<Longrightarrow> packet_wf (packet_new t sz e)"
  by (simp add: packet_wf_def packet_new_def pkt_len_def PACKET_PAYLOAD_MAX_def SIZE_MAX_def)

lemma packet_ensure_cases:
  assumes "packet_wf p"
  obtains (ok) sz where "packet_ensure n p = (True, p\<lparr>pkt_size := sz\<rparr>)" "pkt_size p \<le> sz"
      "pkt_len p + n \<le> sz" "sz \<le> SIZE_MAX" "pkt_len p + n \<le> pkt_limit p" "pkt_error p = PACKET_ERROR_NONE"
  | (sticky) "packet_ensure n p = (False, p)" "pkt_error p \<noteq> PACKET_ERROR_NONE"
  | (failed) e where "packet_ensure n p = (False, p\<lparr>pkt_error := e\<rparr>)" "pkt_error p = PACKET_ERROR_NONE"
      "e = PACKET_ERROR_LIMIT_EXCEEDED \<or> e = PACKET_ERROR_SIZE_OVERFLOW"
      "e = PACKET_ERROR_LIMIT_EXCEEDED \<longleftrightarrow> pkt_len p + n > pkt_limit p"
proof -
  let ?g = "max (pkt_expand p) n"
  let ?g' = "if pkt_size p > pkt_limit p \<or> ?g > pkt_limit p - pkt_size p
    then pkt_limit p - min (pkt_size p) (pkt_limit p) else ?g"
  have wf: "pkt_len p \<le> pkt_size p" "pkt_len p \<le> pkt_limit p" "pkt_size p \<le> SIZE_MAX"
    "pkt_limit p \<le> SIZE_MAX"
    using assms by (simp_all add: packet_wf_def)
  consider "pkt_error p \<noteq> PACKET_ERROR_NONE"
    | "pkt_error p = PACKET_ERROR_NONE" "n > pkt_limit p - pkt_len p"
    | "pkt_error p = PACKET_ERROR_NONE" "n \<le> pkt_limit p - pkt_len p" "n \<le> pkt_size p - pkt_len p"
    | "pkt_error p = PACKET_ERROR_NONE" "n \<le> pkt_limit p - pkt_len p" "n > pkt_size p - pkt_len p"
      "?g' < n \<or> pkt_size p > SIZE_MAX - ?g'"
    | "pkt_error p = PACKET_ERROR_NONE" "n \<le> pkt_limit p - pkt_len p" "n > pkt_size p - pkt_len p"
      "\<not> (?g' < n \<or> pkt_size p > SIZE_MAX - ?g')"
    by linarith
  then show ?thesis
  proof cases
    case 1
    then show ?thesis by (intro sticky) (simp_all add: packet_ensure_def)
  next
    case 2
    then show ?thesis
      by (intro failed [of PACKET_ERROR_LIMIT_EXCEEDED]) (use wf in \<open>auto simp: packet_ensure_def\<close>)
  next
    case 3
    then show ?thesis
      by (intro ok [of "pkt_size p"]) (use wf in \<open>auto simp: packet_ensure_def\<close>)
  next
    case 4
    then have "packet_ensure n p = (False, p\<lparr>pkt_error := PACKET_ERROR_SIZE_OVERFLOW\<rparr>)"
      using wf by (simp add: packet_ensure_def Let_def)
    then show ?thesis by (rule failed) (use 4 wf in auto)
  next
    case 5
    then have "packet_ensure n p = (True, p\<lparr>pkt_size := pkt_size p + ?g'\<rparr>)"
      using wf by (simp add: packet_ensure_def Let_def)
    moreover have "n \<le> ?g'" using 5(4) by linarith
    moreover have "pkt_size p + ?g' \<le> SIZE_MAX" using wf by auto
    moreover define g' where "g' = ?g'"
    ultimately have e: "packet_ensure n p = (True, p\<lparr>pkt_size := pkt_size p + g'\<rparr>)"
      and "n \<le> g'" "pkt_size p + g' \<le> SIZE_MAX" by (simp_all only:)
    show ?thesis by (rule ok [OF e]) (use 5(1,2) wf \<open>n \<le> g'\<close> \<open>pkt_size p + g' \<le> SIZE_MAX\<close> in simp_all)
  qed
qed

text \<open>A store appends all of its bytes or none, and records why.\<close>

lemma packet_store_cases:
  assumes "packet_wf p"
  obtains (ok) sz where "packet_store bs p = p\<lparr>pkt_size := sz, pkt_data := pkt_data p @ bs\<rparr>"
      "packet_wf (packet_store bs p)" "pkt_error p = PACKET_ERROR_NONE"
  | (sticky) "packet_store bs p = p" "pkt_error p \<noteq> PACKET_ERROR_NONE"
  | (failed) e where "packet_store bs p = p\<lparr>pkt_error := e\<rparr>" "pkt_error p = PACKET_ERROR_NONE"
      "e = PACKET_ERROR_LIMIT_EXCEEDED \<or> e = PACKET_ERROR_SIZE_OVERFLOW"
      "e = PACKET_ERROR_LIMIT_EXCEEDED \<longleftrightarrow> pkt_len p + length bs > pkt_limit p"
  using assms
proof (cases rule: packet_ensure_cases [where n = "length bs"])
  case (ok sz)
  then have st: "packet_store bs p = p\<lparr>pkt_size := sz, pkt_data := pkt_data p @ bs\<rparr>"
    by (simp add: packet_store_def)
  show ?thesis
    by (rule that(1) [OF st]) (use ok st assms in \<open>simp_all add: packet_wf_def pkt_len_def\<close>)
next
  case sticky
  then show ?thesis by (intro that(2)) (simp_all add: packet_store_def)
next
  case (failed e)
  then have "packet_store bs p = p\<lparr>pkt_error := e\<rparr>" by (simp add: packet_store_def)
  then show ?thesis by (rule that(3)) (use failed in auto)
qed

lemma packet_store_wf [wire_simps]: "packet_wf p \<Longrightarrow> packet_wf (packet_store bs p)"
  by (cases rule: packet_store_cases) (auto simp: packet_wf_def pkt_len_def)

lemma packet_store_error: "pkt_error p \<noteq> PACKET_ERROR_NONE \<Longrightarrow> packet_store bs p = p"
  by (simp add: packet_store_def packet_ensure_def)

lemma packet_store_success:
  assumes "packet_wf p" "pkt_error (packet_store bs p) = PACKET_ERROR_NONE"
  shows "pkt_error p = PACKET_ERROR_NONE \<and> pkt_data (packet_store bs p) = pkt_data p @ bs"
  using assms(1)
proof (cases rule: packet_store_cases [where bs = bs])
  case (ok sz)
  then show ?thesis by simp
next
  case sticky
  then show ?thesis using assms(2) by simp
next
  case (failed e)
  then show ?thesis using assms(2) by auto
qed

section \<open>Reader\<close>

definition reader_wf :: "packet_io \<Rightarrow> bool" where
  "reader_wf io \<longleftrightarrow> (let r = io_reader io in rd_pos r \<le> rd_len r \<and> rd_len r \<le> SIZE_MAX \<and>
     (rd_error r = PACKET_ERROR_NONE \<longrightarrow> length (buf_bytes (rd_data r)) = rd_len r) \<and>
     (\<forall>i. rd_scope r = Some i \<longrightarrow> i < length (io_scopes io)))"

definition unread :: "packet_io \<Rightarrow> bytes" where
  "unread io = drop (rd_pos (io_reader io)) (buf_bytes (rd_data (io_reader io)))"

definition reader_ok :: "packet_io \<Rightarrow> bool" where
  "reader_ok io \<longleftrightarrow> reader_wf io \<and> rd_error (io_reader io) = PACKET_ERROR_NONE"

lemma reader_update_fields [simp]:
  "io_reader (io_update_scope f io) = io_reader io"
  "length (io_scopes (io_update_scope f io)) = length (io_scopes io)"
  "io_reader (io_update_reader g io) = g (io_reader io)"
  "io_scopes (io_update_reader g io) = io_scopes io"
  by (simp_all add: io_update_scope_def io_update_reader_def split: option.splits)

lemma io_advance_reader:
  "io_reader (io_advance n io) = (io_reader io)\<lparr>rd_pos := rd_pos (io_reader io) + n,
     rd_position := map_option (\<lambda>_. rd_pos (io_reader io) + n) (rd_position (io_reader io))\<rparr>"
  "length (io_scopes (io_advance n io)) = length (io_scopes io)"
  by (simp_all add: io_advance_def Let_def)

lemma packet_reader_fail_reader:
  "io_reader (packet_reader_fail e io) = (io_reader io)\<lparr>rd_error :=
     (if rd_error (io_reader io) = PACKET_ERROR_NONE then e else rd_error (io_reader io))\<rparr>"
  "length (io_scopes (packet_reader_fail e io)) = length (io_scopes io)"
  by (simp_all add: packet_reader_fail_def Let_def)

lemma buf_bytes_at: "buf_bytes (buf_at pos b) = drop pos (buf_bytes b)"
  by (cases b) (auto simp: buf_at_def buf_bytes_def)

lemma reader_remaining_unread: "reader_ok io \<Longrightarrow> packet_reader_remaining io = length (unread io)"
  by (simp add: reader_ok_def reader_wf_def packet_reader_remaining_def unread_def Let_def)

lemma unread_advance: "unread (io_advance n io) = drop n (unread io)"
  by (simp add: unread_def io_advance_reader add.commute)

lemma reader_ok_advance:
  "reader_ok io \<Longrightarrow> n \<le> length (unread io) \<Longrightarrow> reader_ok (io_advance n io)"
  by (auto simp: reader_ok_def reader_wf_def unread_def io_advance_reader Let_def)

lemma reader_wf_fail: "reader_wf io \<Longrightarrow> e \<noteq> PACKET_ERROR_NONE \<Longrightarrow> reader_wf (packet_reader_fail e io)"
  by (auto simp: reader_wf_def packet_reader_fail_reader Let_def)

lemma packet_reader_take_ok:
  assumes "reader_ok io" "0 < n" "n \<le> length (unread io)"
  obtains d where "packet_reader_take n io = (Some d, io_advance n io)" "buf_bytes (Some d) = unread io"
proof -
  have "rd_data (io_reader io) \<noteq> None"
    using assms by (auto simp: unread_def buf_bytes_def split: option.splits)
  then obtain d where d: "buf_at (rd_pos (io_reader io)) (rd_data (io_reader io)) = Some d"
    by (auto simp: buf_at_def)
  have "packet_reader_take n io = (Some d, io_advance n io)"
    using assms d reader_remaining_unread [OF assms(1)]
    by (simp add: packet_reader_take_def reader_ok_def)
  moreover have "buf_bytes (Some d) = unread io"
    unfolding d [symmetric] by (simp add: buf_bytes_at unread_def)
  ultimately show ?thesis by (rule that)
qed

lemma packet_reader_take_short:
  "reader_ok io \<Longrightarrow> length (unread io) < n \<Longrightarrow>
     packet_reader_take n io = (None, packet_reader_fail PACKET_ERROR_TRUNCATED io)"
  using reader_remaining_unread [of io] by (simp add: packet_reader_take_def reader_ok_def)

lemma packet_reader_take_error:
  "rd_error (io_reader io) \<noteq> PACKET_ERROR_NONE \<Longrightarrow> packet_reader_take n io = (None, io)"
  by (simp add: packet_reader_take_def)

section \<open>Bytes of a word\<close>

lemma bit_0xff: "bit (0xff :: 'a :: len word) i \<longleftrightarrow> i < 8 \<and> i < LENGTH('a)"
proof -
  have m: "(0xff :: 'a word) = mask 8" by (simp add: mask_eq_exp_minus_1)
  show ?thesis unfolding m bit_mask_iff by auto
qed

lemma bit_byte_at: "bit (byte_at k d) i \<longleftrightarrow> i < 8 \<and> bit d (k + i)"
  for d :: "'a :: len word"
proof -
  have "bit (byte_at k d) i \<longleftrightarrow> i < 8 \<and> i < LENGTH('a) \<and> bit d (k + i)"
    unfolding byte_at_def bit_unsigned_iff bit_and_iff bit_drop_bit_eq bit_0xff o_def
    by auto
  moreover have "bit d (k + i) \<Longrightarrow> k + i < LENGTH('a)" by (rule bit_imp_le_length)
  ultimately show ?thesis by auto
qed

text \<open>Below the sign bit the arithmetic and the logical shift agree.\<close>

lemma sbyte_at_eq: "k + 8 \<le> LENGTH('a) \<Longrightarrow> sbyte_at k d = byte_at k d"
  for d :: "'a :: len word"
  by (rule bit_eqI)
    (auto simp: sbyte_at_def byte_at_def bit_unsigned_iff bit_and_iff bit_drop_bit_eq
      bit_signed_drop_bit_iff bit_0xff)

lemma bit_push_byte:
  "bit (push_bit k (ucast (byte_at k d)) :: 'a word) n \<longleftrightarrow> k \<le> n \<and> n < k + 8 \<and> bit d n"
  for d :: "'a :: len word"
proof -
  have "bit (push_bit k (ucast (byte_at k d)) :: 'a word) n \<longleftrightarrow>
      k \<le> n \<and> n < LENGTH('a) \<and> n - k < 8 \<and> bit d n"
    by (auto simp: bit_push_bit_iff bit_unsigned_iff bit_byte_at dest: bit_imp_le_length)
  then show ?thesis using bit_imp_le_length [of d n] by auto
qed

lemma bit_low_byte: "bit (ucast (byte_at 0 d) :: 'a word) n \<longleftrightarrow> n < 8 \<and> bit d n" for d :: "'a :: len word"
  using bit_push_byte [of 0 d n] by simp

lemma uint16_bytes: "push_bit 8 (ucast (byte_at 8 d)) OR ucast (byte_at 0 d) = d" for d :: u16
  by (rule bit_word_eqI, unfold bit_or_iff bit_push_byte bit_low_byte) auto

lemma uint32_bytes:
  "push_bit 24 (ucast (byte_at 24 d)) OR push_bit 16 (ucast (byte_at 16 d)) OR
     push_bit 8 (ucast (byte_at 8 d)) OR ucast (byte_at 0 d) = d" for d :: u32
  apply (rule bit_word_eqI, unfold bit_or_iff bit_push_byte bit_low_byte)
  subgoal for n by (cases "bit d n") (simp_all, linarith)
  done

lemma uint64_bytes:
  "push_bit 56 (ucast (byte_at 56 d)) OR push_bit 48 (ucast (byte_at 48 d)) OR
     push_bit 40 (ucast (byte_at 40 d)) OR push_bit 32 (ucast (byte_at 32 d)) OR
     push_bit 24 (ucast (byte_at 24 d)) OR push_bit 16 (ucast (byte_at 16 d)) OR
     push_bit 8 (ucast (byte_at 8 d)) OR ucast (byte_at 0 d) = d" for d :: u64
  apply (rule bit_word_eqI, unfold bit_or_iff bit_push_byte bit_low_byte)
  subgoal for n by (cases "bit d n") (simp_all, linarith)
  done


section \<open>The interface between a write and its read\<close>

text \<open>
  A field codec is a write and a read with the encoding they agree on. The write stores the
  encoding as one block; the read of a buffer that starts with an encoding returns the
  value and advances exactly past it; on any buffer the read keeps the cursor in bounds, and
  after an error it does nothing.
\<close>

locale field_codec =
  fixes enc :: "'a \<Rightarrow> bytes" and valid :: "'a \<Rightarrow> bool"
    and put :: "'a \<Rightarrow> packet_struct \<Rightarrow> packet_struct"
    and get :: "packet_io \<Rightarrow> 'a \<times> packet_io"
  assumes put_store: "valid x \<Longrightarrow> put x p = packet_store (enc x) p"
    and get_enc: "valid x \<Longrightarrow> reader_ok io \<Longrightarrow> unread io = enc x @ rest \<Longrightarrow>
      get io = (x, io_advance (length (enc x)) io)"
    and get_wf: "reader_wf io \<Longrightarrow> reader_wf (snd (get io))"
    and get_sticky: "rd_error (io_reader io) \<noteq> PACKET_ERROR_NONE \<Longrightarrow> snd (get io) = io"
    and get_success: "reader_wf io \<Longrightarrow> rd_error (io_reader (snd (get io))) = PACKET_ERROR_NONE \<Longrightarrow>
      valid (fst (get io)) \<and> (\<exists>rest. unread io = enc (fst (get io)) @ rest)"
begin

text \<open>What was put is what is got, and the rest of the message stays unread.\<close>

lemma roundtrip:
  assumes "packet_wf p" "valid x" "pkt_error (put x p) = PACKET_ERROR_NONE"
    and "reader_ok io" "unread io = drop (pkt_len p) (pkt_data (put x p)) @ rest"
  shows "fst (get io) = x \<and> reader_ok (snd (get io)) \<and> unread (snd (get io)) = rest"
proof -
  have "pkt_data (put x p) = pkt_data p @ enc x"
    using packet_store_success [of p "enc x"] assms(1-3) by (simp add: put_store)
  then have u: "unread io = enc x @ rest"
    using assms(5) by (simp add: pkt_len_def)
  then show ?thesis
    using get_enc [OF assms(2,4) u] reader_ok_advance [OF assms(4), of "length (enc x)"]
    by (simp add: unread_advance)
qed

text \<open>A successful read consumed exactly the encoding of what it returned: encodings are canonical.\<close>

lemma get_canonical:
  assumes "reader_wf io" "rd_error (io_reader (snd (get io))) = PACKET_ERROR_NONE"
  shows "\<exists>rest. unread io = enc (fst (get io)) @ rest \<and> unread (snd (get io)) = rest"
proof -
  have "rd_error (io_reader io) = PACKET_ERROR_NONE"
    using assms(2) get_sticky [of io] by metis
  then have ok: "reader_ok io" using assms(1) by (simp add: reader_ok_def)
  obtain rest where v: "valid (fst (get io))" and u: "unread io = enc (fst (get io)) @ rest"
    using get_success [OF assms] by blast
  have "snd (get io) = io_advance (length (enc (fst (get io)))) io"
    using get_enc [OF v ok u] by (metis snd_conv)
  then have "unread (snd (get io)) = drop (length (enc (fst (get io)))) (unread io)"
    by (simp only: unread_advance)
  then show ?thesis using u by auto
qed

end

text \<open>A fixed-width codec: a decoder of \<open>width\<close> bytes that inverts the encoder on both sides.\<close>

locale fixed_codec =
  fixes width :: nat and enc :: "'a \<Rightarrow> bytes" and dec :: "bytes \<Rightarrow> 'a" and none :: 'a
    and put :: "'a \<Rightarrow> packet_struct \<Rightarrow> packet_struct"
    and get :: "packet_io \<Rightarrow> 'a \<times> packet_io"
  assumes width_pos: "0 < width"
    and enc_width: "length (enc x) = width"
    and dec_enc: "dec (enc x @ rest) = x"
    and enc_dec: "width \<le> length bs \<Longrightarrow> enc (dec bs) = take width bs"
    and put_fixed: "put x p = packet_store (enc x) p"
    and get_take: "get io = (let (data, io') = packet_reader_take width io
      in (if data = None then none else dec (buf_bytes data), io'))"
begin

lemma get_ok: "reader_ok io \<Longrightarrow> width \<le> length (unread io) \<Longrightarrow> get io = (dec (unread io), io_advance width io)"
  by (rule packet_reader_take_ok [of io width]) (auto simp: get_take width_pos)

lemma get_short:
  "reader_ok io \<Longrightarrow> length (unread io) < width \<Longrightarrow> get io = (none, packet_reader_fail PACKET_ERROR_TRUNCATED io)"
  by (simp add: get_take packet_reader_take_short)

lemma get_error: "rd_error (io_reader io) \<noteq> PACKET_ERROR_NONE \<Longrightarrow> get io = (none, io)"
  by (simp add: get_take packet_reader_take_error)

lemma get_cases:
  assumes "reader_wf io"
  obtains (ok) "reader_ok io" "width \<le> length (unread io)" "get io = (dec (unread io), io_advance width io)"
  | (short) "reader_ok io" "length (unread io) < width"
      "get io = (none, packet_reader_fail PACKET_ERROR_TRUNCATED io)"
  | (error) "rd_error (io_reader io) \<noteq> PACKET_ERROR_NONE" "get io = (none, io)"
  using assms get_ok get_short get_error unfolding reader_ok_def by (meson not_less)

end

sublocale fixed_codec \<subseteq> field_codec enc "\<lambda>_. True" put get
proof
  show "put x p = packet_store (enc x) p" for x p by (rule put_fixed)
  show "get io = (x, io_advance (length (enc x)) io)" if "reader_ok io" "unread io = enc x @ rest" for io x rest
    using get_ok [OF that(1)] that(2) by (simp add: dec_enc enc_width)
  show "reader_wf (snd (get io))" if "reader_wf io" for io
    using that
  proof (cases rule: get_cases)
    case ok
    then show ?thesis using reader_ok_advance [of io width] by (simp add: reader_ok_def)
  next
    case short
    then show ?thesis using reader_wf_fail [of io] by (simp add: reader_ok_def)
  qed (simp add: that)
  show "snd (get io) = io" if "rd_error (io_reader io) \<noteq> PACKET_ERROR_NONE" for io
    by (simp add: get_error [OF that])
  show "True \<and> (\<exists>rest. unread io = enc (fst (get io)) @ rest)"
    if "reader_wf io" "rd_error (io_reader (snd (get io))) = PACKET_ERROR_NONE" for io
    using that(1)
  proof (cases rule: get_cases)
    case ok
    then show ?thesis by (metis append_take_drop_id enc_dec fst_conv)
  qed (use that(2) in \<open>simp_all add: packet_reader_fail_reader reader_ok_def\<close>)
qed


section \<open>The integer codecs\<close>

lemma byte_at_or: "byte_at k (x OR y) = byte_at k x OR byte_at k y"
  by (rule bit_word_eqI) (auto simp: bit_byte_at bit_or_iff)

lemma byte_at_push: "k + 8 \<le> LENGTH('a) \<Longrightarrow> byte_at k (push_bit k (ucast a) :: 'a :: len word) = a"
  for a :: u8
  by (rule bit_word_eqI) (auto simp: bit_byte_at bit_push_bit_iff bit_unsigned_iff)

lemma byte_at_push_other:
  "j + 8 \<le> k \<or> k + 8 \<le> j \<Longrightarrow> byte_at k (push_bit j (ucast a) :: 'a :: len word) = 0" for a :: u8
  by (rule bit_word_eqI)
    (auto simp: bit_byte_at bit_push_bit_iff bit_unsigned_iff dest: bit_imp_le_length)

lemma byte_at_ucast: "8 \<le> LENGTH('a) \<Longrightarrow> byte_at 0 (ucast a :: 'a :: len word) = a" for a :: u8
  using byte_at_push [of 0 a] by simp

lemma byte_at_ucast_other: "8 \<le> k \<Longrightarrow> byte_at k (ucast a :: 'a :: len word) = 0" for a :: u8
  using byte_at_push_other [of 0 k a] by simp

lemmas byte_at_simps = byte_at_or byte_at_push byte_at_push_other byte_at_ucast byte_at_ucast_other

lemma take_nths_upt: "n \<le> length xs \<Longrightarrow> take n xs = map ((!) xs) [0..<n]"
  by (rule nth_equalityI) simp_all

definition enc8 :: "u8 \<Rightarrow> bytes" where "enc8 d = [d]"
definition enc16 :: "u16 \<Rightarrow> bytes" where "enc16 d = [byte_at 8 d, byte_at 0 d]"
definition enc32 :: "u32 \<Rightarrow> bytes" where
  "enc32 d = [byte_at 24 d, byte_at 16 d, byte_at 8 d, byte_at 0 d]"
definition enc64 :: "u64 \<Rightarrow> bytes" where
  "enc64 d = [byte_at 56 d, byte_at 48 d, byte_at 40 d, byte_at 32 d,
     byte_at 24 d, byte_at 16 d, byte_at 8 d, byte_at 0 d]"

definition dec8 :: "bytes \<Rightarrow> u8" where "dec8 b = b ! 0"
definition dec16 :: "bytes \<Rightarrow> u16" where "dec16 b = push_bit 8 (ucast (b ! 0)) OR ucast (b ! 1)"
definition dec32 :: "bytes \<Rightarrow> u32" where
  "dec32 b = push_bit 24 (ucast (b ! 0)) OR push_bit 16 (ucast (b ! 1)) OR
     push_bit 8 (ucast (b ! 2)) OR ucast (b ! 3)"
definition dec64 :: "bytes \<Rightarrow> u64" where
  "dec64 b = push_bit 56 (ucast (b ! 0)) OR push_bit 48 (ucast (b ! 1)) OR
     push_bit 40 (ucast (b ! 2)) OR push_bit 32 (ucast (b ! 3)) OR
     push_bit 24 (ucast (b ! 4)) OR push_bit 16 (ucast (b ! 5)) OR
     push_bit 8 (ucast (b ! 6)) OR ucast (b ! 7)"

text \<open>Encoder and decoder invert each other, at every width.\<close>

lemma enc_dec:
  "1 \<le> length bs \<Longrightarrow> enc8 (dec8 bs) = take 1 bs"
  "2 \<le> length bs \<Longrightarrow> enc16 (dec16 bs) = take 2 bs"
  "4 \<le> length bs \<Longrightarrow> enc32 (dec32 bs) = take 4 bs"
  "8 \<le> length bs \<Longrightarrow> enc64 (dec64 bs) = take 8 bs"
  by (simp_all add: take_nths_upt enc8_def dec8_def enc16_def dec16_def enc32_def dec32_def
      enc64_def dec64_def byte_at_simps upt_rec) (simp_all add: numeral_eq_Suc)

lemma dec_enc:
  "dec8 (enc8 x1 @ rest) = x1" "dec16 (enc16 x2 @ rest) = x2"
  "dec32 (enc32 x4 @ rest) = x4" "dec64 (enc64 x8 @ rest) = x8"
  by (simp_all add: enc8_def dec8_def enc16_def dec16_def enc32_def dec32_def enc64_def dec64_def
      uint16_bytes uint32_bytes uint64_bytes)

lemma enc_length:
  "length (enc8 x1) = 1" "length (enc16 x2) = 2" "length (enc32 x4) = 4" "length (enc64 x8) = 8"
  by (simp_all add: enc8_def enc16_def enc32_def enc64_def)

lemmas codec_enc = enc_dec dec_enc enc_length

text \<open>The writers store these encodings; for the signed ones the shift is arithmetic.\<close>

lemma writers_store:
  "packet_writer_write_uint8 x1 p = packet_store (enc8 x1) p"
  "packet_writer_write_int8 x1 p = packet_store (enc8 x1) p"
  "packet_writer_write_uint16 x2 p = packet_store (enc16 x2) p"
  "packet_writer_write_int16 x2 p = packet_store (enc16 x2) p"
  "packet_writer_write_uint32 x4 p = packet_store (enc32 x4) p"
  "packet_writer_write_int32 x4 p = packet_store (enc32 x4) p"
  "packet_writer_write_float x4 p = packet_store (enc32 x4) p"
  "packet_writer_write_uint64 x8 p = packet_store (enc64 x8) p"
  "packet_writer_write_int64 x8 p = packet_store (enc64 x8) p"
  "packet_writer_write_double x8 p = packet_store (enc64 x8) p"
  by (simp_all add: packet_writer_defs enc8_def enc16_def enc32_def enc64_def sbyte_at_eq)

text \<open>The readers take the width and decode it.\<close>

lemma unsigned_readers_take:
  "packet_reader_read_uint8 io = (let (data, io') = packet_reader_take 1 io
     in (if data = None then 0 else dec8 (buf_bytes data), io'))"
  "packet_reader_read_uint16 io = (let (data, io') = packet_reader_take 2 io
     in (if data = None then 0 else dec16 (buf_bytes data), io'))"
  "packet_reader_read_uint32 io = (let (data, io') = packet_reader_take 4 io
     in (if data = None then 0 else dec32 (buf_bytes data), io'))"
  "packet_reader_read_uint64 io = (let (data, io') = packet_reader_take 8 io
     in (if data = None then 0 else dec64 (buf_bytes data), io'))"
  unfolding packet_reader_read_uint8_def packet_reader_read_uint16_def packet_reader_read_uint32_def
    packet_reader_read_uint64_def dec8_def dec16_def dec32_def dec64_def Let_def
  by (rule refl)+

lemma signed_readers:
  "packet_reader_read_int8 io = packet_reader_read_uint8 io"
  "packet_reader_read_int16 io = packet_reader_read_uint16 io"
  "packet_reader_read_int32 io = packet_reader_read_uint32 io"
  "packet_reader_read_int64 io = packet_reader_read_uint64 io"
  "packet_reader_read_float io = packet_reader_read_uint32 io"
  "packet_reader_read_double io = packet_reader_read_uint64 io"
  by (simp_all add: packet_reader_read_int8_def packet_reader_read_int16_def packet_reader_read_int32_def
      packet_reader_read_int64_def packet_reader_read_float_def packet_reader_read_double_def)

interpretation uint8: fixed_codec 1 enc8 dec8 0 packet_writer_write_uint8 packet_reader_read_uint8
  by unfold_locales (simp, simp_all only: codec_enc writers_store signed_readers unsigned_readers_take)

interpretation int8: fixed_codec 1 enc8 dec8 0 packet_writer_write_int8 packet_reader_read_int8
  by unfold_locales (simp, simp_all only: codec_enc writers_store signed_readers unsigned_readers_take)

interpretation uint16: fixed_codec 2 enc16 dec16 0 packet_writer_write_uint16 packet_reader_read_uint16
  by unfold_locales (simp, simp_all only: codec_enc writers_store signed_readers unsigned_readers_take)

interpretation int16: fixed_codec 2 enc16 dec16 0 packet_writer_write_int16 packet_reader_read_int16
  by unfold_locales (simp, simp_all only: codec_enc writers_store signed_readers unsigned_readers_take)

interpretation uint32: fixed_codec 4 enc32 dec32 0 packet_writer_write_uint32 packet_reader_read_uint32
  by unfold_locales (simp, simp_all only: codec_enc writers_store signed_readers unsigned_readers_take)

interpretation int32: fixed_codec 4 enc32 dec32 0 packet_writer_write_int32 packet_reader_read_int32
  by unfold_locales (simp, simp_all only: codec_enc writers_store signed_readers unsigned_readers_take)

interpretation float: fixed_codec 4 enc32 dec32 0 packet_writer_write_float packet_reader_read_float
  by unfold_locales (simp, simp_all only: codec_enc writers_store signed_readers unsigned_readers_take)

interpretation uint64: fixed_codec 8 enc64 dec64 0 packet_writer_write_uint64 packet_reader_read_uint64
  by unfold_locales (simp, simp_all only: codec_enc writers_store signed_readers unsigned_readers_take)

interpretation int64: fixed_codec 8 enc64 dec64 0 packet_writer_write_int64 packet_reader_read_int64
  by unfold_locales (simp, simp_all only: codec_enc writers_store signed_readers unsigned_readers_take)

interpretation double: fixed_codec 8 enc64 dec64 0 packet_writer_write_double packet_reader_read_double
  by unfold_locales (simp, simp_all only: codec_enc writers_store signed_readers unsigned_readers_take)

end
