(* ===== verification/Packet_Message.thy ===== *)
theory Packet_Message
  imports Packet_Codec
begin

text \<open>
  The string and byte-block codecs, whole messages as sequences of typed fields with their
  round trip, and the behaviour of the remaining writer and reader operations.
\<close>

section \<open>Strings\<close>

lemma nul_offset_Some:
  "nul_offset n bs = Some k \<longleftrightarrow> k < n \<and> k < length bs \<and> bs ! k = 0 \<and> (\<forall>j < k. bs ! j \<noteq> 0)"
  by (auto simp: nul_offset_def find_Some_iff)

lemma nul_offset_None: "nul_offset n bs = None \<longleftrightarrow> (\<forall>k < length bs. k < n \<longrightarrow> bs ! k \<noteq> 0)"
  by (auto simp: nul_offset_def find_None_iff)

lemma nul_split:
  "(\<exists>s rest. bs = s @ 0 # rest \<and> 0 \<notin> set s \<and> length s = k) \<longleftrightarrow>
     k < length bs \<and> bs ! k = (0 :: u8) \<and> (\<forall>j < k. bs ! j \<noteq> 0)" (is "?L \<longleftrightarrow> ?R")
proof
  assume ?L
  then show ?R by (auto simp: nth_append in_set_conv_nth)
next
  assume r: ?R
  then have "bs = take k bs @ 0 # drop (Suc k) bs" by (metis id_take_nth_drop)
  moreover have "0 \<notin> set (take k bs)" using r by (auto simp: in_set_conv_nth)
  moreover have "length (take k bs) = k" using r by simp
  ultimately show ?L by blast
qed

lemma string_view_here:
  "reader_ok io \<Longrightarrow> buf_bytes (buf_at (rd_pos (io_reader io)) (rd_data (io_reader io))) = unread io"
  by (simp add: buf_bytes_at unread_def)

lemma read_string_view_cases:
  assumes wf: "reader_wf io"
  obtains (ok) s rest v where "reader_ok io" "unread io = s @ 0 # rest" "0 \<notin> set s" "length s \<le> max_len"
      "packet_reader_read_string_view max_len io = (v, io_advance (length s + 1) io)"
      "view_bytes v = s" "view_len v = length s"
  | (failed) e where "reader_ok io" "e \<in> {PACKET_ERROR_TRUNCATED, PACKET_ERROR_LIMIT_EXCEEDED}"
      "packet_reader_read_string_view max_len io = (empty_view, packet_reader_fail e io)"
      "\<not> (\<exists>s rest. unread io = s @ 0 # rest \<and> 0 \<notin> set s \<and> length s \<le> max_len)"
      "e = PACKET_ERROR_LIMIT_EXCEEDED \<longleftrightarrow> max_len < length (unread io)"
  | (sticky) "rd_error (io_reader io) \<noteq> PACKET_ERROR_NONE"
      "packet_reader_read_string_view max_len io = (empty_view, io)"
proof (cases "rd_error (io_reader io) = PACKET_ERROR_NONE")
  case False
  then show ?thesis by (intro sticky) (simp_all add: packet_reader_read_string_view_def)
next
  case True
  then have io: "reader_ok io" using wf by (simp add: reader_ok_def)
  let ?u = "unread io" and ?here = "buf_at (rd_pos (io_reader io)) (rd_data (io_reader io))"
  let ?n = "min (length ?u) (max_len + (if max_len \<noteq> SIZE_MAX then 1 else 0))"
  have bound: "length ?u \<le> SIZE_MAX"
    using io by (auto simp: unread_def reader_ok_def reader_wf_def Let_def)
  have search: "k < ?n \<longleftrightarrow> k < length ?u \<and> k \<le> max_len" for k
    using bound by auto
  note unfold = packet_reader_read_string_view_def True reader_remaining_unread [OF io]
    string_view_here [OF io] Let_def
  show ?thesis
  proof (cases "nul_offset ?n ?u")
    case None
    have no: "\<not> (\<exists>s rest. ?u = s @ 0 # rest \<and> 0 \<notin> set s \<and> length s \<le> max_len)"
      using None unfolding nul_offset_None search by (metis nul_split)
    show ?thesis
    proof (cases "?u = []")
      case True
      then show ?thesis by (intro failed [OF io _ _ no, of PACKET_ERROR_TRUNCATED]) (simp_all add: unfold)
    next
      case False
      then show ?thesis
        by (intro failed [OF io _ _ no, of "if max_len < length ?u then PACKET_ERROR_LIMIT_EXCEEDED
            else PACKET_ERROR_TRUNCATED"]) (use None in \<open>simp_all add: unfold\<close>)
    qed
  next
    case (Some k)
    then have k: "k < length ?u" "k \<le> max_len" "?u ! k = 0" "\<forall>j < k. ?u ! j \<noteq> 0"
      unfolding nul_offset_Some search by blast+
    then obtain s rest where s: "?u = s @ 0 # rest" "0 \<notin> set s" "length s = k"
      using nul_split [of ?u k] by blast
    have "packet_reader_read_string_view max_len io =
        (\<lparr>view_data = ?here, view_len = k\<rparr>, io_advance (length s + 1) io)"
      using Some k s by (auto simp: unfold)
    then show ?thesis
      by (rule ok [OF io s(1,2), rotated])
        (use s k io in \<open>simp_all add: view_bytes_def string_view_here\<close>)
  qed
qed

text \<open>Reading a string as its bytes; the encoding is the string and its terminator.\<close>

definition get_cstring :: "nat \<Rightarrow> packet_io \<Rightarrow> bytes \<times> packet_io" where
  "get_cstring max_len io = map_prod view_bytes id (packet_reader_read_string_view max_len io)"

definition cstring_valid :: "nat \<Rightarrow> bytes \<Rightarrow> bool" where
  "cstring_valid max_len s \<longleftrightarrow> 0 \<notin> set s \<and> length s \<le> max_len \<and> length s < SIZE_MAX"

lemma c_string_no_nul: "0 \<notin> set s \<Longrightarrow> c_string s = s"
  by (auto simp: c_string_def takeWhile_eq_all_conv)

lemma nul_split_unique: "s @ (0 :: u8) # r = s' @ 0 # r' \<Longrightarrow> 0 \<notin> set s \<Longrightarrow> 0 \<notin> set s' \<Longrightarrow> s = s'"
  by (induction s arbitrary: s') (case_tac s'; auto)+

lemma reader_ok_length: "reader_ok io \<Longrightarrow> length (unread io) \<le> SIZE_MAX"
  by (auto simp: unread_def reader_ok_def reader_wf_def Let_def)

lemma reader_ok_wf: "reader_ok io \<Longrightarrow> reader_wf io"
  by (simp add: reader_ok_def)

interpretation cstring: field_codec "\<lambda>s. s @ [0]" "cstring_valid max_len"
  "\<lambda>s. packet_writer_write_cstring (Some s)" "get_cstring max_len" for max_len
proof
  show "packet_writer_write_cstring (Some s) p = packet_store (s @ [0]) p" if "cstring_valid max_len s" for s p
    using that by (simp add: packet_writer_write_cstring_def packet_writer_write_cstring_n_def
        cstring_valid_def c_string_no_nul)
  show "get_cstring max_len io = (s, io_advance (length (s @ [0])) io)"
    if v: "cstring_valid max_len s" and io: "reader_ok io" and u: "unread io = (s @ [0]) @ rest" for s io rest
    using reader_ok_wf [OF io]
  proof (cases rule: read_string_view_cases [where max_len = max_len])
    case (ok s' rest' w)
    then have "s' = s" using u v nul_split_unique [of s rest s' rest'] by (auto simp: cstring_valid_def)
    then show ?thesis using ok by (simp add: get_cstring_def)
  next
    case (failed e)
    then show ?thesis using u v by (auto simp: cstring_valid_def)
  next
    case sticky
    then show ?thesis using io by (simp add: reader_ok_def)
  qed
  show "reader_wf (snd (get_cstring max_len io))" if "reader_wf io" for io
    using that
  proof (cases rule: read_string_view_cases [where max_len = max_len])
    case (ok s rest w)
    then show ?thesis
      using reader_ok_advance [of io "length s + 1"] by (simp add: get_cstring_def reader_ok_def)
  next
    case (failed e)
    then show ?thesis using reader_wf_fail [OF that, of e] by (auto simp: get_cstring_def)
  next
    case sticky
    then show ?thesis using that by (simp add: get_cstring_def)
  qed
  show "snd (get_cstring max_len io) = io" if "rd_error (io_reader io) \<noteq> PACKET_ERROR_NONE" for io
    using that by (simp add: get_cstring_def packet_reader_read_string_view_def)
  show "cstring_valid max_len (fst (get_cstring max_len io)) \<and>
      (\<exists>rest. unread io = (fst (get_cstring max_len io) @ [0]) @ rest)"
    if "reader_wf io" "rd_error (io_reader (snd (get_cstring max_len io))) = PACKET_ERROR_NONE" for io
    using that(1)
  proof (cases rule: read_string_view_cases [where max_len = max_len])
    case (ok s rest w)
    then show ?thesis using reader_ok_length [of io] by (simp add: get_cstring_def cstring_valid_def)
  qed (use that(2) in \<open>auto simp: get_cstring_def packet_reader_fail_reader reader_ok_def\<close>)
qed


section \<open>Blocks of known length\<close>

definition get_block :: "nat \<Rightarrow> packet_io \<Rightarrow> bytes \<times> packet_io" where
  "get_block n io = map_prod view_bytes id (packet_reader_read_view n io)"

lemma get_block_ok:
  assumes "reader_ok io" "0 < n" "n \<le> length (unread io)"
  shows "get_block n io = (take n (unread io), io_advance n io)"
  using assms by (rule packet_reader_take_ok)
    (auto simp: get_block_def packet_reader_read_view_def view_bytes_def)

lemma get_block_short:
  "reader_ok io \<Longrightarrow> length (unread io) < n \<Longrightarrow> get_block n io = ([], packet_reader_fail PACKET_ERROR_TRUNCATED io)"
  by (simp add: get_block_def packet_reader_read_view_def packet_reader_take_short view_bytes_def
      empty_view_def buf_bytes_def)

lemma get_block_error: "rd_error (io_reader io) \<noteq> PACKET_ERROR_NONE \<Longrightarrow> get_block n io = ([], io)"
  by (simp add: get_block_def packet_reader_read_view_def packet_reader_take_error view_bytes_def
      empty_view_def buf_bytes_def)

interpretation block: field_codec "\<lambda>bs. bs" "\<lambda>bs. length bs = Suc n"
  "\<lambda>bs. packet_writer_write_bytes (Some bs)" "get_block (Suc n)" for n
proof
  show "packet_writer_write_bytes (Some bs) p = packet_store bs p" if "length bs = Suc n" for bs p
    using that by (auto simp: packet_writer_write_bytes_def)
  show "get_block (Suc n) io = (bs, io_advance (length bs) io)"
    if "length bs = Suc n" "reader_ok io" "unread io = bs @ rest" for bs io rest
    using get_block_ok [OF that(2), of "Suc n"] that by simp
  show "reader_wf (snd (get_block (Suc n) io))" if "reader_wf io" for io
    by (metis get_block_error get_block_ok get_block_short not_less packet_error.distinct(1)
        reader_ok_advance reader_ok_def reader_wf_fail snd_conv that zero_less_Suc)
  show "snd (get_block (Suc n) io) = io" if "rd_error (io_reader io) \<noteq> PACKET_ERROR_NONE" for io
    by (simp add: get_block_error [OF that])
  show "length (fst (get_block (Suc n) io)) = Suc n \<and> (\<exists>rest. unread io = fst (get_block (Suc n) io) @ rest)"
    if "reader_wf io" and e: "rd_error (io_reader (snd (get_block (Suc n) io))) = PACKET_ERROR_NONE" for io
  proof -
    have io: "reader_ok io"
      using that get_block_error [of io "Suc n"] unfolding reader_ok_def by (metis snd_conv)
    have "\<not> length (unread io) < Suc n"
      using e io get_block_short [OF io, of "Suc n"]
      by (auto simp: packet_reader_fail_reader reader_ok_def)
    then show ?thesis
      using get_block_ok [OF io, of "Suc n"] append_take_drop_id [of "Suc n" "unread io"]
      by (auto simp del: append_take_drop_id intro: exI [of _ "drop (Suc n) (unread io)"])
  qed
qed


section \<open>Messages\<close>

text \<open>A message is a sequence of typed fields; \<open>wire_type\<close> is what the reader expects.\<close>

datatype wire_field =
    F_uint8 u8 | F_int8 u8 | F_uint16 u16 | F_int16 u16 | F_uint32 u32 | F_int32 u32
  | F_uint64 u64 | F_int64 u64 | F_float u32 | F_double u64 | F_cstring bytes | F_block bytes

datatype wire_type =
    T_uint8 | T_int8 | T_uint16 | T_int16 | T_uint32 | T_int32
  | T_uint64 | T_int64 | T_float | T_double | T_cstring nat | T_block nat

primrec wire_enc :: "wire_field \<Rightarrow> bytes" where
  "wire_enc (F_uint8 x) = enc8 x"
| "wire_enc (F_int8 x) = enc8 x"
| "wire_enc (F_uint16 x) = enc16 x"
| "wire_enc (F_int16 x) = enc16 x"
| "wire_enc (F_uint32 x) = enc32 x"
| "wire_enc (F_int32 x) = enc32 x"
| "wire_enc (F_uint64 x) = enc64 x"
| "wire_enc (F_int64 x) = enc64 x"
| "wire_enc (F_float x) = enc32 x"
| "wire_enc (F_double x) = enc64 x"
| "wire_enc (F_cstring s) = s @ [0]"
| "wire_enc (F_block bs) = bs"

text \<open>\<open>T_block n\<close> is a block of \<open>n + 1\<close> bytes.\<close>

primrec wire_fits :: "wire_type \<Rightarrow> wire_field \<Rightarrow> bool" where
  "wire_fits T_uint8 f = (case f of F_uint8 _ \<Rightarrow> True | _ \<Rightarrow> False)"
| "wire_fits T_int8 f = (case f of F_int8 _ \<Rightarrow> True | _ \<Rightarrow> False)"
| "wire_fits T_uint16 f = (case f of F_uint16 _ \<Rightarrow> True | _ \<Rightarrow> False)"
| "wire_fits T_int16 f = (case f of F_int16 _ \<Rightarrow> True | _ \<Rightarrow> False)"
| "wire_fits T_uint32 f = (case f of F_uint32 _ \<Rightarrow> True | _ \<Rightarrow> False)"
| "wire_fits T_int32 f = (case f of F_int32 _ \<Rightarrow> True | _ \<Rightarrow> False)"
| "wire_fits T_uint64 f = (case f of F_uint64 _ \<Rightarrow> True | _ \<Rightarrow> False)"
| "wire_fits T_int64 f = (case f of F_int64 _ \<Rightarrow> True | _ \<Rightarrow> False)"
| "wire_fits T_float f = (case f of F_float _ \<Rightarrow> True | _ \<Rightarrow> False)"
| "wire_fits T_double f = (case f of F_double _ \<Rightarrow> True | _ \<Rightarrow> False)"
| "wire_fits (T_cstring max_len) f = (case f of F_cstring s \<Rightarrow> cstring_valid max_len s | _ \<Rightarrow> False)"
| "wire_fits (T_block n) f = (case f of F_block bs \<Rightarrow> length bs = Suc n | _ \<Rightarrow> False)"

primrec wire_put :: "wire_field \<Rightarrow> packet_struct \<Rightarrow> packet_struct" where
  "wire_put (F_uint8 x) = packet_writer_write_uint8 x"
| "wire_put (F_int8 x) = packet_writer_write_int8 x"
| "wire_put (F_uint16 x) = packet_writer_write_uint16 x"
| "wire_put (F_int16 x) = packet_writer_write_int16 x"
| "wire_put (F_uint32 x) = packet_writer_write_uint32 x"
| "wire_put (F_int32 x) = packet_writer_write_int32 x"
| "wire_put (F_uint64 x) = packet_writer_write_uint64 x"
| "wire_put (F_int64 x) = packet_writer_write_int64 x"
| "wire_put (F_float x) = packet_writer_write_float x"
| "wire_put (F_double x) = packet_writer_write_double x"
| "wire_put (F_cstring s) = packet_writer_write_cstring (Some s)"
| "wire_put (F_block bs) = packet_writer_write_bytes (Some bs)"

primrec wire_get :: "wire_type \<Rightarrow> packet_io \<Rightarrow> wire_field \<times> packet_io" where
  "wire_get T_uint8 io = map_prod F_uint8 id (packet_reader_read_uint8 io)"
| "wire_get T_int8 io = map_prod F_int8 id (packet_reader_read_int8 io)"
| "wire_get T_uint16 io = map_prod F_uint16 id (packet_reader_read_uint16 io)"
| "wire_get T_int16 io = map_prod F_int16 id (packet_reader_read_int16 io)"
| "wire_get T_uint32 io = map_prod F_uint32 id (packet_reader_read_uint32 io)"
| "wire_get T_int32 io = map_prod F_int32 id (packet_reader_read_int32 io)"
| "wire_get T_uint64 io = map_prod F_uint64 id (packet_reader_read_uint64 io)"
| "wire_get T_int64 io = map_prod F_int64 id (packet_reader_read_int64 io)"
| "wire_get T_float io = map_prod F_float id (packet_reader_read_float io)"
| "wire_get T_double io = map_prod F_double id (packet_reader_read_double io)"
| "wire_get (T_cstring max_len) io = map_prod F_cstring id (get_cstring max_len io)"
| "wire_get (T_block n) io = map_prod F_block id (get_block (Suc n) io)"

text \<open>A codec stays a codec when its values are tagged.\<close>

lemma field_codec_tagged:
  assumes c: "field_codec enc valid put get" and inj: "\<And>x. wire_enc (tag x) = enc x"
    and fits: "\<And>f. wire_fits t f \<longleftrightarrow> (\<exists>x. f = tag x \<and> valid x)"
    and p: "\<And>x. wire_put (tag x) = put x" and g: "\<And>io. wire_get t io = map_prod tag id (get io)"
  shows "field_codec wire_enc (wire_fits t) wire_put (wire_get t)"
proof -
  have "reader_wf io \<Longrightarrow> rd_error (io_reader (snd (get io))) = PACKET_ERROR_NONE \<Longrightarrow>
      valid (fst (get io)) \<and> (\<exists>rest. unread io = enc (fst (get io)) @ rest)" for io
    by (rule field_codec.get_success [OF c])
  then show ?thesis
    by unfold_locales (auto simp: fits inj p g field_codec.put_store [OF c] field_codec.get_enc [OF c]
        field_codec.get_wf [OF c] field_codec.get_sticky [OF c])
qed

lemma wire_codec: "field_codec wire_enc (wire_fits t) wire_put (wire_get t)"
proof (cases t)
  case T_uint8
  show ?thesis unfolding T_uint8
    by (rule field_codec_tagged [where tag = F_uint8, OF uint8.field_codec_axioms]) (simp_all split: wire_field.splits)
next
  case T_int8
  show ?thesis unfolding T_int8
    by (rule field_codec_tagged [where tag = F_int8, OF int8.field_codec_axioms]) (simp_all split: wire_field.splits)
next
  case T_uint16
  show ?thesis unfolding T_uint16
    by (rule field_codec_tagged [where tag = F_uint16, OF uint16.field_codec_axioms]) (simp_all split: wire_field.splits)
next
  case T_int16
  show ?thesis unfolding T_int16
    by (rule field_codec_tagged [where tag = F_int16, OF int16.field_codec_axioms]) (simp_all split: wire_field.splits)
next
  case T_uint32
  show ?thesis unfolding T_uint32
    by (rule field_codec_tagged [where tag = F_uint32, OF uint32.field_codec_axioms]) (simp_all split: wire_field.splits)
next
  case T_int32
  show ?thesis unfolding T_int32
    by (rule field_codec_tagged [where tag = F_int32, OF int32.field_codec_axioms]) (simp_all split: wire_field.splits)
next
  case T_uint64
  show ?thesis unfolding T_uint64
    by (rule field_codec_tagged [where tag = F_uint64, OF uint64.field_codec_axioms]) (simp_all split: wire_field.splits)
next
  case T_int64
  show ?thesis unfolding T_int64
    by (rule field_codec_tagged [where tag = F_int64, OF int64.field_codec_axioms]) (simp_all split: wire_field.splits)
next
  case T_float
  show ?thesis unfolding T_float
    by (rule field_codec_tagged [where tag = F_float, OF float.field_codec_axioms]) (simp_all split: wire_field.splits)
next
  case T_double
  show ?thesis unfolding T_double
    by (rule field_codec_tagged [where tag = F_double, OF double.field_codec_axioms]) (simp_all split: wire_field.splits)
next
  case (T_cstring m)
  show ?thesis unfolding T_cstring
    by (rule field_codec_tagged [where tag = F_cstring, OF cstring.field_codec_axioms]) (simp_all split: wire_field.splits)
next
  case (T_block n)
  show ?thesis unfolding T_block
    by (rule field_codec_tagged [where tag = F_block, OF block.field_codec_axioms]) (simp_all split: wire_field.splits)
qed

interpretation wire: field_codec wire_enc "wire_fits t" wire_put "wire_get t" for t
  by (rule wire_codec)

definition wire_put_all :: "wire_field list \<Rightarrow> packet_struct \<Rightarrow> packet_struct" where
  "wire_put_all fs p = fold wire_put fs p"

fun wire_get_all :: "wire_type list \<Rightarrow> packet_io \<Rightarrow> wire_field list \<times> packet_io" where
  "wire_get_all [] io = ([], io)"
| "wire_get_all (t # ts) io =
     (let (f, io) = wire_get t io; (fs, io) = wire_get_all ts io in (f # fs, io))"

definition message_enc :: "wire_field list \<Rightarrow> bytes" where
  "message_enc fs = concat (map wire_enc fs)"

text \<open>A message of which every field was stored holds the concatenated encodings.\<close>

lemma wire_put_sticky: "wire_fits t f \<Longrightarrow> pkt_error p \<noteq> PACKET_ERROR_NONE \<Longrightarrow> wire_put f p = p"
  by (simp add: wire.put_store packet_store_error)

lemma wire_put_all_sticky:
  "list_all2 wire_fits ts fs \<Longrightarrow> pkt_error p \<noteq> PACKET_ERROR_NONE \<Longrightarrow> wire_put_all fs p = p"
  unfolding wire_put_all_def
  by (induction ts fs arbitrary: p rule: list_all2_induct) (simp_all add: wire_put_sticky)

lemma wire_put_all_data:
  assumes "list_all2 wire_fits ts fs" "packet_wf p" "pkt_error (wire_put_all fs p) = PACKET_ERROR_NONE"
  shows "pkt_data (wire_put_all fs p) = pkt_data p @ message_enc fs \<and> packet_wf (wire_put_all fs p)"
  using assms
proof (induction ts fs arbitrary: p rule: list_all2_induct)
  case Nil
  then show ?case by (simp add: wire_put_all_def message_enc_def)
next
  case (Cons t ts f fs)
  have put: "wire_put f p = packet_store (wire_enc f) p" using Cons.hyps(1) by (rule wire.put_store)
  have all: "wire_put_all (f # fs) p = wire_put_all fs (packet_store (wire_enc f) p)"
    by (simp add: wire_put_all_def put)
  have "pkt_error (packet_store (wire_enc f) p) = PACKET_ERROR_NONE"
    using wire_put_all_sticky [OF Cons.hyps(2), of "packet_store (wire_enc f) p"] Cons.prems(2)
    unfolding all by metis
  then have "pkt_data (packet_store (wire_enc f) p) = pkt_data p @ wire_enc f"
    using packet_store_success [OF Cons.prems(1)] by simp
  then show ?case
    using Cons.IH [of "packet_store (wire_enc f) p"] Cons.prems packet_store_wf
    unfolding all by (simp add: message_enc_def)
qed

text \<open>Reading an encoded message returns its fields and leaves what follows.\<close>

lemma wire_get_all_enc:
  assumes "list_all2 wire_fits ts fs" "reader_ok io" "unread io = message_enc fs @ rest"
  shows "fst (wire_get_all ts io) = fs \<and> reader_ok (snd (wire_get_all ts io)) \<and>
    unread (snd (wire_get_all ts io)) = rest"
  using assms
proof (induction ts fs arbitrary: io rule: list_all2_induct)
  case Nil
  then show ?case by (simp add: message_enc_def)
next
  case (Cons t ts f fs)
  have u: "unread io = wire_enc f @ message_enc fs @ rest"
    using Cons.prems(2) by (simp add: message_enc_def)
  have g: "wire_get t io = (f, io_advance (length (wire_enc f)) io)"
    by (rule wire.get_enc [OF Cons.hyps(1) Cons.prems(1) u])
  have "reader_ok (io_advance (length (wire_enc f)) io)"
    by (rule reader_ok_advance) (simp_all add: Cons.prems(1) u)
  moreover have "unread (io_advance (length (wire_enc f)) io) = message_enc fs @ rest"
    by (simp add: unread_advance u)
  ultimately show ?case using Cons.IH by (auto simp: g split_beta)
qed

text \<open>Conversely every successful read consumed the encoding of what it returned.\<close>

lemma wire_get_all_sticky:
  "rd_error (io_reader io) \<noteq> PACKET_ERROR_NONE \<Longrightarrow> snd (wire_get_all ts io) = io"
  by (induction ts arbitrary: io) (simp_all add: split_beta wire.get_sticky)

lemma wire_get_all_wf: "reader_wf io \<Longrightarrow> reader_wf (snd (wire_get_all ts io))"
  by (induction ts arbitrary: io) (simp_all add: split_beta wire.get_wf)

lemma wire_get_all_canonical:
  assumes "reader_wf io" "rd_error (io_reader (snd (wire_get_all ts io))) = PACKET_ERROR_NONE"
  shows "list_all2 wire_fits ts (fst (wire_get_all ts io)) \<and>
    unread io = message_enc (fst (wire_get_all ts io)) @ unread (snd (wire_get_all ts io))"
  using assms
proof (induction ts arbitrary: io)
  case Nil
  then show ?case by (simp add: message_enc_def)
next
  case (Cons t ts)
  let ?io = "snd (wire_get t io)"
  have e: "rd_error (io_reader (snd (wire_get_all ts ?io))) = PACKET_ERROR_NONE"
    using Cons.prems(2) by (simp add: split_beta)
  then have ok: "rd_error (io_reader ?io) = PACKET_ERROR_NONE"
    using wire_get_all_sticky [of ?io ts] by metis
  have "wire_fits t (fst (wire_get t io))"
    using wire.get_success [OF Cons.prems(1) ok] by simp
  moreover have "unread io = wire_enc (fst (wire_get t io)) @ unread ?io"
    using wire.get_canonical [OF Cons.prems(1) ok] by auto
  ultimately show ?case
    using Cons.IH [OF wire.get_wf [OF Cons.prems(1)] e] by (simp add: split_beta message_enc_def)
qed

end
