(* ===== verification/Packet_Session.thy ===== *)
theory Packet_Session
  imports Packet_Message
begin

text \<open>
  Arbitrary use of the packet interface as step relations: what every sequence of writer
  operations keeps of a packet, and what every sequence of reader operations keeps of a
  cursor and of the dispatch scope it reports to.
\<close>

section \<open>Writing\<close>

inductive packet_step :: "packet_struct \<Rightarrow> packet_struct \<Rightarrow> bool" where
  put: "packet_step p (wire_put f p)"
| write_bytes: "packet_step p (packet_writer_write_bytes data p)"
| string_n: "packet_step p (packet_writer_write_string_n data p)"
| string: "packet_step p (packet_writer_write_string data p)"
| cstring_n: "packet_step p (packet_writer_write_cstring_n data p)"
| cstring: "packet_step p (packet_writer_write_cstring data p)"
| packet: "packet_step p (packet_writer_write_packet src p)"
| set_limit: "limit \<le> SIZE_MAX \<Longrightarrow> packet_step p (packet_writer_set_limit limit p)"
| delete: "packet_step p (packet_delete pos len p)"
| rollback: "packet_writer_rollback mark p = Some p' \<Longrightarrow> packet_step p p'"
| ndelay: "packet_step p (packet_enable_ndelay p)"

inductive packet_session :: "packet_struct \<Rightarrow> bool" where
  new: "sz \<le> SIZE_MAX \<Longrightarrow> packet_session (packet_new type sz expand)"
| step: "packet_session p \<Longrightarrow> packet_step p p' \<Longrightarrow> packet_session p'"

text \<open>Every write is a store or nothing, or it records an oversized string.\<close>

lemma packet_write_cases:
  "packet_writer_write_bytes data p = p \<or> (\<exists>bs. packet_writer_write_bytes data p = packet_store bs p)"
  "packet_writer_write_string_n data p = p \<or> (\<exists>bs. packet_writer_write_string_n data p = packet_store bs p)"
  "packet_writer_write_cstring_n data p = p \<or> (\<exists>bs. packet_writer_write_cstring_n data p = packet_store bs p) \<or>
     packet_writer_write_cstring_n data p = p\<lparr>pkt_error := PACKET_ERROR_SIZE_OVERFLOW\<rparr>"
  by (auto simp: packet_writer_write_bytes_def packet_writer_write_string_n_def
      packet_writer_write_cstring_n_def split: option.splits)

lemma packet_wf_error [simp]: "packet_wf (p\<lparr>pkt_error := e\<rparr>) \<longleftrightarrow> packet_wf p"
  by (simp add: packet_wf_def pkt_len_def)

lemma packet_writes_wf:
  assumes "packet_wf p"
  shows "packet_wf (packet_writer_write_bytes data p)" "packet_wf (packet_writer_write_string_n data p)"
    "packet_wf (packet_writer_write_cstring_n data p)"
  using packet_write_cases [of data p] assms by (metis packet_store_wf packet_wf_error)+

lemma wire_put_wf: "packet_wf p \<Longrightarrow> packet_wf (wire_put f p)"
  by (cases f) (simp_all add: writers_store packet_store_wf packet_writes_wf packet_writer_write_cstring_def)

text \<open>The overlapping move of \<open>packet_delete\<close> closes the gap.\<close>

lemma packet_delete_data:
  "pkt_data (packet_delete pos len p) =
     (if pos + len \<le> pkt_len p then take pos (pkt_data p) @ drop (pos + len) (pkt_data p) else pkt_data p)"
proof -
  have "take (n - len) (take pos xs @ drop (pos + len) xs @ zs) = take pos xs @ drop (pos + len) xs"
    if "n = length xs" "pos + len \<le> n" for n and xs zs :: bytes
    using that by simp
  moreover have "take (length xs - len) xs = take pos xs" if "pos + len = length xs" for xs :: bytes
    using that by (metis add_diff_cancel_right')
  ultimately show ?thesis by (auto simp: packet_delete_def pkt_len_def Let_def)
qed

lemma packet_delete_fields:
  "packet_delete pos len p = p\<lparr>pkt_data := pkt_data (packet_delete pos len p)\<rparr>"
  by (simp add: packet_delete_def Let_def)

lemma packet_delete_wf: "packet_wf p \<Longrightarrow> packet_wf (packet_delete pos len p)"
  by (subst packet_delete_fields) (auto simp: packet_wf_def pkt_len_def packet_delete_data)

lemma packet_step_wf: "packet_step p p' \<Longrightarrow> packet_wf p \<Longrightarrow> packet_wf p'"
proof (induction rule: packet_step.induct)
  case (set_limit limit p)
  then show ?case by (simp add: packet_writer_set_limit_def packet_wf_def pkt_len_def)
next
  case (rollback mark p p')
  then show ?case by (auto simp: packet_writer_rollback_def packet_wf_def pkt_len_def split: if_splits)
next
  case (ndelay p)
  then show ?case by (simp add: packet_enable_ndelay_def packet_wf_def pkt_len_def)
qed (simp_all add: wire_put_wf packet_writes_wf packet_delete_wf packet_writer_write_string_def
    packet_writer_write_cstring_def packet_writer_write_packet_def)

lemma packet_session_wf: "packet_session p \<Longrightarrow> packet_wf p"
  by (induction rule: packet_session.induct) (simp_all add: packet_new_wf packet_step_wf)

text \<open>When a store succeeds, exactly.\<close>

lemma packet_store_success_iff:
  assumes "packet_wf p"
  shows "pkt_error (packet_store bs p) = PACKET_ERROR_NONE \<longleftrightarrow> pkt_error p = PACKET_ERROR_NONE \<and>
    pkt_len p + length bs \<le> pkt_limit p \<and>
    (pkt_len p + length bs \<le> pkt_size p \<or> length bs \<le> pkt_limit p - pkt_size p)"
  using assms
  by (auto simp: packet_store_def packet_ensure_def packet_wf_def Let_def pkt_len_def split_beta)

text \<open>Writes only append, so a rollback to an earlier mark undoes them.\<close>

lemma packet_store_prefix: "\<exists>bs'. pkt_data (packet_store bs p) = pkt_data p @ bs'"
  by (auto simp: packet_store_def packet_ensure_def Let_def split_beta)

lemma wire_put_prefix: "\<exists>bs. pkt_data (wire_put f p) = pkt_data p @ bs"
proof -
  have "\<exists>bs. pkt_data (packet_writer_write_bytes data p) = pkt_data p @ bs"
    and "\<exists>bs. pkt_data (packet_writer_write_cstring_n data p) = pkt_data p @ bs" for data
    using packet_write_cases [of data p] packet_store_prefix [of _ p] by auto
  then show ?thesis
    by (cases f) (simp_all add: writers_store packet_store_prefix packet_writer_write_cstring_def)
qed

lemma wire_put_all_prefix: "\<exists>bs. pkt_data (wire_put_all fs p) = pkt_data p @ bs"
  unfolding wire_put_all_def
proof (induction fs arbitrary: p)
  case (Cons f fs)
  then show ?case using wire_put_prefix [of f p] by (metis append.assoc fold_simps(2))
qed simp


section \<open>Reading\<close>

inductive reader_step :: "packet_io \<Rightarrow> packet_io \<Rightarrow> bool" where
  field: "reader_step io (snd (wire_get t io))"
| skip: "reader_step io (snd (packet_reader_skip len io))"
| view: "reader_step io (snd (packet_reader_read_view len io))"
| string_view: "reader_step io (snd (packet_reader_read_string_view max_len io))"
| string_bounded: "reader_step io (snd (packet_reader_read_string_bounded dest_size max_len io))"
| string: "reader_step io (snd (packet_reader_read_string dest_size io))"
| stringbuffer_bounded: "reader_step io (snd (snd (packet_reader_read_stringbuffer_bounded sb max_len io)))"
| stringbuffer: "reader_step io (snd (snd (packet_reader_read_stringbuffer sb io)))"
| count8: "reader_step io (snd (packet_reader_read_count8 maximum io))"
| count16: "reader_step io (snd (packet_reader_read_count16 maximum io))"
| count32: "reader_step io (snd (packet_reader_read_count32 maximum io))"
| set_error: "e \<noteq> PACKET_ERROR_NONE \<Longrightarrow> reader_step io (packet_reader_set_error e io)"
| finish: "reader_step io (snd (packet_reader_finish io))"

text \<open>Underneath, a cursor only ever advances over unread bytes or fails.\<close>

inductive reader_move :: "packet_io \<Rightarrow> packet_io \<Rightarrow> bool" where
  advance: "reader_ok io \<Longrightarrow> n \<le> length (unread io) \<Longrightarrow> reader_move io (io_advance n io)"
| fail: "reader_wf io \<Longrightarrow> e \<noteq> PACKET_ERROR_NONE \<Longrightarrow> reader_move io (packet_reader_fail e io)"

lemma reader_move_wf: "reader_move io io' \<Longrightarrow> reader_wf io'"
  by (induction rule: reader_move.induct) (simp_all add: reader_wf_fail reader_ok_wf reader_ok_advance)

lemma reader_moves_wf: "reader_move\<^sup>*\<^sup>* io io' \<Longrightarrow> reader_wf io \<Longrightarrow> reader_wf io'"
  by (induction rule: rtranclp_induct) (auto dest: reader_move_wf)

lemma moves_advance [intro]: "reader_ok io \<Longrightarrow> n \<le> length (unread io) \<Longrightarrow> reader_move\<^sup>*\<^sup>* io (io_advance n io)"
  by (rule r_into_rtranclp) (rule reader_move.advance)

lemma moves_fail [intro]: "reader_wf io \<Longrightarrow> e \<noteq> PACKET_ERROR_NONE \<Longrightarrow> reader_move\<^sup>*\<^sup>* io (packet_reader_fail e io)"
  by (rule r_into_rtranclp) (rule reader_move.fail)

lemma take_moves: "reader_wf io \<Longrightarrow> reader_move\<^sup>*\<^sup>* io (snd (packet_reader_take n io))"
  using reader_remaining_unread [of io] by (auto simp: packet_reader_take_def reader_ok_def intro!: moves_advance)

lemma string_view_moves: "reader_wf io \<Longrightarrow> reader_move\<^sup>*\<^sup>* io (snd (packet_reader_read_string_view max_len io))"
  by (erule read_string_view_cases [where max_len = max_len]) (auto intro!: moves_advance moves_fail simp: reader_ok_wf)

lemma then_fail_moves:
  "reader_wf io \<Longrightarrow> reader_move\<^sup>*\<^sup>* io io' \<Longrightarrow> e \<noteq> PACKET_ERROR_NONE \<Longrightarrow> reader_move\<^sup>*\<^sup>* io (packet_reader_fail e io')"
  by (meson moves_fail reader_moves_wf rtranclp_trans)

lemma readers_take_io:
  "snd (packet_reader_read_uint8 io) = snd (packet_reader_take 1 io)"
  "snd (packet_reader_read_uint16 io) = snd (packet_reader_take 2 io)"
  "snd (packet_reader_read_uint32 io) = snd (packet_reader_take 4 io)"
  "snd (packet_reader_read_uint64 io) = snd (packet_reader_take 8 io)"
  "snd (packet_reader_read_view n io) = snd (packet_reader_take n io)"
  by (simp_all add: unsigned_readers_take packet_reader_read_view_def split_beta)

lemma wire_get_moves: "reader_wf io \<Longrightarrow> reader_move\<^sup>*\<^sup>* io (snd (wire_get t io))"
  by (cases t) (simp_all add: signed_readers readers_take_io take_moves get_cstring_def get_block_def string_view_moves)

lemma check_count_io:
  "snd (packet_reader_check_count v m io) =
     (if rd_error (io_reader io) = PACKET_ERROR_NONE \<and> m < unat v
      then packet_reader_fail PACKET_ERROR_LIMIT_EXCEEDED io else io)"
  by (simp add: packet_reader_check_count_def)

lemma reader_step_moves: "reader_step io io' \<Longrightarrow> reader_wf io \<Longrightarrow> reader_move\<^sup>*\<^sup>* io io'"
proof (induction rule: reader_step.induct)
  case (field io t)
  then show ?case by (rule wire_get_moves)
next
  case (skip io len)
  then show ?case by (auto simp: packet_reader_skip_def split_beta take_moves)
next
  case (finish io)
  then show ?case by (auto simp: packet_reader_finish_def Let_def)
qed (auto simp: readers_take_io take_moves string_view_moves check_count_io then_fail_moves split_beta
    packet_reader_read_string_bounded_def packet_reader_read_string_def packet_reader_set_error_def
    packet_reader_read_stringbuffer_bounded_def packet_reader_read_stringbuffer_def
    packet_reader_read_count8_def packet_reader_read_count16_def packet_reader_read_count32_def)

lemma reader_steps_moves: "reader_step\<^sup>*\<^sup>* io io' \<Longrightarrow> reader_wf io \<Longrightarrow> reader_move\<^sup>*\<^sup>* io io'"
proof (induction rule: rtranclp_induct)
  case (step io' io'')
  then show ?case by (meson reader_moves_wf reader_step_moves rtranclp_trans)
qed simp

text \<open>The cursor moves forward within the same data, and the first error is final.\<close>

definition reader_extends :: "packet_reader \<Rightarrow> packet_reader \<Rightarrow> bool" where
  "reader_extends r r' \<longleftrightarrow> rd_data r' = rd_data r \<and> rd_len r' = rd_len r \<and> rd_pos r \<le> rd_pos r' \<and>
     rd_scope r' = rd_scope r \<and>
     (rd_error r \<noteq> PACKET_ERROR_NONE \<longrightarrow> rd_error r' = rd_error r \<and> rd_pos r' = rd_pos r) \<and>
     (rd_position r = None \<longleftrightarrow> rd_position r' = None) \<and>
     (rd_position r = Some (rd_pos r) \<longrightarrow> rd_position r' = Some (rd_pos r'))"

lemma reader_extends_trans: "reader_extends r r' \<Longrightarrow> reader_extends r' r'' \<Longrightarrow> reader_extends r r''"
  by (auto simp: reader_extends_def)

lemma reader_move_extends: "reader_move io io' \<Longrightarrow> reader_extends (io_reader io) (io_reader io')"
  by (induction rule: reader_move.induct)
    (auto simp: reader_extends_def io_advance_reader packet_reader_fail_reader reader_ok_def)

lemma reader_moves_extends: "reader_move\<^sup>*\<^sup>* io io' \<Longrightarrow> reader_extends (io_reader io) (io_reader io')"
proof (induction rule: rtranclp_induct)
  case base
  show ?case by (simp add: reader_extends_def)
next
  case (step io' io'')
  then show ?case by (blast dest: reader_move_extends intro: reader_extends_trans)
qed

text \<open>A reader attached to scope \<open>i\<close> keeps that scope's record of it up to date.\<close>

definition scope_linked :: "nat \<Rightarrow> packet_io \<Rightarrow> bool" where
  "scope_linked i io \<longleftrightarrow> rd_scope (io_reader io) = Some i \<and> i < length (io_scopes io) \<and>
     sc_error (io_scopes io ! i) = rd_error (io_reader io) \<and>
     sc_len (io_scopes io ! i) = rd_len (io_reader io) \<and>
     (rd_error (io_reader io) = PACKET_ERROR_NONE \<longrightarrow> sc_pos (io_scopes io ! i) = rd_pos (io_reader io))"

lemma io_advance_scopes:
  "io_scopes (io_advance n io) = (case rd_scope (io_reader io) of None \<Rightarrow> io_scopes io
     | Some i \<Rightarrow> (io_scopes io)[i := (io_scopes io ! i)\<lparr>sc_pos :=
         max (sc_pos (io_scopes io ! i)) (rd_pos (io_reader io) + n)\<rparr>])"
  by (simp add: io_advance_def Let_def io_update_scope_def io_update_reader_def split: option.split)

lemma fail_scopes:
  "io_scopes (packet_reader_fail e io) = (case rd_scope (io_reader io) of None \<Rightarrow> io_scopes io
     | Some i \<Rightarrow> (io_scopes io)[i := (if sc_error (io_scopes io ! i) = PACKET_ERROR_NONE
         then (io_scopes io ! i)\<lparr>sc_error := e\<rparr> else io_scopes io ! i)])"
  by (simp add: packet_reader_fail_def Let_def io_update_scope_def io_update_reader_def split: option.split)

lemma reader_move_linked:
  "reader_move io io' \<Longrightarrow> scope_linked i io \<Longrightarrow>
     scope_linked i io' \<and> take i (io_scopes io') = take i (io_scopes io) \<and>
     length (io_scopes io') = length (io_scopes io)"
  by (induction rule: reader_move.induct)
    (auto simp: scope_linked_def io_advance_reader packet_reader_fail_reader io_advance_scopes fail_scopes
      reader_ok_def)

lemma reader_moves_linked:
  assumes "reader_move\<^sup>*\<^sup>* io io'" "scope_linked i io"
  shows "scope_linked i io' \<and> take i (io_scopes io') = take i (io_scopes io) \<and>
    length (io_scopes io') = length (io_scopes io)"
  using assms
proof (induction rule: rtranclp_induct)
  case (step io' io'')
  then show ?case using reader_move_linked [of io' io'' i] by simp
qed simp

text \<open>Opening a reader.\<close>

definition buffer_ok :: "pk_buf option \<Rightarrow> nat \<Rightarrow> bool" where
  "buffer_ok data len \<longleftrightarrow> len \<le> SIZE_MAX \<and> (case data of None \<Rightarrow> True | Some (a, bs) \<Rightarrow> length bs = len)"

lemma packet_reader_init_at_reader:
  "io_reader (packet_reader_init_at data len pos scopes) =
     \<lparr>rd_data = data, rd_len = len, rd_pos = (if (data = None \<and> len \<noteq> 0) \<or> pos > len then 0 else pos),
       rd_error = (if (data = None \<and> len \<noteq> 0) \<or> pos > len then PACKET_ERROR_INVALID_ENCODING
         else PACKET_ERROR_NONE),
       rd_position = None, rd_scope = packet_scope_for data len scopes\<rparr>"
  by (simp add: packet_reader_init_at_def packet_reader_fail_reader Let_def)

lemma packet_reader_init_at_scopes_length:
  "length (io_scopes (packet_reader_init_at data len pos scopes)) = length scopes"
  by (simp add: packet_reader_init_at_def packet_reader_fail_reader Let_def)

lemma packet_reader_init_wf: "buffer_ok data len \<Longrightarrow> reader_wf (packet_reader_init_at data len pos scopes)"
  by (auto simp: reader_wf_def packet_reader_init_at_reader packet_reader_init_at_scopes_length Let_def
      buffer_ok_def buf_bytes_def packet_scope_for_def split: option.splits if_splits)

lemma packet_reader_init_linked:
  "scope_linked (length scopes) (packet_reader_init_at data len pos (packet_reader_scope_begin scopes))"
  "take (length scopes) (io_scopes (packet_reader_init_at data len pos (packet_reader_scope_begin scopes))) = scopes"
  by (auto simp: scope_linked_def packet_reader_init_at_def packet_scope_for_def packet_reader_scope_begin_def
      packet_reader_fail_reader fail_scopes Let_def io_update_scope_def nth_append)

end
