(* ===== verification/Packets.thy ===== *)
theory Packets
  imports Packet_Session "HOL-Library.Code_Target_Nat"
begin

unbundle bit_operations_syntax

text \<open>
  What the packet writer and reader promise their callers, with concrete instances.
\<close>

text \<open>A message and the types its reader expects, used by the instances below.\<close>

definition demo_fields :: "wire_field list" where
  "demo_fields = [F_uint16 0x1234, F_cstring [72, 105], F_int32 (- 2), F_block [9, 0, 7]]"

definition demo_types :: "wire_type list" where
  "demo_types = [T_uint16, T_cstring 10, T_int32, T_block 2]"

definition demo_bytes :: bytes where
  "demo_bytes = [0x12, 0x34, 72, 105, 0, 0xff, 0xff, 0xff, 0xfe, 9, 0, 7]"

definition demo_packet :: packet_struct where
  "demo_packet = wire_put_all demo_fields (packet_new 5 4 8)"

lemma demo_enc: "message_enc demo_fields = demo_bytes"
  by code_simp

lemma demo_fits: "list_all2 wire_fits demo_types demo_fields"
  by (simp add: demo_types_def demo_fields_def cstring_valid_def SIZE_MAX_def)

lemma demo_packet_ok: "pkt_error demo_packet = PACKET_ERROR_NONE" "pkt_data demo_packet = demo_bytes"
  by code_simp+

lemma unread_init:
  assumes "length bs \<le> SIZE_MAX"
  shows "reader_ok (packet_reader_init (Some (a, bs)) (length bs) scopes)"
    and "unread (packet_reader_init (Some (a, bs)) (length bs) scopes) = bs"
proof -
  have "reader_wf (packet_reader_init (Some (a, bs)) (length bs) scopes)"
    unfolding packet_reader_init_def by (rule packet_reader_init_wf) (simp add: buffer_ok_def assms)
  then show "reader_ok (packet_reader_init (Some (a, bs)) (length bs) scopes)"
    by (simp add: reader_ok_def packet_reader_init_def packet_reader_init_at_reader)
  show "unread (packet_reader_init (Some (a, bs)) (length bs) scopes) = bs"
    by (simp add: unread_def packet_reader_init_def packet_reader_init_at_reader buf_bytes_def)
qed

lemma finish_iff:
  assumes "reader_wf io"
  shows "fst (packet_reader_finish io) \<longleftrightarrow> rd_error (io_reader io) = PACKET_ERROR_NONE \<and> unread io = []"
proof -
  have "rd_error (io_reader io) = PACKET_ERROR_NONE \<Longrightarrow>
      unread io = [] \<longleftrightarrow> rd_pos (io_reader io) = rd_len (io_reader io)"
    using assms by (auto simp: unread_def reader_wf_def Let_def)
  then show ?thesis by (auto simp: packet_reader_finish_def packet_reader_fail_reader Let_def)
qed

text \<open>
  C6. A message written field by field into a new packet without an error is read back,
  field by field, by a reader of the expected types, which then has consumed the packet
  completely: every writer and its reader agree on the wire format.
\<close>

theorem message_roundtrip:
  assumes "sz \<le> SIZE_MAX" and "list_all2 wire_fits ts fs"
    and p: "p = wire_put_all fs (packet_new type sz expand)" and "packet_writer_finish p"
    and io: "wire_get_all ts (packet_reader_init (Some (addr, pkt_data p)) (pkt_len p) scopes) = (fs', io)"
  shows "fs' = fs \<and> fst (packet_reader_finish io)"
proof -
  let ?io = "packet_reader_init (Some (addr, pkt_data p)) (pkt_len p) scopes"
  have d: "pkt_data p = message_enc fs" and wf: "packet_wf p"
    using wire_put_all_data [OF assms(2) packet_new_wf [OF assms(1)]] assms(4)
    unfolding p by (simp_all add: packet_writer_finish_def packet_new_def)
  have l: "length (pkt_data p) \<le> SIZE_MAX" using wf by (simp add: packet_wf_def pkt_len_def)
  have "fst (wire_get_all ts ?io) = fs \<and> reader_ok (snd (wire_get_all ts ?io)) \<and> unread (snd (wire_get_all ts ?io)) = []"
    by (rule wire_get_all_enc [OF assms(2)]) (use unread_init [OF l] d in \<open>simp_all add: pkt_len_def\<close>)
  then show ?thesis using finish_iff [of io] by (simp add: io reader_ok_def)
qed

theorem message_roundtrip_witness:
  "fst (wire_get_all demo_types (packet_reader_init (Some (0, pkt_data demo_packet)) (pkt_len demo_packet) [])) =
     demo_fields \<and>
   fst (packet_reader_finish
     (snd (wire_get_all demo_types (packet_reader_init (Some (0, pkt_data demo_packet)) (pkt_len demo_packet) []))))"
  by (rule message_roundtrip [where sz = 4 and type = 5 and expand = 8 and scopes = "[]", OF _ demo_fits demo_packet_def])
    (simp_all add: packet_writer_finish_def demo_packet_ok SIZE_MAX_def)

text \<open>
  C7. The reader accepts exactly the encodings: reading a buffer at the expected types ends
  without an error and at the end of the buffer, with the fields \<open>fs\<close>, if and only if the
  fields have those types and the buffer is their encoding. Nothing else is accepted.
\<close>

theorem message_parse_exact:
  assumes "length bs \<le> SIZE_MAX"
    and io: "wire_get_all ts (packet_reader_init (Some (addr, bs)) (length bs) scopes) = (fs, io)"
  shows "(fst (packet_reader_finish io) \<longleftrightarrow> (\<exists>fs'. list_all2 wire_fits ts fs' \<and> bs = message_enc fs')) \<and>
    (fst (packet_reader_finish io) \<longrightarrow> list_all2 wire_fits ts fs \<and> bs = message_enc fs)"
proof -
  let ?io = "packet_reader_init (Some (addr, bs)) (length bs) scopes"
  note init = unread_init [OF assms(1), of addr scopes]
  have io_eq: "snd (wire_get_all ts ?io) = io" "fst (wire_get_all ts ?io) = fs" by (simp_all add: io)
  have wf: "reader_wf io" using wire_get_all_wf [OF reader_ok_wf [OF init(1)]] by (simp add: io_eq [symmetric])
  have dir: "fst (packet_reader_finish io) \<Longrightarrow> list_all2 wire_fits ts fs \<and> bs = message_enc fs"
    using wire_get_all_canonical [OF reader_ok_wf [OF init(1)], of ts] finish_iff [OF wf]
    by (simp add: io_eq init(2))
  have "fst (packet_reader_finish io)" if "list_all2 wire_fits ts fs'" "bs = message_enc fs'" for fs'
    using wire_get_all_enc [OF that(1) init(1), of "[]"] that(2) finish_iff [OF wf]
    unfolding io_eq init(2) reader_ok_def by simp
  then show ?thesis using dir by blast
qed

theorem message_parse_exact_witness:
  "fst (packet_reader_finish (snd (wire_get_all demo_types (packet_reader_init (Some (0, demo_bytes)) 12 []))))"
proof -
  have l: "length demo_bytes = 12" by (simp add: demo_bytes_def)
  then have "length demo_bytes \<le> SIZE_MAX" by (simp add: SIZE_MAX_def)
  then show ?thesis
    using message_parse_exact [of demo_bytes demo_types 0 "[]", OF _ surjective_pairing]
      demo_enc demo_fits unfolding l by metis
qed

text \<open>
  C8. Whatever sequence of writes, limit changes, deletions and rollbacks a new packet goes
  through, its data never exceeds its allocation or its limit: no write runs out of the
  buffer.
\<close>

theorem packet_session_bounded:
  assumes "packet_session p"
  shows "pkt_len p \<le> pkt_size p \<and> pkt_len p \<le> pkt_limit p"
  using packet_session_wf [OF assms] by (simp add: packet_wf_def)

lemma demo_packet_session: "packet_session demo_packet"
proof -
  have "packet_session p \<Longrightarrow> packet_session (wire_put_all fs p)" for fs p
    unfolding wire_put_all_def by (induction fs arbitrary: p) (simp_all add: packet_session.step packet_step.put)
  then show ?thesis
    unfolding demo_packet_def by (simp add: packet_session.new SIZE_MAX_def)
qed

theorem packet_session_bounded_witness: "pkt_len demo_packet \<le> pkt_size demo_packet \<and> pkt_len demo_packet \<le> pkt_limit demo_packet"
  by (rule packet_session_bounded [OF demo_packet_session])

text \<open>
  C9. A write is atomic and errors are sticky: it appends the complete encoding of its field,
  or it leaves the data unchanged and the packet in error; the first error is never
  replaced, and the limit error is reported exactly when the encoding does not fit the limit.
\<close>

theorem write_all_or_nothing:
  assumes "packet_session p" "wire_fits t f" and p': "p' = wire_put f p"
  shows "(pkt_error p = PACKET_ERROR_NONE \<and> pkt_error p' = PACKET_ERROR_NONE \<and> pkt_data p' = pkt_data p @ wire_enc f) \<or>
    (pkt_error p' \<noteq> PACKET_ERROR_NONE \<and> pkt_data p' = pkt_data p \<and>
      (pkt_error p \<noteq> PACKET_ERROR_NONE \<longrightarrow> p' = p) \<and>
      (pkt_error p = PACKET_ERROR_NONE \<longrightarrow>
        (pkt_error p' = PACKET_ERROR_LIMIT_EXCEEDED \<longleftrightarrow> pkt_len p + length (wire_enc f) > pkt_limit p)))"
proof -
  have p'': "p' = packet_store (wire_enc f) p" using p' wire.put_store [OF assms(2)] by simp
  have "packet_wf p" by (rule packet_session_wf [OF assms(1)])
  then show ?thesis
    by (cases rule: packet_store_cases [where bs = "wire_enc f"]) (auto simp: p'')
qed

definition small_packet :: packet_struct where
  "small_packet = packet_writer_set_limit 3 (packet_new 5 0 16)"

lemma small_session: "packet_session small_packet"
  unfolding small_packet_def
  by (rule packet_session.step [OF packet_session.new packet_step.set_limit]) (simp_all add: SIZE_MAX_def)

theorem write_all_or_nothing_witness:
  "pkt_error (wire_put (F_uint32 7) small_packet) = PACKET_ERROR_LIMIT_EXCEEDED"
proof -
  have "pkt_error (wire_put (F_uint32 7) small_packet) \<noteq> PACKET_ERROR_NONE"
    "pkt_error small_packet = PACKET_ERROR_NONE" "pkt_len small_packet = 0" "pkt_limit small_packet = 3"
    by code_simp+
  then show ?thesis
    using write_all_or_nothing [OF small_session, of T_uint32 "F_uint32 7", OF _ refl]
    by (simp del: wire_put.simps add: enc32_def)
qed

text \<open>
  When a write succeeds, exactly: no earlier error, the bytes fit the limit, and either
  they fit the allocation or they fit between the allocation and the limit. The last
  condition is stronger than fitting the limit.
\<close>

theorem write_success_iff:
  assumes "packet_session p" "wire_fits t f"
  shows "packet_writer_finish (wire_put f p) \<longleftrightarrow> packet_writer_finish p \<and>
    pkt_len p + length (wire_enc f) \<le> pkt_limit p \<and>
    (pkt_len p + length (wire_enc f) \<le> pkt_size p \<or> length (wire_enc f) \<le> pkt_limit p - pkt_size p)"
  using packet_store_success_iff [OF packet_session_wf [OF assms(1)]] wire.put_store [OF assms(2)]
  by (simp add: packet_writer_finish_def)

text \<open>The instance is a write of four bytes that fits the limit of ten and is refused.\<close>

definition tight_packet :: packet_struct where
  "tight_packet = wire_put (F_block [1, 2, 3, 4, 5, 6]) (packet_writer_set_limit 10 (packet_new 5 8 4))"

lemma tight_session: "packet_session tight_packet"
  unfolding tight_packet_def
  by (rule packet_session.step [OF packet_session.step [OF packet_session.new packet_step.set_limit] packet_step.put])
    (simp_all add: SIZE_MAX_def)

lemma tight_fields: "pkt_len tight_packet = 6" "pkt_limit tight_packet = 10" "pkt_size tight_packet = 8"
  by code_simp+

theorem write_success_iff_witness:
  "\<not> packet_writer_finish (wire_put (F_uint32 7) tight_packet) \<and>
     pkt_len tight_packet + length (wire_enc (F_uint32 7)) \<le> pkt_limit tight_packet"
  using write_success_iff [OF tight_session, of T_uint32 "F_uint32 7"] by (simp add: tight_fields enc32_def)

text \<open>
  Deleting a range removes exactly those bytes, keeping what precedes and follows it in
  order, although the move overlaps; a range that is not inside the data changes nothing.
\<close>

theorem packet_delete_exact:
  "packet_delete pos len p = (if pos + len \<le> pkt_len p
     then p\<lparr>pkt_data := take pos (pkt_data p) @ drop (pos + len) (pkt_data p)\<rparr> else p)"
  by (subst packet_delete_fields) (simp add: packet_delete_data)

text \<open>
  Rolling back to a mark taken before any number of writes restores the data the packet had
  at the mark.
\<close>

theorem rollback_restores:
  "\<exists>p'. packet_writer_rollback (packet_writer_mark p) (wire_put_all fs p) = Some p' \<and> pkt_data p' = pkt_data p"
  using wire_put_all_prefix [of fs p]
  by (auto simp: packet_writer_rollback_def packet_writer_mark_def pkt_len_def)

text \<open>
  Duplicating a packet without an error copies its type, data, capacity, growth step, limit
  and flags.
\<close>

theorem packet_dup_copy:
  assumes "packet_session p" "packet_writer_finish p"
  shows "packet_dup p = p\<lparr>pkt_pos := 0\<rparr>"
proof -
  have "packet_wf p" by (rule packet_session_wf [OF assms(1)])
  then show ?thesis
    using assms(2)
    by (auto simp: packet_dup_def packet_new_def packet_writer_write_bytes_def packet_store_def
        packet_ensure_def packet_writer_finish_def packet_wf_def pkt_len_def Let_def)
qed

theorem packet_dup_copy_witness: "packet_dup demo_packet = demo_packet\<lparr>pkt_pos := 0\<rparr>"
  by (rule packet_dup_copy [OF demo_packet_session]) (simp add: packet_writer_finish_def demo_packet_ok)

text \<open>A packet in error is duplicated without its data.\<close>

lemma packet_dup_error_loses_data:
  "pkt_data tight_packet = [1, 2, 3, 4, 5, 6] \<and>
   pkt_data (packet_dup (wire_put (F_uint32 7) tight_packet)) = []"
  by code_simp

text \<open>
  Whatever is read from a buffer, in whatever order and however malformed it is, the cursor
  stays inside the buffer and never moves back, the mirrored position follows it, and the
  first error is kept and stops the cursor.
\<close>

theorem reader_session_safe:
  assumes "buffer_ok data len" and "position \<le> len"
    and steps: "reader_step\<^sup>*\<^sup>* (packet_reader_init_cursor data len position scopes) io"
    and more: "reader_step\<^sup>*\<^sup>* io io'"
  shows "rd_pos (io_reader io) \<le> rd_pos (io_reader io') \<and> rd_pos (io_reader io') \<le> len \<and>
    rd_data (io_reader io') = data \<and> rd_len (io_reader io') = len \<and>
    (rd_error (io_reader io) \<noteq> PACKET_ERROR_NONE \<longrightarrow>
      rd_error (io_reader io') = rd_error (io_reader io) \<and> rd_pos (io_reader io') = rd_pos (io_reader io))"
proof -
  let ?io = "packet_reader_init_cursor data len position scopes"
  have wf0: "reader_wf ?io"
    using packet_reader_init_wf [OF assms(1), of position scopes]
    by (simp add: packet_reader_init_cursor_def reader_wf_def Let_def)
  have m: "reader_move\<^sup>*\<^sup>* ?io io" by (rule reader_steps_moves [OF steps wf0])
  have wf: "reader_wf io" by (rule reader_moves_wf [OF m wf0])
  have m': "reader_move\<^sup>*\<^sup>* io io'" by (rule reader_steps_moves [OF more wf])
  have "reader_wf io'" by (rule reader_moves_wf [OF m' wf])
  then show ?thesis
    using reader_moves_extends [OF m] reader_moves_extends [OF m']
    by (auto simp: reader_extends_def reader_wf_def Let_def packet_reader_init_cursor_def
        packet_reader_init_at_reader)
qed

definition demo_cursor :: packet_io where
  "demo_cursor = packet_reader_init_cursor (Some (0, demo_bytes)) 12 2 []"

lemma demo_buffer_ok: "buffer_ok (Some (0, demo_bytes)) 12"
  by (simp add: buffer_ok_def demo_bytes_def SIZE_MAX_def)

theorem reader_session_safe_witness:
  "rd_pos (io_reader (snd (packet_reader_skip 30 demo_cursor))) \<le> 12 \<and>
   rd_data (io_reader (snd (packet_reader_skip 30 demo_cursor))) = Some (0, demo_bytes)"
proof -
  have "reader_step\<^sup>*\<^sup>* demo_cursor (snd (packet_reader_skip 30 demo_cursor))"
    by (rule r_into_rtranclp) (rule reader_step.skip)
  then show ?thesis
    using reader_session_safe [OF demo_buffer_ok, of 2 "[]" demo_cursor] demo_cursor_def by simp
qed

text \<open>
  A dispatch scope opened around a handler reports exactly how the handler's reader
  ended: its first error, or trailing data when it stopped before the end of the packet, or
  no error; the scopes around it are left as they were, except that the enclosing scope
  inherits the error when it has none.
\<close>

theorem scope_reports_reader:
  assumes "buffer_ok data len"
    and steps: "reader_step\<^sup>*\<^sup>* (packet_reader_init_at data len pos (packet_reader_scope_begin scopes)) io"
    and e: "e = (if rd_error (io_reader io) \<noteq> PACKET_ERROR_NONE then rd_error (io_reader io)
      else if rd_pos (io_reader io) \<noteq> len then PACKET_ERROR_TRAILING_DATA else PACKET_ERROR_NONE)"
  shows "packet_reader_scope_finish (io_scopes io) = Some (e,
    if scopes \<noteq> [] \<and> e \<noteq> PACKET_ERROR_NONE \<and> sc_error (last scopes) = PACKET_ERROR_NONE
    then butlast scopes @ [(last scopes)\<lparr>sc_error := e\<rparr>] else scopes)"
proof -
  let ?io = "packet_reader_init_at data len pos (packet_reader_scope_begin scopes)" and ?n = "length scopes"
  have wf: "reader_wf ?io" by (rule packet_reader_init_wf [OF assms(1)])
  have m: "reader_move\<^sup>*\<^sup>* ?io io" by (rule reader_steps_moves [OF steps wf])
  have l: "scope_linked ?n io" "take ?n (io_scopes io) = scopes" "length (io_scopes io) = Suc ?n"
    using reader_moves_linked [OF m packet_reader_init_linked(1)] packet_reader_init_linked(2)
    by (simp_all add: packet_reader_init_at_scopes_length packet_reader_scope_begin_def)
  have len: "rd_len (io_reader io) = len"
    using reader_moves_extends [OF m] by (simp add: reader_extends_def packet_reader_init_at_reader)
  have ne: "io_scopes io \<noteq> []" using l(3) by auto
  have outer: "butlast (io_scopes io) = scopes" using l(2,3) by (simp add: butlast_conv_take)
  have last: "last (io_scopes io) = io_scopes io ! ?n" using l(3) ne by (simp add: last_conv_nth)
  have "(if sc_error (io_scopes io ! ?n) = PACKET_ERROR_NONE \<and> sc_pos (io_scopes io ! ?n) \<noteq> sc_len (io_scopes io ! ?n)
      then PACKET_ERROR_TRAILING_DATA else sc_error (io_scopes io ! ?n)) = e"
    using l(1) len unfolding e scope_linked_def by auto
  then show ?thesis
    by (simp add: packet_reader_scope_finish_def ne outer last Let_def)
qed

theorem scope_reports_reader_witness:
  "fst (the (packet_reader_scope_finish (io_scopes (snd (wire_get T_uint16
     (packet_reader_init_at (Some (0, demo_bytes)) 12 0 (packet_reader_scope_begin []))))))) =
   PACKET_ERROR_TRAILING_DATA"
proof -
  let ?io = "packet_reader_init_at (Some (0, demo_bytes)) 12 0 (packet_reader_scope_begin [])"
  have s: "reader_step\<^sup>*\<^sup>* ?io (snd (wire_get T_uint16 ?io))"
    by (rule r_into_rtranclp) (rule reader_step.field)
  have "rd_error (io_reader (snd (wire_get T_uint16 ?io))) = PACKET_ERROR_NONE"
    "rd_pos (io_reader (snd (wire_get T_uint16 ?io))) = 2"
    by code_simp+
  then show ?thesis
    using scope_reports_reader [OF demo_buffer_ok s refl] by (simp del: wire_get.simps)
qed

text \<open>
  Reading a string into a buffer of \<open>dest_size\<close> bytes: on success the string and its
  terminator fit the buffer, the string has no embedded NUL, and exactly it and its
  terminator were consumed; on failure the reader is in error.
\<close>

theorem read_string_fits:
  assumes "reader_wf io"
    and r: "packet_reader_read_string_bounded dest_size max_len io = (result, io')"
  shows "case result of
      Some s \<Rightarrow> length s + 1 \<le> dest_size \<and> length s \<le> max_len \<and> 0 \<notin> set s \<and> unread io = s @ 0 # unread io'
    | None \<Rightarrow> packet_reader_error io' \<noteq> PACKET_ERROR_NONE"
  using assms(1)
proof (cases rule: read_string_view_cases [where max_len = max_len])
  case (ok s rest v)
  then show ?thesis
    using r reader_ok_advance [OF ok(1), of "Suc (length s)"]
    by (auto simp: packet_reader_read_string_bounded_def packet_reader_error_def packet_reader_fail_reader
        unread_advance reader_ok_def split: if_splits)
next
  case (failed e)
  then show ?thesis
    using r by (auto simp: packet_reader_read_string_bounded_def packet_reader_error_def packet_reader_fail_reader
        reader_ok_def)
next
  case sticky
  then show ?thesis
    using r by (auto simp: packet_reader_read_string_bounded_def packet_reader_error_def)
qed

theorem read_string_fits_witness:
  "fst (packet_reader_read_string_bounded 8 7 demo_cursor) = Some [72, 105] \<and>
   unread demo_cursor = [72, 105] @ 0 # unread (snd (packet_reader_read_string_bounded 8 7 demo_cursor))"
proof -
  have wf: "reader_wf demo_cursor"
    using packet_reader_init_wf [OF demo_buffer_ok, of 2 "[]"]
    by (simp add: demo_cursor_def packet_reader_init_cursor_def reader_wf_def Let_def)
  have r: "fst (packet_reader_read_string_bounded 8 7 demo_cursor) = Some [72, 105]" by code_simp
  then show ?thesis
    using read_string_fits [OF wf surjective_pairing, of 8 7] by simp
qed

end
