(* ===== verification/Cstring.thy ===== *)
theory Cstring
  imports Prelude
begin

unbundle bit_operations_syntax

text \<open>
  The string functions of \<open>src/string.c\<close> that do not use string buffers.

  Conventions. A C string is the list of its bytes before the terminating NUL; where a
  function works in place on a buffer whose later contents matter, the buffer is the list
  of bytes including the terminator. A null pointer is \<open>None\<close>. The character
  classes are those of the C locale. \<open>char\<close> is signed: where a comparison with one bound
  depends on it the signed value \<open>sint\<close> is compared. Heap-allocated results are returned as
  values. An access outside a buffer, which C leaves undefined, is \<open>None\<close> in the functions
  that can make one.
\<close>

section \<open>The C library\<close>

abbreviation ch :: "char \<Rightarrow> u8" where
  "ch c \<equiv> of_char c"

definition c_isspace :: "u8 \<Rightarrow> bool" where
  "c_isspace c \<longleftrightarrow> c = 32 \<or> (9 \<le> c \<and> c \<le> 13)"

definition c_isdigit :: "u8 \<Rightarrow> bool" where
  "c_isdigit c \<longleftrightarrow> 48 \<le> c \<and> c \<le> 57"

definition c_isupper :: "u8 \<Rightarrow> bool" where
  "c_isupper c \<longleftrightarrow> 65 \<le> c \<and> c \<le> 90"

definition c_islower :: "u8 \<Rightarrow> bool" where
  "c_islower c \<longleftrightarrow> 97 \<le> c \<and> c \<le> 122"

definition c_toupper :: "u8 \<Rightarrow> u8" where
  "c_toupper c = (if c_islower c then c - 32 else c)"

definition c_tolower :: "u8 \<Rightarrow> u8" where
  "c_tolower c = (if c_isupper c then c + 32 else c)"

text \<open>\<open>strncmp(s, key, strlen(key)) == 0\<close>.\<close>

definition c_has_prefix :: "bytes \<Rightarrow> bytes \<Rightarrow> bool" where
  "c_has_prefix s key \<longleftrightarrow> take (length key) s = key"

text \<open>\<open>strstr\<close>, as the offset of the first match.\<close>

definition c_strstr :: "bytes \<Rightarrow> bytes \<Rightarrow> nat option" where
  "c_strstr hay needle = find (\<lambda>i. c_has_prefix (drop i hay) needle) [0..<Suc (length hay)]"

text \<open>\<open>snprintf(buf, size, "%s", s)\<close>: what the buffer holds afterwards.\<close>

definition c_snprintf :: "nat \<Rightarrow> bytes \<Rightarrow> bytes" where
  "c_snprintf sz s = take (sz - 1) s"


section \<open>Replacing and splitting\<close>

definition string_replace_step ::
    "bytes \<Rightarrow> bytes \<Rightarrow> nat \<Rightarrow> bytes \<times> bytes \<Rightarrow> ((bytes \<times> bytes) + bytes) option" where
  "string_replace_step key replacement resultsize st =
     (let (src, result) = st
      in if src \<noteq> [] \<and> length result + 1 < resultsize
         then if c_has_prefix src key
              then Some (Inl (drop (length key) src,
                result @ c_snprintf (resultsize - length result) replacement))
              else Some (Inl (tl src, result @ [hd src]))
         else Some (Inr result))"

definition string_replace :: "bytes \<Rightarrow> bytes \<Rightarrow> bytes \<Rightarrow> nat \<Rightarrow> bytes option" where
  "string_replace src key replacement resultsize =
     (if key = replacement then Some (c_snprintf resultsize src)
      else c_loop (string_replace_step key replacement resultsize) (src, []))"

primrec char_contains :: "u8 \<Rightarrow> bytes \<Rightarrow> bool" where
  "char_contains c [] = False"
| "char_contains c (k # key) = (if c = k then True else char_contains c key)"

definition string_replace_char :: "bytes \<Rightarrow> bytes option \<Rightarrow> u8 \<Rightarrow> bytes" where
  "string_replace_char str key replacement =
     map (\<lambda>c. case key of None \<Rightarrow> replacement
       | Some k \<Rightarrow> if char_contains c k then replacement else c) str"

text \<open>
  \<open>string_split\<close> works on the buffer \<open>buf\<close>, terminator included; the elements of the result
  array are offsets into it.
\<close>

function string_split_scan :: "u8 \<Rightarrow> bytes \<Rightarrow> nat \<Rightarrow> nat" where
  "string_split_scan sep buf p =
     (if p < length buf \<and> buf ! p \<noteq> 0 \<and> buf ! p \<noteq> sep then string_split_scan sep buf (p + 1) else p)"
  by pat_completeness auto
termination by (relation "measure (\<lambda>(sep, buf, p). length buf - p)") auto

declare string_split_scan.simps [simp del]

fun string_split_loop :: "nat \<Rightarrow> u8 \<Rightarrow> bytes \<Rightarrow> nat \<Rightarrow> (nat list \<times> bytes) option" where
  "string_split_loop 0 sep buf p = Some ([], buf)"
| "string_split_loop (Suc n) sep buf p =
     (let q = string_split_scan sep buf p
      in if n = 0 then Some ([p], buf)
         else if q \<ge> length buf then None
         else if buf ! q \<noteq> sep then Some ([p], buf)
         else map_option (\<lambda>(ps, b). (p # ps, b)) (string_split_loop n sep (buf[q := 0]) (q + 1)))"

definition string_split :: "bytes option \<Rightarrow> nat \<Rightarrow> u8 \<Rightarrow> (nat list \<times> bytes) option" where
  "string_split str array_size sep =
     (case str of None \<Rightarrow> Some ([], [])
      | Some buf \<Rightarrow> if hd buf = 0 \<or> array_size \<le> 0 then Some ([], buf)
          else string_split_loop array_size sep buf 0)"

definition string_replace_unprintable_chars :: "bytes \<Rightarrow> bytes" where
  "string_replace_unprintable_chars buf = map (\<lambda>c. if sint c < 32 \<or> sint c > 126 then 32 else c) buf"

text \<open>The digits are stored from the end of the static buffer towards its start.\<close>

function string_format_number_comma_loop :: "u64 \<Rightarrow> nat \<Rightarrow> bytes \<Rightarrow> bytes" where
  "string_format_number_comma_loop num i buf =
     (let buf = (if i mod 3 = 0 \<and> i \<noteq> 0 then ch CHR '','' # buf else buf);
          buf = (ch CHR ''0'' + ucast (num mod 10)) # buf
      in if num div 10 \<noteq> 0 then string_format_number_comma_loop (num div 10) (i + 1) buf else buf)"
  by pat_completeness auto
termination
proof (relation "measure (\<lambda>(num, i, buf). unat num)", simp)
  fix num :: u64
  assume "num div 10 \<noteq> 0"
  then have "num \<noteq> 0" by auto
  then have "0 < unat num" by (simp add: unat_gt_0)
  then have "unat num div 10 < unat num" by simp
  then show "((num div 10, i + 1, y), num, i, buf) \<in> measure (\<lambda>(num, i, buf). unat num)" for i y buf
    by (simp add: unat_div)
qed

declare string_format_number_comma_loop.simps [simp del]

definition string_format_number_comma :: "u64 \<Rightarrow> bytes" where
  "string_format_number_comma num = string_format_number_comma_loop num 0 []"

text \<open>\<open>4 * (sizeof(uint64_t) * CHAR_BIT + 2) / 3 / 3 + 1\<close>.\<close>

definition retbuf_size :: nat where
  "retbuf_size = 4 * (8 * 8 + 2) div 3 div 3 + 1"

definition string_toupper :: "bytes \<Rightarrow> bytes" where
  "string_toupper str = map c_toupper str"

definition string_tolower :: "bytes \<Rightarrow> bytes" where
  "string_tolower str = map c_tolower str"


section \<open>White space and words\<close>

fun string_trim_right :: "bytes \<Rightarrow> nat \<Rightarrow> nat" where
  "string_trim_right cp 0 = 0"
| "string_trim_right cp (Suc len) = (if c_isspace (cp ! len) then string_trim_right cp len else Suc len)"

fun string_trim_left :: "bytes \<Rightarrow> nat \<Rightarrow> nat \<Rightarrow> nat \<times> nat" where
  "string_trim_left str cp 0 = (cp, 0)"
| "string_trim_left str cp (Suc len) =
     (if c_isspace (str ! cp) then string_trim_left str (cp + 1) len else (cp, Suc len))"

definition string_whitespace_trim :: "bytes \<Rightarrow> bytes" where
  "string_whitespace_trim str =
     (let (cp, len) = string_trim_left str 0 (string_trim_right str (length str))
      in take len (drop cp str))"

text \<open>The buffer is squeezed in place, reading at \<open>r\<close> and writing at \<open>w\<close>.\<close>

function string_squeeze_loop :: "bytes \<Rightarrow> nat \<Rightarrow> nat \<Rightarrow> bytes" where
  "string_squeeze_loop str r w =
     (if r < length str \<and> str ! r \<noteq> 0
      then if c_isspace (str ! r)
           then if w = 0 \<or> \<not> c_isspace (str ! (w - 1))
                then string_squeeze_loop (str[w := 32]) (r + 1) (w + 1)
                else string_squeeze_loop str (r + 1) w
           else string_squeeze_loop (str[w := str ! r]) (r + 1) (w + 1)
      else str[w := 0])"
  by pat_completeness auto
termination by (relation "measure (\<lambda>(str, r, w). length str - r)") auto

declare string_squeeze_loop.simps [simp del]

definition string_whitespace_squeeze :: "bytes \<Rightarrow> bytes" where
  "string_whitespace_squeeze str = string_squeeze_loop str 0 0"

definition newline_seq :: bytes where
  "newline_seq = [92, 110]"

lemma c_strstr_length: "c_strstr hay needle = Some i \<Longrightarrow> i + length needle \<le> length hay"
proof -
  assume "c_strstr hay needle = Some i"
  then have "take (length needle) (drop i hay) = needle"
    and i: "i \<le> length hay"
    by (auto simp: c_strstr_def c_has_prefix_def find_Some_iff nth_append less_Suc_eq split: if_splits)
  then have "length needle \<le> length (drop i hay)"
    by (metis length_take min.cobounded2 min_def nat_le_linear take_all)
  then show ?thesis using i by simp
qed

function string_newline_to_literal :: "bytes \<Rightarrow> bytes" where
  "string_newline_to_literal str =
     (case c_strstr str newline_seq of None \<Rightarrow> str
      | Some i \<Rightarrow> string_newline_to_literal (take i str @ [10] @ drop (i + 2) str))"
  by pat_completeness auto
termination
  by (relation "measure length") (auto dest: c_strstr_length simp: newline_seq_def)

declare string_newline_to_literal.simps [simp del]

text \<open>\<open>pos\<close> is the offset of \<open>str\<close> in the caller's string, the position the caller sees.\<close>

function string_word_skip :: "bytes \<Rightarrow> u8 \<Rightarrow> nat \<Rightarrow> nat" where
  "string_word_skip str delim pos =
     (if pos < length str \<and> str ! pos = delim then string_word_skip str delim (pos + 1) else pos)"
  by pat_completeness auto
termination by (relation "measure (\<lambda>(str, delim, pos). length str - pos)") auto

declare string_word_skip.simps [simp del]

function string_word_loop ::
    "bytes \<Rightarrow> u8 \<Rightarrow> nat \<Rightarrow> int \<Rightarrow> nat \<Rightarrow> bool \<Rightarrow> bytes \<Rightarrow> nat \<times> bytes" where
  "string_word_loop str delim wordsize surround pos in_surround word =
     (if pos < length str \<and> (str ! pos \<noteq> delim \<or> in_surround)
      then if sint (str ! pos) = surround
           then string_word_loop str delim wordsize surround (pos + 1) (\<not> in_surround) word
           else if length word < wordsize - 1
           then string_word_loop str delim wordsize surround (pos + 1) in_surround (word @ [str ! pos])
           else string_word_loop str delim wordsize surround (pos + 1) in_surround word
      else (pos, word))"
  by pat_completeness auto
termination by (relation "measure (\<lambda>(str, delim, wordsize, surround, pos, _). length str - pos)") auto

declare string_word_loop.simps [simp del]

text \<open>The result is the new position, the word stored and whether it is returned (not NULL).\<close>

definition string_get_word ::
    "bytes option \<Rightarrow> nat \<Rightarrow> u8 \<Rightarrow> nat \<Rightarrow> int \<Rightarrow> nat \<times> bytes \<times> bool" where
  "string_get_word str pos delim wordsize surround =
     (case str of None \<Rightarrow> (pos, [], False)
      | Some s \<Rightarrow>
          let pos = string_word_skip s delim pos;
              (pos, word) = string_word_loop s delim wordsize surround pos False [];
              pos = string_word_skip s delim pos
          in (pos, word, word \<noteq> []))"

definition string_skip_word_step ::
    "bytes \<Rightarrow> int \<Rightarrow> nat \<times> bool \<Rightarrow> ((nat \<times> bool) + nat) option" where
  "string_skip_word_step str dir st =
     (let (i, whitespace) = st
      in if (dir = - 1 \<and> i \<noteq> 0) \<or> (dir = 1 \<and> i < length str)
         then let c = str ! nat (int i + min 0 dir)
              in if c_isspace c \<and> \<not> whitespace then Some (Inr i)
                 else Some (Inl (nat (int i + dir), whitespace \<and> c_isspace c))
         else Some (Inr i))"

definition string_skip_word :: "bytes \<Rightarrow> nat \<Rightarrow> int \<Rightarrow> nat option" where
  "string_skip_word str i dir = c_loop (string_skip_word_step str dir) (i, True)"


section \<open>Tests and case\<close>

definition string_isdigit :: "bytes \<Rightarrow> bool" where
  "string_isdigit str = list_all c_isdigit (if str \<noteq> [] \<and> hd str = 45 then tl str else str)"

definition string_capitalize :: "bytes option \<Rightarrow> bytes option" where
  "string_capitalize str =
     (case str of None \<Rightarrow> None | Some [] \<Rightarrow> Some []
      | Some (c # cs) \<Rightarrow> Some (c_toupper c # map c_tolower cs))"

primrec string_title_loop :: "bool \<Rightarrow> bytes \<Rightarrow> bytes" where
  "string_title_loop previous_cased [] = []"
| "string_title_loop previous_cased (c # cs) =
     (if c_islower c
      then (if \<not> previous_cased then c_toupper c else c) # string_title_loop True cs
      else if c_isupper c
      then (if previous_cased then c_tolower c else c) # string_title_loop True cs
      else c # string_title_loop False cs)"

definition string_title :: "bytes option \<Rightarrow> bytes option" where
  "string_title str = map_option (string_title_loop False) str"

definition string_isempty :: "bytes option \<Rightarrow> bool" where
  "string_isempty str \<longleftrightarrow> str = None \<or> str = Some []"

definition string_startswith :: "bytes option \<Rightarrow> bytes option \<Rightarrow> bool" where
  "string_startswith str cmp =
     (if string_isempty str \<or> string_isempty cmp then False
      else c_has_prefix (the str) (the cmp))"

definition string_endswith :: "bytes option \<Rightarrow> bytes option \<Rightarrow> bool" where
  "string_endswith str cmp =
     (if string_isempty str \<or> string_isempty cmp then False
      else let len = int (length (the str)) - int (length (the cmp))
           in drop (nat (max 0 len)) (the str) = the cmp)"

definition string_sub :: "bytes \<Rightarrow> int \<Rightarrow> int \<Rightarrow> bytes" where
  "string_sub str start stop =
     (let str_len = int (length str);
          stop = (if stop \<le> 0 then max 0 (str_len + stop) else stop);
          start = (if start < 0 then max 0 (stop + start) else start)
      in if start > stop \<or> start \<ge> str_len then []
         else take (nat (min (str_len - start) (stop - start))) (drop (nat start) str))"

definition string_iswhite :: "bytes option \<Rightarrow> bool" where
  "string_iswhite str = (case str of None \<Rightarrow> True | Some s \<Rightarrow> list_all c_isspace s)"

primrec string_contains :: "bytes \<Rightarrow> bytes \<Rightarrow> bool" where
  "string_contains [] key = False"
| "string_contains (c # str) key = (if char_contains c key then True else string_contains str key)"

primrec string_contains_other :: "bytes \<Rightarrow> bytes \<Rightarrow> bool" where
  "string_contains_other [] key = False"
| "string_contains_other (c # str) key =
     (if \<not> char_contains c key then True else string_contains_other str key)"

text \<open>The loop variable is a \<open>char\<close> and wraps.\<close>

definition string_create_char_range_step :: "u8 \<Rightarrow> u8 \<times> bytes \<Rightarrow> ((u8 \<times> bytes) + bytes) option" where
  "string_create_char_range_step stop st =
     (let (c, str) = st
      in if sint c \<le> sint stop then Some (Inl (c + 1, str @ [c])) else Some (Inr str))"

definition string_create_char_range :: "u8 \<Rightarrow> u8 \<Rightarrow> bytes option" where
  "string_create_char_range start stop = c_loop (string_create_char_range_step stop) (start, [])"

text \<open>A product that overflows \<open>size_t\<close> allocates less than is then written.\<close>

fun string_repeat_loop :: "bytes \<Rightarrow> nat \<Rightarrow> bytes \<Rightarrow> bytes" where
  "string_repeat_loop str 0 ret = ret"
| "string_repeat_loop str (Suc n) ret = string_repeat_loop str n (ret @ str)"

definition string_repeat :: "bytes \<Rightarrow> nat \<Rightarrow> bytes option" where
  "string_repeat str num =
     (if length str * num + 1 > SIZE_MAX then None else Some (string_repeat_loop str num []))"

text \<open>\<open>formatted\<close> is the expansion of the format; the result is the return value and the buffer.\<close>

definition snprintfcat :: "bytes \<Rightarrow> nat \<Rightarrow> bytes \<Rightarrow> nat \<times> bytes" where
  "snprintfcat buf sz formatted =
     (let len = min sz (length buf)
      in (length formatted + len, take len buf @ c_snprintf (sz - len) formatted))"


section \<open>Hexadecimal\<close>

definition hex_digit_upper :: "u8 \<Rightarrow> u8" where
  "hex_digit_upper d = (if d < 10 then 48 + d else 55 + d)"

text \<open>\<open>resultsize - 1\<close> wraps for a size of 0.\<close>

primrec string_tohex_loop :: "nat \<Rightarrow> bytes \<Rightarrow> bool \<Rightarrow> bytes \<Rightarrow> bytes" where
  "string_tohex_loop resultsize [] sep result = result"
| "string_tohex_loop resultsize (c # cs) sep result =
     (let sep = (if cs = [] then False else sep);
          need = (if sep then 3 else 2)
      in if length result + need > (if resultsize = 0 then SIZE_MAX else resultsize - 1) then result
         else string_tohex_loop resultsize cs sep
           (result @ [hex_digit_upper (drop_bit 4 c), hex_digit_upper (c AND 0xf)] @
             (if sep then [58] else [])))"

definition string_tohex :: "bytes \<Rightarrow> nat \<Rightarrow> bool \<Rightarrow> nat \<times> bytes" where
  "string_tohex str resultsize sep =
     (let result = string_tohex_loop resultsize str sep [] in (length result, result))"

primrec string_fromhex_loop :: "nat \<Rightarrow> bytes \<Rightarrow> u8 \<Rightarrow> u8 \<Rightarrow> bytes \<Rightarrow> bytes" where
  "string_fromhex_loop resultsize [] found c result = result"
| "string_fromhex_loop resultsize (x # xs) found c result =
     (if length result < resultsize
      then let hexd = (65 \<le> x \<and> x \<le> 70) \<or> (48 \<le> x \<and> x \<le> 57);
               c = (if hexd then push_bit 4 c OR (if x \<ge> 65 then x - 65 + 10 else x - 48) else c);
               found = (if hexd then found + 1 else found)
           in if found = 2 then string_fromhex_loop resultsize xs 0 0 (result @ [c])
              else string_fromhex_loop resultsize xs found c result
      else result)"

definition string_fromhex :: "bytes \<Rightarrow> nat \<Rightarrow> nat \<times> bytes" where
  "string_fromhex str resultsize =
     (let result = string_fromhex_loop resultsize str 0 0 [] in (length result, result))"

fun string_last_loop :: "bytes \<Rightarrow> bytes \<Rightarrow> nat \<Rightarrow> nat option" where
  "string_last_loop haystack needle 0 =
     (if haystack ! 0 = needle ! 0 \<and> c_has_prefix haystack needle then Some 0 else None)"
| "string_last_loop haystack needle (Suc cp) =
     (if haystack ! Suc cp = needle ! 0 \<and> c_has_prefix (drop (Suc cp) haystack) needle then Some (Suc cp)
      else string_last_loop haystack needle cp)"

text \<open>The result is the offset of the match.\<close>

definition string_last :: "bytes \<Rightarrow> bytes \<Rightarrow> nat option" where
  "string_last haystack needle =
     (if needle = [] then None
      else if length needle > length haystack then None
      else string_last_loop haystack needle (length haystack - length needle))"


section \<open>Strict parsing\<close>

text \<open>\<open>strtoull\<close> on a string that starts with neither white space nor a sign.\<close>

definition c_digit_value :: "u8 \<Rightarrow> nat" where
  "c_digit_value c =
     (if c_isdigit c then unat c - 48 else if c_islower c then unat c - 87
      else if c_isupper c then unat c - 55 else 36)"

definition c_digits_value :: "nat \<Rightarrow> bytes \<Rightarrow> nat" where
  "c_digits_value base ds = foldl (\<lambda>v c. v * base + c_digit_value c) 0 ds"

definition c_hex_prefixed :: "bytes \<Rightarrow> bool" where
  "c_hex_prefixed s \<longleftrightarrow> length s > 2 \<and> s ! 0 = 48 \<and> (s ! 1 = 120 \<or> s ! 1 = 88) \<and> c_digit_value (s ! 2) < 16"

text \<open>The result is the value, or \<open>ULLONG_MAX\<close> with the range error, and the number of bytes parsed.\<close>

definition c_strtoull :: "bytes \<Rightarrow> nat \<Rightarrow> nat \<times> bool \<times> nat" where
  "c_strtoull s base =
     (let skip = (if (base = 0 \<or> base = 16) \<and> c_hex_prefixed s then 2 else 0);
          b = (if base \<noteq> 0 then base else if skip = 2 then 16
               else if s \<noteq> [] \<and> hd s = 48 then 8 else 10);
          ds = takeWhile (\<lambda>c. c_digit_value c < b) (drop skip s);
          v = c_digits_value b ds
      in if ds = [] then (0, False, 0)
         else if v > 2 ^ 64 - 1 then (2 ^ 64 - 1, True, skip + length ds)
         else (v, False, skip + length ds))"

definition string_parse_uint64 :: "bytes option \<Rightarrow> nat \<Rightarrow> u64 \<Rightarrow> u64 \<Rightarrow> u64 option" where
  "string_parse_uint64 str base minimum maximum =
     (case str of None \<Rightarrow> None
      | Some s \<Rightarrow>
          if s = [] \<or> c_isspace (hd s) \<or> hd s = 43 \<or> hd s = 45 then None
          else let (v, erange, e) = c_strtoull s base; val = (of_nat v :: u64)
               in if erange \<or> e = 0 \<or> e \<noteq> length s \<or> val < minimum \<or> val > maximum then None
                  else Some val)"

definition hex_fixed_char :: "bool \<Rightarrow> u8 \<Rightarrow> bool" where
  "hex_fixed_char lowercase_only c \<longleftrightarrow>
     (48 \<le> c \<and> c \<le> 57) \<or> (97 \<le> c \<and> c \<le> 102) \<or> (\<not> lowercase_only \<and> 65 \<le> c \<and> c \<le> 70)"

definition string_is_hex_fixed :: "bytes option \<Rightarrow> nat \<Rightarrow> bool \<Rightarrow> bool" where
  "string_is_hex_fixed str len lowercase_only =
     (case str of None \<Rightarrow> False
      | Some s \<Rightarrow> if length s \<noteq> len then False else list_all (hex_fixed_char lowercase_only) s)"

definition hex_nibble :: "u8 \<Rightarrow> u8" where
  "hex_nibble c = (if c \<le> 57 then c - 48 else c_tolower c - 97 + 10)"

definition string_decode_hex_fixed :: "bytes option \<Rightarrow> nat \<Rightarrow> bool \<Rightarrow> nat \<Rightarrow> bytes option" where
  "string_decode_hex_fixed str len lowercase_only result_size =
     (if len AND 1 \<noteq> 0 \<or> result_size \<noteq> len div 2 \<or> \<not> string_is_hex_fixed str len lowercase_only
      then None
      else Some (map (\<lambda>i. push_bit 4 (hex_nibble (the str ! (i * 2))) OR hex_nibble (the str ! (i * 2 + 1)))
        [0..<result_size]))"

end
