(* ===== verification/Stringbuffer.thy ===== *)
theory Stringbuffer
  imports Cstring
begin

text \<open>
  The string buffers of \<open>src/stringbuffer.c\<close>, and the functions of \<open>src/string.c\<close> built on
  them.

  \<open>sb_buf\<close> is the allocated block, of length \<open>sb_size\<close>; the contents of memory that
  \<open>xmalloc\<close> and \<open>xrealloc\<close> hand out are given by the parameter \<open>fresh\<close>, a byte for every
  offset. The additions in \<open>stringbuffer_ensure\<close> wrap as \<open>size_t\<close> does, and a write outside
  the block, which C leaves undefined, is \<open>None\<close>.
\<close>

definition MAX_BUF :: nat where
  "MAX_BUF = 256"

record StringBuffer =
  sb_buf :: bytes
  sb_pos :: nat
  sb_size :: nat

type_synonym fresh_memory = "nat \<Rightarrow> u8"

definition size_add :: "nat \<Rightarrow> nat \<Rightarrow> nat" where
  "size_add a b = (a + b) mod 2 ^ 64"

definition xrealloc_block :: "fresh_memory \<Rightarrow> bytes \<Rightarrow> nat \<Rightarrow> bytes" where
  "xrealloc_block fresh buf n = take n buf @ map fresh [length buf..<n]"

definition mem_write :: "nat \<Rightarrow> bytes \<Rightarrow> bytes \<Rightarrow> bytes option" where
  "mem_write at data buf =
     (if at + length data \<le> length buf
      then Some (take at buf @ data @ drop (at + length data) buf) else None)"

definition stringbuffer_new :: "fresh_memory \<Rightarrow> StringBuffer" where
  "stringbuffer_new fresh =
     \<lparr>sb_buf = xrealloc_block fresh [] MAX_BUF, sb_pos = 0, sb_size = MAX_BUF\<rparr>"

text \<open>The string is what the returned pointer reads as: the bytes before the first NUL.\<close>

definition stringbuffer_finish :: "StringBuffer \<Rightarrow> bytes option" where
  "stringbuffer_finish sb = map_option (takeWhile (\<lambda>b. b \<noteq> 0)) (mem_write (sb_pos sb) [0] (sb_buf sb))"

definition stringbuffer_ensure :: "fresh_memory \<Rightarrow> nat \<Rightarrow> StringBuffer \<Rightarrow> StringBuffer" where
  "stringbuffer_ensure fresh len sb =
     (if size_add (sb_pos sb) len \<le> sb_size sb then sb
      else let new_size = size_add (size_add (sb_pos sb) len) MAX_BUF
           in sb\<lparr>sb_buf := xrealloc_block fresh (sb_buf sb) new_size, sb_size := new_size\<rparr>)"

text \<open>Storing at the end of the string.\<close>

definition stringbuffer_store :: "bytes \<Rightarrow> StringBuffer \<Rightarrow> StringBuffer option" where
  "stringbuffer_store str sb =
     map_option (\<lambda>b. sb\<lparr>sb_buf := b, sb_pos := size_add (sb_pos sb) (length str)\<rparr>)
       (mem_write (sb_pos sb) str (sb_buf sb))"

definition stringbuffer_append_string_len ::
    "fresh_memory \<Rightarrow> bytes option \<Rightarrow> StringBuffer \<Rightarrow> StringBuffer option" where
  "stringbuffer_append_string_len fresh str sb =
     (case str of None \<Rightarrow> Some sb
      | Some s \<Rightarrow> stringbuffer_store s (stringbuffer_ensure fresh (size_add (length s) 1) sb))"

definition stringbuffer_append_string ::
    "fresh_memory \<Rightarrow> bytes option \<Rightarrow> StringBuffer \<Rightarrow> StringBuffer option" where
  "stringbuffer_append_string fresh str sb = stringbuffer_append_string_len fresh str sb"

text \<open>
  \<open>vsnprintf\<close> of a format whose expansion is \<open>out\<close>: it stores as much as fits with a NUL, nothing
  for a size of zero, and returns the whole length as an \<open>int\<close>, or $-1$ if that is too large.
\<close>

definition PRINTF_MAX :: nat where "PRINTF_MAX = 2 ^ 31 - 1"

definition c_vsnprintf :: "nat \<Rightarrow> bytes \<Rightarrow> int \<times> bytes" where
  "c_vsnprintf sz out =
     (if length out \<le> PRINTF_MAX then int (length out) else - 1, if sz = 0 then [] else c_snprintf sz out @ [0])"

text \<open>
  The loop of \<open>stringbuffer_append_printf\<close>. The sum \<open>n + 1\<close> is one of \<open>int\<close>s, undefined at the
  greatest (\<open>None\<close>); the doubled size wraps.
\<close>

definition stringbuffer_append_printf_step ::
    "fresh_memory \<Rightarrow> bytes \<Rightarrow> nat \<times> StringBuffer \<Rightarrow> ((nat \<times> StringBuffer) + StringBuffer) option" where
  "stringbuffer_append_printf_step fresh out st =
     (let (sz, sb) = st;
          sb = stringbuffer_ensure fresh sz sb;
          (n, stored) = c_vsnprintf sz out
      in do {
        b \<leftarrow> mem_write (sb_pos sb) stored (sb_buf sb);
        let sb = sb\<lparr>sb_buf := b\<rparr>;
        if n > - 1 \<and> nat n < sz then Some (Inr (sb\<lparr>sb_pos := size_add (sb_pos sb) (nat n)\<rparr>))
        else if n > - 1 then (if n = int PRINTF_MAX then None else Some (Inl (nat (n + 1), sb)))
        else Some (Inl (size_add sz sz, sb))
      })"

definition stringbuffer_append_printf ::
    "fresh_memory \<Rightarrow> bytes \<Rightarrow> StringBuffer \<Rightarrow> StringBuffer option" where
  "stringbuffer_append_printf fresh out sb = c_loop (stringbuffer_append_printf_step fresh out) (MAX_BUF, sb)"

text \<open>\<open>None\<close> for the other buffer means that it is the buffer itself, which the code refuses.\<close>

definition stringbuffer_append_stringbuffer ::
    "fresh_memory \<Rightarrow> StringBuffer option \<Rightarrow> StringBuffer \<Rightarrow> StringBuffer option" where
  "stringbuffer_append_stringbuffer fresh other sb = (case other of
     None \<Rightarrow> Some sb
   | Some sb2 \<Rightarrow> stringbuffer_store (take (sb_pos sb2) (sb_buf sb2)) (stringbuffer_ensure fresh (size_add (sb_pos sb2) 1) sb))"

definition stringbuffer_append_char :: "fresh_memory \<Rightarrow> u8 \<Rightarrow> StringBuffer \<Rightarrow> StringBuffer option" where
  "stringbuffer_append_char fresh c sb = stringbuffer_store [c] (stringbuffer_ensure fresh (1 + 1) sb)"

definition stringbuffer_data :: "StringBuffer \<Rightarrow> bytes" where
  "stringbuffer_data sb = sb_buf sb"

definition stringbuffer_length :: "StringBuffer \<Rightarrow> nat" where
  "stringbuffer_length sb = sb_pos sb"

definition stringbuffer_seek :: "nat \<Rightarrow> StringBuffer \<Rightarrow> StringBuffer" where
  "stringbuffer_seek pos sb = (if pos < sb_size sb then sb\<lparr>sb_pos := pos\<rparr> else sb)"

fun stringbuffer_index_loop :: "bytes \<Rightarrow> u8 \<Rightarrow> nat \<Rightarrow> nat \<Rightarrow> int" where
  "stringbuffer_index_loop buf c i 0 = - 1"
| "stringbuffer_index_loop buf c i (Suc n) =
     (if buf ! i = c then int i else stringbuffer_index_loop buf c (i + 1) n)"

definition stringbuffer_index :: "StringBuffer \<Rightarrow> u8 \<Rightarrow> int" where
  "stringbuffer_index sb c = stringbuffer_index_loop (sb_buf sb) c 0 (sb_pos sb)"

fun stringbuffer_rindex_loop :: "bytes \<Rightarrow> u8 \<Rightarrow> nat \<Rightarrow> int" where
  "stringbuffer_rindex_loop buf c 0 = - 1"
| "stringbuffer_rindex_loop buf c (Suc i) = (if buf ! i = c then int i else stringbuffer_rindex_loop buf c i)"

definition stringbuffer_rindex :: "StringBuffer \<Rightarrow> u8 \<Rightarrow> int" where
  "stringbuffer_rindex sb c = stringbuffer_rindex_loop (sb_buf sb) c (sb_pos sb)"

definition stringbuffer_sub :: "StringBuffer \<Rightarrow> int \<Rightarrow> int \<Rightarrow> bytes option" where
  "stringbuffer_sub sb start stop =
     map_option (\<lambda>b. string_sub (takeWhile (\<lambda>b. b \<noteq> 0) b) start stop) (mem_write (sb_pos sb) [0] (sb_buf sb))"


section \<open>Joining\<close>

definition string_join_one ::
    "fresh_memory \<Rightarrow> bytes option \<Rightarrow> bytes \<Rightarrow> StringBuffer \<Rightarrow> StringBuffer option" where
  "string_join_one fresh delim str sb =
     do {
       sb \<leftarrow> (if stringbuffer_length sb \<noteq> 0 \<and> delim \<noteq> None
               then stringbuffer_append_string fresh delim sb else Some sb);
       stringbuffer_append_string fresh (Some str) sb
     }"

text \<open>The variable arguments up to the terminating null pointer.\<close>

primrec string_join_loop ::
    "fresh_memory \<Rightarrow> bytes option \<Rightarrow> bytes list \<Rightarrow> StringBuffer \<Rightarrow> StringBuffer option" where
  "string_join_loop fresh delim [] sb = Some sb"
| "string_join_loop fresh delim (str # strs) sb =
     do { sb \<leftarrow> string_join_one fresh delim str sb; string_join_loop fresh delim strs sb }"

definition string_join :: "fresh_memory \<Rightarrow> bytes option \<Rightarrow> bytes list \<Rightarrow> bytes option" where
  "string_join fresh delim strs =
     do { sb \<leftarrow> string_join_loop fresh delim strs (stringbuffer_new fresh); stringbuffer_finish sb }"

text \<open>An array with null entries, which are passed over.\<close>

primrec string_join_array_loop ::
    "fresh_memory \<Rightarrow> bytes option \<Rightarrow> bytes option list \<Rightarrow> StringBuffer \<Rightarrow> StringBuffer option" where
  "string_join_array_loop fresh delim [] sb = Some sb"
| "string_join_array_loop fresh delim (str # array) sb =
     (case str of None \<Rightarrow> string_join_array_loop fresh delim array sb
      | Some s \<Rightarrow>
          do { sb \<leftarrow> string_join_one fresh delim s sb; string_join_array_loop fresh delim array sb })"

definition string_join_array :: "fresh_memory \<Rightarrow> bytes option \<Rightarrow> bytes option list \<Rightarrow> bytes option" where
  "string_join_array fresh delim array =
     do { sb \<leftarrow> string_join_array_loop fresh delim array (stringbuffer_new fresh); stringbuffer_finish sb }"


section \<open>A string buffer is a string\<close>

text \<open>
  The contract of an appendable text: \<open>contents\<close> is what has been collected; appending appends.
  \<open>room\<close> says how much more may be collected before a size would overflow.
\<close>

locale text_buffer =
  fixes contents :: "'b \<Rightarrow> bytes" and room :: "nat \<Rightarrow> 'b \<Rightarrow> bool"
    and append :: "bytes \<Rightarrow> 'b \<Rightarrow> 'b option" and finish :: "'b \<Rightarrow> bytes option"
  assumes append_text: "room (length s) b \<Longrightarrow> \<exists>b'. append s b = Some b' \<and> contents b' = contents b @ s \<and>
      (\<forall>n. room (length s + n) b \<longrightarrow> room n b')"
    and room_mono: "room (m + n) b \<Longrightarrow> room m b"
    and finish_text: "room 0 b \<Longrightarrow> 0 \<notin> set (contents b) \<Longrightarrow> finish b = Some (contents b)"
begin

text \<open>Appending a list of pieces collects their concatenation.\<close>

primrec append_all :: "bytes list \<Rightarrow> 'b \<Rightarrow> 'b option" where
  "append_all [] b = Some b"
| "append_all (s # ss) b = Option.bind (append s b) (append_all ss)"

lemma append_all_text:
  "room (length (concat ss) + n) b \<Longrightarrow> \<exists>b'. append_all ss b = Some b' \<and> contents b' = contents b @ concat ss \<and> room n b'"
proof (induction ss arbitrary: b)
  case (Cons s ss)
  have "room (length s) b"
    using Cons.prems room_mono [of "length s" "length (concat ss) + n"] by (simp add: add.assoc)
  then obtain b1 where b1: "append s b = Some b1" "contents b1 = contents b @ s" "\<forall>n. room (length s + n) b \<longrightarrow> room n b1"
    using append_text by blast
  have "room (length (concat ss) + n) b1" using b1(3) Cons.prems by (simp add: add.assoc)
  then show ?case using Cons.IH [of b1] b1 by auto
qed simp

lemma collect:
  assumes "room (length (concat ss)) b" "contents b = []" "0 \<notin> set (concat ss)"
  shows "Option.bind (append_all ss b) finish = Some (concat ss)"
  using append_all_text [of ss 0 b] assms finish_text by fastforce

end

definition sb_text :: "StringBuffer \<Rightarrow> bytes" where
  "sb_text sb = take (sb_pos sb) (sb_buf sb)"

definition sb_wf :: "StringBuffer \<Rightarrow> bool" where
  "sb_wf sb \<longleftrightarrow> sb_pos sb < sb_size sb \<and> sb_size sb = length (sb_buf sb) \<and> sb_size sb < 2 ^ 64"

definition sb_room :: "nat \<Rightarrow> StringBuffer \<Rightarrow> bool" where
  "sb_room n sb \<longleftrightarrow> sb_wf sb \<and> sb_pos sb + n + 1 + MAX_BUF < 2 ^ 64"

lemma ensure_room:
  assumes "sb_wf sb" "sb_pos sb + len + MAX_BUF < 2 ^ 64"
  shows "sb_wf (stringbuffer_ensure fresh len sb)"
    and "sb_text (stringbuffer_ensure fresh len sb) = sb_text sb"
    and "sb_pos (stringbuffer_ensure fresh len sb) = sb_pos sb"
    and "sb_pos sb + len \<le> length (sb_buf (stringbuffer_ensure fresh len sb))"
  using assms
  by (auto simp: stringbuffer_ensure_def size_add_def sb_wf_def xrealloc_block_def MAX_BUF_def sb_text_def Let_def)

lemma mem_write_Some:
  "at + length data \<le> length buf \<Longrightarrow> mem_write at data buf = Some (take at buf @ data @ drop (at + length data) buf)"
  by (simp add: mem_write_def)

text \<open>Storing where there is room for the bytes and a terminator.\<close>

lemma store_text:
  assumes "sb_wf sb" "sb_pos sb + length s < length (sb_buf sb)"
  obtains sb' where "stringbuffer_store s sb = Some sb'" "sb_wf sb'" "sb_text sb' = sb_text sb @ s"
    "sb_pos sb' = sb_pos sb + length s"
proof -
  let ?b = "take (sb_pos sb) (sb_buf sb) @ s @ drop (sb_pos sb + length s) (sb_buf sb)"
  have "size_add (sb_pos sb) (length s) = sb_pos sb + length s"
    using assms by (simp add: size_add_def sb_wf_def)
  then have "stringbuffer_store s sb = Some (sb\<lparr>sb_buf := ?b, sb_pos := sb_pos sb + length s\<rparr>)"
    using assms by (simp add: stringbuffer_store_def mem_write_Some)
  then show ?thesis
    by (rule that) (use assms in \<open>auto simp: sb_wf_def sb_text_def\<close>)
qed

lemma append_block:
  assumes "sb_room (length s) sb" "len = size_add (length s) 1"
  obtains sb' where "stringbuffer_store s (stringbuffer_ensure fresh len sb) = Some sb'" "sb_wf sb'"
    "sb_text sb' = sb_text sb @ s" "sb_pos sb' = sb_pos sb + length s"
proof -
  have wf: "sb_wf sb" and bound: "sb_pos sb + length s + 1 + MAX_BUF < 2 ^ 64"
    using assms(1) by (simp_all add: sb_room_def)
  have len: "len = length s + 1" using assms(2) bound by (simp add: size_add_def)
  note e = ensure_room [OF wf, of len fresh]
  have le: "sb_pos sb + len + MAX_BUF < 2 ^ 64" using bound len by simp
  show ?thesis
    by (rule store_text [OF e(1), OF le, of s]) (use e(2-4) [OF le] len in \<open>auto intro!: that\<close>)
qed

lemma append_string_text:
  assumes "sb_room (length s) sb"
  obtains sb' where "stringbuffer_append_string fresh (Some s) sb = Some sb'" "sb_wf sb'"
    "sb_text sb' = sb_text sb @ s" "sb_pos sb' = sb_pos sb + length s"
  by (rule append_block [OF assms refl, where fresh = fresh])
    (simp add: that stringbuffer_append_string_def stringbuffer_append_string_len_def)

lemma takeWhile_terminated: "0 \<notin> set xs \<Longrightarrow> takeWhile (\<lambda>b. b \<noteq> 0) (xs @ (0 :: u8) # ys) = xs"
  by (induction xs) auto

lemma terminate_text:
  assumes "sb_wf sb"
  shows "mem_write (sb_pos sb) [0] (sb_buf sb) = Some (sb_text sb @ 0 # drop (sb_pos sb + 1) (sb_buf sb))"
  using assms by (simp add: mem_write_Some sb_wf_def sb_text_def)

lemma sb_finish_text: "sb_wf sb \<Longrightarrow> 0 \<notin> set (sb_text sb) \<Longrightarrow> stringbuffer_finish sb = Some (sb_text sb)"
  by (simp add: stringbuffer_finish_def terminate_text takeWhile_terminated)

interpretation sb: text_buffer sb_text sb_room "\<lambda>s. stringbuffer_append_string fresh (Some s)" stringbuffer_finish
  for fresh
proof
  show "\<exists>sb'. stringbuffer_append_string fresh (Some s) sb = Some sb' \<and> sb_text sb' = sb_text sb @ s \<and>
      (\<forall>n. sb_room (length s + n) sb \<longrightarrow> sb_room n sb')" if "sb_room (length s) sb" for s sb
    using that by (rule append_string_text [where fresh = fresh]) (auto simp: sb_room_def)
qed (auto simp: sb_room_def sb_finish_text)

lemma new_wf: "sb_wf (stringbuffer_new fresh)" "sb_text (stringbuffer_new fresh) = []"
  "sb_pos (stringbuffer_new fresh) = 0"
  by (simp_all add: sb_wf_def sb_text_def stringbuffer_new_def xrealloc_block_def MAX_BUF_def)

lemma length_text: "sb_wf sb \<Longrightarrow> stringbuffer_length sb = length (sb_text sb)"
  by (simp add: stringbuffer_length_def sb_text_def sb_wf_def)

text \<open>The formatting loop needs at most two rounds.\<close>

lemma append_printf_text:
  assumes "sb_room (length out) sb" and "sb_room MAX_BUF sb" and small: "length out < PRINTF_MAX"
  obtains sb' where "stringbuffer_append_printf fresh out sb = Some sb'" "sb_wf sb'"
    "sb_text sb' = sb_text sb @ out" "sb_pos sb' = sb_pos sb + length out"
proof -
  have round: "\<exists>sb'. stringbuffer_append_printf_step fresh out (n, sb) =
        Some (if length out < n then Inr (sb'\<lparr>sb_pos := sb_pos sb + length out\<rparr>) else Inl (length out + 1, sb')) \<and>
      sb_wf sb' \<and> sb_text sb' = sb_text sb \<and> sb_pos sb' = sb_pos sb \<and>
      (length out < n \<longrightarrow> sb_pos sb + length out < length (sb_buf sb') \<and>
        take (sb_pos sb + length out) (sb_buf sb') = sb_text sb @ out)"
    if n: "0 < n" "sb_pos sb + n + MAX_BUF < 2 ^ 64" "sb_pos sb + length out < 2 ^ 64" and "sb_wf sb" for n sb
  proof -
    let ?sb = "stringbuffer_ensure fresh n sb" and ?w = "c_snprintf n out @ [0]"
    have v: "c_vsnprintf n out = (int (length out), ?w)" using small n(1) by (simp add: c_vsnprintf_def)
    note e = ensure_room [OF that(4) n(2), of fresh]
    have w: "length ?w \<le> n" using n by (simp add: c_snprintf_def)
    have m: "mem_write (sb_pos ?sb) ?w (sb_buf ?sb) =
        Some (sb_text sb @ ?w @ drop (sb_pos sb + length ?w) (sb_buf ?sb))"
      using e w by (simp add: mem_write_Some sb_text_def del: length_append)
    show ?thesis
      by (rule exI [of _ "?sb\<lparr>sb_buf := sb_text sb @ ?w @ drop (sb_pos sb + length ?w) (sb_buf ?sb)\<rparr>"])
        (use e m w n that(4) small in \<open>auto simp: stringbuffer_append_printf_step_def v nat_add_distrib Let_def sb_wf_def sb_text_def
          size_add_def c_snprintf_def\<close>)
  qed
  note bounds = assms(1,2) [unfolded sb_room_def]
  obtain sb1 where s1: "stringbuffer_append_printf_step fresh out (MAX_BUF, sb) =
        Some (if length out < MAX_BUF then Inr (sb1\<lparr>sb_pos := sb_pos sb + length out\<rparr>) else Inl (length out + 1, sb1))"
      "sb_wf sb1" "sb_text sb1 = sb_text sb" "sb_pos sb1 = sb_pos sb"
      "length out < MAX_BUF \<longrightarrow> sb_pos sb + length out < length (sb_buf sb1) \<and>
        take (sb_pos sb + length out) (sb_buf sb1) = sb_text sb @ out"
    using round [of MAX_BUF sb] bounds by (auto simp: MAX_BUF_def)
  show ?thesis
  proof (cases "length out < MAX_BUF")
    case True
    then have "stringbuffer_append_printf fresh out sb = Some (sb1\<lparr>sb_pos := sb_pos sb + length out\<rparr>)"
      using s1(1) by (simp add: stringbuffer_append_printf_def c_loop_leave)
    then show ?thesis
      by (rule that) (use s1 True in \<open>auto simp: sb_wf_def sb_text_def\<close>)
  next
    case False
    obtain sb2 where s2: "stringbuffer_append_printf_step fresh out (length out + 1, sb1) =
          Some (Inr (sb2\<lparr>sb_pos := sb_pos sb1 + length out\<rparr>))" "sb_wf sb2"
        "sb_pos sb1 + length out < length (sb_buf sb2)"
        "take (sb_pos sb1 + length out) (sb_buf sb2) = sb_text sb1 @ out"
      using round [of "length out + 1" sb1] bounds s1 by auto
    have "stringbuffer_append_printf fresh out sb = Some (sb2\<lparr>sb_pos := sb_pos sb1 + length out\<rparr>)"
      using s1(1) s2(1) False by (simp add: stringbuffer_append_printf_def c_loop_continue c_loop_leave)
    then show ?thesis
      by (rule that) (use s1 s2 in \<open>auto simp: sb_wf_def sb_text_def\<close>)
  qed
qed


section \<open>What joining yields\<close>

text \<open>The pieces a join appends; \<open>started\<close> says that something has been collected before.\<close>

primrec join_pieces :: "bytes option \<Rightarrow> bool \<Rightarrow> bytes list \<Rightarrow> bytes list" where
  "join_pieces delim started [] = []"
| "join_pieces delim started (s # ss) =
     (if started \<and> delim \<noteq> None then [the delim] else []) @ s # join_pieces delim (started \<or> s \<noteq> []) ss"

lemma string_join_loop_pieces:
  assumes "sb_room (length (concat (join_pieces delim (sb_pos sb \<noteq> 0) strs))) sb"
  shows "string_join_loop fresh delim strs sb =
    sb.append_all fresh (join_pieces delim (sb_pos sb \<noteq> 0) strs) sb"
  using assms
proof (induction strs arbitrary: sb)
  case (Cons s ss)
  note room = Cons.prems
  show ?case
  proof (cases "sb_pos sb \<noteq> 0 \<and> delim \<noteq> None")
    case True
    then obtain d where d: "delim = Some d" "sb_pos sb \<noteq> 0" by blast
    have "sb_room (length d) sb" using room d by (simp add: sb_room_def)
    then obtain sb1 where sb1: "stringbuffer_append_string fresh (Some d) sb = Some sb1" "sb_wf sb1"
        "sb_pos sb1 = sb_pos sb + length d"
      by (rule append_string_text [where fresh = fresh])
    have "sb_room (length s) sb1" using room d sb1 by (simp add: sb_room_def)
    then obtain sb2 where sb2: "stringbuffer_append_string fresh (Some s) sb1 = Some sb2" "sb_wf sb2"
        "sb_pos sb2 = sb_pos sb1 + length s"
      by (rule append_string_text [where fresh = fresh])
    have "sb_room (length (concat (join_pieces delim (sb_pos sb2 \<noteq> 0) ss))) sb2"
      using room d sb1 sb2 by (simp add: sb_room_def)
    from Cons.IH [OF this] show ?thesis
      using d sb1 sb2 by (simp add: string_join_one_def stringbuffer_length_def)
  next
    case False
    have "sb_room (length s) sb" using room False by (auto simp: sb_room_def split: if_splits)
    then obtain sb2 where sb2: "stringbuffer_append_string fresh (Some s) sb = Some sb2" "sb_wf sb2"
        "sb_pos sb2 = sb_pos sb + length s"
      by (rule append_string_text [where fresh = fresh])
    have started: "(sb_pos sb2 \<noteq> 0) = (sb_pos sb \<noteq> 0 \<or> s \<noteq> [])" using sb2 by auto
    have "sb_room (length (concat (join_pieces delim (sb_pos sb2 \<noteq> 0) ss))) sb2"
      unfolding started using room False sb2 by (auto simp: sb_room_def split: if_splits)
    from Cons.IH [OF this] show ?thesis
      using False sb2 started by (auto simp: string_join_one_def stringbuffer_length_def)
  qed
qed simp

text \<open>The reference: the strings with the delimiter between them.\<close>

primrec intercalate :: "bytes \<Rightarrow> bytes list \<Rightarrow> bytes" where
  "intercalate d [] = []"
| "intercalate d (s # ss) = s @ concat (map ((@) d) ss)"

lemma concat_join_pieces_started: "concat (join_pieces (Some d) True ss) = concat (map ((@) d) ss)"
  by (induction ss) simp_all

lemma concat_join_pieces: "concat (join_pieces (Some d) False ss) = intercalate d (dropWhile (\<lambda>s. s = []) ss)"
  by (induction ss) (simp_all add: concat_join_pieces_started)

lemma concat_join_pieces_None: "concat (join_pieces None started ss) = concat ss"
  by (induction ss arbitrary: started) simp_all

lemma string_join_pieces:
  assumes "length (concat (join_pieces delim False strs)) < 2 ^ 63" "0 \<notin> set (concat (join_pieces delim False strs))"
  shows "string_join fresh delim strs = Some (concat (join_pieces delim False strs))"
proof -
  let ?ps = "join_pieces delim False strs"
  have room: "sb_room (length (concat ?ps)) (stringbuffer_new fresh)"
    using assms(1) new_wf [of fresh] by (simp add: sb_room_def MAX_BUF_def)
  then show ?thesis
    using string_join_loop_pieces [of delim "stringbuffer_new fresh" strs fresh]
      sb.collect [OF room, of fresh] new_wf [of fresh] assms(2)
    by (simp add: string_join_def)
qed

lemma string_join_array_filter: "string_join_array fresh delim array = string_join fresh delim (List.map_filter id array)"
proof -
  have "string_join_array_loop fresh delim array sb = string_join_loop fresh delim (List.map_filter id array) sb" for sb
    by (induction array arbitrary: sb) (auto simp: List.map_filter_simps split: option.splits)
  then show ?thesis by (simp add: string_join_array_def string_join_def)
qed

section \<open>Sessions\<close>

text \<open>Any use of a string buffer that stays clear of the overflow of \<open>size_t\<close>.\<close>

inductive sb_session :: "fresh_memory \<Rightarrow> StringBuffer \<Rightarrow> bytes \<Rightarrow> bool" for fresh where
  new: "sb_session fresh (stringbuffer_new fresh) []"
| string: "sb_session fresh sb t \<Longrightarrow> sb_room (length s) sb \<Longrightarrow>
    stringbuffer_append_string_len fresh (Some s) sb = r \<Longrightarrow> sb_session fresh (the r) (t @ s)"
| printf: "sb_session fresh sb t \<Longrightarrow> sb_room (max MAX_BUF (length s)) sb \<Longrightarrow> length s < PRINTF_MAX \<Longrightarrow>
    stringbuffer_append_printf fresh s sb = r \<Longrightarrow> sb_session fresh (the r) (t @ s)"
| stringbuffer: "sb_session fresh sb t \<Longrightarrow> sb_session fresh sb2 s \<Longrightarrow> sb_room (length s) sb \<Longrightarrow>
    stringbuffer_append_stringbuffer fresh (Some sb2) sb = r \<Longrightarrow> sb_session fresh (the r) (t @ s)"
| itself: "sb_session fresh sb t \<Longrightarrow> stringbuffer_append_stringbuffer fresh None sb = r \<Longrightarrow> sb_session fresh (the r) t"
| char: "sb_session fresh sb t \<Longrightarrow> sb_room 1 sb \<Longrightarrow>
    stringbuffer_append_char fresh c sb = r \<Longrightarrow> sb_session fresh (the r) (t @ [c])"
| seek_back: "sb_session fresh sb t \<Longrightarrow> pos \<le> length t \<Longrightarrow> sb_session fresh (stringbuffer_seek pos sb) (take pos t)"

lemma append_stringbuffer_text:
  assumes "sb_room (length s) sb" "sb_text sb2 = s" "sb_wf sb2"
  obtains sb' where "stringbuffer_append_stringbuffer fresh (Some sb2) sb = Some sb'" "sb_wf sb'"
    "sb_text sb' = sb_text sb @ s"
proof -
  have "length s = sb_pos sb2" using length_text [OF assms(3)] assms(2) by (simp add: stringbuffer_length_def)
  moreover have "take (sb_pos sb2) (sb_buf sb2) = s" using assms(2) by (simp add: sb_text_def)
  ultimately show ?thesis
    by (rule_tac append_block [OF assms(1) refl, where fresh = fresh])
      (rule that, simp_all add: stringbuffer_append_stringbuffer_def)
qed

lemma append_char_text:
  assumes "sb_room 1 sb"
  obtains sb' where "stringbuffer_append_char fresh c sb = Some sb'" "sb_wf sb'" "sb_text sb' = sb_text sb @ [c]"
proof -
  have "sb_room (length [c]) sb" using assms by simp
  then show ?thesis
    by (rule append_block [where fresh = fresh, OF _ refl])
      (auto simp: stringbuffer_append_char_def size_add_def intro: that)
qed

lemma sb_session_text: "sb_session fresh sb t \<Longrightarrow> sb_wf sb \<and> sb_text sb = t"
proof (induction rule: sb_session.induct)
  case new
  then show ?case by (simp add: new_wf)
next
  case (string sb t s r)
  show ?case
    by (rule append_string_text [OF string.hyps(2), of fresh])
      (use string in \<open>auto simp: stringbuffer_append_string_def\<close>)
next
  case (printf sb t s r)
  then have "sb_room (length s) sb" "sb_room MAX_BUF sb" "length s < PRINTF_MAX" by (auto simp: sb_room_def)
  then show ?case by (rule append_printf_text [where fresh = fresh]) (use printf in auto)
next
  case (stringbuffer sb t sb2 s r)
  then have "sb_text sb2 = s" "sb_wf sb2" by simp_all
  then show ?case
    by (rule append_stringbuffer_text [OF stringbuffer.hyps(3), where fresh = fresh]) (use stringbuffer in auto)
next
  case (itself sb t r)
  then show ?case by (auto simp: stringbuffer_append_stringbuffer_def)
next
  case (char sb t c r)
  show ?case by (rule append_char_text [OF char.hyps(2), where fresh = fresh and c = c]) (use char in auto)
next
  case (seek_back sb t pos)
  then have t: "sb_text sb = t" and wf: "sb_wf sb" by simp_all
  have "sb_pos sb = length t" using length_text [OF wf] t by (simp add: stringbuffer_length_def)
  then have "t = take (length t) (sb_buf sb)" using t by (simp add: sb_text_def)
  then have "take pos t = take pos (sb_buf sb)" using seek_back.hyps(2) by (metis min.absorb1 take_take)
  then show ?case
    using wf seek_back.hyps(2) \<open>sb_pos sb = length t\<close>
    by (auto simp: stringbuffer_seek_def sb_wf_def sb_text_def)
qed

end
