(* ===== verification/Strings.thy ===== *)
theory Strings
  imports Stringbuffer "HOL-Library.Sublist" "HOL-Library.Code_Target_Nat"
begin

unbundle bit_operations_syntax

text \<open>
  What the string functions compute: each loop against a reference definition, with round
  trips for the encodings.
\<close>

section \<open>Replacement\<close>

function replace_all :: "bytes \<Rightarrow> bytes \<Rightarrow> bytes \<Rightarrow> bytes" where
  "replace_all key rep s =
     (if s = [] then []
      else if key \<noteq> [] \<and> prefix key s then rep @ replace_all key rep (drop (length key) s)
      else hd s # replace_all key rep (tl s))"
  by pat_completeness auto
termination by (relation "measure (\<lambda>(key, rep, s). length s)") auto

declare replace_all.simps [simp del]

lemma has_prefix_iff: "c_has_prefix s key \<longleftrightarrow> prefix key s"
  by (metis append_eq_conv_conj append_take_drop_id c_has_prefix_def prefix_def)

lemma replace_all_id: "replace_all key key s = s"
proof (induction "length s" arbitrary: s rule: less_induct)
  case less
  show ?case
    using less [of "drop (length key) s"] less [of "tl s"]
    by (subst replace_all.simps) (auto simp: prefix_def)
qed

lemma string_replace_loop_all:
  assumes "key \<noteq> []" "length result \<le> n - 1"
  shows "c_loop (string_replace_step key rep n) (src, result) = Some (take (n - 1) (result @ replace_all key rep src))"
  using assms(2)
proof (induction "length src" arbitrary: src result rule: less_induct)
  case less
  consider "src = []" | "src \<noteq> []" "\<not> length result + 1 < n"
    | "src \<noteq> []" "length result + 1 < n" "prefix key src" | "src \<noteq> []" "length result + 1 < n" "\<not> prefix key src"
    by blast
  then show ?case
  proof cases
    case 1
    then show ?thesis using less.prems by (simp add: c_loop_leave string_replace_step_def replace_all.simps)
  next
    case 2
    then show ?thesis using less.prems by (auto simp: c_loop_leave string_replace_step_def)
  next
    case 3
    let ?r = "result @ take (n - length result - 1) rep" and ?s = "drop (length key) src"
    have "string_replace_step key rep n (src, result) = Some (Inl (?s, ?r))"
      using 3 by (simp add: string_replace_step_def has_prefix_iff c_snprintf_def)
    then have "c_loop (string_replace_step key rep n) (src, result) = c_loop (string_replace_step key rep n) (?s, ?r)"
      by (rule c_loop_continue)
    also have "\<dots> = Some (take (n - 1) (?r @ replace_all key rep ?s))"
      by (rule less.hyps) (use assms(1) 3 in auto)
    also have "\<dots> = Some (take (n - 1) (result @ rep @ replace_all key rep ?s))"
      by (auto simp: min_def)
    finally show ?thesis using 3 assms(1) by (simp add: replace_all.simps [of key rep src])
  next
    case 4
    then have "string_replace_step key rep n (src, result) = Some (Inl (tl src, result @ [hd src]))"
      by (simp add: string_replace_step_def has_prefix_iff)
    then show ?thesis
      using less.hyps [of "tl src" "result @ [hd src]"] 4
      by (simp add: c_loop_continue replace_all.simps [of key rep src])
  qed
qed

text \<open>
  \<open>string_replace\<close> returns for every non-empty key, and what it stores is the text with
  every occurrence replaced, scanning from the left, cut to the size of the result buffer.
\<close>

theorem string_replace_exact:
  assumes "key \<noteq> []"
  shows "string_replace src key replacement resultsize =
    Some (take (resultsize - 1) (replace_all key replacement src))"
  using string_replace_loop_all [OF assms, of "[]" resultsize replacement src]
  by (simp add: string_replace_def replace_all_id c_snprintf_def)

theorem string_replace_exact_witness:
  "string_replace [1, 2, 1, 2, 3] [1, 2] [7, 8, 9] 6 = Some [7, 8, 9, 7, 8]"
  using string_replace_exact [of "[1, 2]" "[1, 2, 1, 2, 3]" "[7, 8, 9]" 6] by (simp add: replace_all.simps)


section \<open>Numbers with separators\<close>

lemma digit_char: "d < 10 \<Longrightarrow> c_digit_value (48 + of_nat d) = d \<and> 48 + of_nat d \<noteq> (44 :: u8)"
proof -
  have "list_all (\<lambda>d. c_digit_value (48 + of_nat d) = d \<and> 48 + of_nat d \<noteq> (44 :: u8)) [0..<10]"
    by code_simp
  then show "d < 10 \<Longrightarrow> ?thesis" by (simp add: list_all_iff)
qed

lemma comma_digit: "(ucast (num mod 10) :: u8) = of_nat (unat num mod 10)" for num :: u64
proof -
  have "(ucast (num mod 10) :: u8) = of_nat (unat (num mod 10))" by (simp only: of_nat_unat)
  then show ?thesis by (simp add: unat_mod)
qed

lemma digits_value_snoc: "c_digits_value b (ds @ [d]) = c_digits_value b ds * b + c_digit_value d"
  by (simp add: c_digits_value_def)

lemma comma_value:
  "\<exists>pre. string_format_number_comma_loop num i buf = pre @ buf \<and>
     c_digits_value 10 (filter (\<lambda>c. c \<noteq> 44) pre) = unat num"
proof (induction num i buf rule: string_format_number_comma_loop.induct)
  case (1 num i buf)
  let ?d = "48 + of_nat (unat num mod 10) :: u8" and ?c = "if i mod 3 = 0 \<and> i \<noteq> 0 then [44] else [] :: bytes"
  have d: "c_digit_value ?d = unat num mod 10" "?d \<noteq> 44" using digit_char [of "unat num mod 10"] by simp_all
  have eq: "string_format_number_comma_loop num i buf =
      (if num div 10 \<noteq> 0 then string_format_number_comma_loop (num div 10) (i + 1) (?d # ?c @ buf) else ?d # ?c @ buf)"
    by (subst string_format_number_comma_loop.simps) (simp add: comma_digit Let_def)
  show ?case
  proof (cases "num div 10 = 0")
    case True
    then have "unat (num div 10) = 0" by simp
    then have "unat num div 10 = 0" by (simp add: unat_div)
    then have "unat num mod 10 = unat num" by simp
    then show ?thesis
      using True d eq by (intro exI [of _ "?d # ?c"]) (simp add: c_digits_value_def)
  next
    case False
    have "?d # ?c @ buf = (let buf = (if i mod 3 = 0 \<and> i \<noteq> 0 then ch CHR '','' # buf else buf) in
        (ch CHR ''0'' + ucast (num mod 10)) # buf)"
      by (simp add: comma_digit)
    then obtain pre where pre: "string_format_number_comma_loop (num div 10) (i + 1) (?d # ?c @ buf) = pre @ ?d # ?c @ buf"
        "c_digits_value 10 (filter (\<lambda>c. c \<noteq> 44) pre) = unat (num div 10)"
      using 1 [OF refl refl False] by (auto simp: Let_def)
    have "c_digits_value 10 (filter (\<lambda>c. c \<noteq> 44) (pre @ ?d # ?c)) = unat num"
      using pre(2) d by (simp add: digits_value_snoc unat_div)
    then show ?thesis using False eq pre(1) by (intro exI [of _ "pre @ ?d # ?c"]) simp
  qed
qed

text \<open>A separator stands at every position whose index is a positive multiple of three.\<close>

lemma comma_count: "(i - 1) div 3 + (if i mod 3 = 0 \<and> i \<noteq> 0 then 1 else 0) = i div 3" for i :: nat
  by (cases i) (auto simp: mod_Suc div_Suc)

lemma comma_length:
  "unat num < 10 ^ Suc k \<Longrightarrow>
     length (string_format_number_comma_loop num i buf) + (i - 1) div 3 \<le> length buf + Suc k + (i + k) div 3"
proof (induction k arbitrary: num i buf)
  case 0
  then have "unat (num div 10) = 0" by (simp add: unat_div)
  then have "num div 10 = 0" by (simp only: unat_eq_0)
  then show ?case by (subst string_format_number_comma_loop.simps) (use comma_count [of i] in auto)
next
  case (Suc k)
  let ?b = "(ch CHR ''0'' + ucast (num mod 10)) # (if i mod 3 = 0 \<and> i \<noteq> 0 then ch CHR '','' # buf else buf)"
  have b: "length ?b + (i - 1) div 3 = length buf + 1 + i div 3" using comma_count [of i] by auto
  show ?case
  proof (cases "num div 10 = 0")
    case True
    then have "string_format_number_comma_loop num i buf = ?b"
      by (subst string_format_number_comma_loop.simps) (simp add: Let_def)
    moreover have "i div 3 \<le> (i + Suc k) div 3" by (rule div_le_mono) simp
    ultimately show ?thesis using b by simp
  next
    case False
    have "unat (num div 10) < 10 ^ Suc k" using Suc.prems by (simp add: unat_div less_mult_imp_div_less)
    from Suc.IH [OF this, of "i + 1" ?b] b
    have "length (string_format_number_comma_loop (num div 10) (i + 1) ?b) + (i - 1) div 3 \<le>
        length buf + Suc (Suc k) + (i + Suc k) div 3"
      by simp
    moreover have "string_format_number_comma_loop num i buf = string_format_number_comma_loop (num div 10) (i + 1) ?b"
      using False by (subst string_format_number_comma_loop.simps) (simp add: Let_def)
    ultimately show ?thesis by simp
  qed
qed

text \<open>
  The formatted number without its separators is the decimal representation of the
  number, and with its terminator it fits the static buffer.
\<close>

theorem format_number_comma_value:
  "c_digits_value 10 (filter (\<lambda>c. c \<noteq> ch CHR '','') (string_format_number_comma num)) = unat num \<and>
   length (string_format_number_comma num) + 1 \<le> retbuf_size"
proof -
  have "unat num < 10 ^ Suc 19" using unsigned_less [of num, where ?'a = nat] by simp
  from comma_length [OF this, of 0 "[]"] comma_value [of num 0 "[]"] show ?thesis
    by (auto simp: string_format_number_comma_def retbuf_size_def)
qed


section \<open>Hexadecimal\<close>

lemma bit_0xf: "bit (0xf :: u8) n \<longleftrightarrow> n < 4"
proof -
  have m: "(0xf :: u8) = mask 4" by (simp add: mask_eq_exp_minus_1)
  show ?thesis unfolding m bit_mask_iff by auto
qed

lemma nibble_bit: "d < 16 \<Longrightarrow> bit d n \<Longrightarrow> n < 4" for d :: u8
proof -
  assume "d < 16" and b: "bit d n"
  then have "unat d < 2 ^ 4" by (simp add: word_less_nat_alt)
  then have "unat (take_bit 4 d) = unat d" by (simp add: take_bit_eq_mod unat_mod)
  then have "take_bit 4 d = d" by (rule unsigned_word_eqI)
  then show "n < 4" using b by (metis bit_take_bit_iff)
qed

lemma nibble_join:
  assumes "h < 16" "l < (16 :: u8)"
  shows "drop_bit 4 (push_bit 4 h OR l) = h" "(push_bit 4 h OR l) AND 0xf = l"
proof -
  show "drop_bit 4 (push_bit 4 h OR l) = h"
    by (rule bit_word_eqI)
      (use nibble_bit [OF assms(1)] nibble_bit [OF assms(2)] in
        \<open>force simp: bit_or_iff bit_push_bit_iff bit_drop_bit_eq\<close>)
  show "(push_bit 4 h OR l) AND 0xf = l"
    by (rule bit_word_eqI, unfold bit_or_iff bit_and_iff bit_push_bit_iff bit_0xf)
      (use nibble_bit [OF assms(2)] in auto)
qed

lemma nibbles: "push_bit 4 (drop_bit 4 c) OR (c AND 0xf) = c" for c :: u8
proof (rule bit_word_eqI)
  fix n assume "n < LENGTH(8)"
  then show "bit (push_bit 4 (drop_bit 4 c) OR (c AND 0xf)) n = bit c n"
    unfolding bit_or_iff bit_and_iff bit_push_bit_iff bit_drop_bit_eq o_def bit_0xf
    by (cases "n < 4") simp_all
qed

lemma nibble_less: "drop_bit 4 c < 16" "c AND 0xf < 16" for c :: u8
proof -
  have "unat (drop_bit 4 c) = drop_bit 4 (unat c)" by (rule unat_drop_bit_eq)
  also have "\<dots> = unat c div 16" by (simp add: drop_bit_eq_div)
  finally show "drop_bit 4 c < 16" using unsigned_less [of c, where ?'a = nat] by (simp add: word_less_nat_alt)
  have "c AND 0xf \<le> 0xf" by (rule word_and_le1)
  then show "c AND 0xf < 16" by (simp add: word_le_nat_alt word_less_nat_alt)
qed

lemma nibble_cases:
  assumes "list_all (\<lambda>n. P (of_nat n)) [0..<16]" "d < (16 :: u8)"
  shows "P d"
proof -
  have "unat d < 16" using assms(2) by (simp add: word_less_nat_alt)
  then have "P (of_nat (unat d))"
    using assms(1) by (metis (no_types) atLeastLessThan_iff le0 list_all_iff set_upt)
  then show ?thesis by simp
qed

text \<open>What \<open>string_fromhex\<close> reads off one character, and one step of it.\<close>

definition is_hex_upper :: "u8 \<Rightarrow> bool" where
  "is_hex_upper x \<longleftrightarrow> (65 \<le> x \<and> x \<le> 70) \<or> (48 \<le> x \<and> x \<le> 57)"

lemma hex_digit_upper_facts:
  assumes "d < 16"
  shows "is_hex_upper (hex_digit_upper d) \<and>
    (if hex_digit_upper d \<ge> 65 then hex_digit_upper d - 65 + 10 else hex_digit_upper d - 48) = d"
  by (rule nibble_cases [OF _ assms]) code_simp

lemma fromhex_pair:
  assumes "length result < m"
  shows "string_fromhex_loop m (hex_digit_upper (drop_bit 4 c) # hex_digit_upper (c AND 0xf) # xs) 0 0 result =
    string_fromhex_loop m xs 0 0 (result @ [c])"
  using assms hex_digit_upper_facts [OF nibble_less(1), of c] hex_digit_upper_facts [OF nibble_less(2), of c] nibbles [of c]
  by (simp add: is_hex_upper_def Let_def split del: if_split)

lemma fromhex_colon: "string_fromhex_loop m (58 # xs) 0 0 result = string_fromhex_loop m xs 0 0 result"
  by (cases xs) simp_all

text \<open>The text \<open>string_tohex\<close> produces when the buffer suffices.\<close>

fun hex_text :: "bool \<Rightarrow> bytes \<Rightarrow> bytes" where
  "hex_text sep [] = []"
| "hex_text sep (c # cs) = [hex_digit_upper (drop_bit 4 c), hex_digit_upper (c AND 0xf)] @
     (if sep \<and> cs \<noteq> [] then [58] else []) @ hex_text sep cs"

lemma tohex_text:
  assumes "length result + 3 * length cs < n"
  shows "string_tohex_loop n cs sep result = result @ hex_text sep cs"
  using assms
proof (induction cs arbitrary: sep result)
  case (Cons c cs)
  show ?case
  proof (cases "cs = []")
    case True
    then show ?thesis using Cons.prems by (auto simp: Let_def)
  next
    case False
    then show ?thesis using Cons by (auto simp: Let_def)
  qed
qed simp

lemma fromhex_text:
  assumes "length result + length cs \<le> m"
  shows "string_fromhex_loop m (hex_text sep cs) 0 0 result = result @ cs"
  using assms
proof (induction cs arbitrary: result)
  case (Cons c cs)
  then show ?case by (cases sep) (simp_all del: string_fromhex_loop.simps(2) add: fromhex_pair fromhex_colon)
qed simp

text \<open>
  Bytes converted to hexadecimal, with or without separators, into a large enough
  buffer are recovered by \<open>string_fromhex\<close>.
\<close>

theorem hex_roundtrip:
  assumes "3 * length data < resultsize" "length data \<le> sz"
  shows "string_fromhex (snd (string_tohex data resultsize sep)) sz = (length data, data)"
  using assms tohex_text [of "[]" data resultsize sep] fromhex_text [of "[]" data sz sep]
  by (simp add: string_tohex_def string_fromhex_def Let_def)

theorem hex_roundtrip_witness: "string_fromhex (snd (string_tohex [0xde, 0, 0x7f] 16 True)) 3 = (3, [0xde, 0, 0x7f])"
  using hex_roundtrip [of "[0xde, 0, 0x7f]" 16 3 True] by simp

definition hex_digit_lower :: "u8 \<Rightarrow> u8" where
  "hex_digit_lower d = (if d < 10 then 48 + d else 87 + d)"

definition hex_lower :: "bytes \<Rightarrow> bytes" where
  "hex_lower bs = concat (map (\<lambda>c. [hex_digit_lower (drop_bit 4 c), hex_digit_lower (c AND 0xf)]) bs)"

lemma hex_digit_lower_facts:
  assumes "d < 16"
  shows "hex_fixed_char True (hex_digit_lower d) \<and> hex_nibble (hex_digit_lower d) = d"
  by (rule nibble_cases [OF _ assms]) code_simp

lemma hex_fixed_char_digit: "hex_fixed_char True c \<Longrightarrow> \<exists>d < 16. c = hex_digit_lower d"
proof -
  assume h: "hex_fixed_char True c"
  show ?thesis
  proof (cases "c \<le> 57")
    case True
    then have "48 \<le> c" using h by (auto simp: hex_fixed_char_def word_le_nat_alt)
    then have "c - 48 < 10" using True by (simp add: word_less_nat_alt word_le_nat_alt unat_sub)
    then show ?thesis
      by (intro exI [of _ "c - 48"]) (simp add: hex_digit_lower_def word_less_nat_alt)
  next
    case False
    then have b: "97 \<le> c" "c \<le> 102" using h by (auto simp: hex_fixed_char_def)
    then have "97 \<le> unat c" "unat c \<le> 102" by (simp_all add: word_le_nat_alt)
    then have u: "unat (c - 87) = unat c - 87" by (simp add: word_le_nat_alt unat_sub)
    then have "c - 87 < 16" "\<not> c - 87 < 10" using \<open>97 \<le> unat c\<close> \<open>unat c \<le> 102\<close> by (simp_all add: word_less_nat_alt)
    then show ?thesis by (intro exI [of _ "c - 87"]) (simp add: hex_digit_lower_def)
  qed
qed

lemma hex_nibble_lower: "hex_fixed_char True c \<Longrightarrow> hex_nibble c < 16 \<and> hex_digit_lower (hex_nibble c) = c"
  using hex_fixed_char_digit [of c] hex_digit_lower_facts by auto

fun decode_pairs :: "bytes \<Rightarrow> bytes" where
  "decode_pairs (h # l # xs) = (push_bit 4 (hex_nibble h) OR hex_nibble l) # decode_pairs xs"
| "decode_pairs _ = []"

lemma decode_pairs_nth:
  "length s = 2 * n \<Longrightarrow>
     map (\<lambda>i. push_bit 4 (hex_nibble (s ! (i * 2))) OR hex_nibble (s ! (i * 2 + 1))) [0..<n] = decode_pairs s"
proof (induction s arbitrary: n rule: decode_pairs.induct)
  case (1 h l xs)
  then obtain m where "n = Suc m" "length xs = 2 * m" by (cases n) auto
  then show ?case using "1.IH" [of m] by (simp add: map_upt_Suc del: upt_Suc)
qed auto

lemma decode_pairs_lower: "decode_pairs (hex_lower bs) = bs"
  by (induction bs) (simp_all add: hex_lower_def hex_digit_lower_facts [OF nibble_less(1)]
      hex_digit_lower_facts [OF nibble_less(2)] nibbles)

lemma lower_decode_pairs:
  "even (length s) \<Longrightarrow> list_all (hex_fixed_char True) s \<Longrightarrow> hex_lower (decode_pairs s) = s"
proof (induction s rule: decode_pairs.induct)
  case (1 h l xs)
  then have "drop_bit 4 (push_bit 4 (hex_nibble h) OR hex_nibble l) = hex_nibble h"
    "(push_bit 4 (hex_nibble h) OR hex_nibble l) AND 0xf = hex_nibble l"
    by (intro nibble_join; simp add: hex_nibble_lower)+
  then show ?case using 1 by (simp add: hex_lower_def hex_nibble_lower del: drop_bit_or)
qed (auto simp: hex_lower_def)

lemma hex_lower_chars: "list_all (hex_fixed_char True) (hex_lower bs)" "length (hex_lower bs) = 2 * length bs"
  by (induction bs) (simp_all add: hex_lower_def hex_digit_lower_facts [OF nibble_less(1)]
      hex_digit_lower_facts [OF nibble_less(2)])

text \<open>
  \<open>string_decode_hex_fixed\<close> with lower case only accepts exactly the lower-case
  hexadecimal texts of \<open>result_size\<close> bytes, and decodes each to the bytes it encodes.
\<close>

theorem decode_hex_fixed_exact:
  "string_decode_hex_fixed (Some s) len True result_size = Some bs \<longleftrightarrow>
     s = hex_lower bs \<and> len = length s \<and> result_size = length bs" (is "?L \<longleftrightarrow> ?R")
proof
  assume l: ?L
  then have e: "even len" "result_size = len div 2" "length s = len" "list_all (hex_fixed_char True) s"
    by (auto simp: string_decode_hex_fixed_def string_is_hex_fixed_def and_one_eq even_iff_mod_2_eq_zero split: if_splits)
  have "bs = decode_pairs s"
    using l e decode_pairs_nth [of s result_size] by (simp add: string_decode_hex_fixed_def split: if_splits)
  then have "hex_lower bs = s" using e lower_decode_pairs by simp
  then show ?R using e hex_lower_chars(2) [of bs] by auto
next
  assume r: ?R
  have "len AND 1 = 0" using r hex_lower_chars(2) [of bs] by (simp add: and_one_eq)
  then show ?L
    using r hex_lower_chars [of bs] decode_pairs_nth [of s result_size] decode_pairs_lower [of bs]
    by (simp add: string_decode_hex_fixed_def string_is_hex_fixed_def)
qed


section \<open>Splitting and joining\<close>

lemma split_scan_end:
  assumes "0 \<notin> set s"
  shows "string_split_scan sep (pre @ s @ 0 # post) (length pre) = length pre + length (takeWhile (\<lambda>c. c \<noteq> sep) s)"
  using assms
proof (induction s arbitrary: pre)
  case Nil
  then show ?case by (subst string_split_scan.simps) simp
next
  case (Cons c s)
  show ?case
  proof (cases "c = sep")
    case True
    then show ?thesis by (subst string_split_scan.simps) simp
  next
    case False
    then show ?thesis
      using Cons.IH [of "pre @ [c]"] Cons.prems by (subst string_split_scan.simps) auto
  qed
qed

text \<open>The field at an offset of the buffer.\<close>

definition field_at :: "bytes \<Rightarrow> nat \<Rightarrow> bytes" where
  "field_at buf p = takeWhile (\<lambda>b. b \<noteq> 0) (drop p buf)"

lemma intercalate_Cons: "fs \<noteq> [] \<Longrightarrow> intercalate d (f # fs) = f @ d @ intercalate d fs"
  by (cases fs) simp_all

lemma split_loop_fields:
  assumes "0 \<notin> set s" "sep \<noteq> 0"
  shows "\<exists>ps buf'. string_split_loop (Suc n) sep (pre @ s @ [0]) (length pre) = Some (ps, buf') \<and> ps \<noteq> [] \<and>
    length ps \<le> Suc n \<and> take (length pre) buf' = pre \<and>
    intercalate [sep] (map (field_at buf') ps) = s \<and>
    list_all (\<lambda>f. sep \<notin> set f) (butlast (map (field_at buf') ps)) \<and>
    (length ps < Suc n \<longrightarrow> sep \<notin> set (last (map (field_at buf') ps)))"
  using assms(1)
proof (induction n arbitrary: pre s)
  case 0
  then show ?case by (simp add: field_at_def takeWhile_terminated)
next
  case (Suc n)
  let ?f = "takeWhile (\<lambda>c. c \<noteq> sep) s" and ?buf = "pre @ s @ [0]"
  have scan: "string_split_scan sep ?buf (length pre) = length pre + length ?f"
    by (rule split_scan_end [OF Suc.prems])
  show ?case
  proof (cases "?f = s")
    case True
    then have "sep \<notin> set s" unfolding takeWhile_eq_all_conv by blast
    moreover have "string_split_loop (Suc (Suc n)) sep ?buf (length pre) = Some ([length pre], ?buf)"
      using scan True assms(2) by (simp add: nth_append)
    ultimately show ?thesis
      using Suc.prems by (auto simp: field_at_def takeWhile_terminated simp del: string_split_loop.simps)
  next
    case False
    then have "dropWhile (\<lambda>c. c \<noteq> sep) s \<noteq> []" unfolding dropWhile_eq_Nil_conv takeWhile_eq_all_conv by blast
    then obtain x s' where "dropWhile (\<lambda>c. c \<noteq> sep) s = x # s'" by (meson neq_Nil_conv)
    then have s: "s = ?f @ sep # s'" unfolding dropWhile_eq_Cons_conv by blast
    let ?pre = "pre @ ?f @ [0]"
    have nul: "0 \<notin> set s'" "0 \<notin> set ?f" using Suc.prems s by (metis Un_iff list.set_intros(2) set_append)+
    have nth: "?buf ! (length pre + length ?f) = sep" "?buf[length pre + length ?f := 0] = ?pre @ s' @ [0]"
      by (subst s, simp add: nth_append list_update_append)+
    obtain ps buf' where IH: "string_split_loop (Suc n) sep (?pre @ s' @ [0]) (length ?pre) = Some (ps, buf')"
        "ps \<noteq> []" "length ps \<le> Suc n" "take (length ?pre) buf' = ?pre"
        "intercalate [sep] (map (field_at buf') ps) = s'"
        "list_all (\<lambda>f. sep \<notin> set f) (butlast (map (field_at buf') ps))"
        "length ps < Suc n \<longrightarrow> sep \<notin> set (last (map (field_at buf') ps))"
      using Suc.IH [OF nul(1), of ?pre] by blast
    have loop: "string_split_loop (Suc (Suc n)) sep ?buf (length pre) = Some (length pre # ps, buf')"
      using scan nth IH(1) length_takeWhile_le [of "\<lambda>c. c \<noteq> sep" s]
      by (simp add: Let_def add.assoc del: string_split_loop.simps(2) add: string_split_loop.simps(2) [of "Suc n"])
    have "buf' = pre @ ?f @ 0 # drop (length ?pre) buf'"
      using IH(4) by (metis append.assoc append_Cons append_Nil append_take_drop_id)
    then have f: "field_at buf' (length pre) = ?f" and pre: "take (length pre) buf' = pre"
      using nul(2) by (metis append_eq_conv_conj field_at_def takeWhile_terminated)+
    have "sep \<notin> set ?f" by (auto dest: set_takeWhileD)
    then have sepf: "list_all (\<lambda>f. sep \<notin> set f) (butlast (map (field_at buf') (length pre # ps)))"
      using IH(2,6) f by simp
    have all: "intercalate [sep] (map (field_at buf') (length pre # ps)) = s"
      using IH(2,5) f s by (simp add: intercalate_Cons del: intercalate.simps)
    show ?thesis
      using loop pre IH(2,3,7) sepf all by (intro exI [of _ "length pre # ps"] exI [of _ buf']) simp
  qed
qed

text \<open>
  C11. \<open>string_split\<close> cuts a non-empty string at separators into at most \<open>array_size\<close>
  fields which, joined by the separator, are the string again; only a last field that
  uses up the array may still contain the separator.
\<close>

theorem string_split_fields:
  assumes "s \<noteq> []" "0 \<notin> set s" "sep \<noteq> 0" "0 < array_size"
  shows "\<exists>ps buf. string_split (Some (s @ [0])) array_size sep = Some (ps, buf) \<and>
    0 < length ps \<and> length ps \<le> array_size \<and> intercalate [sep] (map (field_at buf) ps) = s \<and>
    list_all (\<lambda>f. sep \<notin> set f) (butlast (map (field_at buf) ps)) \<and>
    (length ps < array_size \<longrightarrow> sep \<notin> set (last (map (field_at buf) ps)))"
proof -
  obtain n where n: "array_size = Suc n" using assms(4) by (cases array_size) auto
  have "hd (s @ [0]) \<noteq> 0" using assms(1,2) by (cases s) auto
  then show ?thesis
    using split_loop_fields [OF assms(2,3), of n "[]"] n
    by (auto simp: string_split_def simp del: string_split_loop.simps)
qed

theorem string_split_fields_witness:
  "\<exists>ps buf. string_split (Some ([1, 9, 9, 2] @ [0])) 5 9 = Some (ps, buf) \<and> 0 < length ps \<and> length ps \<le> 5 \<and>
     intercalate [9] (map (field_at buf) ps) = [1, 9, 9, 2]"
  using string_split_fields [of "[1, 9, 9, 2]" 9 5] by (simp del: string_split_loop.simps) blast

text \<open>
  \<open>string_join\<close> yields its strings with the delimiter between them, except that the
  empty strings in front are joined without one.
\<close>

theorem string_join_spec:
  assumes "length (intercalate d (dropWhile (\<lambda>s. s = []) strs)) < 2 ^ 63" "0 \<notin> set d" "list_all (\<lambda>s. 0 \<notin> set s) strs"
  shows "string_join fresh (Some d) strs = Some (intercalate d (dropWhile (\<lambda>s. s = []) strs))"
proof -
  have "set (concat (join_pieces (Some d) started strs)) \<subseteq> set d \<union> \<Union> (set ` set strs)" for started
    by (induction strs arbitrary: started) (auto; blast)+
  then have "0 \<notin> set (concat (join_pieces (Some d) False strs))"
    using assms(2,3) by (auto simp: list_all_iff)
  then show ?thesis
    using string_join_pieces [of "Some d" strs fresh] assms(1) by (simp add: concat_join_pieces)
qed

theorem string_join_spec_witness: "string_join (\<lambda>_. 0) (Some [44, 32]) [[], [65], [], [66]] = Some [65, 44, 32, 44, 32, 66]"
  using string_join_spec [of "[44, 32]" "[[], [65], [], [66]]" "\<lambda>_. 0"] by simp

text \<open>
  C10. Through any sequence of appends and truncations that stays clear of \<open>size_t\<close> overflow, with
  formatted texts shorter than the greatest \<open>int\<close>, a string buffer keeps its documented invariant
  \<open>pos < size\<close>, no operation writes outside the allocation, and finishing it yields exactly the
  collected text. Appending a buffer to itself is refused and changes nothing.
\<close>

theorem stringbuffer_session_text:
  assumes "sb_session fresh sb t" "0 \<notin> set t"
  shows "sb_pos sb < sb_size sb \<and> stringbuffer_length sb = length t \<and> stringbuffer_finish sb = Some t"
  using sb_session_text [OF assms(1)] assms(2) sb_finish_text [of sb] length_text [of sb]
  by (auto simp: sb_wf_def)

theorem stringbuffer_session_text_witness:
  "stringbuffer_finish (the (stringbuffer_append_char (\<lambda>_. 7) 65 (stringbuffer_new (\<lambda>_. 7)))) = Some [65]"
proof -
  have "sb_session (\<lambda>_. 7) (the (stringbuffer_append_char (\<lambda>_. 7) 65 (stringbuffer_new (\<lambda>_. 7)))) ([] @ [65])"
    by (rule sb_session.char [OF sb_session.new _ refl])
      (use new_wf [of "\<lambda>_. 7"] in \<open>simp add: sb_room_def MAX_BUF_def\<close>)
  then show ?thesis using stringbuffer_session_text by force
qed

end
