(* ===== verification/Strings_Edit.thy ===== *)
theory Strings_Edit
  imports Strings
begin

text \<open>
  The string functions that edit in place, search and parse, against reference definitions.
\<close>

section \<open>In-place editing\<close>

text \<open>White space: a run becomes one space.\<close>

primrec squeeze :: "bool \<Rightarrow> bytes \<Rightarrow> bytes" where
  "squeeze after_space [] = []"
| "squeeze after_space (c # cs) =
     (if c_isspace c then (if after_space then squeeze True cs else 32 # squeeze True cs) else c # squeeze False cs)"

lemma squeeze_loop_step:
  assumes "0 \<notin> set (c # cs)"
  shows "string_squeeze_loop (out @ mid @ (c # cs) @ [0]) (length out + length mid) (length out) =
    (if c_isspace c
     then if out = [] \<or> \<not> c_isspace (last out)
          then string_squeeze_loop ((out @ [32]) @ tl (mid @ [c]) @ cs @ [0])
            (length (out @ [32]) + length (tl (mid @ [c]))) (length (out @ [32]))
          else string_squeeze_loop (out @ (mid @ [c]) @ cs @ [0]) (length out + length (mid @ [c])) (length out)
     else string_squeeze_loop ((out @ [c]) @ tl (mid @ [c]) @ cs @ [0])
       (length (out @ [c]) + length (tl (mid @ [c]))) (length (out @ [c])))"
proof -
  define B where "B = out @ mid @ (c # cs) @ [0]"
  have r: "B ! (length out + length mid) = c" "c \<noteq> 0" "length out + length mid < length B"
    using assms by (auto simp: B_def nth_append)
  have w: "out \<noteq> [] \<Longrightarrow> B ! (length out - 1) = last out"
    by (simp add: B_def nth_append last_conv_nth)
  have u: "B[length out := x] = (out @ [x]) @ tl (mid @ [c]) @ cs @ [0]" for x
    by (cases mid) (simp_all add: B_def list_update_append)
  have k: "out @ (mid @ [c]) @ cs @ [0] = B" by (simp add: B_def)
  have l: "length out + 1 + length (tl (mid @ [c])) = length out + length mid + 1"
    "length out + length (mid @ [c]) = length out + length mid + 1" "length (out @ [x]) = length out + 1" for x
    by simp_all
  have "string_squeeze_loop B (length out + length mid) (length out) =
    (if c_isspace c
     then if out = [] \<or> \<not> c_isspace (last out)
          then string_squeeze_loop (B[length out := 32]) (length out + length mid + 1) (length out + 1)
          else string_squeeze_loop B (length out + length mid + 1) (length out)
     else string_squeeze_loop (B[length out := c]) (length out + length mid + 1) (length out + 1))"
    by (subst string_squeeze_loop.simps, cases "out = []") (use r w in \<open>simp_all del: One_nat_def\<close>)
  then show ?thesis unfolding B_def [symmetric] k l(3) l(1,2) u .
qed

lemma squeeze_loop_text:
  assumes "0 \<notin> set rest" "0 \<notin> set out"
  shows "takeWhile (\<lambda>b. b \<noteq> 0) (string_squeeze_loop (out @ mid @ rest @ [0]) (length out + length mid) (length out)) =
    out @ squeeze (out \<noteq> [] \<and> c_isspace (last out)) rest"
  using assms
proof (induction rest arbitrary: out mid)
  case Nil
  then show ?case
    by (subst string_squeeze_loop.simps, cases mid)
      (simp_all add: nth_append list_update_append takeWhile_terminated)
next
  case (Cons c cs)
  have sp: "c_isspace 32" by (simp add: c_isspace_def)
  show ?case
    unfolding squeeze_loop_step [OF Cons.prems(1)]
    using Cons.IH [of "out @ [32]" "tl (mid @ [c])"] Cons.IH [of "out @ [c]" "tl (mid @ [c])"]
      Cons.IH [of out "mid @ [c]"] Cons.prems sp
    by (auto simp del: append_assoc)
qed

text \<open>
  \<open>string_whitespace_squeeze\<close>, although it writes into the string it reads, leaves every
  run of white space as one space and the other characters as they were.
\<close>

theorem whitespace_squeeze_spec:
  assumes "0 \<notin> set s"
  shows "takeWhile (\<lambda>b. b \<noteq> 0) (string_whitespace_squeeze (s @ [0])) = squeeze False s"
  using squeeze_loop_text [of s "[]" "[]"] assms by (simp add: string_whitespace_squeeze_def)

theorem whitespace_squeeze_spec_witness:
  "takeWhile (\<lambda>b. b \<noteq> 0) (string_whitespace_squeeze ([9, 65, 32, 10, 66] @ [0])) = [32, 65, 32, 66]"
  using whitespace_squeeze_spec [of "[9, 65, 32, 10, 66]"] by (simp add: c_isspace_def)

text \<open>The escaped newlines, replaced in one pass.\<close>

fun unescape :: "bytes \<Rightarrow> bytes" where
  "unescape (a # b # xs) = (if a = 92 \<and> b = 110 then 10 # unescape xs else a # unescape (b # xs))"
| "unescape xs = xs"

lemma unescape_skip:
  "\<forall>i < length p. \<not> prefix newline_seq (drop i (p @ c # r)) \<Longrightarrow> unescape (p @ c # r) = p @ unescape (c # r)"
proof (induction p)
  case (Cons x p)
  obtain b ys where b: "p @ c # r = b # ys" by (cases p) auto
  have "\<forall>i < length p. \<not> prefix newline_seq (drop i (p @ c # r))"
  proof (intro allI impI)
    fix i assume "i < length p"
    then show "\<not> prefix newline_seq (drop i (p @ c # r))" using Cons.prems [rule_format, of "Suc i"] by simp
  qed
  then have IH: "unescape (p @ c # r) = p @ unescape (c # r)" by (rule Cons.IH)
  have "\<not> prefix newline_seq (x # p @ c # r)" using Cons.prems [rule_format, of 0] by simp
  then have "\<not> (x = 92 \<and> b = 110)" by (auto simp: b newline_seq_def)
  then have "unescape (x # b # ys) = x # unescape (b # ys)" by simp
  then show ?case using IH b by simp
qed simp

lemma strstr_Some:
  assumes "c_strstr s key = Some i"
  shows "prefix key (drop i s)" "\<And>j. j < i \<Longrightarrow> \<not> prefix key (drop j s)"
  using assms by (auto simp: c_strstr_def find_Some_iff has_prefix_iff nth_append split: if_splits simp del: upt_Suc)

lemma strstr_None: "c_strstr s key = None \<Longrightarrow> j \<le> length s \<Longrightarrow> \<not> prefix key (drop j s)"
  by (auto simp: c_strstr_def find_None_iff has_prefix_iff simp del: upt_Suc)

lemma unescape_none:
  assumes "\<And>j. j \<le> length s \<Longrightarrow> \<not> prefix newline_seq (drop j s)"
  shows "unescape s = s"
proof (cases s rule: rev_cases)
  case (snoc p c)
  have "\<not> prefix newline_seq (drop i (p @ c # []))" if "i < length p" for i
    using assms [of i] snoc that by (simp del: drop_append)
  then have "unescape (p @ c # []) = p @ unescape [c]" by (intro unescape_skip) blast
  then show ?thesis using snoc by simp
qed simp

lemma unescape_once:
  assumes "c_strstr s newline_seq = Some i"
  shows "unescape (take i s @ [10] @ drop (i + 2) s) = unescape s"
proof -
  let ?p = "take i s" and ?r = "drop (i + 2) s"
  have len: "length ?p = i" using c_strstr_length [OF assms] by simp
  obtain r where r: "drop i s = newline_seq @ r" using strstr_Some(1) [OF assms] by (auto simp: prefix_def)
  then have "?r = r" by (metis add.commute append_eq_conv_conj drop_drop length_Cons list.size(3) newline_seq_def numeral_2_eq_2)
  then have s: "s = ?p @ 92 # 110 # ?r" using r by (metis append_Cons append_Nil append_take_drop_id newline_seq_def)
  have no: "\<not> prefix newline_seq (drop j s)" if "j < i" for j using strstr_Some(2) [OF assms that] .
  have "unescape (?p @ 92 # 110 # ?r) = ?p @ unescape (92 # 110 # ?r)"
    by (rule unescape_skip) (use no len s in auto)
  moreover have "\<not> prefix newline_seq (drop j (?p @ 10 # ?r))" if "j < i" for j
  proof
    assume a: "prefix newline_seq (drop j (?p @ 10 # ?r))"
    define X where "X = ?p @ 10 # ?r"
    obtain zs where "drop j X = 92 # 110 # zs"
      using a unfolding X_def [symmetric] by (auto simp: prefix_def newline_seq_def)
    moreover from this have "drop (j + 1) X = 110 # zs" by (metis Suc_eq_plus1 drop_Suc list.sel(3) tl_drop)
    ultimately have "(?p @ 10 # ?r) ! j = 92" "(?p @ 10 # ?r) ! (j + 1) = 110"
      unfolding X_def [symmetric] by (blast intro: nth_via_drop)+
    then have "s ! j = 92 \<and> s ! (j + 1) = 110 \<and> j + 1 < i"
      using that len by (auto simp: nth_append split: if_splits)
    moreover have "j + 1 < length s" using calculation c_strstr_length [OF assms] by simp
    ultimately have "drop j s = 92 # 110 # drop (j + 2) s"
      by (metis Cons_nth_drop_Suc Suc_eq_plus1 Suc_lessD add_2_eq_Suc')
    then show False using no [OF that] by (simp add: newline_seq_def)
  qed
  then have "unescape (?p @ 10 # ?r) = ?p @ unescape (10 # ?r)" by (intro unescape_skip) (use len in auto)
  moreover have "unescape (10 # ?r) = 10 # unescape ?r" by (cases ?r) simp_all
  ultimately show ?thesis using s by simp
qed

text \<open>
  \<open>string_newline_to_literal\<close>, which searches from the start again after each
  replacement, terminates and has the effect of one pass from the left.
\<close>

theorem newline_to_literal_spec: "string_newline_to_literal s = unescape s"
proof (induction s rule: string_newline_to_literal.induct)
  case (1 s)
  show ?case
  proof (cases "c_strstr s newline_seq")
    case None
    then show ?thesis using strstr_None [OF None] by (simp add: string_newline_to_literal.simps [of s] unescape_none)
  next
    case (Some i)
    then show ?thesis using 1 [OF Some] unescape_once [OF Some] by (simp add: string_newline_to_literal.simps [of s])
  qed
qed


section \<open>Searching and parsing\<close>

lemma prefix_first: "needle \<noteq> [] \<Longrightarrow> prefix needle xs \<Longrightarrow> xs ! 0 = needle ! 0"
  by (cases needle) (auto simp: prefix_def)

lemma string_last_loop_test:
  assumes "needle \<noteq> []" "cp < length h"
  shows "h ! cp = needle ! 0 \<and> c_has_prefix (drop cp h) needle \<longleftrightarrow> prefix needle (drop cp h)"
  using prefix_first [OF assms(1), of "drop cp h"] assms(2) by (auto simp: has_prefix_iff)

lemma string_last_loop_iff:
  assumes "needle \<noteq> []" "cp < length h"
  shows "string_last_loop h needle cp = Some i \<longleftrightarrow>
    i \<le> cp \<and> prefix needle (drop i h) \<and> (\<forall>j. i < j \<and> j \<le> cp \<longrightarrow> \<not> prefix needle (drop j h))"
  using assms(2)
proof (induction cp)
  case 0
  then show ?case using string_last_loop_test [OF assms(1), of 0 h] by auto
next
  case (Suc cp)
  then show ?case
    using string_last_loop_test [OF assms(1) Suc.prems] by (auto simp: le_Suc_eq)
qed

text \<open>
  \<open>string_last\<close> finds the last occurrence: its result is the greatest offset at which
  the needle occurs, and it fails only when there is none.
\<close>

theorem string_last_greatest:
  assumes "needle \<noteq> []"
  shows "string_last haystack needle = Some i \<longleftrightarrow>
    prefix needle (drop i haystack) \<and> (\<forall>j > i. \<not> prefix needle (drop j haystack))"
proof -
  have bound: "j \<le> length haystack - length needle \<and> length needle \<le> length haystack"
    if "prefix needle (drop j haystack)" for j
    using prefix_length_le [OF that] assms by (cases "j < length haystack") auto
  show ?thesis
  proof (cases "length needle \<le> length haystack")
    case True
    then have "length haystack - length needle < length haystack" using assms by (cases needle) auto
    then show ?thesis
      using string_last_loop_iff [OF assms, of "length haystack - length needle" haystack i] True assms bound
      by (auto simp: string_last_def)
  next
    case False
    then show ?thesis using bound by (auto simp: string_last_def)
  qed
qed

theorem string_last_greatest_witness: "string_last [1, 2, 1, 2, 3] [1, 2] = Some 2"
proof -
  have "\<not> prefix [1, 2] (drop j [1, 2, 1, 2, 3 :: u8])" if "2 < j" for j
    using that by (auto simp: drop_Cons' split: if_splits)
  then show ?thesis using string_last_greatest [of "[1, 2]" "[1, 2, 1, 2, 3]" 2] by simp
qed

lemma digit_value_10: "c_digit_value c < 10 \<longleftrightarrow> c_isdigit c"
  by (auto simp: c_digit_value_def c_isdigit_def c_islower_def c_isupper_def word_le_nat_alt)

lemma digit_not_special: "c_isdigit c \<Longrightarrow> \<not> c_isspace c \<and> c \<noteq> 43 \<and> c \<noteq> 45"
  by (auto simp: c_isdigit_def c_isspace_def word_le_nat_alt)

text \<open>
  \<open>string_parse_uint64\<close> in base 10 accepts exactly the non-empty strings of decimal
  digits whose value is in the given range, and returns that value: no sign, no white
  space, no trailing text and no overflow gets through.
\<close>

theorem parse_uint64_exact:
  "string_parse_uint64 (Some s) 10 minimum maximum = Some v \<longleftrightarrow>
     s \<noteq> [] \<and> list_all c_isdigit s \<and> c_digits_value 10 s = unat v \<and> minimum \<le> v \<and> v \<le> maximum" (is "?L \<longleftrightarrow> ?R")
proof -
  let ?ds = "takeWhile c_isdigit s"
  have t: "c_strtoull s 10 =
      (if ?ds = [] then (0, False, 0)
       else if c_digits_value 10 ?ds > 2 ^ 64 - 1 then (2 ^ 64 - 1, True, length ?ds)
       else (c_digits_value 10 ?ds, False, length ?ds))"
    by (simp add: c_strtoull_def digit_value_10 Let_def)
  have all: "length ?ds = length s \<longleftrightarrow> list_all c_isdigit s" "list_all c_isdigit s \<Longrightarrow> ?ds = s"
    using takeWhile_eq_take [of c_isdigit s] by (auto simp: takeWhile_eq_all_conv list_all_iff)
      (metis length_takeWhile_le take_all takeWhile_eq_all_conv order_refl)
  show ?thesis
  proof (cases "s \<noteq> [] \<and> list_all c_isdigit s")
    case True
    then have "\<not> (c_isspace (hd s) \<or> hd s = 43 \<or> hd s = 45)" "?ds = s"
      using digit_not_special [of "hd s"] all(2) by (cases s; auto)+
    moreover from this(2) True have "c_strtoull s 10 = (if c_digits_value 10 s > 2 ^ 64 - 1
        then (2 ^ 64 - 1, True, length s) else (c_digits_value 10 s, False, length s))"
      unfolding t by (simp only: if_False)
    ultimately have "string_parse_uint64 (Some s) 10 minimum maximum =
        (if c_digits_value 10 s > 2 ^ 64 - 1 \<or> of_nat (c_digits_value 10 s) < minimum \<or>
            of_nat (c_digits_value 10 s) > maximum then None else Some (of_nat (c_digits_value 10 s)))"
      using True by (auto simp: string_parse_uint64_def Let_def)
    moreover have "c_digits_value 10 s \<le> 2 ^ 64 - 1 \<Longrightarrow> unat (of_nat (c_digits_value 10 s) :: u64) = c_digits_value 10 s"
      by (simp add: unat_of_nat)
    moreover have "c_digits_value 10 s = unat v \<Longrightarrow> c_digits_value 10 s \<le> 2 ^ 64 - 1"
      using unsigned_less [of v, where ?'a = nat] by simp
    ultimately show ?thesis using True by auto
  next
    case False
    then have "string_parse_uint64 (Some s) 10 minimum maximum = None"
      using t all(1) by (auto simp: string_parse_uint64_def Let_def split: if_splits)
    then show ?thesis using False by auto
  qed
qed

text \<open>A character range that ends at the largest \<open>char\<close> never ends.\<close>

lemma create_char_range_diverges: "string_create_char_range start 127 = None"
proof -
  have "sint c \<le> sint (127 :: u8)" for c :: u8
    using sint_lt [of c] by simp
  then show ?thesis
    unfolding string_create_char_range_def
    by (intro c_loop_diverges [where I = "\<lambda>_. True"]) (auto simp: string_create_char_range_step_def)
qed

end
