(* ===== verification/Socket_Asset.thy ===== *)
theory Socket_Asset
  imports Packets Stringbuffer
begin

unbundle bit_operations_syntax

text \<open>
  The in-band asset protocol of \<open>src/socket_asset.c\<close>: requests and responses written with
  the packet writer and parsed with the packet reader. A parser's result is the decoded
  value, or \<open>None\<close> where the source returns false, together with the scopes of the thread;
  \<open>out\<close> is false when the caller passed no place for the result.
\<close>

definition ASSET_STATUS_OK :: u8 where "ASSET_STATUS_OK = 0"
definition ASSET_STATUS_NOT_FOUND :: u8 where "ASSET_STATUS_NOT_FOUND = 1"
definition ASSET_STATUS_NOT_MODIFIED :: u8 where "ASSET_STATUS_NOT_MODIFIED = 2"
definition ASSET_STATUS_METADATA :: u8 where "ASSET_STATUS_METADATA = 3"
definition ASSET_STATUS_METADATA_NOT_FOUND :: u8 where "ASSET_STATUS_METADATA_NOT_FOUND = 4"
definition ASSET_REQUEST_METADATA :: u8 where "ASSET_REQUEST_METADATA = 1"
definition ASSET_MAX_SIZE :: u32 where "ASSET_MAX_SIZE = 128 * 1024 * 1024"
definition ASSET_DIGEST_SIZE :: nat where "ASSET_DIGEST_SIZE = 32"

record socket_asset_request =
  rq_path :: bytes
  rq_cached_size :: u32
  rq_cached_digest :: bytes
  rq_flags :: u8

record socket_asset_response =
  rs_status :: u8
  rs_total_size :: u32
  rs_digest :: bytes

definition empty_digest :: bytes where
  "empty_digest = replicate ASSET_DIGEST_SIZE 0"

definition socket_asset_request_append ::
    "bytes \<Rightarrow> u32 \<Rightarrow> bytes \<Rightarrow> u8 \<Rightarrow> packet_struct \<Rightarrow> packet_struct" where
  "socket_asset_request_append path cached_size cached_digest flags p =
     (let p = packet_writer_write_cstring (Some path) p;
          p = packet_writer_write_uint32 cached_size p;
          p = packet_writer_write_bytes (Some (take ASSET_DIGEST_SIZE cached_digest)) p
      in packet_writer_write_uint8 flags p)"

definition socket_asset_request_parse ::
    "pk_buf option \<Rightarrow> nat \<Rightarrow> nat \<Rightarrow> bool \<Rightarrow> packet_reader_scope list \<Rightarrow>
       socket_asset_request option \<times> packet_reader_scope list" where
  "socket_asset_request_parse data len pos out scopes =
     (if \<not> out then (None, scopes)
      else let io = packet_reader_init_at data len pos scopes;
               (path, io) = packet_reader_read_string MAX_BUF io;
               (cached_size, io) = packet_reader_read_uint32 io;
               (digest, io) = packet_reader_read_view ASSET_DIGEST_SIZE io;
               (flags, io) = packet_reader_read_uint8 io;
               (finished, io) = packet_reader_finish io;
               path = (case path of None \<Rightarrow> [] | Some p \<Rightarrow> p)
           in if \<not> finished \<or> path = [] then (None, io_scopes io)
              else let cached_digest = view_bytes digest
                in if flags AND NOT ASSET_REQUEST_METADATA \<noteq> 0 \<or>
                      (flags AND ASSET_REQUEST_METADATA \<noteq> 0 \<and>
                        (cached_size \<noteq> 0 \<or> cached_digest \<noteq> empty_digest))
                   then (None, io_scopes io)
                   else (Some \<lparr>rq_path = path, rq_cached_size = cached_size,
                     rq_cached_digest = cached_digest, rq_flags = flags\<rparr>, io_scopes io))"

definition socket_asset_response_append_status ::
    "u8 \<Rightarrow> u32 \<Rightarrow> bytes option \<Rightarrow> packet_struct \<Rightarrow> packet_struct" where
  "socket_asset_response_append_status status total_size digest p =
     (let p = packet_writer_write_uint8 status p;
          p = packet_writer_write_uint32 total_size p
      in packet_writer_write_bytes
           (Some (case digest of None \<Rightarrow> empty_digest | Some d \<Rightarrow> take ASSET_DIGEST_SIZE d)) p)"

definition socket_asset_response_append_metadata ::
    "u32 \<Rightarrow> bytes option \<Rightarrow> packet_struct \<Rightarrow> packet_struct" where
  "socket_asset_response_append_metadata total_size digest p =
     socket_asset_response_append_status ASSET_STATUS_METADATA total_size digest p"

definition socket_asset_response_append_ok ::
    "u32 \<Rightarrow> bytes option \<Rightarrow> packet_struct \<Rightarrow> packet_struct" where
  "socket_asset_response_append_ok total_size digest p =
     socket_asset_response_append_status ASSET_STATUS_OK total_size digest p"

definition socket_asset_response_parse ::
    "pk_buf option \<Rightarrow> nat \<Rightarrow> nat \<Rightarrow> bool \<Rightarrow> packet_reader_scope list \<Rightarrow>
       socket_asset_response option \<times> packet_reader_scope list" where
  "socket_asset_response_parse data len pos out scopes =
     (if \<not> out then (None, scopes)
      else let io = packet_reader_init_at data len pos scopes;
               (status, io) = packet_reader_read_uint8 io;
               (total_size, io) = packet_reader_read_uint32 io;
               (digest, io) = packet_reader_read_view ASSET_DIGEST_SIZE io;
               (finished, io) = packet_reader_finish io
           in if \<not> finished \<or> status > ASSET_STATUS_METADATA_NOT_FOUND \<or> total_size > ASSET_MAX_SIZE \<or>
                 ((status = ASSET_STATUS_OK \<or> status = ASSET_STATUS_METADATA) \<and>
                   view_len digest \<noteq> ASSET_DIGEST_SIZE) \<or>
                 ((status = ASSET_STATUS_NOT_FOUND \<or> status = ASSET_STATUS_METADATA_NOT_FOUND) \<and>
                   (total_size \<noteq> 0 \<or> view_bytes digest \<noteq> empty_digest))
              then (None, io_scopes io)
              else (Some \<lparr>rs_status = status, rs_total_size = total_size, rs_digest = view_bytes digest\<rparr>,
                io_scopes io))"


section \<open>Well-formed messages\<close>

definition request_valid :: "socket_asset_request \<Rightarrow> bool" where
  "request_valid r \<longleftrightarrow> rq_path r \<noteq> [] \<and> 0 \<notin> set (rq_path r) \<and> length (rq_path r) < MAX_BUF \<and>
     length (rq_cached_digest r) = ASSET_DIGEST_SIZE \<and> (rq_flags r = 0 \<or>
       rq_flags r = ASSET_REQUEST_METADATA \<and> rq_cached_size r = 0 \<and> rq_cached_digest r = empty_digest)"

definition response_valid :: "socket_asset_response \<Rightarrow> bool" where
  "response_valid r \<longleftrightarrow> rs_status r \<le> ASSET_STATUS_METADATA_NOT_FOUND \<and> rs_total_size r \<le> ASSET_MAX_SIZE \<and>
     length (rs_digest r) = ASSET_DIGEST_SIZE \<and>
     (rs_status r \<in> {ASSET_STATUS_NOT_FOUND, ASSET_STATUS_METADATA_NOT_FOUND} \<longrightarrow>
       rs_total_size r = 0 \<and> rs_digest r = empty_digest)"

definition request_types :: "wire_type list" where
  "request_types = [T_cstring 255, T_uint32, T_block 31, T_uint8]"

definition request_fields :: "socket_asset_request \<Rightarrow> wire_field list" where
  "request_fields r = [F_cstring (rq_path r), F_uint32 (rq_cached_size r), F_block (rq_cached_digest r), F_uint8 (rq_flags r)]"

definition response_types :: "wire_type list" where
  "response_types = [T_uint8, T_uint32, T_block 31]"

definition response_fields :: "socket_asset_response \<Rightarrow> wire_field list" where
  "response_fields r = [F_uint8 (rs_status r), F_uint32 (rs_total_size r), F_block (rs_digest r)]"

lemma request_fits: "request_valid r \<Longrightarrow> list_all2 wire_fits request_types (request_fields r)"
  by (simp add: request_valid_def request_types_def request_fields_def cstring_valid_def MAX_BUF_def
      ASSET_DIGEST_SIZE_def SIZE_MAX_def)

lemma response_fits: "response_valid r \<Longrightarrow> list_all2 wire_fits response_types (response_fields r)"
  by (simp add: response_valid_def response_types_def response_fields_def ASSET_DIGEST_SIZE_def)

text \<open>The writers write these fields.\<close>

lemma request_append_fields:
  "request_valid r \<Longrightarrow>
     socket_asset_request_append (rq_path r) (rq_cached_size r) (rq_cached_digest r) (rq_flags r) p =
     wire_put_all (request_fields r) p"
  by (simp add: socket_asset_request_append_def wire_put_all_def request_fields_def request_valid_def)

lemma response_append_fields:
  "response_valid r \<Longrightarrow>
     socket_asset_response_append_status (rs_status r) (rs_total_size r) (Some (rs_digest r)) p =
     wire_put_all (response_fields r) p"
  by (simp add: socket_asset_response_append_status_def wire_put_all_def response_fields_def response_valid_def)

text \<open>The string read of the request parser is the string codec.\<close>

lemma read_path_cstring:
  assumes "reader_wf io"
  shows "(case fst (packet_reader_read_string MAX_BUF io) of None \<Rightarrow> [] | Some p \<Rightarrow> p) = fst (get_cstring 255 io) \<and>
    snd (packet_reader_read_string MAX_BUF io) = snd (get_cstring 255 io)"
  using assms
proof (cases rule: read_string_view_cases [where max_len = 255])
  case (ok s rest v)
  then show ?thesis
    using reader_ok_advance [OF ok(1), of "Suc (length s)"]
    by (simp add: packet_reader_read_string_def packet_reader_read_string_bounded_def MAX_BUF_def
        get_cstring_def reader_ok_def)
next
  case (failed e)
  then show ?thesis
    by (auto simp: packet_reader_read_string_def packet_reader_read_string_bounded_def MAX_BUF_def
        get_cstring_def packet_reader_fail_reader reader_ok_def view_bytes_def empty_view_def)
next
  case sticky
  then show ?thesis
    by (simp add: packet_reader_read_string_def packet_reader_read_string_bounded_def MAX_BUF_def
        get_cstring_def view_bytes_def empty_view_def)
qed

lemma flags_known: "flags AND NOT 1 = 0 \<longleftrightarrow> flags = 0 \<or> flags = 1" for flags :: u8
proof -
  have "flags = (flags AND 1) OR (flags AND NOT 1)" by (simp add: bit.conj_disj_distrib [symmetric])
  moreover have "flags AND 1 = 0 \<or> flags AND 1 = 1" by (simp add: and_one_eq) (metis parity_cases)
  ultimately show ?thesis by (metis bit.conj_cancel_right bit.disj_zero_right bit.conj_zero_left)
qed

text \<open>Both parsers as reads at their types.\<close>

lemma request_parse_wire:
  assumes "reader_wf (packet_reader_init_at data len pos scopes)"
    and g: "wire_get_all request_types (packet_reader_init_at data len pos scopes) = (fs, io)"
  obtains path sz d fl where "fs = [F_cstring path, F_uint32 sz, F_block d, F_uint8 fl]"
    "fst (socket_asset_request_parse data len pos True scopes) =
      (if \<not> fst (packet_reader_finish io) \<or> path = [] \<or> (fl \<noteq> 0 \<and> fl \<noteq> 1) \<or>
          (fl = 1 \<and> (sz \<noteq> 0 \<or> d \<noteq> empty_digest)) then None
       else Some \<lparr>rq_path = path, rq_cached_size = sz, rq_cached_digest = d, rq_flags = fl\<rparr>)"
proof -
  let ?io = "packet_reader_init_at data len pos scopes"
  obtain rp io1 where r1: "packet_reader_read_string MAX_BUF ?io = (rp, io1)" by (cases "packet_reader_read_string MAX_BUF ?io")
  obtain sz io2 where r2: "packet_reader_read_uint32 io1 = (sz, io2)" by (cases "packet_reader_read_uint32 io1")
  obtain d io3 where r3: "packet_reader_read_view ASSET_DIGEST_SIZE io2 = (d, io3)"
    by (cases "packet_reader_read_view ASSET_DIGEST_SIZE io2")
  obtain fl io4 where r4: "packet_reader_read_uint8 io3 = (fl, io4)" by (cases "packet_reader_read_uint8 io3")
  have p: "get_cstring 255 ?io = ((case rp of None \<Rightarrow> [] | Some p \<Rightarrow> p), io1)"
    using read_path_cstring [OF assms(1)] by (simp add: r1 prod_eq_iff)
  have b: "get_block 32 io2 = (view_bytes d, io3)"
    using r3 by (simp add: get_block_def ASSET_DIGEST_SIZE_def)
  have w: "fs = [F_cstring (case rp of None \<Rightarrow> [] | Some p \<Rightarrow> p), F_uint32 sz, F_block (view_bytes d), F_uint8 fl]" "io = io4"
    using g by (simp_all add: request_types_def p r2 b r4)
  have k: "fl AND 1 \<noteq> 0 \<longleftrightarrow> fl = 1" if "fl = 0 \<or> fl = 1" using that by auto
  show ?thesis
    by (rule that [OF w(1)])
      (auto simp: socket_asset_request_parse_def r1 r2 r3 r4 w(2) split_beta Let_def flags_known [simplified] k ASSET_REQUEST_METADATA_def)
qed

lemma response_parse_wire:
  assumes g: "wire_get_all response_types (packet_reader_init_at data len pos scopes) = (fs, io)"
  obtains st sz d where "fs = [F_uint8 st, F_uint32 sz, F_block d]"
    "fst (packet_reader_finish io) \<Longrightarrow> length d = ASSET_DIGEST_SIZE \<Longrightarrow>
      fst (socket_asset_response_parse data len pos True scopes) =
      (if response_valid \<lparr>rs_status = st, rs_total_size = sz, rs_digest = d\<rparr>
       then Some \<lparr>rs_status = st, rs_total_size = sz, rs_digest = d\<rparr> else None)"
    "\<not> fst (packet_reader_finish io) \<Longrightarrow> fst (socket_asset_response_parse data len pos True scopes) = None"
proof -
  let ?io = "packet_reader_init_at data len pos scopes"
  obtain st io1 where r1: "packet_reader_read_uint8 ?io = (st, io1)" by (cases "packet_reader_read_uint8 ?io")
  obtain sz io2 where r2: "packet_reader_read_uint32 io1 = (sz, io2)" by (cases "packet_reader_read_uint32 io1")
  obtain d io3 where r3: "packet_reader_read_view ASSET_DIGEST_SIZE io2 = (d, io3)"
    by (cases "packet_reader_read_view ASSET_DIGEST_SIZE io2")
  have b: "get_block 32 io2 = (view_bytes d, io3)"
    using r3 by (simp add: get_block_def ASSET_DIGEST_SIZE_def)
  have w: "fs = [F_uint8 st, F_uint32 sz, F_block (view_bytes d)]" "io = io3"
    using g by (simp_all add: response_types_def r1 r2 b)
  have l: "length (view_bytes d) = ASSET_DIGEST_SIZE \<Longrightarrow> view_len d = ASSET_DIGEST_SIZE"
    using r3 by (auto simp: packet_reader_read_view_def view_bytes_def empty_view_def buf_bytes_def
        ASSET_DIGEST_SIZE_def split_beta split: if_splits)
  show ?thesis
    by (rule that [OF w(1)])
      (use l in \<open>auto simp: socket_asset_response_parse_def r1 r2 r3 w(2) split_beta Let_def response_valid_def\<close>)
qed

text \<open>The fields a buffer at an offset is read as, and that reading succeeds only on encodings.\<close>

lemma unread_init_at:
  assumes "length bs \<le> SIZE_MAX" "pos \<le> length bs"
  shows "reader_ok (packet_reader_init_at (Some (a, bs)) (length bs) pos scopes)"
    and "unread (packet_reader_init_at (Some (a, bs)) (length bs) pos scopes) = drop pos bs"
proof -
  have "reader_wf (packet_reader_init_at (Some (a, bs)) (length bs) pos scopes)"
    by (rule packet_reader_init_wf) (simp add: buffer_ok_def assms)
  then show "reader_ok (packet_reader_init_at (Some (a, bs)) (length bs) pos scopes)"
    using assms(2) by (simp add: reader_ok_def packet_reader_init_at_reader)
  show "unread (packet_reader_init_at (Some (a, bs)) (length bs) pos scopes) = drop pos bs"
    using assms(2) by (simp add: unread_def packet_reader_init_at_reader buf_bytes_def)
qed

lemma wire_get_all_finished_iff:
  assumes "reader_ok io0" and g: "wire_get_all ts io0 = (fs, io)"
  shows "fst (packet_reader_finish io) \<and> fs = fs' \<longleftrightarrow> list_all2 wire_fits ts fs' \<and> unread io0 = message_enc fs'"
proof -
  have wf: "reader_wf io" using wire_get_all_wf [OF reader_ok_wf [OF assms(1)], of ts] by (simp add: g)
  show ?thesis
    using finish_iff [OF wf] wire_get_all_canonical [OF reader_ok_wf [OF assms(1)], of ts]
      wire_get_all_enc [of ts fs' io0 "[]"] assms(1)
    by (auto simp: g reader_ok_def)
qed

lemma asset_request_parse_iff:
  assumes "length bs \<le> SIZE_MAX" "pos \<le> length bs"
  shows "fst (socket_asset_request_parse (Some (a, bs)) (length bs) pos True scopes) = Some r \<longleftrightarrow>
    request_valid r \<and> drop pos bs = message_enc (request_fields r)"
proof -
  let ?io = "packet_reader_init_at (Some (a, bs)) (length bs) pos scopes"
  note init = unread_init_at [OF assms, of a scopes]
  obtain fs io where g: "wire_get_all request_types ?io = (fs, io)" by (cases "wire_get_all request_types ?io")
  note fin = wire_get_all_finished_iff [OF init(1) g]
  obtain path sz d fl where fs: "fs = [F_cstring path, F_uint32 sz, F_block d, F_uint8 fl]"
    and p: "fst (socket_asset_request_parse (Some (a, bs)) (length bs) pos True scopes) =
      (if \<not> fst (packet_reader_finish io) \<or> path = [] \<or> (fl \<noteq> 0 \<and> fl \<noteq> 1) \<or>
          (fl = 1 \<and> (sz \<noteq> 0 \<or> d \<noteq> empty_digest)) then None
       else Some \<lparr>rq_path = path, rq_cached_size = sz, rq_cached_digest = d, rq_flags = fl\<rparr>)"
    by (rule request_parse_wire [OF reader_ok_wf [OF init(1)] g])
  show ?thesis
  proof
    assume s: "fst (socket_asset_request_parse (Some (a, bs)) (length bs) pos True scopes) = Some r"
    then have r: "r = \<lparr>rq_path = path, rq_cached_size = sz, rq_cached_digest = d, rq_flags = fl\<rparr>"
      and f: "fst (packet_reader_finish io)" "path \<noteq> []" "fl = 0 \<or> fl = 1 \<and> sz = 0 \<and> d = empty_digest"
      by (auto simp: p split: if_splits)
    have "list_all2 wire_fits request_types fs" "drop pos bs = message_enc fs" using fin [of fs] f init by simp_all
    then show "request_valid r \<and> drop pos bs = message_enc (request_fields r)"
      using f(2,3) by (auto simp: r fs request_types_def request_fields_def request_valid_def cstring_valid_def
          MAX_BUF_def ASSET_DIGEST_SIZE_def ASSET_REQUEST_METADATA_def)
  next
    assume r: "request_valid r \<and> drop pos bs = message_enc (request_fields r)"
    then have "fst (packet_reader_finish io)" "fs = request_fields r"
      using fin [of "request_fields r"] request_fits [of r] init by auto
    then show "fst (socket_asset_request_parse (Some (a, bs)) (length bs) pos True scopes) = Some r"
      using r by (auto simp: p fs request_fields_def request_valid_def ASSET_REQUEST_METADATA_def)
  qed
qed

text \<open>
  A valid asset request appended to a new packet without an error is parsed back as the
  same request, and nothing but the encodings of valid requests is accepted.
\<close>

theorem asset_request_roundtrip:
  assumes "sz \<le> SIZE_MAX" "request_valid r"
    and p: "p = socket_asset_request_append (rq_path r) (rq_cached_size r) (rq_cached_digest r) (rq_flags r)
      (packet_new type sz expand)"
    and "packet_writer_finish p"
  shows "fst (socket_asset_request_parse (Some (addr, pkt_data p)) (pkt_len p) 0 True scopes) = Some r \<and>
    (fst (socket_asset_request_parse (Some (addr, bs)) (length bs) 0 True scopes) = Some r \<and> length bs \<le> SIZE_MAX
      \<longrightarrow> bs = pkt_data p)"
proof -
  have "p = wire_put_all (request_fields r) (packet_new type sz expand)"
    using p request_append_fields [OF assms(2)] by simp
  then have d: "pkt_data p = message_enc (request_fields r)" "packet_wf p"
    using wire_put_all_data [OF request_fits [OF assms(2)] packet_new_wf [OF assms(1)]] assms(4)
    by (simp_all add: packet_writer_finish_def packet_new_def)
  have l: "length (pkt_data p) \<le> SIZE_MAX" using d(2) by (simp add: packet_wf_def pkt_len_def)
  show ?thesis
    using asset_request_parse_iff [of "pkt_data p" 0 addr scopes r] asset_request_parse_iff [of bs 0 addr scopes r]
      l d(1) assms(2) by (auto simp: pkt_len_def)
qed

definition demo_request :: socket_asset_request where
  "demo_request = \<lparr>rq_path = [47, 97], rq_cached_size = 7, rq_cached_digest = replicate 32 5, rq_flags = 0\<rparr>"

definition demo_request_packet :: packet_struct where
  "demo_request_packet = socket_asset_request_append [47, 97] 7 (replicate 32 5) 0 (packet_new 3 64 64)"

lemma demo_request_valid: "request_valid demo_request"
  by (simp add: request_valid_def demo_request_def MAX_BUF_def ASSET_DIGEST_SIZE_def)

theorem asset_request_roundtrip_witness:
  "fst (socket_asset_request_parse (Some (0, pkt_data demo_request_packet)) (pkt_len demo_request_packet) 0 True []) =
     Some demo_request"
proof -
  have "packet_writer_finish demo_request_packet" by code_simp
  then show ?thesis
    using asset_request_roundtrip [OF _ demo_request_valid, of 64 demo_request_packet 3 64 0 "[]"]
    by (simp add: demo_request_packet_def demo_request_def SIZE_MAX_def)
qed

text \<open>
  C13. The response parser accepts exactly the encodings of valid responses, at the given
  offset and to the end of the data: a known status, a size within the limit, and for
  the not-found statuses no size and no digest.
\<close>

theorem asset_response_exact:
  assumes "length bs \<le> SIZE_MAX" "pos \<le> length bs"
  shows "fst (socket_asset_response_parse (Some (addr, bs)) (length bs) pos True scopes) = Some r \<longleftrightarrow>
    response_valid r \<and> drop pos bs = message_enc (response_fields r)"
proof -
  let ?io = "packet_reader_init_at (Some (addr, bs)) (length bs) pos scopes"
  let ?parse = "fst (socket_asset_response_parse (Some (addr, bs)) (length bs) pos True scopes)"
  note init = unread_init_at [OF assms, of addr scopes]
  obtain fs io where g: "wire_get_all response_types ?io = (fs, io)" by (cases "wire_get_all response_types ?io")
  note fin = wire_get_all_finished_iff [OF init(1) g]
  obtain st sz d where fs: "fs = [F_uint8 st, F_uint32 sz, F_block d]"
    and yes: "fst (packet_reader_finish io) \<Longrightarrow> length d = ASSET_DIGEST_SIZE \<Longrightarrow>
      ?parse = (if response_valid \<lparr>rs_status = st, rs_total_size = sz, rs_digest = d\<rparr>
        then Some \<lparr>rs_status = st, rs_total_size = sz, rs_digest = d\<rparr> else None)"
    and no: "\<not> fst (packet_reader_finish io) \<Longrightarrow> ?parse = None"
    by (rule response_parse_wire [OF g]) blast
  show ?thesis
  proof
    assume s: "?parse = Some r"
    have f: "fst (packet_reader_finish io)" using s no by auto
    have w: "list_all2 wire_fits response_types fs" "drop pos bs = message_enc fs" using fin [of fs] f init by simp_all
    then have "length d = ASSET_DIGEST_SIZE" by (simp add: fs response_types_def ASSET_DIGEST_SIZE_def)
    then show "response_valid r \<and> drop pos bs = message_enc (response_fields r)"
      using s yes [OF f] w(2) by (auto simp: fs response_fields_def split: if_splits)
  next
    assume r: "response_valid r \<and> drop pos bs = message_enc (response_fields r)"
    then have "fst (packet_reader_finish io)" "fs = response_fields r"
      using fin [of "response_fields r"] response_fits [of r] init by auto
    then show "?parse = Some r" using yes r by (auto simp: fs response_fields_def response_valid_def)
  qed
qed

theorem asset_response_exact_witness:
  "fst (socket_asset_response_parse (Some (0, [9, 9] @ 1 # [0, 0, 0, 0] @ replicate 32 0)) 39 2 True []) =
     Some \<lparr>rs_status = 1, rs_total_size = 0, rs_digest = replicate 32 0\<rparr>"
proof -
  let ?r = "\<lparr>rs_status = 1, rs_total_size = 0, rs_digest = replicate 32 0\<rparr>"
  have "message_enc (response_fields ?r) = 1 # [0, 0, 0, 0] @ replicate 32 0" by code_simp
  moreover have "response_valid ?r"
    by (simp add: response_valid_def ASSET_STATUS_NOT_FOUND_def ASSET_STATUS_METADATA_NOT_FOUND_def
        ASSET_MAX_SIZE_def ASSET_DIGEST_SIZE_def empty_digest_def)
  ultimately show ?thesis
    using asset_response_exact [of "[9, 9] @ 1 # [0, 0, 0, 0] @ replicate 32 0" 2 0 "[]" ?r]
    by (simp add: SIZE_MAX_def)
qed

end
