(* ===== verification/Map_Protocol.thy ===== *)
theory Map_Protocol
  imports Packets
begin

unbundle bit_operations_syntax

text \<open>
  The validator of MAP commands, \<open>src/map_protocol.c\<close>. A step of the validator takes the
  reader with the thread's scopes and yields \<open>Some\<close> value, or \<open>None\<close> where the source returns
  false, with the reader afterwards; \<open>mp_bind\<close> is the sequencing of the source, which
  returns at the first step that fails. The loop over the tiles of a level is a \<open>c_loop\<close>.
\<close>

type_synonym 'a mp = "packet_io \<Rightarrow> 'a option \<times> packet_io"

definition mp_bind :: "'a mp \<Rightarrow> ('a \<Rightarrow> 'b mp) \<Rightarrow> 'b mp" where
  "mp_bind m f io = (case m io of (None, io') \<Rightarrow> (None, io') | (Some x, io') \<Rightarrow> f x io')"

definition mp_return :: "'a \<Rightarrow> 'a mp" where
  "mp_return x io = (Some x, io)"

definition mp_check :: "bool \<Rightarrow> unit mp" where
  "mp_check b io = (if b then Some () else None, io)"

definition mp_then :: "unit mp \<Rightarrow> 'b mp \<Rightarrow> 'b mp" where
  "mp_then m k = mp_bind m (\<lambda>_. k)"

definition mp_when :: "bool \<Rightarrow> unit mp \<Rightarrow> unit mp" where
  "mp_when b m = (if b then m else mp_return ())"

definition mp_seq :: "unit mp list \<Rightarrow> unit mp" where
  "mp_seq ms = foldr mp_then ms (mp_return ())"


section \<open>Constants\<close>

definition MAP_UPDATE_CMD_SAME :: u8 where "MAP_UPDATE_CMD_SAME = 0"
definition MAP_UPDATE_CMD_NEW :: u8 where "MAP_UPDATE_CMD_NEW = 1"
definition MAP_UPDATE_CMD_CONNECTED :: u8 where "MAP_UPDATE_CMD_CONNECTED = 2"
definition MAP_UPDATE_TILE_MIN :: u8 where "MAP_UPDATE_TILE_MIN = 1"
definition MAP_UPDATE_TILE_UP :: u8 where "MAP_UPDATE_TILE_UP = 9"
definition MAP_UPDATE_TILE_DOWN :: u8 where "MAP_UPDATE_TILE_DOWN = 10"
definition MAP_UPDATE_TILE_MAX :: u8 where "MAP_UPDATE_TILE_MAX = MAP_UPDATE_TILE_DOWN"
definition MAP2_MAX_DEPTH :: int where "MAP2_MAX_DEPTH = 6"
definition MAP2_LEVELS :: nat where "MAP2_LEVELS = nat (MAP2_MAX_DEPTH * 2 + 1)"
definition MAP2_DEPTH_INDEX :: "int \<Rightarrow> nat" where "MAP2_DEPTH_INDEX depth = nat (depth + MAP2_MAX_DEPTH)"
definition MAP2_PROTOCOL_OBJECT_LAYERS :: nat where "MAP2_PROTOCOL_OBJECT_LAYERS = 7"
definition MAP2_PROTOCOL_SUB_LAYERS :: nat where "MAP2_PROTOCOL_SUB_LAYERS = 7"
definition MAP2_PROTOCOL_REAL_LAYERS :: nat where
  "MAP2_PROTOCOL_REAL_LAYERS = MAP2_PROTOCOL_OBJECT_LAYERS * MAP2_PROTOCOL_SUB_LAYERS"

definition MAP2_FLAG_MULTI :: u8 where "MAP2_FLAG_MULTI = 1"
definition MAP2_FLAG_NAME :: u8 where "MAP2_FLAG_NAME = 2"
definition MAP2_FLAG_ANIMATION :: u8 where "MAP2_FLAG_ANIMATION = 4"
definition MAP2_FLAG_HEIGHT :: u8 where "MAP2_FLAG_HEIGHT = 8"
definition MAP2_FLAG_ALIGN :: u8 where "MAP2_FLAG_ALIGN = 32"
definition MAP2_FLAG_MORE :: u8 where "MAP2_FLAG_MORE = 128"

definition MAP2_FLAG2_ALPHA :: u32 where "MAP2_FLAG2_ALPHA = 1"
definition MAP2_FLAG2_ROTATE :: u32 where "MAP2_FLAG2_ROTATE = 2"
definition MAP2_FLAG2_ZOOM :: u32 where "MAP2_FLAG2_ZOOM = 4"
definition MAP2_FLAG2_TARGET :: u32 where "MAP2_FLAG2_TARGET = 8"
definition MAP2_FLAG2_PROBE :: u32 where "MAP2_FLAG2_PROBE = 16"
definition MAP2_FLAG2_PRIORITY :: u32 where "MAP2_FLAG2_PRIORITY = 32"
definition MAP2_FLAG2_SECONDPASS :: u32 where "MAP2_FLAG2_SECONDPASS = 64"
definition MAP2_FLAG2_GLOW :: u32 where "MAP2_FLAG2_GLOW = 128"
definition MAP2_FLAG2_ROOF :: u32 where "MAP2_FLAG2_ROOF = 256"
definition MAP2_FLAG2_DOOR :: u32 where "MAP2_FLAG2_DOOR = 512"

definition MAP2_FLAG_EXT_ANIM :: u8 where "MAP2_FLAG_EXT_ANIM = 1"
definition ANIM_DAMAGE :: u8 where "ANIM_DAMAGE = 1"
definition ANIM_KILL :: u8 where "ANIM_KILL = 2"

definition MAP2_MASK_SUPPORT_HEIGHT :: u16 where "MAP2_MASK_SUPPORT_HEIGHT = 0x1"
definition MAP2_MASK_CLEAR :: u16 where "MAP2_MASK_CLEAR = 0x2"
definition MAP2_MASK_HARD_CLEAR :: u16 where "MAP2_MASK_HARD_CLEAR = 0x10"
definition MAP2_MASK_LIGHT_LEVEL :: u16 where "MAP2_MASK_LIGHT_LEVEL = 0x4"
definition MAP2_MASK_LIGHT_LEVEL_MORE :: u16 where "MAP2_MASK_LIGHT_LEVEL_MORE = 0x8"
definition MAP2_MASK_FOW :: u16 where "MAP2_MASK_FOW = 0x20"
definition MAP2_LAYER_CLEAR :: u8 where "MAP2_LAYER_CLEAR = 255"

definition ANIM_FLAG_MOVING :: u8 where "ANIM_FLAG_MOVING = 1"
definition ANIM_FLAG_ATTACKING :: u8 where "ANIM_FLAG_ATTACKING = 2"
definition ANIM_FLAG_STOP_MOVING :: u8 where "ANIM_FLAG_STOP_MOVING = 4"
definition ANIM_FLAG_STOP_ATTACKING :: u8 where "ANIM_FLAG_STOP_ATTACKING = 8"

definition known_mask :: u16 where
  "known_mask = MAP2_MASK_SUPPORT_HEIGHT OR MAP2_MASK_CLEAR OR MAP2_MASK_HARD_CLEAR OR
     MAP2_MASK_LIGHT_LEVEL OR MAP2_MASK_LIGHT_LEVEL_MORE OR MAP2_MASK_FOW"

definition known_flags2 :: u32 where
  "known_flags2 = MAP2_FLAG2_ALPHA OR MAP2_FLAG2_ROTATE OR MAP2_FLAG2_ZOOM OR MAP2_FLAG2_TARGET OR
     MAP2_FLAG2_PROBE OR MAP2_FLAG2_PRIORITY OR MAP2_FLAG2_SECONDPASS OR MAP2_FLAG2_GLOW OR
     MAP2_FLAG2_ROOF OR MAP2_FLAG2_DOOR"

definition known_anim_flags :: u8 where
  "known_anim_flags = ANIM_FLAG_MOVING OR ANIM_FLAG_ATTACKING OR ANIM_FLAG_STOP_MOVING OR
     ANIM_FLAG_STOP_ATTACKING"

text \<open>\<open>flags & mask\<close> as a condition.\<close>

definition has :: "'a :: len word \<Rightarrow> 'a word \<Rightarrow> bool" where
  "has flags bits \<longleftrightarrow> flags AND bits \<noteq> 0"


section \<open>Reading\<close>

definition map_packet_skip :: "nat \<Rightarrow> unit mp" where
  "map_packet_skip n io = (case packet_reader_skip n io of (ok, io') \<Rightarrow> (if ok then Some () else None, io'))"

text \<open>A read fails when the reader is in error afterwards.\<close>

definition mp_read :: "(packet_io \<Rightarrow> 'a \<times> packet_io) \<Rightarrow> 'a mp" where
  "mp_read rd io = (case rd io of (v, io') \<Rightarrow>
     (if packet_reader_error io' = PACKET_ERROR_NONE then Some v else None, io'))"

definition map_packet_read_uint8 :: "u8 mp" where
  "map_packet_read_uint8 = mp_read packet_reader_read_uint8"

definition map_packet_read_int8 :: "u8 mp" where
  "map_packet_read_int8 = mp_read packet_reader_read_int8"

definition map_packet_read_uint16 :: "u16 mp" where
  "map_packet_read_uint16 = mp_read packet_reader_read_uint16"

definition map_packet_read_uint32 :: "u32 mp" where
  "map_packet_read_uint32 = mp_read packet_reader_read_uint32"

definition map_packet_skip_string :: "unit mp" where
  "map_packet_skip_string =
     mp_bind (mp_read (packet_reader_read_string_view PACKET_PAYLOAD_MAX)) (\<lambda>_. mp_return ())"


section \<open>Tiles\<close>

text \<open>The extended flags of a layer.\<close>

definition map_validate_flags2 :: "unit mp" where
  "map_validate_flags2 =
     mp_bind map_packet_read_uint32 (\<lambda>flags2. mp_seq [
       mp_check (flags2 AND NOT known_flags2 = 0),
       mp_when (has flags2 MAP2_FLAG2_ALPHA) (map_packet_skip 1),
       mp_when (has flags2 MAP2_FLAG2_ROTATE) (map_packet_skip 2),
       mp_when (has flags2 MAP2_FLAG2_ZOOM) (map_packet_skip (2 * 2)),
       mp_when (has flags2 MAP2_FLAG2_TARGET)
         (mp_then (map_packet_skip 4)
           (mp_bind map_packet_read_uint8 (\<lambda>target_is_friend. mp_check (\<not> target_is_friend > 1)))),
       mp_when (has flags2 MAP2_FLAG2_PROBE)
         (mp_bind map_packet_read_uint8 (\<lambda>probe. mp_check (\<not> probe > 100))),
       mp_when (has flags2 MAP2_FLAG2_GLOW) (mp_then map_packet_skip_string (map_packet_skip 1))])"

definition map_validate_animation :: "unit mp" where
  "map_validate_animation =
     mp_then (map_packet_skip 2) (mp_bind map_packet_read_uint8 (\<lambda>anim_flags. mp_seq [
       mp_check (anim_flags AND NOT known_anim_flags = 0),
       mp_when (has anim_flags ANIM_FLAG_MOVING) (map_packet_skip 1)]))"

text \<open>What follows the type of a layer that is not cleared.\<close>

definition map_validate_layer :: "unit mp" where
  "map_validate_layer =
     mp_then (map_packet_skip (2 + 1)) (mp_bind map_packet_read_uint8 (\<lambda>flags. mp_seq [
       mp_when (has flags MAP2_FLAG_MULTI) (map_packet_skip 1),
       mp_when (has flags MAP2_FLAG_NAME) (mp_then map_packet_skip_string map_packet_skip_string),
       mp_when (has flags MAP2_FLAG_ANIMATION) map_validate_animation,
       mp_when (has flags MAP2_FLAG_HEIGHT) (map_packet_skip 2),
       mp_when (has flags MAP2_FLAG_ALIGN) (map_packet_skip 2),
       mp_when (has flags MAP2_FLAG_MORE) map_validate_flags2]))"

text \<open>The loop over the layers, \<open>n\<close> of them left, with the array of layers seen.\<close>

fun map_validate_layers :: "nat \<Rightarrow> bool list \<Rightarrow> unit mp" where
  "map_validate_layers 0 seen_layers = mp_return ()"
| "map_validate_layers (Suc n) seen_layers =
     mp_bind map_packet_read_uint8 (\<lambda>type.
     mp_bind (if type = MAP2_LAYER_CLEAR then map_packet_read_uint8 else mp_return type) (\<lambda>layer.
     mp_then (mp_check (\<not> (unat layer \<ge> MAP2_PROTOCOL_REAL_LAYERS \<or> seen_layers ! unat layer)))
    (mp_then (if type = MAP2_LAYER_CLEAR then mp_return () else map_validate_layer)
     (map_validate_layers n (seen_layers[unat layer := True])))))"

fun map_validate_anims :: "nat \<Rightarrow> bool list \<Rightarrow> unit mp" where
  "map_validate_anims 0 seen_sub_layers = mp_return ()"
| "map_validate_anims (Suc n) seen_sub_layers =
     mp_bind map_packet_read_uint8 (\<lambda>sub_layer.
     mp_bind map_packet_read_uint8 (\<lambda>anim_type.
     mp_then (mp_check (\<not> (unat sub_layer \<ge> MAP2_PROTOCOL_SUB_LAYERS \<or> seen_sub_layers ! unat sub_layer \<or>
       (anim_type \<noteq> ANIM_DAMAGE \<and> anim_type \<noteq> ANIM_KILL))))
    (mp_then (map_packet_skip 2)
     (map_validate_anims n (seen_sub_layers[unat sub_layer := True])))))"

definition map_validate_ext :: "unit mp" where
  "map_validate_ext =
     mp_bind map_packet_read_uint8 (\<lambda>ext_flags.
     mp_then (mp_check (ext_flags AND NOT MAP2_FLAG_EXT_ANIM = 0))
     (mp_when (has ext_flags MAP2_FLAG_EXT_ANIM)
       (mp_bind map_packet_read_uint8 (\<lambda>anim_num.
        mp_then (mp_check (\<not> unat anim_num > MAP2_PROTOCOL_SUB_LAYERS))
        (map_validate_anims (unat anim_num) (replicate MAP2_PROTOCOL_SUB_LAYERS False))))))"

text \<open>What follows the mask of a tile that is not cleared.\<close>

definition map_validate_cell :: "u16 \<Rightarrow> unit mp" where
  "map_validate_cell values = mp_seq [
     mp_check (\<not> has values MAP2_MASK_HARD_CLEAR),
     mp_when (has values MAP2_MASK_SUPPORT_HEIGHT) (map_packet_skip 2),
     mp_when (has values MAP2_MASK_FOW) (mp_bind map_packet_read_uint8 (\<lambda>fow. mp_check (\<not> fow > 1))),
     mp_when (has values MAP2_MASK_LIGHT_LEVEL) (map_packet_skip 1),
     mp_when (has values MAP2_MASK_LIGHT_LEVEL_MORE) (map_packet_skip (MAP2_PROTOCOL_SUB_LAYERS - 1)),
     mp_bind map_packet_read_uint8 (\<lambda>num_layers.
       mp_then (mp_check (\<not> unat num_layers > MAP2_PROTOCOL_REAL_LAYERS))
       (map_validate_layers (unat num_layers) (replicate MAP2_PROTOCOL_REAL_LAYERS False))),
     map_validate_ext]"

definition map_validate_tile :: "int \<Rightarrow> int \<Rightarrow> unit mp" where
  "map_validate_tile wire_width wire_height =
     mp_bind map_packet_read_uint16 (\<lambda>mask.
       let x = uint (drop_bit 11 mask AND 0x1f);
           y = uint (drop_bit 6 mask AND 0x1f);
           values = mask AND 0x3f
       in mp_then (mp_check (\<not> (x \<ge> wire_width \<or> y \<ge> wire_height \<or> values AND NOT known_mask \<noteq> 0)))
          (if has values MAP2_MASK_CLEAR
           then mp_check (values AND NOT (MAP2_MASK_CLEAR OR MAP2_MASK_HARD_CLEAR) = 0)
           else map_validate_cell values))"

definition map_validate_level_step ::
    "int \<Rightarrow> int \<Rightarrow> packet_io \<Rightarrow> (packet_io + (bool \<times> packet_io)) option" where
  "map_validate_level_step wire_width wire_height io =
     (if rd_pos (io_reader io) < rd_len (io_reader io)
      then case map_validate_tile wire_width wire_height io of
             (None, io') \<Rightarrow> Some (Inr (False, io'))
           | (Some _, io') \<Rightarrow> Some (Inl io')
      else Some (Inr (rd_pos (io_reader io) = rd_len (io_reader io), io)))"

definition socket_command_map_validate_level ::
    "int \<Rightarrow> int \<Rightarrow> packet_io \<Rightarrow> (bool \<times> packet_io) option" where
  "socket_command_map_validate_level wire_width wire_height io =
     c_loop (map_validate_level_step wire_width wire_height) io"


section \<open>The command\<close>

text \<open>The part about a map other than the current one; the result is the new size.\<close>

definition map_validate_header :: "u8 \<Rightarrow> (nat \<times> nat) mp" where
  "map_validate_header mapstat =
     (if mapstat = MAP_UPDATE_CMD_SAME then mp_return (0, 0)
      else mp_then (mp_seq [
        map_packet_skip_string, map_packet_skip_string, map_packet_skip_string,
        mp_bind map_packet_read_uint8 (\<lambda>height_diff. mp_check (\<not> height_diff > 1)),
        mp_bind map_packet_read_uint8 (\<lambda>region_has_map. mp_check (\<not> region_has_map > 1)),
        map_packet_skip_string, map_packet_skip_string, map_packet_skip_string])
       (if mapstat = MAP_UPDATE_CMD_NEW
        then mp_bind map_packet_read_uint8 (\<lambda>width.
             mp_bind map_packet_read_uint8 (\<lambda>height.
             mp_then (mp_check (\<not> (width = 0 \<or> height = 0)))
             (mp_return (unat width, unat height))))
        else mp_bind map_packet_read_uint8 (\<lambda>tile.
             mp_bind map_packet_read_int8 (\<lambda>_.
             mp_bind map_packet_read_int8 (\<lambda>_.
             mp_bind map_packet_read_int8 (\<lambda>zoff.
             mp_then (mp_check (\<not> (tile < MAP_UPDATE_TILE_MIN \<or> tile > MAP_UPDATE_TILE_MAX \<or>
               (tile = MAP_UPDATE_TILE_UP \<and> sint zoff \<noteq> 1) \<or>
               (tile = MAP_UPDATE_TILE_DOWN \<and> sint zoff \<noteq> - 1) \<or>
               (tile < MAP_UPDATE_TILE_UP \<and> sint zoff \<noteq> 0))))
             (mp_return (0, 0))))))))"

text \<open>The player position and the number of levels.\<close>

definition map_validate_position :: "nat \<Rightarrow> nat \<Rightarrow> u8 mp" where
  "map_validate_position new_map_width new_map_height =
     mp_bind map_packet_read_uint8 (\<lambda>xpos.
     mp_bind map_packet_read_uint8 (\<lambda>ypos.
     mp_bind map_packet_read_uint8 (\<lambda>player_sub_layer.
     mp_then (mp_check (\<not> (unat player_sub_layer \<ge> MAP2_PROTOCOL_SUB_LAYERS \<or>
       (new_map_width \<noteq> 0 \<and> (unat xpos \<ge> new_map_width \<or> unat ypos \<ge> new_map_height)))))
     (mp_bind map_packet_read_uint8 (\<lambda>level_count.
      mp_then (mp_check (\<not> (level_count = 0 \<or> unat level_count > MAP2_LEVELS)))
      (mp_return level_count))))))"

text \<open>The contents a view denotes, as the buffer of a reader of its own.\<close>

definition view_buffer :: "packet_view \<Rightarrow> pk_buf option" where
  "view_buffer v = map_option (\<lambda>(a, bs). (a, take (view_len v) bs)) (view_data v)"

text \<open>The frame of one level: its depth, its size and the bit of its depth, and its contents.\<close>

definition map_validate_frame :: "u16 \<Rightarrow> (u16 \<times> packet_view) mp" where
  "map_validate_frame level_mask =
     mp_bind map_packet_read_int8 (\<lambda>depth.
     mp_bind map_packet_read_uint32 (\<lambda>level_size.
     mp_bind (\<lambda>io. (Some (packet_reader_remaining io), io)) (\<lambda>remaining.
     mp_then (mp_check (\<not> (sint depth < - MAP2_MAX_DEPTH \<or> sint depth > MAP2_MAX_DEPTH \<or>
       unat level_size > remaining)))
     (let level_bit = push_bit (MAP2_DEPTH_INDEX (sint depth)) 1
      in mp_then (mp_check (\<not> has level_mask level_bit))
         (mp_bind (\<lambda>io. map_prod Some id (packet_reader_read_view (unat level_size) io)) (\<lambda>level.
          mp_return (level_mask OR level_bit, level)))))))"

text \<open>
  The loop over the levels, \<open>n\<close> of them left. A level's reader is a reader of its own on
  the level's bytes; it shares the thread's scopes.
\<close>

fun map_validate_levels ::
    "int \<Rightarrow> int \<Rightarrow> nat \<Rightarrow> u16 \<Rightarrow> packet_io \<Rightarrow> (u16 option \<times> packet_io) option" where
  "map_validate_levels w h 0 level_mask io = Some (Some level_mask, io)"
| "map_validate_levels w h (Suc n) level_mask io =
     (case map_validate_frame level_mask io of
        (None, io') \<Rightarrow> Some (None, io')
      | (Some (seen, level), io') \<Rightarrow>
          (case socket_command_map_validate_level w h
                  (packet_reader_init (view_buffer level) (view_len level) (io_scopes io')) of
             None \<Rightarrow> None
           | Some (ok, lio) \<Rightarrow>
               let io'' = io'\<lparr>io_scopes := io_scopes lio\<rparr>
               in if ok then map_validate_levels w h n seen io'' else Some (None, io'')))"

definition map_protocol_validate ::
    "pk_buf option \<Rightarrow> nat \<Rightarrow> nat \<Rightarrow> int \<Rightarrow> int \<Rightarrow> packet_reader_scope list \<Rightarrow>
       (bool \<times> packet_reader_scope list) option" where
  "map_protocol_validate data len pos map_width_limit map_height_limit scopes =
     (if data = None \<or> pos > len \<or> map_width_limit \<le> 0 \<or> map_width_limit > 32 \<or>
         map_height_limit \<le> 0 \<or> map_height_limit > 32
      then Some (False, scopes)
      else let io = packet_reader_init_at data len pos scopes
        in case mp_bind map_packet_read_uint8 (\<lambda>mapstat.
                  mp_then (mp_check (\<not> mapstat > MAP_UPDATE_CMD_CONNECTED))
                  (mp_bind (map_validate_header mapstat) (\<lambda>(width, height).
                   map_validate_position width height))) io of
             (None, io) \<Rightarrow> Some (False, io_scopes io)
           | (Some level_count, io) \<Rightarrow>
               (case map_validate_levels map_width_limit map_height_limit (unat level_count) 0 io of
                  None \<Rightarrow> None
                | Some (None, io) \<Rightarrow> Some (False, io_scopes io)
                | Some (Some level_mask, io) \<Rightarrow>
                    let (finished, io) = packet_reader_finish io
                    in Some (finished \<and> has level_mask (push_bit (MAP2_DEPTH_INDEX 0) 1), io_scopes io)))"

end
