(* ===== verification/Map_Correct.thy ===== *)
theory Map_Correct
  imports Map_Protocol "HOL-Library.Sublist"
begin

unbundle bit_operations_syntax

text \<open>
  Correctness of the MAP validator: it returns on every input without leaving the packet, what it
  accepts depends only on the bytes of the command, and no accepted command is a proper
  prefix of another.
\<close>

section \<open>Well-behaved steps\<close>

text \<open>A step that yields \<open>v\<close> on every input that starts with \<open>c\<close>, and consumes \<open>c\<close>.\<close>

definition mp_reads :: "'a mp \<Rightarrow> 'a \<Rightarrow> bytes \<Rightarrow> bool" where
  "mp_reads m v c \<longleftrightarrow> (\<forall>io rest. reader_ok io \<and> unread io = c @ rest \<longrightarrow>
     (\<exists>io'. m io = (Some v, io') \<and> reader_ok io' \<and> unread io' = rest))"

text \<open>
  A good step only moves the cursor as the reader does, and when it succeeds its result is
  determined by the bytes it consumed.
\<close>

definition mp_good :: "'a mp \<Rightarrow> bool" where
  "mp_good m \<longleftrightarrow> (\<forall>io. reader_wf io \<longrightarrow> reader_move\<^sup>*\<^sup>* io (snd (m io))) \<and>
     (\<forall>io v io'. reader_ok io \<and> m io = (Some v, io') \<longrightarrow>
       reader_ok io' \<and> (\<exists>c. unread io = c @ unread io' \<and> mp_reads m v c))"

named_theorems mp_intros \<open>good steps\<close>

lemma mp_goodD:
  assumes "mp_good m"
  shows "reader_wf io \<Longrightarrow> reader_move\<^sup>*\<^sup>* io (snd (m io))"
    and "reader_ok io \<Longrightarrow> m io = (Some v, io') \<Longrightarrow> reader_ok io'"
    and "reader_ok io \<Longrightarrow> m io = (Some v, io') \<Longrightarrow> \<exists>c. unread io = c @ unread io' \<and> mp_reads m v c"
  using assms unfolding mp_good_def by blast+

lemma mp_good_return [mp_intros]: "mp_good (mp_return x)"
  by (auto simp: mp_good_def mp_return_def mp_reads_def)

lemma mp_good_check [mp_intros]: "mp_good (mp_check b)"
  by (auto simp: mp_good_def mp_check_def mp_reads_def)

lemma mp_good_bind [mp_intros]:
  assumes m: "mp_good m" and f: "\<And>x. mp_good (f x)"
  shows "mp_good (mp_bind m f)"
  unfolding mp_good_def
proof (intro conjI allI impI)
  fix io assume wf: "reader_wf io"
  obtain r io1 where r: "m io = (r, io1)" by (cases "m io")
  have m1: "reader_move\<^sup>*\<^sup>* io io1" using mp_goodD(1) [OF m wf] by (simp add: r)
  show "reader_move\<^sup>*\<^sup>* io (snd (mp_bind m f io))"
  proof (cases r)
    case (Some x)
    have "reader_move\<^sup>*\<^sup>* io1 (snd (f x io1))" by (rule mp_goodD(1) [OF f reader_moves_wf [OF m1 wf]])
    then show ?thesis using m1 r Some by (simp add: mp_bind_def)
  qed (simp add: mp_bind_def r m1)
next
  fix io v io' assume a: "reader_ok io \<and> mp_bind m f io = (Some v, io')"
  then obtain x io1 where x: "m io = (Some x, io1)" "f x io1 = (Some v, io')"
    by (auto simp: mp_bind_def split: prod.splits option.splits)
  have ok1: "reader_ok io1" using mp_goodD(2) [OF m] a x by blast
  show "reader_ok io'" using mp_goodD(2) [OF f] ok1 x by blast
  obtain c1 where c1: "unread io = c1 @ unread io1" "mp_reads m x c1" using mp_goodD(3) [OF m] a x by blast
  obtain c2 where c2: "unread io1 = c2 @ unread io'" "mp_reads (f x) v c2" using mp_goodD(3) [OF f ok1 x(2)] by blast
  have "mp_reads (mp_bind m f) v (c1 @ c2)"
    unfolding mp_reads_def
  proof (intro allI impI)
    fix io rest assume i: "reader_ok io \<and> unread io = (c1 @ c2) @ rest"
    then obtain io1 where "m io = (Some x, io1)" "reader_ok io1" "unread io1 = c2 @ rest"
      using c1(2) unfolding mp_reads_def by (metis append.assoc)
    then show "\<exists>io'. mp_bind m f io = (Some v, io') \<and> reader_ok io' \<and> unread io' = rest"
      using c2(2) unfolding mp_reads_def by (auto simp: mp_bind_def)
  qed
  then show "\<exists>c. unread io = c @ unread io' \<and> mp_reads (mp_bind m f) v c" using c1 c2 by auto
qed

lemma mp_good_then [mp_intros]: "mp_good m \<Longrightarrow> mp_good k \<Longrightarrow> mp_good (mp_then m k)"
  by (simp add: mp_then_def mp_good_bind)

lemma mp_good_when [mp_intros]: "mp_good m \<Longrightarrow> mp_good (mp_when b m)"
  by (simp add: mp_when_def mp_good_return)

lemma mp_good_if [mp_intros]: "mp_good m \<Longrightarrow> mp_good k \<Longrightarrow> mp_good (if b then m else k)"
  by simp

lemma mp_good_seq [mp_intros]:
  "mp_good (mp_seq [])" "mp_good m \<Longrightarrow> mp_good (mp_seq ms) \<Longrightarrow> mp_good (mp_seq (m # ms))"
  by (simp_all add: mp_seq_def mp_good_return mp_good_then)

text \<open>Reading with a field codec is a good step.\<close>

lemma mp_good_read:
  assumes c: "field_codec enc valid put rd" and mv: "\<And>io. reader_wf io \<Longrightarrow> reader_move\<^sup>*\<^sup>* io (snd (rd io))"
  shows "mp_good (mp_read rd)"
  unfolding mp_good_def
proof (intro conjI allI impI)
  fix io assume "reader_wf io"
  then show "reader_move\<^sup>*\<^sup>* io (snd (mp_read rd io))" using mv by (simp add: mp_read_def split_beta)
next
  fix io v io' assume a: "reader_ok io \<and> mp_read rd io = (Some v, io')"
  then have r: "rd io = (v, io')" "rd_error (io_reader io') = PACKET_ERROR_NONE"
    by (auto simp: mp_read_def packet_reader_error_def split_beta prod_eq_iff split: if_splits)
  have wf: "reader_wf io" using a reader_ok_wf by blast
  show "reader_ok io'" using field_codec.get_wf [OF c wf] r by (simp add: reader_ok_def)
  have v: "valid v" and u: "\<exists>rest. unread io = enc v @ rest \<and> unread io' = rest"
    using field_codec.get_success [OF c wf] field_codec.get_canonical [OF c wf] r by simp_all
  have "mp_reads (mp_read rd) v (enc v)"
    unfolding mp_reads_def
  proof (intro allI impI)
    fix io rest assume i: "reader_ok io \<and> unread io = enc v @ rest"
    then have "rd io = (v, io_advance (length (enc v)) io)" using field_codec.get_enc [OF c v] by blast
    moreover have "reader_ok (io_advance (length (enc v)) io)" using i reader_ok_advance by auto
    ultimately show "\<exists>io'. mp_read rd io = (Some v, io') \<and> reader_ok io' \<and> unread io' = rest"
      using i by (auto simp: mp_read_def packet_reader_error_def reader_ok_def unread_advance)
  qed
  then show "\<exists>c. unread io = c @ unread io' \<and> mp_reads (mp_read rd) v c" using u by auto
qed

lemma map_packet_reads_good [mp_intros]:
  "mp_good map_packet_read_uint8" "mp_good map_packet_read_int8"
  "mp_good map_packet_read_uint16" "mp_good map_packet_read_uint32"
  unfolding map_packet_read_uint8_def map_packet_read_int8_def map_packet_read_uint16_def map_packet_read_uint32_def
  by (rule mp_good_read, rule uint8.field_codec_axioms int8.field_codec_axioms uint16.field_codec_axioms
      uint32.field_codec_axioms, simp add: signed_readers readers_take_io take_moves)+

lemma map_packet_skip_string_good [mp_intros]: "mp_good map_packet_skip_string"
proof -
  have "mp_good (mp_read (get_cstring PACKET_PAYLOAD_MAX))"
    by (rule mp_good_read, rule cstring.field_codec_axioms) (simp add: get_cstring_def string_view_moves)
  then have "mp_good (mp_bind (mp_read (get_cstring PACKET_PAYLOAD_MAX)) (\<lambda>_. mp_return ()))"
    by (intro mp_intros)
  moreover have "map_packet_skip_string = mp_bind (mp_read (get_cstring PACKET_PAYLOAD_MAX)) (\<lambda>_. mp_return ())"
    by (simp add: fun_eq_iff map_packet_skip_string_def mp_bind_def mp_read_def get_cstring_def split_beta)
  ultimately show ?thesis by simp
qed

lemma map_packet_skip_good [mp_intros]:
  assumes "0 < n"
  shows "mp_good (map_packet_skip n)"
proof -
  have ok: "map_packet_skip n io = (Some (), io_advance n io)" if "reader_ok io" "n \<le> length (unread io)" for io
    using that assms by (rule_tac packet_reader_take_ok [OF that(1) assms that(2)])
      (simp add: map_packet_skip_def packet_reader_skip_def)
  have short: "map_packet_skip n io = (None, packet_reader_fail PACKET_ERROR_TRUNCATED io)"
    if "reader_ok io" "length (unread io) < n" for io
    using that assms by (simp add: map_packet_skip_def packet_reader_skip_def packet_reader_take_short)
  have mv: "snd (map_packet_skip n io) = snd (packet_reader_take n io)" for io
    using assms by (simp add: map_packet_skip_def packet_reader_skip_def split_beta)
  show ?thesis
    unfolding mp_good_def
  proof (intro conjI allI impI)
    fix io assume "reader_wf io"
    then show "reader_move\<^sup>*\<^sup>* io (snd (map_packet_skip n io))" by (simp add: mv take_moves)
  next
    fix io v io' assume a: "reader_ok io \<and> map_packet_skip n io = (Some v, io')"
    then have n: "n \<le> length (unread io)" using short [of io] by (cases "n \<le> length (unread io)") auto
    then have io': "io' = io_advance n io" using a ok by auto
    show "reader_ok io'" using a n reader_ok_advance by (auto simp: io')
    have "mp_reads (map_packet_skip n) v (take n (unread io))"
      using ok n reader_ok_advance by (auto simp: mp_reads_def unread_advance)
    moreover have "unread io = take n (unread io) @ unread io'" by (simp add: io' unread_advance)
    ultimately show "\<exists>c. unread io = c @ unread io' \<and> mp_reads (map_packet_skip n) v c" by blast
  qed
qed

section \<open>Tiles\<close>

lemma map_validate_flags2_good [mp_intros]: "mp_good map_validate_flags2"
  unfolding map_validate_flags2_def by (intro mp_intros) simp_all

lemma map_validate_animation_good [mp_intros]: "mp_good map_validate_animation"
  unfolding map_validate_animation_def by (intro mp_intros) simp_all

lemma map_validate_layer_good [mp_intros]: "mp_good map_validate_layer"
  unfolding map_validate_layer_def by (intro mp_intros) simp_all

lemma map_validate_layers_good [mp_intros]: "mp_good (map_validate_layers n seen)"
  by (induction n arbitrary: seen) (auto intro!: mp_intros)

lemma map_validate_anims_good [mp_intros]: "mp_good (map_validate_anims n seen)"
  by (induction n arbitrary: seen) (auto intro!: mp_intros)

lemma map_validate_ext_good [mp_intros]: "mp_good map_validate_ext"
  unfolding map_validate_ext_def by (intro mp_intros)

lemma map_validate_cell_good [mp_intros]: "mp_good (map_validate_cell vs)"
  unfolding map_validate_cell_def by (intro mp_intros) (simp_all add: MAP2_PROTOCOL_SUB_LAYERS_def)

lemma map_validate_tile_good [mp_intros]: "mp_good (map_validate_tile w h)"
  unfolding map_validate_tile_def Let_def by (intro mp_intros)

lemma map_validate_header_good [mp_intros]: "mp_good (map_validate_header mapstat)"
  unfolding map_validate_header_def by (intro mp_intros)

lemma map_validate_position_good [mp_intros]: "mp_good (map_validate_position w h)"
  unfolding map_validate_position_def by (intro mp_intros)

text \<open>A tile takes at least the two bytes of its mask.\<close>

lemma map_validate_tile_progress:
  assumes "reader_wf io" "map_validate_tile w h io = (Some v, io')"
  shows "rd_pos (io_reader io) < rd_pos (io_reader io')" "rd_len (io_reader io') = rd_len (io_reader io)"
proof -
  obtain f where t: "map_validate_tile w h = mp_bind map_packet_read_uint16 f" and f: "\<And>x. mp_good (f x)"
    by (rule that, rule map_validate_tile_def [unfolded Let_def]) (intro mp_intros)
  obtain x io1 where x: "map_packet_read_uint16 io = (Some x, io1)" "f x io1 = (Some v, io')"
    using assms(2) unfolding t by (auto simp: mp_bind_def split: prod.splits option.splits)
  have e: "rd_error (io_reader io1) = PACKET_ERROR_NONE" "io1 = snd (packet_reader_read_uint16 io)"
    using x(1) by (auto simp: map_packet_read_uint16_def mp_read_def packet_reader_error_def split_beta split: if_splits)
  have io1: "io1 = io_advance 2 io"
    using assms(1) by (cases rule: uint16.get_cases) (use e in \<open>auto simp: packet_reader_fail_reader reader_ok_def\<close>)
  have "reader_move\<^sup>*\<^sup>* io io1"
    using mp_goodD(1) [OF map_packet_reads_good(3) assms(1)] x(1) by simp
  then have "reader_move\<^sup>*\<^sup>* io1 io'"
    using mp_goodD(1) [OF f reader_moves_wf [OF _ assms(1)], of io1 x] x(2) by simp
  then have "reader_extends (io_reader io1) (io_reader io')" by (rule reader_moves_extends)
  then show "rd_pos (io_reader io) < rd_pos (io_reader io')" "rd_len (io_reader io') = rd_len (io_reader io)"
    by (simp_all add: reader_extends_def io1 io_advance_reader)
qed


section \<open>Levels\<close>

lemma reader_moves_scopes: "reader_move\<^sup>*\<^sup>* io io' \<Longrightarrow> length (io_scopes io') = length (io_scopes io)"
proof (induction rule: rtranclp_induct)
  case (step io' io'')
  from step(2,3) show ?case
    by (cases rule: reader_move.cases) (simp_all add: io_advance_reader packet_reader_fail_reader)
qed simp

text \<open>The loop over the tiles ends, wherever it starts.\<close>

lemma validate_level_total:
  assumes "reader_wf io"
  shows "\<exists>ok io'. socket_command_map_validate_level w h io = Some (ok, io') \<and> reader_move\<^sup>*\<^sup>* io io'"
proof -
  have "\<exists>r. c_loop (map_validate_level_step w h) io = Some r \<and> reader_move\<^sup>*\<^sup>* io (snd r)"
  proof (rule c_loop_total [where I = "\<lambda>x. reader_wf x \<and> reader_move\<^sup>*\<^sup>* io x"
        and R = "measure (\<lambda>x. rd_len (io_reader x) - rd_pos (io_reader x))"])
    fix s assume s: "reader_wf s \<and> reader_move\<^sup>*\<^sup>* io s"
    obtain r s' where t: "map_validate_tile w h s = (r, s')" by (cases "map_validate_tile w h s")
    have mv: "reader_move\<^sup>*\<^sup>* s s'" using mp_goodD(1) [OF map_validate_tile_good, of s w h] s by (simp add: t)
    then have s': "reader_wf s'" "reader_move\<^sup>*\<^sup>* io s'" using s reader_moves_wf by (auto intro: rtranclp_trans)
    show "\<exists>x. map_validate_level_step w h s = Some x \<and>
        (case x of Inl s' \<Rightarrow> (reader_wf s' \<and> reader_move\<^sup>*\<^sup>* io s') \<and>
            (s', s) \<in> measure (\<lambda>x. rd_len (io_reader x) - rd_pos (io_reader x))
          | Inr r \<Rightarrow> reader_move\<^sup>*\<^sup>* io (snd r))"
      using s s' t map_validate_tile_progress [of s w h "()" s']
      by (cases r) (auto simp: map_validate_level_step_def diff_less_mono2)
  qed (use assms in simp_all)
  then show ?thesis by (auto simp: socket_command_map_validate_level_def)
qed

text \<open>Whether a level is accepted depends only on its bytes.\<close>

lemma unread_nonempty: "reader_ok io \<Longrightarrow> rd_pos (io_reader io) < rd_len (io_reader io) \<longleftrightarrow> unread io \<noteq> []"
  by (auto simp: reader_ok_def reader_wf_def unread_def Let_def)

lemma validate_level_bytes:
  assumes "reader_ok io1" "reader_ok io2" "unread io1 = unread io2"
    and "socket_command_map_validate_level w h io1 = Some (True, io1')"
  shows "\<exists>io2'. socket_command_map_validate_level w h io2 = Some (True, io2')"
  using assms
proof (induction "length (unread io1)" arbitrary: io1 io2 rule: less_induct)
  case less
  note unfold = socket_command_map_validate_level_def map_validate_level_step_def
  show ?case
  proof (cases "unread io1 = []")
    case True
    then have "\<not> rd_pos (io_reader io2) < rd_len (io_reader io2)" using unread_nonempty less.prems by metis
    moreover have "rd_pos (io_reader io2) \<le> rd_len (io_reader io2)"
      using less.prems(2) by (simp add: reader_ok_def reader_wf_def Let_def)
    ultimately show ?thesis by (simp add: unfold c_loop_leave)
  next
    case False
    then have lt: "rd_pos (io_reader io1) < rd_len (io_reader io1)" "rd_pos (io_reader io2) < rd_len (io_reader io2)"
      using unread_nonempty less.prems by metis+
    obtain r s1 where t1: "map_validate_tile w h io1 = (r, s1)" by (cases "map_validate_tile w h io1")
    have "r \<noteq> None"
    proof
      assume "r = None"
      then show False using less.prems(4) lt(1) t1 by (simp add: unfold c_loop_leave)
    qed
    then have t1: "map_validate_tile w h io1 = (Some (), s1)" using t1 by auto
    obtain c where ok1: "reader_ok s1" and c: "unread io1 = c @ unread s1" "mp_reads (map_validate_tile w h) () c"
      using mp_goodD(2,3) [OF map_validate_tile_good less.prems(1) t1] by blast
    obtain s2 where t2: "map_validate_tile w h io2 = (Some (), s2)" "reader_ok s2" "unread s2 = unread s1"
      using c less.prems(2,3) unfolding mp_reads_def by metis
    have len: "length (unread s1) < length (unread io1)"
      using map_validate_tile_progress [OF reader_ok_wf [OF less.prems(1)] t1] lt(1)
        reader_remaining_unread [OF less.prems(1)] reader_remaining_unread [OF ok1]
      by (auto simp: packet_reader_remaining_def Let_def split: if_splits)
    have "socket_command_map_validate_level w h s1 = Some (True, io1')"
      using less.prems(4) lt(1) t1 by (simp add: unfold c_loop_continue)
    from less.hyps [OF len ok1 t2(2) _ this] t2 lt(2) show ?thesis
      by (simp add: unfold c_loop_continue)
  qed
qed


section \<open>The command\<close>

lemma read_view_ok:
  assumes "reader_ok io" "n \<le> length (unread io)"
  obtains v where "packet_reader_read_view n io = (v, if n = 0 then io else io_advance n io)"
    "view_len v = n" "view_buffer v = None \<longrightarrow> n = 0" "buf_bytes (view_buffer v) = take n (unread io)"
proof (cases "n = 0")
  case True
  obtain v where "packet_reader_read_view 0 io = (v, io)" "view_len v = 0"
    using assms(1) by (auto simp: packet_reader_read_view_def packet_reader_take_def reader_ok_def empty_view_def)
  then show ?thesis
    by (intro that [of v]) (use True in \<open>auto simp: view_buffer_def buf_bytes_def split: option.splits\<close>)
next
  case False
  then obtain d where d: "packet_reader_take n io = (Some d, io_advance n io)" "buf_bytes (Some d) = unread io"
    using packet_reader_take_ok [OF assms(1) _ assms(2)] by auto
  then show ?thesis
    by (intro that [of "\<lparr>view_data = Some d, view_len = n\<rparr>"])
      (use False in \<open>auto simp: packet_reader_read_view_def view_buffer_def buf_bytes_def split_beta\<close>)
qed

text \<open>The reader of a level's own buffer.\<close>

lemma level_reader_ok:
  assumes "view_buffer v = None \<Longrightarrow> view_len v = 0" "length (buf_bytes (view_buffer v)) = view_len v" "view_len v \<le> SIZE_MAX"
  shows "reader_ok (packet_reader_init (view_buffer v) (view_len v) scopes)"
    and "unread (packet_reader_init (view_buffer v) (view_len v) scopes) = buf_bytes (view_buffer v)"
proof -
  have "reader_wf (packet_reader_init (view_buffer v) (view_len v) scopes)"
    unfolding packet_reader_init_def
    by (rule packet_reader_init_wf) (use assms in \<open>auto simp: buffer_ok_def buf_bytes_def split: option.splits\<close>)
  then show "reader_ok (packet_reader_init (view_buffer v) (view_len v) scopes)"
    using assms(1) by (cases "view_buffer v") (auto simp: reader_ok_def packet_reader_init_def packet_reader_init_at_reader)
  show "unread (packet_reader_init (view_buffer v) (view_len v) scopes) = buf_bytes (view_buffer v)"
    by (simp add: unread_def packet_reader_init_def packet_reader_init_at_reader)
qed

text \<open>The frame of a level as a good step followed by the level's bytes.\<close>

definition map_frame_head :: "u16 \<Rightarrow> (u16 \<times> nat) mp" where
  "map_frame_head level_mask =
     mp_bind map_packet_read_int8 (\<lambda>depth.
     mp_bind map_packet_read_uint32 (\<lambda>level_size.
     mp_then (mp_check (\<not> (sint depth < - MAP2_MAX_DEPTH \<or> sint depth > MAP2_MAX_DEPTH)))
     (mp_then (mp_check (\<not> has level_mask (push_bit (MAP2_DEPTH_INDEX (sint depth)) 1)))
     (mp_return (level_mask OR push_bit (MAP2_DEPTH_INDEX (sint depth)) 1, unat level_size)))))"

lemma map_frame_head_good: "mp_good (map_frame_head level_mask)"
  unfolding map_frame_head_def by (intro mp_intros)

lemma map_validate_frame_eq:
  "map_validate_frame level_mask io =
     (case map_frame_head level_mask io of (None, io') \<Rightarrow> (None, io')
      | (Some (m, n), io') \<Rightarrow> if n > packet_reader_remaining io' then (None, io')
          else case packet_reader_read_view n io' of (v, io'') \<Rightarrow> (Some (m, v), io''))"
  by (auto simp: map_validate_frame_def map_frame_head_def mp_bind_def mp_then_def mp_check_def mp_return_def
      Let_def map_prod_def split: prod.splits option.splits if_splits)

text \<open>The view of a level is a buffer of its own.\<close>

definition level_view :: "packet_view \<Rightarrow> bytes \<Rightarrow> bool" where
  "level_view v bs \<longleftrightarrow> view_len v = length bs \<and> length bs \<le> SIZE_MAX \<and> buf_bytes (view_buffer v) = bs \<and>
     (view_buffer v = None \<longrightarrow> bs = [])"

lemma level_view_reader:
  assumes "level_view v bs"
  shows "reader_ok (packet_reader_init (view_buffer v) (view_len v) scopes)"
    and "unread (packet_reader_init (view_buffer v) (view_len v) scopes) = bs"
  using assms level_reader_ok [of v scopes] by (auto simp: level_view_def)

lemma read_level:
  assumes "reader_ok io" "unread io = bs @ rest"
  obtains v io' where "packet_reader_read_view (length bs) io = (v, io')" "level_view v bs" "reader_ok io'" "unread io' = rest"
proof -
  have n: "length bs \<le> length (unread io)" using assms(2) by simp
  have s: "length bs \<le> SIZE_MAX" using n reader_ok_length [OF assms(1)] by simp
  obtain v where v: "packet_reader_read_view (length bs) io = (v, if length bs = 0 then io else io_advance (length bs) io)"
      "view_len v = length bs" "view_buffer v = None \<longrightarrow> length bs = 0"
      "buf_bytes (view_buffer v) = take (length bs) (unread io)"
    by (rule read_view_ok [OF assms(1) n])
  show ?thesis
    by (rule that [OF v(1)])
      (use v s assms n reader_ok_advance [OF assms(1), of "length bs"] in
        \<open>auto simp: level_view_def unread_advance\<close>)
qed

lemma frame_ok:
  assumes "reader_ok io" "map_validate_frame m io = (Some (m', v), io1)"
  shows "\<exists>c bs. unread io = c @ bs @ unread io1 \<and> level_view v bs \<and> reader_ok io1 \<and>
    (\<forall>io2 rest. reader_ok io2 \<and> unread io2 = c @ bs @ rest \<longrightarrow>
      (\<exists>v2 io2'. map_validate_frame m io2 = (Some (m', v2), io2') \<and> level_view v2 bs \<and> reader_ok io2' \<and>
        unread io2' = rest))"
proof -
  obtain n io0 where h: "map_frame_head m io = (Some (m', n), io0)" "\<not> n > packet_reader_remaining io0"
      "packet_reader_read_view n io0 = (v, io1)"
    using assms(2) unfolding map_validate_frame_eq by (auto split: prod.splits option.splits if_splits)
  have ok0: "reader_ok io0" by (rule mp_goodD(2) [OF map_frame_head_good assms(1) h(1)])
  obtain c where c: "unread io = c @ unread io0" "mp_reads (map_frame_head m) (m', n) c"
    using mp_goodD(3) [OF map_frame_head_good assms(1) h(1)] by blast
  define bs where "bs = take n (unread io0)"
  have len: "length bs = n" using h(2) reader_remaining_unread [OF ok0] by (simp add: bs_def)
  have u0: "unread io0 = bs @ drop n (unread io0)" by (simp add: bs_def)
  obtain v' io' where r: "packet_reader_read_view (length bs) io0 = (v', io')" "level_view v' bs" "reader_ok io'"
      "unread io' = drop n (unread io0)"
    by (rule read_level [OF ok0 u0])
  have "v = v'" "io1 = io'" using r(1) h(3) len by simp_all
  then have "unread io = c @ bs @ unread io1" "level_view v bs" "reader_ok io1" using r c u0 by simp_all
  moreover have "\<exists>v2 io2'. map_validate_frame m io2 = (Some (m', v2), io2') \<and> level_view v2 bs \<and> reader_ok io2' \<and>
      unread io2' = rest" if i: "reader_ok io2" "unread io2 = c @ bs @ rest" for io2 rest
  proof -
    obtain s where s: "map_frame_head m io2 = (Some (m', n), s)" "reader_ok s" "unread s = bs @ rest"
      using c(2) i unfolding mp_reads_def by blast
    obtain v2 s' where "packet_reader_read_view (length bs) s = (v2, s')" "level_view v2 bs" "reader_ok s'" "unread s' = rest"
      by (rule read_level [OF s(2,3)])
    then show ?thesis
      using s len reader_remaining_unread [OF s(2)] by (simp add: map_validate_frame_eq)
  qed
  ultimately show ?thesis by blast
qed

lemma reader_ok_scopes:
  "reader_ok io \<Longrightarrow> length scopes = length (io_scopes io) \<Longrightarrow> reader_ok (io\<lparr>io_scopes := scopes\<rparr>)"
  "unread (io\<lparr>io_scopes := scopes\<rparr>) = unread io"
  by (auto simp: reader_ok_def reader_wf_def unread_def Let_def)

lemma init_scopes_length: "length (io_scopes (packet_reader_init data len scopes)) = length scopes"
  by (simp add: packet_reader_init_def packet_reader_init_at_scopes_length)

lemma levels_bytes:
  assumes "reader_ok io" "map_validate_levels w h n m io = Some (Some m', io')"
  shows "reader_ok io' \<and> (\<exists>c. unread io = c @ unread io' \<and>
    (\<forall>io2 rest. reader_ok io2 \<and> unread io2 = c @ rest \<longrightarrow>
      (\<exists>io2'. map_validate_levels w h n m io2 = Some (Some m', io2') \<and> reader_ok io2' \<and> unread io2' = rest)))"
  using assms
proof (induction n arbitrary: m io)
  case 0
  then show ?case by (auto intro: exI [of _ "[]"])
next
  case (Suc n)
  obtain m1 v io1 where f: "map_validate_frame m io = (Some (m1, v), io1)"
    using Suc.prems(2) by (auto split: prod.splits option.splits)
  obtain c bs where c: "unread io = c @ bs @ unread io1" "level_view v bs" "reader_ok io1"
      "\<And>io2 rest. reader_ok io2 \<Longrightarrow> unread io2 = c @ bs @ rest \<Longrightarrow>
        \<exists>v2 io2'. map_validate_frame m io2 = (Some (m1, v2), io2') \<and> level_view v2 bs \<and> reader_ok io2' \<and>
          unread io2' = rest"
    using frame_ok [OF Suc.prems(1) f] by blast
  let ?lev = "\<lambda>v s. packet_reader_init (view_buffer v) (view_len v) s"
  have lev: "\<exists>ok lio. socket_command_map_validate_level w h (?lev v s) = Some (ok, lio) \<and>
      length (io_scopes lio) = length s" if "level_view v bs" for v s
    using validate_level_total [OF reader_ok_wf [OF level_view_reader(1) [OF that]], of w h s] reader_moves_scopes
    by (metis init_scopes_length)
  obtain ok lio where l: "socket_command_map_validate_level w h (?lev v (io_scopes io1)) = Some (ok, lio)"
      "length (io_scopes lio) = length (io_scopes io1)"
    using lev [OF c(2)] by blast
  have ok: ok and rec: "map_validate_levels w h n m1 (io1\<lparr>io_scopes := io_scopes lio\<rparr>) = Some (Some m', io')"
    using Suc.prems(2) f l by (auto simp: Let_def split: if_splits)
  have ok1: "reader_ok (io1\<lparr>io_scopes := io_scopes lio\<rparr>)" using c(3) l(2) by (rule reader_ok_scopes(1))
  obtain c' where io': "reader_ok io'" and c': "unread io1 = c' @ unread io'"
      "\<And>io2 rest. reader_ok io2 \<Longrightarrow> unread io2 = c' @ rest \<Longrightarrow>
        \<exists>io2'. map_validate_levels w h n m1 io2 = Some (Some m', io2') \<and> reader_ok io2' \<and> unread io2' = rest"
    using Suc.IH [OF ok1 rec] unfolding reader_ok_scopes(2) by blast
  have "\<exists>io2'. map_validate_levels w h (Suc n) m io2 = Some (Some m', io2') \<and> reader_ok io2' \<and> unread io2' = rest"
    if i: "reader_ok io2" "unread io2 = (c @ bs @ c') @ rest" for io2 rest
  proof -
    obtain v2 s where f2: "map_validate_frame m io2 = (Some (m1, v2), s)" "level_view v2 bs" "reader_ok s"
        "unread s = c' @ rest"
      using c(4) [OF i(1), of "c' @ rest"] i(2) by auto
    obtain ok2 lio2 where l2: "socket_command_map_validate_level w h (?lev v2 (io_scopes s)) = Some (ok2, lio2)"
        "length (io_scopes lio2) = length (io_scopes s)"
      using lev [OF f2(2)] by blast
    have "\<exists>x. socket_command_map_validate_level w h (?lev v2 (io_scopes s)) = Some (True, x)"
      by (rule validate_level_bytes [of "?lev v (io_scopes io1)"])
        (use level_view_reader [OF c(2)] level_view_reader [OF f2(2)] l ok in auto)
    then have ok2 using l2 by auto
    have "reader_ok (s\<lparr>io_scopes := io_scopes lio2\<rparr>)" using f2(3) l2(2) by (rule reader_ok_scopes(1))
    from c'(2) [OF this] f2(4) obtain io2' where
        "map_validate_levels w h n m1 (s\<lparr>io_scopes := io_scopes lio2\<rparr>) = Some (Some m', io2')"
        "reader_ok io2'" "unread io2' = rest"
      by (auto simp: reader_ok_scopes(2))
    then show ?thesis using f2(1) l2(1) \<open>ok2\<close> by (auto simp: Let_def)
  qed
  moreover have "unread io = (c @ bs @ c') @ unread io'" using c(1) c'(1) by simp
  ultimately show ?case using io' by blast
qed

lemma frame_success_ok:
  assumes "reader_wf io" "map_validate_frame m io = (Some r, io')"
  shows "reader_ok io"
proof (rule ccontr)
  assume "\<not> reader_ok io"
  then have "rd_error (io_reader io) \<noteq> PACKET_ERROR_NONE" using assms(1) by (simp add: reader_ok_def)
  then have "map_packet_read_int8 io = (None, io)"
    by (simp add: map_packet_read_int8_def mp_read_def int8.get_error packet_reader_error_def)
  then show False using assms(2) by (simp add: map_validate_frame_eq map_frame_head_def mp_bind_def)
qed

lemma frame_moves: "reader_wf io \<Longrightarrow> reader_move\<^sup>*\<^sup>* io (snd (map_validate_frame m io))"
proof -
  assume wf: "reader_wf io"
  obtain r io0 where h: "map_frame_head m io = (r, io0)" by (cases "map_frame_head m io")
  have mv: "reader_move\<^sup>*\<^sup>* io io0" using mp_goodD(1) [OF map_frame_head_good wf, of m] by (simp add: h)
  then have "reader_move\<^sup>*\<^sup>* io0 (snd (packet_reader_read_view n io0))" for n
    using reader_moves_wf [OF mv wf] by (simp add: readers_take_io take_moves)
  then show ?thesis
    using mv by (cases r) (auto simp: map_validate_frame_eq h split_beta intro: rtranclp_trans)
qed

lemma levels_total:
  assumes "reader_wf io"
  shows "\<exists>r io'. map_validate_levels w h n m io = Some (r, io')"
  using assms
proof (induction n arbitrary: m io)
  case (Suc n)
  obtain r io1 where f: "map_validate_frame m io = (r, io1)" by (cases "map_validate_frame m io")
  show ?case
  proof (cases r)
    case None
    then show ?thesis using f by simp
  next
    case (Some mv)
    obtain m1 v where mv: "mv = (m1, v)" by (cases mv)
    have io: "reader_ok io" using frame_success_ok [OF Suc.prems] f Some by blast
    obtain bs where bs: "level_view v bs" "reader_ok io1"
      using frame_ok [OF io, of m m1 v io1] f Some mv by blast
    obtain ok lio where l: "socket_command_map_validate_level w h
          (packet_reader_init (view_buffer v) (view_len v) (io_scopes io1)) = Some (ok, lio)"
        "length (io_scopes lio) = length (io_scopes io1)"
      using validate_level_total [OF reader_ok_wf [OF level_view_reader(1) [OF bs(1)]], of w h "io_scopes io1"]
        reader_moves_scopes by (metis init_scopes_length)
    have "reader_wf (io1\<lparr>io_scopes := io_scopes lio\<rparr>)"
      using reader_ok_scopes(1) [OF bs(2) l(2)] by (rule reader_ok_wf)
    from Suc.IH [OF this] show ?thesis using f Some mv l by (auto simp: Let_def)
  qed
qed simp

text \<open>What is read before the levels.\<close>

definition map_command_head :: "u8 mp" where
  "map_command_head =
     mp_bind map_packet_read_uint8 (\<lambda>mapstat.
     mp_then (mp_check (\<not> mapstat > MAP_UPDATE_CMD_CONNECTED))
     (mp_bind (map_validate_header mapstat) (\<lambda>(width, height). map_validate_position width height)))"

lemma map_command_head_good: "mp_good map_command_head"
  unfolding map_command_head_def by (intro mp_intros) (auto simp: split_beta intro: mp_intros)

text \<open>
  The validator returns on every input, whatever the bytes, the offset, the limits and the
  scopes: neither the tile loop nor a length field of the packet can keep it running.
\<close>

theorem map_validate_terminates:
  assumes "buffer_ok data len"
  shows "\<exists>ok scopes'. map_protocol_validate data len pos map_width_limit map_height_limit scopes = Some (ok, scopes')"
proof -
  let ?io = "packet_reader_init_at data len pos scopes"
  obtain r io where h: "map_command_head ?io = (r, io)" by (cases "map_command_head ?io")
  have "reader_move\<^sup>*\<^sup>* ?io io"
    using mp_goodD(1) [OF map_command_head_good packet_reader_init_wf [OF assms], of pos scopes] by (simp add: h)
  then have wf: "reader_wf io" by (rule reader_moves_wf) (rule packet_reader_init_wf [OF assms])
  note unfold = map_protocol_validate_def map_command_head_def [symmetric]
  show ?thesis
  proof (cases r)
    case None
    then show ?thesis using h unfolding unfold by auto
  next
    case (Some lc)
    obtain r' io' where l: "map_validate_levels map_width_limit map_height_limit (unat lc) 0 io = Some (r', io')"
      using levels_total [OF wf] by blast
    show ?thesis using h Some l unfolding unfold by (cases r') (auto simp: split_beta Let_def)
  qed
qed

text \<open>
  C12. Acceptance is a matter of the bytes alone and commands are self-delimiting: if a command is
  accepted, then the same bytes at any address, under any scopes, and with anything appended
  are accepted exactly when nothing was appended.
\<close>

theorem map_validate_self_delimiting:
  assumes acc: "map_protocol_validate (Some (addr, bs)) (length bs) pos w h scopes = Some (True, scopes')"
    and len: "length bs + length x \<le> SIZE_MAX"
  shows "\<exists>scopes2'. map_protocol_validate (Some (addr2, bs @ x)) (length (bs @ x)) pos w h scopes2 = Some (x = [], scopes2')"
proof -
  let ?io = "packet_reader_init_at (Some (addr, bs)) (length bs) pos scopes"
  let ?io2 = "packet_reader_init_at (Some (addr2, bs @ x)) (length (bs @ x)) pos scopes2"
  have guards: "pos \<le> length bs" "\<not> (w \<le> 0 \<or> w > 32 \<or> h \<le> 0 \<or> h > 32)"
    using acc by (auto simp: map_protocol_validate_def split: if_splits)
  have i: "reader_ok ?io" "unread ?io = drop pos bs" "reader_ok ?io2" "unread ?io2 = drop pos bs @ x"
    using guards len packet_reader_init_wf [of "Some (addr, bs)" "length bs" pos scopes]
      packet_reader_init_wf [of "Some (addr2, bs @ x)" "length (bs @ x)" pos scopes2]
    by (simp_all add: reader_ok_def packet_reader_init_at_reader unread_def buf_bytes_def buffer_ok_def)
  obtain lc io1 m io3 where h1: "map_command_head ?io = (Some lc, io1)"
      "map_validate_levels w h (unat lc) 0 io1 = Some (Some m, io3)"
      "fst (packet_reader_finish io3)" "has m (push_bit (MAP2_DEPTH_INDEX 0) 1)"
  proof -
    obtain r io1 where r: "map_command_head ?io = (r, io1)" by (cases "map_command_head ?io")
    note acc' = acc [unfolded map_protocol_validate_def map_command_head_def [symmetric]]
    obtain lc where lc: "r = Some lc" using acc' guards r by (cases r) auto
    obtain l io3 where l: "map_validate_levels w h (unat lc) 0 io1 = Some (l, io3)"
      using acc' guards r lc by (cases "map_validate_levels w h (unat lc) 0 io1") auto
    obtain m where "l = Some m" using acc' guards r lc l by (cases l) auto
    then show ?thesis using acc' guards r lc l by (intro that [of lc io1 m io3]) (simp_all add: split_beta Let_def)
  qed
  have ok1: "reader_ok io1" by (rule mp_goodD(2) [OF map_command_head_good i(1) h1(1)])
  obtain c1 where c1: "unread ?io = c1 @ unread io1" "mp_reads map_command_head lc c1"
    using mp_goodD(3) [OF map_command_head_good i(1) h1(1)] by blast
  obtain c2 where ok3: "reader_ok io3" and c2: "unread io1 = c2 @ unread io3"
      "\<And>io2 rest. reader_ok io2 \<Longrightarrow> unread io2 = c2 @ rest \<Longrightarrow>
        \<exists>io2'. map_validate_levels w h (unat lc) 0 io2 = Some (Some m, io2') \<and> reader_ok io2' \<and> unread io2' = rest"
    using levels_bytes [OF ok1 h1(2)] by blast
  have "unread io3 = []" using finish_iff [OF reader_ok_wf [OF ok3]] h1(3) by simp
  then have u: "unread ?io2 = c1 @ c2 @ x" using i c1(1) c2(1) by simp
  obtain s1 where s1: "map_command_head ?io2 = (Some lc, s1)" "reader_ok s1" "unread s1 = c2 @ x"
    using c1(2) i(3) u unfolding mp_reads_def by blast
  obtain s2 where s2: "map_validate_levels w h (unat lc) 0 s1 = Some (Some m, s2)" "reader_ok s2" "unread s2 = x"
    using c2(2) [OF s1(2,3)] by blast
  have "fst (packet_reader_finish s2) \<longleftrightarrow> x = []"
    using finish_iff [OF reader_ok_wf [OF s2(2)]] s2 by (simp add: reader_ok_def)
  then show ?thesis
    using guards s1(1) s2(1) h1(4) unfolding map_protocol_validate_def map_command_head_def [symmetric]
    by (auto simp: Let_def split_beta)
qed

text \<open>An update on the same map with one empty level at depth 0.\<close>

definition demo_map_command :: bytes where
  "demo_map_command = [0, 5, 6, 0, 1, 0, 0, 0, 0, 2, 0, 2]"

lemma demo_map_accepted:
  "map_protocol_validate (Some (0, demo_map_command)) 12 0 17 17 [] = Some (True, [])"
  by code_simp

theorem map_validate_terminates_witness:
  "\<exists>ok scopes'. map_protocol_validate (Some (0, demo_map_command)) 12 0 17 17 [] = Some (ok, scopes')"
  by (rule map_validate_terminates) (simp add: buffer_ok_def demo_map_command_def SIZE_MAX_def)

theorem map_validate_self_delimiting_witness:
  "\<exists>scopes'. map_protocol_validate (Some (64, demo_map_command @ [0])) 13 0 17 17 [] = Some (False, scopes')"
proof -
  have l: "length demo_map_command = 12" "length (demo_map_command @ [0]) = 13" by (simp_all add: demo_map_command_def)
  have s: "length demo_map_command + length [0 :: u8] \<le> SIZE_MAX" by (simp add: l SIZE_MAX_def)
  show ?thesis
    using map_validate_self_delimiting [OF demo_map_accepted [folded l(1)] s, of 64 "[]"] unfolding l by simp
qed

end
