(* ===== verification/Shstr.thy ===== *)
theory Shstr
  imports Stringbuffer
begin

unbundle bit_operations_syntax

text \<open>
  The shared string table of \<open>src/shstr.c\<close>: a hash table of doubly linked lists of
  reference-counted strings.

  The model keeps the pointers. Addresses are natural numbers, \<open>NULL\<close> is \<open>None\<close>, and the
  heap maps the address of every live \<open>shared_string\<close> to its contents; following a pointer
  to a structure that has been freed has no value. A \<open>shstr\<close>, a pointer into the
  structure, is the address of the structure (\<open>SS\<close> converts one to the other). The union
  \<open>u\<close> is a tagged value: the slot of \<open>hash_table\<close> that points at the structure, or the
  previous structure; in C the top bit of \<open>refcount\<close> tells them apart, and the model keeps
  that bit too. The address that \<open>xmalloc\<close> returns is an argument of \<open>add_string\<close>.

  The last section is the contract of the table, a map from addresses to a string and its
  reference count; \<open>Shstr_Correct\<close> shows that the pointer structure implements it.
\<close>

section \<open>Data\<close>

datatype shstr_link = Array nat | Previous "nat option"

record shared_string =
  ss_u :: shstr_link
  ss_next :: "nat option"
  ss_refcount :: u64
  ss_string :: bytes

record shstr_statistics =
  st_calls :: u32
  st_hashed :: u32
  st_strcmps :: u32
  st_search :: u32
  st_linked :: u32

record shstr_state =
  hash_table :: "nat \<Rightarrow> nat option"
  ss_heap :: "nat \<rightharpoonup> shared_string"
  add_stats :: shstr_statistics
  add_ref_stats :: shstr_statistics
  free_stats :: shstr_statistics
  find_stats :: shstr_statistics
  hash_stats :: shstr_statistics

text \<open>
  The \<open>const char *\<close> that a caller passes: characters of its own, or a pointer that it got
  from the table.
\<close>

datatype shstr_arg = Chars bytes | Shared nat

definition TABLESIZE :: nat where
  "TABLESIZE = 8266"

definition MAXSTRING :: nat where
  "MAXSTRING = 20"

definition TOPBIT :: u64 where
  "TOPBIT = push_bit 63 1"

definition shstr_no_stats :: shstr_statistics where
  "shstr_no_stats = \<lparr>st_calls = 0, st_hashed = 0, st_strcmps = 0, st_search = 0, st_linked = 0\<rparr>"

text \<open>The statics before the module starts and \<open>memset\<close> has cleared the table.\<close>

definition shstr_init :: shstr_state where
  "shstr_init = \<lparr>hash_table = (\<lambda>_. None), ss_heap = Map.empty, add_stats = shstr_no_stats,
     add_ref_stats = shstr_no_stats, free_stats = shstr_no_stats, find_stats = shstr_no_stats,
     hash_stats = shstr_no_stats\<rparr>"

text \<open>The characters an argument points at.\<close>

definition shstr_chars :: "shstr_state \<Rightarrow> shstr_arg \<Rightarrow> bytes option" where
  "shstr_chars st str = (case str of Chars s \<Rightarrow> Some s | Shared p \<Rightarrow> map_option ss_string (ss_heap st p))"


section \<open>Operations\<close>

fun hashstr_loop :: "bytes \<Rightarrow> nat \<Rightarrow> nat \<Rightarrow> u64 \<Rightarrow> u64" where
  "hashstr_loop [] i rot h = h"
| "hashstr_loop (c # cs) i rot h =
     (if \<not> i < MAXSTRING then h
      else let h = h XOR push_bit rot (signed c); rot = rot + 2
        in hashstr_loop cs (Suc i) (if (8 - 1) * 8 \<le> rot then 0 else rot) h)"

definition hash_index :: "bytes \<Rightarrow> nat" where
  "hash_index s = unat (hashstr_loop s 0 0 0 mod of_nat TABLESIZE)"

definition hashstr :: "bytes \<Rightarrow> shstr_state \<Rightarrow> nat \<times> shstr_state" where
  "hashstr s st = (hash_index s, hash_stats_update (st_calls_update (\<lambda>n. n + 1)) st)"

definition new_shared_string :: "bytes \<Rightarrow> shared_string" where
  "new_shared_string s = \<lparr>ss_u = Previous None, ss_next = None, ss_refcount = 1, ss_string = s\<rparr>"

definition ss_increment :: "nat \<Rightarrow> shstr_state \<Rightarrow> shstr_state option" where
  "ss_increment p st = do {
     ss \<leftarrow> ss_heap st p;
     Some (st\<lparr>ss_heap := (ss_heap st)(p \<mapsto> ss\<lparr>ss_refcount := ss_refcount ss + 1\<rparr>)\<rparr>)
   }"

text \<open>
  \<open>str != ss->string && strcmp(ss->string, str)\<close>, which counts the comparison when the
  pointers differ.
\<close>

definition add_string_differs ::
  "shstr_arg \<Rightarrow> bytes \<Rightarrow> nat \<Rightarrow> shared_string \<Rightarrow> shstr_state \<Rightarrow> bool \<times> shstr_state" where
  "add_string_differs str s p ss st =
     (if str = Shared p then (False, st)
      else (ss_string ss \<noteq> s, add_stats_update (st_strcmps_update (\<lambda>n. n + 1)) st))"

text \<open>One iteration of the \<open>while (ss->next)\<close> loop, and the code after it.\<close>

definition add_string_step ::
  "shstr_arg \<Rightarrow> bytes \<Rightarrow> nat \<Rightarrow> nat \<times> shstr_state \<Rightarrow> (nat \<times> shstr_state + nat \<times> shstr_state) option" where
  "add_string_step str s fresh = (\<lambda>(p, st). do {
     ss \<leftarrow> ss_heap st p;
     case ss_next ss of
       Some q \<Rightarrow> do {
         let st = add_stats_update (st_search_update (\<lambda>n. n + 1)) st;
         ssq \<leftarrow> ss_heap st q;
         let (differs, st) = add_string_differs str s q ssq st;
         if differs then Some (Inl (q, st))
         else do {
           st \<leftarrow> ss_increment q (add_stats_update (st_linked_update (\<lambda>n. n + 1)) st);
           Some (Inr (q, st))
         }
       }
     | None \<Rightarrow> do {
         let st = add_stats_update (st_linked_update (\<lambda>n. n + 1)) st;
         let h = (ss_heap st)(fresh \<mapsto> (new_shared_string s)\<lparr>ss_u := Previous (Some p)\<rparr>);
         Some (Inr (fresh, st\<lparr>ss_heap := h(p \<mapsto> ss\<lparr>ss_next := Some fresh\<rparr>)\<rparr>))
       }
   })"

definition add_string :: "nat \<Rightarrow> shstr_arg \<Rightarrow> shstr_state \<Rightarrow> (nat \<times> shstr_state) option" where
  "add_string fresh str st = do {
     let st = add_stats_update (st_calls_update (\<lambda>n. n + 1)) st;
     s \<leftarrow> shstr_chars st str;
     let (ind, st) = hashstr s st;
     case hash_table st ind of
       Some p \<Rightarrow> do {
         ss \<leftarrow> ss_heap st p;
         let (differs, st) = add_string_differs str s p ss st;
         if differs then c_loop (add_string_step str s fresh) (p, st)
         else do {
           st \<leftarrow> ss_increment p (add_stats_update (st_hashed_update (\<lambda>n. n + 1)) st);
           Some (p, st)
         }
       }
     | None \<Rightarrow> do {
         let st = add_stats_update (st_hashed_update (\<lambda>n. n + 1)) st;
         let ss = new_shared_string s;
         let ss = ss\<lparr>ss_refcount := ss_refcount ss OR TOPBIT\<rparr>;
         let ss = ss\<lparr>ss_u := Array ind\<rparr>;
         Some (fresh, st\<lparr>hash_table := (hash_table st)(ind := Some fresh),
                         ss_heap := (ss_heap st)(fresh \<mapsto> ss)\<rparr>)
       }
   }"

definition add_refcount :: "nat \<Rightarrow> shstr_state \<Rightarrow> (nat \<times> shstr_state) option" where
  "add_refcount p st = do {
     st \<leftarrow> ss_increment p (add_ref_stats_update (st_calls_update (\<lambda>n. n + 1)) st);
     Some (p, st)
   }"

text \<open>\<open>query_refcount\<close> returns an \<open>int\<close>: the value is truncated to 32 bits and read as signed.\<close>

definition query_refcount :: "nat \<Rightarrow> shstr_state \<Rightarrow> int option" where
  "query_refcount p st = do {
     ss \<leftarrow> ss_heap st p;
     Some (sint (ucast (ss_refcount ss AND NOT TOPBIT) :: u32))
   }"

definition find_string_step ::
  "bytes \<Rightarrow> nat \<times> shstr_state \<Rightarrow> (nat \<times> shstr_state + nat option \<times> shstr_state) option" where
  "find_string_step s = (\<lambda>(p, st). do {
     ss \<leftarrow> ss_heap st p;
     case ss_next ss of
       None \<Rightarrow> Some (Inr (None, st))
     | Some q \<Rightarrow> do {
         let st = find_stats_update (st_search_update (\<lambda>n. n + 1)) st;
         let st = find_stats_update (st_strcmps_update (\<lambda>n. n + 1)) st;
         ssq \<leftarrow> ss_heap st q;
         if ss_string ssq = s
         then Some (Inr (Some q, find_stats_update (st_linked_update (\<lambda>n. n + 1)) st))
         else Some (Inl (q, st))
       }
   })"

definition find_string :: "shstr_arg \<Rightarrow> shstr_state \<Rightarrow> (nat option \<times> shstr_state) option" where
  "find_string str st = do {
     let st = find_stats_update (st_calls_update (\<lambda>n. n + 1)) st;
     s \<leftarrow> shstr_chars st str;
     let (ind, st) = hashstr s st;
     case hash_table st ind of
       None \<Rightarrow> Some (None, st)
     | Some p \<Rightarrow> do {
         let st = find_stats_update (st_strcmps_update (\<lambda>n. n + 1)) st;
         ss \<leftarrow> ss_heap st p;
         if ss_string ss = s
         then Some (Some p, find_stats_update (st_hashed_update (\<lambda>n. n + 1)) st)
         else c_loop (find_string_step s) (p, st)
       }
   }"

text \<open>\<open>*(ss->u.array) = p\<close> and \<open>ss->u.previous->next = p\<close>: the tag of the union has to fit.\<close>

definition ss_set_array :: "shstr_link \<Rightarrow> nat option \<Rightarrow> shstr_state \<Rightarrow> shstr_state option" where
  "ss_set_array u p st = (case u of
     Array i \<Rightarrow> Some (st\<lparr>hash_table := (hash_table st)(i := p)\<rparr>) | Previous _ \<Rightarrow> None)"

definition ss_set_next :: "shstr_link \<Rightarrow> nat option \<Rightarrow> shstr_state \<Rightarrow> shstr_state option" where
  "ss_set_next u p st = (case u of
     Previous (Some l) \<Rightarrow> do {
       ssl \<leftarrow> ss_heap st l;
       Some (st\<lparr>ss_heap := (ss_heap st)(l \<mapsto> ssl\<lparr>ss_next := p\<rparr>)\<rparr>)
     }
   | _ \<Rightarrow> None)"

definition free_string_shared :: "nat \<Rightarrow> shstr_state \<Rightarrow> shstr_state option" where
  "free_string_shared p st = do {
     let st = free_stats_update (st_calls_update (\<lambda>n. n + 1)) st;
     ss \<leftarrow> ss_heap st p;
     let ss = ss\<lparr>ss_refcount := ss_refcount ss - 1\<rparr>;
     let st = st\<lparr>ss_heap := (ss_heap st)(p \<mapsto> ss)\<rparr>;
     if ss_refcount ss AND NOT TOPBIT = 0 then do {
       st \<leftarrow> (if ss_refcount ss AND TOPBIT \<noteq> 0 then
           (case ss_next ss of
             Some q \<Rightarrow> do {
               st \<leftarrow> ss_set_array (ss_u ss) (Some q) st;
               ssq \<leftarrow> ss_heap st q;
               let ssq = ssq\<lparr>ss_u := ss_u ss\<rparr>;
               let ssq = ssq\<lparr>ss_refcount := ss_refcount ssq OR TOPBIT\<rparr>;
               Some (st\<lparr>ss_heap := (ss_heap st)(q \<mapsto> ssq)\<rparr>)
             }
           | None \<Rightarrow> ss_set_array (ss_u ss) None st)
         else do {
           st \<leftarrow> (case ss_next ss of
               Some q \<Rightarrow> do {
                 ssq \<leftarrow> ss_heap st q;
                 Some (st\<lparr>ss_heap := (ss_heap st)(q \<mapsto> ssq\<lparr>ss_u := ss_u ss\<rparr>)\<rparr>)
               }
             | None \<Rightarrow> Some st);
           ss_set_next (ss_u ss) (ss_next ss) st
         });
       Some (st\<lparr>ss_heap := (ss_heap st)(p := None)\<rparr>)
     }
     else Some st
   }"

definition stringbuffer_finish_shared ::
  "nat \<Rightarrow> StringBuffer \<Rightarrow> shstr_state \<Rightarrow> (nat \<times> shstr_state) option" where
  "stringbuffer_finish_shared fresh sb st = do {
     s \<leftarrow> stringbuffer_finish sb;
     add_string fresh (Chars s) st
   }"


section \<open>The contract\<close>

text \<open>
  What the table promises: a map from the address of every live string to its characters
  and the number of references to it. \<open>shstr_allowed\<close> is the caller's side: the address from
  \<open>xmalloc\<close> is not in use, a pointer passed in is live, and the count does not grow into the
  top bit. \<open>shstr_spec\<close> is the table's side: what an operation returns and how the map changes.
\<close>

type_synonym shstr_map = "nat \<rightharpoonup> bytes \<times> nat"

datatype shstr_op = Add nat shstr_arg | Add_ref nat | Free nat

definition shstr_map_chars :: "shstr_map \<Rightarrow> shstr_arg \<Rightarrow> bytes option" where
  "shstr_map_chars m str = (case str of Chars s \<Rightarrow> Some s | Shared p \<Rightarrow> map_option fst (m p))"

inductive shstr_allowed :: "shstr_map \<Rightarrow> shstr_op \<Rightarrow> bool" where
  allowed_add: "m fresh = None \<Longrightarrow> shstr_map_chars m str = Some s \<Longrightarrow>
    (\<And>p n. m p = Some (s, n) \<Longrightarrow> n + 1 < 2 ^ 63) \<Longrightarrow> shstr_allowed m (Add fresh str)"
| allowed_ref: "m p = Some (s, n) \<Longrightarrow> n + 1 < 2 ^ 63 \<Longrightarrow> shstr_allowed m (Add_ref p)"
| allowed_free: "m p = Some (s, n) \<Longrightarrow> shstr_allowed m (Free p)"

inductive shstr_spec :: "shstr_map \<Rightarrow> shstr_op \<Rightarrow> nat \<Rightarrow> shstr_map \<Rightarrow> bool" where
  spec_found: "shstr_map_chars m str = Some s \<Longrightarrow> m p = Some (s, n) \<Longrightarrow>
    shstr_spec m (Add fresh str) p (m(p \<mapsto> (s, n + 1)))"
| spec_new: "shstr_map_chars m str = Some s \<Longrightarrow> \<nexists>p n. m p = Some (s, n) \<Longrightarrow>
    shstr_spec m (Add fresh str) fresh (m(fresh \<mapsto> (s, 1)))"
| spec_ref: "m p = Some (s, n) \<Longrightarrow> shstr_spec m (Add_ref p) p (m(p \<mapsto> (s, n + 1)))"
| spec_release: "m p = Some (s, n + 1) \<Longrightarrow> 0 < n \<Longrightarrow> shstr_spec m (Free p) p (m(p \<mapsto> (s, n)))"
| spec_drop: "m p = Some (s, 1) \<Longrightarrow> shstr_spec m (Free p) p (m(p := None))"

inductive_cases shstr_allowedE [elim!]:
  "shstr_allowed m (Add fresh str)" "shstr_allowed m (Add_ref p)" "shstr_allowed m (Free p)"

definition shstr_exec :: "shstr_op \<Rightarrow> shstr_state \<Rightarrow> (nat \<times> shstr_state) option" where
  "shstr_exec oper st = (case oper of
     Add fresh str \<Rightarrow> add_string fresh str st
   | Add_ref p \<Rightarrow> add_refcount p st
   | Free p \<Rightarrow> map_option (Pair p) (free_string_shared p st))"

text \<open>The number of references of a structure, and the view of the state as a contract map.\<close>

definition ss_count :: "shared_string \<Rightarrow> nat" where
  "ss_count ss = unat (ss_refcount ss AND NOT TOPBIT)"

definition ss_entry :: "shared_string \<Rightarrow> bytes \<times> nat" where
  "ss_entry ss = (ss_string ss, ss_count ss)"

definition shstr_view :: "shstr_state \<Rightarrow> shstr_map" where
  "shstr_view st p = map_option ss_entry (ss_heap st p)"

inductive shstr_reach :: "shstr_state \<Rightarrow> bool" where
  reach_init: "shstr_reach shstr_init"
| reach_step: "shstr_reach st \<Longrightarrow> shstr_allowed (shstr_view st) oper \<Longrightarrow>
    shstr_exec oper st = Some (r, st') \<Longrightarrow> shstr_reach st'"
| reach_find: "shstr_reach st \<Longrightarrow> find_string str st = Some (r, st') \<Longrightarrow> shstr_reach st'"

end
