(* ===== verification/Shstr_Table.thy ===== *)
theory Shstr_Table
  imports Shstr
begin

unbundle bit_operations_syntax

text \<open>
  The invariant of the shared string table and the updates that keep it: doubly linked
  lists in the heap (\<open>ss_seg\<close>), one per slot of the hash table; the reference count beside
  the top bit in one word; appending, unlinking and recounting.
\<close>

section \<open>Lists in the heap\<close>

text \<open>The pointer structure.\<close>

fun ss_seg :: "(nat \<rightharpoonup> shared_string) \<Rightarrow> shstr_link \<Rightarrow> nat option \<Rightarrow> nat list \<Rightarrow> shstr_link \<Rightarrow> nat option \<Rightarrow> bool" where
  "ss_seg h u p [] u' p' \<longleftrightarrow> u' = u \<and> p' = p"
| "ss_seg h u p (q # qs) u' p' \<longleftrightarrow> p = Some q \<and>
     (\<exists>ss. h q = Some ss \<and> ss_u ss = u \<and> ss_seg h (Previous (Some q)) (ss_next ss) qs u' p')"

lemma ss_seg_append:
  "ss_seg h u p (xs @ ys) u'' p'' \<longleftrightarrow> (\<exists>u' p'. ss_seg h u p xs u' p' \<and> ss_seg h u' p' ys u'' p'')"
  by (induction xs arbitrary: u p) auto

definition ss_links :: "shared_string \<Rightarrow> shstr_link \<times> nat option" where
  "ss_links ss = (ss_u ss, ss_next ss)"

lemma ss_seg_cong:
  assumes "\<And>q. q \<in> set xs \<Longrightarrow> map_option ss_links (h' q) = map_option ss_links (h q)"
  shows "ss_seg h' u p xs u' p' = ss_seg h u p xs u' p'"
  using assms
proof (induction xs arbitrary: u p)
  case Nil
  then show ?case by simp
next
  case (Cons q qs)
  have "map_option ss_links (h' q) = map_option ss_links (h q)" using Cons.prems by simp
  moreover have "ss_seg h' v r qs u' p' = ss_seg h v r qs u' p'" for v r
    using Cons by simp
  ultimately show ?case by (cases "h q"; cases "h' q") (auto simp: ss_links_def)
qed

lemma ss_seg_last:
  "ss_seg h u p (zs @ [l]) u' p' \<longleftrightarrow>
     (\<exists>v ss. ss_seg h u p zs v (Some l) \<and> h l = Some ss \<and> ss_u ss = v \<and>
       ss_next ss = p' \<and> u' = Previous (Some l))"
  by (auto simp: ss_seg_append)

lemma ss_seg_frame: "q \<notin> set xs \<Longrightarrow> ss_seg (h(q := v)) u p xs u' p' = ss_seg h u p xs u' p'"
  by (rule ss_seg_cong) auto

lemma ss_seg_end_link: "ss_seg h u p xs u' p' \<Longrightarrow> xs \<noteq> [] \<Longrightarrow> u' = Previous (Some (last xs))"
  by (induction xs arbitrary: u p) (auto split: if_splits)

lemma ss_seg_live: "ss_seg h u p xs u' p' \<Longrightarrow> q \<in> set xs \<Longrightarrow> \<exists>ss. h q = Some ss"
  by (induction xs arbitrary: u p) auto

text \<open>Unlinking \<open>p\<close> and appending a structure.\<close>

lemma ss_seg_set_head:
  assumes "ss_seg h u p (q # qs) u' p'" "h q = Some ss" "q \<notin> set qs"
  shows "ss_seg (h(q \<mapsto> ss\<lparr>ss_u := v, ss_refcount := r\<rparr>)) v p (q # qs) u' p'"
  using assms by (auto simp: ss_seg_frame)

lemma ss_seg_set_last:
  assumes "ss_seg h u p (zs @ [l]) u' p'" "h l = Some ss" "l \<notin> set zs"
  shows "ss_seg (h(l \<mapsto> ss\<lparr>ss_next := r\<rparr>)) u p (zs @ [l]) u' r"
  using assms by (auto simp: ss_seg_last ss_seg_frame)

text \<open>Counts and the top bit.\<close>

lemma bit_TOPBIT [simp]: "bit TOPBIT n \<longleftrightarrow> n = 63"
proof -
  have "bit TOPBIT n \<longleftrightarrow> 63 \<le> n \<and> possible_bit TYPE(u64) n \<and> bit (1 :: u64) (n - 63)"
    unfolding TOPBIT_def by (rule bit_push_bit_iff)
  then show ?thesis by (auto simp: bit_1_iff)
qed

lemma and_not_TOPBIT: "(r :: u64) AND NOT TOPBIT = take_bit 63 r"
  by (rule bit_word_eqI) (auto simp: bit_simps)

lemma unat_and_not_TOPBIT: "unat ((r :: u64) AND NOT TOPBIT) = unat r mod 2 ^ 63"
proof -
  have "unat (take_bit 63 r) = take_bit 63 (unat r)" by (rule unsigned_take_bit_eq)
  then show ?thesis by (simp only: and_not_TOPBIT take_bit_eq_mod)
qed

lemma refcount_split: "unat r = unat (r AND NOT TOPBIT) + (if bit r 63 then 2 ^ 63 else 0)"
proof -
  have "unat r < 2 ^ 64" using unsigned_less [of r, where ?'a = nat] by simp
  then have "unat r div 2 ^ 63 < 2" by simp
  moreover have "bit (unat r) 63 \<longleftrightarrow> bit r 63" by (simp add: bit_unsigned_iff)
  then have "bit r 63 \<longleftrightarrow> odd (unat r div 2 ^ 63)" by (simp only: bit_iff_odd [of "unat r"])
  ultimately have "unat r div 2 ^ 63 = (if bit r 63 then 1 else 0)" by (auto simp: less_2_cases_iff)
  with unat_and_not_TOPBIT [of r] show ?thesis using div_mult_mod_eq [of "unat r" "2 ^ 63"] by (simp split: if_splits)
qed

lemma refcount_lt: "unat ((r :: u64) AND NOT TOPBIT) < 2 ^ 63"
  by (simp add: unat_and_not_TOPBIT)

lemma refcount_unique:
  assumes "unat r = n + (if b then 2 ^ 63 else 0)" "n < 2 ^ 63"
  shows "unat (r AND NOT TOPBIT) = n \<and> (bit r 63 \<longleftrightarrow> b)"
  using assms refcount_split [of r] refcount_lt [of r] by (auto split: if_splits)

lemma refcount_inc:
  assumes "unat (r AND NOT TOPBIT) + 1 < 2 ^ 63"
  shows "unat ((r + 1) AND NOT TOPBIT) = unat (r AND NOT TOPBIT) + 1 \<and> (bit (r + 1) 63 \<longleftrightarrow> bit r 63)"
proof (rule refcount_unique)
  have "unat r + unat (1 :: u64) < 2 ^ LENGTH(64)"
    using assms refcount_split [of r] by (auto split: if_splits)
  then have "unat (r + 1) = unat r + 1" by (simp only: unat_add_lem [THEN iffD1] unsigned_1)
  then show "unat (r + 1) = unat (r AND NOT TOPBIT) + 1 + (if bit r 63 then 2 ^ 63 else 0)"
    using refcount_split [of r] by simp
qed (use assms in simp)

lemma refcount_dec:
  assumes "0 < unat (r AND NOT TOPBIT)"
  shows "unat ((r - 1) AND NOT TOPBIT) = unat (r AND NOT TOPBIT) - 1 \<and> (bit (r - 1) 63 \<longleftrightarrow> bit r 63)"
proof (rule refcount_unique)
  have "1 \<le> r" using assms refcount_split [of r] by (auto simp: word_le_nat_alt)
  then have "unat (r - 1) = unat r - 1" by (simp add: unat_sub)
  then show "unat (r - 1) = unat (r AND NOT TOPBIT) - 1 + (if bit r 63 then 2 ^ 63 else 0)"
    using refcount_split [of r] assms by simp
qed (use refcount_lt [of r] in simp)

lemma refcount_or_top: "unat ((r OR TOPBIT) AND NOT TOPBIT) = unat (r AND NOT TOPBIT) \<and> bit (r OR TOPBIT) 63"
proof -
  have "(r OR TOPBIT) AND NOT TOPBIT = r AND NOT TOPBIT"
    by (rule bit_word_eqI) (auto simp: bit_simps)
  then show ?thesis by (simp add: bit_simps)
qed

lemma and_TOPBIT: "(r AND TOPBIT \<noteq> 0) \<longleftrightarrow> bit r 63"
proof
  assume "bit r 63"
  then have "bit (r AND TOPBIT) 63" by (simp add: bit_simps)
  then show "r AND TOPBIT \<noteq> 0" by auto
next
  assume "r AND TOPBIT \<noteq> 0"
  then obtain n where "bit (r AND TOPBIT) n" using bit_eq_iff [of "r AND TOPBIT" 0] by auto
  then show "bit r 63" by (auto simp: bit_simps)
qed


section \<open>The invariant\<close>

definition ss_table :: "(nat \<Rightarrow> nat option) \<Rightarrow> (nat \<rightharpoonup> shared_string) \<Rightarrow> (nat \<Rightarrow> nat list) \<Rightarrow> bool" where
  "ss_table T h B \<longleftrightarrow>
     (\<forall>i. distinct (B i) \<and> (\<exists>u. ss_seg h (Array i) (T i) (B i) u None)) \<and>
     (\<forall>i p. p \<in> set (B i) \<longleftrightarrow> (\<exists>ss. h p = Some ss \<and> hash_index (ss_string ss) = i))"

definition ss_counted :: "shared_string \<Rightarrow> bool" where
  "ss_counted ss \<longleftrightarrow> 0 < ss_count ss \<and> (bit (ss_refcount ss) 63 \<longleftrightarrow> (\<exists>i. ss_u ss = Array i))"

definition ss_heap_ok :: "(nat \<rightharpoonup> shared_string) \<Rightarrow> bool" where
  "ss_heap_ok h \<longleftrightarrow> (\<forall>p ss. h p = Some ss \<longrightarrow> ss_counted ss) \<and>
     (\<forall>p q ss ss'. h p = Some ss \<longrightarrow> h q = Some ss' \<longrightarrow> ss_string ss = ss_string ss' \<longrightarrow> p = q)"

definition shstr_wf :: "shstr_state \<Rightarrow> bool" where
  "shstr_wf st \<longleftrightarrow> (\<exists>B. ss_table (hash_table st) (ss_heap st) B) \<and> ss_heap_ok (ss_heap st)"

lemma ss_tableD:
  assumes "ss_table T h B"
  shows "distinct (B i)" "\<exists>u. ss_seg h (Array i) (T i) (B i) u None"
    "p \<in> set (B i) \<longleftrightarrow> (\<exists>ss. h p = Some ss \<and> hash_index (ss_string ss) = i)"
  using assms by (auto simp: ss_table_def)

text \<open>Walking a bucket.\<close>

definition ss_has :: "(nat \<rightharpoonup> shared_string) \<Rightarrow> bytes \<Rightarrow> nat \<Rightarrow> bool" where
  "ss_has h s q \<longleftrightarrow> (\<exists>ss. h q = Some ss \<and> ss_string ss = s)"

definition ss_bump :: "(nat \<rightharpoonup> shared_string) \<Rightarrow> nat \<Rightarrow> (nat \<rightharpoonup> shared_string)" where
  "ss_bump h q = h(q := map_option (\<lambda>ss. ss\<lparr>ss_refcount := ss_refcount ss + 1\<rparr>) (h q))"

definition ss_append :: "nat \<Rightarrow> bytes \<Rightarrow> nat \<Rightarrow> (nat \<rightharpoonup> shared_string) \<Rightarrow> (nat \<rightharpoonup> shared_string)" where
  "ss_append fresh s l h =
     (h(fresh \<mapsto> (new_shared_string s)\<lparr>ss_u := Previous (Some l)\<rparr>))
       (l := map_option (\<lambda>ss. ss\<lparr>ss_next := Some fresh\<rparr>) (h l))"

lemma add_string_differs_eq:
  assumes "shstr_chars st0 str = Some s" "ss_heap st = ss_heap st0" "ss_heap st p = Some ss"
  shows "\<exists>st'. add_string_differs str s p ss st = (ss_string ss \<noteq> s, st') \<and>
    hash_table st' = hash_table st \<and> ss_heap st' = ss_heap st"
  using assms by (auto simp: add_string_differs_def shstr_chars_def split: shstr_arg.splits)

lemma ss_increment_bump:
  assumes "ss_heap st p = Some ss"
  shows "ss_increment p st = Some (st\<lparr>ss_heap := ss_bump (ss_heap st) p\<rparr>)"
  using assms by (simp add: ss_increment_def ss_bump_def)

definition add_string_outcome ::
  "shstr_state \<Rightarrow> bytes \<Rightarrow> nat \<Rightarrow> nat \<Rightarrow> nat list \<Rightarrow> nat \<times> shstr_state \<Rightarrow> bool" where
  "add_string_outcome st s fresh p qs = (\<lambda>(r, st'). hash_table st' = hash_table st \<and>
     (case find (ss_has (ss_heap st) s) qs of
        Some q \<Rightarrow> r = q \<and> ss_heap st' = ss_bump (ss_heap st) q
      | None \<Rightarrow> r = fresh \<and> ss_heap st' = ss_append fresh s (last (p # qs)) (ss_heap st)))"

lemma add_string_walk:
  assumes "ss_seg (ss_heap st) u (Some p) (p # qs) u' None" "shstr_chars st str = Some s"
    "ss_heap st fresh = None"
  shows "\<exists>x. c_loop (add_string_step str s fresh) (p, st) = Some x \<and>
    add_string_outcome st s fresh p qs x"
  using assms
proof (induction qs arbitrary: u p st)
  case Nil
  then obtain ss where ss: "ss_heap st p = Some ss" "ss_next ss = None" by auto
  define st' where "st' = (add_stats_update (st_linked_update (\<lambda>n. n + 1)) st)
    \<lparr>ss_heap := ss_append fresh s p (ss_heap st)\<rparr>"
  have "add_string_step str s fresh (p, st) = Some (Inr (fresh, st'))"
    using ss by (simp add: add_string_step_def ss_append_def st'_def)
  then show ?case
    by (simp add: c_loop_leave add_string_outcome_def st'_def)
next
  case (Cons q qs)
  obtain ss where ss: "ss_heap st p = Some ss" "ss_next ss = Some q"
    using Cons.prems(1) by auto
  obtain v where seg: "ss_seg (ss_heap st) v (Some q) (q # qs) u' None"
    using Cons.prems(1) ss by auto
  then obtain ssq where ssq: "ss_heap st q = Some ssq" by auto
  define st1 where "st1 = add_stats_update (st_search_update (\<lambda>n. n + 1)) st"
  have st1: "ss_heap st1 = ss_heap st" "hash_table st1 = hash_table st" by (simp_all add: st1_def)
  obtain st2 where d: "add_string_differs str s q ssq st1 = (ss_string ssq \<noteq> s, st2)"
    and st2: "hash_table st2 = hash_table st" "ss_heap st2 = ss_heap st"
    using add_string_differs_eq [of st str s st1 q ssq] Cons.prems st1 ssq by auto
  show ?case
  proof (cases "ss_string ssq = s")
    case True
    define st3 where "st3 = add_stats_update (st_linked_update (\<lambda>n. n + 1)) st2"
    have inc: "ss_increment q st3 = Some (st3\<lparr>ss_heap := ss_bump (ss_heap st3) q\<rparr>)"
      using ssq st2 by (simp add: ss_increment_bump st3_def)
    have "add_string_step str s fresh (p, st) = Some (Inr (q, st3\<lparr>ss_heap := ss_bump (ss_heap st3) q\<rparr>))"
      using ss ssq d True inc st1 by (simp add: add_string_step_def flip: st1_def st3_def)
    moreover have "ss_has (ss_heap st) s q" using ssq True by (simp add: ss_has_def)
    ultimately show ?thesis
      using st2 by (simp add: c_loop_leave add_string_outcome_def st3_def)
  next
    case False
    have "add_string_step str s fresh (p, st) = Some (Inl (q, st2))"
      using ss ssq d False st1 by (simp add: add_string_step_def flip: st1_def)
    moreover have no: "\<not> ss_has (ss_heap st) s q" using ssq False by (simp add: ss_has_def)
    moreover have "shstr_chars st2 str = Some s"
      using Cons.prems(2) st2 by (simp add: shstr_chars_def cong: shstr_arg.case_cong)
    moreover from no have "add_string_outcome st s fresh p (q # qs) = add_string_outcome st2 s fresh q qs"
      by (simp add: add_string_outcome_def st2 cong: option.case_cong)
    ultimately show ?thesis
      using Cons.IH [of st2 v q] seg st2 Cons.prems(3) by (simp only: c_loop_continue)
  qed
qed


section \<open>Updates of the table\<close>

lemma ss_table_disjoint: "ss_table T h B \<Longrightarrow> p \<in> set (B i) \<Longrightarrow> j \<noteq> i \<Longrightarrow> p \<notin> set (B j)"
  by (metis ss_tableD(3) option.inject)

lemma ss_table_fresh: "ss_table T h B \<Longrightarrow> h p = None \<Longrightarrow> p \<notin> set (B j)"
  by (simp add: ss_tableD(3))

lemma ss_table_cong:
  assumes "\<And>q. map_option (\<lambda>ss. (ss_links ss, ss_string ss)) (h' q) = map_option (\<lambda>ss. (ss_links ss, ss_string ss)) (h q)"
  shows "ss_table T h' B = ss_table T h B"
proof -
  have l: "map_option ss_links (h' q) = map_option ss_links (h q)" for q
    using assms [of q] by (cases "h q"; cases "h' q") auto
  have "(\<exists>ss. h' q = Some ss \<and> hash_index (ss_string ss) = i) = (\<exists>ss. h q = Some ss \<and> hash_index (ss_string ss) = i)" for q i
    using assms [of q] by (cases "h q"; cases "h' q") auto
  then show ?thesis by (simp add: ss_table_def ss_seg_cong [of _ h' h] l)
qed

lemma ss_table_bump: "ss_table T (ss_bump h q) B = ss_table T h B"
  by (rule ss_table_cong) (auto simp: ss_bump_def ss_links_def option.map_comp comp_def)

lemma ss_table_append:
  assumes t: "ss_table T h B" and fresh: "h fresh = None" and i: "i = hash_index s" and l: "B i = xs @ [l]"
  shows "ss_table T (ss_append fresh s l h) (B(i := B i @ [fresh]))"
proof -
  obtain ssl where ssl: "h l = Some ssl" "hash_index (ss_string ssl) = i"
    using t l ss_tableD(3) [OF t, of l i] by auto
  have nf: "fresh \<notin> set (B j)" for j using ss_table_fresh [OF t fresh] .
  have h: "ss_append fresh s l h = (h(fresh \<mapsto> (new_shared_string s)\<lparr>ss_u := Previous (Some l)\<rparr>))
      (l \<mapsto> ssl\<lparr>ss_next := Some fresh\<rparr>)" (is "_ = ?h'")
    by (simp add: ss_append_def ssl)
  have neq: "fresh \<noteq> l" using fresh ssl by auto
  have lx: "l \<notin> set xs" using ss_tableD(1) [OF t, of i] l by simp
  have "\<exists>u. ss_seg ?h' (Array j) (T j) ((B(i := B i @ [fresh])) j) u None" for j
  proof (cases "j = i")
    case True
    obtain u where "ss_seg h (Array i) (T i) (xs @ [l]) u None" using ss_tableD(2) [OF t, of i] l by auto
    then have "ss_seg (h(fresh \<mapsto> (new_shared_string s)\<lparr>ss_u := Previous (Some l)\<rparr>)) (Array i) (T i) (xs @ [l]) u None"
      using nf [of i] l by (subst ss_seg_frame) auto
    then have "ss_seg ?h' (Array i) (T i) (xs @ [l]) u (Some fresh)" and "u = Previous (Some l)"
      using neq ssl lx by (auto simp: ss_seg_last ss_seg_frame)
    then have "ss_seg ?h' (Array i) (T i) ((xs @ [l]) @ [fresh]) (Previous (Some fresh)) None"
      unfolding ss_seg_append [of _ _ _ "xs @ [l]"] using neq by (auto simp: new_shared_string_def)
    then show ?thesis using True l by auto
  next
    case False
    then have "l \<notin> set (B j)" using ss_table_disjoint [OF t, of l i j] l by simp
    then show ?thesis using nf [of j] False ss_tableD(2) [OF t, of j] by (simp add: ss_seg_frame)
  qed
  moreover have "p \<in> set ((B(i := B i @ [fresh])) j) \<longleftrightarrow> (\<exists>ss. ?h' p = Some ss \<and> hash_index (ss_string ss) = j)" for p j
    using ss_tableD(3) [OF t, of p j] nf [of j] ssl i neq fresh
    by (auto simp: new_shared_string_def l)
  ultimately show ?thesis
    using ss_tableD(1) [OF t] nf by (simp add: ss_table_def h)
qed

lemma ss_table_first:
  assumes t: "ss_table T h B" and fresh: "h fresh = None" and i: "i = hash_index (ss_string ss)" and e: "T i = None"
    and ss: "ss_u ss = Array i" "ss_next ss = None"
  shows "ss_table (T(i \<mapsto> fresh)) (h(fresh \<mapsto> ss)) (B(i := [fresh]))"
proof -
  have B: "B i = []" using ss_tableD(2) [OF t, of i] e by (cases "B i") auto
  have nf: "fresh \<notin> set (B j)" for j using ss_table_fresh [OF t fresh] .
  have "p \<in> set ((B(i := [fresh])) j) \<longleftrightarrow> (\<exists>x. (h(fresh \<mapsto> ss)) p = Some x \<and> hash_index (ss_string x) = j)" for p j
    using ss_tableD(3) [OF t, of p j] nf [of j] i B by auto
  then show ?thesis
    using ss_tableD(1,2) [OF t] nf ss by (auto simp: ss_table_def ss_seg_frame)
qed


text \<open>Taking \<open>p\<close> out of the list \<open>xs @ p # ys\<close>; \<open>f\<close> is what happens to the count of the next structure.\<close>

definition ss_relink_next :: "shared_string \<Rightarrow> (u64 \<Rightarrow> u64) \<Rightarrow> nat list \<Rightarrow> (nat \<rightharpoonup> shared_string) \<Rightarrow> (nat \<rightharpoonup> shared_string)" where
  "ss_relink_next ss f ys h = (case ys of [] \<Rightarrow> h | q # _ \<Rightarrow>
     h(q := map_option (\<lambda>ssq. ssq\<lparr>ss_u := ss_u ss, ss_refcount := f (ss_refcount ssq)\<rparr>) (h q)))"

definition ss_relink_previous :: "shared_string \<Rightarrow> nat list \<Rightarrow> (nat \<rightharpoonup> shared_string) \<Rightarrow> (nat \<rightharpoonup> shared_string)" where
  "ss_relink_previous ss xs h = (if xs = [] then h else
     h(last xs := map_option (\<lambda>ssl. ssl\<lparr>ss_next := ss_next ss\<rparr>) (h (last xs))))"

abbreviation ss_unlink ::
  "shared_string \<Rightarrow> (u64 \<Rightarrow> u64) \<Rightarrow> nat list \<Rightarrow> nat \<Rightarrow> nat list \<Rightarrow> (nat \<rightharpoonup> shared_string) \<Rightarrow> (nat \<rightharpoonup> shared_string)" where
  "ss_unlink ss f xs p ys h \<equiv> (ss_relink_previous ss xs (ss_relink_next ss f ys h))(p := None)"

lemma ss_relink_next_seg:
  assumes "ss_seg h v r ys w None" "distinct ys"
  shows "\<exists>w. ss_seg (ss_relink_next ss f ys h) (ss_u ss) r ys w None"
  using assms by (cases ys) (auto simp: ss_relink_next_def ss_seg_frame)

lemma ss_relink_previous_seg:
  assumes "ss_seg h v r xs w p" "distinct xs"
  shows "ss_seg (ss_relink_previous ss xs h) v (if xs = [] then ss_next ss else r) xs w (ss_next ss) \<or> xs = []"
proof (cases xs rule: rev_cases)
  case (snoc zs l)
  then obtain ssl where "h l = Some ssl" using assms(1) by (auto simp: ss_seg_append)
  then show ?thesis using assms snoc by (auto simp: ss_relink_previous_def ss_seg_last ss_seg_frame)
qed simp

lemma ss_relink_other:
  "q \<notin> set ys \<Longrightarrow> ss_relink_next ss f ys h q = h q"
  "q \<notin> set xs \<Longrightarrow> ss_relink_previous ss xs h q = h q"
  by (auto simp: ss_relink_next_def ss_relink_previous_def split: list.splits)

lemma ss_relink_frame:
  "set zs \<inter> set ys = {} \<Longrightarrow> ss_seg (ss_relink_next ss f ys h) v r zs w r' = ss_seg h v r zs w r'"
  "set zs \<inter> set xs = {} \<Longrightarrow> ss_seg (ss_relink_previous ss xs h) v r zs w r' = ss_seg h v r zs w r'"
  by (rule ss_seg_cong, subst ss_relink_other, blast, rule refl)+

lemma ss_seg_unlink:
  assumes seg: "ss_seg h v r (xs @ p # ys) w None" and d: "distinct (xs @ p # ys)" and p: "h p = Some ss"
  shows "\<exists>w. ss_seg (ss_unlink ss f xs p ys h) v (if xs = [] then ss_next ss else r) (xs @ ys) w None"
proof -
  from seg p have x: "ss_seg h v r xs (ss_u ss) (Some p)" and y: "ss_seg h (Previous (Some p)) (ss_next ss) ys w None"
    by (auto simp: ss_seg_append)
  define h1 where "h1 = ss_relink_next ss f ys h"
  define h2 where "h2 = ss_relink_previous ss xs h1"
  obtain w' where "ss_seg h1 (ss_u ss) (ss_next ss) ys w' None"
    using ss_relink_next_seg [OF y] d unfolding h1_def by (metis distinct_append distinct.simps(2))
  then have y2: "ss_seg h2 (ss_u ss) (ss_next ss) ys w' None"
    unfolding h2_def using d by (subst ss_relink_frame(2)) auto
  have "ss_seg h1 v r xs (ss_u ss) (Some p)"
    unfolding h1_def using d x by (subst ss_relink_frame(1)) auto
  then have x2: "ss_seg h2 v (if xs = [] then ss_next ss else r) xs (ss_u ss) (ss_next ss)"
    using ss_relink_previous_seg [of h1 v r xs "ss_u ss" "Some p" ss] d
    unfolding h2_def by (cases "xs = []") (auto simp: ss_relink_previous_def)
  have "ss_seg h2 v (if xs = [] then ss_next ss else r) (xs @ ys) w' None"
    unfolding ss_seg_append using x2 y2 by blast
  moreover have "p \<notin> set (xs @ ys)" using d by auto
  ultimately show ?thesis unfolding h2_def [symmetric] h1_def [symmetric] by (metis ss_seg_frame)
qed

lemma ss_relink_string:
  "map_option ss_string (ss_relink_next ss f ys h q) = map_option ss_string (h q)"
  "map_option ss_string (ss_relink_previous ss xs h q) = map_option ss_string (h q)"
  by (auto simp: ss_relink_next_def ss_relink_previous_def option.map_comp comp_def split: list.splits)

lemma ss_table_unlink:
  assumes t: "ss_table T h B" and p: "h p = Some ss" and i: "i = hash_index (ss_string ss)" and B: "B i = xs @ p # ys"
  shows "ss_table (if xs = [] then T(i := ss_next ss) else T) (ss_unlink ss f xs p ys h) (B(i := xs @ ys))"
proof -
  let ?h' = "ss_unlink ss f xs p ys h" and ?T' = "if xs = [] then T(i := ss_next ss) else T"
  have d: "distinct (xs @ p # ys)" using ss_tableD(1) [OF t, of i] B by simp
  have "\<exists>u. ss_seg ?h' (Array j) (?T' j) ((B(i := xs @ ys)) j) u None" for j
  proof (cases "j = i")
    case True
    obtain u where "ss_seg h (Array i) (T i) (xs @ p # ys) u None" using ss_tableD(2) [OF t, of i] B by auto
    then show ?thesis using ss_seg_unlink [of h "Array i" "T i" xs p ys u ss f] d p True by (cases "xs = []") auto
  next
    case False
    have "set (B j) \<inter> set (B i) = {}" using ss_table_disjoint [OF t] False by blast
    then have "ss_seg ?h' (Array j) (T j) (B j) u None = ss_seg h (Array j) (T j) (B j) u None" for u
      by (subst ss_seg_frame; (subst ss_relink_frame)?; (subst ss_relink_frame)?) (auto simp: B)
    then show ?thesis using ss_tableD(2) [OF t, of j] False by (cases "xs = []") auto
  qed
  moreover have "q \<in> set ((B(i := xs @ ys)) j) \<longleftrightarrow> (\<exists>x. ?h' q = Some x \<and> hash_index (ss_string x) = j)" for q j
  proof (cases "q = p")
    case True
    then show ?thesis using d ss_tableD(3) [OF t, of p j] p i by auto
  next
    case False
    have "map_option ss_string (?h' q) = map_option ss_string (h q)"
      using False by (simp add: ss_relink_string)
    then have "(\<exists>x. ?h' q = Some x \<and> hash_index (ss_string x) = j) = (\<exists>x. h q = Some x \<and> hash_index (ss_string x) = j)"
      by (cases "?h' q"; cases "h q") auto
    then show ?thesis using ss_tableD(3) [OF t, of q j] False B by auto
  qed
  ultimately show ?thesis using ss_tableD(1) [OF t] d by (auto simp: ss_table_def)
qed


section \<open>Updates of the counts\<close>

definition ss_view :: "(nat \<rightharpoonup> shared_string) \<Rightarrow> shstr_map" where
  "ss_view h p = map_option ss_entry (h p)"

lemma shstr_view_eq: "shstr_view st = ss_view (ss_heap st)"
  by (simp add: fun_eq_iff shstr_view_def ss_view_def)

lemma ss_view_update: "ss_view (h(p := x)) = (ss_view h)(p := map_option ss_entry x)"
  by (simp add: fun_eq_iff ss_view_def)

lemma ss_heap_okD:
  assumes "ss_heap_ok h" "h p = Some ss"
  shows "0 < ss_count ss" "bit (ss_refcount ss) 63 \<longleftrightarrow> (\<exists>i. ss_u ss = Array i)"
    "h q = Some ss' \<Longrightarrow> ss_string ss' = ss_string ss \<Longrightarrow> q = p"
  using assms by (auto simp: ss_heap_ok_def ss_counted_def)

lemma ss_heap_ok_update:
  assumes "ss_heap_ok h" "ss_counted ss"
    "\<And>q ss'. h q = Some ss' \<Longrightarrow> q \<noteq> p \<Longrightarrow> ss_string ss' \<noteq> ss_string ss"
  shows "ss_heap_ok (h(p \<mapsto> ss))"
  unfolding ss_heap_ok_def
proof (intro conjI allI impI)
  fix q r x y
  assume "(h(p \<mapsto> ss)) q = Some x" "(h(p \<mapsto> ss)) r = Some y" "ss_string x = ss_string y"
  then show "q = r"
    using assms(3) [of q x] assms(3) [of r y] assms(1) by (auto simp: ss_heap_ok_def split: if_splits)
qed (use assms in \<open>auto simp: ss_heap_ok_def split: if_splits\<close>)

lemma ss_heap_ok_same:
  assumes "ss_heap_ok h" "h p = Some ss" "ss_counted ss'" "ss_string ss' = ss_string ss"
  shows "ss_heap_ok (h(p \<mapsto> ss'))"
  using assms by (intro ss_heap_ok_update) (auto dest: ss_heap_okD(3))

lemma ss_heap_ok_remove: "ss_heap_ok h \<Longrightarrow> ss_heap_ok (h(p := None))"
  by (auto simp: ss_heap_ok_def)

lemma ss_bump_ok:
  assumes ok: "ss_heap_ok h" and p: "h p = Some ss" and n: "ss_count ss + 1 < 2 ^ 63"
  shows "ss_heap_ok (ss_bump h p)" "ss_view (ss_bump h p) = (ss_view h)(p \<mapsto> (ss_string ss, ss_count ss + 1))"
proof -
  define ss' where "ss' = ss\<lparr>ss_refcount := ss_refcount ss + 1\<rparr>"
  have c: "ss_count ss' = ss_count ss + 1" "bit (ss_refcount ss') 63 = bit (ss_refcount ss) 63"
    using refcount_inc [of "ss_refcount ss"] n by (simp_all add: ss'_def ss_count_def)
  have b: "ss_bump h p = h(p \<mapsto> ss')" by (simp add: ss_bump_def p ss'_def)
  have "ss_counted ss'" using c ss_heap_okD(2) [OF ok p] by (simp add: ss_counted_def) (simp add: ss'_def)
  then show "ss_heap_ok (ss_bump h p)" unfolding b by (rule ss_heap_ok_same [OF ok p]) (simp add: ss'_def)
  show "ss_view (ss_bump h p) = (ss_view h)(p \<mapsto> (ss_string ss, ss_count ss + 1))"
    using c by (simp add: b ss_view_update ss_entry_def) (simp add: ss'_def)
qed

lemma ss_append_ok:
  assumes ok: "ss_heap_ok h" and fresh: "h fresh = None" and l: "h l = Some ssl"
    and new: "\<And>q ss. h q = Some ss \<Longrightarrow> ss_string ss \<noteq> s"
  shows "ss_heap_ok (ss_append fresh s l h)" "ss_view (ss_append fresh s l h) = (ss_view h)(fresh \<mapsto> (s, 1))"
proof -
  define ss where "ss = (new_shared_string s)\<lparr>ss_u := Previous (Some l)\<rparr>"
  define ssl' where "ssl' = ssl\<lparr>ss_next := Some fresh\<rparr>"
  have a: "ss_append fresh s l h = (h(fresh \<mapsto> ss))(l \<mapsto> ssl')"
    by (simp add: ss_append_def l ss_def ssl'_def)
  have one: "(1 :: u64) AND NOT TOPBIT = 1" "\<not> bit (1 :: u64) 63"
    by (simp_all add: TOPBIT_def bit_1_iff)
  have neq: "l \<noteq> fresh" using fresh l by auto
  have "ss_counted ss" using one by (simp add: ss_counted_def ss_def ss_count_def new_shared_string_def)
  then have 1: "ss_heap_ok (h(fresh \<mapsto> ss))"
    using new by (intro ss_heap_ok_update [OF ok]) (auto simp: ss_def new_shared_string_def)
  have "ss_counted ssl'"
    using ss_heap_okD(1,2) [OF ok l] by (simp add: ss_counted_def ssl'_def ss_count_def)
  then show "ss_heap_ok (ss_append fresh s l h)"
    unfolding a using neq l by (intro ss_heap_ok_same [OF 1]) (auto simp: ssl'_def)
  have "ss_entry ss = (s, 1)" using one by (simp add: ss_entry_def ss_def ss_count_def new_shared_string_def)
  moreover have "Some (ss_entry ssl') = ss_view h l"
    by (simp add: ss_entry_def ss_view_def l ssl'_def ss_count_def)
  ultimately show "ss_view (ss_append fresh s l h) = (ss_view h)(fresh \<mapsto> (s, 1))"
    using neq by (auto simp: a ss_view_update fun_eq_iff)
qed

lemma ss_first_ok:
  assumes ok: "ss_heap_ok h" and fresh: "h fresh = None"
    and new: "\<And>q ss. h q = Some ss \<Longrightarrow> ss_string ss \<noteq> s"
    and ss: "ss = (new_shared_string s)\<lparr>ss_refcount := 1 OR TOPBIT, ss_u := Array i\<rparr>"
  shows "ss_heap_ok (h(fresh \<mapsto> ss))" "ss_view (h(fresh \<mapsto> ss)) = (ss_view h)(fresh \<mapsto> (s, 1))"
proof -
  have c: "ss_count ss = 1" "bit (ss_refcount ss) 63"
    using refcount_or_top [of 1] by (simp_all add: ss ss_count_def TOPBIT_def)
  then have "ss_counted ss" by (simp add: ss_counted_def) (simp add: ss)
  then show "ss_heap_ok (h(fresh \<mapsto> ss))"
    using new by (intro ss_heap_ok_update [OF ok]) (auto simp: ss new_shared_string_def)
  show "ss_view (h(fresh \<mapsto> ss)) = (ss_view h)(fresh \<mapsto> (s, 1))"
    using c by (simp add: ss_view_update ss_entry_def) (simp add: ss new_shared_string_def)
qed


lemma ss_recount:
  assumes "ss_heap_ok h" "h q = Some ss" "ss_counted ss'" "ss_entry ss' = ss_entry ss"
  shows "ss_heap_ok (h(q \<mapsto> ss'))" "ss_view (h(q \<mapsto> ss')) = ss_view h"
  using assms by (auto simp: ss_heap_ok_same ss_entry_def ss_view_def fun_eq_iff)

lemma ss_relink_next_ok:
  assumes ok: "ss_heap_ok h" and p: "h p = Some ss" and seg: "ss_seg h (Previous (Some p)) r ys w None"
    and f: "f = (if \<exists>i. ss_u ss = Array i then \<lambda>r. r OR TOPBIT else (\<lambda>r. r))"
  shows "ss_heap_ok (ss_relink_next ss f ys h)" "ss_view (ss_relink_next ss f ys h) = ss_view h"
proof -
  have "ss_heap_ok (ss_relink_next ss f ys h) \<and> ss_view (ss_relink_next ss f ys h) = ss_view h"
  proof (cases ys)
    case Nil
    then show ?thesis using ok by (simp add: ss_relink_next_def)
  next
    case (Cons q qs)
    then obtain ssq where q: "h q = Some ssq" "ss_u ssq = Previous (Some p)" using seg by auto
    define ssq' where "ssq' = ssq\<lparr>ss_u := ss_u ss, ss_refcount := f (ss_refcount ssq)\<rparr>"
    have c: "ss_count ssq' = ss_count ssq" "bit (ss_refcount ssq') 63 \<longleftrightarrow> (\<exists>i. ss_u ss = Array i)"
      using refcount_or_top [of "ss_refcount ssq"] ss_heap_okD(2) [OF ok q(1)] q(2)
      by (simp_all add: ssq'_def f ss_count_def)
    have "ss_counted ssq'" "ss_entry ssq' = ss_entry ssq"
      using c ss_heap_okD(1) [OF ok q(1)] by (simp_all add: ss_counted_def ss_entry_def) (simp_all add: ssq'_def)
    then show ?thesis
      using ss_recount [OF ok q(1)] Cons q(1) by (simp add: ss_relink_next_def flip: ssq'_def)
  qed
  then show "ss_heap_ok (ss_relink_next ss f ys h)" "ss_view (ss_relink_next ss f ys h) = ss_view h" by auto
qed

lemma ss_relink_previous_ok:
  assumes ok: "ss_heap_ok h" and live: "xs \<noteq> [] \<Longrightarrow> h (last xs) \<noteq> None"
  shows "ss_heap_ok (ss_relink_previous ss xs h)" "ss_view (ss_relink_previous ss xs h) = ss_view h"
proof -
  have "ss_heap_ok (ss_relink_previous ss xs h) \<and> ss_view (ss_relink_previous ss xs h) = ss_view h"
  proof (cases "xs = []")
    case True
    then show ?thesis using ok by (simp add: ss_relink_previous_def)
  next
    case False
    then obtain l where l: "h (last xs) = Some l" using live by auto
    have "ss_counted (l\<lparr>ss_next := ss_next ss\<rparr>)" "ss_entry (l\<lparr>ss_next := ss_next ss\<rparr>) = ss_entry l"
      using ss_heap_okD(1,2) [OF ok l] by (auto simp: ss_counted_def ss_entry_def ss_count_def)
    then show ?thesis
      using ss_recount [OF ok l] False l by (simp add: ss_relink_previous_def)
  qed
  then show "ss_heap_ok (ss_relink_previous ss xs h)" "ss_view (ss_relink_previous ss xs h) = ss_view h" by auto
qed

lemma ss_unlink_ok:
  assumes ok: "ss_heap_ok h" and p: "h p = Some ss" and seg: "ss_seg h v r (xs @ p # ys) w None"
    and f: "f = (if \<exists>i. ss_u ss = Array i then \<lambda>r. r OR TOPBIT else (\<lambda>r. r))"
  shows "ss_heap_ok (ss_unlink ss f xs p ys h)" "ss_view (ss_unlink ss f xs p ys h) = (ss_view h)(p := None)"
proof -
  obtain w' where "ss_seg h (Previous (Some p)) (ss_next ss) ys w' None"
    using seg p by (auto simp: ss_seg_append)
  note next_ok = ss_relink_next_ok [OF ok p this f]
  have "ss_relink_next ss f ys h q = None \<longleftrightarrow> h q = None" for q
    using ss_relink_string(1) [of ss f ys h q] by (cases "h q") auto
  moreover have "xs \<noteq> [] \<Longrightarrow> h (last xs) \<noteq> None"
    using ss_seg_live [OF seg, of "last xs"] by simp
  ultimately have live: "xs \<noteq> [] \<Longrightarrow> ss_relink_next ss f ys h (last xs) \<noteq> None" by simp
  note previous_ok = ss_relink_previous_ok [OF next_ok(1) live, of ss]
  show "ss_heap_ok (ss_unlink ss f xs p ys h)" by (rule ss_heap_ok_remove) (rule previous_ok)
  show "ss_view (ss_unlink ss f xs p ys h) = (ss_view h)(p := None)"
    by (simp add: ss_view_update previous_ok(2) next_ok(2))
qed

end
