(* ===== verification/Shstr_Correct.thy ===== *)
theory Shstr_Correct
  imports Shstr_Table "HOL-Library.Code_Target_Nat"
begin

unbundle bit_operations_syntax

text \<open>
  The shared string table implements its contract: every operation that a caller may make
  in a reachable state succeeds and does what \<open>shstr_spec\<close> says.
\<close>

section \<open>The operations keep the contract\<close>

definition shstr_conforms :: "shstr_state \<Rightarrow> shstr_op \<Rightarrow> nat \<times> shstr_state \<Rightarrow> bool" where
  "shstr_conforms st oper = (\<lambda>(r, st').
     shstr_wf st' \<and> shstr_spec (shstr_view st) oper r (shstr_view st'))"

lemma shstr_wf_cong: "hash_table st' = hash_table st \<Longrightarrow> ss_heap st' = ss_heap st \<Longrightarrow> shstr_wf st' = shstr_wf st"
  by (simp add: shstr_wf_def)

lemma shstr_chars_view: "shstr_chars st str = shstr_map_chars (shstr_view st) str"
  by (simp add: shstr_chars_def shstr_map_chars_def shstr_view_def ss_entry_def option.map_comp comp_def
      split: shstr_arg.splits)

lemma ss_view_Some: "ss_view h p = Some (s, n) \<longleftrightarrow> (\<exists>ss. h p = Some ss \<and> ss_string ss = s \<and> ss_count ss = n)"
  by (auto simp: ss_view_def ss_entry_def)

text \<open>The bucket of a string holds its structure, if there is one.\<close>

lemma bucket_find:
  assumes "ss_table T h B"
  shows "(case find (ss_has h s) (B (hash_index s)) of Some q \<Rightarrow> ss_has h s q | None \<Rightarrow> \<not> (\<exists>q. ss_has h s q))"
  using assms ss_tableD(3) [OF assms, of _ "hash_index s"]
  by (auto simp: ss_has_def find_None_iff find_Some_iff split: option.splits)

lemma bump_conforms:
  assumes wf: "shstr_wf st" and allowed: "shstr_allowed (shstr_view st) (Add fresh str)"
    and s: "shstr_chars st str = Some s" and q: "ss_has (ss_heap st) s q"
    and st': "hash_table st' = hash_table st" "ss_heap st' = ss_bump (ss_heap st) q"
  shows "shstr_conforms st (Add fresh str) (q, st')"
proof -
  obtain ss where ss: "ss_heap st q = Some ss" "ss_string ss = s" using q by (auto simp: ss_has_def)
  then have v: "shstr_view st q = Some (s, ss_count ss)" by (simp add: shstr_view_eq ss_view_Some)
  have "ss_count ss + 1 < 2 ^ 63"
    using allowed v s by (auto simp: shstr_chars_view)
  note bump = ss_bump_ok [of "ss_heap st", OF _ ss(1) this]
  have "shstr_wf st'" using wf bump by (auto simp: shstr_wf_def st' ss_table_bump)
  moreover have "shstr_view st' = (shstr_view st)(q \<mapsto> (s, ss_count ss + 1))"
    using wf bump ss by (simp add: shstr_view_eq st' shstr_wf_def)
  ultimately show ?thesis
    using spec_found [of "shstr_view st" str s q "ss_count ss" fresh] v s
    by (simp add: shstr_conforms_def shstr_chars_view)
qed

lemma new_conforms:
  assumes st': "shstr_wf st'" "shstr_view st' = (shstr_view st)(fresh \<mapsto> (s, 1))"
    and s: "shstr_chars st str = Some s" and new: "\<not> (\<exists>q. ss_has (ss_heap st) s q)"
  shows "shstr_conforms st (Add fresh str) (fresh, st')"
proof -
  have "\<nexists>p n. shstr_view st p = Some (s, n)" using new by (auto simp: shstr_view_eq ss_view_Some ss_has_def)
  then show ?thesis using spec_new [of "shstr_view st" str s fresh] st' s
    by (simp add: shstr_conforms_def shstr_chars_view)
qed

lemma add_first_conforms:
  assumes wf: "shstr_wf st" and fresh: "ss_heap st fresh = None" and s: "shstr_chars st str = Some s"
    and None: "hash_table st (hash_index s) = None"
    and ss: "ss = (new_shared_string s)\<lparr>ss_refcount := 1 OR TOPBIT, ss_u := Array (hash_index s)\<rparr>"
    and st': "hash_table st' = (hash_table st)(hash_index s \<mapsto> fresh)" "ss_heap st' = (ss_heap st)(fresh \<mapsto> ss)"
  shows "shstr_conforms st (Add fresh str) (fresh, st')"
proof -
  obtain B where t: "ss_table (hash_table st) (ss_heap st) B" and ok: "ss_heap_ok (ss_heap st)"
    using wf by (auto simp: shstr_wf_def)
  have "B (hash_index s) = []"
    using ss_tableD(2) [OF t, of "hash_index s"] None by (cases "B (hash_index s)") auto
  then have new: "\<not> (\<exists>q. ss_has (ss_heap st) s q)" using bucket_find [OF t, of s] by simp
  then have first: "ss_heap_ok ((ss_heap st)(fresh \<mapsto> ss))"
    "ss_view ((ss_heap st)(fresh \<mapsto> ss)) = (ss_view (ss_heap st))(fresh \<mapsto> (s, 1))"
    using ss_first_ok [OF ok fresh _ ss] by (auto simp: ss_has_def)
  have "ss_table ((hash_table st)(hash_index s \<mapsto> fresh)) ((ss_heap st)(fresh \<mapsto> ss)) (B(hash_index s := [fresh]))"
    using None by (intro ss_table_first [OF t fresh]) (simp_all add: ss new_shared_string_def)
  then show ?thesis
    using first by (intro new_conforms [OF _ _ s new]) (auto simp: shstr_wf_def st' shstr_view_eq)
qed

lemma add_walk_conforms:
  assumes wf: "shstr_wf st" and allowed: "shstr_allowed (shstr_view st) (Add fresh str)"
    and fresh: "ss_heap st fresh = None" and s: "shstr_chars st str = Some s"
    and t: "ss_table (hash_table st) (ss_heap st) B" and B: "B (hash_index s) = p # qs"
    and p: "\<not> ss_has (ss_heap st) s p" and out: "add_string_outcome st s fresh p qs (r, st')"
  shows "shstr_conforms st (Add fresh str) (r, st')"
proof (cases "find (ss_has (ss_heap st) s) qs")
  case None
  have ok: "ss_heap_ok (ss_heap st)" using wf by (simp add: shstr_wf_def)
  define l where "l = last (p # qs)"
  have new: "\<not> (\<exists>q. ss_has (ss_heap st) s q)" using None bucket_find [OF t, of s] B p by simp
  have r: "r = fresh" "hash_table st' = hash_table st" "ss_heap st' = ss_append fresh s l (ss_heap st)"
    using out None unfolding l_def by (auto simp: add_string_outcome_def)
  have l: "B (hash_index s) = butlast (p # qs) @ [l]" using B by (simp add: l_def)
  have "l \<in> set (B (hash_index s))" using l by simp
  then obtain ssl where ssl: "ss_heap st l = Some ssl" using ss_tableD(3) [OF t, of l "hash_index s"] by blast
  have none: "\<And>q ss. ss_heap st q = Some ss \<Longrightarrow> ss_string ss \<noteq> s" using new by (auto simp: ss_has_def)
  note ap = ss_append_ok [OF ok fresh ssl none]
  have "ss_table (hash_table st) (ss_append fresh s l (ss_heap st)) (B(hash_index s := B (hash_index s) @ [fresh]))"
    by (rule ss_table_append [OF t fresh refl l])
  then show ?thesis unfolding r(1)
    using ap by (intro new_conforms [OF _ _ s new]) (auto simp: shstr_wf_def r shstr_view_eq)
next
  case (Some q)
  then have "r = q" "hash_table st' = hash_table st" "ss_heap st' = ss_bump (ss_heap st) q"
    using out by (simp_all add: add_string_outcome_def)
  moreover have "ss_has (ss_heap st) s q" using Some by (auto simp: find_Some_iff)
  ultimately show ?thesis using bump_conforms [OF wf allowed s] by simp
qed

lemma add_string_conforms:
  assumes wf: "shstr_wf st" and allowed: "shstr_allowed (shstr_view st) (Add fresh str)"
  shows "\<exists>x. add_string fresh str st = Some x \<and> shstr_conforms st (Add fresh str) x"
proof -
  obtain s where s: "shstr_chars st str = Some s" and fresh: "ss_heap st fresh = None"
    using allowed by (auto simp: shstr_chars_view) (simp add: shstr_view_def)
  obtain B where t: "ss_table (hash_table st) (ss_heap st) B" using wf by (auto simp: shstr_wf_def)
  define st1 where "st1 = snd (hashstr s (add_stats_update (st_calls_update (\<lambda>n. n + 1)) st))"
  have st1: "hash_table st1 = hash_table st" "ss_heap st1 = ss_heap st" by (simp_all add: st1_def hashstr_def)
  have chars: "ss_heap st' = ss_heap st \<Longrightarrow> shstr_chars st' str = Some s" for st'
    using s by (simp add: shstr_chars_def cong: shstr_arg.case_cong)
  have h: "hashstr s (add_stats_update (st_calls_update (\<lambda>n. n + 1)) st) = (hash_index s, st1)"
    by (simp add: st1_def hashstr_def)
  show ?thesis
  proof (cases "hash_table st (hash_index s)")
    case None
    define ss where "ss = (new_shared_string s)\<lparr>ss_refcount := 1 OR TOPBIT, ss_u := Array (hash_index s)\<rparr>"
    show ?thesis
      using h chars None st1 add_first_conforms [OF wf fresh s None ss_def]
      by (simp add: add_string_def Let_def ss_def new_shared_string_def)
  next
    case (Some p)
    obtain u where seg: "ss_seg (ss_heap st) (Array (hash_index s)) (Some p) (B (hash_index s)) u None"
      using ss_tableD(2) [OF t, of "hash_index s"] Some by auto
    then obtain qs where B: "B (hash_index s) = p # qs" by (cases "B (hash_index s)") auto
    then obtain ss where ss: "ss_heap st p = Some ss" using seg by auto
    obtain st2 where d: "add_string_differs str s p ss st1 = (ss_string ss \<noteq> s, st2)"
      and st2: "hash_table st2 = hash_table st" "ss_heap st2 = ss_heap st"
      using add_string_differs_eq [of st1 str s st1 p ss] st1 chars ss by auto
    show ?thesis
    proof (cases "ss_string ss = s")
      case True
      then show ?thesis
        using h chars Some st1 ss d st2 bump_conforms [OF wf allowed s, of p]
        by (simp add: add_string_def Let_def ss_increment_bump ss_has_def)
    next
      case False
      obtain r st' where w: "c_loop (add_string_step str s fresh) (p, st2) = Some (r, st')"
        and out: "add_string_outcome st2 s fresh p qs (r, st')"
        using add_string_walk [of st2 "Array (hash_index s)" p qs u str s fresh] seg B chars st2 fresh by auto
      have "add_string_outcome st s fresh p qs (r, st')"
        using out by (simp add: add_string_outcome_def st2 cong: option.case_cong)
      with False ss have "shstr_conforms st (Add fresh str) (r, st')"
        by (intro add_walk_conforms [OF wf allowed fresh s t B]) (auto simp: ss_has_def)
      then show ?thesis
        using h chars Some st1 ss d False w by (simp add: add_string_def Let_def)
    qed
  qed
qed


lemma add_refcount_conforms:
  assumes wf: "shstr_wf st" and allowed: "shstr_allowed (shstr_view st) (Add_ref p)"
  shows "\<exists>x. add_refcount p st = Some x \<and> shstr_conforms st (Add_ref p) x"
proof -
  obtain ss where ss: "ss_heap st p = Some ss" "ss_count ss + 1 < 2 ^ 63"
    using allowed by (auto simp: shstr_view_eq ss_view_Some)
  have v: "shstr_view st p = Some (ss_string ss, ss_count ss)" using ss by (simp add: shstr_view_eq ss_view_Some)
  have "ss_heap_ok (ss_heap st)" using wf by (simp add: shstr_wf_def)
  note bump = ss_bump_ok [OF this ss]
  define st' where "st' = (add_ref_stats_update (st_calls_update (\<lambda>n. n + 1)) st)\<lparr>ss_heap := ss_bump (ss_heap st) p\<rparr>"
  have "add_refcount p st = Some (p, st')"
    using ss by (simp add: add_refcount_def ss_increment_bump st'_def)
  moreover have "shstr_wf st'" using wf bump by (simp add: shstr_wf_def st'_def ss_table_bump)
  moreover have "shstr_view st' = (shstr_view st)(p \<mapsto> (ss_string ss, ss_count ss + 1))"
    using bump by (simp add: shstr_view_eq st'_def)
  ultimately show ?thesis using spec_ref [of "shstr_view st", OF v] by (simp add: shstr_conforms_def)
qed

text \<open>The last reference: \<open>free_string_shared\<close> takes the structure out of its list.\<close>

lemma free_string_head:
  assumes ss: "ss_heap st p = Some ss" and c: "(ss_refcount ss - 1) AND NOT TOPBIT = 0" "bit (ss_refcount ss - 1) 63"
    and seg: "ss_seg (ss_heap st) (Array i) r (p # ys) w None" and d: "distinct (p # ys)"
  shows "\<exists>st'. free_string_shared p st = Some st' \<and> hash_table st' = (hash_table st)(i := ss_next ss) \<and>
    ss_heap st' = ss_unlink ss (\<lambda>r. r OR TOPBIT) [] p ys (ss_heap st)"
proof -
  have u: "ss_u ss = Array i" using seg ss by auto
  show ?thesis
  proof (cases ys)
    case Nil
    then have "ss_next ss = None" using seg ss by auto
    then show ?thesis
      using ss c u Nil by (simp add: free_string_shared_def Let_def and_TOPBIT ss_set_array_def
          ss_relink_next_def ss_relink_previous_def)
  next
    case (Cons q qs)
    then obtain ssq where "ss_next ss = Some q" "ss_heap st q = Some ssq" "p \<noteq> q" using seg ss d by auto
    then show ?thesis
      using ss c u Cons by (simp add: free_string_shared_def Let_def and_TOPBIT ss_set_array_def
          ss_relink_next_def ss_relink_previous_def fun_upd_twist)
  qed
qed

lemma free_string_inner:
  assumes ss: "ss_heap st p = Some ss" and c: "(ss_refcount ss - 1) AND NOT TOPBIT = 0" "\<not> bit (ss_refcount ss - 1) 63"
    and seg: "ss_seg (ss_heap st) v r ((xs @ [l]) @ p # ys) w None" and d: "distinct ((xs @ [l]) @ p # ys)"
  shows "\<exists>st'. free_string_shared p st = Some st' \<and> hash_table st' = hash_table st \<and>
    ss_heap st' = ss_unlink ss (\<lambda>r. r) (xs @ [l]) p ys (ss_heap st)"
proof -
  obtain ssl where u: "ss_u ss = Previous (Some l)" and l: "ss_heap st l = Some ssl" "p \<noteq> l"
    using seg ss d by (auto simp: ss_seg_append)
  have top: "(ss_refcount ss - 1) AND TOPBIT = 0" using c(2) and_TOPBIT by blast
  show ?thesis
  proof (cases ys)
    case Nil
    then have "ss_next ss = None" using seg ss by (auto simp: ss_seg_append)
    then show ?thesis
      using ss c u l top Nil by (simp add: free_string_shared_def Let_def ss_set_next_def
          ss_relink_next_def ss_relink_previous_def fun_upd_twist)
  next
    case (Cons q qs)
    then obtain ssq where "ss_next ss = Some q" "ss_heap st q = Some ssq" "p \<noteq> q" "q \<noteq> l"
      using seg ss d by (auto simp: ss_seg_append)
    then show ?thesis
      using ss c u l top Cons by (simp add: free_string_shared_def Let_def ss_set_next_def
          ss_relink_next_def ss_relink_previous_def fun_upd_twist)
  qed
qed


lemma free_last_conforms:
  assumes wf: "shstr_wf st" and ss: "ss_heap st p = Some ss" and n: "ss_count ss = 1"
  shows "\<exists>st'. free_string_shared p st = Some st' \<and> shstr_conforms st (Free p) (p, st')"
proof -
  obtain B where t: "ss_table (hash_table st) (ss_heap st) B" and ok: "ss_heap_ok (ss_heap st)"
    using wf by (auto simp: shstr_wf_def)
  define i where "i = hash_index (ss_string ss)"
  have "p \<in> set (B i)" using ss ss_tableD(3) [OF t] by (simp add: i_def)
  then obtain xs ys where B: "B i = xs @ p # ys" by (meson split_list)
  have d: "distinct (xs @ p # ys)" using ss_tableD(1) [OF t, of i] B by simp
  obtain w where seg: "ss_seg (ss_heap st) (Array i) (hash_table st i) (xs @ p # ys) w None"
    using ss_tableD(2) [OF t, of i] B by auto
  have c: "(ss_refcount ss - 1) AND NOT TOPBIT = 0" "bit (ss_refcount ss - 1) 63 = bit (ss_refcount ss) 63"
    using refcount_dec [of "ss_refcount ss"] n by (simp_all add: ss_count_def unat_eq_0)
  define f where "f = (if \<exists>i. ss_u ss = Array i then \<lambda>r. r OR TOPBIT else (\<lambda>r :: u64. r))"
  have "\<exists>st'. free_string_shared p st = Some st' \<and>
      hash_table st' = (if xs = [] then (hash_table st)(i := ss_next ss) else hash_table st) \<and>
      ss_heap st' = ss_unlink ss f xs p ys (ss_heap st)"
  proof (cases xs rule: rev_cases)
    case Nil
    moreover from this have "ss_u ss = Array i" using seg ss by auto
    ultimately show ?thesis
      using free_string_head [OF ss, of i _ ys w] seg d c ss_heap_okD(2) [OF ok ss] by (simp add: f_def)
  next
    case (snoc zs l)
    moreover from this have "ss_u ss = Previous (Some l)" using seg ss by (auto simp: ss_seg_append)
    ultimately show ?thesis
      using free_string_inner [OF ss, of "Array i" "hash_table st i" zs l ys w] seg d c ss_heap_okD(2) [OF ok ss]
      by (simp add: f_def)
  qed
  then obtain st' where st': "free_string_shared p st = Some st'"
    "hash_table st' = (if xs = [] then (hash_table st)(i := ss_next ss) else hash_table st)"
    "ss_heap st' = ss_unlink ss f xs p ys (ss_heap st)" by blast
  have "shstr_wf st'"
    using ss_table_unlink [OF t ss i_def B, of f] ss_unlink_ok(1) [OF ok ss seg f_def]
    unfolding shstr_wf_def st'(2,3) by blast
  moreover have "shstr_view st' = (shstr_view st)(p := None)"
    using ss_unlink_ok(2) [OF ok ss seg f_def] by (simp add: shstr_view_eq st'(3))
  moreover have "shstr_view st p = Some (ss_string ss, 1)" using ss n by (simp add: shstr_view_eq ss_view_Some)
  ultimately show ?thesis using st'(1) spec_drop [of "shstr_view st" p] by (simp add: shstr_conforms_def)
qed

lemma free_string_conforms:
  assumes wf: "shstr_wf st" and ss: "ss_heap st p = Some ss"
  shows "\<exists>st'. free_string_shared p st = Some st' \<and> shstr_conforms st (Free p) (p, st')"
proof (cases "ss_count ss = 1")
  case True
  then show ?thesis using free_last_conforms [OF wf ss] by blast
next
  case False
  have ok: "ss_heap_ok (ss_heap st)" using wf by (simp add: shstr_wf_def)
  define ss' where "ss' = ss\<lparr>ss_refcount := ss_refcount ss - 1\<rparr>"
  have n: "1 < ss_count ss" using ss_heap_okD(1) [OF ok ss] False by simp
  then have c: "ss_count ss' = ss_count ss - 1" "bit (ss_refcount ss') 63 = bit (ss_refcount ss) 63"
    using refcount_dec [of "ss_refcount ss"] by (simp_all add: ss'_def ss_count_def)
  then have "ss_refcount ss' AND NOT TOPBIT \<noteq> 0" using n by (auto simp: ss_count_def)
  then have "\<exists>st'. free_string_shared p st = Some st' \<and> hash_table st' = hash_table st \<and>
      ss_heap st' = (ss_heap st)(p \<mapsto> ss')"
    using ss by (simp add: free_string_shared_def Let_def ss'_def)
  then obtain st' where st': "free_string_shared p st = Some st'" "hash_table st' = hash_table st"
    "ss_heap st' = (ss_heap st)(p \<mapsto> ss')" by blast
  have "ss_counted ss'" using c n ss_heap_okD(2) [OF ok ss] by (simp add: ss_counted_def) (simp add: ss'_def)
  then have "ss_heap_ok ((ss_heap st)(p \<mapsto> ss'))" by (rule ss_heap_ok_same [OF ok ss]) (simp add: ss'_def)
  moreover have "ss_table T ((ss_heap st)(p \<mapsto> ss')) B = ss_table T (ss_heap st) B" for T B
    using ss by (intro ss_table_cong) (auto simp: ss'_def ss_links_def)
  ultimately have "shstr_wf st'" using wf by (simp add: shstr_wf_def st')
  moreover have "shstr_view st' = (shstr_view st)(p \<mapsto> (ss_string ss, ss_count ss - 1))"
    using c by (simp add: shstr_view_eq st' ss_view_update ss_entry_def) (simp add: ss'_def)
  moreover have "shstr_view st p = Some (ss_string ss, (ss_count ss - 1) + 1)"
    using ss n by (simp add: shstr_view_eq ss_view_Some)
  ultimately show ?thesis
    using st'(1) n spec_release [of "shstr_view st" p "ss_string ss" "ss_count ss - 1"] by (simp add: shstr_conforms_def)
qed

lemma shstr_exec_conforms:
  assumes "shstr_wf st" "shstr_allowed (shstr_view st) oper"
  shows "\<exists>x. shstr_exec oper st = Some x \<and> shstr_conforms st oper x"
proof (cases oper)
  case (Add fresh str)
  then show ?thesis using add_string_conforms assms by (simp add: shstr_exec_def)
next
  case (Add_ref p)
  then show ?thesis using add_refcount_conforms assms by (simp add: shstr_exec_def)
next
  case (Free p)
  then obtain ss where "ss_heap st p = Some ss" using assms(2) by (auto simp: shstr_view_def)
  then show ?thesis using free_string_conforms [OF assms(1)] Free by (auto simp: shstr_exec_def)
qed

text \<open>Looking a string up.\<close>

lemma find_string_walk:
  assumes "ss_seg (ss_heap st) u (Some p) (p # qs) u' None"
  shows "\<exists>st'. c_loop (find_string_step s) (p, st) = Some (find (ss_has (ss_heap st) s) qs, st') \<and>
    hash_table st' = hash_table st \<and> ss_heap st' = ss_heap st"
  using assms
proof (induction qs arbitrary: u p st)
  case Nil
  then have "find_string_step s (p, st) = Some (Inr (None, st))" by (auto simp: find_string_step_def)
  then show ?case by (simp add: c_loop_leave)
next
  case (Cons q qs)
  obtain ss ssq v where ss: "ss_heap st p = Some ss" "ss_next ss = Some q" "ss_heap st q = Some ssq"
    and seg: "ss_seg (ss_heap st) v (Some q) (q # qs) u' None"
    using Cons.prems by auto
  define st1 where "st1 = find_stats_update (st_strcmps_update (\<lambda>n. n + 1)) (find_stats_update (st_search_update (\<lambda>n. n + 1)) st)"
  have st1: "hash_table st1 = hash_table st" "ss_heap st1 = ss_heap st" by (simp_all add: st1_def)
  show ?case
  proof (cases "ss_string ssq = s")
    case True
    then have "find_string_step s (p, st) = Some (Inr (Some q, find_stats_update (st_linked_update (\<lambda>n. n + 1)) st1))"
      using ss st1 by (simp add: find_string_step_def st1_def)
    then show ?thesis using True ss st1 by (simp add: c_loop_leave ss_has_def)
  next
    case False
    then have "find_string_step s (p, st) = Some (Inl (q, st1))"
      using ss st1 by (simp add: find_string_step_def st1_def)
    then show ?thesis
      using False ss st1 seg Cons.IH [of st1 v q] by (auto simp: c_loop_continue ss_has_def)
  qed
qed

lemma find_string_exact:
  assumes wf: "shstr_wf st" and s: "shstr_chars st str = Some s"
  shows "\<exists>r st'. find_string str st = Some (r, st') \<and> hash_table st' = hash_table st \<and> ss_heap st' = ss_heap st \<and>
    (case r of Some p \<Rightarrow> ss_has (ss_heap st) s p | None \<Rightarrow> \<not> (\<exists>p. ss_has (ss_heap st) s p))"
proof -
  obtain B where t: "ss_table (hash_table st) (ss_heap st) B" using wf by (auto simp: shstr_wf_def)
  have chars: "ss_heap st' = ss_heap st \<Longrightarrow> shstr_chars st' str = Some s" for st'
    using s by (simp add: shstr_chars_def cong: shstr_arg.case_cong)
  obtain u where seg: "ss_seg (ss_heap st) (Array (hash_index s)) (hash_table st (hash_index s)) (B (hash_index s)) u None"
    using ss_tableD(2) [OF t, of "hash_index s"] by auto
  have "\<exists>st'. find_string str st = Some (find (ss_has (ss_heap st) s) (B (hash_index s)), st') \<and>
    hash_table st' = hash_table st \<and> ss_heap st' = ss_heap st"
  proof (cases "B (hash_index s)")
    case Nil
    then show ?thesis using seg chars by (simp add: find_string_def hashstr_def)
  next
    case (Cons p qs)
    then obtain ss where ss: "hash_table st (hash_index s) = Some p" "ss_heap st p = Some ss" using seg by auto
    define st1 where "st1 = find_stats_update (st_strcmps_update (\<lambda>n. n + 1))
      (snd (hashstr s (find_stats_update (st_calls_update (\<lambda>n. n + 1)) st)))"
    have st1: "hash_table st1 = hash_table st" "ss_heap st1 = ss_heap st" by (simp_all add: st1_def hashstr_def)
    obtain st2 where "c_loop (find_string_step s) (p, st1) = Some (find (ss_has (ss_heap st) s) qs, st2)"
      "hash_table st2 = hash_table st" "ss_heap st2 = ss_heap st"
      using find_string_walk [of st1 "Array (hash_index s)" p qs u s] seg Cons ss st1 by auto
    moreover have "find_string str st = (if ss_string ss = s
        then Some (Some p, find_stats_update (st_hashed_update (\<lambda>n. n + 1)) st1)
        else c_loop (find_string_step s) (p, st1))"
      using chars ss by (simp add: find_string_def hashstr_def st1_def)
    ultimately show ?thesis using Cons ss st1 by (auto simp: ss_has_def)
  qed
  then show ?thesis using bucket_find [OF t, of s] by fastforce
qed

lemma shstr_init_wf: "shstr_wf shstr_init"
proof -
  have "ss_table (hash_table shstr_init) (ss_heap shstr_init) (\<lambda>_. [])"
    by (simp add: ss_table_def shstr_init_def)
  then show ?thesis by (auto simp: shstr_wf_def ss_heap_ok_def shstr_init_def)
qed

lemma shstr_reach_wf: "shstr_reach st \<Longrightarrow> shstr_wf st"
proof (induction rule: shstr_reach.induct)
  case reach_init
  show ?case by (rule shstr_init_wf)
next
  case (reach_step st oper r st')
  then show ?case using shstr_exec_conforms [of st oper] by (auto simp: shstr_conforms_def)
next
  case (reach_find st str r st')
  have "shstr_chars st str = None \<Longrightarrow> find_string str st = None"
    by (simp add: find_string_def Let_def shstr_chars_def cong: shstr_arg.case_cong)
  then obtain s where "shstr_chars st str = Some s" using reach_find.hyps by (cases "shstr_chars st str") auto
  then show ?case using find_string_exact [of st str s] reach_find by (auto intro: shstr_wf_cong [THEN iffD1])
qed


section \<open>Properties\<close>

text \<open>
  C14. The table refines its contract. In every state that a sequence of permitted calls can
  reach, a permitted call of \<open>add_string\<close>, \<open>add_refcount\<close> or \<open>free_string_shared\<close> follows no
  dangling pointer, terminates, and changes the map of live strings exactly as the contract
  says: a string that is present gains a reference and keeps its address, a new one gets the
  fresh address and one reference, and the last reference removes it.
\<close>

theorem shstr_refines:
  assumes "shstr_reach st" "shstr_allowed (shstr_view st) oper"
  shows "\<exists>r st'. shstr_exec oper st = Some (r, st') \<and>
    shstr_spec (shstr_view st) oper r (shstr_view st')"
  using shstr_exec_conforms [OF shstr_reach_wf [OF assms(1)] assms(2)] by (auto simp: shstr_conforms_def)

definition demo_shstr :: shstr_state where
  "demo_shstr = snd (the (add_string 1 (Chars [97]) shstr_init))"

lemma shstr_init_allowed: "shstr_allowed (shstr_view shstr_init) (Add 1 (Chars s))"
  by (rule allowed_add [where s = s]) (simp_all add: shstr_view_def shstr_init_def shstr_map_chars_def)

lemma demo_shstr_reach: "shstr_reach demo_shstr \<and> shstr_view demo_shstr = [1 \<mapsto> ([97], 1)]"
proof -
  obtain x where x: "shstr_exec (Add 1 (Chars [97])) shstr_init = Some x"
    and c: "shstr_conforms shstr_init (Add 1 (Chars [97])) x"
    using shstr_exec_conforms [OF shstr_init_wf shstr_init_allowed] by blast
  have e: "shstr_exec (Add 1 (Chars [97])) shstr_init = Some (fst x, demo_shstr)" and "snd x = demo_shstr"
    using x by (simp_all add: shstr_exec_def demo_shstr_def)
  then have "shstr_spec (shstr_view shstr_init) (Add 1 (Chars [97])) (fst x) (shstr_view demo_shstr)"
    using c by (auto simp: shstr_conforms_def)
  moreover have "shstr_view shstr_init = Map.empty" by (simp add: fun_eq_iff shstr_view_def shstr_init_def)
  ultimately have "shstr_view demo_shstr = [1 \<mapsto> ([97], 1)]"
    by (auto simp: shstr_map_chars_def elim: shstr_spec.cases)
  then show ?thesis using reach_step [OF reach_init shstr_init_allowed e] by blast
qed

lemma demo_shstr_free: "shstr_allowed (shstr_view demo_shstr) (Free 1)"
  by (rule allowed_free [where s = "[97]" and n = 1]) (simp add: demo_shstr_reach)

theorem shstr_refines_witness:
  "shstr_reach demo_shstr \<and> shstr_allowed (shstr_view demo_shstr) (Free 1) \<and>
   (\<exists>r st'. shstr_exec (Free 1) demo_shstr = Some (r, st') \<and>
     shstr_spec (shstr_view demo_shstr) (Free 1) r (shstr_view st'))"
  using shstr_refines [of demo_shstr "Free 1"] demo_shstr_reach demo_shstr_free by blast

lemma sint_ucast_small:
  assumes "unat (w :: u64) < 2 ^ 31"
  shows "sint (ucast w :: u32) = int (unat w)"
proof -
  define n where "n = unat w"
  have n: "uint w = int n" "n < 2 ^ 31" using assms by (simp_all add: n_def)
  have "uint (ucast w :: u32) = take_bit 32 (uint w)" by (simp add: unsigned_ucast_eq)
  also have "\<dots> = int n" unfolding n(1) using n(2) by (intro take_bit_int_eq_self) auto
  finally have u: "uint (ucast w :: u32) = int n" .
  have "sint (ucast w :: u32) = signed_take_bit 31 (uint (ucast w :: u32))"
    by (simp add: sint_uint)
  also have "\<dots> = int n" unfolding u using n(2) by (intro signed_take_bit_int_eq_self) auto
  finally show ?thesis by (simp only: n_def)
qed

text \<open>
  C15. Sharing: in a reachable state two live strings with the same characters are the same
  string, every live string has a reference, \<open>query_refcount\<close> reports the number of
  references (below $2^{31}$, where its \<open>int\<close> result can hold them), and \<open>find_string\<close>
  terminates, finds exactly the live strings and changes nothing of the table.
\<close>

theorem shstr_unique:
  assumes "shstr_reach st"
  shows "(\<forall>p q s n k. shstr_view st p = Some (s, n) \<and> shstr_view st q = Some (s, k) \<longrightarrow> p = q) \<and>
    (\<forall>p s n. shstr_view st p = Some (s, n) \<longrightarrow> 0 < n \<and> (n < 2 ^ 31 \<longrightarrow> query_refcount p st = Some (int n))) \<and>
    (\<forall>s. \<exists>r st'. find_string (Chars s) st = Some (r, st') \<and> shstr_view st' = shstr_view st \<and>
      (\<forall>p. r = Some p \<longleftrightarrow> (\<exists>n. shstr_view st p = Some (s, n))))"
proof (intro conjI allI impI)
  note wf = shstr_reach_wf [OF assms]
  then have ok: "ss_heap_ok (ss_heap st)" by (simp add: shstr_wf_def)
  show "p = q" if "shstr_view st p = Some (s, n) \<and> shstr_view st q = Some (s, k)" for p q s n k
    using that ok by (auto simp: shstr_view_eq ss_view_Some ss_heap_ok_def)
  show "0 < n" if "shstr_view st p = Some (s, n)" for p s n
    using that ok by (auto simp: shstr_view_eq ss_view_Some dest: ss_heap_okD(1))
  show "query_refcount p st = Some (int n)" if "shstr_view st p = Some (s, n)" "n < 2 ^ 31" for p s n
    using that by (auto simp: shstr_view_eq ss_view_Some query_refcount_def ss_count_def sint_ucast_small)
  show "\<exists>r st'. find_string (Chars s) st = Some (r, st') \<and> shstr_view st' = shstr_view st \<and>
      (\<forall>p. r = Some p \<longleftrightarrow> (\<exists>n. shstr_view st p = Some (s, n)))" for s
  proof -
    obtain r st' where f: "find_string (Chars s) st = Some (r, st')" "ss_heap st' = ss_heap st"
      and r: "case r of Some p \<Rightarrow> ss_has (ss_heap st) s p | None \<Rightarrow> \<not> (\<exists>p. ss_has (ss_heap st) s p)"
      using find_string_exact [OF wf, of "Chars s" s] by (auto simp: shstr_chars_def)
    have "r = Some p \<longleftrightarrow> ss_has (ss_heap st) s p" for p
      using r ok by (auto simp: ss_has_def ss_heap_ok_def split: option.splits)
    then show ?thesis using f by (auto simp: shstr_view_eq ss_view_Some ss_has_def)
  qed
qed

theorem shstr_unique_witness:
  "shstr_reach demo_shstr \<and> query_refcount 1 demo_shstr = Some 1 \<and>
   (\<exists>r st'. find_string (Chars [97]) demo_shstr = Some (r, st') \<and> r = Some 1)"
proof -
  note u = shstr_unique [OF demo_shstr_reach [THEN conjunct1]]
  have "query_refcount 1 demo_shstr = Some (int 1)"
    using u [THEN conjunct2, THEN conjunct1, rule_format, of 1 "[97]" 1] demo_shstr_reach by simp
  moreover have "\<exists>r st'. find_string (Chars [97]) demo_shstr = Some (r, st') \<and> r = Some 1"
    using u [THEN conjunct2, THEN conjunct2, rule_format, of "[97]"] demo_shstr_reach by auto
  ultimately show ?thesis using demo_shstr_reach by simp
qed

text \<open>
  Finishing a string buffer as a shared string: a well-formed buffer whose text has no
  NUL becomes a live string with that text, at the address \<open>stringbuffer_finish_shared\<close>
  returns, and one reference more than before.
\<close>

theorem finish_shared_text:
  assumes "shstr_reach st" "sb_wf sb" "0 \<notin> set (sb_text sb)"
    and "shstr_allowed (shstr_view st) (Add fresh (Chars (sb_text sb)))"
  shows "\<exists>p st' n. stringbuffer_finish_shared fresh sb st = Some (p, st') \<and>
    shstr_view st' = (shstr_view st)(p \<mapsto> (sb_text sb, n + 1)) \<and>
    (shstr_view st p = (if n = 0 then None else Some (sb_text sb, n)))"
proof -
  obtain p st' where x: "add_string fresh (Chars (sb_text sb)) st = Some (p, st')"
    "shstr_spec (shstr_view st) (Add fresh (Chars (sb_text sb))) p (shstr_view st')"
    using shstr_exec_conforms [OF shstr_reach_wf [OF assms(1)] assms(4)]
    by (auto simp: shstr_conforms_def shstr_exec_def)
  have ok: "ss_heap_ok (ss_heap st)" using shstr_reach_wf [OF assms(1)] by (simp add: shstr_wf_def)
  have pos: "shstr_view st q = Some (s, n) \<Longrightarrow> 0 < n" for q s n
    using ok by (auto simp: shstr_view_eq ss_view_Some dest: ss_heap_okD(1))
  have fresh: "shstr_view st fresh = None" using assms(4) by auto
  have "\<exists>n. shstr_view st' = (shstr_view st)(p \<mapsto> (sb_text sb, n + 1)) \<and>
    shstr_view st p = (if n = 0 then None else Some (sb_text sb, n))"
    using x(2)
  proof (cases rule: shstr_spec.cases)
    case (spec_found s n)
    then show ?thesis using pos by (intro exI [of _ n]) (auto simp: shstr_map_chars_def)
  next
    case (spec_new s)
    then show ?thesis using fresh by (intro exI [of _ 0]) (simp add: shstr_map_chars_def)
  qed
  then show ?thesis
    using x(1) assms(2,3) by (auto simp: stringbuffer_finish_shared_def sb_finish_text)
qed


theorem finish_shared_text_witness:
  "shstr_reach shstr_init \<and> sb_wf (stringbuffer_new (\<lambda>_. 0)) \<and>
   (\<exists>p st' n. stringbuffer_finish_shared 1 (stringbuffer_new (\<lambda>_. 0)) shstr_init = Some (p, st') \<and>
     shstr_view st' = (shstr_view shstr_init)(p \<mapsto> (sb_text (stringbuffer_new (\<lambda>_. 0)), n + 1)))"
  using finish_shared_text [OF reach_init new_wf(1) _ shstr_init_allowed, of "\<lambda>_. 0"] reach_init new_wf(1) [of "\<lambda>_. 0"]
  by (fastforce simp: new_wf(2))

end
