(* ===== verification/Math_Rng.thy ===== *)
theory Math_Rng
  imports Prelude "HOL-Library.Code_Target_Nat"
begin

unbundle bit_operations_syntax

text \<open>
  Random numbers and integer functions of \<open>src/math.c\<close>: the PCG-XSH-RR stream with unbiased
  ranges by rejection, the integer square root, and the exponent of the next power of two.

  An \<open>int\<close> is an integer, with its range as a hypothesis where it matters. In \<open>isqrt\<close> the
  \<open>unsigned long\<close> values are natural numbers: \<open>one\<close> starts at $2^{30}$, so that no sum in it
  comes near $2^{64}$. The \<open>rndm\<close> functions call the \<open>rng\<close> functions on the one global stream,
  under a mutex; the state they pass is that stream.
\<close>

section \<open>The stream\<close>

record rng_state =
  rng_s :: u64

definition rng_u32 :: "rng_state \<Rightarrow> u32 \<times> rng_state" where
  "rng_u32 rng = (let
     old_state = rng_s rng;
     xor_shifted = ucast (drop_bit 27 (drop_bit 18 old_state XOR old_state)) :: u32;
     rotation = ucast (drop_bit 59 old_state) :: u32
   in (drop_bit (unat rotation) xor_shifted OR push_bit (unat ((- rotation) AND 31)) xor_shifted,
       rng\<lparr>rng_s := old_state * 6364136223846793005 + 1442695040888963407\<rparr>))"

definition rng_seed :: "u64 \<Rightarrow> rng_state" where
  "rng_seed seed = (let
     rng = snd (rng_u32 \<lparr>rng_s = 0\<rparr>);
     rng = rng\<lparr>rng_s := rng_s rng + seed\<rparr>
   in snd (rng_u32 rng))"

definition rng_u64 :: "rng_state \<Rightarrow> u64 \<times> rng_state" where
  "rng_u64 rng = (let (high, rng) = rng_u32 rng; (low, rng) = rng_u32 rng
     in (push_bit 32 (ucast high) OR ucast low, rng))"

text \<open>\<open>do value = rng_u64(rng); while (value < threshold)\<close>.\<close>

definition rng_reject_step :: "u64 \<Rightarrow> rng_state \<Rightarrow> (rng_state + u64 \<times> rng_state) option" where
  "rng_reject_step threshold rng = (let (value, rng) = rng_u64 rng
     in Some (if value < threshold then Inl rng else Inr (value, rng)))"

definition rng_range :: "rng_state \<Rightarrow> int \<Rightarrow> int \<Rightarrow> (int \<times> rng_state) option" where
  "rng_range rng mn mx =
     (if mx < mn then Some (mn, rng)
      else do {
        let span = (of_int (mx - mn) :: u64) + 1;
        let threshold = (- span) mod span;
        (value, rng) \<leftarrow> c_loop (rng_reject_step threshold) rng;
        Some (mn + uint (value mod span), rng)
      })"

definition rng_chance :: "rng_state \<Rightarrow> u32 \<Rightarrow> (bool \<times> rng_state) option" where
  "rng_chance rng n =
     (if n = 0 then Some (False, rng)
      else do {
        let span = (ucast n :: u64);
        let threshold = (- span) mod span;
        (value, rng) \<leftarrow> c_loop (rng_reject_step threshold) rng;
        Some (value mod span = 0, rng)
      })"

definition rndm :: "int \<Rightarrow> int \<Rightarrow> rng_state \<Rightarrow> (int \<times> rng_state) option" where
  "rndm mn mx gameplay_rng = rng_range gameplay_rng mn mx"

definition rndm_chance :: "u32 \<Rightarrow> rng_state \<Rightarrow> (bool \<times> rng_state) option" where
  "rndm_chance n gameplay_rng = rng_chance gameplay_rng n"

definition rndm_u64 :: "rng_state \<Rightarrow> u64 \<times> rng_state" where
  "rndm_u64 gameplay_rng = rng_u64 gameplay_rng"


section \<open>Integer functions\<close>

function isqrt_start :: "nat \<Rightarrow> nat \<Rightarrow> nat" where
  "isqrt_start one oper = (if one > oper then isqrt_start (one div 4) oper else one)"
  by pat_completeness auto
termination by (relation "measure fst") auto

function isqrt_loop :: "nat \<Rightarrow> nat \<Rightarrow> nat \<Rightarrow> nat" where
  "isqrt_loop one oper res =
     (if one \<noteq> 0 then
        let (oper, res) = (if oper \<ge> res + one then (oper - (res + one), res + 2 * one) else (oper, res))
        in isqrt_loop (one div 4) oper (res div 2)
      else res)"
  by pat_completeness auto
termination by (relation "measure fst") auto

declare isqrt_start.simps [simp del] isqrt_loop.simps [simp del]

definition isqrt :: "nat \<Rightarrow> nat" where
  "isqrt n = isqrt_loop (isqrt_start (2 ^ 30) n) n 0"

definition exp_lookup :: "nat list" where
  "exp_lookup = [0, 0, 1, 2, 2, 3, 3, 3, 3, 4, 4, 4, 4, 4, 4, 4, 4,
     5, 5, 5, 5, 5, 5, 5, 5, 5, 5, 5, 5, 5, 5, 5, 5, 6,
     6, 6, 6, 6, 6, 6, 6, 6, 6, 6, 6, 6, 6, 6, 6, 6, 6,
     6, 6, 6, 6, 6, 6, 6, 6, 6, 6, 6, 6, 6, 6]"

text \<open>A shift of the 32-bit \<open>1U\<close> by 32 or more is undefined.\<close>

definition nearest_pow_two_step :: "nat \<Rightarrow> nat \<Rightarrow> (nat + nat) option" where
  "nearest_pow_two_step n i =
     (if 32 \<le> i then None else Some (if 2 ^ i < n then Inl (i + 1) else Inr i))"

definition nearest_pow_two_exp :: "nat \<Rightarrow> nat option" where
  "nearest_pow_two_exp n =
     (if n \<le> 64 then Some (exp_lookup ! n) else c_loop (nearest_pow_two_step n) 7)"


section \<open>The stream leaves every rejection loop\<close>

text \<open>
  The state runs through a linear congruential sequence modulo $2^{64}$. After $2^k$ steps it
  has changed by an odd multiple of $2^k$; so bit 46, which has to be clear in a state whose
  output is rejected, is set at least once in every $2^{46}$ steps.
\<close>

definition lcg :: "int \<Rightarrow> int" where
  "lcg s = s * 6364136223846793005 + 1442695040888963407"

lemma lcg_double: "\<exists>a c. odd c \<and> (\<forall>x. (lcg ^^ (2 ^ k)) x = (1 + 2 ^ (k + 2) * a) * x + 2 ^ k * c)"
proof (induction k)
  case 0
  have "(lcg ^^ (2 ^ 0)) x = (1 + 2 ^ (0 + 2) * 1591034055961698251) * x + 2 ^ 0 * 1442695040888963407" for x
    by (simp add: lcg_def)
  then show ?case by (intro exI [of _ 1591034055961698251] exI [of _ 1442695040888963407]) simp
next
  case (Suc k)
  then obtain a c where c: "odd c" and f: "\<And>x. (lcg ^^ (2 ^ k)) x = (1 + 2 ^ (k + 2) * a) * x + 2 ^ k * c" by blast
  have "(lcg ^^ (2 ^ Suc k)) x = (1 + 2 ^ (Suc k + 2) * (a + 2 ^ (k + 1) * a * a)) * x + 2 ^ Suc k * (c * (1 + 2 ^ (k + 1) * a))" for x
  proof -
    have "(lcg ^^ (2 ^ Suc k)) x = (lcg ^^ (2 ^ k)) ((lcg ^^ (2 ^ k)) x)"
      by (simp add: mult_2 funpow_add)
    also have "\<dots> = (1 + 2 ^ (k + 2) * a) * ((1 + 2 ^ (k + 2) * a) * x + 2 ^ k * c) + 2 ^ k * c" by (simp only: f)
    also have "\<dots> = (1 + 2 ^ (Suc k + 2) * (a + 2 ^ (k + 1) * a * a)) * x + 2 ^ Suc k * (c * (1 + 2 ^ (k + 1) * a))"
      by (simp add: algebra_simps power_add)
    finally show ?thesis .
  qed
  moreover have "odd (c * (1 + 2 ^ (k + 1) * a))" using c by simp
  ultimately show ?case by blast
qed

lemma lcg_bit_flips: "bit ((lcg ^^ (2 ^ k)) x) k \<longleftrightarrow> \<not> bit x k"
proof -
  obtain a c where c: "odd c" and f: "(lcg ^^ (2 ^ k)) x = (1 + 2 ^ (k + 2) * a) * x + 2 ^ k * c"
    using lcg_double by blast
  have "(lcg ^^ (2 ^ k)) x = x + 2 ^ k * (4 * a * x + c)" by (simp add: f algebra_simps)
  moreover have "(x + 2 ^ k * (4 * a * x + c)) div 2 ^ k = x div 2 ^ k + (4 * a * x + c)"
    by (simp add: div_mult_self2)
  ultimately show ?thesis using c by (simp add: bit_iff_odd)
qed

definition rng_next :: "u64 \<Rightarrow> u64" where
  "rng_next s = s * 6364136223846793005 + 1442695040888963407"

lemma rng_next_of_int: "rng_next (of_int x) = of_int (lcg x)"
  by (simp add: rng_next_def lcg_def)

lemma rng_next_funpow: "(rng_next ^^ n) (of_int x) = of_int ((lcg ^^ n) x)"
  by (induction n) (simp_all add: rng_next_of_int)

lemma rng_next_bit: "bit ((rng_next ^^ (2 ^ 46)) s) 46 \<longleftrightarrow> \<not> bit s 46"
proof -
  have "(rng_next ^^ (2 ^ 46)) (of_int (uint s)) = of_int ((lcg ^^ (2 ^ 46)) (uint s))" by (rule rng_next_funpow)
  moreover have "(of_int (uint s) :: u64) = s" by simp
  moreover have "bit (of_int y :: u64) 46 \<longleftrightarrow> bit y 46" for y by (simp add: bit_of_int_iff)
  ultimately have "bit ((rng_next ^^ (2 ^ 46)) s) 46 \<longleftrightarrow> bit ((lcg ^^ (2 ^ 46)) (uint s)) 46" by metis
  also have "\<dots> \<longleftrightarrow> \<not> bit (uint s) 46" by (rule lcg_bit_flips)
  also have "bit (uint s) 46 \<longleftrightarrow> bit s 46" by (simp add: bit_unsigned_iff)
  finally show ?thesis .
qed


lemma rng_u64_state: "rng_s (snd (rng_u64 rng)) = rng_next (rng_next (rng_s rng))"
  by (simp add: rng_u64_def rng_u32_def Let_def rng_next_def split: prod.splits)

lemma rng_u64_small:
  assumes "fst (rng_u64 rng) < 2 ^ 32"
  shows "fst (rng_u32 rng) = 0"
proof (rule bit_word_eqI)
  fix n
  assume n: "n < LENGTH(32)"
  have e: "fst (rng_u64 rng) = push_bit 32 (ucast (fst (rng_u32 rng))) OR ucast (fst (rng_u32 (snd (rng_u32 rng))))"
    by (simp add: rng_u64_def split: prod.splits)
  have "unat (fst (rng_u64 rng)) < 2 ^ 32" using assms by (simp add: word_less_nat_alt)
  then have "take_bit 32 (unat (fst (rng_u64 rng))) = unat (fst (rng_u64 rng))" by (rule take_bit_nat_eq_self)
  then have "\<not> bit (unat (fst (rng_u64 rng))) (32 + n)" by (metis bit_take_bit_iff not_add_less1)
  then have "\<not> bit (fst (rng_u64 rng)) (32 + n)" using n by (simp add: bit_unsigned_iff)
  then show "bit (fst (rng_u32 rng)) n \<longleftrightarrow> bit (0 :: u32) n" using n unfolding e by (simp add: bit_simps)
qed

lemma unat_and_31: "unat ((w :: u32) AND 31) = unat w mod 32"
proof -
  have "(31 :: u32) = mask 5" by (simp add: mask_eq_exp_minus_1)
  then have "w AND 31 = take_bit 5 w" by (simp add: take_bit_eq_mask)
  then have "unat (w AND 31) = take_bit 5 (unat w)" by (simp only: unsigned_take_bit_eq)
  then show ?thesis by (simp add: take_bit_eq_mod)
qed

lemma rotation_zero:
  fixes x r :: u32
  assumes z: "drop_bit (unat r) x OR push_bit (unat ((- r) AND 31)) x = 0" and r: "unat r < 32"
  shows "x = 0"
proof (rule bit_word_eqI)
  fix n
  assume n: "n < LENGTH(32)"
  have z': "\<not> bit (drop_bit (unat r) x OR push_bit (unat ((- r) AND 31)) x) m" for m by (simp add: z)
  have "\<not> bit x n"
  proof (cases "unat r \<le> n")
    case True
    then show ?thesis using z' [of "n - unat r"] by (simp add: bit_simps)
  next
    case False
    then have "unat (- r) = 2 ^ 32 - unat r" using unat_sub_if' [of 0 r] by simp
    moreover have "2 ^ 32 - unat r = (32 - unat r) + 32 * 134217727" using r by simp
    ultimately have "unat ((- r) AND 31) = (32 - unat r) mod 32" unfolding unat_and_31 by (simp only: mod_mult_self2)
    then have "unat ((- r) AND 31) = 32 - unat r" using False by simp
    then show ?thesis using z' [of "n + (32 - unat r)"] False r by (simp add: bit_simps)
  qed
  then show "bit x n \<longleftrightarrow> bit (0 :: u32) n" by simp
qed

lemma rng_u32_zero:
  assumes "fst (rng_u32 rng) = 0"
  shows "\<not> bit (rng_s rng) 46"
proof -
  define s where "s = rng_s rng"
  have d: "unat (drop_bit 59 s) < 32"
  proof -
    have "unat (drop_bit 59 s) = drop_bit 59 (unat s)" by (rule unat_drop_bit_eq)
    also have "\<dots> = unat s div 2 ^ 59" by (rule drop_bit_eq_div)
    finally show ?thesis using unsigned_less [of s, where ?'a = nat] by simp
  qed
  have "unat (ucast w :: u32) = unat w" if "unat (w :: u64) < 32" for w
  proof -
    have "unat (ucast w :: u32) = take_bit LENGTH(32) (unat w)" by (rule unsigned_ucast_eq)
    also have "\<dots> = unat w" using that by (intro take_bit_nat_eq_self) simp
    finally show ?thesis .
  qed
  from this [OF d] d have r: "unat (ucast (drop_bit 59 s) :: u32) < 32" by (simp only:)
  have e: "fst (rng_u32 rng) =
      drop_bit (unat (ucast (drop_bit 59 s) :: u32)) (ucast (drop_bit 27 (drop_bit 18 s XOR s)) :: u32) OR
      push_bit (unat ((- (ucast (drop_bit 59 s) :: u32)) AND 31)) (ucast (drop_bit 27 (drop_bit 18 s XOR s)))"
    unfolding rng_u32_def Let_def s_def by (rule fst_conv)
  have "(ucast (drop_bit 27 (drop_bit 18 s XOR s)) :: u32) = 0"
    by (rule rotation_zero [OF trans [OF e [symmetric] assms] r])
  then have "\<not> bit (ucast (drop_bit 27 (drop_bit 18 s XOR s)) :: u32) 19" by simp
  moreover have "\<not> bit s 64" using bit_imp_le_length [of s 64] by auto
  ultimately show ?thesis by (simp add: bit_simps s_def)
qed

text \<open>The values that the stream yields one after the other, and its state after the first \<open>k\<close>.\<close>

definition rng_after :: "rng_state \<Rightarrow> nat \<Rightarrow> rng_state" where
  "rng_after rng k = ((\<lambda>r. snd (rng_u64 r)) ^^ k) rng"

definition rng_draw :: "rng_state \<Rightarrow> nat \<Rightarrow> u64" where
  "rng_draw rng k = fst (rng_u64 (rng_after rng k))"

lemma rng_after_simps: "rng_after rng 0 = rng" "rng_after rng (Suc k) = rng_after (snd (rng_u64 rng)) k"
  by (simp_all add: rng_after_def funpow_Suc_right del: funpow.simps)

lemma rng_draw_simps: "rng_draw rng 0 = fst (rng_u64 rng)" "rng_draw rng (Suc k) = rng_draw (snd (rng_u64 rng)) k"
  by (simp_all add: rng_draw_def rng_after_simps)

text \<open>The loop takes the first value that is not below the threshold.\<close>

definition rng_first :: "u64 \<Rightarrow> rng_state \<Rightarrow> nat \<Rightarrow> bool" where
  "rng_first threshold rng k \<longleftrightarrow> (\<forall>j < k. rng_draw rng j < threshold) \<and> \<not> rng_draw rng k < threshold"

lemma reject_first:
  assumes "\<not> fst (rng_u64 rng) < threshold"
  shows "c_loop (rng_reject_step threshold) rng = Some (rng_draw rng 0, rng_after rng (Suc 0)) \<and> rng_first threshold rng 0"
proof -
  have "rng_reject_step threshold rng = Some (Inr (rng_u64 rng))" using assms by (auto simp: rng_reject_step_def split: prod.splits)
  then show ?thesis using assms by (auto simp: c_loop_leave rng_first_def rng_draw_simps rng_after_simps)
qed

lemma rng_reject_total:
  assumes t: "threshold \<le> 2 ^ 32"
  shows "\<exists>k. c_loop (rng_reject_step threshold) rng = Some (rng_draw rng k, rng_after rng (Suc k)) \<and> rng_first threshold rng k"
proof -
  have loop: "\<exists>k. c_loop (rng_reject_step threshold) rng = Some (rng_draw rng k, rng_after rng (Suc k)) \<and> rng_first threshold rng k"
    if "bit ((rng_next ^^ (2 * n)) (rng_s rng)) 46" for n rng
    using that
  proof (induction n arbitrary: rng)
    case 0
    then have "\<not> fst (rng_u64 rng) < 2 ^ 32" using rng_u64_small rng_u32_zero by auto
    then have "\<not> fst (rng_u64 rng) < threshold" using t by auto
    then show ?case using reject_first by blast
  next
    case (Suc n)
    show ?case
    proof (cases "fst (rng_u64 rng) < threshold")
      case True
      then have step: "rng_reject_step threshold rng = Some (Inl (snd (rng_u64 rng)))"
        by (auto simp: rng_reject_step_def split: prod.splits)
      have "(rng_next ^^ (2 * Suc n)) (rng_s rng) = (rng_next ^^ (2 * n)) (rng_s (snd (rng_u64 rng)))"
        by (simp add: rng_u64_state funpow_swap1)
      then obtain k where k: "c_loop (rng_reject_step threshold) (snd (rng_u64 rng)) =
          Some (rng_draw (snd (rng_u64 rng)) k, rng_after (snd (rng_u64 rng)) (Suc k))" "rng_first threshold (snd (rng_u64 rng)) k"
        using Suc.IH [of "snd (rng_u64 rng)"] Suc.prems by auto
      have "rng_first threshold rng (Suc k)" using k(2) True by (auto simp: rng_first_def rng_draw_simps less_Suc_eq_0_disj)
      then show ?thesis
        using c_loop_continue [of "rng_reject_step threshold", OF step] k(1)
        by (intro exI [of _ "Suc k"]) (simp add: rng_draw_simps rng_after_simps(2) [of rng])
    next
      case False
      then show ?thesis using reject_first by blast
    qed
  qed
  show ?thesis
  proof (cases "bit (rng_s rng) 46")
    case True
    then show ?thesis using loop [of 0 rng] by simp
  next
    case False
    then show ?thesis using loop [of "2 ^ 45" rng] rng_next_bit [of "rng_s rng"] by simp
  qed
qed


section \<open>Ranges are unbiased\<close>

lemma same_residue:
  fixes n k d :: nat
  assumes "n \<le> k" "k < n + d" "n mod d = k mod d"
  shows "n = k"
proof -
  have "d dvd k - n" using assms(1,3) by (metis mod_eq_dvd_iff_nat)
  then have "k - n = 0" using assms(1,2) by (metis dvd_imp_le less_diff_conv2 add.commute not_gr0 not_le)
  then show ?thesis using assms(1) by simp
qed

lemma card_residues: "card {n. a \<le> n \<and> n < a + q * d \<and> n mod d = r} = q" if "r < d" for a q d r :: nat
proof (induction q)
  case (Suc q)
  define b where "b = a + q * d"
  have "\<exists>!n. b \<le> n \<and> n < b + d \<and> n mod d = r"
  proof
    define k where "k = b + (r + (d - b mod d)) mod d"
    have "(r + (d - b mod d)) mod d < d" using that by simp
    moreover have "k mod d = r"
    proof -
      have "b mod d < d" using that by simp
      then have "b mod d + (r + (d - b mod d)) = r + d" by simp
      moreover have "k mod d = (b mod d + (r + (d - b mod d))) mod d" by (simp only: k_def mod_simps)
      ultimately show ?thesis using that by simp
    qed
    ultimately show "b \<le> k \<and> k < b + d \<and> k mod d = r" by (simp add: k_def)
    show "n = k" if "b \<le> n \<and> n < b + d \<and> n mod d = r" for n
    proof -
      have "n mod d = k mod d" using that \<open>k mod d = r\<close> by simp
      moreover have "b \<le> k" "k < b + d" using \<open>(r + (d - b mod d)) mod d < d\<close> by (auto simp: k_def)
      ultimately show ?thesis
        using that same_residue [of n k d] same_residue [of k n d] by (cases "n \<le> k") auto
    qed
  qed
  then obtain m where m: "{n. b \<le> n \<and> n < b + d \<and> n mod d = r} = {m}" by auto
  have "{n. a \<le> n \<and> n < a + Suc q * d \<and> n mod d = r} =
      {n. a \<le> n \<and> n < b \<and> n mod d = r} \<union> {n. b \<le> n \<and> n < b + d \<and> n mod d = r}" (is "?S = ?L \<union> ?R")
  proof -
    have e: "a + Suc q * d = b + d" "a \<le> b" by (simp_all add: b_def)
    show ?thesis unfolding e(1) using e(2) by auto
  qed
  moreover have "card {n. a \<le> n \<and> n < b \<and> n mod d = r} = q" using Suc by (simp add: b_def)
  moreover have "finite {n. a \<le> n \<and> n < b \<and> n mod d = r}" by (rule finite_subset [of _ "{..<b}"]) auto
  moreover have "?L \<inter> ?R = {}" by auto
  ultimately show ?case using m card_Un_disjoint [of ?L ?R] by simp
qed simp

lemma unat_span:
  assumes "mn \<le> mx" "mx - mn < 2 ^ 32"
  shows "unat ((of_int (mx - mn) :: u64) + 1) = nat (mx - mn + 1)"
proof -
  have "(of_int (mx - mn) :: u64) + 1 = of_int (mx - mn + 1)" by simp
  moreover have "uint (of_int (mx - mn + 1) :: u64) = mx - mn + 1"
    unfolding uint_word_of_int using assms by (intro mod_pos_pos_trivial) auto
  ultimately show ?thesis by (metis nat_uint_eq)
qed

lemma unat_neg_mod:
  assumes "0 < unat (w :: u64)"
  shows "unat ((- w) mod w) = 2 ^ 64 mod unat w"
proof -
  have "unat (- w) = 2 ^ 64 - unat w" using assms unat_sub_if' [of 0 w] by simp
  moreover have "unat w \<le> 2 ^ 64" using unsigned_less [of w, where ?'a = nat] by simp
  ultimately show ?thesis by (simp add: unat_mod_distrib le_mod_geq [symmetric])
qed


lemma neg_mod_less: "0 < unat (w :: u64) \<Longrightarrow> (- w) mod w < w"
  by (simp add: word_less_nat_alt unat_mod_distrib)

lemma rng_threshold_small:
  assumes "0 < unat (w :: u64)" "unat w \<le> 2 ^ 32"
  shows "(- w) mod w \<le> 2 ^ 32"
  using neg_mod_less [OF assms(1)] assms(2) by (simp add: word_less_nat_alt word_le_nat_alt)

lemma rng_residues:
  assumes "r < unat (w :: u64)"
  shows "card {v :: u64. 2 ^ 64 mod unat w \<le> unat v \<and> unat v mod unat w = r} = 2 ^ 64 div unat w"
proof -
  define t where "t = (2 :: nat) ^ 64 mod unat w"
  have all: "t + 2 ^ 64 div unat w * unat w = 2 ^ 64" unfolding t_def by (rule mod_div_mult_eq)
  have "bij_betw unat {v :: u64. t \<le> unat v \<and> unat v mod unat w = r} {n. t \<le> n \<and> n < t + 2 ^ 64 div unat w * unat w \<and> n mod unat w = r}"
    unfolding all
  proof (rule bij_betw_byWitness [where f' = of_nat])
    have "unat (v :: u64) < 2 ^ 64" for v using unsigned_less [of v, where ?'a = nat] by simp
    then show "unat ` {v :: u64. t \<le> unat v \<and> unat v mod unat w = r} \<subseteq> {n. t \<le> n \<and> n < 2 ^ 64 \<and> n mod unat w = r}" by auto
    show "of_nat ` {n. t \<le> n \<and> n < 2 ^ 64 \<and> n mod unat w = r} \<subseteq> {v :: u64. t \<le> unat v \<and> unat v mod unat w = r}"
      by (auto simp: unat_of_nat)
  qed (auto simp: unat_of_nat)
  then have "card {v :: u64. t \<le> unat v \<and> unat v mod unat w = r} =
      card {n. t \<le> n \<and> n < t + 2 ^ 64 div unat w * unat w \<and> n mod unat w = r}" by (rule bij_betw_same_card)
  then show ?thesis unfolding card_residues [OF assms] t_def .
qed

text \<open>
  C17. \<open>rng_range\<close> terminates for every state of the stream and every range of \<open>int\<close>s with $n$
  values. It draws from the stream until a value is at least the remainder of $2^{64}$ by $n$,
  returns the minimum plus the remainder of exactly this value by $n$, and leaves the stream just
  after it. It is unbiased: every result of the range comes from the same number of the 64-bit
  values that it accepts.
\<close>

theorem rng_range_unbiased:
  assumes "mn \<le> mx" "- (2 ^ 31) \<le> mn" "mx < 2 ^ 31" "n = nat (mx - mn + 1)"
  shows "(\<exists>k. (\<forall>j < k. unat (rng_draw rng j) < 2 ^ 64 mod n) \<and> 2 ^ 64 mod n \<le> unat (rng_draw rng k) \<and>
      rng_range rng mn mx = Some (mn + int (unat (rng_draw rng k) mod n), rng_after rng (Suc k))) \<and>
    (\<forall>x. mn \<le> x \<and> x \<le> mx \<longrightarrow> card {v :: u64. 2 ^ 64 mod n \<le> unat v \<and> mn + int (unat v mod n) = x} = 2 ^ 64 div n)"
proof (intro conjI allI impI)
  define w where "w = (of_int (mx - mn) :: u64) + 1"
  have w: "unat w = n" "0 < unat w" "unat w \<le> 2 ^ 32"
    using unat_span [of mn mx] assms by (auto simp: w_def)
  have t: "unat ((- w) mod w) = 2 ^ 64 mod n" using unat_neg_mod [OF w(2)] w(1) by simp
  obtain k where k: "c_loop (rng_reject_step ((- w) mod w)) rng = Some (rng_draw rng k, rng_after rng (Suc k))" "rng_first ((- w) mod w) rng k"
    using rng_reject_total [OF rng_threshold_small [OF w(2,3)]] by blast
  have "rng_range rng mn mx = Some (mn + uint (rng_draw rng k mod w), rng_after rng (Suc k))"
    using assms(1) k(1) by (simp add: rng_range_def Let_def w_def)
  moreover have "uint (rng_draw rng k mod w) = int (unat (rng_draw rng k) mod n)" using w(1) by (metis uint_nat unat_mod_distrib)
  ultimately show "\<exists>k. (\<forall>j < k. unat (rng_draw rng j) < 2 ^ 64 mod n) \<and> 2 ^ 64 mod n \<le> unat (rng_draw rng k) \<and>
      rng_range rng mn mx = Some (mn + int (unat (rng_draw rng k) mod n), rng_after rng (Suc k))"
    using k(2) unfolding rng_first_def word_less_nat_alt t not_less by auto
next
  fix x assume x: "mn \<le> x \<and> x \<le> mx"
  have w: "unat ((of_int (mx - mn) :: u64) + 1) = n" using unat_span [of mn mx] assms by auto
  have "{v :: u64. 2 ^ 64 mod n \<le> unat v \<and> mn + int (unat v mod n) = x} = {v. 2 ^ 64 mod n \<le> unat v \<and> unat v mod n = nat (x - mn)}"
    using x by (intro Collect_cong) linarith
  moreover have "nat (x - mn) < n" using x assms(4) by simp
  ultimately show "card {v :: u64. 2 ^ 64 mod n \<le> unat v \<and> mn + int (unat v mod n) = x} = 2 ^ 64 div n"
    using rng_residues [of "nat (x - mn)" "of_int (mx - mn) + 1"] w by simp
qed

theorem rng_range_unbiased_witness:
  "(\<exists>k. 2 ^ 64 mod (6 :: nat) \<le> unat (rng_draw (rng_seed 42) k) \<and>
     rng_range (rng_seed 42) 1 6 = Some (1 + int (unat (rng_draw (rng_seed 42) k) mod 6), rng_after (rng_seed 42) (Suc k))) \<and>
   card {v :: u64. 2 ^ 64 mod (6 :: nat) \<le> unat v \<and> 1 + int (unat v mod 6) = 4} = 2 ^ 64 div (6 :: nat)"
proof -
  have six: "(6 :: nat) = nat (6 - 1 + 1)" by simp
  have small: "(1 :: int) \<le> 6" "- (2 ^ 31) \<le> (1 :: int)" "(6 :: int) < 2 ^ 31" "1 \<le> (4 :: int) \<and> 4 \<le> (6 :: int)" by simp_all
  note range = rng_range_unbiased [OF small(1-3) six, of "rng_seed 42"]
  show ?thesis
  proof
    show "\<exists>k. 2 ^ 64 mod (6 :: nat) \<le> unat (rng_draw (rng_seed 42) k) \<and>
        rng_range (rng_seed 42) 1 6 = Some (1 + int (unat (rng_draw (rng_seed 42) k) mod 6), rng_after (rng_seed 42) (Suc k))"
      using range by blast
    show "card {v :: u64. 2 ^ 64 mod (6 :: nat) \<le> unat v \<and> 1 + int (unat v mod 6) = 4} = 2 ^ 64 div (6 :: nat)"
      using range [THEN conjunct2, rule_format, OF small(4)] .
  qed
qed


section \<open>Square roots and powers of two\<close>

lemma isqrt_loop_root:
  assumes "R * R \<le> n" "n < (R + 2 ^ j) * (R + 2 ^ j)"
  shows "isqrt_loop (if j = 0 then 0 else 4 ^ (j - 1)) (n - R * R) (R * 2 ^ j) * isqrt_loop (if j = 0 then 0 else 4 ^ (j - 1)) (n - R * R) (R * 2 ^ j) \<le> n \<and>
    n < (isqrt_loop (if j = 0 then 0 else 4 ^ (j - 1)) (n - R * R) (R * 2 ^ j) + 1) *
      (isqrt_loop (if j = 0 then 0 else 4 ^ (j - 1)) (n - R * R) (R * 2 ^ j) + 1)"
  using assms
proof (induction j arbitrary: R)
  case 0
  then show ?case by (simp add: isqrt_loop.simps)
next
  case (Suc j)
  define S where "S = R + 2 ^ j"
  have four: "(4 :: nat) ^ j = 2 ^ j * 2 ^ j" by (simp flip: power_mult_distrib)
  have SS: "S * S = R * R + (R * 2 ^ Suc j + 4 ^ j)" by (simp add: S_def four algebra_simps)
  have one: "(4 :: nat) ^ j div 4 = (if j = 0 then 0 else 4 ^ (j - 1))" by (cases j) auto
  show ?case
  proof (cases "S * S \<le> n")
    case True
    have half: "(R * 2 ^ Suc j + 2 * 4 ^ j) div 2 = S * 2 ^ j" by (simp add: S_def four algebra_simps)
    have "isqrt_loop (4 ^ j) (n - R * R) (R * 2 ^ Suc j) = isqrt_loop (if j = 0 then 0 else 4 ^ (j - 1)) (n - S * S) (S * 2 ^ j)"
      using True SS half one by (subst isqrt_loop.simps) (auto simp: Let_def)
    then show ?thesis using Suc.IH [of S] True Suc.prems(2) by (simp add: S_def algebra_simps)
  next
    case False
    have "isqrt_loop (4 ^ j) (n - R * R) (R * 2 ^ Suc j) = isqrt_loop (if j = 0 then 0 else 4 ^ (j - 1)) (n - R * R) (R * 2 ^ j)"
      using False SS one Suc.prems(1) by (subst isqrt_loop.simps) (auto simp: Let_def)
    then show ?thesis using Suc.IH [of R] False Suc.prems(1) by (simp add: S_def)
  qed
qed

lemma isqrt_start_power:
  assumes "n < 4 ^ Suc k"
  shows "\<exists>j. isqrt_start (4 ^ k) n = (if j = 0 then 0 else 4 ^ (j - 1)) \<and> n < 4 ^ j"
  using assms
proof (induction k)
  case 0
  show ?case
  proof (cases "n = 0")
    case True
    have "isqrt_start 1 0 = 0" by (simp add: isqrt_start.simps)
    then show ?thesis using True by (intro exI [of _ 0]) simp
  next
    case False
    then show ?thesis using 0 by (intro exI [of _ 1]) (simp add: isqrt_start.simps)
  qed
next
  case (Suc k)
  show ?case
  proof (cases "4 ^ Suc k > n")
    case True
    then show ?thesis using Suc.IH by (subst isqrt_start.simps) simp
  next
    case False
    then show ?thesis using Suc.prems by (intro exI [of _ "Suc (Suc k)"]) (simp add: isqrt_start.simps)
  qed
qed

text \<open>
  \<open>isqrt\<close> is the integer square root of every argument below $2^{32}$; at $2^{32}$, which an
  \<open>unsigned long\<close> holds on LP64, it is wrong: the root is 65536 and \<open>isqrt\<close> returns 65535.
\<close>

theorem isqrt_exact:
  "(\<forall>n. n < 2 ^ 32 \<longrightarrow> isqrt n * isqrt n \<le> n \<and> n < (isqrt n + 1) * (isqrt n + 1)) \<and> isqrt (2 ^ 32) = 65535"
proof (intro conjI allI impI)
  fix n :: nat
  assume "n < 2 ^ 32"
  then obtain j where j: "isqrt_start (4 ^ 15) n = (if j = 0 then 0 else 4 ^ (j - 1))" "n < 4 ^ j"
    using isqrt_start_power [of n 15] by auto
  have e: "isqrt n = isqrt_loop (if j = 0 then 0 else 4 ^ (j - 1)) (n - 0 * 0) (0 * 2 ^ j)"
    using j(1) by (simp add: isqrt_def)
  have "n < (0 + 2 ^ j) * (0 + 2 ^ j)" using j(2) by (simp flip: power_mult_distrib)
  then have "isqrt n * isqrt n \<le> n \<and> n < (isqrt n + 1) * (isqrt n + 1)"
    unfolding e by (intro isqrt_loop_root) auto
  then show "isqrt n * isqrt n \<le> n" "n < (isqrt n + 1) * (isqrt n + 1)" by auto
next
  show "isqrt (2 ^ 32) = 65535" by code_simp
qed

theorem isqrt_exact_witness: "isqrt 1000 * isqrt 1000 \<le> 1000 \<and> 1000 < (isqrt 1000 + 1) * (isqrt 1000 + 1)"
  using isqrt_exact [THEN conjunct1, rule_format, of 1000] by simp

text \<open>The exponent, and the shift that is undefined above $2^{31}$.\<close>

lemma nearest_pow_two_loop:
  assumes "7 \<le> i" "i \<le> 31" "2 ^ (i - 1) < n" "n \<le> 2 ^ 31"
  shows "\<exists>e. c_loop (nearest_pow_two_step n) i = Some e \<and> n \<le> 2 ^ e \<and> 2 ^ (e - 1) < n"
  using assms
proof (induction "31 - i" arbitrary: i rule: less_induct)
  case less
  show ?case
  proof (cases "2 ^ i < n")
    case True
    then have "i < 31" using less.prems(2,4) by (cases "i = 31") auto
    then have "\<exists>e. c_loop (nearest_pow_two_step n) (i + 1) = Some e \<and> n \<le> 2 ^ e \<and> 2 ^ (e - 1) < n"
      using less.hyps [of "i + 1"] less.prems True by simp
    moreover have "nearest_pow_two_step n i = Some (Inl (i + 1))"
      using True \<open>i < 31\<close> by (simp add: nearest_pow_two_step_def)
    ultimately show ?thesis by (simp add: c_loop_continue)
  next
    case False
    then have "nearest_pow_two_step n i = Some (Inr i)"
      using less.prems(2) by (simp add: nearest_pow_two_step_def)
    then show ?thesis using False less.prems by (simp add: c_loop_leave)
  qed
qed

lemma exp_lookup_exact: "n \<le> 64 \<Longrightarrow> n \<le> 2 ^ (exp_lookup ! n) \<and> (exp_lookup ! n = 0 \<or> 2 ^ (exp_lookup ! n - 1) < n)"
proof -
  assume "n \<le> 64"
  then have "n \<in> set [0..<65]" by simp
  moreover have "list_all (\<lambda>n. n \<le> 2 ^ (exp_lookup ! n) \<and> (exp_lookup ! n = 0 \<or> 2 ^ (exp_lookup ! n - 1) < n)) [0..<65]"
    by code_simp
  ultimately show ?thesis unfolding list_all_iff by blast
qed

lemma nearest_pow_two_exact:
  assumes "n \<le> 2 ^ 31"
  shows "\<exists>e. nearest_pow_two_exp n = Some e \<and> n \<le> 2 ^ e \<and> (e = 0 \<or> 2 ^ (e - 1) < n)"
proof (cases "n \<le> 64")
  case True
  then show ?thesis using exp_lookup_exact by (simp add: nearest_pow_two_exp_def)
next
  case False
  then show ?thesis
    using nearest_pow_two_loop [of 7 n] assms by (auto simp: nearest_pow_two_exp_def)
qed

end
