(* ===== verification/Sort_List.thy ===== *)
theory Sort_List
  imports Prelude
begin

unbundle bit_operations_syntax

text \<open>
  \<open>sort_linked_list\<close> of \<open>src/math.c\<close>: a merge sort of a singly linked list that distributes
  the records over two tapes and merges runs back and forth between two pairs of tapes.

  Pointers are natural numbers and \<open>NULL\<close> is 0; the heap holds the pointer \<open>next[index]\<close> of
  every record. The tapes, an array of the function's frame, hold indeterminate values before
  they are assigned; the model takes them as an argument. The comparison function is a
  parameter: it sees the two records, and no \<open>next\<close> pointer. The counters are natural
  numbers, since they never exceed the number of records in memory.
\<close>

section \<open>The sort\<close>

record sl_tape =
  tp_first :: nat
  tp_last :: nat
  tp_count :: nat

record sl_state =
  sl_next :: "nat \<Rightarrow> nat"
  sl_tapes :: "nat \<Rightarrow> sl_tape"

definition sl_distribute_step ::
  "nat \<Rightarrow> nat \<times> nat \<times> sl_state \<Rightarrow> (nat \<times> nat \<times> sl_state + sl_state) option" where
  "sl_distribute_step end_marker = (\<lambda>(p, base, st).
     Some (if p = end_marker then Inr st
       else let nxt = sl_next st p; tape = sl_tapes st base;
              st = st\<lparr>sl_next := (sl_next st)(p := tp_first tape),
                      sl_tapes := (sl_tapes st)(base := tape\<lparr>tp_first := p, tp_count := tp_count tape + 1\<rparr>)\<rparr>
            in Inl (nxt, base XOR 1, st)))"

text \<open>Moving the first record of one tape to the end of another.\<close>

definition sl_move :: "nat \<Rightarrow> nat \<Rightarrow> sl_state \<Rightarrow> sl_state" where
  "sl_move chosen out st = (let
     tape = sl_tapes st chosen; rec = tp_first tape;
     st = st\<lparr>sl_tapes := (sl_tapes st)(chosen := tape\<lparr>tp_count := tp_count tape - 1, tp_first := sl_next st rec\<rparr>)\<rparr>;
     output = sl_tapes st out;
     st = (if tp_count output = 0
           then st\<lparr>sl_tapes := (sl_tapes st)(out := output\<lparr>tp_first := rec\<rparr>)\<rparr>
           else st\<lparr>sl_next := (sl_next st)(tp_last output := rec)\<rparr>);
     output = sl_tapes st out
   in st\<lparr>sl_tapes := (sl_tapes st)(out := output\<lparr>tp_last := rec, tp_count := tp_count output + 1\<rparr>)\<rparr>)"

definition sl_merge_step ::
  "(nat \<Rightarrow> nat \<Rightarrow> int) \<Rightarrow> nat \<Rightarrow> nat \<Rightarrow> nat \<times> nat \<times> sl_state \<Rightarrow> (nat \<times> nat \<times> sl_state + sl_state) option" where
  "sl_merge_step compare base out = (\<lambda>(n0, n1, st).
     Some (let tape0 = sl_tapes st base; tape1 = sl_tapes st (base + 1) in
       if n0 = 0 \<or> tp_count tape0 = 0 then
         if n1 = 0 \<or> tp_count tape1 = 0 then Inr st
         else Inl (n0, n1 - 1, sl_move (base + 1) out st)
       else if n1 = 0 \<or> tp_count tape1 = 0 then Inl (n0 - 1, n1, sl_move base out st)
       else if compare (tp_first tape0) (tp_first tape1) > 0 then Inl (n0, n1 - 1, sl_move (base + 1) out st)
       else Inl (n0 - 1, n1, sl_move base out st)))"

definition sl_pass_step ::
  "(nat \<Rightarrow> nat \<Rightarrow> int) \<Rightarrow> nat \<Rightarrow> nat \<Rightarrow> nat \<times> sl_state \<Rightarrow> (nat \<times> sl_state + sl_state) option" where
  "sl_pass_step compare base block_size = (\<lambda>(dest, st).
     if tp_count (sl_tapes st base) = 0 then Some (Inr st)
     else do {
       st \<leftarrow> c_loop (sl_merge_step compare base dest) (block_size, block_size, st);
       Some (Inl (dest XOR 1, st))
     })"

definition sl_clear :: "nat \<Rightarrow> sl_state \<Rightarrow> sl_state" where
  "sl_clear t st = st\<lparr>sl_tapes := (sl_tapes st)(t := (sl_tapes st t)\<lparr>tp_count := 0\<rparr>)\<rparr>"

definition sl_passes_step ::
  "(nat \<Rightarrow> nat \<Rightarrow> int) \<Rightarrow> nat \<times> nat \<times> sl_state \<Rightarrow> (nat \<times> nat \<times> sl_state + nat \<times> sl_state) option" where
  "sl_passes_step compare = (\<lambda>(base, block_size, st).
     if tp_count (sl_tapes st (base + 1)) = 0 then Some (Inr (base, st))
     else do {
       let dest = base XOR 2;
       st \<leftarrow> c_loop (sl_pass_step compare base block_size) (dest, sl_clear dest (sl_clear (dest + 1) st));
       Some (Inl (base XOR 2, 2 * block_size, st))
     })"

text \<open>The result: the first record, the count for \<open>*pcount\<close>, and the \<open>next\<close> pointers.\<close>

definition sort_linked_list ::
  "(nat \<Rightarrow> sl_tape) \<Rightarrow> (nat \<Rightarrow> nat \<Rightarrow> int) \<Rightarrow> nat \<Rightarrow> nat \<Rightarrow> (nat \<Rightarrow> nat) \<Rightarrow> (nat \<times> nat \<times> (nat \<Rightarrow> nat)) option" where
  "sort_linked_list junk compare end_marker p nxt = do {
     let st = sl_clear 0 (sl_clear 1 \<lparr>sl_next = nxt, sl_tapes = junk\<rparr>);
     let st = st\<lparr>sl_tapes := (sl_tapes st)(0 := (sl_tapes st 0)\<lparr>tp_first := 0\<rparr>)\<rparr>;
     st \<leftarrow> c_loop (sl_distribute_step end_marker) (p, 0, st);
     (base, st) \<leftarrow> c_loop (sl_passes_step compare) (0, 1, st);
     let tape = sl_tapes st base;
     let st = (if tp_count tape > 1 then st\<lparr>sl_next := (sl_next st)(tp_last tape := end_marker)\<rparr> else st);
     Some (tp_first tape, tp_count tape, sl_next st)
   }"

section \<open>Reference: merging on lists\<close>

fun sl_merge :: "(nat \<Rightarrow> nat \<Rightarrow> int) \<Rightarrow> nat list \<Rightarrow> nat list \<Rightarrow> nat list" where
  "sl_merge cmp [] ys = ys"
| "sl_merge cmp xs [] = xs"
| "sl_merge cmp (x # xs) (y # ys) =
     (if cmp x y > 0 then y # sl_merge cmp (x # xs) ys else x # sl_merge cmp xs (y # ys))"

abbreviation sl_sorted :: "(nat \<Rightarrow> nat \<Rightarrow> int) \<Rightarrow> nat list \<Rightarrow> bool" where
  "sl_sorted cmp \<equiv> sorted_wrt (\<lambda>x y. cmp x y \<le> 0)"

lemma mset_sl_merge: "mset (sl_merge cmp xs ys) = mset xs + mset ys"
  by (induction cmp xs ys rule: sl_merge.induct) auto

lemma set_sl_merge: "set (sl_merge cmp xs ys) = set xs \<union> set ys"
  by (metis mset_sl_merge set_mset_mset set_mset_union)

lemma length_sl_merge: "length (sl_merge cmp xs ys) = length xs + length ys"
  by (metis mset_sl_merge size_mset size_union)

definition sl_order :: "(nat \<Rightarrow> nat \<Rightarrow> int) \<Rightarrow> bool" where
  "sl_order cmp \<longleftrightarrow> (\<forall>x y. cmp x y > 0 \<longrightarrow> cmp y x \<le> 0) \<and>
     (\<forall>x y z. cmp x y \<le> 0 \<longrightarrow> cmp y z \<le> 0 \<longrightarrow> cmp x z \<le> 0)"

lemma sl_orderD:
  assumes "sl_order cmp"
  shows "cmp x y > 0 \<Longrightarrow> cmp y x \<le> 0" "cmp x y \<le> 0 \<Longrightarrow> cmp y z \<le> 0 \<Longrightarrow> cmp x z \<le> 0"
  using assms unfolding sl_order_def by blast+

lemma sorted_sl_merge:
  assumes "sl_order cmp" "sl_sorted cmp xs" "sl_sorted cmp ys"
  shows "sl_sorted cmp (sl_merge cmp xs ys)"
  using assms
proof (induction cmp xs ys rule: sl_merge.induct)
  case (3 cmp x xs y ys)
  have tr: "cmp a b \<le> 0 \<Longrightarrow> cmp b c \<le> 0 \<Longrightarrow> cmp a c \<le> 0" for a b c using sl_orderD(2) [OF 3(3)] .
  show ?case
  proof (cases "cmp x y > 0")
    case True
    then have "cmp y x \<le> 0" using sl_orderD(1) [OF 3(3)] by simp
    then show ?thesis using 3 True tr by (auto simp: set_sl_merge)
  next
    case False
    then have "cmp x y \<le> 0" by simp
    moreover from this have "\<And>z. z \<in> set ys \<Longrightarrow> cmp x z \<le> 0" using 3(5) tr by auto
    ultimately show ?thesis using 3 False by (auto simp: set_sl_merge)
  qed
qed auto

text \<open>One pass: runs of length \<open>b\<close> are merged in pairs, the results going to alternate lists.\<close>

function sl_pass :: "(nat \<Rightarrow> nat \<Rightarrow> int) \<Rightarrow> nat \<Rightarrow> nat list \<Rightarrow> nat list \<Rightarrow> nat list \<times> nat list" where
  "sl_pass cmp b A B = (if A = [] \<or> b = 0 then ([], [])
     else let (D1, D0) = sl_pass cmp b (drop b A) (drop b B)
          in (sl_merge cmp (take b A) (take b B) @ D0, D1))"
  by pat_completeness auto
termination by (relation "measure (\<lambda>(cmp, b, A, B). length A)") auto

declare sl_pass.simps [simp del]

text \<open>
  Two lists of runs of length \<open>b\<close>, dealt out alternately: only the last run dealt may be
  shorter.
\<close>

function sl_runs :: "(nat \<Rightarrow> nat \<Rightarrow> int) \<Rightarrow> nat \<Rightarrow> nat list \<Rightarrow> nat list \<Rightarrow> bool" where
  "sl_runs cmp b A B = (if A = [] \<or> b = 0 then A = [] \<and> B = []
     else sl_sorted cmp (take b A) \<and> sl_sorted cmp (take b B) \<and>
       (length A < b \<longrightarrow> B = []) \<and> (length B < b \<longrightarrow> length A \<le> b) \<and>
       sl_runs cmp b (drop b A) (drop b B))"
  by pat_completeness auto
termination by (relation "measure (\<lambda>(cmp, b, A, B). length A)") auto

declare sl_runs.simps [simp del]

lemma sl_runs_Nil [simp]: "sl_runs cmp b [] B \<longleftrightarrow> B = []"
  by (simp add: sl_runs.simps)

lemma sl_runs_swap:
  assumes "sl_runs cmp b A B" "A \<noteq> []"
  shows "sl_runs cmp b B (drop b A)"
  using assms
proof (induction cmp b A B rule: sl_runs.induct)
  case (1 cmp b A B)
  note r = 1(2) [unfolded sl_runs.simps [of cmp b A B]]
  have b: "0 < b" using r 1(3) by (auto split: if_splits)
  show ?case
  proof (cases "B = []")
    case True
    then show ?thesis using r 1(3) b by auto
  next
    case False
    have rest: "sl_runs cmp b (drop b A) (drop b B)" using r 1(3) b by auto
    have IH: "drop b A \<noteq> [] \<Longrightarrow> sl_runs cmp b (drop b B) (drop b (drop b A))"
      using 1(1) 1(3) b rest by blast
    have "sl_sorted cmp (take b (drop b A))"
      using rest b by (cases "drop b A = []") (auto simp: sl_runs.simps [of cmp b "drop b A"])
    moreover have "length (drop b A) < b \<longrightarrow> length B \<le> b"
      using rest b by (cases "drop b A = []") (auto simp: sl_runs.simps [of cmp b "drop b A"])
    moreover have "sl_runs cmp b (drop b B) (drop b (drop b A))"
      using IH rest by (cases "drop b A = []") auto
    ultimately show ?thesis
      using r 1(3) b False by (simp add: sl_runs.simps [of cmp b B])
  qed
qed

lemma sl_runs_deal:
  assumes r: "sl_runs cmp c X Y" and M: "sl_sorted cmp M" "M \<noteq> []" "length M \<le> c" "length M = c \<or> X = []"
  shows "sl_runs cmp c (M @ Y) X"
proof (cases "X = []")
  case True
  moreover have "0 < c" using M(2,3) by (cases M) auto
  ultimately show ?thesis using r M by (auto simp: sl_runs.simps [of cmp c M])
next
  case False
  then have "length M = c" "0 < c" using M by auto
  moreover have "sl_sorted cmp (take c X)" "length X < c \<longrightarrow> Y = []"
    using r False \<open>0 < c\<close> by (auto simp: sl_runs.simps [of cmp c X])
  ultimately show ?thesis
    using sl_runs_swap [OF r False] M by (simp add: sl_runs.simps [of cmp c "M @ Y"])
qed

lemma sl_pass_runs:
  assumes "sl_order cmp" "sl_runs cmp b A B" "0 < b" "sl_pass cmp b A B = (D0, D1)"
  shows "sl_runs cmp (2 * b) D0 D1 \<and> mset D0 + mset D1 = mset A + mset B \<and> (A = [] \<longrightarrow> D0 = [])"
  using assms
proof (induction cmp b A B arbitrary: D0 D1 rule: sl_pass.induct)
  case (1 cmp b A B)
  show ?case
  proof (cases "A = []")
    case True
    then show ?thesis using 1 by (auto simp: sl_pass.simps [of cmp b])
  next
    case False
    note r = 1(3) [unfolded sl_runs.simps [of cmp b A B]]
    obtain E1 E0 where E: "sl_pass cmp b (drop b A) (drop b B) = (E1, E0)" by fastforce
    define M where "M = sl_merge cmp (take b A) (take b B)"
    have D: "D0 = M @ E0" "D1 = E1"
      using 1(5) E False 1(4) by (simp_all add: sl_pass.simps [of cmp b A B] M_def)
    have IH: "sl_runs cmp (2 * b) E1 E0" "mset E1 + mset E0 = mset (drop b A) + mset (drop b B)"
      "drop b A = [] \<longrightarrow> E1 = []"
      using 1(1) [OF _ 1(2) _ 1(4) E] False r 1(4) by auto
    have "sl_sorted cmp M" unfolding M_def using r False 1(2,4) by (intro sorted_sl_merge) auto
    moreover have lM: "length M = min (length A) b + min (length B) b"
      by (simp add: M_def length_sl_merge)
    then have "M \<noteq> []" using False 1(4) by (cases M; cases A) auto
    moreover have "length M \<le> 2 * b" using lM by simp
    moreover have "length M = 2 * b \<or> E1 = []"
      using r False 1(4) IH(3) lM by (cases "length B < b") auto
    ultimately have "sl_runs cmp (2 * b) D0 D1" unfolding D by (rule sl_runs_deal [OF IH(1)])
    moreover have "mset A = mset (take b A) + mset (drop b A)" "mset B = mset (take b B) + mset (drop b B)"
      by (metis append_take_drop_id mset_append)+
    ultimately show ?thesis using IH(2) False by (simp add: D M_def mset_sl_merge add.commute [of "mset E0"])
  qed
qed


section \<open>Tapes as lists\<close>

fun sl_chain :: "(nat \<Rightarrow> nat) \<Rightarrow> nat \<Rightarrow> nat \<Rightarrow> nat list" where
  "sl_chain nx p 0 = []"
| "sl_chain nx p (Suc n) = p # sl_chain nx (nx p) n"

definition sl_list :: "sl_state \<Rightarrow> nat \<Rightarrow> nat list" where
  "sl_list st t = sl_chain (sl_next st) (tp_first (sl_tapes st t)) (tp_count (sl_tapes st t))"

definition sl_last :: "sl_state \<Rightarrow> nat \<Rightarrow> bool" where
  "sl_last st t \<longleftrightarrow> sl_list st t \<noteq> [] \<longrightarrow> tp_last (sl_tapes st t) = last (sl_list st t)"

lemma length_sl_chain [simp]: "length (sl_chain nx p n) = n"
  by (induction n arbitrary: p) auto

lemma tp_count_list: "tp_count (sl_tapes st t) = length (sl_list st t)"
  by (simp add: sl_list_def)

lemma sl_list_Cons:
  assumes "sl_list st t = x # xs"
  shows "tp_first (sl_tapes st t) = x"
    "sl_chain (sl_next st) (sl_next st x) (tp_count (sl_tapes st t) - 1) = xs"
  using assms by (cases "tp_count (sl_tapes st t)"; simp add: sl_list_def)+

lemma sl_chain_frame: "q \<notin> set (sl_chain nx p n) \<Longrightarrow> sl_chain (nx(q := v)) p n = sl_chain nx p n"
  by (induction n arbitrary: p) auto

lemma sl_chain_snoc:
  assumes "distinct (sl_chain nx p n)" "0 < n"
  shows "sl_chain (nx(last (sl_chain nx p n) := x)) p (Suc n) = sl_chain nx p n @ [x]"
  using assms
proof (induction n arbitrary: p)
  case (Suc n)
  show ?case
  proof (cases n)
    case (Suc k)
    then have "last (sl_chain nx p (Suc n)) = last (sl_chain nx (nx p) n)" by simp
    moreover have "p \<noteq> last (sl_chain nx (nx p) n)"
      using Suc Suc.prems by (metis distinct.simps(2) last_in_set length_sl_chain list.size(3) nat.distinct(1) sl_chain.simps(2))
    ultimately show ?thesis using Suc.IH [of "nx p"] Suc.prems Suc by (simp del: sl_chain.simps(2) add: sl_chain.simps(2) [of _ p])
  qed simp
qed simp

lemma sl_chain_take: "take n (sl_chain nx p (Suc n)) = sl_chain nx p n"
  by (induction n arbitrary: p) auto

lemma sl_move_chosen:
  assumes "sl_list st chosen = x # xs" "chosen \<noteq> out" "distinct (sl_list st out)" "sl_last st out"
    "set (x # xs) \<inter> set (sl_list st out) = {}"
  shows "sl_list (sl_move chosen out st) chosen = xs"
    "sl_list (sl_move chosen out st) out = sl_list st out @ [x]"
    "sl_last (sl_move chosen out st) out"
proof -
  define Q where "Q = sl_list st out"
  note x = sl_list_Cons [OF assms(1)]
  have c: "tp_count (sl_tapes st out) = length Q" by (simp add: Q_def tp_count_list)
  have Q: "sl_chain (sl_next st) (tp_first (sl_tapes st out)) (length Q) = Q" unfolding c [symmetric] by (simp add: Q_def sl_list_def)
  have l: "Q \<noteq> [] \<Longrightarrow> tp_last (sl_tapes st out) = last Q" using assms(4) by (simp add: sl_last_def Q_def)
  have d: "distinct Q" "set (x # xs) \<inter> set Q = {}" using assms by (simp_all add: Q_def)
  show 1: "sl_list (sl_move chosen out st) chosen = xs"
  proof (cases "Q = []")
    case True
    then show ?thesis using x assms(2) c by (simp add: sl_move_def Let_def sl_list_def)
  next
    case False
    then have "last Q \<notin> set xs" "last Q \<noteq> x" using d(2) last_in_set [OF False] by auto
    then show ?thesis
      using False x assms(2) c l by (simp add: sl_move_def Let_def sl_list_def sl_chain_frame)
  qed
  have snoc: "Q \<noteq> [] \<Longrightarrow> sl_chain ((sl_next st)(last Q := x)) (tp_first (sl_tapes st out)) (Suc (length Q)) = Q @ [x]"
    using sl_chain_snoc [of "sl_next st" "tp_first (sl_tapes st out)" "length Q" x] Q d(1) by simp
  show 2: "sl_list (sl_move chosen out st) out = sl_list st out @ [x]"
    using x assms(2) c l snoc Q by (cases "Q = []") (simp_all add: sl_move_def Let_def sl_list_def flip: Q_def [unfolded sl_list_def])
  show "sl_last (sl_move chosen out st) out"
    unfolding sl_last_def 2 using x assms(2) by (simp add: sl_move_def Let_def)
qed

lemma sl_move_other:
  assumes "t \<noteq> chosen" "t \<noteq> out" "chosen \<noteq> out" "sl_last st out" "set (sl_list st t) \<inter> set (sl_list st out) = {}"
  shows "sl_list (sl_move chosen out st) t = sl_list st t"
    "sl_last (sl_move chosen out st) t \<longleftrightarrow> sl_last st t"
proof -
  have tapes: "sl_tapes (sl_move chosen out st) t = sl_tapes st t"
    using assms(1,2) by (simp add: sl_move_def Let_def)
  have nx: "sl_next (sl_move chosen out st) = (if sl_list st out = [] then sl_next st
      else (sl_next st)(tp_last (sl_tapes st out) := tp_first (sl_tapes st chosen)))"
    using assms(3) tp_count_list [of st out] by (simp add: sl_move_def Let_def)
  have "sl_list st out \<noteq> [] \<Longrightarrow> tp_last (sl_tapes st out) \<notin> set (sl_list st t)"
    using assms(4,5) last_in_set [of "sl_list st out"] by (auto simp: sl_last_def)
  then show "sl_list (sl_move chosen out st) t = sl_list st t"
    by (simp add: sl_list_def tapes nx sl_chain_frame)
  then show "sl_last (sl_move chosen out st) t \<longleftrightarrow> sl_last st t" by (simp add: sl_last_def tapes)
qed

text \<open>The inner loop merges one run of each input tape onto the output tape.\<close>

definition sl_merged ::
  "(nat \<Rightarrow> nat \<Rightarrow> int) \<Rightarrow> nat \<Rightarrow> nat \<Rightarrow> nat \<Rightarrow> nat \<Rightarrow> sl_state \<Rightarrow> sl_state \<Rightarrow> bool" where
  "sl_merged cmp base out n0 n1 st st' \<longleftrightarrow>
     sl_list st' base = drop n0 (sl_list st base) \<and>
     sl_list st' (base + 1) = drop n1 (sl_list st (base + 1)) \<and>
     sl_list st' out = sl_list st out @ sl_merge cmp (take n0 (sl_list st base)) (take n1 (sl_list st (base + 1))) \<and>
     sl_last st' out \<and>
     (\<forall>t. t \<noteq> base \<and> t \<noteq> base + 1 \<and> t \<noteq> out \<and>
        set (sl_list st t) \<inter> set (sl_list st base @ sl_list st (base + 1) @ sl_list st out) = {} \<longrightarrow>
        sl_list st' t = sl_list st t \<and> (sl_last st' t \<longleftrightarrow> sl_last st t))"

definition sl_apart :: "nat \<Rightarrow> nat \<Rightarrow> sl_state \<Rightarrow> bool" where
  "sl_apart base out st \<longleftrightarrow> out \<noteq> base \<and> out \<noteq> base + 1 \<and> sl_last st out \<and>
     distinct (sl_list st base @ sl_list st (base + 1) @ sl_list st out)"

lemma sl_merge_simps:
  "sl_merge cmp xs [] = xs"
  by (cases xs) auto

lemma sl_move_apart:
  assumes a: "sl_apart base out st" and chosen: "chosen = base \<or> chosen = base + 1"
    and x: "sl_list st chosen = x # xs"
  shows "sl_list (sl_move chosen out st) chosen = xs"
    "sl_list (sl_move chosen out st) out = sl_list st out @ [x]"
    "t \<noteq> chosen \<Longrightarrow> t \<noteq> out \<Longrightarrow> set (sl_list st t) \<inter> set (sl_list st out) = {} \<Longrightarrow>
      sl_list (sl_move chosen out st) t = sl_list st t \<and> (sl_last (sl_move chosen out st) t \<longleftrightarrow> sl_last st t)"
    "sl_apart base out (sl_move chosen out st)"
proof -
  have d: "chosen \<noteq> out" "distinct (sl_list st out)" "sl_last st out" "set (x # xs) \<inter> set (sl_list st out) = {}"
    using a x chosen by (auto simp: sl_apart_def)
  note ch = sl_move_chosen [OF x d]
  show "sl_list (sl_move chosen out st) chosen = xs"
    "sl_list (sl_move chosen out st) out = sl_list st out @ [x]" by (rule ch)+
  have o: "sl_list (sl_move chosen out st) t = sl_list st t \<and> (sl_last (sl_move chosen out st) t \<longleftrightarrow> sl_last st t)"
    if "t \<noteq> chosen" "t \<noteq> out" "set (sl_list st t) \<inter> set (sl_list st out) = {}" for t
    using sl_move_other [of t chosen out st] that d by simp
  show "t \<noteq> chosen \<Longrightarrow> t \<noteq> out \<Longrightarrow> set (sl_list st t) \<inter> set (sl_list st out) = {} \<Longrightarrow>
      sl_list (sl_move chosen out st) t = sl_list st t \<and> (sl_last (sl_move chosen out st) t \<longleftrightarrow> sl_last st t)"
    by (rule o)
  have "sl_list (sl_move chosen out st) t = sl_list st t" if "t = base \<or> t = base + 1" "t \<noteq> chosen" for t
    using o [OF that(2)] that a by (auto simp: sl_apart_def)
  then show "sl_apart base out (sl_move chosen out st)"
    using chosen a x ch by (auto simp: sl_apart_def)
qed

text \<open>
  The loop, by the number of records that it may still take; the arithmetic of \<open>n0\<close> and \<open>n1\<close>
  is that of the lists \<open>take n0 _\<close> and \<open>take n1 _\<close>.
\<close>

lemma sl_merged_move:
  assumes a: "sl_apart base out st" and chosen: "chosen = base \<or> chosen = base + 1"
    and x: "sl_list st chosen = x # xs"
    and m: "sl_merged cmp base out n0' n1' (sl_move chosen out st) st'"
    and n: "chosen = base \<Longrightarrow> n0 = Suc n0' \<and> n1 = n1'" "chosen = base + 1 \<Longrightarrow> n1 = Suc n1' \<and> n0 = n0'"
    and c: "sl_merge cmp (take n0 (sl_list st base)) (take n1 (sl_list st (base + 1))) =
      x # sl_merge cmp (take n0' (sl_list (sl_move chosen out st) base))
        (take n1' (sl_list (sl_move chosen out st) (base + 1)))"
  shows "sl_merged cmp base out n0 n1 st st'"
proof -
  note mv = sl_move_apart [OF a chosen x]
  have o: "sl_list (sl_move chosen out st) t = sl_list st t" if "t = base \<or> t = base + 1" "t \<noteq> chosen" for t
    using mv(3) [of t] that a by (auto simp: sl_apart_def)
  show ?thesis
    unfolding sl_merged_def
  proof (intro conjI allI impI)
    show "sl_list st' base = drop n0 (sl_list st base)"
      using m n mv(1) x o [of base] chosen by (auto simp: sl_merged_def)
    show "sl_list st' (base + 1) = drop n1 (sl_list st (base + 1))"
      using m n mv(1) x o [of "base + 1"] chosen by (auto simp: sl_merged_def)
    show "sl_list st' out = sl_list st out @ sl_merge cmp (take n0 (sl_list st base)) (take n1 (sl_list st (base + 1)))"
      using m mv(2) unfolding c by (simp add: sl_merged_def)
    show "sl_last st' out" using m by (simp add: sl_merged_def)
    fix t
    assume t: "t \<noteq> base \<and> t \<noteq> base + 1 \<and> t \<noteq> out \<and>
      set (sl_list st t) \<inter> set (sl_list st base @ sl_list st (base + 1) @ sl_list st out) = {}"
    then have 1: "sl_list (sl_move chosen out st) t = sl_list st t \<and> sl_last (sl_move chosen out st) t = sl_last st t"
      using mv(3) [of t] chosen by auto
    have sub: "set (sl_list (sl_move chosen out st) base @ sl_list (sl_move chosen out st) (base + 1) @ sl_list (sl_move chosen out st) out)
      \<subseteq> set (sl_list st base @ sl_list st (base + 1) @ sl_list st out)"
      using mv(1,2) x o [of base] o [of "base + 1"] chosen by auto
    have disj: "X \<inter> U = {}" if "X \<inter> W = {}" "U \<subseteq> W" for X U W :: "nat set" using that by blast
    have "set (sl_list (sl_move chosen out st) t) \<inter> set (sl_list (sl_move chosen out st) base @
        sl_list (sl_move chosen out st) (base + 1) @ sl_list (sl_move chosen out st) out) = {}"
      unfolding 1 [THEN conjunct1] using t by (intro disj [OF _ sub]) blast
    then have "sl_list st' t = sl_list (sl_move chosen out st) t \<and> (sl_last st' t \<longleftrightarrow> sl_last (sl_move chosen out st) t)"
      using m t unfolding sl_merged_def by blast
    then show "sl_list st' t = sl_list st t" "sl_last st' t \<longleftrightarrow> sl_last st t" using 1 by simp_all
  qed
qed


lemma sl_merge_loop:
  assumes "sl_apart base out st"
  shows "\<exists>st'. c_loop (sl_merge_step cmp base out) (n0, n1, st) = Some st' \<and> sl_merged cmp base out n0 n1 st st'"
  using assms
proof (induction "n0 + n1" arbitrary: n0 n1 st rule: less_induct)
  case less
  define A where "A = take n0 (sl_list st base)"
  define B where "B = take n1 (sl_list st (base + 1))"
  have A: "A = [] \<longleftrightarrow> n0 = 0 \<or> tp_count (sl_tapes st base) = 0"
    and B: "B = [] \<longleftrightarrow> n1 = 0 \<or> tp_count (sl_tapes st (base + 1)) = 0"
    by (auto simp: A_def B_def tp_count_list)
  have left: ?case if A: "A = x # A'" and c: "sl_merge_step cmp base out (n0, n1, st) = Some (Inl (n0 - 1, n1, sl_move base out st))"
    and m: "sl_merge cmp A B = x # sl_merge cmp A' B" for x A'
  proof -
    from A obtain k xs where k: "n0 = Suc k" "sl_list st base = x # xs" "A' = take k xs"
      by (cases n0; cases "sl_list st base") (auto simp: A_def)
    note mv = sl_move_apart [OF less.prems, of base, OF _ k(2)]
    obtain st' where st': "c_loop (sl_merge_step cmp base out) (k, n1, sl_move base out st) = Some st'"
      "sl_merged cmp base out k n1 (sl_move base out st) st'"
      using less.hyps [of k n1 "sl_move base out st"] mv(4) k by auto
    have "sl_list (sl_move base out st) (base + 1) = sl_list st (base + 1)"
      using mv(3) [of "base + 1"] less.prems by (auto simp: sl_apart_def)
    then have "sl_merged cmp base out n0 n1 st st'"
      using m mv(1) k unfolding A_def B_def by (intro sl_merged_move [OF less.prems _ k(2) st'(2)]) simp_all
    then show ?thesis using st'(1) c k by (auto simp: c_loop_continue)
  qed
  have right: ?case if B: "B = x # B'" and c: "sl_merge_step cmp base out (n0, n1, st) = Some (Inl (n0, n1 - 1, sl_move (base + 1) out st))"
    and m: "sl_merge cmp A B = x # sl_merge cmp A B'" for x B'
  proof -
    from B obtain k xs where k: "n1 = Suc k" "sl_list st (base + 1) = x # xs" "B' = take k xs"
      by (cases n1; cases "sl_list st (base + 1)") (auto simp: B_def)
    note mv = sl_move_apart [OF less.prems, of "base + 1", OF _ k(2)]
    obtain st' where st': "c_loop (sl_merge_step cmp base out) (n0, k, sl_move (base + 1) out st) = Some st'"
      "sl_merged cmp base out n0 k (sl_move (base + 1) out st) st'"
      using less.hyps [of n0 k "sl_move (base + 1) out st"] mv(4) k by auto
    have "sl_list (sl_move (base + 1) out st) base = sl_list st base"
      using mv(3) [of base] less.prems by (auto simp: sl_apart_def)
    then have "sl_merged cmp base out n0 n1 st st'"
      using m mv(1) k unfolding A_def B_def by (intro sl_merged_move [OF less.prems _ k(2) st'(2)]) simp_all
    then show ?thesis using st'(1) c k by (auto simp: c_loop_continue)
  qed
  have hdA: "A = x # A' \<Longrightarrow> tp_first (sl_tapes st base) = x" for x A'
    by (cases n0; cases "sl_list st base") (auto simp: A_def sl_list_Cons(1))
  have hdB: "B = x # B' \<Longrightarrow> tp_first (sl_tapes st (base + 1)) = x" for x B'
    by (cases n1; cases "sl_list st (base + 1)") (auto simp: B_def sl_list_Cons(1))
  show ?case
  proof (cases A)
    case Nil
    note N = this
    show ?thesis
    proof (cases B)
      case Nil
      then have "sl_merge_step cmp base out (n0, n1, st) = Some (Inr st)"
        using A B N by (simp add: sl_merge_step_def)
      moreover have "sl_merged cmp base out n0 n1 st st"
        using N Nil less.prems by (auto simp: sl_merged_def sl_apart_def A_def [symmetric] B_def [symmetric]) (auto simp: A_def B_def)
      ultimately show ?thesis by (auto simp: c_loop_leave)
    next
      case (Cons y B')
      then show ?thesis using A B N by (intro right) (auto simp: sl_merge_step_def)
    qed
  next
    case (Cons x A')
    note C = this
    show ?thesis
    proof (cases B)
      case Nil
      then show ?thesis using A B C by (intro left [OF C]) (auto simp: sl_merge_step_def sl_merge_simps)
    next
      case (Cons y B')
      show ?thesis
      proof (cases "cmp x y > 0")
        case True
        then show ?thesis using A B C Cons hdA hdB by (intro right [OF Cons]) (auto simp: sl_merge_step_def)
      next
        case False
        then show ?thesis using A B C Cons hdA hdB by (intro left [OF C]) (auto simp: sl_merge_step_def)
      qed
    qed
  qed
qed


text \<open>One pass over the input tapes.\<close>

lemma sl_pass_loop:
  assumes "dest \<noteq> base" "dest \<noteq> base + 1" "dest XOR 1 \<noteq> base" "dest XOR 1 \<noteq> base + 1" "0 < b"
    "distinct (sl_list st base @ sl_list st (base + 1) @ sl_list st dest @ sl_list st (dest XOR 1))"
    "sl_last st dest" "sl_last st (dest XOR 1)"
  shows "\<exists>st'. c_loop (sl_pass_step cmp base b) (dest, st) = Some st' \<and>
    sl_list st' dest = sl_list st dest @ fst (sl_pass cmp b (sl_list st base) (sl_list st (base + 1))) \<and>
    sl_list st' (dest XOR 1) = sl_list st (dest XOR 1) @ snd (sl_pass cmp b (sl_list st base) (sl_list st (base + 1))) \<and>
    sl_last st' dest \<and> sl_last st' (dest XOR 1)"
  using assms
proof (induction "length (sl_list st base)" arbitrary: dest st rule: less_induct)
  case less
  have inv: "(dest XOR 1) XOR 1 = dest" by (simp add: xor.assoc)
  have neq: "dest XOR 1 \<noteq> dest"
    by (metis inv less.prems(6) bit.xor_self xor.left_neutral xor.assoc xor.right_neutral xor_self_eq zero_neq_one)
  show ?case
  proof (cases "sl_list st base = []")
    case True
    then have "sl_pass_step cmp base b (dest, st) = Some (Inr st)"
      using tp_count_list [of st base] by (simp add: sl_pass_step_def)
    then show ?thesis using True less.prems by (simp add: c_loop_leave sl_pass.simps)
  next
    case False
    have "sl_apart base dest st" using less.prems by (auto simp: sl_apart_def)
    then obtain st1 where m: "c_loop (sl_merge_step cmp base dest) (b, b, st) = Some st1"
      and st1: "sl_merged cmp base dest b b st st1"
      using sl_merge_loop by blast
    have step: "sl_pass_step cmp base b (dest, st) = Some (Inl (dest XOR 1, st1))"
      using False m tp_count_list [of st base] by (simp add: sl_pass_step_def)
    define M where "M = sl_merge cmp (take b (sl_list st base)) (take b (sl_list st (base + 1)))"
    have l: "sl_list st1 base = drop b (sl_list st base)" "sl_list st1 (base + 1) = drop b (sl_list st (base + 1))"
      "sl_list st1 dest = sl_list st dest @ M" "sl_last st1 dest"
      using st1 by (simp_all add: sl_merged_def M_def)
    have "set (sl_list st (dest XOR 1)) \<inter> set (sl_list st base @ sl_list st (base + 1) @ sl_list st dest) = {}"
      using less.prems(6) by auto
    then have o: "sl_list st1 (dest XOR 1) = sl_list st (dest XOR 1)" "sl_last st1 (dest XOR 1)"
      using st1 less.prems neq unfolding sl_merged_def by blast+
    have td: "mset (sl_list st base) = mset (take b (sl_list st base)) + mset (drop b (sl_list st base))"
      "mset (sl_list st (base + 1)) = mset (take b (sl_list st (base + 1))) + mset (drop b (sl_list st (base + 1)))"
      by (metis append_take_drop_id mset_append)+
    have "mset (sl_list st1 base @ sl_list st1 (base + 1) @ sl_list st1 (dest XOR 1) @ sl_list st1 dest) =
        mset (sl_list st base @ sl_list st (base + 1) @ sl_list st dest @ sl_list st (dest XOR 1))"
      unfolding l o M_def mset_append mset_sl_merge td by (simp only: ac_simps)
    then have d: "distinct (sl_list st1 base @ sl_list st1 (base + 1) @ sl_list st1 (dest XOR 1) @ sl_list st1 dest)"
      using less.prems(6) mset_eq_imp_distinct_iff by blast
    obtain D1 D0 where D: "sl_pass cmp b (drop b (sl_list st base)) (drop b (sl_list st (base + 1))) = (D1, D0)"
      by fastforce
    have "length (sl_list st1 base) < length (sl_list st base)" using False less.prems(5) by (simp add: l)
    then have "\<exists>st'. c_loop (sl_pass_step cmp base b) (dest XOR 1, st1) = Some st' \<and>
      sl_list st' (dest XOR 1) = sl_list st (dest XOR 1) @ D1 \<and> sl_list st' dest = (sl_list st dest @ M) @ D0 \<and>
      sl_last st' (dest XOR 1) \<and> sl_last st' dest"
      using less.hyps [of st1 "dest XOR 1", unfolded inv] less.prems d l o D by simp
    moreover have "sl_pass cmp b (sl_list st base) (sl_list st (base + 1)) = (M @ D0, D1)"
      using False less.prems(5) D by (simp add: sl_pass.simps [of cmp b "sl_list st base"] M_def)
    ultimately show ?thesis using c_loop_continue [of "sl_pass_step cmp base b", OF step] by auto
  qed
qed

lemma sl_clear_list:
  "sl_list (sl_clear t st) u = (if u = t then [] else sl_list st u)"
  "sl_last (sl_clear t st) u = (u = t \<or> sl_last st u)"
  by (auto simp: sl_clear_def sl_list_def sl_last_def)

text \<open>All passes.\<close>

definition sl_passing :: "(nat \<Rightarrow> nat \<Rightarrow> int) \<Rightarrow> nat list \<Rightarrow> nat \<times> nat \<times> sl_state \<Rightarrow> bool" where
  "sl_passing cmp xs = (\<lambda>(base, b, st). (base = 0 \<or> base = 2) \<and> 0 < b \<and>
     sl_runs cmp b (sl_list st base) (sl_list st (base + 1)) \<and>
     mset (sl_list st base) + mset (sl_list st (base + 1)) = mset xs \<and> (1 < b \<longrightarrow> sl_last st base))"

lemma nat_xor_small: "(0 :: nat) XOR 2 = 2" "(2 :: nat) XOR 2 = 0" "(2 :: nat) XOR 1 = 3" "(0 :: nat) XOR 1 = 1"
  by simp_all

lemma sl_passes_body:
  assumes ord: "sl_order cmp" and xs: "distinct xs" and inv: "sl_passing cmp xs (base, b, st)"
    and more: "sl_list st (base + 1) \<noteq> []"
  shows "\<exists>st'. sl_passes_step cmp (base, b, st) = Some (Inl (base XOR 2, 2 * b, st')) \<and>
    sl_passing cmp xs (base XOR 2, 2 * b, st') \<and> b < length xs"
proof -
  define dest where "dest = base XOR 2"
  define A where "A = sl_list st base"
  define B where "B = sl_list st (base + 1)"
  have base: "base = 0 \<and> dest = 2 \<or> base = 2 \<and> dest = 0" "dest XOR 1 = dest + 1"
    using inv by (auto simp: sl_passing_def dest_def)
  have r: "sl_runs cmp b A B" "0 < b" and ms: "mset A + mset B = mset xs"
    using inv by (auto simp: sl_passing_def A_def B_def)
  define st0 where "st0 = sl_clear dest (sl_clear (dest + 1) st)"
  have l0: "sl_list st0 base = A" "sl_list st0 (base + 1) = B" "sl_list st0 dest = []" "sl_list st0 (dest + 1) = []"
    "sl_last st0 dest" "sl_last st0 (dest + 1)"
    using base(1) by (auto simp: st0_def sl_clear_list A_def B_def)
  have d: "distinct (A @ B)" using ms xs by (metis mset_append mset_eq_imp_distinct_iff)
  obtain D0 D1 where D: "sl_pass cmp b A B = (D0, D1)" by fastforce
  have "\<exists>st'. c_loop (sl_pass_step cmp base b) (dest, st0) = Some st' \<and>
    sl_list st' dest = D0 \<and> sl_list st' (dest + 1) = D1 \<and> sl_last st' dest"
    using sl_pass_loop [of dest base b st0 cmp] l0 d r(2) base D by (auto simp del: xor_nat_numerals)
  then obtain st' where st': "c_loop (sl_pass_step cmp base b) (dest, st0) = Some st'"
    "sl_list st' dest = D0" "sl_list st' (dest + 1) = D1" "sl_last st' dest" by blast
  have "sl_passes_step cmp (base, b, st) = Some (Inl (dest, 2 * b, st'))"
    using st'(1) more tp_count_list [of st "base + 1"] by (simp add: sl_passes_step_def st0_def dest_def)
  moreover have "sl_passing cmp xs (dest, 2 * b, st')"
    using sl_pass_runs [OF ord r D] st' base(1) r(2) ms by (auto simp: sl_passing_def)
  moreover have "b < length xs"
  proof -
    have "B \<noteq> []" using more by (simp add: B_def)
    moreover from this have "b \<le> length A" using r by (auto simp: sl_runs.simps [of cmp b A] not_less split: if_splits)
    moreover have "length A + length B = length xs" using ms by (metis size_mset size_union)
    ultimately show ?thesis by (cases B) auto
  qed
  ultimately show ?thesis unfolding dest_def by blast
qed

lemma sl_passes_loop:
  assumes ord: "sl_order cmp" and xs: "distinct xs" and inv: "sl_passing cmp xs (0, 1, st)"
  shows "\<exists>base st'. c_loop (sl_passes_step cmp) (0, 1, st) = Some (base, st') \<and>
    mset (sl_list st' base) = mset xs \<and> sl_sorted cmp (sl_list st' base) \<and>
    (2 \<le> length xs \<longrightarrow> sl_last st' base) \<and> (length xs < 2 \<longrightarrow> base = 0 \<and> st' = st)"
proof (cases "length xs < 2")
  case True
  have e: "sl_list st 1 = []"
    using inv True sl_passes_body [OF ord xs inv] by fastforce
  then have ms: "mset (sl_list st 0) = mset xs" using inv by (simp add: sl_passing_def)
  then have "length (sl_list st 0) < 2" using True by (auto dest: mset_eq_length)
  then have "sl_sorted cmp (sl_list st 0)" by (cases "sl_list st 0"; cases "tl (sl_list st 0)") auto
  moreover have "sl_passes_step cmp (0, 1, st) = Some (Inr (0, st))"
    using e tp_count_list [of st 1] by (simp add: sl_passes_step_def)
  ultimately show ?thesis using True ms by (simp add: c_loop_leave)
next
  case False
  have "\<exists>r. c_loop (sl_passes_step cmp) (0, 1, st) = Some r \<and>
    (case r of (base, st') \<Rightarrow> mset (sl_list st' base) = mset xs \<and> sl_sorted cmp (sl_list st' base) \<and> sl_last st' base)"
  proof (rule c_loop_total [of "measure (\<lambda>(base, b, st). length xs - b)" "sl_passing cmp xs"])
    fix s
    assume inv: "sl_passing cmp xs s"
    obtain base b st where s: "s = (base, b, st)" by (cases s)
    show "\<exists>x. sl_passes_step cmp s = Some x \<and> (case x of Inl s' \<Rightarrow> sl_passing cmp xs s' \<and>
        (s', s) \<in> measure (\<lambda>(base, b, st). length xs - b) |
        Inr r \<Rightarrow> case r of (base, st') \<Rightarrow> mset (sl_list st' base) = mset xs \<and> sl_sorted cmp (sl_list st' base) \<and> sl_last st' base)"
    proof (cases "sl_list st (base + 1) = []")
      case True
      then have "sl_passes_step cmp s = Some (Inr (base, st))"
        using s tp_count_list [of st "base + 1"] by (simp add: sl_passes_step_def)
      moreover have ms: "mset (sl_list st base) = mset xs" and r: "sl_runs cmp b (sl_list st base) []" "0 < b"
        using inv s True by (auto simp: sl_passing_def)
      moreover have "sl_list st base \<noteq> []" "length (sl_list st base) = length xs"
        using ms False by (auto dest: mset_eq_length)
      moreover from r this have "length (sl_list st base) \<le> b" "sl_sorted cmp (take b (sl_list st base))"
        by (auto simp: sl_runs.simps [of cmp b "sl_list st base"])
      ultimately show ?thesis using inv s False by (auto simp: sl_passing_def)
    next
      case more: False
      then show ?thesis
        using sl_passes_body [OF ord xs, of base b st] inv s by (auto simp: sl_passing_def)
    qed
  qed (use inv in auto)
  then show ?thesis using False by auto
qed


section \<open>Linked lists, and the distribution over two tapes\<close>

fun sl_linked :: "(nat \<Rightarrow> nat) \<Rightarrow> nat \<Rightarrow> nat \<Rightarrow> nat list \<Rightarrow> bool" where
  "sl_linked nx p e [] \<longleftrightarrow> p = e"
| "sl_linked nx p e (x # xs) \<longleftrightarrow> p = x \<and> x \<noteq> e \<and> sl_linked nx (nx x) e xs"

lemma sl_linked_unique: "sl_linked nx p e xs \<Longrightarrow> sl_linked nx p e ys \<Longrightarrow> xs = ys"
proof (induction xs arbitrary: p ys)
  case Nil
  then show ?case by (cases ys) auto
next
  case (Cons x xs)
  then show ?case by (cases ys) auto
qed

lemma sl_linked_suffix: "sl_linked nx p e (xs @ y # ys) \<Longrightarrow> sl_linked nx y e (y # ys)"
  by (induction xs arbitrary: p) auto

lemma sl_linked_distinct: "sl_linked nx p e xs \<Longrightarrow> distinct xs \<and> e \<notin> set xs"
proof (induction xs arbitrary: p)
  case (Cons x xs)
  have "x \<notin> set xs"
  proof
    assume "x \<in> set xs"
    then obtain us vs where "xs = us @ x # vs" by (meson split_list)
    then have "sl_linked nx x e (x # vs)" using Cons.prems sl_linked_suffix [of nx p e "x # us" x vs] by simp
    then have "vs = xs" using Cons.prems sl_linked_unique [of nx "nx x" e vs xs] by simp
    then have "length vs = length (us @ x # vs)" using \<open>xs = us @ x # vs\<close> by simp
    then show False by simp
  qed
  then show ?case using Cons by auto
qed simp

lemma sl_linked_frame: "q \<notin> set xs \<Longrightarrow> sl_linked (nx(q := v)) p e xs = sl_linked nx p e xs"
  by (induction xs arbitrary: p) auto

lemma sl_chain_linked:
  assumes "sl_chain nx p n = ys" "ys \<noteq> []" "nx (last ys) = e" "e \<notin> set ys"
  shows "sl_linked nx p e ys"
  using assms
proof (induction n arbitrary: p ys)
  case (Suc n)
  then show ?case by (cases n) auto
qed simp

lemma sl_close_linked:
  assumes last: "sl_last st t" and ne: "sl_list st t \<noteq> []" and d: "distinct (sl_list st t)" "e \<notin> set (sl_list st t)"
  shows "sl_linked ((sl_next st)(tp_last (sl_tapes st t) := e)) (tp_first (sl_tapes st t)) e (sl_list st t)"
proof -
  define ys where "ys = sl_list st t"
  define nx where "nx = (sl_next st)(tp_last (sl_tapes st t) := e)"
  have ch: "sl_chain (sl_next st) (tp_first (sl_tapes st t)) (length ys) = ys"
    by (simp add: ys_def sl_list_def)
  have nx: "nx = (sl_next st)(last ys := e)" using last ne by (simp add: nx_def sl_last_def ys_def)
  then have "sl_chain nx (tp_first (sl_tapes st t)) (Suc (length ys)) = ys @ [e]"
    using sl_chain_snoc [of "sl_next st" "tp_first (sl_tapes st t)" "length ys" e, unfolded ch]
      d(1) ne by (simp add: ys_def)
  then have "sl_chain nx (tp_first (sl_tapes st t)) (length ys) = ys"
    by (metis sl_chain_take append_eq_conv_conj)
  then show ?thesis
    unfolding nx_def [symmetric] ys_def [symmetric]
    using ne d(2) by (intro sl_chain_linked [of _ _ "length ys"]) (auto simp: nx ys_def)
qed

lemma sl_runs_single:
  assumes "length A = length B \<or> length A = Suc (length B)"
  shows "sl_runs cmp 1 A B"
  using assms
proof (induction A arbitrary: B)
  case (Cons a A)
  show ?case
  proof (cases B)
    case Nil
    then show ?thesis using Cons.prems by (simp add: sl_runs.simps)
  next
    case (Cons b B')
    then show ?thesis using Cons.IH [of B'] Cons.prems by (auto simp: sl_runs.simps [of cmp "Suc 0" "a # A"])
  qed
qed simp

definition sl_dealt :: "nat list \<Rightarrow> nat list \<Rightarrow> nat \<Rightarrow> sl_state \<Rightarrow> bool" where
  "sl_dealt done todo base st \<longleftrightarrow> (base = 0 \<or> base = 1) \<and>
     length (sl_list st 0) = length (sl_list st 1) + base \<and>
     mset (sl_list st 0) + mset (sl_list st 1) = mset done \<and>
     (done = [] \<longrightarrow> tp_first (sl_tapes st 0) = 0) \<and>
     (length done = 1 \<longrightarrow> sl_next st (tp_first (sl_tapes st 0)) = 0)"

lemma sl_push_list:
  assumes "p \<notin> set (sl_list st base)" "p \<notin> set (sl_list st t)"
    "st' = st\<lparr>sl_next := (sl_next st)(p := tp_first (sl_tapes st base)),
      sl_tapes := (sl_tapes st)(base := (sl_tapes st base)\<lparr>tp_first := p, tp_count := tp_count (sl_tapes st base) + 1\<rparr>)\<rparr>"
  shows "sl_list st' t = (if t = base then p # sl_list st base else sl_list st t)"
  using assms by (auto simp: sl_list_def sl_chain_frame)

lemma sl_distribute_loop:
  assumes "sl_linked (sl_next st) p e todo" "distinct (done @ todo)" "sl_dealt done todo base st"
  shows "\<exists>st'. c_loop (sl_distribute_step e) (p, base, st) = Some st' \<and>
    (\<exists>b. sl_dealt (done @ todo) [] b st')"
  using assms
proof (induction todo arbitrary: p "done" base st)
  case Nil
  then have "sl_distribute_step e (p, base, st) = Some (Inr st)" by (simp add: sl_distribute_step_def)
  then show ?case using Nil by (auto simp: c_loop_leave sl_dealt_def)
next
  case (Cons x todo)
  have p: "p = x" "x \<noteq> e" "sl_linked (sl_next st) (sl_next st x) e todo" using Cons.prems(1) by auto
  define st1 where "st1 = st\<lparr>sl_next := (sl_next st)(x := tp_first (sl_tapes st base)),
      sl_tapes := (sl_tapes st)(base := (sl_tapes st base)\<lparr>tp_first := x, tp_count := tp_count (sl_tapes st base) + 1\<rparr>)\<rparr>"
  have step: "sl_distribute_step e (p, base, st) = Some (Inl (sl_next st x, base XOR 1, st1))"
    using p by (simp add: sl_distribute_step_def Let_def st1_def)
  have base: "base = 0 \<or> base = 1" using Cons.prems(3) by (simp add: sl_dealt_def)
  have "set (sl_list st 0) \<union> set (sl_list st 1) = set done"
    using Cons.prems(3) unfolding sl_dealt_def by (metis set_mset_mset set_mset_union)
  then have x: "x \<notin> set (sl_list st 0)" "x \<notin> set (sl_list st 1)" "x \<notin> set (sl_list st base)"
    using Cons.prems(2) base by auto
  have l: "sl_list st1 0 = (if base = 0 then x # sl_list st 0 else sl_list st 0)"
    "sl_list st1 1 = (if base = 1 then x # sl_list st 1 else sl_list st 1)"
    using sl_push_list [OF x(3) x(1) st1_def] sl_push_list [OF x(3) x(2) st1_def] by simp_all
  have "done = [] \<longrightarrow> base = 0" using Cons.prems(3) base by (auto simp: sl_dealt_def)
  then have "sl_dealt (done @ [x]) todo (base XOR 1) st1"
    using Cons.prems(3) base l by (auto simp: sl_dealt_def) (auto simp: st1_def)
  moreover have "sl_linked (sl_next st1) (sl_next st x) e todo"
    using p Cons.prems(2) by (simp add: st1_def sl_linked_frame)
  ultimately obtain st' b where "c_loop (sl_distribute_step e) (sl_next st x, base XOR 1, st1) = Some st'"
    "sl_dealt ((done @ [x]) @ todo) [] b st'"
    using Cons.IH [of st1 "sl_next st x" "done @ [x]" "base XOR 1"] Cons.prems(2) by auto
  then show ?case using c_loop_continue [of "sl_distribute_step e", OF step] by auto
qed


section \<open>Correctness\<close>

text \<open>
  C16. For a comparison that is a total preorder, \<open>sort_linked_list\<close> terminates on every list
  and returns a list of the same records in sorted order, ended by the end marker, with the
  number of records in \<open>*pcount\<close>; whatever the uninitialised tapes held. The end marker must
  be \<open>NULL\<close> unless the list has two records or more.
\<close>

theorem sort_linked_list_sorts:
  assumes ord: "sl_order compare" and xs: "sl_linked nxt p end_marker xs"
    and marker: "end_marker = 0 \<or> 2 \<le> length xs"
  shows "\<exists>p' nxt' ys. sort_linked_list junk compare end_marker p nxt = Some (p', length xs, nxt') \<and>
    sl_linked nxt' p' end_marker ys \<and> mset ys = mset xs \<and> sl_sorted compare ys"
proof -
  have d: "distinct xs" "end_marker \<notin> set xs" using sl_linked_distinct [OF xs] by auto
  define st0 where "st0 = (let st = sl_clear 0 (sl_clear 1 \<lparr>sl_next = nxt, sl_tapes = junk\<rparr>)
    in st\<lparr>sl_tapes := (sl_tapes st)(0 := (sl_tapes st 0)\<lparr>tp_first := 0\<rparr>)\<rparr>)"
  have "sl_dealt [] xs 0 st0" "sl_linked (sl_next st0) p end_marker xs"
    using xs by (simp_all add: sl_dealt_def st0_def sl_clear_def sl_list_def)
  then obtain st1 b where st1: "c_loop (sl_distribute_step end_marker) (p, 0, st0) = Some st1"
    and dealt: "sl_dealt xs [] b st1"
    using sl_distribute_loop [of st0 p end_marker xs "[]" 0] d by auto
  have "sl_passing compare xs (0, 1, st1)"
    using dealt sl_runs_single [of "sl_list st1 0" "sl_list st1 1"] by (auto simp: sl_passing_def sl_dealt_def)
  then obtain base st2 where st2: "c_loop (sl_passes_step compare) (0, 1, st1) = Some (base, st2)"
    and ys: "mset (sl_list st2 base) = mset xs" "sl_sorted compare (sl_list st2 base)"
    and last: "2 \<le> length xs \<longrightarrow> sl_last st2 base" and short: "length xs < 2 \<longrightarrow> base = 0 \<and> st2 = st1"
    using sl_passes_loop [OF ord d(1)] by blast
  define ys where "ys = sl_list st2 base"
  define nxt' where "nxt' = (if length ys > 1 then (sl_next st2)(tp_last (sl_tapes st2 base) := end_marker) else sl_next st2)"
  have len: "length ys = length xs" "set ys = set xs" "distinct ys"
    using ys(1) d(1) unfolding ys_def by (auto dest: mset_eq_length mset_eq_setD mset_eq_imp_distinct_iff)
  have ch: "sl_chain (sl_next st2) (tp_first (sl_tapes st2 base)) (length ys) = ys"
    by (simp add: ys_def sl_list_def)
  have "sl_linked nxt' (tp_first (sl_tapes st2 base)) end_marker ys"
  proof (cases "2 \<le> length xs")
    case True
    moreover from this have "ys \<noteq> []" using len by auto
    ultimately show ?thesis
      using sl_close_linked [of st2 base end_marker] last len d(2) by (simp add: nxt'_def ys_def)
  next
    case False
    then have e: "end_marker = 0" "base = 0" "st2 = st1" using marker short by auto
    show ?thesis
    proof (cases ys)
      case Nil
      then show ?thesis using dealt e len by (simp add: nxt'_def sl_dealt_def)
    next
      case (Cons y zs)
      then have y: "ys = [y]" "length xs = 1" using False len by (cases zs; simp)+
      then have "tp_first (sl_tapes st1 0) = y" using ch unfolding e by simp
      moreover have "sl_next st1 (tp_first (sl_tapes st1 0)) = 0" using dealt y(2) unfolding sl_dealt_def by blast
      moreover have "y \<noteq> end_marker" using y(1) len(2) d(2) by auto
      ultimately show ?thesis using y(1) e by (simp add: nxt'_def)
    qed
  qed
  moreover have "sort_linked_list junk compare end_marker p nxt = Some (tp_first (sl_tapes st2 base), length xs, nxt')"
  proof -
    have cnt: "tp_count (sl_tapes st2 base) = length ys" by (simp add: ys_def tp_count_list)
    have "sort_linked_list junk compare end_marker p nxt =
      Option.bind (c_loop (sl_distribute_step end_marker) (p, 0, st0)) (\<lambda>st.
        Option.bind (c_loop (sl_passes_step compare) (0, 1, st)) (\<lambda>(base, st).
          let tape = sl_tapes st base;
            st = (if tp_count tape > 1 then st\<lparr>sl_next := (sl_next st)(tp_last tape := end_marker)\<rparr> else st)
          in Some (tp_first tape, tp_count tape, sl_next st)))"
      unfolding sort_linked_list_def st0_def Let_def by (rule refl)
    then show ?thesis by (simp add: st1 st2 [unfolded One_nat_def] Let_def nxt'_def cnt len(1))
  qed
  ultimately show ?thesis using ys unfolding ys_def [symmetric] by blast
qed


definition demo_compare :: "nat \<Rightarrow> nat \<Rightarrow> int" where
  "demo_compare x y = int y - int x"

lemma demo_compare_order: "sl_order demo_compare"
  by (auto simp: sl_order_def demo_compare_def)

theorem sort_linked_list_sorts_witness:
  "sl_order demo_compare \<and> sl_linked (\<lambda>x. if x = 3 then 0 else x + 1) 1 0 [1, 2, 3] \<and>
   (\<exists>p' nxt' ys. sort_linked_list (\<lambda>_. \<lparr>tp_first = 7, tp_last = 8, tp_count = 9\<rparr>) demo_compare 0 1
      (\<lambda>x. if x = 3 then 0 else x + 1) = Some (p', 3, nxt') \<and>
     sl_linked nxt' p' 0 ys \<and> mset ys = mset [1, 2, 3] \<and> sl_sorted demo_compare ys)"
  using sort_linked_list_sorts [OF demo_compare_order,
      of "\<lambda>x. if x = 3 then 0 else x + 1" 1 0 "[1, 2, 3]" "\<lambda>_. \<lparr>tp_first = 7, tp_last = 8, tp_count = 9\<rparr>"]
    demo_compare_order
  by (simp add: numeral_3_eq_3)

end
