(* ===== verification/Mempool.thy ===== *)
theory Mempool
  imports Cstring Sort_List
begin

unbundle bit_operations_syntax

text \<open>
  The memory pools of \<open>src/mempool.c\<close>.

  A chunk is known by the address of its header; the pointer that callers hold, which lies
  one header further on, is the same number here (\<open>MEM_USERDATA\<close> and \<open>MEM_POOLDATA\<close> convert
  them). The heap maps the header of every chunk of a live block to its \<open>next\<close> pointer:
  null for a chunk in use, another chunk or the end marker for a free one. \<open>mp_blocks\<close> maps
  the address of every live block to its number of chunks and their size; \<open>free\<close> of anything
  else is undefined and has no value. Addresses of new blocks come from \<open>mp_brk\<close>, which only
  grows and is never 0. Pools are known by their index in \<open>pools\<close>; the pool of puddles is the
  first. A puddle is the address of the chunk that holds it, and 0 is the null pointer.

  The callbacks of a pool get a pointer to user data, which the pools never read; the model
  keeps whether they are set and records their calls in order. A failed assertion and the
  call of \<open>abort\<close> are the outcome \<open>Aborted\<close>. The debugging and validation callbacks belong to
  debug builds. Sizes and counts stay below the range of \<open>size_t\<close>, except where they are
  subtracted, which the model wraps.
\<close>

section \<open>Data\<close>

datatype chunk_ptr = Null | End_marker | Chunk nat

record mempool_puddle =
  pd_next :: nat
  pd_first_chunk :: nat
  pd_first_free :: chunk_ptr
  pd_last_free :: chunk_ptr
  pd_nrof_free :: u32

record mempool_struct =
  chunk_description :: bytes
  expand_size :: nat
  chunksize :: nat
  flags :: u32
  freelist :: "nat \<Rightarrow> chunk_ptr"
  nrof_free :: "nat \<Rightarrow> nat"
  nrof_allocated :: "nat \<Rightarrow> nat"
  puddlelist :: "nat \<Rightarrow> nat"
  calls_expand :: u64
  calls_get :: u64
  calls_return :: u64
  initialisator :: bool
  deinitialisator :: bool
  constructor :: bool
  destructor :: bool

datatype mempool_event = Initialise nat | Deinitialise nat | Construct nat | Destruct nat

record mempool_state =
  pools :: "mempool_struct list"
  mp_heap :: "nat \<rightharpoonup> chunk_ptr"
  mp_blocks :: "nat \<rightharpoonup> nat \<times> nat"
  mp_puddles :: "nat \<Rightarrow> mempool_puddle"
  mp_brk :: nat
  mp_events :: "mempool_event list"
  deiniting :: bool

datatype 'a outcome = Value 'a | Aborted

definition MEMPOOL_NROF_FREELISTS :: nat where "MEMPOOL_NROF_FREELISTS = 8"
definition MEMPOOL_BYPASS_POOLS :: u32 where "MEMPOOL_BYPASS_POOLS = 1"
definition MEMPOOL_ALLOW_FREEING :: u32 where "MEMPOOL_ALLOW_FREEING = 2"

text \<open>\<open>sizeof(mempool_chunk_struct)\<close> and \<open>sizeof(mempool_puddle_struct)\<close> on LP64.\<close>

definition sizeof_chunk :: nat where "sizeof_chunk = 8"
definition sizeof_puddle :: nat where "sizeof_puddle = 40"

abbreviation bypasses :: "mempool_struct \<Rightarrow> bool" where
  "bypasses pool \<equiv> flags pool AND MEMPOOL_BYPASS_POOLS \<noteq> 0"

definition pool_update :: "nat \<Rightarrow> (mempool_struct \<Rightarrow> mempool_struct) \<Rightarrow> mempool_state \<Rightarrow> mempool_state" where
  "pool_update k f st = st\<lparr>pools := (pools st)[k := f (pools st ! k)]\<rparr>"

definition mempool_event :: "bool \<Rightarrow> mempool_event \<Rightarrow> mempool_state \<Rightarrow> mempool_state" where
  "mempool_event present e st = (if present then st\<lparr>mp_events := mp_events st @ [e]\<rparr> else st)"

text \<open>Subtraction on \<open>size_t\<close>.\<close>

definition size_sub :: "nat \<Rightarrow> nat \<Rightarrow> nat" where
  "size_sub a b = (if b \<le> a then a - b else a + 2 ^ 64 - b)"


section \<open>Blocks\<close>

fun block_chunks :: "nat \<Rightarrow> nat \<Rightarrow> nat \<Rightarrow> nat list" where
  "block_chunks first real n = map (\<lambda>j. first + real * j) [0..<n]"

definition xcalloc_block :: "nat \<Rightarrow> nat \<Rightarrow> mempool_state \<Rightarrow> nat \<times> mempool_state" where
  "xcalloc_block n real st = (mp_brk st, st\<lparr>
     mp_heap := mp_heap st ++ map_of (map (\<lambda>a. (a, Null)) (block_chunks (mp_brk st) real n)),
     mp_blocks := (mp_blocks st)(mp_brk st \<mapsto> (n, real)),
     mp_brk := mp_brk st + n * real\<rparr>)"

definition free_block :: "nat \<Rightarrow> mempool_state \<Rightarrow> mempool_state option" where
  "free_block a st = (case mp_blocks st a of
     None \<Rightarrow> None
   | Some (n, real) \<Rightarrow> Some (st\<lparr>
       mp_heap := (\<lambda>x. if x \<in> set (block_chunks a real n) then None else mp_heap st x),
       mp_blocks := (mp_blocks st)(a := None)\<rparr>))"

definition set_next :: "nat \<Rightarrow> chunk_ptr \<Rightarrow> mempool_state \<Rightarrow> mempool_state option" where
  "set_next a p st = (if mp_heap st a = None then None else Some (st\<lparr>mp_heap := (mp_heap st)(a \<mapsto> p)\<rparr>))"


section \<open>Getting and returning chunks\<close>

definition mempool_create ::
  "bytes \<Rightarrow> nat \<Rightarrow> nat \<Rightarrow> u32 \<Rightarrow> bool \<Rightarrow> bool \<Rightarrow> bool \<Rightarrow> bool \<Rightarrow> mempool_state \<Rightarrow> nat \<times> mempool_state" where
  "mempool_create description expand sz flgs init deinit construct destruct st =
     (length (pools st), st\<lparr>pools := pools st @ [\<lparr>chunk_description = description, expand_size = expand,
       chunksize = sz, flags = flgs, freelist = (\<lambda>_. End_marker), nrof_free = (\<lambda>_. 0),
       nrof_allocated = (\<lambda>_. 0), puddlelist = (\<lambda>_. 0), calls_expand = 0, calls_get = 0, calls_return = 0,
       initialisator = init, deinitialisator = deinit, constructor = construct, destructor = destruct\<rparr>]\<rparr>)"

text \<open>Before and after the start of the module; the string is \<open>"puddles"\<close>.\<close>

definition mempool_statics :: mempool_state where
  "mempool_statics = \<lparr>pools = [], mp_heap = Map.empty, mp_blocks = Map.empty,
     mp_puddles = (\<lambda>_. \<lparr>pd_next = 0, pd_first_chunk = 0, pd_first_free = Null, pd_last_free = Null, pd_nrof_free = 0\<rparr>),
     mp_brk = 8, mp_events = [], deiniting = False\<rparr>"

definition mempool_init :: mempool_state where
  "mempool_init = snd (mempool_create [112, 117, 100, 100, 108, 101, 115] 10 sizeof_puddle MEMPOOL_ALLOW_FREEING
     False False False False mempool_statics)"

definition mempool_find :: "bytes \<Rightarrow> mempool_state \<Rightarrow> nat option" where
  "mempool_find name st =
     find (\<lambda>k. map c_tolower (chunk_description (pools st ! k)) = map c_tolower name) [0..<length (pools st)]"

text \<open>The loop of \<open>mempool_expand\<close> that links the chunks of a new block.\<close>

fun mempool_link :: "bool \<Rightarrow> nat \<Rightarrow> nat \<Rightarrow> nat \<Rightarrow> mempool_state \<Rightarrow> mempool_state" where
  "mempool_link init chunk real 0 st = st"
| "mempool_link init chunk real (Suc n) st = (let st = mempool_event init (Initialise chunk) st in
     if 0 < n then mempool_link init (chunk + real) real n (st\<lparr>mp_heap := (mp_heap st)(chunk \<mapsto> Chunk (chunk + real))\<rparr>)
     else st\<lparr>mp_heap := (mp_heap st)(chunk \<mapsto> End_marker)\<rparr>)"

definition mempool_expand_block :: "nat \<Rightarrow> nat \<Rightarrow> mempool_state \<Rightarrow> (nat \<times> mempool_state) option" where
  "mempool_expand_block k i st =
     (if \<not> i < MEMPOOL_NROF_FREELISTS \<or> nrof_free (pools st ! k) i \<noteq> 0 then None
      else let
        st = pool_update k (\<lambda>p. p\<lparr>calls_expand := calls_expand p + 1\<rparr>) st;
        pool = pools st ! k;
        nrof_arrays = drop_bit i (expand_size pool);
        nrof_arrays = (if nrof_arrays = 0 then 1 else nrof_arrays);
        chunksize_real = sizeof_chunk + push_bit i (chunksize pool);
        (first, st) = xcalloc_block nrof_arrays chunksize_real st;
        st = pool_update k (\<lambda>p. p\<lparr>freelist := (freelist p)(i := Chunk first),
          nrof_allocated := (nrof_allocated p)(i := nrof_allocated p i + nrof_arrays),
          nrof_free := (nrof_free p)(i := nrof_arrays)\<rparr>) st
      in Some (first, mempool_link (initialisator pool) first chunksize_real nrof_arrays st))"

definition mempool_track :: "nat \<Rightarrow> nat \<Rightarrow> nat \<Rightarrow> nat \<Rightarrow> mempool_state \<Rightarrow> mempool_state" where
  "mempool_track k i first p st = (let
     st = st\<lparr>mp_puddles := (mp_puddles st)(p := (mp_puddles st p)\<lparr>pd_first_chunk := first, pd_next := puddlelist (pools st ! k) i\<rparr>)\<rparr>
   in pool_update k (\<lambda>pool. pool\<lparr>puddlelist := (puddlelist pool)(i := p)\<rparr>) st)"

text \<open>The part of \<open>mempool_get_chunk\<close> after the pool has a free chunk.\<close>

definition mempool_take :: "nat \<Rightarrow> nat \<Rightarrow> mempool_state \<Rightarrow> (nat \<times> mempool_state) option" where
  "mempool_take k i st = (case freelist (pools st ! k) i of
     Chunk a \<Rightarrow> do {
       nxt \<leftarrow> mp_heap st a;
       Some (a, pool_update k (\<lambda>p. p\<lparr>freelist := (freelist p)(i := nxt),
                                      nrof_free := (nrof_free p)(i := size_sub (nrof_free p i) 1)\<rparr>) st)
     }
   | _ \<Rightarrow> None)"

text \<open>
  \<open>mempool_get_chunk\<close> and \<open>mempool_expand\<close> call each other: the puddle that records a new
  block is itself a chunk of the pool of puddles. Both assertions of \<open>mempool_get_chunk\<close> are
  about its arguments; where they fail there is no value.
\<close>

partial_function (option) mempool_get_chunk :: "nat \<Rightarrow> nat \<Rightarrow> mempool_state \<Rightarrow> (nat \<times> mempool_state) option" where
  "mempool_get_chunk k i st =
     (if \<not> (k < length (pools st) \<and> i < MEMPOOL_NROF_FREELISTS) then None
      else do {
        let st = pool_update k (\<lambda>p. p\<lparr>calls_get := calls_get p + 1\<rparr>) st;
        let pool = pools st ! k;
        (new_obj, st) \<leftarrow>
          (if bypasses pool
           then Some (case xcalloc_block 1 (sizeof_chunk + push_bit i (chunksize pool)) st of (a, st) \<Rightarrow>
             (a, pool_update k (\<lambda>p. p\<lparr>nrof_allocated := (nrof_allocated p)(i := nrof_allocated p i + 1)\<rparr>) st))
           else if nrof_free pool i = 0
           then do {
             (first, st) \<leftarrow> mempool_expand_block k i st;
             (p, st) \<leftarrow> mempool_get_chunk 0 0 st;
             mempool_take k i (mempool_track k i first p st)
           }
           else mempool_take k i st);
        st \<leftarrow> set_next new_obj Null st;
        Some (new_obj, mempool_event (constructor pool) (Construct new_obj) st)
      })"

declare mempool_get_chunk.simps [code]

definition mempool_expand :: "nat \<Rightarrow> nat \<Rightarrow> mempool_state \<Rightarrow> mempool_state option" where
  "mempool_expand k i st = do {
     (first, st) \<leftarrow> mempool_expand_block k i st;
     (p, st) \<leftarrow> mempool_get_chunk 0 0 st;
     Some (mempool_track k i first p st)
   }"

definition chunk_free :: "nat \<Rightarrow> mempool_state \<Rightarrow> bool option" where
  "chunk_free a st = map_option (\<lambda>p. p \<noteq> Null) (mp_heap st a)"

definition mempool_return_chunk :: "nat \<Rightarrow> nat \<Rightarrow> nat \<Rightarrow> mempool_state \<Rightarrow> mempool_state outcome option" where
  "mempool_return_chunk k i a st =
     (if \<not> (k < length (pools st) \<and> i < MEMPOOL_NROF_FREELISTS) then Some Aborted
      else do {
        let st = pool_update k (\<lambda>p. p\<lparr>calls_return := calls_return p + 1\<rparr>) st;
        let pool = pools st ! k;
        is_free \<leftarrow> chunk_free a st;
        if is_free then Some Aborted
        else do {
          let st = mempool_event (destructor pool) (Destruct a) st;
          if bypasses pool
          then do {
            st \<leftarrow> free_block a (mempool_event (deinitialisator pool) (Deinitialise a) st);
            Some (Value (pool_update k (\<lambda>p. p\<lparr>nrof_allocated := (nrof_allocated p)(i := size_sub (nrof_allocated p i) 1)\<rparr>) st))
          }
          else do {
            st \<leftarrow> set_next a (freelist pool i) st;
            Some (Value (pool_update k (\<lambda>p. p\<lparr>freelist := (freelist p)(i := Chunk a),
                                              nrof_free := (nrof_free p)(i := nrof_free p i + 1)\<rparr>) st))
          }
        }
      })"


section \<open>Giving puddles back\<close>

text \<open>Counting the free chunks of a puddle and linking them into a list of its own.\<close>

fun mempool_scan :: "nat list \<Rightarrow> mempool_puddle \<Rightarrow> mempool_state \<Rightarrow> (mempool_puddle \<times> mempool_state) option" where
  "mempool_scan [] pd st = Some (pd, st)"
| "mempool_scan (chunk # chunks) pd st = do {
     is_free \<leftarrow> chunk_free chunk st;
     (if is_free then do {
        (pd, st) \<leftarrow> (if pd_nrof_free pd = 0
          then do {
            st \<leftarrow> set_next chunk Null st;
            Some (pd\<lparr>pd_first_free := Chunk chunk, pd_last_free := Chunk chunk\<rparr>, st)
          }
          else do {
            st \<leftarrow> set_next chunk (pd_first_free pd) st;
            Some (pd\<lparr>pd_first_free := Chunk chunk\<rparr>, st)
          });
        mempool_scan chunks (pd\<lparr>pd_nrof_free := pd_nrof_free pd + 1\<rparr>) st
      }
      else mempool_scan chunks pd st)
   }"

definition puddle_update :: "nat \<Rightarrow> (mempool_puddle \<Rightarrow> mempool_puddle) \<Rightarrow> mempool_state \<Rightarrow> mempool_state" where
  "puddle_update p f st = st\<lparr>mp_puddles := (mp_puddles st)(p := f (mp_puddles st p))\<rparr>"

text \<open>One puddle of \<open>mempool_free_puddles\<close>; \<open>Inr Aborted\<close> is a puddle returned twice.\<close>

definition mempool_puddle_step ::
  "nat \<Rightarrow> nat \<Rightarrow> nat \<times> nat \<times> mempool_state \<Rightarrow> (nat \<times> nat \<times> mempool_state + (nat \<times> mempool_state) outcome) option" where
  "mempool_puddle_step k i = (\<lambda>(puddle, freed, st).
     if puddle = 0 then Some (Inr (Value (freed, st)))
     else do {
       let chunksize_real = sizeof_chunk + push_bit i (chunksize (pools st ! k));
       let nrof_arrays = drop_bit i (expand_size (pools st ! k));
       let next_puddle = pd_next (mp_puddles st puddle);
       let pd = (mp_puddles st puddle)\<lparr>pd_first_free := Null, pd_last_free := Null, pd_nrof_free := 0\<rparr>;
       (pd, st) \<leftarrow> mempool_scan (block_chunks (pd_first_chunk pd) chunksize_real nrof_arrays) pd st;
       let st = puddle_update puddle (\<lambda>_. pd) st;
       if unat (pd_nrof_free pd) = nrof_arrays \<or> deiniting st \<and> k = 0
       then do {
         st \<leftarrow> free_block (pd_first_chunk pd) st;
         res \<leftarrow> (if \<not> deiniting st \<or> k \<noteq> 0 then mempool_return_chunk 0 0 puddle st else Some (Value st));
         (case res of
            Aborted \<Rightarrow> Some (Inr Aborted)
          | Value st \<Rightarrow> Some (Inl (next_puddle, freed + 1, pool_update k (\<lambda>p. p\<lparr>
              nrof_free := (nrof_free p)(i := size_sub (nrof_free p i) nrof_arrays),
              nrof_allocated := (nrof_allocated p)(i := size_sub (nrof_allocated p i) nrof_arrays)\<rparr>) st)))
       }
       else Some (Inl (next_puddle, freed,
         pool_update k (\<lambda>p. p\<lparr>puddlelist := (puddlelist p)(i := puddle)\<rparr>)
           (puddle_update puddle (\<lambda>d. d\<lparr>pd_next := puddlelist (pools st ! k) i\<rparr>) st)))
     })"

definition sort_puddle_by_nrof_free :: "(nat \<Rightarrow> mempool_puddle) \<Rightarrow> nat \<Rightarrow> nat \<Rightarrow> int" where
  "sort_puddle_by_nrof_free pd a b =
     (if pd_nrof_free (pd a) < pd_nrof_free (pd b) then - 1
      else if pd_nrof_free (pd a) > pd_nrof_free (pd b) then 1 else 0)"

text \<open>Chaining the lists of the puddles into the list of the pool.\<close>

definition mempool_rebuild_step ::
  "nat \<Rightarrow> nat \<Rightarrow> nat \<times> chunk_ptr \<times> mempool_state \<Rightarrow> (nat \<times> chunk_ptr \<times> mempool_state + mempool_state) option" where
  "mempool_rebuild_step k i = (\<lambda>(puddle, last_free, st).
     if puddle = 0 then Some (Inr st)
     else do {
       let pd = mp_puddles st puddle;
       if pd_nrof_free pd > 0 then do {
         st \<leftarrow> (if freelist (pools st ! k) i = End_marker
           then Some (pool_update k (\<lambda>p. p\<lparr>freelist := (freelist p)(i := pd_first_free pd)\<rparr>) st)
           else (case last_free of Chunk a \<Rightarrow> set_next a (pd_first_free pd) st | _ \<Rightarrow> None));
         st \<leftarrow> (case pd_last_free pd of Chunk a \<Rightarrow> set_next a End_marker st | _ \<Rightarrow> None);
         Some (Inl (pd_next pd, pd_last_free pd, st))
       }
       else Some (Inl (pd_next pd, last_free, st))
     })"

definition mempool_free_size ::
  "(nat \<Rightarrow> sl_tape) \<Rightarrow> nat \<Rightarrow> nat \<Rightarrow> nat \<times> mempool_state \<Rightarrow> (nat \<times> mempool_state) outcome option" where
  "mempool_free_size junk k i = (\<lambda>(freed, st). do {
     let puddle = puddlelist (pools st ! k) i;
     let st = pool_update k (\<lambda>p. p\<lparr>puddlelist := (puddlelist p)(i := 0)\<rparr>) st;
     res \<leftarrow> c_loop (mempool_puddle_step k i) (puddle, freed, st);
     (case res of
        Aborted \<Rightarrow> Some Aborted
      | Value (freed, st) \<Rightarrow> do {
          (first, _, nxt) \<leftarrow> sort_linked_list junk (sort_puddle_by_nrof_free (mp_puddles st)) 0
            (puddlelist (pools st ! k) i) (\<lambda>p. pd_next (mp_puddles st p));
          let st = st\<lparr>mp_puddles := (\<lambda>p. (mp_puddles st p)\<lparr>pd_next := nxt p\<rparr>)\<rparr>;
          let st = pool_update k (\<lambda>p. p\<lparr>puddlelist := (puddlelist p)(i := first),
                                         freelist := (freelist p)(i := End_marker)\<rparr>) st;
          st \<leftarrow> c_loop (mempool_rebuild_step k i) (first, End_marker, st);
          Some (Value (freed, st))
        })
   })"

fun mempool_free_sizes ::
  "(nat \<Rightarrow> sl_tape) \<Rightarrow> nat \<Rightarrow> nat list \<Rightarrow> nat \<times> mempool_state \<Rightarrow> (nat \<times> mempool_state) outcome option" where
  "mempool_free_sizes junk k [] x = Some (Value x)"
| "mempool_free_sizes junk k (i # is) x = do {
     res \<leftarrow> mempool_free_size junk k i x;
     (case res of Aborted \<Rightarrow> Some Aborted | Value y \<Rightarrow> mempool_free_sizes junk k is y)
   }"

definition mempool_free_puddles ::
  "(nat \<Rightarrow> sl_tape) \<Rightarrow> nat \<Rightarrow> mempool_state \<Rightarrow> (nat \<times> mempool_state) outcome option" where
  "mempool_free_puddles junk k st =
     (if bypasses (pools st ! k) then Some (Value (0, st))
      else mempool_free_sizes junk k [0..<MEMPOOL_NROF_FREELISTS] (0, st))"

definition mempool_reclaim ::
  "(nat \<Rightarrow> sl_tape) \<Rightarrow> nat \<Rightarrow> mempool_state \<Rightarrow> (nat \<times> mempool_state) outcome option" where
  "mempool_reclaim junk k st =
     (if flags (pools st ! k) AND MEMPOOL_ALLOW_FREEING = 0 then Some (Value (0, st))
      else mempool_free_puddles junk k st)"


section \<open>Leaks and the end of the module\<close>

text \<open>
  The report lists, in a release build, the chunks in use of every pool but that of the
  puddles, and only while the module ends; every line names the chunk and the pool and says
  that no debug information is available. The report here is the list of the pools and
  chunks that the lines name.
\<close>

fun mempool_leak_chunks :: "nat \<Rightarrow> nat list \<Rightarrow> mempool_state \<Rightarrow> (nat \<times> nat) list option" where
  "mempool_leak_chunks k [] st = Some []"
| "mempool_leak_chunks k (chunk # chunks) st = do {
     is_free \<leftarrow> chunk_free chunk st;
     rest \<leftarrow> mempool_leak_chunks k chunks st;
     Some (if is_free then rest
           else if \<not> deiniting st then rest
           else if k = 0 then rest
           else (k, chunk) # rest)
   }"

definition mempool_leak_step ::
  "nat \<Rightarrow> nat \<Rightarrow> mempool_state \<Rightarrow> nat \<times> (nat \<times> nat) list \<Rightarrow> (nat \<times> (nat \<times> nat) list + (nat \<times> nat) list) option" where
  "mempool_leak_step k i st = (\<lambda>(puddle, sb).
     if puddle = 0 then Some (Inr sb)
     else do {
       let chunksize_real = sizeof_chunk + push_bit i (chunksize (pools st ! k));
       let nrof_arrays = drop_bit i (expand_size (pools st ! k));
       let pd = mp_puddles st puddle;
       leaks \<leftarrow> mempool_leak_chunks k (block_chunks (pd_first_chunk pd) chunksize_real nrof_arrays) st;
       Some (Inl (pd_next pd, sb @ leaks))
     })"

fun mempool_leak_sizes :: "nat \<Rightarrow> nat list \<Rightarrow> mempool_state \<Rightarrow> (nat \<times> nat) list \<Rightarrow> (nat \<times> nat) list option" where
  "mempool_leak_sizes k [] st sb = Some sb"
| "mempool_leak_sizes k (i # is) st sb = do {
     sb \<leftarrow> c_loop (mempool_leak_step k i st) (puddlelist (pools st ! k) i, sb);
     mempool_leak_sizes k is st sb
   }"

definition mempool_leak_info :: "nat \<Rightarrow> mempool_state \<Rightarrow> (nat \<times> nat) list \<Rightarrow> (nat \<times> nat) list option" where
  "mempool_leak_info k st sb = mempool_leak_sizes k [0..<MEMPOOL_NROF_FREELISTS] st sb"

fun mempool_leak_pools :: "nat list \<Rightarrow> mempool_state \<Rightarrow> (nat \<times> nat) list \<Rightarrow> (nat \<times> nat) list option" where
  "mempool_leak_pools [] st sb = Some sb"
| "mempool_leak_pools (k # ks) st sb = do { sb \<leftarrow> mempool_leak_info k st sb; mempool_leak_pools ks st sb }"

definition mempool_leak_info_all :: "mempool_state \<Rightarrow> (nat \<times> nat) list \<Rightarrow> (nat \<times> nat) list option" where
  "mempool_leak_info_all st sb = mempool_leak_pools [1..<length (pools st)] st sb"

text \<open>Freeing a pool logs its report; the result is the log and the state.\<close>

definition mempool_free ::
  "(nat \<Rightarrow> sl_tape) \<Rightarrow> nat \<Rightarrow> (nat \<times> nat) list \<times> mempool_state \<Rightarrow> ((nat \<times> nat) list \<times> mempool_state) outcome option" where
  "mempool_free junk k = (\<lambda>(log, st). do {
     info \<leftarrow> mempool_leak_info k st [];
     res \<leftarrow> mempool_free_puddles junk k st;
     Some (case res of Aborted \<Rightarrow> Aborted | Value (_, st) \<Rightarrow> Value (log @ info, st))
   })"

fun mempool_free_all ::
  "(nat \<Rightarrow> sl_tape) \<Rightarrow> nat list \<Rightarrow> (nat \<times> nat) list \<times> mempool_state \<Rightarrow> ((nat \<times> nat) list \<times> mempool_state) outcome option" where
  "mempool_free_all junk [] x = Some (Value x)"
| "mempool_free_all junk (k # ks) x = do {
     res \<leftarrow> mempool_free junk k x;
     (case res of Aborted \<Rightarrow> Some Aborted | Value y \<Rightarrow> mempool_free_all junk ks y)
   }"

definition mempool_deinit ::
  "(nat \<Rightarrow> sl_tape) \<Rightarrow> mempool_state \<Rightarrow> ((nat \<times> nat) list \<times> mempool_state) outcome option" where
  "mempool_deinit junk st =
     mempool_free_all junk ([1..<length (pools st)] @ [0]) ([], st\<lparr>deiniting := True\<rparr>)"

end
