(* ===== verification/Mempool_Correct.thy ===== *)
theory Mempool_Correct
  imports Mempool "HOL-Library.Code_Target_Nat"
begin

unbundle bit_operations_syntax

text \<open>
  What memory pools promise: a chunk that a pool hands out is in no one's use, and stays in
  use until it is returned. The invariant gives the free chunks of every pool and size as
  a list and says that these lists, the \<open>next\<close> pointers and the counters agree.
\<close>

section \<open>The invariant\<close>

fun fl_chain :: "(nat \<rightharpoonup> chunk_ptr) \<Rightarrow> chunk_ptr \<Rightarrow> nat list \<Rightarrow> bool" where
  "fl_chain h p [] \<longleftrightarrow> p = End_marker"
| "fl_chain h p (x # xs) \<longleftrightarrow> p = Chunk x \<and> (\<exists>n. h x = Some n \<and> fl_chain h n xs)"

type_synonym free_lists = "nat \<times> nat \<Rightarrow> nat list"

text \<open>The chunks in use.\<close>

definition used :: "mempool_state \<Rightarrow> nat set" where
  "used st = {a. mp_heap st a = Some Null}"

definition lists_ok :: "(nat \<rightharpoonup> chunk_ptr) \<Rightarrow> nat \<Rightarrow> ('x \<Rightarrow> nat list) \<Rightarrow> bool" where
  "lists_ok h brk F \<longleftrightarrow> (\<forall>x. distinct (F x)) \<and>
     (\<forall>x y a. a \<in> set (F x) \<longrightarrow> a \<in> set (F y) \<longrightarrow> x = y) \<and>
     (\<forall>x a. a \<in> set (F x) \<longrightarrow> (\<exists>n. h a = Some n \<and> n \<noteq> Null)) \<and>
     (\<forall>a n. h a = Some n \<longrightarrow> a < brk \<and> (n = Null \<or> (\<exists>x. a \<in> set (F x))))"

definition mp_lists :: "mempool_state \<Rightarrow> free_lists \<Rightarrow> bool" where
  "mp_lists st F \<longleftrightarrow> lists_ok (mp_heap st) (mp_brk st) F \<and>
     (\<forall>k i. k < length (pools st) \<and> i < MEMPOOL_NROF_FREELISTS \<longrightarrow>
       fl_chain (mp_heap st) (freelist (pools st ! k) i) (F (k, i)) \<and>
       nrof_free (pools st ! k) i = length (F (k, i))) \<and>
     (\<forall>k i. \<not> (k < length (pools st) \<and> i < MEMPOOL_NROF_FREELISTS) \<longrightarrow> F (k, i) = []) \<and>
     pools st \<noteq> [] \<and> expand_size (pools st ! 0) = 10 \<and> \<not> bypasses (pools st ! 0)"

definition mp_ok :: "mempool_state \<Rightarrow> bool" where
  "mp_ok st \<longleftrightarrow> (\<exists>F. mp_lists st F)"

lemma fl_chain_frame: "a \<notin> set xs \<Longrightarrow> fl_chain (h(a := v)) p xs = fl_chain h p xs"
  by (induction xs arbitrary: p) auto

lemma fl_chain_cong: "(\<And>a. a \<in> set xs \<Longrightarrow> h' a = h a) \<Longrightarrow> fl_chain h' p xs = fl_chain h p xs"
  by (induction xs arbitrary: p) auto

lemma fl_chain_not_Null: "fl_chain h p xs \<Longrightarrow> p \<noteq> Null"
  by (cases xs) auto

lemma lists_okD:
  assumes "lists_ok h brk F"
  shows "distinct (F x)" "a \<in> set (F x) \<Longrightarrow> a \<in> set (F y) \<Longrightarrow> x = y"
    "a \<in> set (F x) \<Longrightarrow> \<exists>n. h a = Some n \<and> n \<noteq> Null" "h a = Some n \<Longrightarrow> a < brk"
    "h a = Some n \<Longrightarrow> n = Null \<or> (\<exists>x. a \<in> set (F x))"
  using assms unfolding lists_ok_def by blast+

lemma lists_ok_drop:
  assumes ok: "lists_ok h brk F" and x: "F x = a # xs"
  shows "lists_ok (h(a \<mapsto> Null)) brk (F(x := xs))"
  unfolding lists_ok_def
proof (intro conjI allI impI)
  have "a \<in> set (F x)" using x by simp
  then have a: "a \<notin> set xs" "a < brk"
    using lists_okD(1) [OF ok, of x] x lists_okD(3) [OF ok, of a x] lists_okD(4) [OF ok, of a] by auto
  have sub: "set ((F(x := xs)) y) \<subseteq> set (F y)" for y using x by auto
  show "distinct ((F(x := xs)) y)" for y using lists_okD(1) [OF ok, of y] lists_okD(1) [OF ok, of x] x by auto
  show "y = z" if "b \<in> set ((F(x := xs)) y)" "b \<in> set ((F(x := xs)) z)" for y z b
    using that sub lists_okD(2) [OF ok] by blast
  show "\<exists>n. (h(a \<mapsto> Null)) b = Some n \<and> n \<noteq> Null" if b: "b \<in> set ((F(x := xs)) y)" for y b
  proof -
    have "b \<noteq> a" using \<open>a \<in> set (F x)\<close> b a(1) lists_okD(2) [OF ok, of a x y] by (auto split: if_splits)
    then show ?thesis using b sub lists_okD(3) [OF ok] by (metis fun_upd_apply subsetD)
  qed
  show "b < brk" if "(h(a \<mapsto> Null)) b = Some n" for b n
    using that a lists_okD(4) [OF ok] by (auto split: if_splits)
  show "n = Null \<or> (\<exists>y. b \<in> set ((F(x := xs)) y))" if m: "(h(a \<mapsto> Null)) b = Some n" for b n
  proof (cases "b = a")
    case False
    then consider "n = Null" | y where "b \<in> set (F y)" using m lists_okD(5) [OF ok, of b n] by auto
    then show ?thesis
    proof cases
      case 2
      then have "b \<in> set ((F(x := xs)) y)" using x False by auto
      then show ?thesis by blast
    qed simp
  qed (use m in simp)
qed

lemma lists_ok_push:
  assumes ok: "lists_ok h brk F" and a: "h a = Some Null" and p: "p \<noteq> Null"
  shows "lists_ok (h(a \<mapsto> p)) brk (F(x := a # F x))"
proof -
  have n: "a \<notin> set (F y)" for y using lists_okD(3) [OF ok] a by fastforce
  have "a < brk" using lists_okD(4) [OF ok a] .
  moreover have "m = Null \<or> (\<exists>y. b \<in> set ((F(x := a # F x)) y))" if m: "(h(a \<mapsto> p)) b = Some m" for b m
  proof (cases "b = a")
    case True
    then have "b \<in> set ((F(x := a # F x)) x)" by simp
    then show ?thesis by blast
  next
    case False
    then consider "m = Null" | y where "b \<in> set (F y)" using m lists_okD(5) [OF ok, of b m] by auto
    then show ?thesis
    proof cases
      case 2
      then have "b \<in> set ((F(x := a # F x)) y)" by auto
      then show ?thesis by blast
    qed simp
  qed
  ultimately show ?thesis
    using ok n p unfolding lists_ok_def by (auto split: if_splits)
qed

lemma lists_ok_new:
  assumes ok: "lists_ok h brk F" and x: "F x = []" and L: "distinct L" "\<And>a. a \<in> set L \<Longrightarrow> brk \<le> a \<and> a < brk'"
    and h: "\<And>a. a \<notin> set L \<Longrightarrow> h' a = h a" "\<And>a. a \<in> set L \<Longrightarrow> \<exists>n. h' a = Some n \<and> n \<noteq> Null"
    and brk: "brk \<le> brk'"
  shows "lists_ok h' brk' (F(x := L))"
proof -
  have n: "a \<notin> set (F y)" if "a \<in> set L" for y a
    using lists_okD(3,4) [OF ok, of a] L(2) [OF that] by (meson leD)
  show ?thesis
    unfolding lists_ok_def
  proof (intro conjI allI impI)
    show "distinct ((F(x := L)) y)" for y using L(1) lists_okD(1) [OF ok] by simp
    show "y = z" if "b \<in> set ((F(x := L)) y)" "b \<in> set ((F(x := L)) z)" for y z b
      using that n lists_okD(2) [OF ok] by (auto split: if_splits)
    show "\<exists>m. h' b = Some m \<and> m \<noteq> Null" if "b \<in> set ((F(x := L)) y)" for y b
      using that h n lists_okD(3) [OF ok] by (cases "b \<in> set L") (auto split: if_splits)
    show "b < brk'" if "h' b = Some m" for b m
      using that h(1) L(2) lists_okD(4) [OF ok, of b m] brk by (cases "b \<in> set L") auto
    show "m = Null \<or> (\<exists>y. b \<in> set ((F(x := L)) y))" if m: "h' b = Some m" for b m
    proof (cases "b \<in> set L")
      case False
      then consider "m = Null" | y where "b \<in> set (F y)" using m h(1) [of b] lists_okD(5) [OF ok, of b m] by auto
      then show ?thesis
      proof cases
        case 2
        then have "b \<in> set ((F(x := L)) y)" using x by auto
        then show ?thesis by blast
      qed simp
    qed auto
  qed
qed

lemma lists_ok_alloc:
  assumes ok: "lists_ok h brk F" and "brk < brk'"
  shows "lists_ok (h(brk \<mapsto> Null)) brk' F"
proof -
  have n: "brk \<notin> set (F y)" for y using lists_okD(3,4) [OF ok, of brk] by (meson less_irrefl)
  moreover have "a < brk'" if "h a = Some m" for a m using lists_okD(4) [OF ok that] assms(2) by simp
  ultimately show ?thesis using ok assms(2) unfolding lists_ok_def by (auto split: if_splits)
qed

lemma lists_ok_free:
  assumes ok: "lists_ok h brk F" and S: "\<And>a. a \<in> S \<Longrightarrow> h a = Some Null \<or> h a = None"
  shows "lists_ok (\<lambda>a. if a \<in> S then None else h a) brk F"
proof -
  have "a \<notin> S" if "a \<in> set (F y)" for a y using that lists_okD(3) [OF ok that] S by fastforce
  then show ?thesis using ok unfolding lists_ok_def by (auto split: if_splits)
qed


section \<open>Steps of the operations\<close>

lemma pool_update_simps [simp]:
  "length (pools (pool_update k f st)) = length (pools st)" "mp_heap (pool_update k f st) = mp_heap st"
  "mp_brk (pool_update k f st) = mp_brk st" "mp_blocks (pool_update k f st) = mp_blocks st"
  "used (pool_update k f st) = used st" "deiniting (pool_update k f st) = deiniting st"
  by (simp_all add: pool_update_def used_def)

lemma pool_update_nth:
  "k < length (pools st) \<Longrightarrow> pools (pool_update k f st) ! j = (if j = k then f (pools st ! k) else pools st ! j)"
  by (simp add: pool_update_def)

lemma mempool_event_simps [simp]:
  "pools (mempool_event b e st) = pools st" "mp_heap (mempool_event b e st) = mp_heap st"
  "mp_brk (mempool_event b e st) = mp_brk st" "mp_blocks (mempool_event b e st) = mp_blocks st"
  "used (mempool_event b e st) = used st"
  by (simp_all add: mempool_event_def used_def)

definition mp_fixed :: "mempool_struct \<Rightarrow> nat \<times> nat \<times> u32 \<times> bytes" where
  "mp_fixed p = (expand_size p, chunksize p, flags p, chunk_description p)"

definition mp_core :: "mempool_struct \<Rightarrow> (nat \<Rightarrow> chunk_ptr) \<times> (nat \<Rightarrow> nat) \<times> nat \<times> nat \<times> u32 \<times> bytes" where
  "mp_core p = (freelist p, nrof_free p, mp_fixed p)"

definition mp_static :: "mempool_state \<Rightarrow> mempool_state \<Rightarrow> bool" where
  "mp_static st st' \<longleftrightarrow> map mp_fixed (pools st') = map mp_fixed (pools st)"

lemma mp_static_refl [simp]: "mp_static st st"
  by (simp add: mp_static_def)

lemma mp_static_trans: "mp_static st st' \<Longrightarrow> mp_static st' st'' \<Longrightarrow> mp_static st st''"
  by (simp add: mp_static_def)

lemma mp_static_length: "mp_static st st' \<Longrightarrow> length (pools st') = length (pools st)"
  unfolding mp_static_def by (metis length_map)

lemma mp_static_nth: "mp_static st st' \<Longrightarrow> k < length (pools st) \<Longrightarrow> mp_fixed (pools st' ! k) = mp_fixed (pools st ! k)"
  using mp_static_length unfolding mp_static_def by (metis nth_map)

lemma mp_static_update: "(\<And>p. mp_fixed (f p) = mp_fixed p) \<Longrightarrow> mp_static st (pool_update k f st)"
  by (cases "k < length (pools st)") (simp_all add: mp_static_def pool_update_def map_update list_update_same_conv list_update_beyond not_less)

lemma mp_lists_cong:
  assumes "map mp_core (pools st') = map mp_core (pools st)" "mp_heap st' = mp_heap st" "mp_brk st' = mp_brk st"
  shows "mp_lists st' F = mp_lists st F"
proof -
  have len: "length (pools st') = length (pools st)" using assms(1) by (metis length_map)
  have "mp_core (pools st' ! k) = mp_core (pools st ! k)" if "k < length (pools st)" for k
    using assms(1) that len by (metis nth_map)
  then have c: "freelist (pools st' ! k) = freelist (pools st ! k) \<and> nrof_free (pools st' ! k) = nrof_free (pools st ! k) \<and>
      expand_size (pools st' ! k) = expand_size (pools st ! k) \<and> flags (pools st' ! k) = flags (pools st ! k)"
    if "k < length (pools st)" for k using that by (simp add: mp_core_def mp_fixed_def)
  have "pools st \<noteq> [] \<Longrightarrow> 0 < length (pools st)" by simp
  with c show ?thesis unfolding mp_lists_def assms(2,3) len by (auto simp flip: length_greater_0_conv simp: len)
qed

lemma mp_lists_update:
  assumes "\<And>p. mp_core (f p) = mp_core p"
  shows "mp_lists (pool_update k f st) F = mp_lists st F"
proof (rule mp_lists_cong)
  show "map mp_core (pools (pool_update k f st)) = map mp_core (pools st)"
    using assms by (cases "k < length (pools st)") (simp_all add: pool_update_def map_update list_update_same_conv list_update_beyond not_less)
qed simp_all

lemma mp_lists_event [simp]: "mp_lists (mempool_event b e st) F = mp_lists st F"
  by (rule mp_lists_cong) simp_all

lemma mp_listsD:
  assumes "mp_lists st F"
  shows "lists_ok (mp_heap st) (mp_brk st) F"
    "k < length (pools st) \<Longrightarrow> i < MEMPOOL_NROF_FREELISTS \<Longrightarrow> fl_chain (mp_heap st) (freelist (pools st ! k) i) (F (k, i))"
    "k < length (pools st) \<Longrightarrow> i < MEMPOOL_NROF_FREELISTS \<Longrightarrow> nrof_free (pools st ! k) i = length (F (k, i))"
    "0 < length (pools st)" "expand_size (pools st ! 0) = 10" "\<not> bypasses (pools st ! 0)"
  using assms by (auto simp: mp_lists_def)

text \<open>A change of the list of one pool and size.\<close>

lemma mp_lists_change:
  assumes st: "mp_lists st F" and k: "k < length (pools st)" "i < MEMPOOL_NROF_FREELISTS"
    and pools: "pools st' = (pools st)[k := p']" "mp_fixed p' = mp_fixed (pools st ! k)"
    and p': "freelist p' = (freelist (pools st ! k))(i := ptr)" "nrof_free p' = (nrof_free (pools st ! k))(i := length L)"
    and ok: "lists_ok (mp_heap st') (mp_brk st') (F((k, i) := L))"
    and chain: "fl_chain (mp_heap st') ptr L"
    and frame: "\<And>x a. x \<noteq> (k, i) \<Longrightarrow> a \<in> set (F x) \<Longrightarrow> mp_heap st' a = mp_heap st a"
  shows "mp_lists st' (F((k, i) := L))"
proof -
  note s = mp_listsD [OF st]
  have fixed: "expand_size p' = expand_size (pools st ! k)" "flags p' = flags (pools st ! k)"
    using pools(2) by (simp_all add: mp_fixed_def)
  have "fl_chain (mp_heap st') (freelist (pools st' ! j) l) ((F((k, i) := L)) (j, l)) \<and>
      nrof_free (pools st' ! j) l = length ((F((k, i) := L)) (j, l))"
    if j: "j < length (pools st)" "l < MEMPOOL_NROF_FREELISTS" for j l
  proof (cases "(j, l) = (k, i)")
    case True
    then show ?thesis using k pools p' chain by simp
  next
    case False
    have "freelist (pools st' ! j) l = freelist (pools st ! j) l" "nrof_free (pools st' ! j) l = nrof_free (pools st ! j) l"
      using False k pools p' by (cases "j = k"; auto)+
    moreover have "fl_chain (mp_heap st') (freelist (pools st ! j) l) (F (j, l))"
      using s(2) [OF j] frame [of "(j, l)"] False fl_chain_cong [of "F (j, l)" "mp_heap st'" "mp_heap st"] by blast
    ultimately show ?thesis using False s(3) [OF j] by auto
  qed
  moreover have "expand_size (pools st' ! 0) = 10" "\<not> bypasses (pools st' ! 0)"
    using s(4-6) fixed pools by (cases "k = 0"; simp)+
  moreover have "(F((k, i) := L)) (j, l) = []" if "\<not> (j < length (pools st) \<and> l < MEMPOOL_NROF_FREELISTS)" for j l
    using st that k by (auto simp: mp_lists_def)
  moreover have "length (pools st') = length (pools st)" "pools st' \<noteq> []" using s(4) pools by simp_all
  ultimately show ?thesis using ok unfolding mp_lists_def by simp
qed

lemma mempool_take_ok:
  assumes st: "mp_lists st F" and k: "k < length (pools st)" "i < MEMPOOL_NROF_FREELISTS" and F: "F (k, i) = a # xs"
  shows "\<exists>st1 st2. mempool_take k i st = Some (a, st1) \<and> set_next a Null st1 = Some st2 \<and>
    mp_lists st2 (F((k, i) := xs)) \<and> used st2 = insert a (used st) \<and> a \<notin> used st \<and> mp_static st st2"
proof -
  note s = mp_listsD [OF st]
  obtain n where n: "freelist (pools st ! k) i = Chunk a" "mp_heap st a = Some n" "fl_chain (mp_heap st) n xs"
    using s(2) [OF k] F by auto
  have a: "a \<in> set (F (k, i))" "n \<noteq> Null" using F fl_chain_not_Null [OF n(3)] by auto
  define f where "f = (\<lambda>p :: mempool_struct. p\<lparr>freelist := (freelist p)(i := n), nrof_free := (nrof_free p)(i := size_sub (nrof_free p i) 1)\<rparr>)"
  define st1 where "st1 = pool_update k f st"
  define st2 where "st2 = st1\<lparr>mp_heap := (mp_heap st)(a \<mapsto> Null)\<rparr>"
  have "mempool_take k i st = Some (a, st1)" using n by (simp add: mempool_take_def st1_def f_def)
  moreover have "set_next a Null st1 = Some st2" using n by (simp add: set_next_def st1_def st2_def)
  moreover have "mp_lists st2 (F((k, i) := xs))"
  proof (rule mp_lists_change [OF st k])
    show "pools st2 = (pools st)[k := f (pools st ! k)]" by (simp add: st2_def st1_def pool_update_def)
    show "nrof_free (f (pools st ! k)) = (nrof_free (pools st ! k))(i := length xs)"
      using s(3) [OF k] F by (simp add: f_def size_sub_def)
    show "lists_ok (mp_heap st2) (mp_brk st2) (F((k, i) := xs))"
      using lists_ok_drop [OF s(1) F] by (simp add: st2_def st1_def)
    have "a \<notin> set xs" using lists_okD(1) [OF s(1), of "(k, i)"] F by simp
    then show "fl_chain (mp_heap st2) n xs" using n by (simp add: st2_def fl_chain_frame)
    show "mp_heap st2 b = mp_heap st b" if "x \<noteq> (k, i)" "b \<in> set (F x)" for x b
      using that a lists_okD(2) [OF s(1), of a "(k, i)" x] by (auto simp: st2_def)
  qed (simp_all add: f_def mp_fixed_def)
  moreover have "used st2 = insert a (used st)" "a \<notin> used st" using n a by (auto simp: used_def st2_def)
  moreover have "mp_static st st2"
    using mp_static_update [of f st k] by (simp add: f_def mp_fixed_def st2_def st1_def mp_static_def)
  ultimately show ?thesis by blast
qed


text \<open>New blocks.\<close>

declare block_chunks.simps [simp del]

lemma block_chunks_Suc: "block_chunks c real (Suc n) = c # block_chunks (c + real) real n"
  by (simp add: block_chunks.simps upt_conv_Cons map_Suc_upt [symmetric] del: upt_Suc)

lemma block_chunks_0 [simp]: "block_chunks c real 0 = []"
  by (simp add: block_chunks.simps)

lemma length_block_chunks [simp]: "length (block_chunks c real n) = n"
  by (simp add: block_chunks.simps)

lemma block_chunks_bounds:
  assumes "a \<in> set (block_chunks c real n)" "0 < real"
  shows "c \<le> a \<and> a < c + n * real"
  using assms by (auto simp: block_chunks.simps mult.commute)

lemma distinct_block_chunks: "0 < real \<Longrightarrow> distinct (block_chunks c real n)"
  by (auto simp: block_chunks.simps distinct_map inj_on_def)

lemma mempool_link_simps [simp]:
  "pools (mempool_link init c real n st) = pools st" "mp_brk (mempool_link init c real n st) = mp_brk st"
  "mp_blocks (mempool_link init c real n st) = mp_blocks st"
  by (induction init c real n st rule: mempool_link.induct) (auto simp: Let_def)

lemma mempool_link_other:
  "a \<notin> set (block_chunks c real n) \<Longrightarrow> mp_heap (mempool_link init c real n st) a = mp_heap st a"
  by (induction init c real n st rule: mempool_link.induct) (auto simp: Let_def block_chunks_Suc)

lemma mempool_link_chain:
  assumes "0 < n" "0 < real"
  shows "fl_chain (mp_heap (mempool_link init c real n st)) (Chunk c) (block_chunks c real n)"
  using assms
proof (induction init c real n st rule: mempool_link.induct)
  case (2 init c real n st)
  show ?case
  proof (cases n)
    case 0
    then show ?thesis by (simp add: Let_def block_chunks_Suc)
  next
    case (Suc m)
    define st1 where "st1 = mempool_event init (Initialise c) st"
    define st2 where "st2 = st1\<lparr>mp_heap := (mp_heap st1)(c \<mapsto> Chunk (c + real))\<rparr>"
    have e: "mempool_link init c real (Suc n) st = mempool_link init (c + real) real n st2"
      using Suc by (simp add: Let_def st1_def st2_def)
    have "c \<notin> set (block_chunks (c + real) real n)"
      using block_chunks_bounds [of c "c + real" real n] 2 by auto
    then have "mp_heap (mempool_link init (c + real) real n st2) c = Some (Chunk (c + real))"
      by (simp add: mempool_link_other st2_def)
    moreover have "fl_chain (mp_heap (mempool_link init (c + real) real n st2)) (Chunk (c + real)) (block_chunks (c + real) real n)"
      using 2 Suc by (simp add: Let_def st1_def st2_def)
    ultimately show ?thesis unfolding e block_chunks_Suc by simp
  qed
qed simp

lemma mempool_expand_block_ok:
  assumes st: "mp_lists st F" and k: "k < length (pools st)" "i < MEMPOOL_NROF_FREELISTS" and F: "F (k, i) = []"
  shows "\<exists>first st' L. mempool_expand_block k i st = Some (first, st') \<and> mp_lists st' (F((k, i) := L)) \<and>
    length L = max 1 (drop_bit i (expand_size (pools st ! k))) \<and> used st' = used st \<and> mp_static st st'"
proof -
  note s = mp_listsD [OF st]
  define f where "f = (\<lambda>p :: mempool_struct. p\<lparr>calls_expand := calls_expand p + 1\<rparr>)"
  define n where "n = max 1 (drop_bit i (expand_size (pools st ! k)))"
  define real where "real = sizeof_chunk + push_bit i (chunksize (pools st ! k))"
  define first where "first = mp_brk st"
  define L where "L = block_chunks first real n"
  have real: "0 < real" by (simp add: real_def sizeof_chunk_def)
  define st1 where "st1 = snd (xcalloc_block n real (pool_update k f st))"
  define g where "g = (\<lambda>p :: mempool_struct. p\<lparr>freelist := (freelist p)(i := Chunk first),
          nrof_allocated := (nrof_allocated p)(i := nrof_allocated p i + n), nrof_free := (nrof_free p)(i := n)\<rparr>)"
  define st2 where "st2 = mempool_link (initialisator (pools st ! k)) first real n (pool_update k g st1)"
  have "mempool_expand_block k i st = Some (first, st2)"
    using k s(3) [OF k] F unfolding st2_def st1_def g_def f_def n_def real_def first_def
    by (simp add: mempool_expand_block_def Let_def pool_update_nth xcalloc_block_def max_def Suc_le_eq)
  moreover have pools2: "pools st2 = (pools st)[k := g (f (pools st ! k))]"
    using k by (simp add: st2_def st1_def xcalloc_block_def pool_update_def)
  have heap: "mp_heap st2 a = mp_heap st a" if "a \<notin> set L" for a
    using that by (simp add: st2_def mempool_link_other st1_def xcalloc_block_def L_def first_def map_add_dom_app_simps
        dom_map_of_conv_image_fst image_image)
  have chain: "fl_chain (mp_heap st2) (Chunk first) L"
    unfolding st2_def L_def using real by (intro mempool_link_chain) (auto simp: n_def)
  have nn: "\<exists>m. mp_heap st2 a = Some m \<and> m \<noteq> Null" if "a \<in> set L" for a
  proof -
    have "fl_chain h p xs \<Longrightarrow> a \<in> set xs \<Longrightarrow> \<exists>m. h a = Some m \<and> m \<noteq> Null" for h p xs
      by (induction xs arbitrary: p) (auto dest: fl_chain_not_Null)
    then show ?thesis using chain that by blast
  qed
  have brk: "mp_brk st2 = first + n * real" by (simp add: st2_def st1_def xcalloc_block_def first_def)
  have L: "a \<in> set L \<Longrightarrow> mp_brk st \<le> a \<and> a < mp_brk st2" for a
    using block_chunks_bounds [of a first real n] real brk by (simp add: L_def first_def)
  have below: "a \<notin> set L" if "mp_heap st a = Some m" for a m
    using lists_okD(4) [OF s(1) that] L [of a] by auto
  have "mp_lists st2 (F((k, i) := L))"
  proof (rule mp_lists_change [OF st k pools2])
    show "nrof_free (g (f (pools st ! k))) = (nrof_free (pools st ! k))(i := length L)"
      by (simp add: g_def f_def L_def)
    show "lists_ok (mp_heap st2) (mp_brk st2) (F((k, i) := L))"
      by (rule lists_ok_new [OF s(1) F _ L heap nn])
        (simp_all add: L_def distinct_block_chunks real brk first_def)
    show "mp_heap st2 a = mp_heap st a" if "x \<noteq> (k, i)" "a \<in> set (F x)" for x a
      using heap below lists_okD(3) [OF s(1) that(2)] by blast
  qed (use chain in \<open>simp_all add: g_def f_def mp_fixed_def\<close>)
  moreover have "used st2 = used st"
    using heap nn below unfolding used_def by (metis (no_types, lifting) option.inject)
  moreover have "mp_static st st2"
    using k by (simp add: mp_static_def pools2 map_update g_def f_def mp_fixed_def list_update_same_conv)
  ultimately show ?thesis by (intro exI [of _ first] exI [of _ st2] exI [of _ L]) (simp add: L_def n_def)
qed


section \<open>Getting a chunk\<close>

lemma mempool_track_ok:
  "mp_lists (mempool_track k i first p st) F = mp_lists st F" "used (mempool_track k i first p st) = used st"
  "mp_static st (mempool_track k i first p st)"
proof -
  define st1 where "st1 = st\<lparr>mp_puddles := (mp_puddles st)(p := (mp_puddles st p)\<lparr>pd_first_chunk := first, pd_next := puddlelist (pools st ! k) i\<rparr>)\<rparr>"
  define f where "f = (\<lambda>pool :: mempool_struct. pool\<lparr>puddlelist := (puddlelist pool)(i := p)\<rparr>)"
  have t: "mempool_track k i first p st = pool_update k f st1" by (simp add: mempool_track_def Let_def st1_def f_def)
  have "mp_lists st1 F = mp_lists st F" by (rule mp_lists_cong) (simp_all add: st1_def)
  then show "mp_lists (mempool_track k i first p st) F = mp_lists st F"
    unfolding t by (subst mp_lists_update) (simp_all add: f_def mp_core_def mp_fixed_def)
  show "used (mempool_track k i first p st) = used st" by (simp add: t) (simp add: used_def st1_def)
  show "mp_static st (mempool_track k i first p st)"
    using mp_static_update [of f st1 k] by (simp add: t f_def mp_fixed_def mp_static_def) (simp add: st1_def)
qed

definition mp_got :: "free_lists \<Rightarrow> nat \<times> nat \<Rightarrow> mempool_state \<Rightarrow> nat \<times> mempool_state \<Rightarrow> free_lists \<Rightarrow> bool" where
  "mp_got F x st = (\<lambda>(a, st') F'. mp_lists st' F' \<and> (\<forall>y. y \<noteq> x \<and> y \<noteq> (0, 0) \<longrightarrow> F' y = F y) \<and>
     insert a (used st) \<subseteq> used st' \<and> a \<notin> used st \<and> mp_static st st')"

definition mp_counted :: "nat \<Rightarrow> mempool_state \<Rightarrow> mempool_state" where
  "mp_counted k = pool_update k (\<lambda>p. p\<lparr>calls_get := calls_get p + 1\<rparr>)"

lemma mp_counted_ok:
  "mp_lists (mp_counted k st) F = mp_lists st F" "used (mp_counted k st) = used st"
  "length (pools (mp_counted k st)) = length (pools st)" "mp_static st (mp_counted k st)"
  "mp_heap (mp_counted k st) = mp_heap st" "mp_brk (mp_counted k st) = mp_brk st"
  by (simp_all add: mp_counted_def mp_lists_update mp_core_def mp_fixed_def mp_static_update)

lemma mp_counted_nth:
  assumes "k < length (pools st)"
  shows "mp_core (pools (mp_counted k st) ! k) = mp_core (pools st ! k)"
  using assms by (simp add: mp_counted_def pool_update_nth mp_core_def mp_fixed_def)

lemma mempool_get_pooled:
  assumes k: "k < length (pools st)" "i < MEMPOOL_NROF_FREELISTS" "\<not> bypasses (pools st ! k)"
  shows "mempool_get_chunk k i st = do {
     (a, st') \<leftarrow> (if nrof_free (pools st ! k) i = 0
       then do {
         (first, st) \<leftarrow> mempool_expand_block k i (mp_counted k st);
         (p, st) \<leftarrow> mempool_get_chunk 0 0 st;
         mempool_take k i (mempool_track k i first p st)
       }
       else mempool_take k i (mp_counted k st));
     st' \<leftarrow> set_next a Null st';
     Some (a, mempool_event (constructor (pools (mp_counted k st) ! k)) (Construct a) st')
   }"
proof -
  have "flags (pools (mp_counted k st) ! k) = flags (pools st ! k)"
    "nrof_free (pools (mp_counted k st) ! k) = nrof_free (pools st ! k)"
    using mp_counted_nth [OF k(1)] by (simp_all add: mp_core_def mp_fixed_def)
  then show ?thesis
    using k by (subst mempool_get_chunk.simps) (simp add: Let_def flip: mp_counted_def)
qed

lemma mempool_get_listed:
  assumes st: "mp_lists st F" and k: "k < length (pools st)" "i < MEMPOOL_NROF_FREELISTS" "\<not> bypasses (pools st ! k)"
    and F: "F (k, i) = a # xs"
  shows "\<exists>st'. mempool_get_chunk k i st = Some (a, st') \<and> mp_lists st' (F((k, i) := xs)) \<and>
    used st' = insert a (used st) \<and> a \<notin> used st \<and> mp_static st st'"
proof -
  have c: "mp_lists (mp_counted k st) F" "k < length (pools (mp_counted k st))" using st k by (simp_all add: mp_counted_ok)
  obtain st1 st2 where 1: "mempool_take k i (mp_counted k st) = Some (a, st1)" "set_next a Null st1 = Some st2"
    and 2: "mp_lists st2 (F((k, i) := xs))" "used st2 = insert a (used (mp_counted k st))" "a \<notin> used (mp_counted k st)"
      "mp_static (mp_counted k st) st2"
    using mempool_take_ok [OF c k(2) F] by blast
  have "nrof_free (pools st ! k) i \<noteq> 0" using mp_listsD(3) [OF st k(1,2)] F by simp
  then show ?thesis
    using 1 2 by (simp add: mempool_get_pooled [OF k] mp_counted_ok)
      (metis mempool_event_simps(1) mp_counted_ok(4) mp_static_def mp_static_trans)
qed

lemma mempool_get_expanding:
  assumes st: "mp_lists st F" and k: "k < length (pools st)" "i < MEMPOOL_NROF_FREELISTS" "\<not> bypasses (pools st ! k)"
    and F: "F (k, i) = []"
    and inner: "\<And>st1 L. mp_lists st1 (F((k, i) := L)) \<Longrightarrow> mp_static st st1 \<Longrightarrow>
      length L = max 1 (drop_bit i (expand_size (pools st ! k))) \<Longrightarrow>
      \<exists>p st2 F2 b ys. mempool_get_chunk 0 0 st1 = Some (p, st2) \<and> mp_got (F((k, i) := L)) (k, i) st1 (p, st2) F2 \<and> F2 (k, i) = b # ys"
  shows "\<exists>x F'. mempool_get_chunk k i st = Some x \<and> mp_got F (k, i) st x F'"
proof -
  have c: "mp_lists (mp_counted k st) F" "k < length (pools (mp_counted k st))" using st k by (simp_all add: mp_counted_ok)
  have ex: "expand_size (pools (mp_counted k st) ! k) = expand_size (pools st ! k)"
    using mp_counted_nth [OF k(1)] by (simp add: mp_core_def mp_fixed_def)
  obtain first st1 L where 1: "mempool_expand_block k i (mp_counted k st) = Some (first, st1)"
    and L': "mp_lists st1 (F((k, i) := L))" "length L = max 1 (drop_bit i (expand_size (pools (mp_counted k st) ! k)))"
      "used st1 = used (mp_counted k st)" "mp_static (mp_counted k st) st1"
    using mempool_expand_block_ok [OF c k(2) F] by blast
  note L = L'(1) L'(2) [unfolded ex] L'(3) [unfolded mp_counted_ok(2)] mp_static_trans [OF mp_counted_ok(4) L'(4)]
  obtain p st2 F2 b ys where 2: "mempool_get_chunk 0 0 st1 = Some (p, st2)"
    and g: "mp_got (F((k, i) := L)) (k, i) st1 (p, st2) F2" and F2: "F2 (k, i) = b # ys"
    using inner [OF L(1,4,2)] by blast
  define st3 where "st3 = mempool_track k i first p st2"
  have s3: "mp_lists st3 F2" "used st1 \<subseteq> used st3" "mp_static st st3"
    using g L(4) unfolding st3_def mp_got_def by (auto simp: mempool_track_ok intro: mp_static_trans)
  have k3: "k < length (pools st3)" using mp_static_length [OF s3(3)] k by simp
  obtain st4 st5 where 4: "mempool_take k i st3 = Some (b, st4)" "set_next b Null st4 = Some st5"
    and 5: "mp_lists st5 (F2((k, i) := ys))" "used st5 = insert b (used st3)" "b \<notin> used st3" "mp_static st3 st5"
    using mempool_take_ok [OF s3(1) k3 k(2) F2] by blast
  define st6 where "st6 = mempool_event (constructor (pools (mp_counted k st) ! k)) (Construct b) st5"
  have "nrof_free (pools st ! k) i = 0" using mp_listsD(3) [OF st k(1,2)] F by simp
  then have "mempool_get_chunk k i st = Some (b, st6)"
    using 1 2 4 by (simp add: mempool_get_pooled [OF k] st3_def st6_def)
  moreover have "mp_static st st6" using 5(4) s3(3) mp_static_trans by (auto simp: st6_def mp_static_def)
  then have "mp_got F (k, i) st (b, st6) (F2((k, i) := ys))"
    using 5 s3(2) L(3) g by (auto simp: mp_got_def st6_def)
  ultimately show ?thesis by blast
qed


lemma mempool_get_puddle:
  assumes st: "mp_lists st F"
  shows "\<exists>x F'. mempool_get_chunk 0 0 st = Some x \<and> mp_got F (0, 0) st x F'"
proof (cases "F (0, 0)")
  case Nil
  note s = mp_listsD [OF st]
  have i: "0 < MEMPOOL_NROF_FREELISTS" by (simp add: MEMPOOL_NROF_FREELISTS_def)
  show ?thesis
  proof (rule mempool_get_expanding [OF st s(4) i s(6) Nil])
    fix st1 L
    assume st1: "mp_lists st1 (F((0, 0) := L))" and "mp_static st st1"
      and "length L = max 1 (drop_bit 0 (expand_size (pools st ! 0)))"
    then have "length L = 10" using s(5) by simp
    then obtain a b ys where L: "L = a # b # ys" by (cases L; cases "tl L") auto
    note s1 = mp_listsD [OF st1]
    obtain st2 where "mempool_get_chunk 0 0 st1 = Some (a, st2)" "mp_lists st2 ((F((0, 0) := L))((0, 0) := b # ys))"
      "used st2 = insert a (used st1)" "a \<notin> used st1" "mp_static st1 st2"
      using mempool_get_listed [OF st1 s1(4) i s1(6), of a "b # ys"] L by auto
    moreover from this have "mp_got (F((0, 0) := L)) (0, 0) st1 (a, st2) (F((0, 0) := b # ys))"
      by (auto simp: mp_got_def)
    moreover have "(F((0, 0) := b # ys)) (0, 0) = b # ys" by simp
    ultimately show "\<exists>p st2 F2 b ys. mempool_get_chunk 0 0 st1 = Some (p, st2) \<and>
        mp_got (F((0, 0) := L)) (0, 0) st1 (p, st2) F2 \<and> F2 (0, 0) = b # ys" by blast
  qed
next
  case (Cons a xs)
  note s = mp_listsD [OF st]
  obtain st' where "mempool_get_chunk 0 0 st = Some (a, st')" "mp_lists st' (F((0, 0) := xs))"
    "used st' = insert a (used st)" "a \<notin> used st" "mp_static st st'"
    using mempool_get_listed [OF st s(4) _ s(6) Cons] by (auto simp: MEMPOOL_NROF_FREELISTS_def)
  then show ?thesis by (intro exI [of _ "(a, st')"] exI [of _ "F((0, 0) := xs)"]) (auto simp: mp_got_def)
qed

lemma mempool_get_pool:
  assumes st: "mp_lists st F" and k: "k < length (pools st)" "i < MEMPOOL_NROF_FREELISTS" "\<not> bypasses (pools st ! k)"
  shows "\<exists>x F'. mempool_get_chunk k i st = Some x \<and> mp_got F (k, i) st x F'"
proof (cases "(k, i) = (0, 0)")
  case True
  then show ?thesis using mempool_get_puddle [OF st] by auto
next
  case other: False
  show ?thesis
  proof (cases "F (k, i)")
    case Nil
    show ?thesis
    proof (rule mempool_get_expanding [OF st k Nil])
      fix st1 L
      assume st1: "mp_lists st1 (F((k, i) := L))"
        and L: "length L = max 1 (drop_bit i (expand_size (pools st ! k)))"
      obtain p st2 F2 where g: "mempool_get_chunk 0 0 st1 = Some (p, st2)" "mp_got (F((k, i) := L)) (0, 0) st1 (p, st2) F2"
        using mempool_get_puddle [OF st1] by auto
      have "L \<noteq> []" using L by (cases L) auto
      then obtain b ys where "F2 (k, i) = b # ys" using g(2) other by (cases L) (auto simp: mp_got_def)
      then show "\<exists>p st2 F2 b ys. mempool_get_chunk 0 0 st1 = Some (p, st2) \<and>
          mp_got (F((k, i) := L)) (k, i) st1 (p, st2) F2 \<and> F2 (k, i) = b # ys"
        using g by (auto simp: mp_got_def)
    qed
  next
    case (Cons a xs)
    obtain st' where "mempool_get_chunk k i st = Some (a, st')" "mp_lists st' (F((k, i) := xs))"
      "used st' = insert a (used st)" "a \<notin> used st" "mp_static st st'"
      using mempool_get_listed [OF st k Cons] by auto
    then show ?thesis by (intro exI [of _ "(a, st')"] exI [of _ "F((k, i) := xs)"]) (auto simp: mp_got_def)
  qed
qed

lemma mempool_get_bypass:
  assumes st: "mp_lists st F" and k: "k < length (pools st)" "i < MEMPOOL_NROF_FREELISTS" "bypasses (pools st ! k)"
  shows "\<exists>st'. mempool_get_chunk k i st = Some (mp_brk st, st') \<and> mp_lists st' F \<and>
    used st' = insert (mp_brk st) (used st) \<and> mp_brk st \<notin> used st \<and> mp_static st st' \<and>
    mp_blocks st' (mp_brk st) \<noteq> None"
proof -
  define real where "real = sizeof_chunk + push_bit i (chunksize (pools st ! k))"
  define f where "f = (\<lambda>p :: mempool_struct. p\<lparr>nrof_allocated := (nrof_allocated p)(i := nrof_allocated p i + 1)\<rparr>)"
  define st1 where "st1 = snd (xcalloc_block 1 real (mp_counted k st))"
  define st2 where "st2 = (pool_update k f st1)\<lparr>mp_heap := (mp_heap st)(mp_brk st \<mapsto> Null)\<rparr>"
  define st3 where "st3 = mempool_event (constructor (pools (mp_counted k st) ! k)) (Construct (mp_brk st)) st2"
  have core: "flags (pools (mp_counted k st) ! k) = flags (pools st ! k)" "chunksize (pools (mp_counted k st) ! k) = chunksize (pools st ! k)"
    using mp_counted_nth [OF k(1)] by (simp_all add: mp_core_def mp_fixed_def)
  have x: "xcalloc_block 1 real (mp_counted k st) = (mp_brk st, st1)"
    by (simp add: st1_def xcalloc_block_def mp_counted_ok)
  have h1: "mp_heap st1 = (mp_heap st)(mp_brk st \<mapsto> Null)" "mp_brk st1 = mp_brk st + real" "pools st1 = pools (mp_counted k st)"
    "mp_blocks st1 (mp_brk st) \<noteq> None"
    by (simp_all add: st1_def xcalloc_block_def mp_counted_ok block_chunks_Suc)
  have n: "set_next (mp_brk st) Null (pool_update k f st1) = Some st2"
    by (simp add: set_next_def st2_def h1)
  have "mempool_get_chunk k i st = Some (mp_brk st, st3)"
    using k core x n by (subst mempool_get_chunk.simps) (simp add: Let_def st3_def f_def real_def flip: mp_counted_def)
  moreover have "mp_static st st3"
    using mp_static_update [of f st1 k] mp_counted_ok(4) [of st k]
    by (simp add: mp_static_def st3_def st2_def h1 f_def mp_fixed_def)
  moreover have "mp_lists st3 F"
  proof -
    note s = mp_listsD [OF st]
    have "map mp_core (pools st3) = map mp_core (pools st)"
      using k by (simp add: st3_def st2_def h1 pool_update_def mp_counted_def map_update f_def mp_core_def mp_fixed_def list_update_same_conv)
    then have "mp_lists st3 F = mp_lists (st\<lparr>mp_heap := mp_heap st3, mp_brk := mp_brk st3\<rparr>) F"
      by (intro mp_lists_cong) simp_all
    moreover have "mp_brk st \<notin> set (F y)" for y using lists_okD(3,4) [OF s(1), of "mp_brk st"] by (meson less_irrefl)
    ultimately show ?thesis
      using st lists_ok_alloc [OF s(1), of "mp_brk st + real"]
      by (simp add: mp_lists_def st3_def st2_def h1 fl_chain_frame real_def sizeof_chunk_def)
  qed
  moreover have "used st3 = insert (mp_brk st) (used st)" by (auto simp: st3_def st2_def used_def)
  moreover have "mp_brk st \<notin> used st" using lists_okD(4) [OF mp_listsD(1) [OF st], of "mp_brk st" Null] by (auto simp: used_def)
  moreover have "mp_blocks st3 (mp_brk st) \<noteq> None" using h1 by (simp add: st3_def st2_def)
  ultimately show ?thesis by blast
qed


section \<open>Returning a chunk\<close>

lemma mempool_return_pool:
  assumes st: "mp_lists st F" and k: "k < length (pools st)" "i < MEMPOOL_NROF_FREELISTS" "\<not> bypasses (pools st ! k)"
    and a: "a \<in> used st"
  shows "\<exists>st'. mempool_return_chunk k i a st = Some (Value st') \<and> mp_lists st' (F((k, i) := a # F (k, i))) \<and>
    used st' = used st - {a} \<and> mp_heap st' a \<noteq> None \<and> mp_static st st'"
proof -
  note s = mp_listsD [OF st]
  define f where "f = (\<lambda>p :: mempool_struct. p\<lparr>calls_return := calls_return p + 1\<rparr>)"
  define ptr where "ptr = freelist (pools st ! k) i"
  have ptr: "fl_chain (mp_heap st) ptr (F (k, i))" "ptr \<noteq> Null"
    using s(2) [OF k(1,2)] fl_chain_not_Null by (auto simp: ptr_def)
  define st1 where "st1 = mempool_event (destructor (f (pools st ! k))) (Destruct a) (pool_update k f st)"
  define g where "g = (\<lambda>p :: mempool_struct. p\<lparr>freelist := (freelist p)(i := Chunk a), nrof_free := (nrof_free p)(i := nrof_free p i + 1)\<rparr>)"
  define st2 where "st2 = st1\<lparr>mp_heap := (mp_heap st)(a \<mapsto> ptr)\<rparr>"
  define st3 where "st3 = pool_update k g st2"
  have "mempool_return_chunk k i a st = Some (Value st3)"
    using k a by (simp add: mempool_return_chunk_def Let_def pool_update_nth chunk_free_def used_def set_next_def
        st3_def st2_def st1_def g_def f_def ptr_def)
  moreover have "mp_lists st3 (F((k, i) := a # F (k, i)))"
  proof (rule mp_lists_change [OF st k(1,2)])
    show "pools st3 = (pools st)[k := g (f (pools st ! k))]" using k by (simp add: st3_def st2_def st1_def pool_update_def)
    show "nrof_free (g (f (pools st ! k))) = (nrof_free (pools st ! k))(i := length (a # F (k, i)))"
      using s(3) [OF k(1,2)] by (simp add: g_def f_def)
    show "lists_ok (mp_heap st3) (mp_brk st3) (F((k, i) := a # F (k, i)))"
      using lists_ok_push [OF s(1) _ ptr(2), of a] a by (simp add: st3_def st2_def st1_def used_def)
    have n: "a \<notin> set (F y)" for y using lists_okD(3) [OF s(1), of a y] a by (auto simp: used_def)
    show "fl_chain (mp_heap st3) (Chunk a) (a # F (k, i))" using ptr n by (simp add: st3_def st2_def fl_chain_frame)
    show "mp_heap st3 b = mp_heap st b" if "x \<noteq> (k, i)" "b \<in> set (F x)" for x b
      using that n [of x] by (auto simp: st3_def st2_def)
  qed (simp_all add: g_def f_def mp_fixed_def)
  moreover have "used st3 = used st - {a}" using ptr(2) by (auto simp: st3_def st2_def used_def split: if_splits)
  moreover have "mp_heap st3 a \<noteq> None" by (simp add: st3_def st2_def)
  moreover have "mp_static st st3"
    using mp_static_update [of f st k] mp_static_update [of g st2 k]
    by (simp add: mp_static_def st3_def st2_def st1_def g_def f_def mp_fixed_def)
  ultimately show ?thesis by blast
qed

lemma mempool_return_bypass:
  assumes st: "mp_lists st F" and k: "k < length (pools st)" "i < MEMPOOL_NROF_FREELISTS" "bypasses (pools st ! k)"
    and a: "a \<in> used st" and b: "mp_blocks st a = Some (1, real)"
  shows "\<exists>st'. mempool_return_chunk k i a st = Some (Value st') \<and> mp_lists st' F \<and>
    used st' = used st - {a} \<and> mp_static st st'"
proof -
  note s = mp_listsD [OF st]
  define f where "f = (\<lambda>p :: mempool_struct. p\<lparr>calls_return := calls_return p + 1\<rparr>)"
  define g where "g = (\<lambda>p :: mempool_struct. p\<lparr>nrof_allocated := (nrof_allocated p)(i := size_sub (nrof_allocated p i) 1)\<rparr>)"
  define st1 where "st1 = mempool_event (deinitialisator (f (pools st ! k))) (Deinitialise a)
     (mempool_event (destructor (f (pools st ! k))) (Destruct a) (pool_update k f st))"
  define st2 where "st2 = st1\<lparr>mp_heap := (\<lambda>x. if x \<in> {a} then None else mp_heap st x), mp_blocks := (mp_blocks st)(a := None)\<rparr>"
  define st3 where "st3 = pool_update k g st2"
  have "free_block a st1 = Some st2"
  proof -
    have "mp_blocks st1 = mp_blocks st" "mp_heap st1 = mp_heap st" "set (block_chunks a real 1) = {a}"
      by (simp_all add: st1_def block_chunks.simps)
    then show ?thesis using b unfolding free_block_def st2_def by (simp only: option.case prod.case)
  qed
  then have "mempool_return_chunk k i a st = Some (Value st3)"
    using k a by (simp add: mempool_return_chunk_def Let_def pool_update_nth chunk_free_def used_def
        st3_def st1_def g_def f_def)
  moreover have "mp_lists st3 F"
  proof -
    have "map mp_core (pools st3) = map mp_core (pools st)"
      using k by (simp add: st3_def st2_def st1_def pool_update_def map_update g_def f_def mp_core_def mp_fixed_def list_update_same_conv)
    then have "mp_lists st3 F = mp_lists (st\<lparr>mp_heap := mp_heap st3, mp_brk := mp_brk st3\<rparr>) F"
      by (intro mp_lists_cong) simp_all
    moreover have n: "a \<notin> set (F y)" for y using lists_okD(3) [OF s(1), of a y] a by (auto simp: used_def)
    have "fl_chain (mp_heap st3) p (F y) = fl_chain (mp_heap st) p (F y)" for p y
      using n [of y] by (intro fl_chain_cong) (auto simp: st3_def st2_def)
    ultimately show ?thesis
      using st lists_ok_free [OF s(1), of "{a}"] a
      by (simp add: mp_lists_def) (simp add: st3_def st2_def st1_def used_def)
  qed
  moreover have "used st3 = used st - {a}" by (auto simp: st3_def st2_def used_def split: if_splits)
  moreover have "mp_static st st3"
    using mp_static_update [of f st k] mp_static_update [of g st2 k]
    by (simp add: mp_static_def st3_def st2_def st1_def g_def f_def mp_fixed_def)
  ultimately show ?thesis by blast
qed

lemma mempool_return_free:
  assumes "k < length (pools st)" "i < MEMPOOL_NROF_FREELISTS" "mp_heap st a \<noteq> None" "a \<notin> used st"
  shows "mempool_return_chunk k i a st = Some Aborted"
  using assms by (auto simp: mempool_return_chunk_def chunk_free_def used_def)


section \<open>Use of the pools\<close>

text \<open>
  The states that clients reach who create pools, get chunks, and return chunks that are in
  use; a chunk returned to a pool that bypasses pooling is one of its own.

  \<open>mempool_reclaim\<close>, which is public too, is left out on purpose. It frees
  the puddle of an array that is larger than the expansion of its pool even when its chunk is
  in use (\<open>mempool_reclaim_frees_used\<close>), so what follows does not hold after such a call.
  Nothing in the library calls it.
\<close>

inductive mempool_reach :: "mempool_state \<Rightarrow> bool" where
  reach_init: "mempool_reach mempool_init"
| reach_create: "mempool_reach st \<Longrightarrow> mempool_create d e sz f c1 c2 c3 c4 st = (k, st') \<Longrightarrow> mempool_reach st'"
| reach_get: "mempool_reach st \<Longrightarrow> k < length (pools st) \<Longrightarrow> i < MEMPOOL_NROF_FREELISTS \<Longrightarrow>
    mempool_get_chunk k i st = Some (a, st') \<Longrightarrow> mempool_reach st'"
| reach_return: "mempool_reach st \<Longrightarrow> k < length (pools st) \<Longrightarrow> i < MEMPOOL_NROF_FREELISTS \<Longrightarrow> a \<in> used st \<Longrightarrow>
    (bypasses (pools st ! k) \<longrightarrow> (\<exists>real. mp_blocks st a = Some (1, real))) \<Longrightarrow>
    mempool_return_chunk k i a st = Some (Value st') \<Longrightarrow> mempool_reach st'"

lemma mempool_init_ok: "mp_lists mempool_init (\<lambda>_. [])"
  by (simp add: mp_lists_def lists_ok_def mempool_init_def mempool_create_def mempool_statics_def
      MEMPOOL_ALLOW_FREEING_def MEMPOOL_BYPASS_POOLS_def)

lemma mempool_create_ok:
  assumes st: "mp_lists st F" and c: "mempool_create d e sz f c1 c2 c3 c4 st = (k, st')"
  shows "mp_lists st' F"
proof -
  have "F (length (pools st), i) = []" for i using st by (simp add: mp_lists_def)
  moreover have "mp_heap st' = mp_heap st" "mp_brk st' = mp_brk st" using c by (auto simp: mempool_create_def)
  moreover have "pools st' ! 0 = pools st ! 0" using c mp_listsD(4) [OF st] by (auto simp: mempool_create_def nth_append)
  moreover have "length (pools st') = Suc (length (pools st))" "pools st' \<noteq> []" using c by (auto simp: mempool_create_def)
  moreover have "j < length (pools st) \<Longrightarrow> pools st' ! j = pools st ! j" for j using c by (auto simp: mempool_create_def nth_append)
  moreover have "freelist (pools st' ! length (pools st)) = (\<lambda>_. End_marker)" "nrof_free (pools st' ! length (pools st)) = (\<lambda>_. 0)"
    using c by (auto simp: mempool_create_def nth_append)
  ultimately show ?thesis using st by (auto simp: mp_lists_def less_Suc_eq)
qed

lemma mempool_reach_ok: "mempool_reach st \<Longrightarrow> mp_ok st"
proof (induction rule: mempool_reach.induct)
  case reach_init
  show ?case using mempool_init_ok by (auto simp: mp_ok_def)
next
  case (reach_create st d e sz f c1 c2 c3 c4 k st')
  then show ?case using mempool_create_ok [of st _ d e sz f c1 c2 c3 c4 k st'] unfolding mp_ok_def by blast
next
  case (reach_get st k i a st')
  then obtain F where F: "mp_lists st F" by (auto simp: mp_ok_def)
  show ?case
    using mempool_get_pool [OF F reach_get(2,3)] mempool_get_bypass [OF F reach_get(2,3)] reach_get(4)
    by (cases "bypasses (pools st ! k)") (auto simp: mp_ok_def mp_got_def)
next
  case (reach_return st k i a st')
  then obtain F where F: "mp_lists st F" by (auto simp: mp_ok_def)
  show ?case
    using mempool_return_pool [OF F reach_return(2,3) _ reach_return(4)]
      mempool_return_bypass [OF F reach_return(2,3) _ reach_return(4)] reach_return(5,6)
    by (cases "bypasses (pools st ! k)") (auto simp: mp_ok_def)
qed


section \<open>Properties\<close>

text \<open>
  What a client relies on when it takes several chunks: a source of fresh chunks, here with
  the calls in between left out, yields distinct ones.
\<close>

primrec get_many :: "('s \<Rightarrow> ('a \<times> 's) option) \<Rightarrow> nat \<Rightarrow> 's \<Rightarrow> ('a list \<times> 's) option" where
  "get_many get 0 s = Some ([], s)"
| "get_many get (Suc n) s = do { (a, s) \<leftarrow> get s; (as, s) \<leftarrow> get_many get n s; Some (a # as, s) }"

locale chunk_source =
  fixes ok :: "'s \<Rightarrow> bool" and get :: "'s \<Rightarrow> ('a \<times> 's) option" and live :: "'s \<Rightarrow> 'a set"
  assumes get_fresh: "ok s \<Longrightarrow> \<exists>a s'. get s = Some (a, s') \<and> ok s' \<and> a \<notin> live s \<and> insert a (live s) \<subseteq> live s'"
begin

lemma get_many_distinct:
  "ok s \<Longrightarrow> \<exists>as s'. get_many get n s = Some (as, s') \<and> ok s' \<and> length as = n \<and> distinct as \<and>
     set as \<inter> live s = {} \<and> set as \<union> live s \<subseteq> live s'"
proof (induction n arbitrary: s)
  case 0
  then show ?case by simp
next
  case (Suc n)
  obtain a s1 where 1: "get s = Some (a, s1)" "ok s1" "a \<notin> live s" "insert a (live s) \<subseteq> live s1"
    using get_fresh [OF Suc.prems] by blast
  obtain as s' where 2: "get_many get n s1 = Some (as, s')" "ok s'" "length as = n" "distinct as"
    "set as \<inter> live s1 = {}" "set as \<union> live s1 \<subseteq> live s'"
    using Suc.IH [OF 1(2)] by blast
  then show ?case using 1 by (auto intro!: exI [of _ "a # as"] exI [of _ s'])
qed

end

lemma mempool_get_reach:
  assumes r: "mempool_reach st" and k: "k < length (pools st)" "i < MEMPOOL_NROF_FREELISTS"
  shows "\<exists>a st'. mempool_get_chunk k i st = Some (a, st') \<and> (mempool_reach st' \<and> k < length (pools st') \<and> i < MEMPOOL_NROF_FREELISTS) \<and>
    a \<notin> used st \<and> insert a (used st) \<subseteq> used st'"
proof -
  obtain F where F: "mp_lists st F" using mempool_reach_ok [OF r] by (auto simp: mp_ok_def)
  have "\<exists>a st'. mempool_get_chunk k i st = Some (a, st') \<and> a \<notin> used st \<and> insert a (used st) \<subseteq> used st' \<and> mp_static st st'"
    using mempool_get_pool [OF F k] mempool_get_bypass [OF F k]
    by (cases "bypasses (pools st ! k)") (auto simp: mp_got_def)
  then show ?thesis using reach_get [OF r k] mp_static_length k by metis
qed

interpretation pool_source: chunk_source
  "\<lambda>st. mempool_reach st \<and> k < length (pools st) \<and> i < MEMPOOL_NROF_FREELISTS" "mempool_get_chunk k i" used
  for k i
  by unfold_locales (metis mempool_get_reach)

text \<open>\<open>mempool_get_chunk\<close> on an empty freelist is \<open>mempool_expand\<close> and taking the first chunk.\<close>

lemma mempool_get_expand:
  assumes "k < length (pools st)" "i < MEMPOOL_NROF_FREELISTS" "\<not> bypasses (pools st ! k)" "nrof_free (pools st ! k) i = 0"
  shows "mempool_get_chunk k i st = do {
    st1 \<leftarrow> mempool_expand k i (mp_counted k st);
    (a, st') \<leftarrow> mempool_take k i st1;
    st' \<leftarrow> set_next a Null st';
    Some (a, mempool_event (constructor (pools (mp_counted k st) ! k)) (Construct a) st') }"
  using assms
  by (subst mempool_get_chunk.simps)
    (simp add: mempool_expand_def Let_def split_def pool_update_nth mp_counted_def)

text \<open>
  C18. In every state that clients reach by creating pools, getting chunks and returning chunks
  in use, but without \<open>mempool_reclaim\<close>, getting any number of chunks of any pool and size
  terminates and yields distinct chunks, none of which was in use and all of which now are,
  and no chunk that was in use stops being so; this includes the chunks that the pools take
  for their own puddles. States after \<open>mempool_reclaim\<close>, which can free chunks in use, are
  outside the statement.
\<close>

theorem mempool_get_fresh:
  assumes "mempool_reach st" "k < length (pools st)" "i < MEMPOOL_NROF_FREELISTS"
  shows "\<exists>as st'. get_many (mempool_get_chunk k i) n st = Some (as, st') \<and> length as = n \<and> distinct as \<and>
    set as \<inter> used st = {} \<and> set as \<union> used st \<subseteq> used st'"
  using pool_source.get_many_distinct [of st k i n] assms by blast

theorem mempool_get_fresh_witness:
  "mempool_reach mempool_init \<and> (\<exists>as st'. get_many (mempool_get_chunk 0 0) 3 mempool_init = Some (as, st') \<and>
     length as = 3 \<and> distinct as \<and> set as \<subseteq> used st')"
  using mempool_get_fresh [OF reach_init, of 0 0 3] reach_init
  by (auto simp: MEMPOOL_NROF_FREELISTS_def mempool_init_def mempool_create_def)

text \<open>
  C19. In the same states, reached without \<open>mempool_reclaim\<close>, and for a pool that does not
  bypass pooling: returning a chunk in use succeeds and makes exactly that chunk free; the
  pool hands it out first at the next request of that size; and returning it a second time
  aborts instead of corrupting the list. A pool that bypasses pooling gives the chunk back to
  the system instead, and none of this is said of it.
\<close>

theorem mempool_return_reuse:
  assumes "mempool_reach st" "k < length (pools st)" "i < MEMPOOL_NROF_FREELISTS" "\<not> bypasses (pools st ! k)" "a \<in> used st"
  shows "\<exists>st'. mempool_return_chunk k i a st = Some (Value st') \<and> used st' = used st - {a} \<and>
    mempool_return_chunk k i a st' = Some Aborted \<and> (\<exists>st''. mempool_get_chunk k i st' = Some (a, st''))"
proof -
  obtain F where F: "mp_lists st F" using mempool_reach_ok [OF assms(1)] by (auto simp: mp_ok_def)
  obtain st' where st': "mempool_return_chunk k i a st = Some (Value st')" "mp_lists st' (F((k, i) := a # F (k, i)))"
    "used st' = used st - {a}" "mp_heap st' a \<noteq> None" "mp_static st st'"
    using mempool_return_pool [OF F assms(2-5)] by blast
  have k: "k < length (pools st')" using mp_static_length [OF st'(5)] assms(2) by simp
  have b: "\<not> bypasses (pools st' ! k)" using mp_static_nth [OF st'(5) assms(2)] assms(4) by (simp add: mp_fixed_def)
  show ?thesis
    using st' mempool_return_free [OF k assms(3) st'(4)] mempool_get_listed [OF st'(2) k assms(3) b, of a "F (k, i)"] by auto
qed

text \<open>A pool whose chunks are larger than its expansion.\<close>

definition demo_pool :: mempool_state where
  "demo_pool = snd (mempool_create [65] 1 8 MEMPOOL_ALLOW_FREEING False False False False mempool_init)"

definition demo_got :: "nat \<times> mempool_state" where
  "demo_got = the (mempool_get_chunk 1 1 demo_pool)"

definition demo_junk :: "nat \<Rightarrow> sl_tape" where
  "demo_junk = (\<lambda>_. \<lparr>tp_first = 0, tp_last = 0, tp_count = 0\<rparr>)"

lemma demo_pool_reach: "mempool_reach demo_pool"
  unfolding demo_pool_def by (rule reach_create [OF reach_init]) (rule prod.collapse [symmetric])

lemma demo_pool_shape: "1 < length (pools demo_pool)" "\<not> bypasses (pools demo_pool ! 1)"
  by (simp_all add: demo_pool_def mempool_create_def mempool_init_def mempool_statics_def
      MEMPOOL_ALLOW_FREEING_def MEMPOOL_BYPASS_POOLS_def)

lemma demo_got_reach:
  "mempool_reach (snd demo_got) \<and> fst demo_got \<in> used (snd demo_got) \<and> mp_static demo_pool (snd demo_got)"
proof -
  have i: "1 < MEMPOOL_NROF_FREELISTS" by (simp add: MEMPOOL_NROF_FREELISTS_def)
  obtain F where F: "mp_lists demo_pool F" using mempool_reach_ok [OF demo_pool_reach] by (auto simp: mp_ok_def)
  obtain x F' where x: "mempool_get_chunk 1 1 demo_pool = Some x" "mp_got F (1, 1) demo_pool x F'"
    using mempool_get_pool [OF F demo_pool_shape(1) i demo_pool_shape(2)] by blast
  then have "demo_got = x" by (simp only: demo_got_def option.sel)
  moreover have "fst x \<in> used (snd x) \<and> mp_static demo_pool (snd x)" using x(2) by (cases x) (simp add: mp_got_def)
  moreover have "mempool_reach (snd x)"
    using reach_get [OF demo_pool_reach demo_pool_shape(1) i, of "fst x" "snd x"] x(1) by simp
  ultimately show ?thesis by simp
qed

lemma demo_got_shape: "1 < length (pools (snd demo_got)) \<and> \<not> bypasses (pools (snd demo_got) ! 1)"
  using demo_got_reach demo_pool_shape mp_static_length mp_static_nth [of demo_pool "snd demo_got" 1]
  by (auto simp: mp_fixed_def)

theorem mempool_return_reuse_witness:
  "mempool_reach (snd demo_got) \<and> fst demo_got \<in> used (snd demo_got) \<and>
   (\<exists>st'. mempool_return_chunk 1 1 (fst demo_got) (snd demo_got) = Some (Value st') \<and>
     mempool_return_chunk 1 1 (fst demo_got) st' = Some Aborted)"
  using mempool_return_reuse [of "snd demo_got" 1 1 "fst demo_got"] demo_got_reach demo_got_shape
  by (auto simp: MEMPOOL_NROF_FREELISTS_def)

text \<open>
  Reclaiming memory can free a chunk that is in use. When an array is larger than the
  expansion of its pool, \<open>mempool_expand\<close> puts one chunk into the puddle, while the loop of
  \<open>mempool_free_puddles\<close> takes the puddle to have none, finds that all of none are free, and
  frees the block: afterwards the chunk of a puddle that was in use does not exist.
\<close>

theorem mempool_reclaim_frees_used:
  assumes array: "drop_bit i (expand_size (pools st ! k)) = 0"
    and puddle: "puddle \<noteq> 0" "puddle \<in> used st" "pd_first_chunk (mp_puddles st puddle) = a"
    and block: "mp_blocks st a = Some (1, real)" "a \<noteq> puddle" "a \<in> used st"
    and pool: "\<not> deiniting st" "pools st \<noteq> []" "\<not> bypasses (pools st ! 0)"
  shows "\<exists>nxt st'. mempool_puddle_step k i (puddle, freed, st) = Some (Inl (nxt, freed + 1, st')) \<and>
    mp_heap st' a = None"
proof -
  define pd where "pd = (mp_puddles st puddle)\<lparr>pd_first_free := Null, pd_last_free := Null, pd_nrof_free := 0\<rparr>"
  define st1 where "st1 = puddle_update puddle (\<lambda>_. pd) st"
  define st2 where "st2 = st1\<lparr>mp_heap := (\<lambda>x. if x \<in> {a} then None else mp_heap st x), mp_blocks := (mp_blocks st)(a := None)\<rparr>"
  have b: "set (block_chunks a real 1) = {a}" by (simp add: block_chunks.simps)
  have free: "free_block a st1 = Some st2"
    using block b by (simp add: free_block_def st2_def st1_def puddle_update_def cong: if_cong)
  have same: "pools st2 = pools st" "deiniting st2 = deiniting st" "mp_heap st2 a = None" "mp_heap st2 puddle = Some Null"
    using block puddle by (simp_all add: st2_def st1_def puddle_update_def used_def)
  have "\<exists>st3. mempool_return_chunk 0 0 puddle st2 = Some (Value st3) \<and> mp_heap st3 a = None"
    using same pool block(2) by (simp add: mempool_return_chunk_def Let_def MEMPOOL_NROF_FREELISTS_def pool_update_nth
        chunk_free_def set_next_def)
  then obtain st3 where "mempool_return_chunk 0 0 puddle st2 = Some (Value st3)" "mp_heap st3 a = None" by blast
  then show ?thesis
    using array puddle free same pool
    by (simp add: mempool_puddle_step_def Let_def flip: pd_def st1_def) (simp add: pd_def)
qed


definition demo_puddled :: mempool_state where
  "demo_puddled = demo_pool\<lparr>mp_heap := [8 \<mapsto> Null, 32 \<mapsto> Null], mp_blocks := [8 \<mapsto> (1, 24)],
     mp_puddles := (mp_puddles demo_pool)(32 := (mp_puddles demo_pool 32)\<lparr>pd_first_chunk := 8\<rparr>)\<rparr>"

theorem mempool_reclaim_frees_used_witness:
  "8 \<in> used demo_puddled \<and> (\<exists>nxt st'. mempool_puddle_step 1 1 (32, 0, demo_puddled) = Some (Inl (nxt, 1, st')) \<and>
     mp_heap st' 8 = None)"
proof -
  have p: "pools demo_puddled = pools demo_pool" "\<not> deiniting demo_puddled"
    by (simp_all add: demo_puddled_def demo_pool_def mempool_create_def mempool_init_def mempool_statics_def)
  have "drop_bit 1 (expand_size (pools demo_pool ! 1)) = 0" "pools demo_pool \<noteq> []" "\<not> bypasses (pools demo_pool ! 0)"
    by (simp_all add: demo_pool_def mempool_create_def mempool_init_def mempool_statics_def
        MEMPOOL_ALLOW_FREEING_def MEMPOOL_BYPASS_POOLS_def)
  moreover have "8 \<in> used demo_puddled" "32 \<in> used demo_puddled" "mp_blocks demo_puddled 8 = Some (1, 24)"
    "pd_first_chunk (mp_puddles demo_puddled 32) = 8"
    by (simp_all add: used_def demo_puddled_def)
  ultimately show ?thesis
    using mempool_reclaim_frees_used [of 1 demo_puddled 1 32 8 24 0] p by simp
qed

end
