(* ===== verification/Path.thy ===== *)
theory Path
  imports Stringbuffer
begin

unbundle bit_operations_syntax

text \<open>
  The path functions of \<open>src/path.c\<close>.

  A path is a list of non-zero bytes. \<open>None\<close> as a result is an access out of bounds or a loop
  that does not end, as elsewhere; where the C function may return a null pointer, that is an
  inner \<open>None\<close>. A file that is read is the list of its bytes and whether reading ends in an
  error or at the end of the file; \<open>None\<close> stands for one that cannot be opened. Calls of the
  operating system that may fail take their outcomes from a record, and the functions that
  change files return the sequence of calls that they make. The Windows branches are left
  out.
\<close>

definition HUGE_BUF :: nat where "HUGE_BUF = 4096"

text \<open>\<open>MAXPATHLEN\<close> of Linux.\<close>

definition MAXPATHLEN :: nat where "MAXPATHLEN = 4096"

text \<open>\<open>strrchr\<close> and \<open>strchr(s + from, c)\<close>, as positions in the string.\<close>

definition c_strrchr :: "bytes \<Rightarrow> u8 \<Rightarrow> nat option" where
  "c_strrchr s c = find (\<lambda>i. s ! i = c) (rev [0..<length s])"

definition c_strchr_from :: "bytes \<Rightarrow> nat \<Rightarrow> u8 \<Rightarrow> nat option" where
  "c_strchr_from s from c = find (\<lambda>i. s ! i = c) [from..<length s]"

text \<open>\<open>fgets\<close> with a buffer of \<open>n\<close> bytes: what is stored, and what is left to read.\<close>

definition c_fgets :: "nat \<Rightarrow> bytes \<Rightarrow> bytes \<times> bytes" where
  "c_fgets n s = (let k = min (n - 1) (length (takeWhile (\<lambda>b. b \<noteq> 10) s) + 1) in (take k s, drop k s))"


section \<open>Taking paths apart\<close>

definition path_join :: "fresh_memory \<Rightarrow> bytes \<Rightarrow> bytes \<Rightarrow> bytes option" where
  "path_join fresh path path2 = do {
     let sb = stringbuffer_new fresh;
     sb \<leftarrow> stringbuffer_append_string fresh (Some path) sb;
     let len = length path;
     sb \<leftarrow> (if len \<noteq> 0 \<and> path ! (len - 1) \<noteq> 47 then stringbuffer_append_string fresh (Some [47]) sb else Some sb);
     sb \<leftarrow> stringbuffer_append_string fresh (Some path2) sb;
     stringbuffer_finish sb
   }"

fun path_dirname_end :: "bytes \<Rightarrow> nat \<Rightarrow> nat" where
  "path_dirname_end path 0 = 0"
| "path_dirname_end path (Suc e) = (if path ! Suc e = 47 then path_dirname_end path e else Suc e)"

definition path_dirname :: "bytes option \<Rightarrow> bytes option" where
  "path_dirname path = (case path of
     None \<Rightarrow> None
   | Some path \<Rightarrow> (case c_strrchr path 47 of
       None \<Rightarrow> Some [46]
     | Some e \<Rightarrow>
         let result = take (path_dirname_end path e + 1) path
         in if result = [] then Some [47] else Some result))"

definition path_basename_step :: "bytes \<Rightarrow> unit \<Rightarrow> (unit + bytes) option" where
  "path_basename_step path _ = (case c_strrchr path 47 of
     None \<Rightarrow> Some (Inr path)
   | Some slash \<Rightarrow>
       if slash + 1 < length path then Some (Inr (drop (slash + 1) path)) else Some (Inl ()))"

definition path_basename :: "bytes option \<Rightarrow> bytes option option" where
  "path_basename path = (case path of
     None \<Rightarrow> Some None
   | Some path \<Rightarrow> map_option Some (c_loop (path_basename_step path) ()))"

definition path_normalize_step ::
  "fresh_memory \<Rightarrow> bytes \<Rightarrow> nat \<Rightarrow> nat \<times> StringBuffer \<Rightarrow> (nat \<times> StringBuffer + StringBuffer) option" where
  "path_normalize_step fresh path startsbpos = (\<lambda>(pos, sb).
     let (pos, component, found) = string_get_word (Some path) pos 47 MAX_BUF 0 in
     if \<not> found then Some (Inr sb)
     else if component = [46] then Some (Inl (pos, sb))
     else if component = [46, 46]
     then if stringbuffer_length sb > startsbpos
          then let last_slash = stringbuffer_rindex sb 47
               in if last_slash = - 1 then Some (Inl (pos, sb))
                  else Some (Inl (pos, stringbuffer_seek (nat last_slash) sb))
          else Some (Inl (pos, sb))
     else do {
       let len = stringbuffer_length sb;
       sb \<leftarrow> (if len = 0 \<or> stringbuffer_data sb ! (len - 1) \<noteq> 47
              then stringbuffer_append_string fresh (Some [47]) sb else Some sb);
       sb \<leftarrow> stringbuffer_append_string fresh (Some component) sb;
       Some (Inl (pos, sb))
     })"

definition path_normalize :: "fresh_memory \<Rightarrow> bytes option \<Rightarrow> bytes option" where
  "path_normalize fresh path =
     (if string_isempty path then Some [46]
      else do {
        let sb = stringbuffer_new fresh;
        sb \<leftarrow> (if string_startswith path (Some [47]) then stringbuffer_append_string fresh (Some [47]) sb
               else if string_startswith path (Some [46, 47]) then stringbuffer_append_string fresh (Some [46, 47]) sb
               else Some sb);
        let startsbpos = stringbuffer_length sb;
        sb \<leftarrow> c_loop (path_normalize_step fresh (the path) startsbpos) (0, sb);
        sb \<leftarrow> (if stringbuffer_length sb = 0 then stringbuffer_append_string fresh (Some [46]) sb else Some sb);
        stringbuffer_finish sb
      })"

text \<open>The loop looks at every position up to the terminator, which reads as 0.\<close>

function path_safe_loop :: "bytes \<Rightarrow> nat \<Rightarrow> nat \<Rightarrow> bool" where
  "path_safe_loop path component cp =
     (let c = (if cp < length path then path ! cp else 0) in
      if c = 92 \<or> c = 58 then False
      else if c \<noteq> 47 \<and> c \<noteq> 0 then path_safe_loop path component (cp + 1)
      else let len = cp - component in
        if len = 0 \<or> (len = 1 \<and> path ! component = 46) \<or>
           (len = 2 \<and> path ! component = 46 \<and> path ! (component + 1) = 46)
        then False
        else if c = 0 then True
        else path_safe_loop path (cp + 1) (cp + 1))"
  by pat_completeness auto
termination by (relation "measure (\<lambda>(path, component, cp). length path - cp)") (auto split: if_splits)

declare path_safe_loop.simps [simp del]

definition path_is_safe_relative :: "bytes option \<Rightarrow> bool" where
  "path_is_safe_relative path = (case path of
     None \<Rightarrow> False
   | Some path \<Rightarrow>
       if path = [] \<or> path ! 0 = 47 \<or> path ! 0 = 92 then False
       else path_safe_loop path 0 0)"


section \<open>Directories\<close>

text \<open>
  The operating system is an argument: \<open>mkdir\<close> says whether the directory was made or
  already existed, \<open>stat\<close> whether there is such a file and whether it is a directory.
\<close>

definition path_ensure_step ::
  "(bytes \<Rightarrow> 'os \<Rightarrow> bool \<times> 'os) \<Rightarrow> (bytes \<Rightarrow> 'os \<Rightarrow> bool option) \<Rightarrow> bytes \<Rightarrow> nat \<times> 'os \<Rightarrow> (nat \<times> 'os + 'os) option" where
  "path_ensure_step mkdir stat buf = (\<lambda>(cp, os).
     case c_strchr_from buf (cp + 1) 47 of
       None \<Rightarrow> Some (Inr os)
     | Some cp \<Rightarrow>
         let (made, os) = mkdir (take cp buf) os in
         if \<not> made then Some (Inr os)
         else case stat (take cp buf) os of
             None \<Rightarrow> Some (Inr os)
           | Some is_dir \<Rightarrow> if \<not> is_dir then Some (Inr os) else Some (Inl (cp, os)))"

definition path_ensure_directories ::
  "(bytes \<Rightarrow> 'os \<Rightarrow> bool \<times> 'os) \<Rightarrow> (bytes \<Rightarrow> 'os \<Rightarrow> bool option) \<Rightarrow> bytes option \<Rightarrow> 'os \<Rightarrow> 'os option" where
  "path_ensure_directories mkdir stat path os =
     (if path = None \<or> path = Some [] then Some os
      else c_loop (path_ensure_step mkdir stat (c_snprintf MAXPATHLEN (the path))) (0, os))"


section \<open>Reading and writing files\<close>

definition path_copy_step :: "bytes \<times> bytes \<Rightarrow> (bytes \<times> bytes + bytes) option" where
  "path_copy_step = (\<lambda>(fp, dst).
     if fp = [] then Some (Inr dst)
     else let (buf, fp) = c_fgets HUGE_BUF fp in Some (Inl (fp, dst @ c_string buf)))"

definition path_copy_file :: "bytes option \<Rightarrow> bytes \<Rightarrow> (nat \<times> bytes) option" where
  "path_copy_file file dst = (case file of
     None \<Rightarrow> Some (0, dst)
   | Some fp \<Rightarrow> map_option (Pair 1) (c_loop path_copy_step (fp, dst)))"

definition path_contents_step ::
  "fresh_memory \<Rightarrow> bytes \<times> StringBuffer \<Rightarrow> (bytes \<times> StringBuffer + StringBuffer) option" where
  "path_contents_step fresh = (\<lambda>(fp, sb).
     if fp = [] then Some (Inr sb)
     else let (buf, fp) = c_fgets MAX_BUF fp in
       map_option (\<lambda>sb. Inl (fp, sb)) (stringbuffer_append_string fresh (Some (c_string buf)) sb))"

definition path_file_contents :: "fresh_memory \<Rightarrow> bytes option \<Rightarrow> bytes option option" where
  "path_file_contents fresh file = (case file of
     None \<Rightarrow> Some None
   | Some fp \<Rightarrow> do {
       sb \<leftarrow> c_loop (path_contents_step fresh) (fp, stringbuffer_new fresh);
       map_option Some (stringbuffer_finish sb)
     })"

datatype os_call = Ensure_directories bytes | Mkstemp | Fchmod u32 | Close | Fdopen | Fwrite bytes
  | Fflush | Fsync | Fclose | Rename bytes | Unlink

record write_env =
  we_mkstemp :: bool
  we_fchmod :: bool
  we_fdopen :: bool
  we_fwrite :: nat
  we_fflush :: bool
  we_fsync :: bool
  we_fclose :: bool
  we_rename :: bool

text \<open>\<open>we_fwrite\<close> is the number of bytes that \<open>fwrite\<close> says it has written.\<close>

definition path_write_atomic :: "write_env \<Rightarrow> bytes \<Rightarrow> bytes \<Rightarrow> u32 \<Rightarrow> bool \<times> os_call list" where
  "path_write_atomic env path data mode =
     (let calls = [Ensure_directories path] in
      if length path + 11 \<ge> HUGE_BUF then (False, calls)
      else let calls = calls @ [Mkstemp] in
      if \<not> we_mkstemp env then (False, calls)
      else let calls = calls @ [Fchmod mode] in
      if \<not> we_fchmod env then (False, calls @ [Close, Unlink])
      else let calls = calls @ [Fdopen] in
      if \<not> we_fdopen env then (False, calls @ [Close, Unlink])
      else let
        calls = calls @ [Fwrite data];
        (ok, calls) = (if we_fwrite env = length data then (we_fflush env, calls @ [Fflush]) else (False, calls));
        (ok, calls) = (if ok then (we_fsync env, calls @ [Fsync]) else (ok, calls));
        calls = calls @ [Fclose];
        ok = (if \<not> we_fclose env then False else ok)
      in if \<not> ok then (False, calls @ [Unlink])
         else let calls = calls @ [Rename path] in
           if \<not> we_rename env then (False, calls @ [Unlink]) else (True, calls))"


section \<open>Secrets\<close>

datatype path_secret_error = PATH_SECRET_OK | PATH_SECRET_OPEN_ERROR | PATH_SECRET_METADATA_ERROR
  | PATH_SECRET_NOT_REGULAR | PATH_SECRET_EMPTY | PATH_SECRET_TOO_LONG | PATH_SECRET_TRAILING_DATA
  | PATH_SECRET_READ_ERROR

text \<open>What the operating system answers: the permission bits, the bytes of the file, and
  whether reading them ends in an error instead of the end of the file.\<close>

record secret_env =
  se_open :: bool
  se_fstat :: bool
  se_regular :: bool
  se_mode :: u32
  se_contents :: bytes
  se_fault :: bool
  se_fclose :: bool

text \<open>\<open>fread\<close> of \<open>n\<close> bytes: the bytes, what is left, and whether it ran into the end.\<close>

definition c_fread :: "nat \<Rightarrow> bytes \<Rightarrow> bytes \<times> bytes \<times> bool" where
  "c_fread n s = (take n s, drop n s, length s < n)"

definition secret_trailing_step :: "bytes \<Rightarrow> (bytes + bool) option" where
  "secret_trailing_step fp =
     (let (trailing, fp, _) = c_fread 256 fp in
      if trailing = [] then Some (Inr True)
      else if list_all (\<lambda>b. b = 13 \<or> b = 10) trailing then Some (Inl fp)
      else Some (Inr False))"

text \<open>The body between the two checks of the file and the label \<open>out\<close>, on the cleansed buffer.\<close>

definition path_read_line :: "secret_env \<Rightarrow> bytes \<Rightarrow> (path_secret_error \<times> bytes) option" where
  "path_read_line env secret =
     (let secret_size = length secret;
          (got, fp, ended) = c_fread secret_size (se_contents env);
          len = length got;
          secret = got @ drop len secret
      in if ended \<and> se_fault env then Some (PATH_SECRET_READ_ERROR, secret)
         else do {
           (result, secret) \<leftarrow> (case c_strchr_from got 0 10 of
             Some newline \<Rightarrow>
               if \<not> list_all (\<lambda>b. b = 13 \<or> b = 10) (drop (newline + 1) got)
               then Some (PATH_SECRET_TRAILING_DATA, secret)
               else do {
                 clean \<leftarrow> c_loop secret_trailing_step fp;
                 if \<not> clean then Some (PATH_SECRET_TRAILING_DATA, secret)
                 else if se_fault env then Some (PATH_SECRET_READ_ERROR, secret)
                 else let used = newline;
                   used = (if used > 0 \<and> secret ! (used - 1) = 13 then used - 1 else used)
                 in Some (PATH_SECRET_OK, secret[used := 0])
               }
           | None \<Rightarrow>
               if \<not> ended \<or> len = secret_size then Some (PATH_SECRET_TOO_LONG, secret)
               else Some (PATH_SECRET_OK, secret[len := 0]));
           Some (if result = PATH_SECRET_OK \<and> secret ! 0 = 0 then PATH_SECRET_EMPTY else result, secret)
         })"

text \<open>
  The result: the error, the buffer, and \<open>*permissive_mode\<close> where the caller asks for it. The
  buffer must have room for two bytes; its old contents do not matter, because it is cleansed
  first.
\<close>

definition path_read_secret :: "secret_env \<Rightarrow> nat \<Rightarrow> bool \<Rightarrow> (path_secret_error \<times> bytes \<times> bool option) option" where
  "path_read_secret env secret_size want_mode =
     (let secret = replicate secret_size 0;
          permissive_mode = (if want_mode then Some False else None)
      in if \<not> se_open env then Some (PATH_SECRET_OPEN_ERROR, secret, permissive_mode)
         else do {
           (result, secret, permissive_mode) \<leftarrow>
             (if \<not> se_fstat env then Some (PATH_SECRET_METADATA_ERROR, secret, permissive_mode)
              else if \<not> se_regular env then Some (PATH_SECRET_NOT_REGULAR, secret, permissive_mode)
              else do {
                let permissive_mode = (if want_mode \<and> se_mode env AND 63 \<noteq> 0 then Some True else permissive_mode);
                (result, secret) \<leftarrow> path_read_line env secret;
                Some (result, secret, permissive_mode)
              });
           let result = (if \<not> se_fclose env \<and> result = PATH_SECRET_OK then PATH_SECRET_READ_ERROR else result);
           Some (result, if result \<noteq> PATH_SECRET_OK then replicate secret_size 0 else secret, permissive_mode)
         })"

end
