(* ===== verification/Path_Correct.thy ===== *)
theory Path_Correct
  imports Path
begin

text \<open>
  What the path functions compute: splitting a path and joining it again, the normal form of
  a path, which relative paths are safe, and that they stay below the directory they are
  joined to.
\<close>

section \<open>Fields of a path\<close>

text \<open>The reference: what stands between the slashes.\<close>

fun path_fields :: "bytes \<Rightarrow> bytes list" where
  "path_fields [] = [[]]"
| "path_fields (c # cs) =
     (if c = 47 then [] # path_fields cs else (c # hd (path_fields cs)) # tl (path_fields cs))"

lemma path_fields_not_Nil [simp]: "path_fields s \<noteq> []"
  by (cases s) auto

lemma path_fields_one: "47 \<notin> set w \<Longrightarrow> path_fields w = [w]"
  by (induction w) auto

lemma path_fields_append: "47 \<notin> set w \<Longrightarrow> path_fields (w @ 47 # r) = w # path_fields r"
  by (induction w) auto

lemma path_fields_slash: "path_fields (a @ 47 # b) = path_fields a @ path_fields b"
  by (induction a) (auto simp: tl_append hd_append split: list.splits)

lemma path_fields_no_slash: "w \<in> set (path_fields s) \<Longrightarrow> 47 \<notin> set w"
proof (induction s arbitrary: w)
  case (Cons c s)
  then show ?case by (cases "path_fields s") (auto split: if_splits)
qed simp

lemma path_fields_set: "w \<in> set (path_fields s) \<Longrightarrow> set w \<subseteq> set s"
proof (induction s arbitrary: w)
  case (Cons c s)
  then show ?case by (cases "path_fields s") (fastforce split: if_splits)+
qed simp

lemma intercalate_fields: "intercalate [47] (path_fields s) = s"
proof (induction s)
  case (Cons c s)
  then show ?case by (cases "path_fields s") auto
qed simp

definition safe_field :: "bytes \<Rightarrow> bool" where
  "safe_field w \<longleftrightarrow> w \<noteq> [] \<and> w \<noteq> [46] \<and> w \<noteq> [46, 46]"

lemma safe_field_long: "2 < length w \<Longrightarrow> safe_field w"
  by (auto simp: safe_field_def)

definition safe_chars :: "bytes \<Rightarrow> bool" where
  "safe_chars s \<longleftrightarrow> 92 \<notin> set s \<and> 58 \<notin> set s"

text \<open>The test of the loop on the component from \<open>k\<close> to \<open>cp\<close>.\<close>

lemma component_safe:
  assumes "k \<le> cp" "cp \<le> length path"
  shows "(cp - k = 0 \<or> (cp - k = 1 \<and> path ! k = 46) \<or> (cp - k = 2 \<and> path ! k = 46 \<and> path ! (k + 1) = 46))
    \<longleftrightarrow> \<not> safe_field (take (cp - k) (drop k path))"
proof -
  have n: "take n (drop k path) = map (\<lambda>i. path ! (k + i)) [0..<n]" if "k + n \<le> length path" for n
    using that by (auto intro!: nth_equalityI)
  consider (small) "cp - k \<le> 2" | (large) "2 < cp - k" by linarith
  then show ?thesis
  proof cases
    case small
    then have "cp - k \<in> {0, 1, 2}" by auto
    then show ?thesis using n [of "cp - k"] assms by (auto simp: safe_field_def upt_rec)
  next
    case large
    then have "length (take (cp - k) (drop k path)) > 2" using assms by simp
    then have "safe_field (take (cp - k) (drop k path))" by (rule safe_field_long)
    then show ?thesis using large by auto
  qed
qed

lemma safe_loop_spec:
  assumes "0 \<notin> set path" "k \<le> cp" "cp \<le> length path" "47 \<notin> set (take (cp - k) (drop k path))"
  shows "path_safe_loop path k cp \<longleftrightarrow>
    safe_chars (drop cp path) \<and> list_all safe_field (path_fields (drop k path))"
  using assms
proof (induction path k cp rule: path_safe_loop.induct)
  case (1 path k cp)
  let ?w = "take (cp - k) (drop k path)"
  have split: "drop k path = ?w @ drop cp path"
    using 1(3-5) by (metis append_take_drop_id drop_drop le_add_diff_inverse2)
  note comp = component_safe [OF 1(4,5)]
  show ?case
  proof (cases "cp < length path")
    case False
    then have "drop k path = ?w" using 1(5) by simp
    then have "path_fields (drop k path) = [?w]" using path_fields_one [OF 1(6)] by simp
    then show ?thesis
      using False comp by (subst path_safe_loop.simps) (simp add: Let_def safe_chars_def)
  next
    case True
    define c where "c = path ! cp"
    have d: "drop cp path = c # drop (Suc cp) path" using True by (simp add: c_def Cons_nth_drop_Suc)
    have c: "c \<noteq> 0" using 1(3) True by (metis c_def nth_mem)
    consider (bad) "c = 92 \<or> c = 58" | (slash) "c = 47" | (other) "c \<noteq> 92" "c \<noteq> 58" "c \<noteq> 47" by blast
    then show ?thesis
    proof cases
      case bad
      then show ?thesis using True by (subst path_safe_loop.simps) (auto simp: d safe_chars_def simp flip: c_def)
    next
      case slash
      have f: "path_fields (drop k path) = ?w # path_fields (drop (Suc cp) path)"
        using split d slash path_fields_append [OF 1(6)] by metis
      have ih: "path_safe_loop path (cp + 1) (cp + 1) \<longleftrightarrow> safe_chars (drop (cp + 1) path) \<and>
          list_all safe_field (path_fields (drop (cp + 1) path))" if "safe_field ?w"
        by (rule 1(2) [OF refl _ _ refl]) (use that comp True slash c 1(3) in \<open>auto simp flip: c_def\<close>)
      show ?thesis
        using True slash f ih comp
        by (subst path_safe_loop.simps) (auto simp: Let_def d safe_chars_def simp flip: c_def)
    next
      case other
      have w: "take (cp + 1 - k) (drop k path) = ?w @ [c]"
        using 1(4,5) True by (simp add: c_def Suc_diff_le take_Suc_conv_app_nth)
      have ih: "path_safe_loop path k (cp + 1) \<longleftrightarrow> safe_chars (drop (cp + 1) path) \<and>
          list_all safe_field (path_fields (drop k path))"
        by (rule 1(1) [OF refl]) (use True other c w 1(3-6) in \<open>auto simp flip: c_def\<close>)
      show ?thesis
        using True other c ih by (subst path_safe_loop.simps) (auto simp: Let_def d safe_chars_def simp flip: c_def)
    qed
  qed
qed

lemma is_safe_relative_spec:
  assumes "0 \<notin> set path"
  shows "path_is_safe_relative (Some path) \<longleftrightarrow> safe_chars path \<and> list_all safe_field (path_fields path)"
proof (cases path)
  case (Cons c cs)
  then show ?thesis
    using safe_loop_spec [OF assms, of 0 0]
    by (auto simp: path_is_safe_relative_def safe_field_def safe_chars_def)
qed (simp add: path_is_safe_relative_def safe_field_def)


section \<open>Words of a path\<close>

text \<open>
  The words that \<open>string_get_word\<close> finds: the fields that are not empty, cut to the size of
  the buffer.
\<close>

definition path_words :: "bytes \<Rightarrow> bytes list" where
  "path_words s = map (take (MAX_BUF - 1)) (filter (\<lambda>w. w \<noteq> []) (path_fields s))"

lemma path_words_skip: "path_words (dropWhile (\<lambda>b. b = 47) s) = path_words s"
  by (induction s) (auto simp: path_words_def)

lemma path_words_Nil: "path_words [] = []"
  by (simp add: path_words_def)

lemma path_words_slash: "path_words (a @ 47 # b) = path_words a @ path_words b"
  by (simp add: path_words_def path_fields_slash)

lemma path_words_word:
  assumes "w \<noteq> []" "47 \<notin> set w" "r = [] \<or> hd r = 47"
  shows "path_words (w @ r) = take (MAX_BUF - 1) w # path_words r"
proof (cases r)
  case Nil
  then show ?thesis using assms by (simp add: path_words_def path_fields_one)
next
  case (Cons c r')
  then show ?thesis using assms by (simp add: path_words_def path_fields_append)
qed

lemma path_words_no_slash: "w \<in> set (path_words s) \<Longrightarrow> 47 \<notin> set w \<and> w \<noteq> [] \<and> set w \<subseteq> set s"
  by (auto simp: path_words_def MAX_BUF_def dest: path_fields_no_slash path_fields_set in_set_takeD)

lemma word_skip: "string_word_skip s d pos = pos + length (takeWhile (\<lambda>b. b = d) (drop pos s))"
proof (induction s d pos rule: string_word_skip.induct)
  case (1 s d pos)
  show ?case
  proof (cases "pos < length s \<and> s ! pos = d")
    case True
    then have "drop pos s = d # drop (Suc pos) s" by (metis Cons_nth_drop_Suc)
    then show ?thesis using 1 True by (subst string_word_skip.simps) simp
  next
    case False
    then have "takeWhile (\<lambda>b. b = d) (drop pos s) = []" by (cases "pos < length s") (auto simp: Cons_nth_drop_Suc [symmetric])
    then show ?thesis using False by (subst string_word_skip.simps) auto
  qed
qed

lemma drop_word_skip: "drop (string_word_skip s d pos) s = dropWhile (\<lambda>b. b = d) (drop pos s)"
  by (simp add: word_skip dropWhile_eq_drop add.commute)

lemma word_loop:
  assumes "0 \<notin> set s"
  shows "string_word_loop s d n 0 pos False word =
    (pos + length (takeWhile (\<lambda>b. b \<noteq> d) (drop pos s)),
     word @ take (n - 1 - length word) (takeWhile (\<lambda>b. b \<noteq> d) (drop pos s)))"
  using assms
proof (induction "length s - pos" arbitrary: pos word)
  case 0
  then show ?case by (subst string_word_loop.simps) simp
next
  case (Suc m)
  then have p: "pos < length s" by simp
  then have d: "drop pos s = s ! pos # drop (Suc pos) s" by (simp add: Cons_nth_drop_Suc)
  have z: "sint (s ! pos) \<noteq> 0" using p Suc.prems by (metis nth_mem signed_eq_0_iff)
  have ih: "string_word_loop s d n 0 (Suc pos) False v =
      (Suc pos + length (takeWhile (\<lambda>b. b \<noteq> d) (drop (Suc pos) s)),
       v @ take (n - 1 - length v) (takeWhile (\<lambda>b. b \<noteq> d) (drop (Suc pos) s)))" for v
    by (rule Suc.hyps(1)) (use Suc in auto)
  show ?case
    using p z by (subst string_word_loop.simps) (auto simp: d ih Suc_diff_Suc take_Cons')
qed

lemma get_word:
  assumes "0 \<notin> set s"
  shows "case string_get_word (Some s) pos 47 MAX_BUF 0 of (pos', w, found) \<Rightarrow>
    found = (path_words (drop pos s) \<noteq> []) \<and>
    (found \<longrightarrow> path_words (drop pos s) = w # path_words (drop pos' s) \<and> w \<noteq> [] \<and>
      pos + length w \<le> pos' \<and> pos' \<le> length s)"
proof -
  define p where "p = string_word_skip s 47 pos"
  define w where "w = takeWhile (\<lambda>b. b \<noteq> 47) (drop p s)"
  define q where "q = string_word_skip s 47 (p + length w)"
  have rest: "drop (p + length w) s = dropWhile (\<lambda>b. b \<noteq> 47) (drop p s)"
    unfolding w_def by (simp add: dropWhile_eq_drop add.commute)
  have g: "string_get_word (Some s) pos 47 MAX_BUF 0 = (q, take (MAX_BUF - 1) w, take (MAX_BUF - 1) w \<noteq> [])"
    by (simp add: string_get_word_def word_loop [OF assms] p_def w_def q_def Let_def)
  have cut: "take (MAX_BUF - 1) w = [] \<longleftrightarrow> w = []" by (simp add: MAX_BUF_def)
  have dp: "path_words (drop p s) = path_words (drop pos s)"
    by (simp add: p_def drop_word_skip path_words_skip)
  have dq: "path_words (drop q s) = path_words (drop (p + length w) s)"
    by (simp add: q_def drop_word_skip path_words_skip)
  show ?thesis
  proof (cases "w = []")
    case True
    have "drop p s = []"
      using True hd_dropWhile [of "\<lambda>b. b = 47" "drop pos s"] unfolding w_def p_def drop_word_skip
      by (cases "dropWhile (\<lambda>b. b = 47) (drop pos s)") auto
    then have "path_words (drop pos s) = []" unfolding dp [symmetric] by (simp only: path_words_Nil)
    then show ?thesis unfolding g using cut True by simp
  next
    case False
    have split: "drop p s = w @ drop (p + length w) s" unfolding rest by (simp add: w_def)
    have "drop (p + length w) s = [] \<or> hd (drop (p + length w) s) = 47"
      unfolding rest using hd_dropWhile [of "\<lambda>b. b \<noteq> 47" "drop p s"] by blast
    moreover have "47 \<notin> set w" unfolding w_def by (auto dest: set_takeWhileD)
    ultimately have words: "path_words (drop pos s) = take (MAX_BUF - 1) w # path_words (drop q s)"
      using path_words_word [OF False] split unfolding dp [symmetric] dq by metis
    have "p < length s" using False unfolding w_def by (cases "p < length s") auto
    moreover from this have "length w \<le> length s - p" unfolding w_def by (metis length_drop length_takeWhile_le)
    moreover have "q \<le> p + length w + (length s - (p + length w))"
      unfolding q_def word_skip by (metis add_left_mono length_drop length_takeWhile_le)
    moreover have "pos \<le> p" "p + length w \<le> q" by (simp_all add: p_def q_def word_skip)
    ultimately have "pos + length w \<le> q \<and> q \<le> length s" by linarith
    then show ?thesis unfolding g using cut False words by (auto simp: min_def)
  qed
qed


section \<open>Normal forms\<close>

lemma seek_text: "sb_wf sb \<Longrightarrow> n \<le> length (sb_text sb) \<Longrightarrow>
    sb_wf (stringbuffer_seek n sb) \<and> sb_text (stringbuffer_seek n sb) = take n (sb_text sb)"
  by (auto simp: stringbuffer_seek_def sb_wf_def sb_text_def min_def)

lemma rindex_loop_last:
  "n \<le> length buf \<Longrightarrow> take n buf = a @ c # b \<Longrightarrow> c \<notin> set b \<Longrightarrow> stringbuffer_rindex_loop buf c n = int (length a)"
proof (induction b arbitrary: n rule: rev_induct)
  case Nil
  have n: "n = Suc (length a)" using arg_cong [OF Nil.prems(2), of length] Nil.prems(1) by simp
  have "take n buf ! length a = c" unfolding Nil.prems(2) by simp
  then show ?case using n by simp
next
  case (snoc x b)
  let ?m = "length (a @ c # b)"
  have n: "n = Suc ?m" using arg_cong [OF snoc.prems(2), of length] snoc.prems(1) by simp
  have t: "take ?m buf = a @ c # b"
    using arg_cong [OF snoc.prems(2), of "take ?m"] n by simp
  have "take n buf ! ?m = x" unfolding snoc.prems(2) by (simp add: nth_append)
  then have "buf ! ?m = x" using n by simp
  then show ?case using snoc.IH [of ?m] t n snoc.prems by auto
qed

lemma rindex_last:
  assumes "sb_wf sb" "sb_text sb = a @ c # b" "c \<notin> set b"
  shows "stringbuffer_rindex sb c = int (length a)"
  unfolding stringbuffer_rindex_def
  by (rule rindex_loop_last) (use assms in \<open>auto simp: sb_wf_def sb_text_def\<close>)

definition resolve_word :: "bytes list \<Rightarrow> bytes \<Rightarrow> bytes list" where
  "resolve_word st w = (if w = [46] then st else if w = [46, 46] then butlast st else st @ [w])"

definition norm_root :: "bytes \<Rightarrow> bytes" where
  "norm_root P = (if P = [46, 47] then [46, 47] else [47])"

definition norm_text :: "bytes \<Rightarrow> bool \<Rightarrow> bytes list \<Rightarrow> bytes" where
  "norm_text P pushed st =
     (if st \<noteq> [] then norm_root P @ intercalate [47] st else if pushed then butlast (norm_root P) else P)"

definition norm_start :: "bytes \<Rightarrow> bytes" where
  "norm_start path = (if c_has_prefix path [47] then [47] else if c_has_prefix path [46, 47] then [46, 47] else [])"

lemma intercalate_snoc: "intercalate d (xs @ [x]) = (if xs = [] then x else intercalate d xs @ d @ x)"
  by (cases xs) simp_all

lemma norm_text_snoc:
  "norm_text P pushed (st @ [w]) = (if st = [] then norm_root P else norm_text P pushed st @ [47]) @ w"
  by (auto simp: norm_text_def intercalate_snoc)

text \<open>The text and the slash that the loop puts before the next word.\<close>

lemma norm_text_slash:
  assumes P: "P \<in> {[], [47], [46, 47]}" and st: "\<And>w. w \<in> set st \<Longrightarrow> w \<noteq> [] \<and> 47 \<notin> set w"
  shows "norm_text P pushed st @ (if norm_text P pushed st = [] \<or> last (norm_text P pushed st) \<noteq> 47 then [47] else []) @ w =
    norm_text P True (st @ [w])"
proof (cases st rule: rev_cases)
  case Nil
  then show ?thesis using P by (auto simp: norm_text_def norm_root_def)
next
  case (snoc xs x)
  then have x: "x \<noteq> []" "47 \<notin> set x" using st by auto
  then have l: "last (norm_text P pushed st) = last x" "norm_text P pushed st \<noteq> []" "last x \<noteq> 47"
    unfolding snoc norm_text_snoc by (auto simp: norm_root_def) (metis last_in_set)
  have "norm_text P pushed st = norm_text P True st" using snoc by (simp add: norm_text_def)
  moreover have "st \<noteq> []" using snoc by simp
  ultimately show ?thesis using l by (simp add: norm_text_snoc)
qed

definition norm_inv :: "bytes \<Rightarrow> bytes \<Rightarrow> nat \<Rightarrow> StringBuffer \<Rightarrow> bool \<Rightarrow> bytes list \<Rightarrow> bool" where
  "norm_inv path P pos sb pushed st \<longleftrightarrow> sb_wf sb \<and> sb_text sb = norm_text P pushed st \<and>
     (\<forall>w \<in> set st. safe_field w \<and> 47 \<notin> set w \<and> set w \<subseteq> set path) \<and>
     length (sb_text sb) \<le> 2 * pos + 2 \<and> pos \<le> length path"

lemma norm_pop:
  assumes inv: "norm_inv path P pos sb pushed st" and P: "P \<in> {[], [47], [46, 47]}" and pos: "pos \<le> pos'" "pos' \<le> length path"
    and sb': "sb' = (if stringbuffer_length sb > length P
      then let last_slash = stringbuffer_rindex sb 47
           in if last_slash = - 1 then sb else stringbuffer_seek (nat last_slash) sb else sb)"
    and pushed: "st \<noteq> [] \<Longrightarrow> pushed"
  shows "norm_inv path P pos' sb' pushed (butlast st)"
proof -
  have wf: "sb_wf sb" and tx: "sb_text sb = norm_text P pushed st" and len: "stringbuffer_length sb = length (norm_text P pushed st)"
    using inv by (auto simp: norm_inv_def length_text)
  show ?thesis
  proof (cases st rule: rev_cases)
    case Nil
    then have "\<not> stringbuffer_length sb > length P" using len P by (auto simp: norm_text_def norm_root_def)
    then show ?thesis using sb' Nil inv pos by (auto simp: norm_inv_def)
  next
    case (snoc xs x)
    have x: "x \<noteq> []" "47 \<notin> set x" using inv snoc by (auto simp: norm_inv_def safe_field_def)
    have t: "sb_text sb = norm_text P pushed xs @ 47 # x"
      using P pushed tx snoc by (auto simp: norm_text_def norm_root_def intercalate_snoc)
    have "stringbuffer_length sb > length P" using len tx P x snoc by (auto simp: norm_root_def norm_text_def intercalate_snoc)
    moreover have "stringbuffer_rindex sb 47 = int (length (norm_text P pushed xs))" by (rule rindex_last [OF wf t x(2)])
    ultimately have "sb' = stringbuffer_seek (length (norm_text P pushed xs)) sb" using sb' by (simp add: Let_def)
    then have "sb_wf sb' \<and> sb_text sb' = norm_text P pushed xs"
      using seek_text [OF wf, of "length (norm_text P pushed xs)"] t by simp
    moreover have "length (norm_text P pushed xs) \<le> 2 * pos' + 2" using inv t pos by (simp add: norm_inv_def)
    ultimately show ?thesis using inv snoc pos by (simp add: norm_inv_def)
  qed
qed

lemma norm_push:
  assumes inv: "norm_inv path P pos sb pushed st" and P: "P \<in> {[], [47], [46, 47]}"
    and w: "safe_field w" "47 \<notin> set w" "set w \<subseteq> set path" and pos: "pos + length w \<le> pos'" "pos' \<le> length path"
    and room: "2 * length path + 600 < 2 ^ 64"
  shows "\<exists>sb1 sb2. (if stringbuffer_length sb = 0 \<or> stringbuffer_data sb ! (stringbuffer_length sb - 1) \<noteq> 47
      then stringbuffer_append_string fresh (Some [47]) sb else Some sb) = Some sb1 \<and>
    stringbuffer_append_string fresh (Some w) sb1 = Some sb2 \<and> norm_inv path P pos' sb2 True (st @ [w])"
proof -
  let ?t = "norm_text P pushed st"
  let ?slash = "if ?t = [] \<or> last ?t \<noteq> 47 then [47 :: u8] else []"
  have wf: "sb_wf sb" and tx: "sb_text sb = ?t" and st: "\<forall>w \<in> set st. safe_field w \<and> 47 \<notin> set w \<and> set w \<subseteq> set path"
    and le: "length ?t \<le> 2 * pos + 2" and len: "stringbuffer_length sb = length ?t"
    using inv by (auto simp: norm_inv_def length_text)
  have "sb_pos sb = length ?t" using len by (simp add: stringbuffer_length_def)
  then have r: "sb_pos sb + 2 + length w + MAX_BUF < 2 ^ 64" using le pos room by (simp add: MAX_BUF_def)
  have lw: "0 < length w" using w(1) by (simp add: safe_field_def)
  have "stringbuffer_data sb ! (length ?t - 1) = last ?t" if "?t \<noteq> []"
  proof -
    have "take (length ?t) (sb_buf sb) = ?t" using tx len by (simp add: sb_text_def stringbuffer_length_def)
    then have "sb_buf sb ! (length ?t - 1) = ?t ! (length ?t - 1)" using that by (metis diff_less length_greater_0_conv nth_take zero_less_one)
    then show ?thesis using that by (simp add: stringbuffer_data_def last_conv_nth)
  qed
  then have cond: "(stringbuffer_length sb = 0 \<or> stringbuffer_data sb ! (stringbuffer_length sb - 1) \<noteq> 47) \<longleftrightarrow> ?slash = [47]"
    using len by auto
  obtain sb1 where 1: "(if ?slash = [47] then stringbuffer_append_string fresh (Some [47]) sb else Some sb) = Some sb1"
    "sb_wf sb1" "sb_text sb1 = ?t @ ?slash"
  proof (cases "?slash = [47]")
    case True
    have "sb_pos sb + 1 + 1 + MAX_BUF < 2 ^ 64" using r lw by linarith
    then have "sb_room (length [47 :: u8]) sb" using wf by (simp add: sb_room_def)
    then show ?thesis by (rule append_string_text [where fresh = fresh]) (use True tx that in auto)
  next
    case False
    then have "?slash = []" by (simp split: if_splits)
    then show ?thesis using wf tx that by auto
  qed
  have "sb_pos sb1 \<le> sb_pos sb + 1" using length_text [OF 1(2)] length_text [OF wf] 1(3) tx by (auto simp: stringbuffer_length_def)
  then have "sb_room (length w) sb1" using 1(2) r by (simp add: sb_room_def)
  then obtain sb2 where 2: "stringbuffer_append_string fresh (Some w) sb1 = Some sb2" "sb_wf sb2" "sb_text sb2 = sb_text sb1 @ w"
    by (rule append_string_text [where fresh = fresh]) blast
  have "sb_text sb2 = norm_text P True (st @ [w])"
    using norm_text_slash [OF P, of st pushed w] st 1(3) 2(3) by (auto simp: safe_field_def)
  moreover have "length (sb_text sb2) \<le> 2 * pos' + 2"
  proof -
    have "length (sb_text sb2) \<le> length ?t + 1 + length w" unfolding 2(3) 1(3) by simp
    then show ?thesis using le pos lw by linarith
  qed
  ultimately have "norm_inv path P pos' sb2 True (st @ [w])" using 2(2) st w pos by (simp add: norm_inv_def)
  then show ?thesis using 1(1) 2(1) cond by auto
qed

text \<open>The components that are left when the dots are resolved, and the text they make.\<close>

definition path_resolve :: "bytes \<Rightarrow> bytes list" where
  "path_resolve path = foldl resolve_word [] (path_words path)"

definition path_normal :: "bytes \<Rightarrow> bytes" where
  "path_normal path = (let t = norm_text (norm_start path) (list_ex safe_field (path_words path)) (path_resolve path)
     in if t = [] then [46] else t)"

definition norm_state :: "bytes \<Rightarrow> bytes \<Rightarrow> nat \<times> StringBuffer \<Rightarrow> bool" where
  "norm_state path P = (\<lambda>(pos, sb). \<exists>pushed st. norm_inv path P pos sb pushed st \<and> (st \<noteq> [] \<longrightarrow> pushed) \<and>
     foldl resolve_word st (path_words (drop pos path)) = path_resolve path \<and>
     (pushed \<or> list_ex safe_field (path_words (drop pos path))) = list_ex safe_field (path_words path))"

lemma normalize_step:
  assumes inv: "norm_state path P (pos, sb)" and P: "P \<in> {[], [47], [46, 47]}"
    and path: "0 \<notin> set path" "2 * length path + 600 < 2 ^ 64"
  shows "\<exists>x. path_normalize_step fresh path (length P) (pos, sb) = Some x \<and> (case x of
      Inl (pos', sb') \<Rightarrow> norm_state path P (pos', sb') \<and> pos < pos' \<and> pos' \<le> length path
    | Inr sb \<Rightarrow> \<exists>n. norm_inv path P n sb (list_ex safe_field (path_words path)) (path_resolve path))"
proof -
  obtain pushed st where n: "norm_inv path P pos sb pushed st" "st \<noteq> [] \<Longrightarrow> pushed"
    and f: "foldl resolve_word st (path_words (drop pos path)) = path_resolve path"
    and e: "(pushed \<or> list_ex safe_field (path_words (drop pos path))) = list_ex safe_field (path_words path)"
    using inv by (auto simp: norm_state_def)
  obtain pos' w found where g: "string_get_word (Some path) pos 47 MAX_BUF 0 = (pos', w, found)"
    by (metis prod_cases3)
  note gw = get_word [OF path(1), of pos, unfolded g prod.case]
  show ?thesis
  proof (cases found)
    case False
    then have "path_words (drop pos path) = []" using gw by blast
    then show ?thesis using n f e False by (auto simp: path_normalize_step_def g)
  next
    case True
    then have words: "path_words (drop pos path) = w # path_words (drop pos' path)"
      and pos: "w \<noteq> []" "pos + length w \<le> pos'" "pos' \<le> length path" using gw by auto
    have pos_less: "pos < pos'" using pos by (cases w) auto
    have w: "47 \<notin> set w" "set w \<subseteq> set path"
      using path_words_no_slash [of w "drop pos path"] words set_drop_subset [of pos path] by auto
    consider (dot) "w = [46]" | (up) "w = [46, 46]" | (name) "safe_field w" using pos(1) by (auto simp: safe_field_def)
    then show ?thesis
    proof cases
      case dot
      have "norm_inv path P pos' sb pushed st" using n(1) pos pos_less by (auto simp: norm_inv_def)
      then have "norm_state path P (pos', sb)"
        using n(2) f e words dot by (auto simp: norm_state_def resolve_word_def safe_field_def intro!: exI [of _ pushed] exI [of _ st])
      then show ?thesis using dot True g pos pos_less by (simp add: path_normalize_step_def)
    next
      case up
      define sb' where "sb' = (if stringbuffer_length sb > length P
        then let last_slash = stringbuffer_rindex sb 47
             in if last_slash = - 1 then sb else stringbuffer_seek (nat last_slash) sb else sb)"
      have "norm_inv path P pos' sb' pushed (butlast st)"
        by (rule norm_pop [OF n(1) P _ pos(3) sb'_def n(2)]) (use pos in auto)
      moreover have "butlast st \<noteq> [] \<longrightarrow> pushed" using n(2) by (cases st) auto
      ultimately have "norm_state path P (pos', sb')"
        using f e words up
        by (auto simp: norm_state_def resolve_word_def safe_field_def intro!: exI [of _ pushed] exI [of _ "butlast st"])
      moreover have "path_normalize_step fresh path (length P) (pos, sb) = Some (Inl (pos', sb'))"
        using up True g by (simp add: path_normalize_step_def sb'_def Let_def)
      ultimately show ?thesis using pos pos_less by simp
    next
      case name
      obtain sb1 sb2 where s: "(if stringbuffer_length sb = 0 \<or> stringbuffer_data sb ! (stringbuffer_length sb - 1) \<noteq> 47
          then stringbuffer_append_string fresh (Some [47]) sb else Some sb) = Some sb1"
        "stringbuffer_append_string fresh (Some w) sb1 = Some sb2" "norm_inv path P pos' sb2 True (st @ [w])"
        using norm_push [OF n(1) P name w pos(2,3) path(2), of fresh] by blast
      have "norm_state path P (pos', sb2)"
        using s(3) f e words name by (auto simp: norm_state_def resolve_word_def safe_field_def intro!: exI [of _ True] exI [of _ "st @ [w]"])
      moreover have "path_normalize_step fresh path (length P) (pos, sb) = Some (Inl (pos', sb2))"
        using name True g s(1,2) by (simp add: path_normalize_step_def safe_field_def Let_def cong: if_cong)
      ultimately show ?thesis using pos pos_less by simp
    qed
  qed
qed

lemma path_normalize_text:
  assumes path: "path \<noteq> []" "0 \<notin> set path" "2 * length path + 600 < 2 ^ 64"
  shows "path_normalize fresh (Some path) = Some (path_normal path)"
proof -
  define P where "P = norm_start path"
  have P: "P \<in> {[], [47], [46, 47]}" by (auto simp: P_def norm_start_def)
  have room: "sb_room (length P) (stringbuffer_new fresh)" using P by (auto simp: sb_room_def new_wf MAX_BUF_def)
  obtain sb where sb: "(if string_startswith (Some path) (Some [47]) then stringbuffer_append_string fresh (Some [47]) (stringbuffer_new fresh)
      else if string_startswith (Some path) (Some [46, 47]) then stringbuffer_append_string fresh (Some [46, 47]) (stringbuffer_new fresh)
      else Some (stringbuffer_new fresh)) = Some sb" "sb_wf sb" "sb_text sb = P"
  proof (cases "P = []")
    case True
    then show ?thesis
      using path(1) that [of "stringbuffer_new fresh"] by (auto simp: P_def norm_start_def string_startswith_def string_isempty_def new_wf split: if_splits)
  next
    case False
    show ?thesis
      by (rule append_string_text [OF room, of fresh])
        (use False path(1) that in \<open>auto simp: P_def norm_start_def string_startswith_def string_isempty_def new_wf split: if_splits\<close>)
  qed
  have "norm_inv path P 0 sb False []" using sb P path by (auto simp: norm_inv_def norm_text_def)
  then have "norm_state path P (0, sb)" by (auto simp: norm_state_def path_resolve_def)
  then have "\<exists>sb'. c_loop (path_normalize_step fresh path (length P)) (0, sb) = Some sb' \<and>
      (\<exists>n. norm_inv path P n sb' (list_ex safe_field (path_words path)) (path_resolve path))"
  proof (rule c_loop_total [rotated])
    show "wf (measure (\<lambda>(pos, sb :: StringBuffer). length path - pos))" by simp
    show "\<exists>x. path_normalize_step fresh path (length P) s = Some x \<and> (case x of
        Inl s' \<Rightarrow> norm_state path P s' \<and> (s', s) \<in> measure (\<lambda>(pos, sb). length path - pos)
      | Inr sb' \<Rightarrow> \<exists>n. norm_inv path P n sb' (list_ex safe_field (path_words path)) (path_resolve path))"
      if ns: "norm_state path P s" for s
    proof -
      obtain pos sb where s: "s = (pos, sb)" by (cases s)
      obtain x where x: "path_normalize_step fresh path (length P) (pos, sb) = Some x" "case x of
          Inl (pos', sb') \<Rightarrow> norm_state path P (pos', sb') \<and> pos < pos' \<and> pos' \<le> length path
        | Inr sb \<Rightarrow> \<exists>n. norm_inv path P n sb (list_ex safe_field (path_words path)) (path_resolve path)"
        using normalize_step [OF ns [unfolded s] P path(2,3), of fresh] by blast
      show ?thesis unfolding s using x by (cases x) (auto intro!: exI [of _ x])
    qed
  qed
  then obtain sb' n where l: "c_loop (path_normalize_step fresh path (length P)) (0, sb) = Some sb'"
    and inv: "norm_inv path P n sb' (list_ex safe_field (path_words path)) (path_resolve path)" by blast
  let ?t = "norm_text P (list_ex safe_field (path_words path)) (path_resolve path)"
  have wf: "sb_wf sb'" and tx: "sb_text sb' = ?t" using inv by (auto simp: norm_inv_def)
  have zero: "0 \<notin> set ?t"
  proof -
    have "0 \<notin> set (intercalate [47] st)" if "\<forall>w \<in> set st. set w \<subseteq> set path" for st
      using that path(2) by (cases st) auto
    then show ?thesis using inv P by (auto simp: norm_inv_def norm_text_def norm_root_def)
  qed
  have len: "stringbuffer_length sb' = length ?t" using length_text [OF wf] tx by simp
  have "\<exists>sb''. (if stringbuffer_length sb' = 0 then stringbuffer_append_string fresh (Some [46]) sb' else Some sb') = Some sb'' \<and>
      sb_wf sb'' \<and> sb_text sb'' = path_normal path"
  proof (cases "?t = []")
    case True
    then have "sb_pos sb' = 0" using len by (simp add: stringbuffer_length_def)
    then have "sb_room (length [46 :: u8]) sb'" using wf by (simp add: sb_room_def MAX_BUF_def)
    then show ?thesis
      by (rule append_string_text [where fresh = fresh]) (use True len tx in \<open>auto simp: path_normal_def P_def\<close>)
  next
    case False
    then show ?thesis using len wf tx by (auto simp: path_normal_def P_def)
  qed
  then obtain sb'' where f: "(if stringbuffer_length sb' = 0 then stringbuffer_append_string fresh (Some [46]) sb' else Some sb') = Some sb''"
      "sb_wf sb''" "sb_text sb'' = path_normal path" by blast
  have "0 \<notin> set (sb_text sb'')" unfolding f(3) using zero by (auto simp: path_normal_def P_def Let_def)
  then have "stringbuffer_finish sb'' = Some (path_normal path)" using sb_finish_text f(2,3) by simp
  moreover have "stringbuffer_length sb = length P" using length_text [OF sb(2)] sb(3) by simp
  ultimately show ?thesis
    unfolding path_normalize_def using path(1) sb(1) l f(1) by (simp add: string_isempty_def Let_def cong: if_cong)
qed


section \<open>Joining and splitting\<close>

lemma path_join_text:
  assumes "0 \<notin> set a" "0 \<notin> set b" "length a + length b + 600 < 2 ^ 64"
  shows "path_join fresh a b = Some (a @ (if a \<noteq> [] \<and> last a \<noteq> 47 then [47] else []) @ b)"
proof -
  have "sb_room (length a) (stringbuffer_new fresh)" using assms(3) by (simp add: sb_room_def new_wf MAX_BUF_def)
  then obtain sb1 where 1: "stringbuffer_append_string fresh (Some a) (stringbuffer_new fresh) = Some sb1" "sb_wf sb1"
    "sb_text sb1 = a" "sb_pos sb1 = length a"
    by (rule append_string_text [where fresh = fresh]) (auto simp: new_wf)
  let ?slash = "if a \<noteq> [] \<and> last a \<noteq> 47 then [47 :: u8] else []"
  have cond: "(length a \<noteq> 0 \<and> a ! (length a - 1) \<noteq> 47) = (a \<noteq> [] \<and> last a \<noteq> 47)" by (auto simp: last_conv_nth)
  obtain sb2 where 2: "(if a \<noteq> [] \<and> last a \<noteq> 47 then stringbuffer_append_string fresh (Some [47]) sb1 else Some sb1) = Some sb2"
    "sb_wf sb2" "sb_text sb2 = a @ ?slash" "sb_pos sb2 \<le> length a + 1"
  proof (cases "a \<noteq> [] \<and> last a \<noteq> 47")
    case True
    have "sb_room (length [47 :: u8]) sb1" using 1 assms(3) by (simp add: sb_room_def MAX_BUF_def)
    then show ?thesis
      by (rule append_string_text [where fresh = fresh]) (use True 1 that in auto)
  next
    case False
    then show ?thesis using 1 that by auto
  qed
  have "sb_room (length b) sb2" using 2 assms(3) by (simp add: sb_room_def MAX_BUF_def)
  then obtain sb3 where 3: "stringbuffer_append_string fresh (Some b) sb2 = Some sb3" "sb_wf sb3" "sb_text sb3 = a @ ?slash @ b"
    by (rule append_string_text [where fresh = fresh]) (auto simp: 2)
  have "0 \<notin> set (sb_text sb3)" using assms 3(3) by auto
  then have "stringbuffer_finish sb3 = Some (a @ ?slash @ b)" using sb_finish_text 3(2,3) by simp
  then show ?thesis unfolding path_join_def Let_def cond using 1(1) 2(1) 3(1) by (simp cong: if_cong)
qed

lemma strrchr_append: "c \<notin> set b \<Longrightarrow> c_strrchr (a @ c # b) c = Some (length a)"
proof (induction b rule: rev_induct)
  case (snoc x b)
  have "find (\<lambda>i. (a @ c # b @ [x]) ! i = c) (rev [0..<length (a @ c # b)]) = find (\<lambda>i. (a @ c # b) ! i = c) (rev [0..<length (a @ c # b)])"
    by (rule find_cong [OF refl]) (auto simp: nth_append nth_Cons split: nat.splits)
  then show ?case using snoc by (auto simp: c_strrchr_def nth_append)
qed (simp add: c_strrchr_def nth_append)

lemma strrchr_None: "c_strrchr s c = None \<longleftrightarrow> c \<notin> set s"
  by (auto simp: c_strrchr_def find_None_iff in_set_conv_nth)

lemma basename_slash:
  assumes "47 \<notin> set b"
  shows "path_basename (Some (a @ 47 # b)) = (if b = [] then None else Some (Some b))"
proof -
  have s: "c_strrchr (a @ 47 # b) 47 = Some (length a)" by (rule strrchr_append [OF assms])
  show ?thesis
  proof (cases "b = []")
    case True
    have "c_loop (path_basename_step (a @ 47 # b)) () = None"
      by (rule c_loop_diverges [where I = "\<lambda>_. True"]) (use s True in \<open>auto simp: path_basename_step_def\<close>)
    then show ?thesis using True by (simp add: path_basename_def)
  next
    case False
    then have "path_basename_step (a @ 47 # b) () = Some (Inr b)" using s by (simp add: path_basename_step_def)
    then show ?thesis using False by (simp add: path_basename_def c_loop_leave)
  qed
qed

lemma basename_no_slash: "47 \<notin> set b \<Longrightarrow> path_basename (Some b) = Some (Some b)"
  using strrchr_None [of b 47]
  by (auto simp: path_basename_def path_basename_step_def intro!: c_loop_leave)

lemma dirname_end_at: "path ! e \<noteq> 47 \<Longrightarrow> path_dirname_end path e = e"
  by (cases e) auto

lemma dirname_slash:
  assumes "47 \<notin> set b" "a = [] \<or> last a \<noteq> 47"
  shows "path_dirname (Some (a @ 47 # b)) = Some (if a = [] then [47] else a)"
proof -
  have s: "c_strrchr (a @ 47 # b) 47 = Some (length a)" by (rule strrchr_append [OF assms(1)])
  show ?thesis
  proof (cases a rule: rev_cases)
    case Nil
    then show ?thesis using s by (simp add: path_dirname_def)
  next
    case (snoc xs x)
    have "path_dirname_end (a @ 47 # b) (length a) = length xs"
      using snoc assms(2) dirname_end_at [of "a @ 47 # b" "length xs"] by (simp add: nth_append)
    then show ?thesis using s snoc by (simp add: path_dirname_def)
  qed
qed

text \<open>
  \<open>path_join\<close> undoes \<open>path_dirname\<close> and \<open>path_basename\<close>: a path with a name after its last
  slash, which is not doubled, is the join of its directory and its name.
\<close>

theorem path_split_join:
  assumes "path = a @ 47 # b" "47 \<notin> set b" "b \<noteq> []" "a = [] \<or> last a \<noteq> 47" "0 \<notin> set path" "length path + 700 < 2 ^ 64"
  shows "\<exists>dir base. path_dirname (Some path) = Some dir \<and> path_basename (Some path) = Some (Some base) \<and>
    path_join fresh dir base = Some path"
  using assms basename_slash [OF assms(2)] dirname_slash [OF assms(2,4)]
    path_join_text [of "if a = [] then [47] else a" b fresh] by auto

theorem path_split_join_witness:
  "path_dirname (Some [47, 117, 47, 98]) = Some [47, 117] \<and>
   (\<exists>dir base. path_dirname (Some [47, 117, 47, 98]) = Some dir \<and> path_basename (Some [47, 117, 47, 98]) = Some (Some base) \<and>
      path_join (\<lambda>_. 0) dir base = Some [47, 117, 47, 98])"
  using path_split_join [of "[47, 117, 47, 98]" "[47, 117]" "[98]" "\<lambda>_. 0"] by (simp add: path_dirname_def c_strrchr_def)

text \<open>
  C22. \<open>path_basename\<close> returns the whole path when it has no slash, and what follows the last
  slash when that is not empty; on a path that ends in a slash its loop, which searches the
  same string again and again, never ends.
\<close>

theorem path_basename_exact:
  "path_basename (Some path) =
     (if path \<noteq> [] \<and> last path = 47 then None else Some (Some (last (path_fields path))))"
proof (cases "47 \<in> set path")
  case False
  then show ?thesis using basename_no_slash [OF False] path_fields_one [OF False] by (auto dest: last_in_set)
next
  case True
  then obtain a b where p: "path = a @ 47 # b" "47 \<notin> set b" by (meson split_list_last)
  then have "b \<noteq> [] \<Longrightarrow> last b \<noteq> 47" by (metis last_in_set)
  then show ?thesis
    using p basename_slash [OF p(2), of a] path_fields_one [OF p(2)] by (auto simp: path_fields_slash)
qed


section \<open>Normal forms and safe paths\<close>

lemma resolve_word_safe:
  assumes "list_all safe_field st" "[] \<noteq> w"
  shows "list_all safe_field (resolve_word st w)"
proof -
  have "list_all safe_field (butlast st)" using assms(1) by (meson in_set_butlastD list_all_iff)
  then show ?thesis using assms by (auto simp: resolve_word_def safe_field_def)
qed

lemma resolve_all_safe: "list_all safe_field st \<Longrightarrow> [] \<notin> set ws \<Longrightarrow> list_all safe_field (foldl resolve_word st ws)"
  by (induction ws arbitrary: st) (simp_all add: resolve_word_safe)

text \<open>The three paths that the comment on \<open>path_normalize\<close> names.\<close>

lemma normalize_comment_paths:
  "map (\<lambda>q. path_normalize fresh (Some q))
     [[102, 111, 111, 47, 47, 98, 97, 114],
      [102, 111, 111, 47, 102, 111, 111, 50, 47, 46, 46, 47, 98, 97, 114],
      [102, 111, 111, 47, 46, 47, 98, 97, 114]] =
   replicate 3 (Some [47, 102, 111, 111, 47, 98, 97, 114])"
  by (simp add: path_normalize_text path_normal_def norm_text_def norm_root_def norm_start_def Let_def path_resolve_def
      path_words_def resolve_word_def c_has_prefix_def safe_field_def MAX_BUF_def numeral_3_eq_3)

text \<open>
  C21. \<open>path_normalize\<close> terminates, and its result is the following: empty fields and dots
  are dropped, each pair of dots removes the field before it, if there is one, and the fields
  left are written with single slashes after \<open>./\<close> for a path that starts so and after a slash
  for every other path, a relative one too; when no field is left the result is the start of
  the path if there never was one, and otherwise a dot.

  This is what the code computes, and it is not what the comment on \<open>path_normalize\<close> promises.
  The comment says that \<open>foo//bar\<close>, \<open>foo/foo2/../bar\<close> and \<open>foo/./bar\<close> become \<open>foo/bar\<close>; the
  last conjunct states that all three become \<open>/foo/bar\<close>, an absolute path.
\<close>

theorem path_normalize_spec:
  assumes "path \<noteq> []" "0 \<notin> set path" "2 * length path + 600 < 2 ^ 64"
  shows "path_normalize fresh (Some path) = Some
    (if path_resolve path \<noteq> [] then (if c_has_prefix path [46, 47] then [46, 47] else [47]) @ intercalate [47] (path_resolve path)
     else if list_ex safe_field (path_words path) \<or> norm_start path = [] then [46] else norm_start path) \<and>
    list_all safe_field (path_resolve path) \<and>
    map (\<lambda>q. path_normalize fresh (Some q))
      [[102, 111, 111, 47, 47, 98, 97, 114],
       [102, 111, 111, 47, 102, 111, 111, 50, 47, 46, 46, 47, 98, 97, 114],
       [102, 111, 111, 47, 46, 47, 98, 97, 114]] =
    replicate 3 (Some [47, 102, 111, 111, 47, 98, 97, 114])"
proof -
  have "[] \<notin> set (path_words path)" using path_words_no_slash by blast
  then have "list_all safe_field (path_resolve path)" unfolding path_resolve_def by (intro resolve_all_safe) simp_all
  moreover have "norm_root (norm_start path) = (if c_has_prefix path [46, 47] then [46, 47] else [47])"
    by (cases path) (auto simp: norm_root_def norm_start_def c_has_prefix_def)
  moreover have "norm_start path = [] \<or> norm_start path = [47] \<or> norm_start path = [46, 47]" by (simp add: norm_start_def)
  ultimately show ?thesis
    unfolding path_normalize_text [OF assms] normalize_comment_paths
    by (auto simp: path_normal_def norm_text_def norm_root_def Let_def split: if_splits)
qed

theorem path_normalize_spec_witness:
  "path_normalize (\<lambda>_. 0) (Some [97, 47, 46, 46, 47, 98]) = Some [47, 98]"
  using path_normalize_spec [of "[97, 47, 46, 46, 47, 98]" "\<lambda>_. 0"]
  by (simp add: path_resolve_def path_words_def resolve_word_def c_has_prefix_def MAX_BUF_def)

lemma resolve_safe: "list_all safe_field ws \<Longrightarrow> foldl resolve_word st ws = st @ ws"
  by (induction ws arbitrary: st) (auto simp: resolve_word_def safe_field_def)

lemma words_short:
  assumes "list_all safe_field (path_fields p)" "\<forall>w \<in> set (path_fields p). length w < MAX_BUF"
  shows "path_words p = path_fields p"
proof -
  have "filter (\<lambda>w. w \<noteq> []) (path_fields p) = path_fields p"
    using assms(1) by (auto simp: list_all_iff safe_field_def filter_id_conv)
  moreover have "map (take (MAX_BUF - 1)) (path_fields p) = path_fields p" using assms(2) by (intro map_idI) auto
  ultimately show ?thesis by (simp add: path_words_def)
qed

lemma words_join: "path_words (base @ (if base \<noteq> [] \<and> last base \<noteq> 47 then [47] else []) @ p) = path_words base @ path_words p"
proof (cases base rule: rev_cases)
  case Nil
  then show ?thesis by (simp add: path_words_Nil)
next
  case (snoc b c)
  then show ?thesis
    using path_words_slash [of base p] path_words_slash [of b p] path_words_slash [of b "[]"] by (auto simp: path_words_Nil)
qed

lemma resolve_short: "path_resolve [c] \<noteq> [] \<Longrightarrow> c \<noteq> 46 \<and> c \<noteq> 47"
  by (auto simp: path_resolve_def path_words_def resolve_word_def MAX_BUF_def split: if_splits)

lemma intercalate_append: "xs \<noteq> [] \<Longrightarrow> ys \<noteq> [] \<Longrightarrow> intercalate d (xs @ ys) = intercalate d xs @ d @ intercalate d ys"
  by (cases xs; cases ys) simp_all

lemma path_normal_fields:
  assumes "path_resolve q \<noteq> []"
  shows "path_normal q = norm_root (norm_start q) @ intercalate [47] (path_resolve q)"
  using assms by (auto simp: path_normal_def norm_text_def norm_root_def Let_def)

lemma path_normal_root: "base = [47] \<or> base = [46, 47] \<Longrightarrow> path_resolve base = [] \<and> path_normal base = norm_root (norm_start base)"
  by (auto simp: path_normal_def norm_text_def norm_root_def norm_start_def c_has_prefix_def Let_def path_resolve_def
      path_words_def resolve_word_def safe_field_def MAX_BUF_def)

text \<open>The directories for which the statement below holds: those that do not resolve to nothing, and the two roots.\<close>

definition proper_directory :: "u8 list \<Rightarrow> bool" where
  "proper_directory base \<longleftrightarrow> path_resolve base \<noteq> [] \<or> base = [47] \<or> base = [46, 47]"

lemma norm_start_join:
  assumes "proper_directory base" "base \<noteq> []"
  shows "norm_start (base @ (if base \<noteq> [] \<and> last base \<noteq> 47 then [47] else []) @ p) = norm_start base"
proof (cases "length base = 1")
  case True
  then obtain c where "base = [c]" by (metis One_nat_def length_0_conv length_Suc_conv)
  then show ?thesis using resolve_short [of c] assms(1) by (auto simp: proper_directory_def norm_start_def c_has_prefix_def)
next
  case False
  then have "2 \<le> length base" using assms(2) by (cases base; cases "tl base") auto
  then show ?thesis by (auto simp: norm_start_def c_has_prefix_def)
qed

text \<open>
  C20. A relative path that \<open>path_is_safe_relative\<close> accepts stays below the directory that it is
  joined to: the normal form of the joined path is the normal form of the directory, a slash
  if the directory does not end in one already, and the relative path unchanged.

  It holds for the directories that do not resolve to nothing, such as \<open>/d\<close>, \<open>d\<close> and
  \<open>d/../e\<close>, and for the roots \<open>/\<close> and \<open>./\<close>; it does not for the empty string, \<open>..\<close>, \<open>.\<close> or
  \<open>d/..\<close>, for which the joined path becomes an absolute one directly below the root. And it
  holds for relative paths each of whose fields is shorter than \<open>MAX_BUF\<close>, the buffer of
  \<open>path_normalize\<close>, which cuts longer fields.
\<close>

theorem safe_relative_below:
  assumes safe: "path_is_safe_relative (Some p)" "0 \<notin> set p" "\<forall>w \<in> set (path_fields p). length w < MAX_BUF"
    and base: "0 \<notin> set base" "path_resolve base \<noteq> [] \<or> base = [47] \<or> base = [46, 47]"
    and size: "2 * (length base + length p) + 700 < 2 ^ 64"
  shows "\<exists>joined n. path_join fresh base p = Some joined \<and> path_normalize fresh (Some base) = Some n \<and>
    path_normalize fresh (Some joined) = Some (n @ (if path_resolve base = [] then [] else [47]) @ p)"
proof -
  have pd: "proper_directory base" using base(2) by (simp add: proper_directory_def)
  have nb: "base \<noteq> []" using base(2) by (auto simp: path_resolve_def path_words_Nil)
  let ?j = "base @ (if base \<noteq> [] \<and> last base \<noteq> 47 then [47] else []) @ p"
  have f: "list_all safe_field (path_fields p)" using safe is_safe_relative_spec by blast
  have r: "path_resolve ?j = path_resolve base @ path_fields p"
    unfolding path_resolve_def words_join words_short [OF f safe(3)] foldl_append by (rule resolve_safe [OF f])
  have "path_normal ?j = path_normal base @ (if path_resolve base = [] then [] else [47]) @ p"
  proof (cases "path_resolve base = []")
    case True
    then have "path_normal base = norm_root (norm_start base)" using base(2) path_normal_root by blast
    then show ?thesis using True path_normal_fields [of ?j] r norm_start_join [OF pd nb] by (simp add: intercalate_fields)
  next
    case False
    then show ?thesis
      unfolding path_normal_fields [OF False] using path_normal_fields [of ?j] r norm_start_join [OF pd nb]
      by (simp add: intercalate_append intercalate_fields)
  qed
  moreover have "path_join fresh base p = Some ?j" by (rule path_join_text) (use safe base size in auto)
  moreover have "path_normalize fresh (Some base) = Some (path_normal base)" by (rule path_normalize_text) (use nb base size in auto)
  moreover have "path_normalize fresh (Some ?j) = Some (path_normal ?j)" by (rule path_normalize_text) (use nb safe base size in auto)
  ultimately show ?thesis by auto
qed

theorem safe_relative_below_witness:
  "path_is_safe_relative (Some [97, 47, 98]) \<and>
   (\<exists>joined n. path_join (\<lambda>_. 0) [47, 100, 47] [97, 47, 98] = Some joined \<and> path_normalize (\<lambda>_. 0) (Some [47, 100, 47]) = Some n \<and>
     path_normalize (\<lambda>_. 0) (Some joined) = Some (n @ [47, 97, 47, 98]))"
proof -
  have s: "path_is_safe_relative (Some [97, 47, 98])" by (simp add: path_is_safe_relative_def path_safe_loop.simps)
  have "path_resolve [47, 100, 47] \<noteq> []" by (simp add: path_resolve_def path_words_def resolve_word_def MAX_BUF_def)
  then show ?thesis using safe_relative_below [OF s, of "[47, 100, 47]" "\<lambda>_. 0"] s by (simp add: MAX_BUF_def)
qed

end
