(* ===== verification/Path_Files.thy ===== *)
theory Path_Files
  imports Path
begin

text \<open>
  Reading and writing files with \<open>src/path.c\<close>: when a secret is accepted, that text files are
  read completely, and that an atomic write replaces the target only by complete data.
\<close>

section \<open>Secrets\<close>

abbreviation crlf :: "u8 \<Rightarrow> bool" where
  "crlf b \<equiv> b = 13 \<or> b = 10"

text \<open>The secret that a file spells: its first line, without the carriage return before the
  newline; and when the file is acceptable for a buffer of \<open>n\<close> bytes.\<close>

definition first_line :: "bytes \<Rightarrow> bytes" where
  "first_line s = takeWhile (\<lambda>b. b \<noteq> 10) s"

definition secret_line :: "bytes \<Rightarrow> bytes" where
  "secret_line s = (let line = first_line s
     in if 10 \<in> set s \<and> line \<noteq> [] \<and> last line = 13 then butlast line else line)"

definition secret_fits :: "nat \<Rightarrow> bytes \<Rightarrow> bool" where
  "secret_fits n s \<longleftrightarrow> length (first_line s) < n \<and> list_all crlf (drop (length (first_line s)) s) \<and>
     c_string (secret_line s) \<noteq> []"

lemma list_all_take_drop: "list_all P xs \<longleftrightarrow> list_all P (take n xs) \<and> list_all P (drop n xs)"
  using list_all_append [of P "take n xs" "drop n xs"] by simp

lemma trailing_loop: "c_loop secret_trailing_step fp = Some (list_all crlf fp)"
proof (induction "length fp" arbitrary: fp rule: less_induct)
  case less
  show ?case
  proof (cases "fp = []")
    case True
    then show ?thesis by (intro c_loop_leave) (simp add: secret_trailing_step_def c_fread_def)
  next
    case False
    have all: "list_all crlf fp \<longleftrightarrow> list_all crlf (take 256 fp) \<and> list_all crlf (drop 256 fp)"
      by (rule list_all_take_drop)
    show ?thesis
    proof (cases "list_all crlf (take 256 fp)")
      case True
      then have "secret_trailing_step fp = Some (Inl (drop 256 fp))" using False by (simp add: secret_trailing_step_def c_fread_def)
      then show ?thesis using less [of "drop 256 fp"] False all True by (simp add: c_loop_continue)
    next
      case no: False
      then have "secret_trailing_step fp = Some (Inr False)" using False by (simp add: secret_trailing_step_def c_fread_def)
      then show ?thesis using all no by (simp add: c_loop_leave)
    qed
  qed
qed

lemma strchr_start: "c_strchr_from (a @ c # b) 0 c = Some (length a)" if "c \<notin> set a"
proof -
  have "[0..<length (a @ c # b)] = [0..<length a] @ length a # [Suc (length a)..<length (a @ c # b)]"
    using upt_add_eq_append [of 0 "length a" "Suc (length b)"] upt_conv_Cons [of "length a" "length (a @ c # b)"] by simp
  moreover have "find (\<lambda>i. (a @ c # b) ! i = c) [0..<length a] = None"
    using that by (auto simp: find_None_iff nth_append)
  ultimately show ?thesis by (simp add: c_strchr_from_def find_append)
qed

lemma strchr_none: "c \<notin> set s \<Longrightarrow> c_strchr_from s 0 c = None"
  by (auto simp: c_strchr_from_def find_None_iff)

lemma c_string_stop: "u < length xs \<Longrightarrow> c_string (xs[u := 0]) = c_string (take u xs)"
proof -
  assume u: "u < length xs"
  have "xs[u := 0] = take u xs @ 0 # drop (Suc u) xs" by (rule upd_conv_take_nth_drop [OF u])
  then show ?thesis by (auto simp: c_string_def takeWhile_append takeWhile_eq_all_conv [THEN iffD2])
qed

lemma c_string_empty: "xs \<noteq> [] \<Longrightarrow> xs ! 0 = 0 \<longleftrightarrow> c_string xs = []"
  by (cases xs) (auto simp: c_string_def)

lemma read_line_newline:
  assumes c: "se_contents env = line @ 10 # rest" "10 \<notin> set line" "length line < n"
  shows "\<exists>r buf. path_read_line env (replicate n 0) = Some (r, buf) \<and> length buf = n \<and>
    (r = PATH_SECRET_OK \<longleftrightarrow> \<not> se_fault env \<and> secret_fits n (se_contents env)) \<and>
    (r = PATH_SECRET_OK \<longrightarrow> c_string buf = c_string (secret_line (se_contents env)))"
proof -
  let ?C = "se_contents env" and ?k = "length line"
  define got where "got = take n ?C"
  define secret where "secret = got @ drop (length got) (replicate n 0)"
  define used where "used = (if ?k > 0 \<and> secret ! (?k - 1) = 13 then ?k - 1 else ?k)"
  have g: "got = line @ 10 # take (n - ?k - 1) rest"
    using c(1,3) by (simp add: got_def take_Cons' Suc_diff_Suc)
  have len: "length secret = n" "used < n" using c(3) by (auto simp: secret_def got_def used_def)
  have first: "first_line ?C = line" using c by (simp add: first_line_def takeWhile_append)
  have tk: "take ?k secret = line" by (simp add: secret_def g)
  have take_used: "take used secret = secret_line ?C"
  proof (cases "?k > 0")
    case True
    then have "secret ! (?k - 1) = last line"
      using g by (simp add: secret_def nth_append last_conv_nth)
    moreover have "take (?k - 1) secret = butlast line"
      using arg_cong [OF tk, of "take (?k - 1)"] by (simp add: butlast_conv_take)
    ultimately show ?thesis using True tk first c(1) by (auto simp: used_def secret_line_def Let_def)
  next
    case False
    then show ?thesis using first by (simp add: used_def secret_line_def Let_def)
  qed
  have tx: "c_string (secret[used := 0]) = c_string (secret_line ?C)"
    using c_string_stop [of used secret] len take_used by simp
  have empty: "secret[used := 0] ! 0 = 0 \<longleftrightarrow> c_string (secret_line ?C) = []"
    using c_string_empty [of "secret[used := 0]"] len tx by fastforce
  have nl: "c_strchr_from got 0 10 = Some ?k" unfolding g by (rule strchr_start [OF c(2)])
  have split: "list_all crlf rest \<longleftrightarrow> list_all crlf (drop (?k + 1) got) \<and> list_all crlf (drop n ?C)"
  proof -
    have "drop (?k + 1) got = take (n - ?k - 1) rest" "drop n ?C = drop (n - ?k - 1) rest"
      using c(1,3) by (simp_all add: g drop_Cons' Suc_diff_Suc)
    then show ?thesis using list_all_take_drop [of crlf rest "n - ?k - 1"] by simp
  qed
  have fits: "secret_fits n ?C \<longleftrightarrow> list_all crlf rest \<and> c_string (secret_line ?C) \<noteq> []"
    unfolding secret_fits_def first using c(3) by (simp add: c(1))
  have fr: "c_fread (length (replicate n (0 :: u8))) ?C = (got, drop n ?C, length ?C < n)"
    by (simp add: c_fread_def got_def)
  show ?thesis
    unfolding path_read_line_def Let_def fr prod.case secret_def [symmetric] nl option.case trailing_loop used_def [symmetric]
    using split fits tx empty len by auto
qed

lemma read_line_no_newline:
  assumes c: "10 \<notin> set (take n (se_contents env))" and n: "0 < n"
  shows "\<exists>r buf. path_read_line env (replicate n 0) = Some (r, buf) \<and> length buf = n \<and>
    (r = PATH_SECRET_OK \<longleftrightarrow> \<not> se_fault env \<and> secret_fits n (se_contents env)) \<and>
    (r = PATH_SECRET_OK \<longrightarrow> c_string buf = c_string (secret_line (se_contents env)))"
proof -
  let ?C = "se_contents env"
  define got where "got = take n ?C"
  define secret where "secret = got @ drop (length got) (replicate n 0)"
  have len: "length secret = n" by (simp add: secret_def got_def)
  have nl: "c_strchr_from got 0 10 = None" unfolding got_def by (rule strchr_none [OF c])
  have fr: "c_fread (length (replicate n (0 :: u8))) ?C = (got, drop n ?C, length ?C < n)"
    by (simp add: c_fread_def got_def)
  show ?thesis
  proof (cases "length ?C < n")
    case False
    have "n \<le> length (takeWhile (\<lambda>b. b \<noteq> 10) ?C)"
    proof -
      have "takeWhile (\<lambda>b. b \<noteq> 10) (take n ?C @ drop n ?C) = take n ?C @ takeWhile (\<lambda>b. b \<noteq> 10) (drop n ?C)"
        by (rule takeWhile_append2) (use c in auto)
      then have "length (takeWhile (\<lambda>b. b \<noteq> 10) ?C) = length (take n ?C) + length (takeWhile (\<lambda>b. b \<noteq> 10) (drop n ?C))" by simp
      then show ?thesis using False by simp
    qed
    then have fits: "\<not> secret_fits n ?C" by (simp add: secret_fits_def first_line_def)
    show ?thesis
      unfolding path_read_line_def Let_def fr prod.case secret_def [symmetric] nl option.case
      using False fits len by auto
  next
    case True
    then have g: "got = ?C" "length got < n" by (simp_all add: got_def)
    have none: "10 \<notin> set ?C" using c g by (simp add: got_def)
    have line: "first_line ?C = ?C" "secret_line ?C = ?C"
      using none by (auto simp: first_line_def secret_line_def Let_def)
    have tx: "c_string (secret[length got := 0]) = c_string ?C"
      using c_string_stop [of "length got" secret] len g by (simp add: secret_def)
    have empty: "secret[length got := 0] ! 0 = 0 \<longleftrightarrow> c_string ?C = []"
      using c_string_empty [of "secret[length got := 0]"] len tx n by fastforce
    have fits: "secret_fits n ?C \<longleftrightarrow> c_string ?C \<noteq> []"
      unfolding secret_fits_def line using True by simp
    show ?thesis
      unfolding path_read_line_def Let_def fr prod.case secret_def [symmetric] nl option.case
      using True g fits tx empty len line by auto
  qed
qed

lemma read_line_exact:
  assumes "0 < n"
  shows "\<exists>r buf. path_read_line env (replicate n 0) = Some (r, buf) \<and> length buf = n \<and>
    (r = PATH_SECRET_OK \<longleftrightarrow> \<not> se_fault env \<and> secret_fits n (se_contents env)) \<and>
    (r = PATH_SECRET_OK \<longrightarrow> c_string buf = c_string (secret_line (se_contents env)))"
proof (cases "10 \<in> set (take n (se_contents env))")
  case True
  then obtain line rest where "take n (se_contents env) = line @ 10 # rest" "10 \<notin> set line" by (meson split_list_first)
  moreover from this have "length line < n"
    by (metis add_Suc_right length_Cons length_append length_take less_add_Suc1 min.strict_boundedE)
  moreover have "se_contents env = take n (se_contents env) @ drop n (se_contents env)" by simp
  ultimately show ?thesis using read_line_newline [of env line "rest @ drop n (se_contents env)" n] by simp
qed (use read_line_no_newline assms in blast)

text \<open>
  C23. \<open>path_read_secret\<close> accepts a file exactly when it can be opened, inspected, read and
  closed, is a regular file, and spells a secret: a first line that is not empty and fits the
  buffer with its terminator, followed by line ends only. Then the buffer holds that line;
  otherwise no byte of the file is left in the buffer.
\<close>

theorem path_read_secret_exact:
  assumes "2 \<le> n"
  shows "\<exists>r buf mode. path_read_secret env n want_mode = Some (r, buf, mode) \<and> length buf = n \<and>
    (r = PATH_SECRET_OK \<longleftrightarrow> se_open env \<and> se_fstat env \<and> se_regular env \<and> \<not> se_fault env \<and> se_fclose env \<and>
       secret_fits n (se_contents env)) \<and>
    (r = PATH_SECRET_OK \<longrightarrow> c_string buf = c_string (secret_line (se_contents env))) \<and>
    (r \<noteq> PATH_SECRET_OK \<longrightarrow> buf = replicate n 0)"
proof -
  have "0 < n" using assms by simp
  then obtain r buf where "path_read_line env (replicate n 0) = Some (r, buf)" "length buf = n"
    "r = PATH_SECRET_OK \<longleftrightarrow> \<not> se_fault env \<and> secret_fits n (se_contents env)"
    "r = PATH_SECRET_OK \<longrightarrow> c_string buf = c_string (secret_line (se_contents env))"
    using read_line_exact by blast
  then show ?thesis by (auto simp: path_read_secret_def Let_def)
qed

definition secret_demo :: secret_env where
  "secret_demo = \<lparr>se_open = True, se_fstat = True, se_regular = True, se_mode = 384, se_contents = [115, 51, 13, 10, 10],
     se_fault = False, se_fclose = True\<rparr>"

theorem path_read_secret_exact_witness:
  "secret_fits 4 (se_contents secret_demo) \<and>
   (\<exists>r buf mode. path_read_secret secret_demo 4 True = Some (r, buf, mode) \<and> r = PATH_SECRET_OK \<and> c_string buf = [115, 51])"
  using path_read_secret_exact [of 4 secret_demo True]
  by (auto simp: secret_demo_def secret_fits_def first_line_def secret_line_def c_string_def Let_def)



section \<open>Text files\<close>

lemma fgets_split: "c_fgets m s = (buf, rest) \<Longrightarrow> s = buf @ rest"
  by (auto simp: c_fgets_def Let_def)

lemma fgets_progress: "c_fgets m s = (buf, rest) \<Longrightarrow> 1 < m \<Longrightarrow> s \<noteq> [] \<Longrightarrow> length rest < length s"
  by (auto simp: c_fgets_def Let_def)

lemma c_string_id: "0 \<notin> set s \<Longrightarrow> c_string s = s"
  by (auto simp: c_string_def takeWhile_eq_all_conv)

lemma contents_loop:
  assumes "0 \<notin> set fp" "sb_wf sb" "length (sb_text sb) + length fp + 600 < 2 ^ 64"
  shows "\<exists>sb'. c_loop (path_contents_step fresh) (fp, sb) = Some sb' \<and> sb_wf sb' \<and> sb_text sb' = sb_text sb @ fp"
  using assms
proof (induction "length fp" arbitrary: fp sb rule: less_induct)
  case less
  show ?case
  proof (cases "fp = []")
    case True
    then show ?thesis using less.prems by (auto simp: path_contents_step_def intro!: c_loop_leave)
  next
    case False
    obtain buf rest where f: "c_fgets MAX_BUF fp = (buf, rest)" by (cases "c_fgets MAX_BUF fp")
    have s: "fp = buf @ rest" "length rest < length fp"
      using fgets_split [OF f] fgets_progress [OF f _ False] by (simp_all add: MAX_BUF_def)
    have "sb_room (length buf) sb"
      using less.prems(2,3) s(1) length_text [OF less.prems(2)] by (simp add: sb_room_def MAX_BUF_def stringbuffer_length_def)
    then obtain sb1 where 1: "stringbuffer_append_string fresh (Some buf) sb = Some sb1" "sb_wf sb1" "sb_text sb1 = sb_text sb @ buf"
      by (rule append_string_text [where fresh = fresh]) blast
    have "c_string buf = buf" using less.prems(1) s(1) by (intro c_string_id) auto
    then have "path_contents_step fresh (fp, sb) = Some (Inl (rest, sb1))"
      using False f 1(1) by (simp add: path_contents_step_def)
    then show ?thesis
      using less.hyps [OF s(2) _ 1(2)] less.prems 1(3) s(1) by (auto simp: c_loop_continue)
  qed
qed

text \<open>A file without NUL bytes is returned as it is, however its lines are cut up by \<open>fgets\<close>.\<close>

lemma path_file_contents_exact:
  assumes "0 \<notin> set file" "length file + 600 < 2 ^ 64"
  shows "path_file_contents fresh (Some file) = Some (Some file)"
proof -
  obtain sb where "c_loop (path_contents_step fresh) (file, stringbuffer_new fresh) = Some sb" "sb_wf sb" "sb_text sb = file"
    using contents_loop [OF assms(1) new_wf(1), of fresh fresh] assms(2) by (auto simp: new_wf)
  then show ?thesis using assms(1) sb_finish_text [of sb] by (simp add: path_file_contents_def)
qed

lemma copy_loop: "0 \<notin> set fp \<Longrightarrow> c_loop path_copy_step (fp, dst) = Some (dst @ fp)"
proof (induction "length fp" arbitrary: fp dst rule: less_induct)
  case less
  show ?case
  proof (cases "fp = []")
    case True
    then show ?thesis by (simp add: path_copy_step_def c_loop_leave)
  next
    case False
    obtain buf rest where f: "c_fgets HUGE_BUF fp = (buf, rest)" by (cases "c_fgets HUGE_BUF fp")
    have s: "fp = buf @ rest" "length rest < length fp"
      using fgets_split [OF f] fgets_progress [OF f _ False] by (simp_all add: HUGE_BUF_def)
    have "c_string buf = buf" using less.prems s(1) by (intro c_string_id) auto
    then have "path_copy_step (fp, dst) = Some (Inl (rest, dst @ buf))" using False f by (simp add: path_copy_step_def)
    then show ?thesis using less.hyps [OF s(2)] less.prems s(1) by (simp add: c_loop_continue)
  qed
qed

lemma path_copy_file_exact: "0 \<notin> set file \<Longrightarrow> path_copy_file (Some file) dst = Some (1, dst @ file)"
  by (simp add: path_copy_file_def copy_loop)


section \<open>Atomic writes\<close>

definition write_env_ok :: "write_env \<Rightarrow> bytes \<Rightarrow> bool" where
  "write_env_ok env data \<longleftrightarrow> we_mkstemp env \<and> we_fchmod env \<and> we_fdopen env \<and> we_fwrite env = length data \<and>
     we_fflush env \<and> we_fsync env \<and> we_fclose env"

text \<open>
  \<open>path_write_atomic\<close> succeeds exactly when every call succeeds; it renames the temporary
  file over the target only after all data has been written, flushed, synchronised and the
  file closed without an error; the descriptor is closed once; and after a failure the
  temporary file is removed.
\<close>

theorem path_write_atomic_safe:
  assumes "path_write_atomic env path data mode = (ok, calls)"
  shows "(ok \<longleftrightarrow> length path + 11 < HUGE_BUF \<and> write_env_ok env data \<and> we_rename env) \<and>
    (Rename path \<in> set calls \<longrightarrow> write_env_ok env data \<and>
       takeWhile (\<lambda>c. c \<noteq> Rename path) calls =
         [Ensure_directories path, Mkstemp, Fchmod mode, Fdopen, Fwrite data, Fflush, Fsync, Fclose]) \<and>
    (Mkstemp \<in> set calls \<and> we_mkstemp env \<longrightarrow>
       length (filter (\<lambda>c. c = Close \<or> c = Fclose) calls) = 1 \<and> (\<not> ok \<longrightarrow> last calls = Unlink))"
  using assms by (auto simp: path_write_atomic_def Let_def write_env_ok_def split: if_splits)

definition write_demo :: write_env where
  "write_demo = \<lparr>we_mkstemp = True, we_fchmod = True, we_fdopen = True, we_fwrite = 2, we_fflush = True,
     we_fsync = True, we_fclose = True, we_rename = False\<rparr>"

theorem path_write_atomic_safe_witness:
  "\<exists>calls. path_write_atomic write_demo [97] [1, 2] 384 = (False, calls) \<and> Rename [97] \<in> set calls \<and> last calls = Unlink \<and>
     write_env_ok write_demo [1, 2]"
proof -
  define calls where "calls = snd (path_write_atomic write_demo [97] [1, 2] 384)"
  have "path_write_atomic write_demo [97] [1, 2] 384 = (False, calls)" "Rename [97] \<in> set calls" "Mkstemp \<in> set calls"
    by (simp_all add: calls_def path_write_atomic_def write_demo_def HUGE_BUF_def)
  then show ?thesis
    using path_write_atomic_safe [of write_demo "[97]" "[1, 2]" 384 False calls] by (simp add: write_demo_def)
qed

end
