(* ===== verification/Bresenham.thy ===== *)
theory Bresenham
  imports Prelude
begin

text \<open>
  The line stepping macros of \<open>src/bresenham.h\<close>. The values are mathematical integers; that
  they stay in the range of a C \<open>int\<close> is part of what is proved, under the bound that the
  comment on \<open>BRESENHAM_INIT\<close> asks for.
\<close>

record bresenham =
  br_fraction :: int
  br_stepx :: int
  br_stepy :: int
  br_dx2 :: int
  br_dy2 :: int

definition INT_MAX :: int where "INT_MAX = 2 ^ 31 - 1"

definition BRESENHAM_INIT :: "int \<Rightarrow> int \<Rightarrow> bresenham" where
  "BRESENHAM_INIT dx dy = (let
     dx2 = dx * 2;
     dy2 = dy * 2;
     (dy2, stepy) = (if dy < 0 then (- dy2, - 1) else (dy2, 1));
     (dx2, stepx) = (if dx < 0 then (- dx2, - 1) else (dx2, 1));
     fraction = (if dx2 > dy2 then dy2 - dx * stepx else dx2 - dy * stepy)
   in \<lparr>br_fraction = fraction, br_stepx = stepx, br_stepy = stepy, br_dx2 = dx2, br_dy2 = dy2\<rparr>)"

definition BRESENHAM_STEP :: "int \<times> int \<times> bresenham \<Rightarrow> int \<times> int \<times> bresenham" where
  "BRESENHAM_STEP = (\<lambda>(x, y, b).
     if br_dx2 b > br_dy2 b
     then let (y, b) = (if br_fraction b \<ge> 0 then (y + br_stepy b, b\<lparr>br_fraction := br_fraction b - br_dx2 b\<rparr>) else (y, b))
          in (x + br_stepx b, y, b\<lparr>br_fraction := br_fraction b + br_dy2 b\<rparr>)
     else let (x, b) = (if br_fraction b \<ge> 0 then (x + br_stepx b, b\<lparr>br_fraction := br_fraction b - br_dy2 b\<rparr>) else (x, b))
          in (x, y + br_stepy b, b\<lparr>br_fraction := br_fraction b + br_dx2 b\<rparr>))"

primrec bresenham_walk :: "int \<Rightarrow> int \<Rightarrow> nat \<Rightarrow> int \<times> int \<times> bresenham" where
  "bresenham_walk dx dy 0 = (0, 0, BRESENHAM_INIT dx dy)"
| "bresenham_walk dx dy (Suc k) = BRESENHAM_STEP (bresenham_walk dx dy k)"

definition c_sign :: "int \<Rightarrow> int" where
  "c_sign d = (if d < 0 then - 1 else 1)"

lemma init_eq: "BRESENHAM_INIT dx dy = \<lparr>
    br_fraction = (if \<bar>dx\<bar> > \<bar>dy\<bar> then 2 * \<bar>dy\<bar> - \<bar>dx\<bar> else 2 * \<bar>dx\<bar> - \<bar>dy\<bar>),
    br_stepx = c_sign dx, br_stepy = c_sign dy, br_dx2 = 2 * \<bar>dx\<bar>, br_dy2 = 2 * \<bar>dy\<bar>\<rparr>"
  by (auto simp: BRESENHAM_INIT_def c_sign_def Let_def)

text \<open>
  The state after \<open>k\<close> steps along the longer axis of length \<open>a\<close> and \<open>m\<close> along the shorter one of
  length \<open>b\<close>: the fraction is the error of the point, in a range of twice the longer axis.
\<close>

definition br_at :: "int \<Rightarrow> int \<Rightarrow> int \<Rightarrow> int \<Rightarrow> int \<Rightarrow> bool" where
  "br_at a b k m f \<longleftrightarrow> f = (k + 1) * (2 * b) - a - 2 * a * m \<and> 2 * b - 2 * a \<le> f \<and> f < 2 * b"

lemma br_at_start: "0 < a \<Longrightarrow> br_at a b 0 0 (2 * b - a)"
  by (simp add: br_at_def)

lemma br_at_step:
  assumes "br_at a b k m f" "0 \<le> b" "b \<le> a"
  shows "br_at a b (k + 1) (if 0 \<le> f then m + 1 else m) (if 0 \<le> f then f - 2 * a + 2 * b else f + 2 * b)"
  using assms by (auto simp: br_at_def algebra_simps)

text \<open>The point is a nearest one of its column, and the last one is the end of the line.\<close>

lemma br_at_near:
  assumes "br_at a b k m f"
  shows "2 * \<bar>b * k - a * m\<bar> \<le> a"
  using assms by (auto simp: br_at_def algebra_simps abs_if)

lemma br_at_end:
  assumes "br_at a b a m f" "0 < a"
  shows "m = b"
proof -
  have "2 * b - 2 * a \<le> (a + 1) * (2 * b) - a - 2 * a * m" "(a + 1) * (2 * b) - a - 2 * a * m < 2 * b"
    using assms(1) by (auto simp: br_at_def)
  then have "a * (2 * m) < a * (2 * b + 2)" "a * (2 * b - 2) < a * (2 * m)" using assms(2) by (auto simp: algebra_simps)
  then have "2 * m < 2 * b + 2" "2 * b - 2 < 2 * m" using assms(2) by (simp_all add: mult_less_cancel_left)
  then show ?thesis by simp
qed

lemma br_at_range:
  assumes at: "br_at a b k m f" and ab: "0 \<le> b" "b \<le> a" "0 < a" and k: "0 \<le> k"
  shows "0 \<le> m \<and> m \<le> k"
proof -
  have near: "2 * (b * k - a * m) \<le> a" "2 * (a * m - b * k) \<le> a" using br_at_near [OF at] by (auto simp: abs_if split: if_splits)
  have bk: "0 \<le> b * k" "b * k \<le> a * k" using ab k by (auto intro: mult_right_mono)
  have "a * (2 * m) < a * (2 * k + 2)" "a * (- 2) < a * (2 * m)" using near bk ab by (auto simp: algebra_simps)
  then have "2 * m < 2 * k + 2" "- 2 < 2 * m" using ab by (simp_all only: mult_less_cancel_left_pos)
  then show ?thesis by simp
qed

lemma br_at_int:
  assumes "br_at a b k m f" "0 \<le> b" "b \<le> a" "a \<le> INT_MAX div 2"
  shows "\<bar>f\<bar> \<le> INT_MAX"
  using assms by (auto simp: br_at_def abs_if)

lemma walk_x:
  assumes "\<bar>dy\<bar> < \<bar>dx\<bar>"
  shows "\<exists>m f. bresenham_walk dx dy k = (int k * c_sign dx, m * c_sign dy, (BRESENHAM_INIT dx dy)\<lparr>br_fraction := f\<rparr>) \<and>
    br_at \<bar>dx\<bar> \<bar>dy\<bar> (int k) m f"
proof (induction k)
  case 0
  have "br_at \<bar>dx\<bar> \<bar>dy\<bar> 0 0 (2 * \<bar>dy\<bar> - \<bar>dx\<bar>)" using assms by (intro br_at_start) simp
  then show ?case using assms by (auto simp: init_eq)
next
  case (Suc k)
  then obtain m f where w: "bresenham_walk dx dy k = (int k * c_sign dx, m * c_sign dy, (BRESENHAM_INIT dx dy)\<lparr>br_fraction := f\<rparr>)"
    and b: "br_at \<bar>dx\<bar> \<bar>dy\<bar> (int k) m f" by blast
  show ?case
    using br_at_step [OF b] assms
    by (intro exI [of _ "if 0 \<le> f then m + 1 else m"] exI [of _ "if 0 \<le> f then f - 2 * \<bar>dx\<bar> + 2 * \<bar>dy\<bar> else f + 2 * \<bar>dy\<bar>"])
      (auto simp: w init_eq BRESENHAM_STEP_def distrib_right add.commute)
qed

lemma walk_y:
  assumes "\<bar>dx\<bar> \<le> \<bar>dy\<bar>" "dy \<noteq> 0"
  shows "\<exists>m f. bresenham_walk dx dy k = (m * c_sign dx, int k * c_sign dy, (BRESENHAM_INIT dx dy)\<lparr>br_fraction := f\<rparr>) \<and>
    br_at \<bar>dy\<bar> \<bar>dx\<bar> (int k) m f"
proof (induction k)
  case 0
  have "br_at \<bar>dy\<bar> \<bar>dx\<bar> 0 0 (2 * \<bar>dx\<bar> - \<bar>dy\<bar>)" using assms by (intro br_at_start) simp
  then show ?case using assms by (auto simp: init_eq)
next
  case (Suc k)
  then obtain m f where w: "bresenham_walk dx dy k = (m * c_sign dx, int k * c_sign dy, (BRESENHAM_INIT dx dy)\<lparr>br_fraction := f\<rparr>)"
    and b: "br_at \<bar>dy\<bar> \<bar>dx\<bar> (int k) m f" by blast
  show ?case
    using br_at_step [OF b] assms
    by (intro exI [of _ "if 0 \<le> f then m + 1 else m"] exI [of _ "if 0 \<le> f then f - 2 * \<bar>dy\<bar> + 2 * \<bar>dx\<bar> else f + 2 * \<bar>dx\<bar>"])
      (auto simp: w init_eq BRESENHAM_STEP_def distrib_right add.commute)
qed

lemma c_sign_abs: "\<bar>d\<bar> * c_sign d = d"
  by (simp add: c_sign_def)

lemma abs_c_sign: "\<bar>c_sign d\<bar> = 1"
  by (simp add: c_sign_def)

lemma br_fraction_update: "br_fraction (b\<lparr>br_fraction := f\<rparr>) = f"
  by simp

text \<open>The distance from the point \<open>(x, y)\<close> to the line, as a cross product.\<close>

lemma cross:
  assumes "x = p * c_sign dx" "y = q * c_sign dy"
  shows "\<bar>dy * x - dx * y\<bar> = \<bar>\<bar>dy\<bar> * p - \<bar>dx\<bar> * q\<bar>"
  using assms by (auto simp: c_sign_def abs_if split: if_splits)

text \<open>
  C24. Stepping with \<open>BRESENHAM_STEP\<close> from the start of a line reaches its end after exactly as
  many steps as the longer distance; every point on the way is at most half a cell away
  from the line, measured along the shorter axis; and when both distances are at most half of
  \<open>INT_MAX\<close>, the fraction stays in the range of an \<open>int\<close>.
\<close>

theorem bresenham_line_exact:
  assumes "bresenham_walk dx dy k = (x, y, b)" "k \<le> n" "int n = max \<bar>dx\<bar> \<bar>dy\<bar>"
  shows "2 * \<bar>dy * x - dx * y\<bar> \<le> int n \<and> max \<bar>x\<bar> \<bar>y\<bar> = int k \<and> (k = n \<longrightarrow> x = dx \<and> y = dy) \<and>
    (\<bar>dx\<bar> \<le> INT_MAX div 2 \<and> \<bar>dy\<bar> \<le> INT_MAX div 2 \<longrightarrow> \<bar>br_fraction b\<bar> \<le> INT_MAX)"
proof -
  consider (point) "dx = 0" "dy = 0" | (x) "\<bar>dy\<bar> < \<bar>dx\<bar>" | (y) "\<bar>dx\<bar> \<le> \<bar>dy\<bar>" "dy \<noteq> 0" by linarith
  then show ?thesis
  proof cases
    case point
    then show ?thesis using assms by (auto simp: init_eq INT_MAX_def)
  next
    case x
    obtain m where w: "x = int k * c_sign dx" "y = m * c_sign dy" and a: "br_at \<bar>dx\<bar> \<bar>dy\<bar> (int k) m (br_fraction b)"
      using walk_x [OF x, of k] assms(1) by (metis br_fraction_update prod.inject)
    have n: "int n = \<bar>dx\<bar>" using assms(3) x by simp
    have "k = n \<Longrightarrow> m = \<bar>dy\<bar>" using br_at_end [of "\<bar>dx\<bar>" "\<bar>dy\<bar>" m] a n x by auto
    then have "k = n \<Longrightarrow> x = dx \<and> y = dy" using w n c_sign_abs by simp
    moreover have "0 \<le> m \<and> m \<le> int k" by (rule br_at_range [OF a]) (use x in auto)
    then have "max \<bar>x\<bar> \<bar>y\<bar> = int k" using w abs_c_sign by (simp add: abs_mult)
    moreover have "2 * \<bar>dy * x - dx * y\<bar> \<le> int n" using br_at_near [OF a] n cross [OF w] by simp
    ultimately show ?thesis using br_at_int [OF a] x by auto
  next
    case y
    obtain m where w: "x = m * c_sign dx" "y = int k * c_sign dy" and a: "br_at \<bar>dy\<bar> \<bar>dx\<bar> (int k) m (br_fraction b)"
      using walk_y [OF y, of k] assms(1) by (metis br_fraction_update prod.inject)
    have n: "int n = \<bar>dy\<bar>" using assms(3) y by simp
    have "k = n \<Longrightarrow> m = \<bar>dx\<bar>" using br_at_end [of "\<bar>dy\<bar>" "\<bar>dx\<bar>" m] a n y by auto
    then have "k = n \<Longrightarrow> x = dx \<and> y = dy" using w n c_sign_abs by simp
    moreover have "0 \<le> m \<and> m \<le> int k" by (rule br_at_range [OF a]) (use y in auto)
    then have "max \<bar>x\<bar> \<bar>y\<bar> = int k" using w abs_c_sign by (simp add: abs_mult)
    moreover have "2 * \<bar>dy * x - dx * y\<bar> \<le> int n" using br_at_near [OF a] n cross [OF w] by (simp add: abs_minus_commute)
    ultimately show ?thesis using br_at_int [OF a] y by auto
  qed
qed

theorem bresenham_line_exact_witness:
  "bresenham_walk (- 3) 2 3 = (- 3, 2, (BRESENHAM_INIT (- 3) 2)\<lparr>br_fraction := 1\<rparr>) \<and>
   \<bar>br_fraction ((BRESENHAM_INIT (- 3) 2)\<lparr>br_fraction := 1\<rparr>)\<bar> \<le> INT_MAX"
proof -
  have w: "bresenham_walk (- 3) 2 3 = (- 3, 2, (BRESENHAM_INIT (- 3) 2)\<lparr>br_fraction := 1\<rparr>)"
    by (simp add: numeral_3_eq_3 BRESENHAM_STEP_def BRESENHAM_INIT_def)
  then show ?thesis using bresenham_line_exact [OF w, of 3] by (simp add: INT_MAX_def)
qed

end
