(* ===== verification/Toolkit.thy ===== *)
theory Toolkit
  imports Prelude "HOL-Library.Sublist"
begin

text \<open>
  The modules and their start-up, \<open>src/toolkit.c\<close> and the macros of \<open>src/toolkit.h\<close>.

  A module is known by its name; its initialisation and deinitialisation functions are the
  bodies between the macros of its source file, whose runs are recorded in order. A module
  lists the modules it needs before its own start (\<open>DEPENDS\<close>) and those it needs afterwards
  (\<open>IMPORTS\<close>).
\<close>

section \<open>Registry\<close>

datatype 'm toolkit_event = Init_body 'm | Deinit_body 'm

record 'm toolkit =
  apis :: "'m list"
  did_init :: "'m \<Rightarrow> bool"
  tk_events :: "'m toolkit_event list"

type_synonym 'm toolkit_dependencies = "'m \<Rightarrow> ('m \<times> bool) list"

definition toolkit_start :: "'m toolkit" where
  "toolkit_start = \<lparr>apis = [], did_init = (\<lambda>_. False), tk_events = []\<rparr>"

definition toolkit_check_imported :: "'m \<Rightarrow> 'm toolkit \<Rightarrow> bool" where
  "toolkit_check_imported func st = list_ex (\<lambda>api. api = func) (apis st)"

definition toolkit_import_register :: "'m \<Rightarrow> 'm toolkit \<Rightarrow> 'm toolkit" where
  "toolkit_import_register func st =
     (if toolkit_check_imported func st then st else st\<lparr>apis := apis st @ [func]\<rparr>)"

text \<open>The loops over the dependencies: every one that satisfies the condition is initialised.\<close>

primrec init_each :: "('m \<Rightarrow> 's \<Rightarrow> 's option) \<Rightarrow> 'm list \<Rightarrow> 's \<Rightarrow> 's option" where
  "init_each f [] s = Some s"
| "init_each f (x # xs) s = do { s \<leftarrow> f x s; init_each f xs s }"

lemma init_each_mono [partial_function_mono]:
  assumes "\<And>x s. mono_option (\<lambda>F. B F x s)"
  shows "mono_option (\<lambda>F. init_each (B F) xs s)"
proof (induction xs arbitrary: s)
  case Nil
  show ?case by (simp add: option.const_mono)
next
  case (Cons x xs)
  show ?case unfolding init_each.simps by (intro bind_mono assms Cons)
qed

partial_function (option) toolkit_init ::
  "'m toolkit_dependencies \<Rightarrow> 'm \<Rightarrow> 'm toolkit \<Rightarrow> 'm toolkit option" where
  "toolkit_init deps api st =
     (if toolkit_check_imported api st then Some st
      else do {
        let st = st\<lparr>did_init := (did_init st)(api := True)\<rparr>;
        st \<leftarrow> init_each (\<lambda>d s. toolkit_init deps d s) (map fst (filter snd (deps api))) st;
        let st = toolkit_import_register api st;
        let st = st\<lparr>tk_events := tk_events st @ [Init_body api]\<rparr>;
        init_each (\<lambda>d s. toolkit_init deps d s) (map fst (filter (\<lambda>d. \<not> snd d) (deps api))) st
      })"

declare toolkit_init.simps [code]

definition toolkit_deinit_one :: "'m \<Rightarrow> 'm toolkit \<Rightarrow> 'm toolkit" where
  "toolkit_deinit_one func st = st\<lparr>tk_events := tk_events st @ [Deinit_body func], did_init := (did_init st)(func := False)\<rparr>"

definition toolkit_deinit :: "'m toolkit \<Rightarrow> 'm toolkit" where
  "toolkit_deinit st = (fold toolkit_deinit_one (rev (apis st)) st)\<lparr>apis := []\<rparr>"


section \<open>The modules of the library\<close>

datatype tk_module = TK_binreloc | TK_clioptions | TK_colorspace | TK_console | TK_curl | TK_datetime | TK_logger
  | TK_math | TK_mempool | TK_packet | TK_password | TK_path | TK_process | TK_shstr | TK_signals | TK_socket
  | TK_string | TK_stringbuffer

definition DEPENDS :: "'m \<Rightarrow> 'm \<times> bool" where "DEPENDS api = (api, True)"
definition IMPORTS :: "'m \<Rightarrow> 'm \<times> bool" where "IMPORTS api = (api, False)"

fun tk_dependencies :: "tk_module toolkit_dependencies" where
  "tk_dependencies TK_binreloc = [DEPENDS TK_path]"
| "tk_dependencies TK_clioptions = [DEPENDS TK_logger, IMPORTS TK_string, IMPORTS TK_stringbuffer]"
| "tk_dependencies TK_colorspace = []"
| "tk_dependencies TK_console = [DEPENDS TK_logger, DEPENDS TK_string]"
| "tk_dependencies TK_curl = [DEPENDS TK_clioptions]"
| "tk_dependencies TK_datetime = []"
| "tk_dependencies TK_logger = [DEPENDS TK_string]"
| "tk_dependencies TK_math = [DEPENDS TK_logger]"
| "tk_dependencies TK_mempool = [DEPENDS TK_math, DEPENDS TK_logger, DEPENDS TK_string, DEPENDS TK_stringbuffer]"
| "tk_dependencies TK_packet = [DEPENDS TK_mempool]"
| "tk_dependencies TK_password = []"
| "tk_dependencies TK_path = [DEPENDS TK_logger, DEPENDS TK_string, DEPENDS TK_stringbuffer]"
| "tk_dependencies TK_process = [IMPORTS TK_logger]"
| "tk_dependencies TK_shstr = [DEPENDS TK_logger]"
| "tk_dependencies TK_signals = []"
| "tk_dependencies TK_socket = [DEPENDS TK_datetime]"
| "tk_dependencies TK_string = [IMPORTS TK_math, IMPORTS TK_stringbuffer]"
| "tk_dependencies TK_stringbuffer = [IMPORTS TK_string]"


section \<open>Start-up terminates and orders the modules\<close>

lemma check_imported_set: "toolkit_check_imported api st \<longleftrightarrow> api \<in> set (apis st)"
  by (auto simp: toolkit_check_imported_def list_ex_iff)

text \<open>What a start-up promises when it starts with \<open>xs\<close> registered and ends with \<open>ys\<close>.\<close>

definition tk_grown :: "'m toolkit_dependencies \<Rightarrow> 'm list \<Rightarrow> 'm list \<Rightarrow> bool" where
  "tk_grown deps xs ys \<longleftrightarrow> prefix xs ys \<and> (distinct xs \<longrightarrow> distinct ys) \<and>
     (\<forall>a \<in> set ys - set xs. \<forall>d \<in> set (deps a). fst d \<in> set ys)"

definition tk_ordered :: "'m toolkit_dependencies \<Rightarrow> 'm list \<Rightarrow> bool" where
  "tk_ordered deps xs \<longleftrightarrow> (\<forall>i < length xs. \<forall>d. (d, True) \<in> set (deps (xs ! i)) \<longrightarrow> d \<in> set (take i xs))"

lemma tk_grown_refl [simp]: "tk_grown deps xs xs"
  by (simp add: tk_grown_def)

lemma prefix_set: "prefix xs ys \<Longrightarrow> set xs \<subseteq> set ys"
  by (auto simp: prefix_def)

lemma tk_grown_trans: "tk_grown deps xs ys \<Longrightarrow> tk_grown deps ys zs \<Longrightarrow> tk_grown deps xs zs"
  unfolding tk_grown_def by (meson DiffD1 DiffI Diff_iff prefix_order.trans prefix_set subsetD)

lemma tk_ordered_snoc:
  "tk_ordered deps xs \<Longrightarrow> (\<And>d. (d, True) \<in> set (deps x) \<Longrightarrow> d \<in> set xs) \<Longrightarrow> tk_ordered deps (xs @ [x])"
  by (auto simp: tk_ordered_def nth_append less_Suc_eq)

definition tk_ran :: "'m toolkit_dependencies \<Rightarrow> ('m \<Rightarrow> 'm toolkit \<Rightarrow> 'm toolkit option) \<Rightarrow> 'm \<Rightarrow> 'm toolkit \<Rightarrow> bool" where
  "tk_ran deps f x st \<longleftrightarrow> (\<exists>st'. f x st = Some st' \<and> x \<in> set (apis st') \<and> tk_grown deps (apis st) (apis st') \<and>
     (tk_ordered deps (apis st) \<longrightarrow> tk_ordered deps (apis st')))"

lemma init_each_ran:
  assumes "\<And>x s. x \<in> set xs \<Longrightarrow> prefix (apis st) (apis s) \<Longrightarrow> tk_ran deps f x s"
  shows "\<exists>st'. init_each f xs st = Some st' \<and> set xs \<subseteq> set (apis st') \<and> tk_grown deps (apis st) (apis st') \<and>
    (tk_ordered deps (apis st) \<longrightarrow> tk_ordered deps (apis st'))"
  using assms
proof (induction xs arbitrary: st)
  case (Cons x xs)
  obtain st1 where 1: "f x st = Some st1" "x \<in> set (apis st1)" "tk_grown deps (apis st) (apis st1)"
    "tk_ordered deps (apis st) \<longrightarrow> tk_ordered deps (apis st1)"
    using Cons.prems [of x st] by (auto simp: tk_ran_def)
  have p: "prefix (apis st) (apis st1)" using 1(3) by (simp add: tk_grown_def)
  obtain st2 where 2: "init_each f xs st1 = Some st2" "set xs \<subseteq> set (apis st2)" "tk_grown deps (apis st1) (apis st2)"
    "tk_ordered deps (apis st1) \<longrightarrow> tk_ordered deps (apis st2)"
    using Cons.IH [of st1] Cons.prems p by (meson list.set_intros(2) prefix_order.trans)
  moreover have "x \<in> set (apis st2)" using 1(2) 2(3) prefix_set by (auto simp: tk_grown_def)
  ultimately show ?case using 1 tk_grown_trans by fastforce
qed simp

text \<open>
  A module that is not yet registered starts its dependencies, which end because the relation
  \<open>DEPENDS\<close> is well-founded, and then its imports, which end because it is registered by then.
\<close>

lemma toolkit_init_ran:
  assumes fin: "finite (UNIV :: 'm set)" and wf: "wf {(d, a). (d, True) \<in> set (deps a)}"
  shows "tk_ran deps (toolkit_init deps) (api :: 'm) st"
proof -
  let ?R = "inv_image (finite_psubset <*lex*> {(d, a). (d, True) \<in> set (deps a)}) (\<lambda>(a, st :: 'm toolkit). (UNIV - set (apis st), a))"
  have "wf ?R" using wf by (intro wf_inv_image wf_lex_prod) auto
  then have "tk_ran deps (toolkit_init deps) (fst p) (snd p)" for p :: "'m \<times> 'm toolkit"
  proof (induction p rule: wf_induct_rule)
    case (less p)
    obtain a st where p: "p = (a, st)" by (cases p)
    show ?case
    proof (cases "a \<in> set (apis st)")
      case True
      then show ?thesis using p by (subst tk_ran_def, subst toolkit_init.simps) (simp add: check_imported_set)
    next
      case False
      define st0 where "st0 = st\<lparr>did_init := (did_init st)(a := True)\<rparr>"
      have ih: "tk_ran deps (toolkit_init deps) d s" if "prefix (apis st) (apis s)"
        "set (apis s) \<noteq> set (apis st) \<or> (d, True) \<in> set (deps a)" for d and s :: "'m toolkit"
      proof -
        have "((d, s), p) \<in> ?R"
          using that fin prefix_set [OF that(1)] by (auto simp: p finite_psubset_def)
        then show ?thesis using less by fastforce
      qed
      have "\<exists>st1. init_each (toolkit_init deps) (map fst (filter snd (deps a))) st0 = Some st1 \<and>
          set (map fst (filter snd (deps a))) \<subseteq> set (apis st1) \<and> tk_grown deps (apis st0) (apis st1) \<and>
          (tk_ordered deps (apis st0) \<longrightarrow> tk_ordered deps (apis st1))"
        by (rule init_each_ran) (use ih in \<open>auto simp: st0_def\<close>)
      then obtain st1 where 1: "init_each (toolkit_init deps) (map fst (filter snd (deps a))) st0 = Some st1"
        "fst ` {d \<in> set (deps a). snd d} \<subseteq> set (apis st1)" "tk_grown deps (apis st) (apis st1)"
        "tk_ordered deps (apis st) \<longrightarrow> tk_ordered deps (apis st1)" by (auto simp: st0_def)
      define st2 where "st2 = (toolkit_import_register a st1)\<lparr>tk_events := tk_events (toolkit_import_register a st1) @ [Init_body a]\<rparr>"
      have a2: "apis st2 = (if a \<in> set (apis st1) then apis st1 else apis st1 @ [a])"
        by (simp add: st2_def toolkit_import_register_def check_imported_set)
      have p2: "prefix (apis st) (apis st2)" using 1(3) a2 by (auto simp: tk_grown_def prefix_def)
      have o2: "tk_ordered deps (apis st) \<longrightarrow> tk_ordered deps (apis st2)"
        using 1(2,4) by (auto simp: a2 image_subset_iff intro!: tk_ordered_snoc)
      have "\<exists>st3. init_each (toolkit_init deps) (map fst (filter (\<lambda>d. \<not> snd d) (deps a))) st2 = Some st3 \<and>
          set (map fst (filter (\<lambda>d. \<not> snd d) (deps a))) \<subseteq> set (apis st3) \<and> tk_grown deps (apis st2) (apis st3) \<and>
          (tk_ordered deps (apis st2) \<longrightarrow> tk_ordered deps (apis st3))"
      proof (rule init_each_ran)
        fix d :: 'm and s :: "'m toolkit" assume "d \<in> set (map fst (filter (\<lambda>d. \<not> snd d) (deps a)))" and s: "prefix (apis st2) (apis s)"
        have "a \<in> set (apis s)" using prefix_set [OF s] a2 by (auto split: if_splits)
        then show "tk_ran deps (toolkit_init deps) d s"
          using ih prefix_order.trans [OF p2 s] False by blast
      qed
      then obtain st3 where 3: "init_each (toolkit_init deps) (map fst (filter (\<lambda>d. \<not> snd d) (deps a))) st2 = Some st3"
        "fst ` {d \<in> set (deps a). \<not> snd d} \<subseteq> set (apis st3)" "tk_grown deps (apis st2) (apis st3)"
        "tk_ordered deps (apis st2) \<longrightarrow> tk_ordered deps (apis st3)" by auto
      have run: "toolkit_init deps a st = Some st3"
        using False 1(1) 3(1) by (subst toolkit_init.simps) (simp add: check_imported_set Let_def st0_def st2_def)
      have sub: "set (apis st1) \<subseteq> set (apis st2)" "set (apis st2) \<subseteq> set (apis st3)"
        using a2 prefix_set [of "apis st2" "apis st3"] 3(3) by (auto simp: tk_grown_def)
      have all: "fst d \<in> set (apis st3)" if "d \<in> set (deps a)" for d
      proof (cases "snd d")
        case True
        then have "fst d \<in> set (apis st1)" using that 1(2) by blast
        then show ?thesis using sub by blast
      qed (use that 3(2) in blast)
      have "tk_grown deps (apis st) (apis st3)"
        unfolding tk_grown_def
      proof (intro conjI impI ballI)
        show "prefix (apis st) (apis st3)" using prefix_order.trans [OF p2] 3(3) by (simp add: tk_grown_def)
        assume "distinct (apis st)"
        then have "distinct (apis st2)" using 1(3) by (simp add: a2 tk_grown_def)
        then show "distinct (apis st3)" using 3(3) by (simp add: tk_grown_def)
      next
        fix x d assume x: "x \<in> set (apis st3) - set (apis st)" "d \<in> set (deps x)"
        consider "x = a" | "x \<in> set (apis st1) - set (apis st)" | "x \<in> set (apis st3) - set (apis st2)"
          using x(1) a2 by (auto split: if_splits)
        then show "fst d \<in> set (apis st3)"
        proof cases
          case 2
          then have "fst d \<in> set (apis st1)" using 1(3) x(2) unfolding tk_grown_def by blast
          then show ?thesis using sub by blast
        next
          case 3
          then show ?thesis using \<open>tk_grown deps (apis st2) (apis st3)\<close> x(2) unfolding tk_grown_def by blast
        qed (use all x(2) in blast)
      qed
      moreover have "a \<in> set (apis st3)" using sub a2 by (auto split: if_splits)
      ultimately show ?thesis using run o2 3(4) p by (auto simp: tk_ran_def)
    qed
  qed
  from this [of "(api, st)"] show ?thesis by simp
qed


text \<open>The order of the deinitialisations.\<close>

lemma deinit_fold: "tk_events (fold toolkit_deinit_one xs st) = tk_events st @ map Deinit_body xs"
  by (induction xs arbitrary: st) (simp_all add: toolkit_deinit_one_def)

lemma deinit_did_init: "did_init (fold toolkit_deinit_one xs st) a = (did_init st a \<and> a \<notin> set xs)"
  by (induction xs arbitrary: st) (auto simp: toolkit_deinit_one_def)

text \<open>The states of the registry: any sequence of imports, and of deinitialisations of everything.\<close>

inductive toolkit_reach :: "'m toolkit_dependencies \<Rightarrow> 'm toolkit \<Rightarrow> bool" for deps where
  fresh_registry: "toolkit_reach deps toolkit_start"
| import_api: "toolkit_reach deps st \<Longrightarrow> toolkit_init deps api st = Some st' \<Longrightarrow> toolkit_reach deps st'"
| end_all: "toolkit_reach deps st \<Longrightarrow> toolkit_reach deps (toolkit_deinit st)"

definition tk_ok :: "'m toolkit_dependencies \<Rightarrow> 'm list \<Rightarrow> bool" where
  "tk_ok deps xs \<longleftrightarrow> distinct xs \<and> (\<forall>a \<in> set xs. \<forall>d \<in> set (deps a). fst d \<in> set xs) \<and> tk_ordered deps xs"

lemma tk_ok_grown:
  assumes "tk_ok deps xs" "tk_grown deps xs ys" "tk_ordered deps xs \<longrightarrow> tk_ordered deps ys"
  shows "tk_ok deps ys"
proof -
  have "fst d \<in> set ys" if "a \<in> set ys" "d \<in> set (deps a)" for a d
  proof (cases "a \<in> set xs")
    case True
    then have "fst d \<in> set xs" using assms(1) that(2) unfolding tk_ok_def by blast
    then show ?thesis using prefix_set assms(2) unfolding tk_grown_def by blast
  qed (use that assms(2) in \<open>unfold tk_grown_def, blast\<close>)
  then show ?thesis using assms unfolding tk_ok_def tk_grown_def by blast
qed

lemma toolkit_reach_ok:
  assumes "finite (UNIV :: 'm set)" "wf {(d, a). (d, True) \<in> set (deps a)}"
  shows "toolkit_reach deps (st :: 'm toolkit) \<Longrightarrow> tk_ok deps (apis st)"
proof (induction rule: toolkit_reach.induct)
  case (import_api st api st')
  then show ?case using toolkit_init_ran [OF assms, of api st] tk_ok_grown by (auto simp: tk_ran_def)
qed (simp_all add: tk_ok_def tk_ordered_def toolkit_start_def toolkit_deinit_def)

lemma tk_module_finite: "finite (UNIV :: tk_module set)"
  by (rule finite_subset [of _ "set [TK_binreloc, TK_clioptions, TK_colorspace, TK_console, TK_curl, TK_datetime, TK_logger,
      TK_math, TK_mempool, TK_packet, TK_password, TK_path, TK_process, TK_shstr, TK_signals, TK_socket,
      TK_string, TK_stringbuffer]"]) (auto intro: tk_module.exhaust)

lemma tk_ordered_rev:
  assumes "tk_ordered deps xs" "a \<in> set xs" "(d, True) \<in> set (deps a)"
  shows "\<exists>us vs ws. rev xs = us @ a # vs @ d # ws"
proof -
  obtain i where i: "i < length xs" "xs ! i = a" using assms(2) by (auto simp: in_set_conv_nth)
  then have "d \<in> set (take i xs)" using assms(1,3) by (auto simp: tk_ordered_def)
  then obtain vs ws where "take i xs = vs @ d # ws" by (meson split_list)
  then have "xs = vs @ d # ws @ a # drop (Suc i) xs" using i id_take_nth_drop [OF i(1)] by simp
  then have "rev xs = rev (drop (Suc i) xs) @ a # rev ws @ d # rev vs"
    by (metis append.assoc append_Cons append_Nil rev.simps(2) rev_append)
  then show ?thesis by blast
qed

text \<open>
  C25. Starting any module terminates in every state of the registry, that is after any modules
  have been started, and ended, before, provided that no module depends on itself through
  \<open>DEPENDS\<close>. Then the module is registered, the modules that were registered stay so in their
  places, everything that the registered modules need is registered too, none of them twice,
  and \<open>toolkit_deinit\<close> ends each registered module once and before those it depends on,
  whichever imports brought them in, and leaves the registry empty.
\<close>

theorem toolkit_init_ordered:
  fixes deps :: "tk_module toolkit_dependencies"
  assumes "wf {(d, a). (d, True) \<in> set (deps a)}" "toolkit_reach deps st0"
  shows "\<exists>st. toolkit_init deps api st0 = Some st \<and> api \<in> set (apis st) \<and> distinct (apis st) \<and> prefix (apis st0) (apis st) \<and>
    (\<forall>a \<in> set (apis st). \<forall>d \<in> set (deps a). fst d \<in> set (apis st)) \<and>
    (\<exists>order. tk_events (toolkit_deinit st) = tk_events st @ map Deinit_body order \<and> set order = set (apis st) \<and> distinct order \<and>
       (\<forall>a d. a \<in> set order \<and> (d, True) \<in> set (deps a) \<longrightarrow> (\<exists>xs ys zs. order = xs @ a # ys @ d # zs))) \<and>
    apis (toolkit_deinit st) = []"
proof -
  obtain st where st: "toolkit_init deps api st0 = Some st" "api \<in> set (apis st)" "tk_grown deps (apis st0) (apis st)"
    using toolkit_init_ran [OF tk_module_finite assms(1), of api st0] by (auto simp: tk_ran_def)
  have ok: "tk_ok deps (apis st)" by (rule toolkit_reach_ok [OF tk_module_finite assms(1) import_api [OF assms(2) st(1)]])
  then have "\<forall>a d. a \<in> set (rev (apis st)) \<and> (d, True) \<in> set (deps a) \<longrightarrow> (\<exists>xs ys zs. rev (apis st) = xs @ a # ys @ d # zs)"
    using tk_ordered_rev [of deps "apis st"] by (simp add: tk_ok_def)
  then show ?thesis
    using st ok by (intro exI [of _ st] conjI exI [of _ "rev (apis st)"])
      (auto simp: tk_ok_def tk_grown_def toolkit_deinit_def deinit_fold)
qed

lemma tk_dependencies_wf: "wf {(d, a). (d, True) \<in> set (tk_dependencies a)}"
proof -
  define rank :: "tk_module \<Rightarrow> nat" where
    "rank a = (case a of TK_logger \<Rightarrow> 1 | TK_math \<Rightarrow> 2 | TK_mempool \<Rightarrow> 3 | TK_packet \<Rightarrow> 4 | TK_path \<Rightarrow> 2 | TK_binreloc \<Rightarrow> 3
       | TK_clioptions \<Rightarrow> 2 | TK_curl \<Rightarrow> 3 | TK_console \<Rightarrow> 2 | TK_shstr \<Rightarrow> 2 | TK_socket \<Rightarrow> 1 | _ \<Rightarrow> 0)" for a
  have "{(d, a). (d, True) \<in> set (tk_dependencies a)} \<subseteq> measure rank"
  proof clarsimp
    fix d a assume "(d, True) \<in> set (tk_dependencies a)"
    then show "rank d < rank a" by (cases a) (auto simp: rank_def DEPENDS_def IMPORTS_def)
  qed
  then show ?thesis by (rule wf_subset [OF wf_measure])
qed

theorem toolkit_init_ordered_witness:
  "wf {(d, a). (d, True) \<in> set (tk_dependencies a)} \<and>
   (\<exists>st0 st. toolkit_init tk_dependencies TK_socket toolkit_start = Some st0 \<and> TK_socket \<in> set (apis st0) \<and>
      toolkit_init tk_dependencies TK_packet st0 = Some st \<and> TK_packet \<in> set (apis st) \<and> prefix (apis st0) (apis st) \<and> distinct (apis st))"
proof -
  obtain st0 where 0: "toolkit_init tk_dependencies TK_socket toolkit_start = Some st0" "TK_socket \<in> set (apis st0)"
    using toolkit_init_ordered [OF tk_dependencies_wf fresh_registry, of TK_socket] by blast
  obtain st where "toolkit_init tk_dependencies TK_packet st0 = Some st" "TK_packet \<in> set (apis st)"
    "prefix (apis st0) (apis st)" "distinct (apis st)"
    using toolkit_init_ordered [OF tk_dependencies_wf import_api [OF fresh_registry 0(1)], of TK_packet] by blast
  then show ?thesis using 0 tk_dependencies_wf by blast
qed

text \<open>
  Starting the packet module runs the initialisation of the mathematics module twice, and
  that of the logger: the string module, started for the logger, imports the mathematics
  module, which starts the logger and itself; when the calls return, neither the logger nor
  the mathematics module looks again whether it has been registered meanwhile. So the mutex
  of the random numbers is initialised twice without being destroyed.
\<close>

theorem toolkit_init_twice:
  "\<exists>st. toolkit_init tk_dependencies TK_packet toolkit_start = Some st \<and>
     filter (\<lambda>e. e = Init_body TK_math) (tk_events st) = [Init_body TK_math, Init_body TK_math] \<and>
     filter (\<lambda>e. e = Init_body TK_logger) (tk_events st) = [Init_body TK_logger, Init_body TK_logger]"
proof -
  have "map_option (\<lambda>st. (filter (\<lambda>e. e = Init_body TK_math) (tk_events st), filter (\<lambda>e. e = Init_body TK_logger) (tk_events st)))
      (toolkit_init tk_dependencies TK_packet toolkit_start) =
    Some ([Init_body TK_math, Init_body TK_math], [Init_body TK_logger, Init_body TK_logger])"
    by code_simp
  then show ?thesis by (auto simp: map_option_eq_Some)
qed

end
