(* ===== verification/Clioptions.thy ===== *)
theory Clioptions
  imports Path
begin

text \<open>
  The command line options of \<open>src/clioptions.c\<close>.

  The table of options is a list; an option is known by its position. Handlers given by other
  modules are functions on a state of their own, which they change, and return whether they
  succeed or the error message, if any; those of the \<open>config\<close> and \<open>help\<close> options are modelled
  themselves. The files of the system are an argument, the contents of every file that can be
  opened. A call of \<open>exit\<close> ends the program: it is the outcome \<open>Exit\<close>. Error messages that are
  only logged are left out.

  The value of an option is a pointer: null, a string, or one that has been freed. Using or
  freeing the last is undefined and has no value.

  Configuration files can load others; \<open>depth\<close> bounds how deeply. The value of
  \<open>clioptions_load\<close> is \<open>None\<close> where that is not enough. The code has no such bound: it calls
  itself for each file. \<open>Clioptions_Correct\<close> shows that a greater depth gives the same result, and
  \<open>Clioptions_Runtime\<close> which depth is enough.
\<close>

section \<open>Options\<close>

datatype 'w cli_handler = Config_handler | Help_handler | Handler "bytes option \<Rightarrow> 'w \<Rightarrow> (bytes option + unit) \<times> 'w"

datatype cli_value = Null_value | Str_value bytes | Freed_value

record 'w clioption =
  cli_name :: bytes
  cli_short_name :: "bytes option"
  cli_handler_func :: "'w cli_handler option"
  cli_argument :: bool
  cli_changeable :: bool
  cli_desc_brief :: "bytes option"
  cli_desc :: "bytes option"
  cli_val :: cli_value

record 'w cli_state =
  clioptions :: "'w clioption list"
  clioptions_runtime :: bool
  cli_world :: 'w

datatype 'a cli_outcome = Returns 'a | Exit nat

text \<open>Sequencing: \<open>exit\<close> and undefined behaviour end the computation.\<close>

fun and_then :: "'a cli_outcome option \<Rightarrow> ('a \<Rightarrow> 'b cli_outcome option) \<Rightarrow> 'b cli_outcome option" where
  "and_then None f = None"
| "and_then (Some (Exit n)) f = Some (Exit n)"
| "and_then (Some (Returns x)) f = f x"

definition cli_update :: "nat \<Rightarrow> ('w clioption \<Rightarrow> 'w clioption) \<Rightarrow> 'w cli_state \<Rightarrow> 'w cli_state" where
  "cli_update i f st = st\<lparr>clioptions := (clioptions st)[i := f (clioptions st ! i)]\<rparr>"

definition clioptions_create ::
  "bytes \<Rightarrow> 'w cli_handler option \<Rightarrow> 'w cli_state \<Rightarrow> (nat \<times> 'w cli_state) cli_outcome" where
  "clioptions_create name handler st =
     (if list_ex (\<lambda>cli. cli_name cli = name) (clioptions st) then Exit 1
      else Returns (length (clioptions st), st\<lparr>clioptions := clioptions st @ [\<lparr>cli_name = name, cli_short_name = None,
        cli_handler_func = handler, cli_argument = False, cli_changeable = False, cli_desc_brief = None, cli_desc = None,
        cli_val = Null_value\<rparr>]\<rparr>))"

definition clioptions_get :: "bytes \<Rightarrow> 'w cli_state \<Rightarrow> bytes option option" where
  "clioptions_get name st = (case find (\<lambda>cli. cli_name cli = name) (clioptions st) of
     None \<Rightarrow> Some None
   | Some cli \<Rightarrow> (case cli_val cli of Null_value \<Rightarrow> Some None | Str_value v \<Rightarrow> Some (Some v) | Freed_value \<Rightarrow> None))"

text \<open>The assertions of these are about the option; where they fail there is no value.\<close>

definition clioptions_set_short_name :: "nat \<Rightarrow> bytes \<Rightarrow> 'w cli_state \<Rightarrow> 'w cli_state option" where
  "clioptions_set_short_name i short st =
     (if cli_short_name (clioptions st ! i) \<noteq> None then None
      else Some (cli_update i (\<lambda>cli. cli\<lparr>cli_short_name := Some short\<rparr>) st))"

definition clioptions_set_description :: "nat \<Rightarrow> bytes \<Rightarrow> bytes \<Rightarrow> 'w cli_state \<Rightarrow> 'w cli_state option" where
  "clioptions_set_description i brief desc st =
     (if cli_desc_brief (clioptions st ! i) \<noteq> None \<or> cli_desc (clioptions st ! i) \<noteq> None then None
      else Some (cli_update i (\<lambda>cli. cli\<lparr>cli_desc_brief := Some brief, cli_desc := Some desc\<rparr>) st))"

definition clioptions_enable_argument :: "nat \<Rightarrow> 'w cli_state \<Rightarrow> 'w cli_state option" where
  "clioptions_enable_argument i st =
     (if cli_argument (clioptions st ! i) then None else Some (cli_update i (\<lambda>cli. cli\<lparr>cli_argument := True\<rparr>) st))"

definition clioptions_enable_changeable :: "nat \<Rightarrow> 'w cli_state \<Rightarrow> 'w cli_state option" where
  "clioptions_enable_changeable i st =
     (if cli_changeable (clioptions st ! i) then None else Some (cli_update i (\<lambda>cli. cli\<lparr>cli_changeable := True\<rparr>) st))"


section \<open>Parsing\<close>

text \<open>
  The option that an element of \<open>argv\<close> selects, the position of the last element used, and
  the argument, which nothing reads when there is no option. \<open>strncmp\<close> over \<open>end\<close> bytes of the name and the element is a test for a prefix.
\<close>

fun clioptions_find_loop ::
  "bytes list \<Rightarrow> nat \<Rightarrow> 'w clioption list \<Rightarrow> nat \<Rightarrow> (nat option \<times> nat \<times> bytes option) cli_outcome" where
  "clioptions_find_loop argv idx [] i = Returns (None, idx, None)"
| "clioptions_find_loop argv idx (cli # clis) i =
     (let arg = argv ! idx in
      if take 2 arg \<noteq> [45, 45]
      then (case cli_short_name cli of
          None \<Rightarrow> clioptions_find_loop argv idx clis (i + 1)
        | Some short \<Rightarrow>
            if short \<noteq> drop 1 arg then clioptions_find_loop argv idx clis (i + 1)
            else let (idx, cli_arg) = (if cli_argument cli \<and> idx + 1 < length argv then (idx + 1, Some (argv ! (idx + 1))) else (idx, None))
              in if cli_argument cli \<and> (cli_arg = None \<or> cli_arg = Some []) then Exit 1
                 else Returns (Some i, idx, cli_arg))
      else let
          arg = drop 2 arg;
          (stop, cli_arg) = (case c_strchr_from arg 0 61 of Some e \<Rightarrow> (e, Some (drop (e + 1) arg)) | None \<Rightarrow> (length arg, None))
        in if \<not> c_has_prefix (cli_name cli) (take stop arg)
           then clioptions_find_loop argv idx clis (i + 1)
           else if cli_argument cli \<and> (cli_arg = None \<or> cli_arg = Some []) then Exit 1
           else Returns (Some i, idx, cli_arg))"

definition clioptions_parse_find ::
  "bytes list \<Rightarrow> nat \<Rightarrow> 'w cli_state \<Rightarrow> (nat option \<times> nat \<times> bytes option) cli_outcome" where
  "clioptions_parse_find argv idx st = clioptions_find_loop argv idx (clioptions st) 0"

lemma find_loop_idx:
  "clioptions_find_loop argv idx clis i = Returns (k, idx', arg) \<Longrightarrow> idx \<le> idx'"
  by (induction argv idx clis i rule: clioptions_find_loop.induct)
    (auto simp: Let_def split: if_splits option.splits prod.splits)

text \<open>\<open>free(cli->value)\<close> and the assignment that may follow.\<close>

definition cli_set_value :: "nat \<Rightarrow> bytes option \<Rightarrow> 'w cli_state \<Rightarrow> 'w cli_state option" where
  "cli_set_value i v st = (case cli_val (clioptions st ! i) of
     Freed_value \<Rightarrow> None
   | old \<Rightarrow> Some (cli_update i (\<lambda>cli. cli\<lparr>cli_val := (case v of
       Some s \<Rightarrow> Str_value s
     | None \<Rightarrow> (case old of Null_value \<Rightarrow> Null_value | _ \<Rightarrow> Freed_value))\<rparr>) st))"

type_synonym 'w cli_load = "bytes \<Rightarrow> bytes option \<Rightarrow> 'w cli_state \<Rightarrow> (bool \<times> 'w cli_state) cli_outcome option"

text \<open>Running the handler of an option: the result says whether it succeeded.\<close>

definition cli_run_handler ::
  "'w cli_load \<Rightarrow> 'w cli_handler \<Rightarrow> bytes option \<Rightarrow> 'w cli_state \<Rightarrow> (bool \<times> 'w cli_state) cli_outcome option" where
  "cli_run_handler load h arg st = (case h of
     Config_handler \<Rightarrow> (case arg of None \<Rightarrow> None | Some path \<Rightarrow> load path None st)
   | Help_handler \<Rightarrow> Some (Exit 0)
   | Handler f \<Rightarrow> (case f arg (cli_world st) of
       (Inl _, w) \<Rightarrow> Some (Returns (False, st\<lparr>cli_world := w\<rparr>))
     | (Inr _, w) \<Rightarrow> Some (Returns (True, st\<lparr>cli_world := w\<rparr>))))"

definition clioptions_call_handler ::
  "fresh_memory \<Rightarrow> (bytes \<Rightarrow> bytes option) \<Rightarrow> 'w cli_load \<Rightarrow> nat \<Rightarrow> bytes option \<Rightarrow> 'w cli_state \<Rightarrow>
     (bool \<times> 'w cli_state) cli_outcome option" where
  "clioptions_call_handler fresh files load i cli_arg st =
     (let from_file = (cli_arg \<noteq> None \<and> the cli_arg \<noteq> [] \<and> the cli_arg ! 0 = 60) in
      case (if from_file then path_file_contents fresh (files (drop 1 (the cli_arg))) else Some None) of
        None \<Rightarrow> None
      | Some contents \<Rightarrow>
          if from_file \<and> contents = None then Some (Returns (False, st))
          else let cli_arg = (if from_file then contents else cli_arg) in
            case cli_handler_func (clioptions st ! i) of
              None \<Rightarrow> None
            | Some h \<Rightarrow> and_then (cli_run_handler load h cli_arg st) (\<lambda>(ok, st).
                if \<not> ok then Some (Returns (False, st))
                else map_option (\<lambda>st. Returns (True, st)) (cli_set_value i cli_arg st)))"

text \<open>The loop over \<open>argv\<close> from position \<open>i\<close>.\<close>

function clioptions_parse_loop ::
  "fresh_memory \<Rightarrow> (bytes \<Rightarrow> bytes option) \<Rightarrow> 'w cli_load \<Rightarrow> bytes list \<Rightarrow> nat \<Rightarrow> 'w cli_state \<Rightarrow> 'w cli_state cli_outcome option" where
  "clioptions_parse_loop fresh files load argv i st =
     (if \<not> i < length argv then Some (Returns st)
      else if argv ! i = [] then clioptions_parse_loop fresh files load argv (i + 1) st
      else case clioptions_parse_find argv i st of
          Exit n \<Rightarrow> Some (Exit n)
        | Returns (None, _, _) \<Rightarrow> Some (Exit 1)
        | Returns (Some k, i', cli_arg) \<Rightarrow>
            if cli_handler_func (clioptions st ! k) = None
            then clioptions_parse_loop fresh files load argv (i' + 1) st
            else case clioptions_call_handler fresh files load k cli_arg st of
                None \<Rightarrow> None
              | Some (Exit n) \<Rightarrow> Some (Exit n)
              | Some (Returns (_, st)) \<Rightarrow> clioptions_parse_loop fresh files load argv (i' + 1) st)"
  by pat_completeness auto
termination
  by (relation "measure (\<lambda>(fresh, files, load, argv, i, st). length argv - i)")
    (auto simp: clioptions_parse_find_def dest!: find_loop_idx)

declare clioptions_parse_loop.simps [simp del]

definition clioptions_parse ::
  "fresh_memory \<Rightarrow> (bytes \<Rightarrow> bytes option) \<Rightarrow> 'w cli_load \<Rightarrow> bytes list \<Rightarrow> 'w cli_state \<Rightarrow> 'w cli_state cli_outcome option" where
  "clioptions_parse fresh files load argv st =
     and_then (clioptions_parse_loop fresh files load argv 1 st) (\<lambda>st. Some (Returns (st\<lparr>clioptions_runtime := True\<rparr>)))"


section \<open>Configuration files\<close>

text \<open>One line; the buffer \<open>cp\<close> ends with its terminator.\<close>

definition clioptions_load_str ::
  "fresh_memory \<Rightarrow> (bytes \<Rightarrow> bytes option) \<Rightarrow> 'w cli_load \<Rightarrow> bytes \<Rightarrow> 'w cli_state \<Rightarrow> (bool \<times> 'w cli_state) cli_outcome option" where
  "clioptions_load_str fresh files load str st =
     (case string_split (Some (str @ [0])) 2 61 of
        None \<Rightarrow> None
      | Some (cps, cp) \<Rightarrow>
          if length cps \<noteq> 2 then Some (Returns (False, st))
          else let
              name = string_whitespace_trim (c_string (drop (cps ! 0) cp));
              val = string_newline_to_literal (string_whitespace_trim (c_string (drop (cps ! 1) cp)));
              buf = c_snprintf HUGE_BUF ([45, 45] @ name @ [61] @ val)
            in case clioptions_parse_find [[], buf] 1 st of
                Exit n \<Rightarrow> Some (Exit n)
              | Returns (None, _, _) \<Rightarrow> Some (Returns (False, st))
              | Returns (Some k, _, cli_arg) \<Rightarrow>
                  if cli_handler_func (clioptions st ! k) = None then Some (Returns (\<not> clioptions_runtime st, st))
                  else if clioptions_runtime st \<and> \<not> cli_changeable (clioptions st ! k) then Some (Returns (False, st))
                  else clioptions_call_handler fresh files load k cli_arg st)"

definition string_strip_newline :: "bytes \<Rightarrow> bytes" where
  "string_strip_newline s = takeWhile (\<lambda>b. b \<noteq> 10) s"

definition string_skip_whitespace :: "bytes \<Rightarrow> bytes" where
  "string_skip_whitespace s = dropWhile c_isspace s"

function clioptions_load_lines ::
  "fresh_memory \<Rightarrow> (bytes \<Rightarrow> bytes option) \<Rightarrow> 'w cli_load \<Rightarrow> bytes option \<Rightarrow> bytes \<Rightarrow> bytes \<Rightarrow> 'w cli_state \<Rightarrow>
     (bool \<times> 'w cli_state) cli_outcome option" where
  "clioptions_load_lines fresh files load category category_cur fp st =
     (if fp = [] then Some (Returns (True, st))
      else let
          (buf, fp') = c_fgets HUGE_BUF fp;
          cp = string_strip_newline (string_skip_whitespace (c_string buf))
        in if cp = [] \<or> cp ! 0 = 35
           then clioptions_load_lines fresh files load category category_cur fp' st
           else if string_startswith (Some cp) (Some [91]) \<and> string_endswith (Some cp) (Some [93])
           then clioptions_load_lines fresh files load category (c_snprintf HUGE_BUF cp) fp' st
           else if category = None \<or> map c_tolower (the category) = map c_tolower category_cur
           then (case clioptions_load_str fresh files load cp st of
               None \<Rightarrow> None
             | Some (Exit n) \<Rightarrow> Some (Exit n)
             | Some (Returns (_, st)) \<Rightarrow> clioptions_load_lines fresh files load category category_cur fp' st)
           else clioptions_load_lines fresh files load category category_cur fp' st)"
  by pat_completeness auto
termination
  by (relation "measure (\<lambda>(fresh, files, load, category, category_cur, fp, st). length fp)") (auto simp: c_fgets_def Let_def HUGE_BUF_def)

declare clioptions_load_lines.simps [simp del]

fun clioptions_load ::
  "fresh_memory \<Rightarrow> (bytes \<Rightarrow> bytes option) \<Rightarrow> nat \<Rightarrow> 'w cli_load" where
  "clioptions_load fresh files 0 path category st = None"
| "clioptions_load fresh files (Suc depth) path category st = (case files path of
     None \<Rightarrow> Some (Returns (False, st))
   | Some fp \<Rightarrow> clioptions_load_lines fresh files (clioptions_load fresh files depth) category [] fp st)"



section \<open>Start and end of the module\<close>

text \<open>
  The texts of the descriptions, only shown by the help, and the three handlers of the logger
  are arguments. The names are \<open>config\<close>, \<open>help\<close>, \<open>logfile\<close>, \<open>logger_filter_stdout\<close> and
  \<open>logger_filter_logfile\<close>, the short name is \<open>h\<close>.
\<close>

definition opt_config :: bytes where "opt_config = [99, 111, 110, 102, 105, 103]"
definition opt_help :: bytes where "opt_help = [104, 101, 108, 112]"
definition opt_logfile :: bytes where "opt_logfile = [108, 111, 103, 102, 105, 108, 101]"
definition opt_filter :: bytes where "opt_filter = [108, 111, 103, 103, 101, 114, 95, 102, 105, 108, 116, 101, 114, 95]"
definition opt_filter_stdout :: bytes where "opt_filter_stdout = opt_filter @ [115, 116, 100, 111, 117, 116]"
definition opt_filter_logfile :: bytes where "opt_filter_logfile = opt_filter @ opt_logfile"

definition CLIOPTIONS_CREATE ::
  "(bytes \<Rightarrow> bytes \<times> bytes) \<Rightarrow> bytes \<Rightarrow> 'w cli_handler \<Rightarrow> 'w cli_state \<Rightarrow> (nat \<times> 'w cli_state) cli_outcome option" where
  "CLIOPTIONS_CREATE texts name h st =
     and_then (Some (clioptions_create name (Some h) st)) (\<lambda>(cli, st).
       map_option (\<lambda>st. Returns (cli, st)) (clioptions_set_description cli (fst (texts name)) (snd (texts name)) st))"

definition CLIOPTIONS_CREATE_ARGUMENT ::
  "(bytes \<Rightarrow> bytes \<times> bytes) \<Rightarrow> bytes \<Rightarrow> 'w cli_handler \<Rightarrow> 'w cli_state \<Rightarrow> (nat \<times> 'w cli_state) cli_outcome option" where
  "CLIOPTIONS_CREATE_ARGUMENT texts name h st =
     and_then (CLIOPTIONS_CREATE texts name h st) (\<lambda>(cli, st).
       map_option (\<lambda>st. Returns (cli, st)) (clioptions_enable_argument cli st))"

definition cli_create_changeable ::
  "(bytes \<Rightarrow> bytes \<times> bytes) \<Rightarrow> bytes \<Rightarrow> 'w cli_handler \<Rightarrow> 'w cli_state \<Rightarrow> 'w cli_state cli_outcome option" where
  "cli_create_changeable texts name h st =
     and_then (CLIOPTIONS_CREATE_ARGUMENT texts name h st) (\<lambda>(cli, st). map_option Returns (clioptions_enable_changeable cli st))"

definition clioptions_init ::
  "(bytes \<Rightarrow> bytes \<times> bytes) \<Rightarrow> 'w cli_handler \<Rightarrow> 'w cli_handler \<Rightarrow> 'w cli_handler \<Rightarrow> 'w \<Rightarrow> 'w cli_state cli_outcome option" where
  "clioptions_init texts logfile filter_stdout filter_logfile w =
     and_then (cli_create_changeable texts opt_config Config_handler \<lparr>clioptions = [], clioptions_runtime = False, cli_world = w\<rparr>) (\<lambda>st.
     and_then (CLIOPTIONS_CREATE texts opt_help Help_handler st) (\<lambda>(cli, st).
     and_then (map_option Returns (clioptions_set_short_name cli [104] st)) (\<lambda>st.
     and_then (cli_create_changeable texts opt_logfile logfile st) (\<lambda>st.
     and_then (cli_create_changeable texts opt_filter_stdout filter_stdout st) (\<lambda>st.
     cli_create_changeable texts opt_filter_logfile filter_logfile st)))))"

text \<open>Freeing the values again is undefined where one has been freed already.\<close>

definition clioptions_deinit :: "'w cli_state \<Rightarrow> 'w cli_state option" where
  "clioptions_deinit st =
     (if list_ex (\<lambda>cli. cli_val cli = Freed_value) (clioptions st) then None else Some (st\<lparr>clioptions := []\<rparr>))"

end
