(* ===== verification/Strings_Split.thy ===== *)
theory Strings_Split
  imports Strings_Edit
begin

text \<open>
  What \<open>string_whitespace_trim\<close> and \<open>string_split\<close> do to a line with a name, a separator and a
  value, as the readers of configuration files and of HTTP headers use them.
\<close>

lemma trim_right_end:
  assumes "list_all c_isspace sp" "xs \<noteq> []" "\<not> c_isspace (last xs)" "k \<le> length sp"
  shows "string_trim_right (xs @ sp) (length xs + k) = length xs"
  using assms(4)
proof (induction k)
  case 0
  obtain m where m: "length xs = Suc m" using assms(2) by (cases xs) auto
  then have "(xs @ sp) ! m = last xs" using assms(2) by (simp add: nth_append last_conv_nth)
  then show ?case using assms(3) m by simp
next
  case (Suc k)
  have "c_isspace ((xs @ sp) ! (length xs + k))" using assms(1) Suc.prems by (simp add: list_all_length)
  then show ?case using Suc by simp
qed

lemma trim_left_start:
  assumes "list_all c_isspace sp" "core \<noteq> []" "\<not> c_isspace (hd core)" "j \<le> length sp"
  shows "string_trim_left (sp @ core @ post) (length sp - j) (j + length core) = (length sp, length core)"
  using assms(4)
proof (induction j)
  case 0
  then show ?case using assms(2,3) by (cases core) (auto simp: nth_append)
next
  case (Suc j)
  have "length sp - Suc j < length sp" using Suc.prems by simp
  then have "c_isspace ((sp @ core @ post) ! (length sp - Suc j))" using assms(1) by (simp add: nth_append list_all_length)
  then show ?case using Suc by (simp add: Suc_diff_Suc)
qed

lemma trim_core:
  assumes "list_all c_isspace sp1" "list_all c_isspace sp2" "core \<noteq> []" "\<not> c_isspace (hd core)" "\<not> c_isspace (last core)"
  shows "string_whitespace_trim (sp1 @ core @ sp2) = core"
proof -
  have "string_trim_right ((sp1 @ core) @ sp2) (length (sp1 @ core) + length sp2) = length (sp1 @ core)"
    by (rule trim_right_end) (use assms in auto)
  then show ?thesis
    using trim_left_start [OF assms(1,3,4), of "length sp1" sp2] by (simp add: string_whitespace_trim_def add.assoc)
qed

lemma trim_subset: "set (string_whitespace_trim s) \<subseteq> set s"
  by (auto simp: string_whitespace_trim_def Let_def split: prod.splits dest: in_set_takeD in_set_dropD)

lemma split_two:
  assumes "0 \<notin> set a" "0 \<notin> set b" "sep \<notin> set a" "sep \<noteq> 0"
  shows "string_split (Some ((a @ sep # b) @ [0])) 2 sep = Some ([0, length a + 1], a @ 0 # b @ [0])"
proof -
  have "0 \<notin> set (a @ sep # b)" using assms by auto
  then have "string_split_scan sep (a @ sep # b @ [0]) 0 = length (takeWhile (\<lambda>c. c \<noteq> sep) (a @ sep # b))"
    using split_scan_end [of "a @ sep # b" sep "[]" "[]"] by simp
  moreover have "takeWhile (\<lambda>c. c \<noteq> sep) (a @ sep # b) = a" using assms(3) by (simp add: takeWhile_append)
  ultimately have scan: "string_split_scan sep (a @ sep # b @ [0]) 0 = length a" by simp
  have "hd (a @ sep # b @ [0]) \<noteq> 0" using assms(1,4) by (cases a) auto
  then show ?thesis by (simp add: string_split_def numeral_2_eq_2 scan)
qed

end
