(* ===== verification/Clioptions_Correct.thy ===== *)
theory Clioptions_Correct
  imports Clioptions Path_Files Strings_Split
begin

text \<open>
  Which option a long name selects, that a line of a configuration file sets the value it
  names, what loading files keeps of the options, that the depth is only a bound, and how a
  value can be freed and still be in use.
\<close>

section \<open>Selecting an option\<close>

definition first_match :: "bytes \<Rightarrow> 'w clioption list \<Rightarrow> nat option" where
  "first_match name clis = find (\<lambda>i. prefix name (cli_name (clis ! i))) [0..<length clis]"

lemma first_match_Cons:
  "first_match name (c # cs) = (if prefix name (cli_name c) then Some 0 else map_option Suc (first_match name cs))"
proof -
  have "find P (map Suc xs) = map_option Suc (find (\<lambda>i. P (Suc i)) xs)" for P and xs :: "nat list"
    by (induction xs) auto
  moreover have "[0..<length (c # cs)] = 0 # map Suc [0..<length cs]" by (simp add: map_Suc_upt upt_conv_Cons del: upt_Suc)
  ultimately show ?thesis by (simp add: first_match_def)
qed

definition long_option :: "bytes \<Rightarrow> bytes option \<Rightarrow> bytes" where
  "long_option name v = [45, 45] @ name @ (case v of None \<Rightarrow> [] | Some v \<Rightarrow> 61 # v)"

lemma long_option_equals:
  assumes "61 \<notin> set name"
  shows "(case c_strchr_from (drop 2 (long_option name v)) 0 61 of
      Some e \<Rightarrow> (e, Some (drop (e + 1) (drop 2 (long_option name v)))) | None \<Rightarrow> (length (drop 2 (long_option name v)), None)) =
    (length name, v)"
proof (cases v)
  case None
  then show ?thesis using strchr_none [OF assms] by (simp add: long_option_def)
next
  case (Some w)
  then show ?thesis using strchr_start [OF assms, of w] by (simp add: long_option_def)
qed

lemma find_loop_long:
  assumes "argv ! idx = long_option name v" "61 \<notin> set name"
  shows "clioptions_find_loop argv idx clis i = (case first_match name clis of
      None \<Rightarrow> Returns (None, idx, None)
    | Some j \<Rightarrow> if cli_argument (clis ! j) \<and> (v = None \<or> v = Some []) then Exit 1 else Returns (Some (i + j), idx, v))"
proof (induction clis arbitrary: i)
  case Nil
  then show ?case by (simp add: first_match_def)
next
  case (Cons c cs)
  have "take 2 (long_option name v) = [45, 45]" "take (length name) (drop 2 (long_option name v)) = name"
    by (simp_all add: long_option_def)
  then have "clioptions_find_loop argv idx (c # cs) i =
      (if \<not> c_has_prefix (cli_name c) name then clioptions_find_loop argv idx cs (i + 1)
       else if cli_argument c \<and> (v = None \<or> v = Some []) then Exit 1 else Returns (Some i, idx, v))"
    using long_option_equals [OF assms(2), of v] assms(1) by (simp add: Let_def)
  then show ?case using Cons.IH [of "i + 1"] by (auto simp: first_match_Cons has_prefix_iff split: option.splits)
qed

text \<open>
  A long option selects the first option whose name begins with the text given, not the
  one with that name: an option whose name begins an earlier one's cannot be selected by its
  name, and two dashes alone select the first option of the table.
\<close>

theorem parse_find_first:
  assumes "argv ! idx = long_option name v" "61 \<notin> set name"
  shows "clioptions_parse_find argv idx st = (case first_match name (clioptions st) of
      None \<Rightarrow> Returns (None, idx, None)
    | Some j \<Rightarrow> if cli_argument (clioptions st ! j) \<and> (v = None \<or> v = Some []) then Exit 1 else Returns (Some j, idx, v))"
  unfolding clioptions_parse_find_def using find_loop_long [OF assms, of "clioptions st" 0] by (auto split: option.splits)


definition demo_option :: "bytes \<Rightarrow> unit clioption" where
  "demo_option name = \<lparr>cli_name = name, cli_short_name = None, cli_handler_func = Some (Handler (\<lambda>_ w. (Inr (), w))),
     cli_argument = False, cli_changeable = True, cli_desc_brief = None, cli_desc = None, cli_val = Null_value\<rparr>"

text \<open>The options \<open>ports\<close> and \<open>port\<close>: the text \<open>--port\<close> selects the first.\<close>

definition demo_cli :: "unit cli_state" where
  "demo_cli = \<lparr>clioptions = [demo_option [112, 111, 114, 116, 115], demo_option [112, 111, 114, 116]],
     clioptions_runtime = False, cli_world = ()\<rparr>"

theorem parse_find_first_witness:
  "clioptions_parse_find [[], long_option [112, 111, 114, 116] (Some [49])] 1 demo_cli = Returns (Some 0, 1, Some [49])"
  using parse_find_first [of "[[], long_option [112, 111, 114, 116] (Some [49])]" 1 "[112, 111, 114, 116]" "Some [49]" demo_cli]
  by (simp add: demo_cli_def demo_option_def first_match_def)


section \<open>Lines of configuration files\<close>

definition config_line :: "bytes \<Rightarrow> bytes \<Rightarrow> bytes \<Rightarrow> bytes \<Rightarrow> bytes \<Rightarrow> bytes \<Rightarrow> bytes" where
  "config_line s0 name s1 s2 v s3 = s0 @ name @ s1 @ [61] @ s2 @ v @ s3"

definition plain_text :: "bytes \<Rightarrow> bool" where
  "plain_text s \<longleftrightarrow> s \<noteq> [] \<and> 0 \<notin> set s \<and> \<not> c_isspace (hd s) \<and> \<not> c_isspace (last s)"

lemma unescape_head: "v \<noteq> [] \<Longrightarrow> unescape v \<noteq> [] \<and> (unescape v ! 0 = v ! 0 \<or> unescape v ! 0 = 10)"
  by (induction v rule: unescape.induct) auto

lemma spaces_clean: "list_all c_isspace s \<Longrightarrow> 0 \<notin> set s \<and> 61 \<notin> set s"
  by (auto simp: list_all_iff c_isspace_def)

lemma load_line:
  assumes name: "plain_text name" "61 \<notin> set name" and v: "plain_text v"
    and sp: "list_all c_isspace (s0 @ s1 @ s2 @ s3)" and size: "length name + length (unescape v) + 3 < HUGE_BUF"
  shows "clioptions_load_str fresh files load (config_line s0 name s1 s2 v s3) st =
    (case clioptions_parse_find [[], long_option name (Some (unescape v))] 1 st of
        Exit n \<Rightarrow> Some (Exit n)
      | Returns (None, _, _) \<Rightarrow> Some (Returns (False, st))
      | Returns (Some k, _, cli_arg) \<Rightarrow>
          if cli_handler_func (clioptions st ! k) = None then Some (Returns (\<not> clioptions_runtime st, st))
          else if clioptions_runtime st \<and> \<not> cli_changeable (clioptions st ! k) then Some (Returns (False, st))
          else clioptions_call_handler fresh files load k cli_arg st)"
proof -
  let ?a = "s0 @ name @ s1" and ?b = "s2 @ v @ s3"
  have z: "0 \<notin> set ?a" "0 \<notin> set ?b" "61 \<notin> set ?a"
    using spaces_clean sp name v by (auto simp: plain_text_def)
  have split: "string_split (Some (config_line s0 name s1 s2 v s3 @ [0])) 2 61 = Some ([0, length ?a + 1], ?a @ 0 # ?b @ [0])"
    using split_two [OF z] by (simp add: config_line_def)
  have "c_string (?a @ 0 # ?b @ [0]) = ?a" "c_string (?b @ [0]) = ?b"
    unfolding c_string_def using takeWhile_terminated [OF z(1)] takeWhile_terminated [OF z(2), of "[]"] by simp_all
  moreover have "string_whitespace_trim ?a = name" "string_whitespace_trim ?b = v"
    using sp name v by (auto intro!: trim_core simp: plain_text_def)
  ultimately have parts: "string_whitespace_trim (c_string (drop 0 (?a @ 0 # ?b @ [0]))) = name"
    "string_whitespace_trim (c_string (drop (length ?a + 1) (?a @ 0 # ?b @ [0]))) = v" by simp_all
  have "c_snprintf HUGE_BUF ([45, 45] @ name @ [61] @ unescape v) = long_option name (Some (unescape v))"
    using size by (simp add: c_snprintf_def long_option_def)
  then show ?thesis
    unfolding clioptions_load_str_def split option.case prod.case using parts
    by (simp add: newline_to_literal_spec Let_def del: append_assoc)
qed

text \<open>
  A line \<open>name = value\<close> of a configuration file, with white space around the parts, sets the
  value of the option that the name selects to the text, its newline sequences replaced, when
  the handler accepts it and the option may change; \<open>clioptions_get\<close> then returns that text,
  and no other option is touched.
\<close>

theorem config_line_sets_value:
  assumes name: "plain_text name" "61 \<notin> set name" and v: "plain_text v" "v ! 0 \<noteq> 60"
    and sp: "list_all c_isspace (s0 @ s1 @ s2 @ s3)" and size: "length name + length (unescape v) + 3 < HUGE_BUF"
    and opt: "first_match name (clioptions st) = Some k" "cli_name (clioptions st ! k) = name" "distinct (map cli_name (clioptions st))"
    and handler: "cli_handler_func (clioptions st ! k) = Some (Handler f)" "f (Some (unescape v)) (cli_world st) = (Inr (), w)"
    and changeable: "clioptions_runtime st \<longrightarrow> cli_changeable (clioptions st ! k)" and live: "cli_val (clioptions st ! k) \<noteq> Freed_value"
  shows "\<exists>st'. clioptions_load_str fresh files load (config_line s0 name s1 s2 v s3) st = Some (Returns (True, st')) \<and>
    clioptions_get name st' = Some (Some (unescape v)) \<and> cli_world st' = w \<and>
    (\<forall>i < length (clioptions st). i \<noteq> k \<longrightarrow> clioptions st' ! i = clioptions st ! i)"
proof -
  have k: "k < length (clioptions st)" using opt(1) by (auto simp: first_match_def find_Some_iff)
  have u: "unescape v \<noteq> []" "unescape v ! 0 \<noteq> 60" using unescape_head [of v] v by (auto simp: plain_text_def)
  define st' where "st' = cli_update k (\<lambda>cli. cli\<lparr>cli_val := Str_value (unescape v)\<rparr>) (st\<lparr>cli_world := w\<rparr>)"
  have "clioptions_parse_find [[], long_option name (Some (unescape v))] 1 st = Returns (Some k, 1, Some (unescape v))"
    using find_loop_long [of "[[], long_option name (Some (unescape v))]" 1 name "Some (unescape v)" "clioptions st" 0] name(2) opt(1) u(1)
    by (simp add: clioptions_parse_find_def)
  moreover have "clioptions_call_handler fresh files load k (Some (unescape v)) st = Some (Returns (True, st'))"
    using handler live u by (auto simp: clioptions_call_handler_def cli_run_handler_def cli_set_value_def st'_def Let_def split: cli_value.splits)
  ultimately have run: "clioptions_load_str fresh files load (config_line s0 name s1 s2 v s3) st = Some (Returns (True, st'))"
    using load_line [OF name v(1) sp size, of fresh files load st] handler(1) changeable by simp
  have "find (\<lambda>cli. cli_name cli = name) (clioptions st') = Some (clioptions st' ! k)"
    unfolding find_Some_iff
    using k opt(2,3) by (intro exI [of _ k]) (auto simp: st'_def cli_update_def nth_list_update distinct_conv_nth)
  then have "clioptions_get name st' = Some (Some (unescape v))"
    using k by (simp add: clioptions_get_def st'_def cli_update_def)
  then show ?thesis using run by (auto simp: st'_def cli_update_def)
qed


theorem config_line_sets_value_witness:
  "\<exists>st'. clioptions_load_str (\<lambda>_. 0) (\<lambda>_. None) (\<lambda>_ _ _. None)
      (config_line [] [112, 111, 114, 116, 115] [32] [32] [49, 51] []) demo_cli = Some (Returns (True, st')) \<and>
    clioptions_get [112, 111, 114, 116, 115] st' = Some (Some [49, 51])"
  using config_line_sets_value [of "[112, 111, 114, 116, 115]" "[49, 51]" "[]" "[32]" "[32]" "[]" demo_cli 0 "\<lambda>_ w. (Inr (), w)" "()"
      "\<lambda>_. 0" "\<lambda>_. None" "\<lambda>_ _ _. None"]
  by (auto simp: plain_text_def demo_cli_def demo_option_def first_match_def c_isspace_def HUGE_BUF_def)


section \<open>Changes at run time\<close>

definition cli_kept :: "'w cli_state \<Rightarrow> 'w cli_state \<Rightarrow> bool" where
  "cli_kept st st' \<longleftrightarrow> clioptions_runtime st' = clioptions_runtime st \<and> length (clioptions st') = length (clioptions st) \<and>
     (\<forall>i < length (clioptions st). cli_changeable (clioptions st' ! i) = cli_changeable (clioptions st ! i) \<and>
        (\<not> cli_changeable (clioptions st ! i) \<longrightarrow> clioptions st' ! i = clioptions st ! i))"

lemma cli_kept_refl [simp]: "cli_kept st st"
  by (simp add: cli_kept_def)

lemma cli_kept_trans: "cli_kept st st' \<Longrightarrow> cli_kept st' st'' \<Longrightarrow> cli_kept st st''"
  by (simp add: cli_kept_def)

lemma cli_kept_world: "cli_kept st (st\<lparr>cli_world := w\<rparr>)"
  by (simp add: cli_kept_def)

lemma cli_kept_update:
  "cli_changeable (clioptions st ! k) \<Longrightarrow> (\<And>cli. cli_changeable (f cli) = cli_changeable cli) \<Longrightarrow> cli_kept st (cli_update k f st)"
  unfolding cli_kept_def cli_update_def
proof (intro conjI allI impI)
  fix i assume "cli_changeable (clioptions st ! k)" "\<And>cli. cli_changeable (f cli) = cli_changeable cli"
  then show "cli_changeable (clioptions (st\<lparr>clioptions := (clioptions st)[k := f (clioptions st ! k)]\<rparr>) ! i) = cli_changeable (clioptions st ! i)"
    by (cases "i = k"; cases "k < length (clioptions st)") (simp_all add: list_update_beyond)
next
  fix i assume "cli_changeable (clioptions st ! k)" "\<not> cli_changeable (clioptions st ! i)"
  then have "i \<noteq> k" by auto
  then show "clioptions (st\<lparr>clioptions := (clioptions st)[k := f (clioptions st ! k)]\<rparr>) ! i = clioptions st ! i" by simp
qed simp_all

lemma set_value_kept:
  "cli_changeable (clioptions st ! k) \<Longrightarrow> cli_set_value k v st = Some st' \<Longrightarrow> cli_kept st st'"
  by (auto simp: cli_set_value_def split: cli_value.splits intro!: cli_kept_update)

definition load_keeps :: "'w cli_load \<Rightarrow> bool" where
  "load_keeps load \<longleftrightarrow> (\<forall>path category st ok st'. clioptions_runtime st \<longrightarrow>
     load path category st = Some (Returns (ok, st')) \<longrightarrow> cli_kept st st')"

lemma run_handler_kept:
  assumes "load_keeps load" "clioptions_runtime st" "cli_run_handler load h arg st = Some (Returns (ok, st'))"
  shows "cli_kept st st'"
proof (cases h)
  case Config_handler
  then obtain path where "load path None st = Some (Returns (ok, st'))" using assms(3) by (auto simp: cli_run_handler_def split: option.splits)
  then show ?thesis using assms(1,2) unfolding load_keeps_def by blast
next
  case (Handler f)
  obtain r w where "f arg (cli_world st) = (r, w)" by (cases "f arg (cli_world st)")
  then have "st' = st\<lparr>cli_world := w\<rparr>" using assms(3) Handler by (cases r) (auto simp: cli_run_handler_def)
  then show ?thesis by (simp add: cli_kept_world)
qed (use assms(3) in \<open>simp add: cli_run_handler_def\<close>)

lemma and_then_Returns:
  "and_then m f = Some (Returns y) \<longleftrightarrow> (\<exists>x. m = Some (Returns x) \<and> f x = Some (Returns y))"
proof (cases m)
  case (Some x)
  then show ?thesis by (cases x) auto
qed simp

lemma call_handler_kept:
  assumes load: "load_keeps load" and st: "clioptions_runtime st" "k < length (clioptions st)" "cli_changeable (clioptions st ! k)"
    and call: "clioptions_call_handler fresh files load k arg st = Some (Returns (ok, st'))"
  shows "cli_kept st st'"
proof -
  have "st' = st \<or> (\<exists>h arg' ok1 st1. cli_run_handler load h arg' st = Some (Returns (ok1, st1)) \<and>
      (st' = st1 \<or> cli_set_value k arg' st1 = Some st'))"
    using call by (auto simp: clioptions_call_handler_def Let_def and_then_Returns split: option.splits if_splits)
  then show ?thesis
  proof
    assume "\<exists>h arg' ok1 st1. cli_run_handler load h arg' st = Some (Returns (ok1, st1)) \<and> (st' = st1 \<or> cli_set_value k arg' st1 = Some st')"
    then obtain h arg' ok1 st1 where h: "cli_run_handler load h arg' st = Some (Returns (ok1, st1))"
      "st' = st1 \<or> cli_set_value k arg' st1 = Some st'" by blast
    have kept: "cli_kept st st1" by (rule run_handler_kept [OF load st(1) h(1)])
    then have "cli_changeable (clioptions st1 ! k)" using st(2,3) by (simp add: cli_kept_def)
    then show ?thesis using kept h(2) set_value_kept cli_kept_trans by blast
  qed simp
qed

lemma find_loop_range:
  "clioptions_find_loop argv idx clis i = Returns (Some k, idx', arg) \<Longrightarrow> i \<le> k \<and> k < i + length clis"
  by (induction argv idx clis i rule: clioptions_find_loop.induct)
    (fastforce simp: Let_def split: if_splits option.splits prod.splits)+

lemma load_str_kept:
  assumes load: "load_keeps load" and st: "clioptions_runtime st"
    and call: "clioptions_load_str fresh files load str st = Some (Returns (ok, st'))"
  shows "cli_kept st st'"
proof -
  have "st' = st \<or> (\<exists>argv idx k idx' arg. clioptions_parse_find argv idx st = Returns (Some k, idx', arg) \<and>
      cli_changeable (clioptions st ! k) \<and> clioptions_call_handler fresh files load k arg st = Some (Returns (ok, st')))"
    using call st by (auto simp: clioptions_load_str_def Let_def split: option.splits if_splits cli_outcome.splits prod.splits)
  then show ?thesis
    using find_loop_range [of _ _ "clioptions st" 0] call_handler_kept [OF load st, of _ fresh files _ ok st']
    by (fastforce simp: clioptions_parse_find_def)
qed

lemma load_lines_next:
  assumes "clioptions_load_lines fresh files load category category_cur fp st = Some (Returns r)" "fp \<noteq> []"
  obtains cur fp' st1 where "length fp' < length fp"
    "st1 = st \<or> (\<exists>str ok. clioptions_load_str fresh files load str st = Some (Returns (ok, st1)))"
    "clioptions_load_lines fresh files load category cur fp' st1 = Some (Returns r)"
proof -
  obtain buf fp' where f: "c_fgets HUGE_BUF fp = (buf, fp')" by (cases "c_fgets HUGE_BUF fp")
  have "length fp' < length fp" using fgets_progress [OF f _ assms(2)] by (simp add: HUGE_BUF_def)
  moreover have "\<exists>cur st1. (st1 = st \<or> (\<exists>str ok. clioptions_load_str fresh files load str st = Some (Returns (ok, st1)))) \<and>
      clioptions_load_lines fresh files load category cur fp' st1 = Some (Returns r)"
    using assms by (subst (asm) clioptions_load_lines.simps)
      (auto simp: f Let_def split: if_splits option.splits cli_outcome.splits prod.splits)
  ultimately show ?thesis using that by blast
qed

lemma load_lines_kept:
  assumes load: "load_keeps load"
  shows "clioptions_runtime st \<Longrightarrow>
    clioptions_load_lines fresh files load category category_cur fp st = Some (Returns (ok, st')) \<Longrightarrow> cli_kept st st'"
proof (induction "length fp" arbitrary: category_cur fp st rule: less_induct)
  case less
  show ?case
  proof (cases "fp = []")
    case True
    then show ?thesis using less.prems(2) by (subst (asm) clioptions_load_lines.simps) simp
  next
    case False
    obtain cur fp' st1 where n: "length fp' < length fp"
      "st1 = st \<or> (\<exists>str ok. clioptions_load_str fresh files load str st = Some (Returns (ok, st1)))"
      "clioptions_load_lines fresh files load category cur fp' st1 = Some (Returns (ok, st'))"
      by (rule load_lines_next [OF less.prems(2) False])
    have kept: "cli_kept st st1" using n(2) load_str_kept [OF load less.prems(1)] by auto
    then have "clioptions_runtime st1" using less.prems(1) by (simp add: cli_kept_def)
    then show ?thesis using less.hyps [OF n(1) _ n(3)] kept cli_kept_trans by blast
  qed
qed

lemma load_kept: "load_keeps (clioptions_load fresh files depth)"
proof (induction depth)
  case 0
  then show ?case by (simp add: load_keeps_def)
next
  case (Suc depth)
  then show ?case using load_lines_kept [OF Suc] by (auto simp: load_keeps_def split: option.splits)
qed


section \<open>Depth\<close>

text \<open>A greater depth gives the same result, so that any depth that is enough will do.\<close>

definition load_le :: "'w cli_load \<Rightarrow> 'w cli_load \<Rightarrow> bool" where
  "load_le l l' \<longleftrightarrow> (\<forall>path category st r. l path category st = Some r \<longrightarrow> l' path category st = Some r)"

lemma run_handler_le: "load_le l l' \<Longrightarrow> cli_run_handler l h arg st = Some r \<Longrightarrow> cli_run_handler l' h arg st = Some r"
  by (cases h) (auto simp: cli_run_handler_def load_le_def split: option.splits)

lemma and_then_Some:
  "and_then m f = Some r \<longleftrightarrow> (\<exists>n. m = Some (Exit n) \<and> r = Exit n) \<or> (\<exists>x. m = Some (Returns x) \<and> f x = Some r)"
proof (cases m)
  case (Some x)
  then show ?thesis by (cases x) auto
qed simp

lemma call_handler_le:
  assumes "load_le l l'" "clioptions_call_handler fresh files l k arg st = Some r"
  shows "clioptions_call_handler fresh files l' k arg st = Some r"
  using assms run_handler_le [OF assms(1)]
  by (auto simp: clioptions_call_handler_def Let_def and_then_Some split: option.splits if_splits)

lemma load_str_le:
  assumes "load_le l l'" "clioptions_load_str fresh files l str st = Some r"
  shows "clioptions_load_str fresh files l' str st = Some r"
  using assms call_handler_le [OF assms(1)]
  by (auto simp: clioptions_load_str_def Let_def split: option.splits if_splits cli_outcome.splits prod.splits)

text \<open>One round of the loop over the lines of a file.\<close>

lemma load_lines_step:
  assumes f: "c_fgets HUGE_BUF fp = (buf, fp')" "fp \<noteq> []" and cp: "cp = string_strip_newline (string_skip_whitespace (c_string buf))"
  shows "clioptions_load_lines fresh files l category cur fp st =
    (if cp = [] \<or> cp ! 0 = 35 then clioptions_load_lines fresh files l category cur fp' st
     else if string_startswith (Some cp) (Some [91]) \<and> string_endswith (Some cp) (Some [93])
     then clioptions_load_lines fresh files l category (c_snprintf HUGE_BUF cp) fp' st
     else if category = None \<or> map c_tolower (the category) = map c_tolower cur
     then and_then (clioptions_load_str fresh files l cp st) (\<lambda>(_, st). clioptions_load_lines fresh files l category cur fp' st)
     else clioptions_load_lines fresh files l category cur fp' st)"
  using f(2) by (subst clioptions_load_lines.simps) (auto simp: f(1) Let_def cp split: option.splits cli_outcome.splits)

lemma load_lines_le:
  assumes le: "load_le l l'"
  shows "clioptions_load_lines fresh files l category cur fp st = Some r \<Longrightarrow>
    clioptions_load_lines fresh files l' category cur fp st = Some r"
proof (induction "length fp" arbitrary: cur fp st rule: less_induct)
  case less
  show ?case
  proof (cases "fp = []")
    case True
    then show ?thesis using less.prems by (simp add: clioptions_load_lines.simps [of _ _ _ _ _ "[]"])
  next
    case False
    obtain buf fp' where f: "c_fgets HUGE_BUF fp = (buf, fp')" by (cases "c_fgets HUGE_BUF fp")
    have len: "length fp' < length fp" using fgets_progress [OF f _ False] by (simp add: HUGE_BUF_def)
    show ?thesis
      using less.prems load_str_le [OF le] less.hyps [OF len] unfolding load_lines_step [OF f False refl]
      by (auto simp: and_then_Some split: if_splits prod.splits)
  qed
qed

lemma load_depth_le: "load_le (clioptions_load fresh files depth) (clioptions_load fresh files (depth + k))"
proof (induction depth)
  case 0
  then show ?case by (simp add: load_le_def)
next
  case (Suc depth)
  then show ?case using load_lines_le [OF Suc] unfolding load_le_def by (auto split: option.splits)
qed

lemma clioptions_load_depth:
  "clioptions_load fresh files depth path category st = Some r \<Longrightarrow> depth \<le> depth' \<Longrightarrow>
     clioptions_load fresh files depth' path category st = Some r"
  by (metis load_depth_le load_le_def le_add_diff_inverse)


section \<open>Freed values\<close>

text \<open>
  When an option that takes no argument is given one and then appears again without it,
  its value is freed and the pointer kept: reading the value is undefined afterwards, and so
  is the end of the module, which frees it again.
\<close>

theorem flag_value_freed:
  assumes k: "k < length (clioptions st)" "distinct (map cli_name (clioptions st))"
    and handler: "cli_handler_func (clioptions st ! k) = Some (Handler f)" "f None (cli_world st) = (Inr (), w)"
    and val: "cli_val (clioptions st ! k) = Str_value s"
  shows "\<exists>st'. clioptions_call_handler fresh files load k None st = Some (Returns (True, st')) \<and>
    clioptions_get (cli_name (clioptions st ! k)) st' = None \<and> clioptions_deinit st' = None"
proof -
  define st' where "st' = cli_update k (\<lambda>cli. cli\<lparr>cli_val := Freed_value\<rparr>) (st\<lparr>cli_world := w\<rparr>)"
  have "clioptions_call_handler fresh files load k None st = Some (Returns (True, st'))"
    using handler val by (simp add: clioptions_call_handler_def cli_run_handler_def cli_set_value_def st'_def Let_def)
  moreover have "find (\<lambda>cli. cli_name cli = cli_name (clioptions st ! k)) (clioptions st') = Some (clioptions st' ! k)"
    unfolding find_Some_iff
    using k by (intro exI [of _ k]) (auto simp: st'_def cli_update_def nth_list_update distinct_conv_nth)
  moreover have "clioptions st' ! k \<in> set (clioptions st')" "cli_val (clioptions st' ! k) = Freed_value"
    using k(1) by (simp_all add: st'_def cli_update_def set_update_memI)
  ultimately show ?thesis by (auto simp: clioptions_get_def clioptions_deinit_def list_ex_iff)
qed

theorem flag_value_freed_witness:
  "\<exists>st1 st2. clioptions_call_handler (\<lambda>_. 0) (\<lambda>_. None) (\<lambda>_ _ _. None) 0 (Some [49]) demo_cli = Some (Returns (True, st1)) \<and>
     clioptions_call_handler (\<lambda>_. 0) (\<lambda>_. None) (\<lambda>_ _ _. None) 0 None st1 = Some (Returns (True, st2)) \<and> clioptions_deinit st2 = None"
proof -
  define st1 where "st1 = cli_update 0 (\<lambda>cli. cli\<lparr>cli_val := Str_value [49]\<rparr>) demo_cli"
  have "clioptions_call_handler (\<lambda>_. 0) (\<lambda>_. None) (\<lambda>_ _ _. None) 0 (Some [49]) demo_cli = Some (Returns (True, st1))"
    by (simp add: clioptions_call_handler_def cli_run_handler_def cli_set_value_def st1_def Let_def demo_cli_def demo_option_def cli_update_def)
  then show ?thesis
    using flag_value_freed [of 0 st1 "\<lambda>_ w. (Inr (), w)" "()" "[49]" "\<lambda>_. 0" "\<lambda>_. None" "\<lambda>_ _ _. None"]
    by (auto simp: st1_def cli_update_def demo_cli_def demo_option_def)
qed

end
