(* ===== verification/Clioptions_Runtime.thy ===== *)
theory Clioptions_Runtime
  imports Clioptions_Correct
begin

text \<open>
  Configuration files loaded after start-up: that loading them ends when they do not load each
  other in a circle, that the options which cannot change at run time do not, and that their
  handlers are not called.
\<close>

section \<open>What a line selects\<close>

text \<open>The name and the argument of a line, cut to the buffer as \<open>clioptions_load_str\<close> does.\<close>

definition line_name :: "bytes \<Rightarrow> bytes" where
  "line_name str = string_whitespace_trim (takeWhile (\<lambda>c. c \<noteq> 61) str)"

definition line_value :: "bytes \<Rightarrow> bytes" where
  "line_value str = take (HUGE_BUF - 4 - length (line_name str))
     (string_newline_to_literal (string_whitespace_trim (drop (length (takeWhile (\<lambda>c. c \<noteq> 61) str) + 1) str)))"

lemma takeWhile_none: "c \<notin> set a \<Longrightarrow> takeWhile (\<lambda>x. x \<noteq> c) a = a"
  by (induction a) auto

lemma takeWhile_stop: "c \<notin> set a \<Longrightarrow> takeWhile (\<lambda>x. x \<noteq> c) (a @ c # b) = a"
  by (induction a) auto

lemma split_one:
  assumes "0 \<notin> set a" "61 \<notin> set a" "a \<noteq> []"
  shows "string_split (Some (a @ [0])) 2 61 = Some ([0], a @ [0])"
proof -
  have "string_split_scan 61 (a @ [0]) 0 = length a"
    using split_scan_end [of a 61 "[]" "[]"] assms(1) by (simp add: takeWhile_none [OF assms(2)])
  moreover have "hd (a @ [0]) \<noteq> 0" using assms by (cases a) auto
  moreover have "(0 :: u8) \<noteq> 61" by simp
  moreover have "string_split (Some (a @ [0])) 2 61 = string_split_loop (Suc (Suc 0)) 61 (a @ [0]) 0"
    using \<open>hd (a @ [0]) \<noteq> 0\<close> by (simp only: string_split_def option.case numeral_2_eq_2) simp
  ultimately show ?thesis by (simp only: string_split_loop.simps(2) Let_def) simp
qed

text \<open>How the options are found does not depend on their values.\<close>

definition short_names :: "'w clioption list \<Rightarrow> bool" where
  "short_names clis \<longleftrightarrow> list_all (\<lambda>cli. length (cli_name cli) + 3 < HUGE_BUF) clis"

lemma first_match_long: "short_names clis \<Longrightarrow> HUGE_BUF \<le> length name + 3 \<Longrightarrow> first_match name clis = None"
  by (fastforce simp: first_match_def find_None_iff short_names_def list_all_length dest: prefix_length_le)

lemma load_str_selects:
  assumes str: "0 \<notin> set str" "str \<noteq> []" and names: "short_names (clioptions st)"
  shows "clioptions_load_str fresh files load str st =
    (if 61 \<notin> set str then Some (Returns (False, st))
     else case first_match (line_name str) (clioptions st) of
       None \<Rightarrow> Some (Returns (False, st))
     | Some k \<Rightarrow> if cli_argument (clioptions st ! k) \<and> line_value str = [] then Some (Exit 1)
         else if cli_handler_func (clioptions st ! k) = None then Some (Returns (\<not> clioptions_runtime st, st))
         else if clioptions_runtime st \<and> \<not> cli_changeable (clioptions st ! k) then Some (Returns (False, st))
         else clioptions_call_handler fresh files load k (Some (line_value str)) st)"
proof (cases "61 \<in> set str")
  case False
  then show ?thesis using split_one [OF str(1) _ str(2)] by (simp add: clioptions_load_str_def)
next
  case True
  then obtain a b where ab: "str = a @ 61 # b" "61 \<notin> set a" by (meson split_list_first)
  have z: "0 \<notin> set a" "0 \<notin> set b" using str(1) ab(1) by auto
  have tw: "takeWhile (\<lambda>c. c \<noteq> 61) str = a" using ab by (simp add: takeWhile_stop)
  have split: "string_split (Some (str @ [0])) 2 61 = Some ([0, length a + 1], a @ 0 # b @ [0])"
    using split_two [OF z ab(2)] ab(1) by simp
  have parts: "string_whitespace_trim (c_string (drop 0 (a @ 0 # b @ [0]))) = line_name str"
    "c_string (drop (length a + 1) (a @ 0 # b @ [0])) = drop (length a + 1) str"
    using takeWhile_terminated [OF z(1)] takeWhile_terminated [OF z(2), of "[]"] ab(1) takeWhile_stop [OF ab(2), of b]
    by (simp_all add: line_name_def c_string_def)
  let ?v = "string_newline_to_literal (string_whitespace_trim (drop (length a + 1) str))"
  let ?buf = "c_snprintf HUGE_BUF ([45, 45] @ line_name str @ [61] @ ?v)"
  have no61: "61 \<notin> set (line_name str)" using trim_subset [of a] ab(2) by (auto simp: line_name_def tw)
  have "clioptions_parse_find [[], ?buf] 1 st = (case first_match (line_name str) (clioptions st) of
      None \<Rightarrow> Returns (None, 1, None)
    | Some k \<Rightarrow> if cli_argument (clioptions st ! k) \<and> line_value str = [] then Exit 1 else Returns (Some k, 1, Some (line_value str)))"
  proof (cases "length (line_name str) + 3 < HUGE_BUF")
    case True
    then have "?buf = long_option (line_name str) (Some (line_value str))"
      by (simp add: c_snprintf_def long_option_def line_value_def tw take_Cons' diff_diff_left) (auto simp: HUGE_BUF_def)
    then show ?thesis using find_loop_long [of "[[], ?buf]" 1 "line_name str" "Some (line_value str)" "clioptions st" 0] no61
      by (simp add: clioptions_parse_find_def split: option.splits)
  next
    case False
    let ?cut = "take (HUGE_BUF - 3) (line_name str)"
    have "?buf = long_option ?cut None" using False by (simp add: c_snprintf_def long_option_def take_Cons') (auto simp: HUGE_BUF_def)
    moreover have "61 \<notin> set ?cut" using no61 by (auto dest: in_set_takeD)
    moreover have "first_match ?cut (clioptions st) = None" "first_match (line_name str) (clioptions st) = None"
      using False first_match_long [OF names] by (auto simp: HUGE_BUF_def)
    ultimately show ?thesis using find_loop_long [of "[[], ?buf]" 1 ?cut None "clioptions st" 0] by (simp add: clioptions_parse_find_def)
  qed
  then show ?thesis
    unfolding clioptions_load_str_def split option.case prod.case using parts True
    by (simp add: Let_def split: option.splits)
qed


section \<open>Loading ends\<close>

text \<open>The lines of a file, as the loop sees them.\<close>

function config_lines :: "bytes \<Rightarrow> bytes list" where
  "config_lines fp = (if fp = [] then [] else let (buf, fp') = c_fgets HUGE_BUF fp in
     string_strip_newline (string_skip_whitespace (c_string buf)) # config_lines fp')"
  by pat_completeness auto
termination
  by (relation "measure length") (auto simp: c_fgets_def Let_def HUGE_BUF_def)

declare config_lines.simps [simp del]

text \<open>Whether a line selects an option that loads a file, and the file; the value may name a file that holds the name.\<close>

definition config_option :: "'w clioption \<Rightarrow> bool" where
  "config_option cli = (case cli_handler_func cli of Some Config_handler \<Rightarrow> True | _ \<Rightarrow> False)"

lemma config_option_iff [simp]: "config_option cli \<longleftrightarrow> cli_handler_func cli = Some Config_handler"
  by (auto simp: config_option_def split: option.splits cli_handler.splits)

definition loads_file :: "'w clioption list \<Rightarrow> bytes \<Rightarrow> bool" where
  "loads_file clis str \<longleftrightarrow> str \<noteq> [] \<and> str ! 0 \<noteq> 35 \<and> 61 \<in> set str \<and>
     (case first_match (line_name str) clis of None \<Rightarrow> False | Some k \<Rightarrow> config_option (clis ! k))"

definition arg_target :: "(bytes \<Rightarrow> bytes option) \<Rightarrow> bytes \<Rightarrow> bytes option" where
  "arg_target files v = (if v \<noteq> [] \<and> v ! 0 = 60 then files (drop 1 v) else Some v)"

text \<open>The files are texts that fit the memory, and those that load each other have decreasing ranks, so that none loads itself.\<close>

definition config_ranked :: "(bytes \<Rightarrow> nat) \<Rightarrow> (bytes \<Rightarrow> bytes option) \<Rightarrow> 'w clioption list \<Rightarrow> bool" where
  "config_ranked rank files clis \<longleftrightarrow> (\<forall>path fp. files path = Some fp \<longrightarrow> 0 \<notin> set fp \<and> length fp + 600 < 2 ^ 64 \<and>
     (\<forall>str \<in> set (config_lines fp). loads_file clis str \<longrightarrow>
        (\<forall>q. arg_target files (line_value str) = Some q \<longrightarrow> rank q < rank path)))"

text \<open>What loading does not change of the options, and that no value has been freed.\<close>

definition cli_frame :: "'w clioption list \<Rightarrow> 'w clioption list" where
  "cli_frame clis = map (\<lambda>cli. cli\<lparr>cli_val := Null_value\<rparr>) clis"

definition cli_live :: "'w clioption list \<Rightarrow> bool" where
  "cli_live clis \<longleftrightarrow> list_all (\<lambda>cli. cli_val cli \<noteq> Freed_value) clis"

definition settles :: "'w clioption list \<Rightarrow> (bool \<times> 'w cli_state) cli_outcome option \<Rightarrow> bool" where
  "settles F m \<longleftrightarrow> (\<exists>r. m = Some r \<and> (\<forall>ok st'. r = Returns (ok, st') \<longrightarrow> cli_frame (clioptions st') = F \<and> cli_live (clioptions st')))"

lemma settles_simps [simp]:
  "settles F (Some (Exit n))"
  "settles F (Some (Returns (ok, st))) \<longleftrightarrow> cli_frame (clioptions st) = F \<and> cli_live (clioptions st)"
  by (simp_all add: settles_def)

lemma settles_and_then:
  assumes "settles F m" "\<And>ok st. cli_frame (clioptions st) = F \<Longrightarrow> cli_live (clioptions st) \<Longrightarrow> settles F (f (ok, st))"
  shows "settles F (and_then m f)"
proof -
  obtain r where r: "m = Some r" using assms(1) by (auto simp: settles_def)
  then show ?thesis
  proof (cases r)
    case (Returns x)
    obtain ok st where x: "x = (ok, st)" by (cases x)
    then show ?thesis using assms r Returns by simp
  qed simp
qed

lemma frame_nth:
  assumes "cli_frame clis = F" "k < length clis"
  shows "cli_handler_func (clis ! k) = cli_handler_func (F ! k)" "k < length F"
  using assms by (auto simp: cli_frame_def)

lemma first_match_frame: "first_match name (cli_frame clis) = first_match name clis"
  unfolding first_match_def cli_frame_def length_map by (rule find_cong [OF refl]) simp

lemma loads_file_frame: "loads_file (cli_frame clis) str = loads_file clis str"
proof (cases "first_match (line_name str) clis")
  case (Some k)
  then have "k < length clis" by (auto simp: first_match_def find_Some_iff)
  then show ?thesis using Some by (simp add: loads_file_def first_match_frame cli_frame_def [of clis, THEN arg_cong, of "\<lambda>c. c ! k"])
qed (simp add: loads_file_def first_match_frame)

lemma short_names_frame: "short_names (cli_frame clis) = short_names clis"
  by (simp add: short_names_def cli_frame_def list_all_length)

lemma first_match_range: "first_match name clis = Some k \<Longrightarrow> k < length clis"
  by (auto simp: first_match_def find_Some_iff)

lemma set_value_settles:
  assumes "cli_frame (clioptions st) = F" "cli_live (clioptions st)" "k < length (clioptions st)"
  shows "settles F (map_option (\<lambda>st. Returns (True, st)) (cli_set_value k (Some v) st))"
proof -
  let ?clis = "(clioptions st)[k := (clioptions st ! k)\<lparr>cli_val := Str_value v\<rparr>]"
  have "cli_val (clioptions st ! k) \<noteq> Freed_value" using assms(2,3) by (auto simp: cli_live_def list_all_length)
  then have "cli_set_value k (Some v) st = Some (st\<lparr>clioptions := ?clis\<rparr>)"
    by (auto simp: cli_set_value_def cli_update_def split: cli_value.splits)
  moreover have "cli_frame ?clis = F" using assms(1) by (auto simp: cli_frame_def map_update list_update_same_conv [THEN iffD2] assms(3))
  moreover have "cli_live ?clis" using assms(2) by (auto simp: cli_live_def list_all_iff dest!: set_update_subset_insert [THEN subsetD])
  ultimately show ?thesis by simp
qed

definition load_settles :: "'w clioption list \<Rightarrow> 'w cli_load \<Rightarrow> bytes \<Rightarrow> bool" where
  "load_settles F load q \<longleftrightarrow> (\<forall>category st. cli_frame (clioptions st) = F \<and> cli_live (clioptions st) \<longrightarrow> settles F (load q category st))"

lemma run_handler_settles:
  assumes "cli_frame (clioptions st) = F" "cli_live (clioptions st)" "h = Config_handler \<longrightarrow> load_settles F load v"
  shows "settles F (cli_run_handler load h (Some v) st)"
proof (cases h)
  case (Handler f)
  obtain r w where "f (Some v) (cli_world st) = (r, w)" by (cases "f (Some v) (cli_world st)")
  then show ?thesis using Handler assms by (cases r) (simp_all add: cli_run_handler_def)
qed (use assms in \<open>auto simp: cli_run_handler_def load_settles_def\<close>)

lemma call_handler_settles:
  assumes st: "cli_frame (clioptions st) = F" "cli_live (clioptions st)" "k < length (clioptions st)"
    and h: "cli_handler_func (F ! k) = Some h"
    and files: "\<And>path fp. files path = Some fp \<Longrightarrow> 0 \<notin> set fp \<and> length fp + 600 < 2 ^ 64"
    and load: "\<And>q. h = Config_handler \<Longrightarrow> arg_target files v = Some q \<Longrightarrow> load_settles F load q"
  shows "settles F (clioptions_call_handler fresh files load k (Some v) st)"
proof -
  have h': "cli_handler_func (clioptions st ! k) = Some h" using frame_nth [OF st(1,3)] h by simp
  have go: "settles F (and_then (cli_run_handler load h (Some q) st) (\<lambda>(ok, st).
      if \<not> ok then Some (Returns (False, st)) else map_option (\<lambda>st. Returns (True, st)) (cli_set_value k (Some q) st)))"
    if "arg_target files v = Some q" for q
  proof (rule settles_and_then [OF run_handler_settles [OF st(1,2)]])
    show "h = Config_handler \<longrightarrow> load_settles F load q" using load that by blast
    fix ok and st' :: "'a cli_state" assume st': "cli_frame (clioptions st') = F" "cli_live (clioptions st')"
    have "k < length (clioptions st')" using st' st(1,3) by (metis cli_frame_def length_map)
    then show "settles F (case (ok, st') of (ok, st) \<Rightarrow>
        if \<not> ok then Some (Returns (False, st)) else map_option (\<lambda>st. Returns (True, st)) (cli_set_value k (Some q) st))"
      using set_value_settles [OF st'] st' by simp
  qed
  show ?thesis
  proof (cases "v \<noteq> [] \<and> v ! 0 = 60")
    case True
    then show ?thesis
    proof (cases "files (drop 1 v)")
      case None
      then show ?thesis using True st by (simp add: clioptions_call_handler_def path_file_contents_def Let_def)
    next
      case (Some fp)
      then have "path_file_contents fresh (Some fp) = Some (Some fp)" using files path_file_contents_exact by blast
      then show ?thesis using True Some h' go [of fp] by (simp add: clioptions_call_handler_def Let_def arg_target_def)
    qed
  next
    case False
    then have "clioptions_call_handler fresh files load k (Some v) st =
        and_then (cli_run_handler load h (Some v) st) (\<lambda>(ok, st).
          if \<not> ok then Some (Returns (False, st)) else map_option (\<lambda>st. Returns (True, st)) (cli_set_value k (Some v) st))"
      using h' by (auto simp: clioptions_call_handler_def Let_def)
    then show ?thesis using go [of v] False by (simp add: arg_target_def)
  qed
qed

lemma load_str_settles:
  assumes st: "cli_frame (clioptions st) = F" "cli_live (clioptions st)" and names: "short_names F"
    and str: "0 \<notin> set str" "str \<noteq> []" "str ! 0 \<noteq> 35"
    and files: "\<And>path fp. files path = Some fp \<Longrightarrow> 0 \<notin> set fp \<and> length fp + 600 < 2 ^ 64"
    and load: "\<And>q. loads_file F str \<Longrightarrow> arg_target files (line_value str) = Some q \<Longrightarrow> load_settles F load q"
  shows "settles F (clioptions_load_str fresh files load str st)"
proof -
  have names': "short_names (clioptions st)" using names st(1) short_names_frame by metis
  show ?thesis
  proof (cases "61 \<in> set str \<and> first_match (line_name str) (clioptions st) \<noteq> None")
    case False
    then show ?thesis using load_str_selects [OF str(1,2) names', of fresh files load] st by (auto split: option.splits)
  next
    case True
    then obtain k where k: "first_match (line_name str) (clioptions st) = Some k" by auto
    have range: "k < length (clioptions st)" by (rule first_match_range [OF k])
    note frame = frame_nth [OF st(1) range]
    have "first_match (line_name str) F = Some k" using k first_match_frame st(1) by metis
    then have loads: "loads_file F str" if "cli_handler_func (F ! k) = Some Config_handler"
      using that True str by (simp add: loads_file_def)
    have "settles F (clioptions_call_handler fresh files load k (Some (line_value str)) st)" if "cli_handler_func (F ! k) = Some h" for h
      by (rule call_handler_settles [OF st range that files]) (use load loads that in auto)
    then show ?thesis
      using load_str_selects [OF str(1,2) names', of fresh files load] True k st frame by auto
  qed
qed

lemma line_clean: "0 \<notin> set (string_strip_newline (string_skip_whitespace (c_string buf)))"
  unfolding string_strip_newline_def string_skip_whitespace_def c_string_def
  by (auto dest!: set_takeWhileD set_dropWhileD)

lemma load_lines_settles:
  assumes names: "short_names F"
    and files: "\<And>path fp. files path = Some fp \<Longrightarrow> 0 \<notin> set fp \<and> length fp + 600 < 2 ^ 64"
  shows "cli_frame (clioptions st) = F \<Longrightarrow> cli_live (clioptions st) \<Longrightarrow>
    (\<And>str q. str \<in> set (config_lines fp) \<Longrightarrow> loads_file F str \<Longrightarrow> arg_target files (line_value str) = Some q \<Longrightarrow> load_settles F load q) \<Longrightarrow>
    settles F (clioptions_load_lines fresh files load category cur fp st)"
proof (induction "length fp" arbitrary: cur fp st rule: less_induct)
  case less
  show ?case
  proof (cases "fp = []")
    case True
    then show ?thesis using less.prems by (simp add: clioptions_load_lines.simps [of _ _ _ _ _ "[]"])
  next
    case False
    obtain buf fp' where f: "c_fgets HUGE_BUF fp = (buf, fp')" by (cases "c_fgets HUGE_BUF fp")
    define cp where "cp = string_strip_newline (string_skip_whitespace (c_string buf))"
    have len: "length fp' < length fp" using fgets_progress [OF f _ False] by (simp add: HUGE_BUF_def)
    have lines: "config_lines fp = cp # config_lines fp'" using False f by (subst config_lines.simps) (simp add: cp_def)
    have rest: "settles F (clioptions_load_lines fresh files load category c fp' s)" if "cli_frame (clioptions s) = F" "cli_live (clioptions s)" for c s
      by (rule less.hyps [OF len that]) (use less.prems(3) lines in auto)
    have this_line: "settles F (clioptions_load_str fresh files load cp st)" if "cp \<noteq> []" "cp ! 0 \<noteq> 35"
      by (rule load_str_settles [OF less.prems(1,2) names _ that files])
        (use less.prems(3) lines line_clean cp_def in auto)
    have "settles F (and_then (clioptions_load_str fresh files load cp st) (\<lambda>(_, st). clioptions_load_lines fresh files load category cur fp' st))"
      if "cp \<noteq> []" "cp ! 0 \<noteq> 35"
      by (rule settles_and_then [OF this_line [OF that]]) (use rest in simp)
    then show ?thesis unfolding load_lines_step [OF f False cp_def] using rest [OF less.prems(1,2)] by auto
  qed
qed

lemma load_ranked_settles:
  assumes "short_names F" "config_ranked rank files F"
  shows "rank path < depth \<Longrightarrow> load_settles F (clioptions_load fresh files depth) path"
proof (induction depth arbitrary: path)
  case (Suc depth)
  have files: "0 \<notin> set fp \<and> length fp + 600 < 2 ^ 64" if "files p = Some fp" for p fp using assms(2) that by (simp add: config_ranked_def)
  have "settles F (clioptions_load fresh files (Suc depth) path category st)" if st: "cli_frame (clioptions st) = F" "cli_live (clioptions st)" for category st
  proof (cases "files path")
    case None
    then show ?thesis using st by simp
  next
    case (Some fp)
    have "load_settles F (clioptions_load fresh files depth) q"
      if "str \<in> set (config_lines fp)" "loads_file F str" "arg_target files (line_value str) = Some q" for str q
    proof (rule Suc.IH)
      have "rank q < rank path" using assms(2) Some that unfolding config_ranked_def by blast
      then show "rank q < depth" using Suc.prems by simp
    qed
    then show ?thesis using load_lines_settles [OF assms(1) files st] Some by simp
  qed
  then show ?case by (simp add: load_settles_def)
qed simp


section \<open>Handlers of fixed options\<close>

text \<open>The same options, but with another handler for those that cannot change at run time.\<close>

definition refit_option :: "'w cli_handler \<Rightarrow> 'w clioption \<Rightarrow> 'w clioption" where
  "refit_option h cli = (if cli_changeable cli \<or> cli_handler_func cli = None then cli else cli\<lparr>cli_handler_func := Some h\<rparr>)"

definition refit :: "'w cli_handler \<Rightarrow> 'w cli_state \<Rightarrow> 'w cli_state" where
  "refit h st = st\<lparr>clioptions := map (refit_option h) (clioptions st)\<rparr>"

definition refit_result :: "'w cli_handler \<Rightarrow> (bool \<times> 'w cli_state) cli_outcome option \<Rightarrow> (bool \<times> 'w cli_state) cli_outcome option" where
  "refit_result h m = map_option (map_cli_outcome (map_prod id (refit h))) m"

lemma refit_result_simps [simp]:
  "refit_result h None = None" "refit_result h (Some (Exit n)) = Some (Exit n)"
  "refit_result h (Some (Returns (ok, st))) = Some (Returns (ok, refit h st))"
  by (simp_all add: refit_result_def)

lemma refit_option_simps [simp]:
  "cli_name (refit_option h cli) = cli_name cli" "cli_short_name (refit_option h cli) = cli_short_name cli"
  "cli_argument (refit_option h cli) = cli_argument cli" "cli_changeable (refit_option h cli) = cli_changeable cli"
  "cli_val (refit_option h cli) = cli_val cli" "cli_handler_func (refit_option h cli) = None \<longleftrightarrow> cli_handler_func cli = None"
  "cli_changeable cli \<Longrightarrow> refit_option h cli = cli"
  by (simp_all add: refit_option_def)

lemma refit_simps [simp]:
  "clioptions_runtime (refit h st) = clioptions_runtime st" "cli_world (refit h st) = cli_world st"
  "clioptions (refit h st) = map (refit_option h) (clioptions st)" "refit h (st\<lparr>cli_world := w\<rparr>) = (refit h st)\<lparr>cli_world := w\<rparr>"
  by (simp_all add: refit_def)

lemma find_loop_refit: "clioptions_find_loop argv idx (map (refit_option h) clis) i = clioptions_find_loop argv idx clis i"
  by (induction clis arbitrary: i) (simp_all only: list.map clioptions_find_loop.simps refit_option_simps)

lemma refit_and_then:
  assumes "\<And>ok st. m = Some (Returns (ok, st)) \<Longrightarrow> f (ok, refit h st) = refit_result h (g (ok, st))"
  shows "and_then (refit_result h m) f = refit_result h (and_then m g)"
proof (cases m)
  case (Some r)
  then show ?thesis
  proof (cases r)
    case (Returns x)
    then show ?thesis using assms Some by (cases x) simp
  qed simp
qed simp

lemma set_value_refit:
  assumes "k < length (clioptions st)" "cli_changeable (clioptions st ! k)"
  shows "cli_set_value k v (refit h st) = map_option (refit h) (cli_set_value k v st)"
  using assms by (auto simp: cli_set_value_def cli_update_def refit_def map_update split: cli_value.splits)

definition load_refits :: "'w cli_handler \<Rightarrow> 'w cli_load \<Rightarrow> bool" where
  "load_refits h load \<longleftrightarrow> (\<forall>path category st. clioptions_runtime st \<longrightarrow> load path category (refit h st) = refit_result h (load path category st))"

lemma run_handler_refit:
  assumes "load_refits h load" "clioptions_runtime st"
  shows "cli_run_handler load hf arg (refit h st) = refit_result h (cli_run_handler load hf arg st)"
proof (cases hf)
  case (Handler f)
  obtain r w where "f arg (cli_world st) = (r, w)" by (cases "f arg (cli_world st)")
  then show ?thesis using Handler by (cases r) (simp_all add: cli_run_handler_def)
qed (use assms in \<open>auto simp: cli_run_handler_def load_refits_def split: option.splits\<close>)

lemma call_handler_refit:
  assumes load: "load_refits h load" "load_keeps load" and st: "clioptions_runtime st" "k < length (clioptions st)" "cli_changeable (clioptions st ! k)"
  shows "clioptions_call_handler fresh files load k arg (refit h st) = refit_result h (clioptions_call_handler fresh files load k arg st)"
proof -
  let ?g = "\<lambda>arg (ok, st). if \<not> ok then Some (Returns (False, st)) else map_option (\<lambda>st. Returns (True, st)) (cli_set_value k arg st)"
  have "and_then (cli_run_handler load hf a (refit h st)) (?g a) = refit_result h (and_then (cli_run_handler load hf a st) (?g a))" for hf a
    unfolding run_handler_refit [OF load(1) st(1)]
  proof (rule refit_and_then)
    fix ok st1 assume "cli_run_handler load hf a st = Some (Returns (ok, st1))"
    from run_handler_kept [OF load(2) st(1) this] have "k < length (clioptions st1)" "cli_changeable (clioptions st1 ! k)"
      using st(2,3) by (simp_all add: cli_kept_def)
    from set_value_refit [OF this, of a h] show "?g a (ok, refit h st1) = refit_result h (?g a (ok, st1))"
      by (cases "cli_set_value k a st1") simp_all
  qed
  then show ?thesis using st(2,3) by (simp add: clioptions_call_handler_def Let_def split: option.splits)
qed

lemma load_str_refit:
  assumes load: "load_refits h load" "load_keeps load" and st: "clioptions_runtime st"
  shows "clioptions_load_str fresh files load str (refit h st) = refit_result h (clioptions_load_str fresh files load str st)"
proof -
  have "clioptions_parse_find argv i (refit h st) = clioptions_parse_find argv i st" for argv i
    by (simp add: clioptions_parse_find_def find_loop_refit)
  moreover have "k < length (clioptions st)" if "clioptions_parse_find argv i st = Returns (Some k, j, arg)" for argv i k j arg
    using find_loop_range [of argv i "clioptions st" 0 k j arg] that by (simp add: clioptions_parse_find_def)
  ultimately show ?thesis
    using st call_handler_refit [OF load st, of _ fresh files]
    by (auto simp: clioptions_load_str_def Let_def split: option.splits cli_outcome.splits prod.splits)
qed

lemma load_lines_refit:
  assumes load: "load_refits h load" "load_keeps load"
  shows "clioptions_runtime st \<Longrightarrow>
    clioptions_load_lines fresh files load category cur fp (refit h st) = refit_result h (clioptions_load_lines fresh files load category cur fp st)"
proof (induction "length fp" arbitrary: cur fp st rule: less_induct)
  case less
  show ?case
  proof (cases "fp = []")
    case True
    then show ?thesis by (simp add: clioptions_load_lines.simps [of _ _ _ _ _ "[]"])
  next
    case False
    obtain buf fp' where f: "c_fgets HUGE_BUF fp = (buf, fp')" by (cases "c_fgets HUGE_BUF fp")
    have len: "length fp' < length fp" using fgets_progress [OF f _ False] by (simp add: HUGE_BUF_def)
    define cp where "cp = string_strip_newline (string_skip_whitespace (c_string buf))"
    let ?rest = "\<lambda>(_, st). clioptions_load_lines fresh files load category cur fp' st"
    have "and_then (clioptions_load_str fresh files load cp (refit h st)) ?rest =
        refit_result h (and_then (clioptions_load_str fresh files load cp st) ?rest)"
      unfolding load_str_refit [OF load less.prems]
    proof (rule refit_and_then)
      fix ok st1 assume "clioptions_load_str fresh files load cp st = Some (Returns (ok, st1))"
      then have "clioptions_runtime st1" using load_str_kept [OF load(2) less.prems] less.prems unfolding cli_kept_def by blast
      then show "?rest (ok, refit h st1) = refit_result h (?rest (ok, st1))" using less.hyps [OF len] by simp
    qed
    then show ?thesis
      unfolding load_lines_step [OF f False cp_def] using less.hyps [OF len less.prems] by simp
  qed
qed

lemma load_refit: "load_refits h (clioptions_load fresh files depth)"
proof (induction depth)
  case (Suc depth)
  then show ?case using load_lines_refit [OF Suc load_kept] by (auto simp: load_refits_def split: option.splits)
qed (simp add: load_refits_def)


section \<open>Loading at run time\<close>

text \<open>
  C26. Once the command line has been parsed, loading a configuration file, and the files it
  loads in turn, whatever they contain, leaves every option alone that is not marked as
  changeable at run time: its record is the same afterwards, and its handler is not called. The
  latter is stated as independence: with any other handler for these options the call has the
  same outcome and the same effects on everything else, also where it ends the program.

  And loading returns or ends the program whenever the depth of the model is greater than the
  rank of the file, for any ranking in which the files that load each other have decreasing
  ranks, if no value of an option has been freed before and the names of the options fit the
  buffer of a line. Files that load each other in a circle have no such ranking: the code then
  calls itself without end.
\<close>

theorem runtime_options_fixed:
  assumes "clioptions_runtime st"
  shows "(\<forall>ok st'. clioptions_load fresh files depth path category st = Some (Returns (ok, st')) \<longrightarrow>
      clioptions_runtime st' \<and> length (clioptions st') = length (clioptions st) \<and>
      (\<forall>i < length (clioptions st). \<not> cli_changeable (clioptions st ! i) \<longrightarrow> clioptions st' ! i = clioptions st ! i)) \<and>
    (\<forall>h. clioptions_load fresh files depth path category (refit h st) =
      map_option (map_cli_outcome (map_prod id (refit h))) (clioptions_load fresh files depth path category st)) \<and>
    (config_ranked rank files (clioptions st) \<and> rank path < depth \<and>
      list_all (\<lambda>cli. cli_val cli \<noteq> Freed_value \<and> length (cli_name cli) + 3 < HUGE_BUF) (clioptions st) \<longrightarrow>
      clioptions_load fresh files depth path category st \<noteq> None)"
proof (intro conjI allI impI)
  fix ok st' i assume l: "clioptions_load fresh files depth path category st = Some (Returns (ok, st'))"
  have kept: "cli_kept st st'" using load_kept assms l unfolding load_keeps_def by blast
  then show "clioptions_runtime st'" "length (clioptions st') = length (clioptions st)" using assms by (simp_all add: cli_kept_def)
  assume "i < length (clioptions st)" "\<not> cli_changeable (clioptions st ! i)"
  then show "clioptions st' ! i = clioptions st ! i" using kept by (simp add: cli_kept_def)
next
  fix h show "clioptions_load fresh files depth path category (refit h st) =
      map_option (map_cli_outcome (map_prod id (refit h))) (clioptions_load fresh files depth path category st)"
    using load_refit [of h fresh files depth] assms unfolding load_refits_def refit_result_def by blast
next
  assume a: "config_ranked rank files (clioptions st) \<and> rank path < depth \<and>
      list_all (\<lambda>cli. cli_val cli \<noteq> Freed_value \<and> length (cli_name cli) + 3 < HUGE_BUF) (clioptions st)"
  let ?F = "cli_frame (clioptions st)"
  have "short_names ?F" unfolding short_names_frame using a by (auto simp: short_names_def list_all_iff)
  moreover have "config_ranked rank files ?F"
    using a unfolding config_ranked_def loads_file_frame by blast
  ultimately have "load_settles ?F (clioptions_load fresh files depth) path" using load_ranked_settles a by blast
  moreover have "cli_live (clioptions st)" using a by (auto simp: cli_live_def list_all_iff)
  ultimately have "settles ?F (clioptions_load fresh files depth path category st)" by (simp add: load_settles_def)
  then show "clioptions_load fresh files depth path category st \<noteq> None" by (auto simp: settles_def)
qed

text \<open>
  Two files, the first of which loads the second, with an option \<open>config\<close> that loads files and
  an option \<open>a\<close> that cannot change.
\<close>

definition demo_runtime :: "unit cli_state" where
  "demo_runtime = demo_cli\<lparr>clioptions := [(demo_option [97])\<lparr>cli_changeable := False\<rparr>, (demo_option opt_config)\<lparr>cli_handler_func := Some Config_handler\<rparr>],
     clioptions_runtime := True\<rparr>"

text \<open>The contents are \<open>config=g\<close> and \<open>a=b\<close>; the names of the files are \<open>f\<close> and \<open>g\<close>.\<close>

definition demo_files :: "bytes \<Rightarrow> bytes option" where
  "demo_files path = (if path = [102] then Some (opt_config @ [61, 103]) else if path = [103] then Some [97, 61, 98] else None)"

definition demo_rank :: "bytes \<Rightarrow> nat" where
  "demo_rank path = (if path = [102] then 1 else 0)"

definition cli_exits :: "'a cli_outcome option \<Rightarrow> bool" where
  "cli_exits m = (case m of Some (Exit n) \<Rightarrow> True | _ \<Rightarrow> False)"

definition demo_ranked :: "bytes \<Rightarrow> bool" where
  "demo_ranked path = list_all (\<lambda>str. loads_file (clioptions demo_runtime) str \<longrightarrow>
     (case arg_target demo_files (line_value str) of None \<Rightarrow> True | Some q \<Rightarrow> demo_rank q < demo_rank path)) (config_lines (the (demo_files path)))"

lemma demo_files_ranked: "config_ranked demo_rank demo_files (clioptions demo_runtime)"
proof -
  have r: "demo_ranked [102]" "demo_ranked [103]" by code_simp+
  have "path = [102] \<or> path = [103]" if "demo_files path = Some fp" for path fp using that by (auto simp: demo_files_def split: if_splits)
  then show ?thesis
    using r by (fastforce simp: config_ranked_def demo_ranked_def list_all_iff demo_files_def opt_config_def split: if_splits option.splits)
qed

theorem runtime_options_fixed_witness:
  "clioptions_runtime demo_runtime \<and>
   (\<exists>ok st'. clioptions_load (\<lambda>_. 0) demo_files 2 [102] None demo_runtime = Some (Returns (ok, st')) \<and>
      clioptions st' ! 0 = clioptions demo_runtime ! 0)"
proof -
  have r: "clioptions_runtime demo_runtime" by (simp add: demo_runtime_def)
  note fixed = runtime_options_fixed [OF r, of "\<lambda>_. 0" demo_files 2 "[102]" None demo_rank]
  have "list_all (\<lambda>cli. cli_val cli \<noteq> Freed_value \<and> length (cli_name cli) + 3 < HUGE_BUF) (clioptions demo_runtime)"
    by (simp add: demo_runtime_def demo_option_def opt_config_def HUGE_BUF_def)
  then have "clioptions_load (\<lambda>_. 0) demo_files 2 [102] None demo_runtime \<noteq> None" using fixed demo_files_ranked by (simp add: demo_rank_def)
  moreover have "\<not> cli_exits (clioptions_load (\<lambda>_. 0) demo_files 2 [102] None demo_runtime)" by code_simp
  ultimately obtain ok st' where l: "clioptions_load (\<lambda>_. 0) demo_files 2 [102] None demo_runtime = Some (Returns (ok, st'))"
    by (auto simp: cli_exits_def split: cli_outcome.splits)
  then have "clioptions st' ! 0 = clioptions demo_runtime ! 0" using fixed by (simp add: demo_runtime_def)
  then show ?thesis using r l by blast
qed

end
