(* ===== verification/Scanf.thy ===== *)
theory Scanf
  imports Strings
begin

text \<open>
  The part of \<open>sscanf\<close> and \<open>printf\<close> that the source uses for text formats: literal text, \<open>%u\<close>,
  a bounded \<open>%[...]\<close> and a final \<open>%n\<close>. The result is the list of the converted values and what
  follows at \<open>%n\<close>, if the whole format matched. \<open>%u\<close> is \<open>strtoul\<close> of an LP64 system, cut to 32
  bits: it skips white space, takes a sign, negates after a minus and saturates.
\<close>

definition str :: "string \<Rightarrow> bytes" where
  "str s = map of_char s"

datatype scan_directive = Scan_text bytes | Scan_uint | Scan_set nat "u8 \<Rightarrow> bool"

datatype scan_value = Scanned_uint u32 | Scanned_text bytes

definition scan_sign :: "bytes \<Rightarrow> bool \<times> bytes" where
  "scan_sign s = (case s of [] \<Rightarrow> (False, []) | c # cs \<Rightarrow> if c = 45 then (True, cs) else if c = 43 then (False, cs) else (False, s))"

definition scan_uint :: "bytes \<Rightarrow> (u32 \<times> bytes) option" where
  "scan_uint s =
     (let (neg, s) = scan_sign (dropWhile c_isspace s);
          ds = takeWhile c_isdigit s;
          v = c_digits_value 10 ds
      in if ds = [] then None
         else Some (of_nat (if v > 2 ^ 64 - 1 then 2 ^ 64 - 1 else if neg then (2 ^ 64 - v) mod 2 ^ 64 else v), drop (length ds) s))"

fun c_sscanf :: "scan_directive list \<Rightarrow> bytes \<Rightarrow> scan_value list \<times> bytes option" where
  "c_sscanf [] s = ([], Some s)"
| "c_sscanf (Scan_text t # fs) s = (if prefix t s then c_sscanf fs (drop (length t) s) else ([], None))"
| "c_sscanf (Scan_uint # fs) s = (case scan_uint s of
     None \<Rightarrow> ([], None)
   | Some (v, s) \<Rightarrow> (let (vs, r) = c_sscanf fs s in (Scanned_uint v # vs, r)))"
| "c_sscanf (Scan_set n P # fs) s =
     (let t = take n (takeWhile P s) in
      if t = [] then ([], None) else (let (vs, r) = c_sscanf fs (drop (length t) s) in (Scanned_text t # vs, r)))"

text \<open>\<open>printf("%u")\<close>.\<close>

fun c_decimal :: "nat \<Rightarrow> bytes" where
  "c_decimal n = (if n < 10 then [48 + of_nat n] else c_decimal (n div 10) @ [48 + of_nat (n mod 10)])"

declare c_decimal.simps [simp del]

section \<open>Scanning what was printed\<close>

lemma digit_word: "n < 10 \<Longrightarrow> c_isdigit (48 + of_nat n :: u8) \<and> c_digit_value (48 + of_nat n) = n"
proof -
  assume "n < 10"
  then have "n \<in> {0, 1, 2, 3, 4, 5, 6, 7, 8, 9}" by auto
  then show ?thesis by (elim insertE emptyE) (simp_all add: c_isdigit_def c_digit_value_def)
qed

lemma decimal_digits: "list_all c_isdigit (c_decimal n) \<and> c_decimal n \<noteq> []"
proof (induction n rule: c_decimal.induct)
  case (1 n)
  then show ?case using digit_word [of n] digit_word [of "n mod 10"] by (subst (1 2) c_decimal.simps) simp
qed

lemma decimal_value: "c_digits_value 10 (c_decimal n) = n"
proof (induction n rule: c_decimal.induct)
  case (1 n)
  then show ?case using digit_word [of n] digit_word [of "n mod 10"]
    by (subst c_decimal.simps) (simp add: c_digits_value_def)
qed

lemma digit_not_sign: "c_isdigit c \<Longrightarrow> \<not> c_isspace c \<and> c \<noteq> 45 \<and> c \<noteq> 43"
proof -
  assume "c_isdigit c"
  then have "48 \<le> c" by (simp add: c_isdigit_def)
  then have "\<not> c \<le> 13" using order_trans [of 48 c 13] by auto
  moreover have "c \<noteq> 32" "c \<noteq> 45" "c \<noteq> 43" using \<open>48 \<le> c\<close> by auto
  ultimately show ?thesis by (simp add: c_isspace_def)
qed

lemma scan_uint_decimal:
  assumes "n < 2 ^ 32" "r = [] \<or> \<not> c_isdigit (hd r)"
  shows "scan_uint (c_decimal n @ r) = Some (of_nat n, r)"
proof -
  obtain d ds where d: "c_decimal n = d # ds" "c_isdigit d" using decimal_digits [of n] by (cases "c_decimal n") auto
  have sign: "scan_sign (dropWhile c_isspace (c_decimal n @ r)) = (False, c_decimal n @ r)"
    using d digit_not_sign [OF d(2)] by (simp add: scan_sign_def)
  have "takeWhile c_isdigit r = []" using assms(2) by (cases r) auto
  then have tw: "takeWhile c_isdigit (c_decimal n @ r) = c_decimal n"
    using decimal_digits [of n] by (simp add: takeWhile_append list_all_iff)
  have "\<not> n > 2 ^ 64 - 1" using assms(1) by simp
  then show ?thesis using decimal_digits [of n] by (simp add: scan_uint_def sign tw decimal_value)
qed

lemma sscanf_text [simp]: "c_sscanf (Scan_text t # fs) (t @ s) = c_sscanf fs s"
  by simp

lemma sscanf_uint:
  assumes "n < 2 ^ 32" "r = [] \<or> \<not> c_isdigit (hd r)"
  shows "c_sscanf (Scan_uint # fs) (c_decimal n @ r) = (let (vs, x) = c_sscanf fs r in (Scanned_uint (of_nat n) # vs, x))"
  by (simp add: scan_uint_decimal [OF assms])

lemma sscanf_set:
  assumes "list_all P t" "t \<noteq> []" "length t \<le> n" "r = [] \<or> \<not> P (hd r) \<or> length t = n"
  shows "c_sscanf (Scan_set n P # fs) (t @ r) = (let (vs, x) = c_sscanf fs r in (Scanned_text t # vs, x))"
proof -
  have "take n (takeWhile P (t @ r)) = t"
  proof (cases "r = [] \<or> \<not> P (hd r)")
    case True
    then have "takeWhile P r = []" by (cases r) auto
    then show ?thesis using assms(1,3) by (simp add: takeWhile_append list_all_iff)
  next
    case False
    then show ?thesis using assms(1,4) by (simp add: takeWhile_append list_all_iff)
  qed
  then show ?thesis using assms(2) by simp
qed

lemma sscanf_uint_text:
  assumes "n < 2 ^ 32" "t \<noteq> []" "\<not> c_isdigit (hd t)"
  shows "c_sscanf (Scan_uint # Scan_text t # fs) (c_decimal n @ t @ r) =
    (Scanned_uint (of_nat n) # fst (c_sscanf fs r), snd (c_sscanf fs r))"
  using assms sscanf_uint [OF assms(1), of "t @ r" "Scan_text t # fs"] by (simp add: split_def Let_def)

lemma sscanf_set_text:
  assumes "list_all P s" "s \<noteq> []" "length s \<le> n" "t \<noteq> []" "\<not> P (hd t)"
  shows "c_sscanf (Scan_set n P # Scan_text t # fs) (s @ t @ r) =
    (Scanned_text s # fst (c_sscanf fs r), snd (c_sscanf fs r))"
  using assms sscanf_set [OF assms(1-3), of "t @ r" "Scan_text t # fs"] by (simp add: split_def Let_def)

lemma sscanf_set_end:
  assumes "list_all P s" "s \<noteq> []" "length s \<le> n"
  shows "c_sscanf [Scan_set n P] s = ([Scanned_text s], Some [])"
  using sscanf_set [OF assms, of "[]" "[]"] by simp

lemma unat_u32 [simp]: "unat (x :: u32) < 4294967296"
  using unsigned_less [of x, where ?'a = nat] by simp

declare c_sscanf.simps(2-4) [simp del]

end
