(* ===== verification/Password.thy ===== *)
theory Password
  imports Scanf
begin

text \<open>
  The password records of \<open>src/password.c\<close>. The key derivation functions belong to OpenSSL and
  are arguments: Argon2id as a function of the password, the memory, the iterations, the
  lanes and the salt, and PBKDF2 as a function of the password and the salt; both have no
  value where the library fails. The random salt is an argument, too. Erasing local buffers
  is left out.
\<close>

type_synonym argon2id = "bytes \<Rightarrow> u32 \<Rightarrow> u32 \<Rightarrow> u32 \<Rightarrow> bytes \<Rightarrow> bytes option"

definition PASSWORD_RECORD_SIZE :: nat where "PASSWORD_RECORD_SIZE = 256"
definition PASSWORD_ALGORITHM :: bytes where "PASSWORD_ALGORITHM = str ''argon2id''"
definition PASSWORD_VERSION :: u32 where "PASSWORD_VERSION = 19"
definition PASSWORD_MEMORY_KIB :: u32 where "PASSWORD_MEMORY_KIB = 65536"
definition PASSWORD_ITERATIONS :: u32 where "PASSWORD_ITERATIONS = 3"
definition PASSWORD_LANES :: u32 where "PASSWORD_LANES = 1"
definition PASSWORD_SALT_SIZE :: nat where "PASSWORD_SALT_SIZE = 16"
definition PASSWORD_HASH_SIZE :: nat where "PASSWORD_HASH_SIZE = 32"
definition PASSWORD_MIN_MEMORY_KIB :: u32 where "PASSWORD_MIN_MEMORY_KIB = 8192"
definition PASSWORD_MAX_MEMORY_KIB :: u32 where "PASSWORD_MAX_MEMORY_KIB = 262144"
definition PASSWORD_MIN_ITERATIONS :: u32 where "PASSWORD_MIN_ITERATIONS = 1"
definition PASSWORD_MAX_ITERATIONS :: u32 where "PASSWORD_MAX_ITERATIONS = 10"
definition PASSWORD_MIN_LANES :: u32 where "PASSWORD_MIN_LANES = 1"
definition PASSWORD_MAX_LANES :: u32 where "PASSWORD_MAX_LANES = 4"

record password_parameters =
  pw_memory_kib :: u32
  pw_iterations :: u32
  pw_lanes :: u32
  pw_salt :: bytes
  pw_hash :: bytes

datatype password_verify_result = PASSWORD_VERIFY_ERROR | PASSWORD_VERIFY_MISMATCH | PASSWORD_VERIFY_MATCH

definition password_format :: "u32 \<Rightarrow> u32 \<Rightarrow> u32 \<Rightarrow> bytes \<Rightarrow> bytes \<Rightarrow> bytes" where
  "password_format memory_kib iterations lanes salt_hex hash_hex =
     str ''$'' @ PASSWORD_ALGORITHM @ str ''$v='' @ c_decimal (unat PASSWORD_VERSION) @ str ''$m='' @ c_decimal (unat memory_kib) @
     str '',t='' @ c_decimal (unat iterations) @ str '',p='' @ c_decimal (unat lanes) @ str ''$'' @ salt_hex @ str ''$'' @ hash_hex"

definition password_scan :: "scan_directive list" where
  "password_scan = [Scan_text (str ''$argon2id$v=''), Scan_uint, Scan_text (str ''$m=''), Scan_uint, Scan_text (str '',t=''), Scan_uint,
     Scan_text (str '',p=''), Scan_uint, Scan_text (str ''$''), Scan_set 32 is_hex_upper, Scan_text (str ''$''), Scan_set 64 is_hex_upper]"

definition password_parse :: "bytes option \<Rightarrow> password_parameters option" where
  "password_parse rec = (case rec of
     None \<Rightarrow> None
   | Some rec \<Rightarrow>
       if length rec \<ge> PASSWORD_RECORD_SIZE then None
       else (case c_sscanf password_scan rec of
           ([Scanned_uint version, Scanned_uint memory_kib, Scanned_uint iterations, Scanned_uint lanes,
             Scanned_text salt_hex, Scanned_text hash_hex], rest) \<Rightarrow>
             if (case rest of None \<Rightarrow> rec | Some r \<Rightarrow> r) \<noteq> [] \<or> version \<noteq> PASSWORD_VERSION \<or>
                memory_kib < PASSWORD_MIN_MEMORY_KIB \<or> memory_kib > PASSWORD_MAX_MEMORY_KIB \<or>
                iterations < PASSWORD_MIN_ITERATIONS \<or> iterations > PASSWORD_MAX_ITERATIONS \<or>
                lanes < PASSWORD_MIN_LANES \<or> lanes > PASSWORD_MAX_LANES \<or>
                length salt_hex \<noteq> PASSWORD_SALT_SIZE * 2 \<or> length hash_hex \<noteq> PASSWORD_HASH_SIZE * 2
             then None
             else let
                 canonical = password_format memory_kib iterations lanes salt_hex hash_hex;
                 (salt_len, salt) = string_fromhex salt_hex PASSWORD_SALT_SIZE;
                 (hash_len, hash) = string_fromhex hash_hex PASSWORD_HASH_SIZE
               in if length canonical > 0 \<and> length canonical < PASSWORD_RECORD_SIZE \<and> rec = canonical \<and>
                     salt_len = PASSWORD_SALT_SIZE \<and> hash_len = PASSWORD_HASH_SIZE
                  then Some \<lparr>pw_memory_kib = memory_kib, pw_iterations = iterations, pw_lanes = lanes, pw_salt = salt, pw_hash = hash\<rparr>
                  else None
         | _ \<Rightarrow> None))"

text \<open>The result, and the record that the buffer holds.\<close>

definition password_record_create :: "argon2id \<Rightarrow> bytes option \<Rightarrow> bytes option \<Rightarrow> bool \<times> bytes" where
  "password_record_create derive random password =
     (case (password, random) of
        (Some password, Some salt) \<Rightarrow>
          (case derive password PASSWORD_MEMORY_KIB PASSWORD_ITERATIONS PASSWORD_LANES salt of
             None \<Rightarrow> (False, [])
           | Some hash \<Rightarrow>
               let (salt_len, salt_hex) = string_tohex salt (PASSWORD_SALT_SIZE * 2 + 1) False;
                   (hash_len, hash_hex) = string_tohex hash (PASSWORD_HASH_SIZE * 2 + 1) False
               in if salt_len \<noteq> PASSWORD_SALT_SIZE * 2 \<or> hash_len \<noteq> PASSWORD_HASH_SIZE * 2 then (False, [])
                  else let rec = password_format PASSWORD_MEMORY_KIB PASSWORD_ITERATIONS PASSWORD_LANES salt_hex hash_hex
                    in if length rec > 0 \<and> length rec < PASSWORD_RECORD_SIZE then (True, rec) else (False, []))
      | _ \<Rightarrow> (False, []))"

definition password_record_verify :: "argon2id \<Rightarrow> bytes option \<Rightarrow> bytes option \<Rightarrow> password_verify_result" where
  "password_record_verify derive password rec =
     (case (password, password_parse rec) of
        (Some password, Some parameters) \<Rightarrow>
          (case derive password (pw_memory_kib parameters) (pw_iterations parameters) (pw_lanes parameters) (pw_salt parameters) of
             None \<Rightarrow> PASSWORD_VERIFY_ERROR
           | Some output \<Rightarrow> if output = pw_hash parameters then PASSWORD_VERIFY_MATCH else PASSWORD_VERIFY_MISMATCH)
      | _ \<Rightarrow> PASSWORD_VERIFY_ERROR)"

definition password_record_is_valid :: "bytes option \<Rightarrow> bool" where
  "password_record_is_valid rec = (password_parse rec \<noteq> None)"

definition password_record_needs_rehash :: "bytes option \<Rightarrow> bool" where
  "password_record_needs_rehash rec = (case password_parse rec of
     None \<Rightarrow> False
   | Some parameters \<Rightarrow> pw_memory_kib parameters \<noteq> PASSWORD_MEMORY_KIB \<or> pw_iterations parameters \<noteq> PASSWORD_ITERATIONS \<or>
       pw_lanes parameters \<noteq> PASSWORD_LANES)"

definition password_pbkdf2_sha256_verify ::
  "(bytes \<Rightarrow> bytes \<Rightarrow> bytes option) \<Rightarrow> bytes option \<Rightarrow> bytes option \<Rightarrow> bytes option \<Rightarrow> password_verify_result" where
  "password_pbkdf2_sha256_verify derive password salt expected =
     (case (password, salt, expected) of
        (Some password, Some salt, Some expected) \<Rightarrow>
          (case derive password salt of
             None \<Rightarrow> PASSWORD_VERIFY_ERROR
           | Some output \<Rightarrow> if output = expected then PASSWORD_VERIFY_MATCH else PASSWORD_VERIFY_MISMATCH)
      | _ \<Rightarrow> PASSWORD_VERIFY_ERROR)"


section \<open>Records\<close>

lemma tohex_plain:
  assumes "length result + 2 * length cs < n"
  shows "string_tohex_loop n cs False result = result @ hex_text False cs"
  using assms by (induction cs arbitrary: result) (auto simp: Let_def)

lemma length_hex_text: "length (hex_text False cs) = 2 * length cs"
  by (induction cs) auto

lemma hex_text_upper: "list_all is_hex_upper (hex_text False cs)"
  by (induction cs) (auto simp: hex_digit_upper_facts nibble_less)

lemma fromhex_hex_text: "length cs = n \<Longrightarrow> string_fromhex (hex_text False cs) n = (n, cs)"
  using fromhex_text [of "[]" cs n False] by (simp add: string_fromhex_def Let_def)

definition password_limits :: "u32 \<Rightarrow> u32 \<Rightarrow> u32 \<Rightarrow> bool" where
  "password_limits m t p \<longleftrightarrow> 8192 \<le> m \<and> m \<le> 262144 \<and> t \<noteq> 0 \<and> t \<le> 10 \<and> p \<noteq> 0 \<and> p \<le> 4"

lemma scan_format:
  assumes "list_all is_hex_upper salt_hex" "length salt_hex = 32" "list_all is_hex_upper hash_hex" "length hash_hex = 64"
  shows "c_sscanf password_scan (password_format m t p salt_hex hash_hex) =
    ([Scanned_uint 19, Scanned_uint m, Scanned_uint t, Scanned_uint p, Scanned_text salt_hex, Scanned_text hash_hex], Some [])"
proof -
  have split: "password_format m t p salt_hex hash_hex = str ''$argon2id$v='' @ c_decimal (unat PASSWORD_VERSION) @ str ''$m='' @
      c_decimal (unat m) @ str '',t='' @ c_decimal (unat t) @ str '',p='' @ c_decimal (unat p) @ str ''$'' @ salt_hex @ str ''$'' @ hash_hex"
    by (simp add: password_format_def PASSWORD_ALGORITHM_def str_def)
  have sep: "str ''$m='' \<noteq> []" "str '',t='' \<noteq> []" "str '',p='' \<noteq> []" "str ''$'' \<noteq> []"
    "\<not> c_isdigit (hd (str ''$m=''))" "\<not> c_isdigit (hd (str '',t=''))" "\<not> c_isdigit (hd (str '',p=''))" "\<not> c_isdigit (hd (str ''$''))"
    "\<not> is_hex_upper (hd (str ''$''))"
    by (simp_all add: str_def c_isdigit_def is_hex_upper_def)
  have ne: "salt_hex \<noteq> []" "hash_hex \<noteq> []" using assms by auto
  show ?thesis
    unfolding split password_scan_def sscanf_text
    by (simp add: sscanf_uint_text sscanf_set_text sscanf_set_end sep ne assms PASSWORD_VERSION_def)
qed


lemma length_decimal: "n < 10 ^ k \<Longrightarrow> 0 < k \<Longrightarrow> length (c_decimal n) \<le> k"
proof (induction k arbitrary: n)
  case (Suc k)
  show ?case
  proof (cases "n < 10")
    case True
    then show ?thesis by (subst c_decimal.simps) simp
  next
    case False
    then have "0 < k" using Suc.prems(1) by (cases k) auto
    moreover have "n div 10 < 10 ^ k" using Suc.prems(1) by (simp add: less_mult_imp_div_less mult.commute)
    ultimately show ?thesis using False Suc.IH [of "n div 10"] by (subst c_decimal.simps) simp
  qed
qed simp

lemma format_length:
  assumes "length salt_hex = 32" "length hash_hex = 64"
  shows "0 < length (password_format m t p salt_hex hash_hex) \<and> length (password_format m t p salt_hex hash_hex) < 256"
proof -
  have "unat x < 10 ^ 10" for x :: u32 using less_trans [OF unat_u32 [of x], of "10 ^ 10"] by simp
  then have "length (c_decimal (unat x)) \<le> 10" for x :: u32 by (intro length_decimal) simp_all
  from this [of PASSWORD_VERSION] this [of m] this [of t] this [of p] show ?thesis
    using assms by (simp add: password_format_def PASSWORD_ALGORITHM_def str_def)
qed

definition password_render :: "password_parameters \<Rightarrow> bytes" where
  "password_render ps = password_format (pw_memory_kib ps) (pw_iterations ps) (pw_lanes ps)
     (hex_text False (pw_salt ps)) (hex_text False (pw_hash ps))"

definition password_ok :: "password_parameters \<Rightarrow> bool" where
  "password_ok ps \<longleftrightarrow> password_limits (pw_memory_kib ps) (pw_iterations ps) (pw_lanes ps) \<and>
     length (pw_salt ps) = 16 \<and> length (pw_hash ps) = 32"

lemma parse_render:
  assumes "password_ok ps"
  shows "password_parse (Some (password_render ps)) = Some ps"
proof -
  let ?s = "hex_text False (pw_salt ps)" and ?h = "hex_text False (pw_hash ps)"
  have len: "length ?s = 32" "length ?h = 64" using assms by (simp_all add: password_ok_def length_hex_text)
  have scan: "c_sscanf password_scan (password_render ps) = ([Scanned_uint 19, Scanned_uint (pw_memory_kib ps), Scanned_uint (pw_iterations ps),
      Scanned_uint (pw_lanes ps), Scanned_text ?s, Scanned_text ?h], Some [])"
    unfolding password_render_def by (rule scan_format) (use len hex_text_upper in auto)
  have fh: "string_fromhex ?s 16 = (16, pw_salt ps)" "string_fromhex ?h 32 = (32, pw_hash ps)"
    using assms by (simp_all add: fromhex_hex_text password_ok_def)
  have l: "length (password_render ps) < 256" "0 < length (password_render ps)"
    using format_length [OF len] by (auto simp: password_render_def)
  show ?thesis
    using assms l
    by (simp add: password_parse_def scan PASSWORD_RECORD_SIZE_def PASSWORD_VERSION_def PASSWORD_MIN_MEMORY_KIB_def PASSWORD_MAX_MEMORY_KIB_def
        PASSWORD_MIN_ITERATIONS_def PASSWORD_MAX_ITERATIONS_def PASSWORD_MIN_LANES_def PASSWORD_MAX_LANES_def PASSWORD_SALT_SIZE_def
        PASSWORD_HASH_SIZE_def len fh password_ok_def password_limits_def not_less Let_def flip: password_render_def)
qed


lemma nibble_halves:
  assumes "d < 16" "e < (16 :: u8)"
  shows "drop_bit 4 (push_bit 4 d OR e) = d \<and> (push_bit 4 d OR e) AND 0xf = e"
proof -
  have t: "take_bit 4 x = x" if "x < 16" for x :: u8 by (rule nibble_cases [OF _ that]) code_simp
  have "drop_bit 4 (push_bit 4 (take_bit 4 d) OR take_bit 4 e) = take_bit 4 d"
    by (rule bit_word_eqI) (auto simp: bit_simps)
  moreover have "take_bit 4 (push_bit 4 (take_bit 4 d) OR take_bit 4 e) = take_bit 4 e"
    by (rule bit_word_eqI) (auto simp: bit_simps)
  moreover have "x AND 0xf = take_bit 4 x" for x :: u8 by (simp add: take_bit_eq_mask mask_eq_exp_minus_1)
  ultimately show ?thesis using t [OF assms(1)] t [OF assms(2)] by simp
qed

lemma hex_upper_digit:
  assumes "is_hex_upper x"
  obtains d where "d < 16" "x = hex_digit_upper d"
proof -
  define d where "d = (if x \<ge> 65 then x - 55 else x - 48)"
  have all: "list_all (\<lambda>n. let d = if of_nat n \<ge> (65 :: u8) then of_nat n - 55 else of_nat n - 48
      in d < 16 \<and> of_nat n = hex_digit_upper d) ([48..<58] @ [65..<71])"
    by code_simp
  have "unat x \<in> set ([48..<58] @ [65..<71])" 
    unfolding set_append set_upt Un_iff atLeastLessThan_iff using assms by (auto simp: is_hex_upper_def word_le_nat_alt)
  then have "let d = if of_nat (unat x) \<ge> (65 :: u8) then of_nat (unat x) - 55 else of_nat (unat x) - 48
      in d < 16 \<and> of_nat (unat x) = hex_digit_upper d"
    using all unfolding list_all_iff by blast
  then have "d < 16 \<and> x = hex_digit_upper d" by (simp add: d_def Let_def cong: if_cong)
  then show ?thesis using that by blast
qed


lemma fromhex_upper:
  assumes "list_all is_hex_upper h" "length h = 2 * n"
  shows "\<exists>bs. string_fromhex h n = (n, bs) \<and> length bs = n \<and> h = hex_text False bs"
proof -
  have "\<exists>bs. h = hex_text False bs \<and> length bs = n" using assms
  proof (induction n arbitrary: h)
    case (Suc n)
    then obtain x y r where h: "h = x # y # r" by (cases h; cases "tl h") auto
    have xy: "is_hex_upper x" "is_hex_upper y" using Suc.prems h by simp_all
    obtain d e where d: "d < 16" "x = hex_digit_upper d" "e < 16" "y = hex_digit_upper e"
      using hex_upper_digit [OF xy(1)] hex_upper_digit [OF xy(2)] by metis
    obtain bs where "r = hex_text False bs" "length bs = n" using Suc h by auto
    then show ?case using h d nibble_halves [OF d(1,3)] by (intro exI [of _ "(push_bit 4 d OR e) # bs"]) simp
  qed simp
  then show ?thesis using fromhex_hex_text by blast
qed

lemma scan_hex:
  assumes "c_sscanf password_scan rec = ([v, m, t, p, Scanned_text s, Scanned_text h], rest)"
  shows "list_all is_hex_upper s \<and> list_all is_hex_upper h"
proof -
  have "list_all is_hex_upper (take n (takeWhile is_hex_upper xs))" for n xs
    by (auto simp: list_all_iff dest!: in_set_takeD dest: set_takeWhileD)
  then show ?thesis using assms
    by (auto simp: password_scan_def c_sscanf.simps Let_def split: if_splits option.splits prod.splits)
qed

lemma parse_canonical:
  assumes "password_parse (Some rec) = Some ps"
  shows "password_ok ps \<and> rec = password_render ps"
proof -
  obtain version m t p s h rest where scan: "c_sscanf password_scan rec =
      ([Scanned_uint version, Scanned_uint m, Scanned_uint t, Scanned_uint p, Scanned_text s, Scanned_text h], rest)"
    using assms by (auto simp: password_parse_def split: if_splits prod.splits list.splits scan_value.splits)
  note sizes = PASSWORD_SALT_SIZE_def PASSWORD_HASH_SIZE_def
  have len: "length s = 2 * 16" "length h = 2 * 32" and r: "rec = password_format m t p s h" and lim: "password_limits m t p"
    and ps: "ps = \<lparr>pw_memory_kib = m, pw_iterations = t, pw_lanes = p, pw_salt = snd (string_fromhex s 16), pw_hash = snd (string_fromhex h 32)\<rparr>"
    using assms
    by (auto simp: password_parse_def scan sizes Let_def not_less password_limits_def PASSWORD_MIN_MEMORY_KIB_def PASSWORD_MAX_MEMORY_KIB_def
        PASSWORD_MIN_ITERATIONS_def PASSWORD_MAX_ITERATIONS_def PASSWORD_MIN_LANES_def PASSWORD_MAX_LANES_def split: if_splits prod.splits)
  obtain bs bh where "string_fromhex s 16 = (16, bs)" "length bs = 16" "s = hex_text False bs"
    "string_fromhex h 32 = (32, bh)" "length bh = 32" "h = hex_text False bh"
    using fromhex_upper [OF _ len(1)] fromhex_upper [OF _ len(2)] scan_hex [OF scan] by blast
  then show ?thesis using r lim ps by (simp add: password_ok_def password_render_def)
qed

text \<open>
  C27. \<open>password_parse\<close> accepts exactly the canonical texts of parameters within the limits on
  memory, iterations and lanes, and returns those parameters: there is one text for each, so
  that nothing can be hidden in leading zeros, signs, white space or trailing bytes.
\<close>

theorem password_parse_exact:
  "password_parse (Some rec) = Some ps \<longleftrightarrow> password_ok ps \<and> rec = password_render ps"
  using parse_canonical parse_render by blast

text \<open>
  C28. A record created for a password is verified with that password; every other password
  matches exactly when the key derivation gives the same hash; the record is valid, fits its
  buffer and needs no rehash.
\<close>

theorem password_created_verifies:
  assumes derive: "derive pw 65536 3 1 salt = Some hash" "length hash = 32" "length salt = 16"
  shows "\<exists>rec. password_record_create derive (Some salt) (Some pw) = (True, rec) \<and> length rec < PASSWORD_RECORD_SIZE \<and>
    password_record_verify derive (Some pw) (Some rec) = PASSWORD_VERIFY_MATCH \<and>
    (\<forall>other. password_record_verify derive (Some other) (Some rec) = PASSWORD_VERIFY_MATCH \<longleftrightarrow>
       derive other 65536 3 1 salt = Some hash) \<and>
    password_record_is_valid (Some rec) \<and> \<not> password_record_needs_rehash (Some rec)"
proof -
  define ps where "ps = \<lparr>pw_memory_kib = 65536, pw_iterations = 3, pw_lanes = 1, pw_salt = salt, pw_hash = hash\<rparr>"
  have ok: "password_ok ps" using derive by (simp add: ps_def password_ok_def password_limits_def)
  note parse = parse_render [OF ok]
  note pw_consts = PASSWORD_MEMORY_KIB_def PASSWORD_ITERATIONS_def PASSWORD_LANES_def PASSWORD_SALT_SIZE_def PASSWORD_HASH_SIZE_def
    PASSWORD_RECORD_SIZE_def
  have "string_tohex salt 33 False = (32, hex_text False salt)" "string_tohex hash 65 False = (64, hex_text False hash)"
    using derive tohex_plain [of "[]" salt 33] tohex_plain [of "[]" hash 65] by (simp_all add: string_tohex_def Let_def length_hex_text)
  moreover have "length (password_render ps) < 256" "0 < length (password_render ps)"
    using format_length [of "hex_text False salt" "hex_text False hash" 65536 3 1] derive
    by (simp_all add: password_render_def ps_def length_hex_text)
  ultimately have create: "password_record_create derive (Some salt) (Some pw) = (True, password_render ps)"
    using derive by (simp add: password_record_create_def pw_consts password_render_def ps_def Let_def)
  have fields: "pw_memory_kib ps = 65536" "pw_iterations ps = 3" "pw_lanes ps = 1" "pw_salt ps = salt" "pw_hash ps = hash"
    by (simp_all add: ps_def)
  show ?thesis
    using create \<open>length (password_render ps) < 256\<close> derive(1)
    by (intro exI [of _ "password_render ps"])
      (auto simp: password_record_verify_def password_record_is_valid_def password_record_needs_rehash_def parse fields pw_consts
        split: option.splits)
qed

theorem password_created_verifies_witness:
  "\<exists>rec. password_record_create (\<lambda>pw m t p salt. Some (replicate 32 (hd pw))) (Some (replicate 16 7)) (Some [65]) = (True, rec) \<and>
     password_record_verify (\<lambda>pw m t p salt. Some (replicate 32 (hd pw))) (Some [65]) (Some rec) = PASSWORD_VERIFY_MATCH"
  using password_created_verifies [of "\<lambda>pw m t p salt. Some (replicate 32 (hd pw))" "[65]" "replicate 16 7" "replicate 32 65"] by auto

end
