(* ===== verification/Rendezvous.thy ===== *)
theory Rendezvous
  imports Scanf "HOL-Library.Code_Target_Nat"
begin

unbundle bit_operations_syntax

text \<open>
  Direct connections: the candidates, messages, STUN responses and probes of
  \<open>src/socket_direct.c\<close>, without the system calls that carry them. \<open>inet_pton\<close> and \<open>inet_ntop\<close>
  belong to the C library and are arguments: the first gives the bytes of an IPv4 or IPv6
  address (the model is that of a build with IPv6), the second its text, if it fits the
  caller's buffer.
\<close>

section \<open>Candidates\<close>

datatype socket_candidate_kind = SOCKET_CANDIDATE_LAN | SOCKET_CANDIDATE_IPV6 | SOCKET_CANDIDATE_PRFLX
  | SOCKET_CANDIDATE_MAPPED | SOCKET_CANDIDATE_SRFLX | SOCKET_CANDIDATE_DIRECTORY | SOCKET_CANDIDATE_NUM

record socket_direct_candidate =
  cd_host :: bytes
  cd_port :: u16
  cd_kind :: socket_candidate_kind

datatype ip_address = IPv4 u32 | IPv6 bytes

record inet =
  inet_pton4 :: "bytes \<Rightarrow> u32 option"
  inet_pton6 :: "bytes \<Rightarrow> bytes option"

fun socket_candidate_kind_name :: "socket_candidate_kind \<Rightarrow> bytes" where
  "socket_candidate_kind_name SOCKET_CANDIDATE_LAN = str ''lan''"
| "socket_candidate_kind_name SOCKET_CANDIDATE_IPV6 = str ''ipv6''"
| "socket_candidate_kind_name SOCKET_CANDIDATE_PRFLX = str ''prflx''"
| "socket_candidate_kind_name SOCKET_CANDIDATE_MAPPED = str ''mapped''"
| "socket_candidate_kind_name SOCKET_CANDIDATE_SRFLX = str ''srflx''"
| "socket_candidate_kind_name SOCKET_CANDIDATE_DIRECTORY = str ''directory''"
| "socket_candidate_kind_name SOCKET_CANDIDATE_NUM = str ''unknown''"

definition candidate_kinds :: "socket_candidate_kind list" where
  "candidate_kinds = [SOCKET_CANDIDATE_LAN, SOCKET_CANDIDATE_IPV6, SOCKET_CANDIDATE_PRFLX, SOCKET_CANDIDATE_MAPPED,
     SOCKET_CANDIDATE_SRFLX, SOCKET_CANDIDATE_DIRECTORY]"

definition socket_candidate_kind_parse :: "bytes \<Rightarrow> socket_candidate_kind option" where
  "socket_candidate_kind_parse name = find (\<lambda>k. socket_candidate_kind_name k = name) candidate_kinds"

datatype socket_connection_mode = SOCKET_CONNECTION_MODE_QUIC | SOCKET_CONNECTION_MODE_QUIC_LAN | SOCKET_CONNECTION_MODE_QUIC_IPV6
  | SOCKET_CONNECTION_MODE_QUIC_MAPPED | SOCKET_CONNECTION_MODE_QUIC_SRFLX | SOCKET_CONNECTION_MODE_QUIC_DIRECTORY
  | SOCKET_CONNECTION_MODE_NUM | SOCKET_CONNECTION_MODE_INTERNAL

fun socket_candidate_kind_mode :: "socket_candidate_kind \<Rightarrow> socket_connection_mode" where
  "socket_candidate_kind_mode SOCKET_CANDIDATE_LAN = SOCKET_CONNECTION_MODE_QUIC_LAN"
| "socket_candidate_kind_mode SOCKET_CANDIDATE_IPV6 = SOCKET_CONNECTION_MODE_QUIC_IPV6"
| "socket_candidate_kind_mode SOCKET_CANDIDATE_PRFLX = SOCKET_CONNECTION_MODE_QUIC_SRFLX"
| "socket_candidate_kind_mode SOCKET_CANDIDATE_MAPPED = SOCKET_CONNECTION_MODE_QUIC_MAPPED"
| "socket_candidate_kind_mode SOCKET_CANDIDATE_SRFLX = SOCKET_CONNECTION_MODE_QUIC_SRFLX"
| "socket_candidate_kind_mode SOCKET_CANDIDATE_DIRECTORY = SOCKET_CONNECTION_MODE_QUIC_DIRECTORY"
| "socket_candidate_kind_mode SOCKET_CANDIDATE_NUM = SOCKET_CONNECTION_MODE_QUIC"

text \<open>The array of candidates with room for \<open>capacity\<close> of them.\<close>

definition socket_candidate_add ::
  "nat \<Rightarrow> bytes \<Rightarrow> u16 \<Rightarrow> socket_candidate_kind \<Rightarrow> socket_direct_candidate list \<Rightarrow> bool \<times> socket_direct_candidate list" where
  "socket_candidate_add capacity host port kind candidates =
     (if list_ex (\<lambda>c. cd_port c = port \<and> cd_host c = host) candidates then (True, candidates)
      else if length candidates \<ge> capacity then (False, candidates)
      else (True, candidates @ [\<lparr>cd_host = c_snprintf 65 host, cd_port = port, cd_kind = kind\<rparr>]))"

fun socket_candidate_address_valid :: "ip_address \<Rightarrow> bool" where
  "socket_candidate_address_valid (IPv4 v) \<longleftrightarrow>
     v \<noteq> 0 \<and> drop_bit 24 v \<noteq> 127 \<and> v AND 0xf0000000 \<noteq> 0xe0000000"
| "socket_candidate_address_valid (IPv6 a) \<longleftrightarrow>
     a \<noteq> replicate 16 0 \<and> a \<noteq> replicate 15 0 @ [1] \<and> \<not> (a ! 0 = 0xfe \<and> a ! 1 AND 0xc0 = 0x80) \<and> a ! 0 \<noteq> 0xff"

fun socket_candidate_address_global :: "ip_address \<Rightarrow> bool" where
  "socket_candidate_address_global (IPv4 v) \<longleftrightarrow>
     v AND 0xff000000 \<noteq> 0 \<and> v AND 0xff000000 \<noteq> 0x0a000000 \<and> v AND 0xfff00000 \<noteq> 0xac100000 \<and>
     v AND 0xffff0000 \<noteq> 0xc0a80000 \<and> v AND 0xffc00000 \<noteq> 0x64400000 \<and> v AND 0xffff0000 \<noteq> 0xa9fe0000 \<and>
     v AND 0xff000000 \<noteq> 0x7f000000 \<and> v < 0xe0000000"
| "socket_candidate_address_global (IPv6 a) \<longleftrightarrow> a ! 0 AND 0xe0 = 0x20"

definition socket_host_is_global :: "inet \<Rightarrow> bytes \<Rightarrow> bool" where
  "socket_host_is_global net host = (case inet_pton4 net host of
     Some v \<Rightarrow> socket_candidate_address_global (IPv4 v)
   | None \<Rightarrow> (case inet_pton6 net host of
       Some a \<Rightarrow> socket_candidate_address_global (IPv6 a)
     | None \<Rightarrow> False))"

text \<open>An entry of \<open>getifaddrs\<close>: the address, if any, whether the interface is up, whether it is
  the loopback interface, and the text of the address. \<open>getnameinfo\<close> fails where the text and
  its end do not fit.\<close>

record interface_entry =
  if_addr :: "ip_address option"
  if_up :: bool
  if_loopback :: bool
  if_name :: "bytes option"

definition c_getnameinfo :: "nat \<Rightarrow> bytes option \<Rightarrow> bytes option" where
  "c_getnameinfo sz name = (case name of None \<Rightarrow> None | Some s \<Rightarrow> if length s < sz then Some s else None)"

definition socket_local_candidate_step ::
  "nat \<Rightarrow> u16 \<Rightarrow> interface_entry \<Rightarrow> socket_direct_candidate list \<Rightarrow> socket_direct_candidate list" where
  "socket_local_candidate_step capacity port entry candidates = (case if_addr entry of
     None \<Rightarrow> candidates
   | Some a \<Rightarrow>
       if \<not> if_up entry \<or> if_loopback entry \<or> \<not> socket_candidate_address_valid a then candidates
       else (case c_getnameinfo 65 (if_name entry) of
           None \<Rightarrow> candidates
         | Some host \<Rightarrow> snd (socket_candidate_add capacity host port
             (if socket_candidate_address_global a then SOCKET_CANDIDATE_IPV6 else SOCKET_CANDIDATE_LAN) candidates)))"

definition socket_local_candidates :: "interface_entry list option \<Rightarrow> u16 \<Rightarrow> nat \<Rightarrow> socket_direct_candidate list" where
  "socket_local_candidates interfaces port capacity = (case interfaces of
     None \<Rightarrow> []
   | Some entries \<Rightarrow> fold (socket_local_candidate_step capacity port) entries [])"


section \<open>Rendezvous messages\<close>

definition socket_rendezvous_ticket_valid :: "bytes option \<Rightarrow> bool" where
  "socket_rendezvous_ticket_valid ticket = string_is_hex_fixed ticket 64 True"

definition socket_rendezvous_host_valid :: "inet \<Rightarrow> bytes option \<Rightarrow> bool" where
  "socket_rendezvous_host_valid net host = (case host of
     None \<Rightarrow> False
   | Some h \<Rightarrow> inet_pton4 net h \<noteq> None \<or> inet_pton6 net h \<noteq> None)"

definition host_char :: "u8 \<Rightarrow> bool" where
  "host_char c \<longleftrightarrow> c_isdigit c \<or> (97 \<le> c \<and> c \<le> 102) \<or> (65 \<le> c \<and> c \<le> 70) \<or> c = 58 \<or> c = 46"

definition kind_char :: "u8 \<Rightarrow> bool" where
  "kind_char c \<longleftrightarrow> c_islower c \<or> c_isdigit c"

definition ticket_char :: "u8 \<Rightarrow> bool" where
  "ticket_char c \<longleftrightarrow> c_isdigit c \<or> (97 \<le> c \<and> c \<le> 102)"

definition client_scan :: "scan_directive list" where
  "client_scan = [Scan_text (str ''{\"type\":\"client_candidate\",\"host\":\"''), Scan_set 64 host_char,
     Scan_text (str ''\",\"port\":''), Scan_uint, Scan_text (str '',\"ticket\":\"''), Scan_set 64 ticket_char, Scan_text (str ''\"}'')]"

definition server_scan :: "scan_directive list" where
  "server_scan = [Scan_text (str ''{\"type\":\"server_candidate\",\"host\":\"''), Scan_set 64 host_char,
     Scan_text (str ''\",\"port\":''), Scan_uint, Scan_text (str '',\"kind\":\"''), Scan_set 15 kind_char,
     Scan_text (str ''\",\"ticket\":\"''), Scan_set 64 ticket_char, Scan_text (str ''\"}'')]"

text \<open>\<open>message[consumed]\<close>, where \<open>consumed\<close> stays 0 when the scan does not reach \<open>%n\<close>.\<close>

definition scan_rest :: "bytes \<Rightarrow> bytes option \<Rightarrow> bytes" where
  "scan_rest message rest = (case rest of None \<Rightarrow> message | Some r \<Rightarrow> r)"

definition socket_rendezvous_client_candidate_parse :: "inet \<Rightarrow> nat \<Rightarrow> bytes option \<Rightarrow> (bytes \<times> u16 \<times> bytes) option" where
  "socket_rendezvous_client_candidate_parse net host_size message = (case message of
     None \<Rightarrow> None
   | Some message \<Rightarrow>
       if host_size = 0 then None
       else (case c_sscanf client_scan message of
           ([Scanned_text host, Scanned_uint port, Scanned_text ticket], rest) \<Rightarrow>
             if scan_rest message rest \<noteq> [] \<or> port = 0 \<or> port > 65535 \<or> \<not> socket_rendezvous_host_valid net (Some host) \<or>
                \<not> socket_rendezvous_ticket_valid (Some ticket) \<or> length host \<ge> host_size
             then None
             else Some (c_snprintf host_size host, ucast port, c_snprintf 65 ticket)
         | _ \<Rightarrow> None))"

definition socket_rendezvous_server_candidate_parse ::
  "inet \<Rightarrow> bytes option \<Rightarrow> bytes option \<Rightarrow> socket_direct_candidate option" where
  "socket_rendezvous_server_candidate_parse net message expected_ticket = (case (message, expected_ticket) of
     (Some message, Some expected) \<Rightarrow>
       if \<not> socket_rendezvous_ticket_valid (Some expected) then None
       else (case c_sscanf server_scan message of
           ([Scanned_text host, Scanned_uint port, Scanned_text kind, Scanned_text ticket], rest) \<Rightarrow>
             if scan_rest message rest \<noteq> [] \<or> port = 0 \<or> port > 65535 \<or> ticket \<noteq> expected \<or>
                \<not> socket_rendezvous_host_valid net (Some host)
             then None
             else (case socket_candidate_kind_parse kind of
                 None \<Rightarrow> None
               | Some parsed \<Rightarrow> Some \<lparr>cd_host = c_snprintf 65 host, cd_port = ucast port, cd_kind = parsed\<rparr>)
         | _ \<Rightarrow> None)
   | _ \<Rightarrow> None)"

text \<open>Rendering: whether the whole message fits, and what the buffer holds.\<close>

definition socket_rendezvous_message_render ::
  "inet \<Rightarrow> nat \<Rightarrow> bytes option \<Rightarrow> bytes option \<Rightarrow> u16 \<Rightarrow> socket_candidate_kind \<Rightarrow> bytes option \<Rightarrow> bytes option \<Rightarrow> bool \<times> bytes option" where
  "socket_rendezvous_message_render net sz type host port kind ticket buffer =
     (case (buffer, type, ticket) of
        (Some _, Some type, Some tk) \<Rightarrow>
          if sz = 0 \<or> \<not> socket_rendezvous_ticket_valid ticket then (False, buffer)
          else if type = str ''complete''
          then (let m = str ''{\"type\":\"complete\",\"ticket\":\"'' @ tk @ str ''\"}'' in (length m < sz, Some (c_snprintf sz m)))
          else if type = str ''client_candidate'' \<and> socket_rendezvous_host_valid net host
          then (let m = str ''{\"type\":\"client_candidate\",\"host\":\"'' @ the host @ str ''\",\"port\":'' @ c_decimal (unat port) @
                  str '',\"ticket\":\"'' @ tk @ str ''\"}'' in (length m < sz, Some (c_snprintf sz m)))
          else if type = str ''server_candidate'' \<and> socket_rendezvous_host_valid net host \<and> kind \<noteq> SOCKET_CANDIDATE_NUM
          then (let m = str ''{\"type\":\"server_candidate\",\"host\":\"'' @ the host @ str ''\",\"port\":'' @ c_decimal (unat port) @
                  str '',\"kind\":\"'' @ socket_candidate_kind_name kind @ str ''\",\"ticket\":\"'' @ tk @ str ''\"}'' in (length m < sz, Some (c_snprintf sz m)))
          else (False, buffer)
      | _ \<Rightarrow> (False, buffer))"

definition socket_rendezvous_complete_parse :: "inet \<Rightarrow> bytes option \<Rightarrow> bytes option \<Rightarrow> bool" where
  "socket_rendezvous_complete_parse net message expected_ticket = (case message of
     None \<Rightarrow> False
   | Some message \<Rightarrow>
       let (ok, expected) = socket_rendezvous_message_render net 128 (Some (str ''complete'')) None 0 SOCKET_CANDIDATE_NUM expected_ticket (Some [])
       in ok \<and> expected = Some message)"


section \<open>Messages\<close>

lemma kind_name_chars: "kind \<noteq> SOCKET_CANDIDATE_NUM \<Longrightarrow>
  list_all kind_char (socket_candidate_kind_name kind) \<and> socket_candidate_kind_name kind \<noteq> [] \<and> length (socket_candidate_kind_name kind) \<le> 15"
  by (cases kind) (simp_all add: str_def kind_char_def c_islower_def c_isdigit_def)

lemma kind_parse_name: "kind \<noteq> SOCKET_CANDIDATE_NUM \<Longrightarrow> socket_candidate_kind_parse (socket_candidate_kind_name kind) = Some kind"
  by (cases kind) (simp_all add: socket_candidate_kind_parse_def candidate_kinds_def str_def)

lemma ticket_chars: "socket_rendezvous_ticket_valid (Some ticket) \<Longrightarrow> list_all ticket_char ticket \<and> length ticket = 64"
  by (auto simp: socket_rendezvous_ticket_valid_def string_is_hex_fixed_def list_all_iff hex_fixed_char_def ticket_char_def c_isdigit_def
      split: if_splits)

definition server_message :: "bytes \<Rightarrow> u16 \<Rightarrow> socket_candidate_kind \<Rightarrow> bytes \<Rightarrow> bytes" where
  "server_message host port kind ticket = str ''{\"type\":\"server_candidate\",\"host\":\"'' @ host @ str ''\",\"port\":'' @ c_decimal (unat port) @
     str '',\"kind\":\"'' @ socket_candidate_kind_name kind @ str ''\",\"ticket\":\"'' @ ticket @ str ''\"}''"

definition client_message :: "bytes \<Rightarrow> u16 \<Rightarrow> bytes \<Rightarrow> bytes" where
  "client_message host port ticket = str ''{\"type\":\"client_candidate\",\"host\":\"'' @ host @ str ''\",\"port\":'' @ c_decimal (unat port) @
     str '',\"ticket\":\"'' @ ticket @ str ''\"}''"

lemma scan_separators:
  "\<not> host_char (hd (str ''\",\"port\":''))" "\<not> c_isdigit (hd (str '',\"ticket\":\"''))" "\<not> c_isdigit (hd (str '',\"kind\":\"''))"
  "\<not> kind_char (hd (str ''\",\"ticket\":\"''))" "\<not> ticket_char (hd (str ''\"}''))"
  by (simp_all add: str_def host_char_def c_isdigit_def c_islower_def kind_char_def ticket_char_def)

lemma str_Nil [simp]: "str s = [] \<longleftrightarrow> s = []"
  by (simp add: str_def)

lemma u16_u32 [simp]: "unat (port :: u16) < 4294967296"
  using less_trans [OF unsigned_less [of port, where ?'a = nat], of "2 ^ 32"] by simp

lemma sscanf_set_last:
  assumes "list_all P s" "s \<noteq> []" "length s \<le> n" "t \<noteq> []" "\<not> P (hd t)"
  shows "c_sscanf [Scan_set n P, Scan_text t] (s @ t) = ([Scanned_text s], Some [])"
  using sscanf_set_text [OF assms, of "[]" "[]"] by simp

lemma scan_server_message:
  assumes "list_all host_char host" "host \<noteq> []" "length host \<le> 64" "kind \<noteq> SOCKET_CANDIDATE_NUM"
    "socket_rendezvous_ticket_valid (Some ticket)"
  shows "c_sscanf server_scan (server_message host port kind ticket) =
    ([Scanned_text host, Scanned_uint (ucast port), Scanned_text (socket_candidate_kind_name kind), Scanned_text ticket], Some [])"
proof -
  have "list_all ticket_char ticket" "ticket \<noteq> []" "length ticket \<le> 64" using ticket_chars [OF assms(5)] by auto
  then show ?thesis
    unfolding server_message_def server_scan_def sscanf_text
    using assms kind_name_chars [OF assms(4)]
    by (simp add: sscanf_uint_text sscanf_set_text sscanf_set_last scan_separators u16_u32)
qed


lemma scan_client_message:
  assumes "list_all host_char host" "host \<noteq> []" "length host \<le> 64" "socket_rendezvous_ticket_valid (Some ticket)"
  shows "c_sscanf client_scan (client_message host port ticket) =
    ([Scanned_text host, Scanned_uint (ucast port), Scanned_text ticket], Some [])"
proof -
  have "list_all ticket_char ticket" "ticket \<noteq> []" "length ticket \<le> 64" using ticket_chars [OF assms(4)] by auto
  then show ?thesis
    unfolding client_message_def client_scan_def sscanf_text
    using assms by (simp add: sscanf_uint_text sscanf_set_text sscanf_set_last scan_separators)
qed

lemma ucast_port [simp]: "\<not> 65535 < (ucast (port :: u16) :: u32)" "ucast (ucast port :: u32) = port" "(ucast port :: u32) = 0 \<longleftrightarrow> port = 0"
proof -
  have "unat port < 2 ^ 16" using unsigned_less [of port, where ?'a = nat] by simp
  then show "\<not> 65535 < (ucast port :: u32)" by (simp add: word_less_nat_alt unsigned_ucast_eq take_bit_nat_eq_self)
  show "ucast (ucast port :: u32) = port" by (rule bit_word_eqI) (simp add: bit_simps)
  then show "(ucast port :: u32) = 0 \<longleftrightarrow> port = 0" by (metis unsigned_0)
qed


text \<open>
  \<open>inet_pton\<close> accepts only texts of digits, hexadecimal letters, dots and colons, of at most 45
  characters.
\<close>

definition inet_documented :: "inet \<Rightarrow> bool" where
  "inet_documented net \<longleftrightarrow> (\<forall>h. inet_pton4 net h \<noteq> None \<or> inet_pton6 net h \<noteq> None \<longrightarrow> list_all host_char h \<and> h \<noteq> [] \<and> length h \<le> 45)"

lemma host_documented:
  assumes "inet_documented net" "socket_rendezvous_host_valid net (Some h)"
  shows "list_all host_char h \<and> h \<noteq> [] \<and> length h \<le> 64"
  using assms unfolding inet_documented_def socket_rendezvous_host_valid_def by fastforce

lemma render_cases:
  assumes "socket_rendezvous_message_render net sz (Some type) (Some host) port kind (Some ticket) (Some buf) = (True, Some m)"
  shows "socket_rendezvous_ticket_valid (Some ticket) \<and>
    (type = str ''complete'' \<and> m = str ''{\"type\":\"complete\",\"ticket\":\"'' @ ticket @ str ''\"}'' \<or>
     type = str ''client_candidate'' \<and> socket_rendezvous_host_valid net (Some host) \<and> m = client_message host port ticket \<or>
     type = str ''server_candidate'' \<and> socket_rendezvous_host_valid net (Some host) \<and> kind \<noteq> SOCKET_CANDIDATE_NUM \<and>
       m = server_message host port kind ticket)"
  using assms
  by (auto simp: socket_rendezvous_message_render_def c_snprintf_def client_message_def server_message_def Let_def split: if_splits)

lemma server_parse_message:
  assumes "inet_documented net" "socket_rendezvous_host_valid net (Some host)" "kind \<noteq> SOCKET_CANDIDATE_NUM"
    "socket_rendezvous_ticket_valid (Some ticket)"
  shows "socket_rendezvous_server_candidate_parse net (Some (server_message host port kind ticket)) (Some t) =
    (if port \<noteq> 0 \<and> t = ticket then Some \<lparr>cd_host = host, cd_port = port, cd_kind = kind\<rparr> else None)"
proof -
  have "list_all host_char host" "host \<noteq> []" "length host \<le> 64" using host_documented [OF assms(1,2)] by auto
  then show ?thesis
    using assms scan_server_message [of host kind ticket port] kind_parse_name [OF assms(3)]
    by (auto simp: socket_rendezvous_server_candidate_parse_def scan_rest_def c_snprintf_def not_less)
qed

lemma client_parse_message:
  assumes "inet_documented net" "socket_rendezvous_host_valid net (Some host)" "socket_rendezvous_ticket_valid (Some ticket)"
  shows "socket_rendezvous_client_candidate_parse net host_size (Some (client_message host port ticket)) =
    (if port \<noteq> 0 \<and> length host < host_size then Some (host, port, ticket) else None)"
proof -
  have "list_all host_char host" "host \<noteq> []" "length host \<le> 64" using host_documented [OF assms(1,2)] by auto
  then show ?thesis
    using assms scan_client_message [of host ticket port] ticket_chars [OF assms(3)]
    by (auto simp: socket_rendezvous_client_candidate_parse_def scan_rest_def c_snprintf_def not_less)
qed

lemma complete_parse_message:
  assumes "socket_rendezvous_ticket_valid (Some ticket)"
  shows "socket_rendezvous_complete_parse net (Some (str ''{\"type\":\"complete\",\"ticket\":\"'' @ ticket @ str ''\"}'')) (Some t) \<longleftrightarrow> t = ticket"
proof -
  have "length t = 64" if "socket_rendezvous_ticket_valid (Some t)" for t using ticket_chars that by blast
  then show ?thesis using assms
    by (auto simp: socket_rendezvous_complete_parse_def socket_rendezvous_message_render_def c_snprintf_def Let_def str_def)
qed

text \<open>
  C29. Every rendezvous message that is rendered completely is of one of three types, and its
  parser takes it back apart. A server candidate gives the same host, port and kind, exactly
  to the peer that expects the message's ticket. A client candidate gives the same host, port
  and ticket to every receiver whose buffer holds the host: its parser expects no ticket but
  returns it. A completion is accepted exactly by the peer that expects its ticket. The port of a
  candidate must not be 0: such a message is rendered all the same, and both parsers refuse it.
\<close>

theorem rendezvous_roundtrip:
  assumes "inet_documented net"
    and "socket_rendezvous_message_render net sz (Some type) (Some host) port kind (Some ticket) (Some buf) = (True, Some m)"
  shows "type = str ''server_candidate'' \<and>
      (\<forall>t. socket_rendezvous_server_candidate_parse net (Some m) (Some t) =
        (if port \<noteq> 0 \<and> t = ticket then Some \<lparr>cd_host = host, cd_port = port, cd_kind = kind\<rparr> else None)) \<or>
    type = str ''client_candidate'' \<and>
      (\<forall>size. socket_rendezvous_client_candidate_parse net size (Some m) =
        (if port \<noteq> 0 \<and> length host < size then Some (host, port, ticket) else None)) \<or>
    type = str ''complete'' \<and> (\<forall>t. socket_rendezvous_complete_parse net (Some m) (Some t) \<longleftrightarrow> t = ticket)"
  using render_cases [OF assms(2)] server_parse_message [OF assms(1)] client_parse_message [OF assms(1)] complete_parse_message
  by blast

definition example_net :: inet where
  "example_net = \<lparr>inet_pton4 = (\<lambda>h. if h = str ''10.0.0.7'' then Some 0x0a000007 else None), inet_pton6 = (\<lambda>h. None)\<rparr>"

lemma example_net_documented: "inet_documented example_net"
  by (simp add: inet_documented_def example_net_def str_def host_char_def c_isdigit_def)

theorem rendezvous_roundtrip_witness:
  "\<exists>m. socket_rendezvous_message_render example_net 256 (Some (str ''server_candidate'')) (Some (str ''10.0.0.7'')) 13327 SOCKET_CANDIDATE_LAN
      (Some (replicate 64 97)) (Some []) = (True, Some m) \<and>
    socket_rendezvous_server_candidate_parse example_net (Some m) (Some (replicate 64 97)) =
      Some \<lparr>cd_host = str ''10.0.0.7'', cd_port = 13327, cd_kind = SOCKET_CANDIDATE_LAN\<rparr>"
proof -
  let ?r = "socket_rendezvous_message_render example_net 256 (Some (str ''server_candidate'')) (Some (str ''10.0.0.7'')) 13327 SOCKET_CANDIDATE_LAN
      (Some (replicate 64 97)) (Some [])"
  have "fst ?r" "\<not> Option.is_none (snd ?r)" by code_simp+
  then obtain m where m: "?r = (True, Some m)" by (cases ?r) (auto simp: Option.is_none_def)
  have "str ''server_candidate'' \<noteq> str ''client_candidate''" "str ''server_candidate'' \<noteq> str ''complete''" by (simp_all add: str_def)
  then show ?thesis using m rendezvous_roundtrip [OF example_net_documented m] by auto
qed

end
