(* ===== verification/Punch.thy ===== *)
theory Punch
  imports Rendezvous
begin

text \<open>
  The second half of \<open>src/socket_direct.c\<close>: STUN discovery, paced UDP probes and the client's
  side of a rendezvous. System calls and libcurl are arguments: what a name resolves to,
  which sends succeed, which datagrams and WebSocket frames arrive and what the clock shows.
  Log lines are left out.
\<close>

section \<open>STUN\<close>

datatype address_family = AF_INET | AF_INET6

definition SOCKET_STUN_MAGIC :: u32 where "SOCKET_STUN_MAGIC = 0x2112a442"

text \<open>A read outside the bytes received is \<open>None\<close>.\<close>

definition stun_byte :: "bytes \<Rightarrow> nat \<Rightarrow> u8 option" where
  "stun_byte b i = (if i < length b then Some (b ! i) else None)"

definition socket_stun_u16 :: "bytes \<Rightarrow> nat \<Rightarrow> u16 option" where
  "socket_stun_u16 b i = do {
     b0 \<leftarrow> stun_byte b i;
     b1 \<leftarrow> stun_byte b (i + 1);
     Some (push_bit 8 (ucast b0) OR ucast b1)
   }"

definition socket_stun_u32 :: "bytes \<Rightarrow> nat \<Rightarrow> u32 option" where
  "socket_stun_u32 b i = do {
     b0 \<leftarrow> stun_byte b i;
     b1 \<leftarrow> stun_byte b (i + 1);
     b2 \<leftarrow> stun_byte b (i + 2);
     b3 \<leftarrow> stun_byte b (i + 3);
     Some (push_bit 24 (ucast b0) OR push_bit 16 (ucast b1) OR push_bit 8 (ucast b2) OR ucast b3)
   }"

text \<open>What a discovery leaves: its result, the port and the host if they were written.\<close>

type_synonym stun_result = "bool \<times> u16 option \<times> bytes option"
type_synonym inet_ntop = "address_family \<Rightarrow> bytes \<Rightarrow> nat \<Rightarrow> bytes option"

definition stun_request :: "bytes \<Rightarrow> bytes" where
  "stun_request random = [0, 1, 0, 0, 0x21, 0x12, 0xa4, 0x42] @ random"

definition stun_mask :: "bytes \<Rightarrow> bytes" where
  "stun_mask request = [0x21, 0x12, 0xa4, 0x42] @ drop 8 request"

definition stun_address :: "bytes \<Rightarrow> bytes \<Rightarrow> nat \<Rightarrow> nat \<Rightarrow> bytes option" where
  "stun_address request response value address_length =
     those (map (\<lambda>i. map_option (\<lambda>b. b XOR stun_mask request ! i) (stun_byte response (value + 4 + i))) [0..<address_length])"

definition stun_mapped :: "inet_ntop \<Rightarrow> nat \<Rightarrow> bytes \<Rightarrow> bytes \<Rightarrow> nat \<Rightarrow> nat \<Rightarrow> stun_result option" where
  "stun_mapped ntop host_size request response value value_length = do {
     family \<leftarrow> stun_byte response (value + 1);
     p \<leftarrow> socket_stun_u16 response (value + 2);
     let port = p XOR ucast (drop_bit 16 SOCKET_STUN_MAGIC);
     let address_length = (if family = 1 then 4 else if family = 2 then 16 else 0 :: nat);
     if address_length = 0 \<or> value_length < 4 + address_length then Some (False, Some port, None)
     else do {
       address \<leftarrow> stun_address request response value address_length;
       let host = ntop (if family = 1 then AF_INET else AF_INET6) address host_size;
       Some (host \<noteq> None, Some port, host)
     }
   }"

definition stun_attribute_step ::
  "inet_ntop \<Rightarrow> nat \<Rightarrow> bytes \<Rightarrow> bytes \<Rightarrow> nat \<Rightarrow> nat \<Rightarrow> (nat + stun_result) option" where
  "stun_attribute_step ntop host_size request response message_length offset =
     (if \<not> offset + 4 \<le> 20 + message_length then Some (Inr (False, None, None))
      else do {
        type \<leftarrow> socket_stun_u16 response offset;
        n \<leftarrow> socket_stun_u16 response (offset + 2);
        let value_length = unat n;
        let value = offset + 4;
        if offset + 4 + value_length > length response then Some (Inr (False, None, None))
        else if type = 0x0020 \<and> value_length \<ge> 8
        then map_option Inr (stun_mapped ntop host_size request response value value_length)
        else Some (Inl (offset + (4 + 4 * ((value_length + 3) div 4))))
      })"

definition socket_stun_response :: "inet_ntop \<Rightarrow> nat \<Rightarrow> bytes \<Rightarrow> bytes \<Rightarrow> stun_result option" where
  "socket_stun_response ntop host_size request response =
     (if length response < 20 then Some (False, None, None)
      else do {
        t \<leftarrow> socket_stun_u16 response 0;
        magic \<leftarrow> socket_stun_u32 response 4;
        if t \<noteq> 0x0101 \<or> magic \<noteq> SOCKET_STUN_MAGIC \<or> take 12 (drop 8 response) \<noteq> take 12 (drop 8 request)
        then Some (False, None, None)
        else do {
          n \<leftarrow> socket_stun_u16 response 2;
          let message_length = unat n;
          if message_length > length response - 20 then Some (False, None, None)
          else c_loop (stun_attribute_step ntop host_size request response message_length) 20
        }
      })"

text \<open>
  The system around a discovery: the resolver with the family of the socket, the random bytes
  of the transaction, which sends succeed, and the datagram that answers a request within
  three seconds.
\<close>

record 'a stun_env =
  se_resolve :: "bytes \<Rightarrow> bytes \<Rightarrow> 'a list option"
  se_random :: "bytes option"
  se_send :: "'a \<Rightarrow> bytes \<Rightarrow> bool"
  se_receive :: "bytes \<Rightarrow> bytes option"
  se_ntop :: inet_ntop

definition strrchr :: "bytes \<Rightarrow> u8 \<Rightarrow> nat option" where
  "strrchr s c = find (\<lambda>i. s ! i = c) (rev [0..<length s])"

definition socket_stun_discover :: "'a stun_env \<Rightarrow> bytes \<Rightarrow> nat \<Rightarrow> stun_result option" where
  "socket_stun_discover env endpoint host_size = (case strrchr endpoint 58 of
     None \<Rightarrow> Some (False, None, None)
   | Some separator \<Rightarrow>
       if separator = 0 \<or> separator + 1 = length endpoint \<or> length (drop (separator + 1) endpoint) \<ge> 6 then Some (False, None, None)
       else if separator \<ge> MAX_BUF then Some (False, None, None)
       else (case se_resolve env (take separator endpoint) (c_snprintf 6 (drop (separator + 1) endpoint)) of
           None \<Rightarrow> Some (False, None, None)
         | Some addresses \<Rightarrow>
             (case se_random env of
                None \<Rightarrow> Some (False, None, None)
              | Some random \<Rightarrow>
                  let request = stun_request random in
                  if \<not> list_ex (\<lambda>ai. se_send env ai request) addresses then Some (False, None, None)
                  else (case se_receive env request of
                      None \<Rightarrow> Some (False, None, None)
                    | Some datagram \<Rightarrow> socket_stun_response (se_ntop env) host_size request (take 1024 datagram)))))"


section \<open>Probes\<close>

definition SOCKET_PUNCH_PROBE :: bytes where "SOCKET_PUNCH_PROBE = str ''ATRINIK-PUNCH-1''"
definition SOCKET_PUNCH_COUNT :: u32 where "SOCKET_PUNCH_COUNT = 10"
definition SOCKET_PUNCH_INTERVAL_MS :: u32 where "SOCKET_PUNCH_INTERVAL_MS = 100"
definition SOCKET_PUNCH_DRAIN_MAX :: nat where "SOCKET_PUNCH_DRAIN_MAX = 32"
definition SOCKET_DIRECT_MAX_CANDIDATES :: nat where "SOCKET_DIRECT_MAX_CANDIDATES = 12"

datatype socket_punch_action = SOCKET_PUNCH_WAIT | SOCKET_PUNCH_SEND | SOCKET_PUNCH_COMPLETE

record socket_punch_pacer =
  next_action_ms :: u64
  pc_attempts :: u32
  grace_ms :: u32
  pc_active :: bool

definition socket_punch_pacer_start :: "u64 \<Rightarrow> u32 \<Rightarrow> socket_punch_pacer" where
  "socket_punch_pacer_start now_ms grace = \<lparr>next_action_ms = now_ms, pc_attempts = 0, grace_ms = grace, pc_active = True\<rparr>"

definition socket_punch_pacer_poll :: "socket_punch_pacer \<Rightarrow> u64 \<Rightarrow> socket_punch_action" where
  "socket_punch_pacer_poll pacer now_ms =
     (if \<not> pc_active pacer \<or> now_ms < next_action_ms pacer then SOCKET_PUNCH_WAIT
      else if pc_attempts pacer < SOCKET_PUNCH_COUNT then SOCKET_PUNCH_SEND else SOCKET_PUNCH_COMPLETE)"

fun socket_punch_pacer_advance :: "socket_punch_pacer \<Rightarrow> u64 \<Rightarrow> socket_punch_action \<Rightarrow> socket_punch_pacer" where
  "socket_punch_pacer_advance pacer now_ms SOCKET_PUNCH_SEND =
     (let n = pc_attempts pacer + 1 in
      pacer\<lparr>pc_attempts := n, next_action_ms := now_ms + ucast (if n < SOCKET_PUNCH_COUNT then SOCKET_PUNCH_INTERVAL_MS else grace_ms pacer)\<rparr>)"
| "socket_punch_pacer_advance pacer now_ms SOCKET_PUNCH_COMPLETE = pacer\<lparr>pc_active := False\<rparr>"
| "socket_punch_pacer_advance pacer now_ms SOCKET_PUNCH_WAIT = pacer"

record socket_punch_job =
  job_candidate :: socket_direct_candidate
  job_pacer :: socket_punch_pacer

text \<open>A job of the zeroed array.\<close>

definition punch_job_zero :: socket_punch_job where
  "punch_job_zero = \<lparr>job_candidate = \<lparr>cd_host = [], cd_port = 0, cd_kind = SOCKET_CANDIDATE_LAN\<rparr>,
     job_pacer = \<lparr>next_action_ms = 0, pc_attempts = 0, grace_ms = 0, pc_active = False\<rparr>\<rparr>"

definition first_inactive :: "socket_punch_job list \<Rightarrow> nat option" where
  "first_inactive jobs = find (\<lambda>i. \<not> pc_active (job_pacer (jobs ! i))) [0..<length jobs]"

definition socket_udp_punch_schedule :: "u64 \<Rightarrow> socket_direct_candidate \<Rightarrow> socket_punch_job list \<Rightarrow> socket_punch_job list" where
  "socket_udp_punch_schedule now candidate jobs =
     (if cd_kind candidate \<noteq> SOCKET_CANDIDATE_MAPPED \<and> cd_kind candidate \<noteq> SOCKET_CANDIDATE_SRFLX then jobs
      else if list_ex (\<lambda>job. pc_active (job_pacer job) \<and> cd_port (job_candidate job) = cd_port candidate \<and>
                cd_host (job_candidate job) = cd_host candidate) jobs then jobs
      else (case first_inactive jobs of
          None \<Rightarrow> jobs
        | Some i \<Rightarrow> jobs[i := \<lparr>job_candidate = candidate, job_pacer = socket_punch_pacer_start now 0\<rparr>]))"

text \<open>A probe to every address that a host resolves to; the probe is sent if one send succeeds.\<close>

definition socket_udp_punch :: "(bytes \<Rightarrow> bytes \<Rightarrow> 'a list option) \<Rightarrow> ('a \<Rightarrow> bytes \<Rightarrow> bool) \<Rightarrow> bytes \<Rightarrow> u16 \<Rightarrow> bool" where
  "socket_udp_punch resolve send host port = (case resolve host (c_snprintf 6 (c_decimal (unat port))) of
     None \<Rightarrow> False
   | Some addresses \<Rightarrow> list_ex (\<lambda>ai. send ai SOCKET_PUNCH_PROBE) addresses)"

text \<open>One pass over the jobs: the jobs, the attempts and the probes sent.\<close>

fun socket_udp_punch_update ::
  "(bytes \<Rightarrow> u16 \<Rightarrow> bool) \<Rightarrow> u64 \<Rightarrow> socket_punch_job list \<Rightarrow> u32 \<Rightarrow> u32 \<Rightarrow> socket_punch_job list \<times> u32 \<times> u32" where
  "socket_udp_punch_update punch now [] attempts successful = ([], attempts, successful)"
| "socket_udp_punch_update punch now (job # jobs) attempts successful =
     (let action = socket_punch_pacer_poll (job_pacer job) now;
          job' = (if action = SOCKET_PUNCH_WAIT then job else job\<lparr>job_pacer := socket_punch_pacer_advance (job_pacer job) now action\<rparr>);
          attempts' = (if action = SOCKET_PUNCH_SEND then attempts + 1 else attempts);
          successful' = (if action = SOCKET_PUNCH_SEND \<and> punch (cd_host (job_candidate job)) (cd_port (job_candidate job))
                         then successful + 1 else successful);
          (rest, a, s) = socket_udp_punch_update punch now jobs attempts' successful'
      in (job' # rest, a, s))"

text \<open>
  A datagram in the queue of the socket: its bytes, and the host and service of its source. A datagram that is not a probe stays in the queue.
\<close>

record datagram =
  dg_data :: bytes
  dg_source :: "(bytes \<times> bytes) option"

definition c_getnameservice :: "(bytes \<times> bytes) option \<Rightarrow> (bytes \<times> bytes) option" where
  "c_getnameservice names = (case names of
     None \<Rightarrow> None
   | Some (host, service) \<Rightarrow> if length host < 65 \<and> length service < 6 then Some (host, service) else None)"

definition socket_udp_punch_receive :: "datagram list \<Rightarrow> (bytes \<times> u16) option \<times> datagram list" where
  "socket_udp_punch_receive queue = (case queue of
     [] \<Rightarrow> (None, [])
   | d # ds \<Rightarrow>
       if dg_data d \<noteq> SOCKET_PUNCH_PROBE then (None, queue)
       else (case c_getnameservice (dg_source d) of
           None \<Rightarrow> (None, ds)
         | Some (host, service) \<Rightarrow>
             (case string_parse_uint64 (Some service) 10 1 65535 of
                None \<Rightarrow> (None, ds)
              | Some v \<Rightarrow> (Some (host, ucast v), ds))))"

text \<open>The scan of the candidates: whether the endpoint is recorded, whether a peer-reflexive
  candidate was seen before it, and the candidates with the endpoint confirmed.\<close>

fun punch_confirm ::
  "bytes \<Rightarrow> u16 \<Rightarrow> bool \<Rightarrow> socket_direct_candidate list \<Rightarrow> bool \<times> bool \<times> socket_direct_candidate list" where
  "punch_confirm host port has_peer_reflexive [] = (False, has_peer_reflexive, [])"
| "punch_confirm host port has_peer_reflexive (c # cs) =
     (let has = has_peer_reflexive \<or> cd_kind c = SOCKET_CANDIDATE_PRFLX in
      if cd_port c = port \<and> cd_host c = host then (True, has, c\<lparr>cd_kind := SOCKET_CANDIDATE_PRFLX\<rparr> # cs)
      else let (already_recorded, has, cs) = punch_confirm host port has cs in (already_recorded, has, c # cs))"

fun socket_udp_punch_collect_loop ::
  "nat \<Rightarrow> nat \<Rightarrow> datagram list \<Rightarrow> socket_direct_candidate list \<Rightarrow> nat \<times> datagram list \<times> socket_direct_candidate list" where
  "socket_udp_punch_collect_loop capacity 0 queue candidates = (0, queue, candidates)"
| "socket_udp_punch_collect_loop capacity (Suc left) queue candidates =
     (case socket_udp_punch_receive queue of
        (None, queue) \<Rightarrow> (0, queue, candidates)
      | (Some (host, port), queue) \<Rightarrow>
          let (already_recorded, has_peer_reflexive, candidates) = punch_confirm host port False candidates;
              candidates = (if already_recorded \<or> has_peer_reflexive then candidates
                else snd (socket_candidate_add capacity host port SOCKET_CANDIDATE_PRFLX candidates));
              (received, queue, candidates) = socket_udp_punch_collect_loop capacity left queue candidates
          in (Suc received, queue, candidates))"

definition socket_udp_punch_collect ::
  "nat \<Rightarrow> datagram list \<Rightarrow> socket_direct_candidate list \<Rightarrow> nat \<times> datagram list \<times> socket_direct_candidate list" where
  "socket_udp_punch_collect capacity queue candidates = socket_udp_punch_collect_loop capacity SOCKET_PUNCH_DRAIN_MAX queue candidates"


section \<open>The rendezvous of a client\<close>

datatype socket_websocket_receive_state = SOCKET_WEBSOCKET_EMPTY | SOCKET_WEBSOCKET_PARTIAL | SOCKET_WEBSOCKET_MESSAGE | SOCKET_WEBSOCKET_CLOSED

text \<open>The answer of \<open>curl_ws_recv\<close>: try again, an error, or a frame with its flags, the bytes
  received and those left. \<open>None\<close> is a missing frame description.\<close>

record ws_frame =
  fr_close :: bool
  fr_text :: bool
  fr_bytesleft :: nat

datatype ws_answer = Ws_again | Ws_error | Ws_ok "ws_frame option" bytes

definition socket_websocket_receive :: "nat \<Rightarrow> ws_answer \<Rightarrow> bytes \<Rightarrow> socket_websocket_receive_state \<times> bytes" where
  "socket_websocket_receive capacity answer used =
     (if capacity < 2 \<or> length used \<ge> capacity - 1 then (SOCKET_WEBSOCKET_CLOSED, used)
      else (case answer of
          Ws_again \<Rightarrow> (SOCKET_WEBSOCKET_EMPTY, used)
        | Ws_error \<Rightarrow> (SOCKET_WEBSOCKET_CLOSED, used)
        | Ws_ok None _ \<Rightarrow> (SOCKET_WEBSOCKET_CLOSED, used)
        | Ws_ok (Some frame) received \<Rightarrow>
            if fr_close frame \<or> \<not> fr_text frame \<or> length received > capacity - 1 - length used then (SOCKET_WEBSOCKET_CLOSED, used)
            else if fr_bytesleft frame \<noteq> 0 then (SOCKET_WEBSOCKET_PARTIAL, used @ received)
            else (SOCKET_WEBSOCKET_MESSAGE, used @ received)))"

record rendezvous =
  rv_used :: bytes
  rv_candidates :: "socket_direct_candidate list"
  rv_jobs :: "socket_punch_job list"
  rv_attempts :: u32
  rv_sent :: u32
  rv_received :: nat
  rv_queue :: "datagram list"

text \<open>What one iteration meets: the clock at its start, new datagrams, the answer of the
  WebSocket and the clock afterwards.\<close>

record rv_input =
  in_now :: u64
  in_arrivals :: "datagram list"
  in_answer :: ws_answer
  in_clock :: u64

text \<open>The probes of an iteration.\<close>

definition rendezvous_punch :: "(bytes \<Rightarrow> u16 \<Rightarrow> bool) \<Rightarrow> nat \<Rightarrow> u64 \<Rightarrow> datagram list \<Rightarrow> rendezvous \<Rightarrow> rendezvous" where
  "rendezvous_punch punch capacity now arrivals st =
     (let (jobs, attempts, sent) = socket_udp_punch_update punch now (rv_jobs st) (rv_attempts st) (rv_sent st);
          (received, queue, candidates) = socket_udp_punch_collect capacity (rv_queue st @ arrivals) (rv_candidates st)
      in st\<lparr>rv_jobs := jobs, rv_attempts := attempts, rv_sent := sent, rv_received := rv_received st + received, rv_queue := queue,
           rv_candidates := candidates\<rparr>)"

text \<open>One iteration of the loop: \<open>Inl\<close> goes on, \<open>Inr\<close> leaves it, with whether the rendezvous is
  complete.\<close>

definition rendezvous_step ::
  "inet \<Rightarrow> (bytes \<Rightarrow> u16 \<Rightarrow> bool) \<Rightarrow> nat \<Rightarrow> bytes \<Rightarrow> u64 \<Rightarrow> rv_input \<Rightarrow> rendezvous \<Rightarrow> rendezvous + (bool \<times> rendezvous)" where
  "rendezvous_step net punch capacity ticket deadline_ms i st =
     (let st = rendezvous_punch punch capacity (in_now i) (in_arrivals i) st;
          (receive_state, used) = socket_websocket_receive 512 (in_answer i) (rv_used st);
          st = st\<lparr>rv_used := used\<rparr>
      in case receive_state of
          SOCKET_WEBSOCKET_EMPTY \<Rightarrow> if in_clock i \<ge> deadline_ms then Inr (False, st) else Inl st
        | SOCKET_WEBSOCKET_PARTIAL \<Rightarrow> Inl st
        | SOCKET_WEBSOCKET_CLOSED \<Rightarrow> Inr (False, st)
        | SOCKET_WEBSOCKET_MESSAGE \<Rightarrow>
            (case socket_rendezvous_server_candidate_parse net (Some (c_string used)) (Some ticket) of
               Some c \<Rightarrow> Inl (st\<lparr>rv_candidates := snd (socket_candidate_add capacity (cd_host c) (cd_port c) (cd_kind c) (rv_candidates st)),
                   rv_jobs := socket_udp_punch_schedule (in_clock i) c (rv_jobs st), rv_used := []\<rparr>)
             | None \<Rightarrow>
                 if socket_rendezvous_complete_parse net (Some (c_string used)) (Some ticket) then Inr (True, st\<lparr>rv_used := []\<rparr>)
                 else Inl (st\<lparr>rv_used := []\<rparr>)))"

text \<open>The loop over a sequence of inputs; \<open>Inl\<close> means that it has not ended with the last one.\<close>

fun rendezvous_run ::
  "inet \<Rightarrow> (bytes \<Rightarrow> u16 \<Rightarrow> bool) \<Rightarrow> nat \<Rightarrow> bytes \<Rightarrow> u64 \<Rightarrow> rv_input list \<Rightarrow> rendezvous \<Rightarrow> rendezvous + (bool \<times> rendezvous)" where
  "rendezvous_run net punch capacity ticket deadline_ms [] st = Inl st"
| "rendezvous_run net punch capacity ticket deadline_ms (i # is) st = (case rendezvous_step net punch capacity ticket deadline_ms i st of
     Inl st \<Rightarrow> rendezvous_run net punch capacity ticket deadline_ms is st
   | Inr result \<Rightarrow> Inr result)"


text \<open>A probe to the peer binds the socket; its own address is the candidate.\<close>

definition socket_local_candidate :: "address_family option \<Rightarrow> bool \<Rightarrow> (bytes \<times> bytes) option \<Rightarrow> (bytes \<times> u16) option" where
  "socket_local_candidate family sent names =
     (if family = None \<or> \<not> sent then None
      else (case c_getnameservice names of
          None \<Rightarrow> None
        | Some (host, service) \<Rightarrow> map_option (\<lambda>v. (host, ucast v)) (string_parse_uint64 (Some service) 10 1 65535)))"

record 'a rv_env =
  re_stun :: "'a stun_env"
  re_family :: "address_family option"
  re_probed :: bool
  re_names :: "(bytes \<times> bytes) option"
  re_random :: "bytes option"
  re_connected :: bool
  re_ws_send :: "bytes \<Rightarrow> bool"
  re_start :: u64
  re_inputs :: "rv_input list"
  re_final :: "u64 \<times> datagram list"

text \<open>The number of candidates returned and the array, or a loop that is still running after all
  inputs.\<close>

datatype rv_result = Rv_returns nat "socket_direct_candidate list" | Rv_running rendezvous

definition rendezvous_start :: rendezvous where
  "rendezvous_start = \<lparr>rv_used = [], rv_candidates = [], rv_jobs = replicate SOCKET_DIRECT_MAX_CANDIDATES punch_job_zero, rv_attempts = 0,
     rv_sent = 0, rv_received = 0, rv_queue = []\<rparr>"

definition rendezvous_own_candidate :: "'a rv_env \<Rightarrow> bytes option \<Rightarrow> (bytes \<times> u16) option option" where
  "rendezvous_own_candidate env stun_endpoint = do {
     stun \<leftarrow> (case stun_endpoint of
         None \<Rightarrow> Some (False, None, None)
       | Some endpoint \<Rightarrow> socket_stun_discover (re_stun env) endpoint 65);
     Some (case stun of
         (True, Some port, Some host) \<Rightarrow> Some (host, port)
       | _ \<Rightarrow> socket_local_candidate (re_family env) (re_probed env) (re_names env))
   }"

definition rendezvous_loop :: "'a rv_env \<Rightarrow> inet \<Rightarrow> nat \<Rightarrow> bytes \<Rightarrow> rv_result" where
  "rendezvous_loop env net capacity ticket =
     (let punch = socket_udp_punch (se_resolve (re_stun env)) (se_send (re_stun env));
          deadline_ms = re_start env + 5000
      in case rendezvous_run net punch capacity ticket deadline_ms (re_inputs env) rendezvous_start of
          Inl st \<Rightarrow> Rv_running st
        | Inr (complete, st) \<Rightarrow>
            let st = rendezvous_punch punch capacity (fst (re_final env)) (snd (re_final env)) st
            in Rv_returns (if complete then length (rv_candidates st) else 0) (rv_candidates st))"

definition socket_rendezvous_client :: "'a rv_env \<Rightarrow> inet \<Rightarrow> bytes option \<Rightarrow> bytes option \<Rightarrow> nat \<Rightarrow> rv_result option" where
  "socket_rendezvous_client env net url stun_endpoint capacity =
     (if url = None then Some (Rv_returns 0 [])
      else do {
        own \<leftarrow> rendezvous_own_candidate env stun_endpoint;
        Some (case (own, re_random env) of
            (Some (host, port), Some random_ticket) \<Rightarrow>
              let (n, hex) = string_tohex random_ticket 65 False;
                  ticket = string_tolower hex;
                  (ok, candidate) = socket_rendezvous_message_render net 256 (Some (str ''client_candidate'')) (Some host) port
                    SOCKET_CANDIDATE_NUM (Some ticket) (Some [])
              in if n \<noteq> 64 \<or> \<not> re_connected env \<or> \<not> ok \<or> \<not> re_ws_send env (the candidate) then Rv_returns 0 []
                 else rendezvous_loop env net capacity ticket
          | _ \<Rightarrow> Rv_returns 0 [])
      })"

end
