(* ===== verification/Punch_Correct.thy ===== *)
theory Punch_Correct
  imports Punch
begin

text \<open>
  Properties of \<open>Punch\<close>: STUN responses are read within their bounds and give the mapped
  address that they encode; probes are few and spaced; the candidates of a rendezvous are
  distinct endpoints that fit their array; and the loop of a rendezvous does not observe its
  deadline while frames arrive.
\<close>

section \<open>STUN\<close>

lemma stun_byte_Some [simp]: "i < length b \<Longrightarrow> stun_byte b i = Some (b ! i)"
  by (simp add: stun_byte_def)

definition be16 :: "u8 \<Rightarrow> u8 \<Rightarrow> u16" where
  "be16 a b = push_bit 8 (ucast a) OR ucast b"

lemma stun_u16_Some [simp]: "i + 1 < length b \<Longrightarrow> socket_stun_u16 b i = Some (be16 (b ! i) (b ! (i + 1)))"
  by (simp add: socket_stun_u16_def be16_def)

lemma those_Some: "(\<And>x. x \<in> set xs \<Longrightarrow> f x = Some (g x)) \<Longrightarrow> those (map f xs) = Some (map g xs)"
  by (induction xs) auto

lemma stun_address_Some:
  assumes "value + 4 + n \<le> length response"
  shows "stun_address request response value n = Some (map (\<lambda>i. response ! (value + 4 + i) XOR stun_mask request ! i) [0..<n])"
  unfolding stun_address_def using assms by (intro those_Some) simp

lemma stun_mapped_total:
  assumes "8 \<le> value_length" "value + value_length \<le> length response"
  shows "\<exists>r. stun_mapped ntop host_size request response value value_length = Some r"
  using assms by (auto simp: stun_mapped_def stun_address_Some Let_def)

lemma stun_attributes_total:
  assumes "20 + n \<le> length response"
  shows "\<exists>r. c_loop (stun_attribute_step ntop host_size request response n) 20 = Some r"
proof -
  have "\<exists>r. c_loop (stun_attribute_step ntop host_size request response n) 20 = Some r \<and> True"
  proof (rule c_loop_total [where R = "measure (\<lambda>offset. 20 + n - offset)" and I = "\<lambda>_. True"])
    fix offset :: nat
    show "\<exists>x. stun_attribute_step ntop host_size request response n offset = Some x \<and>
      (case x of Inl s' \<Rightarrow> True \<and> (s', offset) \<in> measure (\<lambda>offset. 20 + n - offset) | Inr r \<Rightarrow> True)"
    proof (cases "offset + 4 \<le> 20 + n")
      case True
      have "offset + 3 < length response" using True assms by simp
      then obtain t l where reads: "socket_stun_u16 response offset = Some t" "socket_stun_u16 response (offset + 2) = Some l"
        by (simp add: numeral_3_eq_3)
      show ?thesis
        using True stun_mapped_total [of "unat l" "offset + 4" response ntop host_size request]
        by (auto simp: stun_attribute_step_def reads Let_def not_less simp del: add_2_eq_Suc')
    qed (simp add: stun_attribute_step_def)
  qed simp_all
  then show ?thesis by blast
qed

lemma stun_response_total: "\<exists>r. socket_stun_response ntop host_size request response = Some r"
proof (cases "length response < 20")
  case False
  then obtain t magic n where reads: "socket_stun_u16 response 0 = Some t" "socket_stun_u32 response 4 = Some magic"
    "socket_stun_u16 response 2 = Some n" by (simp add: socket_stun_u32_def)
  show ?thesis
    using False stun_attributes_total [of "unat n" response ntop host_size request]
    by (auto simp: socket_stun_response_def reads Let_def)
qed (auto simp: socket_stun_response_def)

lemma stun_discover_total: "\<exists>r. socket_stun_discover env endpoint host_size = Some r"
  using stun_response_total by (auto simp: socket_stun_discover_def Let_def split: option.splits)


text \<open>The encoding of RFC 5389: attributes are padded to a multiple of four bytes, and the mapped
  address and port are masked with the magic number and the transaction.\<close>

definition u16_bytes :: "u16 \<Rightarrow> bytes" where
  "u16_bytes w = [ucast (drop_bit 8 w), ucast w]"

fun stun_attribute :: "u16 \<times> bytes \<Rightarrow> bytes" where
  "stun_attribute (t, v) = u16_bytes t @ u16_bytes (of_nat (length v)) @ v @ replicate (4 * ((length v + 3) div 4) - length v) 0"

definition stun_body :: "(u16 \<times> bytes) list \<Rightarrow> bytes" where
  "stun_body attributes = concat (map stun_attribute attributes)"

definition stun_encode :: "bytes \<Rightarrow> (u16 \<times> bytes) list \<Rightarrow> bytes" where
  "stun_encode transaction attributes = [1, 1] @ u16_bytes (of_nat (length (stun_body attributes))) @ [0x21, 0x12, 0xa4, 0x42] @
     transaction @ stun_body attributes"

definition stun_mapped_value :: "bytes \<Rightarrow> address_family \<Rightarrow> u16 \<Rightarrow> bytes \<Rightarrow> bytes" where
  "stun_mapped_value transaction family port address = [0, if family = AF_INET then 1 else 2] @ u16_bytes (port XOR 0x2112) @
     map2 (XOR) address ([0x21, 0x12, 0xa4, 0x42] @ transaction)"

lemma be16_bytes [simp]: "be16 (ucast (drop_bit 8 t)) (ucast t) = t"
  unfolding be16_def by (rule bit_word_eqI) (auto simp: bit_simps)

lemma length_u16_bytes [simp]: "length (u16_bytes w) = 2"
  by (simp add: u16_bytes_def)

lemma be16_u16_bytes: "be16 (u16_bytes w ! 0) (u16_bytes w ! 1) = w"
  by (simp add: u16_bytes_def)

lemma length_stun_attribute: "length (stun_attribute (t, v)) = 4 + 4 * ((length v + 3) div 4)"
proof -
  have "length v \<le> 4 * ((length v + 3) div 4)" by presburger
  then show ?thesis by simp
qed

lemma unat_length: "length v < 65536 \<Longrightarrow> unat (of_nat (length v) :: u16) = length v"
  by (simp add: unat_of_nat take_bit_nat_eq_self)

lemma stun_u16_at: "socket_stun_u16 (pre @ u16_bytes w @ post) (length pre) = Some w"
  by (simp add: u16_bytes_def nth_append)

lemma stun_attribute_reads:
  assumes "response = pre @ stun_attribute (t, v) @ post"
  shows "socket_stun_u16 response (length pre) = Some t"
    and "socket_stun_u16 response (length pre + 2) = Some (of_nat (length v))"
    and "length pre + 4 + length v \<le> length response"
    and "i < length v \<Longrightarrow> response ! (length pre + 4 + i) = v ! i"
proof -
  show "socket_stun_u16 response (length pre) = Some t" using assms by (simp add: stun_u16_at)
  have r: "response = (pre @ u16_bytes t) @ u16_bytes (of_nat (length v)) @ v @ replicate (4 * ((length v + 3) div 4) - length v) 0 @ post"
    using assms by simp
  show "socket_stun_u16 response (length pre + 2) = Some (of_nat (length v))"
    using stun_u16_at [of "pre @ u16_bytes t"] unfolding r by simp
  have r': "response = (pre @ u16_bytes t @ u16_bytes (of_nat (length v))) @ v @ replicate (4 * ((length v + 3) div 4) - length v) 0 @ post"
    using r by simp
  show "length pre + 4 + length v \<le> length response" unfolding r' by simp
  show "i < length v \<Longrightarrow> response ! (length pre + 4 + i) = v ! i" unfolding r' by (simp add: nth_append)
qed

lemma stun_skip:
  assumes "response = pre @ stun_attribute (t, v) @ post" "length v < 65536" "\<not> (t = 0x20 \<and> 8 \<le> length v)"
    "length pre + 4 \<le> 20 + n"
  shows "stun_attribute_step ntop host_size request response n (length pre) = Some (Inl (length pre + length (stun_attribute (t, v))))"
  using assms(2-4) stun_attribute_reads [OF assms(1)]
  by (auto simp: stun_attribute_step_def Let_def unat_length length_stun_attribute simp del: stun_attribute.simps)

lemma stun_skip_all:
  assumes "\<forall>(t, v) \<in> set attributes. length v < 65536 \<and> \<not> (t = 0x20 \<and> 8 \<le> length v)"
    "response = pre @ stun_body attributes @ post" "length pre + length (stun_body attributes) \<le> 20 + n"
  shows "c_loop (stun_attribute_step ntop host_size request response n) (length pre) =
    c_loop (stun_attribute_step ntop host_size request response n) (length pre + length (stun_body attributes))"
  using assms
proof (induction attributes arbitrary: pre)
  case (Cons a attributes)
  obtain t v where a: "a = (t, v)" by (cases a)
  have r: "response = (pre @ stun_attribute (t, v)) @ stun_body attributes @ post"
    using Cons.prems(2) by (simp add: a stun_body_def del: stun_attribute.simps)
  have "stun_attribute_step ntop host_size request response n (length pre) = Some (Inl (length (pre @ stun_attribute (t, v))))"
    using stun_skip [of response pre t v "stun_body attributes @ post" n ntop host_size request] Cons.prems r
    by (simp add: a stun_body_def length_stun_attribute del: stun_attribute.simps)
  then have "c_loop (stun_attribute_step ntop host_size request response n) (length pre) =
      c_loop (stun_attribute_step ntop host_size request response n) (length (pre @ stun_attribute (t, v)))"
    by (rule c_loop_continue)
  also have "\<dots> = c_loop (stun_attribute_step ntop host_size request response n) (length (pre @ stun_attribute (t, v)) + length (stun_body attributes))"
    using Cons.prems r by (intro Cons.IH) (auto simp: a stun_body_def simp del: stun_attribute.simps)
  finally show ?case by (simp add: a stun_body_def add.assoc del: stun_attribute.simps)
qed (simp add: stun_body_def)


lemma stun_mapped_read:
  assumes "response = pre @ stun_attribute (0x20, stun_mapped_value transaction family port address) @ post"
    "length transaction = 12" "length address = (if family = AF_INET then 4 else 16)"
  shows "stun_mapped ntop host_size (stun_request transaction) response (length pre + 4) (4 + length address) =
    Some (ntop family address host_size \<noteq> None, Some port, ntop family address host_size)"
proof -
  let ?v = "stun_mapped_value transaction family port address"
  let ?m = "[0x21, 0x12, 0xa4, 0x42] @ transaction"
  have m: "length ?m = 16" using assms(2) by simp
  have len: "length ?v = 4 + length address" using assms(2,3) by (simp add: stun_mapped_value_def)
  note r = stun_attribute_reads [OF assms(1)]
  have v: "response ! (length pre + 4 + i) = ?v ! i" if "i < 4 + length address" for i using r(4) that len by simp
  have "socket_stun_u16 response (length pre + 4 + 2) = Some (be16 (?v ! 2) (?v ! 3))"
    using r(3) len v [of 2] v [of 3] by (simp add: add.assoc numeral_3_eq_3)
  also have "be16 (?v ! 2) (?v ! 3) = be16 (u16_bytes (port XOR 0x2112) ! 0) (u16_bytes (port XOR 0x2112) ! 1)"
    by (simp add: stun_mapped_value_def nth_append)
  also have "\<dots> = port XOR 0x2112" by (rule be16_u16_bytes)
  finally have port: "socket_stun_u16 response (length pre + 4 + 2) = Some (port XOR 0x2112)" .
  have family: "stun_byte response (length pre + 4 + 1) = Some (if family = AF_INET then 1 else 2)"
    using r(3) len v [of 1] by (simp add: stun_mapped_value_def)
  have "response ! (length pre + 4 + 4 + i) XOR stun_mask (stun_request transaction) ! i = address ! i" if "i < length address" for i
  proof -
    have "?v ! (4 + i) = address ! i XOR ?m ! i" using that m assms(3) by (simp add: stun_mapped_value_def u16_bytes_def split: if_splits)
    then show ?thesis using v [of "4 + i"] that by (simp add: stun_mask_def stun_request_def add.assoc xor.assoc)
  qed
  then have "map (\<lambda>i. response ! (length pre + 4 + 4 + i) XOR stun_mask (stun_request transaction) ! i) [0..<length address] = address"
    by (intro nth_equalityI) simp_all
  then have address: "stun_address (stun_request transaction) response (length pre + 4) (length address) = Some address"
    using r(3) len by (simp add: stun_address_Some)
  have unmask: "(port XOR 0x2112) XOR ucast (drop_bit 16 SOCKET_STUN_MAGIC) = port" by (simp add: SOCKET_STUN_MAGIC_def xor.assoc)
  show ?thesis
    unfolding stun_mapped_def family port bind.bind_lunit Let_def unmask
    using address assms(3) by (cases family) simp_all
qed


lemma stun_found:
  assumes "response = pre @ stun_attribute (0x20, stun_mapped_value transaction family port address) @ post"
    "length transaction = 12" "length address = (if family = AF_INET then 4 else 16)" "length pre + 4 \<le> 20 + n"
  shows "c_loop (stun_attribute_step ntop host_size (stun_request transaction) response n) (length pre) =
    Some (ntop family address host_size \<noteq> None, Some port, ntop family address host_size)"
proof (rule c_loop_leave)
  let ?v = "stun_mapped_value transaction family port address"
  have len: "length ?v = 4 + length address" using assms(2,3) by (simp add: stun_mapped_value_def)
  have small: "length ?v < 65536" "8 \<le> length ?v" using len assms(3) by simp_all
  note reads = stun_attribute_reads [OF assms(1)]
  obtain w where w: "socket_stun_u16 response (length pre + 2) = Some w" "unat w = length ?v"
    using reads(2) unat_length [OF small(1)] by blast
  show "stun_attribute_step ntop host_size (stun_request transaction) response n (length pre) =
      Some (Inr (ntop family address host_size \<noteq> None, Some port, ntop family address host_size))"
    using assms(4) small w(2) reads(3) stun_mapped_read [OF assms(1-3)] len
    by (simp add: stun_attribute_step_def reads(1) w(1) Let_def del: add_2_eq_Suc')
qed

lemma stun_body_append: "stun_body (as @ bs) = stun_body as @ stun_body bs"
  by (simp add: stun_body_def)

lemma stun_header:
  assumes "length transaction = 12" "length (stun_body attributes) < 65536"
  shows "socket_stun_response ntop host_size (stun_request transaction) (stun_encode transaction attributes) =
    c_loop (stun_attribute_step ntop host_size (stun_request transaction) (stun_encode transaction attributes) (length (stun_body attributes))) 20"
proof -
  let ?e = "stun_encode transaction attributes"
  have len: "length ?e = 20 + length (stun_body attributes)" using assms(1) by (simp add: stun_encode_def)
  have "?e = [] @ u16_bytes 0x0101 @ drop 2 ?e" by (simp add: stun_encode_def u16_bytes_def)
  then have t: "socket_stun_u16 ?e 0 = Some 0x0101" using stun_u16_at [of "[]" "0x0101" "drop 2 ?e"] by simp
  have n: "socket_stun_u16 ?e 2 = Some (of_nat (length (stun_body attributes)))"
    using stun_u16_at [of "[1, 1]"] by (simp add: stun_encode_def)
  have magic: "socket_stun_u32 ?e 4 = Some SOCKET_STUN_MAGIC"
    by (simp add: socket_stun_u32_def stun_encode_def stun_byte_def u16_bytes_def SOCKET_STUN_MAGIC_def)
  have "take 12 (drop 8 ?e) = transaction" using assms(1) by (simp add: stun_encode_def u16_bytes_def)
  moreover have "take 12 (drop 8 (stun_request transaction)) = transaction" using assms(1) by (simp add: stun_request_def)
  ultimately show ?thesis
    using len assms(2) by (simp add: socket_stun_response_def t n magic unat_length Let_def)
qed

text \<open>
  C30. A STUN response that encodes a mapped address, after any attributes of other types, gives
  the discovery exactly that address and port, for IPv4 and IPv6; and no response whatever
  makes it read outside the bytes received or run for ever.
\<close>

theorem stun_response_exact:
  assumes "length transaction = 12" "length address = (if family = AF_INET then 4 else 16)"
    and "\<forall>(t, v) \<in> set before. t \<noteq> 0x20 \<and> length v < 65536"
    and "attributes = before @ (0x20, stun_mapped_value transaction family port address) # after" "length (stun_body attributes) < 65536"
  shows "socket_stun_response ntop host_size (stun_request transaction) (stun_encode transaction attributes) =
      Some (ntop family address host_size \<noteq> None, Some port, ntop family address host_size) \<and>
    (\<forall>request response. \<exists>r. socket_stun_response ntop host_size request response = Some r)"
proof -
  let ?a = "stun_attribute (0x20, stun_mapped_value transaction family port address)"
  let ?pre = "take 20 (stun_encode transaction attributes)"
  let ?e = "stun_encode transaction attributes"
  have pre: "length ?pre = 20" using assms(1) by (simp add: stun_encode_def)
  have body: "stun_body attributes = stun_body before @ ?a @ stun_body after"
    using assms(4) by (simp add: stun_body_def del: stun_attribute.simps)
  have e: "?e = ?pre @ stun_body before @ ?a @ stun_body after"
    using assms(1) unfolding body [symmetric] by (simp add: stun_encode_def u16_bytes_def)
  have room: "length (stun_body before) + 4 \<le> length (stun_body attributes)" unfolding body by (simp add: length_stun_attribute del: stun_attribute.simps)
  have skip: "c_loop (stun_attribute_step ntop host_size (stun_request transaction) ?e (length (stun_body attributes))) 20 =
      c_loop (stun_attribute_step ntop host_size (stun_request transaction) ?e (length (stun_body attributes))) (20 + length (stun_body before))"
    using stun_skip_all [of before ?e ?pre "?a @ stun_body after" "length (stun_body attributes)"] assms(3) e pre room by fastforce
  have e': "?e = (?pre @ stun_body before) @ ?a @ stun_body after" using e by simp
  have found: "c_loop (stun_attribute_step ntop host_size (stun_request transaction) ?e (length (stun_body attributes))) (20 + length (stun_body before)) =
      Some (ntop family address host_size \<noteq> None, Some port, ntop family address host_size)"
    using stun_found [OF e' assms(1,2), of "length (stun_body attributes)"] room pre by simp
  show ?thesis using stun_header [OF assms(1,5)] skip found stun_response_total by simp
qed


theorem stun_response_exact_witness:
  "socket_stun_response (\<lambda>_ a _. Some a) 65 (stun_request [1, 2, 3, 4, 5, 6, 7, 8, 9, 10, 11, 12]) (stun_encode [1, 2, 3, 4, 5, 6, 7, 8, 9, 10, 11, 12] [(0x8022, [65, 66, 67]),
      (0x20, stun_mapped_value [1, 2, 3, 4, 5, 6, 7, 8, 9, 10, 11, 12] AF_INET 13327 [192, 0, 2, 1])]) = Some (True, Some 13327, Some [192, 0, 2, 1])"
proof -
  have "length (stun_body [(0x8022, [65, 66, 67]), (0x20, stun_mapped_value [1, 2, 3, 4, 5, 6, 7, 8, 9, 10, 11, 12] AF_INET 13327 [192, 0, 2, 1])]) < 65536"
    by (simp add: stun_body_def stun_mapped_value_def)
  then show ?thesis
    using stun_response_exact [of "[1, 2, 3, 4, 5, 6, 7, 8, 9, 10, 11, 12]" "[192, 0, 2, 1]" AF_INET "[(0x8022, [65, 66, 67])]" _ 13327 "[]" "\<lambda>_ a _. Some a" 65]
    by simp
qed


section \<open>Probes\<close>

text \<open>A pacer polled and advanced at the given times: when it sends.\<close>

fun pacer_run :: "socket_punch_pacer \<Rightarrow> u64 list \<Rightarrow> u64 list" where
  "pacer_run pacer [] = []"
| "pacer_run pacer (now # polls) =
     (let action = socket_punch_pacer_poll pacer now;
          sends = pacer_run (socket_punch_pacer_advance pacer now action) polls
      in if action = SOCKET_PUNCH_SEND then now # sends else sends)"

lemma pacer_run_spaced:
  assumes "\<forall>t \<in> set polls. unat t + 100 < 2 ^ 64" "pc_attempts pacer \<le> 10"
  shows "length (pacer_run pacer polls) + unat (pc_attempts pacer) \<le> 10 \<and>
    sorted_wrt (\<lambda>a b. unat a + 100 \<le> unat b) (pacer_run pacer polls) \<and> (\<forall>s \<in> set (pacer_run pacer polls). next_action_ms pacer \<le> s)"
  using assms
proof (induction polls arbitrary: pacer)
  case Nil
  then show ?case by (simp add: word_le_nat_alt)
next
  case (Cons now polls)
  let ?action = "socket_punch_pacer_poll pacer now" and ?pacer = "socket_punch_pacer_advance pacer now (socket_punch_pacer_poll pacer now)"
  show ?case
  proof (cases ?action)
    case SOCKET_PUNCH_SEND
    have now: "next_action_ms pacer \<le> now" and few: "unat (pc_attempts pacer) < 10"
      using SOCKET_PUNCH_SEND by (auto simp: socket_punch_pacer_poll_def SOCKET_PUNCH_COUNT_def word_less_nat_alt word_le_nat_alt split: if_splits)
    have more: "unat (pc_attempts pacer + 1) = unat (pc_attempts pacer) + 1"
      using few by (intro unat_add_lem [THEN iffD1, THEN trans]) auto
    have adv: "pc_attempts ?pacer = pc_attempts pacer + 1" "pc_attempts pacer + 1 \<le> 10"
      using SOCKET_PUNCH_SEND more few by (simp_all add: Let_def word_le_nat_alt)
    note IH = Cons.IH [of ?pacer, unfolded adv]
    have rest: "pacer_run ?pacer polls = [] \<or> next_action_ms ?pacer = now + 100"
      using IH Cons.prems adv(2) SOCKET_PUNCH_SEND more few
      by (cases "unat (pc_attempts pacer) = 9") (auto simp: Let_def SOCKET_PUNCH_COUNT_def SOCKET_PUNCH_INTERVAL_MS_def word_less_nat_alt)
    have "unat (now + 100) = unat now + 100"
      using Cons.prems(1) by (intro unat_add_lem [THEN iffD1, THEN trans]) auto
    then have "\<forall>s \<in> set (pacer_run ?pacer polls). unat now + 100 \<le> unat s"
      using rest IH Cons.prems adv(2) by (auto simp: word_le_nat_alt)
    moreover have "pacer_run pacer (now # polls) = now # pacer_run ?pacer polls" using SOCKET_PUNCH_SEND by (simp add: Let_def)
    moreover have "next_action_ms pacer \<le> s" if "unat now + 100 \<le> unat s" for s using that now by (simp add: word_le_nat_alt)
    ultimately show ?thesis using IH Cons.prems adv(2) now more by auto
  next
    case SOCKET_PUNCH_COMPLETE
    then show ?thesis using Cons.IH [of "pacer\<lparr>pc_active := False\<rparr>"] Cons.prems by (simp add: Let_def)
  qed (use Cons in \<open>simp_all add: Let_def\<close>)
qed

text \<open>
  However often a pacer is polled, it sends at most ten probes, none before its start and
  any two of them at least 100 milliseconds apart.
\<close>

theorem pacer_paced:
  assumes "\<forall>t \<in> set polls. unat t + 100 < 2 ^ 64"
  shows "let sends = pacer_run (socket_punch_pacer_start now grace) polls in
    length sends \<le> 10 \<and> sorted_wrt (\<lambda>a b. unat a + 100 \<le> unat b) sends \<and> (\<forall>s \<in> set sends. now \<le> s)"
  using pacer_run_spaced [OF assms, of "socket_punch_pacer_start now grace"] by (simp add: socket_punch_pacer_start_def Let_def)

theorem pacer_paced_witness:
  "pacer_run (socket_punch_pacer_start 1000 0) [900, 1000, 1050, 1100] = [1000, 1100] \<and>
   (let sends = pacer_run (socket_punch_pacer_start 1000 0) [900, 1000, 1050, 1100] in length sends \<le> 10 \<and> (\<forall>s \<in> set sends. 1000 \<le> s))"
proof
  show "pacer_run (socket_punch_pacer_start 1000 0) [900, 1000, 1050, 1100] = [1000, 1100]" by code_simp
  show "let sends = pacer_run (socket_punch_pacer_start 1000 0) [900, 1000, 1050, 1100] in length sends \<le> 10 \<and> (\<forall>s \<in> set sends. 1000 \<le> s)"
    using pacer_paced [of "[900, 1000, 1050, 1100]" 1000 0] by (simp add: Let_def)
qed



section \<open>Candidates of a rendezvous\<close>

definition endpoint :: "socket_direct_candidate \<Rightarrow> bytes \<times> u16" where
  "endpoint c = (cd_host c, cd_port c)"

definition candidates_ok :: "nat \<Rightarrow> socket_direct_candidate list \<Rightarrow> bool" where
  "candidates_ok capacity cs \<longleftrightarrow> length cs \<le> capacity \<and> distinct (map endpoint cs) \<and> list_all (\<lambda>c. length (cd_host c) \<le> 64 \<and> cd_port c \<noteq> 0) cs"

lemma candidate_add_ok:
  assumes "candidates_ok capacity cs" "length host \<le> 64" "port \<noteq> 0"
  shows "candidates_ok capacity (snd (socket_candidate_add capacity host port kind cs))"
  using assms by (auto simp: candidates_ok_def socket_candidate_add_def c_snprintf_def endpoint_def list_ex_iff)

lemma confirm_endpoints: "map endpoint (snd (snd (punch_confirm host port has cs))) = map endpoint cs"
  by (induction host port has cs rule: punch_confirm.induct) (auto simp: Let_def endpoint_def split: prod.splits)

lemma candidates_ok_endpoints:
  assumes "map endpoint cs = map endpoint ds"
  shows "candidates_ok capacity cs \<longleftrightarrow> candidates_ok capacity ds"
proof -
  have "list_all (\<lambda>c. length (cd_host c) \<le> 64 \<and> cd_port c \<noteq> 0) cs = list_all (\<lambda>(h, p). length h \<le> 64 \<and> p \<noteq> 0) (map endpoint cs)" for cs
    by (simp add: list_all_iff endpoint_def)
  then show ?thesis using assms map_eq_imp_length_eq [OF assms] by (simp add: candidates_ok_def)
qed

lemma ucast_nonzero:
  assumes "v \<noteq> 0" "unat v \<le> 65535"
  shows "(ucast v :: u16) \<noteq> 0"
proof -
  have "unat (ucast v :: u16) = unat v" using assms(2) by (simp add: unsigned_ucast_eq take_bit_nat_eq_self)
  then show ?thesis using assms(1) by (metis unat_0 unat_eq_0)
qed

lemma parsed_port:
  assumes "string_parse_uint64 s 10 1 65535 = Some v"
  shows "(ucast v :: u16) \<noteq> 0"
proof (rule ucast_nonzero)
  have "v \<noteq> 0 \<and> v \<le> 65535" using assms
    by (auto simp: string_parse_uint64_def Let_def not_less split: option.splits if_splits prod.splits)
  then show "v \<noteq> 0" "unat v \<le> 65535" by (simp_all add: word_le_nat_alt)
qed

lemma punch_receive_ok:
  assumes "socket_udp_punch_receive queue = (Some (host, port), rest)"
  shows "length host \<le> 64 \<and> port \<noteq> 0"
  using assms parsed_port
  by (auto simp: socket_udp_punch_receive_def c_getnameservice_def split: list.splits if_splits option.splits prod.splits)

lemma collect_ok:
  assumes "candidates_ok capacity cs"
  shows "candidates_ok capacity (snd (snd (socket_udp_punch_collect_loop capacity n queue cs)))"
  using assms
proof (induction n arbitrary: queue cs)
  case (Suc n)
  show ?case
  proof (cases "socket_udp_punch_receive queue")
    case (Pair x rest)
    show ?thesis
    proof (cases x)
      case (Some hp)
      obtain host port where hp: "hp = (host, port)" by (cases hp)
      obtain rec has cs' where confirm: "punch_confirm host port False cs = (rec, has, cs')" by (metis prod.exhaust)
      have "candidates_ok capacity cs'"
        using candidates_ok_endpoints [of cs' cs capacity] confirm_endpoints [of host port False cs] confirm Suc.prems by simp
      then have "candidates_ok capacity (if rec \<or> has then cs' else snd (socket_candidate_add capacity host port SOCKET_CANDIDATE_PRFLX cs'))"
        using candidate_add_ok punch_receive_ok [of queue host port rest] Pair Some hp by auto
      from Suc.IH [OF this, of rest] show ?thesis using Pair Some hp confirm by (auto simp: Let_def split_def split: if_splits)
    qed (use Pair Suc in simp)
  qed
qed simp

lemma punch_ok:
  assumes "candidates_ok capacity (rv_candidates st)"
  shows "candidates_ok capacity (rv_candidates (rendezvous_punch punch capacity now arrivals st))"
  using collect_ok [OF assms] by (simp add: rendezvous_punch_def socket_udp_punch_collect_def Let_def split_def)

lemma server_parse_ok:
  assumes "socket_rendezvous_server_candidate_parse net message ticket = Some c"
  shows "length (cd_host c) \<le> 64 \<and> cd_port c \<noteq> 0"
proof -
  obtain message' t where m: "message = Some message'" "ticket = Some t"
    using assms by (auto simp: socket_rendezvous_server_candidate_parse_def split: option.splits)
  obtain host port kind tk rest where scan: "c_sscanf server_scan message' =
      ([Scanned_text host, Scanned_uint port, Scanned_text kind, Scanned_text tk], rest)"
    using assms by (auto simp: m socket_rendezvous_server_candidate_parse_def split: if_splits prod.splits list.splits scan_value.splits)
  have "port \<noteq> 0 \<and> port \<le> 65535 \<and> cd_port c = ucast port \<and> length (cd_host c) \<le> 64"
    using assms by (auto simp: m scan socket_rendezvous_server_candidate_parse_def c_snprintf_def not_less split: if_splits option.splits)
  then show ?thesis using ucast_nonzero [of port] by (simp add: word_le_nat_alt)
qed


lemma step_ok:
  assumes "candidates_ok capacity (rv_candidates st)"
  shows "candidates_ok capacity (rv_candidates (case rendezvous_step net punch capacity ticket deadline i st of Inl st \<Rightarrow> st | Inr (_, st) \<Rightarrow> st))"
proof -
  let ?st = "rendezvous_punch punch capacity (in_now i) (in_arrivals i) st"
  have ok: "candidates_ok capacity (rv_candidates ?st)" using assms by (rule punch_ok)
  obtain state used where ws: "socket_websocket_receive 512 (in_answer i) (rv_used ?st) = (state, used)" by fastforce
  show ?thesis
  proof (cases state)
    case SOCKET_WEBSOCKET_MESSAGE
    then show ?thesis
      using ok server_parse_ok candidate_add_ok by (auto simp: rendezvous_step_def Let_def ws split: option.splits)
  qed (use ok in \<open>simp_all add: rendezvous_step_def Let_def ws\<close>)
qed

lemma run_ok:
  assumes "candidates_ok capacity (rv_candidates st)"
  shows "candidates_ok capacity (rv_candidates (case rendezvous_run net punch capacity ticket deadline ins st of Inl st \<Rightarrow> st | Inr (_, st) \<Rightarrow> st))"
  using assms
proof (induction ins arbitrary: st)
  case (Cons i ins)
  show ?case
  proof (cases "rendezvous_step net punch capacity ticket deadline i st")
    case (Inl st')
    then show ?thesis using step_ok [OF Cons.prems, of net punch ticket deadline i] Cons.IH [of st'] by simp
  next
    case (Inr r)
    then show ?thesis using step_ok [OF Cons.prems, of net punch ticket deadline i] by simp
  qed
qed simp

definition rendezvous_result_ok :: "nat \<Rightarrow> rv_result \<Rightarrow> bool" where
  "rendezvous_result_ok capacity r = (case r of
     Rv_running st \<Rightarrow> candidates_ok capacity (rv_candidates st)
   | Rv_returns n cs \<Rightarrow> candidates_ok capacity cs \<and> (n = 0 \<or> n = length cs))"

lemma loop_ok: "rendezvous_result_ok capacity (rendezvous_loop env net capacity ticket)"
proof -
  have "candidates_ok capacity (rv_candidates rendezvous_start)" by (simp add: rendezvous_start_def candidates_ok_def)
  note ok = run_ok [OF this, of net "socket_udp_punch (se_resolve (re_stun env)) (se_send (re_stun env))" ticket "re_start env + 5000" "re_inputs env"]
  show ?thesis
    using ok by (auto simp: rendezvous_loop_def rendezvous_result_ok_def Let_def punch_ok split: sum.splits prod.splits)
qed

lemma own_candidate_total: "\<exists>own. rendezvous_own_candidate env stun_endpoint = Some own"
proof (cases stun_endpoint)
  case (Some e)
  obtain r where "socket_stun_discover (re_stun env) e 65 = Some r" using stun_discover_total by blast
  then show ?thesis by (simp add: rendezvous_own_candidate_def Some)
qed (simp add: rendezvous_own_candidate_def)

text \<open>
  C31. A rendezvous never reads outside a response. When it returns, the array holds candidates
  with different endpoints, no more than fit, with ports that are not zero and hosts that fit
  their field, and the number returned is zero or that of the candidates.
\<close>

theorem rendezvous_candidates_ok:
  "\<exists>r. socket_rendezvous_client env net url stun_endpoint capacity = Some r \<and> rendezvous_result_ok capacity r"
proof -
  have none: "rendezvous_result_ok capacity (Rv_returns 0 [])" by (simp add: rendezvous_result_ok_def candidates_ok_def)
  obtain own where own: "rendezvous_own_candidate env stun_endpoint = Some own" using own_candidate_total by blast
  show ?thesis
    using loop_ok none by (auto simp: socket_rendezvous_client_def own Let_def split: option.splits prod.splits)
qed

definition text_frame :: ws_frame where
  "text_frame = \<lparr>fr_close = False, fr_text = True, fr_bytesleft = 0\<rparr>"

lemma punch_used [simp]: "rv_used (rendezvous_punch punch capacity now arrivals st) = rv_used st"
  by (simp add: rendezvous_punch_def Let_def split_def)

lemma step_message:
  assumes "in_answer i = Ws_ok (Some text_frame) m" "length m \<le> 511"
    "\<not> socket_rendezvous_complete_parse net (Some (c_string m)) (Some ticket)" "rv_used st = []"
  shows "\<exists>st'. rendezvous_step net punch capacity ticket deadline i st = Inl st' \<and> rv_used st' = []"
  using assms by (auto simp: rendezvous_step_def socket_websocket_receive_def text_frame_def Let_def split: option.splits)

lemma step_empty:
  assumes "in_answer i = Ws_again" "in_clock i \<ge> deadline" "rv_used st = []"
  shows "\<exists>st'. rendezvous_step net punch capacity ticket deadline i st = Inr (False, st')"
  using assms by (simp add: rendezvous_step_def socket_websocket_receive_def Let_def)

text \<open>
  C32. The five seconds of a rendezvous only pass while nothing arrives: as long as every
  iteration receives a text frame that fits and is not the completion, the loop goes on, whatever
  the clock shows; at the first iteration without a frame after the deadline it ends.
\<close>

theorem rendezvous_deadline:
  assumes "\<forall>i \<in> set ins. \<exists>m. in_answer i = Ws_ok (Some text_frame) m \<and> length m \<le> 511 \<and>
      \<not> socket_rendezvous_complete_parse net (Some (c_string m)) (Some ticket)"
    and "rv_used st = []" "in_answer quiet = Ws_again" "in_clock quiet \<ge> deadline"
  shows "(\<exists>st'. rendezvous_run net punch capacity ticket deadline ins st = Inl st') \<and>
    (\<exists>st'. rendezvous_run net punch capacity ticket deadline (ins @ [quiet]) st = Inr (False, st'))"
  using assms(1,2)
proof (induction ins arbitrary: st)
  case Nil
  then show ?case using step_empty [OF assms(3,4), of st net punch capacity ticket] by auto
next
  case (Cons i ins)
  obtain m where m: "in_answer i = Ws_ok (Some text_frame) m" "length m \<le> 511"
    "\<not> socket_rendezvous_complete_parse net (Some (c_string m)) (Some ticket)" using Cons.prems(1) by auto
  obtain st' where st': "rendezvous_step net punch capacity ticket deadline i st = Inl st'" "rv_used st' = []"
    using step_message [OF m Cons.prems(2)] by blast
  show ?case using Cons.IH [OF _ st'(2)] Cons.prems(1) st'(1) by simp
qed

definition chatter :: rv_input where
  "chatter = \<lparr>in_now = 0, in_arrivals = [], in_answer = Ws_ok (Some text_frame) [], in_clock = 9999\<rparr>"

theorem rendezvous_deadline_witness:
  "\<exists>st'. rendezvous_run example_net (\<lambda>_ _. False) 4 (replicate 64 97) 5000 (replicate 1000 chatter) rendezvous_start = Inl st'"
proof -
  let ?ticket = "replicate 64 97 :: bytes"
  have valid: "socket_rendezvous_ticket_valid (Some ?ticket)" by (simp add: socket_rendezvous_ticket_valid_def string_is_hex_fixed_def hex_fixed_char_def list_all_iff)
  have "\<not> socket_rendezvous_complete_parse example_net (Some (c_string [])) (Some ?ticket)"
    by (simp add: socket_rendezvous_complete_parse_def socket_rendezvous_message_render_def valid c_string_def Let_def c_snprintf_def str_def)
  then show ?thesis
    using rendezvous_deadline [of "replicate 1000 chatter" example_net ?ticket rendezvous_start "chatter\<lparr>in_answer := Ws_again\<rparr>" 5000 "\<lambda>_ _. False" 4]
    by (simp add: chatter_def rendezvous_start_def)
qed

end
