(* ===== verification/Streams.thy ===== *)
theory Streams
  imports Strings "HOL-Library.Code_Target_Nat"
begin

unbundle bit_operations_syntax

text \<open>
  The streams of a QUIC connection, \<open>src/socket.c\<close>: the typed preface, the list of incoming
  streams that wait for their preface, and reading and writing on both transports. OpenSSL is
  a script of answers, \<open>quic_world\<close>: what arrives on each stream and in which pieces, how much
  of each write it takes, and which streams the peer opens. The list that runs through the
  \<open>next\<close> fields is a list of streams, and the address of a stream is the number of its SSL
  object. A failed hard assertion is \<open>None\<close>. Log lines are left out.
\<close>

section \<open>Prefaces\<close>

datatype socket_stream_kind = SOCKET_STREAM_UNKNOWN | SOCKET_STREAM_GAME | SOCKET_STREAM_ASSET

datatype socket_stream_result = SOCKET_STREAM_RESULT_OK | SOCKET_STREAM_RESULT_WOULD_BLOCK
  | SOCKET_STREAM_RESULT_FINISHED | SOCKET_STREAM_RESULT_ERROR

definition SOCKET_STREAM_PROTOCOL_VERSION :: u16 where "SOCKET_STREAM_PROTOCOL_VERSION = 1"
definition SOCKET_STREAM_PREFACE_SIZE :: nat where "SOCKET_STREAM_PREFACE_SIZE = 8"
definition SOCKET_STREAM_ERROR_PREFACE :: u64 where "SOCKET_STREAM_ERROR_PREFACE = 1"
definition SOCKET_QUIC_PENDING_STREAM_MAX :: nat where "SOCKET_QUIC_PENDING_STREAM_MAX = 16"
definition SOCKET_QUIC_PREFACE_TIMEOUT_MS :: u64 where "SOCKET_QUIC_PREFACE_TIMEOUT_MS = 5000"

definition socket_stream_magic :: bytes where
  "socket_stream_magic = [65, 84, 82, 78]"

fun stream_kind_code :: "socket_stream_kind \<Rightarrow> u8" where
  "stream_kind_code SOCKET_STREAM_UNKNOWN = 0"
| "stream_kind_code SOCKET_STREAM_GAME = 1"
| "stream_kind_code SOCKET_STREAM_ASSET = 2"

definition socket_stream_preface_encode :: "socket_stream_kind \<Rightarrow> bytes" where
  "socket_stream_preface_encode kind = socket_stream_magic @
     [stream_kind_code kind, 0, ucast (drop_bit 8 SOCKET_STREAM_PROTOCOL_VERSION), ucast SOCKET_STREAM_PROTOCOL_VERSION]"

definition socket_stream_preface_decode :: "bytes option \<Rightarrow> socket_stream_kind option" where
  "socket_stream_preface_decode preface = (case preface of
     None \<Rightarrow> None
   | Some preface \<Rightarrow>
       if length preface \<noteq> SOCKET_STREAM_PREFACE_SIZE then None
       else let version = (push_bit 8 (ucast (preface ! 6)) OR ucast (preface ! 7) :: u16)
         in if take 4 preface \<noteq> socket_stream_magic \<or> preface ! 5 \<noteq> 0 \<or> version \<noteq> SOCKET_STREAM_PROTOCOL_VERSION \<or>
               (preface ! 4 \<noteq> stream_kind_code SOCKET_STREAM_GAME \<and> preface ! 4 \<noteq> stream_kind_code SOCKET_STREAM_ASSET)
            then None
            else Some (if preface ! 4 = stream_kind_code SOCKET_STREAM_GAME then SOCKET_STREAM_GAME else SOCKET_STREAM_ASSET))"


section \<open>OpenSSL\<close>

text \<open>
  An answer to a read: data, of which the caller gets as much as it asked for and the rest
  later; try again; the end of the stream; or a failure, with whether the stream is then in
  its finished state. An answer to a write: the number of bytes taken, and the same otherwise.
  Without an answer an operation would block.
\<close>

datatype ssl_answer = Ssl_data bytes | Ssl_want | Ssl_zero_return | Ssl_error bool
datatype ssl_taken = Took nat | Write_want | Write_zero_return | Write_error bool
datatype ssl_status = Status_ok nat | Status_want | Status_zero_return | Status_error bool
datatype handshake_answer = Handshake_done "bytes option" | Handshake_want | Handshake_error

record quic_world =
  qw_read :: "nat \<Rightarrow> ssl_answer list"
  qw_write :: "nat \<Rightarrow> ssl_taken list"
  qw_sent :: "nat \<Rightarrow> bytes"
  qw_incoming :: "nat list"
  qw_local :: "nat list"
  qw_handshake :: "handshake_answer list"
  qw_events_ok :: bool
  qw_resets :: "(nat \<times> u64) list"
  qw_freed :: "nat list"
  qw_concluded :: "nat list"

definition SSL_read_ex :: "nat \<Rightarrow> nat \<Rightarrow> quic_world \<Rightarrow> ssl_status \<times> bytes \<times> quic_world" where
  "SSL_read_ex ssl len w = (case qw_read w ssl of
     [] \<Rightarrow> (Status_want, [], w)
   | Ssl_data d # as \<Rightarrow>
       (Status_ok (length (take len d)), take len d, w\<lparr>qw_read := (qw_read w)(ssl := if length d \<le> len then as else Ssl_data (drop len d) # as)\<rparr>)
   | Ssl_want # as \<Rightarrow> (Status_want, [], w\<lparr>qw_read := (qw_read w)(ssl := as)\<rparr>)
   | Ssl_zero_return # as \<Rightarrow> (Status_zero_return, [], w)
   | Ssl_error finished # as \<Rightarrow> (Status_error finished, [], w))"

definition SSL_write_ex :: "nat \<Rightarrow> bytes \<Rightarrow> quic_world \<Rightarrow> ssl_status \<times> quic_world" where
  "SSL_write_ex ssl data w = (case qw_write w ssl of
     [] \<Rightarrow> (Status_want, w)
   | Took n # as \<Rightarrow>
       (Status_ok (length (take n data)), w\<lparr>qw_write := (qw_write w)(ssl := as), qw_sent := (qw_sent w)(ssl := qw_sent w ssl @ take n data)\<rparr>)
   | Write_want # as \<Rightarrow> (Status_want, w\<lparr>qw_write := (qw_write w)(ssl := as)\<rparr>)
   | Write_zero_return # as \<Rightarrow> (Status_zero_return, w)
   | Write_error finished # as \<Rightarrow> (Status_error finished, w))"

definition SSL_accept_stream :: "quic_world \<Rightarrow> nat option \<times> quic_world" where
  "SSL_accept_stream w = (case qw_incoming w of [] \<Rightarrow> (None, w) | ssl # ssls \<Rightarrow> (Some ssl, w\<lparr>qw_incoming := ssls\<rparr>))"

definition SSL_new_stream :: "quic_world \<Rightarrow> nat option \<times> quic_world" where
  "SSL_new_stream w = (case qw_local w of [] \<Rightarrow> (None, w) | ssl # ssls \<Rightarrow> (Some ssl, w\<lparr>qw_local := ssls\<rparr>))"


section \<open>Streams\<close>

record socket_stream =
  st_ssl :: nat
  st_connected :: bool
  st_kind :: socket_stream_kind
  st_preface :: bytes
  st_preface_pos :: nat
  st_created_ms :: u64
  st_local :: bool

datatype socket_transport = SOCKET_TRANSPORT_TCP | SOCKET_TRANSPORT_QUIC_LISTENER | SOCKET_TRANSPORT_QUIC_CONNECTION

datatype socket_role = SOCKET_ROLE_SERVER | SOCKET_ROLE_CLIENT

record sock_struct =
  sc_transport :: socket_transport
  sc_handle :: "nat option"
  sc_connection_id :: bytes
  sc_role :: socket_role
  sc_quic :: bool
  sc_game_stream :: "socket_stream option"
  sc_pending_streams :: "socket_stream list"
  sc_pending_count :: nat
  sc_owns_handle :: bool
  sc_connection_id_final :: bool
  sc_shutdown_sent :: bool

fun socket_stream_ssl_result :: "ssl_status \<Rightarrow> socket_stream_result" where
  "socket_stream_ssl_result (Status_ok amount) = (if amount \<noteq> 0 then SOCKET_STREAM_RESULT_OK else SOCKET_STREAM_RESULT_WOULD_BLOCK)"
| "socket_stream_ssl_result Status_want = SOCKET_STREAM_RESULT_WOULD_BLOCK"
| "socket_stream_ssl_result Status_zero_return = SOCKET_STREAM_RESULT_FINISHED"
| "socket_stream_ssl_result (Status_error finished) = (if finished then SOCKET_STREAM_RESULT_FINISHED else SOCKET_STREAM_RESULT_ERROR)"

definition socket_stream_allocate :: "u64 \<Rightarrow> nat \<Rightarrow> socket_stream_kind \<Rightarrow> bool \<Rightarrow> socket_stream" where
  "socket_stream_allocate now ssl kind local = \<lparr>st_ssl = ssl, st_connected = True, st_kind = kind,
     st_preface = (if local then socket_stream_preface_encode kind else replicate SOCKET_STREAM_PREFACE_SIZE 0),
     st_preface_pos = 0, st_created_ms = now, st_local = local\<rparr>"

definition socket_stream_preface_valid :: "socket_stream \<Rightarrow> bool \<times> socket_stream" where
  "socket_stream_preface_valid stream = (case socket_stream_preface_decode (Some (st_preface stream)) of
     None \<Rightarrow> (False, stream)
   | Some kind \<Rightarrow> (True, stream\<lparr>st_kind := kind\<rparr>))"

function socket_stream_preface_read :: "socket_stream \<Rightarrow> quic_world \<Rightarrow> bool \<times> socket_stream \<times> quic_world" where
  "socket_stream_preface_read stream w =
     (if st_preface_pos stream < SOCKET_STREAM_PREFACE_SIZE
      then (case SSL_read_ex (st_ssl stream) (SOCKET_STREAM_PREFACE_SIZE - st_preface_pos stream) w of
          (Status_ok amount, data, w) \<Rightarrow>
            let pos = st_preface_pos stream;
                stream = stream\<lparr>st_preface := take pos (st_preface stream) @ data @ drop (pos + length data) (st_preface stream),
                  st_preface_pos := pos + amount\<rparr>
            in if amount = 0 then (False, stream, w) else socket_stream_preface_read stream w
        | (Status_want, _, w) \<Rightarrow> (False, stream, w)
        | (_, _, w) \<Rightarrow> (False, stream\<lparr>st_preface := replicate SOCKET_STREAM_PREFACE_SIZE 0, st_preface_pos := SOCKET_STREAM_PREFACE_SIZE\<rparr>, w))
      else (let (valid, stream) = socket_stream_preface_valid stream in (valid, stream, w)))"
  by pat_completeness auto
termination
  by (relation "measure (\<lambda>(stream, w). SOCKET_STREAM_PREFACE_SIZE - st_preface_pos stream)") auto

declare socket_stream_preface_read.simps [simp del]

text \<open>Taking a stream out of the pending list; \<open>None\<close> if the assertion on the count fails.\<close>

definition pending_remove :: "nat \<Rightarrow> sock_struct \<Rightarrow> sock_struct option" where
  "pending_remove ssl sc =
     (if \<not> list_ex (\<lambda>s. st_ssl s = ssl) (sc_pending_streams sc) then Some sc
      else if sc_pending_count sc = 0 then None
      else Some (sc\<lparr>sc_pending_streams := takeWhile (\<lambda>s. st_ssl s \<noteq> ssl) (sc_pending_streams sc) @
                    tl (dropWhile (\<lambda>s. st_ssl s \<noteq> ssl) (sc_pending_streams sc)),
                  sc_pending_count := sc_pending_count sc - 1\<rparr>))"

definition socket_stream_unlink :: "socket_stream \<Rightarrow> sock_struct \<Rightarrow> sock_struct option" where
  "socket_stream_unlink stream sc =
     (if \<not> st_connected stream then Some sc
      else pending_remove (st_ssl stream)
        (case sc_game_stream sc of
           Some g \<Rightarrow> if st_ssl g = st_ssl stream then sc\<lparr>sc_game_stream := None\<rparr> else sc
         | None \<Rightarrow> sc))"

definition socket_stream_reject :: "socket_stream \<Rightarrow> u64 \<Rightarrow> sock_struct \<Rightarrow> quic_world \<Rightarrow> (sock_struct \<times> quic_world) option" where
  "socket_stream_reject stream error_code sc w = do {
     sc \<leftarrow> socket_stream_unlink stream sc;
     Some (sc, w\<lparr>qw_resets := qw_resets w @ [(st_ssl stream, error_code)], qw_freed := qw_freed w @ [st_ssl stream]\<rparr>)
   }"

text \<open>Writing a changed stream back to its place in the pending list.\<close>

definition pending_store :: "socket_stream \<Rightarrow> sock_struct \<Rightarrow> sock_struct" where
  "pending_store stream sc = sc\<lparr>sc_pending_streams := map (\<lambda>s. if st_ssl s = st_ssl stream then stream else s) (sc_pending_streams sc)\<rparr>"

fun poll_pending :: "u64 \<Rightarrow> socket_stream list \<Rightarrow> sock_struct \<Rightarrow> quic_world \<Rightarrow> (sock_struct \<times> quic_world) option" where
  "poll_pending now [] sc w = Some (sc, w)"
| "poll_pending now (stream # streams) sc w =
     (if st_kind stream = SOCKET_STREAM_UNKNOWN \<and> st_preface_pos stream < SOCKET_STREAM_PREFACE_SIZE
      then let (complete, stream, w) = socket_stream_preface_read stream w;
               sc = pending_store stream sc
        in if (st_preface_pos stream = SOCKET_STREAM_PREFACE_SIZE \<and>
               (\<not> complete \<or> (st_kind stream = SOCKET_STREAM_GAME \<and> sc_game_stream sc \<noteq> None))) \<or>
              (st_preface_pos stream < SOCKET_STREAM_PREFACE_SIZE \<and> now - st_created_ms stream \<ge> SOCKET_QUIC_PREFACE_TIMEOUT_MS)
           then do { (sc, w) \<leftarrow> socket_stream_reject stream SOCKET_STREAM_ERROR_PREFACE sc w; poll_pending now streams sc w }
           else poll_pending now streams sc w
      else poll_pending now streams sc w)"

definition accept_incoming_step :: "u64 \<Rightarrow> sock_struct \<times> quic_world \<Rightarrow> ((sock_struct \<times> quic_world) + (sock_struct \<times> quic_world)) option" where
  "accept_incoming_step now s = (case s of (sc, w) \<Rightarrow>
     if \<not> sc_pending_count sc < SOCKET_QUIC_PENDING_STREAM_MAX then Some (Inr (sc, w))
     else (case SSL_accept_stream w of
         (None, w) \<Rightarrow> Some (Inr (sc, w))
       | (Some ssl, w) \<Rightarrow>
           let incoming = socket_stream_allocate now ssl SOCKET_STREAM_UNKNOWN False;
               sc = sc\<lparr>sc_pending_streams := incoming # sc_pending_streams sc, sc_pending_count := sc_pending_count sc + 1\<rparr>;
               (complete, incoming, w) = socket_stream_preface_read incoming w;
               sc = pending_store incoming sc
           in if \<not> complete \<and> st_preface_pos incoming = SOCKET_STREAM_PREFACE_SIZE
              then map_option Inl (socket_stream_reject incoming SOCKET_STREAM_ERROR_PREFACE sc w)
              else Some (Inl (sc, w))))"

definition socket_stream_poll_incoming :: "u64 \<Rightarrow> sock_struct \<Rightarrow> quic_world \<Rightarrow> (sock_struct \<times> quic_world) option" where
  "socket_stream_poll_incoming now sc w = do {
     s \<leftarrow> poll_pending now (sc_pending_streams sc) sc w;
     c_loop (accept_incoming_step now) s
   }"

definition socket_stream_open :: "u64 \<Rightarrow> socket_stream_kind \<Rightarrow> sock_struct \<Rightarrow> quic_world \<Rightarrow> socket_stream option \<times> quic_world" where
  "socket_stream_open now kind sc w =
     (if sc_transport sc \<noteq> SOCKET_TRANSPORT_QUIC_CONNECTION \<or> \<not> sc_connection_id_final sc \<or>
         (kind \<noteq> SOCKET_STREAM_GAME \<and> kind \<noteq> SOCKET_STREAM_ASSET) then (None, w)
      else (case SSL_new_stream w of
          (None, w) \<Rightarrow> (None, w)
        | (Some ssl, w) \<Rightarrow> (Some (socket_stream_allocate now ssl kind True), w)))"

definition socket_stream_accept ::
  "u64 \<Rightarrow> socket_stream_kind \<Rightarrow> sock_struct \<Rightarrow> quic_world \<Rightarrow> (socket_stream option \<times> sock_struct \<times> quic_world) option" where
  "socket_stream_accept now kind sc w =
     (if sc_transport sc \<noteq> SOCKET_TRANSPORT_QUIC_CONNECTION \<or> \<not> sc_connection_id_final sc then Some (None, sc, w)
      else do {
        (sc, w) \<leftarrow> socket_stream_poll_incoming now sc w;
        case find (\<lambda>s. st_kind s = kind \<and> st_preface_pos s = SOCKET_STREAM_PREFACE_SIZE) (sc_pending_streams sc) of
          None \<Rightarrow> Some (None, sc, w)
        | Some stream \<Rightarrow> map_option (\<lambda>sc. (Some stream, sc, w)) (pending_remove (st_ssl stream) sc)
      })"


text \<open>Writing the preface goes on until it is complete or the library takes nothing.\<close>

function socket_stream_preface_write :: "socket_stream \<Rightarrow> quic_world \<Rightarrow> socket_stream_result \<times> socket_stream \<times> quic_world" where
  "socket_stream_preface_write stream w =
     (if st_local stream \<and> st_preface_pos stream < SOCKET_STREAM_PREFACE_SIZE
      then let (result, w) = SSL_write_ex (st_ssl stream) (drop (st_preface_pos stream) (st_preface stream)) w
        in if socket_stream_ssl_result result \<noteq> SOCKET_STREAM_RESULT_OK then (socket_stream_ssl_result result, stream, w)
           else socket_stream_preface_write
             (stream\<lparr>st_preface_pos := st_preface_pos stream + (case result of Status_ok amount \<Rightarrow> amount | _ \<Rightarrow> 0)\<rparr>) w
      else (SOCKET_STREAM_RESULT_OK, stream, w))"
  by pat_completeness auto
termination
  by (relation "measure (\<lambda>(stream, w). SOCKET_STREAM_PREFACE_SIZE - st_preface_pos stream)") (auto split: ssl_status.splits if_splits)

declare socket_stream_preface_write.simps [simp del]

definition socket_stream_read :: "nat \<Rightarrow> socket_stream \<Rightarrow> quic_world \<Rightarrow> socket_stream_result \<times> bytes \<times> socket_stream \<times> quic_world" where
  "socket_stream_read len stream w =
     (case socket_stream_preface_write stream w of (preface, stream, w) \<Rightarrow>
      if preface \<noteq> SOCKET_STREAM_RESULT_OK then (preface, [], stream, w)
      else (case SSL_read_ex (st_ssl stream) len w of (result, data, w) \<Rightarrow> (socket_stream_ssl_result result, data, stream, w)))"

text \<open>The result of a write, and the number of bytes taken.\<close>

definition socket_stream_write :: "bytes \<Rightarrow> socket_stream \<Rightarrow> quic_world \<Rightarrow> socket_stream_result \<times> nat \<times> socket_stream \<times> quic_world" where
  "socket_stream_write buf stream w =
     (case socket_stream_preface_write stream w of (preface, stream, w) \<Rightarrow>
      if preface \<noteq> SOCKET_STREAM_RESULT_OK then (preface, 0, stream, w)
      else if buf = [] then (SOCKET_STREAM_RESULT_OK, 0, stream, w)
      else (case SSL_write_ex (st_ssl stream) buf w of (result, w) \<Rightarrow>
        (socket_stream_ssl_result result, (case result of Status_ok amount \<Rightarrow> amount | _ \<Rightarrow> 0), stream, w)))"

definition socket_stream_conclude :: "(nat \<Rightarrow> bool) \<Rightarrow> socket_stream \<Rightarrow> quic_world \<Rightarrow> bool \<times> quic_world" where
  "socket_stream_conclude ok stream w =
     (if st_preface_pos stream = SOCKET_STREAM_PREFACE_SIZE then (ok (st_ssl stream), w\<lparr>qw_concluded := qw_concluded w @ [st_ssl stream]\<rparr>)
      else (False, w))"

definition socket_stream_reset :: "socket_stream \<Rightarrow> u64 \<Rightarrow> quic_world \<Rightarrow> quic_world" where
  "socket_stream_reset stream error_code w = w\<lparr>qw_resets := qw_resets w @ [(st_ssl stream, error_code)]\<rparr>"

definition socket_stream_destroy :: "socket_stream option \<Rightarrow> sock_struct \<Rightarrow> quic_world \<Rightarrow> (sock_struct \<times> quic_world) option" where
  "socket_stream_destroy stream sc w = (case stream of
     None \<Rightarrow> Some (sc, w)
   | Some stream \<Rightarrow> map_option (\<lambda>sc. (sc, w\<lparr>qw_freed := qw_freed w @ [st_ssl stream]\<rparr>)) (socket_stream_unlink stream sc))"


section \<open>Connections\<close>

definition SOCKET_CONNECTION_ID_SIZE :: nat where "SOCKET_CONNECTION_ID_SIZE = 33"

text \<open>The identifier from random bytes, or from the keys of an established connection.\<close>

definition connection_id_set :: "bytes option \<Rightarrow> sock_struct \<Rightarrow> bool \<times> sock_struct" where
  "connection_id_set material sc = (case material of
     None \<Rightarrow> (False, sc)
   | Some m \<Rightarrow>
       let (n, hex) = string_tohex m SOCKET_CONNECTION_ID_SIZE False in
       if n \<noteq> SOCKET_CONNECTION_ID_SIZE - 1 then (False, sc\<lparr>sc_connection_id := hex\<rparr>)
       else (True, sc\<lparr>sc_connection_id := string_tolower hex\<rparr>))"

definition socket_connection_id_generate :: "bytes option \<Rightarrow> sock_struct \<Rightarrow> bool \<times> sock_struct" where
  "socket_connection_id_generate random sc = connection_id_set random sc"

definition socket_connection_id_export :: "bytes option \<Rightarrow> sock_struct \<Rightarrow> bool \<times> sock_struct" where
  "socket_connection_id_export material sc =
     (case connection_id_set material sc of (ok, sc) \<Rightarrow> if ok then (True, sc\<lparr>sc_connection_id_final := True\<rparr>) else (False, sc))"

definition SSL_do_handshake :: "quic_world \<Rightarrow> handshake_answer \<times> quic_world" where
  "SSL_do_handshake w = (case qw_handshake w of [] \<Rightarrow> (Handshake_want, w) | a # as \<Rightarrow> (a, w\<lparr>qw_handshake := as\<rparr>))"

datatype quic_ready = Quic_ready | Quic_wait | Quic_fatal

definition quic_handshake :: "sock_struct \<Rightarrow> quic_world \<Rightarrow> quic_ready \<times> sock_struct \<times> quic_world" where
  "quic_handshake sc w =
     (if sc_connection_id_final sc then (Quic_ready, sc, w)
      else (case SSL_do_handshake w of
          (Handshake_done material, w) \<Rightarrow>
            (case socket_connection_id_export material sc of (ok, sc) \<Rightarrow> (if ok then Quic_ready else Quic_fatal, sc, w))
        | (Handshake_want, w) \<Rightarrow> (Quic_wait, sc, w)
        | (Handshake_error, w) \<Rightarrow> (Quic_fatal, sc, w)))"

definition socket_quic_connection_prepare :: "u64 \<Rightarrow> sock_struct \<Rightarrow> quic_world \<Rightarrow> (quic_ready \<times> sock_struct \<times> quic_world) option" where
  "socket_quic_connection_prepare now sc w = (case quic_handshake sc w of (ready, sc, w) \<Rightarrow>
     if ready \<noteq> Quic_ready then Some (ready, sc, w)
     else if sc_game_stream sc \<noteq> None then Some (Quic_ready, sc, w)
     else if sc_role sc = SOCKET_ROLE_SERVER \<and> \<not> qw_events_ok w then Some (Quic_fatal, sc, w)
     else do {
       (stream, sc, w) \<leftarrow> (if sc_role sc = SOCKET_ROLE_CLIENT
         then (case socket_stream_open now SOCKET_STREAM_GAME sc w of (stream, w) \<Rightarrow> Some (stream, sc, w))
         else socket_stream_accept now SOCKET_STREAM_GAME sc w);
       Some (if stream \<noteq> None then Quic_ready else Quic_wait, sc\<lparr>sc_game_stream := stream\<rparr>, w)
     })"

text \<open>The answer of \<open>recv\<close> and \<open>send\<close>: bytes, try again, or an error.\<close>

datatype tcp_answer = Tcp_bytes bytes | Tcp_again | Tcp_error

definition stream_result_ok :: "socket_stream_result \<Rightarrow> bool" where
  "stream_result_ok result \<longleftrightarrow> result = SOCKET_STREAM_RESULT_OK \<or> result = SOCKET_STREAM_RESULT_WOULD_BLOCK"

definition socket_read ::
  "u64 \<Rightarrow> (nat \<Rightarrow> tcp_answer) \<Rightarrow> nat \<Rightarrow> sock_struct \<Rightarrow> quic_world \<Rightarrow> (bool \<times> bytes \<times> sock_struct \<times> quic_world) option" where
  "socket_read now recv len sc w =
     (if sc_transport sc = SOCKET_TRANSPORT_QUIC_CONNECTION
      then if len = 0 then Some (True, [], sc, w)
        else do {
          (ready, sc, w) \<leftarrow> socket_quic_connection_prepare now sc w;
          if ready \<noteq> Quic_ready then Some (ready = Quic_wait, [], sc, w)
          else do {
            game \<leftarrow> sc_game_stream sc;
            let (result, data, game, w) = socket_stream_read len game w;
            Some (stream_result_ok result, data, sc\<lparr>sc_game_stream := Some game\<rparr>, w)
          }
        }
      else if sc_handle sc = None then Some (False, [], sc, w)
      else if len = 0 then Some (True, [], sc, w)
      else (case recv len of
          Tcp_error \<Rightarrow> Some (False, [], sc, w)
        | Tcp_again \<Rightarrow> Some (True, [], sc, w)
        | Tcp_bytes data \<Rightarrow> Some (data \<noteq> [], data, sc, w)))"

definition socket_write ::
  "u64 \<Rightarrow> (bytes \<Rightarrow> tcp_answer) \<Rightarrow> bytes \<Rightarrow> sock_struct \<Rightarrow> quic_world \<Rightarrow> (bool \<times> nat \<times> sock_struct \<times> quic_world) option" where
  "socket_write now send buf sc w =
     (if sc_transport sc = SOCKET_TRANSPORT_QUIC_CONNECTION
      then do {
        (ready, sc, w) \<leftarrow> socket_quic_connection_prepare now sc w;
        if ready \<noteq> Quic_ready then Some (ready = Quic_wait, 0, sc, w)
        else do {
          game \<leftarrow> sc_game_stream sc;
          let (result, amt, game, w) = socket_stream_write buf game w;
          Some (stream_result_ok result, amt, sc\<lparr>sc_game_stream := Some game\<rparr>, w)
        }
      }
      else if sc_handle sc = None then Some (False, 0, sc, w)
      else if buf = [] then Some (True, 0, sc, w)
      else (case send buf of
          Tcp_error \<Rightarrow> Some (False, 0, sc, w)
        | Tcp_again \<Rightarrow> Some (True, 0, sc, w)
        | Tcp_bytes data \<Rightarrow> Some (True, length data, sc, w)))"

text \<open>Destroying the first pending stream until none is left.\<close>

definition close_pending_step :: "sock_struct \<times> quic_world \<Rightarrow> ((sock_struct \<times> quic_world) + (sock_struct \<times> quic_world)) option" where
  "close_pending_step s = (case s of (sc, w) \<Rightarrow>
     (case sc_pending_streams sc of
        [] \<Rightarrow> Some (Inr (sc, w))
      | stream # _ \<Rightarrow> map_option Inl (socket_stream_destroy (Some stream) sc w)))"

definition close_quic :: "sock_struct \<Rightarrow> quic_world \<Rightarrow> (sock_struct \<times> quic_world) option" where
  "close_quic sc w =
     (if \<not> sc_quic sc then Some (sc, w)
      else do {
        let (sc, w) = (if sc_transport sc = SOCKET_TRANSPORT_QUIC_CONNECTION \<and> \<not> sc_shutdown_sent sc
          then (sc\<lparr>sc_shutdown_sent := True\<rparr>, (case sc_game_stream sc of
             None \<Rightarrow> w
           | Some g \<Rightarrow> w\<lparr>qw_concluded := qw_concluded w @ [st_ssl g]\<rparr>))
          else (sc, w));
        (sc, w) \<leftarrow> socket_stream_destroy (sc_game_stream sc) sc w;
        (sc, w) \<leftarrow> c_loop close_pending_step (sc\<lparr>sc_game_stream := None\<rparr>, w);
        Some (sc\<lparr>sc_quic := False\<rparr>, w)
      })"

text \<open>The descriptor that is closed, if the socket owns it, and whether it is shut down first.\<close>

definition socket_close :: "sock_struct \<Rightarrow> quic_world \<Rightarrow> ((nat \<times> bool) option \<times> sock_struct \<times> quic_world) option" where
  "socket_close sc w = do {
     (sc, w) \<leftarrow> close_quic sc w;
     Some (case sc_handle sc of
         None \<Rightarrow> (None, sc, w)
       | Some handle \<Rightarrow>
           if \<not> sc_owns_handle sc then (None, sc\<lparr>sc_handle := None\<rparr>, w)
           else (Some (handle, sc_transport sc = SOCKET_TRANSPORT_TCP), sc\<lparr>sc_handle := None\<rparr>, w))
   }"


section \<open>Addresses\<close>

text \<open>
  Socket addresses of the two families, and of any other one. Words in network byte order are
  represented by their values, so that \<open>htonl\<close> of a mask is the mask. A shift of 32 bits is
  undefined in C: \<open>None\<close>.
\<close>

datatype sockaddr = Addr4 u32 | Addr6 "u32 \<times> u32 \<times> u32 \<times> u32" | Addr_other

definition c_mask_shift :: "nat \<Rightarrow> u32 option" where
  "c_mask_shift n = (if n < 32 then Some (push_bit n 0xffffffff) else None)"

fun socket_addr_plen :: "sockaddr \<Rightarrow> nat" where
  "socket_addr_plen (Addr6 _) = 128"
| "socket_addr_plen (Addr4 _) = 32"
| "socket_addr_plen Addr_other = 0"

definition ipv6_masks :: "nat \<Rightarrow> (u32 \<times> u32 \<times> u32 \<times> u32) option" where
  "ipv6_masks plen = do {
     m0 \<leftarrow> (if plen \<le> 32 then c_mask_shift (32 - plen) else Some 0xffffffff);
     m1 \<leftarrow> (if plen \<le> 32 then Some 0 else if plen > 64 then Some 0xffffffff else c_mask_shift (32 - (plen - 32)));
     m2 \<leftarrow> (if plen \<le> 64 then Some 0 else if plen > 96 then Some 0xffffffff else c_mask_shift (32 - (plen - 64)));
     m3 \<leftarrow> (if plen \<le> 96 then Some 0 else c_mask_shift (32 - (plen - 96)));
     Some (m0, m1, m2, m3)
   }"

text \<open>\<open>None\<close> is also a failed assertion on the prefix length.\<close>

fun socket_addr_cmp :: "sockaddr \<Rightarrow> sockaddr \<Rightarrow> nat \<Rightarrow> int option" where
  "socket_addr_cmp (Addr4 a) (Addr4 b) plen =
     (if plen > 32 then None
      else map_option (\<lambda>mask. if a AND mask = b AND mask then 0 else -1) (c_mask_shift (32 - plen)))"
| "socket_addr_cmp (Addr6 (a0, a1, a2, a3)) (Addr6 (b0, b1, b2, b3)) plen =
     (if plen > 128 then None
      else map_option (\<lambda>(m0, m1, m2, m3).
          if (a0 XOR b0) AND m0 OR (a1 XOR b1) AND m1 OR (a2 XOR b2) AND m2 OR (a3 XOR b3) AND m3 \<noteq> 0 then 1 else 0)
        (ipv6_masks plen))"
| "socket_addr_cmp _ _ plen = Some (-1)"

text \<open>An IPv4 address is compared with the IPv4 address that an IPv6 peer maps; the sum is an
  \<open>unsigned short\<close>.\<close>

definition socket_cmp_addr :: "sockaddr \<Rightarrow> sockaddr \<Rightarrow> nat \<Rightarrow> int option" where
  "socket_cmp_addr sc_addr addr plen = (case (sc_addr, addr) of
     (Addr6 (a0, a1, a2, a3), Addr4 b) \<Rightarrow>
       if a0 = 0 \<and> a1 = 0 \<and> a2 = 0xffff then socket_addr_cmp sc_addr (Addr6 (a0, a1, a2, b)) ((96 + plen) mod 65536)
       else socket_addr_cmp sc_addr addr plen
   | _ \<Rightarrow> socket_addr_cmp sc_addr addr plen)"

end
