(* ===== verification/Streams_Correct.thy ===== *)
theory Streams_Correct
  imports Streams "HOL-Library.Sublist"
begin

text \<open>
  Properties of \<open>Streams\<close>: prefaces are decoded exactly and survive any division into pieces,
  data follows a complete preface, addresses are compared by their prefixes, the list of
  pending streams stays within its bound and every SSL object is freed once; and what
  duplicate game streams do to a connection.
\<close>

section \<open>Prefaces\<close>

lemma preface_bytes: "socket_stream_preface_encode kind = [65, 84, 82, 78, stream_kind_code kind, 0, 0, 1]"
  by (simp add: socket_stream_preface_encode_def socket_stream_magic_def SOCKET_STREAM_PROTOCOL_VERSION_def)

lemma length_preface [simp]: "length (socket_stream_preface_encode kind) = 8"
  by (simp add: preface_bytes)

lemma be16_eq_1: "(push_bit 8 (ucast a) OR ucast b :: u16) = 1 \<longleftrightarrow> a = (0 :: u8) \<and> b = (1 :: u8)"
proof
  assume eq: "(push_bit 8 (ucast a) OR ucast b :: u16) = 1"
  have "ucast (drop_bit 8 (push_bit 8 (ucast a) OR ucast b :: u16)) = a"
    by (rule bit_word_eqI) (auto simp: bit_simps dest: bit_imp_le_length)
  moreover have "ucast (push_bit 8 (ucast a) OR ucast b :: u16) = b" by (rule bit_word_eqI) (auto simp: bit_simps)
  ultimately show "a = 0 \<and> b = 1" unfolding eq by simp
qed simp

lemma preface_decode_exact:
  "socket_stream_preface_decode (Some p) = Some k \<longleftrightarrow> k \<noteq> SOCKET_STREAM_UNKNOWN \<and> p = socket_stream_preface_encode k"
proof (cases "length p = 8")
  case True
  then obtain a b c d e f g h where p: "p = [a, b, c, d, e, f, g, h]"
    by (auto simp: length_Suc_conv eval_nat_numeral)
  show ?thesis
    by (cases k) (auto simp: p preface_bytes socket_stream_preface_decode_def SOCKET_STREAM_PREFACE_SIZE_def socket_stream_magic_def
        SOCKET_STREAM_PROTOCOL_VERSION_def be16_eq_1 Let_def)
qed (auto simp: socket_stream_preface_decode_def SOCKET_STREAM_PREFACE_SIZE_def)

section \<open>Addresses\<close>

text \<open>The bits of an address, from the most significant one.\<close>

fun addr_bit :: "sockaddr \<Rightarrow> nat \<Rightarrow> bool" where
  "addr_bit (Addr4 a) i = bit a (31 - i)"
| "addr_bit (Addr6 (a0, a1, a2, a3)) i =
     bit (if i < 32 then a0 else if i < 64 then a1 else if i < 96 then a2 else a3) (31 - i mod 32)"
| "addr_bit Addr_other i = False"

lemma push_mask_bits: "bit (push_bit k 0xffffffff :: u32) n \<longleftrightarrow> k \<le> n \<and> n < 32"
proof -
  have m: "(0xffffffff :: u32) = mask 32" by (simp add: mask_eq_exp_minus_1)
  show ?thesis unfolding m by (auto simp: bit_simps)
qed

lemma word_zero_bits: "(x :: u32) = 0 \<longleftrightarrow> (\<forall>n. \<not> bit x n)"
  by (auto intro: bit_word_eqI)

lemma word_prefix:
  assumes "k \<le> 32"
  shows "((x XOR y) AND push_bit k 0xffffffff = (0 :: u32)) \<longleftrightarrow> (\<forall>i < 32 - k. bit x (31 - i) = bit y (31 - i))"
proof -
  have "((x XOR y) AND push_bit k 0xffffffff = 0) \<longleftrightarrow> (\<forall>n. \<not> bit ((x XOR y) AND push_bit k 0xffffffff) n)"
    by (rule word_zero_bits)
  also have "\<dots> \<longleftrightarrow> (\<forall>n. k \<le> n \<and> n < 32 \<longrightarrow> bit x n = bit y n)" by (auto simp: bit_and_iff bit_xor_iff push_mask_bits)
  also have "\<dots> \<longleftrightarrow> (\<forall>i < 32 - k. bit x (31 - i) = bit y (31 - i))"
  proof
    assume h: "\<forall>i < 32 - k. bit x (31 - i) = bit y (31 - i)"
    have "bit x n = bit y n" if "k \<le> n" "n < 32" for n
    proof -
      have "31 - n < 32 - k" using that by linarith
      then show ?thesis using h [rule_format, of "31 - n"] that by simp
    qed
    then show "\<forall>n. k \<le> n \<and> n < 32 \<longrightarrow> bit x n = bit y n" by blast
  next
    assume h: "\<forall>n. k \<le> n \<and> n < 32 \<longrightarrow> bit x n = bit y n"
    have "k \<le> 31 - i \<and> 31 - i < 32" if "i < 32 - k" for i using that by linarith
    then show "\<forall>i < 32 - k. bit x (31 - i) = bit y (31 - i)" using h by blast
  qed
  finally show ?thesis .
qed

lemma addr4_cmp:
  assumes "1 \<le> plen" "plen \<le> 32"
  shows "socket_addr_cmp (Addr4 a) (Addr4 b) plen = Some (if \<forall>i < plen. addr_bit (Addr4 a) i = addr_bit (Addr4 b) i then 0 else -1)"
proof -
  have "(a AND m = b AND m) \<longleftrightarrow> ((a XOR b) AND m = 0)" for m
    by (auto simp: word_zero_bits bit_eq_iff bit_and_iff bit_xor_iff)
  then show ?thesis using assms word_prefix [of "32 - plen" a b] by (simp add: c_mask_shift_def)
qed

text \<open>The mask of the first \<open>m\<close> bits of a word, at most all of them, and agreement in these bits.\<close>

definition prefix_mask :: "nat \<Rightarrow> u32" where
  "prefix_mask m = push_bit (32 - min 32 m) 0xffffffff"

definition prefix_agree :: "u32 \<Rightarrow> u32 \<Rightarrow> nat \<Rightarrow> bool" where
  "prefix_agree x y m \<longleftrightarrow> (\<forall>i < min 32 m. bit x (31 - i) = bit y (31 - i))"

lemma prefix_mask_agree: "((x XOR y) AND prefix_mask m = 0) \<longleftrightarrow> prefix_agree x y m"
  using word_prefix [of "32 - min 32 m" x y] by (simp add: prefix_mask_def prefix_agree_def min_def)

lemma ipv6_masks_prefix:
  assumes "1 \<le> plen" "plen \<le> 128"
  shows "ipv6_masks plen = Some (prefix_mask plen, prefix_mask (plen - 32), prefix_mask (plen - 64), prefix_mask (plen - 96))"
proof -
  have none: "push_bit 32 0xffffffff = (0 :: u32)" by code_simp
  consider "plen \<le> 32" | "32 < plen" "plen \<le> 64" | "64 < plen" "plen \<le> 96" | "96 < plen" by linarith
  then show ?thesis using assms none by cases (auto simp: ipv6_masks_def c_mask_shift_def prefix_mask_def min_def)
qed

lemma addr6_bits:
  assumes "i < 32"
  shows "addr_bit (Addr6 (a0, a1, a2, a3)) i = bit a0 (31 - i)" "addr_bit (Addr6 (a0, a1, a2, a3)) (i + 32) = bit a1 (31 - i)"
    "addr_bit (Addr6 (a0, a1, a2, a3)) (i + 64) = bit a2 (31 - i)" "addr_bit (Addr6 (a0, a1, a2, a3)) (i + 96) = bit a3 (31 - i)"
proof -
  have "(i + 64) mod 32 = i" "(i + 96) mod 32 = i" using assms mod_mult_self2 [of i 32 2] mod_mult_self2 [of i 32 3] by simp_all
  then show "addr_bit (Addr6 (a0, a1, a2, a3)) i = bit a0 (31 - i)" "addr_bit (Addr6 (a0, a1, a2, a3)) (i + 32) = bit a1 (31 - i)"
    "addr_bit (Addr6 (a0, a1, a2, a3)) (i + 64) = bit a2 (31 - i)" "addr_bit (Addr6 (a0, a1, a2, a3)) (i + 96) = bit a3 (31 - i)"
    using assms by simp_all
qed

lemma all_less_128:
  assumes "(n :: nat) \<le> 128"
  shows "(\<forall>i < n. P i) \<longleftrightarrow> (\<forall>i < min 32 (n - 0). P i) \<and> (\<forall>i < min 32 (n - 32). P (i + 32)) \<and> (\<forall>i < min 32 (n - 64). P (i + 64)) \<and>
    (\<forall>i < min 32 (n - 96). P (i + 96))" (is "_ \<longleftrightarrow> ?r")
proof
  assume r: ?r
  have "P i" if "i < n" for i
  proof -
    consider "i < 32" | "32 \<le> i" "i < 64" | "64 \<le> i" "i < 96" | "96 \<le> i" "i < 128" using \<open>i < n\<close> assms by linarith
    then show ?thesis
    proof cases
      case 2
      then show ?thesis using r [THEN conjunct2, THEN conjunct1, rule_format, of "i - 32"] \<open>i < n\<close> by (simp add: diff_less_mono less_diff_conv2)
    next
      case 3
      then show ?thesis using r [THEN conjunct2, THEN conjunct2, THEN conjunct1, rule_format, of "i - 64"] \<open>i < n\<close> by (simp add: diff_less_mono less_diff_conv2)
    next
      case 4
      then show ?thesis using r [THEN conjunct2, THEN conjunct2, THEN conjunct2, rule_format, of "i - 96"] \<open>i < n\<close> by (simp add: diff_less_mono less_diff_conv2)
    qed (use r that in simp)
  qed
  then show "\<forall>i < n. P i" by blast
qed (simp add: less_diff_conv)

lemma addr6_cmp:
  assumes "1 \<le> plen" "plen \<le> 128"
  shows "socket_addr_cmp (Addr6 a) (Addr6 b) plen = Some (if \<forall>i < plen. addr_bit (Addr6 a) i = addr_bit (Addr6 b) i then 0 else 1)"
proof -
  obtain a0 a1 a2 a3 b0 b1 b2 b3 where ab: "a = (a0, a1, a2, a3)" "b = (b0, b1, b2, b3)" by (cases a; cases b) auto
  have or0: "(p OR q = 0) \<longleftrightarrow> p = 0 \<and> q = 0" for p q :: u32 by (auto simp: word_zero_bits bit_or_iff)
  have "(\<forall>i < plen. addr_bit (Addr6 a) i = addr_bit (Addr6 b) i) \<longleftrightarrow>
      prefix_agree a0 b0 plen \<and> prefix_agree a1 b1 (plen - 32) \<and> prefix_agree a2 b2 (plen - 64) \<and> prefix_agree a3 b3 (plen - 96)"
    unfolding all_less_128 [OF assms(2)] ab prefix_agree_def by (simp add: addr6_bits del: addr_bit.simps)
  then show ?thesis
    using assms by (simp add: ab ipv6_masks_prefix or0 prefix_mask_agree del: addr_bit.simps)
qed

text \<open>
  C36. Comparing a peer with an address and a prefix length from one to the length of the
  address answers whether the addresses agree in that many leading bits, also for an IPv4
  address and a peer whose IPv6 address maps one; a prefix length of zero is undefined.
\<close>

theorem cmp_addr_prefix:
  "(1 \<le> plen \<and> plen \<le> 32 \<longrightarrow> (socket_cmp_addr (Addr4 a) (Addr4 b) plen = Some 0 \<longleftrightarrow> (\<forall>i < plen. addr_bit (Addr4 a) i = addr_bit (Addr4 b) i))) \<and>
   (1 \<le> plen \<and> plen \<le> 32 \<longrightarrow>
     (socket_cmp_addr (Addr6 (0, 0, 0xffff, a)) (Addr4 b) plen = Some 0 \<longleftrightarrow> (\<forall>i < plen. addr_bit (Addr4 a) i = addr_bit (Addr4 b) i))) \<and>
   (1 \<le> plen \<and> plen \<le> 128 \<longrightarrow> (socket_cmp_addr (Addr6 v) (Addr6 w) plen = Some 0 \<longleftrightarrow> (\<forall>i < plen. addr_bit (Addr6 v) i = addr_bit (Addr6 w) i))) \<and>
   socket_cmp_addr (Addr4 a) (Addr4 b) 0 = None \<and> socket_cmp_addr (Addr6 v) (Addr6 w) 0 = None"
proof (intro conjI impI)
  assume p: "1 \<le> plen \<and> plen \<le> 32"
  then show "socket_cmp_addr (Addr4 a) (Addr4 b) plen = Some 0 \<longleftrightarrow> (\<forall>i < plen. addr_bit (Addr4 a) i = addr_bit (Addr4 b) i)"
    by (simp add: socket_cmp_addr_def addr4_cmp del: socket_addr_cmp.simps)
  have "(\<forall>i < 96 + plen. addr_bit (Addr6 (0, 0, 0xffff, a)) i = addr_bit (Addr6 (0, 0, 0xffff, b)) i) \<longleftrightarrow> prefix_agree a b plen"
    using p unfolding prefix_agree_def by (subst all_less_128) (auto simp: addr6_bits simp del: addr_bit.simps)
  moreover have "prefix_agree a b plen \<longleftrightarrow> (\<forall>i < plen. addr_bit (Addr4 a) i = addr_bit (Addr4 b) i)"
    using p by (simp add: prefix_agree_def min_absorb2)
  ultimately show "socket_cmp_addr (Addr6 (0, 0, 0xffff, a)) (Addr4 b) plen = Some 0 \<longleftrightarrow> (\<forall>i < plen. addr_bit (Addr4 a) i = addr_bit (Addr4 b) i)"
    using p by (simp add: socket_cmp_addr_def addr6_cmp del: socket_addr_cmp.simps addr_bit.simps)
next
  assume "1 \<le> plen \<and> plen \<le> 128"
  then show "socket_cmp_addr (Addr6 v) (Addr6 w) plen = Some 0 \<longleftrightarrow> (\<forall>i < plen. addr_bit (Addr6 v) i = addr_bit (Addr6 w) i)"
    by (cases v) (simp add: socket_cmp_addr_def addr6_cmp del: socket_addr_cmp.simps addr_bit.simps)
next
  show "socket_cmp_addr (Addr4 a) (Addr4 b) 0 = None" by (simp add: socket_cmp_addr_def c_mask_shift_def)
  show "socket_cmp_addr (Addr6 v) (Addr6 w) 0 = None"
    by (cases v; cases w) (simp add: socket_cmp_addr_def ipv6_masks_def c_mask_shift_def)
qed


theorem cmp_addr_prefix_witness:
  "socket_cmp_addr (Addr6 (0, 0, 0xffff, 0x0a010203)) (Addr4 0x0a010000) 16 = Some 0 \<and>
   map (addr_bit (Addr4 0x0a010203)) [0..<16] = map (addr_bit (Addr4 0x0a010000)) [0..<16]"
proof -
  have "socket_cmp_addr (Addr6 (0, 0, 0xffff, 0x0a010203)) (Addr4 0x0a010000) 16 = Some 0" by code_simp
  moreover have "\<forall>i < 16. addr_bit (Addr4 0x0a010203) i = addr_bit (Addr4 0x0a010000) i"
    using calculation cmp_addr_prefix [of 16 "0x0a010203" "0x0a010000"] by (simp del: addr_bit.simps)
  ultimately show ?thesis by (auto simp del: addr_bit.simps upt.simps upt_rec_numeral)
qed


section \<open>Reading a preface\<close>

text \<open>The bytes that a script of answers delivers before it ends.\<close>

fun stream_bytes :: "ssl_answer list \<Rightarrow> bytes" where
  "stream_bytes [] = []"
| "stream_bytes (Ssl_data d # as) = d @ stream_bytes as"
| "stream_bytes (Ssl_want # as) = stream_bytes as"
| "stream_bytes (Ssl_zero_return # as) = []"
| "stream_bytes (Ssl_error finished # as) = []"

text \<open>What is known of a stream: the part of the preface read, and what is still to come.\<close>

definition stream_content :: "socket_stream \<Rightarrow> quic_world \<Rightarrow> bytes" where
  "stream_content s w = take (st_preface_pos s) (st_preface s) @ stream_bytes (qw_read w (st_ssl s))"

definition preface_sized :: "socket_stream \<Rightarrow> bool" where
  "preface_sized s \<longleftrightarrow> length (st_preface s) = 8 \<and> st_preface_pos s \<le> 8"

text \<open>The fields of the world that reading leaves alone.\<close>

definition same_but_reads :: "nat \<Rightarrow> quic_world \<Rightarrow> quic_world \<Rightarrow> bool" where
  "same_but_reads ssl w w' \<longleftrightarrow> (\<exists>as. w' = w\<lparr>qw_read := (qw_read w)(ssl := as)\<rparr>)"

lemma same_but_reads_refl: "same_but_reads ssl w w"
  unfolding same_but_reads_def by (rule exI [of _ "qw_read w ssl"]) simp

lemma same_but_reads_trans: "same_but_reads ssl w w' \<Longrightarrow> same_but_reads ssl w' w'' \<Longrightarrow> same_but_reads ssl w w''"
  unfolding same_but_reads_def by auto

lemma SSL_read_cases:
  assumes "SSL_read_ex ssl len w = (r, d, w')"
  shows "same_but_reads ssl w w'"
    and "r = Status_ok n \<Longrightarrow> n = length d \<and> length d \<le> len \<and> d @ stream_bytes (qw_read w' ssl) = stream_bytes (qw_read w ssl)"
    and "r = Status_want \<Longrightarrow> stream_bytes (qw_read w' ssl) = stream_bytes (qw_read w ssl)"
    and "r = Status_zero_return \<or> r = Status_error f \<Longrightarrow> stream_bytes (qw_read w ssl) = []"
  using assms same_but_reads_refl [of ssl w]
  by (auto simp: SSL_read_ex_def same_but_reads_def split: list.splits ssl_answer.splits if_splits)


text \<open>What one call of \<open>socket_stream_preface_read\<close> does.\<close>

definition preface_progress :: "socket_stream \<Rightarrow> quic_world \<Rightarrow> bool \<Rightarrow> socket_stream \<Rightarrow> quic_world \<Rightarrow> bool" where
  "preface_progress s w c s' w' \<longleftrightarrow>
     same_but_reads (st_ssl s) w w' \<and> preface_sized s' \<and>
     s' = s\<lparr>st_kind := st_kind s', st_preface := st_preface s', st_preface_pos := st_preface_pos s'\<rparr> \<and>
     (if c then st_preface_pos s' = 8 \<and> st_kind s' \<noteq> SOCKET_STREAM_UNKNOWN \<and> st_preface s' = socket_stream_preface_encode (st_kind s') \<and>
        stream_content s' w' = stream_content s w
      else st_kind s' = st_kind s \<and>
        (if st_preface_pos s' < 8 then stream_content s' w' = stream_content s w
         else \<forall>k. k \<noteq> SOCKET_STREAM_UNKNOWN \<longrightarrow> \<not> prefix (socket_stream_preface_encode k) (stream_content s w)))"

lemma preface_progress_step:
  assumes "preface_progress s1 w1 c s' w'" "same_but_reads (st_ssl s) w w1" "stream_content s1 w1 = stream_content s w"
    "s1 = s\<lparr>st_preface := p, st_preface_pos := n\<rparr>"
  shows "preface_progress s w c s' w'"
  using assms same_but_reads_trans [of "st_ssl s" w w1 w']
  by (auto simp: preface_progress_def split: if_splits)

lemma short_no_preface: "length xs < 8 \<Longrightarrow> \<not> prefix (socket_stream_preface_encode k) xs"
  using prefix_length_le [of "socket_stream_preface_encode k" xs] by auto

lemma preface_read_progress:
  assumes "preface_sized s" "socket_stream_preface_read s w = (c, s', w')"
  shows "preface_progress s w c s' w'"
  using assms
proof (induction "8 - st_preface_pos s" arbitrary: s w rule: less_induct)
  case less
  note prems = less.prems
  note step = prems(2) [unfolded socket_stream_preface_read.simps [of s w] SOCKET_STREAM_PREFACE_SIZE_def]
  let ?p = "st_preface_pos s"
  show ?case
  proof (cases "?p < 8")
    case True
    obtain r d w1 where r: "SSL_read_ex (st_ssl s) (8 - ?p) w = (r, d, w1)" by (metis prod.exhaust)
    note reads = SSL_read_cases [OF r]
    show ?thesis
    proof (cases r)
      case (Status_ok n)
      let ?s = "s\<lparr>st_preface := take ?p (st_preface s) @ d @ drop (?p + length d) (st_preface s), st_preface_pos := ?p + n\<rparr>"
      have n: "n = length d" "length d \<le> 8 - ?p" "d @ stream_bytes (qw_read w1 (st_ssl s)) = stream_bytes (qw_read w (st_ssl s))"
        using reads(2) [OF Status_ok] by auto
      have sized: "preface_sized ?s" using prems(1) n True by (simp add: preface_sized_def)
      have content: "stream_content ?s w1 = stream_content s w"
        using n prems(1) True by (simp add: stream_content_def preface_sized_def)
      show ?thesis
      proof (cases "n = 0")
        case True
        then show ?thesis using step \<open>?p < 8\<close> r Status_ok sized content reads(1) n
          by (auto simp: preface_progress_def)
      next
        case False
        have "socket_stream_preface_read ?s w1 = (c, s', w')"
          using step True r Status_ok False
          by (simp add: Let_def)
        then have "preface_progress ?s w1 c s' w'"
          using less.hyps [of ?s w1] True False sized by simp
        then show ?thesis using reads(1) content by (rule preface_progress_step) simp
      qed
    next
      case Status_want
      then show ?thesis using prems(1) step True r reads(1,3)
        by (auto simp: preface_progress_def stream_content_def)
    next
      case Status_zero_return
      then show ?thesis using prems(1) step True r reads(1) reads(4) short_no_preface
        by (auto simp: preface_progress_def stream_content_def preface_sized_def)
    next
      case (Status_error f)
      then show ?thesis using prems(1) step True r reads(1) reads(4) [of f] short_no_preface
        by (auto simp: preface_progress_def stream_content_def preface_sized_def)
    qed
  next
    case False
    then have sized: "?p = 8" "length (st_preface s) = 8" using prems(1) by (auto simp: preface_sized_def)
    have content: "prefix (socket_stream_preface_encode k) (stream_content s w) \<longleftrightarrow> st_preface s = socket_stream_preface_encode k" for k
      using sized by (auto simp: stream_content_def prefix_def append_eq_append_conv)
    show ?thesis
    proof (cases "socket_stream_preface_decode (Some (st_preface s))")
      case None
      then show ?thesis
        using prems(1) step False sized content preface_decode_exact [of "st_preface s"] same_but_reads_refl
        by (auto simp: preface_progress_def socket_stream_preface_valid_def)
    next
      case (Some k)
      then have "k \<noteq> SOCKET_STREAM_UNKNOWN \<and> st_preface s = socket_stream_preface_encode k" by (simp add: preface_decode_exact)
      then show ?thesis
        using prems(1) step Some False sized same_but_reads_refl
        by (auto simp: preface_progress_def socket_stream_preface_valid_def stream_content_def preface_sized_def)
    qed
  qed
qed


section \<open>Writing behind a preface\<close>

lemma SSL_write_cases:
  assumes "SSL_write_ex ssl data w = (r, w')"
  shows "r = Status_ok n \<Longrightarrow> n \<le> length data \<and> qw_sent w' ssl = qw_sent w ssl @ take n data"
    and "(\<forall>n. r \<noteq> Status_ok n) \<Longrightarrow> qw_sent w' ssl = qw_sent w ssl"
  using assms by (auto simp: SSL_write_ex_def min_def split: list.splits ssl_taken.splits)

lemma preface_write_progress:
  assumes "preface_sized s" "st_local s" "socket_stream_preface_write s w = (r, s', w')"
  shows "\<exists>n. s' = s\<lparr>st_preface_pos := st_preface_pos s + n\<rparr> \<and> preface_sized s' \<and> (r = SOCKET_STREAM_RESULT_OK \<longrightarrow> st_preface_pos s' = 8) \<and>
    qw_sent w' (st_ssl s) = qw_sent w (st_ssl s) @ take n (drop (st_preface_pos s) (st_preface s))"
  using assms
proof (induction "8 - st_preface_pos s" arbitrary: s w rule: less_induct)
  case less
  let ?p = "st_preface_pos s"
  note step = less.prems(3) [unfolded socket_stream_preface_write.simps [of s w] SOCKET_STREAM_PREFACE_SIZE_def]
  show ?case
  proof (cases "?p < 8")
    case True
    obtain a w1 where a: "SSL_write_ex (st_ssl s) (drop ?p (st_preface s)) w = (a, w1)" by fastforce
    show ?thesis
    proof (cases "socket_stream_ssl_result a = SOCKET_STREAM_RESULT_OK")
      case ok: True
      then obtain n where n: "a = Status_ok n" "n \<noteq> 0" by (cases a) (auto split: if_splits)
      have w1: "n \<le> 8 - ?p" "qw_sent w1 (st_ssl s) = qw_sent w (st_ssl s) @ take n (drop ?p (st_preface s))"
        using SSL_write_cases(1) [OF a n(1)] less.prems(1) by (auto simp: preface_sized_def)
      let ?s = "s\<lparr>st_preface_pos := ?p + n\<rparr>"
      have call: "socket_stream_preface_write ?s w1 = (r, s', w')" using step True less.prems(2) a n by simp
      have "8 - st_preface_pos ?s < 8 - ?p" "preface_sized ?s" "st_local ?s" using less.prems True w1 n(2) by (auto simp: preface_sized_def)
      note IH = less.hyps [OF this call, simplified]
      obtain m where
        m: "s' = s\<lparr>st_preface_pos := ?p + n + m\<rparr>" "preface_sized s'" "r = SOCKET_STREAM_RESULT_OK \<longrightarrow> st_preface_pos s' = 8"
          "qw_sent w' (st_ssl s) = qw_sent w1 (st_ssl s) @ take m (drop (?p + n) (st_preface s))"
        using IH by blast
      then show ?thesis using w1(2) by (intro exI [of _ "n + m"]) (simp add: take_add add.assoc add.commute [of n "st_preface_pos s"])
    next
      case False
      have "qw_sent w1 (st_ssl s) = qw_sent w (st_ssl s)"
        using SSL_write_cases [OF a] False by (cases a) (auto split: if_splits)
      then show ?thesis using step True False less.prems a by (intro exI [of _ 0]) auto
    qed
  next
    case False
    then show ?thesis using step less.prems by (intro exI [of _ 0]) (auto simp: preface_sized_def)
  qed
qed


text \<open>A sequence of writes: the bytes that were taken of each buffer.\<close>

fun stream_writes :: "bytes list \<Rightarrow> socket_stream \<Rightarrow> quic_world \<Rightarrow> bytes \<times> socket_stream \<times> quic_world" where
  "stream_writes [] s w = ([], s, w)"
| "stream_writes (buf # bufs) s w = (case socket_stream_write buf s w of (r, n, s, w) \<Rightarrow>
     (case stream_writes bufs s w of (data, s, w) \<Rightarrow> (take n buf @ data, s, w)))"

text \<open>What was sent on a local stream: the preface as far as it goes, and data only behind all of it.\<close>

definition sent_data :: "socket_stream \<Rightarrow> quic_world \<Rightarrow> bytes \<Rightarrow> bool" where
  "sent_data s w data \<longleftrightarrow> preface_sized s \<and> st_local s \<and> qw_sent w (st_ssl s) = take (st_preface_pos s) (st_preface s) @ data \<and>
     (data \<noteq> [] \<longrightarrow> st_preface_pos s = 8)"

lemma write_sent_data:
  assumes "sent_data s w data" "socket_stream_write buf s w = (r, n, s', w')"
  shows "sent_data s' w' (data @ take n buf) \<and> (\<exists>p. s' = s\<lparr>st_preface_pos := p\<rparr>)"
proof -
  obtain pr s1 w1 where pr: "socket_stream_preface_write s w = (pr, s1, w1)" by (metis prod.exhaust)
  obtain m where m: "s1 = s\<lparr>st_preface_pos := st_preface_pos s + m\<rparr>" "preface_sized s1" "pr = SOCKET_STREAM_RESULT_OK \<longrightarrow> st_preface_pos s1 = 8"
    "qw_sent w1 (st_ssl s) = qw_sent w (st_ssl s) @ take m (drop (st_preface_pos s) (st_preface s))"
    using preface_write_progress [OF _ _ pr] assms(1) unfolding sent_data_def by blast
  have "data = [] \<or> m = 0" using assms(1) m(1,2) by (auto simp: sent_data_def preface_sized_def)
  then have s1: "sent_data s1 w1 data" using assms(1) m by (auto simp: sent_data_def take_add)
  show ?thesis
  proof (cases "pr = SOCKET_STREAM_RESULT_OK \<and> buf \<noteq> []")
    case True
    obtain a w2 where a: "SSL_write_ex (st_ssl s1) buf w1 = (a, w2)" by fastforce
    have ret: "s' = s1" "w' = w2" "n = (case a of Status_ok amount \<Rightarrow> amount | _ \<Rightarrow> 0)"
      using assms(2) pr True a by (simp_all add: socket_stream_write_def)
    have "qw_sent w2 (st_ssl s1) = qw_sent w1 (st_ssl s1) @ take n buf"
      using SSL_write_cases [OF a] ret(3) by (cases a) auto
    then show ?thesis using s1 m ret(1,2) True by (auto simp: sent_data_def)
  next
    case False
    then show ?thesis using assms(2) pr s1 m(1) by (auto simp: socket_stream_write_def split: if_splits)
  qed
qed

lemma writes_sent_data:
  assumes "sent_data s w data" "stream_writes bufs s w = (extra, s', w')"
  shows "sent_data s' w' (data @ extra) \<and> (\<exists>p. s' = s\<lparr>st_preface_pos := p\<rparr>)"
  using assms
proof (induction bufs arbitrary: s w data extra)
  case (Cons buf bufs)
  obtain r n s1 w1 where a: "socket_stream_write buf s w = (r, n, s1, w1)" by (metis prod.exhaust)
  obtain d s2 w2 where b: "stream_writes bufs s1 w1 = (d, s2, w2)" by (metis prod.exhaust)
  note one = write_sent_data [OF Cons.prems(1) a]
  have "s2 = s'" "w2 = w'" "extra = take n buf @ d" using Cons.prems(2) a b by simp_all
  then show ?case using Cons.IH [OF conjunct1 [OF one]] b one by fastforce
qed (auto intro: exI [of _ "st_preface_pos s'"])

section \<open>Reading behind a preface\<close>

text \<open>A sequence of reads into buffers of the given lengths: all that they return.\<close>

fun stream_reads :: "nat list \<Rightarrow> socket_stream \<Rightarrow> quic_world \<Rightarrow> bytes \<times> socket_stream \<times> quic_world" where
  "stream_reads [] s w = ([], s, w)"
| "stream_reads (len # lens) s w = (case socket_stream_read len s w of (r, d, s, w) \<Rightarrow>
     (case stream_reads lens s w of (data, s, w) \<Rightarrow> (d @ data, s, w)))"

text \<open>How many reads a script can keep busy.\<close>

definition script_size :: "ssl_answer list \<Rightarrow> nat" where
  "script_size as = length (stream_bytes as) + length as"

lemma SSL_read_all:
  assumes "SSL_read_ex ssl len w = (r, d, w')"
  shows "d @ stream_bytes (qw_read w' ssl) = stream_bytes (qw_read w ssl)"
    and "0 < len \<Longrightarrow> stream_bytes (qw_read w' ssl) = [] \<or> script_size (qw_read w' ssl) < script_size (qw_read w ssl)"
  using assms by (auto simp: SSL_read_ex_def script_size_def split: list.splits ssl_answer.splits if_splits)

lemma stream_read_all:
  assumes "st_preface_pos s = SOCKET_STREAM_PREFACE_SIZE" "socket_stream_read len s w = (r, d, s', w')"
  shows "s' = s" "d @ stream_bytes (qw_read w' (st_ssl s)) = stream_bytes (qw_read w (st_ssl s))"
    "0 < len \<Longrightarrow> stream_bytes (qw_read w' (st_ssl s)) = [] \<or> script_size (qw_read w' (st_ssl s)) < script_size (qw_read w (st_ssl s))"
proof -
  obtain r1 d1 w1 where a: "SSL_read_ex (st_ssl s) len w = (r1, d1, w1)" by (metis prod.exhaust)
  have ret: "s' = s \<and> d = d1 \<and> w' = w1" using assms a by (simp add: socket_stream_read_def socket_stream_preface_write.simps)
  then show "s' = s" "d @ stream_bytes (qw_read w' (st_ssl s)) = stream_bytes (qw_read w (st_ssl s))"
    "0 < len \<Longrightarrow> stream_bytes (qw_read w' (st_ssl s)) = [] \<or> script_size (qw_read w' (st_ssl s)) < script_size (qw_read w (st_ssl s))"
    using SSL_read_all [OF a] by simp_all
qed

lemma stream_reads_all:
  assumes "st_preface_pos s = SOCKET_STREAM_PREFACE_SIZE" "stream_reads lens s w = (got, s', w')"
  shows "got @ stream_bytes (qw_read w' (st_ssl s)) = stream_bytes (qw_read w (st_ssl s)) \<and>
    (list_all (\<lambda>len. 0 < len) lens \<and> script_size (qw_read w (st_ssl s)) \<le> length lens \<longrightarrow> stream_bytes (qw_read w' (st_ssl s)) = [])"
  using assms(2)
proof (induction lens arbitrary: w got)
  case Nil
  then show ?case by (auto simp: script_size_def)
next
  case (Cons len lens)
  obtain r d s1 w1 where a: "socket_stream_read len s w = (r, d, s1, w1)" by (metis prod.exhaust)
  note one = stream_read_all [OF assms(1) a]
  obtain got2 s2 w2 where b: "stream_reads lens s w1 = (got2, s2, w2)" by (metis prod.exhaust)
  then have "got = d @ got2" "stream_reads lens s w1 = (got2, s', w')" using Cons.prems a one(1) by simp_all
  then show ?case using one(2,3) Cons.IH by fastforce
qed

lemma open_sender:
  assumes "socket_stream_open now k sc w = (Some s0, w1)"
  shows "s0 = socket_stream_allocate now (st_ssl s0) k True" "qw_sent w1 = qw_sent w" "k \<noteq> SOCKET_STREAM_UNKNOWN"
  using assms by (auto simp: socket_stream_open_def SSL_new_stream_def socket_stream_allocate_def split: if_splits list.splits)

lemma sent_behind_preface:
  assumes "socket_stream_open now k sc w = (Some s0, w1)" "qw_sent w (st_ssl s0) = []" "stream_writes bufs s0 w1 = (data, s, w')"
  shows "\<exists>p \<le> 8. qw_sent w' (st_ssl s0) = take p (socket_stream_preface_encode k) @ data \<and> (data \<noteq> [] \<longrightarrow> p = 8)"
proof -
  note s0 = open_sender [OF assms(1)]
  have "sent_data s0 w1 []" using assms(2) by (subst s0(1), simp add: sent_data_def s0(2)) (simp add: socket_stream_allocate_def preface_sized_def)
  from writes_sent_data [OF this assms(3)] obtain p where s: "sent_data s w' data" "s = s0\<lparr>st_preface_pos := p\<rparr>" by auto
  have "st_preface s0 = socket_stream_preface_encode k" by (subst s0(1)) (simp add: socket_stream_allocate_def)
  then show ?thesis using s by (auto simp: sent_data_def preface_sized_def)
qed

lemma preface_encode_inject:
  "k \<noteq> SOCKET_STREAM_UNKNOWN \<Longrightarrow> socket_stream_preface_encode k' = socket_stream_preface_encode k \<Longrightarrow> k' \<noteq> SOCKET_STREAM_UNKNOWN \<Longrightarrow> k' = k"
  using preface_decode_exact by (metis option.inject)

text \<open>
  C34. One peer opens a stream and writes to it any number of times, however little of each buffer
  OpenSSL takes; what was sent arrives at the other peer, in whichever pieces. If the other peer
  completes the preface, then the stream has the kind it was opened with, and whatever calls of
  \<open>socket_stream_read\<close> follow, what they return is the data taken from the sender, from its
  first byte, in its order and without a gap, as far as it has been read: together with the bytes
  still to be delivered it is all of the data, and once there have been enough calls with buffers
  that are not empty it is all of the data by itself. As long as the preface is not complete
  nothing is lost, and the stream is not taken for an invalid one once data has been sent.
\<close>

theorem stream_end_to_end:
  assumes "socket_stream_open now k sc w = (Some s0, w1)" "qw_sent w (st_ssl s0) = []"
    and "stream_writes bufs s0 w1 = (data, s, w')"
    and "preface_sized t" "stream_content t v = qw_sent w' (st_ssl s0)" "socket_stream_preface_read t v = (complete, t', v')"
    and "stream_reads lens t' v' = (got, t'', v'')"
  shows "if complete
    then st_kind t' = k \<and> got @ stream_bytes (qw_read v'' (st_ssl t')) = data \<and>
      (list_all (\<lambda>len. 0 < len) lens \<and> length data + length (qw_read v' (st_ssl t')) \<le> length lens \<longrightarrow> got = data)
    else data = [] \<or> (st_preface_pos t' < SOCKET_STREAM_PREFACE_SIZE \<and> stream_content t' v' = socket_stream_preface_encode k @ data)"
proof -
  obtain p where sent: "qw_sent w' (st_ssl s0) = take p (socket_stream_preface_encode k) @ data" "data \<noteq> [] \<longrightarrow> p = 8" "p \<le> 8"
    using sent_behind_preface [OF assms(1-3)] by blast
  note progress = preface_read_progress [OF assms(4,6), unfolded preface_progress_def assms(5)]
  show ?thesis
  proof (cases complete)
    case True
    then have c: "stream_content t' v' = qw_sent w' (st_ssl s0)" "st_preface_pos t' = 8" "st_preface t' = socket_stream_preface_encode (st_kind t')"
      "st_kind t' \<noteq> SOCKET_STREAM_UNKNOWN" using progress by auto
    then have eq: "socket_stream_preface_encode (st_kind t') @ stream_bytes (qw_read v' (st_ssl t')) = take p (socket_stream_preface_encode k) @ data"
      using sent(1) by (simp add: stream_content_def)
    have "p = 8" using arg_cong [OF eq, of length] sent by (cases "data = []") auto
    then have e: "socket_stream_preface_encode (st_kind t') = socket_stream_preface_encode k" "stream_bytes (qw_read v' (st_ssl t')) = data"
      using eq by (simp_all add: append_eq_append_conv)
    have pos: "st_preface_pos t' = SOCKET_STREAM_PREFACE_SIZE" using c(2) by (simp add: SOCKET_STREAM_PREFACE_SIZE_def)
    show ?thesis
      using True e stream_reads_all [OF pos assms(7)] preface_encode_inject [OF open_sender(3) [OF assms(1)] e(1) c(4)]
      by (auto simp: script_size_def)
  next
    case False
    then show ?thesis using progress sent open_sender(3) [OF assms(1)] by (auto simp: SOCKET_STREAM_PREFACE_SIZE_def split: if_splits)
  qed
qed


definition quiet_world :: quic_world where
  "quiet_world = \<lparr>qw_read = (\<lambda>_. []), qw_write = (\<lambda>_. []), qw_sent = (\<lambda>_. []), qw_incoming = [], qw_local = [], qw_handshake = [],
     qw_events_ok = True, qw_resets = [], qw_freed = [], qw_concluded = []\<rparr>"

definition example_sender :: quic_world where
  "example_sender = quiet_world\<lparr>qw_write := (\<lambda>_. [Took 3, Took 100, Took 2])\<rparr>"

definition example_receiver :: quic_world where
  "example_receiver = quiet_world\<lparr>qw_read := (\<lambda>_. [Ssl_data [65, 84], Ssl_data [82, 78, 2, 0, 0, 1, 7], Ssl_want, Ssl_data [8]])\<rparr>"

definition example_opener :: sock_struct where
  "example_opener = \<lparr>sc_transport = SOCKET_TRANSPORT_QUIC_CONNECTION, sc_handle = Some 3, sc_connection_id = [], sc_role = SOCKET_ROLE_CLIENT,
     sc_quic = True, sc_game_stream = None, sc_pending_streams = [], sc_pending_count = 0, sc_owns_handle = False,
     sc_connection_id_final = True, sc_shutdown_sent = False\<rparr>"

theorem stream_end_to_end_witness:
  "let (s0, w1) = socket_stream_open 0 SOCKET_STREAM_ASSET example_opener (example_sender\<lparr>qw_local := [4]\<rparr>);
       t = socket_stream_allocate 9 5 SOCKET_STREAM_UNKNOWN False;
       (complete, t', v') = socket_stream_preface_read t example_receiver
   in fst (stream_writes [[7, 8, 9]] (the s0) w1) = [7, 8] \<and> complete \<and> st_kind t' = SOCKET_STREAM_ASSET \<and>
      fst (stream_reads [1, 1, 1, 1, 1] t' v') = [7, 8]"
proof -
  let ?o = "socket_stream_open 0 SOCKET_STREAM_ASSET example_opener (example_sender\<lparr>qw_local := [4]\<rparr>)"
  let ?s0 = "the (fst ?o)" and ?t = "socket_stream_allocate 9 5 SOCKET_STREAM_UNKNOWN False"
  let ?w = "stream_writes [[7, 8, 9]] ?s0 (snd ?o)" and ?r = "socket_stream_preface_read ?t example_receiver"
  have data: "fst ?w = [7, 8]" "st_ssl ?s0 = 4" "\<not> Option.is_none (fst ?o)" by code_simp+
  have content: "stream_content ?t example_receiver = qw_sent (snd (snd ?w)) 4" by code_simp
  have complete: "fst ?r" "length (qw_read (snd (snd ?r)) (st_ssl (fst (snd ?r)))) \<le> 3" by code_simp+
  have "preface_sized ?t" "qw_sent (example_sender\<lparr>qw_local := [4]\<rparr>) 4 = []"
    by (simp_all add: preface_sized_def socket_stream_allocate_def SOCKET_STREAM_PREFACE_SIZE_def example_sender_def quiet_world_def)
  moreover have o: "?o = (Some ?s0, snd ?o)" using data(3) by (cases ?o) (auto simp: Option.is_none_def)
  moreover obtain c t' v' where r: "?r = (c, t', v')" by (metis prod.exhaust)
  moreover obtain d s' w' where w: "?w = (d, s', w')" by (metis prod.exhaust)
  moreover obtain got t'' v'' where g: "stream_reads [1, 1, 1, 1, 1] t' v' = (got, t'', v'')" by (metis prod.exhaust)
  ultimately show ?thesis
    using stream_end_to_end [OF o _ w _ _ r g] data content complete by (simp add: Let_def split_def)
qed

end
