(* ===== verification/Streams_Session.thy ===== *)
theory Streams_Session
  imports Streams_Correct "HOL-Library.Multiset"
begin

text \<open>
  Connections through any sequence of calls: the streams in use, those the library offers and
  those freed are always different SSL objects, whose multiset no operation changes. The list
  of pending streams stays within its bound, no assertion fails, every loop ends.
\<close>

section \<open>The invariant\<close>

definition game_list :: "sock_struct \<Rightarrow> socket_stream list" where
  "game_list sc = (case sc_game_stream sc of None \<Rightarrow> [] | Some g \<Rightarrow> [g])"

definition all_ids :: "sock_struct \<Rightarrow> socket_stream list \<Rightarrow> quic_world \<Rightarrow> nat list" where
  "all_ids sc held w = map st_ssl (sc_pending_streams sc) @ map st_ssl (game_list sc) @ map st_ssl held @
     qw_incoming w @ qw_local w @ qw_freed w"

definition pending_ok :: "socket_stream \<Rightarrow> bool" where
  "pending_ok s \<longleftrightarrow> st_connected s \<and> \<not> st_local s \<and> preface_sized s \<and>
     (if st_preface_pos s = 8 then st_kind s \<noteq> SOCKET_STREAM_UNKNOWN \<and> st_preface s = socket_stream_preface_encode (st_kind s)
      else st_kind s = SOCKET_STREAM_UNKNOWN)"

definition stream_ok :: "socket_stream \<Rightarrow> bool" where
  "stream_ok s \<longleftrightarrow> st_connected s \<and> preface_sized s"

definition conn_ok :: "sock_struct \<Rightarrow> socket_stream list \<Rightarrow> quic_world \<Rightarrow> bool" where
  "conn_ok sc held w \<longleftrightarrow> sc_pending_count sc = length (sc_pending_streams sc) \<and> sc_pending_count sc \<le> SOCKET_QUIC_PENDING_STREAM_MAX \<and>
     (\<forall>s \<in> set (sc_pending_streams sc). pending_ok s) \<and> (\<forall>s \<in> set (game_list sc @ held). stream_ok s) \<and> distinct (all_ids sc held w)"

text \<open>The part of a connection that handling incoming streams leaves alone.\<close>

definition same_connection :: "sock_struct \<Rightarrow> sock_struct \<Rightarrow> bool" where
  "same_connection sc sc' \<longleftrightarrow> sc' = sc\<lparr>sc_pending_streams := sc_pending_streams sc', sc_pending_count := sc_pending_count sc'\<rparr>"

lemma same_connection_refl [simp]: "same_connection sc sc"
  by (simp add: same_connection_def)

lemma same_connection_trans: "same_connection a b \<Longrightarrow> same_connection b c \<Longrightarrow> same_connection a c"
  by (cases a; cases b; cases c) (simp add: same_connection_def)

lemma distinct_mset: "mset xs = mset ys \<Longrightarrow> distinct xs \<longleftrightarrow> distinct ys"
  by (rule mset_eq_imp_distinct_iff)

text \<open>An operation that keeps the invariant and the SSL objects.\<close>

definition keeps :: "sock_struct \<Rightarrow> socket_stream list \<Rightarrow> quic_world \<Rightarrow> sock_struct \<Rightarrow> socket_stream list \<Rightarrow> quic_world \<Rightarrow> bool" where
  "keeps sc held w sc' held' w' \<longleftrightarrow> conn_ok sc' held' w' \<and> mset (all_ids sc' held' w') = mset (all_ids sc held w)"

lemma keeps_trans: "keeps a h w b h' w' \<Longrightarrow> keeps b h' w' c h'' w'' \<Longrightarrow> keeps a h w c h'' w''"
  by (simp add: keeps_def)

lemma keeps_refl: "conn_ok sc held w \<Longrightarrow> keeps sc held w sc held w"
  by (simp add: keeps_def)


section \<open>The pending list\<close>

lemma filter_other: "i \<notin> st_ssl ` set xs \<Longrightarrow> filter (\<lambda>s. st_ssl s \<noteq> i) xs = xs"
  by (induction xs) auto

lemma drop_one:
  assumes "distinct (map st_ssl xs)"
  shows "takeWhile (\<lambda>s. st_ssl s \<noteq> i) xs @ tl (dropWhile (\<lambda>s. st_ssl s \<noteq> i) xs) = filter (\<lambda>s. st_ssl s \<noteq> i) xs"
  using assms
proof (induction xs)
  case (Cons x xs)
  show ?case
  proof (cases "st_ssl x = i")
    case True
    then have "filter (\<lambda>s. st_ssl s \<noteq> i) xs = xs" using Cons.prems filter_other [of i xs] by auto
    then show ?thesis using True by simp
  qed (use Cons in simp)
qed simp

lemma mset_drop_one:
  assumes "distinct (map st_ssl xs)" "s \<in> set xs"
  shows "mset (map st_ssl xs) = add_mset (st_ssl s) (mset (map st_ssl (filter (\<lambda>t. st_ssl t \<noteq> st_ssl s) xs)))"
  using assms
proof (induction xs)
  case (Cons x xs)
  show ?case
  proof (cases "st_ssl x = st_ssl s")
    case True
    then have "filter (\<lambda>t. st_ssl t \<noteq> st_ssl s) xs = xs" using Cons.prems filter_other [of "st_ssl s" xs] by auto
    then show ?thesis using True by simp
  next
    case False
    then show ?thesis using Cons by (auto simp: add_mset_commute)
  qed
qed simp

lemma length_drop_one:
  assumes "distinct (map st_ssl xs)" "s \<in> set xs"
  shows "length xs = Suc (length (filter (\<lambda>t. st_ssl t \<noteq> st_ssl s) xs))"
  using arg_cong [OF mset_drop_one [OF assms], of size] by (simp del: mset_map mset_filter)

lemma conn_ok_distinct:
  assumes "conn_ok sc held w"
  shows "distinct (map st_ssl (sc_pending_streams sc))"
  using assms by (simp add: conn_ok_def all_ids_def)

lemma pending_remove_ok:
  assumes "conn_ok sc held w" "s \<in> set (sc_pending_streams sc)"
  shows "pending_remove (st_ssl s) sc = Some (sc\<lparr>sc_pending_streams := filter (\<lambda>t. st_ssl t \<noteq> st_ssl s) (sc_pending_streams sc),
    sc_pending_count := sc_pending_count sc - 1\<rparr>)"
proof -
  have "sc_pending_count sc \<noteq> 0" "list_ex (\<lambda>t. st_ssl t = st_ssl s) (sc_pending_streams sc)"
    using assms by (auto simp: conn_ok_def list_ex_iff)
  then show ?thesis by (simp add: pending_remove_def drop_one [OF conn_ok_distinct [OF assms(1)]])
qed

lemma pending_remove_absent: "st_ssl s \<notin> st_ssl ` set (sc_pending_streams sc) \<Longrightarrow> pending_remove (st_ssl s) sc = Some sc"
  by (simp add: pending_remove_def list_ex_iff image_iff) metis

text \<open>Rejecting a pending stream that was just stored.\<close>

lemma store_filter:
  "filter (\<lambda>t. st_ssl t \<noteq> st_ssl s') (map (\<lambda>t. if st_ssl t = st_ssl s' then s' else t) xs) = filter (\<lambda>t. st_ssl t \<noteq> st_ssl s') xs"
  by (induction xs) auto

lemma map_ssl_store: "map st_ssl (map (\<lambda>t. if st_ssl t = st_ssl s' then s' else t) xs) = map st_ssl xs"
  by (induction xs) auto

lemma reject_stored:
  assumes "conn_ok sc held w" "s \<in> set (sc_pending_streams sc)" "st_ssl s' = st_ssl s" "st_connected s'"
  shows "socket_stream_reject s' code (pending_store s' sc) w' =
    Some (sc\<lparr>sc_pending_streams := filter (\<lambda>t. st_ssl t \<noteq> st_ssl s) (sc_pending_streams sc), sc_pending_count := sc_pending_count sc - 1\<rparr>,
      w'\<lparr>qw_resets := qw_resets w' @ [(st_ssl s, code)], qw_freed := qw_freed w' @ [st_ssl s]\<rparr>)"
proof -
  let ?sc = "pending_store s' sc"
  have game: "sc_game_stream sc = Some g \<Longrightarrow> st_ssl g \<noteq> st_ssl s" for g
    using assms(1,2) by (auto simp: conn_ok_def all_ids_def game_list_def)
  have count: "sc_pending_count sc \<noteq> 0" using assms(1,2) by (auto simp: conn_ok_def)
  have d: "distinct (map st_ssl (sc_pending_streams ?sc))"
    using conn_ok_distinct [OF assms(1)] by (simp add: pending_store_def map_ssl_store del: map_map)
  have ex: "list_ex (\<lambda>t. st_ssl t = st_ssl s) (sc_pending_streams ?sc)"
    using assms(2,3) by (auto simp: list_ex_iff pending_store_def)
  have "pending_remove (st_ssl s) ?sc = Some (?sc\<lparr>sc_pending_streams := filter (\<lambda>t. st_ssl t \<noteq> st_ssl s) (sc_pending_streams ?sc),
      sc_pending_count := sc_pending_count sc - 1\<rparr>)"
    using count ex by (simp add: pending_remove_def drop_one [OF d]) (simp add: pending_store_def)
  then have "pending_remove (st_ssl s) ?sc = Some (sc\<lparr>sc_pending_streams := filter (\<lambda>t. st_ssl t \<noteq> st_ssl s) (sc_pending_streams sc),
      sc_pending_count := sc_pending_count sc - 1\<rparr>)"
    using store_filter [of s' "sc_pending_streams sc"] assms(3) by (simp add: pending_store_def)
  then show ?thesis
    using assms(3,4) game by (auto simp: socket_stream_reject_def socket_stream_unlink_def pending_store_def split: option.splits)
qed

lemma removed_keeps:
  assumes "conn_ok sc held w" "s \<in> set (sc_pending_streams sc)" "qw_incoming w' = qw_incoming w" "qw_local w' = qw_local w" "qw_freed w' = qw_freed w @ [st_ssl s]"
  shows "keeps sc held w (sc\<lparr>sc_pending_streams := filter (\<lambda>t. st_ssl t \<noteq> st_ssl s) (sc_pending_streams sc),
    sc_pending_count := sc_pending_count sc - 1\<rparr>) held w'"
proof -
  let ?sc = "sc\<lparr>sc_pending_streams := filter (\<lambda>t. st_ssl t \<noteq> st_ssl s) (sc_pending_streams sc), sc_pending_count := sc_pending_count sc - 1\<rparr>"
  note d = conn_ok_distinct [OF assms(1)]
  have "mset (all_ids ?sc held w') = mset (all_ids sc held w)"
    using mset_drop_one [OF d assms(2)] assms(3-5) by (simp add: all_ids_def game_list_def)
  then show ?thesis
    using assms length_drop_one [OF d assms(2)] distinct_mset by (auto simp: keeps_def conn_ok_def game_list_def)
qed


lemma stored_keeps:
  assumes "conn_ok sc held w" "s \<in> set (sc_pending_streams sc)" "st_ssl s' = st_ssl s" "pending_ok s'"
    "qw_incoming w' = qw_incoming w" "qw_local w' = qw_local w" "qw_freed w' = qw_freed w"
  shows "keeps sc held w (pending_store s' sc) held w'"
proof -
  have "all_ids (pending_store s' sc) held w' = all_ids sc held w"
    using assms(5-7) map_ssl_store [of s' "sc_pending_streams sc"] by (simp add: all_ids_def pending_store_def game_list_def)
  then show ?thesis using assms(1,4) by (auto simp: keeps_def conn_ok_def pending_store_def game_list_def)
qed

lemma progress_fields:
  assumes "preface_progress s w c s' w'"
  shows "st_ssl s' = st_ssl s" "st_connected s' = st_connected s" "st_local s' = st_local s" "st_created_ms s' = st_created_ms s"
    "qw_incoming w' = qw_incoming w" "qw_local w' = qw_local w" "qw_freed w' = qw_freed w"
proof -
  have s': "s' = s\<lparr>st_kind := st_kind s', st_preface := st_preface s', st_preface_pos := st_preface_pos s'\<rparr>" and "same_but_reads (st_ssl s) w w'"
    using assms by (simp_all add: preface_progress_def)
  then show "qw_incoming w' = qw_incoming w" "qw_local w' = qw_local w" "qw_freed w' = qw_freed w" by (auto simp: same_but_reads_def)
  show "st_ssl s' = st_ssl s" "st_connected s' = st_connected s" "st_local s' = st_local s" "st_created_ms s' = st_created_ms s"
    by (subst s', simp)+
qed

lemma progress_pending:
  assumes "preface_progress s w c s' w'" "st_connected s" "\<not> st_local s" "st_kind s = SOCKET_STREAM_UNKNOWN" "c \<or> st_preface_pos s' \<noteq> 8"
  shows "pending_ok s'"
  using assms progress_fields(2,3) [OF assms(1)] by (auto simp: preface_progress_def pending_ok_def split: if_splits)

text \<open>A stream may wait for its preface for five seconds.\<close>

definition waits :: "u64 \<Rightarrow> socket_stream \<Rightarrow> bool" where
  "waits now s \<longleftrightarrow> st_preface_pos s = 8 \<or> now - st_created_ms s < SOCKET_QUIC_PREFACE_TIMEOUT_MS"

lemma poll_pending_keeps:
  assumes "conn_ok sc held w" "set streams \<subseteq> set (sc_pending_streams sc)" "distinct (map st_ssl streams)"
  shows "\<exists>sc' w'. poll_pending now streams sc w = Some (sc', w') \<and> keeps sc held w sc' held w' \<and> same_connection sc sc' \<and>
    qw_incoming w' = qw_incoming w \<and>
    (\<forall>s \<in> set (sc_pending_streams sc'). s \<in> set (sc_pending_streams sc) - set streams \<or> waits now s)"
  using assms
proof (induction streams arbitrary: sc w)
  case Nil
  then show ?case by (simp add: keeps_refl)
next
  case (Cons s streams)
  have s: "s \<in> set (sc_pending_streams sc)" "pending_ok s" using Cons.prems by (auto simp: conn_ok_def)
  show ?case
  proof (cases "st_kind s = SOCKET_STREAM_UNKNOWN \<and> st_preface_pos s < SOCKET_STREAM_PREFACE_SIZE")
    case False
    then have full: "waits now s" using s(2) by (auto simp: pending_ok_def waits_def preface_sized_def SOCKET_STREAM_PREFACE_SIZE_def split: if_splits)
    obtain sc' w' where "poll_pending now streams sc w = Some (sc', w')" "keeps sc held w sc' held w'" "same_connection sc sc'"
      "qw_incoming w' = qw_incoming w" "\<forall>s \<in> set (sc_pending_streams sc'). s \<in> set (sc_pending_streams sc) - set streams \<or> waits now s"
      using Cons.IH [OF Cons.prems(1)] Cons.prems(2,3) by auto
    then show ?thesis using False full by auto
  next
    case True
    obtain c s1 w1 where r: "socket_stream_preface_read s w = (c, s1, w1)" by (metis prod.exhaust)
    have progress: "preface_progress s w c s1 w1" using preface_read_progress [OF _ r] s(2) by (simp add: pending_ok_def)
    note fields = progress_fields [OF progress]
    have small: "st_preface_pos s1 \<le> 8" using progress by (simp add: preface_progress_def preface_sized_def)
    have others: "t \<in> set streams \<Longrightarrow> st_ssl t \<noteq> st_ssl s" for t using Cons.prems(3) by (metis distinct.simps(2) image_eqI list.map(2) set_map)
    let ?reject = "(st_preface_pos s1 = 8 \<and> (\<not> c \<or> (st_kind s1 = SOCKET_STREAM_GAME \<and> sc_game_stream sc \<noteq> None))) \<or>
        (st_preface_pos s1 < 8 \<and> now - st_created_ms s1 \<ge> SOCKET_QUIC_PREFACE_TIMEOUT_MS)"
    have game: "sc_game_stream (pending_store s1 sc) = sc_game_stream sc" by (simp add: pending_store_def)
    show ?thesis
    proof (cases ?reject)
      case reject: True
      let ?sc = "sc\<lparr>sc_pending_streams := filter (\<lambda>t. st_ssl t \<noteq> st_ssl s) (sc_pending_streams sc), sc_pending_count := sc_pending_count sc - 1\<rparr>"
      let ?w = "w1\<lparr>qw_resets := qw_resets w1 @ [(st_ssl s, SOCKET_STREAM_ERROR_PREFACE)], qw_freed := qw_freed w1 @ [st_ssl s]\<rparr>"
      have rj: "socket_stream_reject s1 SOCKET_STREAM_ERROR_PREFACE (pending_store s1 sc) w1 = Some (?sc, ?w)"
        using reject_stored [OF Cons.prems(1) s(1) fields(1)] s(2) fields(2) by (simp add: pending_ok_def)
      have keeps: "keeps sc held w ?sc held ?w" by (rule removed_keeps [OF Cons.prems(1) s(1)]) (simp_all add: fields)
      obtain sc' w' where IH: "poll_pending now streams ?sc ?w = Some (sc', w')" "keeps ?sc held ?w sc' held w'" "same_connection ?sc sc'"
        "qw_incoming w' = qw_incoming ?w" "\<forall>t \<in> set (sc_pending_streams sc'). t \<in> set (sc_pending_streams ?sc) - set streams \<or> waits now t"
        using Cons.IH [of ?sc ?w] keeps Cons.prems(2,3) others unfolding keeps_def by fastforce
      have "same_connection sc sc'" by (rule same_connection_trans [OF _ IH(3)]) (simp add: same_connection_def)
      moreover have "poll_pending now (s # streams) sc w = Some (sc', w')"
        using True r reject rj IH(1) game by (simp add: SOCKET_STREAM_PREFACE_SIZE_def Let_def)
      moreover have "\<forall>t \<in> set (sc_pending_streams sc'). t \<in> set (sc_pending_streams sc) - set (s # streams) \<or> waits now t" using IH(5) by auto
      ultimately show ?thesis using keeps_trans [OF keeps IH(2)] IH(4) fields(5) by simp
    next
      case keep: False
      let ?sc = "pending_store s1 sc"
      have "pending_ok s1" using progress_pending [OF progress] s(2) True keep by (auto simp: pending_ok_def)
      then have keeps: "keeps sc held w ?sc held w1" by (rule stored_keeps [OF Cons.prems(1) s(1) fields(1)]) (simp_all add: fields)
      have sub: "set streams \<subseteq> set (sc_pending_streams ?sc)" using Cons.prems(2) others fields(1) by (force simp: pending_store_def)
      obtain sc' w' where IH: "poll_pending now streams ?sc w1 = Some (sc', w')" "keeps ?sc held w1 sc' held w'" "same_connection ?sc sc'"
        "qw_incoming w' = qw_incoming w1" "\<forall>t \<in> set (sc_pending_streams sc'). t \<in> set (sc_pending_streams ?sc) - set streams \<or> waits now t"
        using Cons.IH [OF _ sub] keeps Cons.prems(3) unfolding keeps_def by fastforce
      have "waits now s1" using keep small by (auto simp: waits_def not_le)
      moreover have "t = s1 \<or> t \<in> set (sc_pending_streams sc) - {s}" if "t \<in> set (sc_pending_streams ?sc)" for t
        using that fields(1) by (auto simp: pending_store_def split: if_splits)
      moreover have "same_connection sc sc'" by (rule same_connection_trans [OF _ IH(3)]) (simp add: same_connection_def pending_store_def)
      ultimately have all: "\<forall>t \<in> set (sc_pending_streams sc'). t \<in> set (sc_pending_streams sc) - set (s # streams) \<or> waits now t"
        and same: "same_connection sc sc'" using IH(5) by auto
      have "poll_pending now (s # streams) sc w = Some (sc', w')"
        using True r keep IH(1) game by (auto simp: SOCKET_STREAM_PREFACE_SIZE_def Let_def)
      then show ?thesis using all same keeps_trans [OF keeps IH(2)] IH(4) fields(5) by simp
    qed
  qed
qed


lemma incoming_keeps:
  assumes "conn_ok sc held w" "sc_pending_count sc < SOCKET_QUIC_PENDING_STREAM_MAX" "qw_incoming w = ssl # ssls"
  shows "keeps sc held w (sc\<lparr>sc_pending_streams := socket_stream_allocate now ssl SOCKET_STREAM_UNKNOWN False # sc_pending_streams sc,
    sc_pending_count := sc_pending_count sc + 1\<rparr>) held (w\<lparr>qw_incoming := ssls\<rparr>)" (is "keeps _ _ _ ?sc _ ?w")
proof -
  have "mset (all_ids ?sc held ?w) = mset (all_ids sc held w)"
    using assms(3) by (simp add: all_ids_def game_list_def socket_stream_allocate_def)
  moreover have "pending_ok (socket_stream_allocate now ssl SOCKET_STREAM_UNKNOWN False)"
    by (simp add: pending_ok_def socket_stream_allocate_def preface_sized_def SOCKET_STREAM_PREFACE_SIZE_def)
  ultimately show ?thesis using assms(1,2) distinct_mset by (auto simp: keeps_def conn_ok_def game_list_def)
qed

lemma accept_step:
  assumes "conn_ok sc held w" "\<forall>s \<in> set (sc_pending_streams sc). waits now s"
  shows "accept_incoming_step now (sc, w) = Some (Inr (sc, w)) \<and> (sc_pending_count sc = SOCKET_QUIC_PENDING_STREAM_MAX \<or> qw_incoming w = []) \<or>
    (\<exists>sc' w'. accept_incoming_step now (sc, w) = Some (Inl (sc', w')) \<and> keeps sc held w sc' held w' \<and> same_connection sc sc' \<and>
       length (qw_incoming w') < length (qw_incoming w) \<and> (\<forall>s \<in> set (sc_pending_streams sc'). waits now s))"
proof (cases "sc_pending_count sc < SOCKET_QUIC_PENDING_STREAM_MAX \<and> qw_incoming w \<noteq> []")
  case True
  then obtain ssl ssls where inc: "qw_incoming w = ssl # ssls" by (cases "qw_incoming w") auto
  let ?s = "socket_stream_allocate now ssl SOCKET_STREAM_UNKNOWN False"
  let ?sc = "sc\<lparr>sc_pending_streams := ?s # sc_pending_streams sc, sc_pending_count := sc_pending_count sc + 1\<rparr>" and ?w = "w\<lparr>qw_incoming := ssls\<rparr>"
  have k0: "keeps sc held w ?sc held ?w" by (rule incoming_keeps [OF assms(1) conjunct1 [OF True] inc])
  then have ok: "conn_ok ?sc held ?w" by (simp add: keeps_def)
  obtain c s1 w1 where r: "socket_stream_preface_read ?s ?w = (c, s1, w1)" by (metis prod.exhaust)
  have progress: "preface_progress ?s ?w c s1 w1"
    using preface_read_progress [OF _ r] by (simp add: preface_sized_def socket_stream_allocate_def SOCKET_STREAM_PREFACE_SIZE_def)
  note fields = progress_fields [OF progress]
  have s: "?s \<in> set (sc_pending_streams ?sc)" by simp
  have "now - now < SOCKET_QUIC_PREFACE_TIMEOUT_MS" by (simp add: SOCKET_QUIC_PREFACE_TIMEOUT_MS_def)
  then have fresh: "waits now s1" using fields(4) by (simp add: waits_def socket_stream_allocate_def)
  show ?thesis
  proof (cases "\<not> c \<and> st_preface_pos s1 = 8")
    case reject: True
    let ?sc2 = "?sc\<lparr>sc_pending_streams := filter (\<lambda>t. st_ssl t \<noteq> st_ssl ?s) (sc_pending_streams ?sc), sc_pending_count := sc_pending_count ?sc - 1\<rparr>"
    let ?w2 = "w1\<lparr>qw_resets := qw_resets w1 @ [(st_ssl ?s, SOCKET_STREAM_ERROR_PREFACE)], qw_freed := qw_freed w1 @ [st_ssl ?s]\<rparr>"
    have rj: "socket_stream_reject s1 SOCKET_STREAM_ERROR_PREFACE (pending_store s1 ?sc) w1 = Some (?sc2, ?w2)"
      by (rule reject_stored [OF ok s fields(1)]) (simp add: fields socket_stream_allocate_def)
    have "keeps ?sc held ?w ?sc2 held ?w2" by (rule removed_keeps [OF ok s]) (simp_all add: fields)
    then have "keeps sc held w ?sc2 held ?w2" by (rule keeps_trans [OF k0])
    moreover have "accept_incoming_step now (sc, w) = Some (Inl (?sc2, ?w2))"
      using True inc r reject rj by (simp add: accept_incoming_step_def SSL_accept_stream_def SOCKET_STREAM_PREFACE_SIZE_def Let_def)
    moreover have "same_connection sc ?sc2" by (simp add: same_connection_def)
    ultimately show ?thesis using assms(2) inc fields(5) by (intro disjI2 exI [of _ ?sc2] exI [of _ ?w2]) auto
  next
    case keep: False
    have "pending_ok s1" using progress_pending [OF progress] keep by (simp add: socket_stream_allocate_def)
    then have "keeps ?sc held ?w (pending_store s1 ?sc) held w1" by (rule stored_keeps [OF ok s fields(1)]) (simp_all add: fields)
    then have "keeps sc held w (pending_store s1 ?sc) held w1" by (rule keeps_trans [OF k0])
    moreover have "accept_incoming_step now (sc, w) = Some (Inl (pending_store s1 ?sc, w1))"
      using True inc r keep by (auto simp: accept_incoming_step_def SSL_accept_stream_def SOCKET_STREAM_PREFACE_SIZE_def Let_def)
    moreover have "same_connection sc (pending_store s1 ?sc)" by (simp add: same_connection_def pending_store_def)
    moreover have "\<forall>t \<in> set (sc_pending_streams (pending_store s1 ?sc)). waits now t"
      using assms(2) fresh fields(1) by (auto simp: pending_store_def)
    ultimately show ?thesis using inc fields(5) by (intro disjI2 exI [of _ "pending_store s1 ?sc"] exI [of _ w1]) simp
  qed
next
  case False
  then show ?thesis using assms(1) by (auto simp: accept_incoming_step_def SSL_accept_stream_def conn_ok_def)
qed

lemma accept_loop:
  assumes "conn_ok sc held w" "\<forall>s \<in> set (sc_pending_streams sc). waits now s"
  shows "\<exists>sc' w'. c_loop (accept_incoming_step now) (sc, w) = Some (sc', w') \<and> keeps sc held w sc' held w' \<and> same_connection sc sc' \<and>
    (\<forall>s \<in> set (sc_pending_streams sc'). waits now s) \<and> (sc_pending_count sc' = SOCKET_QUIC_PENDING_STREAM_MAX \<or> qw_incoming w' = [])"
  using assms
proof (induction "length (qw_incoming w)" arbitrary: sc w rule: less_induct)
  case less
  from accept_step [OF less.prems] show ?case
  proof (elim disjE exE conjE)
    fix sc1 w1
    assume step: "accept_incoming_step now (sc, w) = Some (Inl (sc1, w1))" and k: "keeps sc held w sc1 held w1" and same: "same_connection sc sc1"
      and lt: "length (qw_incoming w1) < length (qw_incoming w)" and fresh: "\<forall>s \<in> set (sc_pending_streams sc1). waits now s"
    from less.hyps [OF lt _ fresh] k obtain sc' w' where
      IH: "c_loop (accept_incoming_step now) (sc1, w1) = Some (sc', w')" "keeps sc1 held w1 sc' held w'" "same_connection sc1 sc'"
        "\<forall>s \<in> set (sc_pending_streams sc'). waits now s" "sc_pending_count sc' = SOCKET_QUIC_PENDING_STREAM_MAX \<or> qw_incoming w' = []"
      unfolding keeps_def by blast
    then show ?case using c_loop_continue [of "accept_incoming_step now" "(sc, w)", OF step] keeps_trans [OF k IH(2)] same_connection_trans [OF same IH(3)] by auto
  qed (use less.prems c_loop_leave keeps_refl in fastforce)+
qed

lemma poll_incoming_keeps:
  assumes "conn_ok sc held w"
  shows "\<exists>sc' w'. socket_stream_poll_incoming now sc w = Some (sc', w') \<and> keeps sc held w sc' held w' \<and> same_connection sc sc' \<and>
    (\<forall>s \<in> set (sc_pending_streams sc'). waits now s) \<and> (sc_pending_count sc' = SOCKET_QUIC_PENDING_STREAM_MAX \<or> qw_incoming w' = [])"
proof -
  obtain sc1 w1 where a: "poll_pending now (sc_pending_streams sc) sc w = Some (sc1, w1)" "keeps sc held w sc1 held w1" "same_connection sc sc1"
    "\<forall>s \<in> set (sc_pending_streams sc1). waits now s"
    using poll_pending_keeps [OF assms _ conn_ok_distinct [OF assms], of now] by auto
  obtain sc' w' where b: "c_loop (accept_incoming_step now) (sc1, w1) = Some (sc', w')" "keeps sc1 held w1 sc' held w'" "same_connection sc1 sc'"
    "\<forall>s \<in> set (sc_pending_streams sc'). waits now s" "sc_pending_count sc' = SOCKET_QUIC_PENDING_STREAM_MAX \<or> qw_incoming w' = []"
    using accept_loop [OF _ a(4)] a(2) unfolding keeps_def by blast
  show ?thesis
    using a(1) b keeps_trans [OF a(2) b(2)] same_connection_trans [OF a(3) b(3)] by (auto simp: socket_stream_poll_incoming_def)
qed



section \<open>Operations\<close>

text \<open>A stream that is taken over, by the application or as the game stream.\<close>

lemma accept_keeps:
  assumes "conn_ok sc held w"
  shows "\<exists>stream sc' w'. socket_stream_accept now kind sc w = Some (stream, sc', w') \<and> same_connection sc sc' \<and>
    (case stream of None \<Rightarrow> keeps sc held w sc' held w' | Some s \<Rightarrow> st_kind s = kind \<and> keeps sc held w sc' (s # held) w')"
proof (cases "sc_transport sc \<noteq> SOCKET_TRANSPORT_QUIC_CONNECTION \<or> \<not> sc_connection_id_final sc")
  case True
  then show ?thesis using keeps_refl [OF assms] by (auto simp: socket_stream_accept_def)
next
  case False
  obtain sc1 w1 where poll: "socket_stream_poll_incoming now sc w = Some (sc1, w1)" "keeps sc held w sc1 held w1" "same_connection sc sc1"
    using poll_incoming_keeps [OF assms, of now] by blast
  have ok: "conn_ok sc1 held w1" using poll(2) by (simp add: keeps_def)
  let ?P = "\<lambda>s. st_kind s = kind \<and> st_preface_pos s = SOCKET_STREAM_PREFACE_SIZE"
  show ?thesis
  proof (cases "find ?P (sc_pending_streams sc1)")
    case None
    then show ?thesis using False poll by (auto simp: socket_stream_accept_def)
  next
    case (Some s)
    then have s: "s \<in> set (sc_pending_streams sc1)" "st_kind s = kind" by (auto simp: find_Some_iff)
    let ?sc = "sc1\<lparr>sc_pending_streams := filter (\<lambda>t. st_ssl t \<noteq> st_ssl s) (sc_pending_streams sc1), sc_pending_count := sc_pending_count sc1 - 1\<rparr>"
    note d = conn_ok_distinct [OF ok]
    have "mset (all_ids ?sc (s # held) w1) = mset (all_ids sc1 held w1)"
      using mset_drop_one [OF d s(1)] by (simp add: all_ids_def game_list_def)
    moreover have "stream_ok s" using ok s(1) by (auto simp: conn_ok_def pending_ok_def stream_ok_def)
    ultimately have "keeps sc1 held w1 ?sc (s # held) w1"
      using ok length_drop_one [OF d s(1)] distinct_mset by (auto simp: keeps_def conn_ok_def game_list_def)
    from keeps_trans [OF poll(2) this] have "keeps sc held w ?sc (s # held) w1" .
    moreover have "same_connection sc ?sc" by (rule same_connection_trans [OF poll(3)]) (simp add: same_connection_def)
    moreover have "socket_stream_accept now kind sc w = Some (Some s, ?sc, w1)"
      using False poll(1) Some pending_remove_ok [OF ok s(1)] by (simp add: socket_stream_accept_def)
    ultimately show ?thesis using s(2) by auto
  qed
qed

lemma open_keeps:
  assumes "conn_ok sc held w" "socket_stream_open now kind sc w = (stream, w')"
  shows "case stream of None \<Rightarrow> keeps sc held w sc held w' | Some s \<Rightarrow> st_kind s = kind \<and> keeps sc held w sc (s # held) w'"
proof -
  have "stream_ok (socket_stream_allocate now ssl kind True)" for ssl
    by (simp add: stream_ok_def socket_stream_allocate_def preface_sized_def)
  then show ?thesis
    using assms by (auto simp: socket_stream_open_def SSL_new_stream_def keeps_def conn_ok_def all_ids_def socket_stream_allocate_def
        split: if_splits list.splits)
qed

lemma game_keeps:
  assumes "keeps sc held w sc' (s # held) w'" "sc_game_stream sc' = None"
  shows "keeps sc held w (sc'\<lparr>sc_game_stream := Some s\<rparr>) held w'"
proof -
  have "mset (all_ids (sc'\<lparr>sc_game_stream := Some s\<rparr>) held w') = mset (all_ids sc' (s # held) w')"
    using assms(2) by (simp add: all_ids_def game_list_def)
  from this distinct_mset [OF this] show ?thesis using assms by (auto simp: keeps_def conn_ok_def game_list_def)
qed

lemma game_none_keeps: "keeps a h w sc h' w' \<Longrightarrow> sc_game_stream sc = None \<Longrightarrow> keeps a h w (sc\<lparr>sc_game_stream := None\<rparr>) h' w'"
  by (cases sc) simp

lemma keeps_same:
  assumes "conn_ok sc held w" "sc_pending_streams sc' = sc_pending_streams sc" "sc_pending_count sc' = sc_pending_count sc"
    "sc_game_stream sc' = sc_game_stream sc" "qw_incoming w' = qw_incoming w" "qw_local w' = qw_local w" "qw_freed w' = qw_freed w"
  shows "keeps sc held w sc' held w'"
  using assms by (simp add: keeps_def conn_ok_def all_ids_def game_list_def)

lemma export_fields:
  assumes "socket_connection_id_export material sc = (ok, sc')"
  shows "sc_pending_streams sc' = sc_pending_streams sc" "sc_pending_count sc' = sc_pending_count sc" "sc_game_stream sc' = sc_game_stream sc"
    "sc_quic sc' = sc_quic sc" "sc_transport sc' = sc_transport sc" "ok \<Longrightarrow> sc_connection_id_final sc'"
  using assms by (auto simp: socket_connection_id_export_def connection_id_set_def Let_def split: if_splits option.splits prod.splits)

lemma handshake_keeps:
  assumes "conn_ok sc held w" "quic_handshake sc w = (ready, sc', w')"
  shows "keeps sc held w sc' held w' \<and> sc_game_stream sc' = sc_game_stream sc \<and> sc_quic sc' = sc_quic sc \<and> sc_transport sc' = sc_transport sc"
proof (cases "sc_connection_id_final sc")
  case True
  then show ?thesis using assms keeps_refl by (simp add: quic_handshake_def)
next
  case False
  obtain a w1 where a: "SSL_do_handshake w = (a, w1)" by fastforce
  have w1: "qw_incoming w1 = qw_incoming w" "qw_local w1 = qw_local w" "qw_freed w1 = qw_freed w"
    using a by (auto simp: SSL_do_handshake_def split: list.splits)
  show ?thesis
  proof (cases a)
    case (Handshake_done material)
    obtain ok sc1 where e: "socket_connection_id_export material sc = (ok, sc1)" by fastforce
    then show ?thesis using assms(2) False a Handshake_done keeps_same [OF assms(1) export_fields(1-3) [OF e] w1] export_fields [OF e]
      by (simp add: quic_handshake_def)
  qed (use assms(2) False a keeps_same [OF assms(1) _ _ _ w1] in \<open>simp_all add: quic_handshake_def\<close>)
qed

lemma same_connection_fields:
  assumes "same_connection sc sc'"
  shows "sc_game_stream sc' = sc_game_stream sc" "sc_quic sc' = sc_quic sc" "sc_transport sc' = sc_transport sc"
proof -
  have sc': "sc' = sc\<lparr>sc_pending_streams := sc_pending_streams sc', sc_pending_count := sc_pending_count sc'\<rparr>"
    using assms by (simp add: same_connection_def)
  show "sc_game_stream sc' = sc_game_stream sc" "sc_quic sc' = sc_quic sc" "sc_transport sc' = sc_transport sc" by (subst sc', simp)+
qed

lemma prepare_keeps:
  assumes "conn_ok sc held w"
  shows "\<exists>ready sc' w'. socket_quic_connection_prepare now sc w = Some (ready, sc', w') \<and> keeps sc held w sc' held w' \<and>
    sc_quic sc' = sc_quic sc \<and> sc_transport sc' = sc_transport sc \<and> (ready = Quic_ready \<longrightarrow> sc_game_stream sc' \<noteq> None)"
proof -
  obtain ready sc1 w1 where h: "quic_handshake sc w = (ready, sc1, w1)" by (metis prod.exhaust)
  note k = handshake_keeps [OF assms h]
  have ok: "conn_ok sc1 held w1" using k by (simp add: keeps_def)
  show ?thesis
  proof (cases "ready \<noteq> Quic_ready \<or> sc_game_stream sc1 \<noteq> None \<or> (sc_role sc1 = SOCKET_ROLE_SERVER \<and> \<not> qw_events_ok w1)")
    case True
    then show ?thesis using h k by (auto simp: socket_quic_connection_prepare_def)
  next
    case False
    then have none: "sc_game_stream sc1 = None" by simp
    have "\<exists>stream sc2 w2. (if sc_role sc1 = SOCKET_ROLE_CLIENT
        then (case socket_stream_open now SOCKET_STREAM_GAME sc1 w1 of (stream, w) \<Rightarrow> Some (stream, sc1, w))
        else socket_stream_accept now SOCKET_STREAM_GAME sc1 w1) = Some (stream, sc2, w2) \<and> same_connection sc1 sc2 \<and>
        (case stream of None \<Rightarrow> keeps sc1 held w1 sc2 held w2 | Some s \<Rightarrow> keeps sc1 held w1 sc2 (s # held) w2)"
    proof (cases "sc_role sc1 = SOCKET_ROLE_CLIENT")
      case True
      obtain stream w2 where "socket_stream_open now SOCKET_STREAM_GAME sc1 w1 = (stream, w2)" by fastforce
      then show ?thesis using True open_keeps [OF ok] by (fastforce split: option.splits)
    next
      case False
      then show ?thesis using accept_keeps [OF ok, of now SOCKET_STREAM_GAME] by (fastforce split: option.splits)
    qed
    then obtain stream sc2 w2 where s: "(if sc_role sc1 = SOCKET_ROLE_CLIENT
        then (case socket_stream_open now SOCKET_STREAM_GAME sc1 w1 of (stream, w) \<Rightarrow> Some (stream, sc1, w))
        else socket_stream_accept now SOCKET_STREAM_GAME sc1 w1) = Some (stream, sc2, w2)" "same_connection sc1 sc2"
      "case stream of None \<Rightarrow> keeps sc1 held w1 sc2 held w2 | Some s \<Rightarrow> keeps sc1 held w1 sc2 (s # held) w2" by blast
    note same = same_connection_fields [OF s(2)]
    have "keeps sc1 held w1 (sc2\<lparr>sc_game_stream := stream\<rparr>) held w2"
      using s(3) none same(1) game_keeps [of sc1 held w1 sc2 _ w2] game_none_keeps [of sc1 held w1 sc2 held w2] by (cases stream) auto
    then have "keeps sc held w (sc2\<lparr>sc_game_stream := stream\<rparr>) held w2" using k keeps_trans by blast
    moreover have "socket_quic_connection_prepare now sc w = Some (if stream \<noteq> None then Quic_ready else Quic_wait, sc2\<lparr>sc_game_stream := stream\<rparr>, w2)"
      using h False s(1) by (simp add: socket_quic_connection_prepare_def)
    ultimately show ?thesis using k same by (auto split: if_splits)
  qed
qed


text \<open>Reading and writing on a stream.\<close>

definition same_ids :: "quic_world \<Rightarrow> quic_world \<Rightarrow> bool" where
  "same_ids w w' \<longleftrightarrow> qw_incoming w' = qw_incoming w \<and> qw_local w' = qw_local w \<and> qw_freed w' = qw_freed w"

lemma write_same_ids: "SSL_write_ex ssl data w = (r, w') \<Longrightarrow> same_ids w w'"
  by (auto simp: SSL_write_ex_def same_ids_def split: list.splits ssl_taken.splits)

lemma read_same_ids: "SSL_read_ex ssl len w = (r, d, w') \<Longrightarrow> same_ids w w'"
  using SSL_read_cases(1) [of ssl len w r d w'] by (auto simp: same_but_reads_def same_ids_def)

lemma same_ids_trans: "same_ids a b \<Longrightarrow> same_ids b c \<Longrightarrow> same_ids a c"
  by (simp add: same_ids_def)

lemma preface_write_same:
  assumes "stream_ok s" "socket_stream_preface_write s w = (r, s', w')"
  shows "stream_ok s' \<and> st_ssl s' = st_ssl s \<and> same_ids w w'"
  using assms
proof (induction "8 - st_preface_pos s" arbitrary: s w rule: less_induct)
  case less
  note step = less.prems(2) [unfolded socket_stream_preface_write.simps [of s w] SOCKET_STREAM_PREFACE_SIZE_def]
  show ?case
  proof (cases "st_local s \<and> st_preface_pos s < 8")
    case True
    obtain a w1 where a: "SSL_write_ex (st_ssl s) (drop (st_preface_pos s) (st_preface s)) w = (a, w1)" by fastforce
    show ?thesis
    proof (cases "socket_stream_ssl_result a = SOCKET_STREAM_RESULT_OK")
      case ok: True
      then obtain n where n: "a = Status_ok n" "n \<noteq> 0" by (cases a) (auto split: if_splits)
      let ?s = "s\<lparr>st_preface_pos := st_preface_pos s + n\<rparr>"
      have call: "socket_stream_preface_write ?s w1 = (r, s', w')" using step True a n by simp
      have "n \<le> 8 - st_preface_pos s" using SSL_write_cases(1) [OF a n(1)] less.prems(1) by (auto simp: stream_ok_def preface_sized_def)
      then have "8 - st_preface_pos ?s < 8 - st_preface_pos s" "stream_ok ?s" using less.prems True n(2) by (auto simp: stream_ok_def preface_sized_def)
      from less.hyps [OF this call] show ?thesis using same_ids_trans [OF write_same_ids [OF a]] by simp
    next
      case False
      then show ?thesis using step True less.prems(1) a write_same_ids [OF a] by auto
    qed
  qed (use step less.prems(1) in \<open>auto simp: same_ids_def\<close>)
qed

lemma stream_read_same:
  assumes "stream_ok s" "socket_stream_read len s w = (r, d, s', w')"
  shows "stream_ok s' \<and> st_ssl s' = st_ssl s \<and> same_ids w w'"
proof -
  obtain pr s1 w1 where pr: "socket_stream_preface_write s w = (pr, s1, w1)" by (metis prod.exhaust)
  obtain a d' w2 where a: "SSL_read_ex (st_ssl s1) len w1 = (a, d', w2)" by (metis prod.exhaust)
  show ?thesis using assms(2) pr a preface_write_same [OF assms(1) pr] same_ids_trans [OF _ read_same_ids [OF a], of w]
    by (auto simp: socket_stream_read_def split: if_splits)
qed

lemma stream_write_same:
  assumes "stream_ok s" "socket_stream_write buf s w = (r, n, s', w')"
  shows "stream_ok s' \<and> st_ssl s' = st_ssl s \<and> same_ids w w'"
proof -
  obtain pr s1 w1 where pr: "socket_stream_preface_write s w = (pr, s1, w1)" by (metis prod.exhaust)
  obtain a w2 where a: "SSL_write_ex (st_ssl s1) buf w1 = (a, w2)" by fastforce
  show ?thesis using assms(2) pr a preface_write_same [OF assms(1) pr] same_ids_trans [OF _ write_same_ids [OF a], of w]
    by (auto simp: socket_stream_write_def split: if_splits)
qed

lemma game_replaced:
  assumes "conn_ok sc held w" "sc_game_stream sc = Some g" "stream_ok g'" "st_ssl g' = st_ssl g" "same_ids w w'"
  shows "keeps sc held w (sc\<lparr>sc_game_stream := Some g'\<rparr>) held w'"
  using assms by (auto simp: keeps_def conn_ok_def all_ids_def game_list_def same_ids_def)

lemma socket_read_keeps:
  assumes "conn_ok sc held w"
  shows "\<exists>ok data sc' w'. socket_read now recv len sc w = Some (ok, data, sc', w') \<and> keeps sc held w sc' held w' \<and> sc_quic sc' = sc_quic sc"
proof (cases "sc_transport sc = SOCKET_TRANSPORT_QUIC_CONNECTION \<and> len \<noteq> 0")
  case True
  obtain ready sc1 w1 where p: "socket_quic_connection_prepare now sc w = Some (ready, sc1, w1)" "keeps sc held w sc1 held w1"
    "sc_quic sc1 = sc_quic sc" "ready = Quic_ready \<longrightarrow> sc_game_stream sc1 \<noteq> None" using prepare_keeps [OF assms, of now] by blast
  show ?thesis
  proof (cases "ready = Quic_ready")
    case ready: True
    then obtain g where g: "sc_game_stream sc1 = Some g" using p(4) by auto
    obtain r d g' w2 where r: "socket_stream_read len g w1 = (r, d, g', w2)" by (metis prod.exhaust)
    have ok: "conn_ok sc1 held w1" "stream_ok g" using p(2) g by (auto simp: keeps_def conn_ok_def game_list_def)
    from stream_read_same [OF ok(2) r] game_replaced [OF ok(1) g] have "keeps sc1 held w1 (sc1\<lparr>sc_game_stream := Some g'\<rparr>) held w2" by blast
    from keeps_trans [OF p(2) this] have k: "keeps sc held w (sc1\<lparr>sc_game_stream := Some g'\<rparr>) held w2" .
    have "socket_read now recv len sc w = Some (stream_result_ok r, d, sc1\<lparr>sc_game_stream := Some g'\<rparr>, w2)"
      using True ready p(1) g r by (simp add: socket_read_def)
    then show ?thesis using k p(3) by simp
  qed (use True p in \<open>auto simp: socket_read_def\<close>)
next
  case False
  then show ?thesis using keeps_refl [OF assms] by (auto simp: socket_read_def split: tcp_answer.splits)
qed

lemma socket_write_keeps:
  assumes "conn_ok sc held w"
  shows "\<exists>ok n sc' w'. socket_write now send buf sc w = Some (ok, n, sc', w') \<and> keeps sc held w sc' held w' \<and> sc_quic sc' = sc_quic sc"
proof (cases "sc_transport sc = SOCKET_TRANSPORT_QUIC_CONNECTION")
  case True
  obtain ready sc1 w1 where p: "socket_quic_connection_prepare now sc w = Some (ready, sc1, w1)" "keeps sc held w sc1 held w1"
    "sc_quic sc1 = sc_quic sc" "ready = Quic_ready \<longrightarrow> sc_game_stream sc1 \<noteq> None" using prepare_keeps [OF assms, of now] by blast
  show ?thesis
  proof (cases "ready = Quic_ready")
    case ready: True
    then obtain g where g: "sc_game_stream sc1 = Some g" using p(4) by auto
    obtain r n g' w2 where r: "socket_stream_write buf g w1 = (r, n, g', w2)" by (metis prod.exhaust)
    have ok: "conn_ok sc1 held w1" "stream_ok g" using p(2) g by (auto simp: keeps_def conn_ok_def game_list_def)
    from stream_write_same [OF ok(2) r] game_replaced [OF ok(1) g] have "keeps sc1 held w1 (sc1\<lparr>sc_game_stream := Some g'\<rparr>) held w2" by blast
    from keeps_trans [OF p(2) this] have k: "keeps sc held w (sc1\<lparr>sc_game_stream := Some g'\<rparr>) held w2" .
    have "socket_write now send buf sc w = Some (stream_result_ok r, n, sc1\<lparr>sc_game_stream := Some g'\<rparr>, w2)"
      using True ready p(1) g r by (simp add: socket_write_def)
    then show ?thesis using k p(3) by simp
  qed (use True p in \<open>auto simp: socket_write_def\<close>)
next
  case False
  then show ?thesis using keeps_refl [OF assms] by (auto simp: socket_write_def split: tcp_answer.splits)
qed


text \<open>Destroying a stream of the application, the game stream and all pending ones.\<close>

lemma destroy_held:
  assumes "conn_ok sc held w" "s \<in> set held"
  shows "\<exists>w'. socket_stream_destroy (Some s) sc w = Some (sc, w') \<and> keeps sc held w sc (remove1 s held) w' \<and> qw_freed w' = qw_freed w @ [st_ssl s]"
proof -
  let ?w = "w\<lparr>qw_freed := qw_freed w @ [st_ssl s]\<rparr>"
  have ids: "st_ssl s \<notin> st_ssl ` set (sc_pending_streams sc)" "sc_game_stream sc = Some g \<Longrightarrow> st_ssl g \<noteq> st_ssl s" for g
    using assms by (auto simp: conn_ok_def all_ids_def game_list_def)
  have "st_connected s" using assms by (auto simp: conn_ok_def stream_ok_def)
  then have "socket_stream_unlink s sc = Some sc"
    using ids pending_remove_absent [OF ids(1)] by (auto simp: socket_stream_unlink_def split: option.splits)
  then have destroy: "socket_stream_destroy (Some s) sc w = Some (sc, ?w)" by (simp add: socket_stream_destroy_def)
  have "mset (map st_ssl held) = add_mset (st_ssl s) (mset (map st_ssl (remove1 s held)))"
    using assms(2) by (simp add: image_mset_Diff)
  then have m: "mset (all_ids sc (remove1 s held) ?w) = mset (all_ids sc held w)" by (simp add: all_ids_def)
  have "keeps sc held w sc (remove1 s held) ?w"
    using assms(1) m distinct_mset [OF m] set_remove1_subset [of s held] by (auto simp: keeps_def conn_ok_def)
  moreover have "qw_freed ?w = qw_freed w @ [st_ssl s]" by simp
  ultimately show ?thesis using destroy by blast
qed

lemma destroy_pending:
  assumes "conn_ok sc held w" "s \<in> set (sc_pending_streams sc)"
    and "sc' = sc\<lparr>sc_pending_streams := filter (\<lambda>t. st_ssl t \<noteq> st_ssl s) (sc_pending_streams sc), sc_pending_count := sc_pending_count sc - 1\<rparr>"
    and "w' = w\<lparr>qw_freed := qw_freed w @ [st_ssl s]\<rparr>"
  shows "socket_stream_destroy (Some s) sc w = Some (sc', w') \<and> keeps sc held w sc' held w'"
proof
  have game: "sc_game_stream sc = Some g \<Longrightarrow> st_ssl g \<noteq> st_ssl s" for g
    using assms(1,2) by (auto simp: conn_ok_def all_ids_def game_list_def)
  have "st_connected s" using assms(1,2) by (auto simp: conn_ok_def pending_ok_def)
  then have "socket_stream_unlink s sc = Some sc'"
    using game pending_remove_ok [OF assms(1,2)] assms(3) by (auto simp: socket_stream_unlink_def split: option.splits)
  then show "socket_stream_destroy (Some s) sc w = Some (sc', w')" using assms(4) by (simp add: socket_stream_destroy_def)
  show "keeps sc held w sc' held w'" unfolding assms(3) by (rule removed_keeps [OF assms(1,2)]) (simp_all add: assms(4))
qed

lemma destroy_game:
  assumes "conn_ok sc held w"
  shows "\<exists>sc' w'. socket_stream_destroy (sc_game_stream sc) sc w = Some (sc', w') \<and> keeps sc held w (sc'\<lparr>sc_game_stream := None\<rparr>) held w' \<and>
    qw_incoming w' = qw_incoming w \<and> qw_local w' = qw_local w"
proof (cases "sc_game_stream sc")
  case None
  then show ?thesis using game_none_keeps [OF keeps_refl [OF assms]] by (simp add: socket_stream_destroy_def)
next
  case (Some g)
  let ?sc = "sc\<lparr>sc_game_stream := None\<rparr>" and ?w = "w\<lparr>qw_freed := qw_freed w @ [st_ssl g]\<rparr>"
  have g: "st_ssl g \<notin> st_ssl ` set (sc_pending_streams ?sc)" "st_connected g"
    using assms Some by (auto simp: conn_ok_def all_ids_def game_list_def stream_ok_def)
  have "socket_stream_destroy (sc_game_stream sc) sc w = Some (?sc, ?w)"
    using Some g(2) pending_remove_absent [OF g(1)] by (simp add: socket_stream_destroy_def socket_stream_unlink_def)
  moreover have m: "mset (all_ids ?sc held ?w) = mset (all_ids sc held w)" using Some by (simp add: all_ids_def game_list_def)
  then have "keeps sc held w ?sc held ?w" using assms distinct_mset [OF m] by (auto simp: keeps_def conn_ok_def game_list_def)
  ultimately show ?thesis by auto
qed

lemma close_pending_loop:
  assumes "conn_ok sc held w"
  shows "\<exists>sc' w'. c_loop close_pending_step (sc, w) = Some (sc', w') \<and> keeps sc held w sc' held w' \<and> sc_pending_streams sc' = [] \<and> same_connection sc sc' \<and>
    qw_incoming w' = qw_incoming w \<and> qw_local w' = qw_local w"
  using assms
proof (induction "length (sc_pending_streams sc)" arbitrary: sc w rule: less_induct)
  case less
  show ?case
  proof (cases "sc_pending_streams sc")
    case Nil
    then have "close_pending_step (sc, w) = Some (Inr (sc, w))" by (simp add: close_pending_step_def)
    then show ?thesis using c_loop_leave [of close_pending_step "(sc, w)"] keeps_refl [OF less.prems] Nil by auto
  next
    case (Cons s ss)
    then have s: "s \<in> set (sc_pending_streams sc)" by simp
    let ?sc = "sc\<lparr>sc_pending_streams := filter (\<lambda>t. st_ssl t \<noteq> st_ssl s) (sc_pending_streams sc), sc_pending_count := sc_pending_count sc - 1\<rparr>"
    let ?w = "w\<lparr>qw_freed := qw_freed w @ [st_ssl s]\<rparr>"
    note destroy = destroy_pending [OF less.prems s refl refl]
    then have "close_pending_step (sc, w) = Some (Inl (?sc, ?w))" by (simp add: close_pending_step_def Cons)
    note loop = c_loop_continue [of close_pending_step "(sc, w)", OF this]
    note k = conjunct2 [OF destroy]
    have "length (sc_pending_streams ?sc) < length (sc_pending_streams sc)"
      using length_drop_one [OF conn_ok_distinct [OF less.prems] s] by simp
    from less.hyps [OF this] k obtain sc' w' where IH: "c_loop close_pending_step (?sc, ?w) = Some (sc', w')" "keeps ?sc held ?w sc' held w'"
      "sc_pending_streams sc' = []" "same_connection ?sc sc'" "qw_incoming w' = qw_incoming ?w" "qw_local w' = qw_local ?w"
      unfolding keeps_def by blast
    have "same_connection sc sc'" by (rule same_connection_trans [OF _ IH(4)]) (simp add: same_connection_def)
    then show ?thesis using loop IH keeps_trans [OF k IH(2)] by auto
  qed
qed

lemma close_keeps:
  assumes "conn_ok sc held w" "sc_quic sc"
  shows "\<exists>fd sc' w'. socket_close sc w = Some (fd, sc', w') \<and> keeps sc held w sc' held w' \<and> sc_pending_streams sc' = [] \<and> sc_game_stream sc' = None \<and>
    \<not> sc_quic sc' \<and> qw_incoming w' = qw_incoming w \<and> qw_local w' = qw_local w"
proof -
  obtain sc0 w0 where start: "(if sc_transport sc = SOCKET_TRANSPORT_QUIC_CONNECTION \<and> \<not> sc_shutdown_sent sc
      then (sc\<lparr>sc_shutdown_sent := True\<rparr>, (case sc_game_stream sc of None \<Rightarrow> w | Some g \<Rightarrow> w\<lparr>qw_concluded := qw_concluded w @ [st_ssl g]\<rparr>))
      else (sc, w)) = (sc0, w0)" by fastforce
  then have same: "sc_pending_streams sc0 = sc_pending_streams sc" "sc_pending_count sc0 = sc_pending_count sc" "sc_game_stream sc0 = sc_game_stream sc"
    "qw_incoming w0 = qw_incoming w" "qw_local w0 = qw_local w" "qw_freed w0 = qw_freed w" by (auto split: if_splits option.splits)
  have k0: "keeps sc held w sc0 held w0" by (rule keeps_same [OF assms(1) same])
  then have ok0: "conn_ok sc0 held w0" by (simp add: keeps_def)
  obtain sc1 w1 where d: "socket_stream_destroy (sc_game_stream sc0) sc0 w0 = Some (sc1, w1)" "keeps sc0 held w0 (sc1\<lparr>sc_game_stream := None\<rparr>) held w1"
    "qw_incoming w1 = qw_incoming w0" "qw_local w1 = qw_local w0" using destroy_game [OF ok0] by blast
  then have ok1: "conn_ok (sc1\<lparr>sc_game_stream := None\<rparr>) held w1" by (simp add: keeps_def)
  obtain sc2 w2 where l: "c_loop close_pending_step (sc1\<lparr>sc_game_stream := None\<rparr>, w1) = Some (sc2, w2)"
    "keeps (sc1\<lparr>sc_game_stream := None\<rparr>) held w1 sc2 held w2" "sc_pending_streams sc2 = []" "same_connection (sc1\<lparr>sc_game_stream := None\<rparr>) sc2"
    "qw_incoming w2 = qw_incoming w1" "qw_local w2 = qw_local w1" using close_pending_loop [OF ok1] by blast
  have none: "sc_game_stream sc2 = None" using same_connection_fields(1) [OF l(4)] by simp
  have k: "keeps sc held w sc2 held w2" using keeps_trans [OF k0 keeps_trans [OF d(2) l(2)]] .
  have q: "close_quic sc w = Some (sc2\<lparr>sc_quic := False\<rparr>, w2)"
    using assms(2) d(1) l(1) unfolding close_quic_def start by simp
  let ?fin = "case sc_handle sc2 of None \<Rightarrow> (None, sc2\<lparr>sc_quic := False\<rparr>) | Some handle \<Rightarrow> if \<not> sc_owns_handle sc2 then (None, sc2\<lparr>sc_quic := False, sc_handle := None\<rparr>)
      else (Some (handle, sc_transport sc2 = SOCKET_TRANSPORT_TCP), sc2\<lparr>sc_quic := False, sc_handle := None\<rparr>)"
  have "socket_close sc w = Some (fst ?fin, snd ?fin, w2)" by (simp add: socket_close_def q split: option.split)
  moreover have "keeps sc2 held w2 (snd ?fin) held w2"
    by (rule keeps_same) (use k in \<open>auto simp: keeps_def split: option.split\<close>)
  moreover have "sc_pending_streams (snd ?fin) = [] \<and> sc_game_stream (snd ?fin) = None \<and> \<not> sc_quic (snd ?fin)" using l(3) none by (auto split: option.split)
  moreover have "qw_incoming w2 = qw_incoming w \<and> qw_local w2 = qw_local w" using l(5,6) d(3,4) same(4,5) by simp
  ultimately show ?thesis using keeps_trans [OF k] by blast
qed



section \<open>Any sequence of calls\<close>

text \<open>
  The states of a connection, of the streams that the application holds, and of the library:
  calls of the application while the connection is open, and steps of the library, which may
  change its answers at any time and offer new SSL objects.
\<close>

inductive conn_reachable :: "sock_struct \<Rightarrow> socket_stream list \<Rightarrow> quic_world \<Rightarrow> bool" where
  start: "sc_pending_streams sc = [] \<Longrightarrow> sc_pending_count sc = 0 \<Longrightarrow> sc_game_stream sc = None \<Longrightarrow> sc_quic sc \<Longrightarrow>
    qw_freed w = [] \<Longrightarrow> distinct (qw_incoming w @ qw_local w) \<Longrightarrow> conn_reachable sc [] w"
| library: "conn_reachable sc held w \<Longrightarrow> qw_freed w' = qw_freed w \<Longrightarrow> distinct (all_ids sc held w') \<Longrightarrow> conn_reachable sc held w'"
| reading: "conn_reachable sc held w \<Longrightarrow> sc_quic sc \<Longrightarrow> socket_read now recv len sc w = Some (ok, data, sc', w') \<Longrightarrow> conn_reachable sc' held w'"
| writing: "conn_reachable sc held w \<Longrightarrow> sc_quic sc \<Longrightarrow> socket_write now send buf sc w = Some (ok, n, sc', w') \<Longrightarrow> conn_reachable sc' held w'"
| accept_none: "conn_reachable sc held w \<Longrightarrow> sc_quic sc \<Longrightarrow> socket_stream_accept now kind sc w = Some (None, sc', w') \<Longrightarrow> conn_reachable sc' held w'"
| accept_some: "conn_reachable sc held w \<Longrightarrow> sc_quic sc \<Longrightarrow> socket_stream_accept now kind sc w = Some (Some s, sc', w') \<Longrightarrow>
    conn_reachable sc' (s # held) w'"
| open_none: "conn_reachable sc held w \<Longrightarrow> sc_quic sc \<Longrightarrow> socket_stream_open now kind sc w = (None, w') \<Longrightarrow> conn_reachable sc held w'"
| open_some: "conn_reachable sc held w \<Longrightarrow> sc_quic sc \<Longrightarrow> socket_stream_open now kind sc w = (Some s, w') \<Longrightarrow> conn_reachable sc (s # held) w'"
| stream_reading: "conn_reachable sc (ss @ s # ts) w \<Longrightarrow> socket_stream_read len s w = (r, data, s', w') \<Longrightarrow> conn_reachable sc (ss @ s' # ts) w'"
| stream_writing: "conn_reachable sc (ss @ s # ts) w \<Longrightarrow> socket_stream_write buf s w = (r, n, s', w') \<Longrightarrow> conn_reachable sc (ss @ s' # ts) w'"
| destroying: "conn_reachable sc held w \<Longrightarrow> s \<in> set held \<Longrightarrow> socket_stream_destroy (Some s) sc w = Some (sc', w') \<Longrightarrow>
    conn_reachable sc' (remove1 s held) w'"
| closing: "conn_reachable sc held w \<Longrightarrow> sc_quic sc \<Longrightarrow> socket_close sc w = Some (fd, sc', w') \<Longrightarrow> conn_reachable sc' held w'"

lemma held_replaced:
  assumes "conn_ok sc (ss @ s # ts) w" "stream_ok s' \<and> st_ssl s' = st_ssl s \<and> same_ids w w'"
  shows "conn_ok sc (ss @ s' # ts) w'"
  using assms by (auto simp: conn_ok_def all_ids_def same_ids_def)

lemma reachable_ok: "conn_reachable sc held w \<Longrightarrow> conn_ok sc held w"
proof (induction rule: conn_reachable.induct)
  case (start sc w)
  then show ?case by (simp add: conn_ok_def all_ids_def game_list_def)
next
  case (library sc held w w')
  then show ?case by (simp add: conn_ok_def)
next
  case (reading sc held w now recv len ok data sc' w')
  then show ?case using socket_read_keeps [OF reading.IH, of now recv len] by (auto simp: keeps_def)
next
  case (writing sc held w now send buf ok n sc' w')
  then show ?case using socket_write_keeps [OF writing.IH, of now send buf] by (auto simp: keeps_def)
next
  case (accept_none sc held w now kind sc' w')
  then show ?case using accept_keeps [OF accept_none.IH, of now kind] by (auto simp: keeps_def)
next
  case (accept_some sc held w now kind s sc' w')
  then show ?case using accept_keeps [OF accept_some.IH, of now kind] by (auto simp: keeps_def)
next
  case (open_none sc held w now kind w')
  then show ?case using open_keeps [OF open_none.IH open_none.hyps(3)] by (simp add: keeps_def)
next
  case (open_some sc held w now kind s w')
  then show ?case using open_keeps [OF open_some.IH open_some.hyps(3)] by (simp add: keeps_def)
next
  case (stream_reading sc ss s ts w len r data s' w')
  then have "stream_ok s" by (auto simp: conn_ok_def)
  from stream_read_same [OF this stream_reading.hyps(2)] show ?case by (rule held_replaced [OF stream_reading.IH])
next
  case (stream_writing sc ss s ts w buf r n s' w')
  then have "stream_ok s" by (auto simp: conn_ok_def)
  from stream_write_same [OF this stream_writing.hyps(2)] show ?case by (rule held_replaced [OF stream_writing.IH])
next
  case (destroying sc held w s sc' w')
  then show ?case using destroy_held [OF destroying.IH destroying.hyps(2)] by (auto simp: keeps_def)
next
  case (closing sc held w fd sc' w')
  then show ?case using close_keeps [OF closing.IH closing.hyps(2)] by (auto simp: keeps_def)
qed

text \<open>What the list of pending streams promises: its length is counted, and bounded.\<close>

definition counted :: "sock_struct \<Rightarrow> bool" where
  "counted sc \<longleftrightarrow> sc_pending_count sc = length (sc_pending_streams sc) \<and> length (sc_pending_streams sc) \<le> 16"

lemma conn_ok_counted: "conn_ok sc held w \<Longrightarrow> counted sc"
  by (simp add: counted_def conn_ok_def SOCKET_QUIC_PENDING_STREAM_MAX_def)

lemma close_frees:
  assumes "conn_ok sc held w" "sc_quic sc"
  shows "\<exists>fd sc' w'. socket_close sc w = Some (fd, sc', w') \<and> sc_pending_streams sc' = [] \<and> sc_pending_count sc' = 0 \<and> distinct (qw_freed w') \<and>
    set (qw_freed w') = set (qw_freed w) \<union> st_ssl ` set (sc_pending_streams sc @ game_list sc)"
proof -
  obtain fd sc' w' where c: "socket_close sc w = Some (fd, sc', w')" "keeps sc held w sc' held w'" "sc_pending_streams sc' = []" "sc_game_stream sc' = None"
    "qw_incoming w' = qw_incoming w" "qw_local w' = qw_local w" using close_keeps [OF assms] by blast
  have "mset (qw_freed w') = mset (map st_ssl (sc_pending_streams sc @ game_list sc) @ qw_freed w)"
    using c(2-6) by (simp add: keeps_def all_ids_def game_list_def)
  from mset_eq_setD [OF this] show ?thesis using c(1-3) by (auto simp: keeps_def conn_ok_def all_ids_def)
qed

text \<open>
  C33. Through any sequence of calls and whatever OpenSSL answers: no assertion fails and every
  loop ends; the count of the pending streams is the length of their list, at most 16, in every
  state and after every further call; none of the pending streams has waited for its preface for
  longer than five seconds at a poll; no SSL object has two owners, is used after it was freed or
  is freed twice; destroying a stream that the application holds succeeds, frees exactly its SSL
  object and leaves the connection as it is, and destroying a pending one takes it off the list
  and the count; and closing the connection frees exactly its own streams and leaves the list
  empty and the count zero.
\<close>

theorem connection_streams_safe:
  assumes "conn_reachable sc held w"
  shows "sc_pending_count sc = length (sc_pending_streams sc) \<and> length (sc_pending_streams sc) \<le> 16 \<and> distinct (all_ids sc held w) \<and>
    (\<exists>sc' w'. socket_stream_poll_incoming now sc w = Some (sc', w') \<and> counted sc' \<and>
       (\<forall>s \<in> set (sc_pending_streams sc'). st_preface_pos s = 8 \<or> now - st_created_ms s < 5000)) \<and>
    (\<exists>ok data sc' w'. socket_read now recv len sc w = Some (ok, data, sc', w') \<and> counted sc') \<and>
    (\<exists>ok n sc' w'. socket_write now send buf sc w = Some (ok, n, sc', w') \<and> counted sc') \<and>
    (\<exists>stream sc' w'. socket_stream_accept now kind sc w = Some (stream, sc', w') \<and> counted sc') \<and>
    (\<forall>s \<in> set held. \<exists>w'. socket_stream_destroy (Some s) sc w = Some (sc, w') \<and> qw_freed w' = qw_freed w @ [st_ssl s] \<and> distinct (qw_freed w')) \<and>
    (\<forall>s \<in> set (sc_pending_streams sc). \<exists>sc' w'. socket_stream_destroy (Some s) sc w = Some (sc', w') \<and> counted sc' \<and>
       s \<notin> set (sc_pending_streams sc') \<and> qw_freed w' = qw_freed w @ [st_ssl s] \<and> distinct (qw_freed w')) \<and>
    (sc_quic sc \<longrightarrow> (\<exists>fd sc' w'. socket_close sc w = Some (fd, sc', w') \<and> sc_pending_streams sc' = [] \<and> sc_pending_count sc' = 0 \<and>
       distinct (qw_freed w') \<and> set (qw_freed w') = set (qw_freed w) \<union> st_ssl ` set (sc_pending_streams sc @ game_list sc)))"
proof (intro conjI ballI impI)
  note ok = reachable_ok [OF assms]
  show "sc_pending_count sc = length (sc_pending_streams sc)" "length (sc_pending_streams sc) \<le> 16" "distinct (all_ids sc held w)"
    using conn_ok_counted [OF ok] ok by (simp_all add: counted_def conn_ok_def)
  show "\<exists>sc' w'. socket_stream_poll_incoming now sc w = Some (sc', w') \<and> counted sc' \<and>
      (\<forall>s \<in> set (sc_pending_streams sc'). st_preface_pos s = 8 \<or> now - st_created_ms s < 5000)"
    using poll_incoming_keeps [OF ok, of now] conn_ok_counted
    unfolding keeps_def waits_def SOCKET_QUIC_PREFACE_TIMEOUT_MS_def by fastforce
  show "\<exists>ok data sc' w'. socket_read now recv len sc w = Some (ok, data, sc', w') \<and> counted sc'"
    using socket_read_keeps [OF ok, of now recv len] conn_ok_counted unfolding keeps_def by blast
  show "\<exists>ok n sc' w'. socket_write now send buf sc w = Some (ok, n, sc', w') \<and> counted sc'"
    using socket_write_keeps [OF ok, of now send buf] conn_ok_counted unfolding keeps_def by blast
  show "\<exists>stream sc' w'. socket_stream_accept now kind sc w = Some (stream, sc', w') \<and> counted sc'"
    using accept_keeps [OF ok, of now kind] conn_ok_counted by (fastforce simp: keeps_def split: option.splits)
next
  fix s assume "s \<in> set held"
  from destroy_held [OF reachable_ok [OF assms] this] obtain w' where "socket_stream_destroy (Some s) sc w = Some (sc, w')"
    "conn_ok sc (remove1 s held) w'" "qw_freed w' = qw_freed w @ [st_ssl s]" by (auto simp: keeps_def)
  moreover have "distinct (qw_freed w')" using calculation(2) by (simp add: conn_ok_def all_ids_def)
  ultimately show "\<exists>w'. socket_stream_destroy (Some s) sc w = Some (sc, w') \<and> qw_freed w' = qw_freed w @ [st_ssl s] \<and> distinct (qw_freed w')"
    by blast
next
  fix s assume s: "s \<in> set (sc_pending_streams sc)"
  define sc' w' where "sc' = sc\<lparr>sc_pending_streams := filter (\<lambda>t. st_ssl t \<noteq> st_ssl s) (sc_pending_streams sc), sc_pending_count := sc_pending_count sc - 1\<rparr>"
    and "w' = w\<lparr>qw_freed := qw_freed w @ [st_ssl s]\<rparr>"
  have d: "socket_stream_destroy (Some s) sc w = Some (sc', w')" "conn_ok sc' held w'"
    using destroy_pending [OF reachable_ok [OF assms] s sc'_def w'_def] by (simp_all add: keeps_def)
  have "s \<notin> set (sc_pending_streams sc')" "qw_freed w' = qw_freed w @ [st_ssl s]" by (simp_all add: sc'_def w'_def)
  moreover have "distinct (qw_freed w')" using d(2) by (simp add: conn_ok_def all_ids_def)
  ultimately show "\<exists>sc' w'. socket_stream_destroy (Some s) sc w = Some (sc', w') \<and> counted sc' \<and>
      s \<notin> set (sc_pending_streams sc') \<and> qw_freed w' = qw_freed w @ [st_ssl s] \<and> distinct (qw_freed w')"
    using d(1) conn_ok_counted [OF d(2)] by blast
next
  assume "sc_quic sc"
  then show "\<exists>fd sc' w'. socket_close sc w = Some (fd, sc', w') \<and> sc_pending_streams sc' = [] \<and> sc_pending_count sc' = 0 \<and>
      distinct (qw_freed w') \<and> set (qw_freed w') = set (qw_freed w) \<union> st_ssl ` set (sc_pending_streams sc @ game_list sc)"
    by (rule close_frees [OF reachable_ok [OF assms]])
qed

definition example_connection :: sock_struct where
  "example_connection = \<lparr>sc_transport = SOCKET_TRANSPORT_QUIC_CONNECTION, sc_handle = Some 3, sc_connection_id = [], sc_role = SOCKET_ROLE_SERVER,
     sc_quic = True, sc_game_stream = None, sc_pending_streams = [], sc_pending_count = 0, sc_owns_handle = False,
     sc_connection_id_final = True, sc_shutdown_sent = False\<rparr>"

theorem connection_streams_safe_witness:
  "\<exists>sc' w'. socket_stream_poll_incoming 7 example_connection (example_receiver\<lparr>qw_incoming := [1, 2]\<rparr>) = Some (sc', w') \<and>
     counted sc' \<and> list_all (\<lambda>s. st_preface_pos s = 8 \<or> 7 - st_created_ms s < 5000) (sc_pending_streams sc')"
proof -
  have "conn_reachable example_connection [] (example_receiver\<lparr>qw_incoming := [1, 2]\<rparr>)"
    by (rule conn_reachable.start) (simp_all add: example_connection_def example_receiver_def quiet_world_def)
  from connection_streams_safe [OF this, of 7] show ?thesis unfolding list_all_iff by blast
qed

section \<open>Duplicate game streams\<close>

definition full_game :: "socket_stream \<Rightarrow> bool" where
  "full_game s \<longleftrightarrow> st_kind s = SOCKET_STREAM_GAME \<and> st_preface_pos s = SOCKET_STREAM_PREFACE_SIZE"

lemma poll_full: "\<forall>s \<in> set streams. full_game s \<Longrightarrow> poll_pending now streams sc w = Some (sc, w)"
  by (induction streams) (auto simp: full_game_def)

lemma read_whole_preface:
  assumes "qw_read w ssl = Ssl_data (socket_stream_preface_encode SOCKET_STREAM_GAME) # as"
  shows "\<exists>s'. socket_stream_preface_read (socket_stream_allocate now ssl SOCKET_STREAM_UNKNOWN False) w =
    (True, s', w\<lparr>qw_read := (qw_read w)(ssl := as)\<rparr>) \<and> full_game s'"
proof -
  have "socket_stream_preface_decode (Some (socket_stream_preface_encode SOCKET_STREAM_GAME)) = Some SOCKET_STREAM_GAME"
    by (simp add: preface_decode_exact)
  then show ?thesis
    using assms
    by (subst socket_stream_preface_read.simps)
      (simp add: socket_stream_allocate_def SSL_read_ex_def SOCKET_STREAM_PREFACE_SIZE_def socket_stream_preface_read.simps Let_def
        socket_stream_preface_valid_def full_game_def)
qed

lemma accept_full:
  assumes "sc_pending_count sc + length ids = SOCKET_QUIC_PENDING_STREAM_MAX" "qw_incoming w = ids" "distinct ids"
    "\<forall>i \<in> set ids. qw_read w i = [Ssl_data (socket_stream_preface_encode SOCKET_STREAM_GAME)]" "\<forall>s \<in> set (sc_pending_streams sc). full_game s"
  shows "\<exists>sc' w'. c_loop (accept_incoming_step now) (sc, w) = Some (sc', w') \<and> sc_pending_count sc' = SOCKET_QUIC_PENDING_STREAM_MAX \<and>
    same_connection sc sc' \<and> (\<forall>s \<in> set (sc_pending_streams sc'). full_game s)"
  using assms
proof (induction ids arbitrary: sc w)
  case Nil
  then have "accept_incoming_step now (sc, w) = Some (Inr (sc, w))" by (simp add: accept_incoming_step_def)
  then show ?case using c_loop_leave [of "accept_incoming_step now" "(sc, w)"] Nil by auto
next
  case (Cons i ids)
  let ?s = "socket_stream_allocate now i SOCKET_STREAM_UNKNOWN False" and ?w = "w\<lparr>qw_incoming := ids\<rparr>"
  let ?sc = "sc\<lparr>sc_pending_streams := ?s # sc_pending_streams sc, sc_pending_count := sc_pending_count sc + 1\<rparr>"
  obtain s' where r: "socket_stream_preface_read ?s ?w = (True, s', ?w\<lparr>qw_read := (qw_read ?w)(i := [])\<rparr>)" "full_game s'"
    using read_whole_preface [of ?w i "[]" now] Cons.prems(4) by auto
  let ?sc1 = "pending_store s' ?sc" and ?w1 = "?w\<lparr>qw_read := (qw_read ?w)(i := [])\<rparr>"
  have id: "st_ssl s' = i"
    using progress_fields(1) [OF preface_read_progress [OF _ r(1)]]
    by (simp add: preface_sized_def socket_stream_allocate_def SOCKET_STREAM_PREFACE_SIZE_def)
  have step: "accept_incoming_step now (sc, w) = Some (Inl (?sc1, ?w1))"
    using Cons.prems(1,2) r(1) by (simp add: accept_incoming_step_def SSL_accept_stream_def Let_def)
  have full: "\<forall>s \<in> set (sc_pending_streams ?sc1). full_game s"
    using Cons.prems(5) r(2) id by (auto simp: pending_store_def socket_stream_allocate_def)
  have rest: "sc_pending_count ?sc1 + length ids = SOCKET_QUIC_PENDING_STREAM_MAX" "qw_incoming ?w1 = ids" "distinct ids"
    "\<forall>j \<in> set ids. qw_read ?w1 j = [Ssl_data (socket_stream_preface_encode SOCKET_STREAM_GAME)]"
    using Cons.prems by (auto simp: pending_store_def)
  obtain sc' w' where IH: "c_loop (accept_incoming_step now) (?sc1, ?w1) = Some (sc', w')" "sc_pending_count sc' = SOCKET_QUIC_PENDING_STREAM_MAX"
    "same_connection ?sc1 sc'" "\<forall>s \<in> set (sc_pending_streams sc'). full_game s"
    using Cons.IH [OF rest full] by blast
  have "same_connection sc sc'" by (rule same_connection_trans [OF _ IH(3)]) (simp add: same_connection_def pending_store_def)
  then show ?case using c_loop_continue [of "accept_incoming_step now" "(sc, w)", OF step] IH by auto
qed

text \<open>
  C35. When a connection has its game stream and the peer opens 16 more game streams whose
  prefaces arrive at once, all of them stay pending for ever: no later stream is accepted any
  more, whatever the library answers.
\<close>

theorem duplicate_game_streams_block:
  assumes "sc_transport sc = SOCKET_TRANSPORT_QUIC_CONNECTION" "sc_connection_id_final sc" "sc_game_stream sc = Some g"
    "sc_pending_streams sc = []" "sc_pending_count sc = 0" "qw_incoming w = ids" "distinct ids" "length ids = 16"
    "\<forall>i \<in> set ids. qw_read w i = [Ssl_data (socket_stream_preface_encode SOCKET_STREAM_GAME)]"
  shows "\<exists>sc' w'. socket_stream_poll_incoming now sc w = Some (sc', w') \<and> sc_game_stream sc' = Some g \<and>
    (\<forall>later v. socket_stream_accept later SOCKET_STREAM_ASSET sc' v = Some (None, sc', v))"
proof -
  obtain sc' w' where a: "c_loop (accept_incoming_step now) (sc, w) = Some (sc', w')" "sc_pending_count sc' = SOCKET_QUIC_PENDING_STREAM_MAX"
    "same_connection sc sc'" "\<forall>s \<in> set (sc_pending_streams sc'). full_game s"
    using accept_full [of sc ids w now] assms by (auto simp: SOCKET_QUIC_PENDING_STREAM_MAX_def)
  have poll: "socket_stream_poll_incoming now sc w = Some (sc', w')" using assms(4) a(1) by (simp add: socket_stream_poll_incoming_def)
  have "socket_stream_accept later SOCKET_STREAM_ASSET sc' v = Some (None, sc', v)" for later v
  proof -
    have "accept_incoming_step later (sc', v) = Some (Inr (sc', v))" using a(2) by (simp add: accept_incoming_step_def)
    then have "socket_stream_poll_incoming later sc' v = Some (sc', v)"
      using c_loop_leave [of "accept_incoming_step later" "(sc', v)"] poll_full [OF a(4)] by (simp add: socket_stream_poll_incoming_def)
    moreover have "find (\<lambda>s. st_kind s = SOCKET_STREAM_ASSET \<and> st_preface_pos s = SOCKET_STREAM_PREFACE_SIZE) (sc_pending_streams sc') = None"
      using a(4) by (auto simp: find_None_iff full_game_def)
    ultimately show ?thesis by (simp add: socket_stream_accept_def)
  qed
  then show ?thesis using poll same_connection_fields(1) [OF a(3)] assms(3) by auto
qed

theorem duplicate_game_streams_block_witness:
  "\<exists>sc' w'. socket_stream_poll_incoming 7 (example_connection\<lparr>sc_game_stream := Some (socket_stream_allocate 0 99 SOCKET_STREAM_GAME True)\<rparr>)
     (quiet_world\<lparr>qw_incoming := [0..<16], qw_read := (\<lambda>_. [Ssl_data (socket_stream_preface_encode SOCKET_STREAM_GAME)])\<rparr>) = Some (sc', w') \<and>
     (\<forall>later v. socket_stream_accept later SOCKET_STREAM_ASSET sc' v = Some (None, sc', v))"
  using duplicate_game_streams_block [of "example_connection\<lparr>sc_game_stream := Some (socket_stream_allocate 0 99 SOCKET_STREAM_GAME True)\<rparr>"
      "socket_stream_allocate 0 99 SOCKET_STREAM_GAME True" "quiet_world\<lparr>qw_incoming := [0..<16],
        qw_read := (\<lambda>_. [Ssl_data (socket_stream_preface_encode SOCKET_STREAM_GAME)])\<rparr>" "[0..<16]" 7]
  by (auto simp: example_connection_def)

end
