(* ===== verification/Quic_Race.thy ===== *)
theory Quic_Race
  imports Punch
begin

text \<open>
  How a client chooses its route, \<open>src/socket_quic.c\<close>: the order of the candidates, their
  division into tasks, the threads that try them and the selection of a connection. The
  threads are a step relation; its steps are the parts of the code between two points where
  other threads can run. Sockets are numbers; whether a socket can be made and a handshake
  succeeds is not determined.
\<close>

section \<open>Order of the candidates\<close>

datatype socket_connection_preference = SOCKET_CONNECTION_PREFERENCE_AUTO | SOCKET_CONNECTION_PREFERENCE_LAN
  | SOCKET_CONNECTION_PREFERENCE_IPV6 | SOCKET_CONNECTION_PREFERENCE_MAPPED | SOCKET_CONNECTION_PREFERENCE_SRFLX
  | SOCKET_CONNECTION_PREFERENCE_DIRECTORY | SOCKET_CONNECTION_PREFERENCE_NUM

fun socket_quic_preference_kind :: "socket_connection_preference \<Rightarrow> socket_candidate_kind" where
  "socket_quic_preference_kind SOCKET_CONNECTION_PREFERENCE_LAN = SOCKET_CANDIDATE_LAN"
| "socket_quic_preference_kind SOCKET_CONNECTION_PREFERENCE_IPV6 = SOCKET_CANDIDATE_IPV6"
| "socket_quic_preference_kind SOCKET_CONNECTION_PREFERENCE_MAPPED = SOCKET_CANDIDATE_MAPPED"
| "socket_quic_preference_kind SOCKET_CONNECTION_PREFERENCE_SRFLX = SOCKET_CANDIDATE_SRFLX"
| "socket_quic_preference_kind SOCKET_CONNECTION_PREFERENCE_DIRECTORY = SOCKET_CANDIDATE_DIRECTORY"
| "socket_quic_preference_kind SOCKET_CONNECTION_PREFERENCE_AUTO = SOCKET_CANDIDATE_NUM"
| "socket_quic_preference_kind SOCKET_CONNECTION_PREFERENCE_NUM = SOCKET_CANDIDATE_NUM"

definition priorities :: "socket_candidate_kind list" where
  "priorities = [SOCKET_CANDIDATE_LAN, SOCKET_CANDIDATE_IPV6, SOCKET_CANDIDATE_PRFLX, SOCKET_CANDIDATE_MAPPED, SOCKET_CANDIDATE_SRFLX,
     SOCKET_CANDIDATE_DIRECTORY]"

definition kind_reflexive :: "socket_candidate_kind \<Rightarrow> bool" where
  "kind_reflexive k \<longleftrightarrow> k = SOCKET_CANDIDATE_PRFLX \<or> k = SOCKET_CANDIDATE_MAPPED \<or> k = SOCKET_CANDIDATE_SRFLX \<or> k = SOCKET_CANDIDATE_DIRECTORY"

definition ordered_priorities :: "socket_candidate_kind \<Rightarrow> socket_candidate_kind list" where
  "ordered_priorities preferred =
     (if preferred = SOCKET_CANDIDATE_LAN \<or> preferred = SOCKET_CANDIDATE_IPV6 then [preferred] else []) @
     filter (\<lambda>k. k \<noteq> preferred) (take 2 priorities) @
     (if kind_reflexive preferred then [preferred] else []) @
     filter (\<lambda>k. k \<noteq> preferred) (drop 2 priorities)"

definition ordered_candidates :: "socket_candidate_kind \<Rightarrow> socket_direct_candidate list \<Rightarrow> socket_direct_candidate list" where
  "ordered_candidates preferred candidates = concat (map (\<lambda>p. filter (\<lambda>c. cd_kind c = p) candidates) (ordered_priorities preferred))"

text \<open>The candidates of a rendezvous and the address of the directory.\<close>

definition client_candidates :: "nat \<Rightarrow> socket_direct_candidate list \<Rightarrow> bytes \<Rightarrow> u16 \<Rightarrow> socket_direct_candidate list" where
  "client_candidates n candidates host port =
     take n candidates @ [\<lparr>cd_host = c_snprintf 65 host, cd_port = port, cd_kind = SOCKET_CANDIDATE_DIRECTORY\<rparr>]"


section \<open>Tasks\<close>

text \<open>An attempt: the candidate, its address and its rank.\<close>

type_synonym 'a attempt = "socket_direct_candidate \<times> 'a \<times> nat"

definition socket_quic_candidate_is_nat :: "socket_candidate_kind \<Rightarrow> bool" where
  "socket_quic_candidate_is_nat kind \<longleftrightarrow> kind = SOCKET_CANDIDATE_PRFLX \<or> kind = SOCKET_CANDIDATE_MAPPED \<or> kind = SOCKET_CANDIDATE_SRFLX"

definition socket_quic_candidate_address :: "(bytes \<Rightarrow> bytes \<Rightarrow> 'a option) \<Rightarrow> 'a \<Rightarrow> socket_direct_candidate \<Rightarrow> 'a option" where
  "socket_quic_candidate_address numeric initial candidate =
     (if cd_kind candidate = SOCKET_CANDIDATE_DIRECTORY then Some initial
      else numeric (cd_host candidate) (c_snprintf 6 (c_decimal (unat (cd_port candidate)))))"

text \<open>The tasks, and the index of the one for candidates behind a NAT.\<close>

fun build_tasks ::
  "(socket_direct_candidate \<Rightarrow> 'a option) \<Rightarrow> nat \<Rightarrow> socket_direct_candidate list \<Rightarrow> 'a attempt list list \<times> nat option \<Rightarrow> 'a attempt list list \<times> nat option" where
  "build_tasks address rank [] st = st"
| "build_tasks address rank (c # cs) (tasks, nat_task) = (case address c of
     None \<Rightarrow> build_tasks address (rank + 1) cs (tasks, nat_task)
   | Some a \<Rightarrow>
       if socket_quic_candidate_is_nat (cd_kind c)
       then (case nat_task of
           None \<Rightarrow> build_tasks address (rank + 1) cs (tasks @ [[(c, a, rank)]], Some (length tasks))
         | Some i \<Rightarrow> build_tasks address (rank + 1) cs (tasks[i := tasks ! i @ [(c, a, rank)]], Some i))
       else build_tasks address (rank + 1) cs (tasks @ [[(c, a, rank)]], nat_task))"

definition initial_socket_task :: "'a attempt list list \<times> nat option \<Rightarrow> nat" where
  "initial_socket_task st = (case st of
     (tasks, Some i) \<Rightarrow> i
   | (tasks, None) \<Rightarrow> (case find (\<lambda>i. cd_kind (fst (tasks ! i ! 0)) = SOCKET_CANDIDATE_DIRECTORY) [0..<length tasks] of
         Some i \<Rightarrow> i
       | None \<Rightarrow> 0))"


section \<open>The race\<close>

datatype thread_phase = Checking nat | Handshaking nat | Finishing | Done

record 'a candidate_task =
  tk_attempts :: "'a attempt list"
  tk_socket :: "nat option"
  tk_result :: "nat option"
  tk_selected :: "'a attempt option"
  tk_phase :: thread_phase

record candidate_race =
  rc_completed :: nat
  rc_best_rank :: "nat option"
  rc_attempted :: nat
  rc_succeeded :: nat
  rc_failed :: nat
  rc_total_handshake_ms :: u64
  rc_maximum_handshake_ms :: u64
  rc_first_success_ms :: u64
  rc_cancelled :: bool

record 'a race_state =
  rs_tasks :: "'a candidate_task list"
  rs_race :: candidate_race
  rs_joining :: bool
  rs_created :: "nat list"
  rs_destroyed :: "nat list"

definition tk_rank :: "'a candidate_task \<Rightarrow> nat option" where
  "tk_rank t = map_option (\<lambda>(c, a, r). r) (tk_selected t)"

definition race_task :: "nat \<Rightarrow> 'a candidate_task \<Rightarrow> 'a race_state \<Rightarrow> 'a race_state" where
  "race_task i t s = s\<lparr>rs_tasks := (rs_tasks s)[i := t]\<rparr>"

text \<open>\<open>SIZE_MAX\<close>, no rank yet, is \<open>None\<close>.\<close>

definition better_rank :: "nat option \<Rightarrow> nat option \<Rightarrow> bool" where
  "better_rank r best = (case r of None \<Rightarrow> False | Some r \<Rightarrow> (case best of None \<Rightarrow> True | Some b \<Rightarrow> r < b))"

definition socket_quic_candidate_finished :: "u64 \<Rightarrow> 'a candidate_task \<Rightarrow> candidate_race \<Rightarrow> candidate_race" where
  "socket_quic_candidate_finished now t race =
     (let race = race\<lparr>rc_completed := rc_completed race + 1\<rparr>
      in if tk_result t \<noteq> None \<and> better_rank (tk_rank t) (rc_best_rank race)
         then race\<lparr>rc_first_success_ms := (if rc_first_success_ms race = 0 then now else rc_first_success_ms race), rc_best_rank := tk_rank t\<rparr>
         else race)"

definition handshake_ended :: "bool \<Rightarrow> u64 \<Rightarrow> candidate_race \<Rightarrow> candidate_race" where
  "handshake_ended connected elapsed_ms race =
     (let race = race\<lparr>rc_attempted := rc_attempted race + 1, rc_total_handshake_ms := rc_total_handshake_ms race + elapsed_ms,
                     rc_maximum_handshake_ms := max (rc_maximum_handshake_ms race) elapsed_ms\<rparr>
      in if connected then race\<lparr>rc_succeeded := rc_succeeded race + 1\<rparr> else race\<lparr>rc_failed := rc_failed race + 1\<rparr>)"

text \<open>The steps of a thread: looking at the next candidate, with a socket of its own if it has
  none yet; a handshake that fails or succeeds; and the end.\<close>

inductive thread_step :: "nat \<Rightarrow> 'a race_state \<Rightarrow> 'a race_state \<Rightarrow> bool" where
  stop: "i < length (rs_tasks s) \<Longrightarrow> t = rs_tasks s ! i \<Longrightarrow> tk_phase t = Checking k \<Longrightarrow> k = length (tk_attempts t) \<or> rc_cancelled (rs_race s) \<Longrightarrow>
    thread_step i s (race_task i (t\<lparr>tk_phase := Finishing\<rparr>) s)"
| no_socket: "i < length (rs_tasks s) \<Longrightarrow> t = rs_tasks s ! i \<Longrightarrow> tk_phase t = Checking k \<Longrightarrow> k < length (tk_attempts t) \<Longrightarrow> \<not> rc_cancelled (rs_race s) \<Longrightarrow>
    tk_socket t = None \<Longrightarrow> thread_step i s (race_task i (t\<lparr>tk_phase := Checking (k + 1)\<rparr>) s)"
| new_socket: "i < length (rs_tasks s) \<Longrightarrow> t = rs_tasks s ! i \<Longrightarrow> tk_phase t = Checking k \<Longrightarrow> k < length (tk_attempts t) \<Longrightarrow> \<not> rc_cancelled (rs_race s) \<Longrightarrow>
    tk_socket t = None \<Longrightarrow> sock \<notin> set (rs_created s) \<Longrightarrow>
    thread_step i s ((race_task i (t\<lparr>tk_phase := Handshaking k, tk_socket := Some sock\<rparr>) s)\<lparr>rs_created := sock # rs_created s\<rparr>)"
| old_socket: "i < length (rs_tasks s) \<Longrightarrow> t = rs_tasks s ! i \<Longrightarrow> tk_phase t = Checking k \<Longrightarrow> k < length (tk_attempts t) \<Longrightarrow> \<not> rc_cancelled (rs_race s) \<Longrightarrow>
    tk_socket t \<noteq> None \<Longrightarrow> thread_step i s (race_task i (t\<lparr>tk_phase := Handshaking k\<rparr>) s)"
| failure: "i < length (rs_tasks s) \<Longrightarrow> t = rs_tasks s ! i \<Longrightarrow> tk_phase t = Handshaking k \<Longrightarrow>
    thread_step i s ((race_task i (t\<lparr>tk_phase := Checking (k + 1)\<rparr>) s)
      \<lparr>rs_race := handshake_ended False elapsed_ms (rs_race s)\<rparr>)"
| success: "i < length (rs_tasks s) \<Longrightarrow> t = rs_tasks s ! i \<Longrightarrow> tk_phase t = Handshaking k \<Longrightarrow>
    thread_step i s ((race_task i (t\<lparr>tk_phase := Finishing, tk_result := tk_socket t, tk_socket := None, tk_selected := Some (tk_attempts t ! k)\<rparr>) s)
      \<lparr>rs_race := handshake_ended True elapsed_ms (rs_race s)\<rparr>)"
| finish: "i < length (rs_tasks s) \<Longrightarrow> t = rs_tasks s ! i \<Longrightarrow> tk_phase t = Finishing \<Longrightarrow>
    thread_step i s ((race_task i (t\<lparr>tk_phase := Done, tk_socket := None\<rparr>) s)
      \<lparr>rs_race := socket_quic_candidate_finished now t (rs_race s),
       rs_destroyed := (case tk_socket t of None \<Rightarrow> [] | Some k \<Rightarrow> [k]) @ rs_destroyed s\<rparr>)"

text \<open>The client leaves its loop when all threads have completed, when the best candidate has
  succeeded, or 150 milliseconds after the first success, and then cancels the others.\<close>

definition race_over :: "u64 \<Rightarrow> 'a race_state \<Rightarrow> bool" where
  "race_over now s \<longleftrightarrow> rc_completed (rs_race s) \<ge> length (rs_tasks s) \<or> rc_best_rank (rs_race s) = Some 0 \<or>
     (rc_best_rank (rs_race s) \<noteq> None \<and> now - rc_first_success_ms (rs_race s) \<ge> 150)"

inductive race_step :: "'a race_state \<Rightarrow> 'a race_state \<Rightarrow> bool" where
  thread: "thread_step i s s' \<Longrightarrow> race_step s s'"
| join: "\<not> rs_joining s \<Longrightarrow> race_over now s \<Longrightarrow>
    race_step s (s\<lparr>rs_joining := True, rs_race := (rs_race s)\<lparr>rc_cancelled := rc_best_rank (rs_race s) \<noteq> None\<rparr>\<rparr>)"

text \<open>The selection after all threads were joined: the socket, its attempt, and those destroyed.\<close>

fun race_select :: "'a candidate_task list \<Rightarrow> (nat \<times> 'a attempt) option \<Rightarrow> nat list \<Rightarrow> (nat \<times> 'a attempt) option \<times> nat list" where
  "race_select [] selected destroyed = (selected, destroyed)"
| "race_select (t # ts) selected destroyed = (case (tk_result t, tk_selected t) of
     (Some sock, Some (c, a, rank)) \<Rightarrow>
       (case selected of
          None \<Rightarrow> race_select ts (Some (sock, c, a, rank)) destroyed
        | Some (old, c', a', rank') \<Rightarrow>
            if rank < rank' then race_select ts (Some (sock, c, a, rank)) (old # destroyed) else race_select ts selected (sock # destroyed))
   | _ \<Rightarrow> race_select ts selected destroyed)"

definition race_start :: "nat \<Rightarrow> 'a attempt list list \<times> nat option \<Rightarrow> 'a race_state" where
  "race_start sock st =
     \<lparr>rs_tasks = map (\<lambda>i. \<lparr>tk_attempts = fst st ! i, tk_socket = (if i = initial_socket_task st then Some sock else None), tk_result = None,
         tk_selected = None, tk_phase = Checking 0\<rparr>) [0..<length (fst st)],
      rs_race = \<lparr>rc_completed = 0, rc_best_rank = None, rc_attempted = 0, rc_succeeded = 0, rc_failed = 0,
        rc_total_handshake_ms = 0, rc_maximum_handshake_ms = 0, rc_first_success_ms = 0, rc_cancelled = False\<rparr>,
      rs_joining = False, rs_created = [sock], rs_destroyed = []\<rparr>"

end
