(* ===== verification/Quic_Race_Correct.thy ===== *)
theory Quic_Race_Correct
  imports Quic_Race
begin

text \<open>
  Properties of \<open>Quic_Race\<close>: the candidates are tried in the order of preference, none is lost;
  whatever the threads do, the race ends, the connection chosen is the best that succeeded, and
  every other socket is destroyed exactly once.
\<close>

section \<open>The race\<close>

definition opt_list :: "'a option \<Rightarrow> 'a list" where
  "opt_list x = (case x of None \<Rightarrow> [] | Some y \<Rightarrow> [y])"

lemma opt_list_simps [simp]: "opt_list None = []" "opt_list (Some y) = [y]"
  by (simp_all add: opt_list_def)

definition owned :: "'a candidate_task \<Rightarrow> nat list" where
  "owned t = opt_list (tk_socket t) @ opt_list (tk_result t)"

definition sockets_in :: "'a candidate_task list \<Rightarrow> nat multiset" where
  "sockets_in ts = mset (concat (map owned ts))"

lemma sockets_in_update:
  assumes "i < length ts"
  shows "sockets_in (ts[i := t]) + mset (owned (ts ! i)) = sockets_in ts + mset (owned t)"
  using assms
proof (induction ts arbitrary: i)
  case (Cons x xs)
  then show ?case by (cases i) (auto simp: sockets_in_def add.commute add.left_commute)
qed simp

definition task_ok :: "'a candidate_task \<Rightarrow> bool" where
  "task_ok t \<longleftrightarrow> (tk_result t = None \<longleftrightarrow> tk_selected t = None) \<and> (\<forall>a. tk_selected t = Some a \<longrightarrow> a \<in> set (tk_attempts t)) \<and>
     (case tk_phase t of
        Checking k \<Rightarrow> k \<le> length (tk_attempts t) \<and> tk_result t = None
      | Handshaking k \<Rightarrow> k < length (tk_attempts t) \<and> tk_result t = None \<and> tk_socket t \<noteq> None
      | Finishing \<Rightarrow> tk_result t = None \<or> tk_socket t = None
      | Done \<Rightarrow> tk_socket t = None)"

definition won :: "'a candidate_task \<Rightarrow> nat \<Rightarrow> bool" where
  "won t r \<longleftrightarrow> tk_phase t = Done \<and> tk_result t \<noteq> None \<and> tk_rank t = Some r"

definition best_ok :: "nat option \<Rightarrow> 'a candidate_task list \<Rightarrow> bool" where
  "best_ok best ts = (case best of
     None \<Rightarrow> \<forall>t \<in> set ts. \<forall>r. \<not> won t r
   | Some b \<Rightarrow> (\<exists>t \<in> set ts. won t b) \<and> (\<forall>t \<in> set ts. \<forall>r. won t r \<longrightarrow> b \<le> r))"

definition race_inv :: "'a race_state \<Rightarrow> bool" where
  "race_inv s \<longleftrightarrow> (\<forall>t \<in> set (rs_tasks s). task_ok t) \<and>
     rc_completed (rs_race s) = length (filter (\<lambda>t. tk_phase t = Done) (rs_tasks s)) \<and>
     rc_attempted (rs_race s) = rc_succeeded (rs_race s) + rc_failed (rs_race s) \<and>
     best_ok (rc_best_rank (rs_race s)) (rs_tasks s) \<and>
     distinct (rs_created s) \<and> mset (rs_created s) = sockets_in (rs_tasks s) + mset (rs_destroyed s)"

text \<open>Replacing a task that has not ended by another that has not.\<close>

lemma best_ok_update:
  assumes "best_ok best ts" "i < length ts" "tk_phase (ts ! i) \<noteq> Done" "tk_phase t \<noteq> Done"
  shows "best_ok best (ts[i := t])"
proof -
  have won: "(\<exists>u \<in> set (ts[i := t]). won u r) \<longleftrightarrow> (\<exists>u \<in> set ts. won u r)" for r
  proof -
    have "won (ts[i := t] ! j) r \<longleftrightarrow> won (ts ! j) r" if "j < length ts" for j
      using assms that by (cases "j = i") (auto simp: won_def)
    then show ?thesis by (simp add: Bex_def in_set_conv_nth) (metis length_list_update)
  qed
  show ?thesis using assms(1) won by (auto simp: best_ok_def split: option.splits)
qed

lemma done_update:
  assumes "i < length ts" "tk_phase (ts ! i) \<noteq> Done"
  shows "length (filter (\<lambda>t. tk_phase t = Done) (ts[i := t])) = length (filter (\<lambda>t. tk_phase t = Done) ts) + (if tk_phase t = Done then 1 else 0)"
  using length_filter_update [OF assms(1), of "\<lambda>t. tk_phase t = Done" t] assms(2) by simp

lemma tasks_ok_update:
  assumes "\<forall>t \<in> set ts. task_ok t" "task_ok t"
  shows "\<forall>t \<in> set (ts[i := t]). task_ok t"
  using assms set_update_subset_insert [of ts i t] by blast

text \<open>A step that leaves the task running, with or without a new socket.\<close>

lemma running_step:
  assumes "race_inv s" "i < length (rs_tasks s)" "tk_phase (rs_tasks s ! i) \<noteq> Done" "tk_phase t \<noteq> Done" "task_ok t"
    "mset (owned t) = mset (owned (rs_tasks s ! i)) + mset new" "distinct (new @ rs_created s)"
    "rs_tasks s' = (rs_tasks s)[i := t]" "rs_created s' = new @ rs_created s" "rs_destroyed s' = rs_destroyed s"
    "rc_completed (rs_race s') = rc_completed (rs_race s)" "rc_best_rank (rs_race s') = rc_best_rank (rs_race s)"
    "rc_attempted (rs_race s') = rc_succeeded (rs_race s') + rc_failed (rs_race s')"
  shows "race_inv s'"
proof -
  have "sockets_in (rs_tasks s') = sockets_in (rs_tasks s) + mset new"
    using sockets_in_update [OF assms(2), of t] assms(6,8) by simp
  then show ?thesis
    using assms best_ok_update [OF _ assms(2-4)] done_update [OF assms(2,3)] tasks_ok_update [of "rs_tasks s" t i]
    by (simp add: race_inv_def)
qed


lemma won_update:
  assumes "i < length ts" "tk_phase (ts ! i) \<noteq> Done"
  shows "(\<exists>u \<in> set (ts[i := t]). won u r) \<longleftrightarrow> won t r \<or> (\<exists>u \<in> set ts. won u r)"
proof -
  have other: "\<not> won (ts ! i) r" using assms(2) by (simp add: won_def)
  have "(\<exists>u \<in> set (ts[i := t]). won u r) \<longleftrightarrow> (\<exists>j < length ts. won (ts[i := t] ! j) r)" by (simp add: Bex_def in_set_conv_nth) metis
  also have "\<dots> \<longleftrightarrow> won t r \<or> (\<exists>j < length ts. won (ts ! j) r)"
    using assms(1) other by (metis nth_list_update)
  finally show ?thesis by (simp add: Bex_def in_set_conv_nth) metis
qed

lemma finish_best:
  assumes "best_ok (rc_best_rank race) ts" "i < length ts" "t = ts ! i" "tk_phase t = Finishing" "task_ok t"
  shows "best_ok (rc_best_rank (socket_quic_candidate_finished now t race)) (ts[i := t\<lparr>tk_phase := Done, tk_socket := None\<rparr>])"
proof -
  let ?t = "t\<lparr>tk_phase := Done, tk_socket := None\<rparr>"
  have upd: "(\<exists>u \<in> set (ts[i := ?t]). won u r) \<longleftrightarrow> won ?t r \<or> (\<exists>u \<in> set ts. won u r)" for r
    using won_update [OF assms(2), of ?t r] assms(3,4) by simp
  have wt: "won ?t r \<longleftrightarrow> tk_result t \<noteq> None \<and> tk_rank t = Some r" for r by (simp add: won_def tk_rank_def)
  have rank: "tk_result t \<noteq> None \<longleftrightarrow> tk_rank t \<noteq> None" using assms(5) by (simp add: task_ok_def tk_rank_def)
  show ?thesis
  proof (cases "tk_rank t")
    case None
    then have "rc_best_rank (socket_quic_candidate_finished now t race) = rc_best_rank race"
      using rank by (simp add: socket_quic_candidate_finished_def better_rank_def)
    then show ?thesis using assms(1) upd wt None by (auto simp: best_ok_def split: option.splits)
  next
    case (Some r)
    have best: "rc_best_rank (socket_quic_candidate_finished now t race) =
        (case rc_best_rank race of None \<Rightarrow> Some r | Some b \<Rightarrow> Some (min r b))"
      using rank Some by (auto simp: socket_quic_candidate_finished_def better_rank_def Let_def min_def split: option.splits)
    show ?thesis
    proof (cases "rc_best_rank race")
      case None
      then have none: "\<not> (\<exists>u \<in> set ts. won u r')" for r' using assms(1) by (simp add: best_ok_def)
      have "\<exists>u \<in> set (ts[i := ?t]). won u r" using upd wt Some rank by simp
      moreover have "\<forall>u \<in> set (ts[i := ?t]). \<forall>r'. won u r' \<longrightarrow> r \<le> r'"
        using upd wt Some none by (metis option.inject order_refl)
      ultimately show ?thesis by (simp add: best_ok_def best None)
    next
      case b: (Some b)
      have old: "\<exists>u \<in> set ts. won u b" "\<And>r'. (\<exists>u \<in> set ts. won u r') \<Longrightarrow> b \<le> r'" using assms(1) b by (auto simp: best_ok_def)
      have "\<exists>u \<in> set (ts[i := ?t]). won u (min r b)" using upd wt Some rank old(1) by (cases "r \<le> b") (auto simp: min_def)
      moreover have "\<forall>u \<in> set (ts[i := ?t]). \<forall>r'. won u r' \<longrightarrow> min r b \<le> r'"
        using upd wt Some old(2) by (metis min.coboundedI1 min.coboundedI2 option.inject order_refl)
      ultimately show ?thesis by (simp add: best_ok_def best b)
    qed
  qed
qed

lemma finished_fields:
  "rc_completed (socket_quic_candidate_finished now t race) = rc_completed race + 1"
  "rc_attempted (socket_quic_candidate_finished now t race) = rc_attempted race"
  "rc_succeeded (socket_quic_candidate_finished now t race) = rc_succeeded race"
  "rc_failed (socket_quic_candidate_finished now t race) = rc_failed race"
  by (simp_all add: socket_quic_candidate_finished_def Let_def)

lemma thread_step_inv:
  assumes "thread_step i s s'" "race_inv s"
  shows "race_inv s'"
  using assms
proof (induction rule: thread_step.induct)
  case (finish i s t now)
  let ?t = "t\<lparr>tk_phase := Done, tk_socket := None\<rparr>"
  have ok: "task_ok t" using finish by (auto simp: race_inv_def)
  have "task_ok ?t" using ok finish.hyps(3) by (auto simp: task_ok_def)
  moreover have "sockets_in ((rs_tasks s)[i := ?t]) + mset (opt_list (tk_socket t)) = sockets_in (rs_tasks s)"
    using sockets_in_update [OF finish.hyps(1), of ?t] finish.hyps(2) by (simp add: owned_def)
  moreover have "best_ok (rc_best_rank (socket_quic_candidate_finished now t (rs_race s))) ((rs_tasks s)[i := ?t])"
    using finish_best [OF _ finish.hyps ok] finish.prems by (simp add: race_inv_def)
  ultimately show ?case
    using finish done_update [of i "rs_tasks s" ?t] tasks_ok_update [of "rs_tasks s" ?t i]
    by (simp add: race_inv_def race_task_def finished_fields opt_list_def [symmetric] add.commute add.left_commute)
next
  case (new_socket i s t k sock)
  have ok: "task_ok t" using new_socket by (auto simp: race_inv_def)
  show ?case
    by (rule running_step [where new = "[sock]" and t = "t\<lparr>tk_phase := Handshaking k, tk_socket := Some sock\<rparr>", OF new_socket.prems new_socket.hyps(1)])
      (use new_socket ok in \<open>auto simp: race_task_def task_ok_def owned_def race_inv_def\<close>)
next
  case (stop i s t k)
  have ok: "task_ok t" using stop by (auto simp: race_inv_def)
  show ?case
    by (rule running_step [where new = "[]" and t = "t\<lparr>tk_phase := Finishing\<rparr>", OF stop.prems stop.hyps(1)])
      (use stop ok in \<open>auto simp: race_task_def task_ok_def owned_def race_inv_def\<close>)
next
  case (no_socket i s t k)
  have ok: "task_ok t" using no_socket by (auto simp: race_inv_def)
  show ?case
    by (rule running_step [where new = "[]" and t = "t\<lparr>tk_phase := Checking (k + 1)\<rparr>", OF no_socket.prems no_socket.hyps(1)])
      (use no_socket ok in \<open>auto simp: race_task_def task_ok_def owned_def race_inv_def\<close>)
next
  case (old_socket i s t k)
  have ok: "task_ok t" using old_socket by (auto simp: race_inv_def)
  show ?case
    by (rule running_step [where new = "[]" and t = "t\<lparr>tk_phase := Handshaking k\<rparr>", OF old_socket.prems old_socket.hyps(1)])
      (use old_socket ok in \<open>auto simp: race_task_def task_ok_def owned_def race_inv_def\<close>)
next
  case (failure i s t k elapsed_ms)
  have ok: "task_ok t" using failure by (auto simp: race_inv_def)
  show ?case
    by (rule running_step [where new = "[]" and t = "t\<lparr>tk_phase := Checking (k + 1)\<rparr>", OF failure.prems failure.hyps(1)])
      (use failure ok in \<open>auto simp: handshake_ended_def Let_def race_task_def task_ok_def owned_def race_inv_def\<close>)
next
  case (success i s t k elapsed_ms)
  let ?t = "t\<lparr>tk_phase := Finishing, tk_result := tk_socket t, tk_socket := None, tk_selected := Some (tk_attempts t ! k)\<rparr>"
  have ok: "task_ok t" using success by (auto simp: race_inv_def)
  then have "k < length (tk_attempts t)" "tk_socket t \<noteq> None" "tk_result t = None" using success.hyps(3) by (auto simp: task_ok_def)
  moreover have "task_ok ?t" using calculation by (simp add: task_ok_def del: split_paired_All)
  ultimately show ?case
    by (intro running_step [where new = "[]" and t = ?t, OF success.prems success.hyps(1)])
      (use success in \<open>auto simp: handshake_ended_def Let_def race_task_def owned_def race_inv_def\<close>)
qed


section \<open>Outcome\<close>

abbreviation race_reachable :: "'a race_state \<Rightarrow> 'a race_state \<Rightarrow> bool" where
  "race_reachable \<equiv> race_step\<^sup>*\<^sup>*"

lemma race_step_inv: "race_step s s' \<Longrightarrow> race_inv s \<Longrightarrow> race_inv s'"
proof (induction rule: race_step.induct)
  case (thread i s s')
  then show ?case using thread_step_inv by blast
qed (simp add: race_inv_def)

lemma race_start_inv:
  assumes "fst st \<noteq> []" "initial_socket_task st < length (fst st)"
  shows "race_inv (race_start sock st)"
proof -
  let ?f = "\<lambda>i. opt_list (if i = initial_socket_task st then Some sock else None)"
  have one: "concat (map ?f [0..<n]) = (if initial_socket_task st < n then [sock] else [])" for n
    by (induction n) auto
  have "sockets_in (rs_tasks (race_start sock st)) = {#sock#}"
    using assms(2) one by (simp add: sockets_in_def race_start_def comp_def owned_def cong: map_cong)
  moreover have "\<forall>t \<in> set (rs_tasks (race_start sock st)). task_ok t \<and> tk_phase t \<noteq> Done"
    by (auto simp: race_start_def task_ok_def)
  ultimately show ?thesis
    by (auto simp: race_inv_def race_start_def best_ok_def won_def)
qed

lemma race_reachable_inv:
  assumes "race_reachable s s'" "race_inv s"
  shows "race_inv s'"
  using assms by (induction rule: rtranclp_induct) (auto intro: race_step_inv)

text \<open>The candidates of the tasks never change, and the successes are the tasks with a result.\<close>

lemma thread_step_frame:
  assumes "thread_step i s s'" "race_inv s"
  shows "map tk_attempts (rs_tasks s') = map tk_attempts (rs_tasks s)"
    "rc_succeeded (rs_race s) = length (filter (\<lambda>t. tk_result t \<noteq> None) (rs_tasks s)) \<Longrightarrow>
     rc_succeeded (rs_race s') = length (filter (\<lambda>t. tk_result t \<noteq> None) (rs_tasks s'))"
proof -
  have same: "map tk_attempts (ts[i := u]) = map tk_attempts ts"
    if "i < length ts" "tk_attempts u = tk_attempts (ts ! i)" for ts and u :: "'a candidate_task"
    using that by (simp add: map_update) (metis length_map list_update_id nth_map)
  have kept: "length (filter (\<lambda>t. tk_result t \<noteq> None) (ts[i := u])) = length (filter (\<lambda>t. tk_result t \<noteq> None) ts)"
    if "i < length ts" "tk_result u = tk_result (ts ! i)" for ts and u :: "'a candidate_task"
    using length_filter_update [OF that(1), of "\<lambda>t. tk_result t \<noteq> None" u] that(2) by simp
  have ok: "task_ok (rs_tasks s ! i)" if "i < length (rs_tasks s)" using assms(2) that by (simp add: race_inv_def)
  show "map tk_attempts (rs_tasks s') = map tk_attempts (rs_tasks s)"
    using assms(1) by cases (simp_all add: race_task_def same)
  assume eq: "rc_succeeded (rs_race s) = length (filter (\<lambda>t. tk_result t \<noteq> None) (rs_tasks s))"
  show "rc_succeeded (rs_race s') = length (filter (\<lambda>t. tk_result t \<noteq> None) (rs_tasks s'))"
    using assms(1)
  proof cases
    case (success t k elapsed_ms)
    then have "tk_result (rs_tasks s ! i) = None" "tk_socket (rs_tasks s ! i) \<noteq> None" using ok by (auto simp: task_ok_def)
    then show ?thesis using eq success length_filter_update [OF success(2), of "\<lambda>t. tk_result t \<noteq> None"]
      by (simp add: race_task_def handshake_ended_def)
  qed (use eq in \<open>simp_all add: race_task_def handshake_ended_def finished_fields kept del: not_None_eq\<close>)
qed

lemma race_reachable_frame:
  assumes "race_reachable s s'" "race_inv s" "rc_succeeded (rs_race s) = length (filter (\<lambda>t. tk_result t \<noteq> None) (rs_tasks s))"
  shows "map tk_attempts (rs_tasks s') = map tk_attempts (rs_tasks s) \<and>
    rc_succeeded (rs_race s') = length (filter (\<lambda>t. tk_result t \<noteq> None) (rs_tasks s'))"
  using assms(1)
proof (induction rule: rtranclp_induct)
  case (step y z)
  have inv: "race_inv y" using race_reachable_inv [OF step.hyps(1) assms(2)] .
  from step.hyps(2) show ?case
  proof cases
    case (thread i)
    then show ?thesis using thread_step_frame [OF _ inv] step.IH by metis
  qed (use step.IH in simp)
qed (use assms(3) in simp)

text \<open>The selection: sockets are kept or destroyed, and the one kept has the least rank.\<close>

definition selected_rank :: "(nat \<times> 'a attempt) option \<Rightarrow> nat option" where
  "selected_rank sel = map_option (\<lambda>(sock, c, a, r). r) sel"

lemma race_select_correct:
  assumes "\<forall>t \<in> set ts. task_ok t \<and> tk_phase t = Done" "race_select ts sel gone = (sel', gone')"
  shows "mset (opt_list (map_option fst sel')) + mset gone' = mset (opt_list (map_option fst sel)) + mset gone + sockets_in ts \<and>
    (sel' = None \<longleftrightarrow> sel = None \<and> (\<forall>t \<in> set ts. tk_result t = None)) \<and>
    (sel' = sel \<or> (\<exists>t \<in> set ts. sel' = Some (the (tk_result t), the (tk_selected t)) \<and> tk_result t \<noteq> None \<and> tk_selected t \<noteq> None)) \<and>
    (\<forall>r' r. selected_rank sel' = Some r' \<longrightarrow> selected_rank sel = Some r \<or> (\<exists>t \<in> set ts. won t r) \<longrightarrow> r' \<le> r)"
  using assms
proof (induction ts arbitrary: sel gone)
  case Nil
  then show ?case by (auto simp: sockets_in_def)
next
  case (Cons t ts)
  have ok: "task_ok t" "tk_phase t = Done" "\<forall>t \<in> set ts. task_ok t \<and> tk_phase t = Done" using Cons.prems(1) by auto
  then have sock: "tk_socket t = None" and res: "tk_result t = None \<longleftrightarrow> tk_selected t = None" by (auto simp: task_ok_def)
  have si: "sockets_in (t # ts) = mset (opt_list (tk_result t)) + sockets_in ts" using sock by (simp add: sockets_in_def owned_def)
  show ?case
  proof (cases "tk_result t")
    case None
    then have "race_select ts sel gone = (sel', gone')" "\<not> won t r" for r using Cons.prems(2) by (auto simp: won_def)
    then show ?thesis using Cons.IH [OF ok(3)] None si by auto
  next
    case (Some k)
    then obtain c a r where sel: "tk_selected t = Some (c, a, r)" using res by (metis not_None_eq prod_cases3)
    have wt: "won t q \<longleftrightarrow> q = r" for q using Some sel ok(2) by (auto simp: won_def tk_rank_def)
    define keep where "keep \<longleftrightarrow> (case sel of None \<Rightarrow> True | Some (old, c', a', r') \<Rightarrow> r < r')"
    define sel1 where "sel1 = (if keep then Some (k, c, a, r) else sel)"
    define gone1 where "gone1 = (if keep then opt_list (map_option fst sel) else [k]) @ gone"
    have rec: "race_select ts sel1 gone1 = (sel', gone')"
      using Cons.prems(2) Some sel by (auto simp: sel1_def gone1_def keep_def split: option.splits if_splits)
    have "mset (opt_list (map_option fst sel1)) + mset gone1 = mset (opt_list (map_option fst sel)) + mset gone + {#k#}"
      by (simp add: sel1_def gone1_def)
    moreover have "sel1 \<noteq> None" by (auto simp: sel1_def keep_def split: option.splits)
    moreover have "\<exists>q1. selected_rank sel1 = Some q1 \<and> q1 \<le> r \<and> (\<forall>q. selected_rank sel = Some q \<longrightarrow> q1 \<le> q)"
      by (auto simp: sel1_def keep_def selected_rank_def split: option.splits)
    moreover have "sel1 = sel \<or> sel1 = Some (the (tk_result t), the (tk_selected t))" using Some sel by (simp add: sel1_def)
    ultimately show ?thesis
      using Cons.IH [OF ok(3) rec] Some sel si wt
      by (intro conjI) (simp_all, blast, metis le_trans)
  qed
qed

text \<open>The tasks hold each candidate with an address once, with its place in the order.\<close>

definition numbered_attempts :: "(socket_direct_candidate \<Rightarrow> 'a option) \<Rightarrow> nat \<Rightarrow> socket_direct_candidate list \<Rightarrow> 'a attempt list" where
  "numbered_attempts address rank cs =
     concat (map (\<lambda>(r, c). case address c of None \<Rightarrow> [] | Some a \<Rightarrow> [(c, a, r)]) (enumerate rank cs))"

definition tasks_ok :: "'a attempt list list \<times> nat option \<Rightarrow> bool" where
  "tasks_ok st \<longleftrightarrow> [] \<notin> set (fst st) \<and>
     (\<forall>i < length (fst st). \<forall>x \<in> set (fst st ! i). socket_quic_candidate_is_nat (cd_kind (fst x)) \<longleftrightarrow> snd st = Some i) \<and>
     (\<forall>i. snd st = Some i \<longrightarrow> i < length (fst st))"

lemma mset_concat_update:
  "i < length xs \<Longrightarrow> mset (concat (xs[i := xs ! i @ ys])) = mset (concat xs) + mset ys"
proof (induction xs arbitrary: i)
  case (Cons x xs)
  then show ?case by (cases i) (auto simp: add.commute add.left_commute)
qed simp

lemma build_tasks_ok:
  assumes "tasks_ok st"
  shows "tasks_ok (build_tasks address rank cs st) \<and>
    mset (concat (fst (build_tasks address rank cs st))) = mset (concat (fst st)) + mset (numbered_attempts address rank cs)"
  using assms
proof (induction address rank cs st rule: build_tasks.induct)
  case (2 address rank c cs tasks nat_task)
  show ?case
  proof (cases "address c")
    case None
    then show ?thesis using "2.IH"(1) "2.prems" by (simp add: numbered_attempts_def)
  next
    case (Some a)
    define st1 where "st1 = (if socket_quic_candidate_is_nat (cd_kind c)
      then (case nat_task of None \<Rightarrow> (tasks @ [[(c, a, rank)]], Some (length tasks)) | Some i \<Rightarrow> (tasks[i := tasks ! i @ [(c, a, rank)]], Some i))
      else (tasks @ [[(c, a, rank)]], nat_task))"
    have step: "build_tasks address rank (c # cs) (tasks, nat_task) = build_tasks address (rank + 1) cs st1"
      using Some by (simp add: st1_def split: option.splits)
    have "tasks_ok st1"
      using "2.prems" by (auto simp: tasks_ok_def st1_def nth_append nth_list_update in_set_conv_nth less_Suc_eq split: option.splits if_splits)
    moreover have "mset (concat (fst st1)) = mset (concat tasks) + {#(c, a, rank)#}"
      using "2.prems" by (auto simp: tasks_ok_def st1_def mset_concat_update split: option.splits)
    moreover have "tasks_ok st1 \<Longrightarrow> tasks_ok (build_tasks address (rank + 1) cs st1) \<and>
      mset (concat (fst (build_tasks address (rank + 1) cs st1))) = mset (concat (fst st1)) + mset (numbered_attempts address (rank + 1) cs)"
      using "2.IH"(2-4) [OF Some] by (auto simp: st1_def split: option.splits if_splits)
    ultimately show ?thesis using Some step by (simp add: numbered_attempts_def)
  qed
qed (simp add: numbered_attempts_def)

lemma initial_socket_task_less:
  assumes "tasks_ok st" "fst st \<noteq> []"
  shows "initial_socket_task st < length (fst st)"
  using assms by (cases st) (auto simp: initial_socket_task_def tasks_ok_def find_Some_iff split: option.splits)

lemma numbered_attempts_nth:
  "(c, a, r) \<in> set (numbered_attempts address 0 cs) \<longleftrightarrow> r < length cs \<and> cs ! r = c \<and> address c = Some a"
  by (auto simp: numbered_attempts_def in_set_enumerate_eq split: option.splits)

definition race_ended :: "'a race_state \<Rightarrow> bool" where
  "race_ended s \<longleftrightarrow> rs_joining s \<and> (\<forall>t \<in> set (rs_tasks s). tk_phase t = Done)"

lemma race_started:
  assumes "st = build_tasks address 0 cs ([], None)" "fst st \<noteq> []" "race_reachable (race_start sock st) s"
  shows "race_inv s" "map tk_attempts (rs_tasks s) = fst st"
    "rc_succeeded (rs_race s) = length (filter (\<lambda>t. tk_result t \<noteq> None) (rs_tasks s))"
    "mset (concat (fst st)) = mset (numbered_attempts address 0 cs)"
proof -
  have st: "tasks_ok st" "mset (concat (fst st)) = mset (numbered_attempts address 0 cs)"
    using build_tasks_ok [of "([], None)" address 0 cs] assms(1) by (simp_all add: tasks_ok_def)
  have inv: "race_inv (race_start sock st)" by (rule race_start_inv [OF assms(2) initial_socket_task_less [OF st(1) assms(2)]])
  have frame: "map tk_attempts (rs_tasks (race_start sock st)) = fst st"
    "rc_succeeded (rs_race (race_start sock st)) = length (filter (\<lambda>t. tk_result t \<noteq> None) (rs_tasks (race_start sock st)))"
    by (simp_all add: race_start_def comp_def map_nth)
  show "race_inv s" by (rule race_reachable_inv [OF assms(3) inv])
  show "map tk_attempts (rs_tasks s) = fst st"
    "rc_succeeded (rs_race s) = length (filter (\<lambda>t. tk_result t \<noteq> None) (rs_tasks s))"
    using race_reachable_frame [OF assms(3) inv frame(2)] frame(1) by simp_all
  show "mset (concat (fst st)) = mset (numbered_attempts address 0 cs)" by (rule st(2))
qed

text \<open>C37. Whatever the threads of a race do and in whatever order, once all have been joined: a
  connection is returned exactly if some handshake succeeded; it is the one of the least rank of
  all that succeeded, its candidate stands at that rank of the order of preference and the
  address is that candidate's; and every socket made during the race, the first one included,
  was destroyed exactly once, except for the one returned.\<close>

theorem race_outcome:
  assumes "st = build_tasks address 0 cs ([], None)" "fst st \<noteq> []" "race_reachable (race_start sock st) s" "race_ended s"
    "race_select (rs_tasks s) None (rs_destroyed s) = (selected, destroyed)"
  shows "(selected = None \<longleftrightarrow> rc_succeeded (rs_race s) = 0) \<and>
    (case selected of
       None \<Rightarrow> rc_best_rank (rs_race s) = None
     | Some (k, c, a, r) \<Rightarrow> r < length cs \<and> cs ! r = c \<and> address c = Some a \<and> rc_best_rank (rs_race s) = Some r \<and>
         (\<forall>t \<in> set (rs_tasks s). tk_result t \<noteq> None \<longrightarrow> r \<le> the (tk_rank t))) \<and>
    distinct (rs_created s) \<and> distinct destroyed \<and>
    set (rs_created s) = set destroyed \<union> fst ` set_option selected \<and> set destroyed \<inter> fst ` set_option selected = {}"
proof -
  note started = race_started [OF assms(1-3)]
  have tasks: "\<forall>t \<in> set (rs_tasks s). task_ok t \<and> tk_phase t = Done" using started(1) assms(4) by (simp add: race_inv_def race_ended_def)
  have won: "won t (the (tk_rank t))" if "t \<in> set (rs_tasks s)" "tk_result t \<noteq> None" for t
    using tasks that by (auto simp: won_def task_ok_def tk_rank_def)
  have best: "best_ok (rc_best_rank (rs_race s)) (rs_tasks s)" using started(1) by (simp add: race_inv_def)
  note sel = race_select_correct [OF tasks assms(5)]
  have all: "mset (rs_created s) = mset (opt_list (map_option fst selected)) + mset destroyed" "distinct (rs_created s)"
    using sel started(1) by (simp_all add: race_inv_def add.commute)
  then have "distinct (opt_list (map_option fst selected) @ destroyed)" "set (rs_created s) = set (opt_list (map_option fst selected) @ destroyed)"
    by (metis mset_append mset_eq_imp_distinct_iff, metis mset_append mset_eq_setD)
  moreover have "set (opt_list (map_option fst selected)) = fst ` set_option selected" by (cases selected) auto
  moreover have "selected = None \<longleftrightarrow> rc_succeeded (rs_race s) = 0"
    using sel started(3) by (simp add: filter_empty_conv)
  moreover have "case selected of
       None \<Rightarrow> rc_best_rank (rs_race s) = None
     | Some (k, c, a, r) \<Rightarrow> r < length cs \<and> cs ! r = c \<and> address c = Some a \<and> rc_best_rank (rs_race s) = Some r \<and>
         (\<forall>t \<in> set (rs_tasks s). tk_result t \<noteq> None \<longrightarrow> r \<le> the (tk_rank t))"
  proof (cases selected)
    case None
    then have "\<forall>t \<in> set (rs_tasks s). tk_result t = None" using sel by simp
    then show ?thesis using None best by (auto simp: best_ok_def won_def split: option.splits)
  next
    case (Some x)
    obtain k c a r where x: "x = (k, c, a, r)" by (metis prod_cases4)
    then obtain t where t: "t \<in> set (rs_tasks s)" "tk_result t = Some k" "tk_selected t = Some (c, a, r)"
      using sel Some by auto
    then have "(c, a, r) \<in> set (tk_attempts t)" using tasks by (auto simp: task_ok_def)
    then have "(c, a, r) \<in> set (concat (map tk_attempts (rs_tasks s)))" using t(1) by auto
    then have "(c, a, r) \<in> set (numbered_attempts address 0 cs)" using started(2,4) by (metis mset_eq_setD)
    moreover have wt: "won t r" using won [OF t(1)] t by (simp add: tk_rank_def)
    moreover have least: "r \<le> q" if "u \<in> set (rs_tasks s)" "won u q" for u q
      using sel Some x that by (auto simp: selected_rank_def)
    moreover have "rc_best_rank (rs_race s) = Some r"
      using best t(1) wt least by (fastforce simp: best_ok_def split: option.splits)
    ultimately show ?thesis using Some x won by (auto simp: numbered_attempts_nth)
  qed
  ultimately show ?thesis using all(2) by auto
qed

text \<open>A race of one candidate, and its run to the end.\<close>

definition demo_candidate :: socket_direct_candidate where
  "demo_candidate = \<lparr>cd_host = [49, 58, 58], cd_port = 1730, cd_kind = SOCKET_CANDIDATE_DIRECTORY\<rparr>"

definition demo_race :: "nat attempt list list \<times> nat option" where
  "demo_race = build_tasks (\<lambda>c. Some 7) 0 [demo_candidate] ([], None)"

definition demo_ended :: "nat race_state" where
  "demo_ended =
     \<lparr>rs_tasks = [\<lparr>tk_attempts = [(demo_candidate, 7, 0)], tk_socket = None, tk_result = Some 5, tk_selected = Some (demo_candidate, 7, 0),
         tk_phase = Done\<rparr>],
      rs_race = \<lparr>rc_completed = 1, rc_best_rank = Some 0, rc_attempted = 1, rc_succeeded = 1, rc_failed = 0, rc_total_handshake_ms = 5,
         rc_maximum_handshake_ms = 5, rc_first_success_ms = 9, rc_cancelled = True\<rparr>,
      rs_joining = True, rs_created = [5], rs_destroyed = []\<rparr>"

lemma demo_race_run: "fst demo_race \<noteq> [] \<and> race_reachable (race_start 5 demo_race) demo_ended"
proof -
  have demo: "demo_race = ([[(demo_candidate, 7, 0)]], None)" by (simp add: demo_race_def demo_candidate_def socket_quic_candidate_is_nat_def)
  have init: "initial_socket_task demo_race = 0" by (simp add: demo initial_socket_task_def demo_candidate_def)
  note step = rtranclp.rtrancl_into_rtrancl [of race_step]
  let ?s0 = "race_start 5 demo_race"
  let ?s1 = "race_task 0 ((rs_tasks ?s0 ! 0)\<lparr>tk_phase := Handshaking 0\<rparr>) ?s0"
  let ?t1 = "rs_tasks ?s1 ! 0"
  let ?s2 = "(race_task 0 (?t1\<lparr>tk_phase := Finishing, tk_result := tk_socket ?t1, tk_socket := None, tk_selected := Some (tk_attempts ?t1 ! 0)\<rparr>) ?s1)
      \<lparr>rs_race := handshake_ended True 5 (rs_race ?s1)\<rparr>"
  let ?t2 = "rs_tasks ?s2 ! 0"
  let ?s3 = "(race_task 0 (?t2\<lparr>tk_phase := Done, tk_socket := None\<rparr>) ?s2)
      \<lparr>rs_race := socket_quic_candidate_finished 9 ?t2 (rs_race ?s2),
       rs_destroyed := (case tk_socket ?t2 of None \<Rightarrow> [] | Some k \<Rightarrow> [k]) @ rs_destroyed ?s2\<rparr>"
  let ?s4 = "?s3\<lparr>rs_joining := True, rs_race := (rs_race ?s3)\<lparr>rc_cancelled := rc_best_rank (rs_race ?s3) \<noteq> None\<rparr>\<rparr>"
  have start: "?s0 = \<lparr>rs_tasks = [\<lparr>tk_attempts = [(demo_candidate, 7, 0)], tk_socket = Some 5, tk_result = None, tk_selected = None, tk_phase = Checking 0\<rparr>],
      rs_race = \<lparr>rc_completed = 0, rc_best_rank = None, rc_attempted = 0, rc_succeeded = 0, rc_failed = 0,
        rc_total_handshake_ms = 0, rc_maximum_handshake_ms = 0, rc_first_success_ms = 0, rc_cancelled = False\<rparr>,
      rs_joining = False, rs_created = [5], rs_destroyed = []\<rparr>"
    using init by (simp add: race_start_def demo)
  note evals = start race_task_def handshake_ended_def socket_quic_candidate_finished_def better_rank_def tk_rank_def
  have "race_reachable ?s0 ?s0" by simp
  then have "race_reachable ?s0 ?s1"
    by (rule step) (rule race_step.thread [OF thread_step.old_socket [where k = 0 and i = 0]]; simp add: evals)
  then have "race_reachable ?s0 ?s2"
    by (rule step) (rule race_step.thread [OF thread_step.success [where k = 0 and i = 0]]; simp add: evals)
  then have "race_reachable ?s0 ?s3"
    by (rule step) (rule race_step.thread [OF thread_step.finish [where i = 0]]; simp add: evals)
  then have "race_reachable ?s0 ?s4"
    by (rule step) (rule race_step.join [where now = 9]; simp add: evals race_over_def)
  moreover have "?s4 = demo_ended" by (simp add: evals demo_ended_def)
  ultimately show ?thesis by (simp add: demo)
qed

theorem race_outcome_witness:
  "fst demo_race \<noteq> [] \<and> race_reachable (race_start 5 demo_race) demo_ended \<and> race_ended demo_ended \<and>
   race_select (rs_tasks demo_ended) None (rs_destroyed demo_ended) = (Some (5, demo_candidate, 7, 0), []) \<and>
   rc_best_rank (rs_race demo_ended) = Some 0 \<and> set (rs_created demo_ended) = {5}"
proof -
  have run: "fst demo_race \<noteq> []" "race_reachable (race_start 5 demo_race) demo_ended" using demo_race_run by auto
  have ended: "race_ended demo_ended" by (simp add: race_ended_def demo_ended_def)
  have sel: "race_select (rs_tasks demo_ended) None (rs_destroyed demo_ended) = (Some (5, demo_candidate, 7, 0), [])"
    by (simp add: demo_ended_def)
  show ?thesis using race_outcome [OF demo_race_def run ended sel] run ended sel by simp
qed


section \<open>Termination\<close>

definition thread_left :: "'a candidate_task \<Rightarrow> nat" where
  "thread_left t = (case tk_phase t of
     Checking k \<Rightarrow> 2 * (length (tk_attempts t) - k) + 2
   | Handshaking k \<Rightarrow> 2 * (length (tk_attempts t) - k) + 1
   | Finishing \<Rightarrow> 1
   | Done \<Rightarrow> 0)"

definition race_left :: "'a race_state \<Rightarrow> nat" where
  "race_left s = sum_list (map thread_left (rs_tasks s)) + (if rs_joining s then 0 else 1)"

lemma sum_list_update_less:
  fixes f :: "'b \<Rightarrow> nat"
  assumes "i < length xs" "f y < f (xs ! i)"
  shows "sum_list (map f (xs[i := y])) < sum_list (map f xs)"
  using assms
proof (induction xs arbitrary: i)
  case (Cons x xs)
  then show ?case by (cases i) auto
qed simp

lemma race_step_decreases:
  assumes "race_step s s'" "race_inv s"
  shows "race_left s' < race_left s"
  using assms(1)
proof cases
  case (thread i)
  have ok: "task_ok (rs_tasks s ! i)" if "i < length (rs_tasks s)" using assms(2) that by (simp add: race_inv_def)
  from thread show ?thesis
    by cases (use ok in \<open>auto simp: race_left_def race_task_def task_ok_def thread_left_def intro!: sum_list_update_less\<close>)
qed (simp add: race_left_def)

lemma race_step_enabled:
  assumes "race_inv s" "\<not> race_ended s"
  shows "\<exists>s'. race_step s s'"
proof (cases "\<exists>i < length (rs_tasks s). tk_phase (rs_tasks s ! i) \<noteq> Done")
  case True
  then obtain i where i: "i < length (rs_tasks s)" "tk_phase (rs_tasks s ! i) \<noteq> Done" by blast
  then have ok: "task_ok (rs_tasks s ! i)" using assms(1) by (simp add: race_inv_def)
  have "\<exists>s'. thread_step i s s'"
  proof (cases "tk_phase (rs_tasks s ! i)")
    case (Checking k)
    then have "k \<le> length (tk_attempts (rs_tasks s ! i))" using ok by (simp add: task_ok_def)
    then show ?thesis using thread_step.stop [OF i(1) refl Checking] thread_step.no_socket [OF i(1) refl Checking]
        thread_step.old_socket [OF i(1) refl Checking] by (metis le_neq_implies_less)
  next
    case (Handshaking k)
    then show ?thesis using thread_step.failure [OF i(1) refl Handshaking] by blast
  next
    case Finishing
    then show ?thesis using thread_step.finish [OF i(1) refl Finishing] by blast
  qed (use i in simp)
  then show ?thesis using race_step.thread by blast
next
  case False
  then have over: "\<forall>t \<in> set (rs_tasks s). tk_phase t = Done" by (metis in_set_conv_nth)
  then have "rc_completed (rs_race s) = length (rs_tasks s)" using assms(1) by (simp add: race_inv_def)
  moreover have "\<not> rs_joining s" using assms(2) over by (simp add: race_ended_def)
  ultimately show ?thesis using race_step.join [of s 0] by (auto simp: race_over_def)
qed

lemma sum_twice: "(\<Sum>x\<leftarrow>xss. 2 * length x + 2) = 2 * length (concat xss) + 2 * length xss"
  by (induction xss) simp_all

text \<open>C38. A race ends: no run of it, however the threads are scheduled and whatever the handshakes
  return, is longer than two steps for each candidate and two for each task and one more, and a
  run that has not ended can always go on.\<close>

theorem race_terminates:
  assumes "st = build_tasks address 0 cs ([], None)" "fst st \<noteq> []" "(race_step ^^ n) (race_start sock st) s"
  shows "n \<le> 2 * length (numbered_attempts address 0 cs) + 2 * length (fst st) + 1 \<and> (race_ended s \<or> (\<exists>s'. race_step s s'))"
proof -
  have inv: "race_inv (race_start sock st)" by (rule race_started(1) [OF assms(1,2) rtranclp.rtrancl_refl])
  have run: "race_inv u \<and> m + race_left u \<le> race_left (race_start sock st)" if "(race_step ^^ m) (race_start sock st) u" for m u
    using that
  proof (induction m arbitrary: u)
    case (Suc m)
    then obtain v where v: "(race_step ^^ m) (race_start sock st) v" "race_step v u" by auto
    then show ?case using Suc.IH [OF v(1)] race_step_inv [OF v(2)] race_step_decreases [OF v(2)] by simp
  qed (use inv in simp)
  have "race_left (race_start sock st) = (\<Sum>x\<leftarrow>fst st. 2 * length x + 2) + 1"
    by (simp add: race_left_def race_start_def comp_def thread_left_def interv_sum_list_conv_sum_set_nat sum_list_sum_nth atLeast0LessThan)
  also have "(\<Sum>x\<leftarrow>fst st. 2 * length x + 2) = 2 * length (concat (fst st)) + 2 * length (fst st)"
    by (rule sum_twice)
  also have "length (concat (fst st)) = length (numbered_attempts address 0 cs)"
    using race_started(4) [OF assms(1,2) rtranclp.rtrancl_refl] by (metis size_mset)
  finally show ?thesis using run [OF assms(3)] race_step_enabled [of s] by auto
qed

theorem race_terminates_witness:
  "fst demo_race \<noteq> [] \<and> (race_step ^^ 0) (race_start 5 demo_race) (race_start 5 demo_race) \<and> (\<exists>s'. race_step (race_start 5 demo_race) s')"
proof -
  have run: "fst demo_race \<noteq> []" "(race_step ^^ 0) (race_start 5 demo_race) (race_start 5 demo_race)" using demo_race_run by auto
  have "\<not> race_ended (race_start 5 demo_race)" by (simp add: race_ended_def race_start_def)
  then show ?thesis using race_terminates [OF demo_race_def run] run by simp
qed


section \<open>Order of the candidates\<close>

text \<open>The place of a kind: addresses of the local network and IPv6 first, within each group the
  preferred kind first, then as the enumeration has them.\<close>

fun kind_code :: "socket_candidate_kind \<Rightarrow> nat" where
  "kind_code SOCKET_CANDIDATE_LAN = 0"
| "kind_code SOCKET_CANDIDATE_IPV6 = 1"
| "kind_code SOCKET_CANDIDATE_PRFLX = 2"
| "kind_code SOCKET_CANDIDATE_MAPPED = 3"
| "kind_code SOCKET_CANDIDATE_SRFLX = 4"
| "kind_code SOCKET_CANDIDATE_DIRECTORY = 5"
| "kind_code SOCKET_CANDIDATE_NUM = 6"

definition kind_place :: "socket_connection_preference \<Rightarrow> socket_candidate_kind \<Rightarrow> nat" where
  "kind_place preference k =
     (if kind_code k < 2 then 0 else 20) + (if k = socket_quic_preference_kind preference then 0 else 10) + kind_code k"

definition buckets :: "('a \<Rightarrow> 'b) \<Rightarrow> 'b list \<Rightarrow> 'a list \<Rightarrow> 'a list" where
  "buckets g ps xs = concat (map (\<lambda>p. filter (\<lambda>x. g x = p) xs) ps)"

lemma buckets_filter:
  assumes "distinct ps"
  shows "filter (\<lambda>x. g x = q) (buckets g ps xs) = (if q \<in> set ps then filter (\<lambda>x. g x = q) xs else [])"
  using assms by (induction ps) (auto simp: buckets_def filter_empty_conv intro: filter_cong)

lemma buckets_set: "\<forall>x \<in> set xs. g x \<in> set ps \<Longrightarrow> set (buckets g ps xs) = set xs"
  by (auto simp: buckets_def)

lemma buckets_mset:
  assumes "distinct ps" "\<forall>x \<in> set xs. g x \<in> set ps"
  shows "mset (buckets g ps xs) = mset xs"
proof (rule multiset_eqI)
  fix x
  have cnt: "count (mset zs) x = length (filter (\<lambda>y. y = x) (filter (\<lambda>y. g y = g x) zs))" for zs by (induction zs) auto
  show "count (mset (buckets g ps xs)) x = count (mset xs) x"
  proof (cases "x \<in> set xs")
    case True
    then show ?thesis using cnt [of xs] cnt [of "buckets g ps xs"] buckets_filter [OF assms(1), of g "g x" xs] assms(2) by simp
  next
    case False
    then show ?thesis using buckets_set [OF assms(2)] by (metis count_mset_0_iff)
  qed
qed

lemma buckets_sorted:
  fixes f :: "'b \<Rightarrow> nat"
  assumes "sorted_wrt (\<lambda>p q. f p < f q) ps"
  shows "sorted (map (\<lambda>x. f (g x)) (buckets g ps xs))"
  using assms
proof (induction ps)
  case (Cons p ps)
  have "sorted (map (\<lambda>x. f (g x)) (filter (\<lambda>x. g x = p) xs))" by (induction xs) auto
  then show ?case using Cons by (auto simp: buckets_def sorted_append less_imp_le)
qed (simp add: buckets_def)

lemma buckets_sort:
  fixes f :: "'b \<Rightarrow> nat"
  assumes "sorted_wrt (\<lambda>p q. f p < f q) ps" "\<forall>x \<in> set xs. g x \<in> set ps"
  shows "buckets g ps xs = sort_key (\<lambda>x. f (g x)) xs"
proof -
  have inj: "p = q" if "f p = f q" "p \<in> set ps" "q \<in> set ps" for p q
    using assms(1) that by (metis in_set_conv_nth linorder_neqE_nat order_less_irrefl sorted_wrt_nth_less)
  have dist: "distinct ps" using assms(1) by (induction ps) auto
  have same: "filter (\<lambda>x. f (g k) = f (g x)) zs = filter (\<lambda>x. g x = g k) zs" if "k \<in> set xs" "set zs \<subseteq> set xs" for k zs
    using that inj assms(2) by (intro filter_cong refl) (metis subsetD)
  have "filter (\<lambda>x. f (g k) = f (g x)) (buckets g ps xs) = filter (\<lambda>x. f (g k) = f (g x)) xs" if "k \<in> set (buckets g ps xs)" for k
    using that same buckets_set [OF assms(2)] buckets_filter [OF dist, of g "g k" xs] assms(2) by simp
  then show ?thesis
    using properties_for_sort_key [of "buckets g ps xs" xs "\<lambda>x. f (g x)"] buckets_mset [OF dist assms(2)] buckets_sorted [OF assms(1)] by metis
qed

text \<open>C39. The order in which the candidates are ranked is a stable sort by a fixed place: LAN and IPv6
  candidates before all others, within each of the two groups those of the preferred kind first and
  the rest in the order of the enumeration, and candidates of one kind as they were received. The
  loops over the priorities lose no candidate and repeat none.\<close>

theorem candidate_order:
  assumes "\<forall>c \<in> set candidates. cd_kind c \<noteq> SOCKET_CANDIDATE_NUM"
  shows "ordered_candidates (socket_quic_preference_kind preference) candidates = sort_key (\<lambda>c. kind_place preference (cd_kind c)) candidates"
proof -
  let ?ps = "ordered_priorities (socket_quic_preference_kind preference)"
  have sorted: "sorted_wrt (\<lambda>p q. kind_place preference p < kind_place preference q) ?ps"
    by (cases preference) (simp_all add: kind_place_def ordered_priorities_def priorities_def kind_reflexive_def numeral_2_eq_2)
  have "k \<in> set ?ps" if "k \<noteq> SOCKET_CANDIDATE_NUM" for k
    using that by (cases k; cases preference) (simp_all add: ordered_priorities_def priorities_def kind_reflexive_def numeral_2_eq_2)
  then have "\<forall>c \<in> set candidates. cd_kind c \<in> set ?ps" using assms by blast
  from buckets_sort [OF sorted this] show ?thesis by (simp add: ordered_candidates_def buckets_def)
qed

theorem candidate_order_witness:
  "(let lan = demo_candidate\<lparr>cd_kind := SOCKET_CANDIDATE_LAN\<rparr>; mapped = demo_candidate\<lparr>cd_kind := SOCKET_CANDIDATE_MAPPED\<rparr>;
        srflx = demo_candidate\<lparr>cd_kind := SOCKET_CANDIDATE_SRFLX\<rparr>
    in ordered_candidates (socket_quic_preference_kind SOCKET_CONNECTION_PREFERENCE_SRFLX) [demo_candidate, mapped, srflx, lan] =
       [lan, srflx, mapped, demo_candidate])"
proof -
  have kinds: "\<forall>c \<in> set [demo_candidate, demo_candidate\<lparr>cd_kind := SOCKET_CANDIDATE_MAPPED\<rparr>, demo_candidate\<lparr>cd_kind := SOCKET_CANDIDATE_SRFLX\<rparr>,
      demo_candidate\<lparr>cd_kind := SOCKET_CANDIDATE_LAN\<rparr>]. cd_kind c \<noteq> SOCKET_CANDIDATE_NUM"
    by (simp add: demo_candidate_def)
  show ?thesis
    unfolding Let_def candidate_order [OF kinds, of SOCKET_CONNECTION_PREFERENCE_SRFLX] by (simp add: kind_place_def demo_candidate_def)
qed

end
