(* ===== verification/Quic_Peer.thy ===== *)
theory Quic_Peer
  imports Streams Quic_Race Password
begin

text \<open>
  The client's handshake and the timers of \<open>src/socket_quic.c\<close>. OpenSSL is an argument: the
  digest of a certificate, the certificate of the peer, the answer and the time of each attempt
  to connect, whether data is buffered and when the next event is due.
\<close>

section \<open>Fingerprints\<close>

definition SHA256_DIGEST_LENGTH :: nat where "SHA256_DIGEST_LENGTH = 32"

text \<open>\<open>strcasecmp(a, b) == 0\<close>.\<close>

definition c_same_text :: "bytes \<Rightarrow> bytes \<Rightarrow> bool" where
  "c_same_text a b \<longleftrightarrow> map c_tolower a = map c_tolower b"

definition socket_quic_check_fingerprint :: "('c \<Rightarrow> bytes option) \<Rightarrow> 'c option \<Rightarrow> bytes option \<Rightarrow> bool" where
  "socket_quic_check_fingerprint digest cert expected =
     (if \<not> string_is_hex_fixed expected (SHA256_DIGEST_LENGTH * 2) False then False
      else case cert of
        None \<Rightarrow> False
      | Some c \<Rightarrow> (case digest c of
          None \<Rightarrow> False
        | Some d \<Rightarrow> length d = SHA256_DIGEST_LENGTH \<and>
            c_same_text (snd (string_tohex d (SHA256_DIGEST_LENGTH * 2 + 1) False)) (the expected)))"

text \<open>The fingerprint that a listener publishes, or a connection shows of its peer.\<close>

definition socket_certificate_sha256 :: "('c \<Rightarrow> bytes option) \<Rightarrow> socket_transport \<Rightarrow> 'c option \<Rightarrow> 'c option \<Rightarrow> bytes option" where
  "socket_certificate_sha256 digest transport own peer =
     (case (case transport of
          SOCKET_TRANSPORT_QUIC_LISTENER \<Rightarrow> own
        | SOCKET_TRANSPORT_QUIC_CONNECTION \<Rightarrow> peer
        | SOCKET_TRANSPORT_TCP \<Rightarrow> None) of
        None \<Rightarrow> None
      | Some c \<Rightarrow> (case digest c of
          None \<Rightarrow> None
        | Some d \<Rightarrow>
            if length d \<noteq> SHA256_DIGEST_LENGTH then None
            else let (n, fingerprint) = string_tohex d 65 False
              in if n \<noteq> 64 then None else Some (string_tolower fingerprint)))"


section \<open>Handshake\<close>

datatype connect_answer = Connect_done | Connect_want | Connect_error

text \<open>What one round of the loop meets: whether the race was cancelled, the answer of
  \<open>SSL_connect\<close>, the clock after it, and whether \<open>socket_quic_wait\<close> succeeds.\<close>

type_synonym connect_round = "bool \<times> connect_answer \<times> u64 \<times> bool"

text \<open>The value is \<open>None\<close> as long as the loop goes on.\<close>

fun handshake_loop :: "u64 \<Rightarrow> connect_round list \<Rightarrow> bool option" where
  "handshake_loop deadline [] = None"
| "handshake_loop deadline ((cancelled, answer, now, waited) # rounds) =
     (if cancelled then Some False
      else case answer of
        Connect_done \<Rightarrow> Some True
      | Connect_error \<Rightarrow> Some False
      | Connect_want \<Rightarrow> if now \<ge> deadline \<or> \<not> waited then Some False else handshake_loop deadline rounds)"

text \<open>Left-over probes are taken off the socket; the argument is what \<open>recv\<close> returns.\<close>

fun drain_probes :: "nat \<Rightarrow> int list \<Rightarrow> int list" where
  "drain_probes 0 received = received"
| "drain_probes (Suc n) [] = []"
| "drain_probes (Suc n) (r # received) = (if r \<le> 0 then received else drain_probes n received)"

definition socket_quic_client_handshake ::
  "('c \<Rightarrow> bytes option) \<Rightarrow> bool \<Rightarrow> int list \<Rightarrow> bool \<Rightarrow> bool \<Rightarrow> u64 \<Rightarrow> u64 \<Rightarrow> connect_round list \<Rightarrow> 'c option \<Rightarrow> bytes option \<Rightarrow> bytes option \<Rightarrow>
   sock_struct \<Rightarrow> (bool \<times> int list \<times> sock_struct) option" where
  "socket_quic_client_handshake digest connected received made configured start timeout_ms rounds cert certificate_sha256 material sc =
     (if \<not> connected then Some (False, received, sc)
      else let received = drain_probes SOCKET_PUNCH_DRAIN_MAX received;
               sc = sc\<lparr>sc_quic := made\<rparr>
        in if \<not> made \<or> \<not> configured then Some (False, received, sc)
           else case handshake_loop (start + timeout_ms) rounds of
               None \<Rightarrow> None
             | Some False \<Rightarrow> Some (False, received, sc)
             | Some True \<Rightarrow>
                 if \<not> socket_quic_check_fingerprint digest cert certificate_sha256 then Some (False, received, sc)
                 else let (ok, sc) = socket_connection_id_export material sc in Some (ok, received, sc))"


section \<open>Timers\<close>

text \<open>The timeout of OpenSSL in seconds and microseconds; \<open>None\<close> if there is none.\<close>

definition socket_quic_schedule_event :: "(u64 \<times> u64) option \<Rightarrow> u64 \<Rightarrow> u64" where
  "socket_quic_schedule_event timeout now = (case timeout of
     None \<Rightarrow> - 1
   | Some (sec, usec) \<Rightarrow> now + (sec * 1000 + usec div 1000))"

definition socket_quic_timeout :: "socket_transport \<Rightarrow> u64 \<Rightarrow> u64 \<Rightarrow> u32 \<Rightarrow> u32" where
  "socket_quic_timeout transport deadline now maximum_ms =
     (if transport \<noteq> SOCKET_TRANSPORT_QUIC_CONNECTION \<or> deadline = - 1 then maximum_ms
      else if deadline = 0 \<or> deadline \<le> now then 0
      else let delay = deadline - now in if delay < ucast maximum_ms then ucast delay else maximum_ms)"

text \<open>Whether the caller should read and write, and the new deadline. Buffered data is asked for
  before and after the events are handled.\<close>

definition socket_quic_service ::
  "socket_transport \<Rightarrow> bool \<Rightarrow> bool \<Rightarrow> u64 \<Rightarrow> bool \<Rightarrow> bool \<Rightarrow> bool \<Rightarrow> (u64 \<times> u64) option \<Rightarrow> u64 \<Rightarrow> u64 \<Rightarrow> bool \<times> u64" where
  "socket_quic_service transport network_ready app_write_pending now buffered events_ok buffered_after timeout later deadline =
     (if transport \<noteq> SOCKET_TRANSPORT_QUIC_CONNECTION then (network_ready \<or> app_write_pending, deadline)
      else let timer_due = (deadline = 0 \<or> (deadline \<noteq> - 1 \<and> now \<ge> deadline))
        in if \<not> network_ready \<and> \<not> buffered \<and> \<not> app_write_pending \<and> \<not> timer_due then (False, deadline)
           else if \<not> events_ok then (True, deadline)
           else (network_ready \<or> buffered \<or> app_write_pending \<or> timer_due \<or> buffered_after, socket_quic_schedule_event timeout later))"


section \<open>Names\<close>

fun preference_index :: "socket_connection_preference \<Rightarrow> nat" where
  "preference_index SOCKET_CONNECTION_PREFERENCE_AUTO = 0"
| "preference_index SOCKET_CONNECTION_PREFERENCE_LAN = 1"
| "preference_index SOCKET_CONNECTION_PREFERENCE_IPV6 = 2"
| "preference_index SOCKET_CONNECTION_PREFERENCE_MAPPED = 3"
| "preference_index SOCKET_CONNECTION_PREFERENCE_SRFLX = 4"
| "preference_index SOCKET_CONNECTION_PREFERENCE_DIRECTORY = 5"
| "preference_index SOCKET_CONNECTION_PREFERENCE_NUM = 6"

definition preference_names :: "string list" where
  "preference_names = [''Automatic'', ''Local network (LAN)'', ''Native IPv6'', ''Router port mapping'', ''NAT traversal (STUN)'',
     ''Directory address'']"

definition socket_connection_preference_name :: "socket_connection_preference \<Rightarrow> string" where
  "socket_connection_preference_name preference =
     (if preference_index preference \<ge> 6 then preference_names ! 0 else preference_names ! preference_index preference)"

definition mode_names :: "(socket_connection_mode \<times> string) list" where
  "mode_names = [(SOCKET_CONNECTION_MODE_QUIC, ''QUIC''), (SOCKET_CONNECTION_MODE_QUIC_LAN, ''QUIC/LAN''), (SOCKET_CONNECTION_MODE_QUIC_IPV6, ''QUIC/IPv6''),
     (SOCKET_CONNECTION_MODE_QUIC_MAPPED, ''QUIC/mapped''), (SOCKET_CONNECTION_MODE_QUIC_SRFLX, ''QUIC/STUN''), (SOCKET_CONNECTION_MODE_QUIC_DIRECTORY, ''QUIC/directory'')]"

definition socket_connection_mode_name :: "socket_connection_mode \<Rightarrow> string" where
  "socket_connection_mode_name mode =
     (if mode = SOCKET_CONNECTION_MODE_INTERNAL then ''internal''
      else case map_of mode_names mode of None \<Rightarrow> ''unknown'' | Some name \<Rightarrow> name)"

definition socket_is_quic :: "sock_struct \<Rightarrow> bool" where
  "socket_is_quic sc \<longleftrightarrow> sc_transport sc \<noteq> SOCKET_TRANSPORT_TCP"


section \<open>Authentication\<close>

lemma tolower_upper_digit:
  assumes "d < 16"
  shows "c_tolower (hex_digit_upper d) = hex_digit_lower d"
  by (rule nibble_cases [OF _ assms]) code_simp

lemma tolower_hex_text: "map c_tolower (hex_text False d) = hex_lower d"
  by (induction d) (simp_all add: hex_lower_def tolower_upper_digit nibble_less)

lemma tolower_idem: "c_tolower (c_tolower c) = c_tolower c"
proof (cases "c_isupper c")
  case True
  then have "unat c + 32 < 256" "65 \<le> unat c" "unat c \<le> 90" by (simp_all add: c_isupper_def word_le_nat_alt)
  then have "unat (c + 32) = unat c + 32" by (simp add: unat_word_ariths)
  then show ?thesis using True \<open>65 \<le> unat c\<close> by (simp add: c_tolower_def c_isupper_def word_le_nat_alt)
qed (simp add: c_tolower_def)

lemma tolower_fixed_char:
  assumes "hex_fixed_char False c"
  shows "hex_fixed_char True (c_tolower c)" "hex_nibble (c_tolower c) = hex_nibble c"
proof -
  have bounds: "(48 \<le> unat c \<and> unat c \<le> 57) \<or> (65 \<le> unat c \<and> unat c \<le> 70) \<or> (97 \<le> unat c \<and> unat c \<le> 102)"
    using assms by (auto simp: hex_fixed_char_def word_le_nat_alt)
  have upper: "unat (c + 32) = unat c + 32" if "unat c \<le> 90" using that by (simp add: unat_word_ariths)
  show "hex_fixed_char True (c_tolower c)"
    using bounds upper by (auto simp: hex_fixed_char_def c_tolower_def c_isupper_def word_le_nat_alt)
  have "c_tolower c \<le> 57 \<longleftrightarrow> c \<le> 57" "c \<le> 57 \<Longrightarrow> c_tolower c = c"
    using bounds upper by (auto simp: c_tolower_def c_isupper_def word_le_nat_alt)
  then show "hex_nibble (c_tolower c) = hex_nibble c" by (auto simp: hex_nibble_def tolower_idem)
qed

lemma decode_tolower: "list_all (hex_fixed_char False) s \<Longrightarrow> decode_pairs (map c_tolower s) = decode_pairs s"
  by (induction s rule: decode_pairs.induct) (simp_all add: tolower_fixed_char)

lemma fingerprint_check:
  assumes "length d = SHA256_DIGEST_LENGTH" "string_is_hex_fixed (Some s) (SHA256_DIGEST_LENGTH * 2) False"
  shows "c_same_text (snd (string_tohex d (SHA256_DIGEST_LENGTH * 2 + 1) False)) s \<longleftrightarrow> decode_pairs s = d"
proof -
  have s: "length s = 64" "list_all (hex_fixed_char False) s" using assms(2) by (auto simp: string_is_hex_fixed_def SHA256_DIGEST_LENGTH_def split: if_splits)
  have low: "list_all (hex_fixed_char True) (map c_tolower s)" using s(2) by (auto simp: list_all_iff tolower_fixed_char)
  have "snd (string_tohex d (SHA256_DIGEST_LENGTH * 2 + 1) False) = hex_text False d"
    using tohex_plain [of "[]" d 65] assms(1) by (simp add: string_tohex_def SHA256_DIGEST_LENGTH_def Let_def)
  then have "c_same_text (snd (string_tohex d (SHA256_DIGEST_LENGTH * 2 + 1) False)) s \<longleftrightarrow> hex_lower d = map c_tolower s"
    by (simp add: c_same_text_def tolower_hex_text)
  also have "\<dots> \<longleftrightarrow> decode_pairs s = d"
  proof
    assume "hex_lower d = map c_tolower s"
    then show "decode_pairs s = d" using decode_pairs_lower [of d] decode_tolower [OF s(2)] by simp
  next
    assume "decode_pairs s = d"
    then show "hex_lower d = map c_tolower s" using lower_decode_pairs [OF _ low] decode_tolower [OF s(2)] s(1) by simp
  qed
  finally show ?thesis .
qed

lemma length_decode_pairs: "length (decode_pairs s) = length s div 2"
  by (induction s rule: decode_pairs.induct) simp_all

text \<open>The check against a reference: the text decodes to the digest.\<close>

lemma check_fingerprint_decodes:
  "socket_quic_check_fingerprint digest cert expected \<longleftrightarrow>
   (\<exists>c d. cert = Some c \<and> digest c = Some d \<and> string_decode_hex_fixed expected 64 False 32 = Some d)"
proof (cases "string_is_hex_fixed expected 64 False")
  case True
  then obtain s where s: "expected = Some s" by (cases expected) (auto simp: string_is_hex_fixed_def)
  then have "length s = 2 * 32" using True by (auto simp: string_is_hex_fixed_def split: if_splits)
  from decode_pairs_nth [OF this] have dec: "string_decode_hex_fixed expected 64 False 32 = Some (decode_pairs s)"
    using True s by (simp add: string_decode_hex_fixed_def)
  have len: "length (decode_pairs s) = 32" using \<open>length s = 2 * 32\<close> by (simp add: length_decode_pairs)
  show ?thesis
    unfolding dec using fingerprint_check [of _ s] True s len
    by (auto simp: socket_quic_check_fingerprint_def SHA256_DIGEST_LENGTH_def split: option.splits)
qed (simp add: socket_quic_check_fingerprint_def string_decode_hex_fixed_def SHA256_DIGEST_LENGTH_def)

lemma published_decodes:
  assumes "socket_certificate_sha256 digest transport own peer = Some fp"
  shows "\<exists>c d. (transport = SOCKET_TRANSPORT_QUIC_LISTENER \<longrightarrow> own = Some c) \<and> digest c = Some d \<and>
    string_decode_hex_fixed (Some fp) 64 True 32 = Some d \<and> string_decode_hex_fixed (Some fp) 64 False 32 = Some d"
proof -
  obtain c d where c: "transport = SOCKET_TRANSPORT_QUIC_LISTENER \<longrightarrow> own = Some c" "digest c = Some d" "length d = 32"
    "fp = string_tolower (snd (string_tohex d 65 False))"
    using assms by (fastforce simp: socket_certificate_sha256_def SHA256_DIGEST_LENGTH_def Let_def
        split: option.splits socket_transport.splits if_splits prod.splits)
  have "fp = hex_lower d" using c(3,4) tohex_plain [of "[]" d 65] by (simp add: string_tohex_def string_tolower_def tolower_hex_text Let_def)
  then have True: "string_decode_hex_fixed (Some fp) 64 True 32 = Some d"
    using c(3) hex_lower_chars(2) [of d] by (simp add: decode_hex_fixed_exact)
  moreover have "string_decode_hex_fixed (Some fp) 64 False 32 = string_decode_hex_fixed (Some fp) 64 True 32"
  proof -
    have "list_all (hex_fixed_char False) fp" using \<open>fp = hex_lower d\<close> hex_lower_chars(1) [of d]
      by (auto simp: list_all_iff hex_fixed_char_def)
    then show ?thesis using \<open>fp = hex_lower d\<close> hex_lower_chars [of d] c(3) by (simp add: string_decode_hex_fixed_def string_is_hex_fixed_def)
  qed
  ultimately show ?thesis using c by auto
qed

text \<open>The identifier of a connection comes from sixteen bytes of keying material.\<close>

lemma connection_id_export_ok:
  assumes "\<forall>m. material = Some m \<longrightarrow> length m = 16"
  shows "fst (socket_connection_id_export material sc) \<longleftrightarrow> material \<noteq> None"
    "sc_connection_id_final (snd (socket_connection_id_export material sc)) \<longleftrightarrow> sc_connection_id_final sc \<or> material \<noteq> None"
  using assms tohex_plain [of "[]" _ 33]
  by (auto simp: socket_connection_id_export_def connection_id_set_def SOCKET_CONNECTION_ID_SIZE_def string_tohex_def length_hex_text Let_def
      split: option.splits)

lemma handshake_cases:
  "socket_quic_client_handshake digest connected received made configured start timeout_ms rounds cert expected material sc = Some (ok, received', sc') \<Longrightarrow>
   ok \<longleftrightarrow> connected \<and> made \<and> configured \<and> handshake_loop (start + timeout_ms) rounds = Some True \<and>
     socket_quic_check_fingerprint digest cert expected \<and> fst (socket_connection_id_export material (sc\<lparr>sc_quic := made\<rparr>))"
  "socket_quic_client_handshake digest connected received made configured start timeout_ms rounds cert expected material sc = Some (ok, received', sc') \<Longrightarrow>
   ok \<Longrightarrow> sc' = snd (socket_connection_id_export material (sc\<lparr>sc_quic := made\<rparr>))"
  "socket_quic_client_handshake digest connected received made configured start timeout_ms rounds cert expected material sc = None \<longleftrightarrow>
   connected \<and> made \<and> configured \<and> handshake_loop (start + timeout_ms) rounds = None"
  by (auto simp: socket_quic_client_handshake_def Let_def split: if_splits option.splits bool.splits prod.splits)

text \<open>When the loop succeeds, in terms of its rounds alone: the connection is established in some
  round that is not cancelled, and every round before it was not cancelled, was told to wait,
  saw the clock before the deadline and could wait.\<close>

definition round_waits :: "u64 \<Rightarrow> connect_round \<Rightarrow> bool" where
  "round_waits deadline r \<longleftrightarrow> (\<exists>now < deadline. r = (False, Connect_want, now, True))"

definition established :: "u64 \<Rightarrow> connect_round list \<Rightarrow> bool" where
  "established deadline rounds \<longleftrightarrow>
     (\<exists>before now waited after. rounds = before @ (False, Connect_done, now, waited) # after \<and> list_all (round_waits deadline) before)"

lemma established_Cons:
  "established deadline (r # rounds) \<longleftrightarrow>
     (\<exists>now waited. r = (False, Connect_done, now, waited)) \<or> round_waits deadline r \<and> established deadline rounds"
proof
  assume "established deadline (r # rounds)"
  then obtain before now waited after where e: "r # rounds = before @ (False, Connect_done, now, waited) # after"
    "list_all (round_waits deadline) before" unfolding established_def by blast
  then show "(\<exists>now waited. r = (False, Connect_done, now, waited)) \<or> round_waits deadline r \<and> established deadline rounds"
  proof (cases before)
    case (Cons b before')
    then have "b = r" "rounds = before' @ (False, Connect_done, now, waited) # after" using e(1) by simp_all
    then show ?thesis using e(2) Cons unfolding established_def by (metis list.pred_inject(2))
  next
    case Nil
    then have "r = (False, Connect_done, now, waited)" using e(1) by simp
    then show ?thesis by blast
  qed
next
  assume "(\<exists>now waited. r = (False, Connect_done, now, waited)) \<or> round_waits deadline r \<and> established deadline rounds"
  then show "established deadline (r # rounds)"
  proof (elim disjE exE conjE)
    fix now waited assume "r = (False, Connect_done, now, waited)"
    then have "r # rounds = [] @ (False, Connect_done, now, waited) # rounds" by simp
    then show ?thesis unfolding established_def by (metis list.pred_inject(1))
  next
    assume "round_waits deadline r" "established deadline rounds"
    then obtain before now waited after where "r # rounds = (r # before) @ (False, Connect_done, now, waited) # after"
      "list_all (round_waits deadline) (r # before)" unfolding established_def by auto
    then show ?thesis unfolding established_def by blast
  qed
qed

lemma handshake_loop_established: "handshake_loop deadline rounds = Some True \<longleftrightarrow> established deadline rounds"
proof (induction deadline rounds rule: handshake_loop.induct)
  case (1 deadline)
  show ?case by (simp add: established_def)
next
  case (2 deadline cancelled answer now waited rounds)
  then show ?case by (cases answer) (auto simp: established_Cons round_waits_def not_less)
qed

lemma handshake_loop_waits: "handshake_loop deadline rounds = None \<longleftrightarrow> list_all (round_waits deadline) rounds"
  by (induction deadline rounds rule: handshake_loop.induct) (auto simp: round_waits_def not_less split: connect_answer.splits)

text \<open>C40. A client that was given the fingerprint a listener publishes completes a handshake exactly
  with peers whose certificate has the same SHA-256 digest, if the connection could be set up, has
  keying material, and \<open>SSL_connect\<close> succeeded in a round that was not cancelled, where in every
  round before it the race was not cancelled, \<open>SSL_connect\<close> wanted more, the clock was before the
  deadline and waiting succeeded. The client then has its final identifier. In all other cases the
  handshake fails, except that it goes on as long as all rounds are of the latter kind.

  The deadline is looked at only after a round that wants more: a connection that is established in
  the last round is accepted even if the clock has passed the deadline meanwhile.\<close>

theorem peer_authenticated:
  assumes "socket_certificate_sha256 digest SOCKET_TRANSPORT_QUIC_LISTENER (Some own) None = Some fp"
    "\<forall>m. material = Some m \<longrightarrow> length m = 16"
    "result = socket_quic_client_handshake digest connected received made configured start timeout_ms rounds cert (Some fp) material sc"
  shows "(\<forall>ok received' sc'. result = Some (ok, received', sc') \<longrightarrow>
      (ok \<longleftrightarrow> connected \<and> made \<and> configured \<and>
        (\<exists>before now waited after. rounds = before @ (False, Connect_done, now, waited) # after \<and>
          list_all (\<lambda>r. \<exists>now < start + timeout_ms. r = (False, Connect_want, now, True)) before) \<and>
        (\<exists>c. cert = Some c \<and> digest c = digest own) \<and> material \<noteq> None) \<and>
      (ok \<longrightarrow> sc_connection_id_final sc' \<and> sc_quic sc')) \<and>
    (result = None \<longleftrightarrow> connected \<and> made \<and> configured \<and>
      list_all (\<lambda>r. \<exists>now < start + timeout_ms. r = (False, Connect_want, now, True)) rounds)"
proof -
  obtain d where d: "digest own = Some d" "string_decode_hex_fixed (Some fp) 64 False 32 = Some d"
    using published_decodes [OF assms(1)] by auto
  have check: "socket_quic_check_fingerprint digest cert (Some fp) \<longleftrightarrow> (\<exists>c. cert = Some c \<and> digest c = digest own)"
    unfolding check_fingerprint_decodes d by auto
  have quic: "sc_quic (snd (socket_connection_id_export material s)) = sc_quic s" for s
    by (auto simp: socket_connection_id_export_def connection_id_set_def split: option.splits prod.splits if_splits)
  have "(ok \<longleftrightarrow> connected \<and> made \<and> configured \<and> established (start + timeout_ms) rounds \<and>
      (\<exists>c. cert = Some c \<and> digest c = digest own) \<and> material \<noteq> None) \<and> (ok \<longrightarrow> sc_connection_id_final sc' \<and> sc_quic sc')"
    if "result = Some (ok, received', sc')" for ok received' sc'
    using handshake_cases(1,2) [OF that [unfolded assms(3)]] connection_id_export_ok [OF assms(2)] check quic
    by (cases ok) (simp_all add: handshake_loop_established)
  moreover have "result = None \<longleftrightarrow> connected \<and> made \<and> configured \<and> list_all (round_waits (start + timeout_ms)) rounds"
    unfolding assms(3) handshake_cases(3) handshake_loop_waits ..
  ultimately show ?thesis unfolding established_def round_waits_def by blast
qed

definition demo_socket :: sock_struct where
  "demo_socket = \<lparr>sc_transport = SOCKET_TRANSPORT_QUIC_CONNECTION, sc_handle = Some 3, sc_connection_id = [], sc_role = SOCKET_ROLE_CLIENT, sc_quic = False,
     sc_game_stream = None, sc_pending_streams = [], sc_pending_count = 0, sc_owns_handle = True, sc_connection_id_final = False, sc_shutdown_sent = False\<rparr>"

definition demo_digest :: "u8 \<Rightarrow> bytes option" where
  "demo_digest c = Some (replicate 32 c)"

definition demo_handshake :: "bytes \<Rightarrow> u8 \<Rightarrow> (bool \<times> int list \<times> sock_struct) option" where
  "demo_handshake fp cert = socket_quic_client_handshake demo_digest True [5, -1] True True 1000 4000
     [(False, Connect_want, 2000, True), (False, Connect_done, 3000, True)] (Some cert) (Some fp) (Some (replicate 16 7)) demo_socket"

theorem peer_authenticated_witness:
  "\<exists>fp. socket_certificate_sha256 demo_digest SOCKET_TRANSPORT_QUIC_LISTENER (Some 0xab) None = Some fp \<and>
    (\<forall>cert. map_option fst (demo_handshake fp cert) = Some (cert = 0xab))"
proof -
  obtain fp where fp: "socket_certificate_sha256 demo_digest SOCKET_TRANSPORT_QUIC_LISTENER (Some 0xab) None = Some fp"
    using tohex_plain [of "[]" "replicate 32 0xab" 65]
    by (simp add: socket_certificate_sha256_def demo_digest_def SHA256_DIGEST_LENGTH_def string_tohex_def length_hex_text Let_def)
  let ?rounds = "[(False, Connect_want, 2000, True), (False, Connect_done, 3000, True)] :: connect_round list"
  have w: "round_waits (1000 + 4000) (False, Connect_want, 2000, True)" unfolding round_waits_def by (rule exI [of _ 2000]) simp
  have loop: "established (1000 + 4000) ?rounds" unfolding established_Cons using w by blast
  have mat: "\<forall>m. Some (replicate 16 7) = Some (m :: bytes) \<longrightarrow> length m = 16" by simp
  have "map_option fst (demo_handshake fp cert) = Some (cert = 0xab)" for cert
  proof -
    have same: "(\<exists>c. Some cert = Some c \<and> demo_digest c = demo_digest 0xab) \<longleftrightarrow> cert = 0xab"
      using replicate_eq_replicate [of 32 cert 32 "0xab"] by (auto simp: demo_digest_def)
    note p = peer_authenticated [OF fp mat demo_handshake_def, folded round_waits_def established_def]
    have "demo_handshake fp cert \<noteq> None" using p by (simp add: round_waits_def)
    then obtain ok received' sc' where run: "demo_handshake fp cert = Some (ok, received', sc')" by (metis not_None_eq prod_cases3)
    then show ?thesis using p [THEN conjunct1, rule_format, OF run] loop [unfolded established_def] unfolding same by simp
  qed
  then show ?thesis using fp by blast
qed


section \<open>Timing\<close>

lemma unat_widen [simp]: "unat (ucast x :: u64) = unat x" for x :: u32
proof -
  have "unat x < 2 ^ 32" using unsigned_less [of x, where ?'a = nat] by simp
  then have "unat x < 2 ^ 64" by (rule order_less_trans) simp
  then show ?thesis by (simp add: unsigned_ucast_eq take_bit_nat_eq_self_iff)
qed

lemma timeout_value:
  assumes "deadline \<noteq> - 1"
  shows "unat (socket_quic_timeout SOCKET_TRANSPORT_QUIC_CONNECTION deadline now maximum_ms) =
    (if deadline = 0 then 0 else min (unat deadline - unat now) (unat maximum_ms))"
proof -
  have small: "unat (ucast x :: u32) = unat x" if "x < ucast maximum_ms" for x :: u64
  proof -
    have "unat x < unat maximum_ms" using that by (simp add: word_less_nat_alt unat_widen)
    then have "unat x < 2 ^ 32" using unsigned_less [of maximum_ms, where ?'a = nat] by (simp add: order_less_trans)
    then show ?thesis by (simp add: unsigned_ucast_eq take_bit_nat_eq_self)
  qed
  have diff: "unat (deadline - now) = unat deadline - unat now" if "\<not> deadline \<le> now" using that by (simp add: unat_sub)
  have cmp: "x < ucast maximum_ms \<longleftrightarrow> unat x < unat maximum_ms" for x :: u64 by (simp add: word_less_nat_alt unat_widen)
  show ?thesis
    using assms small [of "deadline - now"] diff cmp [of "deadline - now"]
    by (auto simp: socket_quic_timeout_def Let_def min_def word_le_nat_alt)
qed

text \<open>Sleeping for the timeout of a connection neither misses its timer nor wakes without need:
  the timeout is at most the maximum, the timer is not due at any time before it has passed, and if
  it is less than the maximum then servicing the connection after it handles the event, tells the
  caller to go on and sets the next deadline, even if nothing else is pending.\<close>

theorem timer_not_missed:
  assumes "deadline \<noteq> - 1" "t = socket_quic_timeout SOCKET_TRANSPORT_QUIC_CONNECTION deadline now maximum_ms"
    "unat now + unat t < 2 ^ 64"
    "\<And>time. due time \<longleftrightarrow> fst (socket_quic_service SOCKET_TRANSPORT_QUIC_CONNECTION False False time False True False next later deadline)"
  shows "t \<le> maximum_ms \<and> (\<forall>time. now \<le> time \<and> time < now + ucast t \<longrightarrow> \<not> due time) \<and>
    (t < maximum_ms \<longrightarrow> due (now + ucast t) \<and>
      snd (socket_quic_service SOCKET_TRANSPORT_QUIC_CONNECTION False False (now + ucast t) False True False next later deadline) =
        socket_quic_schedule_event next later)"
proof -
  have t: "unat t = (if deadline = 0 then 0 else min (unat deadline - unat now) (unat maximum_ms))"
    using timeout_value [OF assms(1)] assms(2) by simp
  have due: "due time \<longleftrightarrow> deadline = 0 \<or> unat deadline \<le> unat time" for time
    using assms(1,4) by (auto simp: socket_quic_service_def Let_def word_le_nat_alt)
  have nowt: "unat (now + ucast t) = unat now + unat t"
    using assms(3) by (simp add: unat_word_ariths unat_widen)
  have "t \<le> maximum_ms" using t by (simp add: word_le_nat_alt split: if_splits)
  moreover have "\<not> due time" if "now \<le> time" "time < now + ucast t" for time
    using that t nowt due by (auto simp: word_le_nat_alt word_less_nat_alt split: if_splits)
  moreover have "due (now + ucast t)" if "t < maximum_ms"
    using that t nowt due by (auto simp: word_less_nat_alt split: if_splits)
  moreover have "snd (socket_quic_service SOCKET_TRANSPORT_QUIC_CONNECTION False False time False True False next later deadline) =
      socket_quic_schedule_event next later" if "due time" for time
    using that assms(4) [of time] by (auto simp: socket_quic_service_def Let_def split: if_splits)
  ultimately show ?thesis by blast
qed

theorem timer_not_missed_witness:
  "socket_quic_timeout SOCKET_TRANSPORT_QUIC_CONNECTION 1200 1000 500 = 200 \<and>
   snd (socket_quic_service SOCKET_TRANSPORT_QUIC_CONNECTION False False 1200 False True False (Some (1, 2500)) 1201 1200) = 2203"
proof -
  have t: "socket_quic_timeout SOCKET_TRANSPORT_QUIC_CONNECTION 1200 1000 500 = 200" by (simp add: socket_quic_timeout_def)
  have "socket_quic_schedule_event (Some (1, 2500)) 1201 = 2203" by (simp add: socket_quic_schedule_event_def)
  then show ?thesis using timer_not_missed [OF _ refl _ refl, of 1200 1000 500 "Some (1, 2500)" 1201] t by (simp add: t)
qed

end
