(* ===== verification/Http.thy ===== *)
theory Http
  imports Path Scanf
begin

unbundle bit_operations_syntax

text \<open>
  The HTTP requests of \<open>src/curl.c\<close>: the life of a request, the callbacks that libcurl and OpenSSL
  call, the pinned certificate chains and the cache of files with their ETags.

  libcurl is an argument: which options it accepts, and a transfer as the list of the callbacks it
  makes with the final result and the HTTP code. Keys are of any type; which keys a text contains,
  and the SHA-256 digest, are arguments too. The files of the system are a map from names to
  contents, without those that cannot be read. \<open>curl_progress\<close> is registered, but libcurl calls it
  only when \<open>CURLOPT_NOPROGRESS\<close> is cleared, which the code does not do. The mutex of a request is a flag: locking it
  twice, which waits for ever, gives \<open>None\<close>.
\<close>

type_synonym files = "bytes \<Rightarrow> bytes option"


section \<open>Requests\<close>

datatype curl_state = CURL_STATE_NONE | CURL_STATE_INPROGRESS | CURL_STATE_OK | CURL_STATE_ERROR

datatype curl_pkey_trust = CURL_PKEY_TRUST_SYSTEM | CURL_PKEY_TRUST_ULTIMATE | CURL_PKEY_TRUST_APPLICATION

datatype curl_info = CURL_INFO_DL_LENGTH | CURL_INFO_DL_SPEED | CURL_INFO_DL_SIZE

record curl_request =
  cr_body :: "bytes option"
  cr_body_size :: nat
  cr_max_body_size :: nat
  cr_header :: "bytes option"
  cr_header_size :: nat
  cr_url :: bytes
  cr_path :: "bytes option"
  cr_locked :: bool
  cr_state :: curl_state
  cr_trust :: curl_pkey_trust
  cr_http_code :: int
  cr_handle :: bool
  cr_form_fields :: "(bytes \<times> bytes) list"
  cr_cert_id :: u8
  cr_cert_chain :: u32
  cr_cert_cn :: "bytes option"
  cr_cb :: bool
  cr_delay :: u32
  cr_finished :: bool
  cr_threaded :: bool
  cr_untrusted :: bool

definition curl_lock :: "curl_request \<Rightarrow> curl_request option" where
  "curl_lock request = (if cr_locked request then None else Some (request\<lparr>cr_locked := True\<rparr>))"

definition curl_unlock :: "curl_request \<Rightarrow> curl_request" where
  "curl_unlock request = request\<lparr>cr_locked := False\<rparr>"

definition curl_request_create :: "bytes \<Rightarrow> curl_pkey_trust \<Rightarrow> curl_request" where
  "curl_request_create url trust =
     \<lparr>cr_body = None, cr_body_size = 0, cr_max_body_size = SIZE_MAX, cr_header = None, cr_header_size = 0, cr_url = url, cr_path = None,
      cr_locked = False, cr_state = CURL_STATE_INPROGRESS, cr_trust = trust, cr_http_code = -1, cr_handle = False, cr_form_fields = [],
      cr_cert_id = 0, cr_cert_chain = 0, cr_cert_cn = None, cr_cb = False, cr_delay = 0, cr_finished = False, cr_threaded = False,
      cr_untrusted = False\<rparr>"

definition curl_request_form_add :: "bytes \<Rightarrow> bytes \<Rightarrow> curl_request \<Rightarrow> curl_request" where
  "curl_request_form_add key val request = request\<lparr>cr_form_fields := cr_form_fields request @ [(key, val)]\<rparr>"

definition curl_request_set_path :: "bytes \<Rightarrow> curl_request \<Rightarrow> curl_request" where
  "curl_request_set_path path request = request\<lparr>cr_path := Some path\<rparr>"

text \<open>The size must be positive.\<close>

definition curl_request_set_max_body :: "nat \<Rightarrow> curl_request \<Rightarrow> curl_request option" where
  "curl_request_set_max_body maximum request =
     (if maximum = 0 then None else map_option (\<lambda>r. curl_unlock (r\<lparr>cr_max_body_size := maximum\<rparr>)) (curl_lock request))"

definition curl_request_set_cb :: "curl_request \<Rightarrow> curl_request" where
  "curl_request_set_cb request = request\<lparr>cr_cb := True\<rparr>"

definition curl_request_set_delay :: "u32 \<Rightarrow> curl_request \<Rightarrow> curl_request" where
  "curl_request_set_delay delay request = request\<lparr>cr_delay := delay\<rparr>"

definition curl_request_get_state :: "curl_request \<Rightarrow> curl_state option" where
  "curl_request_get_state request = map_option cr_state (curl_lock request)"

definition curl_request_get_body :: "curl_request \<Rightarrow> (bytes option \<times> nat option) option" where
  "curl_request_get_body request = do {
     state \<leftarrow> curl_request_get_state request;
     Some (if state = CURL_STATE_INPROGRESS then (None, None) else (cr_body request, Some (cr_body_size request)))
   }"

definition curl_request_get_header :: "curl_request \<Rightarrow> (bytes option \<times> nat option) option" where
  "curl_request_get_header request = do {
     state \<leftarrow> curl_request_get_state request;
     Some (if state = CURL_STATE_INPROGRESS then (None, None) else (cr_header request, Some (cr_header_size request)))
   }"

definition curl_request_get_http_code :: "curl_request \<Rightarrow> int option" where
  "curl_request_get_http_code request = do {
     state \<leftarrow> curl_request_get_state request;
     Some (if state = CURL_STATE_INPROGRESS then -1 else cr_http_code request)
   }"

definition curl_request_get_url :: "curl_request \<Rightarrow> bytes" where
  "curl_request_get_url request = cr_url request"

text \<open>The argument \<open>getinfo\<close> is what libcurl answers, if it does.\<close>

definition curl_request_sizeinfo :: "(curl_info \<Rightarrow> int option) \<Rightarrow> curl_info \<Rightarrow> curl_request \<Rightarrow> int option" where
  "curl_request_sizeinfo getinfo info request = do {
     state \<leftarrow> curl_request_get_state request;
     Some (if state \<noteq> CURL_STATE_INPROGRESS \<or> \<not> cr_handle request then 0
           else case getinfo info of None \<Rightarrow> 0 | Some val \<Rightarrow> val)
   }"


section \<open>Trusted keys\<close>

record 'k curl_env =
  ce_keys :: "curl_pkey_trust \<Rightarrow> 'k list"
  ce_data_dir :: bytes
  ce_digest :: "bytes \<Rightarrow> bytes option"

definition curl_load_pem :: "(bytes \<Rightarrow> 'k option) \<Rightarrow> bytes \<Rightarrow> curl_pkey_trust \<Rightarrow> 'k curl_env \<Rightarrow> bool \<times> 'k curl_env" where
  "curl_load_pem read_pem pubkey trust env = (case read_pem pubkey of
     None \<Rightarrow> (False, env)
   | Some key \<Rightarrow> (True, env\<lparr>ce_keys := (ce_keys env)(trust := ce_keys env trust @ [key])\<rparr>))"

definition clioptions_option_trusted_pin :: "(bytes \<Rightarrow> 'k option) \<Rightarrow> bytes \<Rightarrow> 'k curl_env \<Rightarrow> bool \<times> 'k curl_env" where
  "clioptions_option_trusted_pin read_pem arg env = curl_load_pem read_pem arg CURL_PKEY_TRUST_ULTIMATE env"

definition curl_set_trust_application :: "(bytes \<Rightarrow> 'k option) \<Rightarrow> bytes option \<Rightarrow> 'k curl_env \<Rightarrow> bool \<times> 'k curl_env" where
  "curl_set_trust_application read_pem pubkey env =
     (let env = env\<lparr>ce_keys := (ce_keys env)(CURL_PKEY_TRUST_APPLICATION := [])\<rparr>
      in case pubkey of None \<Rightarrow> (False, env) | Some pem \<Rightarrow> curl_load_pem read_pem pem CURL_PKEY_TRUST_APPLICATION env)"

text \<open>A signature is verified by any key of the store; \<open>valid\<close> is the check of OpenSSL.\<close>

definition curl_verify :: "('k \<Rightarrow> bytes \<Rightarrow> bytes \<Rightarrow> bool) \<Rightarrow> 'k curl_env \<Rightarrow> curl_pkey_trust \<Rightarrow> bytes \<Rightarrow> bytes \<Rightarrow> bool" where
  "curl_verify valid env trust msg sig =
     (if ce_keys env trust = [] then False else list_ex (\<lambda>key. valid key msg sig) (ce_keys env trust))"


section \<open>Certificates\<close>

text \<open>A certificate: its common name, if it can be read, and its key.\<close>

type_synonym 'k x509 = "bytes option \<times> 'k option"

definition cert_match :: "'k \<Rightarrow> 'k list \<Rightarrow> u8 \<Rightarrow> u32 \<Rightarrow> u32" where
  "cert_match key keys cert_id chain = foldl (\<lambda>chain k. if key = k then chain OR push_bit (unat cert_id) 1 else chain) chain keys"

text \<open>The check for a store without keys leaves the mutex locked.\<close>

definition curl_ssl_verify :: "'k curl_env \<Rightarrow> bool \<Rightarrow> 'k x509 \<Rightarrow> curl_request \<Rightarrow> (bool \<times> curl_request) option" where
  "curl_ssl_verify env preverify_ok cert request =
     (if \<not> preverify_ok then Some (False, request)
      else do {
        request \<leftarrow> curl_lock request;
        if cr_trust request = CURL_PKEY_TRUST_SYSTEM then Some (True, curl_unlock request)
        else if ce_keys env (cr_trust request) = [] then
          (if cr_trust request = CURL_PKEY_TRUST_ULTIMATE then Some (False, request)
           else Some (True, curl_unlock (request\<lparr>cr_untrusted := True\<rparr>)))
        else (let request = curl_unlock request in case cert of
            (Some cn, Some pubkey) \<Rightarrow>
              if cn = [] \<or> 0 \<in> set cn then Some (False, request)
              else do {
                request \<leftarrow> curl_lock request;
                let request = request\<lparr>cr_cert_cn := Some cn\<rparr>;
                if unat (cr_cert_id request) = 32 then Some (False, curl_unlock request)
                else Some (True, curl_unlock (request\<lparr>
                  cr_cert_chain := cert_match pubkey (ce_keys env (cr_trust request)) (cr_cert_id request) (cr_cert_chain request),
                  cr_cert_id := cr_cert_id request + 1\<rparr>))
              }
          | _ \<Rightarrow> Some (False, request))
      })"

text \<open>The chain is stored as four bytes. Opening a file for writing may fail (\<open>None\<close>), and so may
  the write.\<close>

definition chain_bytes :: "u32 \<Rightarrow> bytes" where
  "chain_bytes c = [ucast c, ucast (drop_bit 8 c), ucast (drop_bit 16 c), ucast (drop_bit 24 c)]"

fun chain_changed :: "bytes option \<Rightarrow> u32 \<Rightarrow> bool" where
  "chain_changed None chain = False"
| "chain_changed (Some content) chain = (length content \<ge> 4 \<and> take 4 content \<noteq> chain_bytes chain)"

definition chain_save :: "(bytes \<Rightarrow> bool option) \<Rightarrow> bytes \<Rightarrow> u32 \<Rightarrow> files \<Rightarrow> files" where
  "chain_save store path chain files = (case store path of
     None \<Rightarrow> files
   | Some written \<Rightarrow> files(path \<mapsto> (if written then chain_bytes chain else [])))"

definition curl_chain_path :: "'k curl_env \<Rightarrow> bytes \<Rightarrow> bytes option" where
  "curl_chain_path env cn = (case ce_digest env cn of
     None \<Rightarrow> None
   | Some digest \<Rightarrow>
       if length digest \<noteq> 32 then None
       else let (n, digest_ascii) = string_tohex digest 65 False
         in if n \<noteq> 64 then None else Some (c_snprintf HUGE_BUF (ce_data_dir env @ str ''/certchains/'' @ digest_ascii)))"

definition curl_verify_cert_chain :: "'k curl_env \<Rightarrow> (bytes \<Rightarrow> bool option) \<Rightarrow> curl_request \<Rightarrow> files \<Rightarrow> bool \<times> files" where
  "curl_verify_cert_chain env store request files =
     (if cr_cert_id request = 0 then (True, files)
      else case cr_cert_cn request of
        None \<Rightarrow> (False, files)
      | Some cn \<Rightarrow>
          if cr_cert_chain request = 0 then (False, files)
          else case curl_chain_path env cn of
            None \<Rightarrow> (False, files)
          | Some path \<Rightarrow>
              if chain_changed (files path) (cr_cert_chain request) then (False, files)
              else (True, chain_save store path (cr_cert_chain request) files))"

definition curl_ssl_ctx :: "'k curl_env \<Rightarrow> (bytes \<Rightarrow> bool option) \<Rightarrow> curl_request \<Rightarrow> files \<Rightarrow> (bool \<times> curl_request \<times> files) option" where
  "curl_ssl_ctx env store request files = do {
     request \<leftarrow> curl_lock request;
     let (ok, files) = curl_verify_cert_chain env store request files;
     Some (if ok then (True, curl_unlock (request\<lparr>cr_cert_id := 0, cr_cert_chain := 0\<rparr>), files) else (False, curl_unlock request, files))
   }"


section \<open>Data\<close>

definition size_mult :: "nat \<Rightarrow> nat \<Rightarrow> nat" where
  "size_mult a b = (a * b) mod (SIZE_MAX + 1)"

definition curl_callback ::
  "'k curl_env \<Rightarrow> (bytes \<Rightarrow> bool option) \<Rightarrow> bytes \<Rightarrow> nat \<Rightarrow> nat \<Rightarrow> curl_request \<Rightarrow> files \<Rightarrow> (nat \<times> curl_request \<times> files) option" where
  "curl_callback env store buffer sz nitems request files = do {
     request \<leftarrow> curl_lock request;
     let (ok, files) = curl_verify_cert_chain env store request files;
     let realsize = size_mult sz nitems;
     if \<not> ok then Some (0, curl_unlock request, files)
     else if (sz \<noteq> 0 \<and> realsize div sz \<noteq> nitems) \<or> cr_body_size request > cr_max_body_size request \<or>
        realsize > cr_max_body_size request - cr_body_size request \<or> cr_body_size request = SIZE_MAX \<or>
        realsize > SIZE_MAX - cr_body_size request - 1
     then Some (0, curl_unlock request, files)
     else Some (realsize, curl_unlock (request\<lparr>
       cr_body := Some ((case cr_body request of None \<Rightarrow> [] | Some b \<Rightarrow> take (cr_body_size request) b) @ take realsize buffer),
       cr_body_size := cr_body_size request + realsize\<rparr>), files)
   }"

definition curl_header_callback ::
  "'k curl_env \<Rightarrow> (bytes \<Rightarrow> bool option) \<Rightarrow> bytes \<Rightarrow> nat \<Rightarrow> nat \<Rightarrow> curl_request \<Rightarrow> files \<Rightarrow> (nat \<times> curl_request \<times> files) option" where
  "curl_header_callback env store buffer sz nitems request files = do {
     request \<leftarrow> curl_lock request;
     let (ok, files) = curl_verify_cert_chain env store request files;
     let realsize = size_mult sz nitems;
     if \<not> ok then Some (0, curl_unlock request, files)
     else if (sz \<noteq> 0 \<and> realsize div sz \<noteq> nitems) \<or> cr_header_size request = SIZE_MAX \<or> realsize > SIZE_MAX - cr_header_size request - 1
     then Some (0, curl_unlock request, files)
     else Some (realsize, curl_unlock (request\<lparr>
       cr_header := Some ((case cr_header request of None \<Rightarrow> [] | Some h \<Rightarrow> take (cr_header_size request) h) @ take realsize buffer),
       cr_header_size := cr_header_size request + realsize\<rparr>), files)
   }"

definition curl_progress :: "'k curl_env \<Rightarrow> (bytes \<Rightarrow> bool option) \<Rightarrow> curl_request \<Rightarrow> files \<Rightarrow> (int \<times> curl_request \<times> files) option" where
  "curl_progress env store request files = do {
     request \<leftarrow> curl_lock request;
     let (ok, files) = curl_verify_cert_chain env store request files;
     Some (if \<not> ok \<or> cr_finished request then 0 else 1, curl_unlock request, files)
   }"


section \<open>The cache\<close>

text \<open>The loop over the lines of the header, from position \<open>pos\<close>.\<close>

definition curl_etag_step :: "bytes \<Rightarrow> nat \<Rightarrow> (nat + bytes option) option" where
  "curl_etag_step header pos =
     (case string_get_word (Some header) pos 10 HUGE_BUF 0 of (pos, line, found) \<Rightarrow>
        if \<not> found then Some (Inr None)
        else do {
          (cps, buf) \<leftarrow> string_split (Some (line @ [0])) 2 58;
          if length cps \<noteq> 2 then Some (Inl pos)
          else if c_string (drop (cps ! 0) buf) = str ''ETag''
          then Some (Inr (Some (string_whitespace_trim (c_string (drop (cps ! 1) buf)))))
          else Some (Inl pos)
        })"

definition curl_find_etag :: "bytes \<Rightarrow> bytes option option" where
  "curl_find_etag header = c_loop (curl_etag_step (c_string header)) 0"

definition curl_etag_path :: "bytes \<Rightarrow> bytes" where
  "curl_etag_path path = c_snprintf HUGE_BUF (path @ str ''.etag'')"

text \<open>\<open>write\<close> says for which files \<open>path_write_atomic\<close> succeeds.\<close>

definition curl_write_cache :: "(bytes \<Rightarrow> bool) \<Rightarrow> curl_request \<Rightarrow> files \<Rightarrow> files option" where
  "curl_write_cache write request files = (case (cr_path request, cr_header request, cr_body request) of
     (Some path, Some header, Some body) \<Rightarrow> do {
       etag \<leftarrow> curl_find_etag header;
       let (etag, files) = (if write path then (etag, files(path \<mapsto> take (cr_body_size request) body)) else (None, files));
       Some (case etag of
           None \<Rightarrow> files
         | Some etag \<Rightarrow> if write (curl_etag_path path) then files(curl_etag_path path \<mapsto> etag) else files)
     }
   | _ \<Rightarrow> Some files)"

definition curl_load_etag :: "curl_request \<Rightarrow> files \<Rightarrow> bytes option" where
  "curl_load_etag request files = (case cr_path request of
     None \<Rightarrow> None
   | Some path \<Rightarrow> map_option (\<lambda>content. c_string (fst (c_fgets (length content + 1) content))) (files (curl_etag_path path)))"

definition curl_load_cache :: "curl_request \<Rightarrow> files \<Rightarrow> bool \<times> curl_request" where
  "curl_load_cache request files = (case cr_path request of
     None \<Rightarrow> (False, request)
   | Some path \<Rightarrow> (case files path of
       None \<Rightarrow> (False, request)
     | Some content \<Rightarrow>
         if length content > cr_max_body_size request then (False, request)
         else (True, request\<lparr>cr_body_size := length content, cr_body := Some content\<rparr>)))"


section \<open>Transfers\<close>

datatype curl_option = CURLOPT_CONNECTTIMEOUT | CURLOPT_NOSIGNAL | CURLOPT_FOLLOWLOCATION | CURLOPT_MAXFILESIZE_LARGE | CURLOPT_XFERINFOFUNCTION
  | CURLOPT_XFERINFODATA | CURLOPT_URL | CURLOPT_REFERER | CURLOPT_SHARE | CURLOPT_WRITEFUNCTION | CURLOPT_WRITEDATA | CURLOPT_HEADERFUNCTION
  | CURLOPT_HEADERDATA | CURLOPT_USERAGENT | CURLOPT_SSL_CTX_FUNCTION | CURLOPT_SSL_CTX_DATA

text \<open>An option that is refused ends the function at once, also with the mutex locked.\<close>

definition curl_request_setup :: "(curl_option \<Rightarrow> bool) \<Rightarrow> curl_request \<Rightarrow> (curl_state \<times> curl_request) option" where
  "curl_request_setup setopt request =
     (if \<not> list_all setopt ([CURLOPT_CONNECTTIMEOUT, CURLOPT_NOSIGNAL, CURLOPT_FOLLOWLOCATION] @
         (if cr_max_body_size request \<noteq> SIZE_MAX then [CURLOPT_MAXFILESIZE_LARGE] else []) @ [CURLOPT_XFERINFOFUNCTION, CURLOPT_XFERINFODATA])
      then Some (CURL_STATE_ERROR, request)
      else do {
        request \<leftarrow> curl_lock request;
        if \<not> list_all setopt [CURLOPT_URL, CURLOPT_REFERER, CURLOPT_SHARE] then Some (CURL_STATE_ERROR, request)
        else if \<not> list_all setopt [CURLOPT_WRITEFUNCTION, CURLOPT_WRITEDATA, CURLOPT_HEADERFUNCTION, CURLOPT_HEADERDATA, CURLOPT_USERAGENT,
            CURLOPT_SSL_CTX_FUNCTION, CURLOPT_SSL_CTX_DATA]
        then Some (CURL_STATE_ERROR, curl_unlock request)
        else Some (CURL_STATE_OK, curl_unlock request)
      })"

text \<open>What happens during a transfer: a new TLS connection, a certificate of its peer, header and
  body data.\<close>

datatype 'k curl_event = Ev_connect | Ev_cert bool "'k x509" | Ev_header bytes nat nat | Ev_body bytes nat nat

fun curl_event_step :: "'k curl_env \<Rightarrow> (bytes \<Rightarrow> bool option) \<Rightarrow> 'k curl_event \<Rightarrow> curl_request \<Rightarrow> files \<Rightarrow> (bool \<times> curl_request \<times> files) option" where
  "curl_event_step env store Ev_connect request files = curl_ssl_ctx env store request files"
| "curl_event_step env store (Ev_cert ok cert) request files = map_option (\<lambda>(go, request). (go, request, files)) (curl_ssl_verify env ok cert request)"
| "curl_event_step env store (Ev_header buffer sz n) request files =
     map_option (\<lambda>(amount, request, files). (amount = size_mult sz n, request, files)) (curl_header_callback env store buffer sz n request files)"
| "curl_event_step env store (Ev_body buffer sz n) request files =
     map_option (\<lambda>(amount, request, files). (amount = size_mult sz n, request, files)) (curl_callback env store buffer sz n request files)"

text \<open>libcurl ends a transfer when a callback refuses.\<close>

fun curl_easy_perform ::
  "'k curl_env \<Rightarrow> (bytes \<Rightarrow> bool option) \<Rightarrow> 'k curl_event list \<Rightarrow> curl_request \<Rightarrow> files \<Rightarrow> (bool \<times> curl_request \<times> files) option" where
  "curl_easy_perform env store [] request files = Some (True, request, files)"
| "curl_easy_perform env store (e # es) request files = do {
     (go, request, files) \<leftarrow> curl_event_step env store e request files;
     if go then curl_easy_perform env store es request files else Some (False, request, files)
   }"

record 'k curl_transfer =
  ct_handle :: bool
  ct_setopt :: "curl_option \<Rightarrow> bool"
  ct_form :: bool
  ct_events :: "'k curl_event list"
  ct_result :: bool
  ct_http_code :: int
  ct_write :: "bytes \<Rightarrow> bool"
  ct_store :: "bytes \<Rightarrow> bool option"

definition curl_request_complete ::
  "'k curl_env \<Rightarrow> 'k curl_transfer \<Rightarrow> curl_request \<Rightarrow> files \<Rightarrow> (curl_state \<times> curl_request \<times> files) option" where
  "curl_request_complete env t request files = do {
     (ok, request, files) \<leftarrow> curl_easy_perform env (ct_store t) (ct_events t) request files;
     if \<not> (ok \<and> ct_result t) then Some (CURL_STATE_ERROR, request, files)
     else do {
       request \<leftarrow> curl_lock request;
       let request = curl_unlock (request\<lparr>cr_http_code := ct_http_code t\<rparr>);
       if ct_http_code t = 200 then do {
         request \<leftarrow> curl_lock request;
         files \<leftarrow> curl_write_cache (ct_write t) request files;
         Some (CURL_STATE_OK, curl_unlock request, files)
       } else if ct_http_code t = 304 then do {
         request \<leftarrow> curl_lock request;
         let (ok, request) = curl_load_cache request files;
         Some (if ok then CURL_STATE_OK else CURL_STATE_ERROR, curl_unlock request, files)
       } else Some (CURL_STATE_ERROR, request, files)
     }
   }"

text \<open>The end of a request: the state is set, and whether the callback of the caller is called.\<close>

definition curl_request_done :: "curl_state \<Rightarrow> curl_request \<Rightarrow> (bool \<times> curl_request) option" where
  "curl_request_done state request = do {
     request \<leftarrow> curl_lock request;
     let request = curl_unlock (request\<lparr>cr_state := state\<rparr>);
     Some (cr_cb request \<and> \<not> cr_finished request, request)
   }"

text \<open>The value has the header lines that are sent in addition.\<close>

definition curl_request_do_get ::
  "'k curl_env \<Rightarrow> 'k curl_transfer \<Rightarrow> curl_request \<Rightarrow> files \<Rightarrow> (bytes list \<times> bool \<times> curl_request \<times> files) option" where
  "curl_request_do_get env t request files = (let request = request\<lparr>cr_handle := ct_handle t\<rparr> in
     if \<not> ct_handle t then map_option (\<lambda>(called, request). ([], called, request, files)) (curl_request_done CURL_STATE_ERROR request)
     else do {
       let chunk = (case curl_load_etag request files of
           None \<Rightarrow> []
         | Some etag \<Rightarrow> [c_snprintf MAX_BUF (str ''If-None-Match: '' @ etag)]);
       (state, request) \<leftarrow> curl_request_setup (ct_setopt t) request;
       (state, request, files) \<leftarrow>
         (if state \<noteq> CURL_STATE_OK then Some (state, request, files) else curl_request_complete env t request files);
       (called, request) \<leftarrow> curl_request_done state request;
       Some (chunk, called, request, files)
     })"

definition curl_request_do_post :: "'k curl_env \<Rightarrow> 'k curl_transfer \<Rightarrow> curl_request \<Rightarrow> files \<Rightarrow> (bool \<times> curl_request \<times> files) option" where
  "curl_request_do_post env t request files = (let request = request\<lparr>cr_handle := ct_handle t\<rparr> in
     if \<not> ct_handle t then map_option (\<lambda>(called, request). (called, request, files)) (curl_request_done CURL_STATE_ERROR request)
     else do {
       (state, request) \<leftarrow> curl_request_setup (ct_setopt t) request;
       (state, request, files) \<leftarrow>
         (if state \<noteq> CURL_STATE_OK then Some (state, request, files)
          else if \<not> ct_form t then Some (CURL_STATE_ERROR, request, files)
          else curl_request_complete env t request files);
       (called, request) \<leftarrow> curl_request_done state request;
       Some (called, request, files)
     })"


section \<open>Threads\<close>

text \<open>Starting a request in a thread, which may fail.\<close>

definition curl_request_start_get :: "bool \<Rightarrow> curl_request \<Rightarrow> curl_request" where
  "curl_request_start_get created request =
     (if \<not> created then request\<lparr>cr_state := CURL_STATE_ERROR\<rparr> else request\<lparr>cr_threaded := True\<rparr>)"

definition curl_request_start_post :: "bool \<Rightarrow> curl_request \<Rightarrow> curl_request" where
  "curl_request_start_post created request = (if \<not> created then request\<lparr>cr_state := CURL_STATE_ERROR\<rparr> else request)"

text \<open>The request as seen by its owner and by its thread: the memory is there or not, the thread
  runs or not, and the owner has begun to free it or not.\<close>

record request_life =
  rl_request :: "curl_request option"
  rl_running :: bool
  rl_freeing :: bool

inductive request_step :: "request_life \<Rightarrow> request_life \<Rightarrow> bool" where
  work: "rl_running s \<Longrightarrow> rl_request s = Some request \<Longrightarrow> cr_threaded request' = cr_threaded request \<Longrightarrow> cr_finished request' = cr_finished request \<Longrightarrow>
    request_step s (s\<lparr>rl_request := Some request'\<rparr>)"
| thread_end: "rl_running s \<Longrightarrow> request_step s (s\<lparr>rl_running := False\<rparr>)"
| free_begin: "\<not> rl_freeing s \<Longrightarrow> rl_request s = Some request \<Longrightarrow>
    request_step s (s\<lparr>rl_freeing := True, rl_request := Some (if cr_state request = CURL_STATE_INPROGRESS then request\<lparr>cr_finished := True\<rparr> else request)\<rparr>)"
| free_end: "rl_freeing s \<Longrightarrow> rl_request s = Some request \<Longrightarrow> cr_threaded request \<longrightarrow> \<not> rl_running s \<Longrightarrow>
    request_step s (s\<lparr>rl_request := None\<rparr>)"

definition request_started :: "(bool \<Rightarrow> curl_request \<Rightarrow> curl_request) \<Rightarrow> bool \<Rightarrow> curl_request \<Rightarrow> request_life" where
  "request_started start created request = \<lparr>rl_request = Some (start created request), rl_running = created, rl_freeing = False\<rparr>"

end
