(* ===== verification/Http_Correct.thy ===== *)
theory Http_Correct
  imports Http Strings_Split "HOL-Library.Sublist"
begin

unbundle bit_operations_syntax

text \<open>
  Properties of \<open>Http\<close>: which data of a transfer is accepted, that the cache returns what was
  stored with its ETag, and that a request started as GET is never used after it was freed, unlike
  one started as POST.
\<close>

section \<open>Trusted transfers\<close>

text \<open>The certificates shown on the current connection, and the data of the body.\<close>

fun certs_seen :: "'k x509 list \<Rightarrow> 'k curl_event list \<Rightarrow> 'k x509 list" where
  "certs_seen acc [] = acc"
| "certs_seen acc (Ev_connect # es) = certs_seen [] es"
| "certs_seen acc (Ev_cert ok cert # es) = certs_seen (acc @ [cert]) es"
| "certs_seen acc (Ev_header b s n # es) = certs_seen acc es"
| "certs_seen acc (Ev_body b s n # es) = certs_seen acc es"

fun body_data :: "'k curl_event list \<Rightarrow> bytes" where
  "body_data [] = []"
| "body_data (Ev_body b s n # es) = b @ body_data es"
| "body_data (_ # es) = body_data es"

definition trusted_key :: "'k curl_env \<Rightarrow> curl_pkey_trust \<Rightarrow> 'k x509 \<Rightarrow> bool" where
  "trusted_key env trust cert \<longleftrightarrow> snd cert \<in> Some ` set (ce_keys env trust)"

text \<open>libcurl passes as many bytes as it says.\<close>

definition event_ok :: "'k curl_event \<Rightarrow> bool" where
  "event_ok e = (case e of Ev_header b s n \<Rightarrow> length b = s * n \<and> length b \<le> SIZE_MAX | Ev_body b s n \<Rightarrow> length b = s * n \<and> length b \<le> SIZE_MAX | _ \<Rightarrow> True)"

text \<open>The data of each body event came over a connection without certificates or with a trusted one.\<close>

fun trusted_events :: "'k curl_env \<Rightarrow> curl_pkey_trust \<Rightarrow> 'k x509 list \<Rightarrow> 'k curl_event list \<Rightarrow> bool" where
  "trusted_events env trust acc [] = True"
| "trusted_events env trust acc (Ev_body b s n # es) =
     ((b \<noteq> [] \<longrightarrow> acc = [] \<or> list_ex (trusted_key env trust) acc) \<and> trusted_events env trust acc es)"
| "trusted_events env trust acc (e # es) = trusted_events env trust (certs_seen acc [e]) es"

definition transfer_ok :: "'k curl_env \<Rightarrow> curl_pkey_trust \<Rightarrow> nat \<Rightarrow> 'k x509 list \<Rightarrow> bytes \<Rightarrow> curl_request \<Rightarrow> bool" where
  "transfer_ok env trust m acc data request \<longleftrightarrow>
     \<not> cr_locked request \<and> cr_trust request = trust \<and> cr_max_body_size request = m \<and>
     length acc \<le> 32 \<and> cr_cert_id request = of_nat (length acc) \<and>
     (\<forall>i. bit (cr_cert_chain request) i \<longrightarrow> i < length acc \<and> trusted_key env trust (acc ! i)) \<and>
     (case cr_body request of None \<Rightarrow> [] | Some b \<Rightarrow> b) = data \<and> cr_body_size request = length data \<and> length data \<le> m"

lemma cert_match_eq: "cert_match key keys cid chain = (if key \<in> set keys then chain OR push_bit (unat cid) 1 else chain)"
proof -
  have "foldl (\<lambda>c k. if p k then c OR b else c) c ks = (if list_ex p ks then c OR b else c)" for p b and c :: u32 and ks :: "'a list"
    by (induction ks arbitrary: c) (auto simp: or.assoc)
  then show ?thesis by (simp add: cert_match_def list_ex_iff)
qed

lemma chain_accepted: "fst (curl_verify_cert_chain env store request files) \<Longrightarrow> cr_cert_id request = 0 \<or> cr_cert_chain request \<noteq> 0"
  by (auto simp: curl_verify_cert_chain_def split: if_splits option.splits)

lemma u8_small: "n \<le> 32 \<Longrightarrow> unat (of_nat n :: u8) = n" "n \<le> 32 \<Longrightarrow> (of_nat n :: u8) = 0 \<longleftrightarrow> n = 0"
proof -
  show a: "n \<le> 32 \<Longrightarrow> unat (of_nat n :: u8) = n" by (simp add: unsigned_of_nat take_bit_nat_eq_self)
  show "n \<le> 32 \<Longrightarrow> (of_nat n :: u8) = 0 \<longleftrightarrow> n = 0" using a by (metis unat_0 unat_eq_0)
qed

text \<open>One event of a transfer with keys to check against.\<close>

lemma connect_step:
  assumes "transfer_ok env trust m acc data request"
  shows "\<exists>go request' files'. curl_event_step env store Ev_connect request files = Some (go, request', files') \<and>
    transfer_ok env trust m (if go then [] else acc) data request'"
  using assms
  by (auto simp: curl_ssl_ctx_def curl_lock_def curl_unlock_def transfer_ok_def split: prod.splits if_splits)

lemma cert_step:
  assumes "transfer_ok env trust m acc data request" "trust \<noteq> CURL_PKEY_TRUST_SYSTEM" "ce_keys env trust \<noteq> []"
  shows "\<exists>go request'. curl_event_step env store (Ev_cert ok cert) request files = Some (go, request', files) \<and>
    transfer_ok env trust m (if go then acc @ [cert] else acc) data request'"
proof -
  obtain cn key where cert: "cert = (cn, key)" by fastforce
  have id: "unat (cr_cert_id request) = length acc" "length acc \<le> 32" using assms(1) u8_small(1) by (auto simp: transfer_ok_def)
  show ?thesis
  proof (cases "ok \<and> cn \<noteq> None \<and> key \<noteq> None \<and> cn \<noteq> Some [] \<and> 0 \<notin> set (the cn) \<and> length acc \<noteq> 32")
    case True
    then obtain c k where ck: "cn = Some c" "key = Some k" by blast
    let ?r = "request\<lparr>cr_locked := False, cr_cert_cn := Some c, cr_cert_chain := cert_match k (ce_keys env trust) (cr_cert_id request) (cr_cert_chain request),
        cr_cert_id := cr_cert_id request + 1\<rparr>"
    have "curl_event_step env store (Ev_cert ok cert) request files = Some (True, ?r, files)"
      using True assms ck id by (simp add: cert curl_ssl_verify_def curl_lock_def curl_unlock_def transfer_ok_def Let_def)
    moreover have "bit (cert_match k (ce_keys env trust) (cr_cert_id request) (cr_cert_chain request)) i \<longrightarrow>
        i < length (acc @ [cert]) \<and> trusted_key env trust ((acc @ [cert]) ! i)" for i
      using assms(1) id
      by (auto simp: cert_match_eq transfer_ok_def bit_or_iff bit_exp_iff nth_append cert ck trusted_key_def less_Suc_eq split: if_splits)
    ultimately show ?thesis using assms(1) True id by (auto simp: transfer_ok_def)
  next
    case False
    have unlocked: "\<not> cr_locked request" and trust: "cr_trust request = trust" using assms(1) by (simp_all add: transfer_ok_def)
    have same: "request\<lparr>cr_locked := False\<rparr> = request" using unlocked by (cases request) simp
    have "\<exists>cn'. curl_event_step env store (Ev_cert ok cert) request files = Some (False, request\<lparr>cr_cert_cn := cn', cr_locked := False\<rparr>, files)"
    proof (cases "\<not> ok \<or> cn = None \<or> key = None \<or> cn = Some [] \<or> 0 \<in> set (the cn)")
      case True
      then have "curl_event_step env store (Ev_cert ok cert) request files = Some (False, request, files)"
        using assms(2,3) unlocked trust same
        by (cases cn; cases key) (auto simp: cert curl_ssl_verify_def curl_lock_def curl_unlock_def Let_def)
      then show ?thesis using same by (intro exI [of _ "cr_cert_cn request"]) simp
    next
      case valid: False
      then obtain c k where "cn = Some c" "key = Some k" "c \<noteq> []" "0 \<notin> set c" "ok" by (cases cn; cases key) auto
      moreover have "length acc = 32" using False valid by auto
      ultimately show ?thesis using assms(2,3) unlocked trust id
        by (intro exI [of _ "Some c"]) (simp add: cert curl_ssl_verify_def curl_lock_def curl_unlock_def Let_def)
    qed
    then show ?thesis using assms(1) by (auto simp: transfer_ok_def)
  qed
qed

lemma header_step:
  assumes "transfer_ok env trust m acc data request"
  shows "\<exists>go request' files'. curl_event_step env store (Ev_header b s n) request files = Some (go, request', files') \<and>
    transfer_ok env trust m acc data request'"
  using assms by (auto simp: curl_header_callback_def curl_lock_def curl_unlock_def transfer_ok_def Let_def split: prod.splits)

lemma body_step:
  assumes "transfer_ok env trust m acc data request" "length b = s * n" "length b \<le> SIZE_MAX"
  shows "\<exists>go request' files'. curl_event_step env store (Ev_body b s n) request files = Some (go, request', files') \<and>
    transfer_ok env trust m acc (if go then data @ b else data) request' \<and>
    (go \<and> b \<noteq> [] \<longrightarrow> acc = [] \<or> (\<exists>cert \<in> set acc. trusted_key env trust cert))"
proof -
  obtain ok files' where v: "curl_verify_cert_chain env store (request\<lparr>cr_locked := True\<rparr>) files = (ok, files')" by fastforce
  have unlocked: "\<not> cr_locked request" using assms(1) by (simp add: transfer_ok_def)
  have trusted: "acc = [] \<or> (\<exists>cert \<in> set acc. trusted_key env trust cert)" if ok
  proof -
    from chain_accepted [of env store "request\<lparr>cr_locked := True\<rparr>" files] v that
    consider "cr_cert_id request = 0" | "cr_cert_chain request \<noteq> 0" by auto
    then show ?thesis
    proof cases
      case 1
      then show ?thesis using assms(1) u8_small(2) [of "length acc"] by (simp add: transfer_ok_def)
    next
      case 2
      then obtain i where "bit (cr_cert_chain request) i" by (metis bit_eqI bit_0_eq bot_apply bot_bool_def)
      then show ?thesis using assms(1) nth_mem unfolding transfer_ok_def by blast
    qed
  qed
  have real: "size_mult s n = length b" using assms(2,3) by (simp add: size_mult_def)
  have div: "s \<noteq> 0 \<Longrightarrow> length b div s = n" using assms(2) by simp
  show ?thesis
  proof (cases "ok \<and> \<not> (length b > m - length data \<or> length b > SIZE_MAX - length data - 1 \<or> length data = SIZE_MAX)")
    case True
    let ?r = "request\<lparr>cr_locked := False, cr_body := Some (data @ b), cr_body_size := length data + length b\<rparr>"
    have "curl_event_step env store (Ev_body b s n) request files = Some (True, ?r, files')"
      using True assms(1) v unlocked div
      by (auto simp: curl_callback_def curl_lock_def curl_unlock_def transfer_ok_def Let_def real split: option.splits)
    moreover have "transfer_ok env trust m acc (data @ b) ?r" using assms(1) True by (auto simp: transfer_ok_def)
    ultimately show ?thesis using trusted True by auto
  next
    case False
    then have "curl_event_step env store (Ev_body b s n) request files = Some (length b = 0, request\<lparr>cr_locked := False\<rparr>, files')"
      using assms(1) v unlocked
      by (auto simp: curl_callback_def curl_lock_def curl_unlock_def transfer_ok_def Let_def real)
    then show ?thesis using assms(1) by (auto simp: transfer_ok_def)
  qed
qed

lemma event_step_trusted:
  assumes "transfer_ok env trust m acc data request" "trust \<noteq> CURL_PKEY_TRUST_SYSTEM" "ce_keys env trust \<noteq> []" "event_ok e"
  shows "\<exists>go request' files'. curl_event_step env store e request files = Some (go, request', files') \<and>
    transfer_ok env trust m (if go then certs_seen acc [e] else acc) (if go then data @ body_data [e] else data) request' \<and>
    (go \<longrightarrow> trusted_events env trust acc [e])"
proof (cases e)
  case Ev_connect
  obtain go r f where "curl_event_step env store Ev_connect request files = Some (go, r, f)" "transfer_ok env trust m (if go then [] else acc) data r"
    using connect_step [OF assms(1)] by blast
  then show ?thesis using Ev_connect by (intro exI [of _ go] exI [of _ r] exI [of _ f]) (simp split: if_splits)
next
  case (Ev_cert ok cert)
  obtain go r where "curl_event_step env store (Ev_cert ok cert) request files = Some (go, r, files)"
    "transfer_ok env trust m (if go then acc @ [cert] else acc) data r"
    using cert_step [OF assms(1) assms(2,3)] by blast
  then show ?thesis using Ev_cert by (intro exI [of _ go] exI [of _ r] exI [of _ files]) (simp split: if_splits)
next
  case (Ev_header b s n)
  obtain go r f where "curl_event_step env store (Ev_header b s n) request files = Some (go, r, f)" "transfer_ok env trust m acc data r"
    using header_step [OF assms(1)] by blast
  then show ?thesis using Ev_header by (intro exI [of _ go] exI [of _ r] exI [of _ f]) (simp split: if_splits)
next
  case (Ev_body b s n)
  then have "length b = s * n" "length b \<le> SIZE_MAX" using assms(4) by (simp_all add: event_ok_def)
  then obtain go r f where "curl_event_step env store (Ev_body b s n) request files = Some (go, r, f)"
    "transfer_ok env trust m acc (if go then data @ b else data) r" "go \<and> b \<noteq> [] \<longrightarrow> acc = [] \<or> (\<exists>cert \<in> set acc. trusted_key env trust cert)"
    using body_step [OF assms(1)] by blast
  then show ?thesis using Ev_body by (intro exI [of _ go] exI [of _ r] exI [of _ f]) (simp add: list_ex_iff split: if_splits)
qed

lemma perform_trusted:
  assumes "transfer_ok env trust m acc data request" "trust \<noteq> CURL_PKEY_TRUST_SYSTEM" "ce_keys env trust \<noteq> []" "list_all event_ok es"
  shows "\<exists>go request' files' fs. curl_easy_perform env store es request files = Some (go, request', files') \<and>
    prefix fs es \<and> (go \<longrightarrow> fs = es) \<and> trusted_events env trust acc fs \<and>
    transfer_ok env trust m (certs_seen acc fs) (data @ body_data fs) request'"
  using assms(1,4)
proof (induction es arbitrary: acc data request files)
  case Nil
  then show ?case by (auto intro!: exI [of _ "[]"])
next
  case (Cons e es)
  define acc' where "acc' = certs_seen acc [e]"
  define data' where "data' = data @ body_data [e]"
  have rest: "certs_seen acc (e # fs) = certs_seen acc' fs" "data @ body_data (e # fs) = data' @ body_data fs" for fs
    by (cases e; simp add: acc'_def data'_def)+
  have trusted: "trusted_events env trust acc (e # fs) \<longleftrightarrow> trusted_events env trust acc [e] \<and> trusted_events env trust acc' fs" for fs
    by (cases e) (auto simp: acc'_def)
  obtain go r f where step: "curl_event_step env store e request files = Some (go, r, f)"
    "transfer_ok env trust m (if go then acc' else acc) (if go then data' else data) r" "go \<longrightarrow> trusted_events env trust acc [e]"
    using event_step_trusted [OF Cons.prems(1) assms(2,3), of e store files] Cons.prems(2)
    unfolding acc'_def [symmetric] data'_def [symmetric] list.pred_inject by blast
  show ?case
  proof (cases go)
    case True
    then have ok: "transfer_ok env trust m acc' data' r" using step(2) by simp
    have es: "list_all event_ok es" using Cons.prems(2) by simp
    obtain go' r' f' fs where "curl_easy_perform env store es r f = Some (go', r', f')" "prefix fs es" "go' \<longrightarrow> fs = es"
      "trusted_events env trust acc' fs" "transfer_ok env trust m (certs_seen acc' fs) (data' @ body_data fs) r'"
      using Cons.IH [OF ok es, of f] by blast
    moreover have "trusted_events env trust acc (e # fs)" using trusted [of fs] step(3) True calculation(4) by blast
    ultimately show ?thesis using step(1) True rest [of fs]
      by (intro exI [of _ go'] exI [of _ r'] exI [of _ f'] exI [of _ "e # fs"]) (simp del: trusted_events.simps)
  next
    case False
    then show ?thesis using step by (intro exI [of _ False] exI [of _ r] exI [of _ f] exI [of _ "[]"]) simp
  qed
qed

text \<open>Of a transfer checked against trusted keys, whatever libcurl and the peer do: no mutex is
  locked twice, the body holds exactly the body data up to the point where the transfer was ended,
  never more than the limit of the request, and every byte of it came over a connection that showed
  either no certificate or one with a trusted key.\<close>

theorem transfer_trusted:
  assumes "trust \<noteq> CURL_PKEY_TRUST_SYSTEM" "ce_keys env trust \<noteq> []" "list_all event_ok events"
    "curl_request_set_max_body maximum (curl_request_create url trust) = Some request"
  shows "\<exists>go request' files' accepted. curl_easy_perform env store events request files = Some (go, request', files') \<and>
    prefix accepted events \<and> (go \<longrightarrow> accepted = events) \<and> trusted_events env trust [] accepted \<and>
    (case cr_body request' of None \<Rightarrow> [] | Some b \<Rightarrow> b) = body_data accepted \<and>
    cr_body_size request' = length (body_data accepted) \<and> length (body_data accepted) \<le> maximum \<and> \<not> cr_locked request'"
proof -
  have "transfer_ok env trust maximum [] [] request"
    using assms(4) by (auto simp: transfer_ok_def curl_request_set_max_body_def curl_request_create_def curl_lock_def curl_unlock_def split: if_splits)
  from perform_trusted [OF this assms(1-3), of store files] show ?thesis unfolding transfer_ok_def append_Nil by blast
qed

theorem transfer_trusted_witness:
  "let env = \<lparr>ce_keys = (\<lambda>_. [7 :: nat]), ce_data_dir = [], ce_digest = (\<lambda>_. Some (replicate 32 0))\<rparr>;
       request = curl_request_create [] CURL_PKEY_TRUST_APPLICATION
   in \<exists>go request' files'. curl_easy_perform env (\<lambda>_. None) [Ev_connect, Ev_cert True (Some [97], Some 3), Ev_body [1, 2] 1 2]
        request Map.empty = Some (go, request', files') \<and> \<not> go \<and> cr_body_size request' = 0"
proof -
  let ?env = "\<lparr>ce_keys = (\<lambda>_. [7 :: nat]), ce_data_dir = [], ce_digest = (\<lambda>_. Some (replicate 32 0))\<rparr>"
  let ?es = "[Ev_connect, Ev_cert True (Some [97], Some 3), Ev_body [1, 2] 1 2] :: nat curl_event list"
  let ?r = "curl_request_create [] CURL_PKEY_TRUST_APPLICATION"
  have "curl_request_set_max_body SIZE_MAX ?r = Some ?r"
    by (simp add: curl_request_set_max_body_def curl_request_create_def curl_lock_def curl_unlock_def SIZE_MAX_def)
  moreover have "list_all event_ok ?es" by (simp add: event_ok_def SIZE_MAX_def)
  ultimately obtain go r' f' accepted where run: "curl_easy_perform ?env (\<lambda>_. None) ?es ?r Map.empty = Some (go, r', f')"
    "prefix accepted ?es" "go \<longrightarrow> accepted = ?es" "trusted_events ?env CURL_PKEY_TRUST_APPLICATION [] accepted"
    "cr_body_size r' = length (body_data accepted)"
    using transfer_trusted [of CURL_PKEY_TRUST_APPLICATION ?env ?es SIZE_MAX "[]" ?r "\<lambda>_. None" Map.empty] by auto
  have "accepted \<noteq> ?es" using run(4) by (auto simp: trusted_key_def)
  moreover have "body_data accepted = []" using run(2) calculation by (auto simp: prefix_Cons)
  ultimately show ?thesis using run by (auto simp: Let_def)
qed


section \<open>Threads\<close>

text \<open>A request started with GET is never freed while its thread runs, whatever the owner and
  the thread do: freeing waits for the thread. A request started with POST is freed at once, so
  that its thread goes on with memory that is gone.\<close>

theorem started_request_freed:
  "(request_step\<^sup>*\<^sup>* (request_started curl_request_start_get created request) s \<longrightarrow> \<not> (rl_request s = None \<and> rl_running s)) \<and>
   (\<not> cr_threaded request \<longrightarrow>
     (\<exists>s. request_step\<^sup>*\<^sup>* (request_started curl_request_start_post True request) s \<and> rl_request s = None \<and> rl_running s))"
proof (intro conjI impI)
  assume "request_step\<^sup>*\<^sup>* (request_started curl_request_start_get created request) s"
  then have "rl_running s \<longrightarrow> (\<exists>r. rl_request s = Some r \<and> cr_threaded r)"
  proof (induction rule: rtranclp_induct)
    case base
    then show ?case by (simp add: request_started_def curl_request_start_get_def)
  next
    case (step s s')
    from step.hyps(2) show ?case by cases (use step.IH in auto)
  qed
  then show "\<not> (rl_request s = None \<and> rl_running s)" by auto
next
  assume plain: "\<not> cr_threaded request"
  let ?s0 = "request_started curl_request_start_post True request"
  define r where "r = (if cr_state request = CURL_STATE_INPROGRESS then request\<lparr>cr_finished := True\<rparr> else request)"
  have "request_step ?s0 (?s0\<lparr>rl_freeing := True, rl_request := Some r\<rparr>)"
    unfolding r_def by (rule request_step.free_begin) (simp_all add: request_started_def curl_request_start_post_def)
  moreover have "request_step (?s0\<lparr>rl_freeing := True, rl_request := Some r\<rparr>) (?s0\<lparr>rl_freeing := True, rl_request := Some r, rl_request := None\<rparr>)"
    by (rule request_step.free_end [where request = r]) (use plain in \<open>simp_all add: r_def\<close>)
  ultimately have "request_step\<^sup>*\<^sup>* ?s0 (?s0\<lparr>rl_freeing := True, rl_request := Some r, rl_request := None\<rparr>)"
    by (meson converse_rtranclp_into_rtranclp r_into_rtranclp)
  then show "\<exists>s. request_step\<^sup>*\<^sup>* ?s0 s \<and> rl_request s = None \<and> rl_running s"
    by (intro exI conjI, assumption) (simp_all add: request_started_def)
qed

theorem started_request_freed_witness:
  "\<exists>s. request_step\<^sup>*\<^sup>* (request_started curl_request_start_post True (curl_request_create [] CURL_PKEY_TRUST_SYSTEM)) s \<and>
     rl_request s = None \<and> rl_running s"
  using started_request_freed [of True "curl_request_create [] CURL_PKEY_TRUST_SYSTEM" undefined] by (simp add: curl_request_create_def)


section \<open>The cache\<close>

text \<open>The ETag of a header: the value of the first line that begins with its name.\<close>

fun etag_of_lines :: "bytes list \<Rightarrow> bytes option" where
  "etag_of_lines [] = None"
| "etag_of_lines (l # ls) = (if take 5 l = str ''ETag:'' then Some (string_whitespace_trim (drop 5 l)) else etag_of_lines ls)"

definition header_text :: "bytes list \<Rightarrow> bytes" where
  "header_text ls = concat (map (\<lambda>l. l @ [10]) ls)"

definition header_line :: "bytes \<Rightarrow> bool" where
  "header_line l \<longleftrightarrow> l \<noteq> [] \<and> 0 \<notin> set l \<and> 10 \<notin> set l \<and> length l < HUGE_BUF"

lemma header_line_hd: "header_line l \<Longrightarrow> hd l \<noteq> 10"
  by (cases l) (auto simp: header_line_def)

lemma word_loop_line:
  assumes "0 \<notin> set l" "10 \<notin> set l" "length (w @ l) < W" "rest = [] \<or> hd rest = 10"
  shows "string_word_loop (pre @ w @ l @ rest) 10 W 0 (length pre + length w) False w = (length pre + length w + length l, w @ l)"
  using assms(1-3)
proof (induction l arbitrary: w)
  case Nil
  then show ?case using assms(4) by (subst string_word_loop.simps) (cases rest; auto simp: nth_append)
next
  case (Cons c l)
  have c: "c \<noteq> 0" "sint c \<noteq> 0" "c \<noteq> 10" using Cons.prems by (auto simp: signed_eq_0_iff)
  have room: "length w < W - 1" using Cons.prems(3) by simp
  have nth: "(pre @ w @ (c # l) @ rest) ! (length pre + length w) = c" by (simp add: nth_append)
  have "string_word_loop (pre @ w @ (c # l) @ rest) 10 W 0 (length pre + length w) False w =
    string_word_loop (pre @ (w @ [c]) @ l @ rest) 10 W 0 (length pre + length (w @ [c])) False (w @ [c])"
    using room c nth by (subst string_word_loop.simps) simp
  also have "\<dots> = (length pre + length (w @ [c]) + length l, (w @ [c]) @ l)" by (rule Cons.IH) (use Cons.prems in auto)
  finally show ?case by simp
qed

lemma get_word_line:
  assumes "header_line l" "rest = [] \<or> hd rest \<noteq> 10"
  shows "string_get_word (Some (pre @ l @ 10 # rest)) (length pre) 10 HUGE_BUF 0 = (length pre + length l + 1, l, True)"
proof -
  let ?s = "pre @ l @ 10 # rest"
  have l: "l \<noteq> []" "hd l \<noteq> 10" "0 \<notin> set l" "10 \<notin> set l" "length l < HUGE_BUF"
    using assms(1) header_line_hd [OF assms(1)] by (auto simp: header_line_def)
  have "?s ! length pre = hd l" using l(1) by (cases l) (auto simp: nth_append)
  then have "string_word_skip ?s 10 (length pre) = length pre" using l(2) by (subst string_word_skip.simps) simp
  moreover have "string_word_loop ?s 10 HUGE_BUF 0 (length pre) False [] = (length pre + length l, l)"
    using word_loop_line [of l "[]" HUGE_BUF "10 # rest" pre] l by simp
  moreover have "string_word_skip ?s 10 (length pre + length l) = length pre + length l + 1"
  proof -
    have "?s ! (length pre + length l) = 10" by (simp add: nth_append)
    moreover have "\<not> (length pre + length l + 1 < length ?s \<and> ?s ! (length pre + length l + 1) = 10)"
      using assms(2) by (cases rest) (auto simp: nth_append)
    moreover have "string_word_skip ?s 10 (length pre + length l + 1) = length pre + length l + 1"
      using calculation(2) by (subst string_word_skip.simps) (simp only: if_False)
    ultimately show ?thesis by (subst string_word_skip.simps) simp
  qed
  ultimately show ?thesis using l(1) by (simp add: string_get_word_def)
qed

lemma split_none:
  assumes "0 \<notin> set a" "sep \<notin> set a" "sep \<noteq> 0" "a \<noteq> []"
  shows "string_split (Some (a @ [0])) 2 sep = Some ([0], a @ [0])"
proof -
  have tw: "takeWhile (\<lambda>c. c \<noteq> sep) a = a" using assms(2) by (auto simp: takeWhile_eq_all_conv)
  have "string_split_scan sep (a @ [0]) 0 = length (takeWhile (\<lambda>c. c \<noteq> sep) a)" using split_scan_end [of a sep "[]" "[]"] assms(1) by simp
  then have "string_split_scan sep (a @ [0]) 0 = length a" unfolding tw .
  moreover have "hd (a @ [0]) \<noteq> 0" using assms(1,4) by (cases a) auto
  ultimately show ?thesis using assms(3) by (simp add: string_split_def numeral_2_eq_2)
qed

lemma etag_step_line:
  assumes "header_line l" "rest = [] \<or> hd rest \<noteq> 10"
  shows "curl_etag_step (pre @ l @ 10 # rest) (length pre) =
    Some (if take 5 l = str ''ETag:'' then Inr (Some (string_whitespace_trim (drop 5 l))) else Inl (length pre + length l + 1))"
proof -
  have l: "l \<noteq> []" "0 \<notin> set l" using assms(1) by (auto simp: header_line_def)
  note word = get_word_line [OF assms]
  have tag: "str ''ETag:'' = str ''ETag'' @ [58]" "58 \<notin> set (str ''ETag'')" "length (str ''ETag'') = 4" by (simp_all add: str_def)
  show ?thesis
  proof (cases "58 \<in> set l")
    case False
    then have "take 5 l \<noteq> str ''ETag:''" using set_take_subset [of 5 l] by (auto simp: str_def)
    then show ?thesis using split_none [OF l(2) False _ l(1)] by (simp add: curl_etag_step_def word)
  next
    case True
    then obtain a b where ab: "l = a @ 58 # b" "58 \<notin> set a" by (metis split_list_first)
    have z: "0 \<notin> set a" "0 \<notin> set b" using l(2) ab by auto
    have first_part: "takeWhile (\<lambda>c. c \<noteq> 58) (x @ 58 # y) = x" if "58 \<notin> set x" for x y :: bytes
      using that by (simp add: takeWhile_append)
    have "a = str ''ETag'' \<longleftrightarrow> take 5 l = str ''ETag:''"
    proof
      assume "take 5 l = str ''ETag:''"
      then have "l = str ''ETag'' @ 58 # drop 5 l" using append_take_drop_id [of 5 l] tag(1) by simp
      then have "takeWhile (\<lambda>c. c \<noteq> 58) l = str ''ETag''" using first_part [OF tag(2)] by metis
      then show "a = str ''ETag''" using first_part [OF ab(2), of b] ab(1) by simp
    qed (use ab tag in simp)
    moreover have "drop 5 l = b" if "a = str ''ETag''" using ab tag that by simp
    moreover have "c_string (a @ 0 # b @ [0]) = a" "c_string (b @ [0]) = b"
      unfolding c_string_def using takeWhile_terminated [OF z(1)] takeWhile_terminated [OF z(2), of "[]"] by simp_all
    moreover have "string_split (Some (l @ [0])) 2 58 = Some ([0, length a + 1], a @ 0 # b @ [0])" using split_two [OF z ab(2)] ab(1) by simp
    ultimately show ?thesis by (simp add: curl_etag_step_def word)
  qed
qed

lemma etag_loop:
  assumes "list_all header_line ls"
  shows "c_loop (curl_etag_step (pre @ header_text ls)) (length pre) = Some (etag_of_lines ls)"
  using assms
proof (induction ls arbitrary: pre)
  case Nil
  have "string_word_skip pre 10 (length pre) = length pre" by (subst string_word_skip.simps) simp
  moreover have "string_word_loop pre 10 HUGE_BUF 0 (length pre) False [] = (length pre, [])" by (subst string_word_loop.simps) simp
  ultimately have "curl_etag_step pre (length pre) = Some (Inr None)" by (simp add: curl_etag_step_def string_get_word_def)
  then show ?case by (simp add: header_text_def c_loop_leave)
next
  case (Cons l ls)
  let ?body = "curl_etag_step (pre @ header_text (l # ls))"
  have "header_text ls = [] \<or> hd (header_text ls) \<noteq> 10"
    using Cons.prems by (cases ls) (auto simp: header_text_def hd_append header_line_hd, simp add: header_line_def)
  from etag_step_line [OF _ this, of l pre] Cons.prems
  have step: "curl_etag_step (pre @ header_text (l # ls)) (length pre) =
    Some (if take 5 l = str ''ETag:'' then Inr (Some (string_whitespace_trim (drop 5 l))) else Inl (length pre + length l + 1))"
    by (simp add: header_text_def)
  show ?case
  proof (cases "take 5 l = str ''ETag:''")
    case True
    then show ?thesis using c_loop_leave [of ?body "length pre", OF step [unfolded if_P [OF True]]] True by simp
  next
    case False
    have "c_loop (curl_etag_step ((pre @ l @ [10]) @ header_text ls)) (length (pre @ l @ [10])) = Some (etag_of_lines ls)"
      by (rule Cons.IH) (use Cons.prems in simp)
    then show ?thesis using c_loop_continue [of ?body "length pre", OF step [unfolded if_not_P [OF False]]] False by (simp add: header_text_def)
  qed
qed

lemma find_etag_lines: "list_all header_line ls \<Longrightarrow> curl_find_etag (header_text ls) = Some (etag_of_lines ls)"
proof -
  assume ls: "list_all header_line ls"
  then have "0 \<notin> set (header_text ls)" by (auto simp: header_text_def header_line_def list_all_iff)
  then have "c_string (header_text ls) = header_text ls" by (auto simp: c_string_def takeWhile_eq_all_conv)
  then show ?thesis using etag_loop [OF ls, of "[]"] by (simp add: curl_find_etag_def)
qed

text \<open>What a transfer leaves alone: the path of the request, and all files but those of the chains.\<close>

lemma verify_chain_files:
  assumes "\<And>cn. curl_chain_path env cn \<noteq> Some q"
  shows "snd (curl_verify_cert_chain env store request files) q = files q"
  using assms by (auto simp: curl_verify_cert_chain_def chain_save_def split: option.splits if_splits)

lemma event_step_frame:
  assumes "curl_event_step env store e request files = Some (go, request', files')"
  shows "cr_path request' = cr_path request" "cr_max_body_size request' = cr_max_body_size request"
    "(\<And>cn. curl_chain_path env cn \<noteq> Some q) \<Longrightarrow> files' q = files q"
proof -
  have vf: "f q = files q" if "curl_verify_cert_chain env store r files = (b, f)" "\<And>cn. curl_chain_path env cn \<noteq> Some q" for r b f
    using verify_chain_files [OF that(2), of store r files] that(1) by simp
  show "cr_path request' = cr_path request" "cr_max_body_size request' = cr_max_body_size request"
    using assms by (cases e; auto simp: curl_ssl_ctx_def curl_ssl_verify_def curl_header_callback_def curl_callback_def curl_lock_def curl_unlock_def Let_def
        split: if_splits prod.splits option.splits bind_splits)+
  show "files' q = files q" if "\<And>cn. curl_chain_path env cn \<noteq> Some q"
    using assms vf that by (cases e) (auto simp: curl_ssl_ctx_def curl_header_callback_def curl_callback_def curl_lock_def curl_unlock_def Let_def
        split: if_splits prod.splits option.splits bind_splits)
qed

lemma perform_frame:
  assumes "curl_easy_perform env store es request files = Some (go, request', files')"
  shows "cr_path request' = cr_path request \<and> cr_max_body_size request' = cr_max_body_size request \<and>
    ((\<forall>cn. curl_chain_path env cn \<noteq> Some q) \<longrightarrow> files' q = files q)"
  using assms
proof (induction es arbitrary: request files)
  case (Cons e es)
  then obtain b r f where step: "curl_event_step env store e request files = Some (b, r, f)" by (cases "curl_event_step env store e request files") auto
  note fr = event_step_frame [OF step]
  show ?case
  proof (cases b)
    case True
    then show ?thesis using Cons.IH [of r f] Cons.prems step fr by auto
  next
    case False
    then show ?thesis using Cons.prems step fr by auto
  qed
qed simp

lemma setup_frame:
  assumes "curl_request_setup setopt request = Some (state, r)"
  shows "cr_path r = cr_path request" "cr_max_body_size r = cr_max_body_size request"
  using assms by (auto simp: curl_request_setup_def curl_lock_def curl_unlock_def split: if_splits bind_splits)

lemma complete_ok:
  assumes "curl_request_complete env t request files = Some (CURL_STATE_OK, r, files')"
  shows "cr_path r = cr_path request"
    "ct_http_code t = 200 \<Longrightarrow> \<exists>f0. curl_write_cache (ct_write t) r f0 = Some files' \<and> ((\<forall>cn. curl_chain_path env cn \<noteq> Some q) \<longrightarrow> f0 q = files q)"
    "ct_http_code t = 304 \<Longrightarrow> (\<forall>cn. curl_chain_path env cn \<noteq> Some q) \<Longrightarrow> cr_path request = Some q \<Longrightarrow>
      \<exists>content. files q = Some content \<and> cr_body r = Some content \<and> cr_body_size r = length content"
    "ct_http_code t = 200 \<or> ct_http_code t = 304"
proof -
  obtain ok r0 f0 where p: "curl_easy_perform env (ct_store t) (ct_events t) request files = Some (ok, r0, f0)"
    using assms by (cases "curl_easy_perform env (ct_store t) (ct_events t) request files") (auto simp: curl_request_complete_def)
  note fr = perform_frame [OF p]
  have u: "cr_path (curl_unlock x) = cr_path x" "cr_header (curl_unlock x) = cr_header x" "cr_body (curl_unlock x) = cr_body x"
    "cr_body_size (curl_unlock x) = cr_body_size x" for x by (simp_all add: curl_unlock_def)
  have wc: "curl_write_cache w (curl_unlock x) f = curl_write_cache w x f" for w x f
    by (simp only: curl_write_cache_def u)
  show "cr_path r = cr_path request" "ct_http_code t = 200 \<or> ct_http_code t = 304"
    using assms fr
    by (auto simp: curl_request_complete_def p curl_lock_def curl_unlock_def curl_load_cache_def Let_def split: if_splits bind_splits option.splits)
  show "\<exists>f0. curl_write_cache (ct_write t) r f0 = Some files' \<and> ((\<forall>cn. curl_chain_path env cn \<noteq> Some q) \<longrightarrow> f0 q = files q)" if "ct_http_code t = 200"
  proof -
    have "curl_write_cache (ct_write t) r f0 = Some files'"
      using assms that wc by (auto simp: curl_request_complete_def p curl_lock_def Let_def split: if_splits bind_splits)
    then show ?thesis using fr by blast
  qed
  show "\<exists>content. files q = Some content \<and> cr_body r = Some content \<and> cr_body_size r = length content"
    if "ct_http_code t = 304" "\<forall>cn. curl_chain_path env cn \<noteq> Some q" "cr_path request = Some q"
    using assms that fr
    by (auto simp: curl_request_complete_def p curl_lock_def curl_unlock_def curl_load_cache_def Let_def split: if_splits bind_splits option.splits)
qed

lemma do_get_ok:
  assumes "curl_request_do_get env t request files = Some (sent, called, r, files')" "cr_state r = CURL_STATE_OK"
  shows "sent = (case curl_load_etag request files of None \<Rightarrow> [] | Some etag \<Rightarrow> [c_snprintf MAX_BUF (str ''If-None-Match: '' @ etag)])"
    "\<exists>r0 r1. curl_request_complete env t r0 files = Some (CURL_STATE_OK, r1, files') \<and> cr_path r0 = cr_path request \<and>
      cr_path r = cr_path r1 \<and> cr_header r = cr_header r1 \<and> cr_body r = cr_body r1 \<and> cr_body_size r = cr_body_size r1"
proof -
  have etag: "curl_load_etag (request\<lparr>cr_handle := h\<rparr>) files = curl_load_etag request files" for h by (simp add: curl_load_etag_def)
  show "sent = (case curl_load_etag request files of None \<Rightarrow> [] | Some etag \<Rightarrow> [c_snprintf MAX_BUF (str ''If-None-Match: '' @ etag)])"
    using assms by (auto simp: curl_request_do_get_def curl_request_done_def curl_lock_def curl_unlock_def etag Let_def split: if_splits bind_splits)
  have ended: "curl_request_done state x = Some (called, r) \<Longrightarrow> state = CURL_STATE_OK \<and> cr_path r = cr_path x \<and> cr_header r = cr_header x \<and>
      cr_body r = cr_body x \<and> cr_body_size r = cr_body_size x" for state x
    using assms(2) by (auto simp: curl_request_done_def curl_lock_def curl_unlock_def Let_def split: if_splits bind_splits)
  obtain state r0 where su: "curl_request_setup (ct_setopt t) (request\<lparr>cr_handle := ct_handle t\<rparr>) = Some (state, r0)"
    "ct_handle t" "state = CURL_STATE_OK" and rest: "\<exists>st r1. curl_request_complete env t r0 files = Some (st, r1, files') \<and> curl_request_done st r1 = Some (called, r)"
    using assms(1) ended by (auto simp: curl_request_do_get_def Let_def split: if_splits bind_splits)
  then show "\<exists>r0 r1. curl_request_complete env t r0 files = Some (CURL_STATE_OK, r1, files') \<and> cr_path r0 = cr_path request \<and>
      cr_path r = cr_path r1 \<and> cr_header r = cr_header r1 \<and> cr_body r = cr_body r1 \<and> cr_body_size r = cr_body_size r1"
    using setup_frame(1) [OF su(1)] ended by auto
qed

lemma etag_clean: "list_all header_line ls \<Longrightarrow> etag_of_lines ls = Some e \<Longrightarrow> 0 \<notin> set e \<and> 10 \<notin> set e"
proof (induction ls)
  case (Cons l ls)
  then show ?case using trim_subset [of "drop 5 l"] set_drop_subset [of 5 l] by (auto simp: header_line_def split: if_splits)
qed simp

lemma stored_etag:
  assumes "0 \<notin> set e" "10 \<notin> set e"
  shows "c_string (fst (c_fgets (length e + 1) e)) = e"
proof -
  have "takeWhile (\<lambda>b. b \<noteq> 10) e = e" using assms(2) by (auto simp: takeWhile_eq_all_conv)
  then have "fst (c_fgets (length e + 1) e) = e" unfolding c_fgets_def by (simp only: Let_def) simp
  then show ?thesis using assms(1) by (auto simp: c_string_def takeWhile_eq_all_conv)
qed

text \<open>When a GET was answered with data that was stored in the cache, a later GET with the same path
  that is answered with 304 returns exactly this data. It sends the ETag of the first answer, the
  value of the first header line with that name; but if that answer had none, it sends the ETag
  that was stored before, for other data.\<close>

theorem cache_roundtrip:
  assumes "cr_path first = Some path" "cr_path second = Some path" "length path + 5 < HUGE_BUF"
    "\<forall>cn. curl_chain_path env cn \<noteq> Some path \<and> curl_chain_path env cn \<noteq> Some (curl_etag_path path)"
    "curl_request_do_get env t1 first files = Some (sent1, called1, r1, files1)" "cr_state r1 = CURL_STATE_OK" "ct_http_code t1 = 200"
    "cr_header r1 = Some (header_text lines)" "list_all header_line lines" "cr_body r1 = Some body" "cr_body_size r1 = length body"
    "ct_write t1 path" "ct_write t1 (curl_etag_path path)"
    "curl_request_do_get env t2 second files1 = Some (sent2, called2, r2, files2)" "cr_state r2 = CURL_STATE_OK" "ct_http_code t2 = 304"
  shows "cr_body r2 = Some body \<and> cr_body_size r2 = length body \<and>
    sent2 = (case (case etag_of_lines lines of Some e \<Rightarrow> Some e | None \<Rightarrow> curl_load_etag first files) of
        None \<Rightarrow> []
      | Some e \<Rightarrow> [c_snprintf MAX_BUF (str ''If-None-Match: '' @ e)])"
proof -
  have ep: "curl_etag_path path = path @ str ''.etag''" using assms(3) by (simp add: curl_etag_path_def c_snprintf_def str_def)
  then have other: "curl_etag_path path \<noteq> path" by (simp add: str_def)
  obtain r0 r where c1: "curl_request_complete env t1 r0 files = Some (CURL_STATE_OK, r, files1)" "cr_path r0 = Some path"
    "cr_path r1 = cr_path r" "cr_header r1 = cr_header r" "cr_body r1 = cr_body r" "cr_body_size r1 = cr_body_size r"
    using do_get_ok(2) [OF assms(5,6)] assms(1) by auto
  obtain f0 where f0: "curl_write_cache (ct_write t1) r f0 = Some files1" "f0 (curl_etag_path path) = files (curl_etag_path path)"
    using complete_ok(2) [OF c1(1) assms(7), of "curl_etag_path path"] assms(4) by blast
  have "cr_path r = Some path" using complete_ok(1) [OF c1(1)] c1(2) by simp
  then have files1: "files1 = (case etag_of_lines lines of None \<Rightarrow> f0(path \<mapsto> body) | Some e \<Rightarrow> f0(path \<mapsto> body, curl_etag_path path \<mapsto> e))"
    using f0(1) c1(4-6) assms(8,10-13) find_etag_lines [OF assms(9)] by (simp add: curl_write_cache_def split: option.splits)
  have stored: "files1 path = Some body" using other by (simp add: files1 split: option.splits)
  have "curl_load_etag second files1 = (case etag_of_lines lines of Some e \<Rightarrow> Some e | None \<Rightarrow> curl_load_etag first files)"
    using assms(1,2) f0(2) other etag_clean [OF assms(9)] stored_etag by (auto simp: curl_load_etag_def files1 split: option.splits)
  moreover obtain s0 s where c2: "curl_request_complete env t2 s0 files1 = Some (CURL_STATE_OK, s, files2)" "cr_path s0 = Some path"
    "cr_body r2 = cr_body s" "cr_body_size r2 = cr_body_size s"
    using do_get_ok(2) [OF assms(14,15)] assms(2) by auto
  moreover have "cr_body s = Some body \<and> cr_body_size s = length body"
    using complete_ok(3) [OF c2(1) assms(16), of path] assms(4) c2(2) stored by auto
  ultimately show ?thesis using do_get_ok(1) [OF assms(14,15)] by simp
qed

definition demo_env :: "nat curl_env" where
  "demo_env = \<lparr>ce_keys = (\<lambda>_. []), ce_data_dir = [], ce_digest = (\<lambda>_. None)\<rparr>"

definition demo_lines :: "bytes list" where
  "demo_lines = [str ''HTTP/1.1 200 OK'' @ [13], str ''ETag: abc'' @ [13], [13]]"

definition demo_transfer :: "int \<Rightarrow> nat curl_event list \<Rightarrow> nat curl_transfer" where
  "demo_transfer code events = \<lparr>ct_handle = True, ct_setopt = (\<lambda>_. True), ct_form = True, ct_events = events, ct_result = True, ct_http_code = code,
     ct_write = (\<lambda>_. True), ct_store = (\<lambda>_. None)\<rparr>"

definition demo_get :: curl_request where
  "demo_get = curl_request_set_path [102] (curl_request_create [] CURL_PKEY_TRUST_SYSTEM)"

lemma demo_first:
  "\<exists>sent called r files1. curl_request_do_get demo_env
     (demo_transfer 200 [Ev_header (header_text demo_lines) (length (header_text demo_lines)) 1, Ev_body [1, 2] 1 2]) demo_get Map.empty =
       Some (sent, called, r, files1) \<and> cr_state r = CURL_STATE_OK \<and> cr_header r = Some (header_text demo_lines) \<and>
       cr_body r = Some [1, 2] \<and> cr_body_size r = 2 \<and> files1 [102] = Some [1, 2]"
proof -
  have lines: "list_all header_line demo_lines" by (simp add: demo_lines_def header_line_def str_def HUGE_BUF_def)
  have tag: "etag_of_lines demo_lines = Some (str ''abc'')" by (simp add: demo_lines_def) code_simp
  have len: "length (header_text demo_lines) = 30" by (simp add: header_text_def demo_lines_def str_def)
  have path: "curl_etag_path [102] = [102] @ str ''.etag''" by (simp add: curl_etag_path_def c_snprintf_def HUGE_BUF_def str_def)
  show ?thesis
    by (simp add: curl_request_do_get_def demo_transfer_def demo_get_def curl_request_set_path_def curl_request_create_def curl_request_setup_def
        curl_lock_def curl_unlock_def curl_request_complete_def curl_header_callback_def curl_callback_def curl_verify_cert_chain_def size_mult_def len
        curl_write_cache_def find_etag_lines [OF lines] tag curl_request_done_def curl_load_etag_def SIZE_MAX_def path)
      (auto simp: str_def intro: exI [of _ False])
qed

lemma demo_second:
  assumes "files [102] = Some [1, 2]"
  shows "\<exists>sent called r files2. curl_request_do_get demo_env (demo_transfer 304 []) demo_get files = Some (sent, called, r, files2) \<and>
    cr_state r = CURL_STATE_OK"
  using assms
  by (simp add: curl_request_do_get_def demo_transfer_def demo_get_def curl_request_set_path_def curl_request_create_def curl_request_setup_def
      curl_lock_def curl_unlock_def curl_request_complete_def curl_load_cache_def curl_request_done_def SIZE_MAX_def)
    (rule exI [of _ False], simp)

theorem cache_roundtrip_witness:
  "\<exists>sent called r files1 sent2 called2 r2 files2.
     curl_request_do_get demo_env
       (demo_transfer 200 [Ev_header (header_text demo_lines) (length (header_text demo_lines)) 1, Ev_body [1, 2] 1 2]) demo_get Map.empty =
         Some (sent, called, r, files1) \<and>
     curl_request_do_get demo_env (demo_transfer 304 []) demo_get files1 = Some (sent2, called2, r2, files2) \<and>
     sent2 = [str ''If-None-Match: abc''] \<and> cr_body r2 = Some [1, 2]"
proof -
  let ?t1 = "demo_transfer 200 [Ev_header (header_text demo_lines) (length (header_text demo_lines)) 1, Ev_body [1, 2] 1 2]"
  obtain sent called r files1 where first: "curl_request_do_get demo_env ?t1 demo_get Map.empty = Some (sent, called, r, files1)"
    "cr_state r = CURL_STATE_OK" "cr_header r = Some (header_text demo_lines)" "cr_body r = Some [1, 2]" "cr_body_size r = 2" "files1 [102] = Some [1, 2]"
    using demo_first by blast
  obtain sent2 called2 r2 files2 where second: "curl_request_do_get demo_env (demo_transfer 304 []) demo_get files1 = Some (sent2, called2, r2, files2)"
    "cr_state r2 = CURL_STATE_OK" using demo_second [of files1] first(6) by blast
  have lines: "list_all header_line demo_lines" by (simp add: demo_lines_def header_line_def str_def HUGE_BUF_def)
  have tag: "etag_of_lines demo_lines = Some (str ''abc'')" by (simp add: demo_lines_def) code_simp
  have "cr_body r2 = Some [1, 2] \<and> sent2 = [c_snprintf MAX_BUF (str ''If-None-Match: '' @ str ''abc'')]"
    using cache_roundtrip [OF _ _ _ _ first(1,2) _ first(3) lines first(4) _ _ _ second, of "[102]"] first(5)
    by (simp add: tag demo_get_def curl_request_set_path_def HUGE_BUF_def curl_chain_path_def demo_env_def demo_transfer_def)
  then show ?thesis using first(1) second(1) by (simp add: c_snprintf_def MAX_BUF_def str_def)
qed

text \<open>The thread of a request waits for ever when libcurl refuses an option while the mutex is locked,
  and after a certificate was to be checked against pins that do not exist.\<close>

lemma setup_deadlock:
  assumes "ct_handle t" "\<not> cr_locked request" "\<And>o'. o' \<notin> {CURLOPT_URL, CURLOPT_REFERER, CURLOPT_SHARE} \<Longrightarrow> ct_setopt t o'"
    "\<not> ct_setopt t CURLOPT_URL \<or> \<not> ct_setopt t CURLOPT_REFERER \<or> \<not> ct_setopt t CURLOPT_SHARE"
  shows "curl_request_do_get env t request files = None"
  using assms by (auto simp: curl_request_do_get_def curl_request_setup_def curl_request_done_def curl_lock_def Let_def)

lemma missing_pins_deadlock:
  assumes "ct_handle t" "\<not> cr_locked request" "list_all (ct_setopt t) [CURLOPT_CONNECTTIMEOUT, CURLOPT_NOSIGNAL, CURLOPT_FOLLOWLOCATION,
      CURLOPT_MAXFILESIZE_LARGE, CURLOPT_XFERINFOFUNCTION, CURLOPT_XFERINFODATA, CURLOPT_URL, CURLOPT_REFERER, CURLOPT_SHARE, CURLOPT_WRITEFUNCTION,
      CURLOPT_WRITEDATA, CURLOPT_HEADERFUNCTION, CURLOPT_HEADERDATA, CURLOPT_USERAGENT, CURLOPT_SSL_CTX_FUNCTION, CURLOPT_SSL_CTX_DATA]"
    "cr_trust request = CURL_PKEY_TRUST_ULTIMATE" "ce_keys env CURL_PKEY_TRUST_ULTIMATE = []" "ct_events t = Ev_cert True cert # es"
  shows "curl_request_do_get env t request files = None"
  using assms
  by (auto simp: curl_request_do_get_def curl_request_setup_def curl_request_complete_def curl_ssl_verify_def curl_request_done_def curl_lock_def
      curl_unlock_def Let_def)

end
