(* ===== verification/Spec2Isabelle.thy ===== *)
theory Spec2Isabelle
  imports Pathfinding Packets Strings_Edit Socket_Asset Map_Correct Shstr_Correct Math_Rng Mempool_Correct
    Path_Correct Path_Files Bresenham Toolkit Clioptions_Runtime Password Punch_Correct
    Streams_Session Quic_Race_Correct Quic_Peer Http_Correct
begin

text \<open>
  Verification of libatrinik, the support library that the client and the server of the
  Atrinik game share. The library is a set of modules in C; the development models those
  that carry logic of their own, one group of theories for each, and proves that they do
  what their callers rely on.

  \<^bold>\<open>Parts and theories.\<close> All theories build on \<open>Prelude\<close> (machine types, the loop
  combinator, shared lemmas).

  \<^item> Pathfinding, \<open>src/pathfinding/pathfinding.c\<close>. \<open>Pf_Context\<close>: types, options, growable
    arrays and the hash index (\<open>pf_grow_array\<close> .. \<open>pf_add_node\<close>). \<open>Pf_Hash\<close>: the index answers
    what a linear scan would. \<open>Pf_Heap\<close>: the indexed binary heap and the interface
    \<open>frontier\<close>, interpreted on it. \<open>Pf_Search\<close>: the transition callback, path reconstruction,
    \<open>atrinik_pf_search\<close> and \<open>atrinik_pf_reachable\<close>. \<open>Pf_Graph\<close>, \<open>Pf_Emit\<close>, \<open>Pf_Correct\<close>,
    \<open>Pf_Reach\<close>: routes, invariants and total correctness. \<open>Pathfinding\<close>: termination, that a
    result is a route and an optimal one, when there is none, the budgets, the error cases.
  \<^item> Packets, \<open>src/packet.c\<close>. \<open>Packet\<close>: writer, reader, dispatch scopes. \<open>Packet_Codec\<close>: the
    interface \<open>field_codec\<close> between a write and the read that undoes it, with an
    interpretation for every field type. \<open>Packet_Message\<close>: strings, blocks and whole
    messages. \<open>Packet_Session\<close>: any sequence of calls as a step relation. \<open>Packets\<close>: round
    trips, exact parsing, bounds of writer and reader, rollback, copies.
  \<^item> Strings, \<open>src/string.c\<close> and \<open>src/stringbuffer.c\<close>. \<open>Cstring\<close>: the functions without
    buffers. \<open>Stringbuffer\<close>: the growing buffer, the interface \<open>text_buffer\<close> and the functions
    that use one. \<open>Strings\<close>, \<open>Strings_Edit\<close>: each function against a reference definition.
    \<open>Strings_Split\<close>: trimming and splitting of a line with a name and a value.
  \<^item> Asset protocol, \<open>src/socket_asset.c\<close>: \<open>Socket_Asset\<close>, on top of the packet theories.
  \<^item> MAP command validator, \<open>src/map_protocol.c\<close>: \<open>Map_Protocol\<close> (the validator),
    \<open>Map_Correct\<close> (it terminates, and what it accepts is self-delimiting).
  \<^item> Shared strings, \<open>src/shstr.c\<close>. \<open>Shstr\<close>: the hash table with its doubly linked lists and
    reference counts, and its contract. \<open>Shstr_Table\<close>: the invariant of the pointers.
    \<open>Shstr_Correct\<close>: the table refines the contract; \<open>stringbuffer_finish_shared\<close> on top of it.
  \<^item> Mathematics, \<open>src/math.c\<close>. \<open>Math_Rng\<close>: the random stream, its ranges, square roots and
    powers of two. \<open>Sort_List\<close>: \<open>sort_linked_list\<close> on a heap of \<open>next\<close> pointers.

  \<^item> Memory pools, \<open>src/mempool.c\<close>. \<open>Mempool\<close>: pools, freelists and puddles on a heap of
    chunks, where the puddles are themselves chunks of a pool. \<open>Mempool_Correct\<close>: through any
    creation of pools and getting and returning of chunks the freelists are disjoint and hold no
    chunk in use; getting a chunk terminates with a fresh one, a chunk returned to a pool is
    reused and cannot be returned twice. \<open>mempool_reclaim\<close> is outside these statements: it can
    free a chunk in use.
  \<^item> Paths and files, \<open>src/path.c\<close>. \<open>Path\<close>: the functions, with the answers of the operating
    system as arguments. \<open>Path_Correct\<close>: joining, splitting, what \<open>path_normalize\<close>
    computes (which is not quite what its comment says), and that safe relative paths stay below
    their directory. \<open>Path_Files\<close>: which secrets are accepted, text
    files, and the order of the calls of an atomic write.
  \<^item> Lines, \<open>src/bresenham.h\<close>: \<open>Bresenham\<close>, the stepping macros end at the end of the line,
    stay close to it and in the range of \<open>int\<close>.
  \<^item> Module start-up, \<open>src/toolkit.c\<close> and the macros of \<open>src/toolkit.h\<close>: \<open>Toolkit\<close>, the
    recursion over dependencies and imports ends and orders the modules, whatever was imported
    before, but runs some initialisations twice.
  \<^item> Command line options, \<open>src/clioptions.c\<close>. \<open>Clioptions\<close>: the option table, the command
    line and configuration files. \<open>Clioptions_Correct\<close>: which option is selected, that a line
    sets its value, and a value that is freed twice. \<open>Clioptions_Runtime\<close>: loading files ends,
    options fixed at run time stay so, and their handlers do not run.
  \<^item> Passwords, \<open>src/password.c\<close>. \<open>Scanf\<close>: the part of \<open>sscanf\<close> and \<open>printf\<close> that the source
    uses. \<open>Password\<close>: the records and that they are parsed exactly and verified.
  \<^item> Direct connections, \<open>src/socket_direct.c\<close>. \<open>Rendezvous\<close>: candidates and messages, with
    their round trip. \<open>Punch\<close>: STUN discovery, paced probes and the client of a rendezvous as
    steps over what it receives. \<open>Punch_Correct\<close>: responses are read in bounds and exactly,
    probes are spaced, candidates are well formed, and the deadline is not observed while
    frames arrive.
  \<^item> Connections and streams, \<open>src/socket.c\<close> and \<open>src/socket_private.h\<close>. \<open>Streams\<close>: the typed
    preface, pending streams, opening, accepting, reading, writing and closing, and the
    comparison of addresses. \<open>Streams_Correct\<close>: bytes arrive in order behind the preface;
    addresses are compared on exactly the bits of the prefix. \<open>Streams_Session\<close>: any sequence of
    operations as a step relation, which never frees a stream twice and keeps the bound on
    pending streams, but can be blocked by further game streams.
  \<^item> QUIC transport, \<open>src/socket_quic.c\<close>. \<open>Quic_Race\<close>: the order of candidates and the threads
    that try them, as a step relation over all schedules. \<open>Quic_Race_Correct\<close>: the race ends,
    the best connection that succeeded is returned and all other sockets are destroyed.
    \<open>Quic_Peer\<close>: the handshake authenticates the peer by the published fingerprint; timers.
  \<^item> HTTP downloads, \<open>src/curl.c\<close>. \<open>Http\<close>: requests with their mutex and thread, the callbacks of
    libcurl and OpenSSL, pinned certificates and the cache. \<open>Http_Correct\<close>: checked transfers hold
    only data of trusted connections and stay in their limit, the cache returns what was stored,
    and which requests are freed under their thread or wait for their own mutex.

  \<^bold>\<open>How the code is represented.\<close> A struct is a record, an enum a datatype, a fixed-width
  integer a word of that width. A \<open>size_t\<close> is a natural number with \<open>SIZE_MAX\<close>, and where
  the source relies on wrap-around or guards against it, the model wraps (\<open>size_add\<close>) or has
  the guard. State that a function changes is passed in and returned. A null pointer, an
  early return and undefined behaviour are values: \<open>None\<close> stands for an access outside a
  buffer or through a dangling pointer, and a theorem that the result is \<open>Some\<close> excludes it.
  Memory that \<open>xmalloc\<close> returns is uninitialised in C; its contents, or its address, are
  arguments of the model, so the theorems hold for all of them. Callbacks (the graph of a
  search, the comparison of a sort) are arguments too.

  \<^bold>\<open>Loops.\<close> A loop whose end is not structural is \<open>c_loop\<close> of \<open>Prelude\<close>, whose value is
  \<open>None\<close> when the C loop would not end. Every claim that a function returns is a proof that
  its value is \<open>Some\<close>, by \<open>c_loop_total\<close> with a well-founded measure; \<open>c_loop_diverges\<close> shows
  the opposite. The pathfinding loops end because budgets and costs are bounded, the MAP loop
  because every tile consumes bytes, the rejection loop of \<open>rng_range\<close> because the
  congruential sequence behind it sets bit 46 of its state again within $2^{46}$ steps, the
  start-up of modules because dependencies have no cycle. The loop of a rendezvous runs over
  a list of inputs, since it ends when its peers let it. The only fuel is the depth to which
  configuration files load each other. A depth above the rank of a file is enough, in any ranking
  that decreases from a file to those it loads (\<open>load_ranked_settles\<close>), and a greater depth gives
  the same result (\<open>clioptions_load_depth\<close>); files that load themselves have no ranking, and the
  code does not return from them either.

  \<^bold>\<open>Not modelled.\<close> Code that is input and output around the operating system, OpenSSL or
  libcurl (the creation, connection and options of sockets in \<open>socket.c\<close>, contexts and
  listeners in \<open>socket_quic.c\<close>, \<open>process.c\<close>, \<open>console.c\<close>, \<open>logger.c\<close>,
  \<open>signals.c\<close>, \<open>datetime.c\<close>, \<open>binreloc.c\<close>, \<open>porting.c\<close>, \<open>memory.c\<close>), the
  vendored container macros, and the floating-point functions of \<open>math.c\<close> and
  \<open>colorspace.c\<close>. Statistics that are only printed and log lines are left out, except the
  counters of \<open>shstr.c\<close>, which its functions change.
\<close>

end
